(* ===== verification/Prelude.thy ===== *)
theory Prelude
  imports Main "HOL-Library.Word" "HOL-Library.Signed_Division"
begin

text \<open>
  Vocabulary shared by the whole development: the fixed-width integer types of the
  firmware, the faults that undefined C behaviour is mapped to, the error monad that carries
  them, and the generic lemmas (machine words, lists, runs of a step function) the components use.
\<close>

unbundle bit_operations_syntax

named_theorems fw_defs \<open>definitions a component proof unfolds\<close>
named_theorems fw_inv \<open>invariant preservation facts\<close>

section \<open>Machine integers\<close>

type_synonym u8 = "8 word"
type_synonym u16 = "16 word"
type_synonym u32 = "32 word"

text \<open>
  A C \<open>int\<close> / \<open>rt_int32_t\<close> value is kept as a mathematical integer together with a proof, where it
  matters, that it stays inside the 32-bit range; \<open>in_int32\<close> is that range.
\<close>

definition in_int32 :: "int \<Rightarrow> bool" where
  "in_int32 i \<longleftrightarrow> - (2 ^ 31) \<le> i \<and> i < 2 ^ 31"

lemma in_int32_abs: "\<bar>i\<bar> < 2 ^ 31 \<Longrightarrow> in_int32 i"
  by (auto simp: in_int32_def)

lemma unat_u8_lt [simp]: "unat (x :: u8) < 256"
  using unsigned_less [of x] by simp

lemma uint_u8_bounds: "0 \<le> uint (x :: u8)" "uint x \<le> 255"
  using uint_lt2p [of x] by simp_all

lemma unat_u32_lt: "unat (x :: u32) < 4294967296"
  using unsigned_less [of x, where 'a = nat] by simp

lemma unat_u16_lt: "unat (x :: u16) < 65536"
  using unsigned_less [of x, where 'a = nat] by simp

lemma unat_inc_less:
  fixes a b :: "'a :: len word"
  assumes "a < b"
  shows "unat (a + 1) = Suc (unat a)"
proof -
  have "unat a < unat b" using assms by (simp add: word_less_nat_alt)
  moreover have "unat b < 2 ^ LENGTH('a)" by (rule unsigned_less)
  ultimately have "unat a + 1 < 2 ^ LENGTH('a)" by linarith
  then show ?thesis by (simp add: unat_word_ariths)
qed

lemma unat_dec_pos:
  fixes b :: "'a :: len word"
  assumes "b \<noteq> 0"
  shows "unat (b - 1) = unat b - 1"
  using assms by (rule unat_minus_one)

lemma uint_inc_less:
  fixes a b :: "'a :: len word"
  assumes "a < b"
  shows "uint (a + 1) = uint a + 1"
  unfolding uint_nat unat_inc_less [OF assms] by simp

lemma uint_dec_pos:
  fixes b :: "'a :: len word"
  assumes "b \<noteq> 0"
  shows "uint (b - 1) = uint b - 1"
proof -
  have "1 \<le> unat b" using assms by (simp add: Suc_le_eq unat_gt_0)
  then have "int (unat b - 1) = int (unat b) - 1" by (simp only: of_nat_diff of_nat_1)
  then show ?thesis unfolding uint_nat unat_dec_pos [OF assms] .
qed

lemma ucast_16_32_16 [simp]: "ucast ((ucast (x :: u16)) :: u32) = x"
  by (rule bit_word_eqI) (simp add: bit_simps)

lemma ucast_16_32_16_inc [simp]: "ucast ((ucast (x :: u16) :: u32) + 1) = x + 1"
proof -
  have "uint x mod 4294967296 = uint x" using uint_lt2p [of x] by simp
  then show ?thesis
    by (simp add: word_uint_eq_iff uint_word_ariths unsigned_ucast_eq take_bit_eq_mod mod_mod_cancel)
qed

text \<open>Rounding up and down to a power of two.\<close>

definition RT_ALIGN :: "u32 \<Rightarrow> u32 \<Rightarrow> u32" where
  "RT_ALIGN sz al = (sz + al - 1) AND NOT (al - 1)"

definition RT_ALIGN_DOWN :: "u32 \<Rightarrow> u32 \<Rightarrow> u32" where
  "RT_ALIGN_DOWN sz al = sz AND NOT (al - 1)"

lemma unat_align_down: "unat (x AND NOT 3 :: u32) = 4 * (unat x div 4)"
proof -
  have s: "2 \<le> n \<Longrightarrow> Suc (Suc (n - 2)) = n" for n by simp
  have "x AND NOT (mask 2) = push_bit 2 (drop_bit 2 x)" by (rule bit_word_eqI) (auto simp: bit_simps not_less s)
  then have e: "x AND NOT 3 = drop_bit 2 x * 4" by (simp add: push_bit_eq_mult mask_eq_exp_minus_1)
  have d: "unat (drop_bit 2 x) = unat x div 4" by (simp add: drop_bit_eq_div unat_div)
  have "4 * (unat x div 4) < 4294967296" using unat_u32_lt [of x] by (simp add: order.strict_trans1 [OF times_div_less_eq_dividend])
  then show ?thesis unfolding e by (simp add: unat_word_ariths d mult.commute)
qed

lemma RT_ALIGN_4: "RT_ALIGN x 4 = (x + 3) AND NOT 3"
  by (simp add: RT_ALIGN_def add.commute)

lemma RT_ALIGN_DOWN_4: "RT_ALIGN_DOWN x 4 = x AND NOT 3"
  by (simp add: RT_ALIGN_DOWN_def)

lemma RT_ALIGN_dvd: "4 dvd unat (RT_ALIGN x 4)"
  unfolding RT_ALIGN_4 unat_align_down by simp

lemma RT_ALIGN_value: "unat x + 3 < 4294967296 \<Longrightarrow> unat (RT_ALIGN x 4) = 4 * ((unat x + 3) div 4)"
  unfolding RT_ALIGN_4 unat_align_down by (simp add: unat_word_ariths)

section \<open>Faults and the error monad\<close>

text \<open>
  An array access outside the array is undefined behaviour in C. In the model it is a value,
  and every definition that can reach it returns a sum.
  \<open>Undefined\<close> stands for the rest of undefined behaviour that a definition can reach: an \<open>int\<close> that overflows, a
  variable argument that is missing or of another type, and \<open>NoReturn\<close> for a loop that does not end.
\<close>

datatype fault = OutOfBounds | AssertFailed | NullPointer | Undefined | NoReturn

definition bind_err :: "'e + 'a \<Rightarrow> ('a \<Rightarrow> 'e + 'b) \<Rightarrow> 'e + 'b" where
  "bind_err r f = (case r of Inl e \<Rightarrow> Inl e | Inr a \<Rightarrow> f a)"

lemma bind_err_simps [simp]:
  "bind_err (Inl e) f = Inl e"
  "bind_err (Inr a) f = f a"
  by (simp_all add: bind_err_def)

lemma bind_err_Inr_iff: "bind_err r f = Inr b \<longleftrightarrow> (\<exists>a. r = Inr a \<and> f a = Inr b)"
  by (cases r) auto

lemma bind_err_assoc: "bind_err (bind_err r f) g = bind_err r (\<lambda>a. bind_err (f a) g)"
  by (cases r) auto

text \<open>Running a step after a loop that may not end.\<close>

definition bind_opt :: "('e + 'a) option \<Rightarrow> ('a \<Rightarrow> ('e + 'b) option) \<Rightarrow> ('e + 'b) option" where
  "bind_opt r f = (case r of None \<Rightarrow> None | Some (Inl e) \<Rightarrow> Some (Inl e) | Some (Inr a) \<Rightarrow> f a)"

lemma bind_opt_simps [simp]:
  "bind_opt None f = None" "bind_opt (Some (Inl e)) f = Some (Inl e)" "bind_opt (Some (Inr a)) f = f a"
  by (simp_all add: bind_opt_def)

text \<open>Array read and write as C does them inside the bounds, a fault outside.\<close>

definition arr_get :: "'a list \<Rightarrow> nat \<Rightarrow> fault + 'a" where
  "arr_get xs i = (if i < length xs then Inr (xs ! i) else Inl OutOfBounds)"

definition arr_set :: "'a list \<Rightarrow> nat \<Rightarrow> 'a \<Rightarrow> fault + 'a list" where
  "arr_set xs i v = (if i < length xs then Inr (xs[i := v]) else Inl OutOfBounds)"

lemma arr_get_in [simp]: "i < length xs \<Longrightarrow> arr_get xs i = Inr (xs ! i)"
  by (simp add: arr_get_def)

lemma arr_set_in [simp]: "i < length xs \<Longrightarrow> arr_set xs i v = Inr (xs[i := v])"
  by (simp add: arr_set_def)

lemma arr_get_out [simp]: "length xs \<le> i \<Longrightarrow> arr_get xs i = Inl OutOfBounds"
  by (simp add: arr_get_def)

lemma arr_set_out [simp]: "length xs \<le> i \<Longrightarrow> arr_set xs i v = Inl OutOfBounds"
  by (simp add: arr_set_def)

lemma filter_other [simp]: "t \<notin> set us \<Longrightarrow> filter (\<lambda>u. u \<noteq> t) us = us"
  by (auto simp: filter_id_conv)

section \<open>Runs of a step function and invariants\<close>

text \<open>
  Most components are threads of the form \<open>init; while (1) body\<close>. The interface below is what a
  property of every run needs from such a component: an initial state, a step driven by an input,
  and an invariant the step keeps. Its lemmas are used through interpretations.
\<close>

fun run_steps :: "('s \<Rightarrow> 'i \<Rightarrow> 's) \<Rightarrow> 's \<Rightarrow> 'i list \<Rightarrow> 's" where
  "run_steps f s [] = s"
| "run_steps f s (x # xs) = run_steps f (f s x) xs"

lemma run_steps_append: "run_steps f s (xs @ ys) = run_steps f (run_steps f s xs) ys"
  by (induction xs arbitrary: s) auto

locale guarded_system =
  fixes init :: "'s"
    and step :: "'s \<Rightarrow> 'i \<Rightarrow> 's"
    and ok_input :: "'i \<Rightarrow> bool"
    and inv :: "'s \<Rightarrow> bool"
  assumes inv_init: "inv init"
    and inv_step: "inv s \<Longrightarrow> ok_input i \<Longrightarrow> inv (step s i)"
begin

lemma inv_run_from: "inv s \<Longrightarrow> list_all ok_input is \<Longrightarrow> inv (run_steps step s is)"
proof (induction "is" arbitrary: s)
  case Nil
  then show ?case by simp
next
  case (Cons i js)
  then show ?case by (simp add: inv_step)
qed

lemma inv_run: "list_all ok_input is \<Longrightarrow> inv (run_steps step init is)"
  using inv_run_from [OF inv_init] .

lemma inv_prefix:
  assumes "list_all ok_input (is @ js)"
  shows "inv (run_steps step init is)"
  using assms by (intro inv_run) simp

end

section \<open>Simulation of a specification\<close>

text \<open>
  A component that handles one input at a time, and a specification of it that may leave some inputs open (\<open>None\<close>).
  When each step simulates the specification, so does every run that the specification covers.
\<close>

primrec run_err :: "('i \<Rightarrow> 's \<Rightarrow> 'e + 's) \<Rightarrow> 's \<Rightarrow> 'i list \<Rightarrow> 'e + 's" where
  "run_err f s [] = Inr s"
| "run_err f s (i # is) = bind_err (f i s) (\<lambda>s. run_err f s is)"

primrec run_opt :: "('i \<Rightarrow> 'a \<Rightarrow> 'a option) \<Rightarrow> 'a \<Rightarrow> 'i list \<Rightarrow> 'a option" where
  "run_opt f a [] = Some a"
| "run_opt f a (i # is) = Option.bind (f i a) (\<lambda>a. run_opt f a is)"

locale simulation =
  fixes step :: "'i \<Rightarrow> 's \<Rightarrow> 'e + 's"
    and spec :: "'i \<Rightarrow> 'a \<Rightarrow> 'a option"
    and rel :: "'s \<Rightarrow> 'a \<Rightarrow> bool"
  assumes step_rel: "rel s a \<Longrightarrow> spec i a = Some a' \<Longrightarrow> \<exists>s'. step i s = Inr s' \<and> rel s' a'"
begin

lemma run_rel: "rel s a \<Longrightarrow> run_opt spec a is = Some a' \<Longrightarrow> \<exists>s'. run_err step s is = Inr s' \<and> rel s' a'"
proof (induction "is" arbitrary: s a)
  case (Cons i js)
  then obtain b where b: "spec i a = Some b" "run_opt spec b js = Some a'"
    by (auto simp: bind_eq_Some_conv)
  from step_rel [OF Cons.prems(1) b(1)] obtain t where "step i s = Inr t" "rel t b" by blast
  then show ?case using Cons.IH b(2) by simp
qed simp

end

end
