(* ===== verification/Float32.thy ===== *)
theory Float32
  imports Prelude Complex_Main
begin

text \<open>
  The single-precision arithmetic the motor filter uses: IEEE 754 binary32 values in the finite
  normal range as integer mantissa and exponent, every operation rounded to 24 bits, to nearest
  with ties to even. Exponents are unbounded here; the filter's values lie between
  \<open>2^-26\<close> and \<open>2^24\<close>, far from overflow and from subnormals. Each C operation is rounded on its own
  (no fused multiply-add).
\<close>

datatype f32 = F32 (mant: int) (expo: int)

definition f32_val :: "f32 \<Rightarrow> real" where
  "f32_val x = of_int (mant x) * 2 powi (expo x)"

text \<open>Number of binary digits.\<close>

function nbits :: "int \<Rightarrow> nat" where
  "nbits n = (if n \<le> 0 then 0 else Suc (nbits (n div 2)))"
  by pat_completeness auto
termination
  by (relation "measure nat") auto

declare nbits.simps [simp del]

text \<open>Drop \<open>k\<close> low bits of an integer, to nearest, ties to even.\<close>

definition rne :: "int \<Rightarrow> nat \<Rightarrow> int" where
  "rne m k =
     (let q = m div 2 ^ k; r = m mod 2 ^ k
      in if 2 * r < 2 ^ k then q
         else if 2 * r > 2 ^ k then q + 1
         else q + q mod 2)"

definition f32_round :: "int \<Rightarrow> int \<Rightarrow> f32" where
  "f32_round m e =
     (let k = nbits \<bar>m\<bar> - 24 in F32 (rne m k) (e + int k))"

definition f32_of_int :: "int \<Rightarrow> f32" where
  "f32_of_int i = f32_round i 0"

definition f32_mul :: "f32 \<Rightarrow> f32 \<Rightarrow> f32" where
  "f32_mul x y = f32_round (mant x * mant y) (expo x + expo y)"

definition f32_add :: "f32 \<Rightarrow> f32 \<Rightarrow> f32" where
  "f32_add x y =
     (let e = min (expo x) (expo y)
      in f32_round (mant x * 2 ^ nat (expo x - e) + mant y * 2 ^ nat (expo y - e)) e)"

definition f32_neg :: "f32 \<Rightarrow> f32" where
  "f32_neg x = F32 (- mant x) (expo x)"

definition f32_sub :: "f32 \<Rightarrow> f32 \<Rightarrow> f32" where
  "f32_sub x y = f32_add x (f32_neg y)"

definition f32_less :: "f32 \<Rightarrow> f32 \<Rightarrow> bool" where
  "f32_less x y =
     (let e = min (expo x) (expo y)
      in mant x * 2 ^ nat (expo x - e) < mant y * 2 ^ nat (expo y - e))"

text \<open>Conversion to an integer truncates towards zero.\<close>

definition f32_to_int :: "f32 \<Rightarrow> int" where
  "f32_to_int x =
     (if 0 \<le> expo x then mant x * 2 ^ nat (expo x)
      else sgn (mant x) * (\<bar>mant x\<bar> div 2 ^ nat (- expo x)))"

section \<open>Rounding\<close>

lemma nbits_bounds: "0 < n \<Longrightarrow> 2 ^ (nbits n - 1) \<le> n \<and> n < 2 ^ nbits n"
proof (induction n rule: nbits.induct)
  case (1 n)
  show ?case
  proof (cases "n = 1")
    case True
    then show ?thesis by (simp add: nbits.simps)
  next
    case False
    with "1.prems" have half: "0 < n div 2" by linarith
    then have ih: "2 ^ (nbits (n div 2) - 1) \<le> n div 2 \<and> n div 2 < 2 ^ nbits (n div 2)"
      using "1.IH" "1.prems" by simp
    obtain k where k: "nbits (n div 2) = Suc k"
      using half by (subst (asm) linorder_not_le [symmetric]) (simp add: nbits.simps [of "n div 2"])
    have "nbits n = Suc (Suc k)" using "1.prems" k by (subst nbits.simps) simp
    with ih k show ?thesis by simp linarith
  qed
qed

lemma nbits_le: "n < 2 ^ k \<Longrightarrow> nbits n \<le> k"
proof (rule ccontr)
  assume n: "n < 2 ^ k" and "\<not> nbits n \<le> k"
  then have "0 < n" "k \<le> nbits n - 1" by (auto simp: nbits.simps [of n] split: if_splits)
  with nbits_bounds [of n] have "2 ^ k \<le> n"
    by (meson le_less_trans not_le one_le_numeral power_increasing)
  with n show False by simp
qed

lemma rne_0 [simp]: "rne m 0 = m"
  by (simp add: rne_def)

lemma half_gap:
  "(a::int) = - b \<Longrightarrow> 0 \<le> b \<Longrightarrow> 2 * b \<le> p \<Longrightarrow> \<bar>a\<bar> * 2 \<le> p"
  "(a::int) = p - b \<Longrightarrow> b < p \<Longrightarrow> p \<le> 2 * b \<Longrightarrow> \<bar>a\<bar> * 2 \<le> p"
  by linarith+

lemma rne_error: "\<bar>rne m k * 2 ^ k - m\<bar> * 2 \<le> 2 ^ k"
proof -
  let ?p = "2 ^ k :: int"
  have split: "m = m div ?p * ?p + m mod ?p" by (rule div_mult_mod_eq [symmetric])
  have r: "0 \<le> m mod ?p" "m mod ?p < ?p" by simp_all
  have "rne m k * ?p - m \<in> {- (m mod ?p), ?p - m mod ?p}"
    and "rne m k * ?p - m = - (m mod ?p) \<Longrightarrow> 2 * (m mod ?p) \<le> ?p"
    and "rne m k * ?p - m = ?p - m mod ?p \<Longrightarrow> ?p \<le> 2 * (m mod ?p)"
  proof -
    have even_odd: "(m div ?p) mod 2 = 0 \<or> (m div ?p) mod 2 = 1" by auto
    have "rne m k = m div ?p \<or> rne m k = m div ?p + 1"
      using even_odd by (auto simp: rne_def Let_def)
    moreover have "rne m k = m div ?p \<Longrightarrow> 2 * (m mod ?p) \<le> ?p"
      by (auto simp: rne_def Let_def split: if_splits)
    moreover have "rne m k = m div ?p + 1 \<Longrightarrow> ?p \<le> 2 * (m mod ?p)"
      by (auto simp: rne_def Let_def split: if_splits)
    ultimately show "rne m k * ?p - m \<in> {- (m mod ?p), ?p - m mod ?p}"
      and "rne m k * ?p - m = - (m mod ?p) \<Longrightarrow> 2 * (m mod ?p) \<le> ?p"
      and "rne m k * ?p - m = ?p - m mod ?p \<Longrightarrow> ?p \<le> 2 * (m mod ?p)"
      using split r by (auto simp: algebra_simps)
  qed
  then consider "rne m k * ?p - m = - (m mod ?p)" "2 * (m mod ?p) \<le> ?p"
    | "rne m k * ?p - m = ?p - m mod ?p" "?p \<le> 2 * (m mod ?p)"
    by blast
  then show ?thesis
  proof cases
    case 1
    show ?thesis by (rule half_gap(1) [OF 1(1) r(1) 1(2)])
  next
    case 2
    show ?thesis by (rule half_gap(2) [OF 2(1) r(2) 2(2)])
  qed
qed

lemma f32_round_small: "\<bar>m\<bar> < 2 ^ 24 \<Longrightarrow> f32_round m e = F32 m e"
proof -
  assume "\<bar>m\<bar> < 2 ^ 24"
  then have "nbits \<bar>m\<bar> - 24 = 0" using nbits_le by fastforce
  then show ?thesis by (simp add: f32_round_def)
qed

text \<open>Relative error of one rounding: half a unit in the last of 24 places.\<close>

lemma f32_round_error:
  "\<bar>f32_val (f32_round m e) - of_int m * 2 powi e\<bar> \<le> \<bar>of_int m * 2 powi e\<bar> / 2 ^ 24"
proof (cases "\<bar>m\<bar> < 2 ^ 24")
  case True
  then show ?thesis by (simp add: f32_round_small f32_val_def)
next
  case False
  define k where "k = nbits \<bar>m\<bar> - 24"
  have pos: "0 < \<bar>m\<bar>" using False by simp
  have "\<not> nbits \<bar>m\<bar> \<le> 24"
  proof
    assume "nbits \<bar>m\<bar> \<le> 24"
    then have "(2::int) ^ nbits \<bar>m\<bar> \<le> 2 ^ 24" by (intro power_increasing) simp_all
    with nbits_bounds [OF pos] have "\<bar>m\<bar> < 2 ^ 24" by (meson less_le_trans)
    with False show False by simp
  qed
  then have "nbits \<bar>m\<bar> - 1 = k + 23" by (simp add: k_def)
  with nbits_bounds [OF pos] have "2 ^ (k + 23) \<le> \<bar>m\<bar>" by simp
  then have "2 ^ k * 2 ^ 23 \<le> \<bar>m\<bar>" by (simp add: power_add)
  moreover have "(\<bar>rne m k * 2 ^ k - m\<bar> * 2) * 2 ^ 23 \<le> 2 ^ k * 2 ^ 23"
    by (intro mult_right_mono rne_error) simp
  ultimately have "\<bar>rne m k * 2 ^ k - m\<bar> * 2 ^ 24 \<le> \<bar>m\<bar>" by simp
  then have "of_int (\<bar>rne m k * 2 ^ k - m\<bar> * 2 ^ 24) \<le> (of_int \<bar>m\<bar> :: real)" by (simp only: of_int_le_iff)
  then have err: "\<bar>of_int (rne m k) * 2 ^ k - of_int m\<bar> \<le> \<bar>of_int m\<bar> / (2 ^ 24 :: real)"
    by (simp add: field_simps)
  have "f32_val (f32_round m e) - of_int m * 2 powi e =
      (of_int (rne m k) * 2 ^ k - of_int m) * 2 powi e"
    by (simp add: f32_val_def f32_round_def k_def Let_def power_int_add algebra_simps)
  then have "\<bar>f32_val (f32_round m e) - of_int m * 2 powi e\<bar> =
      \<bar>of_int (rne m k) * 2 ^ k - of_int m\<bar> * 2 powi e"
    by (simp add: abs_mult)
  also have "\<dots> \<le> \<bar>of_int m\<bar> / 2 ^ 24 * 2 powi e"
    using err by (intro mult_right_mono) simp_all
  finally show ?thesis by (simp add: abs_mult)
qed

corollary f32_round_abs:
  "\<bar>f32_val (f32_round m e)\<bar> \<le> \<bar>of_int m * 2 powi e\<bar> * (1 + 1 / 2 ^ 24)"
proof -
  have "\<bar>f32_val (f32_round m e)\<bar>
      \<le> \<bar>f32_val (f32_round m e) - of_int m * 2 powi e\<bar> + \<bar>of_int m * 2 powi e\<bar>"
    by linarith
  with f32_round_error [of m e] show ?thesis by (simp add: distrib_left)
qed

section \<open>Operations\<close>

lemma f32_mul_abs:
  "\<bar>f32_val (f32_mul x y)\<bar> \<le> \<bar>f32_val x\<bar> * \<bar>f32_val y\<bar> * (1 + 1 / 2 ^ 24)"
  using f32_round_abs [of "mant x * mant y" "expo x + expo y"]
  by (simp add: f32_mul_def f32_val_def power_int_add abs_mult algebra_simps)

lemma align_val:
  assumes "e \<le> expo x"
  shows "of_int (mant x * 2 ^ nat (expo x - e)) * 2 powi e = f32_val x"
proof -
  obtain n where "expo x = int n + e"
    using assms by (metis diff_add_cancel diff_ge_0_iff_ge zero_le_imp_eq_int)
  then show ?thesis by (simp add: f32_val_def power_int_add)
qed

lemma f32_add_abs:
  "\<bar>f32_val (f32_add x y)\<bar> \<le> \<bar>f32_val x + f32_val y\<bar> * (1 + 1 / 2 ^ 24)"
proof -
  let ?e = "min (expo x) (expo y)"
  have "of_int (mant x * 2 ^ nat (expo x - ?e) + mant y * 2 ^ nat (expo y - ?e)) * 2 powi ?e
      = f32_val x + f32_val y"
    using align_val [of ?e x] align_val [of ?e y] by (simp add: algebra_simps)
  with f32_round_abs [of "mant x * 2 ^ nat (expo x - ?e) + mant y * 2 ^ nat (expo y - ?e)" ?e]
  show ?thesis by (simp only: f32_add_def Let_def)
qed

lemma f32_to_int_abs: "\<bar>real_of_int (f32_to_int x)\<bar> \<le> \<bar>f32_val x\<bar>"
proof (cases "0 \<le> expo x")
  case True
  then show ?thesis
    by (simp add: f32_to_int_def f32_val_def power_int_def)
next
  case False
  let ?n = "nat (- expo x)"
  have "of_int (\<bar>mant x\<bar> div 2 ^ ?n) \<le> (of_int \<bar>mant x\<bar> / of_int (2 ^ ?n) :: real)"
    by (rule real_of_int_div4)
  moreover have "(2::real) powi (expo x) = 1 / 2 ^ ?n"
    using False by (simp add: power_int_def field_simps)
  moreover have "\<bar>real_of_int (f32_to_int x)\<bar> \<le> of_int (\<bar>mant x\<bar> div 2 ^ ?n)"
    using False by (auto simp: f32_to_int_def abs_mult sgn_if pos_imp_zdiv_nonneg_iff)
  ultimately show ?thesis by (simp add: f32_val_def abs_mult)
qed

lemma f32_to_int_sgn: "f32_to_int x = 0 \<or> sgn (f32_to_int x) = sgn (mant x)"
  by (auto simp: f32_to_int_def sgn_mult sgn_if zero_less_mult_iff mult_less_0_iff
      pos_imp_zdiv_neg_iff pos_imp_zdiv_pos_iff split: if_splits)

text \<open>Integers below \<open>2^24\<close> are exact.\<close>

lemma f32_of_int_exact [simp]: "\<bar>i\<bar> < 2 ^ 24 \<Longrightarrow> f32_of_int i = F32 i 0"
  by (simp add: f32_of_int_def f32_round_small)

lemma f32_add_exact [simp]: "\<bar>i + j\<bar> < 2 ^ 24 \<Longrightarrow> f32_add (F32 i 0) (F32 j 0) = F32 (i + j) 0"
  by (simp add: f32_add_def f32_round_small)

lemma f32_less_exact [simp]: "f32_less (F32 i 0) (F32 j 0) \<longleftrightarrow> i < j"
  by (simp add: f32_less_def)

lemma f32_neg_exact [simp]: "f32_neg (F32 i e) = F32 (- i) e"
  by (simp add: f32_neg_def)

lemma f32_to_int_exact [simp]: "f32_to_int (F32 i 0) = i"
  by (simp add: f32_to_int_def)

end
