(* ===== verification/Pins.thy ===== *)
theory Pins
  imports Prelude
begin

text \<open>
  The boundary between the firmware and the board: GPIO pins, busy-wait and thread delays, PWM
  requests. The firmware's view of the board is the history of its own accesses, latest first.
  What the board answers to a pin read is an arbitrary function of that history (\<open>board\<close>); a
  property that holds for every such function holds for every attached hardware.
  Pin numbers are those of the \<open>GET_PIN\<close> macro (\<open>drivers/include/drv_common.h\<close>).
\<close>

section \<open>Pin numbers\<close>

datatype gpio_port = PA | PB | PC | PD | PE | PF | PG

text \<open>The \<open>GPIOx_BASE\<close> addresses of the STM32G431 (\<open>stm32g431xx.h\<close>).\<close>

fun gpio_base :: "gpio_port \<Rightarrow> nat" where
  "gpio_base PA = 0x48000000"
| "gpio_base PB = 0x48000400"
| "gpio_base PC = 0x48000800"
| "gpio_base PD = 0x48000C00"
| "gpio_base PE = 0x48001000"
| "gpio_base PF = 0x48001400"
| "gpio_base PG = 0x48001800"

definition GET_PIN :: "gpio_port \<Rightarrow> nat \<Rightarrow> nat" where
  "GET_PIN port pin = 16 * ((gpio_base port - gpio_base PA) div 0x400) + pin"

lemma GET_PIN_inj:
  assumes "GET_PIN p i = GET_PIN q j" and "i < 16" and "j < 16"
  shows "p = q \<and> i = j"
  using assms by (cases p; cases q) (simp_all add: GET_PIN_def)

section \<open>Accesses and the board\<close>

datatype pin_mode = MODE_OUTPUT | MODE_INPUT | MODE_INPUT_PULLUP | MODE_INPUT_PULLDOWN | MODE_OUTPUT_OD

datatype io =
    PinMode nat pin_mode
  | PinWrite nat bool
  | PinRead nat bool
  | DelayUs nat
  | DelayMs nat
  | PwmSet string nat u32 u32
  | PwmEnable string nat

type_synonym history = "io list"
type_synonym board = "history \<Rightarrow> nat \<Rightarrow> bool"

definition rt_pin_mode :: "nat \<Rightarrow> pin_mode \<Rightarrow> history \<Rightarrow> history" where
  "rt_pin_mode pin m h = PinMode pin m # h"

definition rt_pin_write :: "nat \<Rightarrow> bool \<Rightarrow> history \<Rightarrow> history" where
  "rt_pin_write pin v h = PinWrite pin v # h"

definition rt_pin_read :: "board \<Rightarrow> nat \<Rightarrow> history \<Rightarrow> bool \<times> history" where
  "rt_pin_read brd pin h = (let v = brd h pin in (v, PinRead pin v # h))"

definition rt_hw_us_delay :: "nat \<Rightarrow> history \<Rightarrow> history" where
  "rt_hw_us_delay us h = DelayUs us # h"

definition rt_thread_mdelay :: "nat \<Rightarrow> history \<Rightarrow> history" where
  "rt_thread_mdelay ms h = DelayMs ms # h"

lemmas pin_ops_def =
  rt_pin_mode_def rt_pin_write_def rt_pin_read_def rt_hw_us_delay_def rt_thread_mdelay_def

text \<open>The level last written to an output pin (low after reset).\<close>

fun level :: "nat \<Rightarrow> history \<Rightarrow> bool" where
  "level p [] = False"
| "level p (PinWrite q v # h) = (if q = p then v else level p h)"
| "level p (_ # h) = level p h"

lemma level_ops [simp]:
  "level p (rt_pin_mode q m h) = level p h"
  "level p (rt_pin_write q v h) = (if q = p then v else level p h)"
  "level p (snd (rt_pin_read brd q h)) = level p h"
  "level p (rt_hw_us_delay n h) = level p h"
  "level p (rt_thread_mdelay n h) = level p h"
  by (simp_all add: pin_ops_def Let_def)

end
