(* ===== verification/Pwm.thy ===== *)
theory Pwm
  imports Pins
begin

text \<open>
  The PWM device: the generic layer (\<open>rt_drv_pwm.c\<close>) and the STM32 timer driver
  (\<open>drivers/drv_pwm.c\<close>). A timer is the registers the driver writes; the peripheral clock the
  HAL reports is an argument. Requests are in nanoseconds, as \<open>rt_drv_pwm.h\<close> documents.
\<close>

section \<open>Configuration, timer registers, error codes\<close>

record rt_pwm_configuration =
  channel :: u32
  period :: u32
  pulse :: u32
  complementary :: bool

record tim =
  PSC :: nat
  ARR :: nat
  CCR :: "nat \<Rightarrow> nat"
  CNT :: nat
  running :: "nat \<Rightarrow> bool"

datatype pwm_cmd = PWM_CMD_ENABLE | PWM_CMD_DISABLE | PWM_CMD_SET | PWM_CMD_GET | PWM_CMD_OTHER nat

definition RT_EOK :: int where "RT_EOK = 0"
definition RT_EIO :: int where "RT_EIO = 8"
definition RT_EINVAL :: int where "RT_EINVAL = 10"

definition MAX_PERIOD :: nat where "MAX_PERIOD = 65535"
definition MIN_PERIOD :: nat where "MIN_PERIOD = 3"
definition MIN_PULSE :: nat where "MIN_PULSE = 2"

text \<open>
  The clock the driver assumes for TIM1 and TIM8: twice the APB2 clock, in MHz. The division
  setting is \<open>TIM_CLOCKDIVISION_DIV1\<close> as \<open>stm32_hw_pwm_init\<close> leaves it.
\<close>

definition drv_tim_clock :: "nat \<Rightarrow> nat" where
  "drv_tim_clock pclk2 = pclk2 * 2 div 1000000"

definition hal_channel :: "rt_pwm_configuration \<Rightarrow> nat" where
  "hal_channel c = unat (0x04 * (channel c - 1))"

section \<open>The timer driver\<close>

definition drv_pwm_enable :: "tim \<Rightarrow> rt_pwm_configuration \<Rightarrow> bool \<Rightarrow> int \<times> tim" where
  "drv_pwm_enable t c enable =
     (RT_EOK, t\<lparr>running := (running t)(hal_channel c := enable)\<rparr>)"

definition drv_pwm_get :: "nat \<Rightarrow> tim \<Rightarrow> rt_pwm_configuration \<Rightarrow> int \<times> rt_pwm_configuration" where
  "drv_pwm_get pclk2 t c =
     (let clk = drv_tim_clock pclk2 in
      (RT_EOK,
       c\<lparr>period := of_nat ((ARR t + 1) * (PSC t + 1) * 1000 div clk),
         pulse := of_nat ((CCR t (hal_channel c) + 1) * (PSC t + 1) * 1000 div clk)\<rparr>))"

definition drv_pwm_set :: "nat \<Rightarrow> tim \<Rightarrow> rt_pwm_configuration \<Rightarrow> int \<times> tim" where
  "drv_pwm_set pclk2 t c =
     (let clk = drv_tim_clock pclk2;
          p0 = (unat (period c) * clk div 1000) mod 2 ^ 32;
          psc = p0 div MAX_PERIOD + 1;
          p1 = p0 div psc;
          p2 = (if p1 < MIN_PERIOD then MIN_PERIOD else p1);
          d0 = (unat (pulse c) * clk div psc div 1000) mod 2 ^ 32;
          d1 = (if d0 < MIN_PULSE then MIN_PULSE else if d0 > p2 then p2 else d0)
      in (RT_EOK,
          t\<lparr>PSC := psc - 1, ARR := p2 - 1, CCR := (CCR t)(hal_channel c := d1 - 1), CNT := 0\<rparr>))"

definition drv_pwm_control ::
  "nat \<Rightarrow> tim \<Rightarrow> pwm_cmd \<Rightarrow> rt_pwm_configuration \<Rightarrow> int \<times> tim \<times> rt_pwm_configuration" where
  "drv_pwm_control pclk2 t cmd c =
     (case cmd of
        PWM_CMD_ENABLE \<Rightarrow> (let (r, t') = drv_pwm_enable t c True in (r, t', c))
      | PWM_CMD_DISABLE \<Rightarrow> (let (r, t') = drv_pwm_enable t c False in (r, t', c))
      | PWM_CMD_SET \<Rightarrow> (let (r, t') = drv_pwm_set pclk2 t c in (r, t', c))
      | PWM_CMD_GET \<Rightarrow> (let (r, c') = drv_pwm_get pclk2 t c in (r, t, c'))
      | PWM_CMD_OTHER _ \<Rightarrow> (RT_EINVAL, t, c))"

section \<open>The generic PWM API\<close>

text \<open>A null device pointer is \<open>None\<close>; a device is its timer.\<close>

definition no_configuration :: rt_pwm_configuration where
  "no_configuration = \<lparr>channel = 0, period = 0, pulse = 0, complementary = False\<rparr>"

definition signed_channel :: "int \<Rightarrow> rt_pwm_configuration" where
  "signed_channel ch =
     no_configuration\<lparr>channel := of_int (if ch > 0 then ch else - ch),
                      complementary := \<not> (ch > 0)\<rparr>"

definition rt_pwm_enable :: "nat \<Rightarrow> tim option \<Rightarrow> int \<Rightarrow> int \<times> tim option" where
  "rt_pwm_enable pclk2 dev ch =
     (case dev of None \<Rightarrow> (- RT_EIO, None)
      | Some t \<Rightarrow>
          let (r, t', c') = drv_pwm_control pclk2 t PWM_CMD_ENABLE (signed_channel ch) in (r, Some t'))"

definition rt_pwm_disable :: "nat \<Rightarrow> tim option \<Rightarrow> int \<Rightarrow> int \<times> tim option" where
  "rt_pwm_disable pclk2 dev ch =
     (case dev of None \<Rightarrow> (- RT_EIO, None)
      | Some t \<Rightarrow>
          let (r, t', c') = drv_pwm_control pclk2 t PWM_CMD_DISABLE (signed_channel ch) in (r, Some t'))"

definition rt_pwm_set :: "nat \<Rightarrow> tim option \<Rightarrow> int \<Rightarrow> u32 \<Rightarrow> u32 \<Rightarrow> int \<times> tim option" where
  "rt_pwm_set pclk2 dev ch per pul =
     (case dev of None \<Rightarrow> (- RT_EIO, None)
      | Some t \<Rightarrow>
          let (r, t', c') = drv_pwm_control pclk2 t PWM_CMD_SET
                              (no_configuration\<lparr>channel := of_int ch, period := per, pulse := pul\<rparr>)
          in (r, Some t'))"

definition rt_pwm_get ::
  "nat \<Rightarrow> tim option \<Rightarrow> rt_pwm_configuration \<Rightarrow> int \<times> rt_pwm_configuration" where
  "rt_pwm_get pclk2 dev c =
     (case dev of None \<Rightarrow> (- RT_EIO, c)
      | Some t \<Rightarrow> let (r, t', c') = drv_pwm_control pclk2 t PWM_CMD_GET c in (r, c'))"

text \<open>The device-file read and write of a pulse; \<open>pos\<close> is the channel.\<close>

definition pwm_read :: "nat \<Rightarrow> tim \<Rightarrow> u32 \<Rightarrow> nat \<Rightarrow> nat \<times> u32 option" where
  "pwm_read pclk2 t pos sz =
     (let (r, t', c') = drv_pwm_control pclk2 t PWM_CMD_GET (no_configuration\<lparr>channel := pos\<rparr>)
      in if r \<noteq> RT_EOK then (0, None) else (sz, Some (pulse c')))"

definition pwm_write :: "nat \<Rightarrow> tim \<Rightarrow> u32 \<Rightarrow> u32 \<Rightarrow> nat \<Rightarrow> nat \<times> tim" where
  "pwm_write pclk2 t pos val sz =
     (let (r, t', c') = drv_pwm_control pclk2 t PWM_CMD_GET (no_configuration\<lparr>channel := pos\<rparr>)
      in if r \<noteq> RT_EOK then (0, t)
         else let (r2, t2, c2) = drv_pwm_control pclk2 t PWM_CMD_SET (c'\<lparr>pulse := val\<rparr>)
              in if r2 \<noteq> RT_EOK then (0, t2) else (sz, t2))"

lemmas pwm_consts = RT_EOK_def RT_EIO_def RT_EINVAL_def MAX_PERIOD_def MIN_PERIOD_def MIN_PULSE_def

section \<open>Register bounds\<close>

text \<open>Dividing by the chosen prescaler always brings the period under the 16-bit limit.\<close>

lemma prescaled_below_max: "p div (p div MAX_PERIOD + 1) < (MAX_PERIOD :: nat)"
proof -
  have "p < MAX_PERIOD * (p div MAX_PERIOD + 1)"
    using dividend_less_times_div [of MAX_PERIOD p] by (simp add: MAX_PERIOD_def algebra_simps)
  then show ?thesis
    by (intro less_mult_imp_div_less) simp
qed

lemma request_no_truncation:
  assumes "clk < 1000"
  shows "unat (x :: u32) * clk div 1000 < 2 ^ 32"
proof -
  have "unat x * clk \<le> unat x * 1000" using assms by simp
  then have "unat x * clk div 1000 \<le> unat x" by (metis div_le_mono nonzero_mult_div_cancel_right zero_neq_numeral)
  also have "unat x < 2 ^ 32" using unat_u32_lt [of x] by simp
  finally show ?thesis .
qed

lemma pwm_set_shape:
  fixes pclk2 c
  defines "clk \<equiv> drv_tim_clock pclk2"
  defines "p0 \<equiv> (unat (period c) * clk div 1000) mod 2 ^ 32"
  defines "psc \<equiv> p0 div MAX_PERIOD + 1"
  defines "p2 \<equiv> max MIN_PERIOD (p0 div psc)"
  defines "d0 \<equiv> (unat (pulse c) * clk div psc div 1000) mod 2 ^ 32"
  shows "drv_pwm_set pclk2 t c =
    (RT_EOK, t\<lparr>PSC := psc - 1, ARR := p2 - 1,
               CCR := (CCR t)(hal_channel c := max MIN_PULSE (min d0 p2) - 1), CNT := 0\<rparr>)"
proof -
  have p2: "p2 = (if p0 div psc < MIN_PERIOD then MIN_PERIOD else p0 div psc)"
    by (auto simp: p2_def)
  have d1: "max MIN_PULSE (min d0 p2) = (if d0 < MIN_PULSE then MIN_PULSE else if d0 > p2 then p2 else d0)"
    unfolding p2 MIN_PULSE_def MIN_PERIOD_def by (simp only: max_def min_def) (simp; linarith)
  show ?thesis
    unfolding drv_pwm_set_def Let_def d1 unfolding p2 d0_def psc_def p0_def clk_def by (rule refl)
qed

text \<open>What \<open>drv_pwm_set\<close> leaves in the registers.\<close>

lemma pwm_set_registers:
  assumes "drv_pwm_set pclk2 t c = (r, t')" and "drv_tim_clock pclk2 < 1000"
  shows "r = RT_EOK \<and> PSC t' < 2 ^ 16 \<and> 2 \<le> ARR t' \<and> ARR t' < 65535 \<and>
         1 \<le> CCR t' (hal_channel c) \<and> CCR t' (hal_channel c) \<le> ARR t'"
proof -
  define p0 where "p0 = (unat (period c) * drv_tim_clock pclk2 div 1000) mod 2 ^ 32"
  have "p0 \<le> 2 ^ 32 * 999 div 1000"
  proof -
    have "unat (period c) * drv_tim_clock pclk2 \<le> 2 ^ 32 * 999"
      using assms(2) unat_u32_lt [of "period c"] by (intro mult_mono) auto
    then show ?thesis unfolding p0_def
      by (meson div_le_mono le_trans mod_less_eq_dividend)
  qed
  then have q: "p0 div MAX_PERIOD < 2 ^ 16" by (simp add: MAX_PERIOD_def)
  define p1 where "p1 = p0 div (p0 div MAX_PERIOD + 1)"
  have p1: "p1 < MAX_PERIOD" unfolding p1_def by (rule prescaled_below_max)
  define d where
    "d = (unat (pulse c) * drv_tim_clock pclk2 div (p0 div MAX_PERIOD + 1) div 1000) mod 2 ^ 32"
  have regs: "r = RT_EOK" "PSC t' = p0 div MAX_PERIOD" "ARR t' = max MIN_PERIOD p1 - 1"
    "CCR t' (hal_channel c) = max MIN_PULSE (min d (max MIN_PERIOD p1)) - 1"
    using assms(1) unfolding pwm_set_shape p0_def [symmetric] p1_def [symmetric] d_def [symmetric]
    by auto
  define a where "a = max MIN_PERIOD p1"
  define b where "b = max MIN_PULSE (min d a)"
  have "a < 65535" "3 \<le> a" "2 \<le> b" "b \<le> a"
    using p1 by (simp_all add: a_def b_def MAX_PERIOD_def MIN_PERIOD_def MIN_PULSE_def)
  then show ?thesis
    unfolding regs a_def [symmetric] b_def [symmetric] using q by auto
qed

lemma pwm_set_registers_witness:
  "PSC (snd (drv_pwm_set 170000000 \<lparr>PSC = 0, ARR = 0, CCR = \<lambda>_. 0, CNT = 0, running = \<lambda>_. False\<rparr>
      \<lparr>channel = 1, period = 320000, pulse = 0, complementary = False\<rparr>)) < 2 ^ 16"
proof -
  let ?t = "\<lparr>PSC = 0, ARR = 0, CCR = \<lambda>_. 0, CNT = 0, running = \<lambda>_. False\<rparr>"
  let ?c = "\<lparr>channel = 1, period = 320000, pulse = 0, complementary = False\<rparr> :: rt_pwm_configuration"
  show ?thesis
    using pwm_set_registers [of 170000000 ?t ?c "fst (drv_pwm_set 170000000 ?t ?c)"
        "snd (drv_pwm_set 170000000 ?t ?c)"]
    by (simp add: drv_tim_clock_def)
qed

text \<open>
  The realised period of a request of at least three ticks for each prescaler step: the timer ticks \<open>(ARR+1)*(PSC+1)\<close> are
  the requested nanoseconds in driver clock ticks, rounded down by less than one prescaler step.
\<close>

lemma pwm_period_quantised:
  assumes clk: "drv_tim_clock pclk2 < 1000"
    and big: "3 * (unat (period c) * drv_tim_clock pclk2 div 1000 div MAX_PERIOD + 1)
              \<le> unat (period c) * drv_tim_clock pclk2 div 1000"
  shows "let t' = snd (drv_pwm_set pclk2 t c);
             ticks = (ARR t' + 1) * (PSC t' + 1);
             want = unat (period c) * drv_tim_clock pclk2 div 1000
         in ticks \<le> want \<and> want < ticks + (PSC t' + 1)"
proof -
  define p0 where "p0 = unat (period c) * drv_tim_clock pclk2 div 1000"
  have trunc: "p0 mod 2 ^ 32 = p0"
    using request_no_truncation [OF clk, of "period c"] unfolding p0_def by (intro mod_less)
  define q where "q = p0 div MAX_PERIOD"
  have "3 * (q + 1) \<le> p0" using big by (simp add: p0_def q_def)
  then have "3 * (q + 1) div (q + 1) \<le> p0 div (q + 1)" by (rule div_le_mono)
  then have "3 \<le> p0 div (q + 1)" by (metis nonzero_mult_div_cancel_right add_is_0 one_neq_zero)
  then have arr: "max MIN_PERIOD (p0 div (q + 1)) = p0 div (q + 1)" by (simp add: MIN_PERIOD_def)
  have t': "PSC (snd (drv_pwm_set pclk2 t c)) = q" "ARR (snd (drv_pwm_set pclk2 t c)) = p0 div (q + 1) - 1"
    unfolding pwm_set_shape p0_def [symmetric] trunc q_def [symmetric] arr by simp_all
  have "p0 div (q + 1) * (q + 1) \<le> p0" "p0 < p0 div (q + 1) * (q + 1) + (q + 1)"
    using div_mult_mod_eq [of p0 "q + 1"] mod_less_divisor [of "q + 1" p0] by linarith+
  then show ?thesis
    unfolding t' Let_def p0_def [symmetric] using \<open>3 \<le> p0 div (q + 1)\<close> by simp
qed

lemma pwm_period_quantised_witness:
  "(ARR (snd (drv_pwm_set 170000000 \<lparr>PSC = 0, ARR = 0, CCR = \<lambda>_. 0, CNT = 0, running = \<lambda>_. False\<rparr>
      \<lparr>channel = 1, period = 320000, pulse = 0, complementary = False\<rparr>)) + 1) *
   (PSC (snd (drv_pwm_set 170000000 \<lparr>PSC = 0, ARR = 0, CCR = \<lambda>_. 0, CNT = 0, running = \<lambda>_. False\<rparr>
      \<lparr>channel = 1, period = 320000, pulse = 0, complementary = False\<rparr>)) + 1) \<le> 108800"
  using pwm_period_quantised
    [of 170000000 "\<lparr>channel = 1, period = 320000, pulse = 0, complementary = False\<rparr>"
        "\<lparr>PSC = 0, ARR = 0, CCR = \<lambda>_. 0, CNT = 0, running = \<lambda>_. False\<rparr>"]
  by (simp add: drv_tim_clock_def MAX_PERIOD_def Let_def)

end
