(* ===== verification/Motor.thy ===== *)
theory Motor
  imports Float32 Pins Pwm
begin

text \<open>
  The drive motors (\<open>applications/motor.c\<close>): the joystick filter of the \<open>motor_control\<close> thread and
  the H-bridge and PWM accesses. One iteration of the thread's \<open>while (1)\<close> body is a function of the
  joystick globals, the two previous values the thread keeps and the access history.
\<close>

section \<open>Constants and pins\<close>

definition AIN1 :: nat where "AIN1 = GET_PIN PB 12"
definition AIN2 :: nat where "AIN2 = GET_PIN PB 13"
definition BIN1 :: nat where "BIN1 = GET_PIN PB 14"
definition BIN2 :: nat where "BIN2 = GET_PIN PB 15"

lemma bridge_pins_distinct: "distinct [AIN1, AIN2, BIN1, BIN2]"
  by (simp add: AIN1_def AIN2_def BIN1_def BIN2_def GET_PIN_def)

definition A_Period :: u32 where "A_Period = 320000"
definition B_Period :: u32 where "B_Period = 320000"
definition A_Pulse :: u32 where "A_Pulse = 0"
definition B_Pulse :: u32 where "B_Pulse = 0"

text \<open>\<open>float alpha = 0.2\<close>: the binary32 number nearest to one fifth.\<close>

definition alpha :: f32 where "alpha = F32 13421773 (- 26)"

lemma alpha_nearest: "\<bar>f32_val alpha - 1 / 5\<bar> \<le> 1 / 2 ^ 27"
  by (simp add: alpha_def f32_val_def power_int_def power_one_over)

definition max_change_rate :: int where "max_change_rate = 3280"

section \<open>Start-up\<close>

text \<open>The requests of \<open>pwm_init\<close>; its console messages are not modelled.\<close>

definition motor_pwm_init :: "history \<Rightarrow> history" where
  "motor_pwm_init h =
     PwmEnable ''pwm1'' 2 # PwmEnable ''pwm1'' 1 #
     PwmSet ''pwm1'' 2 B_Period B_Pulse # PwmSet ''pwm1'' 1 A_Period A_Pulse # h"

definition gpio_init :: "history \<Rightarrow> history" where
  "gpio_init h =
     rt_pin_mode BIN2 MODE_OUTPUT (rt_pin_mode BIN1 MODE_OUTPUT
       (rt_pin_mode AIN2 MODE_OUTPUT (rt_pin_mode AIN1 MODE_OUTPUT h)))"

section \<open>H-bridge and duty cycle\<close>

definition pwm_Amotor_set :: "u32 \<Rightarrow> history \<Rightarrow> history" where
  "pwm_Amotor_set v h = PwmSet ''pwm1'' 1 A_Period v # h"

definition pwm_Bmotor_set :: "u32 \<Rightarrow> history \<Rightarrow> history" where
  "pwm_Bmotor_set v h = PwmSet ''pwm1'' 2 B_Period v # h"

definition A_motor_forward :: "history \<Rightarrow> history" where
  "A_motor_forward h = rt_pin_write AIN1 True (rt_pin_write AIN2 False h)"

definition A_motor_backward :: "history \<Rightarrow> history" where
  "A_motor_backward h = rt_pin_write AIN2 True (rt_pin_write AIN1 False h)"

definition B_motor_forward :: "history \<Rightarrow> history" where
  "B_motor_forward h = rt_pin_write BIN2 True (rt_pin_write BIN1 False h)"

definition B_motor_backward :: "history \<Rightarrow> history" where
  "B_motor_backward h = rt_pin_write BIN2 False (rt_pin_write BIN1 True h)"

definition myabs :: "int \<Rightarrow> int" where
  "myabs a = (if a < 0 then - a else a)"

lemma myabs_abs [simp]: "myabs a = \<bar>a\<bar>"
  by (simp add: myabs_def)

definition motor_pwm_set :: "int \<Rightarrow> int \<Rightarrow> history \<Rightarrow> history" where
  "motor_pwm_set motor1 motor2 h =
     (let h1 = (if motor1 > 0 then pwm_Amotor_set (of_int (myabs motor1)) (A_motor_backward h)
                else pwm_Amotor_set (of_int (myabs motor1)) (A_motor_forward h))
      in if motor2 > 0 then pwm_Bmotor_set (of_int (myabs motor2)) (B_motor_backward h1)
         else pwm_Bmotor_set (of_int (myabs motor2)) (B_motor_forward h1))"

section \<open>The joystick filter\<close>

definition limit_change :: "f32 \<Rightarrow> f32 \<Rightarrow> f32" where
  "limit_change change max_rate =
     (if f32_less max_rate change then max_rate
      else if f32_less change (f32_neg max_rate) then f32_neg max_rate
      else change)"

text \<open>\<open>x = alpha * x + (1 - alpha) * prev\<close>, in \<open>float\<close>, assigned to an \<open>rt_int32_t\<close>.\<close>

definition low_pass :: "int \<Rightarrow> int \<Rightarrow> int" where
  "low_pass x prev =
     f32_to_int (f32_add (f32_mul alpha (f32_of_int x))
                         (f32_mul (f32_sub (f32_of_int 1) alpha) (f32_of_int prev)))"

text \<open>\<open>x = prev + limit_change(x - prev, max_change_rate)\<close>.\<close>

definition slew :: "int \<Rightarrow> int \<Rightarrow> int" where
  "slew x prev =
     f32_to_int (f32_add (f32_of_int prev)
                         (limit_change (f32_of_int (x - prev)) (f32_of_int max_change_rate)))"

record motor_local =
  prev_usual :: int
  prev_delta :: int

definition motor_start :: motor_local where
  "motor_start = \<lparr>prev_usual = 0, prev_delta = 0\<rparr>"

definition clamp_speed :: "int \<Rightarrow> int \<Rightarrow> int" where
  "clamp_speed vmax v = (if v > vmax then vmax else if v < - vmax then - vmax else v)"

lemma clamp_speed_cases:
  "(clamp_speed vmax v = vmax \<and> vmax < v) \<or> (clamp_speed vmax v = - vmax \<and> v < - vmax) \<or>
   (clamp_speed vmax v = v \<and> - vmax \<le> v \<and> v \<le> vmax)"
  by (simp add: clamp_speed_def)

lemma clamp_speed_abs: "0 \<le> vmax \<Longrightarrow> \<bar>clamp_speed vmax v\<bar> \<le> vmax"
  using clamp_speed_cases [of vmax v] by linarith

text \<open>The computation of one iteration: the new local state and the two speeds.\<close>

definition motor_compute :: "int \<Rightarrow> int \<Rightarrow> motor_local \<Rightarrow> motor_local \<times> int \<times> int" where
  "motor_compute PS2_LX PS2_LY m =
     (let usual = (128 - PS2_LY) * 2400;
          delta = (127 - PS2_LX) * 1600;
          usual = low_pass usual (prev_usual m);
          delta = low_pass delta (prev_delta m);
          usual = slew usual (prev_usual m);
          delta = slew delta (prev_delta m);
          usual = (if usual > 320000 then 320000 else usual);
          delta = (if delta > 256000 then 256000 else delta);
          speeda = clamp_speed 320000 (usual + delta);
          speedb = clamp_speed 256000 (usual - delta)
      in (\<lparr>prev_usual = usual, prev_delta = delta\<rparr>, speeda, speedb))"

definition motor_control_body ::
  "int \<Rightarrow> int \<Rightarrow> motor_local \<times> history \<Rightarrow> motor_local \<times> history" where
  "motor_control_body PS2_LX PS2_LY s =
     (let (m, sa, sb) = motor_compute PS2_LX PS2_LY (fst s)
      in (m, rt_thread_mdelay 10 (motor_pwm_set sa sb (snd s))))"

definition motor_control_init :: "history \<Rightarrow> motor_local \<times> history" where
  "motor_control_init h = (motor_start, gpio_init (motor_pwm_init h))"

section \<open>The filter stays in range\<close>

lemma one_minus_alpha: "f32_sub (f32_of_int 1) alpha = F32 13421773 (- 24)"
proof -
  have "f32_round 53687091 (- 26) = F32 13421773 (- 24)"
    by (simp add: f32_round_def nbits.simps rne_def)
  then show ?thesis by (simp add: f32_sub_def f32_add_def alpha_def)
qed

lemma f32_val_consts:
  "f32_val alpha = 13421773 / 2 ^ 26"
  "f32_val (F32 13421773 (- 24)) = 13421773 / 2 ^ 24"
  "f32_val (F32 i 0) = of_int i"
  by (simp_all add: alpha_def f32_val_def power_int_def power_one_over)

lemma low_pass_real_bound:
  assumes "\<bar>x\<bar> < 2 ^ 24" and "\<bar>p\<bar> < 2 ^ 24"
  shows "\<bar>real_of_int (low_pass x p)\<bar>
     \<le> (13421773 / 2 ^ 26 * real_of_int \<bar>x\<bar> + 13421773 / 2 ^ 24 * real_of_int \<bar>p\<bar>) * (1 + 1 / 2 ^ 24)\<^sup>2"
proof -
  let ?e = "1 + 1 / 2 ^ 24 :: real"
  let ?u = "f32_mul alpha (f32_of_int x)" and ?v = "f32_mul (F32 13421773 (- 24)) (f32_of_int p)"
  have "\<bar>f32_val ?u\<bar> \<le> 13421773 / 2 ^ 26 * real_of_int \<bar>x\<bar> * ?e"
    using f32_mul_abs [of alpha "f32_of_int x"] assms(1)
    by (simp add: f32_val_consts)
  moreover have "\<bar>f32_val ?v\<bar> \<le> 13421773 / 2 ^ 24 * real_of_int \<bar>p\<bar> * ?e"
    using f32_mul_abs [of "F32 13421773 (- 24)" "f32_of_int p"] assms(2)
    by (simp add: f32_val_consts)
  ultimately have "\<bar>f32_val ?u + f32_val ?v\<bar>
      \<le> 13421773 / 2 ^ 26 * real_of_int \<bar>x\<bar> * ?e + 13421773 / 2 ^ 24 * real_of_int \<bar>p\<bar> * ?e"
    by (meson abs_triangle_ineq add_mono order_trans)
  then have "\<bar>f32_val ?u + f32_val ?v\<bar>
      \<le> (13421773 / 2 ^ 26 * real_of_int \<bar>x\<bar> + 13421773 / 2 ^ 24 * real_of_int \<bar>p\<bar>) * ?e"
    by (simp only: distrib_right)
  then have "\<bar>f32_val ?u + f32_val ?v\<bar> * ?e
      \<le> (13421773 / 2 ^ 26 * real_of_int \<bar>x\<bar> + 13421773 / 2 ^ 24 * real_of_int \<bar>p\<bar>) * ?e * ?e"
    by (intro mult_right_mono) simp_all
  then show ?thesis
    unfolding low_pass_def one_minus_alpha power2_eq_square mult.assoc [symmetric]
    by (rule order_trans [OF f32_to_int_abs order_trans [OF f32_add_abs]])
qed

lemma low_pass_bound:
  assumes "\<bar>x\<bar> \<le> B" and "\<bar>p\<bar> \<le> B" and "B \<le> 1000000"
  shows "\<bar>low_pass x p\<bar> \<le> B"
proof -
  have "13421773 / 2 ^ 26 * real_of_int \<bar>x\<bar> + 13421773 / 2 ^ 24 * real_of_int \<bar>p\<bar> \<le> (67108865 / 67108864 * B :: real)"
    using assms(1,2) by simp
  then have "(13421773 / 2 ^ 26 * real_of_int \<bar>x\<bar> + 13421773 / 2 ^ 24 * real_of_int \<bar>p\<bar>) * (1 + 1 / 2 ^ 24)\<^sup>2
      \<le> (67108865 / 67108864 * B :: real) * (1 + 1 / 2 ^ 24)\<^sup>2"
    by (intro mult_right_mono) simp_all
  also have "\<dots> < B + 1"
    using assms(3) by (simp add: power2_eq_square field_simps)
  finally have "\<bar>real_of_int (low_pass x p)\<bar> < B + 1"
    using low_pass_real_bound [of x p] assms by simp
  then show ?thesis by linarith
qed

lemma slew_eq:
  assumes "\<bar>x\<bar> \<le> 1000000" and "\<bar>p\<bar> \<le> 1000000"
  shows "slew x p = p + clamp_speed max_change_rate (x - p)"
proof -
  have "\<bar>x - p\<bar> < 2 ^ 24" "\<bar>p\<bar> < 2 ^ 24" using assms by simp_all
  then have "limit_change (f32_of_int (x - p)) (f32_of_int max_change_rate) =
      F32 (clamp_speed max_change_rate (x - p)) 0"
    by (simp add: limit_change_def clamp_speed_def max_change_rate_def)
  moreover have "\<bar>p + clamp_speed max_change_rate (x - p)\<bar> < 2 ^ 24"
    using assms clamp_speed_cases [of max_change_rate "x - p"] unfolding max_change_rate_def
    by simp linarith
  ultimately show ?thesis using \<open>\<bar>p\<bar> < 2 ^ 24\<close> by (simp add: slew_def)
qed

lemma slew_bound:
  assumes "\<bar>x\<bar> \<le> B" and "\<bar>p\<bar> \<le> B" and "B \<le> 1000000"
  shows "\<bar>slew x p\<bar> \<le> B" and "\<bar>slew x p - p\<bar> \<le> 3280"
proof -
  have "slew x p = p + clamp_speed 3280 (x - p)"
    using slew_eq [of x p] assms by (simp add: max_change_rate_def)
  then show "\<bar>slew x p\<bar> \<le> B" and "\<bar>slew x p - p\<bar> \<le> 3280"
    using assms clamp_speed_cases [of 3280 "x - p"] by linarith+
qed

text \<open>The invariant of the thread's locals.\<close>

definition motor_inv :: "motor_local \<Rightarrow> bool" where
  "motor_inv m \<longleftrightarrow> \<bar>prev_usual m\<bar> \<le> 307200 \<and> \<bar>prev_delta m\<bar> \<le> 204800"

lemma stick_scaled:
  "0 \<le> (b :: int) \<Longrightarrow> b \<le> 255 \<Longrightarrow> \<bar>(128 - b) * 2400\<bar> \<le> 307200"
  "0 \<le> (b :: int) \<Longrightarrow> b \<le> 255 \<Longrightarrow> \<bar>(127 - b) * 1600\<bar> \<le> 204800"
  by (auto simp: abs_le_iff)

lemma stick_range:
  fixes b :: u8
  shows "\<bar>(128 - uint b) * 2400\<bar> \<le> 307200" and "\<bar>(127 - uint b) * 1600\<bar> \<le> 204800"
  by (rule stick_scaled; rule uint_u8_bounds)+

text \<open>With values read from the controller the upper clamps of \<open>usual\<close> and \<open>delta\<close> are never taken.\<close>

lemma motor_compute_eq:
  fixes lx ly :: u8
  assumes "motor_inv m"
  defines "u \<equiv> slew (low_pass ((128 - uint ly) * 2400) (prev_usual m)) (prev_usual m)"
  defines "d \<equiv> slew (low_pass ((127 - uint lx) * 1600) (prev_delta m)) (prev_delta m)"
  shows "motor_compute (uint lx) (uint ly) m =
      (\<lparr>prev_usual = u, prev_delta = d\<rparr>, clamp_speed 320000 (u + d), clamp_speed 256000 (u - d))"
    and "\<bar>u\<bar> \<le> 307200" and "\<bar>d\<bar> \<le> 204800"
    and "\<bar>u - prev_usual m\<bar> \<le> 3280" and "\<bar>d - prev_delta m\<bar> \<le> 3280"
proof -
  have p: "\<bar>prev_usual m\<bar> \<le> 307200" "\<bar>prev_delta m\<bar> \<le> 204800"
    using assms(1) by (simp_all add: motor_inv_def)
  have lu: "\<bar>low_pass ((128 - uint ly) * 2400) (prev_usual m)\<bar> \<le> 307200"
    by (rule low_pass_bound [OF stick_range(1) p(1)]) simp
  have ld: "\<bar>low_pass ((127 - uint lx) * 1600) (prev_delta m)\<bar> \<le> 204800"
    by (rule low_pass_bound [OF stick_range(2) p(2)]) simp
  show u: "\<bar>u\<bar> \<le> 307200" and "\<bar>u - prev_usual m\<bar> \<le> 3280"
    unfolding u_def by (rule slew_bound [OF lu p(1)]; simp)+
  show d: "\<bar>d\<bar> \<le> 204800" and "\<bar>d - prev_delta m\<bar> \<le> 3280"
    unfolding d_def by (rule slew_bound [OF ld p(2)]; simp)+
  show "motor_compute (uint lx) (uint ly) m =
      (\<lparr>prev_usual = u, prev_delta = d\<rparr>, clamp_speed 320000 (u + d), clamp_speed 256000 (u - d))"
    unfolding motor_compute_def Let_def u_def [symmetric] d_def [symmetric] using u d by auto
qed

lemma motor_inv_start: "motor_inv motor_start"
  by (simp add: motor_inv_def motor_start_def)

lemma motor_inv_step:
  fixes lx ly :: u8
  assumes "motor_inv m"
  shows "motor_inv (fst (motor_compute (uint lx) (uint ly) m))"
  unfolding motor_compute_eq(1) [OF assms] using motor_compute_eq(2,3) [OF assms]
  by (simp add: motor_inv_def)

text \<open>The thread as a guarded system: the input of an iteration is the stick position it reads.\<close>

definition motor_next :: "motor_local \<Rightarrow> u8 \<times> u8 \<Rightarrow> motor_local" where
  "motor_next m i = fst (motor_compute (uint (fst i)) (uint (snd i)) m)"

interpretation motor_thread: guarded_system motor_start motor_next "\<lambda>_. True" motor_inv
  by unfold_locales (auto simp: motor_inv_start motor_next_def motor_inv_step)

definition motor_speeds :: "motor_local \<Rightarrow> u8 \<times> u8 \<Rightarrow> int \<times> int" where
  "motor_speeds m i = snd (motor_compute (uint (fst i)) (uint (snd i)) m)"

section \<open>Properties\<close>

lemma clamp_speed_change: "0 \<le> vmax \<Longrightarrow> \<bar>clamp_speed vmax v - clamp_speed vmax w\<bar> \<le> \<bar>v - w\<bar>"
  by (simp add: clamp_speed_def)

text \<open>
  C33. Whatever the controller sends, after any number of iterations the next commanded speeds give
  pulses within the PWM period of their channel, and the speed of a wheel commanded by the iteration after differs
  from it by at most two ramp steps.
\<close>

theorem motor_pulse_within_period:
  "let m = run_steps motor_next motor_start sticks; (sa, sb) = motor_speeds m stick;
       (sa', sb') = motor_speeds (motor_next m stick) stick'
   in \<bar>sa\<bar> \<le> int (unat A_Period) \<and> \<bar>sb\<bar> \<le> 256000 \<and> 256000 < unat B_Period \<and>
      \<bar>sa' - sa\<bar> \<le> 2 * max_change_rate \<and> \<bar>sb' - sb\<bar> \<le> 2 * max_change_rate"
proof -
  define m where "m = run_steps motor_next motor_start sticks"
  have m: "motor_inv m"
    unfolding m_def by (rule motor_thread.inv_run) (simp add: list_all_iff)
  define m' where "m' = motor_next m stick"
  have m': "motor_inv m'" using motor_inv_step [OF m] by (simp add: m'_def motor_next_def)
  obtain u d where 1: "motor_compute (uint (fst stick)) (uint (snd stick)) m =
      (\<lparr>prev_usual = u, prev_delta = d\<rparr>, clamp_speed 320000 (u + d), clamp_speed 256000 (u - d))"
    using motor_compute_eq(1) [OF m, where lx = "fst stick" and ly = "snd stick"] by blast
  then have p: "prev_usual m' = u" "prev_delta m' = d" by (simp_all add: m'_def motor_next_def)
  obtain u' d' where 2: "motor_compute (uint (fst stick')) (uint (snd stick')) m' =
      (\<lparr>prev_usual = u', prev_delta = d'\<rparr>, clamp_speed 320000 (u' + d'), clamp_speed 256000 (u' - d'))"
    "\<bar>u' - u\<bar> \<le> 3280" "\<bar>d' - d\<bar> \<le> 3280" using motor_compute_eq(1) [OF m', where lx = "fst stick'" and ly = "snd stick'"]
      motor_compute_eq(4) [OF m', where ly = "snd stick'"] motor_compute_eq(5) [OF m', where lx = "fst stick'"]
    unfolding p by blast
  have "\<bar>clamp_speed 320000 (u' + d') - clamp_speed 320000 (u + d)\<bar> \<le> \<bar>(u' + d') - (u + d)\<bar>"
    "\<bar>clamp_speed 256000 (u' - d') - clamp_speed 256000 (u - d)\<bar> \<le> \<bar>(u' - d') - (u - d)\<bar>"
    by (rule clamp_speed_change; simp)+
  moreover have "\<bar>(u' + d') - (u + d)\<bar> \<le> 6560" "\<bar>(u' - d') - (u - d)\<bar> \<le> 6560" using 2(2,3) by arith+
  ultimately show ?thesis
    unfolding m_def [symmetric] Let_def m'_def [symmetric] motor_speeds_def 1 2(1) max_change_rate_def
    by (simp add: A_Period_def B_Period_def clamp_speed_abs)
qed

text \<open>
  The upper limits on \<open>usual\<close> and \<open>delta\<close> are unreachable and the missing lower limits are not
  needed: both stay in the symmetric range the stick scaling gives them.
\<close>

theorem motor_filter_range:
  "motor_inv (run_steps motor_next motor_start sticks)"
  by (rule motor_thread.inv_run) (simp add: list_all_iff)

section \<open>Coasting to rest\<close>

lemma rne_sign: "0 \<le> m \<Longrightarrow> 0 \<le> rne m k" "m \<le> 0 \<Longrightarrow> rne m k \<le> 0"
proof -
  assume "0 \<le> m"
  then have "0 \<le> m div 2 ^ k" by (simp add: pos_imp_zdiv_nonneg_iff)
  then show "0 \<le> rne m k" by (simp add: rne_def Let_def)
next
  assume m: "m \<le> 0"
  show "rne m k \<le> 0"
  proof (cases "m = 0")
    case True
    then show ?thesis by (simp add: rne_def)
  next
    case False
    with m have "m div 2 ^ k < 0" by (simp add: pos_imp_zdiv_neg_iff)
    moreover have "(m div 2 ^ k) mod 2 < 2" by simp
    ultimately show ?thesis unfolding rne_def Let_def by (simp; linarith)
  qed
qed

lemma f32_to_int_sign: "0 \<le> mant x \<Longrightarrow> 0 \<le> f32_to_int x" "mant x \<le> 0 \<Longrightarrow> f32_to_int x \<le> 0"
  by (auto simp: f32_to_int_def sgn_if mult_le_0_iff pos_imp_zdiv_nonneg_iff)

lemma f32_round_sign: "0 \<le> m \<Longrightarrow> 0 \<le> mant (f32_round m e)" "m \<le> 0 \<Longrightarrow> mant (f32_round m e) \<le> 0"
  by (simp_all add: f32_round_def Let_def rne_sign)

lemma f32_add_zero_sign:
  "0 \<le> mant y \<Longrightarrow> 0 \<le> mant (f32_add (F32 0 e) y)" "mant y \<le> 0 \<Longrightarrow> mant (f32_add (F32 0 e) y) \<le> 0"
  by (simp_all add: f32_add_def Let_def f32_round_sign mult_nonpos_nonneg)

lemma low_pass_zero_sign: "0 \<le> p \<Longrightarrow> 0 \<le> low_pass 0 p" "p \<le> 0 \<Longrightarrow> low_pass 0 p \<le> 0"
proof -
  have lp: "low_pass 0 p = f32_to_int (f32_add (F32 0 (- 26)) (f32_mul (F32 13421773 (- 24)) (f32_of_int p)))"
    unfolding low_pass_def one_minus_alpha by (simp add: f32_mul_def alpha_def f32_round_small)
  show "0 \<le> p \<Longrightarrow> 0 \<le> low_pass 0 p" "p \<le> 0 \<Longrightarrow> low_pass 0 p \<le> 0"
    unfolding lp f32_mul_def f32_of_int_def
    by (rule f32_to_int_sign f32_add_zero_sign f32_round_sign; simp add: f32_round_sign)+
qed

lemma low_pass_zero_shrinks:
  assumes "\<bar>p\<bar> \<le> 1000000"
  shows "1000000 * \<bar>low_pass 0 p\<bar> \<le> 800001 * \<bar>p\<bar>"
proof -
  have "\<bar>real_of_int (low_pass 0 p)\<bar> \<le> 13421773 / 2 ^ 24 * real_of_int \<bar>p\<bar> * (1 + 1 / 2 ^ 24)\<^sup>2"
    using low_pass_real_bound [of 0 p] assms by simp
  also have "\<dots> \<le> 800001 / 1000000 * real_of_int \<bar>p\<bar>"
    using mult_right_mono [of "13421773 / 2 ^ 24 * (1 + 1 / 2 ^ 24)\<^sup>2" "800001 / 1000000 :: real" "real_of_int \<bar>p\<bar>"]
    by (simp add: power2_eq_square)
  finally show ?thesis by simp
qed

text \<open>One iteration at a centred stick: the magnitude drops to at most \<open>coast\<close> of it.\<close>

definition coast :: "int \<Rightarrow> int" where
  "coast x = max (x - 3280) (800001 * x div 1000000)"

lemma coast_mono: "x \<le> y \<Longrightarrow> coast x \<le> coast y"
  by (auto simp: coast_def intro!: max.mono zdiv_mono1)

lemma coast_step:
  assumes "\<bar>p\<bar> \<le> 307200"
  shows "\<bar>slew (low_pass 0 p) p\<bar> \<le> coast \<bar>p\<bar>"
proof -
  let ?f = "low_pass 0 p"
  have shrink: "\<bar>?f\<bar> \<le> 800001 * \<bar>p\<bar> div 1000000"
    using zdiv_mono1 [OF low_pass_zero_shrinks [of p], of 1000000] assms by simp
  have f: "\<bar>?f\<bar> \<le> \<bar>p\<bar>" by (rule low_pass_bound [of 0 "\<bar>p\<bar>" p]) (use assms in simp_all)
  have "slew ?f p = p + clamp_speed 3280 (?f - p)"
    using slew_eq [of ?f p] f assms by (simp add: max_change_rate_def)
  with clamp_speed_cases [of 3280 "?f - p"] f low_pass_zero_sign [of p]
  have "\<bar>slew ?f p\<bar> = \<bar>?f\<bar> \<or> \<bar>slew ?f p\<bar> = \<bar>p\<bar> - 3280" by linarith
  with shrink show ?thesis unfolding coast_def by linarith
qed

lemma coast_nonneg: "0 \<le> x \<Longrightarrow> 0 \<le> coast x"
  by (simp add: coast_def le_max_iff_disj pos_imp_zdiv_nonneg_iff)

fun coast_iter :: "nat \<Rightarrow> int \<Rightarrow> int" where
  "coast_iter 0 x = x"
| "coast_iter (Suc n) x = coast_iter n (coast x)"

lemma coast_iter_mono: "x \<le> y \<Longrightarrow> coast_iter n x \<le> coast_iter n y"
  by (induction n arbitrary: x y) (auto intro: coast_mono)

lemma motor_next_centred:
  assumes "motor_inv m"
  shows "motor_next m (127, 128) =
    \<lparr>prev_usual = slew (low_pass 0 (prev_usual m)) (prev_usual m),
     prev_delta = slew (low_pass 0 (prev_delta m)) (prev_delta m)\<rparr>"
  using motor_compute_eq(1) [OF assms, of 127 128] by (simp add: motor_next_def)

lemma coast_run:
  assumes "motor_inv m"
  shows "\<bar>prev_usual (run_steps motor_next m (replicate n (127, 128)))\<bar> \<le> coast_iter n \<bar>prev_usual m\<bar> \<and>
         \<bar>prev_delta (run_steps motor_next m (replicate n (127, 128)))\<bar> \<le> coast_iter n \<bar>prev_delta m\<bar>"
  using assms
proof (induction n arbitrary: m)
  case 0
  then show ?case by simp
next
  case (Suc n)
  let ?m = "motor_next m (127, 128)"
  have inv: "motor_inv ?m" using motor_thread.inv_step [OF Suc.prems] by simp
  have "\<bar>prev_usual ?m\<bar> \<le> coast \<bar>prev_usual m\<bar>" "\<bar>prev_delta ?m\<bar> \<le> coast \<bar>prev_delta m\<bar>"
    using Suc.prems coast_step by (simp_all add: motor_next_centred motor_inv_def)
  with Suc.IH [OF inv] show ?case
    by (simp, meson coast_iter_mono order_trans)
qed

lemma coast_150: "coast_iter 150 307200 = 0"
  by code_simp

text \<open>
  C39. Liveness: from any reachable state of the filter, once the stick rests at its centre
  (127, 128) the thread commands speed zero to both wheels within 150 iterations of 10 ms.
\<close>

theorem motor_comes_to_rest:
  "let m = run_steps motor_next motor_start (sticks @ replicate 150 (127, 128))
   in m = motor_start \<and> motor_speeds m (127, 128) = (0, 0)"
proof -
  define m0 where "m0 = run_steps motor_next motor_start sticks"
  define m where "m = run_steps motor_next m0 (replicate 150 (127, 128))"
  have inv: "motor_inv m0"
    unfolding m0_def by (rule motor_thread.inv_run) (simp add: list_all_iff)
  then have "coast_iter 150 \<bar>prev_usual m0\<bar> \<le> 0" "coast_iter 150 \<bar>prev_delta m0\<bar> \<le> 0"
    using coast_iter_mono [of _ 307200 150] unfolding coast_150 motor_inv_def by fastforce+
  with coast_run [OF inv, of 150] have m: "m = motor_start"
    unfolding m_def [symmetric] motor_start_def by (intro motor_local.equality) auto
  have "motor_speeds motor_start (127, 128) = (0, 0)" by code_simp
  with m show ?thesis
    unfolding m_def m0_def by (simp add: run_steps_append)
qed

text \<open>
  Before the controller has answered, the stick globals are zero: for the 25 iterations
  (250 ms) the controller thread sleeps in its set-up, the motor thread ramps both filters up and
  drives wheel A with half of its period.
\<close>

theorem motor_ramps_before_first_report:
  "motor_speeds motor_start (0, 0) = (6560, 0) \<and>
   motor_speeds (run_steps motor_next motor_start (replicate 24 (0, 0))) (0, 0) = (164000, 0)"
  by code_simp

section \<open>The H-bridge\<close>

text \<open>No point of a history has both inputs of a bridge high.\<close>

fun never_both :: "nat \<Rightarrow> nat \<Rightarrow> history \<Rightarrow> bool" where
  "never_both p q [] = True"
| "never_both p q (e # h) = (\<not> (level p (e # h) \<and> level q (e # h)) \<and> never_both p q h)"

text \<open>
  Motor A: from a history in which its bridge inputs were never high together, no command,
  at any point of its execution, drives both high; and it ends with exactly one of them high, the
  one of the commanded direction.
\<close>

theorem bridge_A_exclusive:
  assumes "never_both AIN1 AIN2 h" and "\<not> (level AIN1 h \<and> level AIN2 h)"
  shows "never_both AIN1 AIN2 (motor_pwm_set m1 m2 h) \<and>
         level AIN2 (motor_pwm_set m1 m2 h) = (m1 > 0) \<and>
         level AIN1 (motor_pwm_set m1 m2 h) = (\<not> m1 > 0)"
  using assms bridge_pins_distinct
  by (simp add: motor_pwm_set_def Let_def pwm_Amotor_set_def pwm_Bmotor_set_def rt_pin_write_def
      A_motor_forward_def A_motor_backward_def B_motor_forward_def B_motor_backward_def)

lemma bridge_A_exclusive_witness:
  "never_both AIN1 AIN2 (motor_pwm_set 5 (- 5) [])"
  using bridge_A_exclusive [of "[]" 5 "- 5"] by simp

text \<open>
  Motor B is written in the other order: reversing it from forward passes through a state with
  both inputs high (a short brake).
\<close>

theorem bridge_B_overlap:
  "\<not> never_both BIN1 BIN2 (motor_pwm_set 0 5 (motor_pwm_set 0 (- 5) []))"
  by (simp add: motor_pwm_set_def Let_def pwm_Amotor_set_def pwm_Bmotor_set_def rt_pin_write_def
      A_motor_forward_def B_motor_forward_def B_motor_backward_def
      AIN1_def AIN2_def BIN1_def BIN2_def GET_PIN_def)

end
