(* ===== verification/Duoji.thy ===== *)
theory Duoji
  imports Pins
begin

text \<open>
  The two camera servos (\<open>applications/duoji.c\<close>). One iteration of the \<open>duoji_handle\<close> thread reads
  the right stick and the key number the controller thread publishes and moves the two pulse
  widths, which are \<open>rt_uint32_t\<close> globals: sums with the signed speed are 32-bit unsigned sums.
\<close>

section \<open>State\<close>

record duoji =
  duoji1_pulse :: u32
  duoji2_pulse :: u32
  duoji1_speed :: int
  duoji2_speed :: int
  ps2_flag :: u8
  count :: u8

definition duoji_period :: u32 where "duoji_period = 10000000 - 1"

definition duoji_start :: duoji where
  "duoji_start = \<lparr>duoji1_pulse = 750000, duoji2_pulse = 750000, duoji1_speed = 0, duoji2_speed = 0,
                  ps2_flag = 0, count = 0\<rparr>"

text \<open>The requests of \<open>pwm_init\<close> when the device \<open>pwm8\<close> exists (console messages not modelled).\<close>

definition duoji_pwm_init :: "history \<Rightarrow> history" where
  "duoji_pwm_init h =
     PwmEnable ''pwm8'' 4 # PwmEnable ''pwm8'' 3 #
     PwmSet ''pwm8'' 4 duoji_period (duoji2_pulse duoji_start) #
     PwmSet ''pwm8'' 3 duoji_period (duoji1_pulse duoji_start) # h"

section \<open>One iteration\<close>

text \<open>\<open>if ((speed + pulse) < 1250000 && (speed + pulse) > 325000) pulse += speed;\<close>\<close>

definition move_servo :: "int \<Rightarrow> u32 \<Rightarrow> u32" where
  "move_servo speed pul =
     (if word_of_int speed + pul < 1250000 \<and> word_of_int speed + pul > 325000
      then pul + word_of_int speed else pul)"

definition duoji_flag_step :: "duoji \<Rightarrow> duoji" where
  "duoji_flag_step d =
     (if ps2_flag d = 1
      then if count d \<ge> 50 then d\<lparr>count := 0, ps2_flag := 0\<rparr> else d\<lparr>count := count d + 1\<rparr>
      else d)"

definition duoji_key_step :: "int \<Rightarrow> duoji \<Rightarrow> duoji" where
  "duoji_key_step PS2_KEY d =
     (if PS2_KEY = 8 then d\<lparr>ps2_flag := 1, duoji1_pulse := 950000, duoji2_pulse := 600000\<rparr> else d)"

definition duoji_stick_step :: "int \<Rightarrow> int \<Rightarrow> duoji \<times> history \<Rightarrow> duoji \<times> history" where
  "duoji_stick_step PS2_RX PS2_RY s =
     (let (d, h) = s in
      if PS2_RX \<noteq> 63 \<and> ps2_flag d = 0
      then let s1 = (if PS2_RY \<noteq> 63 then - (PS2_RY - 128) * 50 else 0);
               p1 = move_servo s1 (duoji1_pulse d);
               s2 = - (PS2_RX - 127) * 50;
               p2 = move_servo s2 (duoji2_pulse d)
           in (d\<lparr>duoji1_speed := s1, duoji1_pulse := p1, duoji2_speed := s2, duoji2_pulse := p2\<rparr>,
               PwmSet ''pwm8'' 4 duoji_period p2 # PwmSet ''pwm8'' 3 duoji_period p1 # h)
      else (d, h))"

definition duoji_handle_body ::
  "int \<Rightarrow> int \<Rightarrow> int \<Rightarrow> duoji \<times> history \<Rightarrow> duoji \<times> history" where
  "duoji_handle_body PS2_RX PS2_RY PS2_KEY s =
     duoji_stick_step PS2_RX PS2_RY
       (duoji_key_step PS2_KEY (duoji_flag_step (fst s)), rt_thread_mdelay 10 (snd s))"

section \<open>The pulse range\<close>

definition pulse_ok :: "u32 \<Rightarrow> bool" where
  "pulse_ok p \<longleftrightarrow> 325000 < p \<and> p < 1250000"

definition duoji_inv :: "duoji \<times> history \<Rightarrow> bool" where
  "duoji_inv s \<longleftrightarrow> pulse_ok (duoji1_pulse (fst s)) \<and> pulse_ok (duoji2_pulse (fst s)) \<and>
     list_all (\<lambda>e. case e of PwmSet _ _ per pul \<Rightarrow> per = duoji_period \<and> pulse_ok pul | _ \<Rightarrow> True) (snd s)"

lemma move_servo_ok: "pulse_ok p \<Longrightarrow> pulse_ok (move_servo v p)"
  by (auto simp: move_servo_def pulse_ok_def add.commute)

lemma duoji_flag_step_pulse [simp]:
  "duoji1_pulse (duoji_flag_step d) = duoji1_pulse d"
  "duoji2_pulse (duoji_flag_step d) = duoji2_pulse d"
  by (simp_all add: duoji_flag_step_def)

lemma duoji_key_step_ok:
  "pulse_ok (duoji1_pulse d) \<Longrightarrow> pulse_ok (duoji1_pulse (duoji_key_step k d))"
  "pulse_ok (duoji2_pulse d) \<Longrightarrow> pulse_ok (duoji2_pulse (duoji_key_step k d))"
  by (simp_all add: duoji_key_step_def pulse_ok_def)

lemma duoji_stick_step_inv: "duoji_inv s \<Longrightarrow> duoji_inv (duoji_stick_step rx ry s)"
  by (auto simp: duoji_stick_step_def duoji_inv_def Let_def move_servo_ok split: prod.splits)

lemma duoji_body_inv: "duoji_inv s \<Longrightarrow> duoji_inv (duoji_handle_body rx ry k s)"
  unfolding duoji_handle_body_def
  by (rule duoji_stick_step_inv)
    (simp add: duoji_inv_def duoji_key_step_ok rt_thread_mdelay_def)

text \<open>The thread as a guarded system; an input is the stick position and the key it reads.\<close>

definition duoji_next :: "duoji \<times> history \<Rightarrow> int \<times> int \<times> int \<Rightarrow> duoji \<times> history" where
  "duoji_next s i = (case i of (rx, ry, k) \<Rightarrow> duoji_handle_body rx ry k s)"

lemma duoji_inv_start: "duoji_inv (duoji_start, duoji_pwm_init [])"
  by (simp add: duoji_inv_def duoji_start_def duoji_pwm_init_def pulse_ok_def)

interpretation duoji_thread: guarded_system "(duoji_start, duoji_pwm_init [])" duoji_next "\<lambda>_. True" duoji_inv
  by unfold_locales (simp_all add: duoji_inv_start duoji_next_def duoji_body_inv split: prod.splits)

section \<open>Properties\<close>

text \<open>
  C40. For every sequence of stick positions and keys, both servo pulses stay strictly between
  325000 and 1250000, and so does every pulse requested of the PWM device, with the fixed period.
\<close>

theorem servo_pulse_range:
  "duoji_inv (run_steps duoji_next (duoji_start, duoji_pwm_init []) inputs)"
  by (rule duoji_thread.inv_run) (simp add: list_all_iff)

text \<open>While the preset is held: flag up, \<open>n\<close> iterations counted.\<close>

definition holding :: "u8 \<Rightarrow> duoji \<Rightarrow> bool" where
  "holding n d \<longleftrightarrow> ps2_flag d = 1 \<and> count d = n \<and> duoji1_pulse d = 950000 \<and> duoji2_pulse d = 600000"

lemma holding_step:
  assumes "holding n d" and "n < 50"
  shows "duoji_next (d, h) i = (d\<lparr>count := n + 1\<rparr>, DelayMs 10 # h) \<and> holding (n + 1) (d\<lparr>count := n + 1\<rparr>)"
proof -
  have "\<not> 50 \<le> n" using assms(2) by simp
  then show ?thesis
    using assms by (cases i)
      (simp add: duoji_next_def duoji_handle_body_def duoji_flag_step_def duoji_key_step_def
        duoji_stick_step_def holding_def rt_thread_mdelay_def)
qed

lemma holding_run:
  assumes "holding n d" and "unat n + length is \<le> 50"
  shows "run_steps duoji_next (d, h) is =
         (d\<lparr>count := n + of_nat (length is)\<rparr>, replicate (length is) (DelayMs 10) @ h)"
  using assms
proof (induction "is" arbitrary: n d h)
  case Nil
  then show ?case by (simp add: holding_def)
next
  case (Cons i js)
  have lt: "n < 50" using Cons.prems(2) by (simp add: word_less_nat_alt)
  have "unat (n + 1) = unat n + 1"
    using lt by (subst unat_word_ariths) (simp add: word_less_nat_alt)
  with Cons.IH [of "n + 1" "d\<lparr>count := n + 1\<rparr>" "DelayMs 10 # h"] Cons.prems(2)
    holding_step [OF Cons.prems(1) lt, of h i]
  show ?case by (simp add: replicate_append_same [symmetric] add.assoc)
qed

text \<open>
  Key 8 moves both servos to their preset and freezes them: whatever the stick and the keys
  do, for the next 50 iterations the pulses keep the preset and the thread only sleeps.
\<close>

theorem servo_preset_held:
  assumes "ps2_flag d = 0" and "count d = 0" and "length inputs \<le> 50"
  shows "let s = run_steps duoji_next (duoji_next (d, h) (rx, ry, 8)) inputs
         in duoji1_pulse (fst s) = 950000 \<and> duoji2_pulse (fst s) = 600000 \<and>
            snd s = replicate (Suc (length inputs)) (DelayMs 10) @ h"
proof -
  define d1 where "d1 = d\<lparr>ps2_flag := 1, duoji1_pulse := 950000, duoji2_pulse := 600000\<rparr>"
  have "duoji_next (d, h) (rx, ry, 8) = (d1, DelayMs 10 # h)"
    using assms by (simp add: duoji_next_def duoji_handle_body_def duoji_flag_step_def duoji_key_step_def
        duoji_stick_step_def rt_thread_mdelay_def d1_def)
  moreover have "holding 0 d1" using assms by (simp add: holding_def d1_def)
  ultimately show ?thesis
    using holding_run [of 0 d1 inputs "DelayMs 10 # h"] assms(3)
    by (simp add: d1_def replicate_append_same [symmetric])
qed

lemma servo_preset_held_witness:
  "duoji1_pulse (fst (run_steps duoji_next (duoji_next (duoji_start, []) (63, 63, 8)) [(0, 0, 0), (255, 255, 5)]))
   = 950000"
  using servo_preset_held [of duoji_start "[(0, 0, 0), (255, 255, 5)]" "[]" 63 63]
  by (simp add: duoji_start_def Let_def)

end
