(* ===== verification/Ps2.thy ===== *)
theory Ps2
  imports Pins
begin

text \<open>
  The wireless joypad receiver (\<open>applications/ps2.c\<close>): the bit-banged serial exchange, the
  configuration commands, the decoding of buttons and sticks and one iteration of the
  \<open>PS2_handle\<close> thread. The receiver hardware is the \<open>board\<close> argument; \<open>joypad\<close> below is the
  documented behaviour of one, used to state what the exchange achieves.
\<close>

section \<open>Pins and tables\<close>

definition CLK :: nat where "CLK = GET_PIN PA 0"
definition CS :: nat where "CS = GET_PIN PA 1"
definition DO :: nat where "DO = GET_PIN PA 2"
definition DI_PIN :: nat where "DI_PIN = GET_PIN PA 3"

lemma ps2_pins: "CLK = 0" "CS = 1" "DO = 2" "DI_PIN = 3"
  by (simp_all add: CLK_def CS_def DO_def DI_PIN_def GET_PIN_def)

definition PSS_RX :: nat where "PSS_RX = 5"
definition PSS_RY :: nat where "PSS_RY = 6"
definition PSS_LX :: nat where "PSS_LX = 7"
definition PSS_LY :: nat where "PSS_LY = 8"

text \<open>\<open>MASK\<close>: the button numbers \<open>PSB_SELECT\<close> (1) to \<open>PSB_PINK\<close> (16), in this order.\<close>

definition MASK :: "nat list" where
  "MASK = [1, 2, 3, 4, 5, 6, 7, 8, 9, 10, 11, 12, 13, 14, 15, 16]"

definition Comd :: "u8 list" where "Comd = [0x01, 0x42]"

text \<open>The values of the loop variable \<open>for (ref = 0x01; ref < 0x0100; ref <<= 1)\<close>.\<close>

definition refs :: "u16 list" where
  "refs = [0x01, 0x02, 0x04, 0x08, 0x10, 0x20, 0x40, 0x80]"

section \<open>The exchange\<close>

definition PS2_Init :: "history \<Rightarrow> history" where
  "PS2_Init h =
     (let h = rt_pin_mode CS MODE_OUTPUT h;
          h = rt_pin_mode DO MODE_OUTPUT h;
          h = rt_pin_mode CLK MODE_OUTPUT h;
          h = rt_pin_mode DI_PIN MODE_INPUT_PULLUP h;
          h = rt_pin_write CS True h;
          h = rt_pin_write CLK True h
      in rt_pin_write DO True h)"

text \<open>One clock pulse: high, low, high with 5 microseconds in between, then sample DI.\<close>

definition clock_bit :: "board \<Rightarrow> history \<Rightarrow> bool \<times> history" where
  "clock_bit brd h =
     (let h = rt_pin_write CLK True h;
          h = rt_hw_us_delay 5 h;
          h = rt_pin_write CLK False h;
          h = rt_hw_us_delay 5 h;
          h = rt_pin_write CLK True h
      in rt_pin_read brd DI_PIN h)"

text \<open>The body of the bit loop of \<open>PS2_Cmd\<close>, on \<open>Data[1]\<close> and the history.\<close>

definition PS2_Cmd_bit :: "board \<Rightarrow> u8 \<Rightarrow> u16 \<Rightarrow> u8 \<times> history \<Rightarrow> u8 \<times> history" where
  "PS2_Cmd_bit brd CMD ref s =
     (let (d1, h) = s;
          h = (if ref AND ucast CMD \<noteq> 0 then rt_pin_write DO True h else rt_pin_write DO False h);
          (di, h) = clock_bit brd h
      in (if di then ucast (ref OR ucast d1) else d1, h))"

definition PS2_Cmd :: "board \<Rightarrow> u8 \<Rightarrow> u8 list \<times> history \<Rightarrow> u8 list \<times> history" where
  "PS2_Cmd brd CMD s =
     (let (dat, h) = s;
          (d1, h) = fold (PS2_Cmd_bit brd CMD) refs (0, h)
      in (dat[1 := d1], rt_hw_us_delay 16 h))"

fun PS2_Cmds :: "board \<Rightarrow> u8 list \<Rightarrow> u8 list \<times> history \<Rightarrow> u8 list \<times> history" where
  "PS2_Cmds brd [] s = s"
| "PS2_Cmds brd (c # cs) s = PS2_Cmds brd cs (PS2_Cmd brd c s)"

text \<open>A result of 0 means the receiver is in analogue (red light) mode.\<close>

definition PS2_RedLight :: "board \<Rightarrow> u8 list \<times> history \<Rightarrow> u8 \<times> u8 list \<times> history" where
  "PS2_RedLight brd s =
     (let (dat, h) = s;
          h = rt_pin_write CS False h;
          (dat, h) = PS2_Cmd brd (Comd ! 0) (dat, h);
          (dat, h) = PS2_Cmd brd (Comd ! 1) (dat, h);
          h = rt_pin_write CS True h
      in (if dat ! 1 = 0x73 then 0 else 1, dat, h))"

text \<open>The body of the bit loop of \<open>PS2_ReadData\<close>, on one data byte.\<close>

definition PS2_Read_bit :: "board \<Rightarrow> u16 \<Rightarrow> u8 \<times> history \<Rightarrow> u8 \<times> history" where
  "PS2_Read_bit brd ref s =
     (let (d, h) = s; (di, h) = clock_bit brd h
      in (if di then ucast (ref OR ucast d) else d, h))"

definition PS2_Read_byte :: "board \<Rightarrow> nat \<Rightarrow> u8 list \<times> history \<Rightarrow> u8 list \<times> history" where
  "PS2_Read_byte brd i s =
     (let (dat, h) = s;
          (d, h) = fold (PS2_Read_bit brd) refs (dat ! i, h)
      in (dat[i := d], rt_hw_us_delay 16 h))"

definition PS2_ReadData :: "board \<Rightarrow> u8 list \<times> history \<Rightarrow> u8 list \<times> history" where
  "PS2_ReadData brd s =
     (let (dat, h) = s;
          h = rt_pin_write CS False h;
          (dat, h) = PS2_Cmd brd (Comd ! 0) (dat, h);
          (dat, h) = PS2_Cmd brd (Comd ! 1) (dat, h);
          (dat, h) = fold (PS2_Read_byte brd) [2..<9] (dat, h)
      in (dat, rt_pin_write CS True h))"

definition PS2_ClearData :: "u8 list \<Rightarrow> u8 list" where
  "PS2_ClearData dat = fold (\<lambda>a d. d[a := 0]) [0..<9] dat"

definition PS2_AnologData :: "u8 list \<Rightarrow> nat \<Rightarrow> u8" where
  "PS2_AnologData dat button = dat ! button"

text \<open>The scan for the first pressed button: a pressed button is a zero bit.\<close>

fun key_scan :: "u16 \<Rightarrow> nat \<Rightarrow> nat list \<Rightarrow> u8" where
  "key_scan handkey index [] = 0"
| "key_scan handkey index (m # ms) =
     (if handkey AND push_bit (m - 1) 1 = 0 then of_nat index + 1
      else key_scan handkey (Suc index) ms)"

definition handkey_of :: "u8 list \<Rightarrow> u16" where
  "handkey_of dat = push_bit 8 (ucast (dat ! 4)) OR ucast (dat ! 3)"

definition PS2_DataKey :: "board \<Rightarrow> u8 list \<times> history \<Rightarrow> u8 \<times> u16 \<times> u8 list \<times> history" where
  "PS2_DataKey brd s =
     (let (dat, h) = s;
          (dat, h) = PS2_ReadData brd (PS2_ClearData dat, h);
          handkey = handkey_of dat
      in (key_scan handkey 0 MASK, handkey, dat, h))"

section \<open>Configuration commands\<close>

text \<open>
  Each configuration function lowers CS, sends a fixed byte sequence and raises CS again; all but
  \<open>PS2_TurnOnAnalogMode\<close> wait 16 microseconds after lowering CS.
\<close>

definition ps2_session :: "board \<Rightarrow> bool \<Rightarrow> u8 list \<Rightarrow> u8 list \<times> history \<Rightarrow> u8 list \<times> history" where
  "ps2_session brd wait cmds s =
     (let (dat, h) = s;
          h = rt_pin_write CS False h;
          h = (if wait then rt_hw_us_delay 16 h else h);
          (dat, h) = PS2_Cmds brd cmds (dat, h);
          h = rt_pin_write CS True h
      in (dat, rt_hw_us_delay 16 h))"

definition PS2_Vibration where
  "PS2_Vibration brd motor1 motor2 =
     ps2_session brd True [0x01, 0x42, 0x00, motor1, motor2, 0x00, 0x00, 0x00, 0x00]"

definition PS2_ShortPoll where
  "PS2_ShortPoll brd = ps2_session brd True [0x01, 0x42, 0x00, 0x00, 0x00]"

definition PS2_EnterConfing where
  "PS2_EnterConfing brd =
     ps2_session brd True [0x01, 0x43, 0x00, 0x01, 0x00, 0x00, 0x00, 0x00, 0x00]"

definition PS2_TurnOnAnalogMode where
  "PS2_TurnOnAnalogMode brd =
     ps2_session brd False [0x01, 0x44, 0x00, 0x01, 0x03, 0x00, 0x00, 0x00, 0x00]"

definition PS2_VibrationMode where
  "PS2_VibrationMode brd = ps2_session brd True [0x01, 0x4D, 0x00, 0x00, 0x01]"

definition PS2_ExitConfing where
  "PS2_ExitConfing brd =
     ps2_session brd True [0x01, 0x43, 0x00, 0x00, 0x5A, 0x5A, 0x5A, 0x5A, 0x5A]"

definition PS2_SetInit :: "board \<Rightarrow> u8 list \<times> history \<Rightarrow> u8 list \<times> history" where
  "PS2_SetInit brd s =
     PS2_ExitConfing brd (PS2_VibrationMode brd (PS2_TurnOnAnalogMode brd (PS2_EnterConfing brd
       (PS2_ShortPoll brd (PS2_ShortPoll brd (PS2_ShortPoll brd s))))))"

section \<open>The thread\<close>

record ps2 =
  Data :: "u8 list"
  Handkey :: u16
  PS2_LX :: int
  PS2_LY :: int
  PS2_RX :: int
  PS2_RY :: int
  PS2_KEY :: int
  beep_value :: u8

definition ps2_reset :: ps2 where
  "ps2_reset = \<lparr>Data = replicate 9 0, Handkey = 0, PS2_LX = 0, PS2_LY = 0, PS2_RX = 0, PS2_RY = 0,
                PS2_KEY = 0, beep_value = 0\<rparr>"

definition PS2_Receive :: "board \<Rightarrow> ps2 \<times> history \<Rightarrow> ps2 \<times> history" where
  "PS2_Receive brd s =
     (let (p, h) = s;
          p = p\<lparr>PS2_LX := uint (PS2_AnologData (Data p) PSS_LX)\<rparr>;
          p = p\<lparr>PS2_LY := uint (PS2_AnologData (Data p) PSS_LY)\<rparr>;
          p = p\<lparr>PS2_RX := uint (PS2_AnologData (Data p) PSS_RX)\<rparr>;
          p = p\<lparr>PS2_RY := uint (PS2_AnologData (Data p) PSS_RY)\<rparr>;
          (key, hk, dat, h) = PS2_DataKey brd (Data p, h)
      in (p\<lparr>PS2_KEY := uint key, Handkey := hk, Data := dat\<rparr>, h))"

text \<open>The loop body repeats the statements of \<open>PS2_Receive\<close> and sets the beeper request.\<close>

definition PS2_handle_body :: "board \<Rightarrow> ps2 \<times> history \<Rightarrow> ps2 \<times> history" where
  "PS2_handle_body brd s =
     (let (p, h) = PS2_Receive brd s;
          p = (if PS2_KEY p \<noteq> 0 then p\<lparr>beep_value := 1\<rparr> else p\<lparr>beep_value := 0\<rparr>)
      in (p, rt_thread_mdelay 50 h))"

definition PS2_handle_init :: "board \<Rightarrow> ps2 \<times> history \<Rightarrow> ps2 \<times> history" where
  "PS2_handle_init brd s =
     (let (p, h) = s;
          (dat, h) = PS2_SetInit brd (Data p, PS2_Init h);
          (dat, h) = PS2_Vibration brd 0x00 0x40 (dat, h)
      in (p\<lparr>Data := dat\<rparr>, rt_thread_mdelay 250 h))"

section \<open>What a receiver sees and answers\<close>

text \<open>Falling clock edges since the chip select was last lowered.\<close>

fun falls :: "history \<Rightarrow> nat" where
  "falls [] = 0"
| "falls (PinWrite p v # h) =
     (if p = CS \<and> \<not> v then 0
      else if p = CLK \<and> \<not> v \<and> level CLK h then Suc (falls h)
      else falls h)"
| "falls (_ # h) = falls h"

text \<open>The bits the receiver takes in: the level of DO at each rising clock edge, oldest first.\<close>

fun sent :: "history \<Rightarrow> bool list" where
  "sent [] = []"
| "sent (PinWrite p v # h) =
     (if p = CS \<and> \<not> v then []
      else if p = CLK \<and> v \<and> \<not> level CLK h then sent h @ [level DO h]
      else sent h)"
| "sent (_ # h) = sent h"

text \<open>A receiver that answers with the bytes \<open>resp\<close>, least significant bit first, one bit per clock.\<close>

definition joypad :: "u8 list \<Rightarrow> board" where
  "joypad resp h pin =
     (pin = DI_PIN \<and> 0 < falls h \<and> (falls h - 1) div 8 < length resp \<and>
      bit (resp ! ((falls h - 1) div 8)) ((falls h - 1) mod 8))"

section \<open>One clocked bit\<close>

text \<open>Bit \<open>n\<close> of a response of bytes.\<close>

definition resp_bit :: "u8 list \<Rightarrow> nat \<Rightarrow> bool" where
  "resp_bit resp n \<longleftrightarrow> n div 8 < length resp \<and> bit (resp ! (n div 8)) (n mod 8)"

lemma clock_bit_joypad:
  assumes "level CLK h"
  shows "fst (clock_bit (joypad resp) h) = resp_bit resp (falls h)"
    and "falls (snd (clock_bit brd h)) = Suc (falls h)"
    and "level p (snd (clock_bit brd h)) = level p h"
    and "sent (snd (clock_bit brd h)) = sent h @ [level DO h]"
  using assms
  by (simp_all add: clock_bit_def Let_def pin_ops_def joypad_def resp_bit_def ps2_pins)

text \<open>Both bit loops are transfers that differ in what they do to DO before the clock.\<close>

definition xfer_bit :: "board \<Rightarrow> (u16 \<Rightarrow> history \<Rightarrow> history) \<Rightarrow> u16 \<Rightarrow> u8 \<times> history \<Rightarrow> u8 \<times> history" where
  "xfer_bit brd out ref s =
     (let (d, h) = s; (di, h) = clock_bit brd (out ref h)
      in (if di then ucast (ref OR ucast d) else d, h))"

definition out_cmd :: "u8 \<Rightarrow> u16 \<Rightarrow> history \<Rightarrow> history" where
  "out_cmd c ref h = rt_pin_write DO (ref AND ucast c \<noteq> 0) h"

lemma PS2_Cmd_bit_xfer: "PS2_Cmd_bit brd c = xfer_bit brd (out_cmd c)"
  by (simp add: fun_eq_iff PS2_Cmd_bit_def xfer_bit_def out_cmd_def)

lemma PS2_Read_bit_xfer: "PS2_Read_bit brd = xfer_bit brd (\<lambda>_ h. h)"
  by (simp add: fun_eq_iff PS2_Read_bit_def xfer_bit_def)

definition quiet_out :: "(u16 \<Rightarrow> history \<Rightarrow> history) \<Rightarrow> bool" where
  "quiet_out out \<longleftrightarrow> (\<forall>r h. falls (out r h) = falls h \<and> sent (out r h) = sent h \<and>
     (\<forall>p. p \<noteq> DO \<longrightarrow> level p (out r h) = level p h))"

lemma quiet_out_cmd [simp]: "quiet_out (out_cmd c)" and quiet_out_id [simp]: "quiet_out (\<lambda>_ h. h)"
  by (simp_all add: quiet_out_def out_cmd_def rt_pin_write_def ps2_pins)

definition ref_at :: "nat \<Rightarrow> u16" where
  "ref_at i = push_bit i 1"

lemma refs_upt: "refs = map ref_at [0..<8]"
  by (simp add: refs_def ref_at_def upt_rec)

lemma or_ref_bit: "i < 8 \<Longrightarrow> j < 8 \<Longrightarrow> bit (ucast (ref_at i OR ucast (d :: u8)) :: u8) j = (j = i \<or> bit d j)"
  by (auto simp: ref_at_def bit_simps)

text \<open>The first \<open>n\<close> bits of a byte transfer.\<close>

lemma xfer_bits:
  fixes d0 :: u8 and resp :: "u8 list"
  assumes "level CLK h" and "n \<le> 8" and "quiet_out out"
  defines "r \<equiv> fold (xfer_bit (joypad resp) out) (map ref_at [0..<n]) (d0, h)"
  shows "level CLK (snd r) \<and> level CS (snd r) = level CS h \<and> falls (snd r) = falls h + n \<and>
         (\<forall>j < 8. bit (fst r) j = (j < n \<and> resp_bit resp (falls h + j) \<or> bit d0 j))"
  using assms(2) unfolding r_def
proof (induction n)
  case 0
  then show ?case using assms(1) by simp
next
  case (Suc n)
  define s where "s = fold (xfer_bit (joypad resp) out) (map ref_at [0..<n]) (d0, h)"
  have IH: "level CLK (snd s)" "level CS (snd s) = level CS h" "falls (snd s) = falls h + n"
    "\<And>j. j < 8 \<Longrightarrow> bit (fst s) j = (j < n \<and> resp_bit resp (falls h + j) \<or> bit d0 j)"
    using Suc.IH Suc.prems by (simp_all add: s_def)
  define h1 where "h1 = out (ref_at n) (snd s)"
  have h1: "level CLK h1" "level CS h1 = level CS h" "falls h1 = falls h + n"
    using assms(3) IH(1,2,3) by (simp_all add: h1_def quiet_out_def ps2_pins)
  have step: "fold (xfer_bit (joypad resp) out) (map ref_at [0..<Suc n]) (d0, h) =
      (if resp_bit resp (falls h + n) then ucast (ref_at n OR ucast (fst s)) else fst s,
       snd (clock_bit (joypad resp) h1))"
  proof -
    have "fold (xfer_bit (joypad resp) out) (map ref_at [0..<Suc n]) (d0, h) =
        xfer_bit (joypad resp) out (ref_at n) s" by (simp add: s_def)
    then show ?thesis
      using clock_bit_joypad(1) [OF h1(1), of resp] h1(3)
      by (simp add: xfer_bit_def h1_def Let_def split_beta)
  qed
  show ?case
    unfolding step using Suc.prems h1 clock_bit_joypad(2,3) [OF h1(1)]
    by (auto simp: or_ref_bit IH(4) less_Suc_eq)
qed

text \<open>A whole byte: bytes of the response line up with byte transfers.\<close>

lemma byte_of_resp_bits:
  assumes "\<forall>j < 8. bit (d :: u8) j = resp_bit resp (8 * k + j)" and "k < length resp"
  shows "d = resp ! k"
  using assms by (intro bit_word_eqI) (simp add: resp_bit_def)

lemma xfer_byte:
  assumes "level CLK h" and "quiet_out out" and "falls h = 8 * k" and "k < length resp"
  shows "\<exists>h'. fold (xfer_bit (joypad resp) out) refs (0, h) = (resp ! k, h') \<and>
     level CLK h' \<and> level CS h' = level CS h \<and> falls h' = 8 * Suc k"
proof -
  define r where "r = fold (xfer_bit (joypad resp) out) refs (0, h)"
  have "level CLK (snd r) \<and> level CS (snd r) = level CS h \<and> falls (snd r) = falls h + 8 \<and>
        (\<forall>j < 8. bit (fst r) j = resp_bit resp (falls h + j))"
    using xfer_bits [OF assms(1) _ assms(2), of 8 resp 0] by (simp add: r_def refs_upt)
  moreover from this have "fst r = resp ! k"
    using byte_of_resp_bits [of "fst r" resp k] assms(3,4) by simp
  ultimately show ?thesis
    using assms(3) by (intro exI [of _ "snd r"]) (simp add: r_def [symmetric] prod_eq_iff)
qed

section \<open>Frames\<close>

lemma PS2_Cmd_joypad:
  assumes "level CLK h" and "falls h = 8 * k" and "k < length resp"
  shows "\<exists>h'. PS2_Cmd (joypad resp) c (dat, h) = (dat[1 := resp ! k], h') \<and>
     level CLK h' \<and> level CS h' = level CS h \<and> falls h' = 8 * Suc k"
  using xfer_byte [OF assms(1) quiet_out_cmd assms(2,3), of c]
  by (auto simp: PS2_Cmd_def PS2_Cmd_bit_xfer rt_hw_us_delay_def)

lemma PS2_Read_byte_joypad:
  assumes "level CLK h" and "falls h = 8 * k" and "k < length resp" and "dat ! i = 0"
  shows "\<exists>h'. PS2_Read_byte (joypad resp) i (dat, h) = (dat[i := resp ! k], h') \<and>
     level CLK h' \<and> level CS h' = level CS h \<and> falls h' = 8 * Suc k"
  using xfer_byte [OF assms(1) quiet_out_id assms(2,3)] assms(4)
  by (auto simp: PS2_Read_byte_def PS2_Read_bit_xfer rt_hw_us_delay_def)

lemma PS2_Read_bytes_joypad:
  assumes "level CLK h" and "falls h = 16" and "n \<le> 7" and "length resp = 9"
    and "length dat = 9" and "\<forall>i. 2 \<le> i \<and> i < 9 \<longrightarrow> dat ! i = 0"
  shows "\<exists>h'. fold (PS2_Read_byte (joypad resp)) [2..<n + 2] (dat, h) =
       (take 2 dat @ take n (drop 2 resp) @ drop (n + 2) dat, h') \<and>
     level CLK h' \<and> level CS h' = level CS h \<and> falls h' = 8 * (n + 2)"
  using assms(3)
proof (induction n)
  case 0
  then show ?case using assms by (simp add: append_take_drop_id [of 2 dat, simplified numeral_2_eq_2] numeral_2_eq_2)
next
  case (Suc n)
  then obtain h1 where h1: "fold (PS2_Read_byte (joypad resp)) [2..<n + 2] (dat, h) =
       (take 2 dat @ take n (drop 2 resp) @ drop (n + 2) dat, h1)"
    "level CLK h1" "level CS h1 = level CS h" "falls h1 = 8 * (n + 2)"
    by auto
  let ?d = "take 2 dat @ take n (drop 2 resp) @ drop (n + 2) dat"
  have zero: "?d ! (n + 2) = 0"
    using Suc.prems assms(4-6) by (simp add: nth_append)
  have upd: "?d[n + 2 := resp ! (n + 2)] = take 2 dat @ take (Suc n) (drop 2 resp) @ drop (Suc n + 2) dat"
    using Suc.prems assms(4,5)
    by (simp add: list_update_append take_Suc_conv_app_nth) (simp add: Cons_nth_drop_Suc [symmetric])
  have range: "[2..<Suc n + 2] = [2..<n + 2] @ [n + 2]" by simp
  have bound: "n + 2 < length resp" using Suc.prems assms(4) by simp
  obtain h2 where h2: "PS2_Read_byte (joypad resp) (n + 2) (?d, h1) = (?d[n + 2 := resp ! (n + 2)], h2)"
    "level CLK h2" "level CS h2 = level CS h1" "falls h2 = 8 * Suc (n + 2)"
    using PS2_Read_byte_joypad [OF h1(2,4) bound zero] by blast
  have "fold (PS2_Read_byte (joypad resp)) [2..<Suc n + 2] (dat, h) =
      (take 2 dat @ take (Suc n) (drop 2 resp) @ drop (Suc n + 2) dat, h2)"
    unfolding range fold_append comp_apply h1(1) upd [symmetric] using h2(1) by simp
  then show ?case
    using h1(3) h2(2-4) by simp
qed

lemma PS2_ClearData_zero: "length dat = 9 \<Longrightarrow> PS2_ClearData dat = replicate 9 0"
  by (simp add: PS2_ClearData_def upt_rec list_eq_iff_nth_eq nth_list_update less_Suc_eq_le)

text \<open>A frame: the first byte is discarded, the rest is stored.\<close>

lemma PS2_ReadData_frame:
  assumes "length resp = 9" and "level CLK h"
  shows "\<exists>h'. PS2_ReadData (joypad resp) (replicate 9 0, h) = (0 # tl resp, h') \<and>
              level CLK h' \<and> level CS h'"
proof -
  define h0 where "h0 = rt_pin_write CS False h"
  have h0: "level CLK h0" "falls h0 = 8 * 0" using assms(2) by (simp_all add: h0_def rt_pin_write_def ps2_pins)
  obtain h1 where h1: "PS2_Cmd (joypad resp) (Comd ! 0) (replicate 9 0, h0) = ((replicate 9 0)[1 := resp ! 0], h1)"
    "level CLK h1" "falls h1 = 8 * 1"
    using PS2_Cmd_joypad [OF h0, of resp] assms(1) by auto
  obtain h2 where h2: "PS2_Cmd (joypad resp) (Comd ! 1) ((replicate 9 0)[1 := resp ! 0], h1) =
      ((replicate 9 0)[1 := resp ! 1], h2)" "level CLK h2" "falls h2 = 16"
    using PS2_Cmd_joypad [OF h1(2,3), of resp "Comd ! 1" "(replicate 9 0)[1 := resp ! 0]"] assms(1) by auto
  let ?d = "(replicate 9 0)[1 := resp ! 1]"
  obtain h3 where h3: "fold (PS2_Read_byte (joypad resp)) [2..<9] (?d, h2) =
      (take 2 ?d @ drop 2 resp, h3)" "level CLK h3"
    using PS2_Read_bytes_joypad [OF h2(2,3), of 7 resp ?d] assms(1)
    by (auto simp: nth_list_update)
  have "take 2 ?d @ drop 2 resp = 0 # tl resp"
    using assms(1) by (cases resp; cases "tl resp") (simp_all add: numeral_eq_Suc)
  then show ?thesis
    using h1(1) h2(1) h3 by (simp add: PS2_ReadData_def h0_def ps2_pins)
qed

text \<open>
  C37. A frame read: with a receiver that answers with nine bytes, \<open>PS2_ReadData\<close> on a cleared buffer
  stores response bytes 1 to 8 at their own index, whatever was sent, and releases the chip select.
\<close>

theorem PS2_ReadData_receives:
  assumes "length resp = 9" and "level CLK h"
  shows "\<exists>h'. PS2_ReadData (joypad resp) (replicate 9 0, h) = (0 # tl resp, h') \<and>
              level CLK h' \<and> level CS h'"
  using assms by (rule PS2_ReadData_frame)

theorem PS2_ReadData_receives_witness:
  "let resp = [0xFF, 0x73, 0x5A, 0xEF, 0xFF, 0x80, 0x7F, 0x00, 0x01] in
   \<exists>h'. PS2_ReadData (joypad resp) (replicate 9 0, PS2_Init []) = (0 # tl resp, h') \<and>
        level CLK h' \<and> level CS h'"
proof -
  have "level CLK (PS2_Init [])"
    by (simp add: PS2_Init_def pin_ops_def ps2_pins Let_def)
  then show ?thesis
    unfolding Let_def by (intro PS2_ReadData_receives) simp_all
qed

section \<open>Buttons\<close>

text \<open>The scan as a search over bit positions.\<close>

lemma key_scan_upt:
  "n + k = 16 \<Longrightarrow> key_scan hk n [n + 1..<17] =
     (case find (\<lambda>i. \<not> bit hk i) [n..<16] of None \<Rightarrow> 0 | Some i \<Rightarrow> of_nat i + 1)"
proof (induction k arbitrary: n)
  case 0
  then show ?case by simp
next
  case (Suc k)
  then have n: "n < 16" and m: "[n + 1..<17] = (n + 1) # [n + 1 + 1..<17]" and i: "[n..<16] = n # [n + 1..<16]"
    by (simp_all add: upt_conv_Cons)
  have b: "(hk AND push_bit n 1 = 0) \<longleftrightarrow> \<not> bit hk n"
    using bit_push_bit_iff [of n "1 :: u16"] n by (metis and_exp_eq_0_iff_not_bit push_bit_of_1)
  show ?case
    unfolding m i using Suc.IH [of "n + 1"] Suc.prems b by simp
qed

lemma MASK_upt: "MASK = [0 + 1..<17]"
  by (simp add: MASK_def upt_rec)

text \<open>
  Key decoding, for every attached hardware: the key number returned is one more than the
  lowest zero bit of the half word assembled from bytes 3 and 4 of the frame just read, and it is 0
  exactly when no button bit is zero.
\<close>

theorem PS2_DataKey_first_pressed:
  "case PS2_DataKey brd (dat, h) of (key, hk, dat', h') \<Rightarrow>
     hk = handkey_of dat' \<and> (dat', h') = PS2_ReadData brd (PS2_ClearData dat, h) \<and>
     key = (case find (\<lambda>i. \<not> bit hk i) [0..<16] of None \<Rightarrow> 0 | Some i \<Rightarrow> of_nat i + 1)"
  using key_scan_upt [of 0 16]
  by (simp add: PS2_DataKey_def MASK_upt Let_def split: prod.splits del: upt.simps)

section \<open>What the receiver is told\<close>

definition byte_bits :: "u8 \<Rightarrow> bool list" where
  "byte_bits c = map (bit c) [0..<8]"

lemma clock_bit_sent:
  assumes "level CLK h"
  shows "sent (snd (clock_bit brd h)) = sent h @ [level DO h]" "level p (snd (clock_bit brd h)) = level p h"
  using assms by (simp_all add: clock_bit_def Let_def pin_ops_def ps2_pins)

lemma out_cmd_effect:
  "i < 8 \<Longrightarrow> level DO (out_cmd c (ref_at i) h) = bit c i"
  "p \<noteq> DO \<Longrightarrow> level p (out_cmd c r h) = level p h"
  "sent (out_cmd c r h) = sent h"
proof -
  have "(ref_at i AND (ucast c :: u16) \<noteq> 0) = bit c i" if "i < 8" for i
    using that unfolding ref_at_def push_bit_of_1
    by (subst and.commute) (simp only: and_exp_eq_0_iff_not_bit, simp add: bit_simps)
  then show "i < 8 \<Longrightarrow> level DO (out_cmd c (ref_at i) h) = bit c i"
    by (simp add: out_cmd_def)
qed (simp_all add: out_cmd_def rt_pin_write_def ps2_pins)

lemma PS2_Cmd_bits_sent:
  assumes "level CLK h" and "n \<le> 8"
  shows "level CLK (snd (fold (PS2_Cmd_bit brd c) (map ref_at [0..<n]) (d, h))) \<and>
     sent (snd (fold (PS2_Cmd_bit brd c) (map ref_at [0..<n]) (d, h))) = sent h @ map (bit c) [0..<n]"
  using assms(2)
proof (induction n)
  case 0
  then show ?case using assms(1) by simp
next
  case (Suc n)
  define s where "s = fold (PS2_Cmd_bit brd c) (map ref_at [0..<n]) (d, h)"
  have s: "level CLK (snd s)" "sent (snd s) = sent h @ map (bit c) [0..<n]"
    using Suc by (simp_all add: s_def)
  have 1: "level CLK (out_cmd c (ref_at n) (snd s))" using s(1) by (simp add: out_cmd_effect(2) ps2_pins)
  have "snd (PS2_Cmd_bit brd c (ref_at n) s) = snd (clock_bit brd (out_cmd c (ref_at n) (snd s)))"
    by (simp add: PS2_Cmd_bit_xfer xfer_bit_def split_beta)
  then show ?case
    using clock_bit_sent [OF 1] 1 Suc.prems s by (simp add: s_def [symmetric] out_cmd_effect)
qed

lemma PS2_Cmd_sent:
  assumes "level CLK h"
  shows "level CLK (snd (PS2_Cmd brd c (dat, h)))" "sent (snd (PS2_Cmd brd c (dat, h))) = sent h @ byte_bits c"
  using PS2_Cmd_bits_sent [OF assms, of 8 brd c 0]
  by (simp_all add: PS2_Cmd_def refs_upt byte_bits_def split_beta rt_hw_us_delay_def)

lemma PS2_Cmds_sent:
  "level CLK h \<Longrightarrow> level CLK (snd (PS2_Cmds brd cs (dat, h))) \<and>
     sent (snd (PS2_Cmds brd cs (dat, h))) = sent h @ concat (map byte_bits cs)"
proof (induction cs arbitrary: dat h)
  case Nil
  then show ?case by simp
next
  case (Cons c cs)
  obtain dat' h' where e: "PS2_Cmd brd c (dat, h) = (dat', h')" by fastforce
  show ?case
    using Cons.IH [where h = h' and dat = dat'] PS2_Cmd_sent [OF Cons.prems, of brd c dat] by (simp add: e)
qed

text \<open>
  A configuration session, for every attached hardware: between lowering and raising the chip
  select the receiver is clocked exactly the bytes of the command, each least significant bit first,
  and the clock and the chip select are left high.
\<close>

theorem ps2_session_sends:
  assumes "level CLK h"
  shows "case ps2_session brd wait cmds (dat, h) of (dat', h') \<Rightarrow>
     sent h' = concat (map byte_bits cmds) \<and> level CLK h' \<and> level CS h'"
proof -
  define h0 where "h0 = (if wait then rt_hw_us_delay 16 (rt_pin_write CS False h) else rt_pin_write CS False h)"
  have h0: "level CLK h0" "sent h0 = []"
    using assms by (simp_all add: h0_def rt_hw_us_delay_def rt_pin_write_def ps2_pins)
  show ?thesis
    using PS2_Cmds_sent [OF h0(1), of brd cmds dat] h0(2)
    by (simp add: ps2_session_def Let_def h0_def [symmetric] split_beta)
      (simp add: rt_hw_us_delay_def rt_pin_write_def ps2_pins)
qed

theorem ps2_session_sends_witness:
  "case ps2_session (\<lambda>_ _. True) True [0x01, 0x43] (replicate 9 0, PS2_Init []) of (dat', h') \<Rightarrow>
     sent h' = concat (map byte_bits [0x01, 0x43]) \<and> level CLK h' \<and> level CS h'"
proof -
  have "level CLK (PS2_Init [])"
    by (simp add: PS2_Init_def pin_ops_def ps2_pins Let_def)
  then show ?thesis by (rule ps2_session_sends)
qed

section \<open>The thread\<close>

lemma PS2_handle_body_frame:
  assumes "length resp = 9" and "level CLK h" and "length (Data p) = 9"
  shows "\<exists>h'. PS2_handle_body (joypad resp) (p, h) =
     (p\<lparr>PS2_LX := uint (Data p ! 7), PS2_LY := uint (Data p ! 8),
        PS2_RX := uint (Data p ! 5), PS2_RY := uint (Data p ! 6),
        PS2_KEY := uint (key_scan (handkey_of resp) 0 MASK), Handkey := handkey_of resp,
        Data := 0 # tl resp,
        beep_value := (if key_scan (handkey_of resp) 0 MASK = 0 then 0 else 1)\<rparr>, h') \<and> level CLK h'"
proof -
  obtain h1 where h1: "PS2_ReadData (joypad resp) (replicate 9 0, h) = (0 # tl resp, h1)" "level CLK h1"
    using PS2_ReadData_frame [OF assms(1,2)] by blast
  have hk: "handkey_of (0 # tl resp) = handkey_of resp"
    using assms(1) by (cases resp) (simp_all add: handkey_of_def)
  show ?thesis
    using h1 hk PS2_ClearData_zero [OF assms(3)]
    by (simp add: PS2_handle_body_def PS2_Receive_def PS2_DataKey_def PS2_AnologData_def
        PSS_RX_def PSS_RY_def PSS_LX_def PSS_LY_def Let_def uint_0_iff)
qed

text \<open>
  Latency: two iterations of the thread with frames \<open>r1\<close> and \<open>r2\<close>. The stick values published
  by the second iteration are those of the first frame, while its key and beeper request are
  those of the second.
\<close>

theorem PS2_handle_latency:
  assumes "length r1 = 9" and "length r2 = 9" and "level CLK h" and "length (Data p) = 9"
  shows "case PS2_handle_body (joypad r2) (PS2_handle_body (joypad r1) (p, h)) of (p', h') \<Rightarrow>
     PS2_LX p' = uint (r1 ! 7) \<and> PS2_LY p' = uint (r1 ! 8) \<and>
     PS2_RX p' = uint (r1 ! 5) \<and> PS2_RY p' = uint (r1 ! 6) \<and>
     PS2_KEY p' = uint (key_scan (handkey_of r2) 0 MASK) \<and>
     beep_value p' = (if PS2_KEY p' = 0 then 0 else 1) \<and> Data p' = 0 # tl r2"
proof -
  obtain p1 h1 where 1: "PS2_handle_body (joypad r1) (p, h) = (p1, h1)" "level CLK h1" "Data p1 = 0 # tl r1"
    using PS2_handle_body_frame [OF assms(1,3,4)] by fastforce
  have l: "length (Data p1) = 9" using 1(3) assms(1) by simp
  obtain h2 where 2: "PS2_handle_body (joypad r2) (p1, h1) =
     (p1\<lparr>PS2_LX := uint (Data p1 ! 7), PS2_LY := uint (Data p1 ! 8),
         PS2_RX := uint (Data p1 ! 5), PS2_RY := uint (Data p1 ! 6),
         PS2_KEY := uint (key_scan (handkey_of r2) 0 MASK), Handkey := handkey_of r2,
         Data := 0 # tl r2,
         beep_value := (if key_scan (handkey_of r2) 0 MASK = 0 then 0 else 1)\<rparr>, h2)"
    using PS2_handle_body_frame [OF assms(2) 1(2) l] by blast
  have n: "Data p1 ! i = r1 ! i" if "i \<in> {5, 6, 7, 8}" for i
    using that 1(3) assms(1) by (cases r1) auto
  show ?thesis
    unfolding 1(1) 2 by (simp add: n uint_0_iff)
qed

theorem PS2_handle_latency_witness:
  "case PS2_handle_body (joypad (replicate 9 0xFF))
      (PS2_handle_body (joypad [0xFF, 0x73, 0x5A, 0xFE, 0xFF, 0x80, 0x7F, 0x00, 0x01]) (ps2_reset, PS2_Init [])) of
     (p', h') \<Rightarrow> PS2_LX p' = 0 \<and> PS2_LY p' = 1 \<and> PS2_RX p' = 0x80 \<and> PS2_KEY p' = 0 \<and> beep_value p' = 0"
proof -
  have "level CLK (PS2_Init [])" "length (Data ps2_reset) = 9"
    by (simp_all add: PS2_Init_def ps2_reset_def pin_ops_def ps2_pins Let_def)
  moreover have "key_scan (handkey_of (replicate 9 0xFF)) 0 MASK = 0" by code_simp
  ultimately show ?thesis
    using PS2_handle_latency [of "[0xFF, 0x73, 0x5A, 0xFE, 0xFF, 0x80, 0x7F, 0x00, 0x01]" "replicate 9 0xFF"
        "PS2_Init []" ps2_reset]
    by (auto split: prod.splits)
qed

end
