(* ===== verification/Lcd.thy ===== *)
theory Lcd
  imports Pins
begin

text \<open>
  The display driver (\<open>applications/lcd.c\<close>): the bit-banged SPI byte, commands and data, the
  address window, fills, glyphs and pictures, and the drawing routines (points, lines, circles,
  boxes). \<open>spi_rx\<close> is the reading side of the wire: data is sampled on a rising clock edge while
  the chip select is low, most significant bit first. The font tables of \<open>font.h\<close> are arguments.
\<close>

section \<open>Pins and the wire\<close>

definition SPI_SCK :: nat where "SPI_SCK = GET_PIN PA 5"
definition SPI_SDA :: nat where "SPI_SDA = GET_PIN PA 7"
definition SPI_RST :: nat where "SPI_RST = GET_PIN PB 5"
definition SPI_DC :: nat where "SPI_DC = GET_PIN PA 6"
definition SPI_CS :: nat where "SPI_CS = GET_PIN PA 4"
definition SPI_BLK :: nat where "SPI_BLK = GET_PIN PB 2"

lemma lcd_pins:
  "SPI_SCK = 5" "SPI_SDA = 7" "SPI_RST = 21" "SPI_DC = 6" "SPI_CS = 4" "SPI_BLK = 18"
  by (simp_all add: SPI_SCK_def SPI_SDA_def SPI_RST_def SPI_DC_def SPI_CS_def SPI_BLK_def GET_PIN_def)

definition TFT_COLUMN_NUMBER :: nat where "TFT_COLUMN_NUMBER = 170"
definition TFT_LINE_NUMBER :: nat where "TFT_LINE_NUMBER = 320"
definition TFT_COLUMN_OFFSET :: u16 where "TFT_COLUMN_OFFSET = 35"
definition TFT_LINE_OFFSET :: u16 where "TFT_LINE_OFFSET = 0"

definition WHITE :: u16 where "WHITE = 0xFFFF"
definition BLACK :: u16 where "BLACK = 0x0000"
definition GRAY1 :: u16 where "GRAY1 = 0x8410"
definition GRAY2 :: u16 where "GRAY2 = 0x4208"

text \<open>One pass of the bit loop of \<open>SPI_SendByte\<close>, on the remaining byte.\<close>

definition SPI_SendBit :: "u8 \<times> history \<Rightarrow> u8 \<times> history" where
  "SPI_SendBit s =
     (let (byte, h) = s;
          h = rt_pin_write SPI_SCK False h;
          h = (if byte AND 0x80 = 0 then rt_pin_write SPI_SDA False h else rt_pin_write SPI_SDA True h);
          byte = push_bit 1 byte;
          h = rt_pin_write SPI_SCK True h;
          h = rt_pin_write SPI_SCK False h
      in (byte, h))"

definition SPI_SendByte :: "u8 \<Rightarrow> history \<Rightarrow> history" where
  "SPI_SendByte byte h = snd ((SPI_SendBit ^^ 8) (byte, h))"

definition TFT_SEND_CMD :: "u8 \<Rightarrow> history \<Rightarrow> history" where
  "TFT_SEND_CMD o_command h =
     (let h = rt_pin_write SPI_DC False h;
          h = rt_pin_write SPI_CS False h;
          h = SPI_SendByte o_command h
      in rt_pin_write SPI_CS True h)"

definition TFT_SEND_DATA :: "u8 \<Rightarrow> history \<Rightarrow> history" where
  "TFT_SEND_DATA o_data h =
     (let h = rt_pin_write SPI_DC True h;
          h = rt_pin_write SPI_CS False h;
          h = SPI_SendByte o_data h
      in rt_pin_write SPI_CS True h)"

definition hi8 :: "u16 \<Rightarrow> u8" where "hi8 x = ucast (drop_bit 8 x)"
definition lo8 :: "u16 \<Rightarrow> u8" where "lo8 x = ucast x"

definition TFT_Write_HalfWord :: "u16 \<Rightarrow> history \<Rightarrow> history" where
  "TFT_Write_HalfWord da h =
     (let h = rt_pin_write SPI_DC True h;
          h = rt_pin_write SPI_CS False h;
          h = SPI_SendByte (hi8 da) h;
          h = SPI_SendByte (lo8 da) h
      in rt_pin_write SPI_CS True h)"

definition TFT_SET_ADD :: "u16 \<Rightarrow> u16 \<Rightarrow> u16 \<Rightarrow> u16 \<Rightarrow> history \<Rightarrow> history" where
  "TFT_SET_ADD x_start y_start x_end y_end h =
     (let x = x_start + TFT_COLUMN_OFFSET; y = x_end + TFT_COLUMN_OFFSET;
          h = TFT_SEND_CMD 0x2a h;
          h = TFT_SEND_DATA (hi8 x) h;
          h = TFT_SEND_DATA (lo8 x) h;
          h = TFT_SEND_DATA (hi8 y) h;
          h = TFT_SEND_DATA (lo8 y) h;
          x = y_start + TFT_LINE_OFFSET;
          y = y_end + TFT_LINE_OFFSET;
          h = TFT_SEND_CMD 0x2b h;
          h = TFT_SEND_DATA (hi8 x) h;
          h = TFT_SEND_DATA (lo8 x) h;
          h = TFT_SEND_DATA (hi8 y) h;
          h = TFT_SEND_DATA (lo8 y) h
      in TFT_SEND_CMD 0x2C h)"

section \<open>Fills\<close>

text \<open>\<open>color\<close> is 32 bits wide here; \<open>color >> 8\<close> and \<open>color\<close> are truncated to a byte each.\<close>

definition send_color :: "u32 \<Rightarrow> history \<Rightarrow> history" where
  "send_color color h = TFT_SEND_DATA (ucast color) (TFT_SEND_DATA (ucast (drop_bit 8 color)) h)"

definition TFT_clear :: "history \<Rightarrow> history" where
  "TFT_clear h =
     (let h = TFT_SET_ADD 0 0 (of_nat (TFT_COLUMN_NUMBER - 1)) (of_nat (TFT_LINE_NUMBER - 1)) h
      in ((\<lambda>h. ((\<lambda>h. TFT_SEND_DATA 0xFF (TFT_SEND_DATA 0xFF h)) ^^ TFT_COLUMN_NUMBER) h)
            ^^ TFT_LINE_NUMBER) h)"

definition TFT_full :: "u32 \<Rightarrow> history \<Rightarrow> history" where
  "TFT_full color h =
     (let h = TFT_SET_ADD 0 0 (of_nat (TFT_COLUMN_NUMBER - 1)) (of_nat (TFT_LINE_NUMBER - 1)) h
      in ((\<lambda>h. (send_color color ^^ TFT_COLUMN_NUMBER) h) ^^ TFT_LINE_NUMBER) h)"

text \<open>The controller set-up after sleep out: commands (\<open>False\<close>) and data (\<open>True\<close>), in order.\<close>

definition init_table :: "(bool \<times> u8) list" where
  "init_table =
     [(False, 0x3A), (True, 0x05), (False, 0xC5), (True, 0x1A), (False, 0x36), (True, 0x00),
      (False, 0xb2), (True, 0x05), (True, 0x05), (True, 0x00), (True, 0x33), (True, 0x33),
      (False, 0xb7), (True, 0x05), (False, 0xBB), (True, 0x3F), (False, 0xC0), (True, 0x2c),
      (False, 0xC2), (True, 0x01), (False, 0xC3), (True, 0x0F), (False, 0xC4), (True, 0x20),
      (False, 0xC6), (True, 0x01), (False, 0xd0), (True, 0xa4), (True, 0xa1),
      (False, 0xE8), (True, 0x03), (False, 0xE9), (True, 0x09), (True, 0x09), (True, 0x08),
      (False, 0xE0), (True, 0xD0), (True, 0x05), (True, 0x09), (True, 0x09), (True, 0x08),
      (True, 0x14), (True, 0x28), (True, 0x33), (True, 0x3F), (True, 0x07), (True, 0x13),
      (True, 0x14), (True, 0x28), (True, 0x30),
      (False, 0xE1), (True, 0xD0), (True, 0x05), (True, 0x09), (True, 0x09), (True, 0x08),
      (True, 0x03), (True, 0x24), (True, 0x32), (True, 0x32), (True, 0x3B), (True, 0x14),
      (True, 0x13), (True, 0x28), (True, 0x2F), (False, 0x21), (False, 0x29)]"

definition send_tagged :: "bool \<times> u8 \<Rightarrow> history \<Rightarrow> history" where
  "send_tagged m h = (if fst m then TFT_SEND_DATA (snd m) h else TFT_SEND_CMD (snd m) h)"

definition TFT_init :: "history \<Rightarrow> history" where
  "TFT_init h =
     (let h = rt_pin_mode SPI_SCK MODE_OUTPUT h;
          h = rt_pin_mode SPI_SDA MODE_OUTPUT h;
          h = rt_pin_mode SPI_RST MODE_OUTPUT h;
          h = rt_pin_mode SPI_DC MODE_OUTPUT h;
          h = rt_pin_mode SPI_CS MODE_OUTPUT h;
          h = rt_pin_mode SPI_BLK MODE_OUTPUT h;
          h = rt_pin_write SPI_SCK True h;
          h = rt_pin_write SPI_RST False h;
          h = rt_thread_mdelay 1000 h;
          h = rt_pin_write SPI_RST True h;
          h = rt_thread_mdelay 1000 h;
          h = TFT_SEND_CMD 0x11 h;
          h = rt_thread_mdelay 120 h
      in fold send_tagged init_table h)"

section \<open>Glyphs and pictures\<close>

text \<open>The eight pixels of a glyph byte, least significant bit first; a clear bit is white.\<close>

definition glyph_bit :: "u32 \<Rightarrow> u8 \<times> history \<Rightarrow> u8 \<times> history" where
  "glyph_bit color s =
     (let (temp, h) = s;
          h = (if temp AND 0x01 \<noteq> 0 then send_color color h else TFT_SEND_DATA 0xFF (TFT_SEND_DATA 0xFF h))
      in (drop_bit 1 temp, h))"

definition glyph_byte :: "u32 \<Rightarrow> u8 \<Rightarrow> history \<Rightarrow> history" where
  "glyph_byte color temp h = snd ((glyph_bit color ^^ 8) (temp, h))"

text \<open>
  \<open>display_char16_16\<close> and \<open>display_ascii_16_16\<close> differ only in the table they index. A serial number
  past the end of the table is an access outside the array.
\<close>

definition display_glyph :: "u8 list list \<Rightarrow> u32 \<Rightarrow> u32 \<Rightarrow> u32 \<Rightarrow> u8 \<Rightarrow> history \<Rightarrow> fault + history" where
  "display_glyph table x y color word_serial_number h =
     (let h = TFT_SET_ADD (ucast x) (ucast y) (ucast (x + 15)) (ucast (y + 15)) h
      in bind_err (arr_get table (unat word_serial_number)) (\<lambda>row.
           fold (\<lambda>xxx r. bind_err r (\<lambda>h. bind_err (arr_get row xxx) (\<lambda>temp. Inr (glyph_byte color temp h))))
             [0..<32] (Inr h)))"

definition display_char16_16 where
  "display_char16_16 chines_word x y color n h = display_glyph chines_word x y color n h"

definition display_ascii_16_16 where
  "display_ascii_16_16 ascii_8X16 x y color n h = display_glyph ascii_8X16 x y color n h"

text \<open>\<open>data\<close> is the string up to its terminating zero; the colour argument is not used.\<close>

fun display_string :: "u8 list list \<Rightarrow> u32 \<Rightarrow> u32 \<Rightarrow> u32 \<Rightarrow> u8 list \<Rightarrow> history \<Rightarrow> fault + history" where
  "display_string font x y color [] h = Inr h"
| "display_string font x y color (c # cs) h =
     (if c = 0 then Inr h
      else bind_err (display_ascii_16_16 font x y (ucast BLACK) (c - 32) h)
             (\<lambda>h. display_string font (x + 16) y color cs h))"

definition PIC_LEN :: u16 where "PIC_LEN = 120"
definition PIC_HIG :: u16 where "PIC_HIG = 120"
definition PIC_NUM :: nat where "PIC_NUM = 28800"

definition Picture_display :: "u8 list \<Rightarrow> history \<Rightarrow> fault + history" where
  "Picture_display ptr_pic h =
     (let h = TFT_SET_ADD 0 0 (PIC_LEN - 1) (PIC_HIG - 1) h
      in fold (\<lambda>number r. bind_err r (\<lambda>h. bind_err (arr_get ptr_pic number) (\<lambda>d. Inr (TFT_SEND_DATA d h))))
           [0..<PIC_NUM] (Inr h))"

section \<open>Drawing\<close>

definition Gui_DrawPoint :: "u32 \<Rightarrow> u32 \<Rightarrow> u32 \<Rightarrow> history \<Rightarrow> history" where
  "Gui_DrawPoint x y color h =
     TFT_Write_HalfWord (ucast color) (TFT_SET_ADD (ucast x) (ucast y) (ucast (x + 1)) (ucast (y + 1)) h)"

definition Gui_Drawmap :: "u32 \<Rightarrow> u32 \<Rightarrow> u32 \<Rightarrow> history \<Rightarrow> history" where
  "Gui_Drawmap x y color h =
     (let h = Gui_DrawPoint x y color h;
          h = Gui_DrawPoint (x - 1) (y - 1) color h;
          h = Gui_DrawPoint (x + 1) (y - 1) color h;
          h = Gui_DrawPoint (x - 1) (y + 1) color h
      in Gui_DrawPoint (x + 1) (y + 1) color h)"

text \<open>The eight points of one step of the circle; \<open>a\<close> and \<open>b\<close> are 16-bit offsets.\<close>

definition circle_points :: "u16 \<Rightarrow> u16 \<Rightarrow> u16 \<Rightarrow> u16 \<Rightarrow> u16 \<Rightarrow> history \<Rightarrow> history" where
  "circle_points X Y a b fc h =
     (let X = ucast X; Y = ucast Y; a = ucast a; b = ucast b; fc = ucast fc;
          h = Gui_DrawPoint (X + a) (Y + b) fc h;
          h = Gui_DrawPoint (X - a) (Y + b) fc h;
          h = Gui_DrawPoint (X + a) (Y - b) fc h;
          h = Gui_DrawPoint (X - a) (Y - b) fc h;
          h = Gui_DrawPoint (X + b) (Y + a) fc h;
          h = Gui_DrawPoint (X - b) (Y + a) fc h;
          h = Gui_DrawPoint (X + b) (Y - a) fc h
      in Gui_DrawPoint (X - b) (Y - a) fc h)"

text \<open>The points drawn when the loop ends on the diagonal: the first is drawn twice.\<close>

definition circle_diagonal :: "u16 \<Rightarrow> u16 \<Rightarrow> u16 \<Rightarrow> u16 \<Rightarrow> u16 \<Rightarrow> history \<Rightarrow> history" where
  "circle_diagonal X Y a b fc h =
     (let X = ucast X; Y = ucast Y; a = ucast a; b = ucast b; fc = ucast fc;
          h = Gui_DrawPoint (X + a) (Y + b) fc h;
          h = Gui_DrawPoint (X + a) (Y + b) fc h;
          h = Gui_DrawPoint (X + a) (Y - b) fc h;
          h = Gui_DrawPoint (X - a) (Y - b) fc h;
          h = Gui_DrawPoint (X + b) (Y + a) fc h;
          h = Gui_DrawPoint (X - b) (Y + a) fc h;
          h = Gui_DrawPoint (X + b) (Y - a) fc h
      in Gui_DrawPoint (X - b) (Y - a) fc h)"

definition circle_next :: "u16 \<times> u16 \<times> int \<Rightarrow> u16 \<times> u16 \<times> int" where
  "circle_next s =
     (let (a, b, c) = s
      in if c < 0 then (a + 1, b, c + 4 * uint a + 6)
         else (a + 1, b - 1, c + 4 * (uint a - uint b) + 10))"

lemma circle_next_decreases:
  assumes "a < b"
  shows "unat (fst (snd (circle_next (a, b, c)))) - unat (fst (circle_next (a, b, c))) < unat b - unat a"
proof -
  have "unat (a + 1) = Suc (unat a)" using assms by (rule unat_inc_less)
  moreover have "unat (b - 1) = unat b - 1"
    using assms by (intro unat_dec_pos) auto
  ultimately show ?thesis
    using assms by (auto simp: circle_next_def word_less_nat_alt)
qed

function circle_loop :: "u16 \<Rightarrow> u16 \<Rightarrow> u16 \<Rightarrow> u16 \<Rightarrow> u16 \<Rightarrow> int \<Rightarrow> history \<Rightarrow> u16 \<times> u16 \<times> history" where
  "circle_loop X Y fc a b c h =
     (if a < b then
        (case circle_next (a, b, c) of (a', b', c') \<Rightarrow>
           circle_loop X Y fc a' b' c' (circle_points X Y a b fc h))
      else (a, b, h))"
  by auto
termination
proof (relation "measure (\<lambda>(X, Y, fc, a, b, c, h). unat b - unat a)", simp)
  fix X Y fc a b :: u16 and c :: int and h x y xa ya
  assume "a < b" "(x, y) = circle_next (a, b, c)" "(xa, ya) = y"
  then have "circle_next (a, b, c) = (x, xa, ya)" and "a < b" by simp_all
  then show "((X, Y, fc, x, xa, ya, circle_points X Y a b fc h), X, Y, fc, a, b, c, h)
      \<in> measure (\<lambda>(X, Y, fc, a, b, c, h). unat b - unat a)"
    using circle_next_decreases [of a b c] by simp
qed

declare circle_loop.simps [simp del]

definition Gui_Circle :: "u16 \<Rightarrow> u16 \<Rightarrow> u16 \<Rightarrow> u16 \<Rightarrow> history \<Rightarrow> history" where
  "Gui_Circle X Y R fc h =
     (case circle_loop X Y fc 0 R (3 - 2 * uint R) h of (a, b, h) \<Rightarrow>
        if a = b then circle_diagonal X Y a b fc h else h)"

section \<open>Lines\<close>

text \<open>
  The two loops of \<open>Gui_DrawLine\<close>, one pass per point. The \<open>int\<close> increments are 1 or -1 and the
  coordinates wrap at 16 bits.
\<close>

record line_state =
  lx :: u16
  ly :: u16
  err :: int
  wire :: history

definition step16 :: "u16 \<Rightarrow> int \<Rightarrow> u16" where
  "step16 x inc = x + word_of_int inc"

definition line_x_step :: "u16 \<Rightarrow> int \<Rightarrow> int \<Rightarrow> int \<Rightarrow> int \<Rightarrow> line_state \<Rightarrow> line_state" where
  "line_x_step Color dx2 dy2 x_inc y_inc s =
     (let s = s\<lparr>wire := Gui_DrawPoint (ucast (lx s)) (ucast (ly s)) (ucast Color) (wire s)\<rparr>;
          s = (if 0 \<le> err s then s\<lparr>err := err s - dx2, ly := step16 (ly s) y_inc\<rparr> else s)
      in s\<lparr>err := err s + dy2, lx := step16 (lx s) x_inc\<rparr>)"

definition line_y_step :: "u16 \<Rightarrow> int \<Rightarrow> int \<Rightarrow> int \<Rightarrow> int \<Rightarrow> line_state \<Rightarrow> line_state" where
  "line_y_step Color dx2 dy2 x_inc y_inc s =
     (let s = s\<lparr>wire := Gui_DrawPoint (ucast (lx s)) (ucast (ly s)) (ucast Color) (wire s)\<rparr>;
          s = (if 0 \<le> err s then s\<lparr>err := err s - dy2, lx := step16 (lx s) x_inc\<rparr> else s)
      in s\<lparr>err := err s + dx2, ly := step16 (ly s) y_inc\<rparr>)"

definition Gui_DrawLine :: "u16 \<Rightarrow> u16 \<Rightarrow> u16 \<Rightarrow> u16 \<Rightarrow> u16 \<Rightarrow> history \<Rightarrow> history" where
  "Gui_DrawLine x0 y0 x1 y1 Color h =
     (let h = TFT_SET_ADD x0 y0 x0 y0 h;
          dx = uint x1 - uint x0;
          dy = uint y1 - uint y0;
          (x_inc, dx) = (if 0 \<le> dx then (1, dx) else (-1, - dx));
          (y_inc, dy) = (if 0 \<le> dy then (1, dy) else (-1, - dy));
          dx2 = 2 * dx;
          dy2 = 2 * dy
      in if dx > dy
         then wire ((line_x_step Color dx2 dy2 x_inc y_inc ^^ nat (dx + 1))
                \<lparr>lx = x0, ly = y0, err = dy2 - dx, wire = h\<rparr>)
         else wire ((line_y_step Color dx2 dy2 x_inc y_inc ^^ nat (dy + 1))
                \<lparr>lx = x0, ly = y0, err = dx2 - dy, wire = h\<rparr>))"

definition Gui_box :: "u16 \<Rightarrow> u16 \<Rightarrow> u16 \<Rightarrow> u16 \<Rightarrow> u16 \<Rightarrow> history \<Rightarrow> history" where
  "Gui_box x y w h bc hist =
     (let hist = Gui_DrawLine x y (x + w) y 0xEF7D hist;
          hist = Gui_DrawLine (x + w - 1) (y + 1) (x + w - 1) (y + 1 + h) 0x2965 hist;
          hist = Gui_DrawLine x (y + h) (x + w) (y + h) 0x2965 hist;
          hist = Gui_DrawLine x y x (y + h) 0xEF7D hist
      in Gui_DrawLine (x + 1) (y + 1) (x + 1 + w - 2) (y + 1 + h - 2) bc hist)"

definition box_frame :: "u16 \<Rightarrow> u16 \<Rightarrow> u16 \<Rightarrow> u16 \<Rightarrow> u16 \<Rightarrow> u16 \<Rightarrow> history \<Rightarrow> history" where
  "box_frame x y w h c1 c2 hist =
     (let hist = Gui_DrawLine x y (x + w) y c1 hist;
          hist = Gui_DrawLine (x + w - 1) (y + 1) (x + w - 1) (y + 1 + h) c2 hist;
          hist = Gui_DrawLine x (y + h) (x + w) (y + h) c2 hist
      in Gui_DrawLine x y x (y + h) c1 hist)"

definition Gui_box2 :: "u16 \<Rightarrow> u16 \<Rightarrow> u16 \<Rightarrow> u16 \<Rightarrow> u8 \<Rightarrow> history \<Rightarrow> history" where
  "Gui_box2 x y w h mode hist =
     (let hist = (if mode = 0 then box_frame x y w h 0xEF7D 0x2965 hist else hist);
          hist = (if mode = 1 then box_frame x y w h 0x2965 0xEF7D hist else hist)
      in if mode = 2 then box_frame x y w h 0xffff 0xffff hist else hist)"

definition DisplayButtonDown :: "u16 \<Rightarrow> u16 \<Rightarrow> u16 \<Rightarrow> u16 \<Rightarrow> history \<Rightarrow> history" where
  "DisplayButtonDown x1 y1 x2 y2 h =
     (let h = Gui_DrawLine x1 y1 x2 y1 GRAY2 h;
          h = Gui_DrawLine (x1 + 1) (y1 + 1) x2 (y1 + 1) GRAY1 h;
          h = Gui_DrawLine x1 y1 x1 y2 GRAY2 h;
          h = Gui_DrawLine (x1 + 1) (y1 + 1) (x1 + 1) y2 GRAY1 h;
          h = Gui_DrawLine x1 y2 x2 y2 WHITE h
      in Gui_DrawLine x2 y1 x2 y2 WHITE h)"

definition DisplayButtonUp :: "u16 \<Rightarrow> u16 \<Rightarrow> u16 \<Rightarrow> u16 \<Rightarrow> history \<Rightarrow> history" where
  "DisplayButtonUp x1 y1 x2 y2 h =
     (let h = Gui_DrawLine x1 y1 x2 y1 WHITE h;
          h = Gui_DrawLine x1 y1 x1 y2 WHITE h;
          h = Gui_DrawLine (x1 + 1) (y2 - 1) x2 (y2 - 1) GRAY1 h;
          h = Gui_DrawLine x1 y2 x2 y2 GRAY2 h;
          h = Gui_DrawLine (x2 - 1) (y1 + 1) (x2 - 1) y2 GRAY1 h
      in Gui_DrawLine x2 y1 x2 y2 GRAY2 h)"

section \<open>The reading side of the wire\<close>

definition byte_msb :: "bool list \<Rightarrow> u8" where
  "byte_msb bs = fold (\<lambda>b w. push_bit 1 w OR of_bool b) bs 0"

text \<open>Bits of the byte in progress, and the bytes received so far with the level of DC.\<close>

fun spi_rx :: "history \<Rightarrow> bool list \<times> (bool \<times> u8) list" where
  "spi_rx [] = ([], [])"
| "spi_rx (PinWrite p v # h) =
     (let (bs, rs) = spi_rx h
      in if p = SPI_CS \<and> v then ([], rs)
         else if p = SPI_SCK \<and> v \<and> \<not> level SPI_SCK h \<and> \<not> level SPI_CS h then
           (let bs = bs @ [level SPI_SDA h]
            in if length bs = 8 then ([], rs @ [(level SPI_DC h, byte_msb bs)]) else (bs, rs))
         else (bs, rs))"
| "spi_rx (_ # h) = spi_rx h"

definition received :: "history \<Rightarrow> (bool \<times> u8) list" where
  "received h = snd (spi_rx h)"

definition idle :: "history \<Rightarrow> bool" where
  "idle h \<longleftrightarrow> fst (spi_rx h) = []"

lemma idle_bits: "idle h \<Longrightarrow> spi_rx h = ([], received h)"
  by (cases "spi_rx h") (simp add: idle_def received_def)

lemma spi_rx_ops [simp]:
  "spi_rx (rt_thread_mdelay n h) = spi_rx h"
  "spi_rx (rt_pin_mode p m h) = spi_rx h"
  by (simp_all add: pin_ops_def)

lemma spi_rx_write:
  "p \<notin> {SPI_CS, SPI_SCK} \<or> \<not> v \<Longrightarrow> spi_rx (rt_pin_write p v h) = spi_rx h"
  by (cases "spi_rx h") (auto simp: rt_pin_write_def)

text \<open>One bit: the top bit of the byte in hand.\<close>

lemma SPI_SendBit_rx:
  assumes "\<not> level SPI_CS h" and "spi_rx h = (bs, rs)"
  shows "\<exists>h'. SPI_SendBit (byte, h) = (push_bit 1 byte, h') \<and>
     spi_rx h' = (let bs' = bs @ [bit byte 7]
        in if length bs' = 8 then ([], rs @ [(level SPI_DC h, byte_msb bs')]) else (bs', rs)) \<and>
     level SPI_CS h' = level SPI_CS h \<and> level SPI_DC h' = level SPI_DC h"
proof -
  have "(byte AND 0x80 = 0) = (\<not> bit byte 7)"
    using and_exp_eq_0_iff_not_bit [of byte 7] by simp
  then show ?thesis
    using assms by (simp add: SPI_SendBit_def Let_def rt_pin_write_def lcd_pins)
qed

lemma SPI_SendBits_rx:
  assumes "\<not> level SPI_CS h" and "spi_rx h = ([], rs)" and "n < 8"
  shows "\<exists>h'. (SPI_SendBit ^^ n) (byte, h) = (push_bit n byte, h') \<and>
     spi_rx h' = (map (\<lambda>i. bit byte (7 - i)) [0..<n], rs) \<and>
     \<not> level SPI_CS h' \<and> level SPI_DC h' = level SPI_DC h"
  using assms(3)
proof (induction n)
  case 0
  then show ?case using assms by simp
next
  case (Suc n)
  then obtain h1 where 1: "(SPI_SendBit ^^ n) (byte, h) = (push_bit n byte, h1)"
     "spi_rx h1 = (map (\<lambda>i. bit byte (7 - i)) [0..<n], rs)"
     "\<not> level SPI_CS h1" "level SPI_DC h1 = level SPI_DC h" by auto
  have b: "bit (push_bit n byte) 7 = bit byte (7 - n)"
    using Suc.prems by (simp add: bit_simps)
  show ?case
    using SPI_SendBit_rx [OF 1(3,2), of "push_bit n byte"] 1 Suc.prems b by auto
qed

lemma byte_msb_prefix: "n \<le> 8 \<Longrightarrow> byte_msb (map (\<lambda>i. bit byte (7 - i)) [0..<n]) = drop_bit (8 - n) byte"
proof (induction n)
  case 0
  show ?case by (simp add: byte_msb_def)
next
  case (Suc n)
  have "push_bit 1 (drop_bit (8 - n) byte) OR of_bool (bit byte (7 - n)) = drop_bit (7 - n) byte"
  proof (rule bit_word_eqI)
    fix j
    show "bit (push_bit 1 (drop_bit (8 - n) byte) OR of_bool (bit byte (7 - n))) j = bit (drop_bit (7 - n) byte) j"
      if "j < LENGTH(8)"
      using Suc.prems that Suc_diff_le [of n "7 + (j - 1)"] unfolding bit_or_iff bit_push_bit_iff bit_drop_bit_eq
      by (cases j) (auto simp: bit_simps)
  qed
  then show ?case using Suc by (simp add: byte_msb_def)
qed

lemma byte_msb_bits: "byte_msb (map (\<lambda>i. bit byte (7 - i)) [0..<8]) = byte"
  using byte_msb_prefix [of 8 byte] by simp

lemma SPI_SendByte_rx:
  assumes "\<not> level SPI_CS h" and "spi_rx h = ([], rs)"
  shows "spi_rx (SPI_SendByte byte h) = ([], rs @ [(level SPI_DC h, byte)]) \<and>
     \<not> level SPI_CS (SPI_SendByte byte h) \<and> level SPI_DC (SPI_SendByte byte h) = level SPI_DC h"
proof -
  obtain h1 where 1: "(SPI_SendBit ^^ 7) (byte, h) = (push_bit 7 byte, h1)"
     "spi_rx h1 = (map (\<lambda>i. bit byte (7 - i)) [0..<7], rs)"
     "\<not> level SPI_CS h1" "level SPI_DC h1 = level SPI_DC h"
    using SPI_SendBits_rx [OF assms, of 7 byte] by auto
  have b: "bit (push_bit 7 byte) 7 = bit byte (7 - 7)" by (simp add: bit_simps)
  have m: "map (\<lambda>i. bit byte (7 - i)) [0..<7] @ [bit byte (7 - 7)] = map (\<lambda>i. bit byte (7 - i)) [0..<8]"
    by (simp add: upt_rec)
  have e: "SPI_SendByte byte h = snd (SPI_SendBit (push_bit 7 byte, h1))"
    using 1(1) funpow_swap1 [of SPI_SendBit 7 "(byte, h)"]
    by (simp add: SPI_SendByte_def numeral_eq_Suc)
  show ?thesis
    using SPI_SendBit_rx [OF 1(3,2), of "push_bit 7 byte"] 1(3,4)
    unfolding e b m by (auto simp: Let_def byte_msb_bits simp del: upt.simps upt_rec_numeral)
qed

section \<open>What each operation puts on the wire\<close>

definition sends :: "(history \<Rightarrow> history) \<Rightarrow> (bool \<times> u8) list \<Rightarrow> bool" where
  "sends f ms \<longleftrightarrow> (\<forall>h. idle h \<longrightarrow> idle (f h) \<and> received (f h) = received h @ ms)"

lemma sendsD: "sends f ms \<Longrightarrow> idle h \<Longrightarrow> idle (f h) \<and> received (f h) = received h @ ms"
  by (simp add: sends_def)

lemma sends_comp: "sends f ms \<Longrightarrow> sends g ns \<Longrightarrow> sends (\<lambda>h. g (f h)) (ms @ ns)"
  by (simp add: sends_def)

lemma sends_id: "sends (\<lambda>h. h) []"
  by (simp add: sends_def)

lemma sends_funpow: "sends f ms \<Longrightarrow> sends (f ^^ n) (concat (replicate n ms))"
proof (induction n)
  case 0
  then show ?case by (simp add: sends_def)
next
  case (Suc n)
  have "concat (replicate n ms) @ ms = ms @ concat (replicate n ms)"
    by (induction n) simp_all
  then show ?case using sends_comp [OF Suc.IH [OF Suc.prems] Suc.prems] by (simp add: comp_def)
qed

lemma sends_fold:
  "(\<And>x. sends (f x) (g x)) \<Longrightarrow> sends (fold f xs) (concat (map g xs))"
proof (induction xs)
  case Nil
  then show ?case by (simp add: sends_def)
next
  case (Cons x xs)
  then show ?case using sends_comp [of "f x" "g x" "fold f xs"] by (simp add: comp_def)
qed

lemma sends_quiet:
  "sends (rt_thread_mdelay n) []" "sends (rt_pin_mode p m) []"
  "p \<notin> {SPI_CS, SPI_SCK} \<Longrightarrow> sends (rt_pin_write p v) []"
  by (simp_all add: sends_def idle_def received_def spi_rx_write)

lemma spi_rx_select: "spi_rx (rt_pin_write SPI_CS True h) = ([], snd (spi_rx h))"
  by (simp add: rt_pin_write_def split: prod.splits)

lemma sends_frame:
  fixes h :: history and d :: bool
  assumes "idle h"
  defines "h' \<equiv> rt_pin_write SPI_CS False (rt_pin_write SPI_DC d h)"
  shows "spi_rx h' = ([], received h)" "\<not> level SPI_CS h'" "level SPI_DC h' = d"
  using idle_bits [OF assms(1)] by (simp_all add: h'_def spi_rx_write lcd_pins)

lemma sends_cmd: "sends (TFT_SEND_CMD c) [(False, c)]"
  unfolding sends_def
proof (intro allI impI)
  fix h assume "idle h"
  note f = sends_frame [OF this, of False]
  show "idle (TFT_SEND_CMD c h) \<and> received (TFT_SEND_CMD c h) = received h @ [(False, c)]"
    using SPI_SendByte_rx [OF f(2,1), of c] f(3)
    by (simp add: TFT_SEND_CMD_def Let_def idle_def received_def spi_rx_select)
qed

lemma sends_data: "sends (TFT_SEND_DATA c) [(True, c)]"
  unfolding sends_def
proof (intro allI impI)
  fix h assume "idle h"
  note f = sends_frame [OF this, of True]
  show "idle (TFT_SEND_DATA c h) \<and> received (TFT_SEND_DATA c h) = received h @ [(True, c)]"
    using SPI_SendByte_rx [OF f(2,1), of c] f(3)
    by (simp add: TFT_SEND_DATA_def Let_def idle_def received_def spi_rx_select)
qed

lemma sends_halfword: "sends (TFT_Write_HalfWord c) [(True, hi8 c), (True, lo8 c)]"
  unfolding sends_def
proof (intro allI impI)
  fix h assume "idle h"
  note f = sends_frame [OF this, of True]
  note 1 = SPI_SendByte_rx [OF f(2,1), of "hi8 c"]
  show "idle (TFT_Write_HalfWord c h) \<and>
        received (TFT_Write_HalfWord c h) = received h @ [(True, hi8 c), (True, lo8 c)]"
    using SPI_SendByte_rx [OF conjunct1 [OF conjunct2 [OF 1]] conjunct1 [OF 1], of "lo8 c"] 1 f(3)
    by (simp add: TFT_Write_HalfWord_def Let_def idle_def received_def spi_rx_select)
qed

definition window_bytes :: "u16 \<Rightarrow> u16 \<Rightarrow> u16 \<Rightarrow> u16 \<Rightarrow> (bool \<times> u8) list" where
  "window_bytes x0 y0 x1 y1 =
     [(False, 0x2A), (True, hi8 (x0 + 35)), (True, lo8 (x0 + 35)), (True, hi8 (x1 + 35)), (True, lo8 (x1 + 35)),
      (False, 0x2B), (True, hi8 y0), (True, lo8 y0), (True, hi8 y1), (True, lo8 y1), (False, 0x2C)]"

lemma sends_window: "sends (TFT_SET_ADD x0 y0 x1 y1) (window_bytes x0 y0 x1 y1)"
  unfolding sends_def
  by (simp add: TFT_SET_ADD_def Let_def window_bytes_def TFT_COLUMN_OFFSET_def TFT_LINE_OFFSET_def
      sendsD [OF sends_cmd] sendsD [OF sends_data])

lemma sends_color: "sends (send_color c) [(True, ucast (drop_bit 8 c)), (True, ucast c)]"
  unfolding sends_def
  by (simp add: send_color_def sendsD [OF sends_data])

definition point_bytes :: "u16 \<Rightarrow> u16 \<Rightarrow> u16 \<Rightarrow> (bool \<times> u8) list" where
  "point_bytes x y c = window_bytes x y (x + 1) (y + 1) @ [(True, hi8 c), (True, lo8 c)]"

lemma sends_point: "sends (Gui_DrawPoint (ucast x) (ucast y) (ucast c)) (point_bytes x y c)"
  unfolding sends_def
  by (simp add: Gui_DrawPoint_def point_bytes_def sendsD [OF sends_window] sendsD [OF sends_halfword])

lemma concat_replicate_nested: "concat (replicate n (concat (replicate m xs))) = concat (replicate (m * n) xs)"
  by (induction n) (simp_all add: replicate_add)

section \<open>Properties of the wire\<close>

text \<open>
  Filling the screen: the controller receives the window of the whole 170 by 320 screen and
  then the colour, high byte first, once for each of its 54400 pixels and nothing else.
\<close>

theorem TFT_full_wire:
  assumes "idle h"
  shows "idle (TFT_full color h) \<and>
     received (TFT_full color h) = received h @ window_bytes 0 0 169 319 @
       concat (replicate (170 * 320) [(True, ucast (drop_bit 8 color)), (True, ucast color)])"
proof -
  let ?px = "[(True, ucast (drop_bit 8 color)), (True, ucast color)] :: (bool \<times> u8) list"
  have "concat (replicate 320 (concat (replicate 170 ?px))) = concat (replicate (170 * 320) ?px)"
    by (rule concat_replicate_nested)
  then show ?thesis
    using sendsD [OF sends_comp [OF sends_window sends_funpow [OF sends_funpow [OF sends_color]]] assms]
    by (simp add: TFT_full_def Let_def TFT_COLUMN_NUMBER_def TFT_LINE_NUMBER_def)
qed

theorem TFT_full_wire_witness:
  "length (received (TFT_full 0xFFFF [])) = 11 + 2 * (170 * 320)"
proof -
  have "idle []" by (simp add: idle_def)
  from TFT_full_wire [OF this, of "0xFFFF"] show ?thesis
    by (simp add: length_concat map_replicate sum_list_replicate window_bytes_def received_def)
qed

section \<open>Lines\<close>

text \<open>
  The offset of the minor coordinate after \<open>k\<close> points of a line with major extent \<open>a\<close> and minor
  extent \<open>b\<close>: the ideal value \<open>k * b / a\<close> rounded to the nearest integer, halves upwards.
\<close>

definition nearest :: "int \<Rightarrow> int \<Rightarrow> int" where
  "nearest p a = (2 * p + a) div (2 * a)"

lemma nearest_step:
  assumes "0 \<le> b" and "b \<le> a" and "0 < a"
  shows "nearest (b * (k + 1)) a =
    (if 0 \<le> 2 * b * (k + 1) - a - 2 * a * nearest (b * k) a then nearest (b * k) a + 1 else nearest (b * k) a)"
proof -
  let ?q = "nearest (b * k) a"
  define n where "n = 2 * (b * k) + a"
  have n: "2 * a * ?q \<le> n" "n < 2 * a * ?q + 2 * a"
    using assms(3) minus_mod_eq_mult_div [of n "2 * a"] pos_mod_bound [of "2 * a" n] pos_mod_sign [of "2 * a" n]
    unfolding nearest_def n_def by linarith+
  have e: "2 * (b * (k + 1)) + a = n + 2 * b" by (simp add: n_def algebra_simps)
  have c: "0 \<le> 2 * b * (k + 1) - a - 2 * a * ?q \<longleftrightarrow> 2 * a * (?q + 1) \<le> n + 2 * b"
    by (simp add: n_def algebra_simps)
  show ?thesis
  proof (cases "2 * a * (?q + 1) \<le> n + 2 * b")
    case True
    then have "(n + 2 * b) div (2 * a) = ?q + 1"
      using n assms by (intro int_div_pos_eq [where r = "n + 2 * b - 2 * a * (?q + 1)"]) (simp_all add: algebra_simps)
    then show ?thesis using True c e by (simp add: nearest_def)
  next
    case False
    then have "(n + 2 * b) div (2 * a) = ?q"
      using n assms by (intro int_div_pos_eq [where r = "n + 2 * b - 2 * a * ?q"]) (simp_all add: algebra_simps)
    then show ?thesis using False c e by (simp add: nearest_def)
  qed
qed

lemma nearest_major: "0 < a \<Longrightarrow> nearest (a * k) a = k"
  unfolding nearest_def by (intro int_div_pos_eq [where r = a]) simp_all

definition draw_points :: "u16 \<Rightarrow> (u16 \<times> u16) list \<Rightarrow> history \<Rightarrow> history" where
  "draw_points c = fold (\<lambda>(x, y). Gui_DrawPoint (ucast x) (ucast y) (ucast c))"

text \<open>The specification of a line: both coordinates are rounded interpolations between the ends.\<close>

definition axis_point :: "u16 \<Rightarrow> u16 \<Rightarrow> int \<Rightarrow> int \<Rightarrow> u16" where
  "axis_point p0 p1 n k =
     (let d = uint p1 - uint p0
      in p0 + word_of_int ((if 0 \<le> d then 1 else -1) * nearest (\<bar>d\<bar> * k) n))"

definition line_points :: "u16 \<Rightarrow> u16 \<Rightarrow> u16 \<Rightarrow> u16 \<Rightarrow> (u16 \<times> u16) list" where
  "line_points x0 y0 x1 y1 =
     (let n = max \<bar>uint x1 - uint x0\<bar> \<bar>uint y1 - uint y0\<bar>
      in map (\<lambda>k. (axis_point x0 x1 n k, axis_point y0 y1 n k)) [0..n])"

lemma line_x_iter:
  assumes "0 \<le> b" and "b \<le> a" and "0 < a"
  shows "(line_x_step c (2 * a) (2 * b) xi yi ^^ n)
       \<lparr>lx = x0, ly = y0, err = 2 * b - a, wire = h\<rparr> =
     \<lparr>lx = x0 + word_of_int (xi * int n), ly = y0 + word_of_int (yi * nearest (b * int n) a),
      err = 2 * b * (int n + 1) - a - 2 * a * nearest (b * int n) a,
      wire = draw_points c
        (map (\<lambda>k. (x0 + word_of_int (xi * int k), y0 + word_of_int (yi * nearest (b * int k) a))) [0..<n]) h\<rparr>"
proof (induction n)
  case 0
  show ?case using assms(3) by (simp add: draw_points_def nearest_def)
next
  case (Suc n)
  have s: "nearest (b * int (Suc n)) a = nearest (b * (int n + 1)) a" by (simp add: algebra_simps)
  show ?case
    unfolding funpow.simps comp_apply Suc.IH s nearest_step [OF assms]
    by (simp add: line_x_step_def Let_def draw_points_def step16_def algebra_simps)
qed

lemma line_y_iter:
  assumes "0 \<le> b" and "b \<le> a" and "0 < a"
  shows "(line_y_step c (2 * b) (2 * a) xi yi ^^ n)
       \<lparr>lx = x0, ly = y0, err = 2 * b - a, wire = h\<rparr> =
     \<lparr>lx = x0 + word_of_int (xi * nearest (b * int n) a), ly = y0 + word_of_int (yi * int n),
      err = 2 * b * (int n + 1) - a - 2 * a * nearest (b * int n) a,
      wire = draw_points c
        (map (\<lambda>k. (x0 + word_of_int (xi * nearest (b * int k) a), y0 + word_of_int (yi * int k))) [0..<n]) h\<rparr>"
proof (induction n)
  case 0
  show ?case using assms(3) by (simp add: draw_points_def nearest_def)
next
  case (Suc n)
  have s: "nearest (b * int (Suc n)) a = nearest (b * (int n + 1)) a" by (simp add: algebra_simps)
  show ?case
    unfolding funpow.simps comp_apply Suc.IH s nearest_step [OF assms]
    by (simp add: line_y_step_def Let_def draw_points_def step16_def algebra_simps)
qed

lemma upto_nat: "0 \<le> n \<Longrightarrow> [0..n] = map int [0..<nat (n + 1)]"
proof (induction "nat n" arbitrary: n)
  case 0
  then show ?case by simp
next
  case (Suc m)
  then have "m = nat (n - 1)" "0 \<le> n - 1" by auto
  from Suc.hyps(1) [OF this] have "[0..n - 1] = map int [0..<nat n]" by simp
  moreover have "[0..n] = [0..n - 1] @ [n]" using Suc.prems by (intro upto_rec2) simp
  moreover have "[0..<nat (n + 1)] = [0..<nat n] @ [nat n]"
    using Suc.prems by (simp add: nat_add_distrib)
  ultimately show ?case using Suc.prems by simp
qed

lemma draw_points_axis:
  assumes "Gui_DrawLine x0 y0 x1 y1 c h =
     draw_points c (map (\<lambda>k. (axis_point x0 x1 n (int k), axis_point y0 y1 n (int k))) [0..<nat (n + 1)]) w"
    and "n = max \<bar>uint x1 - uint x0\<bar> \<bar>uint y1 - uint y0\<bar>"
  shows "Gui_DrawLine x0 y0 x1 y1 c h = draw_points c (line_points x0 y0 x1 y1) w"
proof -
  have "0 \<le> n" using assms(2) by simp
  then show ?thesis
    using assms by (simp add: line_points_def Let_def upto_nat comp_def)
qed

lemma DrawLine_loops:
  "Gui_DrawLine x0 y0 x1 y1 c h = draw_points c (line_points x0 y0 x1 y1) (TFT_SET_ADD x0 y0 x0 y0 h)"
proof -
  define a where "a = \<bar>uint x1 - uint x0\<bar>"
  define b where "b = \<bar>uint y1 - uint y0\<bar>"
  define xi where "xi = (if 0 \<le> uint x1 - uint x0 then 1 else - 1 :: int)"
  define yi where "yi = (if 0 \<le> uint y1 - uint y0 then 1 else - 1 :: int)"
  define w where "w = TFT_SET_ADD x0 y0 x0 y0 h"
  have nn: "0 \<le> a" "0 \<le> b" by (simp_all add: a_def b_def)
  have code: "Gui_DrawLine x0 y0 x1 y1 c h =
     (if a > b then wire ((line_x_step c (2 * a) (2 * b) xi yi ^^ nat (a + 1))
                \<lparr>lx = x0, ly = y0, err = 2 * b - a, wire = w\<rparr>)
      else wire ((line_y_step c (2 * a) (2 * b) xi yi ^^ nat (b + 1))
                \<lparr>lx = x0, ly = y0, err = 2 * a - b, wire = w\<rparr>))"
    by (simp add: Gui_DrawLine_def Let_def a_def b_def xi_def yi_def w_def)
  have px: "axis_point x0 x1 n k = x0 + word_of_int (xi * nearest (a * k) n)" for n k
    by (simp add: axis_point_def Let_def a_def xi_def)
  have py: "axis_point y0 y1 n k = y0 + word_of_int (yi * nearest (b * k) n)" for n k
    by (simp add: axis_point_def Let_def b_def yi_def)
  consider "a > b" | "a \<le> b" "0 < b" | "a = 0" "b = 0" using nn by linarith
  then have "\<exists>n. n = max a b \<and> Gui_DrawLine x0 y0 x1 y1 c h =
     draw_points c (map (\<lambda>k. (axis_point x0 x1 n (int k), axis_point y0 y1 n (int k))) [0..<nat (n + 1)]) w"
  proof cases
    case 1
    then show ?thesis
      using nn by (simp add: code line_x_iter px py nearest_major)
  next
    case 2
    then show ?thesis
      using nn by (simp add: code line_y_iter px py nearest_major)
  next
    case 3
    then show ?thesis
      by (simp add: code px py nearest_def line_y_step_def Let_def draw_points_def)
  qed
  then show ?thesis
    using draw_points_axis unfolding a_def b_def w_def by blast
qed

lemma axis_point_start: "0 \<le> n \<Longrightarrow> axis_point p0 p1 n 0 = p0"
  by (cases "n = 0") (simp_all add: axis_point_def Let_def nearest_def)

lemma nearest_end: "0 \<le> p \<Longrightarrow> p \<le> n \<Longrightarrow> nearest (p * n) n = p"
  using nearest_major [of n p] by (cases "n = 0") (simp_all add: nearest_def mult.commute)

lemma axis_point_end:
  assumes "\<bar>uint p1 - uint p0\<bar> \<le> n"
  shows "axis_point p0 p1 n n = p1"
proof -
  have "axis_point p0 p1 n n = p0 + word_of_int (uint p1 - uint p0)"
    using nearest_end [OF _ assms] by (simp add: axis_point_def Let_def)
  also have "\<dots> = word_of_int (uint p0 + (uint p1 - uint p0))"
    by (simp only: of_int_add word_of_int_uint)
  finally show ?thesis by simp
qed

text \<open>
  C36. Line drawing, for every pair of end points and in all eight octants: after the initial window
  \<open>Gui_DrawLine\<close> draws exactly the points of \<open>line_points\<close>, in order: one per unit of the longer
  extent, each coordinate being the rounded interpolation between the ends, from the first end
  point to the second.
\<close>

theorem Gui_DrawLine_points:
  "Gui_DrawLine x0 y0 x1 y1 c h = draw_points c (line_points x0 y0 x1 y1) (TFT_SET_ADD x0 y0 x0 y0 h) \<and>
   length (line_points x0 y0 x1 y1) = nat (max \<bar>uint x1 - uint x0\<bar> \<bar>uint y1 - uint y0\<bar>) + 1 \<and>
   hd (line_points x0 y0 x1 y1) = (x0, y0) \<and> last (line_points x0 y0 x1 y1) = (x1, y1)"
proof -
  define n where "n = max \<bar>uint x1 - uint x0\<bar> \<bar>uint y1 - uint y0\<bar>"
  have n: "0 \<le> n" "\<bar>uint x1 - uint x0\<bar> \<le> n" "\<bar>uint y1 - uint y0\<bar> \<le> n" by (simp_all add: n_def)
  have p: "line_points x0 y0 x1 y1 = map (\<lambda>k. (axis_point x0 x1 n k, axis_point y0 y1 n k)) [0..n]"
    by (simp add: line_points_def n_def Let_def)
  have "hd [0..n] = 0" "[0..n] \<noteq> []" using upto_rec1 [OF n(1)] by simp_all
  moreover have "last [0..n] = n" using upto_rec2 [OF n(1)] by simp
  ultimately have "hd (line_points x0 y0 x1 y1) = (x0, y0)" "last (line_points x0 y0 x1 y1) = (x1, y1)"
    using n by (simp_all add: p hd_map last_map axis_point_start axis_point_end)
  then show ?thesis
    using DrawLine_loops n(1) by (simp add: p n_def [symmetric] nat_add_distrib)
qed

section \<open>Circles\<close>

text \<open>
  The decision variable is twice the mean of the squared-radius errors of the two candidate points.
\<close>

definition circle_err :: "int \<Rightarrow> int \<Rightarrow> int \<Rightarrow> int" where
  "circle_err R a b = a * a + b * b - R * R"

definition circle_inv :: "int \<Rightarrow> int \<Rightarrow> int \<Rightarrow> int \<Rightarrow> bool" where
  "circle_inv R a b c \<longleftrightarrow>
     c = circle_err R (a + 1) b + circle_err R (a + 1) (b - 1) \<and>
     (a \<le> b \<longrightarrow> - b \<le> circle_err R a b \<and> circle_err R a b \<le> max 0 (b - 1))"

lemma circle_inv_step:
  assumes "circle_inv R a b c" and "0 \<le> a" and "a < b"
  shows "c < 0 \<Longrightarrow> circle_inv R (a + 1) b (c + 4 * a + 6)"
    and "0 \<le> c \<Longrightarrow> circle_inv R (a + 1) (b - 1) (c + 4 * (a - b) + 10)"
  using assms by (auto simp: circle_inv_def circle_err_def algebra_simps)

definition near_circle :: "u16 \<Rightarrow> u16 \<times> u16 \<Rightarrow> bool" where
  "near_circle R p \<longleftrightarrow> \<bar>circle_err (uint R) (uint (fst p)) (uint (snd p))\<bar> \<le> uint (snd p)"

lemma circle_inv_near: "circle_inv (uint R) (uint a) (uint b) c \<Longrightarrow> a \<le> b \<Longrightarrow> near_circle R (a, b)"
  using uint_ge_0 [of b] by (auto simp: circle_inv_def near_circle_def word_le_def)

lemma circle_next_inv:
  assumes "circle_inv (uint R) (uint a) (uint b) c" and "a < b" and "circle_next (a, b, c) = (a', b', c')"
  shows "circle_inv (uint R) (uint a') (uint b') c' \<and> unat a' = Suc (unat a)"
proof -
  have a: "unat (a + 1) = Suc (unat a)" using assms(2) by (rule unat_inc_less)
  have "b \<noteq> 0" "uint a < uint b" using assms(2) by (auto simp: word_less_def)
  then have u: "uint (a + 1) = uint a + 1" "uint (b - 1) = uint b - 1" "uint a < uint b"
    using uint_inc_less [OF assms(2)] uint_dec_pos by auto
  show ?thesis
    using circle_inv_step [OF assms(1) uint_ge_0 u(3)] assms(3) a u
    by (auto simp: circle_next_def Let_def split: if_splits)
qed

lemma circle_loop_points:
  "circle_inv (uint R) (uint a) (uint b) c \<Longrightarrow>
   \<exists>pairs a' b'. circle_loop X Y fc a b c h = (a', b', fold (\<lambda>(p, q). circle_points X Y p q fc) pairs h) \<and>
     b' \<le> a' \<and> a \<le> a' \<and> map (\<lambda>p. unat (fst p)) pairs = [unat a..<unat a'] \<and>
     list_all (near_circle R) (pairs @ (if a' = b' then [(a', b')] else []))"
proof (induction X Y fc a b c h rule: circle_loop.induct)
  case (1 X Y fc a b c h)
  show ?case
  proof (cases "a < b")
    case True
    obtain a1 b1 c1 where n: "circle_next (a, b, c) = (a1, b1, c1)" by (cases "circle_next (a, b, c)")
    note inv = circle_next_inv [OF "1.prems" True n]
    obtain pairs a' b' where IH:
      "circle_loop X Y fc a1 b1 c1 (circle_points X Y a b fc h) =
         (a', b', fold (\<lambda>(p, q). circle_points X Y p q fc) pairs (circle_points X Y a b fc h))"
      "b' \<le> a'" "a1 \<le> a'" "map (\<lambda>p. unat (fst p)) pairs = [unat a1..<unat a']"
      "list_all (near_circle R) (pairs @ (if a' = b' then [(a', b')] else []))"
      using "1.IH" [OF True n [symmetric] refl] inv by blast
    have "unat a < unat a'" using IH(3) inv by (simp add: word_le_nat_alt)
    then have "[unat a..<unat a'] = unat a # [unat a1..<unat a']" "a \<le> a'"
      using inv by (simp_all add: upt_conv_Cons word_le_nat_alt)
    moreover have "near_circle R (a, b)" using circle_inv_near [OF "1.prems"] True by simp
    ultimately show ?thesis
      using IH True n by (intro exI [of _ "(a, b) # pairs"] exI [of _ a'] exI [of _ b'])
        (simp add: circle_loop.simps [of X Y fc a b c h])
  next
    case False
    then show ?thesis
      using circle_inv_near [OF "1.prems"]
      by (intro exI [of _ "[]"] exI [of _ a] exI [of _ b]) (auto simp: circle_loop.simps [of X Y fc a b c h])
  qed
qed

lemma circle_inv_start: "circle_inv (uint R) (uint (0 :: u16)) (uint R) (3 - 2 * uint R)"
  by (simp add: circle_inv_def circle_err_def algebra_simps)

text \<open>
  Circle drawing, for every radius: the loop ends, it visits one point for each column offset
  \<open>0, 1, 2, ...\<close> up to the diagonal, draws its eight reflections, and every offset \<open>(p, q)\<close> it draws has
  \<open>|p\<^sup>2 + q\<^sup>2 - R\<^sup>2| \<le> q\<close>, that is, lies within one pixel of the circle.
\<close>

theorem Gui_Circle_points:
  "\<exists>pairs a b. b \<le> a \<and> map (\<lambda>p. unat (fst p)) pairs = [0..<unat a] \<and>
     list_all (near_circle R) (pairs @ (if a = b then [(a, b)] else [])) \<and>
     Gui_Circle X Y R fc h =
       (if a = b then circle_diagonal X Y a b fc else (\<lambda>h. h))
         (fold (\<lambda>(p, q). circle_points X Y p q fc) pairs h)"
  using circle_loop_points [OF circle_inv_start [of R], of X Y fc h]
  by (fastforce simp: Gui_Circle_def)

section \<open>Glyphs\<close>

definition glyph_bytes :: "u32 \<Rightarrow> u8 \<Rightarrow> (bool \<times> u8) list" where
  "glyph_bytes color temp = concat (map (\<lambda>i. if bit temp i
       then [(True, ucast (drop_bit 8 color)), (True, ucast color)] else [(True, 0xFF), (True, 0xFF)]) [0..<8])"

lemma glyph_bits:
  assumes "idle h"
  shows "n \<le> 8 \<Longrightarrow> \<exists>h'. (glyph_bit color ^^ n) (temp, h) = (drop_bit n temp, h') \<and> idle h' \<and>
     received h' = received h @ concat (map (\<lambda>i. if bit temp i
       then [(True, ucast (drop_bit 8 color)), (True, ucast color)] else [(True, 0xFF), (True, 0xFF)]) [0..<n])"
proof (induction n)
  case 0
  then show ?case using assms by simp
next
  case (Suc n)
  then obtain h1 where 1: "(glyph_bit color ^^ n) (temp, h) = (drop_bit n temp, h1)" "idle h1"
     "received h1 = received h @ concat (map (\<lambda>i. if bit temp i
       then [(True, ucast (drop_bit 8 color)), (True, ucast color)] else [(True, 0xFF), (True, 0xFF)]) [0..<n])"
    by auto
  have b: "(drop_bit n temp AND 1 \<noteq> 0) = bit temp n"
    by (simp add: and_one_eq odd_iff_mod_2_eq_one [symmetric] bit_iff_odd_drop_bit)
  have "(glyph_bit color ^^ Suc n) (temp, h) = (drop_bit (Suc n) temp,
      if bit temp n then send_color color h1 else TFT_SEND_DATA 0xFF (TFT_SEND_DATA 0xFF h1))"
    unfolding funpow.simps comp_apply 1(1) by (simp add: glyph_bit_def b)
  then show ?case
    using 1(3) sendsD [OF sends_color 1(2), of color] sendsD [OF sends_comp [OF sends_data sends_data] 1(2), of "0xFF" "0xFF"]
    by auto
qed

lemma sends_glyph_byte: "sends (glyph_byte color temp) (glyph_bytes color temp)"
  unfolding sends_def
  using glyph_bits [of _ 8 color temp] by (fastforce simp: glyph_byte_def glyph_bytes_def simp del: upt.simps)

text \<open>A glyph: its 16 by 16 window, then the pixels of its 32 bytes.\<close>

definition glyph_wire :: "u8 list \<Rightarrow> u32 \<Rightarrow> u32 \<Rightarrow> u32 \<Rightarrow> (bool \<times> u8) list" where
  "glyph_wire row x y color =
     window_bytes (ucast x) (ucast y) (ucast (x + 15)) (ucast (y + 15)) @ concat (map (glyph_bytes color) (take 32 row))"

lemma glyph_row:
  assumes "n \<le> length row"
  shows "fold (\<lambda>xxx r. bind_err r (\<lambda>h. bind_err (arr_get row xxx) (\<lambda>temp. Inr (glyph_byte color temp h)))) [0..<n] (Inr h)
     = Inr (fold (glyph_byte color) (take n row) h)"
  using assms by (induction n) (simp_all add: take_Suc_conv_app_nth)

lemma display_glyph_ok:
  assumes "idle h" and "unat c < length table" and "32 \<le> length (table ! unat c)"
  shows "\<exists>h'. display_glyph table x y color c h = Inr h' \<and> idle h' \<and>
     received h' = received h @ glyph_wire (table ! unat c) x y color"
  using sendsD [OF sends_comp [OF sends_window sends_fold [OF sends_glyph_byte, where xs = "take 32 (table ! unat c)"]] assms(1)]
    glyph_row [OF assms(3)] assms(2)
  by (simp add: display_glyph_def Let_def glyph_wire_def)

lemma display_glyph_out: "length table \<le> unat c \<Longrightarrow> display_glyph table x y color c h = Inl OutOfBounds"
  by (simp add: display_glyph_def Let_def)

text \<open>
  Strings: with a font table whose rows have 32 bytes, \<open>display_string\<close> stays inside the table
  exactly when every character before the terminator has a row (its code less 32, modulo 256, is
  below the number of rows); otherwise it reads past the table.
\<close>

theorem display_string_bounds:
  assumes "list_all (\<lambda>row. length row = 32) font"
  shows "display_string font x y color s h = Inl OutOfBounds \<longleftrightarrow>
     \<not> list_all (\<lambda>c. unat (c - 32) < length font) (takeWhile (\<lambda>c. c \<noteq> 0) s)"
proof (induction s arbitrary: x h)
  case Nil
  then show ?case by simp
next
  case (Cons c cs)
  show ?case
  proof (cases "c = 0 \<or> length font \<le> unat (c - 32)")
    case True
    then show ?thesis by (auto simp: display_ascii_16_16_def display_glyph_out)
  next
    case False
    then have "32 \<le> length (font ! unat (c - 32))"
      using assms by (simp add: list_all_length)
    then show ?thesis
      using False Cons.IH glyph_row by (simp add: display_ascii_16_16_def display_glyph_def Let_def)
  qed
qed

theorem display_string_bounds_witness:
  "display_string (replicate 95 (replicate 32 0)) 0 0 0 [65, 0, 200] [] \<noteq> Inl OutOfBounds \<and>
   display_string (replicate 95 (replicate 32 0)) 0 0 0 [65, 200] [] = Inl OutOfBounds"
proof -
  let ?font = "replicate 95 (replicate 32 0) :: u8 list list"
  have f: "list_all (\<lambda>row. length row = 32) ?font" by (simp add: list_all_length)
  show ?thesis
    using display_string_bounds [OF f, of 0 0 0 "[65, 0, 200]" "[]"] display_string_bounds [OF f, of 0 0 0 "[65, 200]" "[]"]
    by simp
qed

text \<open>
  What a string puts on the wire, when it stays inside the table: for each character its glyph
  in black, whatever colour is asked for, 16 columns to the right of the one before.
\<close>

theorem display_string_wire:
  assumes "list_all (\<lambda>row. length row = 32) font" and "idle h"
    and "list_all (\<lambda>c. c \<noteq> 0 \<and> unat (c - 32) < length font) s"
  shows "\<exists>h'. display_string font x y color s h = Inr h' \<and> idle h' \<and>
     received h' = received h @ concat (map (\<lambda>i. glyph_wire (font ! unat (s ! i - 32)) (x + 16 * of_nat i) y 0) [0..<length s])"
  using assms(2,3)
proof (induction s arbitrary: x h)
  case Nil
  then show ?case by simp
next
  case (Cons c cs)
  then have c: "unat (c - 32) < length font" by simp
  then have "32 \<le> length (font ! unat (c - 32))"
    using assms(1) by (simp add: list_all_length)
  from display_glyph_ok [OF Cons.prems(1) c this, of x y "ucast BLACK"]
  obtain h1 where h1: "display_ascii_16_16 font x y (ucast BLACK) (c - 32) h = Inr h1" "idle h1"
    "received h1 = received h @ glyph_wire (font ! unat (c - 32)) x y 0"
    by (auto simp: display_ascii_16_16_def BLACK_def)
  obtain h2 where h2: "display_string font (x + 16) y color cs h1 = Inr h2" "idle h2"
    "received h2 = received h1 @
       concat (map (\<lambda>i. glyph_wire (font ! unat (cs ! i - 32)) (x + 16 + 16 * of_nat i) y 0) [0..<length cs])"
    using Cons.IH [OF h1(2), of "x + 16"] Cons.prems(2) by auto
  have "[0..<length (c # cs)] = 0 # map Suc [0..<length cs]"
    using upt_conv_Cons [of 0 "length (c # cs)"] by (simp only: length_Cons map_Suc_upt zero_less_Suc)
  moreover have "x + 16 * of_nat (Suc i) = x + 16 + 16 * of_nat i" for i by simp
  ultimately have "map (\<lambda>i. glyph_wire (font ! unat ((c # cs) ! i - 32)) (x + 16 * of_nat i) y 0) [0..<length (c # cs)] =
      glyph_wire (font ! unat (c - 32)) x y 0 #
      map (\<lambda>i. glyph_wire (font ! unat (cs ! i - 32)) (x + 16 + 16 * of_nat i) y 0) [0..<length cs]"
    by (simp only: list.map list.map_comp comp_def nth_Cons_0 nth_Cons_Suc) simp
  then show ?case
    using h1 h2 Cons.prems(2) by (intro exI [of _ h2]) simp
qed

theorem display_string_wire_witness:
  "\<exists>h'. display_string (replicate 95 (replicate 32 0xFF)) 0 40 0xF800 [72, 105] [] = Inr h' \<and> idle h' \<and>
     length (received h') = 2 * (11 + 32 * 16)"
proof -
  let ?font = "replicate 95 (replicate 32 0xFF) :: u8 list list"
  have f: "list_all (\<lambda>row. length row = 32) ?font" by (simp add: list_all_length)
  have g: "length (glyph_bytes 0 0xFF) = 16" by (simp add: glyph_bytes_def upt_rec)
  have s: "list_all (\<lambda>c. c \<noteq> 0 \<and> unat (c - 32) < length ?font) [72, 105 :: u8]" by simp
  have i: "idle []" by (simp add: idle_def)
  show ?thesis
    using display_string_wire [OF f i s, of 0 40 "0xF800"] g
    by (auto simp: glyph_wire_def window_bytes_def received_def length_concat sum_list_replicate upt_rec
        simp del: replicate.simps)
qed

end
