(* ===== verification/Sensors.thy ===== *)
theory Sensors
  imports Lcd
begin

text \<open>
  The sensor side of the car: the DHT11 single-wire protocol, the ADC readings, the measurement
  log and the display and alarm threads (\<open>applications/aht10.c\<close>), the two keys
  (\<open>applications/key.c\<close>) and the people counter with beeper and lamp
  (\<open>applications/hardware.c\<close>, \<open>applications/led.c\<close>).
\<close>

section \<open>Busy waiting on the DHT11 line\<close>

definition DHT11_PIN :: nat where "DHT11_PIN = GET_PIN PC 12"

text \<open>\<open>while (DHT11_DQ_IN == v);\<close> The loop may not end, and then the result is \<open>None\<close>.\<close>

partial_function (option) wait_while :: "board \<Rightarrow> bool \<Rightarrow> history \<Rightarrow> history option" where
  "wait_while brd v h =
     (case rt_pin_read brd DHT11_PIN h of (x, h) \<Rightarrow> if x = v then wait_while brd v h else Some h)"

definition dht11_gpio_input :: "history \<Rightarrow> history" where
  "dht11_gpio_input h = rt_pin_mode DHT11_PIN MODE_INPUT h"

definition dht11_gpio_output :: "history \<Rightarrow> history" where
  "dht11_gpio_output h = rt_pin_mode DHT11_PIN MODE_OUTPUT h"

definition dht11_start :: "board \<Rightarrow> history \<Rightarrow> history option" where
  "dht11_start brd h =
     (let h = dht11_gpio_output h;
          h = rt_pin_write DHT11_PIN True h;
          h = rt_pin_write DHT11_PIN False h;
          h = rt_thread_mdelay 20 h;
          h = rt_pin_write DHT11_PIN True h;
          h = dht11_gpio_input h
      in case wait_while brd True h of None \<Rightarrow> None
         | Some h \<Rightarrow> (case wait_while brd False h of None \<Rightarrow> None | Some h \<Rightarrow> wait_while brd True h))"

text \<open>One bit of \<open>dht11_read_byte\<close>. The macro \<open>delay_us(50)\<close> waits 25 microseconds.\<close>

definition dht11_read_bit :: "board \<Rightarrow> u8 \<times> history \<Rightarrow> (u8 \<times> history) option" where
  "dht11_read_bit brd s =
     (case s of (read_data, h) \<Rightarrow>
      case wait_while brd False h of None \<Rightarrow> None
      | Some h \<Rightarrow>
        (let h = rt_hw_us_delay (50 div 2) h; (x, h) = rt_pin_read brd DHT11_PIN h
         in if x then (case wait_while brd True h of None \<Rightarrow> None
                       | Some h \<Rightarrow> Some (push_bit 1 read_data OR 1, h))
            else Some (push_bit 1 read_data OR 0, h)))"

fun dht11_read_bits :: "board \<Rightarrow> nat \<Rightarrow> u8 \<times> history \<Rightarrow> (u8 \<times> history) option" where
  "dht11_read_bits brd 0 s = Some s"
| "dht11_read_bits brd (Suc n) s =
     (case dht11_read_bit brd s of None \<Rightarrow> None | Some s \<Rightarrow> dht11_read_bits brd n s)"

definition dht11_read_byte :: "board \<Rightarrow> history \<Rightarrow> (u8 \<times> history) option" where
  "dht11_read_byte brd h = dht11_read_bits brd 8 (0, h)"

fun dht11_read_bytes :: "board \<Rightarrow> nat \<Rightarrow> history \<Rightarrow> (u8 list \<times> history) option" where
  "dht11_read_bytes brd 0 h = Some ([], h)"
| "dht11_read_bytes brd (Suc n) h =
     (case dht11_read_byte brd h of None \<Rightarrow> None
      | Some (b, h) \<Rightarrow> (case dht11_read_bytes brd n h of None \<Rightarrow> None | Some (bs, h) \<Rightarrow> Some (b # bs, h)))"

section \<open>State\<close>

record sensors =
  dht11_data :: "u8 list"
  ADC_Value :: "u16 list"
  voltage1 :: u16
  voltage2 :: u16
  review_buf :: "u8 list list"
  number :: u8
  key_flag :: u8
  buf :: u8
  dht11_result :: "u8 list"
  beep_value2 :: u8
  beep_value3 :: u8

text \<open>The initialisers of the source; \<open>uint16_t ADC_Value[]={0}\<close> has one element.\<close>

definition sensors_reset :: sensors where
  "sensors_reset = \<lparr>dht11_data = replicate 5 0, ADC_Value = [0], voltage1 = 0, voltage2 = 0,
     review_buf = replicate 20 (replicate 3 0), number = 0, key_flag = 0, buf = 0,
     dht11_result = replicate 4 0, beep_value2 = 0, beep_value3 = 0\<rparr>"

text \<open>
  The five bytes go to \<open>dht11_data\<close> whatever they are; the sum of the first four is an \<open>int\<close> compared
  with the fifth byte, and only \<open>dht11_result\<close> depends on the comparison.
\<close>

definition dht11_read :: "board \<Rightarrow> sensors \<times> history \<Rightarrow> (sensors \<times> history) option" where
  "dht11_read brd st =
     (case st of (s, h) \<Rightarrow>
      case dht11_start brd h of None \<Rightarrow> None
      | Some h \<Rightarrow>
        (case dht11_read_bytes brd 5 (dht11_gpio_input h) of None \<Rightarrow> None
         | Some (d, h) \<Rightarrow>
           (let s = s\<lparr>dht11_data := d\<rparr>
            in Some (if uint (d ! 0) + uint (d ! 1) + uint (d ! 2) + uint (d ! 3) = uint (d ! 4)
                     then s\<lparr>dht11_result := take 4 d\<rparr> else s, h))))"

section \<open>ADC and the display thread\<close>

text \<open>The two conversions; \<open>v0\<close> and \<open>v1\<close> are what \<open>HAL_ADC_GetValue\<close> returns for each.\<close>

definition Get_adc :: "u32 \<Rightarrow> u32 \<Rightarrow> sensors \<Rightarrow> fault + sensors" where
  "Get_adc v0 v1 s =
     bind_err (arr_set (ADC_Value s) 0 (ucast v0)) (\<lambda>a.
     bind_err (arr_set a 1 (ucast v1)) (\<lambda>a. Inr (s\<lparr>ADC_Value := a\<rparr>)))"

text \<open>\<open>%d\<close> and \<open>%02d\<close> for the non-negative values that are printed, as character codes.\<close>

fun fmt_d :: "nat \<Rightarrow> u8 list" where
  "fmt_d n = (if n < 10 then [of_nat (48 + n)] else fmt_d (n div 10) @ [of_nat (48 + n mod 10)])"

declare fmt_d.simps [simp del]

definition fmt_02d :: "nat \<Rightarrow> u8 list" where
  "fmt_02d n = (if n < 10 then 48 # fmt_d n else fmt_d n)"

definition chars :: "string \<Rightarrow> u8 list" where
  "chars s = map (\<lambda>c. of_nat (of_char c)) s"

text \<open>\<open>sprintf\<close> into an array of \<open>cap\<close> characters: the text and its terminator must fit.\<close>

definition sprintf :: "nat \<Rightarrow> u8 list \<Rightarrow> fault + u8 list" where
  "sprintf cap txt = (if length txt < cap then Inr txt else Inl OutOfBounds)"

definition show_volt :: "u8 list list \<Rightarrow> sensors \<times> history \<Rightarrow> fault + sensors \<times> history" where
  "show_volt font st =
     (case st of (s, h) \<Rightarrow>
      bind_err (arr_get (ADC_Value s) 0) (\<lambda>a.
      let v = unat a * 330 div 4096; s = s\<lparr>voltage1 := of_nat v\<rparr>; v = unat (voltage1 s) in
      bind_err (sprintf 40 (chars ''volt:'' @ fmt_d (v div 100 * 11) @ chars ''.'' @
                             fmt_d (v mod 100 * 11 + 160) @ chars '' V'')) (\<lambda>txt.
      bind_err (display_string font 0 80 0 txt h) (\<lambda>h. Inr (s, h)))))"

definition show_detect :: "u8 list list \<Rightarrow> sensors \<times> history \<Rightarrow> fault + sensors \<times> history" where
  "show_detect font st =
     (case st of (s, h) \<Rightarrow>
      bind_err (arr_get (ADC_Value s) 1) (\<lambda>a.
      let s = s\<lparr>voltage2 := of_nat (unat a * 330 div 4096)\<rparr> in
      bind_err (sprintf 40 (fmt_d (unat a div 25) @ chars ''.'' @ fmt_02d (unat a * 4))) (\<lambda>txt.
      bind_err (display_string font 0 120 0 txt h) (\<lambda>h. Inr (s, h)))))"

definition show_text :: "u8 list list \<Rightarrow> u32 \<Rightarrow> nat \<Rightarrow> u8 list \<Rightarrow> history \<Rightarrow> fault + history" where
  "show_text font y cap txt h = bind_err (sprintf cap txt) (\<lambda>txt. display_string font 0 y 0 txt h)"

definition arr2_get :: "'a list list \<Rightarrow> nat \<Rightarrow> nat \<Rightarrow> fault + 'a" where
  "arr2_get m r c = bind_err (arr_get m r) (\<lambda>row. arr_get row c)"

definition arr2_set :: "'a list list \<Rightarrow> nat \<Rightarrow> nat \<Rightarrow> 'a \<Rightarrow> fault + 'a list list" where
  "arr2_set m r c v = bind_err (arr_get m r) (\<lambda>row. bind_err (arr_set row c v) (\<lambda>row. arr_set m r row))"

text \<open>The review page: the record selected by \<open>buf\<close>, or blanks.\<close>

definition show_review :: "u8 list list \<Rightarrow> sensors \<Rightarrow> history \<Rightarrow> fault + history" where
  "show_review font s h =
     (if key_flag s = 1 then
        bind_err (arr2_get (review_buf s) (unat (buf s)) 2) (\<lambda>smoke.
        bind_err (arr2_get (review_buf s) (unat (buf s)) 0) (\<lambda>t.
        bind_err (arr2_get (review_buf s) (unat (buf s)) 1) (\<lambda>hu.
        bind_err (sprintf 20 (fmt_d (unat smoke div 25) @ chars ''.'' @ fmt_02d (unat smoke * 4))) (\<lambda>string1.
        bind_err (sprintf 20 (fmt_d (unat t) @ chars ''.'' @ fmt_d (unat t * 10 mod 10))) (\<lambda>string2.
        bind_err (sprintf 20 (fmt_d (unat hu) @ chars ''.'' @ fmt_d (unat hu * 10 mod 10))) (\<lambda>string3.
        bind_err (sprintf 10 (chars '' note:'' @ fmt_d (unat (buf s)))) (\<lambda>string4.
        bind_err (display_string font 0 140 0 string1 h) (\<lambda>h.
        bind_err (display_string font 0 160 0 string2 h) (\<lambda>h.
        bind_err (display_string font 0 180 0 string3 h) (\<lambda>h.
        display_string font 0 200 0 string4 h))))))))))
      else if key_flag s = 0 then
        bind_err (display_string font 0 140 0 (replicate 19 32) h) (\<lambda>h.
        bind_err (display_string font 0 160 0 (replicate 19 32) h) (\<lambda>h.
        bind_err (display_string font 0 180 0 (replicate 19 32) h) (\<lambda>h.
        display_string font 0 200 0 (replicate 19 32) h)))
      else Inr h)"

definition aht10_init :: "u8 list list \<Rightarrow> history \<Rightarrow> fault + history" where
  "aht10_init font h =
     (let h = rt_pin_write SPI_BLK True h;
          h = rt_pin_write SPI_SCK False h;
          h = TFT_init h;
          h = TFT_full (ucast WHITE) h in
      bind_err (display_string font 0 0 0x07e0 (chars ''humidity:'') h) (\<lambda>h.
      bind_err (display_string font 0 40 0x07e0 (chars ''temperature:'') h) (\<lambda>h.
      bind_err (display_string font 0 100 0 (chars ''smoke:'') h) (\<lambda>h.
      bind_err (display_string font 0 260 0x001f (chars ''find people'') h) (\<lambda>h.
      Inr (rt_thread_mdelay 3000 h))))))"

text \<open>One iteration of \<open>aht10_handle\<close>; \<open>adc\<close> holds the results of the two calls of \<open>Get_adc\<close>.\<close>

definition aht10_body ::
  "u8 list list \<Rightarrow> (u32 \<times> u32) \<times> (u32 \<times> u32) \<Rightarrow> u8 \<Rightarrow> sensors \<times> history \<Rightarrow> fault + sensors \<times> history" where
  "aht10_body font adc people_number st =
     (case st of (s, h) \<Rightarrow>
      bind_err (Get_adc (fst (fst adc)) (snd (fst adc)) s) (\<lambda>s.
      bind_err (show_volt font (s, h)) (\<lambda>(s, h).
      bind_err (Get_adc (fst (snd adc)) (snd (snd adc)) s) (\<lambda>s.
      bind_err (show_detect font (s, h)) (\<lambda>(s, h).
      bind_err (arr_get (dht11_data s) 0) (\<lambda>d0. bind_err (arr_get (dht11_data s) 1) (\<lambda>d1.
      bind_err (arr_get (dht11_data s) 2) (\<lambda>d2. bind_err (arr_get (dht11_data s) 3) (\<lambda>d3.
      bind_err (sprintf 20 (fmt_d (unat d0) @ chars ''.'' @ fmt_d (unat d1))) (\<lambda>humidity_buf.
      bind_err (sprintf 20 (fmt_d (unat d2) @ chars ''.'' @ fmt_d (unat d3))) (\<lambda>temperature_buf.
      bind_err (display_string font 0 20 0 humidity_buf h) (\<lambda>h.
      bind_err (display_string font 0 60 0 temperature_buf h) (\<lambda>h.
      bind_err (show_text font 280 20 (fmt_d (unat people_number)) h) (\<lambda>h.
      bind_err (show_review font s h) (\<lambda>h.
      Inr (s, rt_thread_mdelay 1000 h))))))))))))))))"

section \<open>The DHT11 thread: alarms, the measurement log, review mode\<close>

definition dht11_alarm :: "u8 list list \<Rightarrow> sensors \<times> history \<Rightarrow> fault + sensors \<times> history" where
  "dht11_alarm font st =
     (case st of (s, h) \<Rightarrow>
      bind_err (arr_get (dht11_data s) 0) (\<lambda>d0. bind_err (arr_get (dht11_data s) 2) (\<lambda>d2.
      if d0 \<ge> 90 \<or> d0 \<le> 10 then
        bind_err (display_string font 0 220 0 (chars ''humi error'') h) (\<lambda>h. Inr (s\<lparr>beep_value3 := 1\<rparr>, h))
      else if d2 \<ge> 40 \<or> d2 \<le> 1 then
        bind_err (display_string font 0 240 0 (chars ''temp error'') h) (\<lambda>h. Inr (s\<lparr>beep_value3 := 1\<rparr>, h))
      else Inr (s, h))))"

text \<open>\<open>PS2_KEY == 13\<close>: append a record. The column values are truncated to a byte.\<close>

definition dht11_record :: "sensors \<Rightarrow> fault + sensors" where
  "dht11_record s =
     bind_err (arr_get (dht11_data s) 2) (\<lambda>d2. bind_err (arr_get (dht11_data s) 3) (\<lambda>d3.
     bind_err (arr2_set (review_buf s) (unat (number s)) 0 (d2 * 10 + d3)) (\<lambda>rb.
     bind_err (arr_get (dht11_data s) 0) (\<lambda>d0. bind_err (arr_get (dht11_data s) 1) (\<lambda>d1.
     bind_err (arr2_set rb (unat (number s)) 1 (d0 * 10 + d1)) (\<lambda>rb.
     bind_err (arr_get (ADC_Value s) 1) (\<lambda>a.
     bind_err (arr2_set rb (unat (number s)) 2 (ucast a)) (\<lambda>rb.
     Inr (s\<lparr>review_buf := rb, number := number s + 1\<rparr>)))))))))"

text \<open>
  \<open>PS2_KEY == 10\<close>: \<open>for (n = 0; n < number+1; n++)\<close>. The body clears the row of index \<open>number\<close> and
  then resets \<open>number\<close>, which the loop condition reads.
\<close>

definition clear_row :: "sensors \<Rightarrow> fault + sensors" where
  "clear_row s =
     bind_err (arr2_set (review_buf s) (unat (number s)) 0 0) (\<lambda>rb.
     bind_err (arr2_set rb (unat (number s)) 1 0) (\<lambda>rb.
     bind_err (arr2_set rb (unat (number s)) 2 0) (\<lambda>rb.
     Inr (s\<lparr>review_buf := rb, number := 0, buf := 0\<rparr>))))"

lemma clear_row_number: "clear_row s = Inr s' \<Longrightarrow> number s' = 0"
  by (auto simp: clear_row_def bind_err_Inr_iff)

function clear_loop :: "nat \<Rightarrow> sensors \<Rightarrow> fault + sensors" where
  "clear_loop n s =
     (if n < unat (number s) + 1 then
        (case clear_row s of Inl e \<Rightarrow> Inl e | Inr s \<Rightarrow> clear_loop (n + 1) s)
      else Inr s)"
  by auto
termination
  by (relation "measure (\<lambda>(n, s). unat (number s) + 1 - n)") (auto dest: clear_row_number)

declare clear_loop.simps [simp del]

definition dht11_keys :: "int \<Rightarrow> sensors \<Rightarrow> fault + sensors" where
  "dht11_keys PS2_KEY s =
     bind_err (if PS2_KEY = 13 then dht11_record s else Inr s) (\<lambda>s.
     if PS2_KEY = 12 then Inr (s\<lparr>key_flag := 1\<rparr>)
     else if PS2_KEY = 10 then clear_loop 0 (s\<lparr>key_flag := 0\<rparr>)
     else Inr s)"

record dht11_local =
  tick_n :: u8
  tick_i :: u8

text \<open>One iteration of \<open>dht11_handle\<close>; \<open>None\<close> when the sensor keeps it waiting for ever.\<close>

definition dht11_body ::
  "board \<Rightarrow> u8 list list \<Rightarrow> int \<Rightarrow> dht11_local \<Rightarrow> sensors \<times> history \<Rightarrow>
     (fault + dht11_local \<times> sensors \<times> history) option" where
  "dht11_body brd font PS2_KEY l st =
     (case (if tick_i l \<ge> 200
            then bind_err (dht11_alarm font st) (\<lambda>st. Inr (l\<lparr>tick_i := 0\<rparr>, st))
            else Inr (l\<lparr>tick_i := tick_i l + 1\<rparr>, st)) of
        Inl e \<Rightarrow> Some (Inl e)
      | Inr (l, (s, h)) \<Rightarrow>
        (case (if tick_n l \<ge> 50
               then (case dht11_read brd (s\<lparr>dht11_result := replicate 4 0\<rparr>, h) of None \<Rightarrow> None
                     | Some st \<Rightarrow> Some (l\<lparr>tick_n := 0\<rparr>, st))
               else Some (l\<lparr>tick_n := tick_n l + 1\<rparr>, (s, h))) of
           None \<Rightarrow> None
         | Some (l, (s, h)) \<Rightarrow>
           Some (bind_err (dht11_keys PS2_KEY s) (\<lambda>s. Inr (l, s, rt_thread_mdelay 100 h)))))"

section \<open>Keys\<close>

definition key1 :: nat where "key1 = GET_PIN PA 8"
definition key2 :: nat where "key2 = GET_PIN PB 1"

definition irq_callback :: "nat \<Rightarrow> sensors \<Rightarrow> sensors" where
  "irq_callback sign s =
     (let s = s\<lparr>beep_value2 := 1\<rparr>;
          s = (if buf s > number s then s\<lparr>buf := 0\<rparr> else s)
      in if sign = key1 then (if buf s \<le> 99 then s\<lparr>buf := buf s + 1\<rparr> else s)
         else if sign = key2 then (if buf s > 0 then s\<lparr>buf := buf s - 1\<rparr> else s)
         else s)"

text \<open>One iteration of \<open>key_handle\<close>: the beep request of a key ends after 26 iterations of 10 ms.\<close>

definition key_body :: "u8 \<times> sensors \<times> history \<Rightarrow> u8 \<times> sensors \<times> history" where
  "key_body st =
     (case st of (i, s, h) \<Rightarrow>
        (let (i, s) = (if beep_value2 s = 1
                       then (if i \<ge> 25 then (0, s\<lparr>beep_value2 := 0\<rparr>) else (i + 1, s)) else (i, s))
         in (i, s, rt_thread_mdelay 10 h)))"

section \<open>People counter, beeper and lamp\<close>

definition BEEP_PIN :: nat where "BEEP_PIN = GET_PIN PD 2"
definition LED_PIN :: nat where "LED_PIN = GET_PIN PB 6"
definition DETECT_PIN :: nat where "DETECT_PIN = GET_PIN PB 9"
definition PIN_LED1 :: nat where "PIN_LED1 = GET_PIN PC 13"

definition hardware_init :: "history \<Rightarrow> history" where
  "hardware_init h =
     (let h = rt_pin_mode BEEP_PIN MODE_OUTPUT h;
          h = rt_pin_mode LED_PIN MODE_OUTPUT h;
          h = rt_pin_mode DETECT_PIN MODE_INPUT h;
          h = rt_pin_write BEEP_PIN True h;
          h = rt_pin_write LED_PIN False h
      in rt_thread_mdelay 2000 h)"

definition beep_handle :: "u8 \<Rightarrow> history \<Rightarrow> history" where
  "beep_handle v h =
     (if v = 1 then rt_pin_write BEEP_PIN False h
      else if v = 0 then rt_pin_write BEEP_PIN True h else h)"

definition led_solve :: "u8 \<Rightarrow> history \<Rightarrow> history" where
  "led_solve v h =
     (if v = 1 then rt_pin_write LED_PIN True h
      else if v = 0 then rt_pin_write LED_PIN False h else h)"

text \<open>\<open>b1\<close>, \<open>b2\<close>, \<open>b3\<close> are \<open>beep_value\<close>, \<open>beep_value2\<close> and \<open>beep_value3\<close>.\<close>

definition people_detect :: "board \<Rightarrow> u8 \<Rightarrow> u8 \<Rightarrow> u8 \<Rightarrow> history \<Rightarrow> history" where
  "people_detect brd b1 b2 b3 h =
     (let (d, h) = rt_pin_read brd DETECT_PIN h
      in if d \<or> b1 = 1 \<or> b2 = 1 \<or> b3 = 1
         then led_solve 1 (beep_handle 1 (rt_thread_mdelay 200 h))
         else led_solve 0 (beep_handle 0 h))"

record hardware =
  people_number :: u8
  count_n :: u8
  n_flag :: u8

definition hardware_start :: hardware where
  "hardware_start = \<lparr>people_number = 0, count_n = 0, n_flag = 1\<rparr>"

text \<open>The counting part of an iteration, on the level of the detector.\<close>

definition people_count :: "hardware \<Rightarrow> bool \<Rightarrow> hardware" where
  "people_count w d =
     (let w = (if d \<and> count_n w = 0 then w\<lparr>people_number := people_number w + 1, n_flag := 1\<rparr> else w)
      in if n_flag w = 1
         then (if count_n w \<ge> 50 then w\<lparr>count_n := 0, n_flag := 0\<rparr> else w\<lparr>count_n := count_n w + 1\<rparr>)
         else w)"

definition hardware_body ::
  "board \<Rightarrow> u8 \<Rightarrow> u8 \<Rightarrow> u8 \<Rightarrow> hardware \<times> history \<Rightarrow> hardware \<times> history" where
  "hardware_body brd b1 b2 b3 st =
     (let (w, h) = st;
          h = people_detect brd b1 b2 b3 h;
          h = rt_thread_mdelay 50 h;
          (d, h) = rt_pin_read brd DETECT_PIN h
      in (people_count w d, h))"

definition led_handle_body :: "history \<Rightarrow> history" where
  "led_handle_body h =
     rt_thread_mdelay 500 (rt_pin_write PIN_LED1 True (rt_thread_mdelay 500 (rt_pin_write PIN_LED1 False h)))"

section \<open>A scripted sensor\<close>

text \<open>The answers of the line to successive reads, as a list; \<open>reads\<close> counts the reads so far.\<close>

fun reads :: "history \<Rightarrow> nat" where
  "reads [] = 0"
| "reads (PinRead p v # h) = Suc (reads h)"
| "reads (_ # h) = reads h"

definition scripted :: "bool list \<Rightarrow> board" where
  "scripted ans h pin \<longleftrightarrow> reads h < length ans \<and> ans ! reads h"

definition remaining :: "bool list \<Rightarrow> history \<Rightarrow> bool list" where
  "remaining ans h = drop (reads h) ans"

lemma reads_ops [simp]:
  "reads (rt_pin_mode p m h) = reads h" "reads (rt_pin_write p v h) = reads h"
  "reads (rt_hw_us_delay n h) = reads h" "reads (rt_thread_mdelay n h) = reads h"
  by (simp_all add: pin_ops_def)

lemma remaining_ops [simp]:
  "remaining ans (rt_pin_mode p m h) = remaining ans h" "remaining ans (rt_pin_write p v h) = remaining ans h"
  "remaining ans (rt_hw_us_delay n h) = remaining ans h" "remaining ans (rt_thread_mdelay n h) = remaining ans h"
  by (simp_all add: remaining_def)

lemma scripted_read:
  assumes "remaining ans h = a # rest"
  shows "\<exists>h'. rt_pin_read (scripted ans) pin h = (a, h') \<and> remaining ans h' = rest"
proof -
  have l: "reads h < length ans" using assms by (cases "reads h < length ans") (simp_all add: remaining_def)
  then have "ans ! reads h = a" "drop (Suc (reads h)) ans = rest"
    using assms Cons_nth_drop_Suc [OF l] by (simp_all add: remaining_def)
  then show ?thesis using l by (simp add: rt_pin_read_def Let_def scripted_def remaining_def)
qed

lemma wait_while_scripted:
  "remaining ans h = replicate n v @ (\<not> v) # rest \<Longrightarrow>
   \<exists>h'. wait_while (scripted ans) v h = Some h' \<and> remaining ans h' = rest"
proof (induction n arbitrary: h)
  case 0
  then obtain h' where "rt_pin_read (scripted ans) DHT11_PIN h = (\<not> v, h')" "remaining ans h' = rest"
    using scripted_read [of ans h "\<not> v" rest] by auto
  then show ?case by (subst wait_while.simps) simp
next
  case (Suc n)
  then obtain h' where "rt_pin_read (scripted ans) DHT11_PIN h = (v, h')"
    "remaining ans h' = replicate n v @ (\<not> v) # rest"
    using scripted_read [of ans h v "replicate n v @ (\<not> v) # rest" DHT11_PIN] by auto
  then show ?case using Suc.IH [of h'] by (subst wait_while.simps) simp
qed

text \<open>
  One transmitted bit, as the reads of the firmware see it: low for \<open>l\<close> reads, high, the sample after
  the delay, and for a one bit high for \<open>m\<close> further reads until the line falls.
\<close>

definition bit_answers :: "nat \<times> nat \<Rightarrow> bool \<Rightarrow> bool list" where
  "bit_answers lm b = replicate (fst lm) False @ True # b # (if b then replicate (snd lm) True @ [False] else [])"

lemma dht11_read_bit_scripted:
  assumes "remaining ans h = bit_answers lm b @ rest"
  shows "\<exists>h'. dht11_read_bit (scripted ans) (d, h) = Some (push_bit 1 d OR of_bool b, h') \<and> remaining ans h' = rest"
proof -
  obtain h1 where 1: "wait_while (scripted ans) False h = Some h1"
    "remaining ans h1 = b # (if b then replicate (snd lm) True @ [False] else []) @ rest"
    using wait_while_scripted [of ans h "fst lm" False] assms by (auto simp: bit_answers_def)
  then obtain h2 where 2: "rt_pin_read (scripted ans) DHT11_PIN (rt_hw_us_delay 25 h1) = (b, h2)"
    "remaining ans h2 = (if b then replicate (snd lm) True @ [False] else []) @ rest"
    using scripted_read [of ans "rt_hw_us_delay 25 h1" b] by auto
  show ?thesis
  proof (cases b)
    case True
    then obtain h3 where "wait_while (scripted ans) True h2 = Some h3" "remaining ans h3 = rest"
      using wait_while_scripted [of ans h2 "snd lm" True rest] 2(2) by auto
    then show ?thesis using 1 2 True by (simp add: dht11_read_bit_def)
  next
    case False
    then show ?thesis using 1 2 by (simp add: dht11_read_bit_def)
  qed
qed

definition byte_answers :: "(nat \<Rightarrow> nat \<times> nat) \<Rightarrow> u8 \<Rightarrow> bool list" where
  "byte_answers t byte = concat (map (\<lambda>i. bit_answers (t i) (bit byte (7 - i))) [0..<8])"

lemma dht11_read_bits_scripted:
  "remaining ans h = concat (map (\<lambda>i. bit_answers (t i) (f i)) [k..<k + n]) @ rest \<Longrightarrow>
   \<exists>h'. dht11_read_bits (scripted ans) n (d, h) =
      Some (fold (\<lambda>b w. push_bit 1 w OR of_bool b) (map f [k..<k + n]) d, h') \<and> remaining ans h' = rest"
proof (induction n arbitrary: k d h)
  case 0
  then show ?case by simp
next
  case (Suc n)
  have r: "[k..<k + Suc n] = k # [Suc k..<Suc k + n]" using upt_conv_Cons [of k "k + Suc n"] by simp
  obtain h1 where 1: "dht11_read_bit (scripted ans) (d, h) = Some (push_bit 1 d OR of_bool (f k), h1)"
    "remaining ans h1 = concat (map (\<lambda>i. bit_answers (t i) (f i)) [Suc k..<Suc k + n]) @ rest"
    using dht11_read_bit_scripted [of ans h "t k" "f k" _ d] Suc.prems unfolding r list.map concat.simps append_assoc
    by blast
  obtain h2 where "dht11_read_bits (scripted ans) n (push_bit 1 d OR of_bool (f k), h1) =
     Some (fold (\<lambda>b w. push_bit 1 w OR of_bool b) (map f [Suc k..<Suc k + n]) (push_bit 1 d OR of_bool (f k)), h2)"
     "remaining ans h2 = rest"
    using Suc.IH [OF 1(2)] by blast
  then show ?case unfolding dht11_read_bits.simps(2) 1(1) option.case r list.map fold.simps comp_apply by blast
qed

lemma dht11_read_byte_scripted:
  assumes "remaining ans h = byte_answers t byte @ rest"
  shows "\<exists>h'. dht11_read_byte (scripted ans) h = Some (byte, h') \<and> remaining ans h' = rest"
  using dht11_read_bits_scripted [of ans h t "\<lambda>i. bit byte (7 - i)" 0 8 rest 0] assms byte_msb_bits [of byte]
  by (simp add: dht11_read_byte_def byte_answers_def byte_msb_def del: upt.simps)

lemma dht11_read_bytes_scripted:
  "remaining ans h = concat (map (\<lambda>(t, b). byte_answers t b) tbs) @ rest \<Longrightarrow>
   \<exists>h'. dht11_read_bytes (scripted ans) (length tbs) h = Some (map snd tbs, h') \<and> remaining ans h' = rest"
proof (induction tbs arbitrary: h)
  case Nil
  then show ?case by simp
next
  case (Cons tb tbs)
  obtain h1 where 1: "dht11_read_byte (scripted ans) h = Some (snd tb, h1)"
    "remaining ans h1 = concat (map (\<lambda>(t, b). byte_answers t b) tbs) @ rest"
    using dht11_read_byte_scripted [of ans h "fst tb" "snd tb"] Cons.prems by (cases tb) auto
  show ?case using Cons.IH [OF 1(2)] 1(1) by auto
qed

text \<open>
  The answers of a sensor that takes part: the response pulse of \<open>a\<close>, \<open>b\<close>, \<open>c\<close> further reads, then
  the bytes with arbitrary waits.
\<close>

definition sensor_answers :: "nat \<Rightarrow> nat \<Rightarrow> nat \<Rightarrow> ((nat \<Rightarrow> nat \<times> nat) \<times> u8) list \<Rightarrow> bool list" where
  "sensor_answers a b c tbs =
     replicate a True @ False # replicate b False @ True # replicate c True @ False #
     concat (map (\<lambda>(t, b). byte_answers t b) tbs)"

lemma dht11_start_scripted:
  assumes "remaining ans h = replicate a True @ False # replicate b False @ True # replicate c True @ False # rest"
  shows "\<exists>h'. dht11_start (scripted ans) h = Some h' \<and> remaining ans h' = rest"
proof -
  define h0 where "h0 = dht11_gpio_input (rt_pin_write DHT11_PIN True (rt_thread_mdelay 20
    (rt_pin_write DHT11_PIN False (rt_pin_write DHT11_PIN True (dht11_gpio_output h)))))"
  have "remaining ans h0 = remaining ans h"
    by (simp add: h0_def dht11_gpio_input_def dht11_gpio_output_def)
  then obtain h1 where 1: "wait_while (scripted ans) True h0 = Some h1"
    "remaining ans h1 = replicate b False @ True # replicate c True @ False # rest"
    using wait_while_scripted [of ans h0 a True] assms by auto
  then obtain h2 where 2: "wait_while (scripted ans) False h1 = Some h2"
    "remaining ans h2 = replicate c True @ False # rest"
    using wait_while_scripted [of ans h1 b False] by auto
  then obtain h3 where 3: "wait_while (scripted ans) True h2 = Some h3" "remaining ans h3 = rest"
    using wait_while_scripted [of ans h2 c True] by auto
  show ?thesis using 1 2 3 by (simp add: dht11_start_def Let_def h0_def [symmetric])
qed

text \<open>
  C38. A DHT11 transaction, end to end: with a sensor that answers the start pulse and sends five
  bytes, most significant bit first, with any number of reads spent in each wait, \<open>dht11_read\<close>
  returns, \<open>dht11_data\<close> holds the five bytes, and \<open>dht11_result\<close> the first four exactly when their
  sum is the fifth.
\<close>

theorem dht11_read_receives:
  assumes "length tbs = 5" and "remaining ans h = sensor_answers a b c tbs"
  defines "d \<equiv> map snd tbs"
  shows "\<exists>h'. dht11_read (scripted ans) (s, h) =
     Some (s\<lparr>dht11_data := d,
             dht11_result := (if uint (d ! 0) + uint (d ! 1) + uint (d ! 2) + uint (d ! 3) = uint (d ! 4)
                              then take 4 d else dht11_result s)\<rparr>, h')"
proof -
  obtain h1 where 1: "dht11_start (scripted ans) h = Some h1"
    "remaining ans h1 = concat (map (\<lambda>(t, b). byte_answers t b) tbs)"
    using dht11_start_scripted [of ans h a b c] assms(2) by (auto simp: sensor_answers_def)
  then obtain h2 where "dht11_read_bytes (scripted ans) 5 (dht11_gpio_input h1) = Some (d, h2)"
    using dht11_read_bytes_scripted [of ans "dht11_gpio_input h1" tbs "[]"] assms(1)
    by (auto simp: d_def dht11_gpio_input_def)
  then show ?thesis using 1(1) by (simp add: dht11_read_def Let_def)
qed

theorem dht11_read_receives_witness:
  "let tbs = map (Pair (\<lambda>_. (2, 1))) [55, 3, 24, 1, 83]; ans = sensor_answers 1 2 3 tbs in
   \<exists>h'. dht11_read (scripted ans) (sensors_reset, []) =
     Some (sensors_reset\<lparr>dht11_data := [55, 3, 24, 1, 83], dht11_result := [55, 3, 24, 1]\<rparr>, h')"
  using dht11_read_receives [where tbs = "map (Pair (\<lambda>_. (2, 1))) [55, 3, 24, 1, 83]" and h = "[]"
      and a = 1 and b = 2 and c = 3 and s = sensors_reset]
  by (simp add: remaining_def comp_def)

lemma wait_while_stuck:
  assumes "wait_while brd v h = Some h'"
  shows "\<exists>h. brd h DHT11_PIN \<noteq> v"
proof (rule wait_while.raw_induct [where P = "\<lambda>brd v _ _. \<exists>h. brd h DHT11_PIN \<noteq> v", OF _ assms])
  fix wait brd v h y
  assume IH: "\<And>brd v h y. wait brd v h = Some y \<Longrightarrow> \<exists>h. brd h DHT11_PIN \<noteq> v"
    and step: "(case rt_pin_read brd DHT11_PIN h of (x, h) \<Rightarrow> if x = v then wait brd v h else Some h) = Some y"
  show "\<exists>h. brd h DHT11_PIN \<noteq> v"
    using IH [of brd v "PinRead DHT11_PIN v # h" y] step
    by (cases "brd h DHT11_PIN = v") (auto simp: rt_pin_read_def Let_def)
qed

text \<open>
  No sensor: when the line never changes level, in either direction, the start sequence never
  returns, so the thread stays in the busy wait.
\<close>

theorem dht11_start_hangs: "dht11_start (\<lambda>_ _. v) h = None"
proof -
  have "wait_while (\<lambda>_ _. v) v h = None" for h
    using wait_while_stuck [of "\<lambda>_ _. v" v h] by (cases "wait_while (\<lambda>_ _. v) v h") auto
  moreover have "wait_while (\<lambda>_ _. v) (\<not> v) h = Some (PinRead DHT11_PIN v # h)" for h
    by (subst wait_while.simps) (simp add: rt_pin_read_def Let_def)
  ultimately show ?thesis
    by (cases v) (simp_all add: dht11_start_def Let_def split: option.split)
qed

section \<open>The measurement log\<close>

text \<open>Shape of the arrays, with an ADC array of two elements as \<open>Get_adc\<close> assumes.\<close>

definition log_shape :: "sensors \<Rightarrow> bool" where
  "log_shape s \<longleftrightarrow> length (dht11_data s) = 5 \<and> length (ADC_Value s) = 2 \<and>
     length (review_buf s) = 20 \<and> list_all (\<lambda>row. length row = 3) (review_buf s)"

lemma arr2_set_in [simp]:
  "r < length m \<Longrightarrow> c < length (m ! r) \<Longrightarrow> arr2_set m r c v = Inr (m[r := (m ! r)[c := v]])"
  by (simp add: arr2_set_def)

lemma arr2_set_out [simp]: "length m \<le> r \<Longrightarrow> arr2_set m r c v = Inl OutOfBounds"
  by (simp add: arr2_set_def)

lemma row_length: "list_all (\<lambda>row. length row = 3) m \<Longrightarrow> r < length m \<Longrightarrow> length (m ! r) = 3"
  by (simp add: list_all_length)

lemma update_row3: "length row = 3 \<Longrightarrow> row[0 := a, Suc 0 := b, 2 := c] = [a, b, c]"
  by (auto simp: numeral_eq_Suc length_Suc_conv)

text \<open>The record that key 13 appends.\<close>

definition log_entry :: "sensors \<Rightarrow> u8 list" where
  "log_entry s = [dht11_data s ! 2 * 10 + dht11_data s ! 3, dht11_data s ! 0 * 10 + dht11_data s ! 1,
                  ucast (ADC_Value s ! 1)]"

lemma dht11_record_eq:
  assumes "log_shape s"
  shows "dht11_record s = (if unat (number s) < 20
     then Inr (s\<lparr>review_buf := (review_buf s)[unat (number s) := log_entry s], number := number s + 1\<rparr>)
     else Inl OutOfBounds)"
  using assms row_length [of "review_buf s" "unat (number s)"]
  by (simp add: log_shape_def dht11_record_def log_entry_def update_row3)

lemma clear_row_eq:
  assumes "log_shape s"
  shows "clear_row s = (if unat (number s) < 20
     then Inr (s\<lparr>review_buf := (review_buf s)[unat (number s) := [0, 0, 0]], number := 0, buf := 0\<rparr>)
     else Inl OutOfBounds)"
  using assms row_length [of "review_buf s" "unat (number s)"]
  by (simp add: log_shape_def clear_row_def update_row3)

fun press_times :: "nat \<Rightarrow> int \<Rightarrow> sensors \<Rightarrow> fault + sensors" where
  "press_times 0 key s = Inr s"
| "press_times (Suc n) key s = bind_err (press_times n key s) (dht11_keys key)"

lemma press_times_log:
  assumes "log_shape s" and "number s = 0"
  shows "n \<le> 20 \<Longrightarrow> press_times n 13 s =
     Inr (s\<lparr>review_buf := replicate n (log_entry s) @ drop n (review_buf s), number := of_nat n\<rparr>)"
proof (induction n)
  case 0
  then show ?case using assms by simp
next
  case (Suc n)
  let ?s = "s\<lparr>review_buf := replicate n (log_entry s) @ drop n (review_buf s), number := of_nat n\<rparr>"
  have n: "unat (of_nat n :: u8) = n" using Suc.prems by (simp add: unat_of_nat)
  have l: "length (review_buf s) = 20" using assms(1) by (simp add: log_shape_def)
  have sh: "log_shape ?s"
    using assms(1) Suc.prems row_length [of "review_buf s"]
    by (auto simp: log_shape_def list_all_iff log_entry_def dest: in_set_dropD)
  have up: "(replicate n (log_entry s) @ drop n (review_buf s))[n := log_entry s] =
      replicate (Suc n) (log_entry s) @ drop (Suc n) (review_buf s)"
    using Suc.prems l by (simp add: list_update_append replicate_append_same Cons_nth_drop_Suc [symmetric])
  have e: "log_entry ?s = log_entry s" by (simp add: log_entry_def)
  have "press_times (Suc n) 13 s = dht11_record ?s"
    using Suc by (simp add: dht11_keys_def bind_err_def split: sum.splits)
  also have "\<dots> = Inr (s\<lparr>review_buf := replicate (Suc n) (log_entry s) @ drop (Suc n) (review_buf s), number := of_nat (Suc n)\<rparr>)"
    using Suc.prems by (simp add: dht11_record_eq [OF sh] n e up add.commute)
  finally show ?case .
qed

text \<open>
  Capacity of the log: from an empty log, \<open>n\<close> presses of key 13 with no press of key 10 in
  between store \<open>n\<close> records when \<open>n\<close> is at most 20; the 21st press writes outside \<open>review_buf\<close>, as
  nothing bounds \<open>number\<close>.
\<close>

theorem log_capacity:
  assumes "log_shape s" and "number s = 0"
  shows "(n \<le> 20 \<and> press_times n 13 s =
            Inr (s\<lparr>review_buf := replicate n (log_entry s) @ drop n (review_buf s), number := of_nat n\<rparr>)) \<or>
         (20 < n \<and> press_times n 13 s = Inl OutOfBounds)"
proof -
  have "press_times (21 + k) 13 s = Inl OutOfBounds" for k
  proof (induction k)
    case 0
    let ?s = "s\<lparr>review_buf := replicate 20 (log_entry s), number := 20\<rparr>"
    have sh: "log_shape ?s" using assms(1) by (simp add: log_shape_def log_entry_def list_all_iff)
    have "press_times 20 13 s = Inr ?s"
      using press_times_log [OF assms, of 20] assms(1) by (simp add: log_shape_def)
    then have "press_times (Suc 20) 13 s = dht11_keys 13 ?s" by (simp only: press_times.simps bind_err_simps)
    also have "\<dots> = Inl OutOfBounds" by (simp add: dht11_keys_def dht11_record_eq [OF sh])
    finally show ?case by simp
  next
    case (Suc k)
    then show ?case by (simp only: add_Suc_right press_times.simps bind_err_simps)
  qed
  moreover have "20 < n \<Longrightarrow> n = 21 + (n - 21)" by simp
  ultimately show ?thesis
    using press_times_log [OF assms] by (metis linorder_not_le)
qed

theorem log_capacity_witness:
  "press_times 21 13 (sensors_reset\<lparr>ADC_Value := [0, 0]\<rparr>) = Inl OutOfBounds"
  using log_capacity [of "sensors_reset\<lparr>ADC_Value := [0, 0]\<rparr>" 21]
  by (simp add: log_shape_def sensors_reset_def list_all_length)

text \<open>
  Clearing (key 10): the loop runs once. It zeroes the row after the last record, so the stored
  records stay in \<open>review_buf\<close>; \<open>number\<close> and \<open>buf\<close> become 0; with a full log it writes outside the
  array.
\<close>

theorem clear_keeps_records:
  assumes "log_shape s"
  shows "dht11_keys 10 s = (if unat (number s) < 20
     then Inr (s\<lparr>key_flag := 0, review_buf := (review_buf s)[unat (number s) := [0, 0, 0]], number := 0, buf := 0\<rparr>)
     else Inl OutOfBounds)"
proof -
  have sh: "log_shape (s\<lparr>key_flag := 0\<rparr>)" using assms by (simp add: log_shape_def)
  show ?thesis
    by (simp add: dht11_keys_def clear_loop.simps [of 0] clear_row_eq [OF sh] clear_loop.simps [of "Suc 0"])
qed

theorem clear_keeps_records_witness:
  "dht11_keys 10 (sensors_reset\<lparr>ADC_Value := [0, 0], review_buf := [1, 2, 3] # replicate 19 (replicate 3 0), number := 1\<rparr>) =
   Inr (sensors_reset\<lparr>ADC_Value := [0, 0], review_buf := [1, 2, 3] # replicate 19 (replicate 3 0), number := 0\<rparr>)"
proof -
  have "log_shape (sensors_reset\<lparr>ADC_Value := [0, 0], review_buf := [1, 2, 3] # replicate 19 (replicate 3 0), number := 1\<rparr>)"
    by (simp add: log_shape_def sensors_reset_def list_all_length nth_Cons split: nat.split)
  from clear_keeps_records [OF this] show ?thesis
    by (simp add: sensors_reset_def numeral_eq_Suc)
qed

text \<open>
  The declared ADC array: with the initialiser of the source the first call of \<open>Get_adc\<close>, and with
  it the first iteration of the display thread, writes outside \<open>ADC_Value\<close>.
\<close>

theorem aht10_first_iteration_faults:
  "Get_adc v0 v1 sensors_reset = Inl OutOfBounds \<and>
   aht10_body font ((v0, v1), adc) people (sensors_reset, h) = Inl OutOfBounds \<and>
   dht11_keys 13 sensors_reset = Inl OutOfBounds"
proof -
  have "length (review_buf sensors_reset ! 0) = 3" by (simp add: sensors_reset_def)
  then show ?thesis
    by (simp add: Get_adc_def aht10_body_def dht11_keys_def dht11_record_def sensors_reset_def)
qed

section \<open>Keys and the people counter\<close>

text \<open>
  The selected record: after any key interrupt \<open>buf\<close> is at most one more than \<open>number\<close> was, at most
  100, and the beeper is requested. (One more than \<open>number\<close> is not a stored record.)
\<close>

theorem irq_buf_bound:
  "unat (buf (irq_callback sign s)) \<le> min (unat (number s) + 1) (max 100 (unat (buf s))) \<and>
   beep_value2 (irq_callback sign s) = 1 \<and> number (irq_callback sign s) = number s"
proof -
  define b where "b = (if buf s > number s then 0 else buf s)"
  have b: "unat b \<le> unat (number s)" "unat b \<le> unat (buf s)" by (auto simp: b_def word_le_nat_alt not_less)
  have inc: "unat (b + 1) = unat b + 1 \<and> unat b \<le> 99" if "b \<le> 99"
    using unat_inc_less [of b 100] that by (simp add: word_le_nat_alt word_less_nat_alt)
  have dec: "unat (b - 1) \<le> unat b" if "b \<noteq> 0"
    using unat_dec_pos [OF that] by simp
  have other: "beep_value2 (irq_callback sign s) = 1" "number (irq_callback sign s) = number s"
    by (simp_all add: irq_callback_def Let_def)
  have "buf (irq_callback sign s) = b \<or> buf (irq_callback sign s) = b + 1 \<and> b \<le> 99 \<or>
      buf (irq_callback sign s) = b - 1 \<and> b \<noteq> 0"
    by (simp add: irq_callback_def Let_def word_gt_0 b_def)
  then have "unat (buf (irq_callback sign s)) \<le> min (unat (number s) + 1) (max 100 (unat (buf s)))"
  proof (elim disjE conjE)
    assume "buf (irq_callback sign s) = b" then show ?thesis using b by simp
  next
    assume "buf (irq_callback sign s) = b + 1" "b \<le> 99"
    then show ?thesis using b inc le_max_iff_disj by (simp, linarith)
  next
    assume "buf (irq_callback sign s) = b - 1" "b \<noteq> 0" then show ?thesis using b dec by simp
  qed
  then show ?thesis using other by simp
qed

text \<open>Counts are at least 51 iterations apart: a potential that grows by at most one per iteration.\<close>

definition people_inv :: "nat \<Rightarrow> hardware \<Rightarrow> bool" where
  "people_inv k w \<longleftrightarrow> n_flag w \<in> {0, 1} \<and> count_n w \<le> 50 \<and> (n_flag w = 0 \<longrightarrow> count_n w = 0) \<and>
     51 * unat (people_number w) \<le>
       k + (if n_flag w = 1 then (if count_n w = 0 then 0 else 51 - unat (count_n w)) else 0)"

lemma people_inv_step:
  assumes "people_inv k w"
  shows "people_inv (Suc k) (people_count w d)"
proof -
  obtain p c f where w: "w = \<lparr>people_number = p, count_n = c, n_flag = f\<rparr>" by (cases w)
  have n: "unat (c + 1) = Suc (unat c)" if "unat c < 50"
    using unat_inc_less [of c 50] that by (simp add: word_less_nat_alt)
  have p: "unat (p + 1) \<le> Suc (unat p)"
    by (simp add: unat_word_ariths mod_less_eq_dividend [THEN order_trans])
  have c: "unat c \<le> 50" "c = 0 \<longleftrightarrow> unat c = 0" "50 \<le> c \<longleftrightarrow> unat c = 50"
    using assms by (auto simp: w people_inv_def word_le_nat_alt unat_eq_0)
  have f: "f = 0 \<or> f = 1" using assms by (simp add: w people_inv_def)
  show ?thesis
  proof (cases "unat c = 50")
    case True
    then show ?thesis using assms f c by (auto simp: w people_inv_def people_count_def)
  next
    case False
    then have l: "unat c < 50" using c(1) by simp
    then have "c + 1 \<le> 50" "c + 1 \<noteq> 0" using n by (auto simp: word_le_nat_alt unat_eq_0 [symmetric])
    then show ?thesis using assms f c n [OF l] p l
      by (cases "d \<and> c = 0") (auto simp: w people_inv_def people_count_def Let_def)
  qed
qed

definition people_next :: "nat \<times> hardware \<Rightarrow> bool \<Rightarrow> nat \<times> hardware" where
  "people_next s d = (Suc (fst s), people_count (snd s) d)"

interpretation people_thread: guarded_system "(0, hardware_start)" people_next "\<lambda>_. True" "\<lambda>s. people_inv (fst s) (snd s)"
proof unfold_locales
  show "people_inv (fst (0, hardware_start)) (snd (0, hardware_start))"
    by (simp add: people_inv_def hardware_start_def)
qed (simp add: people_next_def people_inv_step)

lemma people_next_run: "run_steps people_next (k, w) ds = (k + length ds, run_steps people_count w ds)"
  by (induction ds arbitrary: k w) (simp_all add: people_next_def)

text \<open>
  The people counter: for every sequence of detector levels, in \<open>k\<close> iterations at most one person
  per 51 iterations is counted (rounding up), so a person standing in the beam is not counted on
  every iteration.
\<close>

theorem people_count_rate:
  "unat (people_number (run_steps people_count hardware_start ds)) \<le> (length ds + 50) div 51"
proof -
  have "people_inv (length ds) (run_steps people_count hardware_start ds)"
    using people_thread.inv_run [of ds] by (simp add: people_next_run list_all_iff)
  then have "51 * unat (people_number (run_steps people_count hardware_start ds)) \<le> length ds + 50"
    by (auto simp: people_inv_def unat_eq_0 [symmetric] split: if_splits)
  then show ?thesis by simp
qed

end
