(* ===== verification/RingBuffer.thy ===== *)
theory RingBuffer
  imports Prelude
begin

text \<open>
  The byte ring buffer of the device drivers (\<open>rt-thread/components/drivers/ipc/ringbuffer.c\<close>): 15-bit
  indices with one mirror bit each, so that full and empty differ. The operations refine a bounded
  queue of bytes; the interface \<open>byte_fifo\<close> states what a client may rely on.
\<close>

section \<open>Copies\<close>

text \<open>\<open>rt_memcpy\<close> with a length computed as an \<open>int\<close>: outside either array it is a fault.\<close>

definition copy_in :: "u8 list \<Rightarrow> int \<Rightarrow> u8 list \<Rightarrow> int \<Rightarrow> int \<Rightarrow> fault + u8 list" where
  "copy_in dst doff src soff n =
     (if 0 \<le> n \<and> 0 \<le> doff \<and> 0 \<le> soff \<and> doff + n \<le> int (length dst) \<and> soff + n \<le> int (length src)
      then Inr (take (nat doff) dst @ take (nat n) (drop (nat soff) src) @ drop (nat (doff + n)) dst)
      else Inl OutOfBounds)"

definition copy_out :: "u8 list \<Rightarrow> int \<Rightarrow> int \<Rightarrow> fault + u8 list" where
  "copy_out src soff n =
     (if 0 \<le> n \<and> 0 \<le> soff \<and> soff + n \<le> int (length src) then Inr (take (nat n) (drop (nat soff) src))
      else Inl OutOfBounds)"

section \<open>State and operations\<close>

record ring =
  buffer_ptr :: "u8 list"
  read_mirror :: bool
  read_index :: "15 word"
  write_mirror :: bool
  write_index :: "15 word"
  buffer_size :: int

datatype rt_ringbuffer_state = RT_RINGBUFFER_EMPTY | RT_RINGBUFFER_FULL | RT_RINGBUFFER_HALFFULL

definition rt_ringbuffer_status :: "ring \<Rightarrow> rt_ringbuffer_state" where
  "rt_ringbuffer_status rb =
     (if read_index rb = write_index rb then
        (if read_mirror rb = write_mirror rb then RT_RINGBUFFER_EMPTY else RT_RINGBUFFER_FULL)
      else RT_RINGBUFFER_HALFFULL)"

text \<open>\<open>RT_ALIGN_DOWN(size, 4)\<close>\<close>

definition align_down4 :: "int \<Rightarrow> int" where
  "align_down4 n = n AND NOT 3"

definition rt_ringbuffer_init :: "u8 list \<Rightarrow> int \<Rightarrow> fault + ring" where
  "rt_ringbuffer_init pool sz =
     (if sz > 0 then
        Inr \<lparr>buffer_ptr = pool, read_mirror = False, read_index = 0, write_mirror = False, write_index = 0,
             buffer_size = align_down4 sz\<rparr>
      else Inl AssertFailed)"

definition rt_ringbuffer_get_size :: "ring \<Rightarrow> u16" where
  "rt_ringbuffer_get_size rb = of_int (buffer_size rb)"

definition rt_ringbuffer_data_len :: "ring \<Rightarrow> u32" where
  "rt_ringbuffer_data_len rb =
     (case rt_ringbuffer_status rb of
        RT_RINGBUFFER_EMPTY \<Rightarrow> 0
      | RT_RINGBUFFER_FULL \<Rightarrow> of_int (buffer_size rb)
      | RT_RINGBUFFER_HALFFULL \<Rightarrow>
          (let wi = ucast (write_index rb); ri = ucast (read_index rb)
           in if wi > ri then wi - ri else of_int (buffer_size rb) - (ri - wi)))"

definition rt_ringbuffer_space_len :: "ring \<Rightarrow> u32" where
  "rt_ringbuffer_space_len rb = of_int (buffer_size rb) - rt_ringbuffer_data_len rb"

definition rt_ringbuffer_put :: "ring \<Rightarrow> u8 list \<Rightarrow> u16 \<Rightarrow> fault + u32 \<times> ring" where
  "rt_ringbuffer_put rb ptr len =
     (let size = ucast (rt_ringbuffer_space_len rb) :: u16
      in if size = 0 then Inr (0, rb)
         else
           (let len = (if size < len then size else len);
                wi = uint (write_index rb); n = buffer_size rb - wi
            in if n > uint len then
                 bind_err (copy_in (buffer_ptr rb) wi ptr 0 (uint len)) (\<lambda>m.
                   Inr (ucast len, rb\<lparr>buffer_ptr := m, write_index := write_index rb + ucast len\<rparr>))
               else
                 bind_err (copy_in (buffer_ptr rb) wi ptr 0 n) (\<lambda>m.
                 bind_err (copy_in m 0 ptr n (uint len - n)) (\<lambda>m.
                   Inr (ucast len, rb\<lparr>buffer_ptr := m, write_mirror := \<not> write_mirror rb,
                                     write_index := of_int (uint len - n)\<rparr>)))))"

definition rt_ringbuffer_put_force :: "ring \<Rightarrow> u8 list \<Rightarrow> u16 \<Rightarrow> fault + u32 \<times> ring" where
  "rt_ringbuffer_put_force rb ptr len =
     (let space_length = ucast (rt_ringbuffer_space_len rb) :: u16;
          (ptr, len) = (if uint len > buffer_size rb
                        then (drop (nat (uint len - buffer_size rb)) ptr, of_int (buffer_size rb)) else (ptr, len));
          wi = uint (write_index rb); n = buffer_size rb - wi
      in if n > uint len then
           bind_err (copy_in (buffer_ptr rb) wi ptr 0 (uint len)) (\<lambda>m.
             let rb = rb\<lparr>buffer_ptr := m, write_index := write_index rb + ucast len\<rparr>;
                 rb = (if len > space_length then rb\<lparr>read_index := write_index rb\<rparr> else rb)
             in Inr (ucast len, rb))
         else
           bind_err (copy_in (buffer_ptr rb) wi ptr 0 n) (\<lambda>m.
           bind_err (copy_in m 0 ptr n (uint len - n)) (\<lambda>m.
             let rb = rb\<lparr>buffer_ptr := m, write_mirror := \<not> write_mirror rb,
                         write_index := of_int (uint len - n)\<rparr>;
                 rb = (if len > space_length
                       then (let rb = (if write_index rb \<le> read_index rb
                                       then rb\<lparr>read_mirror := \<not> read_mirror rb\<rparr> else rb)
                             in rb\<lparr>read_index := write_index rb\<rparr>)
                       else rb)
             in Inr (ucast len, rb))))"

text \<open>The bytes copied to the caller's buffer are part of the result.\<close>

definition rt_ringbuffer_get :: "ring \<Rightarrow> u16 \<Rightarrow> fault + u32 \<times> u8 list \<times> ring" where
  "rt_ringbuffer_get rb len =
     (let size = rt_ringbuffer_data_len rb
      in if size = 0 then Inr (0, [], rb)
         else
           (let len = (if size < ucast len then ucast size else len);
                ri = uint (read_index rb); n = buffer_size rb - ri
            in if n > uint len then
                 bind_err (copy_out (buffer_ptr rb) ri (uint len)) (\<lambda>d.
                   Inr (ucast len, d, rb\<lparr>read_index := read_index rb + ucast len\<rparr>))
               else
                 bind_err (copy_out (buffer_ptr rb) ri n) (\<lambda>d1.
                 bind_err (copy_out (buffer_ptr rb) 0 (uint len - n)) (\<lambda>d2.
                   Inr (ucast len, d1 @ d2, rb\<lparr>read_mirror := \<not> read_mirror rb,
                                                read_index := of_int (uint len - n)\<rparr>)))))"

text \<open>The pointer handed out is an offset into the buffer.\<close>

definition rt_ringbuffer_peak :: "ring \<Rightarrow> u32 \<times> nat option \<times> ring" where
  "rt_ringbuffer_peak rb =
     (let size = rt_ringbuffer_data_len rb
      in if size = 0 then (0, None, rb)
         else
           (let ptr = Some (unat (read_index rb)); n = of_int (buffer_size rb - uint (read_index rb)) :: u32
            in if n > size then (size, ptr, rb\<lparr>read_index := read_index rb + ucast size\<rparr>)
               else (n, ptr, rb\<lparr>read_mirror := \<not> read_mirror rb, read_index := 0\<rparr>)))"

definition rt_ringbuffer_putchar :: "ring \<Rightarrow> u8 \<Rightarrow> fault + u32 \<times> ring" where
  "rt_ringbuffer_putchar rb ch =
     (if rt_ringbuffer_space_len rb = 0 then Inr (0, rb)
      else
        bind_err (arr_set (buffer_ptr rb) (unat (write_index rb)) ch) (\<lambda>m.
          let rb = rb\<lparr>buffer_ptr := m\<rparr>
          in Inr (1, if uint (write_index rb) = buffer_size rb - 1
                     then rb\<lparr>write_mirror := \<not> write_mirror rb, write_index := 0\<rparr>
                     else rb\<lparr>write_index := write_index rb + 1\<rparr>)))"

definition rt_ringbuffer_putchar_force :: "ring \<Rightarrow> u8 \<Rightarrow> fault + u32 \<times> ring" where
  "rt_ringbuffer_putchar_force rb ch =
     (let old_state = rt_ringbuffer_status rb in
      bind_err (arr_set (buffer_ptr rb) (unat (write_index rb)) ch) (\<lambda>m.
        let rb = rb\<lparr>buffer_ptr := m\<rparr>
        in Inr (1, if uint (write_index rb) = buffer_size rb - 1
                   then (let rb = rb\<lparr>write_mirror := \<not> write_mirror rb, write_index := 0\<rparr>
                         in if old_state = RT_RINGBUFFER_FULL
                            then rb\<lparr>read_mirror := \<not> read_mirror rb, read_index := write_index rb\<rparr> else rb)
                   else (let rb = rb\<lparr>write_index := write_index rb + 1\<rparr>
                         in if old_state = RT_RINGBUFFER_FULL then rb\<lparr>read_index := write_index rb\<rparr> else rb))))"

definition rt_ringbuffer_getchar :: "ring \<Rightarrow> fault + u32 \<times> u8 option \<times> ring" where
  "rt_ringbuffer_getchar rb =
     (if rt_ringbuffer_data_len rb = 0 then Inr (0, None, rb)
      else
        bind_err (arr_get (buffer_ptr rb) (unat (read_index rb))) (\<lambda>ch.
          Inr (1, Some ch, if uint (read_index rb) = buffer_size rb - 1
                           then rb\<lparr>read_mirror := \<not> read_mirror rb, read_index := 0\<rparr>
                           else rb\<lparr>read_index := read_index rb + 1\<rparr>)))"

definition rt_ringbuffer_reset :: "ring \<Rightarrow> ring" where
  "rt_ringbuffer_reset rb =
     rb\<lparr>read_mirror := False, read_index := 0, write_mirror := False, write_index := 0\<rparr>"

text \<open>
  \<open>rt_ringbuffer_create\<close>: \<open>rb_mem\<close> tells whether the control block could be allocated and \<open>pool_mem\<close>
  is the answer of \<open>rt_malloc\<close> for the aligned size. The last argument of \<open>rt_ringbuffer_init\<close> is a
  signed 16-bit number.
\<close>

definition rt_ringbuffer_create :: "bool \<Rightarrow> (u16 \<Rightarrow> u8 list option) \<Rightarrow> u16 \<Rightarrow> fault + ring option" where
  "rt_ringbuffer_create rb_mem pool_mem sz =
     (if sz > 0 then
        (let size = of_int (align_down4 (uint sz)) :: u16
         in if \<not> rb_mem then Inr None
            else (case pool_mem size of None \<Rightarrow> Inr None
                  | Some pool \<Rightarrow> bind_err (rt_ringbuffer_init pool (sint size)) (\<lambda>rb. Inr (Some rb))))
      else Inl AssertFailed)"

section \<open>The queue behind a ring\<close>

definition cap :: "ring \<Rightarrow> nat" where
  "cap rb = nat (buffer_size rb)"

definition ring_len :: "ring \<Rightarrow> nat" where
  "ring_len rb =
     (if read_mirror rb = write_mirror rb then unat (write_index rb) - unat (read_index rb)
      else cap rb + unat (write_index rb) - unat (read_index rb))"

definition ring_inv :: "ring \<Rightarrow> bool" where
  "ring_inv rb \<longleftrightarrow> 0 < buffer_size rb \<and> buffer_size rb < 32768 \<and> cap rb \<le> length (buffer_ptr rb) \<and>
     unat (read_index rb) < cap rb \<and> unat (write_index rb) < cap rb \<and>
     (if read_mirror rb = write_mirror rb then unat (read_index rb) \<le> unat (write_index rb)
      else unat (write_index rb) \<le> unat (read_index rb))"

definition contents :: "ring \<Rightarrow> u8 list" where
  "contents rb = map (\<lambda>i. buffer_ptr rb ! ((unat (read_index rb) + i) mod cap rb)) [0..<ring_len rb]"

lemma length_contents [simp]: "length (contents rb) = ring_len rb"
  by (simp add: contents_def)

lemma ring_len_le: "ring_inv rb \<Longrightarrow> ring_len rb \<le> cap rb"
  by (auto simp: ring_inv_def ring_len_def split: if_splits)

section \<open>Positions\<close>

text \<open>
  A ring whose first unread byte is at \<open>r\<close> and that holds \<open>l\<close> bytes. Every operation is described by
  how it moves \<open>r\<close> and \<open>l\<close>.
\<close>

definition ring_at :: "ring \<Rightarrow> nat \<Rightarrow> nat \<Rightarrow> bool" where
  "ring_at rb r l \<longleftrightarrow> 0 < buffer_size rb \<and> buffer_size rb < 32768 \<and> cap rb \<le> length (buffer_ptr rb) \<and>
     unat (read_index rb) = r \<and> r < cap rb \<and> l \<le> cap rb \<and>
     unat (write_index rb) = (r + l) mod cap rb \<and> (read_mirror rb = write_mirror rb) = (r + l < cap rb)"

lemma mod_two: "x < 2 * c \<Longrightarrow> x mod c = (if x < c then x else x - (c :: nat))"
  by (simp add: le_mod_geq)

lemma ring_inv_at: "ring_inv rb \<Longrightarrow> ring_at rb (unat (read_index rb)) (ring_len rb)"
  by (auto simp: ring_inv_def ring_at_def ring_len_def le_mod_geq split: if_splits)

lemma ring_at_inv:
  assumes "ring_at rb r l"
  shows "ring_inv rb" "ring_len rb = l" "unat (read_index rb) = r"
proof -
  have "(r + l) mod cap rb = (if r + l < cap rb then r + l else r + l - cap rb)"
    using assms by (intro mod_two) (auto simp: ring_at_def)
  then show "ring_inv rb" "ring_len rb = l" "unat (read_index rb) = r"
    using assms by (auto simp: ring_inv_def ring_at_def ring_len_def split: if_splits)
qed

lemma ring_at_contents:
  "ring_at rb r l \<Longrightarrow> contents rb = map (\<lambda>i. buffer_ptr rb ! ((r + i) mod cap rb)) [0..<l]"
  by (simp add: contents_def ring_at_inv)

lemma cap_bounds: "ring_inv rb \<Longrightarrow> 0 < cap rb \<and> cap rb < 32768 \<and> buffer_size rb = int (cap rb)"
  by (auto simp: ring_inv_def cap_def)

section \<open>Lengths as the code computes them\<close>

lemma unat_15_lt: "unat (w :: 15 word) < 32768"
  using unsigned_less [of w, where 'a = nat] by simp

lemma unat_ucast_15_32 [simp]: "unat (ucast (w :: 15 word) :: u32) = unat w"
  using unat_15_lt [of w] by (simp add: unsigned_ucast_eq take_bit_nat_eq_self_iff)

lemma unat_of_int_32: "0 \<le> n \<Longrightarrow> n < 4294967296 \<Longrightarrow> unat (of_int n :: u32) = nat n"
  by (simp add: unsigned_of_int take_bit_int_eq_self)

lemma data_len_nat:
  assumes "ring_inv rb"
  shows "unat (rt_ringbuffer_data_len rb) = ring_len rb"
proof -
  have c: "unat (of_int (buffer_size rb) :: u32) = cap rb"
    using assms by (simp add: ring_inv_def unat_of_int_32 cap_def)
  have r: "unat (read_index rb) < cap rb" using assms by (simp add: ring_inv_def)
  let ?wi = "ucast (write_index rb) :: u32" and ?ri = "ucast (read_index rb) :: u32"
  have d: "?wi > ?ri \<Longrightarrow> unat (?wi - ?ri) = unat (write_index rb) - unat (read_index rb)"
    by (simp add: unat_sub)
  have e: "unat (of_int (buffer_size rb) - (?ri - ?wi)) = cap rb - (unat (read_index rb) - unat (write_index rb))"
    if "?wi \<le> ?ri"
  proof -
    have "unat (?ri - ?wi) = unat (read_index rb) - unat (write_index rb)" using that by (simp add: unat_sub)
    moreover from this have "?ri - ?wi \<le> of_int (buffer_size rb)"
      using r c by (simp add: word_le_nat_alt)
    ultimately show ?thesis using c by (simp add: unat_sub)
  qed
  have o: "?wi > ?ri \<longleftrightarrow> unat (write_index rb) > unat (read_index rb)" by (simp add: word_less_nat_alt)
  have q: "read_index rb = write_index rb \<longleftrightarrow> unat (read_index rb) = unat (write_index rb)" by (simp add: word_unat_eq_iff)
  show ?thesis
    using assms c d e o q
    by (auto simp: rt_ringbuffer_data_len_def rt_ringbuffer_status_def ring_len_def ring_inv_def Let_def not_less
        split: if_splits)
qed

lemma space_len_nat:
  assumes "ring_inv rb"
  shows "unat (rt_ringbuffer_space_len rb) = cap rb - ring_len rb"
proof -
  have c: "unat (of_int (buffer_size rb) :: u32) = cap rb"
    using assms by (simp add: ring_inv_def unat_of_int_32 cap_def)
  have "rt_ringbuffer_data_len rb \<le> of_int (buffer_size rb)"
    using data_len_nat [OF assms] c ring_len_le [OF assms] by (simp add: word_le_nat_alt)
  then show ?thesis
    using data_len_nat [OF assms] c by (simp add: rt_ringbuffer_space_len_def unat_sub)
qed

section \<open>Writes as updates modulo the capacity\<close>

definition mod_write :: "u8 list \<Rightarrow> nat \<Rightarrow> nat \<Rightarrow> u8 list \<Rightarrow> u8 list" where
  "mod_write m c w xs =
     map (\<lambda>k. if k < c \<and> (k + c - w) mod c < length xs then xs ! ((k + c - w) mod c) else m ! k) [0..<length m]"

lemma length_mod_write [simp]: "length (mod_write m c w xs) = length m"
  by (simp add: mod_write_def)

lemma copy_flat:
  assumes "c \<le> length m" and "w + length xs < c"
  shows "take w m @ xs @ drop (w + length xs) m = mod_write m c w xs"
proof (rule nth_equalityI)
  fix i assume "i < length (take w m @ xs @ drop (w + length xs) m)"
  then have i: "i < length m" using assms by simp
  have "(i + c - w) mod c = (if i < w then i + c - w else i - w)" if "i < c"
    using that assms mod_two [of "i + c - w" c] by auto
  then show "(take w m @ xs @ drop (w + length xs) m) ! i = mod_write m c w xs ! i"
    using i assms by (auto simp: mod_write_def nth_append)
qed (use assms in simp)

lemma nth_three:
  "(a @ b @ d) ! i =
     (if i < length a then a ! i else if i < length a + length b then b ! (i - length a) else d ! (i - (length a + length b)))"
  by (auto simp: nth_append)

lemma copy_wrap:
  assumes "c \<le> length m" and "w < c" and "c \<le> w + length xs" and "length xs \<le> c"
  defines "m1 \<equiv> take w m @ take (c - w) xs @ drop c m"
  shows "drop (c - w) xs @ drop (length xs - (c - w)) m1 = mod_write m c w xs"
proof (rule nth_equalityI)
  show len: "length (drop (c - w) xs @ drop (length xs - (c - w)) m1) = length (mod_write m c w xs)"
    using assms by (simp add: m1_def)
  fix i assume "i < length (drop (c - w) xs @ drop (length xs - (c - w)) m1)"
  then have i: "i < length m" using len by simp
  have m: "(i + c - w) mod c = (if i < w then i + c - w else i - w)" if "i < c"
    using that assms mod_two [of "i + c - w" c] by auto
  have n: "length m1 = length m" using assms by (simp add: m1_def)
  have hi: "(drop (c - w) xs @ drop (length xs - (c - w)) m1) ! i = m1 ! i" if "length xs - (c - w) \<le> i"
    using that i n by (simp add: nth_append)
  have m1: "i < w \<Longrightarrow> m1 ! i = m ! i" "w \<le> i \<Longrightarrow> i < c \<Longrightarrow> m1 ! i = xs ! (i - w)" "c \<le> i \<Longrightarrow> m1 ! i = m ! i"
  proof -
    have l: "length (take w m) = w" "length (take (c - w) xs) = c - w" using assms(1-3) by simp_all
    have c: "w + (c - w) = c" using assms(2) by simp
    have e: "m1 ! i = (if i < w then take w m ! i else if i < c then take (c - w) xs ! (i - w) else drop c m ! (i - c))"
      unfolding m1_def using nth_three [of "take w m" "take (c - w) xs" "drop c m" i] unfolding l c .
    show "i < w \<Longrightarrow> m1 ! i = m ! i" by (simp add: e)
    show "w \<le> i \<Longrightarrow> i < c \<Longrightarrow> m1 ! i = xs ! (i - w)" by (simp add: e)
    show "c \<le> i \<Longrightarrow> m1 ! i = m ! i" using i assms(1,2) by (simp add: e)
  qed
  consider "i < length xs - (c - w)" | "length xs - (c - w) \<le> i" "i < w" | "w \<le> i" "i < c" | "c \<le> i" by linarith
  then show "(drop (c - w) xs @ drop (length xs - (c - w)) m1) ! i = mod_write m c w xs ! i"
  proof cases
    case 1
    then have "i < w" "i + c - w < length xs" "c - w + i = i + c - w" using assms(2-4) by linarith+
    then show ?thesis using 1 i m assms by (simp add: mod_write_def nth_append)
  next
    case 2
    then have "\<not> i + c - w < length xs" using assms(2,3) by linarith
    then show ?thesis using 2 i m m1(1) assms(2) hi [OF 2(1)] by (simp add: mod_write_def)
  next
    case 3
    then have "i - w < length xs" "length xs - (c - w) \<le> i" using assms(2,3,4) by linarith+
    then show ?thesis using 3 i m m1(2) hi by (simp add: mod_write_def)
  next
    case 4
    then have "length xs - (c - w) \<le> i" using assms(2,4) by linarith
    then show ?thesis using 4 i m1(3) hi by (simp add: mod_write_def)
  qed
qed

lemma mod_shift:
  "r < c \<Longrightarrow> i < c \<Longrightarrow> l \<le> c \<Longrightarrow> ((r + i) mod c + c - (r + l) mod c) mod c = (i + c - l) mod (c :: nat)"
  using mod_two [of "r + i" c] mod_two [of "r + l" c] mod_two [of "i + c - l" c]
  by (auto simp: mod_if)

lemma copy_in_flat:
  assumes "c \<le> length m" and "w + n < c" and "n \<le> length p"
  shows "copy_in m (int w) p 0 (int n) = Inr (mod_write m c w (take n p))"
  using copy_flat [OF assms(1), of w "take n p"] assms
  by (simp add: copy_in_def nat_add_distrib flip: of_nat_add)

lemma copy_in_wrap:
  assumes "c \<le> length m" and "w < c" and "c \<le> w + n" and "n \<le> c" and "n \<le> length p"
  shows "\<exists>m1. copy_in m (int w) p 0 (int c - int w) = Inr m1 \<and>
     copy_in m1 0 p (int c - int w) (int n - (int c - int w)) = Inr (mod_write m c w (take n p))"
proof -
  define k where "k = c - w"
  define m1 where "m1 = take w m @ take k p @ drop c m"
  have k: "w + k = c" "k \<le> n" "int c - int w = int k" "int n - int k = int (n - k)"
    using assms by (simp_all add: k_def of_nat_diff)
  have nk: "nat (int w + int k) = c" "int w + int k = int c" using k(1) by auto
  have kp: "k \<le> length p" using k(2) assms(5) by simp
  have l: "length m1 = length m" using assms k by (simp add: m1_def)
  have t: "take k (take n p) = take k p" "drop k (take n p) = take (n - k) (drop k p)"
    using k(2) by (simp_all add: min.absorb1 drop_take)
  have 1: "copy_in m (int w) p 0 (int k) = Inr m1"
    using nk kp assms(1) by (simp add: copy_in_def m1_def)
  have w: "drop k (take n p) @ drop (n - k) (take w m @ take k (take n p) @ drop c m) = mod_write m c w (take n p)"
    using copy_wrap [OF assms(1,2), of "take n p"] assms by (simp add: k_def)
  have "n - k + k \<le> length p" "n - k \<le> length m1" using k assms l by linarith+
  then have 2: "copy_in m1 0 p (int k) (int (n - k)) = Inr (mod_write m c w (take n p))"
    using w k(2) unfolding t by (simp add: copy_in_def m1_def [symmetric] del: of_nat_diff flip: of_nat_add)
  show ?thesis using 1 2 unfolding k(3,4) by blast
qed

lemma contents_write:
  assumes "ring_at rb r l" and "ring_at rb' r (l + length xs)" and "buffer_size rb' = buffer_size rb"
    and "buffer_ptr rb' = mod_write (buffer_ptr rb) (cap rb) ((r + l) mod cap rb) xs"
  shows "contents rb' = contents rb @ xs"
proof (rule nth_equalityI)
  have c: "cap rb' = cap rb" using assms(3) by (simp add: cap_def)
  show "length (contents rb') = length (contents rb @ xs)"
    using assms(1,2) by (simp add: ring_at_inv)
  fix i assume "i < length (contents rb')"
  then have i: "i < l + length xs" using assms(2) by (simp add: ring_at_inv)
  have b: "r < cap rb" "l + length xs \<le> cap rb" "cap rb \<le> length (buffer_ptr rb)" "0 < cap rb"
    using assms(1,2) c by (auto simp: ring_at_def)
  have k: "((r + i) mod cap rb + cap rb - (r + l) mod cap rb) mod cap rb = (if i < l then i + cap rb - l else i - l)"
    using mod_shift [of r "cap rb" i l] mod_two [of "i + cap rb - l" "cap rb"] b i by auto
  have lt: "(r + i) mod cap rb < cap rb" using b(4) by simp
  show "contents rb' ! i = (contents rb @ xs) ! i"
    using i b k lt unfolding ring_at_contents [OF assms(1)] ring_at_contents [OF assms(2)] assms(4) c
    by (auto simp: mod_write_def nth_append less_le_trans [OF lt])
qed

lemma contents_overwrite:
  assumes "ring_at rb r l" and "ring_at rb' ((r + l + length xs) mod cap rb) (cap rb)"
    and "buffer_size rb' = buffer_size rb" and "length xs \<le> cap rb" and "cap rb < l + length xs"
    and "buffer_ptr rb' = mod_write (buffer_ptr rb) (cap rb) ((r + l) mod cap rb) xs"
  shows "contents rb' = drop (l + length xs - cap rb) (contents rb) @ xs"
proof (rule nth_equalityI)
  let ?n = "length xs"
  have c: "cap rb' = cap rb" using assms(3) by (simp add: cap_def)
  have b: "r < cap rb" "l \<le> cap rb" "cap rb \<le> length (buffer_ptr rb)" "0 < cap rb"
    using assms(1) by (auto simp: ring_at_def)
  show "length (contents rb') = length (drop (l + ?n - cap rb) (contents rb) @ xs)"
    using assms(1,2,4,5) b by (simp add: ring_at_inv)
  fix i assume "i < length (contents rb')"
  then have i: "i < cap rb" using assms(2) by (simp add: ring_at_inv)
  define j where "j = l + ?n + i - cap rb"
  have j: "j < 2 * cap rb" "l + ?n + i = j + cap rb" using i assms(4,5) b by (auto simp: j_def)
  have "((r + l + ?n) mod cap rb + i) mod cap rb = (r + (j + cap rb)) mod cap rb"
    by (simp add: mod_add_left_eq add.assoc flip: j(2))
  then have pos: "((r + l + ?n) mod cap rb + i) mod cap rb = (r + j) mod cap rb" by (simp add: add.assoc [symmetric])
  show "contents rb' ! i = (drop (l + ?n - cap rb) (contents rb) @ xs) ! i"
  proof (cases "j < l")
    case True
    have jc: "j < cap rb" using True b by linarith
    have "((r + j) mod cap rb + cap rb - (r + l) mod cap rb) mod cap rb = j + cap rb - l"
      using mod_shift [OF b(1) jc b(2)] mod_two [of "j + cap rb - l" "cap rb"] True b by auto
    moreover have "\<not> j + cap rb - l < ?n" using i assms(4,5) b True by (auto simp: j_def)
    moreover have "i < l - (l + ?n - cap rb)" "l + ?n - cap rb + i = j" using True assms(4,5) b by (auto simp: j_def)
    moreover have "(r + j) mod cap rb < length (buffer_ptr rb)" using b by (meson less_le_trans mod_less_divisor)
    ultimately show ?thesis
      using i True b unfolding ring_at_contents [OF assms(1)] ring_at_contents [OF assms(2)] assms(6) c
      by (simp add: pos mod_write_def nth_append)
  next
    case False
    have jl: "j - l < ?n" "j - l < cap rb" using i assms(4,5) b False by (auto simp: j_def)
    have "((r + j) mod cap rb + cap rb - (r + l) mod cap rb) mod cap rb = j - l"
    proof (cases "j < cap rb")
      case True
      then show ?thesis
        using mod_shift [OF b(1) True b(2)] mod_two [of "j + cap rb - l" "cap rb"] False jl by auto
    next
      case False': False
      then have "(r + j) mod cap rb = (r + (j - cap rb)) mod cap rb" "j - cap rb < cap rb"
        using j(1) by (simp_all add: le_mod_geq)
      then show ?thesis
        using mod_shift [OF b(1) _ b(2), of "j - cap rb"] False' jl by simp
    qed
    moreover have "\<not> i < l - (l + ?n - cap rb)" "i - (l - (l + ?n - cap rb)) = j - l"
      using False assms(4,5) b by (auto simp: j_def)
    moreover have "(r + j) mod cap rb < length (buffer_ptr rb)" using b by (meson less_le_trans mod_less_divisor)
    ultimately show ?thesis
      using i jl b unfolding ring_at_contents [OF assms(1)] ring_at_contents [OF assms(2)] assms(6) c
      by (simp add: pos mod_write_def nth_append)
  qed
qed

section \<open>Where each operation leaves the indices\<close>

text \<open>The write index after \<open>n\<close> bytes, in the two branches of the code.\<close>

lemma unat_of_int_15: "n < 32768 \<Longrightarrow> unat (of_int (int n) :: 15 word) = n"
  by (simp add: unsigned_of_nat take_bit_nat_eq_self)

lemma write_pos:
  assumes "ring_at rb r l" and "n \<le> cap rb" and "unat len = n"
  defines "w \<equiv> (r + l) mod cap rb"
  shows "uint (write_index rb) = int w" and "buffer_size rb = int (cap rb)" and "w < cap rb"
    and "w + n < cap rb \<Longrightarrow> unat (write_index rb + ucast (len :: u16)) = (r + l + n) mod cap rb"
    and "cap rb \<le> w + n \<Longrightarrow> unat (of_int (int n - (int (cap rb) - int w)) :: 15 word) = (r + l + n) mod cap rb"
    and "(w + n < cap rb) = ((r + l < cap rb) = (r + l + n < cap rb) \<and> \<not> cap rb + cap rb \<le> r + l + n)"
proof -
  have c: "0 < cap rb" "cap rb < 32768" "buffer_size rb = int (cap rb)"
    using cap_bounds [OF ring_at_inv(1) [OF assms(1)]] by simp_all
  have rl: "r < cap rb" "l \<le> cap rb" "unat (write_index rb) = w" using assms(1) by (simp_all add: ring_at_def w_def)
  show "uint (write_index rb) = int w" using rl(3) by (simp add: uint_nat)
  show "buffer_size rb = int (cap rb)" by (rule c(3))
  show w: "w < cap rb" using c(1) by (simp add: w_def)
  have wm: "w = (if r + l < cap rb then r + l else r + l - cap rb)"
    unfolding w_def using rl by (intro mod_two) simp
  have m: "(r + l + n) mod cap rb = (w + n) mod cap rb" by (simp add: w_def mod_add_left_eq)
  have len: "unat (ucast len :: 15 word) = n" if "n < 32768"
    using that assms(3) by (simp add: unsigned_ucast_eq take_bit_nat_eq_self)
  show "unat (write_index rb + ucast len) = (r + l + n) mod cap rb" if "w + n < cap rb"
    using that c len rl(3) m by (simp add: unat_word_ariths)
  show "unat (of_int (int n - (int (cap rb) - int w)) :: 15 word) = (r + l + n) mod cap rb" if "cap rb \<le> w + n"
  proof -
    have e: "int n - (int (cap rb) - int w) = int (w + n - cap rb)" using that by (simp add: of_nat_diff)
    have "w + n - cap rb < 32768" using w assms(2) c(2) by linarith
    then show ?thesis
      unfolding e m using that w assms(2) mod_two [of "w + n" "cap rb"]
      by (simp only: unat_of_int_15 if_not_P not_less)
  qed
  show "(w + n < cap rb) = ((r + l < cap rb) = (r + l + n < cap rb) \<and> \<not> cap rb + cap rb \<le> r + l + n)"
    using wm rl assms(2) by auto
qed

lemma ring_atI:
  assumes "ring_at rb r l" and "buffer_size rb' = buffer_size rb" and "length (buffer_ptr rb') = length (buffer_ptr rb)"
    and "unat (read_index rb') = r'" and "r' < cap rb" and "l' \<le> cap rb"
    and "unat (write_index rb') = (r' + l') mod cap rb"
    and "(read_mirror rb' = write_mirror rb') = (r' + l' < cap rb)"
  shows "ring_at rb' r' l'"
  using assms by (simp add: ring_at_def cap_def)

lemma unat_ucast_32_16: "unat x < 65536 \<Longrightarrow> unat (ucast (x :: u32) :: u16) = unat x"
  by (simp add: unsigned_ucast_eq take_bit_nat_eq_self)

lemma ucast_of_nat_16_32: "unat (len :: u16) = n \<Longrightarrow> (ucast len :: u32) = of_nat n"
  by (metis of_nat_unat)

lemma put_at:
  assumes "ring_at rb r l" and "unat len \<le> length ptr"
  defines "n \<equiv> min (unat len) (cap rb - l)"
  shows "\<exists>rb'. rt_ringbuffer_put rb ptr len = Inr (of_nat n, rb') \<and> ring_at rb' r (l + n) \<and>
     buffer_size rb' = buffer_size rb \<and> contents rb' = contents rb @ take n ptr"
proof -
  note inv = ring_at_inv [OF assms(1)]
  have c: "0 < cap rb" "cap rb < 32768" "l \<le> cap rb" "r < cap rb" "cap rb \<le> length (buffer_ptr rb)"
    using cap_bounds [OF inv(1)] assms(1) by (simp_all add: ring_at_def)
  define sz where "sz = (ucast (rt_ringbuffer_space_len rb) :: u16)"
  have sz: "unat sz = cap rb - l"
    using space_len_nat [OF inv(1)] inv(2) c by (simp add: sz_def unat_ucast_32_16)
  define ln where "ln = (if sz < len then sz else len)"
  have ln: "unat ln = n" by (auto simp: ln_def n_def sz word_less_nat_alt not_less)
  have un: "uint ln = int n" by (simp only: uint_nat ln)
  define w where "w = (r + l) mod cap rb"
  have n: "n \<le> cap rb" "n \<le> length ptr" "l + n \<le> cap rb" using assms(2) c by (auto simp: n_def)
  note wp = write_pos [OF assms(1) n(1) ln, folded w_def]
  have mir: "(w + n < cap rb) = ((r + l < cap rb) = (r + (l + n) < cap rb))"
    using wp(6) n(3) c(4) by (auto simp: add.assoc)
  have mo: "(read_mirror rb = write_mirror rb) = (r + l < cap rb)" "unat (read_index rb) = r"
    "(read_mirror rb = (\<not> write_mirror rb)) = (\<not> r + l < cap rb)"
    using assms(1) by (auto simp: ring_at_def)
  show ?thesis
  proof (cases "cap rb = l")
    case True
    then have "n = 0" "sz = 0" using sz by (simp_all add: n_def unat_eq_0)
    then show ?thesis using assms(1) by (simp add: rt_ringbuffer_put_def sz_def [symmetric])
  next
    case False
    then have sz0: "sz \<noteq> 0" using sz c by (auto simp: unat_eq_0 [symmetric])
    have body: "rt_ringbuffer_put rb ptr len =
      (if int (cap rb) - int w > int n then
         bind_err (copy_in (buffer_ptr rb) (int w) ptr 0 (int n)) (\<lambda>m.
           Inr (of_nat n, rb\<lparr>buffer_ptr := m, write_index := write_index rb + ucast ln\<rparr>))
       else
         bind_err (copy_in (buffer_ptr rb) (int w) ptr 0 (int (cap rb) - int w)) (\<lambda>m.
         bind_err (copy_in m 0 ptr (int (cap rb) - int w) (int n - (int (cap rb) - int w))) (\<lambda>m.
           Inr (of_nat n, rb\<lparr>buffer_ptr := m, write_mirror := \<not> write_mirror rb,
                             write_index := of_int (int n - (int (cap rb) - int w))\<rparr>))))"
      using sz0 unfolding rt_ringbuffer_put_def Let_def sz_def [symmetric] ln_def [symmetric]
        wp(1,2) un ucast_of_nat_16_32 [OF ln] by simp
    show ?thesis
    proof (cases "w + n < cap rb")
      case True
      let ?rb = "rb\<lparr>buffer_ptr := mod_write (buffer_ptr rb) (cap rb) w (take n ptr),
                    write_index := write_index rb + ucast ln\<rparr>"
      have at: "ring_at ?rb r (l + n)"
        by (rule ring_atI [OF assms(1)]) (use wp(4) [OF True] mir True n c mo in \<open>simp_all add: add.assoc\<close>)
      have "contents ?rb = contents rb @ take n ptr"
        using at n by (intro contents_write [OF assms(1)]) (simp_all add: w_def)
      then show ?thesis
        using True copy_in_flat [OF c(5) True n(2)] at by (simp add: body)
    next
      case False
      then have wr: "cap rb \<le> w + n" by simp
      let ?rb = "rb\<lparr>buffer_ptr := mod_write (buffer_ptr rb) (cap rb) w (take n ptr),
                    write_mirror := \<not> write_mirror rb,
                    write_index := of_int (int n - (int (cap rb) - int w))\<rparr>"
      have at: "ring_at ?rb r (l + n)"
        by (rule ring_atI [OF assms(1)]) (use wp(5) [OF wr] mir False n c mo in \<open>simp_all add: add.assoc\<close>)
      have "contents ?rb = contents rb @ take n ptr"
        using at n by (intro contents_write [OF assms(1)]) (simp_all add: w_def)
      then show ?thesis
        using False copy_in_wrap [OF c(5) wp(3) wr n(1,2)] at by (auto simp: body)
    qed
  qed
qed

lemma put_force_at:
  assumes "ring_at rb r l" and "unat len \<le> length ptr"
  defines "n \<equiv> min (unat len) (cap rb)"
  defines "xs \<equiv> take n (drop (unat len - n) ptr)"
  shows "\<exists>rb'. rt_ringbuffer_put_force rb ptr len = Inr (of_nat n, rb') \<and> ring_inv rb' \<and>
     buffer_size rb' = buffer_size rb \<and> contents rb' = drop (l + n - cap rb) (contents rb) @ xs"
proof -
  note inv = ring_at_inv [OF assms(1)]
  have c: "0 < cap rb" "cap rb < 32768" "l \<le> cap rb" "r < cap rb" "cap rb \<le> length (buffer_ptr rb)"
    and bs: "buffer_size rb = int (cap rb)"
    using cap_bounds [OF inv(1)] assms(1) by (simp_all add: ring_at_def)
  define sz where "sz = (ucast (rt_ringbuffer_space_len rb) :: u16)"
  have sz: "unat sz = cap rb - l"
    using space_len_nat [OF inv(1)] inv(2) c by (simp add: sz_def unat_ucast_32_16)
  define p where "p = drop (unat len - n) ptr"
  define ln where "ln = (if uint len > int (cap rb) then of_nat (cap rb) else len)"
  have ul: "uint len = int (unat len)" by (simp only: uint_nat)
  have gtc: "(uint len > int (cap rb)) = (unat len > cap rb)" by (simp only: ul of_nat_less_iff)
  have uc: "unat (of_nat (cap rb) :: u16) = cap rb"
    using c(2) by (simp add: unsigned_of_nat take_bit_nat_eq_self)
  have dc: "nat (uint len - int (cap rb)) = unat len - cap rb"
    unfolding ul by (metis nat_diff_distrib' of_nat_0_le_iff nat_int)
  have ln: "unat ln = n"
    using uc unfolding ln_def gtc n_def by (cases "unat len > cap rb") simp_all
  have un: "uint ln = int n" by (simp only: uint_nat ln)
  have pl: "(if uint len > int (cap rb) then (drop (nat (uint len - int (cap rb))) ptr, of_nat (cap rb)) else (ptr, len)) = (p, ln)"
    unfolding ln_def gtc p_def n_def dc by (cases "unat len > cap rb") simp_all
  define w where "w = (r + l) mod cap rb"
  have n: "n \<le> cap rb" "n \<le> length p" using assms(2) by (auto simp: n_def p_def)
  have xs: "xs = take n p" "length xs = n" using n(2) by (simp_all add: xs_def p_def)
  note wp = write_pos [OF assms(1) n(1) ln, folded w_def]
  have gt: "ln > sz \<longleftrightarrow> cap rb < l + n" using sz ln c by (auto simp: word_less_nat_alt)
  have mo: "(read_mirror rb = write_mirror rb) = (r + l < cap rb)" "unat (read_index rb) = r"
    "(read_mirror rb = (\<not> write_mirror rb)) = (\<not> r + l < cap rb)"
    using assms(1) by (auto simp: ring_at_def)
  have wm: "w = (if r + l < cap rb then r + l else r + l - cap rb)"
    unfolding w_def using c by (intro mod_two) simp
  have pos: "(r + (l + n)) mod cap rb = (w + n) mod cap rb" by (simp add: w_def mod_add_left_eq add.assoc)
  have body: "rt_ringbuffer_put_force rb ptr len =
      (if int (cap rb) - int w > int n then
         bind_err (copy_in (buffer_ptr rb) (int w) p 0 (int n)) (\<lambda>m.
           let rb = rb\<lparr>buffer_ptr := m, write_index := write_index rb + ucast ln\<rparr>;
               rb = (if ln > sz then rb\<lparr>read_index := write_index rb\<rparr> else rb)
           in Inr (of_nat n, rb))
       else
         bind_err (copy_in (buffer_ptr rb) (int w) p 0 (int (cap rb) - int w)) (\<lambda>m.
         bind_err (copy_in m 0 p (int (cap rb) - int w) (int n - (int (cap rb) - int w))) (\<lambda>m.
           let rb = rb\<lparr>buffer_ptr := m, write_mirror := \<not> write_mirror rb,
                       write_index := of_int (int n - (int (cap rb) - int w))\<rparr>;
               rb = (if ln > sz
                     then (let rb = (if write_index rb \<le> read_index rb
                                     then rb\<lparr>read_mirror := \<not> read_mirror rb\<rparr> else rb)
                           in rb\<lparr>read_index := write_index rb\<rparr>)
                     else rb)
           in Inr (of_nat n, rb))))"
    unfolding rt_ringbuffer_put_force_def Let_def sz_def [symmetric] bs of_int_of_nat_eq pl prod.case
      wp(1) un ucast_of_nat_16_32 [OF ln] ..
  let ?b = "mod_write (buffer_ptr rb) (cap rb) w xs"
  show ?thesis
  proof (cases "w + n < cap rb")
    case True
    let ?rb = "rb\<lparr>buffer_ptr := ?b, write_index := write_index rb + ucast ln\<rparr>"
    let ?rb' = "if cap rb < l + n then ?rb\<lparr>read_index := write_index ?rb\<rparr> else ?rb"
    have res: "rt_ringbuffer_put_force rb ptr len = Inr (of_nat n, ?rb')"
      using True copy_in_flat [OF c(5) True n(2)] by (simp add: body gt Let_def xs(1))
    show ?thesis
    proof (cases "cap rb < l + n")
      case False
      have at: "ring_at ?rb r (l + n)"
        by (rule ring_atI [OF assms(1)]) (use wp(4) [OF True] wm True False c mo in \<open>auto simp: add.assoc\<close>)
      have "contents ?rb = contents rb @ xs"
        using at xs(2) by (intro contents_write [OF assms(1)]) (simp_all add: w_def)
      then show ?thesis using res ring_at_inv(1) [OF at] False by simp
    next
      case ov: True
      have at: "ring_at ?rb' ((r + l + n) mod cap rb) (cap rb)"
        by (rule ring_atI [OF assms(1)]) (use wp(4) [OF True] wm True ov c mo in \<open>auto\<close>)
      have "contents ?rb' = drop (l + n - cap rb) (contents rb) @ xs"
        using contents_overwrite [OF assms(1), of ?rb' xs] at xs(2) n ov by (simp add: w_def)
      then show ?thesis using res ring_at_inv(1) [OF at] ov by simp
    qed
  next
    case False
    then have wr: "cap rb \<le> w + n" by simp
    let ?rb = "rb\<lparr>buffer_ptr := ?b, write_mirror := \<not> write_mirror rb,
                  write_index := of_int (int n - (int (cap rb) - int w))\<rparr>"
    let ?rb1 = "if write_index ?rb \<le> read_index rb then ?rb\<lparr>read_mirror := \<not> read_mirror rb\<rparr> else ?rb"
    let ?rb' = "if cap rb < l + n then ?rb1\<lparr>read_index := write_index ?rb\<rparr> else ?rb"
    have res: "rt_ringbuffer_put_force rb ptr len = Inr (of_nat n, ?rb')"
      using False copy_in_wrap [OF c(5) wp(3) wr n(1,2)] by (auto simp: body gt Let_def xs(1))
    note wi = wp(5) [OF wr]
    show ?thesis
    proof (cases "cap rb < l + n")
      case False
      have at: "ring_at ?rb r (l + n)"
        by (rule ring_atI [OF assms(1)]) (use wi wm wr False c mo in \<open>auto simp: add.assoc\<close>)
      have "contents ?rb = contents rb @ xs"
        using at xs(2) by (intro contents_write [OF assms(1)]) (simp_all add: w_def)
      then show ?thesis using res ring_at_inv(1) [OF at] False by simp
    next
      case ov: True
      have "(write_index ?rb \<le> read_index rb) = ((w + n) mod cap rb \<le> r)"
        using wi mo(2) pos by (simp add: word_le_nat_alt add.assoc)
      moreover have "(w + n) mod cap rb = w + n - cap rb" using wr mod_two [of "w + n" "cap rb"] wp(3) n(1) by simp
      ultimately have le: "(write_index ?rb \<le> read_index rb) = (\<not> r + l < cap rb)"
        using wm ov n c by auto
      have at: "ring_at ?rb' ((r + l + n) mod cap rb) (cap rb)"
        by (rule ring_atI [OF assms(1)]) (use wi le ov c mo in \<open>auto\<close>)
      have "contents ?rb' = drop (l + n - cap rb) (contents rb) @ xs"
        using contents_overwrite [OF assms(1), of ?rb' xs] at xs(2) n ov by (simp add: w_def)
      then show ?thesis using res ring_at_inv(1) [OF at] ov by simp
    qed
  qed
qed

section \<open>Reads\<close>

lemma contents_skip:
  assumes "ring_at rb r l" and "ring_at rb' ((r + n) mod cap rb) (l - n)" and "n \<le> l"
    and "buffer_size rb' = buffer_size rb" and "buffer_ptr rb' = buffer_ptr rb"
  shows "contents rb' = drop n (contents rb)"
proof -
  have c: "cap rb' = cap rb" using assms(4) by (simp add: cap_def)
  have "((r + n) mod cap rb + i) mod cap rb = (r + (n + i)) mod cap rb" for i
    by (simp add: mod_add_left_eq add.assoc)
  then show ?thesis
    unfolding ring_at_contents [OF assms(1)] ring_at_contents [OF assms(2)] assms(5) c
    using assms(3) by (intro nth_equalityI) (simp_all add: less_diff_conv add.commute)
qed

text \<open>The read side of \<open>write_pos\<close>.\<close>

lemma read_pos:
  assumes "ring_at rb r l" and "n \<le> l"
  shows "r + n < cap rb \<Longrightarrow> x = of_nat n \<Longrightarrow> ring_at (rb\<lparr>read_index := read_index rb + x\<rparr>) ((r + n) mod cap rb) (l - n)"
    and "cap rb \<le> r + n \<Longrightarrow> ring_at (rb\<lparr>read_mirror := \<not> read_mirror rb,
           read_index := of_int (int n - (int (cap rb) - int r))\<rparr>) ((r + n) mod cap rb) (l - n)"
proof -
  note inv = ring_at_inv [OF assms(1)]
  have c: "0 < cap rb" "cap rb < 32768" "l \<le> cap rb" "r < cap rb"
    using cap_bounds [OF inv(1)] assms(1) by (simp_all add: ring_at_def)
  have mo: "(read_mirror rb = write_mirror rb) = (r + l < cap rb)" "unat (read_index rb) = r"
    "((\<not> read_mirror rb) = write_mirror rb) = (\<not> r + l < cap rb)" "unat (write_index rb) = (r + l) mod cap rb"
    using assms(1) by (auto simp: ring_at_def)
  have w: "((r + n) mod cap rb + (l - n)) mod cap rb = (r + l) mod cap rb"
    unfolding mod_add_left_eq using assms(2) by (simp add: add.assoc)
  have rn: "(r + n) mod cap rb = (if r + n < cap rb then r + n else r + n - cap rb)"
    using c assms(2) by (intro mod_two) simp
  show "ring_at (rb\<lparr>read_index := read_index rb + x\<rparr>) ((r + n) mod cap rb) (l - n)"
    if "r + n < cap rb" "x = of_nat n"
  proof (rule ring_atI [OF assms(1)])
    have "unat (of_nat n :: 15 word) = n" using c that by (simp add: unsigned_of_nat take_bit_nat_eq_self)
    then show "unat (read_index (rb\<lparr>read_index := read_index rb + x\<rparr>)) = (r + n) mod cap rb"
      using that c mo(2) by (simp add: unat_word_ariths)
  qed (use mo w rn c assms(2) that in \<open>simp_all\<close>)
  show "ring_at (rb\<lparr>read_mirror := \<not> read_mirror rb, read_index := of_int (int n - (int (cap rb) - int r))\<rparr>)
      ((r + n) mod cap rb) (l - n)" if "cap rb \<le> r + n"
  proof (rule ring_atI [OF assms(1)])
    have "int n - (int (cap rb) - int r) = int (r + n - cap rb)" using that by (simp add: of_nat_diff)
    moreover have "unat (of_int (int (r + n - cap rb)) :: 15 word) = r + n - cap rb"
      using c assms(2) by (intro unat_of_int_15) linarith
    ultimately show "unat (read_index (rb\<lparr>read_mirror := \<not> read_mirror rb,
         read_index := of_int (int n - (int (cap rb) - int r))\<rparr>)) = (r + n) mod cap rb"
      using rn that by (simp only: ring.simps) simp
    show "(read_mirror (rb\<lparr>read_mirror := \<not> read_mirror rb, read_index := of_int (int n - (int (cap rb) - int r))\<rparr>) =
        write_mirror (rb\<lparr>read_mirror := \<not> read_mirror rb, read_index := of_int (int n - (int (cap rb) - int r))\<rparr>)) =
        ((r + n) mod cap rb + (l - n) < cap rb)"
      using mo(3) rn that assms(2) c by auto
  qed (use mo w rn c assms(2) that in \<open>simp_all\<close>)
qed

lemma copy_out_contents:
  assumes "ring_at rb r l" and "n \<le> l"
  shows "r + n < cap rb \<Longrightarrow> copy_out (buffer_ptr rb) (int r) (int n) = Inr (take n (contents rb))"
    and "cap rb \<le> r + n \<Longrightarrow> \<exists>d1 d2. copy_out (buffer_ptr rb) (int r) (int (cap rb) - int r) = Inr d1 \<and>
       copy_out (buffer_ptr rb) 0 (int n - (int (cap rb) - int r)) = Inr d2 \<and> d1 @ d2 = take n (contents rb)"
proof -
  have c: "l \<le> cap rb" "r < cap rb" "cap rb \<le> length (buffer_ptr rb)"
    using assms(1) by (simp_all add: ring_at_def)
  have nth: "take n (contents rb) ! i = buffer_ptr rb ! ((r + i) mod cap rb)" if "i < n" for i
    using that assms(2) by (simp add: ring_at_contents [OF assms(1)])
  have len: "length (take n (contents rb)) = n" using assms by (simp add: ring_at_inv)
  show "copy_out (buffer_ptr rb) (int r) (int n) = Inr (take n (contents rb))" if "r + n < cap rb"
  proof -
    have "take n (drop r (buffer_ptr rb)) = take n (contents rb)"
      using that c len nth by (intro nth_equalityI) simp_all
    then show ?thesis using that c by (simp add: copy_out_def flip: of_nat_add)
  qed
  show "\<exists>d1 d2. copy_out (buffer_ptr rb) (int r) (int (cap rb) - int r) = Inr d1 \<and>
       copy_out (buffer_ptr rb) 0 (int n - (int (cap rb) - int r)) = Inr d2 \<and> d1 @ d2 = take n (contents rb)"
    if "cap rb \<le> r + n"
  proof -
    define k where "k = cap rb - r"
    have k: "r + k = cap rb" "k \<le> n" "int (cap rb) - int r = int k" "int n - int k = int (n - k)"
      using that c by (simp_all add: k_def of_nat_diff)
    have nk: "int r + int k = int (cap rb)" "n - k \<le> cap rb" using k(1) c(1) assms(2) by auto
    have 1: "copy_out (buffer_ptr rb) (int r) (int k) = Inr (take k (drop r (buffer_ptr rb)))"
      using nk c by (simp add: copy_out_def)
    have 2: "copy_out (buffer_ptr rb) 0 (int (n - k)) = Inr (take (n - k) (buffer_ptr rb))"
      using nk c by (simp add: copy_out_def del: of_nat_diff)
    have "take k (drop r (buffer_ptr rb)) @ take (n - k) (buffer_ptr rb) = take n (contents rb)"
    proof (rule nth_equalityI)
      show ll: "length (take k (drop r (buffer_ptr rb)) @ take (n - k) (buffer_ptr rb)) = length (take n (contents rb))"
        using k nk c len by simp
      fix i assume "i < length (take k (drop r (buffer_ptr rb)) @ take (n - k) (buffer_ptr rb))"
      then have i: "i < n" using ll len by simp
      have "(r + i) mod cap rb = (if i < k then r + i else i - k)"
        using mod_two [of "r + i" "cap rb"] i k c assms(2) by auto
      then show "(take k (drop r (buffer_ptr rb)) @ take (n - k) (buffer_ptr rb)) ! i = take n (contents rb) ! i"
        using nth [OF i] i k c by (simp add: nth_append)
    qed
    then show ?thesis using 1 2 unfolding k(3,4) by blast
  qed
qed

lemma get_at:
  fixes len :: u16
  assumes "ring_at rb r l"
  defines "n \<equiv> min (unat len) l"
  shows "\<exists>rb'. rt_ringbuffer_get rb len = Inr (of_nat n, take n (contents rb), rb') \<and> ring_inv rb' \<and>
     buffer_size rb' = buffer_size rb \<and> contents rb' = drop n (contents rb)"
proof -
  note inv = ring_at_inv [OF assms(1)]
  have c: "0 < cap rb" "cap rb < 32768" "l \<le> cap rb" "r < cap rb" and bs: "buffer_size rb = int (cap rb)"
    using cap_bounds [OF inv(1)] assms(1) by (simp_all add: ring_at_def)
  define sz where "sz = rt_ringbuffer_data_len rb"
  have sz: "unat sz = l" using data_len_nat [OF inv(1)] inv(2) by (simp add: sz_def)
  have ri: "uint (read_index rb) = int r" by (simp only: uint_nat inv(3))
  define ln where "ln = (if sz < ucast len then ucast sz else len)"
  have ul: "unat (ucast len :: u32) = unat len" by (simp add: unsigned_ucast_eq take_bit_nat_eq_self_iff unat_u16_lt [THEN less_trans])
  have ln: "unat ln = n"
    using c sz by (auto simp: ln_def n_def word_less_nat_alt ul unat_ucast_32_16)
  have un: "uint ln = int n" by (simp only: uint_nat ln)
  have l15: "(ucast ln :: 15 word) = of_nat n" using ln by (metis of_nat_unat)
  show ?thesis
  proof (cases "l = 0")
    case True
    then have "sz = 0" "n = 0" "contents rb = []" using sz inv by (simp_all add: unat_eq_0 n_def contents_def)
    then show ?thesis using inv(1) by (simp add: rt_ringbuffer_get_def sz_def [symmetric])
  next
    case False
    then have s0: "sz \<noteq> 0" using sz by (auto simp: unat_eq_0 [symmetric])
    have body: "rt_ringbuffer_get rb len =
       (if int (cap rb) - int r > int n then
          bind_err (copy_out (buffer_ptr rb) (int r) (int n)) (\<lambda>d.
            Inr (of_nat n, d, rb\<lparr>read_index := read_index rb + ucast ln\<rparr>))
        else
          bind_err (copy_out (buffer_ptr rb) (int r) (int (cap rb) - int r)) (\<lambda>d1.
          bind_err (copy_out (buffer_ptr rb) 0 (int n - (int (cap rb) - int r))) (\<lambda>d2.
            Inr (of_nat n, d1 @ d2, rb\<lparr>read_mirror := \<not> read_mirror rb,
                                         read_index := of_int (int n - (int (cap rb) - int r))\<rparr>))))"
      using s0 unfolding rt_ringbuffer_get_def Let_def sz_def [symmetric] ln_def [symmetric] bs ri un
        ucast_of_nat_16_32 [OF ln] by simp
    have nl: "n \<le> l" by (simp add: n_def)
    show ?thesis
    proof (cases "r + n < cap rb")
      case True
      note at = read_pos(1) [OF assms(1) nl True l15]
      show ?thesis
        using True copy_out_contents(1) [OF assms(1) nl True] at contents_skip [OF assms(1) at nl] ring_at_inv(1) [OF at]
        by (simp add: body)
    next
      case False
      then have wr: "cap rb \<le> r + n" by simp
      note at = read_pos(2) [OF assms(1) nl wr]
      show ?thesis
        using False copy_out_contents(2) [OF assms(1) nl wr] at contents_skip [OF assms(1) at nl] ring_at_inv(1) [OF at]
        by (auto simp: body)
    qed
  qed
qed

section \<open>Single bytes\<close>

lemma set_mod_write:
  assumes "w < c" and "c \<le> length m"
  shows "m[w := x] = mod_write m c w [x]"
proof (rule nth_equalityI)
  fix i assume i: "i < length (m[w := x])"
  have "(i + c - w) mod c = (if i < w then i + c - w else i - w)" if "i < c"
    using that assms mod_two [of "i + c - w" c] by auto
  then show "m[w := x] ! i = mod_write m c w [x] ! i"
    using i assms by (auto simp: mod_write_def nth_list_update split: if_splits)
qed simp

text \<open>The index after one step, as the code writes it.\<close>

lemma index_step:
  fixes x :: "15 word"
  assumes "unat x < c" and "c < 32768"
  shows "unat (if uint x = int c - 1 then 0 else x + 1) = (unat x + 1) mod c"
proof (cases "unat x = c - 1")
  case True
  then have "uint x = int c - 1" using assms(1) unfolding uint_nat by auto
  then show ?thesis using True assms by simp
next
  case False
  have "uint x = int (unat x)" by (rule uint_nat)
  then have "uint x \<noteq> int c - 1" using False assms(1) by linarith
  moreover have "unat (x + 1) = unat x + 1" using False assms by (simp add: unat_word_ariths)
  ultimately show ?thesis using False assms by simp
qed

lemma putchar_at:
  assumes "ring_at rb r l" and "l < cap rb"
  shows "\<exists>rb'. rt_ringbuffer_putchar rb ch = Inr (1, rb') \<and> ring_inv rb' \<and>
     buffer_size rb' = buffer_size rb \<and> contents rb' = contents rb @ [ch]"
proof -
  note inv = ring_at_inv [OF assms(1)]
  have c: "0 < cap rb" "cap rb < 32768" "l \<le> cap rb" "r < cap rb" "cap rb \<le> length (buffer_ptr rb)"
    and bs: "buffer_size rb = int (cap rb)"
    using cap_bounds [OF inv(1)] assms(1) by (simp_all add: ring_at_def)
  have sp: "rt_ringbuffer_space_len rb \<noteq> 0"
    using space_len_nat [OF inv(1)] inv(2) assms(2) by (auto simp: unat_eq_0 [symmetric])
  define w where "w = (r + l) mod cap rb"
  have w: "unat (write_index rb) = w" "w < cap rb" using assms(1) c(1) by (simp_all add: ring_at_def w_def)
  have mo: "(read_mirror rb = write_mirror rb) = (r + l < cap rb)" "unat (read_index rb) = r"
    "(read_mirror rb = (\<not> write_mirror rb)) = (\<not> r + l < cap rb)"
    using assms(1) by (auto simp: ring_at_def)
  have wm: "w = (if r + l < cap rb then r + l else r + l - cap rb)"
    unfolding w_def using c by (intro mod_two) simp
  have un: "uint (write_index rb) = int w" by (simp only: uint_nat w(1))
  let ?rb = "rb\<lparr>buffer_ptr := (buffer_ptr rb)[w := ch],
       write_mirror := (if int w = int (cap rb) - 1 then \<not> write_mirror rb else write_mirror rb),
       write_index := (if int w = int (cap rb) - 1 then 0 else write_index rb + 1)\<rparr>"
  have wi: "unat (write_index ?rb) = (r + (l + 1)) mod cap rb"
    using index_step [of "write_index rb" "cap rb"] w c(2) un by (simp add: w_def mod_Suc_eq)
  have at: "ring_at ?rb r (l + 1)"
    by (rule ring_atI [OF assms(1)]) (use wi mo wm w c assms(2) in \<open>auto\<close>)
  have "contents ?rb = contents rb @ [ch]"
    using contents_write [OF assms(1), of ?rb "[ch]"] at set_mod_write [OF w(2) c(5)] by (simp add: w_def)
  moreover have "rt_ringbuffer_putchar rb ch = Inr (1, ?rb)"
    using sp w c by (simp add: rt_ringbuffer_putchar_def Let_def un bs)
  ultimately show ?thesis using ring_at_inv(1) [OF at] by simp
qed

lemma putchar_full: "ring_inv rb \<Longrightarrow> ring_len rb = cap rb \<Longrightarrow> rt_ringbuffer_putchar rb ch = Inr (0, rb)"
  using space_len_nat [of rb] by (simp add: rt_ringbuffer_putchar_def unat_eq_0)

lemma getchar_at:
  assumes "ring_at rb r l" and "0 < l"
  shows "\<exists>rb'. rt_ringbuffer_getchar rb = Inr (1, Some (hd (contents rb)), rb') \<and> ring_inv rb' \<and>
     buffer_size rb' = buffer_size rb \<and> contents rb' = tl (contents rb)"
proof -
  note inv = ring_at_inv [OF assms(1)]
  have c: "0 < cap rb" "cap rb < 32768" "l \<le> cap rb" "r < cap rb" "cap rb \<le> length (buffer_ptr rb)"
    and bs: "buffer_size rb = int (cap rb)"
    using cap_bounds [OF inv(1)] assms(1) by (simp_all add: ring_at_def)
  have dl: "rt_ringbuffer_data_len rb \<noteq> 0"
    using data_len_nat [OF inv(1)] inv(2) assms(2) by (auto simp: unat_eq_0 [symmetric])
  have ri: "uint (read_index rb) = int r" by (simp only: uint_nat inv(3))
  have hd: "hd (contents rb) = buffer_ptr rb ! r"
    using ring_at_contents [OF assms(1)] assms(2) c by (simp add: hd_map upt_rec)
  have n1: "1 \<le> l" using assms(2) by simp
  define rb' where "rb' = (if r + 1 < cap rb then rb\<lparr>read_index := read_index rb + 1\<rparr>
     else rb\<lparr>read_mirror := \<not> read_mirror rb, read_index := 0\<rparr>)"
  have at: "ring_at rb' ((r + 1) mod cap rb) (l - 1)"
  proof (cases "r + 1 < cap rb")
    case True
    then show ?thesis using read_pos(1) [OF assms(1) n1 True, of 1] by (simp add: rb'_def)
  next
    case False
    then have "cap rb = r + 1" using c by simp
    then show ?thesis using read_pos(2) [OF assms(1) n1] False by (simp add: rb'_def)
  qed
  have "buffer_size rb' = buffer_size rb" "buffer_ptr rb' = buffer_ptr rb" by (simp_all add: rb'_def)
  note skip = contents_skip [OF assms(1) at n1 this]
  have "rt_ringbuffer_getchar rb = Inr (1, Some (buffer_ptr rb ! r), rb')"
    using dl c inv(3) by (auto simp: rt_ringbuffer_getchar_def ri bs rb'_def)
  then show ?thesis using skip ring_at_inv(1) [OF at] hd by (simp add: rb'_def drop_Suc)
qed

lemma getchar_empty: "ring_inv rb \<Longrightarrow> ring_len rb = 0 \<Longrightarrow> rt_ringbuffer_getchar rb = Inr (0, None, rb)"
  using data_len_nat [of rb] by (simp add: rt_ringbuffer_getchar_def unat_eq_0)

section \<open>The interface of a byte queue\<close>

datatype fifo_op = PutByte u8 | GetByte

text \<open>A run over a sequence of requests: the bytes accepted, the bytes delivered, the final state.\<close>

fun fifo_run ::
  "('s \<Rightarrow> u8 \<Rightarrow> fault + u32 \<times> 's) \<Rightarrow> ('s \<Rightarrow> fault + u32 \<times> u8 option \<times> 's) \<Rightarrow> 's \<Rightarrow> fifo_op list \<Rightarrow>
     fault + u8 list \<times> u8 list \<times> 's" where
  "fifo_run putc getc s [] = Inr ([], [], s)"
| "fifo_run putc getc s (PutByte x # ops) =
     bind_err (putc s x) (\<lambda>(n, s). bind_err (fifo_run putc getc s ops) (\<lambda>(ins, outs, s).
       Inr (if n = 0 then ins else x # ins, outs, s)))"
| "fifo_run putc getc s (GetByte # ops) =
     bind_err (getc s) (\<lambda>(n, x, s). bind_err (fifo_run putc getc s ops) (\<lambda>(ins, outs, s).
       Inr (ins, (case x of None \<Rightarrow> outs | Some y \<Rightarrow> y # outs), s)))"

locale byte_fifo =
  fixes putc :: "'s \<Rightarrow> u8 \<Rightarrow> fault + u32 \<times> 's"
    and getc :: "'s \<Rightarrow> fault + u32 \<times> u8 option \<times> 's"
    and queue :: "'s \<Rightarrow> u8 list"
    and bound :: "'s \<Rightarrow> nat"
    and wf :: "'s \<Rightarrow> bool"
  assumes bounded: "wf s \<Longrightarrow> length (queue s) \<le> bound s"
    and put_space: "wf s \<Longrightarrow> length (queue s) < bound s \<Longrightarrow>
      \<exists>s'. putc s x = Inr (1, s') \<and> wf s' \<and> queue s' = queue s @ [x] \<and> bound s' = bound s"
    and put_full: "wf s \<Longrightarrow> length (queue s) = bound s \<Longrightarrow> putc s x = Inr (0, s)"
    and get_some: "wf s \<Longrightarrow> queue s = y # ys \<Longrightarrow>
      \<exists>s'. getc s = Inr (1, Some y, s') \<and> wf s' \<and> queue s' = ys \<and> bound s' = bound s"
    and get_none: "wf s \<Longrightarrow> queue s = [] \<Longrightarrow> getc s = Inr (0, None, s)"
begin

lemma run_fifo:
  "wf s \<Longrightarrow> \<exists>ins outs s'. fifo_run putc getc s ops = Inr (ins, outs, s') \<and> wf s' \<and> bound s' = bound s \<and>
     queue s @ ins = outs @ queue s'"
proof (induction ops arbitrary: s)
  case Nil
  then show ?case by simp
next
  case (Cons op ops)
  show ?case
  proof (cases op)
    case (PutByte x)
    show ?thesis
    proof (cases "length (queue s) < bound s")
      case True
      then obtain s1 where "putc s x = Inr (1, s1)" "wf s1" "queue s1 = queue s @ [x]" "bound s1 = bound s"
        using put_space [OF Cons.prems] by blast
      then show ?thesis using Cons.IH [of s1] PutByte by fastforce
    next
      case False
      then have "putc s x = Inr (0, s)" using put_full [OF Cons.prems] bounded [OF Cons.prems] by simp
      then show ?thesis using Cons.IH [OF Cons.prems] PutByte by fastforce
    qed
  next
    case GetByte
    show ?thesis
    proof (cases "queue s")
      case Nil
      then show ?thesis using get_none [OF Cons.prems Nil] Cons.IH [OF Cons.prems] GetByte by fastforce
    next
      case (Cons y ys)
      then obtain s1 where "getc s = Inr (1, Some y, s1)" "wf s1" "queue s1 = ys" "bound s1 = bound s"
        using get_some [OF \<open>wf s\<close>] by blast
      then show ?thesis using Cons.IH [of s1] GetByte Cons by fastforce
    qed
  qed
qed

end

interpretation ringbuffer: byte_fifo rt_ringbuffer_putchar rt_ringbuffer_getchar contents cap ring_inv
proof unfold_locales
  fix s :: ring assume inv: "ring_inv s"
  note at = ring_inv_at [OF inv]
  show "length (contents s) \<le> cap s" using ring_len_le [OF inv] by simp
  show "\<exists>s'. rt_ringbuffer_putchar s x = Inr (1, s') \<and> ring_inv s' \<and> contents s' = contents s @ [x] \<and> cap s' = cap s"
    if "length (contents s) < cap s" for x
    using putchar_at [OF at, of x] that by (auto simp: cap_def)
  show "rt_ringbuffer_putchar s x = Inr (0, s)" if "length (contents s) = cap s" for x
    using putchar_full [OF inv] that by simp
  show "\<exists>s'. rt_ringbuffer_getchar s = Inr (1, Some y, s') \<and> ring_inv s' \<and> contents s' = ys \<and> cap s' = cap s"
    if "contents s = y # ys" for y ys
  proof -
    have "0 < ring_len s" using that by (metis length_contents length_greater_0_conv list.discI)
    from getchar_at [OF at this] show ?thesis using that by (auto simp: cap_def)
  qed
  show "rt_ringbuffer_getchar s = Inr (0, None, s)" if "contents s = []"
    using getchar_empty [OF inv] that by (metis length_contents list.size(3))
qed

section \<open>Properties\<close>

lemma align_down4_eq: "align_down4 n = 4 * (n div 4)"
proof -
  have "n AND 3 = n mod 4" using take_bit_eq_mask [of 2 n] by (simp add: take_bit_eq_mod mask_eq_exp_minus_1)
  moreover have "n - (n AND 3) = n AND NOT (n AND 3)"
    by (rule disjunctive_diff_eq_and_not) (simp add: and.assoc [symmetric])
  moreover have "n AND NOT (n AND 3) = n AND NOT 3" by (rule bit_eqI) (auto simp: bit_simps)
  ultimately show ?thesis unfolding align_down4_def by (simp add: minus_mod_eq_mult_div)
qed

text \<open>
  C35. Block write and block read refine the bounded queue: from any well-formed ring,
  \<open>rt_ringbuffer_put\<close> appends as many bytes as there is room for and returns that number,
  \<open>rt_ringbuffer_get\<close> removes and returns as many as asked for or available, in order; both keep the
  ring well formed and stay inside the buffer.
\<close>

theorem ringbuffer_put_get_refine:
  assumes "ring_inv rb" and "unat len \<le> length ptr"
  shows "(\<exists>rb'. rt_ringbuffer_put rb ptr len = Inr (of_nat (min (unat len) (cap rb - length (contents rb))), rb') \<and>
            ring_inv rb' \<and> cap rb' = cap rb \<and>
            contents rb' = contents rb @ take (min (unat len) (cap rb - length (contents rb))) ptr) \<and>
         (\<exists>rb'. rt_ringbuffer_get rb len =
              Inr (of_nat (min (unat len) (length (contents rb))), take (unat len) (contents rb), rb') \<and>
            ring_inv rb' \<and> cap rb' = cap rb \<and> contents rb' = drop (unat len) (contents rb))"
proof -
  note at = ring_inv_at [OF assms(1)]
  obtain rb1 where "rt_ringbuffer_put rb ptr len = Inr (of_nat (min (unat len) (cap rb - ring_len rb)), rb1)"
    "ring_at rb1 (unat (read_index rb)) (ring_len rb + min (unat len) (cap rb - ring_len rb))"
    "buffer_size rb1 = buffer_size rb" "contents rb1 = contents rb @ take (min (unat len) (cap rb - ring_len rb)) ptr"
    using put_at [OF at assms(2)] by blast
  moreover obtain rb2 where "rt_ringbuffer_get rb len =
      Inr (of_nat (min (unat len) (ring_len rb)), take (min (unat len) (ring_len rb)) (contents rb), rb2)"
    "ring_inv rb2" "buffer_size rb2 = buffer_size rb" "contents rb2 = drop (min (unat len) (ring_len rb)) (contents rb)"
    using get_at [OF at, of len] by blast
  moreover have "take (min (unat len) (ring_len rb)) (contents rb) = take (unat len) (contents rb)"
    "drop (min (unat len) (ring_len rb)) (contents rb) = drop (unat len) (contents rb)"
    by (cases "unat len \<le> ring_len rb"; simp)+
  ultimately show ?thesis using ring_at_inv(1) by (simp add: cap_def)
qed

definition fresh_ring :: "nat \<Rightarrow> ring" where
  "fresh_ring n = \<lparr>buffer_ptr = replicate n 0, read_mirror = False, read_index = 0, write_mirror = False,
     write_index = 0, buffer_size = int n\<rparr>"

lemma fresh_ring_inv: "0 < n \<Longrightarrow> n < 32768 \<Longrightarrow> ring_inv (fresh_ring n) \<and> contents (fresh_ring n) = [] \<and> cap (fresh_ring n) = n"
  by (simp add: ring_inv_def fresh_ring_def cap_def contents_def ring_len_def)

theorem ringbuffer_put_get_refine_witness:
  "\<exists>rb'. rt_ringbuffer_put (fresh_ring 4) [1, 2, 3, 4, 5] 5 = Inr (4, rb') \<and> contents rb' = [1, 2, 3, 4]"
  using ringbuffer_put_get_refine [of "fresh_ring 4" 5 "[1, 2, 3, 4, 5]"] fresh_ring_inv [of 4] by auto

text \<open>
  Forced block write: it never fails, and afterwards the ring holds the most recent bytes, that
  is the last \<open>cap\<close> bytes of the old contents followed by the data.
\<close>

theorem ringbuffer_put_force_newest:
  assumes "ring_inv rb" and "unat len = length ptr"
  shows "\<exists>rb'. rt_ringbuffer_put_force rb ptr len = Inr (of_nat (min (length ptr) (cap rb)), rb') \<and>
     ring_inv rb' \<and> cap rb' = cap rb \<and>
     contents rb' = drop (length (contents rb @ ptr) - cap rb) (contents rb @ ptr)"
proof -
  note at = ring_inv_at [OF assms(1)]
  let ?n = "min (unat len) (cap rb)" and ?l = "ring_len rb"
  obtain rb' where rb': "rt_ringbuffer_put_force rb ptr len = Inr (of_nat ?n, rb')" "ring_inv rb'"
    "buffer_size rb' = buffer_size rb"
    "contents rb' = drop (?l + ?n - cap rb) (contents rb) @ take ?n (drop (unat len - ?n) ptr)"
    using put_force_at [OF at, of len ptr] assms(2) by auto
  have l: "?l \<le> cap rb" using ring_len_le [OF assms(1)] .
  have "drop (?l + ?n - cap rb) (contents rb) @ take ?n (drop (unat len - ?n) ptr) =
      drop (length (contents rb @ ptr) - cap rb) (contents rb @ ptr)"
    using assms(2) l by (cases "length ptr \<le> cap rb") (simp_all add: min_def)
  then show ?thesis using rb' assms(2) by (simp add: cap_def)
qed

theorem ringbuffer_put_force_newest_witness:
  "\<exists>rb'. rt_ringbuffer_put_force (fresh_ring 4) [1, 2, 3, 4, 5, 6] 6 = Inr (4, rb') \<and> contents rb' = [3, 4, 5, 6]"
  using ringbuffer_put_force_newest [of "fresh_ring 4" 6 "[1, 2, 3, 4, 5, 6]"] fresh_ring_inv [of 4] by auto

text \<open>
  C34. First in, first out: from a ring as \<open>rt_ringbuffer_init\<close> leaves it, any sequence of single-byte
  writes and reads ends without leaving the buffer, and the bytes delivered followed by those still
  in the ring are exactly the bytes accepted, in order.
\<close>

theorem ringbuffer_fifo:
  assumes "4 \<le> n" and "n < 32768" and "nat n \<le> length pool"
  shows "\<exists>rb ins outs rb'. rt_ringbuffer_init pool n = Inr rb \<and>
     fifo_run rt_ringbuffer_putchar rt_ringbuffer_getchar rb ops = Inr (ins, outs, rb') \<and>
     ins = outs @ contents rb' \<and> length (contents rb') \<le> cap rb' \<and> int (cap rb') = 4 * (n div 4)"
proof -
  have al: "align_down4 n = 4 * (n div 4)" by (rule align_down4_eq)
  define rb where "rb = \<lparr>buffer_ptr = pool, read_mirror = False, read_index = 0, write_mirror = False,
      write_index = 0, buffer_size = 4 * (n div 4)\<rparr>"
  have b: "0 < 4 * (n div 4)" "4 * (n div 4) \<le> n" using assms(1) by auto
  have inv: "ring_inv rb" using b assms by (auto simp: ring_inv_def rb_def cap_def)
  have init: "rt_ringbuffer_init pool n = Inr rb" using assms(1) by (simp add: rt_ringbuffer_init_def rb_def al)
  have q: "contents rb = []" by (simp add: contents_def ring_len_def rb_def)
  have c: "int (cap rb) = 4 * (n div 4)" using b by (simp add: cap_def rb_def)
  obtain ins outs rb' where "fifo_run rt_ringbuffer_putchar rt_ringbuffer_getchar rb ops = Inr (ins, outs, rb')"
    "ring_inv rb'" "cap rb' = cap rb" "contents rb @ ins = outs @ contents rb'"
    using ringbuffer.run_fifo [OF inv] by blast
  then show ?thesis using init q c ring_len_le [of rb'] by (intro exI [of _ rb] exI [of _ ins] exI [of _ outs] exI [of _ rb']) simp
qed

theorem ringbuffer_fifo_witness:
  "\<exists>rb ins outs rb'. rt_ringbuffer_init (replicate 6 0) 6 = Inr rb \<and>
     fifo_run rt_ringbuffer_putchar rt_ringbuffer_getchar rb [PutByte 1, PutByte 2, GetByte, PutByte 3] = Inr (ins, outs, rb') \<and>
     ins = outs @ contents rb' \<and> int (cap rb') = 4"
  using ringbuffer_fifo [of 6 "replicate 6 0" "[PutByte 1, PutByte 2, GetByte, PutByte 3]"] by auto

end
