(* ===== verification/Kernel.thy ===== *)
theory Kernel
  imports Prelude
begin

text \<open>
  State of the RT-Thread kernel and its scheduler (\<open>rt-thread/src/scheduler.c\<close> for one processor and 32
  priorities). Objects are numbers (their addresses); a doubly linked list is the list of the nodes
  after its head. A node is in at most one list, so \<open>rt_list_remove\<close> takes it out of all of them.
\<close>

section \<open>Objects\<close>

datatype thread_stat = RT_THREAD_INIT | RT_THREAD_READY | RT_THREAD_SUSPEND | RT_THREAD_RUNNING | RT_THREAD_CLOSE

text \<open>
  \<open>stat\<close> is the field under \<open>RT_THREAD_STAT_MASK\<close>, \<open>stat_yield\<close> the bit \<open>RT_THREAD_STAT_YIELD\<close>;
  \<open>systemobject\<close> tells a statically allocated thread from a created one.
\<close>

record tcb =
  stat :: thread_stat
  stat_yield :: bool
  current_priority :: u8
  number_mask :: u32
  init_tick :: u32
  remaining_tick :: u32
  error :: int
  event_set :: u32
  event_info :: u8
  systemobject :: bool

text \<open>Every thread embeds a timer; other timers have their own address.\<close>

datatype timer_ref = ThreadTimer nat | OwnTimer nat

text \<open>The three used bits of \<open>parent.flag\<close> of a timer are separate fields.\<close>

record timer =
  activated :: bool
  periodic :: bool
  soft_timer :: bool
  timeout_tick :: u32
  timer_init_tick :: u32

text \<open>List heads: the ready queues, the wait list at an address, and the defunct threads.\<close>

datatype list_head = Ready nat | Wait nat | Defunct

datatype soft_status = RT_SOFT_TIMER_IDLE | RT_SOFT_TIMER_BUSY

record kernel =
  tcbs :: "nat \<Rightarrow> tcb"
  links :: "list_head \<Rightarrow> nat list"
  rt_thread_ready_priority_group :: u32
  rt_current_thread :: "nat option"
  rt_current_priority :: u8
  rt_scheduler_lock_nest :: u16
  rt_interrupt_nest :: u8
  rt_tick :: u32
  timers :: "timer_ref \<Rightarrow> timer"
  timer_list :: "timer_ref list"
  soft_timer_list :: "timer_ref list"
  expired_list :: "timer_ref list"
  soft_expired_list :: "timer_ref list"
  soft_timer_status :: soft_status

text \<open>The statically allocated threads of the kernel.\<close>

definition timer_thread :: nat where "timer_thread = 0"

definition idle_thread :: nat where "idle_thread = 1"

text \<open>Error codes (\<open>rtdef.h\<close>); functions return their negation.\<close>

definition RT_EOK :: int where "RT_EOK = 0"
definition RT_ERROR :: int where "RT_ERROR = 1"
definition RT_ETIMEOUT :: int where "RT_ETIMEOUT = 2"
definition RT_EFULL :: int where "RT_EFULL = 3"
definition RT_EINTR :: int where "RT_EINTR = 9"
definition RT_EINVAL :: int where "RT_EINVAL = 10"

lemmas err_defs = RT_EOK_def RT_ERROR_def RT_ETIMEOUT_def RT_EFULL_def RT_EINTR_def RT_EINVAL_def

section \<open>Lists and fields\<close>

definition upd_tcb :: "nat \<Rightarrow> (tcb \<Rightarrow> tcb) \<Rightarrow> kernel \<Rightarrow> kernel" where
  "upd_tcb t f k = k\<lparr>tcbs := (tcbs k)(t := f (tcbs k t))\<rparr>"

definition set_stat :: "nat \<Rightarrow> thread_stat \<Rightarrow> kernel \<Rightarrow> kernel" where
  "set_stat t s k = upd_tcb t (\<lambda>c. c\<lparr>stat := s\<rparr>) k"

definition set_error :: "nat \<Rightarrow> int \<Rightarrow> kernel \<Rightarrow> kernel" where
  "set_error t e k = upd_tcb t (\<lambda>c. c\<lparr>error := e\<rparr>) k"

definition rt_list_remove :: "nat \<Rightarrow> kernel \<Rightarrow> kernel" where
  "rt_list_remove t k = k\<lparr>links := \<lambda>l. filter (\<lambda>u. u \<noteq> t) (links k l)\<rparr>"

definition rt_list_insert_before :: "list_head \<Rightarrow> nat \<Rightarrow> kernel \<Rightarrow> kernel" where
  "rt_list_insert_before l t k = k\<lparr>links := (links k)(l := links k l @ [t])\<rparr>"

definition rt_list_insert_after :: "list_head \<Rightarrow> nat \<Rightarrow> kernel \<Rightarrow> kernel" where
  "rt_list_insert_after l t k = k\<lparr>links := (links k)(l := t # links k l)\<rparr>"

definition rt_list_isempty :: "list_head \<Rightarrow> kernel \<Rightarrow> bool" where
  "rt_list_isempty l k \<longleftrightarrow> links k l = []"

section \<open>The scheduler\<close>

text \<open>\<open>__rt_ffs\<close> is the compiler's \<open>ffs\<close>: one more than the index of the lowest set bit, 0 for 0.\<close>

definition rt_ffs :: "u32 \<Rightarrow> nat" where
  "rt_ffs v = (case find (\<lambda>i. bit v i) [0..<32] of None \<Rightarrow> 0 | Some i \<Rightarrow> i + 1)"

text \<open>\<open>1L << priority\<close>; the callers keep the shift below 32 or the table access faults.\<close>

definition prio_mask :: "u8 \<Rightarrow> u32" where
  "prio_mask p = push_bit (unat p) 1"

text \<open>
  Without a set bit, or with an empty queue, the code would use a list node that is not there.
\<close>

definition scheduler_get_highest_priority_thread :: "kernel \<Rightarrow> fault + nat \<times> nat" where
  "scheduler_get_highest_priority_thread k =
     (let n = rt_ffs (rt_thread_ready_priority_group k)
      in if n = 0 then Inl OutOfBounds
         else case links k (Ready (n - 1)) of [] \<Rightarrow> Inl NullPointer | t # _ \<Rightarrow> Inr (t, n - 1))"

definition rt_system_scheduler_init :: "kernel \<Rightarrow> kernel" where
  "rt_system_scheduler_init k =
     k\<lparr>rt_scheduler_lock_nest := 0,
       links := \<lambda>l. case l of Ready p \<Rightarrow> if p < 32 then [] else links k l | _ \<Rightarrow> links k l,
       rt_thread_ready_priority_group := 0\<rparr>"

text \<open>The priority table has 32 entries: a larger priority indexes past it.\<close>

definition rt_schedule_insert_thread :: "nat \<Rightarrow> kernel \<Rightarrow> fault + kernel" where
  "rt_schedule_insert_thread t k =
     (if rt_current_thread k = Some t then Inr (set_stat t RT_THREAD_RUNNING k)
      else
        let k = set_stat t RT_THREAD_READY k; c = tcbs k t
        in if current_priority c < 32 then
             (let k = rt_list_insert_before (Ready (unat (current_priority c))) t k
              in Inr (k\<lparr>rt_thread_ready_priority_group := rt_thread_ready_priority_group k OR number_mask c\<rparr>))
           else Inl OutOfBounds)"

definition rt_schedule_remove_thread :: "nat \<Rightarrow> kernel \<Rightarrow> fault + kernel" where
  "rt_schedule_remove_thread t k =
     (let k = rt_list_remove t k; c = tcbs k t
      in if current_priority c < 32 then
           (if rt_list_isempty (Ready (unat (current_priority c))) k
            then Inr (k\<lparr>rt_thread_ready_priority_group := rt_thread_ready_priority_group k AND NOT (number_mask c)\<rparr>)
            else Inr k)
         else Inl OutOfBounds)"

definition rt_system_scheduler_start :: "kernel \<Rightarrow> fault + kernel" where
  "rt_system_scheduler_start k =
     bind_err (scheduler_get_highest_priority_thread k) (\<lambda>(to_thread, _).
     bind_err (rt_schedule_remove_thread to_thread (k\<lparr>rt_current_thread := Some to_thread\<rparr>)) (\<lambda>k.
       Inr (upd_tcb to_thread (\<lambda>c. c\<lparr>stat := RT_THREAD_RUNNING, stat_yield := False\<rparr>) k)))"

text \<open>
  The choice made by \<open>rt_schedule\<close>: the thread to run and whether the current one goes back to a
  ready queue.
\<close>

definition schedule_choice :: "tcb \<Rightarrow> nat \<Rightarrow> nat \<Rightarrow> nat \<Rightarrow> nat \<times> bool" where
  "schedule_choice c cur to_thread highest =
     (if stat c = RT_THREAD_RUNNING then
        if unat (current_priority c) < highest then (cur, False)
        else if unat (current_priority c) = highest \<and> \<not> stat_yield c then (cur, False)
        else (to_thread, True)
      else (to_thread, False))"

text \<open>
  The switch itself (saving and restoring registers, now or at the end of the interrupt) is the
  processor port's; afterwards the processor runs \<open>rt_current_thread\<close>.
\<close>

definition rt_schedule :: "kernel \<Rightarrow> fault + kernel" where
  "rt_schedule k =
     (if rt_scheduler_lock_nest k = 0 \<and> rt_thread_ready_priority_group k \<noteq> 0 then
        bind_err (scheduler_get_highest_priority_thread k) (\<lambda>(to_thread, highest).
        case rt_current_thread k of None \<Rightarrow> Inl NullPointer
        | Some cur \<Rightarrow>
            let (to_thread, need_insert_from_thread) = schedule_choice (tcbs k cur) cur to_thread highest;
                k = (if stat (tcbs k cur) = RT_THREAD_RUNNING then upd_tcb cur (\<lambda>c. c\<lparr>stat_yield := False\<rparr>) k else k)
            in if to_thread \<noteq> cur then
                 (let k = k\<lparr>rt_current_priority := of_nat highest, rt_current_thread := Some to_thread\<rparr>
                  in bind_err (if need_insert_from_thread then rt_schedule_insert_thread cur k else Inr k) (\<lambda>k.
                     bind_err (rt_schedule_remove_thread to_thread k) (\<lambda>k.
                       Inr (set_stat to_thread RT_THREAD_RUNNING k))))
               else
                 bind_err (rt_schedule_remove_thread cur k) (\<lambda>k. Inr (set_stat cur RT_THREAD_RUNNING k)))
      else Inr k)"

definition rt_enter_critical :: "kernel \<Rightarrow> kernel" where
  "rt_enter_critical k = k\<lparr>rt_scheduler_lock_nest := rt_scheduler_lock_nest k + 1\<rparr>"

text \<open>The nesting count is a signed 16-bit number.\<close>

definition rt_exit_critical :: "kernel \<Rightarrow> fault + kernel" where
  "rt_exit_critical k =
     (let k = k\<lparr>rt_scheduler_lock_nest := rt_scheduler_lock_nest k - 1\<rparr>
      in if sint (rt_scheduler_lock_nest k) \<le> 0 then
           (let k = k\<lparr>rt_scheduler_lock_nest := 0\<rparr>
            in if rt_current_thread k \<noteq> None then rt_schedule k else Inr k)
         else Inr k)"

definition rt_critical_level :: "kernel \<Rightarrow> u16" where
  "rt_critical_level k = rt_scheduler_lock_nest k"

section \<open>The invariant of the queues\<close>

text \<open>
  \<open>queue_inv\<close>: no list repeats a thread and no thread waits in two lists; a ready queue holds exactly
  the \<open>READY\<close> threads of its priority; waiting threads are suspended, defunct ones closed; a started
  thread has a legal priority and its mask; and the bit map marks exactly the queues that are not
  empty.
\<close>

definition tcb_ok :: "tcb \<Rightarrow> bool" where
  "tcb_ok c \<longleftrightarrow> (stat c \<in> {RT_THREAD_READY, RT_THREAD_SUSPEND, RT_THREAD_RUNNING} \<longrightarrow>
     current_priority c < 32 \<and> number_mask c = prio_mask (current_priority c))"

definition lists_ok :: "kernel \<Rightarrow> bool" where
  "lists_ok k \<longleftrightarrow> (\<forall>l. distinct (links k l)) \<and>
     (\<forall>w w' t. t \<in> set (links k (Wait w)) \<longrightarrow> t \<in> set (links k (Wait w')) \<longrightarrow> w = w')"

definition stats_ok :: "kernel \<Rightarrow> bool" where
  "stats_ok k \<longleftrightarrow>
     (\<forall>p t. t \<in> set (links k (Ready p)) \<longleftrightarrow> stat (tcbs k t) = RT_THREAD_READY \<and> unat (current_priority (tcbs k t)) = p) \<and>
     (\<forall>w t. t \<in> set (links k (Wait w)) \<longrightarrow> stat (tcbs k t) = RT_THREAD_SUSPEND) \<and>
     (\<forall>t. t \<in> set (links k Defunct) \<longrightarrow> stat (tcbs k t) = RT_THREAD_CLOSE)"

definition group_ok :: "kernel \<Rightarrow> bool" where
  "group_ok k \<longleftrightarrow> (\<forall>p < 32. bit (rt_thread_ready_priority_group k) p \<longleftrightarrow> links k (Ready p) \<noteq> [])"

definition queue_inv :: "kernel \<Rightarrow> bool" where
  "queue_inv k \<longleftrightarrow> lists_ok k \<and> stats_ok k \<and> group_ok k \<and> (\<forall>t. tcb_ok (tcbs k t))"

text \<open>Only \<open>rt_current_thread\<close> is \<open>RUNNING\<close>, and it is in no ready queue.\<close>

definition run_inv :: "kernel \<Rightarrow> bool" where
  "run_inv k \<longleftrightarrow> (\<forall>t. stat (tcbs k t) = RT_THREAD_RUNNING \<longrightarrow> rt_current_thread k = Some t) \<and>
     (\<forall>t. rt_current_thread k = Some t \<longrightarrow> stat (tcbs k t) \<notin> {RT_THREAD_READY, RT_THREAD_INIT})"

text \<open>Field access after the list and field updates.\<close>

lemma upd_tcb_sel [simp]:
  "tcbs (upd_tcb t f k) u = (if u = t then f (tcbs k t) else tcbs k u)"
  "links (upd_tcb t f k) = links k"
  "rt_thread_ready_priority_group (upd_tcb t f k) = rt_thread_ready_priority_group k"
  "rt_current_thread (upd_tcb t f k) = rt_current_thread k"
  "rt_current_priority (upd_tcb t f k) = rt_current_priority k"
  "rt_scheduler_lock_nest (upd_tcb t f k) = rt_scheduler_lock_nest k"
  "rt_interrupt_nest (upd_tcb t f k) = rt_interrupt_nest k"
  "rt_tick (upd_tcb t f k) = rt_tick k" "timers (upd_tcb t f k) = timers k"
  "timer_list (upd_tcb t f k) = timer_list k" "soft_timer_list (upd_tcb t f k) = soft_timer_list k"
  "expired_list (upd_tcb t f k) = expired_list k" "soft_expired_list (upd_tcb t f k) = soft_expired_list k"
  "soft_timer_status (upd_tcb t f k) = soft_timer_status k"
  by (simp_all add: upd_tcb_def)

lemma rt_list_remove_sel [simp]:
  "tcbs (rt_list_remove t k) = tcbs k"
  "links (rt_list_remove t k) l = filter (\<lambda>u. u \<noteq> t) (links k l)"
  "rt_thread_ready_priority_group (rt_list_remove t k) = rt_thread_ready_priority_group k"
  "rt_current_thread (rt_list_remove t k) = rt_current_thread k"
  "rt_current_priority (rt_list_remove t k) = rt_current_priority k"
  "rt_scheduler_lock_nest (rt_list_remove t k) = rt_scheduler_lock_nest k"
  "rt_interrupt_nest (rt_list_remove t k) = rt_interrupt_nest k"
  "rt_tick (rt_list_remove t k) = rt_tick k" "timers (rt_list_remove t k) = timers k"
  "timer_list (rt_list_remove t k) = timer_list k" "soft_timer_list (rt_list_remove t k) = soft_timer_list k"
  "expired_list (rt_list_remove t k) = expired_list k" "soft_expired_list (rt_list_remove t k) = soft_expired_list k"
  "soft_timer_status (rt_list_remove t k) = soft_timer_status k"
  by (simp_all add: rt_list_remove_def)

lemma bit_prio_mask: "p < 32 \<Longrightarrow> bit (prio_mask p) n \<longleftrightarrow> n = unat p"
proof -
  assume "p < 32"
  then have "unat p < 32" by (simp add: word_less_nat_alt)
  then show ?thesis by (auto simp: prio_mask_def bit_simps)
qed

subsection \<open>Taking a thread out and putting it in\<close>

definition ready_remove :: "nat \<Rightarrow> kernel \<Rightarrow> kernel" where
  "ready_remove t k =
     (let k' = rt_list_remove t k
      in if rt_list_isempty (Ready (unat (current_priority (tcbs k t)))) k'
         then k'\<lparr>rt_thread_ready_priority_group :=
                   rt_thread_ready_priority_group k AND NOT (number_mask (tcbs k t))\<rparr>
         else k')"

definition ready_insert :: "nat \<Rightarrow> kernel \<Rightarrow> kernel" where
  "ready_insert t k =
     (let k = rt_list_insert_before (Ready (unat (current_priority (tcbs k t)))) t (set_stat t RT_THREAD_READY k)
      in k\<lparr>rt_thread_ready_priority_group := rt_thread_ready_priority_group k OR number_mask (tcbs k t)\<rparr>)"

lemma rt_schedule_remove_thread_eq:
  "current_priority (tcbs k t) < 32 \<Longrightarrow> rt_schedule_remove_thread t k = Inr (ready_remove t k)"
  by (simp add: rt_schedule_remove_thread_def ready_remove_def Let_def)

lemma rt_schedule_insert_thread_eq:
  "rt_current_thread k \<noteq> Some t \<Longrightarrow> current_priority (tcbs k t) < 32 \<Longrightarrow>
   rt_schedule_insert_thread t k = Inr (ready_insert t k)"
  by (simp add: rt_schedule_insert_thread_def ready_insert_def set_stat_def Let_def rt_list_insert_before_def)

lemma ready_remove_sel [simp]:
  "tcbs (ready_remove t k) = tcbs k"
  "links (ready_remove t k) l = filter (\<lambda>u. u \<noteq> t) (links k l)"
  "rt_current_thread (ready_remove t k) = rt_current_thread k"
  "rt_current_priority (ready_remove t k) = rt_current_priority k"
  "rt_scheduler_lock_nest (ready_remove t k) = rt_scheduler_lock_nest k"
  "rt_interrupt_nest (ready_remove t k) = rt_interrupt_nest k"
  "rt_tick (ready_remove t k) = rt_tick k" "timers (ready_remove t k) = timers k"
  "timer_list (ready_remove t k) = timer_list k" "soft_timer_list (ready_remove t k) = soft_timer_list k"
  "expired_list (ready_remove t k) = expired_list k" "soft_expired_list (ready_remove t k) = soft_expired_list k"
  "soft_timer_status (ready_remove t k) = soft_timer_status k"
  by (simp_all add: ready_remove_def Let_def)

lemma ready_insert_sel [simp]:
  "tcbs (ready_insert t k) u = (if u = t then (tcbs k t)\<lparr>stat := RT_THREAD_READY\<rparr> else tcbs k u)"
  "links (ready_insert t k) l =
     (if l = Ready (unat (current_priority (tcbs k t))) then links k l @ [t] else links k l)"
  "rt_current_thread (ready_insert t k) = rt_current_thread k"
  "rt_current_priority (ready_insert t k) = rt_current_priority k"
  "rt_scheduler_lock_nest (ready_insert t k) = rt_scheduler_lock_nest k"
  "rt_interrupt_nest (ready_insert t k) = rt_interrupt_nest k"
  "rt_tick (ready_insert t k) = rt_tick k" "timers (ready_insert t k) = timers k"
  "timer_list (ready_insert t k) = timer_list k" "soft_timer_list (ready_insert t k) = soft_timer_list k"
  "expired_list (ready_insert t k) = expired_list k" "soft_expired_list (ready_insert t k) = soft_expired_list k"
  "soft_timer_status (ready_insert t k) = soft_timer_status k"
  by (auto simp: ready_insert_def Let_def rt_list_insert_before_def set_stat_def)

lemma ready_remove_group:
  "rt_thread_ready_priority_group (ready_remove t k) =
     (if filter (\<lambda>u. u \<noteq> t) (links k (Ready (unat (current_priority (tcbs k t))))) = []
      then rt_thread_ready_priority_group k AND NOT (number_mask (tcbs k t))
      else rt_thread_ready_priority_group k)"
  by (simp add: ready_remove_def Let_def rt_list_isempty_def)

lemma ready_insert_group:
  "rt_thread_ready_priority_group (ready_insert t k) =
     rt_thread_ready_priority_group k OR number_mask (tcbs k t)"
  by (simp add: ready_insert_def Let_def rt_list_insert_before_def set_stat_def)

lemma ready_remove_group_ok:
  assumes "queue_inv k" and "current_priority (tcbs k t) < 32"
    and m: "number_mask (tcbs k t) = prio_mask (current_priority (tcbs k t))"
  shows "group_ok (ready_remove t k)"
proof -
  let ?p = "unat (current_priority (tcbs k t))" and ?g = "rt_thread_ready_priority_group k"
  have g: "bit ?g q \<longleftrightarrow> links k (Ready q) \<noteq> []" if "q < 32" for q
    using assms(1) that by (simp add: queue_inv_def group_ok_def)
  have other: "filter (\<lambda>u. u \<noteq> t) (links k (Ready q)) = links k (Ready q)" if "q \<noteq> ?p" for q
    using assms(1) that by (auto simp: queue_inv_def stats_ok_def filter_id_conv)
  have q: "bit (rt_thread_ready_priority_group (ready_remove t k)) q \<longleftrightarrow>
      filter (\<lambda>u. u \<noteq> t) (links k (Ready q)) \<noteq> []" if "q < 32" for q
  proof (cases "q = ?p")
    case True
    show ?thesis
    proof (cases "filter (\<lambda>u. u \<noteq> t) (links k (Ready q)) = []")
      case empty: True
      then show ?thesis
        using True that by (simp add: ready_remove_group m bit_and_iff bit_not_iff bit_prio_mask [OF assms(2)])
    next
      case False
      then have "links k (Ready q) \<noteq> []" by auto
      then show ?thesis using True that g [OF that] False by (simp add: ready_remove_group)
    qed
  next
    case False
    then show ?thesis
      using that g [OF that] other [OF False]
      by (simp add: ready_remove_group m bit_and_iff bit_not_iff bit_prio_mask [OF assms(2)])
  qed
  then show ?thesis by (simp add: group_ok_def)
qed

lemma ready_remove_inv:
  assumes k: "queue_inv k" and c: "current_priority (tcbs k t) < 32"
      "number_mask (tcbs k t) = prio_mask (current_priority (tcbs k t))"
    and f: "stat (f (tcbs k t)) \<noteq> RT_THREAD_READY" "tcb_ok (f (tcbs k t))"
  shows "queue_inv (upd_tcb t f (ready_remove t k))"
proof -
  have "group_ok (upd_tcb t f (ready_remove t k))"
    using ready_remove_group_ok [OF k c] by (simp add: group_ok_def)
  moreover have "lists_ok (upd_tcb t f (ready_remove t k))"
    using k by (auto simp: queue_inv_def lists_ok_def)
  moreover have "stats_ok (upd_tcb t f (ready_remove t k))"
    using k f by (auto simp: queue_inv_def stats_ok_def)
  ultimately show ?thesis using k f by (simp add: queue_inv_def)
qed

text \<open>A thread in no list.\<close>

definition unlinked :: "kernel \<Rightarrow> nat \<Rightarrow> bool" where
  "unlinked k t \<longleftrightarrow> (\<forall>l. t \<notin> set (links k l))"

lemma ready_insert_inv:
  assumes k: "queue_inv k" and t: "unlinked k t"
    and c: "current_priority (tcbs k t) < 32" "number_mask (tcbs k t) = prio_mask (current_priority (tcbs k t))"
  shows "queue_inv (ready_insert t k)"
proof -
  have "group_ok (ready_insert t k)"
    using k by (simp add: queue_inv_def group_ok_def ready_insert_group bit_or_iff c(2) bit_prio_mask [OF c(1)])
  moreover have "lists_ok (ready_insert t k)"
    using k t by (auto simp: queue_inv_def lists_ok_def unlinked_def)
  moreover have "stats_ok (ready_insert t k)"
    using k t by (auto simp: queue_inv_def stats_ok_def unlinked_def)
  moreover have "tcb_ok (tcbs (ready_insert t k) u)" for u
    using k c by (auto simp: queue_inv_def tcb_ok_def)
  ultimately show ?thesis by (simp add: queue_inv_def)
qed

subsection \<open>The highest ready priority\<close>

lemma rt_ffs_zero_iff: "rt_ffs v = 0 \<longleftrightarrow> v = 0"
proof -
  have "rt_ffs v = 0 \<longleftrightarrow> find (\<lambda>i. bit v i) [0..<32] = None"
    by (simp add: rt_ffs_def split: option.splits)
  also have "\<dots> \<longleftrightarrow> (\<forall>i < 32. \<not> bit v i)" by (auto simp: find_None_iff)
  also have "\<dots> \<longleftrightarrow> v = 0" by (auto intro: bit_word_eqI)
  finally show ?thesis .
qed

lemma rt_ffs_lowest:
  assumes "rt_ffs v = Suc p"
  shows "p < 32 \<and> bit v p \<and> (\<forall>q < p. \<not> bit v q)"
proof -
  have "find (\<lambda>i. bit v i) [0..<32] = Some p"
    using assms by (auto simp: rt_ffs_def split: option.splits)
  then obtain i where i: "i < length [0..<32::nat]" "bit v ([0..<32] ! i)" "p = [0..<32] ! i"
      "\<forall>j < i. \<not> bit v ([0..<32] ! j)"
    unfolding find_Some_iff by blast
  then have "p = i" by simp
  with i show ?thesis by auto
qed

lemma get_highest:
  assumes "queue_inv k" and "rt_thread_ready_priority_group k \<noteq> 0"
  obtains t p where "scheduler_get_highest_priority_thread k = Inr (t, p)" and "p < 32"
    and "t \<in> set (links k (Ready p))" and "stat (tcbs k t) = RT_THREAD_READY"
    and "unat (current_priority (tcbs k t)) = p"
    and "\<And>u. stat (tcbs k u) = RT_THREAD_READY \<Longrightarrow> p \<le> unat (current_priority (tcbs k u))"
proof -
  obtain p where p: "rt_ffs (rt_thread_ready_priority_group k) = Suc p"
    using assms(2) rt_ffs_zero_iff by (metis not0_implies_Suc)
  note low = rt_ffs_lowest [OF p]
  have g: "bit (rt_thread_ready_priority_group k) q \<longleftrightarrow> links k (Ready q) \<noteq> []" if "q < 32" for q
    using assms(1) that by (simp add: queue_inv_def group_ok_def)
  obtain t ts where t: "links k (Ready p) = t # ts" using low g [of p] by (cases "links k (Ready p)") auto
  have mem: "u \<in> set (links k (Ready q)) \<longleftrightarrow>
      stat (tcbs k u) = RT_THREAD_READY \<and> unat (current_priority (tcbs k u)) = q" for u q
    using assms(1) by (simp add: queue_inv_def stats_ok_def)
  have "p \<le> unat (current_priority (tcbs k u))" if u: "stat (tcbs k u) = RT_THREAD_READY" for u
  proof (rule ccontr)
    assume "\<not> ?thesis"
    then have less: "unat (current_priority (tcbs k u)) < p" by simp
    moreover from less low have "links k (Ready (unat (current_priority (tcbs k u)))) = []"
      using g [of "unat (current_priority (tcbs k u))"] by auto
    then have "u \<notin> set (links k (Ready (unat (current_priority (tcbs k u)))))" by simp
    ultimately show False using mem u by blast
  qed
  moreover have "scheduler_get_highest_priority_thread k = Inr (t, p)"
    by (simp add: scheduler_get_highest_priority_thread_def p t)
  ultimately show ?thesis using that low mem [of t p] t by simp
qed

lemma group_zero_iff:
  assumes "queue_inv k"
  shows "rt_thread_ready_priority_group k = 0 \<longleftrightarrow> (\<forall>t. stat (tcbs k t) \<noteq> RT_THREAD_READY)"
proof
  assume z: "rt_thread_ready_priority_group k = 0"
  have ok: "tcb_ok (tcbs k t)" for t using assms by (simp add: queue_inv_def)
  show "\<forall>t. stat (tcbs k t) \<noteq> RT_THREAD_READY"
  proof
    fix t show "stat (tcbs k t) \<noteq> RT_THREAD_READY"
    proof
      assume r: "stat (tcbs k t) = RT_THREAD_READY"
      have "current_priority (tcbs k t) < 32" using ok [of t] r by (simp add: tcb_ok_def)
      then have "unat (current_priority (tcbs k t)) < 32" by (simp add: word_less_nat_alt)
      then have "links k (Ready (unat (current_priority (tcbs k t)))) = []"
        using assms z by (simp add: queue_inv_def group_ok_def)
      moreover have "t \<in> set (links k (Ready (unat (current_priority (tcbs k t)))))"
        using assms r by (simp add: queue_inv_def stats_ok_def)
      ultimately show False by simp
    qed
  qed
next
  assume n: "\<forall>t. stat (tcbs k t) \<noteq> RT_THREAD_READY"
  show "rt_thread_ready_priority_group k = 0"
  proof (rule ccontr)
    assume "rt_thread_ready_priority_group k \<noteq> 0"
    then show False using get_highest [OF assms] n by metis
  qed
qed

subsection \<open>What a schedule leaves alone\<close>

text \<open>A thread that can run.\<close>

definition active :: "thread_stat \<Rightarrow> bool" where
  "active s \<longleftrightarrow> s = RT_THREAD_READY \<or> s = RT_THREAD_RUNNING"

text \<open>The parts of the state outside the scheduler, and what it never changes in a thread.\<close>

definition sched_frame :: "kernel \<Rightarrow> kernel \<Rightarrow> bool" where
  "sched_frame k k' \<longleftrightarrow>
     timers k' = timers k \<and> timer_list k' = timer_list k \<and> soft_timer_list k' = soft_timer_list k \<and>
     expired_list k' = expired_list k \<and> soft_expired_list k' = soft_expired_list k \<and>
     soft_timer_status k' = soft_timer_status k \<and> rt_tick k' = rt_tick k \<and>
     rt_scheduler_lock_nest k' = rt_scheduler_lock_nest k \<and> rt_interrupt_nest k' = rt_interrupt_nest k \<and>
     (\<forall>w. links k' (Wait w) = links k (Wait w)) \<and> links k' Defunct = links k Defunct \<and>
     (\<forall>t. \<exists>s y. tcbs k' t = (tcbs k t)\<lparr>stat := s, stat_yield := y\<rparr> \<and>
        (if active (stat (tcbs k t)) then active s else s = stat (tcbs k t)))"

lemma sched_frame_refl: "sched_frame k k"
proof -
  have "\<exists>s y. tcbs k t = (tcbs k t)\<lparr>stat := s, stat_yield := y\<rparr> \<and>
      (if active (stat (tcbs k t)) then active s else s = stat (tcbs k t))" for t
    by (rule exI [of _ "stat (tcbs k t)"], rule exI [of _ "stat_yield (tcbs k t)"]) simp
  then show ?thesis by (simp add: sched_frame_def)
qed

text \<open>The two outcomes of \<open>rt_schedule\<close> when it does something.\<close>

definition stay :: "nat \<Rightarrow> kernel \<Rightarrow> kernel" where
  "stay c k = set_stat c RT_THREAD_RUNNING (ready_remove c (upd_tcb c (\<lambda>c. c\<lparr>stat_yield := False\<rparr>) k))"

definition switch :: "nat \<Rightarrow> nat \<Rightarrow> nat \<Rightarrow> kernel \<Rightarrow> kernel" where
  "switch c to_thread highest k =
     (let running = stat (tcbs k c) = RT_THREAD_RUNNING;
          k = (if running then upd_tcb c (\<lambda>c. c\<lparr>stat_yield := False\<rparr>) k else k);
          k = k\<lparr>rt_current_priority := of_nat highest, rt_current_thread := Some to_thread\<rparr>;
          k = (if running then ready_insert c k else k)
      in set_stat to_thread RT_THREAD_RUNNING (ready_remove to_thread k))"

lemma rt_schedule_cases:
  assumes k: "queue_inv k" "run_inv k" and c: "rt_current_thread k = Some c"
  obtains (idle) "rt_schedule k = Inr k" "rt_scheduler_lock_nest k \<noteq> 0 \<or> rt_thread_ready_priority_group k = 0"
  | (keep) t p where "rt_schedule k = Inr (stay c k)" "rt_scheduler_lock_nest k = 0"
      "stat (tcbs k c) = RT_THREAD_RUNNING" "unat (current_priority (tcbs k c)) \<le> p"
      "\<And>u. stat (tcbs k u) = RT_THREAD_READY \<Longrightarrow> p \<le> unat (current_priority (tcbs k u))"
  | (change) t p where "rt_schedule k = Inr (switch c t p k)" "rt_scheduler_lock_nest k = 0" "t \<noteq> c"
      "stat (tcbs k t) = RT_THREAD_READY" "unat (current_priority (tcbs k t)) = p"
      "\<And>u. stat (tcbs k u) = RT_THREAD_READY \<Longrightarrow> p \<le> unat (current_priority (tcbs k u))"
      "stat (tcbs k c) = RT_THREAD_RUNNING \<Longrightarrow> p \<le> unat (current_priority (tcbs k c)) \<and>
         (p = unat (current_priority (tcbs k c)) \<longrightarrow> stat_yield (tcbs k c))"
proof (cases "rt_scheduler_lock_nest k = 0 \<and> rt_thread_ready_priority_group k \<noteq> 0")
  case False
  then show ?thesis using idle by (auto simp: rt_schedule_def)
next
  case True
  obtain t p where tp: "scheduler_get_highest_priority_thread k = Inr (t, p)" "p < 32"
    "stat (tcbs k t) = RT_THREAD_READY" "unat (current_priority (tcbs k t)) = p"
    and low: "\<And>u. stat (tcbs k u) = RT_THREAD_READY \<Longrightarrow> p \<le> unat (current_priority (tcbs k u))"
    by (rule get_highest [OF k(1)]) (use True in auto)
  have tc: "t \<noteq> c" using k(2) c tp(3) by (auto simp: run_inv_def)
  have ok: "tcb_ok (tcbs k u)" for u using k(1) by (simp add: queue_inv_def)
  have t32: "current_priority (tcbs k t) < 32" using ok [of t] tp(3) by (simp add: tcb_ok_def)
  have c32: "current_priority (tcbs k c) < 32" if "stat (tcbs k c) = RT_THREAD_RUNNING"
    using ok [of c] that by (simp add: tcb_ok_def)
  show ?thesis
  proof (cases "stat (tcbs k c) = RT_THREAD_RUNNING \<and> (unat (current_priority (tcbs k c)) < p \<or>
      unat (current_priority (tcbs k c)) = p \<and> \<not> stat_yield (tcbs k c))")
    case stays: True
    then have "rt_schedule k = Inr (stay c k)"
      using True tp(1) c c32
      by (auto simp: rt_schedule_def schedule_choice_def stay_def rt_schedule_remove_thread_eq)
    then show ?thesis using keep [of p] stays True low by auto
  next
    case False
    then have "rt_schedule k = Inr (switch c t p k)"
      using True tp(1) c tc c32 t32
      by (auto simp: rt_schedule_def schedule_choice_def switch_def Let_def
          rt_schedule_remove_thread_eq rt_schedule_insert_thread_eq)
    then show ?thesis using change [of t p] False True tc tp low by (auto simp: not_less)
  qed
qed

lemma queue_inv_upd:
  assumes "queue_inv k" and "stat (f (tcbs k t)) = stat (tcbs k t)"
    and "current_priority (f (tcbs k t)) = current_priority (tcbs k t)"
    and "number_mask (f (tcbs k t)) = number_mask (tcbs k t)"
  shows "queue_inv (upd_tcb t f k)"
  using assms by (auto simp: queue_inv_def lists_ok_def stats_ok_def group_ok_def tcb_ok_def)

lemma queue_inv_only [simp]:
  "queue_inv (k\<lparr>rt_current_thread := c\<rparr>) = queue_inv k"
  "queue_inv (k\<lparr>rt_current_priority := p\<rparr>) = queue_inv k"
  "queue_inv (k\<lparr>rt_tick := n\<rparr>) = queue_inv k"
  "queue_inv (k\<lparr>rt_scheduler_lock_nest := l\<rparr>) = queue_inv k"
  "queue_inv (k\<lparr>timers := tm\<rparr>) = queue_inv k"
  "queue_inv (k\<lparr>timer_list := tl1\<rparr>) = queue_inv k"
  "queue_inv (k\<lparr>soft_timer_list := tl1\<rparr>) = queue_inv k"
  "queue_inv (k\<lparr>expired_list := tl1\<rparr>) = queue_inv k"
  "queue_inv (k\<lparr>soft_expired_list := tl1\<rparr>) = queue_inv k"
  "queue_inv (k\<lparr>soft_timer_status := ss\<rparr>) = queue_inv k"
  by (simp_all add: queue_inv_def lists_ok_def stats_ok_def group_ok_def)

lemma unlinked_filter: "unlinked k t \<Longrightarrow> filter (\<lambda>u. u \<noteq> t) (links k l) = links k l"
  by (auto simp: unlinked_def filter_id_conv)

lemma running_unlinked:
  "queue_inv k \<Longrightarrow> stat (tcbs k t) = RT_THREAD_RUNNING \<Longrightarrow> unlinked k t"
proof -
  assume k: "queue_inv k" and t: "stat (tcbs k t) = RT_THREAD_RUNNING"
  have "t \<notin> set (links k l)" for l
    using k t by (cases l) (auto simp: queue_inv_def stats_ok_def)
  then show ?thesis by (simp add: unlinked_def)
qed

lemma init_unlinked:
  "queue_inv k \<Longrightarrow> stat (tcbs k t) = RT_THREAD_INIT \<Longrightarrow> unlinked k t"
proof -
  assume k: "queue_inv k" and t: "stat (tcbs k t) = RT_THREAD_INIT"
  have "t \<notin> set (links k l)" for l
    using k t by (cases l) (auto simp: queue_inv_def stats_ok_def)
  then show ?thesis by (simp add: unlinked_def)
qed

lemma tcb_ok_started:
  "queue_inv k \<Longrightarrow> stat (tcbs k t) \<noteq> RT_THREAD_INIT \<Longrightarrow> stat (tcbs k t) \<noteq> RT_THREAD_CLOSE \<Longrightarrow>
   current_priority (tcbs k t) < 32 \<and> number_mask (tcbs k t) = prio_mask (current_priority (tcbs k t))"
  by (cases "stat (tcbs k t)") (auto simp: queue_inv_def tcb_ok_def)

lemma run_inv_only:
  "run_inv k \<Longrightarrow> rt_current_thread k = Some c \<Longrightarrow> stat (tcbs k t) = RT_THREAD_RUNNING \<Longrightarrow> t = c"
  unfolding run_inv_def by fastforce

lemma run_invI:
  assumes "rt_current_thread k = Some c" and "\<And>t. stat (tcbs k t) = RT_THREAD_RUNNING \<Longrightarrow> t = c"
    and "stat (tcbs k c) \<noteq> RT_THREAD_READY" and "stat (tcbs k c) \<noteq> RT_THREAD_INIT"
  shows "run_inv k"
  unfolding run_inv_def using assms by auto

lemma stay_inv:
  assumes "queue_inv k" "run_inv k" "rt_current_thread k = Some c" "stat (tcbs k c) = RT_THREAD_RUNNING"
  shows "queue_inv (stay c k) \<and> run_inv (stay c k)"
proof -
  have y: "queue_inv (upd_tcb c (\<lambda>c. c\<lparr>stat_yield := False\<rparr>) k)"
    using assms(1) by (rule queue_inv_upd) simp_all
  have "queue_inv (stay c k)"
    using tcb_ok_started [OF assms(1), of c] assms(4) unfolding stay_def set_stat_def
    by (intro ready_remove_inv [OF y]) (simp_all add: tcb_ok_def)
  moreover have "run_inv (stay c k)"
    by (rule run_invI [of _ c])
      (use assms(3) run_inv_only [OF assms(2,3)] in \<open>auto simp: stay_def set_stat_def split: if_splits\<close>)
  ultimately show ?thesis ..
qed

lemma switch_inv:
  assumes k: "queue_inv k" "run_inv k" "rt_current_thread k = Some c" and t: "stat (tcbs k t) = RT_THREAD_READY"
  shows "queue_inv (switch c t p k) \<and> run_inv (switch c t p k)"
proof -
  have tc: "t \<noteq> c" using k t by (auto simp: run_inv_def)
  let ?run = "stat (tcbs k c) = RT_THREAD_RUNNING"
  define k1 where "k1 = (if ?run then upd_tcb c (\<lambda>c. c\<lparr>stat_yield := False\<rparr>) k else k)"
  define k2 where "k2 = k1\<lparr>rt_current_priority := of_nat p, rt_current_thread := Some t\<rparr>"
  define k3 where "k3 = (if ?run then ready_insert c k2 else k2)"
  have k1: "queue_inv k1" unfolding k1_def using queue_inv_upd [OF k(1)] k(1) by simp
  then have k2: "queue_inv k2" by (simp add: k2_def)
  have "queue_inv k3"
  proof (cases ?run)
    case True
    have "stat (tcbs k2 c) = RT_THREAD_RUNNING" using True by (simp add: k1_def k2_def)
    with ready_insert_inv [OF k2 running_unlinked [OF k2]] tcb_ok_started [OF k2, of c]
    show ?thesis by (simp add: k3_def True)
  next
    case False
    then show ?thesis using k2 by (simp add: k3_def)
  qed
  have s: "stat (tcbs k3 t) = RT_THREAD_READY" using t tc by (simp add: k3_def k2_def k1_def)
  have s3: "stat (tcbs k3 u) \<noteq> RT_THREAD_RUNNING" for u
  proof (cases "u = c")
    case True
    then show ?thesis by (simp add: k3_def k2_def k1_def)
  next
    case False
    then have "stat (tcbs k u) \<noteq> RT_THREAD_RUNNING" using run_inv_only [OF k(2,3)] by blast
    then show ?thesis using False by (simp add: k3_def k2_def k1_def)
  qed
  have cur3: "rt_current_thread k3 = Some t" by (simp add: k3_def k2_def)
  from \<open>queue_inv k3\<close> s have "queue_inv (set_stat t RT_THREAD_RUNNING (ready_remove t k3))"
    using tcb_ok_started [of k3 t] unfolding set_stat_def
    by (intro ready_remove_inv) (simp_all add: tcb_ok_def)
  moreover have "switch c t p k = set_stat t RT_THREAD_RUNNING (ready_remove t k3)"
    by (simp add: switch_def Let_def k1_def k2_def k3_def)
  moreover have "run_inv (set_stat t RT_THREAD_RUNNING (ready_remove t k3))"
    by (rule run_invI [of _ t]) (use s3 cur3 in \<open>auto simp: set_stat_def split: if_splits\<close>)
  ultimately show ?thesis by simp
qed

lemma tcb_update_self:
  "\<exists>s y. (c :: tcb) = c\<lparr>stat := s, stat_yield := y\<rparr> \<and> (if active (stat c) then active s else s = stat c)"
  by (rule exI [of _ "stat c"], rule exI [of _ "stat_yield c"]) simp

lemma stay_frame:
  assumes k: "queue_inv k" and c: "stat (tcbs k c) = RT_THREAD_RUNNING"
  shows "sched_frame k (stay c k)"
proof -
  have "\<exists>s y. tcbs (stay c k) t = (tcbs k t)\<lparr>stat := s, stat_yield := y\<rparr> \<and>
        (if active (stat (tcbs k t)) then active s else s = stat (tcbs k t))" for t
  proof (cases "t = c")
    case True
    then show ?thesis using c
      by (intro exI [of _ RT_THREAD_RUNNING] exI [of _ False]) (simp add: stay_def set_stat_def active_def)
  next
    case False
    then show ?thesis using tcb_update_self [of "tcbs k t"] by (simp add: stay_def set_stat_def)
  qed
  then show ?thesis
    using unlinked_filter [OF running_unlinked [OF k c]]
    by (simp add: sched_frame_def stay_def set_stat_def)
qed

lemma switch_frame:
  assumes k: "queue_inv k" "run_inv k" "rt_current_thread k = Some c" and t: "stat (tcbs k t) = RT_THREAD_READY"
  shows "sched_frame k (switch c t p k)"
proof -
  have tc: "t \<noteq> c" using k t by (auto simp: run_inv_def)
  have "\<exists>s y. tcbs (switch c t p k) u = (tcbs k u)\<lparr>stat := s, stat_yield := y\<rparr> \<and>
        (if active (stat (tcbs k u)) then active s else s = stat (tcbs k u))" for u
  proof (cases "u = t")
    case True
    then show ?thesis using t tc
      by (intro exI [of _ RT_THREAD_RUNNING] exI [of _ "stat_yield (tcbs k t)"])
        (simp add: switch_def Let_def set_stat_def active_def)
  next
    case ut: False
    show ?thesis
    proof (cases "u = c \<and> stat (tcbs k c) = RT_THREAD_RUNNING")
      case True
      then show ?thesis using tc
        by (intro exI [of _ RT_THREAD_READY] exI [of _ False])
          (simp add: switch_def Let_def set_stat_def active_def)
    next
      case False
      then have "tcbs (switch c t p k) u = tcbs k u" using ut by (auto simp: switch_def Let_def set_stat_def)
      then show ?thesis using tcb_update_self [of "tcbs k u"] by simp
    qed
  qed
  moreover have "links (switch c t p k) (Wait w) = links k (Wait w)"
    "links (switch c t p k) Defunct = links k Defunct" for w
    using k(1) t by (auto simp: switch_def Let_def set_stat_def filter_id_conv queue_inv_def stats_ok_def)
  ultimately show ?thesis by (simp add: sched_frame_def switch_def Let_def set_stat_def)
qed

text \<open>Everything a client of \<open>rt_schedule\<close> needs.\<close>

lemma rt_schedule_ok:
  assumes k: "queue_inv k" "run_inv k" and c: "rt_current_thread k = Some c"
  obtains k' t where "rt_schedule k = Inr k'" "queue_inv k'" "run_inv k'" "sched_frame k k'"
    "rt_current_thread k' = Some t"
    "rt_scheduler_lock_nest k = 0 \<Longrightarrow> stat (tcbs k c) = RT_THREAD_RUNNING \<or> (\<exists>u. stat (tcbs k u) = RT_THREAD_READY) \<Longrightarrow>
       stat (tcbs k' t) = RT_THREAD_RUNNING \<and>
       (\<forall>u. stat (tcbs k' u) = RT_THREAD_READY \<longrightarrow> current_priority (tcbs k' t) \<le> current_priority (tcbs k' u))"
proof (rule rt_schedule_cases [OF k c])
  assume s: "rt_schedule k = Inr k" and i: "rt_scheduler_lock_nest k \<noteq> 0 \<or> rt_thread_ready_priority_group k = 0"
  then show thesis
    using that [OF s k sched_frame_refl c] group_zero_iff [OF k(1)] by blast
next
  fix p
  assume s: "rt_schedule k = Inr (stay c k)" and l: "rt_scheduler_lock_nest k = 0"
    and r: "stat (tcbs k c) = RT_THREAD_RUNNING" and p: "unat (current_priority (tcbs k c)) \<le> p"
    and low: "\<And>u. stat (tcbs k u) = RT_THREAD_READY \<Longrightarrow> p \<le> unat (current_priority (tcbs k u))"
  have "current_priority (tcbs (stay c k) c) \<le> current_priority (tcbs (stay c k) u)"
    if "stat (tcbs (stay c k) u) = RT_THREAD_READY" for u
    using that low [of u] p by (simp add: stay_def set_stat_def word_le_nat_alt split: if_splits)
  then show thesis
    using that [OF s, of c] stay_inv [OF k c r] stay_frame [OF k(1) r] c
    by (simp add: stay_def set_stat_def)
next
  fix t p
  assume s: "rt_schedule k = Inr (switch c t p k)" and tc: "t \<noteq> c"
    and t: "stat (tcbs k t) = RT_THREAD_READY" "unat (current_priority (tcbs k t)) = p"
    and low: "\<And>u. stat (tcbs k u) = RT_THREAD_READY \<Longrightarrow> p \<le> unat (current_priority (tcbs k u))"
    and yld: "stat (tcbs k c) = RT_THREAD_RUNNING \<Longrightarrow> p \<le> unat (current_priority (tcbs k c)) \<and>
         (p = unat (current_priority (tcbs k c)) \<longrightarrow> stat_yield (tcbs k c))"
  have pr: "current_priority (tcbs (switch c t p k) u) = current_priority (tcbs k u)" for u
    by (simp add: switch_def Let_def set_stat_def)
  have st: "stat (tcbs (switch c t p k) u) = RT_THREAD_READY \<Longrightarrow>
      stat (tcbs k u) = RT_THREAD_READY \<or> u = c \<and> stat (tcbs k c) = RT_THREAD_RUNNING" for u
    by (simp add: switch_def Let_def set_stat_def split: if_splits)
  have "current_priority (tcbs (switch c t p k) t) \<le> current_priority (tcbs (switch c t p k) u)"
    if "stat (tcbs (switch c t p k) u) = RT_THREAD_READY" for u
    unfolding pr using st [OF that] low [of u] yld t(2) by (auto simp: word_le_nat_alt)
  moreover have "stat (tcbs (switch c t p k) t) = RT_THREAD_RUNNING" "rt_current_thread (switch c t p k) = Some t"
    by (simp_all add: switch_def Let_def set_stat_def)
  ultimately show thesis
    using that [OF s, of t] switch_inv [OF k c t(1), of p] switch_frame [OF k c t(1), of p] by simp
qed

section \<open>Waking a suspended thread\<close>

lemma remove_suspended_inv:
  assumes k: "queue_inv k" and t: "stat (tcbs k t) = RT_THREAD_SUSPEND"
  shows "queue_inv (rt_list_remove t k)" and "unlinked (rt_list_remove t k) t"
    and "links (rt_list_remove t k) (Ready p) = links k (Ready p)"
    and "links (rt_list_remove t k) Defunct = links k Defunct"
proof -
  have r: "t \<notin> set (links k (Ready p))" "t \<notin> set (links k Defunct)" for p
    using k t by (auto simp: queue_inv_def stats_ok_def)
  then show "links (rt_list_remove t k) (Ready p) = links k (Ready p)"
    and "links (rt_list_remove t k) Defunct = links k Defunct" for p by simp_all
  show "unlinked (rt_list_remove t k) t" by (simp add: unlinked_def)
  have "group_ok (rt_list_remove t k)" using k r(1) by (simp add: queue_inv_def group_ok_def)
  moreover have "lists_ok (rt_list_remove t k)" using k by (auto simp: queue_inv_def lists_ok_def)
  moreover have "stats_ok (rt_list_remove t k)" using k t by (auto simp: queue_inv_def stats_ok_def)
  ultimately show "queue_inv (rt_list_remove t k)" using k by (simp add: queue_inv_def)
qed

definition wake :: "nat \<Rightarrow> kernel \<Rightarrow> kernel" where
  "wake t k = (if rt_current_thread k = Some t then set_stat t RT_THREAD_RUNNING (rt_list_remove t k)
               else ready_insert t (rt_list_remove t k))"

lemma insert_woken_eq:
  assumes "queue_inv k" and "stat (tcbs k t) = RT_THREAD_SUSPEND"
  shows "rt_schedule_insert_thread t (rt_list_remove t k) = Inr (wake t k)"
proof (cases "rt_current_thread k = Some t")
  case True
  then show ?thesis by (simp add: rt_schedule_insert_thread_def wake_def)
next
  case False
  then show ?thesis
    using tcb_ok_started [OF assms(1), of t] assms(2) by (simp add: rt_schedule_insert_thread_eq wake_def)
qed

lemma wake_inv:
  assumes k: "queue_inv k" and t: "stat (tcbs k t) = RT_THREAD_SUSPEND"
  shows "queue_inv (wake t k)"
proof (cases "rt_current_thread k = Some t")
  case True
  note r = remove_suspended_inv [OF k t]
  have "tcb_ok (tcbs k t)" using k by (simp add: queue_inv_def)
  then show ?thesis
    using r(1,2) t True
    by (auto simp: wake_def set_stat_def queue_inv_def lists_ok_def stats_ok_def group_ok_def tcb_ok_def unlinked_def)
next
  case False
  then show ?thesis
    using ready_insert_inv [OF remove_suspended_inv(1,2) [OF k t]] tcb_ok_started [OF k, of t] t
    by (simp add: wake_def)
qed

lemma wake_run_inv:
  assumes "run_inv k" and "rt_current_thread k = Some c" and "stat (tcbs k t) = RT_THREAD_SUSPEND"
  shows "run_inv (wake t k)"
proof (rule run_invI [of _ c])
  show "rt_current_thread (wake t k) = Some c" using assms(2) by (simp add: wake_def set_stat_def)
  show "u = c" if "stat (tcbs (wake t k) u) = RT_THREAD_RUNNING" for u
    using that run_inv_only [OF assms(1,2), of u] assms(2)
    by (auto simp: wake_def set_stat_def split: if_splits)
  have "stat (tcbs k c) \<noteq> RT_THREAD_READY" "stat (tcbs k c) \<noteq> RT_THREAD_INIT"
    using assms(1,2) by (simp_all add: run_inv_def)
  then show "stat (tcbs (wake t k) c) \<noteq> RT_THREAD_READY" "stat (tcbs (wake t k) c) \<noteq> RT_THREAD_INIT"
    using assms(2) by (auto simp: wake_def set_stat_def)
qed

lemma wake_sel [simp]:
  "rt_current_thread (wake t k) = rt_current_thread k" "timers (wake t k) = timers k"
  "rt_tick (wake t k) = rt_tick k" "timer_list (wake t k) = timer_list k"
  "soft_timer_list (wake t k) = soft_timer_list k" "expired_list (wake t k) = expired_list k"
  "soft_expired_list (wake t k) = soft_expired_list k" "soft_timer_status (wake t k) = soft_timer_status k"
  "rt_scheduler_lock_nest (wake t k) = rt_scheduler_lock_nest k" "rt_interrupt_nest (wake t k) = rt_interrupt_nest k"
  "links (wake t k) (Wait w) = filter (\<lambda>u. u \<noteq> t) (links k (Wait w))"
  "links (wake t k) Defunct = filter (\<lambda>u. u \<noteq> t) (links k Defunct)"
  "tcbs (wake t k) u = (if u = t then (tcbs k t)\<lparr>stat := if rt_current_thread k = Some t then RT_THREAD_RUNNING
      else RT_THREAD_READY\<rparr> else tcbs k u)"
  by (simp_all add: wake_def set_stat_def)

lemma queue_inv_cong:
  "tcbs k' = tcbs k \<Longrightarrow> links k' = links k \<Longrightarrow>
   rt_thread_ready_priority_group k' = rt_thread_ready_priority_group k \<Longrightarrow> queue_inv k' = queue_inv k"
  by (simp add: queue_inv_def lists_ok_def stats_ok_def group_ok_def)

lemma run_inv_cong:
  "tcbs k' = tcbs k \<Longrightarrow> rt_current_thread k' = rt_current_thread k \<Longrightarrow> run_inv k' = run_inv k"
  by (simp add: run_inv_def)

text \<open>The processor runs a \<open>RUNNING\<close> thread and no ready thread is more urgent.\<close>

definition settled :: "kernel \<Rightarrow> bool" where
  "settled k \<longleftrightarrow> (rt_scheduler_lock_nest k = 0 \<longrightarrow>
     (\<exists>c. rt_current_thread k = Some c \<and> stat (tcbs k c) = RT_THREAD_RUNNING \<and>
        (\<forall>u. stat (tcbs k u) = RT_THREAD_READY \<longrightarrow> current_priority (tcbs k c) \<le> current_priority (tcbs k u))))"

lemma settled_cong:
  "tcbs k' = tcbs k \<Longrightarrow> rt_current_thread k' = rt_current_thread k \<Longrightarrow>
   rt_scheduler_lock_nest k' = rt_scheduler_lock_nest k \<Longrightarrow> settled k' = settled k"
  by (simp add: settled_def)

lemma rt_schedule_settles:
  assumes k: "queue_inv k" "run_inv k" and c: "rt_current_thread k = Some c"
    and some: "\<exists>u. active (stat (tcbs k u))"
  obtains k' where "rt_schedule k = Inr k'" "queue_inv k'" "run_inv k'" "sched_frame k k'"
    "rt_current_thread k' \<noteq> None" "settled k'"
proof -
  have "stat (tcbs k c) = RT_THREAD_RUNNING \<or> (\<exists>u. stat (tcbs k u) = RT_THREAD_READY)"
    using some run_inv_only [OF k(2) c] by (auto simp: active_def)
  then show thesis
    using that by (rule_tac rt_schedule_ok [OF k c]) (auto simp: settled_def sched_frame_def)
qed

text \<open>The current thread is \<open>RUNNING\<close>.\<close>

definition runs :: "kernel \<Rightarrow> bool" where
  "runs k \<longleftrightarrow> (\<exists>c. rt_current_thread k = Some c \<and> stat (tcbs k c) = RT_THREAD_RUNNING)"

lemma runs_cong: "tcbs k' = tcbs k \<Longrightarrow> rt_current_thread k' = rt_current_thread k \<Longrightarrow> runs k' = runs k"
  by (simp add: runs_def)

lemma settled_runs: "settled k \<Longrightarrow> rt_scheduler_lock_nest k = 0 \<Longrightarrow> runs k"
  by (auto simp: settled_def runs_def)

lemma rt_schedule_runs:
  assumes "queue_inv k" "run_inv k" "runs k" "rt_schedule k = Inr k'"
  shows "runs k'"
proof -
  obtain c where c: "rt_current_thread k = Some c" using assms(3) by (auto simp: runs_def)
  show ?thesis
    by (rule rt_schedule_cases [OF assms(1,2) c])
      (use assms(3,4) c in \<open>auto simp: runs_def stay_def switch_def Let_def set_stat_def\<close>)
qed

lemma sched_frame_stat:
  assumes "sched_frame k k'"
  shows "active (stat (tcbs k t)) \<Longrightarrow> active (stat (tcbs k' t))"
    and "\<not> active (stat (tcbs k t)) \<Longrightarrow> stat (tcbs k' t) = stat (tcbs k t)"
    and "current_priority (tcbs k' t) = current_priority (tcbs k t)"
    and "error (tcbs k' t) = error (tcbs k t)"
    and "links k' (Wait w) = links k (Wait w)"
    and "rt_scheduler_lock_nest k' = rt_scheduler_lock_nest k"
    and "event_set (tcbs k' t) = event_set (tcbs k t)" and "event_info (tcbs k' t) = event_info (tcbs k t)"
    and "rt_interrupt_nest k' = rt_interrupt_nest k"
proof -
  have "\<exists>s y. tcbs k' t = (tcbs k t)\<lparr>stat := s, stat_yield := y\<rparr> \<and>
        (if active (stat (tcbs k t)) then active s else s = stat (tcbs k t))"
    using assms by (simp add: sched_frame_def)
  then obtain s y where *: "tcbs k' t = (tcbs k t)\<lparr>stat := s, stat_yield := y\<rparr>"
    "if active (stat (tcbs k t)) then active s else s = stat (tcbs k t)" by blast
  then show "active (stat (tcbs k t)) \<Longrightarrow> active (stat (tcbs k' t))"
    and "\<not> active (stat (tcbs k t)) \<Longrightarrow> stat (tcbs k' t) = stat (tcbs k t)"
    and "current_priority (tcbs k' t) = current_priority (tcbs k t)"
    and "error (tcbs k' t) = error (tcbs k t)"
    and "event_set (tcbs k' t) = event_set (tcbs k t)" and "event_info (tcbs k' t) = event_info (tcbs k t)"
    by (simp_all split: if_splits)
  show "links k' (Wait w) = links k (Wait w)" "rt_scheduler_lock_nest k' = rt_scheduler_lock_nest k"
    "rt_interrupt_nest k' = rt_interrupt_nest k"
    using assms by (simp_all add: sched_frame_def)
qed

section \<open>A concrete state\<close>

text \<open>Thread 2 runs at priority 10, thread 3 is ready at priority 20 and the idle thread at 31; nothing
  waits and no timer runs.\<close>

definition demo_tcb :: "thread_stat \<Rightarrow> u8 \<Rightarrow> tcb" where
  "demo_tcb s p = \<lparr>stat = s, stat_yield = False, current_priority = p, number_mask = prio_mask p, init_tick = 10,
     remaining_tick = 10, error = 0, event_set = 0, event_info = 0, systemobject = True\<rparr>"

definition demo :: kernel where
  "demo = \<lparr>tcbs = (\<lambda>_. demo_tcb RT_THREAD_INIT 0)(2 := demo_tcb RT_THREAD_RUNNING 10, 3 := demo_tcb RT_THREAD_READY 20,
       idle_thread := demo_tcb RT_THREAD_READY 31),
     links = (\<lambda>_. [])(Ready 20 := [3], Ready 31 := [idle_thread]),
     rt_thread_ready_priority_group = prio_mask 20 OR prio_mask 31, rt_current_thread = Some 2,
     rt_current_priority = 10, rt_scheduler_lock_nest = 0, rt_interrupt_nest = 0, rt_tick = 0,
     timers = \<lambda>_. \<lparr>activated = False, periodic = False, soft_timer = False, timeout_tick = 0, timer_init_tick = 0\<rparr>,
     timer_list = [], soft_timer_list = [], expired_list = [], soft_expired_list = [],
     soft_timer_status = RT_SOFT_TIMER_IDLE\<rparr>"

lemma demo_inv: "queue_inv demo" "run_inv demo"
proof -
  have "bit (prio_mask 20) p \<longleftrightarrow> p = 20" "bit (prio_mask 31) p \<longleftrightarrow> p = 31" for p
    by (simp_all add: bit_prio_mask)
  then have "group_ok demo" by (simp add: group_ok_def demo_def bit_or_iff)
  moreover have "lists_ok demo" by (simp add: lists_ok_def demo_def)
  moreover have "stats_ok demo" by (auto simp: stats_ok_def demo_def demo_tcb_def idle_thread_def)
  ultimately show "queue_inv demo" by (auto simp: queue_inv_def demo_def demo_tcb_def tcb_ok_def idle_thread_def)
  show "run_inv demo" by (simp add: run_inv_def demo_def demo_tcb_def idle_thread_def)
qed

section \<open>Properties\<close>

text \<open>
  C1. \<open>rt_schedule\<close> with the scheduler unlocked: it succeeds, keeps the queues consistent, and leaves
  the processor with a running thread such that no ready thread is more urgent; a running thread
  that has not given up its slice keeps the processor against threads of its own priority.
\<close>

theorem rt_schedule_highest:
  assumes "queue_inv k" and "run_inv k" and "rt_current_thread k = Some c" and "rt_scheduler_lock_nest k = 0"
    and "stat (tcbs k c) = RT_THREAD_RUNNING \<or> (\<exists>u. stat (tcbs k u) = RT_THREAD_READY)"
  shows "\<exists>k' t. rt_schedule k = Inr k' \<and> queue_inv k' \<and> run_inv k' \<and> rt_current_thread k' = Some t \<and>
     stat (tcbs k' t) = RT_THREAD_RUNNING \<and>
     (\<forall>u. stat (tcbs k' u) = RT_THREAD_READY \<longrightarrow> current_priority (tcbs k' t) \<le> current_priority (tcbs k' u)) \<and>
     (stat (tcbs k c) = RT_THREAD_RUNNING \<and> \<not> stat_yield (tcbs k c) \<and>
      (\<forall>u. stat (tcbs k u) = RT_THREAD_READY \<longrightarrow> current_priority (tcbs k c) \<le> current_priority (tcbs k u)) \<longrightarrow> t = c)"
proof -
  obtain k' t where s: "rt_schedule k = Inr k'" "queue_inv k'" "run_inv k'" "rt_current_thread k' = Some t"
    "stat (tcbs k' t) = RT_THREAD_RUNNING \<and>
     (\<forall>u. stat (tcbs k' u) = RT_THREAD_READY \<longrightarrow> current_priority (tcbs k' t) \<le> current_priority (tcbs k' u))"
    using rt_schedule_ok [OF assms(1-3)] assms(4,5) by metis
  have "t = c" if r: "stat (tcbs k c) = RT_THREAD_RUNNING" "\<not> stat_yield (tcbs k c)"
    "\<forall>u. stat (tcbs k u) = RT_THREAD_READY \<longrightarrow> current_priority (tcbs k c) \<le> current_priority (tcbs k u)"
  proof (rule rt_schedule_cases [OF assms(1-3)])
    assume "rt_schedule k = Inr k"
    then show "t = c" using s(1,4) assms(3) by simp
  next
    assume "rt_schedule k = Inr (stay c k)"
    then show "t = c" using s(1,4) assms(3) by (auto simp: stay_def set_stat_def)
  next
    fix u p
    assume "stat (tcbs k u) = RT_THREAD_READY" "unat (current_priority (tcbs k u)) = p"
      "stat (tcbs k c) = RT_THREAD_RUNNING \<Longrightarrow> p \<le> unat (current_priority (tcbs k c)) \<and>
         (p = unat (current_priority (tcbs k c)) \<longrightarrow> stat_yield (tcbs k c))"
    then have False using r by (auto simp: word_le_nat_alt)
    then show "t = c" ..
  qed
  with s show ?thesis by blast
qed

theorem rt_schedule_highest_witness:
  "\<exists>k' t. rt_schedule demo = Inr k' \<and> rt_current_thread k' = Some t \<and> t = 2 \<and> queue_inv k'"
proof -
  have d: "rt_current_thread demo = Some 2" "rt_scheduler_lock_nest demo = 0" "stat (tcbs demo 2) = RT_THREAD_RUNNING"
    "\<not> stat_yield (tcbs demo 2)" "current_priority (tcbs demo 2) = 10"
    "\<And>u. stat (tcbs demo u) = RT_THREAD_READY \<Longrightarrow> u = 3 \<or> u = 1" "current_priority (tcbs demo 3) = 20"
    "current_priority (tcbs demo 1) = 31"
    by (auto simp: demo_def demo_tcb_def idle_thread_def split: if_splits)
  have "\<forall>u. stat (tcbs demo u) = RT_THREAD_READY \<longrightarrow> current_priority (tcbs demo 2) \<le> current_priority (tcbs demo u)"
    using d by force
  then show ?thesis using rt_schedule_highest [OF demo_inv d(1,2)] d(3,4) by metis
qed

end
