(* ===== verification/Timer.thy ===== *)
theory Timer
  imports Kernel
begin

text \<open>
  Kernel timers (\<open>rt-thread/src/timer.c\<close> with one skip list level and soft timers), and the two
  operations of \<open>thread.c\<close> they need, \<open>rt_thread_suspend\<close> and \<open>rt_thread_resume\<close>. Ticks wrap around,
  so deadlines are compared by their difference. With one level the insertion counter of the skip
  list has no effect and is left out, and so are the object layer (names, registration) and its type
  assertions.
\<close>

section \<open>Fields and lists\<close>

definition RT_TICK_HALF :: u32 where "RT_TICK_HALF = 0x7FFFFFFF"

definition upd_timer :: "timer_ref \<Rightarrow> (timer \<Rightarrow> timer) \<Rightarrow> kernel \<Rightarrow> kernel" where
  "upd_timer t f k = k\<lparr>timers := (timers k)(t := f (timers k t))\<rparr>"

definition set_activated :: "timer_ref \<Rightarrow> bool \<Rightarrow> kernel \<Rightarrow> kernel" where
  "set_activated t b k = upd_timer t (\<lambda>c. c\<lparr>activated := b\<rparr>) k"

text \<open>\<open>_timer_init\<close>; the flag byte has the bits periodic (2) and soft (4).\<close>

definition timer_init :: "timer_ref \<Rightarrow> u32 \<Rightarrow> u8 \<Rightarrow> kernel \<Rightarrow> kernel" where
  "timer_init t time flag k =
     upd_timer t (\<lambda>_. \<lparr>activated = False, periodic = bit flag 1, soft_timer = bit flag 2,
                        timeout_tick = 0, timer_init_tick = time\<rparr>) k"

definition timer_list_next_timeout :: "timer_ref list \<Rightarrow> kernel \<Rightarrow> u32 option" where
  "timer_list_next_timeout ts k = (case ts of [] \<Rightarrow> None | t # _ \<Rightarrow> Some (timeout_tick (timers k t)))"

text \<open>\<open>_timer_remove\<close> takes the node out of whatever list holds it.\<close>

definition timer_remove :: "timer_ref \<Rightarrow> kernel \<Rightarrow> kernel" where
  "timer_remove t k =
     k\<lparr>timer_list := filter (\<lambda>u. u \<noteq> t) (timer_list k),
       soft_timer_list := filter (\<lambda>u. u \<noteq> t) (soft_timer_list k),
       expired_list := filter (\<lambda>u. u \<noteq> t) (expired_list k),
       soft_expired_list := filter (\<lambda>u. u \<noteq> t) (soft_expired_list k)\<rparr>"

definition rt_timer_init :: "timer_ref \<Rightarrow> u32 \<Rightarrow> u8 \<Rightarrow> kernel \<Rightarrow> fault + kernel" where
  "rt_timer_init t time flag k =
     (if time < RT_TICK_HALF then Inr (timer_init t time flag k) else Inl AssertFailed)"

definition rt_timer_detach :: "timer_ref \<Rightarrow> kernel \<Rightarrow> int \<times> kernel" where
  "rt_timer_detach t k = (RT_EOK, set_activated t False (timer_remove t k))"

text \<open>\<open>rt_timer_create\<close>: \<open>obj\<close> is the answer of the allocator.\<close>

definition rt_timer_create :: "timer_ref option \<Rightarrow> u32 \<Rightarrow> u8 \<Rightarrow> kernel \<Rightarrow> fault + timer_ref option \<times> kernel" where
  "rt_timer_create obj time flag k =
     (if time < RT_TICK_HALF then
        (case obj of None \<Rightarrow> Inr (None, k) | Some t \<Rightarrow> Inr (Some t, timer_init t time flag k))
      else Inl AssertFailed)"

definition rt_timer_delete :: "timer_ref \<Rightarrow> kernel \<Rightarrow> int \<times> kernel" where
  "rt_timer_delete t k = (RT_EOK, set_activated t False (timer_remove t k))"

definition rt_timer_stop :: "timer_ref \<Rightarrow> kernel \<Rightarrow> int \<times> kernel" where
  "rt_timer_stop t k =
     (if activated (timers k t) then (RT_EOK, set_activated t False (timer_remove t k))
      else (- RT_ERROR, k))"

section \<open>Suspending and resuming a thread\<close>

definition rt_thread_suspend :: "nat \<Rightarrow> kernel \<Rightarrow> fault + int \<times> kernel" where
  "rt_thread_suspend t k =
     (if rt_current_thread k \<noteq> Some t then Inl AssertFailed
      else if stat (tcbs k t) \<noteq> RT_THREAD_READY \<and> stat (tcbs k t) \<noteq> RT_THREAD_RUNNING then Inr (- RT_ERROR, k)
      else
        bind_err (rt_schedule_remove_thread t k) (\<lambda>k.
          let k = set_stat t RT_THREAD_SUSPEND k;
              k = snd (rt_timer_stop (ThreadTimer t) k)
          in Inr (RT_EOK, k)))"

definition rt_thread_resume :: "nat \<Rightarrow> kernel \<Rightarrow> fault + int \<times> kernel" where
  "rt_thread_resume t k =
     (if stat (tcbs k t) \<noteq> RT_THREAD_SUSPEND then Inr (- RT_ERROR, k)
      else
        let k = rt_list_remove t k;
            k = snd (rt_timer_stop (ThreadTimer t) k)
        in bind_err (rt_schedule_insert_thread t k) (\<lambda>k. Inr (RT_EOK, k)))"

section \<open>Starting and checking timers\<close>

text \<open>
  The position of a new timer: before the first timer that is due strictly later, as seen through
  the wrap-around; among equals it comes last. The first argument gives the deadlines.
\<close>

fun timer_insert :: "(timer_ref \<Rightarrow> u32) \<Rightarrow> timer_ref \<Rightarrow> timer_ref list \<Rightarrow> timer_ref list" where
  "timer_insert f t [] = [t]"
| "timer_insert f t (u # us) =
     (if f u - f t = 0 then u # timer_insert f t us
      else if f u - f t < RT_TICK_HALF then t # u # us
      else u # timer_insert f t us)"

definition rt_timer_start :: "timer_ref \<Rightarrow> kernel \<Rightarrow> fault + int \<times> kernel" where
  "rt_timer_start t k =
     (let k = set_activated t False (timer_remove t k);
          k = upd_timer t (\<lambda>c. c\<lparr>timeout_tick := rt_tick k + timer_init_tick c\<rparr>) k;
          due = (\<lambda>u. timeout_tick (timers k u));
          k = (if soft_timer (timers k t) then k\<lparr>soft_timer_list := timer_insert due t (soft_timer_list k)\<rparr>
               else k\<lparr>timer_list := timer_insert due t (timer_list k)\<rparr>);
          k = set_activated t True k
      in if soft_timer (timers k t) \<and> soft_timer_status k = RT_SOFT_TIMER_IDLE \<and>
            stat (tcbs k timer_thread) = RT_THREAD_SUSPEND then
           bind_err (rt_thread_resume timer_thread k) (\<lambda>(_, k).
           bind_err (rt_schedule k) (\<lambda>k. Inr (RT_EOK, k)))
         else Inr (RT_EOK, k))"

definition RT_TIMER_CTRL_SET_TIME :: int where "RT_TIMER_CTRL_SET_TIME = 0"
definition RT_TIMER_CTRL_GET_TIME :: int where "RT_TIMER_CTRL_GET_TIME = 1"
definition RT_TIMER_CTRL_SET_ONESHOT :: int where "RT_TIMER_CTRL_SET_ONESHOT = 2"
definition RT_TIMER_CTRL_SET_PERIODIC :: int where "RT_TIMER_CTRL_SET_PERIODIC = 3"
definition RT_TIMER_CTRL_GET_STATE :: int where "RT_TIMER_CTRL_GET_STATE = 4"
definition RT_TIMER_CTRL_GET_REMAIN_TIME :: int where "RT_TIMER_CTRL_GET_REMAIN_TIME = 5"

lemmas timer_ctrl_defs = RT_TIMER_CTRL_SET_TIME_def RT_TIMER_CTRL_GET_TIME_def RT_TIMER_CTRL_SET_ONESHOT_def
  RT_TIMER_CTRL_SET_PERIODIC_def RT_TIMER_CTRL_GET_STATE_def RT_TIMER_CTRL_GET_REMAIN_TIME_def

text \<open>
  \<open>rt_timer_control\<close>; the word \<open>arg\<close> points to is passed in and returned. Reading the state runs into
  the next case, which overwrites the answer.
\<close>

definition rt_timer_control :: "timer_ref \<Rightarrow> int \<Rightarrow> u32 \<Rightarrow> kernel \<Rightarrow> fault + int \<times> u32 \<times> kernel" where
  "rt_timer_control t cmd arg k =
     (if cmd = RT_TIMER_CTRL_GET_TIME then Inr (RT_EOK, timer_init_tick (timers k t), k)
      else if cmd = RT_TIMER_CTRL_SET_TIME then
        (if arg < RT_TICK_HALF then Inr (RT_EOK, arg, upd_timer t (\<lambda>c. c\<lparr>timer_init_tick := arg\<rparr>) k)
         else Inl AssertFailed)
      else if cmd = RT_TIMER_CTRL_SET_ONESHOT then Inr (RT_EOK, arg, upd_timer t (\<lambda>c. c\<lparr>periodic := False\<rparr>) k)
      else if cmd = RT_TIMER_CTRL_SET_PERIODIC then Inr (RT_EOK, arg, upd_timer t (\<lambda>c. c\<lparr>periodic := True\<rparr>) k)
      else if cmd = RT_TIMER_CTRL_GET_STATE then
        (let arg = (if activated (timers k t) then 1 else 0 :: u32); arg = timeout_tick (timers k t)
         in Inr (RT_EOK, arg, k))
      else if cmd = RT_TIMER_CTRL_GET_REMAIN_TIME then Inr (RT_EOK, timeout_tick (timers k t), k)
      else Inr (RT_EOK, arg, k))"

text \<open>
  One expired timer in \<open>rt_timer_check\<close>. \<open>timeout_func\<close> is what the timer's function does. The local
  list of the function holds the timer while its function runs; when it is empty afterwards the
  function has stopped or restarted the timer.
\<close>

definition timer_fire :: "(timer_ref \<Rightarrow> kernel \<Rightarrow> fault + kernel) \<Rightarrow> timer_ref \<Rightarrow> kernel \<Rightarrow> fault + kernel" where
  "timer_fire timeout_func t k =
     (let k = timer_remove t k;
          k = (if periodic (timers k t) then k else set_activated t False k);
          k = k\<lparr>expired_list := t # expired_list k\<rparr>
      in bind_err (timeout_func t k) (\<lambda>k.
         if expired_list k = [] then Inr k
         else
           let k = timer_remove t k
           in if periodic (timers k t) \<and> activated (timers k t) then
                bind_err (rt_timer_start t (set_activated t False k)) (\<lambda>(_, k). Inr k)
              else Inr k))"

text \<open>The loop of \<open>rt_timer_check\<close>; None stands for a loop that does not end.\<close>

partial_function (option) timer_check_loop ::
  "(timer_ref \<Rightarrow> kernel \<Rightarrow> fault + kernel) \<Rightarrow> u32 \<Rightarrow> kernel \<Rightarrow> (fault + kernel) option" where
  "timer_check_loop timeout_func current_tick k =
     (case timer_list k of [] \<Rightarrow> Some (Inr k)
      | t # _ \<Rightarrow>
          if current_tick - timeout_tick (timers k t) < RT_TICK_HALF then
            (case timer_fire timeout_func t k of Inl e \<Rightarrow> Some (Inl e)
             | Inr k \<Rightarrow> timer_check_loop timeout_func (rt_tick k) k)
          else Some (Inr k))"

definition rt_timer_check :: "(timer_ref \<Rightarrow> kernel \<Rightarrow> fault + kernel) \<Rightarrow> kernel \<Rightarrow> (fault + kernel) option" where
  "rt_timer_check timeout_func k = timer_check_loop timeout_func (rt_tick k) (k\<lparr>expired_list := []\<rparr>)"

definition rt_timer_next_timeout_tick :: "kernel \<Rightarrow> u32" where
  "rt_timer_next_timeout_tick k =
     (case timer_list_next_timeout (timer_list k) k of None \<Rightarrow> 0xFFFFFFFF | Some n \<Rightarrow> n)"

text \<open>
  The soft timers: the same in the timer thread, with interrupts enabled while the function runs
  (the model runs it as one step).
\<close>

definition soft_timer_fire :: "(timer_ref \<Rightarrow> kernel \<Rightarrow> fault + kernel) \<Rightarrow> timer_ref \<Rightarrow> kernel \<Rightarrow> fault + kernel" where
  "soft_timer_fire timeout_func t k =
     (let k = timer_remove t k;
          k = (if periodic (timers k t) then k else set_activated t False k);
          k = k\<lparr>soft_expired_list := t # soft_expired_list k, soft_timer_status := RT_SOFT_TIMER_BUSY\<rparr>
      in bind_err (timeout_func t k) (\<lambda>k.
         let k = k\<lparr>soft_timer_status := RT_SOFT_TIMER_IDLE\<rparr>
         in if soft_expired_list k = [] then Inr k
         else
           let k = timer_remove t k
           in if periodic (timers k t) \<and> activated (timers k t) then
                bind_err (rt_timer_start t (set_activated t False k)) (\<lambda>(_, k). Inr k)
              else Inr k))"

partial_function (option) soft_timer_check_loop ::
  "(timer_ref \<Rightarrow> kernel \<Rightarrow> fault + kernel) \<Rightarrow> kernel \<Rightarrow> (fault + kernel) option" where
  "soft_timer_check_loop timeout_func k =
     (case soft_timer_list k of [] \<Rightarrow> Some (Inr k)
      | t # _ \<Rightarrow>
          if rt_tick k - timeout_tick (timers k t) < RT_TICK_HALF then
            (case soft_timer_fire timeout_func t k of Inl e \<Rightarrow> Some (Inl e)
             | Inr k \<Rightarrow> soft_timer_check_loop timeout_func k)
          else Some (Inr k))"

definition rt_soft_timer_check :: "(timer_ref \<Rightarrow> kernel \<Rightarrow> fault + kernel) \<Rightarrow> kernel \<Rightarrow> (fault + kernel) option" where
  "rt_soft_timer_check timeout_func k = soft_timer_check_loop timeout_func (k\<lparr>soft_expired_list := []\<rparr>)"

definition rt_system_timer_init :: "kernel \<Rightarrow> kernel" where
  "rt_system_timer_init k = k\<lparr>timer_list := []\<rparr>"

section \<open>The order of the timer list\<close>

lemma half_range_diff:
  fixes p q d :: int
  assumes "0 \<le> p" "p < 2147483647" "0 \<le> q" "q < 2147483647" "d = (if q \<le> p then p - q else p - q + 4294967296)"
  shows "d < 2147483647 \<longleftrightarrow> q \<le> p"
  using assms by (auto split: if_splits)

lemma cyclic_compare:
  fixes x y b :: u32
  assumes "x - b < RT_TICK_HALF" and "y - b < RT_TICK_HALF"
  shows "x - y = 0 \<longleftrightarrow> x - b = y - b" and "x - y < RT_TICK_HALF \<longleftrightarrow> y - b \<le> x - b"
proof -
  show "x - y = 0 \<longleftrightarrow> x - b = y - b" by auto
  define p q where "p = x - b" and "q = y - b"
  have d: "x - y = p - q" by (simp add: p_def q_def)
  have "uint p < 2147483647" "uint q < 2147483647"
    using assms by (simp_all add: p_def q_def RT_TICK_HALF_def word_less_def)
  moreover have "uint (p - q) = (if uint q \<le> uint p then uint p - uint q else uint p - uint q + 4294967296)"
    using uint_sub_if' [of p q] by simp
  ultimately have "uint (p - q) < 2147483647 \<longleftrightarrow> uint q \<le> uint p"
    by (intro half_range_diff) simp_all
  then show "x - y < RT_TICK_HALF \<longleftrightarrow> y - b \<le> x - b"
    unfolding d by (simp add: word_less_def word_le_def RT_TICK_HALF_def p_def q_def)
qed

lemma set_timer_insert [simp]: "set (timer_insert f t us) = insert t (set us)"
  by (induction us) auto

lemma distinct_timer_insert [simp]: "distinct (timer_insert f t us) \<longleftrightarrow> t \<notin> set us \<and> distinct us"
  by (induction us) auto

text \<open>
  Inside a window of half the tick range that starts at \<open>b\<close>, the insertion keeps the deadlines in
  increasing order and puts the new timer behind those that are due at the same tick.
\<close>

lemma timer_insert_split:
  assumes "\<forall>u \<in> insert t (set us). f u - b < RT_TICK_HALF" and "sorted (map (\<lambda>u. f u - b) us)"
  shows "timer_insert f t us = filter (\<lambda>u. f u - b \<le> f t - b) us @ t # filter (\<lambda>u. f t - b < f u - b) us"
  using assms
proof (induction us)
  case Nil
  then show ?case by simp
next
  case (Cons u us)
  have w: "f u - b < RT_TICK_HALF" "f t - b < RT_TICK_HALF" using Cons.prems(1) by simp_all
  note cmp = cyclic_compare [OF w]
  show ?case
  proof (cases "f u - b \<le> f t - b")
    case True
    then have "\<not> (f u - f t \<noteq> 0 \<and> f u - f t < RT_TICK_HALF)" unfolding cmp by auto
    then show ?thesis using True Cons by auto
  next
    case False
    then have "f u - f t \<noteq> 0" "f u - f t < RT_TICK_HALF" unfolding cmp by auto
    moreover have "filter (\<lambda>u. f u - b \<le> f t - b) us = []" "filter (\<lambda>u. f t - b < f u - b) us = us"
      using False Cons.prems(2) by (auto simp: filter_empty_conv filter_id_conv)
    ultimately show ?thesis using False by auto
  qed
qed

lemma timer_insert_sorted:
  assumes "\<forall>u \<in> insert t (set us). f u - b < RT_TICK_HALF" and "sorted (map (\<lambda>u. f u - b) us)"
  shows "sorted (map (\<lambda>u. f u - b) (timer_insert f t us))"
  unfolding timer_insert_split [OF assms]
  using assms(2) by (auto simp: sorted_append sorted_map filter_sort sorted_wrt_filter)

text \<open>Starting a hard timer.\<close>

definition started :: "timer_ref \<Rightarrow> kernel \<Rightarrow> kernel" where
  "started r k =
     (let tm = (timers k)(r := (timers k r)\<lparr>timeout_tick := rt_tick k + timer_init_tick (timers k r), activated := True\<rparr>)
      in (timer_remove r k)\<lparr>timers := tm,
           timer_list := timer_insert (\<lambda>u. timeout_tick (tm u)) r (filter (\<lambda>u. u \<noteq> r) (timer_list k))\<rparr>)"

lemma rt_timer_start_hard:
  assumes "\<not> soft_timer (timers k r)"
  shows "rt_timer_start r k = Inr (RT_EOK, started r k)"
proof -
  define tm where "tm = (timers k)(r := (timers k r)\<lparr>activated := False, timeout_tick := rt_tick k + timer_init_tick (timers k r)\<rparr>)"
  have "(\<lambda>u. timeout_tick (tm u)) = (\<lambda>u. timeout_tick (((timers k)(r := (timers k r)\<lparr>timeout_tick := rt_tick k + timer_init_tick (timers k r),
      activated := True\<rparr>)) u))"
    by (auto simp: tm_def fun_eq_iff)
  then show ?thesis
    using assms by (cases k) (simp add: rt_timer_start_def started_def Let_def set_activated_def upd_timer_def
      timer_remove_def tm_def)
qed

section \<open>The check of the timers, over any timeout function\<close>

text \<open>
  What the timer module asks of the functions of its timers: from a state where the timers \<open>past\<close> have
  run and \<open>t # future\<close> are to run, running \<open>t\<close> succeeds, leads to the state where it has run, and leaves
  the timers themselves and the tick alone. The state of the client does not depend on the timer lists.
\<close>

definition timers_kept :: "kernel \<Rightarrow> kernel \<Rightarrow> bool" where
  "timers_kept k k' \<longleftrightarrow>
     timers k' = timers k \<and> timer_list k' = timer_list k \<and> soft_timer_list k' = soft_timer_list k \<and>
     expired_list k' = expired_list k \<and> soft_expired_list k' = soft_expired_list k \<and>
     soft_timer_status k' = soft_timer_status k \<and> rt_tick k' = rt_tick k"

definition threads_kept :: "kernel \<Rightarrow> kernel \<Rightarrow> bool" where
  "threads_kept k k' \<longleftrightarrow>
     tcbs k' = tcbs k \<and> links k' = links k \<and> rt_current_thread k' = rt_current_thread k \<and>
     rt_current_priority k' = rt_current_priority k \<and>
     rt_thread_ready_priority_group k' = rt_thread_ready_priority_group k \<and>
     rt_scheduler_lock_nest k' = rt_scheduler_lock_nest k \<and> rt_interrupt_nest k' = rt_interrupt_nest k"

lemma timers_kept_refl [simp]: "timers_kept k k" by (simp add: timers_kept_def)

lemma timers_kept_trans: "timers_kept k k' \<Longrightarrow> timers_kept k' k'' \<Longrightarrow> timers_kept k k''"
  by (simp add: timers_kept_def)

lemma threads_kept_refl [simp]: "threads_kept k k" by (simp add: threads_kept_def)

lemma threads_kept_trans: "threads_kept k k' \<Longrightarrow> threads_kept k' k'' \<Longrightarrow> threads_kept k k''"
  by (simp add: threads_kept_def)

lemma sched_frame_timers: "sched_frame k k' \<Longrightarrow> timers_kept k k'"
  by (simp add: sched_frame_def timers_kept_def)

lemma threads_kept_timer_ops [simp]:
  "threads_kept k (timer_remove t k)" "threads_kept k (set_activated t b k)" "threads_kept k (upd_timer t f k)"
  "threads_kept k (k\<lparr>expired_list := e\<rparr>)" "threads_kept k (k\<lparr>timer_list := e\<rparr>)"
  "threads_kept k (k\<lparr>soft_timer_list := e\<rparr>)"
  by (simp_all add: threads_kept_def timer_remove_def set_activated_def upd_timer_def)

lemma timer_ops_sel [simp]:
  "timers (timer_remove t k) = timers k" "rt_tick (timer_remove t k) = rt_tick k"
  "timer_list (timer_remove t k) = filter (\<lambda>u. u \<noteq> t) (timer_list k)"
  "soft_timer_list (timer_remove t k) = filter (\<lambda>u. u \<noteq> t) (soft_timer_list k)"
  "expired_list (timer_remove t k) = filter (\<lambda>u. u \<noteq> t) (expired_list k)"
  "soft_expired_list (timer_remove t k) = filter (\<lambda>u. u \<noteq> t) (soft_expired_list k)"
  "soft_timer_status (timer_remove t k) = soft_timer_status k"
  "timers (upd_timer t f k) u = (if u = t then f (timers k t) else timers k u)"
  "rt_tick (upd_timer t f k) = rt_tick k" "timer_list (upd_timer t f k) = timer_list k"
  "soft_timer_list (upd_timer t f k) = soft_timer_list k" "expired_list (upd_timer t f k) = expired_list k"
  "soft_expired_list (upd_timer t f k) = soft_expired_list k"
  "soft_timer_status (upd_timer t f k) = soft_timer_status k"
  by (simp_all add: timer_remove_def upd_timer_def)

lemma threads_kept_sel:
  assumes "threads_kept k k'"
  shows "tcbs k' = tcbs k" "links k' = links k" "rt_current_thread k' = rt_current_thread k"
    "rt_thread_ready_priority_group k' = rt_thread_ready_priority_group k"
    "rt_scheduler_lock_nest k' = rt_scheduler_lock_nest k" "rt_current_priority k' = rt_current_priority k"
    "rt_interrupt_nest k' = rt_interrupt_nest k"
  using assms by (simp_all add: threads_kept_def)

locale timeout_handler =
  fixes timeout_func :: "timer_ref \<Rightarrow> kernel \<Rightarrow> fault + kernel"
    and progress :: "timer_ref list \<Rightarrow> timer_ref list \<Rightarrow> kernel \<Rightarrow> bool"
  assumes handler: "progress past (t # future) k \<Longrightarrow>
      \<exists>k'. timeout_func t k = Inr k' \<and> progress (past @ [t]) future k' \<and> timers_kept k k'"
    and client_state: "progress past future k \<Longrightarrow> threads_kept k k' \<Longrightarrow> progress past future k'"
begin

lemma fire_one_shot:
  assumes "progress past (t # future) k" and "timer_list k = t # ts" and "distinct (timer_list k)"
    and "\<not> periodic (timers k t)" and "expired_list k = []" and "t \<notin> set (soft_timer_list k)"
    and "t \<notin> set (soft_expired_list k)"
  shows "\<exists>k'. timer_fire timeout_func t k = Inr k' \<and> progress (past @ [t]) future k' \<and>
     timers_kept (set_activated t False (timer_remove t k)) k'"
proof -
  define k1 where "k1 = set_activated t False (timer_remove t k)"
  define k2 where "k2 = k1\<lparr>expired_list := [t]\<rparr>"
  have "threads_kept k k2"
    unfolding k2_def k1_def by (metis threads_kept_trans threads_kept_timer_ops)
  then have "progress past (t # future) k2" by (rule client_state [OF assms(1)])
  from handler [OF this] obtain k3 where
    k3: "timeout_func t k2 = Inr k3" "progress (past @ [t]) future k3" "timers_kept k2 k3" by blast
  have e: "expired_list k3 = [t]" using k3(3) by (simp add: timers_kept_def k2_def)
  have p: "\<not> periodic (timers (timer_remove t k3) t)"
    using k3(3) assms(4) by (simp add: timers_kept_def k2_def k1_def set_activated_def)
  have "timer_fire timeout_func t k = Inr (timer_remove t k3)"
    using assms(4,5) k3(1) e p
    by (simp add: timer_fire_def Let_def k1_def k2_def set_activated_def upd_timer_def)
  moreover have "progress (past @ [t]) future (timer_remove t k3)"
    by (rule client_state [OF k3(2)]) simp
  moreover have "timers_kept k1 (timer_remove t k3)"
    using k3(3) assms by (auto simp: timers_kept_def k2_def k1_def set_activated_def filter_id_conv)
  ultimately show ?thesis unfolding k1_def by blast
qed

lemma check_loop:
  assumes "timer_list k = due @ rest" and "distinct (timer_list k)" and "progress past due k"
    and "\<forall>t \<in> set due. \<not> periodic (timers k t) \<and> rt_tick k - timeout_tick (timers k t) < RT_TICK_HALF \<and>
           t \<notin> set (soft_timer_list k) \<and> t \<notin> set (soft_expired_list k)"
    and "rest \<noteq> [] \<Longrightarrow> \<not> rt_tick k - timeout_tick (timers k (hd rest)) < RT_TICK_HALF"
    and "expired_list k = []"
  shows "\<exists>k'. timer_check_loop timeout_func (rt_tick k) k = Some (Inr k') \<and> progress (past @ due) [] k' \<and>
     timers_kept (k\<lparr>timer_list := rest, timers := \<lambda>t. if t \<in> set due then (timers k t)\<lparr>activated := False\<rparr> else timers k t\<rparr>) k'"
  using assms
proof (induction due arbitrary: past k)
  case Nil
  then have "timer_check_loop timeout_func (rt_tick k) k = Some (Inr k)"
    by (subst timer_check_loop.simps) (cases rest; simp)
  then show ?case using Nil by (simp add: timers_kept_def)
next
  case (Cons t due)
  from fire_one_shot [of past t due k "due @ rest"] Cons.prems obtain k1 where
    k1: "timer_fire timeout_func t k = Inr k1" "progress (past @ [t]) due k1"
      "timers_kept (set_activated t False (timer_remove t k)) k1" by auto
  have tl: "timer_list k1 = due @ rest"
    using k1(3) Cons.prems(1,2) by (auto simp: timers_kept_def set_activated_def filter_id_conv)
  have tick: "rt_tick k1 = rt_tick k" using k1(3) by (simp add: timers_kept_def set_activated_def)
  have tms: "timers k1 u = (if u = t then (timers k t)\<lparr>activated := False\<rparr> else timers k u)" for u
    using k1(3) by (simp add: timers_kept_def set_activated_def)
  have notin: "t \<notin> set due" "t \<notin> set rest" using Cons.prems(1,2) by auto
  have "\<exists>k'. timer_check_loop timeout_func (rt_tick k1) k1 = Some (Inr k') \<and> progress ((past @ [t]) @ due) [] k' \<and>
     timers_kept (k1\<lparr>timer_list := rest, timers := \<lambda>t. if t \<in> set due then (timers k1 t)\<lparr>activated := False\<rparr> else timers k1 t\<rparr>) k'"
  proof (rule Cons.IH)
    show "timer_list k1 = due @ rest" by (rule tl)
    show "distinct (timer_list k1)" using Cons.prems(1,2) tl by simp
    show "progress (past @ [t]) due k1" by (rule k1(2))
    show "\<forall>u \<in> set due. \<not> periodic (timers k1 u) \<and> rt_tick k1 - timeout_tick (timers k1 u) < RT_TICK_HALF \<and>
        u \<notin> set (soft_timer_list k1) \<and> u \<notin> set (soft_expired_list k1)"
      using Cons.prems(4) notin k1(3) by (auto simp: tms tick timers_kept_def set_activated_def)
    show "\<not> rt_tick k1 - timeout_tick (timers k1 (hd rest)) < RT_TICK_HALF" if "rest \<noteq> []"
      using Cons.prems(5) [OF that] notin(2) that hd_in_set [OF that] by (auto simp: tms tick)
    show "expired_list k1 = []" using k1(3) Cons.prems(6) by (simp add: timers_kept_def set_activated_def)
  qed
  then obtain k' where k': "timer_check_loop timeout_func (rt_tick k1) k1 = Some (Inr k')"
      "progress ((past @ [t]) @ due) [] k'"
      "timers_kept (k1\<lparr>timer_list := rest, timers := \<lambda>t. if t \<in> set due then (timers k1 t)\<lparr>activated := False\<rparr> else timers k1 t\<rparr>) k'"
    by blast
  have "timer_check_loop timeout_func (rt_tick k) k = Some (Inr k')"
    using Cons.prems(1,4) k1(1) k'(1) tick by (subst timer_check_loop.simps) simp
  moreover have "timers k' = (\<lambda>u. if u \<in> set (t # due) then (timers k u)\<lparr>activated := False\<rparr> else timers k u)"
    using k'(3) by (auto simp: timers_kept_def tms fun_eq_iff)
  ultimately show ?case
    using k'(2,3) k1(3) Cons.prems(1,4,6)
    by (intro exI [of _ k']) (auto simp: timers_kept_def set_activated_def filter_id_conv)
qed

end

section \<open>Properties\<close>

text \<open>
  C32. Starting a hard timer: when the deadlines in the list and the period of the timer lie within
  half the tick range, the timer is active with its deadline one period ahead and stands behind all
  timers due no later and before all timers due later, across the wrap-around of the tick.
\<close>

theorem timer_start_ordered:
  assumes hard: "\<not> soft_timer (timers k r)" and n: "timer_init_tick (timers k r) < RT_TICK_HALF"
    and w: "\<forall>u \<in> set (timer_list k). timeout_tick (timers k u) - rt_tick k < RT_TICK_HALF"
    and s: "sorted (map (\<lambda>u. timeout_tick (timers k u) - rt_tick k) (timer_list k))"
  shows "\<exists>k'. rt_timer_start r k = Inr (RT_EOK, k') \<and> activated (timers k' r) \<and>
     timeout_tick (timers k' r) = rt_tick k + timer_init_tick (timers k r) \<and>
     timer_list k' =
       filter (\<lambda>u. u \<noteq> r \<and> timeout_tick (timers k u) - rt_tick k \<le> timer_init_tick (timers k r)) (timer_list k) @
       r # filter (\<lambda>u. u \<noteq> r \<and> timer_init_tick (timers k r) < timeout_tick (timers k u) - rt_tick k) (timer_list k)"
proof -
  let ?us = "filter (\<lambda>u. u \<noteq> r) (timer_list k)"
  define f where "f = (\<lambda>u. timeout_tick (((timers k)(r := (timers k r)\<lparr>timeout_tick := rt_tick k + timer_init_tick (timers k r),
      activated := True\<rparr>)) u))"
  have f: "f r - rt_tick k = timer_init_tick (timers k r)" "\<And>u. u \<noteq> r \<Longrightarrow> f u = timeout_tick (timers k u)"
    by (simp_all add: f_def)
  have w': "\<forall>u \<in> insert r (set ?us). f u - rt_tick k < RT_TICK_HALF" using w n f by auto
  have eq: "map (\<lambda>u. f u - rt_tick k) ?us = map (\<lambda>u. timeout_tick (timers k u) - rt_tick k) ?us"
    by (rule map_cong) (auto simp: f(2))
  have s': "sorted (map (\<lambda>u. f u - rt_tick k) ?us)" unfolding eq by (rule sorted_filter [OF s])
  have "timer_list (started r k) = timer_insert f r ?us" by (simp add: started_def f_def)
  also have "\<dots> = filter (\<lambda>u. f u - rt_tick k \<le> f r - rt_tick k) ?us @ r # filter (\<lambda>u. f r - rt_tick k < f u - rt_tick k) ?us"
    by (rule timer_insert_split [OF w' s'])
  also have "filter (\<lambda>u. f u - rt_tick k \<le> f r - rt_tick k) ?us =
      filter (\<lambda>u. u \<noteq> r \<and> timeout_tick (timers k u) - rt_tick k \<le> timer_init_tick (timers k r)) (timer_list k)"
    unfolding filter_filter f(1) by (rule filter_cong) (auto simp: f(2))
  also have "filter (\<lambda>u. f r - rt_tick k < f u - rt_tick k) ?us =
      filter (\<lambda>u. u \<noteq> r \<and> timer_init_tick (timers k r) < timeout_tick (timers k u) - rt_tick k) (timer_list k)"
    unfolding filter_filter f(1) by (rule filter_cong) (auto simp: f(2))
  finally show ?thesis
    using rt_timer_start_hard [OF hard] by (simp add: started_def)
qed

text \<open>The tick is about to wrap around: one timer is due before that, one with the new timer and one after it.\<close>

definition armed :: "u32 \<Rightarrow> timer" where
  "armed at = \<lparr>activated = True, periodic = False, soft_timer = False, timeout_tick = at, timer_init_tick = 0\<rparr>"

lemma wrapped: "(- 4294967293 :: u32) = 3" "(- 4294967292 :: u32) = 4" "(- 4294967294 :: u32) = 2"
  by code_simp+

theorem timer_start_ordered_witness:
  "\<exists>k'. rt_timer_start (ThreadTimer 2) (demo\<lparr>rt_tick := 0xFFFFFFFE, timer_list := [ThreadTimer 1, ThreadTimer 3, ThreadTimer 4],
       timers := (timers demo)(ThreadTimer 1 := armed 0xFFFFFFFF, ThreadTimer 3 := armed 1, ThreadTimer 4 := armed 2,
         ThreadTimer 2 := (armed 0)\<lparr>timer_init_tick := 3\<rparr>)\<rparr>) = Inr (RT_EOK, k') \<and>
     timeout_tick (timers k' (ThreadTimer 2)) = 1 \<and> timer_list k' = [ThreadTimer 1, ThreadTimer 3, ThreadTimer 2, ThreadTimer 4]"
  using timer_start_ordered [of "demo\<lparr>rt_tick := 0xFFFFFFFE, timer_list := [ThreadTimer 1, ThreadTimer 3, ThreadTimer 4],
       timers := (timers demo)(ThreadTimer 1 := armed 0xFFFFFFFF, ThreadTimer 3 := armed 1, ThreadTimer 4 := armed 2,
         ThreadTimer 2 := (armed 0)\<lparr>timer_init_tick := 3\<rparr>)\<rparr>" "ThreadTimer 2"]
  by (auto simp: RT_TICK_HALF_def armed_def wrapped)

text \<open>
  A periodic timer with period 0, whose function leaves the timers alone, keeps \<open>rt_timer_check\<close>
  from ever returning: it is due again as soon as it is restarted, and the check runs in the tick
  interrupt. \<open>rt_timer_create\<close> and \<open>rt_timer_control\<close> accept the period.
\<close>

theorem zero_period_never_returns:
  assumes "timer_list k = [r]" and "activated (timers k r)" and "periodic (timers k r)" and "\<not> soft_timer (timers k r)"
    and "timer_init_tick (timers k r) = 0" and "rt_tick k - timeout_tick (timers k r) < RT_TICK_HALF"
    and f: "\<And>k. \<exists>k'. timeout_func r k = Inr k' \<and> timers_kept k k'"
  shows "rt_timer_check timeout_func k = None"
proof -
  define stuck where "stuck = (\<lambda>now (k :: kernel). timer_list k = [r] \<and> activated (timers k r) \<and> periodic (timers k r) \<and>
     \<not> soft_timer (timers k r) \<and> timer_init_tick (timers k r) = 0 \<and> now - timeout_tick (timers k r) < RT_TICK_HALF \<and>
     expired_list k = [])"
  have step: "\<exists>k'. timer_fire timeout_func r k = Inr k' \<and> stuck (rt_tick k') k'" if "stuck now k" for now k
  proof -
    define k1 where "k1 = (timer_remove r k)\<lparr>expired_list := [r]\<rparr>"
    obtain k2 where k2: "timeout_func r k1 = Inr k2" "timers_kept k1 k2" using f by blast
    have s2: "timers k2 = timers k" "timer_list k2 = []" "expired_list k2 = [r]"
      using k2(2) that by (simp_all add: timers_kept_def k1_def stuck_def)
    define k3 where "k3 = set_activated r False (timer_remove r k2)"
    have s3: "timers k3 = (timers k)(r := (timers k r)\<lparr>activated := False\<rparr>)" "timer_list k3 = []" "expired_list k3 = []"
      using s2 by (simp_all add: k3_def set_activated_def upd_timer_def timer_remove_def)
    have "timer_fire timeout_func r k = Inr (started r k3)"
      using that k2(1) s2 s3 rt_timer_start_hard [of k3 r]
      by (simp add: timer_fire_def stuck_def k1_def k3_def Let_def)
    moreover have "stuck (rt_tick (started r k3)) (started r k3)"
      using that s3 by (simp add: stuck_def started_def RT_TICK_HALF_def)
    ultimately show ?thesis by blast
  qed
  have "timeout_func = timeout_func \<longrightarrow> \<not> stuck now k" if "timer_check_loop timeout_func now k = Some y" for now k y
  proof (rule timer_check_loop.raw_induct [where P = "\<lambda>tf now k _. tf = timeout_func \<longrightarrow> \<not> stuck now k", OF _ that])
    fix loop tf now k y
    assume IH: "\<And>tf now k y. loop tf now k = Some y \<Longrightarrow> tf = timeout_func \<longrightarrow> \<not> stuck now k"
      and body: "(case timer_list k of [] \<Rightarrow> Some (Inr k)
        | t # _ \<Rightarrow>
            if now - timeout_tick (timers k t) < RT_TICK_HALF then
              (case timer_fire tf t k of Inl e \<Rightarrow> Some (Inl e) | Inr k \<Rightarrow> loop tf (rt_tick k) k)
            else Some (Inr k)) = Some y"
    show "tf = timeout_func \<longrightarrow> \<not> stuck now k"
    proof (intro impI notI)
      assume tf: "tf = timeout_func" and st: "stuck now k"
      obtain k' where k': "timer_fire timeout_func r k = Inr k'" "stuck (rt_tick k') k'" using step [OF st] by blast
      have "loop timeout_func (rt_tick k') k' = Some y"
        using body st k'(1) by (simp add: tf stuck_def)
      then show False using IH k'(2) by blast
    qed
  qed
  moreover have "stuck (rt_tick k) (k\<lparr>expired_list := []\<rparr>)" using assms(1-6) by (simp add: stuck_def)
  ultimately show ?thesis
    by (cases "rt_timer_check timeout_func k") (auto simp: rt_timer_check_def)
qed

theorem zero_period_never_returns_witness:
  "rt_timer_check (\<lambda>_. Inr) (demo\<lparr>timer_list := [OwnTimer 0], timers := \<lambda>_. \<lparr>activated = True, periodic = True,
     soft_timer = False, timeout_tick = 0, timer_init_tick = 0\<rparr>\<rparr>) = None"
  by (rule zero_period_never_returns) (simp_all add: demo_def RT_TICK_HALF_def)

end
