(* ===== verification/Thread.thy ===== *)
theory Thread
  imports Timer
begin

text \<open>
  Threads (\<open>rt-thread/src/thread.c\<close>), the list of dead threads (\<open>idle.c\<close>) and the system tick
  (\<open>clock.c\<close>). A call that gives up the processor is split where it calls \<open>rt_schedule\<close>: the first
  part ends in the state the next thread starts from, the \<open>_wake\<close> part is what the caller does when
  it runs again. Stacks, entry functions, names and the object registry are not in the model.
\<close>

section \<open>Operations on threads\<close>

text \<open>A call of a thread either has returned or has handed the processor over.\<close>

datatype 'a call = Returned 'a | Switched

definition rt_tick_get :: "kernel \<Rightarrow> u32" where
  "rt_tick_get k = rt_tick k"

definition rt_tick_set :: "u32 \<Rightarrow> kernel \<Rightarrow> kernel" where
  "rt_tick_set n k = k\<lparr>rt_tick := n\<rparr>"

text \<open>\<open>RT_TICK_PER_SECOND\<close> is 1000; the division and the remainder are those of C.\<close>

definition RT_TICK_PER_SECOND :: int where "RT_TICK_PER_SECOND = 1000"

definition rt_tick_from_millisecond :: "int \<Rightarrow> u32" where
  "rt_tick_from_millisecond ms =
     (if ms < 0 then - 1
      else of_int (RT_TICK_PER_SECOND * (ms sdiv 1000)) +
           of_int ((RT_TICK_PER_SECOND * (ms smod 1000) + 999) sdiv 1000))"

definition rt_tick_get_millisecond :: "kernel \<Rightarrow> u32" where
  "rt_tick_get_millisecond k = rt_tick_get k * (1000 div 1000)"

definition rt_thread_self :: "kernel \<Rightarrow> nat option" where
  "rt_thread_self k = rt_current_thread k"

text \<open>\<open>_thread_init\<close>; \<open>sys\<close> records whether the object is static or comes from the heap.\<close>

definition thread_init :: "nat \<Rightarrow> u8 \<Rightarrow> u32 \<Rightarrow> bool \<Rightarrow> kernel \<Rightarrow> fault + int \<times> kernel" where
  "thread_init t priority tick sys k =
     (if priority < 32 then
        bind_err (rt_timer_init (ThreadTimer t) 0 0
          (upd_tcb t (\<lambda>_. \<lparr>stat = RT_THREAD_INIT, stat_yield = False, current_priority = priority, number_mask = 0,
             init_tick = tick, remaining_tick = tick, error = RT_EOK, event_set = 0, event_info = 0,
             systemobject = sys\<rparr>) k)) (\<lambda>k. Inr (RT_EOK, k))
      else Inl AssertFailed)"

definition rt_thread_init :: "nat \<Rightarrow> u8 \<Rightarrow> u32 \<Rightarrow> kernel \<Rightarrow> fault + int \<times> kernel" where
  "rt_thread_init t priority tick k = thread_init t priority tick True k"

text \<open>\<open>obj\<close> and \<open>stack\<close> are the answers of the allocator.\<close>

definition rt_thread_create :: "nat option \<Rightarrow> bool \<Rightarrow> u8 \<Rightarrow> u32 \<Rightarrow> kernel \<Rightarrow> fault + nat option \<times> kernel" where
  "rt_thread_create obj stack priority tick k =
     (case obj of None \<Rightarrow> Inr (None, k)
      | Some t \<Rightarrow>
          if \<not> stack then Inr (None, k)
          else bind_err (thread_init t priority tick False k) (\<lambda>(_, k). Inr (Some t, k)))"

definition rt_thread_startup :: "nat \<Rightarrow> kernel \<Rightarrow> fault + int \<times> kernel" where
  "rt_thread_startup t k =
     (if stat (tcbs k t) \<noteq> RT_THREAD_INIT then Inl AssertFailed
      else
        let k = upd_tcb t (\<lambda>c. c\<lparr>number_mask := prio_mask (current_priority c)\<rparr>) k;
            k = upd_tcb t (\<lambda>c. c\<lparr>stat := RT_THREAD_SUSPEND, stat_yield := False\<rparr>) k
        in bind_err (rt_thread_resume t k) (\<lambda>(_, k).
           bind_err (if rt_thread_self k \<noteq> None then rt_schedule k else Inr k) (\<lambda>k. Inr (RT_EOK, k))))"

definition rt_thread_defunct_enqueue :: "nat \<Rightarrow> kernel \<Rightarrow> kernel" where
  "rt_thread_defunct_enqueue t k = rt_list_insert_after Defunct t k"

definition rt_thread_defunct_dequeue :: "kernel \<Rightarrow> nat option \<times> kernel" where
  "rt_thread_defunct_dequeue k =
     (case links k Defunct of [] \<Rightarrow> (None, k) | t # _ \<Rightarrow> (Some t, rt_list_remove t k))"

text \<open>
  \<open>rt_defunct_execute\<close>: the threads whose storage it releases, in order (no cleanup function is
  registered by this firmware).
\<close>

function rt_defunct_execute :: "kernel \<Rightarrow> nat list \<times> kernel" where
  "rt_defunct_execute k =
     (case rt_thread_defunct_dequeue k of
        (None, k) \<Rightarrow> ([], k)
      | (Some t, k) \<Rightarrow> (case rt_defunct_execute k of (ts, k) \<Rightarrow> (t # ts, k)))"
  by pat_completeness auto

termination
  by (relation "measure (\<lambda>k. length (links k Defunct))")
    (auto simp: rt_thread_defunct_dequeue_def less_Suc_eq_le split: list.splits)

text \<open>The tail shared by \<open>rt_thread_detach\<close> and \<open>rt_thread_delete\<close>.\<close>

definition close_thread :: "nat \<Rightarrow> kernel \<Rightarrow> fault + int \<times> kernel" where
  "close_thread t k =
     (if stat (tcbs k t) = RT_THREAD_CLOSE then Inr (RT_EOK, k)
      else
        bind_err (if stat (tcbs k t) \<noteq> RT_THREAD_INIT then rt_schedule_remove_thread t k else Inr k) (\<lambda>k.
          let k = snd (rt_timer_detach (ThreadTimer t) k);
              k = upd_tcb t (\<lambda>c. c\<lparr>stat := RT_THREAD_CLOSE, stat_yield := False\<rparr>) k
          in Inr (RT_EOK, rt_thread_defunct_enqueue t k)))"

definition rt_thread_detach :: "nat \<Rightarrow> kernel \<Rightarrow> fault + int \<times> kernel" where
  "rt_thread_detach t k = (if systemobject (tcbs k t) then close_thread t k else Inl AssertFailed)"

definition rt_thread_delete :: "nat \<Rightarrow> kernel \<Rightarrow> fault + int \<times> kernel" where
  "rt_thread_delete t k = (if systemobject (tcbs k t) then Inl AssertFailed else close_thread t k)"

text \<open>\<open>_thread_exit\<close>, where the entry function of a thread returns to.\<close>

definition thread_exit :: "kernel \<Rightarrow> fault + kernel" where
  "thread_exit k =
     (case rt_thread_self k of None \<Rightarrow> Inl NullPointer
      | Some t \<Rightarrow>
          bind_err (rt_schedule_remove_thread t k) (\<lambda>k.
            let k = snd (rt_timer_detach (ThreadTimer t) k);
                k = upd_tcb t (\<lambda>c. c\<lparr>stat := RT_THREAD_CLOSE, stat_yield := False\<rparr>) k
            in rt_schedule (rt_thread_defunct_enqueue t k)))"

text \<open>\<open>_thread_timeout\<close>, the function of every thread's own timer.\<close>

definition thread_timeout :: "nat \<Rightarrow> kernel \<Rightarrow> fault + kernel" where
  "thread_timeout t k =
     (if stat (tcbs k t) \<noteq> RT_THREAD_SUSPEND then Inl AssertFailed
      else
        let k = set_error t (- RT_ETIMEOUT) k;
            k = rt_list_remove t k
        in bind_err (rt_schedule_insert_thread t k) rt_schedule)"

definition rt_thread_yield :: "kernel \<Rightarrow> fault + int \<times> kernel" where
  "rt_thread_yield k =
     (case rt_thread_self k of None \<Rightarrow> Inl NullPointer
      | Some t \<Rightarrow>
          let k = upd_tcb t (\<lambda>c. c\<lparr>remaining_tick := init_tick c\<rparr>) k;
              k = upd_tcb t (\<lambda>c. c\<lparr>stat_yield := True\<rparr>) k
          in bind_err (rt_schedule k) (\<lambda>k. Inr (RT_EOK, k)))"

text \<open>Setting a thread's timer and starting it, as every waiting call does.\<close>

definition start_thread_timer :: "nat \<Rightarrow> u32 \<Rightarrow> kernel \<Rightarrow> fault + kernel" where
  "start_thread_timer t tick k =
     bind_err (rt_timer_control (ThreadTimer t) RT_TIMER_CTRL_SET_TIME tick k) (\<lambda>(_, _, k).
     bind_err (rt_timer_start (ThreadTimer t) k) (\<lambda>(_, k). Inr k))"

definition rt_thread_sleep :: "u32 \<Rightarrow> kernel \<Rightarrow> fault + kernel" where
  "rt_thread_sleep tick k =
     (case rt_thread_self k of None \<Rightarrow> Inl AssertFailed
      | Some t \<Rightarrow>
          bind_err (rt_thread_suspend t (set_error t RT_EOK k)) (\<lambda>(_, k).
          bind_err (start_thread_timer t tick k) rt_schedule))"

definition rt_thread_sleep_wake :: "nat \<Rightarrow> kernel \<Rightarrow> int \<times> kernel" where
  "rt_thread_sleep_wake t k =
     (let k = (if error (tcbs k t) = - RT_ETIMEOUT then set_error t RT_EOK k else k)
      in (error (tcbs k t), k))"

definition rt_thread_delay :: "u32 \<Rightarrow> kernel \<Rightarrow> fault + kernel" where
  "rt_thread_delay tick k = rt_thread_sleep tick k"

text \<open>The first component of the result is the value written to \<open>*tick\<close>.\<close>

definition rt_thread_delay_until :: "u32 \<Rightarrow> u32 \<Rightarrow> kernel \<Rightarrow> fault + u32 \<times> int call \<times> kernel" where
  "rt_thread_delay_until tick inc_tick k =
     (case rt_thread_self k of None \<Rightarrow> Inl AssertFailed
      | Some t \<Rightarrow>
          let k = set_error t RT_EOK k; cur_tick = rt_tick_get k
          in if cur_tick - tick < inc_tick then
               (let tick = tick + inc_tick; left_tick = tick - cur_tick
                in bind_err (rt_thread_suspend t k) (\<lambda>(_, k).
                   bind_err (start_thread_timer t left_tick k) (\<lambda>k.
                   bind_err (rt_schedule k) (\<lambda>k. Inr (tick, Switched, k)))))
             else Inr (cur_tick, Returned (error (tcbs k t)), k))"

definition rt_thread_mdelay :: "int \<Rightarrow> kernel \<Rightarrow> fault + kernel" where
  "rt_thread_mdelay ms k = rt_thread_sleep (rt_tick_from_millisecond ms) k"

definition RT_THREAD_CTRL_STARTUP :: int where "RT_THREAD_CTRL_STARTUP = 0"
definition RT_THREAD_CTRL_CLOSE :: int where "RT_THREAD_CTRL_CLOSE = 1"
definition RT_THREAD_CTRL_CHANGE_PRIORITY :: int where "RT_THREAD_CTRL_CHANGE_PRIORITY = 2"

lemmas thread_ctrl_defs = RT_THREAD_CTRL_STARTUP_def RT_THREAD_CTRL_CLOSE_def RT_THREAD_CTRL_CHANGE_PRIORITY_def

text \<open>
  \<open>rt_thread_control\<close>; \<open>arg\<close> is the byte its argument points to. A shift by 32 or more is undefined,
  so a priority that is not below 32 is a fault in both branches.
\<close>

definition change_priority :: "nat \<Rightarrow> u8 \<Rightarrow> kernel \<Rightarrow> kernel" where
  "change_priority t p k = upd_tcb t (\<lambda>c. c\<lparr>current_priority := p, number_mask := prio_mask p\<rparr>) k"

definition rt_thread_control :: "nat \<Rightarrow> int \<Rightarrow> u8 \<Rightarrow> kernel \<Rightarrow> fault + int \<times> kernel" where
  "rt_thread_control t cmd arg k =
     (if cmd = RT_THREAD_CTRL_CHANGE_PRIORITY then
        (if \<not> arg < 32 then Inl OutOfBounds
         else if stat (tcbs k t) = RT_THREAD_READY then
           bind_err (rt_schedule_remove_thread t k) (\<lambda>k.
           bind_err (rt_schedule_insert_thread t (change_priority t arg k)) (\<lambda>k. Inr (RT_EOK, k)))
         else Inr (RT_EOK, change_priority t arg k))
      else if cmd = RT_THREAD_CTRL_STARTUP then rt_thread_startup t k
      else if cmd = RT_THREAD_CTRL_CLOSE then
        bind_err (if systemobject (tcbs k t) then rt_thread_detach t k else rt_thread_delete t k) (\<lambda>(e, k).
        bind_err (rt_schedule k) (\<lambda>k. Inr (e, k)))
      else Inr (RT_EOK, k))"

section \<open>Tick, timer thread and idle thread\<close>

text \<open>The function of a timer: \<open>own\<close> gives those of the timers that belong to no thread.\<close>

definition timeout_function :: "(nat \<Rightarrow> kernel \<Rightarrow> fault + kernel) \<Rightarrow> timer_ref \<Rightarrow> kernel \<Rightarrow> fault + kernel" where
  "timeout_function own r = (case r of ThreadTimer t \<Rightarrow> thread_timeout t | OwnTimer n \<Rightarrow> own n)"

text \<open>The time slice part of \<open>rt_tick_increase\<close>.\<close>

definition time_slice :: "nat \<Rightarrow> kernel \<Rightarrow> fault + kernel" where
  "time_slice t k =
     (let k = upd_tcb t (\<lambda>c. c\<lparr>remaining_tick := remaining_tick c - 1\<rparr>) k
      in if remaining_tick (tcbs k t) = 0 then
           rt_schedule (upd_tcb t (\<lambda>c. c\<lparr>remaining_tick := init_tick c, stat_yield := True\<rparr>) k)
         else Inr k)"

definition rt_tick_increase :: "(nat \<Rightarrow> kernel \<Rightarrow> fault + kernel) \<Rightarrow> kernel \<Rightarrow> (fault + kernel) option" where
  "rt_tick_increase own k =
     (let k = k\<lparr>rt_tick := rt_tick k + 1\<rparr>
      in case rt_thread_self k of None \<Rightarrow> Some (Inl NullPointer)
         | Some t \<Rightarrow>
             (case time_slice t k of Inl e \<Rightarrow> Some (Inl e)
              | Inr k \<Rightarrow> rt_timer_check (timeout_function own) k))"

text \<open>
  One round of \<open>_timer_thread_entry\<close> up to its wait; after it the thread runs \<open>rt_soft_timer_check\<close>.
\<close>

definition timer_thread_wait :: "kernel \<Rightarrow> fault + kernel" where
  "timer_thread_wait k =
     (case timer_list_next_timeout (soft_timer_list k) k of
        None \<Rightarrow>
          (case rt_thread_self k of None \<Rightarrow> Inl AssertFailed
           | Some t \<Rightarrow> bind_err (rt_thread_suspend t k) (\<lambda>(_, k). rt_schedule k))
      | Some next_timeout \<Rightarrow>
          (let current_tick = rt_tick_get k
           in if next_timeout - current_tick < RT_TICK_HALF
              then rt_thread_delay (next_timeout - current_tick) k else Inr k))"

definition rt_system_timer_thread_init :: "kernel \<Rightarrow> fault + kernel" where
  "rt_system_timer_thread_init k =
     bind_err (rt_thread_init timer_thread 4 10 (k\<lparr>soft_timer_list := []\<rparr>)) (\<lambda>(_, k).
     bind_err (rt_thread_startup timer_thread k) (\<lambda>(_, k). Inr k))"

definition rt_thread_idle_init :: "kernel \<Rightarrow> fault + kernel" where
  "rt_thread_idle_init k =
     bind_err (rt_thread_init idle_thread 31 32 k) (\<lambda>(_, k).
     bind_err (rt_thread_startup idle_thread k) (\<lambda>(_, k). Inr k))"

section \<open>Timeouts wake threads\<close>

text \<open>
  The state after the thread timers \<open>past\<close> have run and before \<open>future\<close>: compared with the state \<open>k0\<close>
  before the check, the threads of \<open>past\<close> can run again, carry the timeout error and wait nowhere;
  those of \<open>future\<close> are suspended; all others are as they were, up to the choice of the scheduler.
\<close>

definition woken :: "kernel \<Rightarrow> timer_ref list \<Rightarrow> timer_ref list \<Rightarrow> kernel \<Rightarrow> bool" where
  "woken k0 past future k \<longleftrightarrow>
     queue_inv k \<and> run_inv k \<and> rt_current_thread k \<noteq> None \<and>
     rt_scheduler_lock_nest k = rt_scheduler_lock_nest k0 \<and> rt_interrupt_nest k = rt_interrupt_nest k0 \<and>
     distinct (past @ future) \<and> (\<forall>r \<in> set (past @ future). \<exists>t. r = ThreadTimer t) \<and>
     (\<forall>t. ThreadTimer t \<in> set future \<longrightarrow> stat (tcbs k t) = RT_THREAD_SUSPEND) \<and>
     (\<forall>t. \<exists>s y. tcbs k t = (tcbs k0 t)\<lparr>stat := s, stat_yield := y,
            error := if ThreadTimer t \<in> set past then - RT_ETIMEOUT else error (tcbs k0 t)\<rparr> \<and>
          (if ThreadTimer t \<in> set past \<or> active (stat (tcbs k0 t)) then active s else s = stat (tcbs k0 t))) \<and>
     (\<forall>w. links k (Wait w) = filter (\<lambda>t. ThreadTimer t \<notin> set past) (links k0 (Wait w))) \<and>
     (settled k0 \<or> past \<noteq> [] \<longrightarrow> settled k) \<and> (runs k0 \<longrightarrow> runs k)"

lemma woken_cong: "woken k0 past future k \<Longrightarrow> threads_kept k k' \<Longrightarrow> woken k0 past future k'"
  using queue_inv_cong [of k' k] run_inv_cong [of k' k] settled_cong [of k' k] runs_cong [of k' k]
  by (simp add: woken_def threads_kept_def)

lemma thread_timeout_eq:
  assumes "queue_inv k" and "stat (tcbs k t) = RT_THREAD_SUSPEND"
  shows "thread_timeout t k = rt_schedule (wake t (set_error t (- RT_ETIMEOUT) k))"
proof -
  have "queue_inv (set_error t (- RT_ETIMEOUT) k)"
    unfolding set_error_def using assms(1) by (rule queue_inv_upd) simp_all
  from insert_woken_eq [OF this] show ?thesis
    using assms(2) by (simp add: thread_timeout_def set_error_def)
qed

lemma woken_step:
  assumes "woken k0 past (ThreadTimer t # future) k"
  shows "\<exists>k'. thread_timeout t k = Inr k' \<and> woken k0 (past @ [ThreadTimer t]) future k' \<and> timers_kept k k'"
proof -
  obtain c where c: "rt_current_thread k = Some c" using assms by (auto simp: woken_def)
  have k: "queue_inv k" "run_inv k" and t: "stat (tcbs k t) = RT_THREAD_SUSPEND"
    using assms by (auto simp: woken_def)
  define k1 where "k1 = set_error t (- RT_ETIMEOUT) k"
  have k1: "queue_inv k1" unfolding k1_def set_error_def using k(1) by (rule queue_inv_upd) simp_all
  have r1: "run_inv k1" using k(2) by (auto simp: run_inv_def k1_def set_error_def)
  have c1: "rt_current_thread k1 = Some c" and t1: "stat (tcbs k1 t) = RT_THREAD_SUSPEND"
    using c t by (simp_all add: k1_def set_error_def)
  define k2 where "k2 = wake t k1"
  have q2: "queue_inv k2" "run_inv k2" "rt_current_thread k2 = Some c"
    using wake_inv [OF k1 t1] wake_run_inv [OF r1 c1 t1] c1 by (simp_all add: k2_def)
  have "active (stat (tcbs k2 t))" by (simp add: k2_def active_def)
  then obtain k3 where k3: "rt_schedule k2 = Inr k3" "queue_inv k3" "run_inv k3" "sched_frame k2 k3"
    "rt_current_thread k3 \<noteq> None" "settled k3"
    using rt_schedule_settles [OF q2] by blast
  have "runs k \<Longrightarrow> runs k2" using c by (auto simp: runs_def k2_def k1_def set_error_def)
  then have rr: "runs k0 \<longrightarrow> runs k3" using rt_schedule_runs [OF q2(1,2) _ k3(1)] assms by (auto simp: woken_def)
  have run: "thread_timeout t k = Inr k3"
    using thread_timeout_eq [OF k(1) t] k3(1) by (simp add: k1_def k2_def)
  have fresh: "ThreadTimer t \<notin> set past" "ThreadTimer t \<notin> set future" "distinct (past @ future)"
    using assms by (auto simp: woken_def)
  have tk: "timers_kept k k3"
    using sched_frame_timers [OF k3(4)] by (simp add: timers_kept_def k2_def k1_def set_error_def)
  have tcb: "\<exists>s y. tcbs k3 u = (tcbs k0 u)\<lparr>stat := s, stat_yield := y,
            error := if ThreadTimer u \<in> set (past @ [ThreadTimer t]) then - RT_ETIMEOUT else error (tcbs k0 u)\<rparr> \<and>
          (if ThreadTimer u \<in> set (past @ [ThreadTimer t]) \<or> active (stat (tcbs k0 u)) then active s else s = stat (tcbs k0 u))" for u
  proof -
    obtain s y where a: "tcbs k u = (tcbs k0 u)\<lparr>stat := s, stat_yield := y,
            error := if ThreadTimer u \<in> set past then - RT_ETIMEOUT else error (tcbs k0 u)\<rparr>"
      "if ThreadTimer u \<in> set past \<or> active (stat (tcbs k0 u)) then active s else s = stat (tcbs k0 u)"
      using assms unfolding woken_def by blast
    obtain s' y' where b: "tcbs k3 u = (tcbs k2 u)\<lparr>stat := s', stat_yield := y'\<rparr>"
      "if active (stat (tcbs k2 u)) then active s' else s' = stat (tcbs k2 u)"
      using k3(4) unfolding sched_frame_def by blast
    show ?thesis
    proof (cases "u = t")
      case True
      have "active s'" using b(2) True by (simp add: k2_def active_def split: if_splits)
      then show ?thesis using a b True
        by (intro exI [of _ s'] exI [of _ y']) (simp add: k2_def k1_def set_error_def)
    next
      case False
      then show ?thesis using a b
        by (intro exI [of _ s'] exI [of _ y']) (simp add: k2_def k1_def set_error_def split: if_splits)
    qed
  qed
  have fut: "stat (tcbs k3 u) = RT_THREAD_SUSPEND" if u: "ThreadTimer u \<in> set future" for u
  proof -
    have "stat (tcbs k2 u) = RT_THREAD_SUSPEND"
      using assms u fresh(2) by (auto simp: woken_def k2_def k1_def set_error_def)
    then show ?thesis using sched_frame_stat(2) [OF k3(4), of u] by (simp add: active_def)
  qed
  have lk: "links k3 (Wait w) = filter (\<lambda>u. ThreadTimer u \<notin> set (past @ [ThreadTimer t])) (links k0 (Wait w))" for w
  proof -
    have "links k3 (Wait w) = filter (\<lambda>u. u \<noteq> t) (links k (Wait w))"
      using sched_frame_stat(5) [OF k3(4)] by (simp add: k2_def k1_def set_error_def)
    moreover have "links k (Wait w) = filter (\<lambda>t. ThreadTimer t \<notin> set past) (links k0 (Wait w))"
      using assms by (simp add: woken_def)
    ultimately show ?thesis by (auto intro!: filter_cong)
  qed
  have "woken k0 (past @ [ThreadTimer t]) future k3"
    using assms k3 fresh tcb fut lk rr
    unfolding woken_def by (simp add: sched_frame_def k2_def k1_def set_error_def)
  with run tk show ?thesis by blast
qed

interpretation thread_timer: timeout_handler "timeout_function own" "woken k0" for own k0
proof
  fix past r future k
  assume w: "woken k0 past (r # future) k"
  then obtain t where "r = ThreadTimer t" by (auto simp: woken_def)
  with woken_step [of k0 past t future k] w
  show "\<exists>k'. timeout_function own r k = Inr k' \<and> woken k0 (past @ [r]) future k' \<and> timers_kept k k'"
    by (simp add: timeout_function_def)
qed (rule woken_cong)

section \<open>The invariant of the kernel\<close>

text \<open>
  \<open>timers_inv\<close>: the timer list holds exactly the running timers; only suspended threads have a running
  timer, which is a hard one-shot timer; the firmware starts no timer of its own. \<open>due_inv\<close>: deadlines
  lie within half the tick range after the present tick and the list is ordered by them.
\<close>

definition timers_inv :: "kernel \<Rightarrow> bool" where
  "timers_inv k \<longleftrightarrow>
     (\<forall>t. activated (timers k (ThreadTimer t)) \<longrightarrow> stat (tcbs k t) = RT_THREAD_SUSPEND) \<and>
     (\<forall>t. \<not> periodic (timers k (ThreadTimer t)) \<and> \<not> soft_timer (timers k (ThreadTimer t))) \<and>
     (\<forall>n. \<not> activated (timers k (OwnTimer n))) \<and>
     (\<forall>r. r \<in> set (timer_list k) \<longleftrightarrow> activated (timers k r)) \<and> distinct (timer_list k) \<and>
     soft_timer_list k = [] \<and> expired_list k = [] \<and> soft_expired_list k = []"

definition due_in :: "kernel \<Rightarrow> timer_ref \<Rightarrow> u32" where
  "due_in k r = timeout_tick (timers k r) - rt_tick k"

definition due_inv :: "kernel \<Rightarrow> bool" where
  "due_inv k \<longleftrightarrow> (\<forall>r \<in> set (timer_list k). due_in k r < RT_TICK_HALF) \<and> sorted (map (due_in k) (timer_list k))"

definition kernel_inv :: "kernel \<Rightarrow> bool" where
  "kernel_inv k \<longleftrightarrow> queue_inv k \<and> run_inv k \<and> rt_current_thread k \<noteq> None \<and> timers_inv k \<and> due_inv k"

text \<open>What a step may change of a thread that it does not concern: only who runs among those that can.\<close>

definition same_threads :: "kernel \<Rightarrow> kernel \<Rightarrow> nat \<Rightarrow> bool" where
  "same_threads k k' t \<longleftrightarrow>
     (active (stat (tcbs k' t)) \<longleftrightarrow> active (stat (tcbs k t))) \<and>
     (\<not> active (stat (tcbs k t)) \<longrightarrow> stat (tcbs k' t) = stat (tcbs k t)) \<and>
     error (tcbs k' t) = error (tcbs k t) \<and> current_priority (tcbs k' t) = current_priority (tcbs k t) \<and>
     event_set (tcbs k' t) = event_set (tcbs k t) \<and> event_info (tcbs k' t) = event_info (tcbs k t)"

lemma sched_frame_same: "sched_frame k k' \<Longrightarrow> same_threads k k' t"
  by (cases "active (stat (tcbs k t))") (simp_all add: same_threads_def sched_frame_stat)

lemma same_threads_trans: "same_threads k k' t \<Longrightarrow> same_threads k' k'' t \<Longrightarrow> same_threads k k'' t"
  by (auto simp: same_threads_def)

lemma timers_inv_listed: "timers_inv k \<Longrightarrow> r \<in> set (timer_list k) \<longleftrightarrow> activated (timers k r)"
  unfolding timers_inv_def by blast

lemma timers_inv_suspended:
  "timers_inv k \<Longrightarrow> activated (timers k (ThreadTimer t)) \<Longrightarrow> stat (tcbs k t) = RT_THREAD_SUSPEND"
  unfolding timers_inv_def by blast

lemma timers_inv_kept:
  assumes "timers_inv k" and "timers_kept k k'"
    and "\<And>t. stat (tcbs k t) = RT_THREAD_SUSPEND \<Longrightarrow> stat (tcbs k' t) = RT_THREAD_SUSPEND"
  shows "timers_inv k'"
  using assms by (simp add: timers_inv_def timers_kept_def)

lemma due_inv_kept: "due_inv k \<Longrightarrow> timers_kept k k' \<Longrightarrow> due_inv k'"
  by (simp add: due_inv_def due_in_def [abs_def] timers_kept_def)

lemma time_slice_ok:
  assumes k: "queue_inv k" "run_inv k" and c: "rt_current_thread k = Some c"
  obtains k' where "time_slice c k = Inr k'" "queue_inv k'" "run_inv k'" "rt_current_thread k' \<noteq> None"
    "timers_kept k k'" "\<And>t. same_threads k k' t" "settled k \<Longrightarrow> settled k'"
    "\<And>w. links k' (Wait w) = links k (Wait w)" "rt_scheduler_lock_nest k' = rt_scheduler_lock_nest k"
    "rt_interrupt_nest k' = rt_interrupt_nest k" "runs k \<Longrightarrow> runs k'"
proof -
  define k1 where "k1 = upd_tcb c (\<lambda>c. c\<lparr>remaining_tick := remaining_tick c - 1\<rparr>) k"
  have k1: "queue_inv k1" unfolding k1_def using k(1) by (rule queue_inv_upd) simp_all
  have r1: "run_inv k1" using k(2) by (auto simp: run_inv_def k1_def)
  have s1: "settled k \<Longrightarrow> settled k1" by (auto simp: settled_def k1_def)
  have u1: "runs k \<Longrightarrow> runs k1" by (auto simp: runs_def k1_def)
  have m1: "same_threads k k1 t" for t by (simp add: same_threads_def k1_def)
  have t1: "timers_kept k k1" by (simp add: timers_kept_def k1_def)
  show thesis
  proof (cases "remaining_tick (tcbs k1 c) = 0")
    case False
    then have "time_slice c k = Inr k1" by (simp add: time_slice_def Let_def k1_def)
    then show thesis
      by (rule that [OF _ k1 r1 _ t1 m1 s1]) (use c u1 in \<open>simp_all add: k1_def\<close>)
  next
    case True
    define k2 where "k2 = upd_tcb c (\<lambda>c. c\<lparr>remaining_tick := init_tick c, stat_yield := True\<rparr>) k1"
    have k2: "queue_inv k2" unfolding k2_def using k1 by (rule queue_inv_upd) simp_all
    have r2: "run_inv k2" using r1 by (auto simp: run_inv_def k2_def)
    have s2: "settled k \<Longrightarrow> settled k2" using s1 by (auto simp: settled_def k2_def)
    have u2: "runs k \<Longrightarrow> runs k2" using u1 by (auto simp: runs_def k2_def)
    have c2: "rt_current_thread k2 = Some c" using c by (simp add: k2_def k1_def)
    have m2: "same_threads k k2 t" for t using m1 by (simp add: same_threads_def k2_def)
    have t2: "timers_kept k k2" using t1 by (simp add: timers_kept_def k2_def)
    obtain k3 where k3: "rt_schedule k2 = Inr k3" "queue_inv k3" "run_inv k3" "sched_frame k2 k3"
        "rt_current_thread k3 \<noteq> None" "settled k2 \<Longrightarrow> settled k3"
    proof (cases "rt_scheduler_lock_nest k2 = 0")
      case True
      then show thesis
        using that by (rule_tac rt_schedule_ok [OF k2 r2 c2]) (force simp: settled_def c2)
    next
      case False
      then show thesis
        using that [of k2] k2 r2 c2 sched_frame_refl by (simp add: rt_schedule_def)
    qed
    have "time_slice c k = Inr k3"
      using True k3(1) by (simp add: time_slice_def Let_def k1_def k2_def)
    then show thesis
    proof (rule that)
      show "timers_kept k k3" using t2 sched_frame_timers [OF k3(4)] by (rule timers_kept_trans)
      show "same_threads k k3 t" for t using m2 sched_frame_same [OF k3(4)] by (rule same_threads_trans)
      show "links k3 (Wait w) = links k (Wait w)" for w
        using sched_frame_stat(5) [OF k3(4)] by (simp add: k2_def k1_def)
      show "rt_scheduler_lock_nest k3 = rt_scheduler_lock_nest k"
        using sched_frame_stat(6) [OF k3(4)] by (simp add: k2_def k1_def)
      show "rt_interrupt_nest k3 = rt_interrupt_nest k" using k3(4) by (simp add: sched_frame_def k2_def k1_def)
      show "runs k3" if "runs k" using rt_schedule_runs [OF k2 r2 u2 k3(1)] that by simp
    qed (use k3 s2 in auto)
  qed
qed

lemma woken_start:
  assumes "queue_inv k" "run_inv k" "rt_current_thread k \<noteq> None" "distinct due"
    and "\<And>r. r \<in> set due \<Longrightarrow> \<exists>t. r = ThreadTimer t \<and> stat (tcbs k t) = RT_THREAD_SUSPEND"
  shows "woken k [] due k"
proof -
  have "\<exists>s y. tcbs k t = (tcbs k t)\<lparr>stat := s, stat_yield := y, error := error (tcbs k t)\<rparr> \<and>
      (if active (stat (tcbs k t)) then active s else s = stat (tcbs k t))" for t
    by (rule exI [of _ "stat (tcbs k t)"], rule exI [of _ "stat_yield (tcbs k t)"]) simp
  then show ?thesis using assms unfolding woken_def by fastforce
qed

text \<open>Which deadlines a tick reaches: those at most one tick ahead of the tick before.\<close>

lemma expired_iff:
  fixes to now :: u32
  assumes "to - now < RT_TICK_HALF"
  shows "now + 1 - to < RT_TICK_HALF \<longleftrightarrow> to - now \<le> 1"
proof -
  have "now + 1 - now < RT_TICK_HALF" by (simp add: RT_TICK_HALF_def)
  from cyclic_compare(2) [OF this assms] show ?thesis by simp
qed

lemma later_tick:
  fixes to now :: u32
  assumes "\<not> to - now \<le> 1"
  shows "unat (to - (now + 1)) = unat (to - now) - 1"
proof -
  have "to - (now + 1) = (to - now) - 1" by simp
  moreover have "to - now \<noteq> 0" using assms by auto
  then have "unat ((to - now) - 1) = unat (to - now) - 1" by (rule unat_dec_pos)
  ultimately show ?thesis by (simp only:)
qed

lemma sorted_split_due:
  assumes "sorted (map g us)"
  obtains early late where "us = early @ late" "\<forall>u \<in> set early. g u \<le> (n :: u32)" "\<forall>u \<in> set late. \<not> g u \<le> n"
proof -
  have late: "\<not> g u \<le> n" if "u \<in> set (dropWhile (\<lambda>u. g u \<le> n) us)" for u
    using assms that
  proof (induction us)
    case (Cons v vs)
    show ?case
    proof (cases "g v \<le> n")
      case True
      then show ?thesis using Cons by simp
    next
      case False
      then have "u \<in> set (v # vs)" using Cons.prems(2) by simp
      then have "g v \<le> g u" using Cons.prems(1) by auto
      then show ?thesis using False by (meson order_trans)
    qed
  qed simp
  show thesis
  proof (rule that)
    show "us = takeWhile (\<lambda>u. g u \<le> n) us @ dropWhile (\<lambda>u. g u \<le> n) us" by simp
    show "\<forall>u \<in> set (takeWhile (\<lambda>u. g u \<le> n) us). g u \<le> n" by (meson set_takeWhileD)
    show "\<forall>u \<in> set (dropWhile (\<lambda>u. g u \<le> n) us). \<not> g u \<le> n" using late by blast
  qed
qed

lemma timer_check_wakes:
  assumes k: "queue_inv k" "run_inv k" "rt_current_thread k \<noteq> None" "timers_inv k"
    and tl: "timer_list k = early @ late"
    and early: "\<forall>r \<in> set early. rt_tick k - timeout_tick (timers k r) < RT_TICK_HALF"
    and late: "\<forall>r \<in> set late. \<not> rt_tick k - timeout_tick (timers k r) < RT_TICK_HALF"
  obtains k' where "rt_timer_check (timeout_function own) k = Some (Inr k')" "woken k early [] k'"
    "timers_kept (k\<lparr>timer_list := late,
        timers := \<lambda>t. if t \<in> set early then (timers k t)\<lparr>activated := False\<rparr> else timers k t\<rparr>) k'"
proof -
  have own: "\<exists>t. r = ThreadTimer t \<and> stat (tcbs k t) = RT_THREAD_SUSPEND \<and> \<not> periodic (timers k r)"
    if "r \<in> set early" for r
  proof -
    have a: "activated (timers k r)" using that tl timers_inv_listed [OF k(4), of r] by simp
    show ?thesis
    proof (cases r)
      case (ThreadTimer t)
      then show ?thesis using a k(4) by (simp add: timers_inv_def)
    next
      case (OwnTimer n)
      then show ?thesis using a k(4) by (simp add: timers_inv_def)
    qed
  qed
  have d: "distinct (timer_list k)" "expired_list k = []" "soft_timer_list k = []" "soft_expired_list k = []"
    using k(4) by (simp_all add: timers_inv_def)
  have "woken k [] early k"
    by (rule woken_start [OF k(1-3)]) (use own tl d in auto)
  then have "\<exists>k'. timer_check_loop (timeout_function own) (rt_tick k) k = Some (Inr k') \<and> woken k ([] @ early) [] k' \<and>
     timers_kept (k\<lparr>timer_list := late,
        timers := \<lambda>t. if t \<in> set early then (timers k t)\<lparr>activated := False\<rparr> else timers k t\<rparr>) k'"
    using own early late d tl
    by (intro thread_timer.check_loop) (auto intro: hd_in_set)
  moreover have "rt_timer_check (timeout_function own) k = timer_check_loop (timeout_function own) (rt_tick k) k"
  proof -
    have "k\<lparr>expired_list := []\<rparr> = k" using d(2) by (cases k) simp
    then show ?thesis by (simp add: rt_timer_check_def)
  qed
  ultimately show thesis using that by auto
qed

lemma due_inv_next_tick:
  assumes "\<forall>r \<in> set late. due_in k r < RT_TICK_HALF" and "sorted (map (due_in k) late)"
    and "\<forall>r \<in> set late. \<not> due_in k r \<le> 1"
    and "timer_list k' = late" and "\<forall>r \<in> set late. timers k' r = timers k r" and "rt_tick k' = rt_tick k + 1"
  shows "due_inv k'"
proof -
  have step: "unat (due_in k' r) = unat (due_in k r) - 1" if "r \<in> set late" for r
    using assms(3,5,6) that later_tick [of "timeout_tick (timers k r)" "rt_tick k"] by (simp add: due_in_def)
  have "due_in k' r < RT_TICK_HALF" if "r \<in> set late" for r
    using step [OF that] assms(1) that by (auto simp: word_less_nat_alt)
  moreover have "sorted_wrt (\<lambda>r s. due_in k r \<le> due_in k s) late" using assms(2) by (simp add: sorted_map)
  then have "sorted_wrt (\<lambda>r s. due_in k' r \<le> due_in k' s) late"
    by (rule sorted_wrt_mono_rel [rotated]) (simp add: step word_le_nat_alt diff_le_mono)
  then have "sorted (map (due_in k') late)" by (simp add: sorted_map)
  ultimately show ?thesis by (simp add: due_inv_def assms(4))
qed

section \<open>One tick\<close>

text \<open>The thread's timer is running and its deadline is the present tick or the next one.\<close>

definition expires :: "kernel \<Rightarrow> nat \<Rightarrow> bool" where
  "expires k t \<longleftrightarrow> activated (timers k (ThreadTimer t)) \<and> due_in k (ThreadTimer t) \<le> 1"

definition timed_out :: "kernel \<Rightarrow> nat \<Rightarrow> bool" where
  "timed_out k t \<longleftrightarrow> active (stat (tcbs k t)) \<and> error (tcbs k t) = - RT_ETIMEOUT \<and>
     \<not> activated (timers k (ThreadTimer t)) \<and> (\<forall>w. t \<notin> set (links k (Wait w)))"

definition untouched :: "kernel \<Rightarrow> kernel \<Rightarrow> nat \<Rightarrow> bool" where
  "untouched k k' t \<longleftrightarrow> same_threads k k' t \<and> timers k' (ThreadTimer t) = timers k (ThreadTimer t) \<and>
     (\<forall>w. t \<in> set (links k' (Wait w)) \<longleftrightarrow> t \<in> set (links k (Wait w)))"

lemma woken_past:
  assumes "woken k0 past [] k" and "ThreadTimer t \<in> set past"
  shows "active (stat (tcbs k t))" "error (tcbs k t) = - RT_ETIMEOUT" "t \<notin> set (links k (Wait w))"
proof -
  obtain s y where "tcbs k t = (tcbs k0 t)\<lparr>stat := s, stat_yield := y,
            error := if ThreadTimer t \<in> set past then - RT_ETIMEOUT else error (tcbs k0 t)\<rparr>"
      "if ThreadTimer t \<in> set past \<or> active (stat (tcbs k0 t)) then active s else s = stat (tcbs k0 t)"
    using assms(1) unfolding woken_def by blast
  then show "active (stat (tcbs k t))" "error (tcbs k t) = - RT_ETIMEOUT" using assms(2) by simp_all
  show "t \<notin> set (links k (Wait w))" using assms by (simp add: woken_def)
qed

lemma woken_priority:
  assumes "woken k0 past future k"
  shows "current_priority (tcbs k t) = current_priority (tcbs k0 t)"
proof -
  obtain s y where "tcbs k t = (tcbs k0 t)\<lparr>stat := s, stat_yield := y,
            error := if ThreadTimer t \<in> set past then - RT_ETIMEOUT else error (tcbs k0 t)\<rparr>"
    using assms unfolding woken_def by blast
  then show ?thesis by simp
qed

lemma woken_other:
  assumes "woken k0 past [] k" and "ThreadTimer t \<notin> set past"
  shows "same_threads k0 k t" and "t \<in> set (links k (Wait w)) \<longleftrightarrow> t \<in> set (links k0 (Wait w))"
proof -
  obtain s y where "tcbs k t = (tcbs k0 t)\<lparr>stat := s, stat_yield := y,
            error := if ThreadTimer t \<in> set past then - RT_ETIMEOUT else error (tcbs k0 t)\<rparr>"
      "if ThreadTimer t \<in> set past \<or> active (stat (tcbs k0 t)) then active s else s = stat (tcbs k0 t)"
    using assms(1) unfolding woken_def by blast
  then show "same_threads k0 k t" using assms(2) by (simp add: same_threads_def split: if_splits)
  show "t \<in> set (links k (Wait w)) \<longleftrightarrow> t \<in> set (links k0 (Wait w))" using assms by (simp add: woken_def)
qed

lemma tick_ok:
  assumes k: "kernel_inv k"
  obtains k' where "rt_tick_increase own k = Some (Inr k')" "kernel_inv k'" "rt_tick k' = rt_tick k + 1"
    "settled k \<Longrightarrow> settled k'" "rt_scheduler_lock_nest k' = rt_scheduler_lock_nest k"
    "\<And>t. expires k t \<Longrightarrow> timed_out k' t" "\<And>t. \<not> expires k t \<Longrightarrow> untouched k k' t"
    "\<And>w. links k' (Wait w) = filter (\<lambda>t. \<not> expires k t) (links k (Wait w))" "rt_interrupt_nest k' = rt_interrupt_nest k"
    "runs k \<Longrightarrow> runs k'" "\<And>t. current_priority (tcbs k' t) = current_priority (tcbs k t)"
proof -
  define k1 where "k1 = k\<lparr>rt_tick := rt_tick k + 1\<rparr>"
  obtain c where c: "rt_current_thread k1 = Some c" using k by (auto simp: kernel_inv_def k1_def)
  have q1: "queue_inv k1" "run_inv k1"
    using k queue_inv_cong [of k1 k] run_inv_cong [of k1 k] by (simp_all add: kernel_inv_def k1_def)
  obtain k2 where k2: "time_slice c k1 = Inr k2" "queue_inv k2" "run_inv k2" "rt_current_thread k2 \<noteq> None"
    "timers_kept k1 k2" "\<And>t. same_threads k1 k2 t" "settled k1 \<Longrightarrow> settled k2"
    "\<And>w. links k2 (Wait w) = links k1 (Wait w)" "rt_scheduler_lock_nest k2 = rt_scheduler_lock_nest k1"
    "rt_interrupt_nest k2 = rt_interrupt_nest k1" "runs k1 \<Longrightarrow> runs k2"
    using time_slice_ok [OF q1 c] by metis
  have tm2: "timers k2 = timers k" "timer_list k2 = timer_list k" "rt_tick k2 = rt_tick k + 1"
    using k2(5) by (simp_all add: timers_kept_def k1_def)
  have t1: "timers_inv k1" using k by (simp add: kernel_inv_def timers_inv_def k1_def)
  have t2: "timers_inv k2"
    by (rule timers_inv_kept [OF t1 k2(5)]) (use k2(6) in \<open>auto simp: same_threads_def active_def\<close>)
  have due: "\<forall>r \<in> set (timer_list k). due_in k r < RT_TICK_HALF" and srt: "sorted (map (due_in k) (timer_list k))"
    using k by (simp_all add: kernel_inv_def due_inv_def)
  obtain early late where el: "timer_list k = early @ late" "\<forall>r \<in> set early. due_in k r \<le> 1"
      "\<forall>r \<in> set late. \<not> due_in k r \<le> 1"
    using sorted_split_due [OF srt, of 1] by blast
  have exp: "rt_tick k2 - timeout_tick (timers k2 r) < RT_TICK_HALF \<longleftrightarrow> due_in k r \<le> 1" if "r \<in> set (timer_list k)" for r
    using expired_iff [of "timeout_tick (timers k r)" "rt_tick k"] due that by (simp add: due_in_def tm2)
  obtain k3 where k3: "rt_timer_check (timeout_function own) k2 = Some (Inr k3)" "woken k2 early [] k3"
    "timers_kept (k2\<lparr>timer_list := late,
        timers := \<lambda>t. if t \<in> set early then (timers k2 t)\<lparr>activated := False\<rparr> else timers k2 t\<rparr>) k3"
    by (rule timer_check_wakes [OF k2(2-4) t2, of early late own]) (use el exp tm2(2) in auto)
  have tm3: "timers k3 r = (if r \<in> set early then (timers k r)\<lparr>activated := False\<rparr> else timers k r)"
      "timer_list k3 = late" "rt_tick k3 = rt_tick k + 1" for r
    using k3(3) by (simp_all add: timers_kept_def tm2)
  have dist: "distinct (early @ late)" using t2 el(1) by (simp add: timers_inv_def tm2)
  have listed: "r \<in> set early \<or> r \<in> set late \<longleftrightarrow> activated (timers k r)" for r
    using timers_inv_listed [OF t2, of r] el(1) by (simp add: tm2)
  have e: "ThreadTimer t \<in> set early \<longleftrightarrow> expires k t" for t
    using listed [of "ThreadTimer t"] el(2,3) by (auto simp: expires_def)
  have run: "rt_tick_increase own k = Some (Inr k3)"
    using c k2(1) k3(1) by (simp add: rt_tick_increase_def rt_thread_self_def k1_def Let_def)
  have out: "timed_out k3 t" if "expires k t" for t
    using woken_past [OF k3(2), of t] that e by (simp add: timed_out_def tm3)
  have rest: "untouched k k3 t" if "\<not> expires k t" for t
    using woken_other [OF k3(2), of t] that e k2(6) [of t] k2(8)
    by (auto simp: untouched_def tm3 k1_def same_threads_def)
  have "timers_inv k3"
  proof -
    have "stat (tcbs k3 t) = RT_THREAD_SUSPEND" if a: "activated (timers k3 (ThreadTimer t))" for t
    proof -
      have n: "\<not> expires k t" using a e by (auto simp: tm3)
      moreover have "stat (tcbs k t) = RT_THREAD_SUSPEND"
        using a timers_inv_suspended [of k t] k by (simp add: tm3 kernel_inv_def split: if_splits)
      ultimately show ?thesis using rest [OF n] by (simp add: untouched_def same_threads_def active_def)
    qed
    moreover have "soft_timer_list k3 = [] \<and> expired_list k3 = [] \<and> soft_expired_list k3 = []"
      using k3(3) t2 by (simp add: timers_kept_def timers_inv_def)
    moreover have "r \<in> set (timer_list k3) \<longleftrightarrow> activated (timers k3 r)" for r
      using listed [of r] dist by (auto simp: tm3)
    ultimately show ?thesis using t2 dist by (simp add: timers_inv_def tm3 tm2)
  qed
  moreover have "due_inv k3"
  proof (rule due_inv_next_tick [of late k])
    show "\<forall>r \<in> set late. due_in k r < RT_TICK_HALF" using due el(1) by simp
    show "sorted (map (due_in k) late)" using srt el(1) by (simp add: sorted_append)
    show "\<forall>r \<in> set late. timers k3 r = timers k r" using dist by (auto simp: tm3)
  qed (use el(3) tm3 in simp_all)
  ultimately have "kernel_inv k3" using k3(2) by (simp add: kernel_inv_def woken_def)
  moreover have "settled k3" if "settled k"
    using that k2(7) k3(2) by (simp add: woken_def k1_def settled_def)
  moreover have "links k3 (Wait w) = filter (\<lambda>t. \<not> expires k t) (links k (Wait w))" for w
    using k3(2) k2(8) e by (simp add: woken_def k1_def)
  moreover have "current_priority (tcbs k3 t) = current_priority (tcbs k t)" for t
  proof -
    have "current_priority (tcbs k3 t) = current_priority (tcbs k2 t)" by (rule woken_priority [OF k3(2)])
    then show ?thesis using k2(6) [of t] by (simp add: same_threads_def k1_def)
  qed
  moreover have "runs k3" if "runs k" using that k2(11) k3(2) by (simp add: woken_def k1_def runs_def)
  ultimately show thesis
    using that [OF run _ tm3(3)] out rest k3(2) k2(9,10) by (simp add: woken_def k1_def)
qed

section \<open>Suspending the current thread and starting its timer\<close>

definition suspended :: "nat \<Rightarrow> kernel \<Rightarrow> kernel" where
  "suspended c k = set_stat c RT_THREAD_SUSPEND (ready_remove c k)"

lemma suspend_eq:
  assumes "queue_inv k" "timers_inv k" "rt_current_thread k = Some c" "stat (tcbs k c) = RT_THREAD_RUNNING"
  shows "rt_thread_suspend c k = Inr (RT_EOK, suspended c k)"
proof -
  have "current_priority (tcbs k c) < 32" using tcb_ok_started [OF assms(1), of c] assms(4) by simp
  moreover have "\<not> activated (timers k (ThreadTimer c))"
    using timers_inv_suspended [OF assms(2), of c] assms(4) by auto
  ultimately show ?thesis
    using assms(3,4)
    by (simp add: rt_thread_suspend_def rt_schedule_remove_thread_eq suspended_def rt_timer_stop_def set_stat_def Let_def)
qed

lemma suspended_sel [simp]:
  "tcbs (suspended c k) t = (if t = c then (tcbs k c)\<lparr>stat := RT_THREAD_SUSPEND\<rparr> else tcbs k t)"
  "rt_current_thread (suspended c k) = rt_current_thread k"
  "links (suspended c k) l = filter (\<lambda>u. u \<noteq> c) (links k l)"
  "rt_scheduler_lock_nest (suspended c k) = rt_scheduler_lock_nest k"
  "rt_interrupt_nest (suspended c k) = rt_interrupt_nest k"
  "timers_kept k (suspended c k)" "rt_tick (suspended c k) = rt_tick k" "timers (suspended c k) = timers k"
  by (simp_all add: suspended_def set_stat_def timers_kept_def)

lemma suspended_inv:
  assumes "queue_inv k" "run_inv k" "rt_current_thread k = Some c" "stat (tcbs k c) = RT_THREAD_RUNNING"
  shows "queue_inv (suspended c k)" and "run_inv (suspended c k)"
proof -
  show "queue_inv (suspended c k)"
    unfolding suspended_def set_stat_def
    by (rule ready_remove_inv [OF assms(1)])
      (use tcb_ok_started [OF assms(1), of c] assms(4) in \<open>simp_all add: tcb_ok_def\<close>)
  show "run_inv (suspended c k)"
    by (rule run_invI [of _ c]) (use assms(3) run_inv_only [OF assms(2,3)] in \<open>auto split: if_splits\<close>)
qed

lemma suspended_timers_inv:
  assumes "timers_inv k" "stat (tcbs k c) = RT_THREAD_RUNNING"
  shows "timers_inv (suspended c k)"
  by (rule timers_inv_kept [OF assms(1)]) (use assms(2) in auto)

text \<open>The started timer, when it is a hard timer that was not running.\<close>

lemma start_thread_timer_ok:
  assumes t: "timers_inv k" "due_inv k" and c: "stat (tcbs k c) = RT_THREAD_SUSPEND"
      "\<not> activated (timers k (ThreadTimer c))" and n: "tick < RT_TICK_HALF"
  obtains k' where "start_thread_timer c tick k = Inr k'" "threads_kept k k'" "timers_inv k'" "due_inv k'"
    "rt_tick k' = rt_tick k" "activated (timers k' (ThreadTimer c))" "due_in k' (ThreadTimer c) = tick"
    "\<And>r. r \<noteq> ThreadTimer c \<Longrightarrow> timers k' r = timers k r"
proof -
  let ?r = "ThreadTimer c"
  have fresh: "?r \<notin> set (timer_list k)" using timers_inv_listed [OF t(1), of ?r] c(2) by simp
  have hard: "\<not> soft_timer (timers k ?r)" "soft_timer_list k = []" "expired_list k = []" "soft_expired_list k = []"
    "distinct (timer_list k)"
    using t(1) by (auto simp: timers_inv_def)
  define tm where "tm = (timers k)(?r := (timers k ?r)\<lparr>timer_init_tick := tick, timeout_tick := rt_tick k + tick, activated := True\<rparr>)"
  define due where "due = (\<lambda>u. timeout_tick (tm u))"
  define k' where "k' = k\<lparr>timers := tm, timer_list := timer_insert due ?r (timer_list k)\<rparr>"
  have "start_thread_timer c tick k = Inr (started ?r (upd_timer ?r (\<lambda>c. c\<lparr>timer_init_tick := tick\<rparr>) k))"
    using n hard(1)
    by (simp add: start_thread_timer_def rt_timer_control_def timer_ctrl_defs rt_timer_start_hard)
  moreover have "started ?r (upd_timer ?r (\<lambda>c. c\<lparr>timer_init_tick := tick\<rparr>) k) = k'"
    by (rule kernel.equality)
      (use fresh hard in \<open>simp_all add: started_def k'_def due_def tm_def upd_timer_def timer_remove_def\<close>)
  ultimately have A: "start_thread_timer c tick k = Inr k'" by simp
  have B: "threads_kept k k'" by (simp add: threads_kept_def k'_def)
  have C: "timers_inv k'"
  proof -
    have a: "r \<in> set (timer_list k') \<longleftrightarrow> activated (timers k' r)" for r
      using timers_inv_listed [OF t(1), of r] by (simp add: k'_def tm_def)
    have b: "stat (tcbs k' u) = RT_THREAD_SUSPEND" if "activated (timers k' (ThreadTimer u))" for u
      using that timers_inv_suspended [OF t(1), of u] c(1) by (simp add: k'_def tm_def split: if_splits)
    have d: "\<not> periodic (timers k' (ThreadTimer u)) \<and> \<not> soft_timer (timers k' (ThreadTimer u))"
        "\<not> activated (timers k' (OwnTimer m))" for u m
      using t(1) by (simp_all add: timers_inv_def k'_def tm_def)
    show ?thesis
      unfolding timers_inv_def using a b d hard fresh by (simp add: k'_def)
  qed
  have D: "due_inv k'"
  proof -
    have w: "\<forall>u \<in> insert ?r (set (timer_list k)). due u - rt_tick k < RT_TICK_HALF"
      using t(2) n by (auto simp: due_inv_def due_in_def due_def tm_def)
    have eq: "map (\<lambda>u. due u - rt_tick k) (timer_list k) = map (due_in k) (timer_list k)"
      using fresh by (auto simp: due_def due_in_def tm_def)
    have "sorted (map (\<lambda>u. due u - rt_tick k) (timer_list k))"
      unfolding eq using t(2) by (simp add: due_inv_def)
    from timer_insert_sorted [OF w this] w show ?thesis
      by (simp add: due_inv_def due_in_def [abs_def] k'_def due_def)
  qed
  have E: "due_in k' ?r = tick" by (simp add: due_in_def k'_def tm_def)
  have F: "rt_tick k' = rt_tick k" "activated (timers k' ?r)" by (simp_all add: k'_def tm_def)
  show thesis
    by (rule that [OF A B C D F E]) (simp add: k'_def tm_def)
qed

lemma kernel_inv_parts:
  assumes "kernel_inv k"
  shows "queue_inv k" "run_inv k" "timers_inv k" "due_inv k"
  using assms by (simp_all add: kernel_inv_def)

lemma set_error_inv:
  assumes "kernel_inv k"
  shows "kernel_inv (set_error t e k)"
proof -
  have "queue_inv (set_error t e k)"
    unfolding set_error_def using kernel_inv_parts(1) [OF assms] by (rule queue_inv_upd) simp_all
  moreover have "run_inv (set_error t e k)" using assms by (auto simp: kernel_inv_def run_inv_def set_error_def)
  moreover have "timers_inv (set_error t e k)"
    by (rule timers_inv_kept [OF kernel_inv_parts(3) [OF assms]]) (auto simp: set_error_def timers_kept_def)
  moreover have "due_inv (set_error t e k)"
    using kernel_inv_parts(4) [OF assms] by (rule due_inv_kept) (simp add: set_error_def timers_kept_def)
  ultimately show ?thesis using assms by (simp add: kernel_inv_def set_error_def)
qed

section \<open>Sleeping\<close>

lemma untouched_refl [simp]: "untouched k k t" by (simp add: untouched_def same_threads_def)

lemma rt_thread_sleep_ok:
  assumes k: "kernel_inv k" and c: "rt_current_thread k = Some c" "stat (tcbs k c) = RT_THREAD_RUNNING"
    and n: "tick < RT_TICK_HALF" and other: "stat (tcbs k u) = RT_THREAD_READY"
  obtains k' where "rt_thread_sleep tick k = Inr k'" "kernel_inv k'" "settled k'" "rt_tick k' = rt_tick k"
    "stat (tcbs k' c) = RT_THREAD_SUSPEND" "activated (timers k' (ThreadTimer c))" "due_in k' (ThreadTimer c) = tick"
    "\<And>t. t \<noteq> c \<Longrightarrow> untouched k k' t" "rt_scheduler_lock_nest k' = rt_scheduler_lock_nest k"
    "\<And>w. links k' (Wait w) = links k (Wait w)" "rt_interrupt_nest k' = rt_interrupt_nest k"
    "current_priority (tcbs k' c) = current_priority (tcbs k c)"
proof -
  define k1 where "k1 = set_error c RT_EOK k"
  note i1 = kernel_inv_parts [OF set_error_inv [OF k, of c RT_EOK], folded k1_def]
  have c1: "rt_current_thread k1 = Some c" "stat (tcbs k1 c) = RT_THREAD_RUNNING"
    using c by (simp_all add: k1_def set_error_def)
  define k2 where "k2 = suspended c k1"
  have q2: "queue_inv k2" "run_inv k2" unfolding k2_def using suspended_inv [OF i1(1,2) c1] by simp_all
  have t2: "timers_inv k2" unfolding k2_def by (rule suspended_timers_inv [OF i1(3) c1(2)])
  have d2: "due_inv k2" unfolding k2_def by (rule due_inv_kept [OF i1(4)]) simp
  have s2: "stat (tcbs k2 c) = RT_THREAD_SUSPEND" "rt_tick k2 = rt_tick k" "timers k2 = timers k"
    by (simp_all add: k2_def k1_def set_error_def)
  have off: "\<not> activated (timers k2 (ThreadTimer c))"
    using timers_inv_suspended [OF i1(3), of c] c1(2) by (auto simp: k2_def)
  obtain k3 where k3: "start_thread_timer c tick k2 = Inr k3" "threads_kept k2 k3" "timers_inv k3" "due_inv k3"
    "rt_tick k3 = rt_tick k2" "activated (timers k3 (ThreadTimer c))" "due_in k3 (ThreadTimer c) = tick"
    "\<And>r. r \<noteq> ThreadTimer c \<Longrightarrow> timers k3 r = timers k2 r"
    using start_thread_timer_ok [OF t2 d2 s2(1) off n] by blast
  note same3 = threads_kept_sel [OF k3(2)]
  have q3: "queue_inv k3" "run_inv k3" "rt_current_thread k3 = Some c"
    using q2 queue_inv_cong [OF same3(1,2,4)] run_inv_cong [OF same3(1,3)] same3(3) c1(1) by (simp_all add: k2_def)
  have uc: "u \<noteq> c" using other c(2) by auto
  then have "active (stat (tcbs k3 u))"
    using other by (simp add: same3 k2_def k1_def set_error_def active_def)
  then obtain k4 where k4: "rt_schedule k3 = Inr k4" "queue_inv k4" "run_inv k4" "sched_frame k3 k4"
    "rt_current_thread k4 \<noteq> None" "settled k4"
    using rt_schedule_settles [OF q3] by blast
  have keep: "timers_kept k3 k4" by (rule sched_frame_timers [OF k4(4)])
  have t4: "timers_inv k4"
    by (rule timers_inv_kept [OF k3(3) keep]) (use sched_frame_stat(2) [OF k4(4)] in \<open>auto simp: active_def\<close>)
  have d4: "due_inv k4" by (rule due_inv_kept [OF k3(4) keep])
  have run: "rt_thread_sleep tick k = Inr k4"
    using c(1) suspend_eq [OF i1(1,3) c1] k3(1) k4(1)
    by (simp add: rt_thread_sleep_def rt_thread_self_def k1_def [symmetric] k2_def)
  have unt: "untouched k k4 t" if "t \<noteq> c" for t
  proof -
    have "same_threads k k3 t" using that by (simp add: same_threads_def same3 k2_def k1_def set_error_def)
    then have "same_threads k k4 t" using sched_frame_same [OF k4(4)] by (rule same_threads_trans)
    moreover have "timers k4 (ThreadTimer t) = timers k (ThreadTimer t)"
      using keep k3(8) that by (simp add: timers_kept_def s2(3))
    moreover have "t \<in> set (links k4 (Wait w)) \<longleftrightarrow> t \<in> set (links k (Wait w))" for w
      using sched_frame_stat(5) [OF k4(4)] that by (simp add: same3 k2_def k1_def set_error_def)
    ultimately show ?thesis by (simp add: untouched_def)
  qed
  have "stat (tcbs k4 c) = RT_THREAD_SUSPEND"
    using sched_frame_stat(2) [OF k4(4), of c] s2(1) by (simp add: same3 active_def)
  moreover have "kernel_inv k4" using k4 t4 d4 by (simp add: kernel_inv_def)
  moreover have "rt_scheduler_lock_nest k4 = rt_scheduler_lock_nest k"
    using sched_frame_stat(6) [OF k4(4)] by (simp add: same3 k2_def k1_def set_error_def)
  moreover have "links k4 (Wait w) = links k (Wait w)" for w
    using sched_frame_stat(5) [OF k4(4)] running_unlinked [OF kernel_inv_parts(1) [OF k] c(2)]
    by (simp add: same3 k2_def k1_def set_error_def unlinked_def)
  moreover have "rt_interrupt_nest k4 = rt_interrupt_nest k" "current_priority (tcbs k4 c) = current_priority (tcbs k c)"
    using sched_frame_stat(3,9) [OF k4(4)] k3(2) by (simp_all add: same3 k2_def k1_def set_error_def threads_kept_def)
  ultimately show thesis
    using that [OF run _ k4(6)] unt keep k3(5-7) s2(2) by (simp add: timers_kept_def due_in_def)
qed

text \<open>A number of ticks in a row, the threads that run only computing.\<close>

fun run_ticks :: "(nat \<Rightarrow> kernel \<Rightarrow> fault + kernel) \<Rightarrow> nat \<Rightarrow> kernel \<Rightarrow> (fault + kernel) option" where
  "run_ticks own 0 k = Some (Inr k)"
| "run_ticks own (Suc n) k =
     (case run_ticks own n k of None \<Rightarrow> None | Some (Inl e) \<Rightarrow> Some (Inl e)
      | Some (Inr k) \<Rightarrow> rt_tick_increase own k)"

text \<open>Where a sleeping thread is \<open>n\<close> ticks after it went to sleep for \<open>m\<close> ticks.\<close>

definition sleeping :: "nat \<Rightarrow> nat \<Rightarrow> nat \<Rightarrow> kernel \<Rightarrow> bool" where
  "sleeping c m n k \<longleftrightarrow>
     (if n < max 1 m
      then stat (tcbs k c) = RT_THREAD_SUSPEND \<and> activated (timers k (ThreadTimer c)) \<and>
           unat (due_in k (ThreadTimer c)) = m - n
      else active (stat (tcbs k c)) \<and> error (tcbs k c) = - RT_ETIMEOUT \<and> \<not> activated (timers k (ThreadTimer c)))"

lemma sleeping_tick:
  assumes "kernel_inv k" and s: "sleeping c m n k"
  obtains k' where "rt_tick_increase own k = Some (Inr k')" "kernel_inv k'" "sleeping c m (Suc n) k'"
    "settled k \<Longrightarrow> settled k'" "rt_tick k' = rt_tick k + 1"
proof -
  obtain k' where k': "rt_tick_increase own k = Some (Inr k')" "kernel_inv k'" "rt_tick k' = rt_tick k + 1"
    "settled k \<Longrightarrow> settled k'"
    "\<And>t. expires k t \<Longrightarrow> timed_out k' t" "\<And>t. \<not> expires k t \<Longrightarrow> untouched k k' t"
    using tick_ok [OF assms(1)] by metis
  have "sleeping c m (Suc n) k'"
  proof (cases "n < max 1 m")
    case True
    then have a: "stat (tcbs k c) = RT_THREAD_SUSPEND" "activated (timers k (ThreadTimer c))"
      "unat (due_in k (ThreadTimer c)) = m - n"
      using s by (simp_all add: sleeping_def)
    show ?thesis
    proof (cases "m - n \<le> 1")
      case due: True
      then have "expires k c" using a by (simp add: expires_def word_le_nat_alt)
      from k'(5) [OF this] show ?thesis using True due by (simp add: sleeping_def timed_out_def)
    next
      case False
      then have n: "\<not> expires k c" "\<not> due_in k (ThreadTimer c) \<le> 1"
        using a by (simp_all add: expires_def word_le_nat_alt)
      have u: "untouched k k' c" by (rule k'(6) [OF n(1)])
      then have tm: "timers k' (ThreadTimer c) = timers k (ThreadTimer c)" by (simp add: untouched_def)
      have "unat (due_in k' (ThreadTimer c)) = m - Suc n"
        using later_tick [OF n(2) [unfolded due_in_def]] a(3) by (simp add: due_in_def tm k'(3))
      then show ?thesis
        using False a u tm by (simp add: sleeping_def untouched_def same_threads_def active_def)
    qed
  next
    case False
    then have a: "active (stat (tcbs k c))" "error (tcbs k c) = - RT_ETIMEOUT" "\<not> activated (timers k (ThreadTimer c))"
      using s by (simp_all add: sleeping_def)
    then have "untouched k k' c" by (intro k'(6)) (simp add: expires_def)
    then show ?thesis using False a by (simp add: sleeping_def untouched_def same_threads_def)
  qed
  with k' show thesis using that by blast
qed

lemma sleeping_ticks:
  assumes "kernel_inv k" and "sleeping c m 0 k" and "settled k"
  shows "\<exists>k'. run_ticks own n k = Some (Inr k') \<and> kernel_inv k' \<and> sleeping c m n k' \<and> settled k' \<and>
     rt_tick k' = rt_tick k + of_nat n"
proof (induction n)
  case 0
  then show ?case using assms by simp
next
  case (Suc n)
  then obtain k' where k': "run_ticks own n k = Some (Inr k')" "kernel_inv k'" "sleeping c m n k'" "settled k'"
    "rt_tick k' = rt_tick k + of_nat n" by blast
  from sleeping_tick [OF k'(2,3), of own] k'(4) obtain k'' where
    "rt_tick_increase own k' = Some (Inr k'')" "kernel_inv k''" "sleeping c m (Suc n) k''" "settled k''"
    "rt_tick k'' = rt_tick k' + 1" by metis
  then show ?case using k'(1,5) by simp
qed

section \<open>Properties\<close>

lemma demo_kernel_inv: "kernel_inv demo" "settled demo"
proof -
  show "kernel_inv demo"
    using demo_inv by (simp add: kernel_inv_def timers_inv_def due_inv_def demo_def)
  show "settled demo" by (auto simp: settled_def demo_def demo_tcb_def idle_thread_def)
qed

text \<open>
  C2. One tick, for every consistent kernel: the tick interrupt ends, keeps the kernel consistent and
  the most urgent thread running, and wakes exactly the threads whose deadline it reaches: these can
  run, carry the timeout error, have no running timer and wait nowhere; every other thread keeps
  its state, error, timer and wait list.
\<close>

theorem tick_wakes_exactly_due:
  assumes "kernel_inv k"
  shows "\<exists>k'. rt_tick_increase own k = Some (Inr k') \<and> kernel_inv k' \<and> rt_tick k' = rt_tick k + 1 \<and>
     (settled k \<longrightarrow> settled k') \<and> (\<forall>t. if expires k t then timed_out k' t else untouched k k' t)"
  using tick_ok [OF assms, of own] by metis

theorem tick_wakes_exactly_due_witness:
  "\<exists>k'. rt_tick_increase (\<lambda>_. Inr) demo = Some (Inr k') \<and> settled k' \<and> rt_tick k' = 1"
proof -
  have "rt_tick demo + 1 = 1" by (simp add: demo_def)
  then show ?thesis
    using tick_wakes_exactly_due [OF demo_kernel_inv(1), of "\<lambda>_. Inr"] demo_kernel_inv(2) by metis
qed

text \<open>
  C3. Sleeping, end to end: a running thread that sleeps for \<open>tick\<close> ticks while another one is ready
  gives up the processor to the most urgent one, when the scheduler is not locked, is suspended for exactly \<open>max 1 tick\<close> ticks, can run
  again after them, and its call then returns \<open>RT_EOK\<close>.
\<close>

theorem sleep_exact:
  assumes "kernel_inv k" and "rt_current_thread k = Some c" and "stat (tcbs k c) = RT_THREAD_RUNNING"
    and "tick < RT_TICK_HALF" and "stat (tcbs k u) = RT_THREAD_READY"
  shows "\<exists>k0. rt_thread_sleep tick k = Inr k0 \<and> settled k0 \<and>
     (\<forall>n. \<exists>kn. run_ticks own n k0 = Some (Inr kn) \<and> kernel_inv kn \<and> settled kn \<and>
        (if n < max 1 (unat tick) then stat (tcbs kn c) = RT_THREAD_SUSPEND
         else active (stat (tcbs kn c)) \<and> fst (rt_thread_sleep_wake c kn) = RT_EOK))"
proof -
  obtain k0 where k0: "rt_thread_sleep tick k = Inr k0" "kernel_inv k0" "settled k0"
    "stat (tcbs k0 c) = RT_THREAD_SUSPEND" "activated (timers k0 (ThreadTimer c))" "due_in k0 (ThreadTimer c) = tick"
    using rt_thread_sleep_ok [OF assms] by metis
  have s0: "sleeping c (unat tick) 0 k0" using k0 by (simp add: sleeping_def)
  have "\<exists>kn. run_ticks own n k0 = Some (Inr kn) \<and> kernel_inv kn \<and> settled kn \<and>
        (if n < max 1 (unat tick) then stat (tcbs kn c) = RT_THREAD_SUSPEND
         else active (stat (tcbs kn c)) \<and> fst (rt_thread_sleep_wake c kn) = RT_EOK)" for n
    using sleeping_ticks [OF k0(2) s0 k0(3), of own n]
    by (auto simp: sleeping_def rt_thread_sleep_wake_def set_error_def RT_EOK_def split: if_splits)
  with k0 show ?thesis by blast
qed

theorem sleep_exact_witness:
  "\<exists>k0 k3. rt_thread_sleep 3 demo = Inr k0 \<and> run_ticks (\<lambda>_. Inr) 3 k0 = Some (Inr k3) \<and> active (stat (tcbs k3 2))"
proof -
  have d: "rt_current_thread demo = Some 2" "stat (tcbs demo 2) = RT_THREAD_RUNNING" "stat (tcbs demo 3) = RT_THREAD_READY"
    "(3 :: u32) < RT_TICK_HALF"
    by (simp_all add: demo_def demo_tcb_def idle_thread_def RT_TICK_HALF_def)
  from sleep_exact [OF demo_kernel_inv(1) d(1,2,4,3), of "\<lambda>_. Inr"] obtain k0 where
    k0: "rt_thread_sleep 3 demo = Inr k0" and
    run: "\<And>n. \<exists>kn. run_ticks (\<lambda>_. Inr) n k0 = Some (Inr kn) \<and>
        (if n < max 1 (unat (3 :: u32)) then stat (tcbs kn 2) = RT_THREAD_SUSPEND else active (stat (tcbs kn 2)))"
    by (auto split: if_splits) (metis)
  from run [of 3] k0 show ?thesis by auto
qed

lemma signed_div_nonneg: "0 \<le> a \<Longrightarrow> a sdiv 1000 = a div (1000 :: int)" "0 \<le> a \<Longrightarrow> a smod 1000 = a mod (1000 :: int)"
  by (cases "a = 0"; simp add: signed_divide_int_def signed_modulo_int_def)+

text \<open>
  With 1000 ticks per second, a delay in milliseconds is the same number of ticks, for every
  non-negative argument, and a negative one becomes the largest tick.
\<close>

theorem millisecond_ticks:
  "(ms \<in> {0..<2 ^ 31} \<longrightarrow> uint (rt_tick_from_millisecond ms) = ms) \<and>
   (ms < 0 \<longrightarrow> rt_tick_from_millisecond ms = 0xFFFFFFFF)"
proof (intro conjI impI)
  assume "ms \<in> {0..<2 ^ 31}"
  then have ms: "0 \<le> ms" "ms < 2 ^ 31" by simp_all
  have m: "0 \<le> ms mod 1000" by simp
  have "(1000 * (ms mod 1000) + 999) div 1000 = ms mod 1000" by simp
  then have "1000 * (ms sdiv 1000) + (1000 * (ms smod 1000) + 999) sdiv 1000 = ms"
    unfolding signed_div_nonneg [OF ms(1)] using m by (subst signed_div_nonneg(1)) simp_all
  moreover have "rt_tick_from_millisecond ms =
      of_int (1000 * (ms sdiv 1000) + (1000 * (ms smod 1000) + 999) sdiv 1000)"
    using ms(1) by (simp add: rt_tick_from_millisecond_def RT_TICK_PER_SECOND_def)
  ultimately have "rt_tick_from_millisecond ms = of_int ms" by simp
  then show "uint (rt_tick_from_millisecond ms) = ms" using ms by (simp add: unsigned_of_int take_bit_eq_mod)
next
  assume "ms < 0"
  then show "rt_tick_from_millisecond ms = 0xFFFFFFFF" by (simp add: rt_tick_from_millisecond_def)
qed

theorem millisecond_ticks_witness:
  "uint (rt_tick_from_millisecond 10) = 10 \<and> rt_tick_from_millisecond (- 1) = 0xFFFFFFFF"
  using millisecond_ticks [of 10] millisecond_ticks [of "- 1"] by simp

end
