(* ===== verification/Ipc.thy ===== *)
theory Ipc
  imports Thread
begin

text \<open>
  The part of \<open>rt-thread/src/ipc.c\<close> that all IPC objects share (an object's list of waiting threads,
  suspending on it and resuming from it) and the semaphore. A waiting call is split where it calls
  \<open>rt_schedule\<close>, as in \<open>thread.c\<close>. The object registry and the hooks, which the firmware does not set,
  are left out; an object is created at the address the allocator answers.
\<close>

section \<open>IPC objects\<close>

definition RT_IPC_FLAG_FIFO :: u8 where "RT_IPC_FLAG_FIFO = 0"
definition RT_IPC_FLAG_PRIO :: u8 where "RT_IPC_FLAG_PRIO = 1"
definition RT_IPC_CMD_RESET :: int where "RT_IPC_CMD_RESET = 1"

lemmas ipc_flag_defs = RT_IPC_FLAG_FIFO_def RT_IPC_FLAG_PRIO_def

text \<open>The head of the wait list is known by its address.\<close>

record ipc =
  suspend_thread :: nat
  ipc_flag :: u8
  ipc_systemobject :: bool

abbreviation waiting :: "'a ipc_scheme \<Rightarrow> kernel \<Rightarrow> nat list" where
  "waiting s k \<equiv> links k (Wait (suspend_thread s))"

definition ipc_object_init :: "nat \<Rightarrow> kernel \<Rightarrow> kernel" where
  "ipc_object_init w k = k\<lparr>links := (links k)(Wait w := [])\<rparr>"

text \<open>Before the first thread with a strictly larger priority number, else at the end.\<close>

fun prio_insert :: "(nat \<Rightarrow> u8) \<Rightarrow> nat \<Rightarrow> nat list \<Rightarrow> nat list" where
  "prio_insert p t [] = [t]"
| "prio_insert p t (u # us) = (if p t < p u then t # u # us else u # prio_insert p t us)"

definition ipc_list_suspend :: "nat \<Rightarrow> nat \<Rightarrow> u8 \<Rightarrow> kernel \<Rightarrow> fault + kernel" where
  "ipc_list_suspend w t flag k =
     bind_err (rt_thread_suspend t k) (\<lambda>(_, k).
       if flag = RT_IPC_FLAG_FIFO then Inr (rt_list_insert_before (Wait w) t k)
       else if flag = RT_IPC_FLAG_PRIO then
         Inr (k\<lparr>links := (links k)(Wait w := prio_insert (\<lambda>u. current_priority (tcbs k u)) t (links k (Wait w)))\<rparr>)
       else Inl AssertFailed)"

definition ipc_list_resume :: "nat \<Rightarrow> kernel \<Rightarrow> fault + kernel" where
  "ipc_list_resume w k =
     (case links k (Wait w) of [] \<Rightarrow> Inl NullPointer
      | t # _ \<Rightarrow> bind_err (rt_thread_resume t k) (\<lambda>(_, k). Inr k))"

text \<open>\<open>_ipc_list_resume_all\<close>; None stands for a loop that does not end.\<close>

partial_function (option) ipc_list_resume_all :: "nat \<Rightarrow> kernel \<Rightarrow> (fault + kernel) option" where
  "ipc_list_resume_all w k =
     (case links k (Wait w) of [] \<Rightarrow> Some (Inr k)
      | t # _ \<Rightarrow>
          (case rt_thread_resume t (set_error t (- RT_ERROR) k) of Inl e \<Rightarrow> Some (Inl e)
           | Inr (_, k) \<Rightarrow> ipc_list_resume_all w k))"

text \<open>The assertions \<open>RT_DEBUG_NOT_IN_INTERRUPT\<close>, \<open>_IN_THREAD_CONTEXT\<close> and \<open>_SCHEDULER_AVAILABLE\<close>.\<close>

definition not_in_interrupt :: "kernel \<Rightarrow> bool" where
  "not_in_interrupt k \<longleftrightarrow> rt_interrupt_nest k = 0"

definition in_thread_context :: "kernel \<Rightarrow> bool" where
  "in_thread_context k \<longleftrightarrow> rt_thread_self k \<noteq> None \<and> not_in_interrupt k"

definition scheduler_available :: "kernel \<Rightarrow> bool" where
  "scheduler_available k \<longleftrightarrow> rt_critical_level k = 0 \<and> in_thread_context k"

lemmas context_defs = not_in_interrupt_def in_thread_context_def scheduler_available_def
  rt_thread_self_def rt_critical_level_def

text \<open>
  How every waiting call waits: suspend the thread, start its timer when the time is positive (zero
  has been dealt with before, a negative time waits forever), and schedule.
\<close>

definition ipc_wait :: "nat \<Rightarrow> nat \<Rightarrow> u8 \<Rightarrow> int \<Rightarrow> kernel \<Rightarrow> fault + kernel" where
  "ipc_wait w t flag time k =
     bind_err (ipc_list_suspend w t flag k) (\<lambda>k.
     bind_err (if 0 < time then start_thread_timer t (of_int time) k else Inr k) rt_schedule)"

text \<open>\<open>rt_set_errno\<close> sets the error of the thread; the variable it sets in an interrupt is read by nothing modelled.\<close>

definition rt_set_errno :: "int \<Rightarrow> kernel \<Rightarrow> kernel" where
  "rt_set_errno e k =
     (if rt_interrupt_nest k \<noteq> 0 then k else case rt_thread_self k of None \<Rightarrow> k | Some t \<Rightarrow> set_error t e k)"

section \<open>Semaphores\<close>

record sem = ipc +
  sem_value :: u16

definition RT_SEM_VALUE_MAX :: u16 where "RT_SEM_VALUE_MAX = 0xFFFF"

definition rt_sem_init :: "nat \<Rightarrow> u32 \<Rightarrow> u8 \<Rightarrow> kernel \<Rightarrow> fault + sem \<times> kernel" where
  "rt_sem_init w value flag k =
     (if value < 0x10000 \<and> (flag = RT_IPC_FLAG_FIFO \<or> flag = RT_IPC_FLAG_PRIO) then
        Inr (\<lparr>suspend_thread = w, ipc_flag = flag, ipc_systemobject = True, sem_value = ucast value\<rparr>, ipc_object_init w k)
      else Inl AssertFailed)"

definition rt_sem_detach :: "sem \<Rightarrow> kernel \<Rightarrow> (fault + int \<times> kernel) option" where
  "rt_sem_detach s k =
     (if ipc_systemobject s
      then bind_opt (ipc_list_resume_all (suspend_thread s) k) (\<lambda>k. Some (Inr (RT_EOK, k)))
      else Some (Inl AssertFailed))"

definition rt_sem_create :: "nat option \<Rightarrow> u32 \<Rightarrow> u8 \<Rightarrow> kernel \<Rightarrow> fault + sem option \<times> kernel" where
  "rt_sem_create obj value flag k =
     (if value < 0x10000 \<and> (flag = RT_IPC_FLAG_FIFO \<or> flag = RT_IPC_FLAG_PRIO) \<and> not_in_interrupt k then
        (case obj of None \<Rightarrow> Inr (None, k)
         | Some w \<Rightarrow> Inr (Some \<lparr>suspend_thread = w, ipc_flag = flag, ipc_systemobject = False, sem_value = ucast value\<rparr>,
                       ipc_object_init w k))
      else Inl AssertFailed)"

definition rt_sem_delete :: "sem \<Rightarrow> kernel \<Rightarrow> (fault + int \<times> kernel) option" where
  "rt_sem_delete s k =
     (if \<not> ipc_systemobject s \<and> not_in_interrupt k
      then bind_opt (ipc_list_resume_all (suspend_thread s) k) (\<lambda>k. Some (Inr (RT_EOK, k)))
      else Some (Inl AssertFailed))"

definition rt_sem_take :: "sem \<Rightarrow> int \<Rightarrow> kernel \<Rightarrow> fault + int call \<times> sem \<times> kernel" where
  "rt_sem_take s time k =
     (if sem_value s > 0 then Inr (Returned RT_EOK, s\<lparr>sem_value := sem_value s - 1\<rparr>, k)
      else if time = 0 then Inr (Returned (- RT_ETIMEOUT), s, k)
      else if \<not> scheduler_available k then Inl AssertFailed
      else case rt_thread_self k of None \<Rightarrow> Inl NullPointer
      | Some t \<Rightarrow>
          bind_err (ipc_wait (suspend_thread s) t (ipc_flag s) time (set_error t RT_EOK k)) (\<lambda>k.
          Inr (Switched, s, k)))"

text \<open>The end of a take that has waited, in the state in which the thread runs again.\<close>

definition rt_sem_take_wake :: "nat \<Rightarrow> kernel \<Rightarrow> int" where
  "rt_sem_take_wake t k = (if error (tcbs k t) \<noteq> RT_EOK then error (tcbs k t) else RT_EOK)"

definition rt_sem_trytake :: "sem \<Rightarrow> kernel \<Rightarrow> fault + int call \<times> sem \<times> kernel" where
  "rt_sem_trytake s k = rt_sem_take s 0 k"

definition rt_sem_release :: "sem \<Rightarrow> kernel \<Rightarrow> fault + int \<times> sem \<times> kernel" where
  "rt_sem_release s k =
     (if waiting s k \<noteq> [] then
        bind_err (ipc_list_resume (suspend_thread s) k) (\<lambda>k.
        bind_err (rt_schedule k) (\<lambda>k. Inr (RT_EOK, s, k)))
      else if sem_value s < RT_SEM_VALUE_MAX then Inr (RT_EOK, s\<lparr>sem_value := sem_value s + 1\<rparr>, k)
      else Inr (- RT_EFULL, s, k))"

definition rt_sem_control :: "sem \<Rightarrow> int \<Rightarrow> u32 \<Rightarrow> kernel \<Rightarrow> (fault + int \<times> sem \<times> kernel) option" where
  "rt_sem_control s cmd arg k =
     (if cmd = RT_IPC_CMD_RESET then
        bind_opt (ipc_list_resume_all (suspend_thread s) k) (\<lambda>k.
          Some (bind_err (rt_schedule k) (\<lambda>k. Inr (RT_EOK, s\<lparr>sem_value := ucast arg\<rparr>, k))))
      else Some (Inr (- RT_ERROR, s, k)))"

section \<open>Waiting\<close>

lemma set_prio_insert [simp]: "set (prio_insert p t us) = insert t (set us)"
  by (induction us) auto

lemma distinct_prio_insert [simp]: "distinct (prio_insert p t us) \<longleftrightarrow> t \<notin> set us \<and> distinct us"
  by (induction us) auto

lemma prio_insert_sorted: "sorted (map p us) \<Longrightarrow> sorted (map p (prio_insert p t us))"
  by (induction us) (auto simp: not_less intro: order.trans less_imp_le)

text \<open>The list after a thread has joined it.\<close>

definition joined :: "u8 \<Rightarrow> (nat \<Rightarrow> u8) \<Rightarrow> nat \<Rightarrow> nat list \<Rightarrow> nat list" where
  "joined f p t us = (if f = RT_IPC_FLAG_FIFO then us @ [t] else prio_insert p t us)"

lemma joined_set [simp]:
  "set (joined f p t us) = insert t (set us)"
  "distinct (joined f p t us) \<longleftrightarrow> t \<notin> set us \<and> distinct us"
  by (auto simp: joined_def)

text \<open>The thread \<open>c\<close> suspended in a wait list, which is \<open>us\<close> then.\<close>

definition waits :: "nat \<Rightarrow> nat list \<Rightarrow> nat \<Rightarrow> kernel \<Rightarrow> kernel" where
  "waits w us c k = (let k = suspended c k in k\<lparr>links := (links k)(Wait w := us)\<rparr>)"

lemma waits_sel [simp]:
  "tcbs (waits w us c k) t = (if t = c then (tcbs k c)\<lparr>stat := RT_THREAD_SUSPEND\<rparr> else tcbs k t)"
  "rt_current_thread (waits w us c k) = rt_current_thread k"
  "rt_scheduler_lock_nest (waits w us c k) = rt_scheduler_lock_nest k"
  "rt_interrupt_nest (waits w us c k) = rt_interrupt_nest k"
  "timers_kept k (waits w us c k)" "rt_tick (waits w us c k) = rt_tick k" "timers (waits w us c k) = timers k"
  by (simp_all add: waits_def Let_def suspended_def timers_kept_def set_stat_def)

lemma waits_links:
  assumes "unlinked k c"
  shows "links (waits w us c k) l = (if l = Wait w then us else links k l)"
  using assms by (simp add: waits_def Let_def unlinked_def)

lemma ipc_list_suspend_eq:
  assumes k: "queue_inv k" "timers_inv k" and c: "rt_current_thread k = Some c" "stat (tcbs k c) = RT_THREAD_RUNNING"
    and f: "f = RT_IPC_FLAG_FIFO \<or> f = RT_IPC_FLAG_PRIO"
  shows "ipc_list_suspend w c f k = Inr (waits w (joined f (\<lambda>u. current_priority (tcbs k u)) c (links k (Wait w))) c k)"
proof -
  have p: "(\<lambda>u. current_priority (tcbs (suspended c k) u)) = (\<lambda>u. current_priority (tcbs k u))"
    by (auto simp: suspended_def set_stat_def)
  have l: "links (suspended c k) (Wait w) = links k (Wait w)"
    using running_unlinked [OF k(1) c(2)] by (simp add: unlinked_def)
  show ?thesis
    using f suspend_eq [OF k c] p l
    by (auto simp: ipc_list_suspend_def waits_def joined_def rt_list_insert_before_def ipc_flag_defs Let_def)
qed

lemma waits_inv:
  assumes k: "queue_inv k" "run_inv k" and c: "rt_current_thread k = Some c" "stat (tcbs k c) = RT_THREAD_RUNNING"
    and us: "set us = insert c (set (links k (Wait w)))" "distinct us"
  shows "queue_inv (waits w us c k)" and "run_inv (waits w us c k)"
proof -
  have u: "unlinked k c" by (rule running_unlinked [OF k(1) c(2)])
  note s = suspended_inv [OF k c]
  have g: "rt_thread_ready_priority_group (waits w us c k) = rt_thread_ready_priority_group (suspended c k)"
    by (simp add: waits_def Let_def)
  have sl: "links (suspended c k) l = links k l" for l using u by (simp add: unlinked_def)
  then have l: "links (waits w us c k) (Ready p) = links (suspended c k) (Ready p)"
    "links (waits w us c k) Defunct = links (suspended c k) Defunct"
    "v \<noteq> w \<Longrightarrow> links (waits w us c k) (Wait v) = links (suspended c k) (Wait v)"
    "links (waits w us c k) (Wait w) = us" for p v
    by (simp_all add: waits_links [OF u])
  have us': "set us = insert c (set (links (suspended c k) (Wait w)))" using us(1) sl by simp
  have t: "tcbs (waits w us c k) = tcbs (suspended c k)" by (rule ext) simp
  have c0: "c \<notin> set (links (suspended c k) m)" for m by simp
  have "lists_ok (waits w us c k)"
  proof -
    have "distinct (links (waits w us c k) m)" for m
      using s(1) us(2) by (cases m; cases "m = Wait w") (auto simp: l queue_inv_def lists_ok_def)
    moreover have "v = v'" if "t \<in> set (links (waits w us c k) (Wait v))" "t \<in> set (links (waits w us c k) (Wait v'))" for v v' t
      using that s(1) c0
      by (cases "v = w"; cases "v' = w") (auto simp: l us' queue_inv_def lists_ok_def simp del: suspended_sel(3))
    ultimately show ?thesis unfolding lists_ok_def by blast
  qed
  moreover have "stats_ok (waits w us c k)"
  proof -
    have "stat (tcbs (suspended c k) t) = RT_THREAD_SUSPEND" if "t \<in> set (links (waits w us c k) (Wait v))" for t v
      using that s(1) by (cases "v = w") (auto simp: l us' queue_inv_def stats_ok_def)
    then show ?thesis using s(1) unfolding stats_ok_def t l by (simp add: queue_inv_def stats_ok_def)
  qed
  moreover have "group_ok (waits w us c k)"
    using s(1) unfolding queue_inv_def group_ok_def g l by simp
  ultimately show "queue_inv (waits w us c k)" using s(1) by (simp add: queue_inv_def t)
  show "run_inv (waits w us c k)" using s(2) run_inv_cong [OF t] by simp
qed

section \<open>Scheduling and waking keep the invariant\<close>

lemma kernel_invI:
  "queue_inv k \<Longrightarrow> run_inv k \<Longrightarrow> rt_current_thread k \<noteq> None \<Longrightarrow> timers_inv k \<Longrightarrow> due_inv k \<Longrightarrow> kernel_inv k"
  by (simp add: kernel_inv_def)

lemma kernel_inv_current: "kernel_inv k \<Longrightarrow> rt_current_thread k \<noteq> None"
  by (simp add: kernel_inv_def)

lemma untouched_trans: "untouched k k' t \<Longrightarrow> untouched k' k'' t \<Longrightarrow> untouched k k'' t"
  using same_threads_trans by (auto simp: untouched_def)

lemma untouched_sel:
  assumes "untouched k k' t"
  shows "current_priority (tcbs k' t) = current_priority (tcbs k t)" "error (tcbs k' t) = error (tcbs k t)"
    "active (stat (tcbs k' t)) = active (stat (tcbs k t))"
    "\<not> active (stat (tcbs k t)) \<Longrightarrow> stat (tcbs k' t) = stat (tcbs k t)"
    "event_set (tcbs k' t) = event_set (tcbs k t)" "event_info (tcbs k' t) = event_info (tcbs k t)"
    "timers k' (ThreadTimer t) = timers k (ThreadTimer t)"
  using assms by (simp_all add: untouched_def same_threads_def)

lemma sched_frame_untouched: "sched_frame k k' \<Longrightarrow> untouched k k' t"
  using sched_frame_same [of k k' t] by (simp add: untouched_def sched_frame_stat(5)) (simp add: sched_frame_def)

lemma schedule_inv:
  assumes k: "kernel_inv k" and some: "active (stat (tcbs k u))"
  obtains k' where "rt_schedule k = Inr k'" "kernel_inv k'" "settled k'" "sched_frame k k'" "\<And>t. untouched k k' t"
proof -
  obtain c where c: "rt_current_thread k = Some c" using kernel_inv_current [OF k] by blast
  note p = kernel_inv_parts [OF k]
  obtain k' where k': "rt_schedule k = Inr k'" "queue_inv k'" "run_inv k'" "sched_frame k k'"
    "rt_current_thread k' \<noteq> None" "settled k'"
    using rt_schedule_settles [OF p(1,2) c] some by blast
  note keep = sched_frame_timers [OF k'(4)]
  have "timers_inv k'"
    by (rule timers_inv_kept [OF p(3) keep]) (use sched_frame_stat(2) [OF k'(4)] in \<open>auto simp: active_def\<close>)
  then have "kernel_inv k'" using k' due_inv_kept [OF p(4) keep] by (simp add: kernel_inv_def)
  with k' show thesis using that sched_frame_untouched by blast
qed

text \<open>A suspended thread that is resumed: its timer stops, it leaves its list and can run.\<close>

definition resumed :: "nat \<Rightarrow> kernel \<Rightarrow> kernel" where
  "resumed t k = wake t (snd (rt_timer_stop (ThreadTimer t) k))"

lemma rt_timer_stop_sel [simp]:
  "tcbs (snd (rt_timer_stop r k)) = tcbs k" "links (snd (rt_timer_stop r k)) = links k"
  "rt_current_thread (snd (rt_timer_stop r k)) = rt_current_thread k" "rt_tick (snd (rt_timer_stop r k)) = rt_tick k"
  "rt_thread_ready_priority_group (snd (rt_timer_stop r k)) = rt_thread_ready_priority_group k"
  "rt_scheduler_lock_nest (snd (rt_timer_stop r k)) = rt_scheduler_lock_nest k"
  "rt_interrupt_nest (snd (rt_timer_stop r k)) = rt_interrupt_nest k"
  "timers (snd (rt_timer_stop r k)) q = (if q = r then (timers k r)\<lparr>activated := False\<rparr> else timers k q)"
  by (auto simp: rt_timer_stop_def set_activated_def upd_timer_def timer_remove_def)

lemma rt_timer_stop_list:
  assumes "timers_inv k"
  shows "timer_list (snd (rt_timer_stop r k)) = filter (\<lambda>u. u \<noteq> r) (timer_list k)"
  using timers_inv_listed [OF assms, of r]
  by (auto simp: rt_timer_stop_def set_activated_def upd_timer_def timer_remove_def filter_id_conv)

lemma timers_inv_sel:
  assumes "timers_inv k"
  shows "\<not> periodic (timers k (ThreadTimer t))" "\<not> soft_timer (timers k (ThreadTimer t))"
    "\<not> activated (timers k (OwnTimer n))" "distinct (timer_list k)" "soft_timer_list k = []" "expired_list k = []"
    "soft_expired_list k = []"
  using assms by (auto simp: timers_inv_def)

lemma stopped_timers_inv:
  assumes "timers_inv k" "due_inv k"
  shows "timers_inv (snd (rt_timer_stop r k))" and "due_inv (snd (rt_timer_stop r k))"
proof -
  note t = timers_inv_sel [OF assms(1)]
  have e: "soft_timer_list (snd (rt_timer_stop r k)) = [] \<and> expired_list (snd (rt_timer_stop r k)) = [] \<and>
      soft_expired_list (snd (rt_timer_stop r k)) = []"
    using t by (simp add: rt_timer_stop_def set_activated_def upd_timer_def timer_remove_def)
  show "timers_inv (snd (rt_timer_stop r k))"
    unfolding timers_inv_def rt_timer_stop_list [OF assms(1)]
    using t e timers_inv_suspended [OF assms(1)] timers_inv_listed [OF assms(1)] by (auto split: if_splits)
  have d: "due_in (snd (rt_timer_stop r k)) q = due_in k q" for q by (simp add: due_in_def)
  have "sorted (map (due_in k) (filter (\<lambda>u. u \<noteq> r) (timer_list k)))"
    using assms(2) by (simp add: due_inv_def sorted_filter)
  then show "due_inv (snd (rt_timer_stop r k))"
    using assms(2) unfolding due_inv_def rt_timer_stop_list [OF assms(1)] by (simp add: d [abs_def])
qed

lemma list_remove_timer_stop:
  "snd (rt_timer_stop r (rt_list_remove t k)) = rt_list_remove t (snd (rt_timer_stop r k))"
  by (simp add: rt_timer_stop_def set_activated_def upd_timer_def timer_remove_def rt_list_remove_def)

lemma rt_thread_resume_eq:
  assumes "queue_inv k" and "stat (tcbs k t) = RT_THREAD_SUSPEND"
  shows "rt_thread_resume t k = Inr (RT_EOK, resumed t k)"
proof -
  let ?k = "snd (rt_timer_stop (ThreadTimer t) k)"
  have "queue_inv ?k" using assms(1) queue_inv_cong [of ?k k] by simp
  from insert_woken_eq [OF this, of t] assms(2) show ?thesis
    by (simp add: rt_thread_resume_def list_remove_timer_stop resumed_def Let_def)
qed

lemma resumed_sel [simp]:
  "rt_current_thread (resumed t k) = rt_current_thread k" "rt_tick (resumed t k) = rt_tick k"
  "rt_scheduler_lock_nest (resumed t k) = rt_scheduler_lock_nest k"
  "rt_interrupt_nest (resumed t k) = rt_interrupt_nest k"
  "links (resumed t k) (Wait w) = filter (\<lambda>u. u \<noteq> t) (links k (Wait w))"
  "tcbs (resumed t k) u = (if u = t then (tcbs k t)\<lparr>stat := if rt_current_thread k = Some t then RT_THREAD_RUNNING
      else RT_THREAD_READY\<rparr> else tcbs k u)"
  "timers (resumed t k) q = (if q = ThreadTimer t then (timers k q)\<lparr>activated := False\<rparr> else timers k q)"
  by (simp_all add: resumed_def)

lemma resumed_inv:
  assumes k: "kernel_inv k" and t: "stat (tcbs k t) = RT_THREAD_SUSPEND"
  shows "kernel_inv (resumed t k)"
proof -
  let ?k = "snd (rt_timer_stop (ThreadTimer t) k)"
  obtain c where c: "rt_current_thread ?k = Some c" using kernel_inv_current [OF k] by auto
  note p = kernel_inv_parts [OF k]
  have q: "queue_inv ?k" "run_inv ?k" using p queue_inv_cong [of ?k k] run_inv_cong [of ?k k] by simp_all
  have t': "stat (tcbs ?k t) = RT_THREAD_SUSPEND" using t by simp
  note s = stopped_timers_inv [OF p(3,4), of "ThreadTimer t"]
  have "activated (timers ?k (ThreadTimer u)) \<Longrightarrow> stat (tcbs (resumed t k) u) = RT_THREAD_SUSPEND" for u
    using timers_inv_suspended [OF p(3), of u] by (auto split: if_splits)
  then have "timers_inv (resumed t k)"
    using s(1) by (simp add: timers_inv_def resumed_def)
  moreover have "due_inv (resumed t k)"
    by (rule due_inv_kept [OF s(2)]) (simp add: timers_kept_def resumed_def)
  ultimately show ?thesis
    using wake_inv [OF q(1) t'] wake_run_inv [OF q(2) c t'] c by (simp add: kernel_inv_def resumed_def)
qed

lemma waiting_suspended:
  "kernel_inv k \<Longrightarrow> t \<in> set (links k (Wait w)) \<Longrightarrow> stat (tcbs k t) = RT_THREAD_SUSPEND"
  unfolding kernel_inv_def queue_inv_def stats_ok_def by blast

lemma waiting_distinct: "kernel_inv k \<Longrightarrow> distinct (links k (Wait w))"
  by (simp add: kernel_inv_def queue_inv_def lists_ok_def)

lemma waiting_elsewhere:
  "kernel_inv k \<Longrightarrow> t \<in> set (links k (Wait w)) \<Longrightarrow> v \<noteq> w \<Longrightarrow> t \<notin> set (links k (Wait v))"
  unfolding kernel_inv_def queue_inv_def lists_ok_def by blast

lemma ipc_list_resume_eq:
  assumes "kernel_inv k" and "links k (Wait w) = t # ts"
  shows "ipc_list_resume w k = Inr (resumed t k)"
  using rt_thread_resume_eq [of k t] waiting_suspended [OF assms(1), of t w] kernel_inv_parts(1) [OF assms(1)] assms(2)
  by (simp add: ipc_list_resume_def)

lemma resumed_untouched: "u \<noteq> t \<Longrightarrow> untouched k (resumed t k) u"
  by (simp add: untouched_def same_threads_def)

section \<open>Waiting calls\<close>

text \<open>
  What a call that waits has done when it has given up the processor: its thread is suspended in the
  list, with its timer running for the given time or not at all, and nothing else has changed for
  the other threads and lists.
\<close>

definition waits_in :: "nat \<Rightarrow> nat list \<Rightarrow> int \<Rightarrow> nat \<Rightarrow> kernel \<Rightarrow> kernel \<Rightarrow> bool" where
  "waits_in w us time c k k' \<longleftrightarrow>
     rt_tick k' = rt_tick k \<and> rt_scheduler_lock_nest k' = rt_scheduler_lock_nest k \<and>
     rt_interrupt_nest k' = rt_interrupt_nest k \<and> stat (tcbs k' c) = RT_THREAD_SUSPEND \<and>
     error (tcbs k' c) = error (tcbs k c) \<and> current_priority (tcbs k' c) = current_priority (tcbs k c) \<and>
     event_set (tcbs k' c) = event_set (tcbs k c) \<and> event_info (tcbs k' c) = event_info (tcbs k c) \<and>
     links k' (Wait w) = us \<and> (\<forall>v. v \<noteq> w \<longrightarrow> links k' (Wait v) = links k (Wait v)) \<and>
     (activated (timers k' (ThreadTimer c)) \<longleftrightarrow> 0 < time) \<and> (0 < time \<longrightarrow> due_in k' (ThreadTimer c) = of_int time) \<and>
     (\<forall>t. t \<noteq> c \<longrightarrow> untouched k k' t)"

text \<open>The largest value of \<open>rt_int32_t\<close> is half the tick range, which the timer refuses.\<close>

definition legal_time :: "int \<Rightarrow> bool" where
  "legal_time time \<longleftrightarrow> - (2 ^ 31) \<le> time \<and> time < 2 ^ 31 - 1"

lemma legal_time_half: "legal_time time \<Longrightarrow> 0 < time \<Longrightarrow> (of_int time :: u32) < RT_TICK_HALF"
  by (simp add: legal_time_def RT_TICK_HALF_def word_less_def unsigned_of_int take_bit_eq_mod)

text \<open>The rest of a wait, once the thread is in the list: \<open>us\<close> is the list then.\<close>

lemma list_wait_ok:
  assumes k: "kernel_inv k" and c: "rt_current_thread k = Some c" "stat (tcbs k c) = RT_THREAD_RUNNING"
    and us: "set us = insert c (set (links k (Wait w)))" "distinct us" and n: "legal_time time"
    and other: "stat (tcbs k u) = RT_THREAD_READY"
  obtains k' where
    "bind_err (if 0 < time then start_thread_timer c (of_int time) (waits w us c k) else Inr (waits w us c k)) rt_schedule = Inr k'"
    "kernel_inv k'" "settled k'" "waits_in w us time c k k'"
proof -
  note p = kernel_inv_parts [OF k]
  have ul: "unlinked k c" by (rule running_unlinked [OF p(1) c(2)])
  define k2 where "k2 = waits w us c k"
  have off: "\<not> activated (timers k2 (ThreadTimer c))"
    using timers_inv_suspended [OF p(3), of c] c(2) by (auto simp: k2_def)
  have kept: "timers_kept k k2" by (simp add: k2_def)
  have t2: "timers_inv k2" by (rule timers_inv_kept [OF p(3) kept]) (simp add: k2_def)
  have d2: "due_inv k2" by (rule due_inv_kept [OF p(4) kept])
  have q2: "queue_inv k2" "run_inv k2" using waits_inv [OF p(1,2) c us] by (simp_all add: k2_def)
  have s2: "stat (tcbs k2 c) = RT_THREAD_SUSPEND" by (simp add: k2_def)
  obtain k3 where k3: "(if 0 < time then start_thread_timer c (of_int time) k2 else Inr k2) = Inr k3"
    "threads_kept k2 k3" "timers_inv k3" "due_inv k3" "rt_tick k3 = rt_tick k2"
    "activated (timers k3 (ThreadTimer c)) \<longleftrightarrow> 0 < time" "0 < time \<Longrightarrow> due_in k3 (ThreadTimer c) = of_int time"
    "\<And>r. r \<noteq> ThreadTimer c \<Longrightarrow> timers k3 r = timers k2 r"
  proof (cases "0 < time")
    case True
    from start_thread_timer_ok [OF t2 d2 s2 off legal_time_half [OF n True]] that True
    show thesis by (auto simp: True)
  next
    case False
    then show thesis using that [of k2] t2 d2 off by (simp add: threads_kept_def)
  qed
  note same3 = threads_kept_sel [OF k3(2)]
  have i3: "kernel_inv k3"
    using q2 queue_inv_cong [OF same3(1,2,4)] run_inv_cong [OF same3(1,3)] same3(3) c(1) k3(3,4)
    by (simp add: kernel_inv_def k2_def)
  have uc: "u \<noteq> c" using other c(2) by auto
  then have "active (stat (tcbs k3 u))" using other by (simp add: same3 k2_def active_def)
  then obtain k4 where k4: "rt_schedule k3 = Inr k4" "kernel_inv k4" "settled k4" "sched_frame k3 k4" "\<And>t. untouched k3 k4 t"
    using schedule_inv [OF i3] by metis
  have run: "bind_err (if 0 < time then start_thread_timer c (of_int time) (waits w us c k) else Inr (waits w us c k)) rt_schedule = Inr k4"
    by (simp only: bind_err_simps k2_def [symmetric] k3(1) k4(1))
  have lk: "links k4 (Wait v) = links k2 (Wait v)" for v using sched_frame_stat(5) [OF k4(4)] by (simp add: same3)
  have unt: "untouched k k4 t" if "t \<noteq> c" for t
  proof -
    have "untouched k k3 t"
      using that k3(8) us(1) by (auto simp: untouched_def same_threads_def same3 k2_def waits_links [OF ul])
    then show ?thesis using k4(5) by (rule untouched_trans)
  qed
  have tm: "timers k4 = timers k3" "rt_tick k4 = rt_tick k3" using k4(4) by (simp_all add: sched_frame_def)
  have "waits_in w us time c k k4"
    unfolding waits_in_def
    using sched_frame_stat(2) [OF k4(4), of c] sched_frame_stat(3-9) [OF k4(4)] k3(5-7) unt s2
    by (simp add: lk same3 tm k2_def waits_links [OF ul] due_in_def active_def)
  then show thesis using that run k4(2,3) by blast
qed

lemma ipc_wait_ok:
  assumes k: "kernel_inv k" and c: "rt_current_thread k = Some c" "stat (tcbs k c) = RT_THREAD_RUNNING"
    and f: "f = RT_IPC_FLAG_FIFO \<or> f = RT_IPC_FLAG_PRIO" and n: "legal_time time"
    and other: "stat (tcbs k u) = RT_THREAD_READY"
  obtains k' where "ipc_wait w c f time k = Inr k'" "kernel_inv k'" "settled k'"
    "waits_in w (joined f (\<lambda>u. current_priority (tcbs k u)) c (links k (Wait w))) time c k k'"
proof -
  note p = kernel_inv_parts [OF k]
  let ?us = "joined f (\<lambda>u. current_priority (tcbs k u)) c (links k (Wait w))"
  have us: "set ?us = insert c (set (links k (Wait w)))" "distinct ?us"
    using running_unlinked [OF p(1) c(2)] waiting_distinct [OF k] by (simp_all add: unlinked_def)
  show thesis
    by (rule list_wait_ok [OF k c us n other]) (use that in \<open>auto simp: ipc_wait_def ipc_list_suspend_eq [OF p(1,3) c f]\<close>)
qed

text \<open>Resuming every waiting thread, with the error \<open>-RT_ERROR\<close>.\<close>

definition flushed :: "nat \<Rightarrow> kernel \<Rightarrow> kernel \<Rightarrow> bool" where
  "flushed w k k' \<longleftrightarrow>
     links k' (Wait w) = [] \<and> (\<forall>v. v \<noteq> w \<longrightarrow> links k' (Wait v) = links k (Wait v)) \<and>
     rt_current_thread k' = rt_current_thread k \<and> rt_tick k' = rt_tick k \<and>
     rt_scheduler_lock_nest k' = rt_scheduler_lock_nest k \<and> rt_interrupt_nest k' = rt_interrupt_nest k \<and>
     (\<forall>t \<in> set (links k (Wait w)). active (stat (tcbs k' t)) \<and> error (tcbs k' t) = - RT_ERROR \<and>
        \<not> activated (timers k' (ThreadTimer t))) \<and>
     (\<forall>t. t \<notin> set (links k (Wait w)) \<longrightarrow> untouched k k' t)"

lemma ipc_list_resume_all_ok:
  assumes "kernel_inv k"
  shows "\<exists>k'. ipc_list_resume_all w k = Some (Inr k') \<and> kernel_inv k' \<and> flushed w k k'"
  using assms
proof (induction "links k (Wait w)" arbitrary: k)
  case Nil
  have "ipc_list_resume_all w k = Some (Inr k)"
    by (subst ipc_list_resume_all.simps) (simp add: Nil.hyps [symmetric])
  then show ?case using Nil by (auto simp: flushed_def)
next
  case (Cons t ts)
  define k1 where "k1 = set_error t (- RT_ERROR) k"
  define k2 where "k2 = resumed t k1"
  have mem: "t \<in> set (links k (Wait w))" by (simp add: Cons.hyps(2) [symmetric])
  have i1: "kernel_inv k1" unfolding k1_def by (rule set_error_inv [OF Cons.prems])
  have s1: "stat (tcbs k1 t) = RT_THREAD_SUSPEND"
    using waiting_suspended [OF Cons.prems mem] by (simp add: k1_def set_error_def)
  have i2: "kernel_inv k2" unfolding k2_def by (rule resumed_inv [OF i1 s1])
  have d: "t \<notin> set ts" using waiting_distinct [OF Cons.prems, of w] by (simp add: Cons.hyps(2) [symmetric])
  then have l2: "ts = links k2 (Wait w)"
    by (simp add: k2_def k1_def set_error_def Cons.hyps(2) [symmetric])
  obtain k' where k': "ipc_list_resume_all w k2 = Some (Inr k')" "kernel_inv k'" "flushed w k2 k'"
    using Cons.hyps(1) [OF l2 i2] by blast
  have run: "ipc_list_resume_all w k = Some (Inr k')"
    using k'(1) rt_thread_resume_eq [OF kernel_inv_parts(1) [OF i1] s1]
    by (subst ipc_list_resume_all.simps) (simp add: Cons.hyps(2) [symmetric] k1_def [symmetric] k2_def)
  have v: "links k' (Wait v) = links k (Wait v)" if "v \<noteq> w" for v
    using k'(3) that waiting_elsewhere [OF Cons.prems mem that]
    by (simp add: flushed_def k2_def k1_def set_error_def)
  have first: "active (stat (tcbs k' t)) \<and> error (tcbs k' t) = - RT_ERROR \<and> \<not> activated (timers k' (ThreadTimer t))"
  proof -
    have "untouched k2 k' t" using k'(3) d l2 by (simp add: flushed_def)
    then show ?thesis
      by (auto simp: untouched_def same_threads_def k2_def k1_def set_error_def active_def split: if_splits)
  qed
  have out: "untouched k k' u" if "u \<notin> set (links k (Wait w))" for u
  proof -
    have "untouched k k2 u" using that mem by (auto simp: k2_def k1_def set_error_def untouched_def same_threads_def)
    moreover have "untouched k2 k' u" using k'(3) that l2 by (simp add: flushed_def Cons.hyps(2) [symmetric])
    ultimately show ?thesis by (rule untouched_trans)
  qed
  have "flushed w k k'"
    using k'(3) v first out unfolding flushed_def l2 [symmetric] Cons.hyps(2) [symmetric]
    by (auto simp: k2_def k1_def set_error_def)
  with run k'(2) show ?case by blast
qed

section \<open>The state in which calls are made\<close>

text \<open>
  A consistent kernel that runs a thread, with the scheduler unlocked, outside interrupts, and the idle
  thread started: the idle thread never waits, so there is always a thread to run.
\<close>

definition calls_inv :: "kernel \<Rightarrow> bool" where
  "calls_inv k \<longleftrightarrow> kernel_inv k \<and> runs k \<and> rt_scheduler_lock_nest k = 0 \<and> rt_interrupt_nest k = 0 \<and>
     active (stat (tcbs k idle_thread))"

lemma calls_inv_sel:
  assumes "calls_inv k"
  shows "kernel_inv k" "runs k" "rt_scheduler_lock_nest k = 0" "rt_interrupt_nest k = 0"
    "active (stat (tcbs k idle_thread))" "rt_current_thread k = Some c \<Longrightarrow> scheduler_available k"
  using assms by (simp_all add: calls_inv_def context_defs)

lemma calls_inv_running:
  assumes "calls_inv k"
  obtains c where "rt_current_thread k = Some c" "stat (tcbs k c) = RT_THREAD_RUNNING"
    "c \<noteq> idle_thread \<Longrightarrow> stat (tcbs k idle_thread) = RT_THREAD_READY"
proof -
  obtain c where c: "rt_current_thread k = Some c" "stat (tcbs k c) = RT_THREAD_RUNNING"
    using assms by (auto simp: calls_inv_def runs_def)
  moreover have "stat (tcbs k idle_thread) = RT_THREAD_READY" if "c \<noteq> idle_thread"
    using that run_inv_only [OF kernel_inv_parts(2) [OF calls_inv_sel(1) [OF assms]] c(1)] calls_inv_sel(5) [OF assms]
    by (auto simp: active_def)
  ultimately show thesis using that by blast
qed

lemma calls_inv_tick:
  assumes "calls_inv k"
  obtains k' where "rt_tick_increase own k = Some (Inr k')" "calls_inv k'" "rt_tick k' = rt_tick k + 1"
    "\<And>t. expires k t \<Longrightarrow> timed_out k' t" "\<And>t. \<not> expires k t \<Longrightarrow> untouched k k' t"
    "\<And>w. links k' (Wait w) = filter (\<lambda>t. \<not> expires k t) (links k (Wait w))" "settled k \<Longrightarrow> settled k'"
    "\<And>t. current_priority (tcbs k' t) = current_priority (tcbs k t)"
proof -
  note a = calls_inv_sel [OF assms]
  obtain k' where k': "rt_tick_increase own k = Some (Inr k')" "kernel_inv k'" "rt_tick k' = rt_tick k + 1"
    "settled k \<Longrightarrow> settled k'" "rt_scheduler_lock_nest k' = rt_scheduler_lock_nest k"
    "\<And>t. expires k t \<Longrightarrow> timed_out k' t" "\<And>t. \<not> expires k t \<Longrightarrow> untouched k k' t"
    "\<And>w. links k' (Wait w) = filter (\<lambda>t. \<not> expires k t) (links k (Wait w))" "rt_interrupt_nest k' = rt_interrupt_nest k"
    "runs k \<Longrightarrow> runs k'" "\<And>t. current_priority (tcbs k' t) = current_priority (tcbs k t)"
    using tick_ok [OF a(1)] by metis
  have "\<not> expires k idle_thread"
    using timers_inv_suspended [OF kernel_inv_parts(3) [OF a(1)], of idle_thread] a(5)
    by (auto simp: expires_def active_def)
  then have "calls_inv k'" using k' a by (auto simp: calls_inv_def untouched_def same_threads_def)
  with k' show thesis using that by blast
qed

lemma waits_in_calls_inv:
  assumes "calls_inv k" "c \<noteq> idle_thread" "kernel_inv k'" "settled k'" "waits_in w us time c k k'"
  shows "calls_inv k'"
  using assms settled_runs [OF assms(4)] by (auto simp: calls_inv_def waits_in_def untouched_def same_threads_def)

text \<open>Resuming one thread and scheduling.\<close>

lemma resume_schedule_ok:
  assumes k: "calls_inv k" and w: "links k (Wait w) = t # ts"
  obtains k' where "bind_err (ipc_list_resume w k) rt_schedule = Inr k'" "calls_inv k'" "links k' (Wait w) = ts"
    "\<And>v. v \<noteq> w \<Longrightarrow> links k' (Wait v) = links k (Wait v)" "\<And>u. u \<noteq> t \<Longrightarrow> untouched k k' u"
    "active (stat (tcbs k' t))" "error (tcbs k' t) = error (tcbs k t)" "\<not> activated (timers k' (ThreadTimer t))"
    "event_set (tcbs k' t) = event_set (tcbs k t)" "current_priority (tcbs k' t) = current_priority (tcbs k t)"
    "rt_tick k' = rt_tick k" "settled k'"
proof -
  note a = calls_inv_sel [OF k]
  have mem: "t \<in> set (links k (Wait w))" by (simp add: w)
  note s = waiting_suspended [OF a(1) mem]
  have r: "kernel_inv (resumed t k)" by (rule resumed_inv [OF a(1) s])
  have "active (stat (tcbs (resumed t k) t))" by (simp add: active_def)
  then obtain k' where k': "rt_schedule (resumed t k) = Inr k'" "kernel_inv k'" "settled k'" "sched_frame (resumed t k) k'"
    "\<And>u. untouched (resumed t k) k' u" using schedule_inv [OF r] by metis
  note f = sched_frame_stat [OF k'(4)]
  have nt: "t \<noteq> idle_thread" using s a(5) by (auto simp: active_def)
  have "active (stat (tcbs k' idle_thread))" using f(1) [of idle_thread] nt a(5) by simp
  then have inv: "calls_inv k'" using k' f(6) f(9) a settled_runs [OF k'(3)] by (simp add: calls_inv_def)
  have d: "t \<notin> set ts" using waiting_distinct [OF a(1), of w] w by simp
  show thesis
  proof (rule that [OF _ inv])
    show "bind_err (ipc_list_resume w k) rt_schedule = Inr k'" using ipc_list_resume_eq [OF a(1) w] k'(1) by simp
    show "links k' (Wait w) = ts" using f(5) d by (simp add: w)
    show "links k' (Wait v) = links k (Wait v)" if "v \<noteq> w" for v
      using f(5) waiting_elsewhere [OF a(1) mem that] by simp
    show "untouched k k' u" if "u \<noteq> t" for u using resumed_untouched [OF that] k'(5) by (rule untouched_trans)
    show "active (stat (tcbs k' t))" using f(1) [of t] by (simp add: active_def)
    show "error (tcbs k' t) = error (tcbs k t)" "event_set (tcbs k' t) = event_set (tcbs k t)"
      "current_priority (tcbs k' t) = current_priority (tcbs k t)" using f(3,4,7) by simp_all
    show "\<not> activated (timers k' (ThreadTimer t))" "rt_tick k' = rt_tick k" using k'(4) by (simp_all add: sched_frame_def)
  qed (rule k'(3))
qed

section \<open>Semaphores: every call keeps the invariant\<close>

definition sem_inv :: "sem \<Rightarrow> kernel \<Rightarrow> bool" where
  "sem_inv s k \<longleftrightarrow> calls_inv k \<and> settled k \<and> (ipc_flag s = RT_IPC_FLAG_FIFO \<or> ipc_flag s = RT_IPC_FLAG_PRIO) \<and>
     (\<forall>t \<in> set (waiting s k). error (tcbs k t) = RT_EOK) \<and> (waiting s k \<noteq> [] \<longrightarrow> sem_value s = 0)"

lemma sem_inv_calls: "sem_inv s k \<Longrightarrow> calls_inv k" by (simp add: sem_inv_def)

lemma set_error_self:
  assumes "calls_inv k" and "rt_current_thread k = Some c" "stat (tcbs k c) = RT_THREAD_RUNNING"
  shows "calls_inv (set_error c e k)" "rt_current_thread (set_error c e k) = Some c"
    "stat (tcbs (set_error c e k) c) = RT_THREAD_RUNNING" "\<And>t. t \<noteq> c \<Longrightarrow> untouched k (set_error c e k) t"
    "links (set_error c e k) = links k" "settled k \<Longrightarrow> settled (set_error c e k)"
proof -
  have "runs (set_error c e k)" using calls_inv_sel(2) [OF assms(1)] by (auto simp: runs_def set_error_def)
  then show "calls_inv (set_error c e k)"
    using assms set_error_inv [OF calls_inv_sel(1) [OF assms(1)]] by (simp add: calls_inv_def set_error_def)
qed (use assms in \<open>auto simp: set_error_def untouched_def same_threads_def settled_def\<close>)

lemma waiting_not_running:
  assumes "calls_inv k" and "stat (tcbs k c) = RT_THREAD_RUNNING"
  shows "c \<notin> set (links k (Wait w))"
  using waiting_suspended [OF calls_inv_sel(1) [OF assms(1)], of c w] assms(2) by auto

text \<open>The waiting branch, as every IPC object has it.\<close>

lemma wait_call_ok:
  assumes k: "calls_inv k" and c: "rt_current_thread k = Some c" "c \<noteq> idle_thread" "stat (tcbs k c) = RT_THREAD_RUNNING"
    and f: "f = RT_IPC_FLAG_FIFO \<or> f = RT_IPC_FLAG_PRIO" and n: "legal_time time"
  obtains k' where "ipc_wait w c f time k = Inr k'" "calls_inv k'" "settled k'"
    "waits_in w (joined f (\<lambda>u. current_priority (tcbs k u)) c (links k (Wait w))) time c k k'"
proof -
  obtain d where "rt_current_thread k = Some d" "d \<noteq> idle_thread \<Longrightarrow> stat (tcbs k idle_thread) = RT_THREAD_READY"
    using calls_inv_running [OF k] by metis
  then have "stat (tcbs k idle_thread) = RT_THREAD_READY" using c by simp
  then obtain k' where "ipc_wait w c f time k = Inr k'" "kernel_inv k'" "settled k'"
    "waits_in w (joined f (\<lambda>u. current_priority (tcbs k u)) c (links k (Wait w))) time c k k'"
    using ipc_wait_ok [OF calls_inv_sel(1) [OF k] c(1,3) f n] by metis
  then show thesis using that waits_in_calls_inv [OF k c(2)] by blast
qed

lemma sem_take_waits:
  assumes k: "sem_inv s k" and c: "rt_current_thread k = Some c" "c \<noteq> idle_thread" and n: "legal_time time"
    and v: "sem_value s = 0" "time \<noteq> 0"
  obtains k' where "rt_sem_take s time k = Inr (Switched, s, k')" "sem_inv s k'"
    "waits_in (suspend_thread s) (joined (ipc_flag s) (\<lambda>u. current_priority (tcbs k u)) c (waiting s k)) time c
       (set_error c RT_EOK k) k'"
proof -
  have f: "ipc_flag s = RT_IPC_FLAG_FIFO \<or> ipc_flag s = RT_IPC_FLAG_PRIO" using k by (simp add: sem_inv_def)
  note ck = sem_inv_calls [OF k]
  have r: "stat (tcbs k c) = RT_THREAD_RUNNING" using calls_inv_running [OF ck] c(1) by auto
  note e = set_error_self [OF ck c(1) r, where e = RT_EOK]
  have pr: "(\<lambda>u. current_priority (tcbs (set_error c RT_EOK k) u)) = (\<lambda>u. current_priority (tcbs k u))"
    by (auto simp: set_error_def)
  obtain k' where k': "ipc_wait (suspend_thread s) c (ipc_flag s) time (set_error c RT_EOK k) = Inr k'" "calls_inv k'" "settled k'"
    "waits_in (suspend_thread s) (joined (ipc_flag s) (\<lambda>u. current_priority (tcbs k u)) c (waiting s k)) time c
       (set_error c RT_EOK k) k'"
    using wait_call_ok [OF e(1,2) c(2) e(3) f n, of "suspend_thread s"] unfolding pr e(5) by metis
  have run: "rt_sem_take s time k = Inr (Switched, s, k')"
    using v k'(1) calls_inv_sel(6) [OF ck c(1)] c(1) by (simp add: rt_sem_take_def rt_thread_self_def)
  have "error (tcbs k' t) = RT_EOK" if "t \<in> insert c (set (waiting s k))" for t
  proof (cases "t = c")
    case True
    then show ?thesis using k'(4) by (simp add: waits_in_def set_error_def)
  next
    case False
    then have "error (tcbs k' t) = error (tcbs k t)"
      using k'(4) by (simp add: waits_in_def untouched_def same_threads_def set_error_def)
    then show ?thesis using that False k by (simp add: sem_inv_def)
  qed
  moreover have "waiting s k' = joined (ipc_flag s) (\<lambda>u. current_priority (tcbs k u)) c (waiting s k)"
    using k'(4) by (simp add: waits_in_def)
  ultimately have "sem_inv s k'" using k'(2,3) f v(1) by (simp add: sem_inv_def)
  with run k'(4) show thesis using that by blast
qed

lemma sem_release_wakes:
  assumes k: "sem_inv s k" and w: "waiting s k = t # ts"
  obtains k' where "rt_sem_release s k = Inr (RT_EOK, s, k')" "sem_inv s k'" "waiting s k' = ts"
    "active (stat (tcbs k' t))" "rt_sem_take_wake t k' = RT_EOK" "\<not> activated (timers k' (ThreadTimer t))"
    "\<And>u. u \<noteq> t \<Longrightarrow> untouched k k' u"
proof -
  obtain k' where k': "bind_err (ipc_list_resume (suspend_thread s) k) rt_schedule = Inr k'" "calls_inv k'" "waiting s k' = ts"
    "\<And>u. u \<noteq> t \<Longrightarrow> untouched k k' u" "active (stat (tcbs k' t))" "error (tcbs k' t) = error (tcbs k t)"
    "\<not> activated (timers k' (ThreadTimer t))" "settled k'"
    using resume_schedule_ok [OF sem_inv_calls [OF k] w] by metis
  have e: "error (tcbs k t) = RT_EOK" using k w by (simp add: sem_inv_def)
  have d: "t \<notin> set ts" using waiting_distinct [OF calls_inv_sel(1) [OF sem_inv_calls [OF k]], of "suspend_thread s"] w by simp
  have "error (tcbs k' u) = RT_EOK" if "u \<in> set ts" for u
  proof -
    have "error (tcbs k' u) = error (tcbs k u)"
      using k'(4) [of u] that d by (auto simp: untouched_def same_threads_def)
    then show ?thesis using that k w by (simp add: sem_inv_def)
  qed
  then have "sem_inv s k'" using k k'(2,3,8) w by (simp add: sem_inv_def)
  moreover have "rt_sem_release s k = Inr (RT_EOK, s, k')"
    using k'(1) w by (auto simp: rt_sem_release_def bind_err_def split: sum.splits)
  ultimately show thesis using that k' e by (simp add: rt_sem_take_wake_def)
qed

lemma sem_inv_tick:
  assumes k: "sem_inv s k"
  obtains k' where "rt_tick_increase own k = Some (Inr k')" "sem_inv s k'"
    "\<And>t. expires k t \<Longrightarrow> timed_out k' t" "\<And>t. \<not> expires k t \<Longrightarrow> untouched k k' t"
    "waiting s k' = filter (\<lambda>t. \<not> expires k t) (waiting s k)"
proof -
  obtain k' where k': "rt_tick_increase own k = Some (Inr k')" "calls_inv k'"
    "\<And>t. expires k t \<Longrightarrow> timed_out k' t" "\<And>t. \<not> expires k t \<Longrightarrow> untouched k k' t"
    "\<And>w. links k' (Wait w) = filter (\<lambda>t. \<not> expires k t) (links k (Wait w))" "settled k \<Longrightarrow> settled k'"
    using calls_inv_tick [OF sem_inv_calls [OF k]] by metis
  have "sem_inv s k'"
    using k k'(2,4-6) by (auto simp: sem_inv_def untouched_def same_threads_def)
  with k' show thesis using that by blast
qed

section \<open>Runs of a semaphore\<close>

text \<open>
  Calls of the threads that run (the idle thread makes none) and ticks, in any order. The run counts
  the takes that succeed, at once or, for a waiting thread, when it leaves the list with \<open>RT_EOK\<close>,
  and the releases that succeed.
\<close>

datatype sem_input = Sem_take int | Sem_release | Sem_tick

record sem_run =
  the_sem :: sem
  the_kernel :: kernel
  acquired :: nat
  released :: nat

definition served :: "sem \<Rightarrow> kernel \<Rightarrow> kernel \<Rightarrow> nat" where
  "served s k k' = length (filter (\<lambda>t. t \<notin> set (waiting s k') \<and> rt_sem_take_wake t k' = RT_EOK) (waiting s k))"

definition sem_step :: "(nat \<Rightarrow> kernel \<Rightarrow> fault + kernel) \<Rightarrow> (fault + sem_run) option \<Rightarrow> sem_input \<Rightarrow> (fault + sem_run) option" where
  "sem_step own st i = bind_opt st (\<lambda>r.
     let s = the_sem r; k = the_kernel r
     in case i of
          Sem_take time \<Rightarrow>
            if rt_current_thread k = Some idle_thread then Some (Inr r)
            else Some (bind_err (rt_sem_take s time k) (\<lambda>(result, s', k').
              Inr \<lparr>the_sem = s', the_kernel = k',
                acquired = acquired r + (if result = Returned RT_EOK then 1 else 0) + served s k k', released = released r\<rparr>))
        | Sem_release \<Rightarrow>
            Some (bind_err (rt_sem_release s k) (\<lambda>(result, s', k').
              Inr \<lparr>the_sem = s', the_kernel = k', acquired = acquired r + served s k k',
                released = released r + (if result = RT_EOK then 1 else 0)\<rparr>))
        | Sem_tick \<Rightarrow>
            bind_opt (rt_tick_increase own k) (\<lambda>k'.
              Some (Inr \<lparr>the_sem = s, the_kernel = k', acquired = acquired r + served s k k', released = released r\<rparr>)))"

definition legal_sem_input :: "sem_input \<Rightarrow> bool" where
  "legal_sem_input i \<longleftrightarrow> (case i of Sem_take time \<Rightarrow> legal_time time | _ \<Rightarrow> True)"

definition sem_run_inv :: "nat \<Rightarrow> (fault + sem_run) option \<Rightarrow> bool" where
  "sem_run_inv n st \<longleftrightarrow> (\<exists>r. st = Some (Inr r) \<and> sem_inv (the_sem r) (the_kernel r) \<and>
     unat (sem_value (the_sem r)) + acquired r = n + released r)"

lemma served_none: "set (waiting s k) \<subseteq> set (waiting s k') \<Longrightarrow> served s k k' = 0"
  by (auto simp: served_def filter_empty_conv)

lemma sem_take_now_inv:
  assumes "sem_inv s k" and "sem_value s > 0"
  shows "sem_inv (s\<lparr>sem_value := sem_value s - 1\<rparr>) k"
  using assms by (auto simp: sem_inv_def)

lemma sem_step_take:
  assumes r: "sem_run_inv n (Some (Inr r))" and time: "legal_time time"
  shows "sem_run_inv n (sem_step own (Some (Inr r)) (Sem_take time))"
proof -
  have inv: "sem_inv (the_sem r) (the_kernel r)" and count: "unat (sem_value (the_sem r)) + acquired r = n + released r"
    using r by (auto simp: sem_run_inv_def)
  obtain c where c: "rt_current_thread (the_kernel r) = Some c"
    using calls_inv_running [OF sem_inv_calls [OF inv]] by blast
  consider (idle) "c = idle_thread" | (now) "c \<noteq> idle_thread" "sem_value (the_sem r) > 0"
    | (no) "c \<noteq> idle_thread" "sem_value (the_sem r) = 0" "time = 0"
    | (wait) "c \<noteq> idle_thread" "sem_value (the_sem r) = 0" "time \<noteq> 0"
    by (cases "sem_value (the_sem r) = 0") (auto simp: word_neq_0_conv)
  then show ?thesis
  proof cases
    case idle
    then show ?thesis using r c by (simp add: sem_step_def)
  next
    case now
    have u: "unat (sem_value (the_sem r) - 1) = unat (sem_value (the_sem r)) - 1" "0 < unat (sem_value (the_sem r))"
      using now(2) unat_minus_one [of "sem_value (the_sem r)"] by (simp_all add: word_neq_0_conv unat_gt_0)
    show ?thesis
      using sem_take_now_inv [OF inv now(2)] now c count u
      by (auto simp: sem_step_def Let_def rt_sem_take_def sem_run_inv_def served_none)
  next
    case no
    then show ?thesis
      using inv c count by (auto simp: sem_step_def Let_def rt_sem_take_def sem_run_inv_def served_none RT_ETIMEOUT_def RT_EOK_def)
  next
    case wait
    obtain k' where k': "rt_sem_take (the_sem r) time (the_kernel r) = Inr (Switched, the_sem r, k')" "sem_inv (the_sem r) k'"
      "waits_in (suspend_thread (the_sem r)) (joined (ipc_flag (the_sem r)) (\<lambda>u. current_priority (tcbs (the_kernel r) u)) c
         (waiting (the_sem r) (the_kernel r))) time c (set_error c RT_EOK (the_kernel r)) k'"
      using sem_take_waits [OF inv c wait(1) time wait(2,3)] by metis
    have "set (waiting (the_sem r) (the_kernel r)) \<subseteq> set (waiting (the_sem r) k')"
      using k'(3) by (auto simp: waits_in_def)
    then show ?thesis using k'(1,2) wait c count by (auto simp: sem_step_def Let_def sem_run_inv_def served_none)
  qed
qed

lemma sem_step_release:
  assumes r: "sem_run_inv n (Some (Inr r))"
  shows "sem_run_inv n (sem_step own (Some (Inr r)) Sem_release)"
proof -
  let ?s = "the_sem r" and ?k = "the_kernel r"
  have inv: "sem_inv ?s ?k" and count: "unat (sem_value ?s) + acquired r = n + released r"
    using r by (auto simp: sem_run_inv_def)
  show ?thesis
  proof (cases "waiting ?s ?k")
    case Nil
    show ?thesis
    proof (cases "sem_value ?s < RT_SEM_VALUE_MAX")
      case True
      then show ?thesis
        using inv Nil count unat_inc_less [OF True]
        by (auto simp: sem_step_def Let_def rt_sem_release_def sem_run_inv_def served_none sem_inv_def)
    next
      case False
      then show ?thesis
        using inv Nil count
        by (auto simp: sem_step_def Let_def rt_sem_release_def sem_run_inv_def served_none RT_EFULL_def RT_EOK_def)
    qed
  next
    case (Cons t ts)
    obtain k' where k': "rt_sem_release ?s ?k = Inr (RT_EOK, ?s, k')" "sem_inv ?s k'" "waiting ?s k' = ts"
      "rt_sem_take_wake t k' = RT_EOK" using sem_release_wakes [OF inv Cons] by metis
    have "t \<notin> set ts"
      using waiting_distinct [OF calls_inv_sel(1) [OF sem_inv_calls [OF inv]], of "suspend_thread ?s"] Cons by simp
    then have "served ?s ?k k' = 1" using k'(3,4) Cons by (auto simp: served_def filter_empty_conv)
    then show ?thesis using k'(1,2) count by (auto simp: sem_step_def Let_def sem_run_inv_def)
  qed
qed

lemma sem_step_tick:
  assumes r: "sem_run_inv n (Some (Inr r))"
  shows "sem_run_inv n (sem_step own (Some (Inr r)) Sem_tick)"
proof -
  let ?s = "the_sem r" and ?k = "the_kernel r"
  have inv: "sem_inv ?s ?k" and count: "unat (sem_value ?s) + acquired r = n + released r"
    using r by (auto simp: sem_run_inv_def)
  obtain k' where k': "rt_tick_increase own ?k = Some (Inr k')" "sem_inv ?s k'"
    "\<And>t. expires ?k t \<Longrightarrow> timed_out k' t" "waiting ?s k' = filter (\<lambda>t. \<not> expires ?k t) (waiting ?s ?k)"
    using sem_inv_tick [OF inv] by metis
  have "served ?s ?k k' = 0"
    using k'(3,4) by (auto simp: served_def filter_empty_conv timed_out_def rt_sem_take_wake_def RT_ETIMEOUT_def RT_EOK_def)
  then show ?thesis using k'(1,2) count by (auto simp: sem_step_def Let_def sem_run_inv_def)
qed

interpretation sem_system: guarded_system "Some (Inr \<lparr>the_sem = s, the_kernel = k, acquired = 0, released = 0\<rparr>)"
  "sem_step own" legal_sem_input "\<lambda>st. sem_inv s k \<longrightarrow> sem_run_inv (unat (sem_value s)) st" for own s k
proof
  show "sem_inv s k \<longrightarrow> sem_run_inv (unat (sem_value s)) (Some (Inr \<lparr>the_sem = s, the_kernel = k, acquired = 0, released = 0\<rparr>))"
    by (simp add: sem_run_inv_def)
next
  fix st i
  assume st: "sem_inv s k \<longrightarrow> sem_run_inv (unat (sem_value s)) st" and i: "legal_sem_input i"
  show "sem_inv s k \<longrightarrow> sem_run_inv (unat (sem_value s)) (sem_step own st i)"
  proof
    assume "sem_inv s k"
    with st have inv: "sem_run_inv (unat (sem_value s)) st" by simp
    then obtain r where r: "st = Some (Inr r)" by (auto simp: sem_run_inv_def)
    show "sem_run_inv (unat (sem_value s)) (sem_step own st i)"
      using inv i sem_step_take sem_step_release sem_step_tick unfolding r
      by (cases i) (auto simp: legal_sem_input_def)
  qed
qed

section \<open>A wait that times out\<close>

lemma wait_ticks:
  assumes k: "calls_inv k" and s: "sleeping c m 0 k" and m: "0 < m" and w: "c \<in> set (links k (Wait w))"
  shows "\<exists>kn. run_ticks own n k = Some (Inr kn) \<and> calls_inv kn \<and> sleeping c m n kn \<and>
     (c \<in> set (links kn (Wait w)) \<longleftrightarrow> n < m)"
proof (induction n)
  case 0
  then show ?case using assms by simp
next
  case (Suc n)
  then obtain kn where kn: "run_ticks own n k = Some (Inr kn)" "calls_inv kn" "sleeping c m n kn"
    "c \<in> set (links kn (Wait w)) \<longleftrightarrow> n < m" by blast
  obtain k' where k': "rt_tick_increase own kn = Some (Inr k')" "calls_inv k'"
    "\<And>w. links k' (Wait w) = filter (\<lambda>t. \<not> expires kn t) (links kn (Wait w))"
    using calls_inv_tick [OF kn(2)] by metis
  obtain k'' where "rt_tick_increase own kn = Some (Inr k'')" "sleeping c m (Suc n) k''"
    using sleeping_tick [OF calls_inv_sel(1) [OF kn(2)] kn(3), of own] by blast
  then have sl: "sleeping c m (Suc n) k'" using k'(1) by simp
  have "c \<in> set (links k' (Wait w)) \<longleftrightarrow> Suc n < m"
  proof (cases "n < m")
    case True
    then have "expires kn c \<longleftrightarrow> m - n \<le> 1"
      using kn(3) m by (simp add: sleeping_def expires_def word_le_nat_alt)
    then show ?thesis using True kn(4) k'(3) by auto
  next
    case False
    then show ?thesis using kn(4) k'(3) by simp
  qed
  then show ?case using kn(1) k'(1,2) sl by simp
qed

lemma waits_in_sleeping:
  assumes "waits_in w us time c k k'" and "0 < time" "legal_time time"
  shows "sleeping c (nat time) 0 k'"
proof -
  have "unat (of_int time :: u32) = nat time"
    using assms(2,3) by (simp add: legal_time_def unat_eq_nat_uint unsigned_of_int take_bit_eq_mod)
  then show ?thesis using assms by (simp add: sleeping_def waits_in_def)
qed

lemma sleeping_done:
  "sleeping c m n k \<Longrightarrow> \<not> n < m \<Longrightarrow> 0 < m \<Longrightarrow> active (stat (tcbs k c)) \<and> error (tcbs k c) = - RT_ETIMEOUT"
  by (simp add: sleeping_def)

section \<open>Properties\<close>

definition demo_sem :: "u16 \<Rightarrow> sem" where
  "demo_sem n = \<lparr>suspend_thread = 7, ipc_flag = RT_IPC_FLAG_PRIO, ipc_systemobject = True, sem_value = n\<rparr>"

lemma demo_calls_inv: "calls_inv demo"
  using demo_kernel_inv by (simp add: calls_inv_def demo_def active_def demo_tcb_def runs_def idle_thread_def)

text \<open>The same with thread 3 waiting in the list at address 7.\<close>

definition demo_wait :: kernel where
  "demo_wait = demo\<lparr>tcbs := (tcbs demo)(3 := demo_tcb RT_THREAD_SUSPEND 20),
     links := (\<lambda>_. [])(Wait 7 := [3], Ready 31 := [idle_thread]), rt_thread_ready_priority_group := prio_mask 31\<rparr>"

lemma demo_wait_calls_inv: "calls_inv demo_wait"
proof -
  have "bit (prio_mask 31) p \<longleftrightarrow> p = 31" for p by (simp add: bit_prio_mask)
  then have "group_ok demo_wait" by (simp add: group_ok_def demo_wait_def)
  moreover have "lists_ok demo_wait" by (simp add: lists_ok_def demo_wait_def)
  moreover have "stats_ok demo_wait" by (auto simp: stats_ok_def demo_wait_def demo_def demo_tcb_def idle_thread_def)
  ultimately have "queue_inv demo_wait"
    by (auto simp: queue_inv_def demo_wait_def demo_def demo_tcb_def tcb_ok_def idle_thread_def)
  moreover have "run_inv demo_wait" by (auto simp: run_inv_def demo_wait_def demo_def demo_tcb_def idle_thread_def)
  moreover have "timers_inv demo_wait" "due_inv demo_wait"
    by (simp_all add: timers_inv_def due_inv_def demo_wait_def demo_def)
  ultimately show ?thesis
    by (simp add: calls_inv_def kernel_inv_def runs_def demo_wait_def demo_def demo_tcb_def idle_thread_def active_def)
qed

lemma demo_sem_inv: "sem_inv (demo_sem n) demo"
  using demo_calls_inv demo_kernel_inv(2) by (simp add: sem_inv_def demo_sem_def demo_def)

lemma demo_runs: "rt_current_thread demo = Some 2" "2 \<noteq> idle_thread"
  by (simp_all add: demo_def idle_thread_def)

text \<open>
  C4. Every run of calls on a semaphore and ticks, from any consistent state: nothing faults and every
  call and interrupt ends, the kernel stays consistent with the most urgent thread running, threads
  wait only while the value is zero, and value and successful takes together are always the initial
  value and the successful releases: no release is lost and none serves twice.
\<close>

theorem sem_runs:
  assumes "sem_inv s k" and "list_all legal_sem_input is"
  shows "\<exists>r. run_steps (sem_step own) (Some (Inr \<lparr>the_sem = s, the_kernel = k, acquired = 0, released = 0\<rparr>)) is =
       Some (Inr r) \<and>
     calls_inv (the_kernel r) \<and> settled (the_kernel r) \<and> (waiting (the_sem r) (the_kernel r) \<noteq> [] \<longrightarrow> sem_value (the_sem r) = 0) \<and>
     unat (sem_value (the_sem r)) + acquired r = unat (sem_value s) + released r"
  using sem_system.inv_run [OF assms(2), of s k own] assms(1) by (auto simp: sem_run_inv_def sem_inv_def)

theorem sem_runs_witness:
  "\<exists>r. run_steps (sem_step (\<lambda>_. Inr)) (Some (Inr \<lparr>the_sem = demo_sem 1, the_kernel = demo, acquired = 0, released = 0\<rparr>))
       [Sem_take (- 1), Sem_take 5, Sem_tick, Sem_release] = Some (Inr r) \<and>
     unat (sem_value (the_sem r)) + acquired r = 1 + released r"
proof -
  have "list_all legal_sem_input [Sem_take (- 1), Sem_take 5, Sem_tick, Sem_release]"
    by (simp add: legal_sem_input_def legal_time_def)
  from sem_runs [OF demo_sem_inv [of 1] this, of "\<lambda>_. Inr"] show ?thesis by (auto simp: demo_sem_def)
qed

text \<open>
  Releasing a semaphore with waiting threads: the first one in the list, and no other, leaves it,
  can run again with its timer stopped, and its take returns \<open>RT_EOK\<close>; the value stays zero.
\<close>

theorem sem_release_first:
  assumes "sem_inv s k" and "waiting s k = t # ts"
  shows "\<exists>k'. rt_sem_release s k = Inr (RT_EOK, s, k') \<and> waiting s k' = ts \<and> active (stat (tcbs k' t)) \<and>
     rt_sem_take_wake t k' = RT_EOK \<and> \<not> activated (timers k' (ThreadTimer t)) \<and> settled k' \<and>
     (\<forall>u. u \<noteq> t \<longrightarrow> untouched k k' u)"
proof -
  obtain k' where "rt_sem_release s k = Inr (RT_EOK, s, k')" "sem_inv s k'" "waiting s k' = ts"
    "active (stat (tcbs k' t))" "rt_sem_take_wake t k' = RT_EOK" "\<not> activated (timers k' (ThreadTimer t))"
    "\<And>u. u \<noteq> t \<Longrightarrow> untouched k k' u" using sem_release_wakes [OF assms] by metis
  moreover from this have "settled k'" by (simp add: sem_inv_def)
  ultimately show ?thesis by blast
qed

theorem sem_release_first_witness:
  "\<exists>k0 k1. rt_sem_take (demo_sem 0) 5 demo = Inr (Switched, demo_sem 0, k0) \<and>
     rt_sem_release (demo_sem 0) k0 = Inr (RT_EOK, demo_sem 0, k1) \<and> rt_sem_take_wake 2 k1 = RT_EOK"
proof -
  have time: "legal_time 5" by (simp add: legal_time_def)
  obtain k0 where k0: "rt_sem_take (demo_sem 0) 5 demo = Inr (Switched, demo_sem 0, k0)" "sem_inv (demo_sem 0) k0"
    "waits_in (suspend_thread (demo_sem 0)) (joined (ipc_flag (demo_sem 0)) (\<lambda>u. current_priority (tcbs demo u)) 2
       (waiting (demo_sem 0) demo)) 5 2 (set_error 2 RT_EOK demo) k0"
    using sem_take_waits [OF demo_sem_inv [of 0] demo_runs time] by (auto simp: demo_sem_def)
  have "waiting (demo_sem 0) k0 = [2]"
    using k0(3) by (simp add: waits_in_def joined_def ipc_flag_defs demo_sem_def demo_def)
  from sem_release_first [OF k0(2) this] k0(1) show ?thesis by blast
qed

text \<open>
  A take that waits with a time limit and is never served: the thread stays in the wait list for
  exactly that number of ticks, then can run again, is in no list of the semaphore any more, and its
  call returns \<open>-RT_ETIMEOUT\<close>.
\<close>

theorem sem_take_times_out:
  assumes "sem_inv s k" and "rt_current_thread k = Some c" and "c \<noteq> idle_thread" and "sem_value s = 0"
    and "0 < time" and "legal_time time"
  shows "\<exists>k0. rt_sem_take s time k = Inr (Switched, s, k0) \<and>
     (\<forall>n. \<exists>kn. run_ticks own n k0 = Some (Inr kn) \<and> calls_inv kn \<and>
        (if n < nat time then c \<in> set (waiting s kn)
         else c \<notin> set (waiting s kn) \<and> active (stat (tcbs kn c)) \<and> rt_sem_take_wake c kn = - RT_ETIMEOUT))"
proof -
  have nz: "time \<noteq> 0" using assms(5) by simp
  obtain k0 where k0: "rt_sem_take s time k = Inr (Switched, s, k0)" "sem_inv s k0"
    "waits_in (suspend_thread s) (joined (ipc_flag s) (\<lambda>u. current_priority (tcbs k u)) c (waiting s k)) time c
       (set_error c RT_EOK k) k0"
    using sem_take_waits [OF assms(1-3,6,4) nz] by metis
  have w: "c \<in> set (waiting s k0)" using k0(3) by (simp add: waits_in_def)
  note ticks = wait_ticks [OF sem_inv_calls [OF k0(2)] waits_in_sleeping [OF k0(3) assms(5,6)] _ w, of own]
  have "\<exists>kn. run_ticks own n k0 = Some (Inr kn) \<and> calls_inv kn \<and>
        (if n < nat time then c \<in> set (waiting s kn)
         else c \<notin> set (waiting s kn) \<and> active (stat (tcbs kn c)) \<and> rt_sem_take_wake c kn = - RT_ETIMEOUT)" for n
  proof -
    obtain kn where kn: "run_ticks own n k0 = Some (Inr kn)" "calls_inv kn" "sleeping c (nat time) n kn"
      "c \<in> set (waiting s kn) \<longleftrightarrow> n < nat time" using ticks [of n] assms(5) by auto
    have "active (stat (tcbs kn c)) \<and> rt_sem_take_wake c kn = - RT_ETIMEOUT" if "\<not> n < nat time"
      using sleeping_done [OF kn(3) that] assms(5) by (simp add: rt_sem_take_wake_def err_defs)
    then show ?thesis using kn by simp
  qed
  with k0(1) show ?thesis by blast
qed

theorem sem_take_times_out_witness:
  "\<exists>k0 k3. rt_sem_take (demo_sem 0) 3 demo = Inr (Switched, demo_sem 0, k0) \<and>
     run_ticks (\<lambda>_. Inr) 3 k0 = Some (Inr k3) \<and> rt_sem_take_wake 2 k3 = - RT_ETIMEOUT"
proof -
  have h: "sem_value (demo_sem 0) = 0" "0 < (3 :: int)" "legal_time 3" by (simp_all add: demo_sem_def legal_time_def)
  obtain k0 where k0: "rt_sem_take (demo_sem 0) 3 demo = Inr (Switched, demo_sem 0, k0)" and
    run: "\<And>n. \<exists>kn. run_ticks (\<lambda>_. Inr) n k0 = Some (Inr kn) \<and>
        (n < nat 3 \<or> rt_sem_take_wake 2 kn = - RT_ETIMEOUT)"
    using sem_take_times_out [OF demo_sem_inv [of 0] demo_runs h, of "\<lambda>_. Inr"] by metis
  from run [of 3] k0 show ?thesis by auto
qed

end
