(* ===== verification/Mutex.thy ===== *)
theory Mutex
  imports Ipc
begin

text \<open>
  Mutexes (\<open>rt-thread/src/ipc.c\<close>): recursive, with priority inheritance. While a more urgent thread
  waits, the owner runs with that thread's priority; its own comes back with the last release.
\<close>

section \<open>Operations\<close>

record mutex = ipc +
  mutex_value :: u16
  original_priority :: u8
  hold :: u8
  owner :: "nat option"

definition RT_MUTEX_VALUE_MAX :: u16 where "RT_MUTEX_VALUE_MAX = 0xFFFF"
definition RT_MUTEX_HOLD_MAX :: u8 where "RT_MUTEX_HOLD_MAX = 0xFF"

lemmas mutex_max_defs = RT_MUTEX_VALUE_MAX_def RT_MUTEX_HOLD_MAX_def

definition rt_mutex_init :: "nat \<Rightarrow> kernel \<Rightarrow> int \<times> mutex \<times> kernel" where
  "rt_mutex_init w k =
     (RT_EOK, \<lparr>suspend_thread = w, ipc_flag = RT_IPC_FLAG_PRIO, ipc_systemobject = True, mutex_value = 1,
       original_priority = 0xFF, hold = 0, owner = None\<rparr>, ipc_object_init w k)"

definition rt_mutex_detach :: "mutex \<Rightarrow> kernel \<Rightarrow> (fault + int \<times> kernel) option" where
  "rt_mutex_detach m k =
     (if ipc_systemobject m
      then bind_opt (ipc_list_resume_all (suspend_thread m) k) (\<lambda>k. Some (Inr (RT_EOK, k)))
      else Some (Inl AssertFailed))"

definition rt_mutex_create :: "nat option \<Rightarrow> kernel \<Rightarrow> fault + mutex option \<times> kernel" where
  "rt_mutex_create obj k =
     (if \<not> not_in_interrupt k then Inl AssertFailed
      else case obj of None \<Rightarrow> Inr (None, k)
        | Some w \<Rightarrow>
            Inr (Some \<lparr>suspend_thread = w, ipc_flag = RT_IPC_FLAG_PRIO, ipc_systemobject = False, mutex_value = 1,
                   original_priority = 0xFF, hold = 0, owner = None\<rparr>, ipc_object_init w k))"

definition rt_mutex_delete :: "mutex \<Rightarrow> kernel \<Rightarrow> (fault + int \<times> kernel) option" where
  "rt_mutex_delete m k =
     (if \<not> ipc_systemobject m \<and> not_in_interrupt k
      then bind_opt (ipc_list_resume_all (suspend_thread m) k) (\<lambda>k. Some (Inr (RT_EOK, k)))
      else Some (Inl AssertFailed))"

text \<open>Both calls change a priority on a condition and ignore the result.\<close>

definition control_priority_if :: "bool \<Rightarrow> nat \<Rightarrow> u8 \<Rightarrow> kernel \<Rightarrow> fault + kernel" where
  "control_priority_if b t p k =
     (if b then bind_err (rt_thread_control t RT_THREAD_CTRL_CHANGE_PRIORITY p k) (\<lambda>(_, k). Inr k) else Inr k)"

definition rt_mutex_take :: "mutex \<Rightarrow> int \<Rightarrow> kernel \<Rightarrow> fault + int call \<times> mutex \<times> kernel" where
  "rt_mutex_take m time k =
     (if \<not> scheduler_available k then Inl AssertFailed
      else case rt_thread_self k of None \<Rightarrow> Inl NullPointer
      | Some t \<Rightarrow>
          let k = set_error t RT_EOK k
          in if owner m = Some t then
               (if hold m < RT_MUTEX_HOLD_MAX then Inr (Returned RT_EOK, m\<lparr>hold := hold m + 1\<rparr>, k)
                else Inr (Returned (- RT_EFULL), m, k))
             else if mutex_value m > 0 then
               (let m = m\<lparr>mutex_value := mutex_value m - 1, owner := Some t,
                          original_priority := current_priority (tcbs k t)\<rparr>
                in if hold m < RT_MUTEX_HOLD_MAX then Inr (Returned RT_EOK, m\<lparr>hold := hold m + 1\<rparr>, k)
                   else Inr (Returned (- RT_EFULL), m, k))
             else if time = 0 then Inr (Returned (- RT_ETIMEOUT), m, set_error t (- RT_ETIMEOUT) k)
             else case owner m of None \<Rightarrow> Inl NullPointer
             | Some h \<Rightarrow>
                 let p = current_priority (tcbs k t)
                 in bind_err (control_priority_if (p < current_priority (tcbs k h)) h p k) (\<lambda>k.
                    bind_err (ipc_wait (suspend_thread m) t (ipc_flag m) time k) (\<lambda>k.
                    Inr (Switched, m, k))))"

text \<open>The end of a take that has waited.\<close>

definition rt_mutex_take_wake :: "nat \<Rightarrow> kernel \<Rightarrow> int" where
  "rt_mutex_take_wake t k = (if error (tcbs k t) \<noteq> RT_EOK then error (tcbs k t) else RT_EOK)"

definition rt_mutex_trytake :: "mutex \<Rightarrow> kernel \<Rightarrow> fault + int call \<times> mutex \<times> kernel" where
  "rt_mutex_trytake m k = rt_mutex_take m 0 k"

definition rt_mutex_release :: "mutex \<Rightarrow> kernel \<Rightarrow> fault + int \<times> mutex \<times> kernel" where
  "rt_mutex_release m k =
     (if \<not> in_thread_context k then Inl AssertFailed
      else case rt_thread_self k of None \<Rightarrow> Inl NullPointer
      | Some t \<Rightarrow>
          if owner m \<noteq> Some t then Inr (- RT_ERROR, m, set_error t (- RT_ERROR) k)
          else
            let m = m\<lparr>hold := hold m - 1\<rparr>
            in if hold m \<noteq> 0 then Inr (RT_EOK, m, k)
               else
                 bind_err (control_priority_if (original_priority m \<noteq> current_priority (tcbs k t)) t (original_priority m) k) (\<lambda>k.
                 case waiting m k of
                   u # _ \<Rightarrow>
                     (let m = m\<lparr>owner := Some u, original_priority := current_priority (tcbs k u)\<rparr>
                      in if hold m < RT_MUTEX_HOLD_MAX then
                           bind_err (ipc_list_resume (suspend_thread m) k) (\<lambda>k.
                           bind_err (rt_schedule k) (\<lambda>k. Inr (RT_EOK, m\<lparr>hold := hold m + 1\<rparr>, k)))
                         else Inr (- RT_EFULL, m, k))
                 | [] \<Rightarrow>
                     if mutex_value m < RT_MUTEX_VALUE_MAX then
                       Inr (RT_EOK, m\<lparr>mutex_value := mutex_value m + 1, owner := None, original_priority := 0xFF\<rparr>, k)
                     else Inr (- RT_EFULL, m, k)))"

definition rt_mutex_control :: "mutex \<Rightarrow> int \<Rightarrow> u32 \<Rightarrow> int" where
  "rt_mutex_control m cmd arg = - RT_ERROR"

section \<open>Changing a priority\<close>

lemma change_priority_sel [simp]:
  "tcbs (change_priority t p k) u = (if u = t then (tcbs k t)\<lparr>current_priority := p, number_mask := prio_mask p\<rparr> else tcbs k u)"
  "links (change_priority t p k) = links k" "rt_current_thread (change_priority t p k) = rt_current_thread k"
  "rt_scheduler_lock_nest (change_priority t p k) = rt_scheduler_lock_nest k"
  "rt_interrupt_nest (change_priority t p k) = rt_interrupt_nest k" "rt_tick (change_priority t p k) = rt_tick k"
  "timers_kept k (change_priority t p k)"
  by (simp_all add: change_priority_def timers_kept_def)

lemma change_priority_inv:
  assumes "queue_inv k" and "stat (tcbs k t) \<noteq> RT_THREAD_READY" and "p < 32"
  shows "queue_inv (change_priority t p k)"
  using assms
  by (auto simp: queue_inv_def lists_ok_def stats_ok_def group_ok_def tcb_ok_def change_priority_def)

lemma ready_reprio_inv:
  assumes k: "queue_inv k" and t: "stat (tcbs k t) = RT_THREAD_READY" and p: "p < 32"
  shows "queue_inv (ready_insert t (change_priority t p (ready_remove t k)))"
proof -
  define f where "f = (\<lambda>c :: tcb. c\<lparr>stat := RT_THREAD_SUSPEND, current_priority := p, number_mask := prio_mask p\<rparr>)"
  define k1 where "k1 = upd_tcb t f (ready_remove t k)"
  have "queue_inv k1"
    unfolding k1_def using tcb_ok_started [OF k, of t] t p by (intro ready_remove_inv [OF k]) (simp_all add: f_def tcb_ok_def)
  moreover have "unlinked k1 t" by (simp add: k1_def unlinked_def)
  ultimately have "queue_inv (ready_insert t k1)"
    by (rule ready_insert_inv) (simp_all add: k1_def f_def p)
  moreover have "tcbs (ready_insert t k1) = tcbs (ready_insert t (change_priority t p (ready_remove t k)))"
    by (rule ext) (simp add: k1_def f_def)
  moreover have "links (ready_insert t k1) = links (ready_insert t (change_priority t p (ready_remove t k)))"
    by (rule ext) (simp add: k1_def f_def)
  moreover have "rt_thread_ready_priority_group (ready_insert t k1) =
      rt_thread_ready_priority_group (ready_insert t (change_priority t p (ready_remove t k)))"
    by (simp add: ready_insert_group k1_def f_def change_priority_def)
  ultimately show ?thesis using queue_inv_cong by metis
qed

text \<open>
  What a change of priority does to the state: only the priority of that thread, and its place in
  the ready queues.
\<close>

definition reprio :: "nat \<Rightarrow> u8 \<Rightarrow> kernel \<Rightarrow> kernel \<Rightarrow> bool" where
  "reprio t p k k' \<longleftrightarrow>
     (\<forall>u. tcbs k' u = (if u = t then (tcbs k t)\<lparr>current_priority := p, number_mask := prio_mask p\<rparr> else tcbs k u)) \<and>
     (\<forall>w. links k' (Wait w) = links k (Wait w)) \<and> rt_current_thread k' = rt_current_thread k \<and>
     rt_scheduler_lock_nest k' = rt_scheduler_lock_nest k \<and> rt_interrupt_nest k' = rt_interrupt_nest k \<and>
     rt_tick k' = rt_tick k \<and> timers k' = timers k"

lemma change_priority_ok:
  assumes k: "kernel_inv k" and t: "stat (tcbs k t) \<noteq> RT_THREAD_INIT" "stat (tcbs k t) \<noteq> RT_THREAD_CLOSE" and p: "p < 32"
  obtains k' where "rt_thread_control t RT_THREAD_CTRL_CHANGE_PRIORITY p k = Inr (RT_EOK, k')" "kernel_inv k'"
    "reprio t p k k'"
proof (cases "stat (tcbs k t) = RT_THREAD_READY")
  case True
  note q = kernel_inv_parts [OF k]
  obtain c where c: "rt_current_thread k = Some c" using kernel_inv_current [OF k] by blast
  have tc: "rt_current_thread k \<noteq> Some t" using q(2) True by (auto simp: run_inv_def)
  have t32: "current_priority (tcbs k t) < 32" using tcb_ok_started [OF q(1) t] by simp
  define k' where "k' = ready_insert t (change_priority t p (ready_remove t k))"
  have run: "rt_thread_control t RT_THREAD_CTRL_CHANGE_PRIORITY p k = Inr (RT_EOK, k')"
    using True tc t32 p
    by (simp add: rt_thread_control_def rt_schedule_remove_thread_eq rt_schedule_insert_thread_eq k'_def)
  have tcb: "tcbs k' u = (if u = t then (tcbs k t)\<lparr>current_priority := p, number_mask := prio_mask p\<rparr> else tcbs k u)" for u
    using True by (simp add: k'_def)
  have lk: "links k' (Wait w) = links k (Wait w)" for w
    using q(1) True by (auto simp: k'_def filter_id_conv queue_inv_def stats_ok_def)
  have "queue_inv k'" unfolding k'_def by (rule ready_reprio_inv [OF q(1) True p])
  moreover have "run_inv k'" using q(2) by (auto simp: run_inv_def tcb) (simp_all add: k'_def)
  moreover have keep: "timers_kept k k'" by (simp add: k'_def timers_kept_def change_priority_def)
  moreover have "timers_inv k'" by (rule timers_inv_kept [OF q(3) keep]) (auto simp: tcb)
  ultimately have "kernel_inv k'" using due_inv_kept [OF q(4) keep] c by (simp add: kernel_inv_def k'_def)
  moreover have "reprio t p k k'"
    unfolding reprio_def using tcb lk by (simp add: k'_def) (simp add: change_priority_def)
  ultimately show thesis using run that by blast
next
  case False
  note q = kernel_inv_parts [OF k]
  define k' where "k' = change_priority t p k"
  have "rt_thread_control t RT_THREAD_CTRL_CHANGE_PRIORITY p k = Inr (RT_EOK, k')"
    using False p by (simp add: rt_thread_control_def k'_def)
  moreover have "queue_inv k'" unfolding k'_def by (rule change_priority_inv [OF q(1) False p])
  moreover have "run_inv k'" using q(2) by (auto simp: run_inv_def k'_def)
  moreover have keep: "timers_kept k k'" by (simp add: k'_def)
  moreover have "timers_inv k'" by (rule timers_inv_kept [OF q(3) keep]) (auto simp: k'_def)
  moreover have "due_inv k'" by (rule due_inv_kept [OF q(4) keep])
  moreover have "rt_current_thread k' \<noteq> None" using k by (simp add: kernel_inv_def k'_def)
  moreover have "reprio t p k k'" by (simp add: reprio_def k'_def) (simp add: change_priority_def)
  ultimately show thesis using that by (simp add: kernel_inv_def)
qed

lemma reprio_calls_inv:
  assumes "calls_inv k" and "kernel_inv k'" and "reprio t p k k'"
  shows "calls_inv k'"
  using assms by (auto simp: calls_inv_def reprio_def runs_def)

lemma reprio_untouched: "reprio t p k k' \<Longrightarrow> u \<noteq> t \<Longrightarrow> untouched k k' u"
  by (simp add: reprio_def untouched_def same_threads_def)

section \<open>The invariant of a mutex\<close>

text \<open>
  A free mutex has value 1, no hold and no waiting thread. An owned one has value 0; its owner is a
  started thread that does not wait for it and is at least as urgent as every thread that does. The
  list of waiting threads is ordered by urgency.
\<close>

definition owner_ok :: "mutex \<Rightarrow> kernel \<Rightarrow> nat \<Rightarrow> bool" where
  "owner_ok m k h \<longleftrightarrow>
     mutex_value m = 0 \<and> hold m \<noteq> 0 \<and> original_priority m < 32 \<and>
     stat (tcbs k h) \<noteq> RT_THREAD_INIT \<and> stat (tcbs k h) \<noteq> RT_THREAD_CLOSE \<and> h \<notin> set (waiting m k) \<and>
     current_priority (tcbs k h) \<le> original_priority m \<and>
     (\<forall>t \<in> set (waiting m k). current_priority (tcbs k h) \<le> current_priority (tcbs k t))"

definition mutex_inv :: "mutex \<Rightarrow> kernel \<Rightarrow> bool" where
  "mutex_inv m k \<longleftrightarrow> calls_inv k \<and> ipc_flag m = RT_IPC_FLAG_PRIO \<and>
     (case owner m of None \<Rightarrow> mutex_value m = 1 \<and> hold m = 0 \<and> waiting m k = [] | Some h \<Rightarrow> owner_ok m k h) \<and>
     sorted (map (\<lambda>t. current_priority (tcbs k t)) (waiting m k)) \<and>
     (\<forall>t \<in> set (waiting m k). error (tcbs k t) = RT_EOK)"

lemma mutex_inv_calls: "mutex_inv m k \<Longrightarrow> calls_inv k" by (simp add: mutex_inv_def)

lemma mutex_inv_owner: "mutex_inv m k \<Longrightarrow> owner m = Some h \<Longrightarrow> owner_ok m k h" by (simp add: mutex_inv_def)

text \<open>A started thread stays one in every step that leaves it alone or suspends or wakes it.\<close>

definition started_thread :: "kernel \<Rightarrow> nat \<Rightarrow> bool" where
  "started_thread k t \<longleftrightarrow> stat (tcbs k t) \<noteq> RT_THREAD_INIT \<and> stat (tcbs k t) \<noteq> RT_THREAD_CLOSE"

lemma started_active: "active (stat (tcbs k t)) \<Longrightarrow> started_thread k t"
  by (auto simp: active_def started_thread_def)

lemma started_suspended: "stat (tcbs k t) = RT_THREAD_SUSPEND \<Longrightarrow> started_thread k t"
  by (auto simp: started_thread_def)

lemma started_untouched: "untouched k k' t \<Longrightarrow> started_thread k t \<Longrightarrow> started_thread k' t"
  using untouched_sel(3,4) [of k k' t] by (cases "active (stat (tcbs k t))") (auto simp: started_thread_def active_def)

text \<open>
  The invariant is kept by a step after which the waiting threads are a sublist of the earlier ones,
  with their priorities and errors, while the owner stays a started thread with its priority.
\<close>

lemma mutex_inv_sub:
  assumes m: "mutex_inv m k" and k: "calls_inv k'" and w: "waiting m k' = filter P (waiting m k)"
    and t: "\<And>t. t \<in> set (waiting m k') \<Longrightarrow> untouched k k' t"
    and h: "\<And>h. owner m = Some h \<Longrightarrow> started_thread k' h \<and> current_priority (tcbs k' h) = current_priority (tcbs k h)"
  shows "mutex_inv m k'"
proof -
  have pr: "current_priority (tcbs k' t) = current_priority (tcbs k t)" "error (tcbs k' t) = error (tcbs k t)"
    if "t \<in> set (waiting m k')" for t using untouched_sel(1,2) [OF t [OF that]] by auto
  have mp: "map (\<lambda>t. current_priority (tcbs k' t)) (waiting m k') = map (\<lambda>t. current_priority (tcbs k t)) (waiting m k')"
    using pr by simp
  have srt: "sorted (map (\<lambda>t. current_priority (tcbs k' t)) (waiting m k'))"
    unfolding mp unfolding w using m by (simp add: mutex_inv_def sorted_filter)
  have sub: "set (waiting m k') \<subseteq> set (waiting m k)" unfolding w by auto
  have "owner_ok m k' g" if g: "owner m = Some g" for g
  proof -
    have "current_priority (tcbs k g) \<le> current_priority (tcbs k t)" if "t \<in> set (waiting m k')" for t
      using mutex_inv_owner [OF m g] that sub by (auto simp: owner_ok_def)
    then show ?thesis
      using mutex_inv_owner [OF m g] h [OF g] pr sub by (auto simp: owner_ok_def started_thread_def)
  qed
  moreover have "waiting m k = [] \<Longrightarrow> waiting m k' = []" by (simp add: w)
  ultimately show ?thesis
    using m k srt pr sub by (auto simp: mutex_inv_def split: option.splits)
qed

lemma mutex_waiting_suspended: "mutex_inv m k \<Longrightarrow> t \<in> set (waiting m k) \<Longrightarrow> stat (tcbs k t) = RT_THREAD_SUSPEND"
  using waiting_suspended [OF calls_inv_sel(1) [OF mutex_inv_calls]] .

lemma filter_True': "(\<And>x. x \<in> set xs \<Longrightarrow> P x) \<Longrightarrow> xs = filter P xs" by (simp add: filter_id_conv)

lemma set_error_mutex_inv:
  assumes m: "mutex_inv m k" and c: "rt_current_thread k = Some c" "stat (tcbs k c) = RT_THREAD_RUNNING"
  shows "mutex_inv m (set_error c e k)"
proof -
  note s = set_error_self [OF mutex_inv_calls [OF m] c, where e = e]
  have nc: "c \<notin> set (waiting m k)" using mutex_waiting_suspended [OF m, of c] c(2) by auto
  show ?thesis
  proof (rule mutex_inv_sub [OF m s(1), where P = "\<lambda>_. True"])
    show "untouched k (set_error c e k) t" if "t \<in> set (waiting m (set_error c e k))" for t
      by (rule s(4)) (use that nc s(5) in auto)
    show "started_thread (set_error c e k) h \<and> current_priority (tcbs (set_error c e k) h) = current_priority (tcbs k h)"
      if "owner m = Some h" for h
      using mutex_inv_owner [OF m that] by (auto simp: owner_ok_def started_thread_def set_error_def)
  qed (simp add: s(5))
qed

section \<open>Taking\<close>

lemma mutex_take_waits:
  assumes m: "mutex_inv m k" and c: "rt_current_thread k = Some c" "c \<noteq> idle_thread" and n: "legal_time time" "time \<noteq> 0"
    and h: "owner m = Some h" "h \<noteq> c"
  obtains k' where "rt_mutex_take m time k = Inr (Switched, m, k')" "mutex_inv m k'" "settled k'"
    "set (waiting m k') = insert c (set (waiting m k))"
    "current_priority (tcbs k' h) = min (current_priority (tcbs k h)) (current_priority (tcbs k c))"
    "\<And>t. t \<noteq> c \<Longrightarrow> t \<noteq> h \<Longrightarrow> untouched k k' t"
proof -
  note ck = mutex_inv_calls [OF m]
  have r: "stat (tcbs k c) = RT_THREAD_RUNNING" using calls_inv_running [OF ck] c(1) by auto
  define k1 where "k1 = set_error c RT_EOK k"
  have m1: "mutex_inv m k1" unfolding k1_def by (rule set_error_mutex_inv [OF m c(1) r])
  note s = set_error_self [OF ck c(1) r, where e = RT_EOK, folded k1_def]
  note o1 = mutex_inv_owner [OF m1 h(1), unfolded owner_ok_def]
  let ?p = "current_priority (tcbs k1 c)"
  have p32: "?p < 32"
    using tcb_ok_started [OF kernel_inv_parts(1) [OF calls_inv_sel(1) [OF s(1)]], of c] s(3) by simp
  obtain k2 where k2: "control_priority_if (?p < current_priority (tcbs k1 h)) h ?p k1 = Inr k2"
    "kernel_inv k2" "reprio h (min (current_priority (tcbs k1 h)) ?p) k1 k2"
  proof (cases "?p < current_priority (tcbs k1 h)")
    case True
    obtain k2 where "rt_thread_control h RT_THREAD_CTRL_CHANGE_PRIORITY ?p k1 = Inr (RT_EOK, k2)" "kernel_inv k2" "reprio h ?p k1 k2"
      using change_priority_ok [OF calls_inv_sel(1) [OF s(1)] _ _ p32, of h] o1 by metis
    then show thesis by (rule_tac that [of k2]) (use True in \<open>simp_all add: min_absorb2 less_imp_le control_priority_if_def\<close>)
  next
    case False
    have "number_mask (tcbs k1 h) = prio_mask (current_priority (tcbs k1 h))"
      using tcb_ok_started [OF kernel_inv_parts(1) [OF calls_inv_sel(1) [OF s(1)]], of h] o1 by simp
    then have "reprio h (current_priority (tcbs k1 h)) k1 k1" by (simp add: reprio_def)
    then show thesis
      by (rule_tac that [of k1]) (simp_all add: False calls_inv_sel(1) [OF s(1)] min_absorb1 leI [OF False] control_priority_if_def)
  qed
  define q where "q = min (current_priority (tcbs k1 h)) ?p"
  have rp: "reprio h q k1 k2" using k2(3) by (simp add: q_def)
  have ck2: "calls_inv k2" by (rule reprio_calls_inv [OF s(1) k2(2) rp])
  have c2: "rt_current_thread k2 = Some c" "stat (tcbs k2 c) = RT_THREAD_RUNNING" "tcbs k2 c = tcbs k1 c"
    using rp s(2,3) h(2) by (simp_all add: reprio_def)
  have f: "ipc_flag m = RT_IPC_FLAG_FIFO \<or> ipc_flag m = RT_IPC_FLAG_PRIO" using m by (simp add: mutex_inv_def)
  obtain k3 where k3: "ipc_wait (suspend_thread m) c (ipc_flag m) time k2 = Inr k3" "calls_inv k3" "settled k3"
    "waits_in (suspend_thread m) (joined (ipc_flag m) (\<lambda>u. current_priority (tcbs k2 u)) c (waiting m k2)) time c k2 k3"
    using wait_call_ok [OF ck2 c2(1) c(2) c2(2) f n(1)] by metis
  have nv: "mutex_value m = 0" using o1 by simp
  have run: "rt_mutex_take m time k = Inr (Switched, m, k3)"
    using calls_inv_sel(6) [OF ck c(1)] c(1) h nv n(2) k2(1) k3(1)
    by (simp add: rt_mutex_take_def rt_thread_self_def k1_def [symmetric] Let_def)
  have l2: "waiting m k2 = waiting m k" using rp s(5) by (simp add: reprio_def)
  have l3: "waiting m k3 = prio_insert (\<lambda>u. current_priority (tcbs k2 u)) c (waiting m k)"
    using k3(4) m by (simp add: waits_in_def joined_def l2 mutex_inv_def ipc_flag_defs)
  have nh: "h \<notin> set (waiting m k)" using mutex_inv_owner [OF m h(1)] by (simp add: owner_ok_def)
  have nc: "c \<notin> set (waiting m k)" using mutex_waiting_suspended [OF m, of c] r by auto
  have p3: "current_priority (tcbs k3 u) = current_priority (tcbs k2 u)" for u
    using k3(4) untouched_sel(1) [of k2 k3 u] by (cases "u = c") (auto simp: waits_in_def)
  have p2: "current_priority (tcbs k2 u) = (if u = h then q else current_priority (tcbs k u))" for u
    using rp by (simp add: reprio_def k1_def set_error_def)
  have e3: "error (tcbs k3 u) = RT_EOK" if "u \<in> insert c (set (waiting m k))" for u
  proof (cases "u = c")
    case True
    then show ?thesis using k3(4) c2(3) by (simp add: waits_in_def k1_def set_error_def)
  next
    case False
    then have "error (tcbs k3 u) = error (tcbs k2 u)" using k3(4) untouched_sel(2) [of k2 k3 u] by (auto simp: waits_in_def)
    also have "\<dots> = error (tcbs k u)" using rp False by (simp add: reprio_def k1_def set_error_def)
    finally show ?thesis using that False m by (simp add: mutex_inv_def)
  qed
  have mp: "map (\<lambda>u. current_priority (tcbs k2 u)) (waiting m k) = map (\<lambda>u. current_priority (tcbs k u)) (waiting m k)"
    using nh by (auto simp: p2)
  have "sorted (map (\<lambda>u. current_priority (tcbs k2 u)) (waiting m k))" unfolding mp using m by (simp add: mutex_inv_def)
  then have srt: "sorted (map (\<lambda>u. current_priority (tcbs k3 u)) (waiting m k3))"
    unfolding l3 p3 by (rule prio_insert_sorted)
  have "started_thread k2 h" using rp o1 by (simp add: reprio_def started_thread_def)
  moreover have "untouched k2 k3 h" using k3(4) h(2) by (simp add: waits_in_def)
  ultimately have sth: "started_thread k3 h" using started_untouched by blast
  have ph: "current_priority (tcbs k h) = current_priority (tcbs k1 h)" "?p = current_priority (tcbs k c)"
    by (simp_all add: k1_def set_error_def)
  have le: "q \<le> current_priority (tcbs k h)" "q \<le> current_priority (tcbs k c)" by (simp_all add: q_def ph)
  have "owner_ok m k3 h"
    using mutex_inv_owner [OF m h(1)] sth nh h(2) le
    by (auto simp: owner_ok_def started_thread_def l3 p3 p2 intro: order.trans)
  then have inv: "mutex_inv m k3" using m k3(2) srt e3 h(1) by (simp add: mutex_inv_def l3)
  have unt: "untouched k k3 t" if "t \<noteq> c" "t \<noteq> h" for t
  proof -
    have "untouched k k1 t" using s(4) that(1) .
    moreover have "untouched k1 k2 t" using reprio_untouched [OF rp that(2)] .
    moreover have "untouched k2 k3 t" using k3(4) that(1) by (simp add: waits_in_def)
    ultimately show ?thesis using untouched_trans by blast
  qed
  show thesis
    by (rule that [OF run inv k3(3)]) (use unt in \<open>simp_all add: l3 p3 p2 q_def ph\<close>)
qed

section \<open>Releasing\<close>

lemma restore_priority:
  assumes k: "calls_inv k" and c: "started_thread k c" and p: "p < 32"
  obtains k' where "control_priority_if (p \<noteq> current_priority (tcbs k c)) c p k = Inr k'"
    "calls_inv k'" "reprio c p k k'"
proof (cases "p = current_priority (tcbs k c)")
  case True
  have "number_mask (tcbs k c) = prio_mask p"
    using tcb_ok_started [OF kernel_inv_parts(1) [OF calls_inv_sel(1) [OF k]], of c] c True by (simp add: started_thread_def)
  then show thesis using that [of k] k True by (simp add: reprio_def control_priority_if_def)
next
  case False
  obtain k' where "rt_thread_control c RT_THREAD_CTRL_CHANGE_PRIORITY p k = Inr (RT_EOK, k')" "kernel_inv k'" "reprio c p k k'"
    using change_priority_ok [OF calls_inv_sel(1) [OF k] _ _ p, of c] c unfolding started_thread_def by metis
  then show thesis by (rule_tac that [of k']) (use False reprio_calls_inv [OF k] in \<open>simp_all add: control_priority_if_def\<close>)
qed

text \<open>Releasing by the owner: the three outcomes.\<close>

lemma release_dec:
  assumes "hold m \<noteq> 0" shows "hold m - 1 \<noteq> 0 \<longleftrightarrow> hold m \<noteq> 1"
  by auto

lemma mutex_release_again:
  assumes m: "mutex_inv m k" and c: "rt_current_thread k = Some c" "owner m = Some c" and h: "hold m \<noteq> 1"
  shows "rt_mutex_release m k = Inr (RT_EOK, m\<lparr>hold := hold m - 1\<rparr>, k)" and "mutex_inv (m\<lparr>hold := hold m - 1\<rparr>) k"
proof -
  have n: "hold m - 1 \<noteq> 0" using h by auto
  show "rt_mutex_release m k = Inr (RT_EOK, m\<lparr>hold := hold m - 1\<rparr>, k)"
    using calls_inv_sel(6) [OF mutex_inv_calls [OF m] c(1)] c h
    by (simp add: rt_mutex_release_def rt_thread_self_def scheduler_available_def Let_def)
  show "mutex_inv (m\<lparr>hold := hold m - 1\<rparr>) k"
    using m n c(2) by (simp add: mutex_inv_def owner_ok_def)
qed

lemma mutex_release_free:
  assumes m: "mutex_inv m k" and c: "rt_current_thread k = Some c" "owner m = Some c" and h: "hold m = 1"
    and w: "waiting m k = []"
  obtains m' k' where "rt_mutex_release m k = Inr (RT_EOK, m', k')" "mutex_inv m' k'" "owner m' = None"
    "reprio c (original_priority m) k k'" "suspend_thread m' = suspend_thread m"
proof -
  note o = mutex_inv_owner [OF m c(2), unfolded owner_ok_def]
  have st: "started_thread k c" and p: "original_priority m < 32" using o by (simp_all add: started_thread_def)
  obtain k' where k': "control_priority_if (original_priority m \<noteq> current_priority (tcbs k c)) c (original_priority m) k = Inr k'"
    "calls_inv k'" "reprio c (original_priority m) k k'"
    using restore_priority [OF mutex_inv_calls [OF m] st p] by blast
  have w': "waiting m k' = []" using k'(3) w by (simp add: reprio_def)
  define m' where "m' = m\<lparr>hold := 0, mutex_value := 1, owner := None, original_priority := 0xFF\<rparr>"
  have "rt_mutex_release m k = Inr (RT_EOK, m', k')"
    using calls_inv_sel(6) [OF mutex_inv_calls [OF m] c(1)] c h k'(1) w' o
    by (simp add: rt_mutex_release_def rt_thread_self_def scheduler_available_def Let_def m'_def mutex_max_defs)
  moreover have "mutex_inv m' k'" using m k'(2) w' by (simp add: mutex_inv_def m'_def)
  ultimately show thesis using that k'(3) by (simp add: m'_def)
qed

lemma mutex_release_hands:
  assumes m: "mutex_inv m k" and c: "rt_current_thread k = Some c" "owner m = Some c" and h: "hold m = 1"
    and w: "waiting m k = t # ts"
  obtains m' k' where "rt_mutex_release m k = Inr (RT_EOK, m', k')" "mutex_inv m' k'" "settled k'"
    "owner m' = Some t" "hold m' = 1" "waiting m' k' = ts" "active (stat (tcbs k' t))"
    "rt_mutex_take_wake t k' = RT_EOK" "current_priority (tcbs k' c) = original_priority m" "suspend_thread m' = suspend_thread m"
    "\<And>u. u \<noteq> t \<Longrightarrow> u \<noteq> c \<Longrightarrow> untouched k k' u"
    "original_priority m' = current_priority (tcbs k t)" "current_priority (tcbs k' t) = current_priority (tcbs k t)"
proof -
  note o = mutex_inv_owner [OF m c(2), unfolded owner_ok_def]
  have st: "started_thread k c" and p: "original_priority m < 32" using o by (simp_all add: started_thread_def)
  have tc: "t \<noteq> c" "t \<notin> set ts" "c \<notin> set ts" using o w waiting_distinct [OF calls_inv_sel(1) [OF mutex_inv_calls [OF m]], of "suspend_thread m"]
    by auto
  obtain k1 where k1: "control_priority_if (original_priority m \<noteq> current_priority (tcbs k c)) c (original_priority m) k = Inr k1"
    "calls_inv k1" "reprio c (original_priority m) k k1"
    using restore_priority [OF mutex_inv_calls [OF m] st p] by blast
  have w1: "links k1 (Wait (suspend_thread m)) = t # ts" using k1(3) w by (simp add: reprio_def)
  have pt: "tcbs k1 t = tcbs k t" using k1(3) tc by (simp add: reprio_def)
  obtain k2 where k2: "bind_err (ipc_list_resume (suspend_thread m) k1) rt_schedule = Inr k2" "calls_inv k2"
    "links k2 (Wait (suspend_thread m)) = ts" "\<And>u. u \<noteq> t \<Longrightarrow> untouched k1 k2 u" "active (stat (tcbs k2 t))"
    "error (tcbs k2 t) = error (tcbs k1 t)" "current_priority (tcbs k2 t) = current_priority (tcbs k1 t)" "settled k2"
    using resume_schedule_ok [OF k1(2) w1] by metis
  define m' where "m' = m\<lparr>hold := 1, owner := Some t, original_priority := current_priority (tcbs k t)\<rparr>"
  obtain k1' where r: "ipc_list_resume (suspend_thread m) k1 = Inr k1'" "rt_schedule k1' = Inr k2"
    using k2(1) by (auto simp: bind_err_Inr_iff)
  have run: "rt_mutex_release m k = Inr (RT_EOK, m', k2)"
    using calls_inv_sel(6) [OF mutex_inv_calls [OF m] c(1)] c h k1(1) w1 pt r
    by (simp add: rt_mutex_release_def rt_thread_self_def scheduler_available_def Let_def m'_def mutex_max_defs)
  have same: "current_priority (tcbs k2 u) = current_priority (tcbs k u)" "error (tcbs k2 u) = error (tcbs k u)"
    if "u \<in> set (t # ts)" for u
  proof -
    have "current_priority (tcbs k2 u) = current_priority (tcbs k1 u) \<and> error (tcbs k2 u) = error (tcbs k1 u)"
      using k2(6,7) untouched_sel(1,2) [OF k2(4)] by (cases "u = t") auto
    moreover have "u \<noteq> c" using that tc by auto
    ultimately show "current_priority (tcbs k2 u) = current_priority (tcbs k u)" "error (tcbs k2 u) = error (tcbs k u)"
      using k1(3) by (simp_all add: reprio_def)
  qed
  have srt: "sorted (map (\<lambda>u. current_priority (tcbs k u)) (t # ts))" using m w by (simp add: mutex_inv_def)
  have mp: "map (\<lambda>u. current_priority (tcbs k2 u)) ts = map (\<lambda>u. current_priority (tcbs k u)) ts" using same by simp
  have t32: "current_priority (tcbs k t) < 32"
    using tcb_ok_started [OF kernel_inv_parts(1) [OF calls_inv_sel(1) [OF mutex_inv_calls [OF m]]], of t]
      mutex_waiting_suspended [OF m, of t] w by simp
  have "owner_ok m' k2 t"
    using started_active [OF k2(5)] same srt t32 o tc by (simp add: owner_ok_def m'_def started_thread_def k2(3))
  moreover have "sorted (map (\<lambda>u. current_priority (tcbs k2 u)) ts)" unfolding mp using srt by simp
  moreover have err: "error (tcbs k u) = RT_EOK" if "u \<in> set (t # ts)" for u using that m w by (auto simp: mutex_inv_def)
  ultimately have inv: "mutex_inv m' k2" using m k2(2,3) same by (simp add: mutex_inv_def m'_def)
  have pc: "current_priority (tcbs k2 c) = original_priority m"
    using k2(4) [of c] tc untouched_sel(1) [of k1 k2 c] k1(3) by (auto simp: reprio_def)
  show thesis
  proof (rule that [OF run inv k2(8)])
    show "untouched k k2 u" if "u \<noteq> t" "u \<noteq> c" for u
      using reprio_untouched [OF k1(3) that(2)] k2(4) [OF that(1)] by (rule untouched_trans)
  qed (use k2(3,5) pc same [of t] err [of t] in \<open>simp_all add: m'_def rt_mutex_take_wake_def\<close>)
qed

lemma mutex_release_not_owner:
  assumes "mutex_inv m k" and "rt_current_thread k = Some c" "owner m \<noteq> Some c"
  shows "rt_mutex_release m k = Inr (- RT_ERROR, m, set_error c (- RT_ERROR) k)"
    and "mutex_inv m (set_error c (- RT_ERROR) k)"
proof -
  show "rt_mutex_release m k = Inr (- RT_ERROR, m, set_error c (- RT_ERROR) k)"
    using calls_inv_sel(6) [OF mutex_inv_calls [OF assms(1)] assms(2)] assms(2,3)
    by (simp add: rt_mutex_release_def rt_thread_self_def scheduler_available_def)
  have "stat (tcbs k c) = RT_THREAD_RUNNING" using calls_inv_running [OF mutex_inv_calls [OF assms(1)]] assms(2) by auto
  then show "mutex_inv m (set_error c (- RT_ERROR) k)" using set_error_mutex_inv assms by blast
qed

section \<open>The other steps\<close>

lemma mutex_tick:
  assumes m: "mutex_inv m k"
  obtains k' where "rt_tick_increase own k = Some (Inr k')" "mutex_inv m k'"
    "\<And>t. expires k t \<Longrightarrow> timed_out k' t" "waiting m k' = filter (\<lambda>t. \<not> expires k t) (waiting m k)"
proof -
  note ck = mutex_inv_calls [OF m]
  obtain k' where k': "rt_tick_increase own k = Some (Inr k')" "calls_inv k'" "rt_tick k' = rt_tick k + 1"
    "\<And>t. expires k t \<Longrightarrow> timed_out k' t" "\<And>t. \<not> expires k t \<Longrightarrow> untouched k k' t"
    "\<And>w. links k' (Wait w) = filter (\<lambda>t. \<not> expires k t) (links k (Wait w))"
    "\<And>t. current_priority (tcbs k' t) = current_priority (tcbs k t)"
    using calls_inv_tick [OF ck] by metis
  have "mutex_inv m k'"
  proof (rule mutex_inv_sub [OF m k'(2) k'(6)])
    show "untouched k k' t" if "t \<in> set (waiting m k')" for t using that k'(5,6) by simp
    show "started_thread k' h \<and> current_priority (tcbs k' h) = current_priority (tcbs k h)" if h: "owner m = Some h" for h
    proof (cases "expires k h")
      case True
      have "started_thread k' h" using k'(4) [OF True] by (auto simp: timed_out_def intro: started_active)
      then show ?thesis using k'(7) by simp
    next
      case False
      have "started_thread k h" using mutex_inv_owner [OF m h] by (simp add: owner_ok_def started_thread_def)
      then show ?thesis using started_untouched [OF k'(5) [OF False]] untouched_sel(1) [OF k'(5) [OF False]] by simp
    qed
  qed
  with k' show thesis using that by blast
qed

lemma mutex_sleep:
  assumes m: "mutex_inv m k" and c: "rt_current_thread k = Some c" "c \<noteq> idle_thread" and n: "n < RT_TICK_HALF"
  obtains k' where "rt_thread_sleep n k = Inr k'" "mutex_inv m k'" "waiting m k' = waiting m k"
proof -
  note ck = mutex_inv_calls [OF m]
  obtain d where "rt_current_thread k = Some d" "stat (tcbs k d) = RT_THREAD_RUNNING"
    "d \<noteq> idle_thread \<Longrightarrow> stat (tcbs k idle_thread) = RT_THREAD_READY"
    using calls_inv_running [OF ck] by metis
  then have r: "stat (tcbs k c) = RT_THREAD_RUNNING" "stat (tcbs k idle_thread) = RT_THREAD_READY" using c by auto
  obtain k' where k': "rt_thread_sleep n k = Inr k'" "kernel_inv k'" "settled k'" "stat (tcbs k' c) = RT_THREAD_SUSPEND"
    "\<And>t. t \<noteq> c \<Longrightarrow> untouched k k' t" "rt_scheduler_lock_nest k' = rt_scheduler_lock_nest k"
    "\<And>w. links k' (Wait w) = links k (Wait w)" "rt_interrupt_nest k' = rt_interrupt_nest k"
    "current_priority (tcbs k' c) = current_priority (tcbs k c)"
    using rt_thread_sleep_ok [OF calls_inv_sel(1) [OF ck] c(1) r(1) n r(2)] by metis
  have "active (stat (tcbs k' idle_thread))"
    using untouched_sel(3) [OF k'(5), of idle_thread] c(2) calls_inv_sel(5) [OF ck] by simp
  then have ck': "calls_inv k'" using k' calls_inv_sel [OF ck] settled_runs [OF k'(3)] by (simp add: calls_inv_def)
  have nc: "c \<notin> set (waiting m k)" using mutex_waiting_suspended [OF m, of c] r(1) by auto
  have "mutex_inv m k'"
  proof (rule mutex_inv_sub [OF m ck', where P = "\<lambda>_. True"])
    show "untouched k k' t" if "t \<in> set (waiting m k')" for t by (rule k'(5)) (use that nc k'(7) in auto)
    show "started_thread k' h \<and> current_priority (tcbs k' h) = current_priority (tcbs k h)" if h: "owner m = Some h" for h
    proof (cases "h = c")
      case True
      then show ?thesis using k'(4,9) started_suspended by simp
    next
      case False
      have "started_thread k h" using mutex_inv_owner [OF m h] by (simp add: owner_ok_def started_thread_def)
      then show ?thesis using started_untouched [OF k'(5) [OF False]] untouched_sel(1) [OF k'(5) [OF False]] by simp
    qed
  qed (simp add: k'(7))
  with k' show thesis using that by blast
qed

section \<open>Runs of a mutex\<close>

text \<open>
  Calls of whatever thread runs (the idle thread makes none), sleeping threads and ticks, in any
  order. \<open>held\<close> counts, for each thread, the takes that have succeeded less the releases that have.
\<close>

datatype mutex_input = Mutex_take int | Mutex_release | Mutex_sleep u32 | Mutex_tick

record mutex_run =
  the_mutex :: mutex
  mutex_kernel :: kernel
  held :: "nat \<Rightarrow> int"

text \<open>A thread that leaves the list with \<open>RT_EOK\<close> has been given the mutex.\<close>

definition granted :: "mutex \<Rightarrow> kernel \<Rightarrow> kernel \<Rightarrow> nat \<Rightarrow> int" where
  "granted m k k' t =
     (if t \<in> set (waiting m k) \<and> t \<notin> set (waiting m k') \<and> rt_mutex_take_wake t k' = RT_EOK then 1 else 0)"

definition mutex_next :: "mutex_run \<Rightarrow> mutex \<Rightarrow> kernel \<Rightarrow> int \<Rightarrow> mutex_run" where
  "mutex_next r m' k' d =
     \<lparr>the_mutex = m', mutex_kernel = k',
      held = \<lambda>t. held r t + granted (the_mutex r) (mutex_kernel r) k' t + (if rt_current_thread (mutex_kernel r) = Some t then d else 0)\<rparr>"

definition mutex_step ::
    "(nat \<Rightarrow> kernel \<Rightarrow> fault + kernel) \<Rightarrow> (fault + mutex_run) option \<Rightarrow> mutex_input \<Rightarrow> (fault + mutex_run) option" where
  "mutex_step own st i = bind_opt st (\<lambda>r.
     let m = the_mutex r; k = mutex_kernel r
     in case i of
          Mutex_tick \<Rightarrow> bind_opt (rt_tick_increase own k) (\<lambda>k'. Some (Inr (mutex_next r m k' 0)))
        | _ \<Rightarrow>
            if rt_current_thread k = Some idle_thread then Some (Inr r)
            else (case i of
                Mutex_take time \<Rightarrow>
                  Some (bind_err (rt_mutex_take m time k) (\<lambda>(result, m', k').
                    Inr (mutex_next r m' k' (if result = Returned RT_EOK then 1 else 0))))
              | Mutex_release \<Rightarrow>
                  Some (bind_err (rt_mutex_release m k) (\<lambda>(result, m', k').
                    Inr (mutex_next r m' k' (if result = RT_EOK then - 1 else 0))))
              | Mutex_sleep n \<Rightarrow> Some (bind_err (rt_thread_sleep n k) (\<lambda>k'. Inr (mutex_next r m k' 0)))
              | Mutex_tick \<Rightarrow> st))"

definition legal_mutex_input :: "mutex_input \<Rightarrow> bool" where
  "legal_mutex_input i \<longleftrightarrow>
     (case i of Mutex_take time \<Rightarrow> legal_time time | Mutex_sleep n \<Rightarrow> n < RT_TICK_HALF | _ \<Rightarrow> True)"

text \<open>Each thread holds the mutex as often as the mutex says of its owner.\<close>

definition holds_of :: "mutex \<Rightarrow> nat \<Rightarrow> int" where
  "holds_of m t = (if owner m = Some t then uint (hold m) else 0)"

definition mutex_run_inv :: "(fault + mutex_run) option \<Rightarrow> bool" where
  "mutex_run_inv st \<longleftrightarrow> (\<exists>r. st = Some (Inr r) \<and> mutex_inv (the_mutex r) (mutex_kernel r) \<and> held r = holds_of (the_mutex r))"

lemma granted_none: "set (waiting m k) \<subseteq> set (waiting m k') \<Longrightarrow> granted m k k' t = 0"
  by (auto simp: granted_def)

lemma mutex_run_invI:
  assumes "mutex_inv m' k'" and "\<And>t. held r t + granted (the_mutex r) (mutex_kernel r) k' t +
      (if rt_current_thread (mutex_kernel r) = Some t then d else 0) = holds_of m' t"
  shows "mutex_run_inv (Some (Inr (mutex_next r m' k' d)))"
  using assms by (auto simp: mutex_run_inv_def mutex_next_def)

lemma mutex_take_now:
  assumes m: "mutex_inv m k" and c: "rt_current_thread k = Some c" "c \<noteq> idle_thread" and w: "owner m = None \<or> owner m = Some c \<or> time = 0"
  obtains res m' k' where "rt_mutex_take m time k = Inr (res, m', k')" "mutex_inv m' k'"
    "suspend_thread m' = suspend_thread m" "waiting m k' = waiting m k" "res \<noteq> Switched"
    "\<And>t. holds_of m' t = holds_of m t + (if t = c \<and> res = Returned RT_EOK then 1 else 0)"
proof -
  note ck = mutex_inv_calls [OF m]
  have r: "stat (tcbs k c) = RT_THREAD_RUNNING" using calls_inv_running [OF ck] c(1) by auto
  have e: "mutex_inv m (set_error c e k)" "waiting m (set_error c e k) = waiting m k" for e
    using set_error_mutex_inv [OF m c(1) r] by (simp_all add: set_error_def)
  have av: "scheduler_available k" by (rule calls_inv_sel(6) [OF ck c(1)])
  have r2: "stat (tcbs (set_error c x k) c) = RT_THREAD_RUNNING" for x using r by (simp add: set_error_def)
  have ee: "set_error c y (set_error c x k) = set_error c y k" for x y
    by (simp add: set_error_def upd_tcb_def)
  consider (own) "owner m = Some c" | (free) "owner m = None" | (busy) h where "owner m = Some h" "h \<noteq> c" "time = 0"
    using w by (cases "owner m") auto
  then show thesis
  proof cases
    case own
    note o = mutex_inv_owner [OF e(1) own, of RT_EOK, unfolded owner_ok_def]
    show thesis
    proof (cases "hold m < RT_MUTEX_HOLD_MAX")
      case True
      have u: "uint (hold m + 1) = uint (hold m) + 1" by (rule uint_inc_less [OF True])
      have "hold m + 1 \<noteq> 0" using unat_inc_less [OF True] by (metis nat.distinct(1) unat_0)
      then have "mutex_inv (m\<lparr>hold := hold m + 1\<rparr>) (set_error c RT_EOK k)"
        using e(1) [of RT_EOK] own by (simp add: mutex_inv_def owner_ok_def)
      then show thesis
        using that [of "Returned RT_EOK" "m\<lparr>hold := hold m + 1\<rparr>"] True own av c(1) e(2) u
        by (auto simp: rt_mutex_take_def rt_thread_self_def holds_of_def)
    next
      case False
      then show thesis
        using that [of "Returned (- RT_EFULL)" m] own av c(1) e
        by (auto simp: rt_mutex_take_def rt_thread_self_def holds_of_def RT_EFULL_def RT_EOK_def)
    qed
  next
    case free
    define m' where "m' = m\<lparr>mutex_value := 0, owner := Some c, original_priority := current_priority (tcbs k c), hold := 1\<rparr>"
    have f: "mutex_value m = 1" "hold m = 0" "waiting m k = []" using m free by (simp_all add: mutex_inv_def)
    have "current_priority (tcbs k c) < 32"
      using tcb_ok_started [OF kernel_inv_parts(1) [OF calls_inv_sel(1) [OF ck]], of c] r by simp
    then have "mutex_inv m' (set_error c RT_EOK k)"
      using e [of RT_EOK] f r2 [of RT_EOK] by (simp add: mutex_inv_def owner_ok_def m'_def) (simp add: set_error_def)
    moreover have "rt_mutex_take m time k = Inr (Returned RT_EOK, m', set_error c RT_EOK k)"
      using free av c(1) f
      by (simp add: rt_mutex_take_def rt_thread_self_def Let_def m'_def mutex_max_defs) (simp add: set_error_def)
    ultimately show thesis
      using that [of "Returned RT_EOK" m' "set_error c RT_EOK k"] e(2) f free by (simp add: holds_of_def m'_def)
  next
    case busy
    have "mutex_value m = 0" using mutex_inv_owner [OF m busy(1)] by (simp add: owner_ok_def)
    then have "rt_mutex_take m time k = Inr (Returned (- RT_ETIMEOUT), m, set_error c (- RT_ETIMEOUT) k)"
      using busy av c(1) by (simp add: rt_mutex_take_def rt_thread_self_def ee)
    then show thesis using that e by (auto simp: RT_ETIMEOUT_def RT_EOK_def)
  qed
qed

lemma mutex_step_take:
  assumes m: "mutex_inv (the_mutex r) (mutex_kernel r)" and h: "held r = holds_of (the_mutex r)"
    and c: "rt_current_thread (mutex_kernel r) = Some c" "c \<noteq> idle_thread" and n: "legal_time time"
  shows "mutex_run_inv (mutex_step own (Some (Inr r)) (Mutex_take time))"
proof (cases "owner (the_mutex r) = None \<or> owner (the_mutex r) = Some c \<or> time = 0")
  case True
  obtain res m' k' where x: "rt_mutex_take (the_mutex r) time (mutex_kernel r) = Inr (res, m', k')" "mutex_inv m' k'"
    "waiting (the_mutex r) k' = waiting (the_mutex r) (mutex_kernel r)"
    "\<And>t. holds_of m' t = holds_of (the_mutex r) t + (if t = c \<and> res = Returned RT_EOK then 1 else 0)"
    using mutex_take_now [OF m c True] by metis
  have "mutex_run_inv (Some (Inr (mutex_next r m' k' (if res = Returned RT_EOK then 1 else 0))))"
    using x(2-4) c h by (intro mutex_run_invI) (auto simp: granted_none)
  then show ?thesis using x(1) c by (simp add: mutex_step_def)
next
  case False
  then obtain g where g: "owner (the_mutex r) = Some g" "g \<noteq> c" and nz: "time \<noteq> 0" by auto
  obtain k' where x: "rt_mutex_take (the_mutex r) time (mutex_kernel r) = Inr (Switched, the_mutex r, k')"
    "mutex_inv (the_mutex r) k'"
    "set (waiting (the_mutex r) k') = insert c (set (waiting (the_mutex r) (mutex_kernel r)))"
    using mutex_take_waits [OF m c n nz g] by metis
  have "set (waiting (the_mutex r) (mutex_kernel r)) \<subseteq> set (waiting (the_mutex r) k')" using x(3) by auto
  then have "mutex_run_inv (Some (Inr (mutex_next r (the_mutex r) k' 0)))"
    using x(2) h by (intro mutex_run_invI) (auto simp: granted_none)
  then show ?thesis using x(1) c by (simp add: mutex_step_def)
qed

lemma mutex_step_release:
  assumes m: "mutex_inv (the_mutex r) (mutex_kernel r)" and h: "held r = holds_of (the_mutex r)"
    and c: "rt_current_thread (mutex_kernel r) = Some c" "c \<noteq> idle_thread"
  shows "mutex_run_inv (mutex_step own (Some (Inr r)) Mutex_release)"
proof -
  let ?m = "the_mutex r" and ?k = "mutex_kernel r"
  consider (other) "owner ?m \<noteq> Some c" | (again) "owner ?m = Some c" "hold ?m \<noteq> 1"
    | (free) "owner ?m = Some c" "hold ?m = 1" "waiting ?m ?k = []"
    | (hands) t ts where "owner ?m = Some c" "hold ?m = 1" "waiting ?m ?k = t # ts"
    by (cases "waiting ?m ?k") auto
  then show ?thesis
  proof cases
    case other
    have "waiting ?m (set_error c (- RT_ERROR) ?k) = waiting ?m ?k" by (simp add: set_error_def)
    then have "mutex_run_inv (Some (Inr (mutex_next r ?m (set_error c (- RT_ERROR) ?k) 0)))"
      using mutex_release_not_owner(2) [OF m c(1) other] h by (intro mutex_run_invI) (auto simp: granted_none)
    then show ?thesis
      using mutex_release_not_owner(1) [OF m c(1) other] c by (simp add: mutex_step_def RT_ERROR_def RT_EOK_def)
  next
    case again
    have "hold ?m \<noteq> 0" using mutex_inv_owner [OF m again(1)] by (simp add: owner_ok_def)
    then have "uint (hold ?m - 1) = uint (hold ?m) - 1" by (rule uint_dec_pos)
    then have "mutex_run_inv (Some (Inr (mutex_next r (?m\<lparr>hold := hold ?m - 1\<rparr>) ?k (- 1))))"
      using mutex_release_again(2) [OF m c(1) again] again c h
      by (intro mutex_run_invI) (auto simp: granted_none holds_of_def)
    then show ?thesis using mutex_release_again(1) [OF m c(1) again] c by (simp add: mutex_step_def)
  next
    case free
    obtain m' k' where x: "rt_mutex_release ?m ?k = Inr (RT_EOK, m', k')" "mutex_inv m' k'" "owner m' = None"
      using mutex_release_free [OF m c(1) free] by metis
    have "mutex_run_inv (Some (Inr (mutex_next r m' k' (- 1))))"
      using x(2,3) free c h by (intro mutex_run_invI) (auto simp: granted_none holds_of_def)
    then show ?thesis using x(1) c by (simp add: mutex_step_def)
  next
    case hands
    obtain m' k' where x: "rt_mutex_release ?m ?k = Inr (RT_EOK, m', k')" "mutex_inv m' k'" "owner m' = Some t" "hold m' = 1"
      "waiting m' k' = ts" "rt_mutex_take_wake t k' = RT_EOK" "suspend_thread m' = suspend_thread ?m"
      using mutex_release_hands [OF m c(1) hands] by metis
    have d: "t \<notin> set ts" "t \<noteq> c"
      using waiting_distinct [OF calls_inv_sel(1) [OF mutex_inv_calls [OF m]], of "suspend_thread ?m"] hands(3)
        mutex_inv_owner [OF m hands(1)] by (auto simp: owner_ok_def)
    have w: "waiting ?m k' = ts" using x(5,7) by simp
    have "granted ?m ?k k' u = (if u = t then 1 else 0)" for u
      using w hands(3) d x(6) by (auto simp: granted_def)
    then have "mutex_run_inv (Some (Inr (mutex_next r m' k' (- 1))))"
      using x(2-4) hands c h d by (intro mutex_run_invI) (auto simp: holds_of_def)
    then show ?thesis using x(1) c by (simp add: mutex_step_def)
  qed
qed

lemma mutex_step_other:
  assumes m: "mutex_inv (the_mutex r) (mutex_kernel r)" and h: "held r = holds_of (the_mutex r)"
  shows "mutex_run_inv (mutex_step own (Some (Inr r)) Mutex_tick)"
    and "rt_current_thread (mutex_kernel r) = Some c \<Longrightarrow> c \<noteq> idle_thread \<Longrightarrow> n < RT_TICK_HALF \<Longrightarrow>
      mutex_run_inv (mutex_step own (Some (Inr r)) (Mutex_sleep n))"
proof -
  let ?m = "the_mutex r" and ?k = "mutex_kernel r"
  obtain k' where x: "rt_tick_increase own ?k = Some (Inr k')" "mutex_inv ?m k'"
    "\<And>t. expires ?k t \<Longrightarrow> timed_out k' t" "waiting ?m k' = filter (\<lambda>t. \<not> expires ?k t) (waiting ?m ?k)"
    using mutex_tick [OF m] by metis
  have "granted ?m ?k k' t = 0" for t
    using x(3,4) by (auto simp: granted_def timed_out_def rt_mutex_take_wake_def err_defs)
  then have "mutex_run_inv (Some (Inr (mutex_next r ?m k' 0)))" using x(2) h by (intro mutex_run_invI) auto
  then show "mutex_run_inv (mutex_step own (Some (Inr r)) Mutex_tick)" using x(1) by (simp add: mutex_step_def)
next
  let ?m = "the_mutex r" and ?k = "mutex_kernel r"
  assume c: "rt_current_thread ?k = Some c" "c \<noteq> idle_thread" and n: "n < RT_TICK_HALF"
  obtain k' where x: "rt_thread_sleep n ?k = Inr k'" "mutex_inv ?m k'" "waiting ?m k' = waiting ?m ?k"
    using mutex_sleep [OF m c n] by metis
  have "mutex_run_inv (Some (Inr (mutex_next r ?m k' 0)))" using x(2,3) h by (intro mutex_run_invI) (auto simp: granted_none)
  then show "mutex_run_inv (mutex_step own (Some (Inr r)) (Mutex_sleep n))" using x(1) c by (simp add: mutex_step_def)
qed

lemma mutex_step_inv:
  assumes "mutex_run_inv st" and i: "legal_mutex_input i"
  shows "mutex_run_inv (mutex_step own st i)"
proof -
  obtain r where st: "st = Some (Inr r)" and m: "mutex_inv (the_mutex r) (mutex_kernel r)" and h: "held r = holds_of (the_mutex r)"
    using assms(1) by (auto simp: mutex_run_inv_def)
  obtain c where c: "rt_current_thread (mutex_kernel r) = Some c"
    using calls_inv_running [OF mutex_inv_calls [OF m]] by blast
  show ?thesis
  proof (cases "i \<noteq> Mutex_tick \<and> c = idle_thread")
    case True
    then show ?thesis using assms(1) c unfolding st by (cases i) (simp_all add: mutex_step_def)
  next
    case False
    then show ?thesis
      using i mutex_step_take [OF m h c] mutex_step_release [OF m h c] mutex_step_other [OF m h] c
      unfolding st by (cases i) (auto simp: legal_mutex_input_def)
  qed
qed

interpretation mutex_system: guarded_system
  "Some (Inr \<lparr>the_mutex = m, mutex_kernel = k, held = holds_of m\<rparr>)" "mutex_step own" legal_mutex_input
  "\<lambda>st. mutex_inv m k \<longrightarrow> mutex_run_inv st" for own m k
  by unfold_locales (auto simp: mutex_run_inv_def intro: mutex_step_inv [unfolded mutex_run_inv_def])

section \<open>Properties\<close>

definition demo_mutex :: "mutex" where
  "demo_mutex = \<lparr>suspend_thread = 7, ipc_flag = RT_IPC_FLAG_PRIO, ipc_systemobject = True, mutex_value = 0,
     original_priority = 25, hold = 1, owner = Some 2\<rparr>"

text \<open>Thread 2 owns the mutex and runs with an inherited priority 10 instead of its own, 25.\<close>

lemma demo_mutex_inv: "mutex_inv demo_mutex demo"
  using demo_calls_inv
  by (simp add: mutex_inv_def owner_ok_def demo_mutex_def demo_def demo_tcb_def idle_thread_def word_le_nat_alt)

text \<open>
  C5. Every run of calls on a mutex, sleeps and ticks, from any consistent state: nothing faults and
  every call ends; at any time at most one thread has taken the mutex without having released it as
  often, and it is the owner; and the owner is always at least as urgent as every thread that waits,
  so that no waiting thread is held up by a less urgent one (priority inheritance).
\<close>

theorem mutex_runs:
  assumes "mutex_inv m k" and "list_all legal_mutex_input is"
  shows "\<exists>r. run_steps (mutex_step own) (Some (Inr \<lparr>the_mutex = m, mutex_kernel = k, held = holds_of m\<rparr>)) is = Some (Inr r) \<and>
     (\<forall>t. held r t > 0 \<longleftrightarrow> owner (the_mutex r) = Some t) \<and> (\<forall>t. held r t \<ge> 0) \<and>
     (\<forall>h t. owner (the_mutex r) = Some h \<and> t \<in> set (waiting (the_mutex r) (mutex_kernel r)) \<longrightarrow>
        current_priority (tcbs (mutex_kernel r) h) \<le> current_priority (tcbs (mutex_kernel r) t))"
proof -
  obtain r where r: "run_steps (mutex_step own) (Some (Inr \<lparr>the_mutex = m, mutex_kernel = k, held = holds_of m\<rparr>)) is = Some (Inr r)"
    "mutex_inv (the_mutex r) (mutex_kernel r)" "held r = holds_of (the_mutex r)"
    using mutex_system.inv_run [OF assms(2), of m k own] assms(1) by (auto simp: mutex_run_inv_def)
  have "held r t > 0 \<longleftrightarrow> owner (the_mutex r) = Some t" for t
  proof (cases "owner (the_mutex r) = Some t")
    case True
    then have "hold (the_mutex r) \<noteq> 0" using mutex_inv_owner [OF r(2)] by (simp add: owner_ok_def)
    then have "uint (hold (the_mutex r)) > 0" by (simp add: order_less_le unsigned_eq_0_iff)
    then show ?thesis using True r(3) by (simp add: holds_of_def)
  next
    case False
    then show ?thesis using r(3) by (simp add: holds_of_def)
  qed
  moreover have "held r t \<ge> 0" for t using r(3) by (simp add: holds_of_def)
  moreover have "current_priority (tcbs (mutex_kernel r) h) \<le> current_priority (tcbs (mutex_kernel r) t)"
    if "owner (the_mutex r) = Some h" "t \<in> set (waiting (the_mutex r) (mutex_kernel r))" for h t
    using mutex_inv_owner [OF r(2) that(1)] that(2) by (simp add: owner_ok_def)
  ultimately show ?thesis using r(1) by blast
qed

theorem mutex_runs_witness:
  "\<exists>r. run_steps (mutex_step (\<lambda>_. Inr)) (Some (Inr \<lparr>the_mutex = demo_mutex, mutex_kernel = demo, held = holds_of demo_mutex\<rparr>))
       [Mutex_take (- 1), Mutex_sleep 5, Mutex_take 3, Mutex_tick, Mutex_release] = Some (Inr r) \<and> (\<forall>t. held r t \<ge> 0)"
proof -
  have "list_all legal_mutex_input [Mutex_take (- 1), Mutex_sleep 5, Mutex_take 3, Mutex_tick, Mutex_release]"
    by (simp add: legal_mutex_input_def legal_time_def RT_TICK_HALF_def)
  from mutex_runs [OF demo_mutex_inv this, of "\<lambda>_. Inr"] show ?thesis by blast
qed

text \<open>
  C6. The last release by the owner while threads wait: the owner gets its original priority back, the
  first waiting thread, than which no waiting thread is more urgent, becomes the owner, can run and
  its take returns \<open>RT_EOK\<close>, and the processor runs the most urgent thread.
\<close>

theorem mutex_hand_over:
  assumes "mutex_inv m k" and "rt_current_thread k = Some c" and "owner m = Some c" and "hold m = 1"
    and "waiting m k = t # ts"
  shows "\<exists>m' k'. rt_mutex_release m k = Inr (RT_EOK, m', k') \<and> owner m' = Some t \<and> hold m' = 1 \<and> waiting m' k' = ts \<and>
     active (stat (tcbs k' t)) \<and> rt_mutex_take_wake t k' = RT_EOK \<and>
     current_priority (tcbs k' c) = original_priority m \<and> settled k' \<and>
     (\<forall>u \<in> set ts. current_priority (tcbs k' t) \<le> current_priority (tcbs k' u))"
proof -
  obtain m' k' where x: "rt_mutex_release m k = Inr (RT_EOK, m', k')" "mutex_inv m' k'" "settled k'"
    "owner m' = Some t" "hold m' = 1" "waiting m' k' = ts" "active (stat (tcbs k' t))"
    "rt_mutex_take_wake t k' = RT_EOK" "current_priority (tcbs k' c) = original_priority m"
    using mutex_release_hands [OF assms] by metis
  have "current_priority (tcbs k' t) \<le> current_priority (tcbs k' u)" if "u \<in> set ts" for u
    using mutex_inv_owner [OF x(2,4)] x(6) that by (simp add: owner_ok_def)
  with x show ?thesis by blast
qed

lemma demo_mutex_wait_inv: "mutex_inv demo_mutex demo_wait"
  using demo_wait_calls_inv
  by (simp add: mutex_inv_def owner_ok_def demo_mutex_def demo_wait_def demo_def demo_tcb_def idle_thread_def word_le_nat_alt
      RT_EOK_def)

theorem mutex_hand_over_witness:
  "\<exists>m' k'. rt_mutex_release demo_mutex demo_wait = Inr (RT_EOK, m', k') \<and> owner m' = Some 3 \<and>
     current_priority (tcbs k' 2) = 25"
proof -
  have h: "rt_current_thread demo_wait = Some 2" "owner demo_mutex = Some 2" "hold demo_mutex = 1"
    "waiting demo_mutex demo_wait = [3]" "original_priority demo_mutex = 25"
    by (simp_all add: demo_wait_def demo_def demo_mutex_def)
  show ?thesis using mutex_hand_over [OF demo_mutex_wait_inv h(1-4)] h(5) by metis
qed

text \<open>
  The release of a mutex for which nobody waits any more (its waiting threads have timed out): the
  owner gets its original priority back, but nothing is scheduled, so it keeps the processor although
  a more urgent thread is ready.
\<close>

theorem mutex_release_inversion:
  assumes "mutex_inv m k" and "rt_current_thread k = Some c" and "owner m = Some c" and "hold m = 1"
    and "waiting m k = []" and "stat (tcbs k u) = RT_THREAD_READY" and "current_priority (tcbs k u) < original_priority m"
  shows "\<exists>m' k'. rt_mutex_release m k = Inr (RT_EOK, m', k') \<and> rt_current_thread k' = Some c \<and>
     stat (tcbs k' u) = RT_THREAD_READY \<and> current_priority (tcbs k' u) < current_priority (tcbs k' c) \<and> \<not> settled k'"
proof -
  obtain m' k' where x: "rt_mutex_release m k = Inr (RT_EOK, m', k')" "mutex_inv m' k'" "reprio c (original_priority m) k k'"
    using mutex_release_free [OF assms(1-5)] by metis
  have uc: "u \<noteq> c" using calls_inv_running [OF mutex_inv_calls [OF assms(1)]] assms(2,6) by fastforce
  have r: "rt_current_thread k' = Some c" "stat (tcbs k' u) = RT_THREAD_READY" "current_priority (tcbs k' u) < current_priority (tcbs k' c)"
    using x(3) uc assms(2,6,7) by (simp_all add: reprio_def)
  have "\<not> settled k'" using r calls_inv_sel(3) [OF mutex_inv_calls [OF x(2)]] by (auto simp: settled_def not_le)
  with x(1) r show ?thesis by blast
qed

theorem mutex_release_inversion_witness:
  "\<exists>m' k'. rt_mutex_release demo_mutex demo = Inr (RT_EOK, m', k') \<and> rt_current_thread k' = Some 2 \<and> \<not> settled k'"
proof -
  have h: "owner demo_mutex = Some 2" "hold demo_mutex = 1" "waiting demo_mutex demo = []"
    "stat (tcbs demo 3) = RT_THREAD_READY" "current_priority (tcbs demo 3) < original_priority demo_mutex"
    by (simp_all add: demo_def demo_tcb_def demo_mutex_def idle_thread_def)
  show ?thesis using mutex_release_inversion [OF demo_mutex_inv demo_runs(1) h] by metis
qed

end
