(* ===== verification/Event.thy ===== *)
theory Event
  imports Ipc
begin

text \<open>
  Event sets (\<open>rt-thread/src/ipc.c\<close>): 32 bits, on which a thread waits for all (AND) or any (OR) of a
  mask, and which a satisfied wait may clear. \<open>serve\<close> is the abstract specification of a send.
\<close>

section \<open>Operations\<close>

definition RT_EVENT_FLAG_AND :: u8 where "RT_EVENT_FLAG_AND = 1"
definition RT_EVENT_FLAG_OR :: u8 where "RT_EVENT_FLAG_OR = 2"
definition RT_EVENT_FLAG_CLEAR :: u8 where "RT_EVENT_FLAG_CLEAR = 4"

lemmas event_flag_defs = RT_EVENT_FLAG_AND_def RT_EVENT_FLAG_OR_def RT_EVENT_FLAG_CLEAR_def

text \<open>\<open>option & flag\<close> as a condition.\<close>

definition has_flag :: "u8 \<Rightarrow> u8 \<Rightarrow> bool" where
  "has_flag opt f \<longleftrightarrow> opt AND f \<noteq> 0"

record event = ipc +
  event_bits :: u32

definition rt_event_init :: "nat \<Rightarrow> u8 \<Rightarrow> kernel \<Rightarrow> fault + int \<times> event \<times> kernel" where
  "rt_event_init w flag k =
     (if flag = RT_IPC_FLAG_FIFO \<or> flag = RT_IPC_FLAG_PRIO then
        Inr (RT_EOK, \<lparr>suspend_thread = w, ipc_flag = flag, ipc_systemobject = True, event_bits = 0\<rparr>, ipc_object_init w k)
      else Inl AssertFailed)"

definition rt_event_detach :: "event \<Rightarrow> kernel \<Rightarrow> (fault + int \<times> kernel) option" where
  "rt_event_detach e k =
     (if ipc_systemobject e
      then bind_opt (ipc_list_resume_all (suspend_thread e) k) (\<lambda>k. Some (Inr (RT_EOK, k)))
      else Some (Inl AssertFailed))"

definition rt_event_create :: "nat option \<Rightarrow> u8 \<Rightarrow> kernel \<Rightarrow> fault + event option \<times> kernel" where
  "rt_event_create obj flag k =
     (if (flag = RT_IPC_FLAG_FIFO \<or> flag = RT_IPC_FLAG_PRIO) \<and> not_in_interrupt k then
        (case obj of None \<Rightarrow> Inr (None, k)
         | Some w \<Rightarrow> Inr (Some \<lparr>suspend_thread = w, ipc_flag = flag, ipc_systemobject = False, event_bits = 0\<rparr>,
                       ipc_object_init w k))
      else Inl AssertFailed)"

definition rt_event_delete :: "event \<Rightarrow> kernel \<Rightarrow> (fault + int \<times> kernel) option" where
  "rt_event_delete e k =
     (if \<not> ipc_systemobject e \<and> not_in_interrupt k
      then bind_opt (ipc_list_resume_all (suspend_thread e) k) (\<lambda>k. Some (Inr (RT_EOK, k)))
      else Some (Inl AssertFailed))"

definition set_event_set :: "nat \<Rightarrow> u32 \<Rightarrow> kernel \<Rightarrow> kernel" where
  "set_event_set t s k = upd_tcb t (\<lambda>c. c\<lparr>event_set := s\<rparr>) k"

text \<open>
  The walk of \<open>rt_event_send\<close> over the waiting threads: the code reads the next node before it takes a
  thread out, so it visits the threads of the list at the start. The result has the return code,
  \<open>need_schedule\<close> and the new set.
\<close>

fun event_send_loop :: "nat list \<Rightarrow> u32 \<Rightarrow> bool \<Rightarrow> kernel \<Rightarrow> fault + int \<times> bool \<times> u32 \<times> kernel" where
  "event_send_loop [] bits need k = Inr (RT_EOK, need, bits, k)"
| "event_send_loop (t # ts) bits need k =
     (let c = tcbs k t
      in if has_flag (event_info c) RT_EVENT_FLAG_AND \<or> has_flag (event_info c) RT_EVENT_FLAG_OR then
           (let hit = (if has_flag (event_info c) RT_EVENT_FLAG_AND then event_set c AND bits = event_set c
                       else event_set c AND bits \<noteq> 0);
                k = (if hit \<and> \<not> has_flag (event_info c) RT_EVENT_FLAG_AND
                     then set_event_set t (event_set c AND bits) k else k)
            in if hit then
                 (let bits = (if has_flag (event_info c) RT_EVENT_FLAG_CLEAR
                              then bits AND NOT (event_set (tcbs k t)) else bits)
                  in bind_err (rt_thread_resume t k) (\<lambda>(_, k). event_send_loop ts bits True k))
               else event_send_loop ts bits need k)
         else Inr (- RT_EINVAL, need, bits, k))"

definition rt_event_send :: "event \<Rightarrow> u32 \<Rightarrow> kernel \<Rightarrow> fault + int \<times> event \<times> kernel" where
  "rt_event_send e bits k =
     (if bits = 0 then Inr (- RT_ERROR, e, k)
      else
        bind_err (event_send_loop (waiting e k) (event_bits e OR bits) False k) (\<lambda>(result, need, bits, k).
          let e = e\<lparr>event_bits := bits\<rparr>
          in if result \<noteq> RT_EOK then Inr (result, e, k)
             else if need then bind_err (rt_schedule k) (\<lambda>k. Inr (RT_EOK, e, k))
             else Inr (RT_EOK, e, k)))"

text \<open>The second component of the result is the word written to \<open>*recved\<close>, if one is.\<close>

definition rt_event_recv :: "event \<Rightarrow> u32 \<Rightarrow> u8 \<Rightarrow> int \<Rightarrow> kernel \<Rightarrow> fault + int call \<times> u32 option \<times> event \<times> kernel" where
  "rt_event_recv e bits opt timeout k =
     (if \<not> scheduler_available k then Inl AssertFailed
      else if bits = 0 then Inr (Returned (- RT_ERROR), None, e, k)
      else case rt_thread_self k of None \<Rightarrow> Inl NullPointer
      | Some t \<Rightarrow>
          let k = set_error t RT_EOK k
          in if has_flag opt RT_EVENT_FLAG_AND \<or> has_flag opt RT_EVENT_FLAG_OR then
               (if (if has_flag opt RT_EVENT_FLAG_AND then event_bits e AND bits = bits else event_bits e AND bits \<noteq> 0) then
                  (let k = upd_tcb t (\<lambda>c. c\<lparr>event_set := event_bits e AND bits, event_info := opt\<rparr>) k
                   in Inr (Returned (error (tcbs k t)), Some (event_bits e AND bits),
                        if has_flag opt RT_EVENT_FLAG_CLEAR then e\<lparr>event_bits := event_bits e AND NOT bits\<rparr> else e, k))
                else if timeout = 0 then Inr (Returned (- RT_ETIMEOUT), None, e, set_error t (- RT_ETIMEOUT) k)
                else
                  bind_err (ipc_wait (suspend_thread e) t (ipc_flag e) timeout
                      (upd_tcb t (\<lambda>c. c\<lparr>event_set := bits, event_info := opt\<rparr>) k)) (\<lambda>k.
                  Inr (Switched, None, e, k)))
             else Inl AssertFailed)"

text \<open>The end of a receive that has waited.\<close>

definition rt_event_recv_wake :: "nat \<Rightarrow> kernel \<Rightarrow> int \<times> u32 option" where
  "rt_event_recv_wake t k =
     (if error (tcbs k t) \<noteq> RT_EOK then (error (tcbs k t), None) else (error (tcbs k t), Some (event_set (tcbs k t))))"

definition rt_event_control :: "event \<Rightarrow> int \<Rightarrow> (kernel \<Rightarrow> (fault + int \<times> event \<times> kernel) option)" where
  "rt_event_control e cmd k =
     (if cmd = RT_IPC_CMD_RESET then
        bind_opt (ipc_list_resume_all (suspend_thread e) k) (\<lambda>k.
          Some (bind_err (rt_schedule k) (\<lambda>k. Inr (RT_EOK, e\<lparr>event_bits := 0\<rparr>, k))))
      else Some (Inr (- RT_ERROR, e, k)))"

section \<open>The specification of a send\<close>

text \<open>Is a wait for \<open>s\<close> with the options \<open>i\<close> satisfied by the bits, and with which bits?\<close>

definition satisfied :: "u32 \<Rightarrow> u32 \<Rightarrow> u8 \<Rightarrow> bool" where
  "satisfied b s i \<longleftrightarrow> (if has_flag i RT_EVENT_FLAG_AND then s AND b = s else s AND b \<noteq> 0)"

definition received :: "u32 \<Rightarrow> u32 \<Rightarrow> u8 \<Rightarrow> u32" where
  "received b s i = (if has_flag i RT_EVENT_FLAG_AND then s else s AND b)"

definition remaining :: "u32 \<Rightarrow> u32 \<Rightarrow> u8 \<Rightarrow> u32" where
  "remaining b s i = (if has_flag i RT_EVENT_FLAG_CLEAR then b AND NOT (received b s i) else b)"

text \<open>
  The waiting threads in turn: the bits that remain, and the threads that are served, each with what it
  receives.
\<close>

fun serve :: "u32 \<Rightarrow> (nat \<times> u32 \<times> u8) list \<Rightarrow> u32 \<times> (nat \<times> u32) list" where
  "serve b [] = (b, [])"
| "serve b ((t, s, i) # ws) =
     (if satisfied b s i
      then (fst (serve (remaining b s i) ws), (t, received b s i) # snd (serve (remaining b s i) ws))
      else serve b ws)"

lemma serve_subset: "fst ` set (snd (serve b ws)) \<subseteq> fst ` set ws"
  by (induction b ws rule: serve.induct) auto

text \<open>Bits are only taken away, so a wait that is not satisfied stays so.\<close>

lemma and_trans:
  fixes a b c :: u32
  shows "a AND b = a \<Longrightarrow> b AND c = b \<Longrightarrow> a AND c = a"
  by (metis and.assoc)

lemma remaining_shrinks: "remaining b s i AND b = remaining b s i"
proof -
  have "(b AND NOT x) AND b = b AND NOT x" for x by (metis and.assoc and.commute and.idem)
  then show ?thesis by (simp add: remaining_def)
qed

lemma serve_shrinks: "fst (serve b ws) AND b = fst (serve b ws)"
proof (induction b ws rule: serve.induct)
  case (2 b t s i ws)
  then show ?case using and_trans [OF _ remaining_shrinks] by (cases "satisfied b s i") auto
qed simp

lemma satisfied_mono:
  fixes a b s :: u32
  assumes ab: "a AND b = a" and s: "satisfied a s i"
  shows "satisfied b s i"
proof (cases "has_flag i RT_EVENT_FLAG_AND")
  case True
  then have "s AND a = s" using s by (simp add: satisfied_def)
  then have "s AND b = s" using ab by (rule and_trans)
  then show ?thesis using True by (simp add: satisfied_def)
next
  case False
  then have "s AND a \<noteq> 0" using s by (simp add: satisfied_def)
  moreover have "s AND a = (s AND b) AND a" using ab by (metis and.assoc and.commute)
  ultimately have "s AND b \<noteq> 0" by auto
  then show ?thesis using False by (simp add: satisfied_def)
qed

lemma serve_rest:
  assumes "distinct (map fst ws)" and "(t, s, i) \<in> set ws" and "t \<notin> fst ` set (snd (serve b ws))"
  shows "\<not> satisfied (fst (serve b ws)) s i"
  using assms
proof (induction b ws rule: serve.induct)
  case (2 b u s' i' ws)
  show ?case
  proof (cases "satisfied b s' i'")
    case True
    then have "(t, s, i) \<in> set ws" "t \<notin> fst ` set (snd (serve (remaining b s' i') ws))" using "2.prems" by auto
    then show ?thesis using "2.IH"(1) [OF True] "2.prems" True by simp
  next
    case False
    then have t: "t \<notin> fst ` set (snd (serve b ws))" using "2.prems" by simp
    show ?thesis
    proof (cases "(t, s, i) \<in> set ws")
      case True
      then show ?thesis using "2.IH"(3) [OF False] "2.prems" t False by simp
    next
      case hd: False
      then have "s = s'" "i = i'" using "2.prems" by auto
      then show ?thesis using False satisfied_mono [OF serve_shrinks, of b ws s i] by auto
    qed
  qed
qed simp

section \<open>The walk implements the specification\<close>

text \<open>Changing fields that no invariant looks at.\<close>

lemma upd_fields_calls_inv:
  assumes k: "calls_inv k" and f: "\<And>c. stat (f c) = stat c" "\<And>c. current_priority (f c) = current_priority c"
    "\<And>c. number_mask (f c) = number_mask c"
  shows "calls_inv (upd_tcb t f k)"
proof -
  note p = kernel_inv_parts [OF calls_inv_sel(1) [OF k]]
  have "queue_inv (upd_tcb t f k)" by (rule queue_inv_upd [OF p(1)]) (simp_all add: f)
  moreover have "run_inv (upd_tcb t f k)" using p(2) by (auto simp: run_inv_def f)
  moreover have keep: "timers_kept k (upd_tcb t f k)" by (simp add: timers_kept_def)
  moreover have "timers_inv (upd_tcb t f k)" by (rule timers_inv_kept [OF p(3) keep]) (auto simp: f)
  moreover have "due_inv (upd_tcb t f k)" by (rule due_inv_kept [OF p(4) keep])
  moreover have "runs (upd_tcb t f k)" using calls_inv_sel(2) [OF k] by (auto simp: runs_def f)
  ultimately show ?thesis
    using kernel_inv_current [OF calls_inv_sel(1) [OF k]] calls_inv_sel(3-5) [OF k] by (simp add: calls_inv_def kernel_inv_def f)
qed

lemma resumed_calls_inv:
  assumes k: "calls_inv k" and t: "stat (tcbs k t) = RT_THREAD_SUSPEND"
  shows "calls_inv (resumed t k)"
proof -
  obtain c where c: "rt_current_thread k = Some c" "stat (tcbs k c) = RT_THREAD_RUNNING" using calls_inv_running [OF k] by blast
  have "t \<noteq> idle_thread" using t calls_inv_sel(5) [OF k] by (auto simp: active_def)
  moreover have "runs (resumed t k)" using c by (auto simp: runs_def)
  ultimately show ?thesis
    using resumed_inv [OF calls_inv_sel(1) [OF k] t] calls_inv_sel(3-5) [OF k] by (simp add: calls_inv_def)
qed

definition wait_of :: "kernel \<Rightarrow> nat \<Rightarrow> nat \<times> u32 \<times> u8" where
  "wait_of k t = (t, event_set (tcbs k t), event_info (tcbs k t))"

lemma map_fst_wait_of [simp]: "map fst (map (wait_of k) ts) = ts"
  by (induction ts) (simp_all add: wait_of_def)

definition has_mode :: "u8 \<Rightarrow> bool" where
  "has_mode i \<longleftrightarrow> has_flag i RT_EVENT_FLAG_AND \<or> has_flag i RT_EVENT_FLAG_OR"

text \<open>What the walk has done: the served threads can run with what they received, the rest is as it was.\<close>

definition served_to :: "nat \<Rightarrow> kernel \<Rightarrow> (nat \<times> u32) list \<Rightarrow> kernel \<Rightarrow> bool" where
  "served_to w k r k' \<longleftrightarrow>
     links k' (Wait w) = filter (\<lambda>t. t \<notin> fst ` set r) (links k (Wait w)) \<and>
     (\<forall>(t, g) \<in> set r. active (stat (tcbs k' t)) \<and> error (tcbs k' t) = error (tcbs k t) \<and> event_set (tcbs k' t) = g \<and>
        \<not> activated (timers k' (ThreadTimer t))) \<and>
     (\<forall>t. t \<notin> fst ` set r \<longrightarrow> untouched k k' t)"

definition hit_kernel :: "nat \<Rightarrow> u32 \<Rightarrow> kernel \<Rightarrow> kernel" where
  "hit_kernel t b k = resumed t (set_event_set t (received b (event_set (tcbs k t)) (event_info (tcbs k t))) k)"

lemma hit_step:
  assumes k: "calls_inv k" and t: "t \<in> set (links k (Wait w))"
    and m: "has_mode (event_info (tcbs k t))" and s: "satisfied b (event_set (tcbs k t)) (event_info (tcbs k t))"
  shows "event_send_loop (t # ts) b need k =
      event_send_loop ts (remaining b (event_set (tcbs k t)) (event_info (tcbs k t))) True (hit_kernel t b k)"
    and "calls_inv (hit_kernel t b k)"
proof -
  have st: "stat (tcbs k t) = RT_THREAD_SUSPEND" by (rule waiting_suspended [OF calls_inv_sel(1) [OF k] t])
  have k1: "calls_inv (set_event_set t x k)" for x
    unfolding set_event_set_def by (rule upd_fields_calls_inv [OF k]) simp_all
  have st1: "stat (tcbs (set_event_set t x k) t) = RT_THREAD_SUSPEND" for x using st by (simp add: set_event_set_def)
  show "calls_inv (hit_kernel t b k)" unfolding hit_kernel_def by (rule resumed_calls_inv [OF k1 st1])
  have same: "set_event_set t (event_set (tcbs k t)) k = k" by (cases k) (simp add: set_event_set_def upd_tcb_def)
  have run: "rt_thread_resume t (set_event_set t x k) = Inr (RT_EOK, resumed t (set_event_set t x k))" for x
    by (rule rt_thread_resume_eq [OF kernel_inv_parts(1) [OF calls_inv_sel(1) [OF k1]] st1])
  show "event_send_loop (t # ts) b need k =
      event_send_loop ts (remaining b (event_set (tcbs k t)) (event_info (tcbs k t))) True (hit_kernel t b k)"
  proof (cases "has_flag (event_info (tcbs k t)) RT_EVENT_FLAG_AND")
    case True
    then show ?thesis
      using m s run [of "event_set (tcbs k t)"]
      by (simp add: has_mode_def satisfied_def received_def remaining_def hit_kernel_def same Let_def)
  next
    case False
    then show ?thesis
      using m s run by (simp add: has_mode_def satisfied_def received_def remaining_def hit_kernel_def Let_def)
        (simp add: set_event_set_def)
  qed
qed

lemma miss_step:
  assumes "has_mode (event_info (tcbs k t))" and "\<not> satisfied b (event_set (tcbs k t)) (event_info (tcbs k t))"
  shows "event_send_loop (t # ts) b need k = event_send_loop ts b need k"
  using assms by (simp add: has_mode_def satisfied_def Let_def split: if_splits)

lemma hit_kernel_sel:
  "u \<noteq> t \<Longrightarrow> tcbs (hit_kernel t b k) u = tcbs k u"
  "links (hit_kernel t b k) (Wait w) = filter (\<lambda>u. u \<noteq> t) (links k (Wait w))"
  "u \<noteq> t \<Longrightarrow> untouched k (hit_kernel t b k) u"
  "error (tcbs (hit_kernel t b k) t) = error (tcbs k t)" "active (stat (tcbs (hit_kernel t b k) t))"
  "event_set (tcbs (hit_kernel t b k) t) = received b (event_set (tcbs k t)) (event_info (tcbs k t))"
  "\<not> activated (timers (hit_kernel t b k) (ThreadTimer t))"
  by (auto simp: hit_kernel_def set_event_set_def untouched_def same_threads_def active_def)

lemma event_send_loop_ok:
  assumes "calls_inv k" and "set ts \<subseteq> set (links k (Wait w))" and "distinct ts"
    and "\<forall>t \<in> set ts. has_mode (event_info (tcbs k t))"
  shows "\<exists>k'. event_send_loop ts b need k =
       Inr (RT_EOK, need \<or> snd (serve b (map (wait_of k) ts)) \<noteq> [], fst (serve b (map (wait_of k) ts)), k') \<and>
     calls_inv k' \<and> served_to w k (snd (serve b (map (wait_of k) ts))) k'"
  using assms
proof (induction ts arbitrary: b need k)
  case Nil
  then show ?case by (auto simp: served_to_def)
next
  case (Cons t ts)
  let ?s = "event_set (tcbs k t)" and ?i = "event_info (tcbs k t)"
  have m: "has_mode ?i" and tw: "t \<in> set (links k (Wait w))" and d: "t \<notin> set ts" using Cons.prems by auto
  show ?case
  proof (cases "satisfied b ?s ?i")
    case False
    then show ?thesis using Cons.IH [of k b need] Cons.prems miss_step [OF m False] by (simp add: wait_of_def)
  next
    case True
    note h = hit_step [OF Cons.prems(1) tw m True]
    let ?k = "hit_kernel t b k" and ?b = "remaining b ?s ?i"
    have other: "tcbs ?k u = tcbs k u" if "u \<in> set ts" for u by (rule hit_kernel_sel(1)) (use that d in auto)
    have same: "map (wait_of ?k) ts = map (wait_of k) ts" by (simp add: wait_of_def other)
    have sub: "set ts \<subseteq> set (links ?k (Wait w))" using Cons.prems(2) d by (auto simp: hit_kernel_sel(2))
    have modes: "\<forall>u \<in> set ts. has_mode (event_info (tcbs ?k u))" using Cons.prems(4) by (simp add: other)
    obtain k' where k': "event_send_loop ts ?b True ?k =
        Inr (RT_EOK, True \<or> snd (serve ?b (map (wait_of k) ts)) \<noteq> [], fst (serve ?b (map (wait_of k) ts)), k')"
      "calls_inv k'" "served_to w ?k (snd (serve ?b (map (wait_of k) ts))) k'"
      using Cons.IH [OF h(2) sub _ modes, of ?b True] Cons.prems(3) unfolding same by auto
    define r where "r = snd (serve ?b (map (wait_of k) ts))"
    have tr: "t \<notin> fst ` set r"
    proof -
      have "fst ` set r \<subseteq> fst ` set (map (wait_of k) ts)" unfolding r_def by (rule serve_subset)
      moreover have "fst ` set (map (wait_of k) ts) = set ts" by (auto simp: wait_of_def image_image)
      ultimately show ?thesis using d by auto
    qed
    have s': "links k' (Wait w) = filter (\<lambda>u. u \<notin> fst ` set r) (links ?k (Wait w))"
      "\<And>u g. (u, g) \<in> set r \<Longrightarrow> active (stat (tcbs k' u)) \<and> error (tcbs k' u) = error (tcbs ?k u) \<and> event_set (tcbs k' u) = g \<and>
        \<not> activated (timers k' (ThreadTimer u))"
      "\<And>u. u \<notin> fst ` set r \<Longrightarrow> untouched ?k k' u"
      using k'(3) by (auto simp: served_to_def r_def)
    have "served_to w k ((t, received b ?s ?i) # r) k'"
      unfolding served_to_def
    proof (intro conjI ballI allI impI)
      show "links k' (Wait w) = filter (\<lambda>u. u \<notin> fst ` set ((t, received b ?s ?i) # r)) (links k (Wait w))"
        unfolding s'(1) hit_kernel_sel(2) filter_filter by (rule filter_cong) auto
    next
      fix ug assume ug: "ug \<in> set ((t, received b ?s ?i) # r)"
      obtain u g where p: "ug = (u, g)" by (cases ug)
      show "case ug of (u, g) \<Rightarrow> active (stat (tcbs k' u)) \<and> error (tcbs k' u) = error (tcbs k u) \<and> event_set (tcbs k' u) = g \<and>
          \<not> activated (timers k' (ThreadTimer u))"
      proof (cases "u = t")
        case True
        then have g: "g = received b ?s ?i" using ug tr p by force
        show ?thesis using untouched_sel(2,3,5,7) [OF s'(3) [OF tr]] hit_kernel_sel(4-7) [of t b k] by (simp add: p True g)
      next
        case False
        then have "(u, g) \<in> set r" using ug p by simp
        then show ?thesis using s'(2) hit_kernel_sel(1) [OF False] by (simp add: p)
      qed
    next
      fix u assume u: "u \<notin> fst ` set ((t, received b ?s ?i) # r)"
      then have "untouched k ?k u" by (intro hit_kernel_sel(3)) auto
      moreover have "untouched ?k k' u" using u by (intro s'(3)) auto
      ultimately show "untouched k k' u" by (rule untouched_trans)
    qed
    moreover have "wait_of k t = (t, ?s, ?i)" by (simp add: wait_of_def)
    ultimately show ?thesis
      using k' True by (auto simp: r_def h(1) simp del: event_send_loop.simps)
  qed
qed

text \<open>A walk that serves nobody changes nothing.\<close>

lemma event_send_loop_none:
  "\<forall>t \<in> set ts. has_mode (event_info (tcbs k t)) \<Longrightarrow> snd (serve b (map (wait_of k) ts)) = [] \<Longrightarrow>
   event_send_loop ts b need k = Inr (RT_EOK, need, b, k)"
proof (induction ts)
  case (Cons t ts)
  have "\<not> satisfied b (event_set (tcbs k t)) (event_info (tcbs k t))"
    using Cons.prems(2) by (auto simp: wait_of_def)
  then show ?case using Cons miss_step [of k t b ts need] by (simp add: wait_of_def)
qed simp

section \<open>Every call keeps the invariant\<close>

text \<open>No thread waits for what the set already has.\<close>

definition event_inv :: "event \<Rightarrow> kernel \<Rightarrow> bool" where
  "event_inv e k \<longleftrightarrow> calls_inv k \<and> settled k \<and> (ipc_flag e = RT_IPC_FLAG_FIFO \<or> ipc_flag e = RT_IPC_FLAG_PRIO) \<and>
     (\<forall>t \<in> set (waiting e k). error (tcbs k t) = RT_EOK \<and> has_mode (event_info (tcbs k t)) \<and>
        \<not> satisfied (event_bits e) (event_set (tcbs k t)) (event_info (tcbs k t)))"

lemma event_inv_calls: "event_inv e k \<Longrightarrow> calls_inv k" by (simp add: event_inv_def)

lemma event_inv_frame:
  assumes "event_inv e k" and "calls_inv k'" "settled k'" and "set (waiting e' k') \<subseteq> set (waiting e k)"
    and "\<And>t. t \<in> set (waiting e' k') \<Longrightarrow> untouched k k' t" and "ipc_flag e' = ipc_flag e"
    and "\<And>t. t \<in> set (waiting e' k') \<Longrightarrow> \<not> satisfied (event_bits e') (event_set (tcbs k t)) (event_info (tcbs k t))"
  shows "event_inv e' k'"
  unfolding event_inv_def
proof (intro conjI ballI)
  fix t assume t: "t \<in> set (waiting e' k')"
  note u = untouched_sel(2,5,6) [OF assms(5) [OF t]]
  have "t \<in> set (waiting e k)" using assms(4) t by blast
  then show "error (tcbs k' t) = RT_EOK" "has_mode (event_info (tcbs k' t))"
    using assms(1) u by (simp_all add: event_inv_def)
  show "\<not> satisfied (event_bits e') (event_set (tcbs k' t)) (event_info (tcbs k' t))" using assms(7) [OF t] u by simp
qed (use assms in \<open>simp_all add: event_inv_def\<close>)

lemma event_send_ok:
  assumes e: "event_inv e k" and b: "bits \<noteq> 0"
    and r: "serve (event_bits e OR bits) (map (wait_of k) (waiting e k)) = (b', r)"
  obtains k' where "rt_event_send e bits k = Inr (RT_EOK, e\<lparr>event_bits := b'\<rparr>, k')"
    "event_inv (e\<lparr>event_bits := b'\<rparr>) k'" "served_to (suspend_thread e) k r k'"
proof -
  note ck = event_inv_calls [OF e]
  let ?ts = "waiting e k"
  have modes: "\<forall>t \<in> set ?ts. has_mode (event_info (tcbs k t))" using e by (simp add: event_inv_def)
  note ds = waiting_distinct [OF calls_inv_sel(1) [OF ck], of "suspend_thread e"]
  obtain k1 where k1: "event_send_loop ?ts (event_bits e OR bits) False k = Inr (RT_EOK, r \<noteq> [], b', k1)"
    "calls_inv k1" "served_to (suspend_thread e) k r k1"
    using event_send_loop_ok [OF ck subset_refl ds modes, of "event_bits e OR bits" False] unfolding r by auto
  obtain k' where k': "rt_event_send e bits k = Inr (RT_EOK, e\<lparr>event_bits := b'\<rparr>, k')" "calls_inv k'" "settled k'"
    "served_to (suspend_thread e) k r k'"
  proof (cases "r = []")
    case True
    have "served_to (suspend_thread e) k r k1" "r = []" using k1(3) True by simp_all
    have kk: "k1 = k"
      using k1(1) True event_send_loop_none [of ?ts k "event_bits e OR bits" False] r modes by simp
    then show thesis using that [of k] k1 True b ck e by (simp add: rt_event_send_def event_inv_def)
  next
    case False
    then obtain t g where tg: "(t, g) \<in> set r" by (cases r) auto
    then have act: "active (stat (tcbs k1 t))" using k1(3) by (auto simp: served_to_def)
    obtain k2 where k2: "rt_schedule k1 = Inr k2" "kernel_inv k2" "settled k2" "sched_frame k1 k2" "\<And>t. untouched k1 k2 t"
      using schedule_inv [OF calls_inv_sel(1) [OF k1(2)] act] by metis
    have ck2: "calls_inv k2"
      using k2(2) settled_runs [OF k2(3)] sched_frame_stat(6,9) [OF k2(4)] untouched_sel(3) [OF k2(5), of idle_thread]
        calls_inv_sel [OF k1(2)] by (simp add: calls_inv_def)
    have "served_to (suspend_thread e) k r k2"
      unfolding served_to_def
    proof (intro conjI ballI allI impI)
      show "links k2 (Wait (suspend_thread e)) = filter (\<lambda>t. t \<notin> fst ` set r) ?ts"
        using k1(3) sched_frame_stat(5) [OF k2(4)] by (simp add: served_to_def)
      show "case x of (t, g) \<Rightarrow> active (stat (tcbs k2 t)) \<and> error (tcbs k2 t) = error (tcbs k t) \<and> event_set (tcbs k2 t) = g \<and>
          \<not> activated (timers k2 (ThreadTimer t))" if "x \<in> set r" for x
        using k1(3) that untouched_sel(2,3,5,7) [OF k2(5), of "fst x"] by (cases x) (auto simp: served_to_def)
      show "untouched k k2 u" if "u \<notin> fst ` set r" for u
        using k1(3) that k2(5) [of u] untouched_trans by (auto simp: served_to_def)
    qed
    then show thesis using that k1(1) k2(1,3) ck2 False b by (simp add: rt_event_send_def)
  qed
  have "event_inv (e\<lparr>event_bits := b'\<rparr>) k'"
  proof (rule event_inv_frame [OF e k'(2,3)])
    show "set (waiting (e\<lparr>event_bits := b'\<rparr>) k') \<subseteq> set ?ts" using k'(4) by (auto simp: served_to_def)
    fix t assume t: "t \<in> set (waiting (e\<lparr>event_bits := b'\<rparr>) k')"
    then have tr: "t \<notin> fst ` set r" "t \<in> set ?ts" using k'(4) by (auto simp: served_to_def)
    show "untouched k k' t" using k'(4) tr by (simp add: served_to_def)
    have "wait_of k t \<in> set (map (wait_of k) ?ts)" using tr by simp
    then show "\<not> satisfied (event_bits (e\<lparr>event_bits := b'\<rparr>)) (event_set (tcbs k t)) (event_info (tcbs k t))"
      using serve_rest [of "map (wait_of k) ?ts" t "event_set (tcbs k t)" "event_info (tcbs k t)" "event_bits e OR bits"] r tr(1) ds
      by (simp add: wait_of_def comp_def)
  qed simp
  with k'(1,4) show thesis using that by blast
qed

lemma event_tick:
  assumes e: "event_inv e k"
  obtains k' where "rt_tick_increase own k = Some (Inr k')" "event_inv e k'"
    "\<And>t. expires k t \<Longrightarrow> timed_out k' t" "waiting e k' = filter (\<lambda>t. \<not> expires k t) (waiting e k)"
proof -
  obtain k' where k': "rt_tick_increase own k = Some (Inr k')" "calls_inv k'"
    "\<And>t. expires k t \<Longrightarrow> timed_out k' t" "\<And>t. \<not> expires k t \<Longrightarrow> untouched k k' t"
    "\<And>w. links k' (Wait w) = filter (\<lambda>t. \<not> expires k t) (links k (Wait w))" "settled k \<Longrightarrow> settled k'"
    using calls_inv_tick [OF event_inv_calls [OF e]] by metis
  have "event_inv e k'"
    by (rule event_inv_frame [OF e k'(2)]) (use e k'(4-6) in \<open>auto simp: event_inv_def\<close>)
  with k' show thesis using that by blast
qed

text \<open>The thread's own fields for the receive; it is in no list.\<close>

definition recv_kernel :: "nat \<Rightarrow> u32 \<Rightarrow> u8 \<Rightarrow> kernel \<Rightarrow> kernel" where
  "recv_kernel c s opt k = upd_tcb c (\<lambda>c. c\<lparr>event_set := s, event_info := opt\<rparr>) (set_error c RT_EOK k)"

lemma recv_kernel_ok:
  assumes k: "calls_inv k" and c: "rt_current_thread k = Some c" "stat (tcbs k c) = RT_THREAD_RUNNING"
  shows "calls_inv (recv_kernel c s opt k)" "rt_current_thread (recv_kernel c s opt k) = Some c"
    "stat (tcbs (recv_kernel c s opt k) c) = RT_THREAD_RUNNING" "links (recv_kernel c s opt k) = links k"
    "\<And>t. t \<noteq> c \<Longrightarrow> untouched k (recv_kernel c s opt k) t" "settled k \<Longrightarrow> settled (recv_kernel c s opt k)"
    "error (tcbs (recv_kernel c s opt k) c) = RT_EOK" "event_set (tcbs (recv_kernel c s opt k) c) = s"
    "event_info (tcbs (recv_kernel c s opt k) c) = opt"
    "\<And>t. current_priority (tcbs (recv_kernel c s opt k) t) = current_priority (tcbs k t)"
proof -
  show "calls_inv (recv_kernel c s opt k)"
    unfolding recv_kernel_def by (rule upd_fields_calls_inv [OF set_error_self(1) [OF k c]]) simp_all
qed (use c in \<open>auto simp: recv_kernel_def set_error_def untouched_def same_threads_def settled_def\<close>)

lemma event_recv_now:
  assumes e: "event_inv e k" and c: "rt_current_thread k = Some c" and o: "has_mode opt" and b: "bits \<noteq> 0"
    and s: "satisfied (event_bits e) bits opt"
  obtains e' k' where "rt_event_recv e bits opt timeout k = Inr (Returned RT_EOK, Some (event_bits e AND bits), e', k')"
    "event_inv e' k'" "event_bits e' = (if has_flag opt RT_EVENT_FLAG_CLEAR then event_bits e AND NOT bits else event_bits e)"
    "waiting e' k' = waiting e k" "suspend_thread e' = suspend_thread e"
proof -
  note ck = event_inv_calls [OF e]
  have r: "stat (tcbs k c) = RT_THREAD_RUNNING" using calls_inv_running [OF ck] c by auto
  define k' where "k' = recv_kernel c (event_bits e AND bits) opt k"
  define e' where "e' = (if has_flag opt RT_EVENT_FLAG_CLEAR then e\<lparr>event_bits := event_bits e AND NOT bits\<rparr> else e)"
  note f = recv_kernel_ok [OF ck c r, where s = "event_bits e AND bits" and opt = opt, folded k'_def]
  have "bits AND event_bits e = event_bits e AND bits" by (rule and.commute)
  then have run: "rt_event_recv e bits opt timeout k = Inr (Returned RT_EOK, Some (event_bits e AND bits), e', k')"
    using calls_inv_sel(6) [OF ck c] c o b s
    by (simp add: rt_event_recv_def rt_thread_self_def has_mode_def satisfied_def e'_def k'_def recv_kernel_def Let_def
        set_error_def split: if_splits)
  have nc: "c \<notin> set (waiting e k)" by (rule waiting_not_running [OF ck r])
  have "event_inv e' k'"
  proof (rule event_inv_frame [OF e f(1)])
    show "settled k'" using f(6) e by (simp add: event_inv_def)
    show "set (waiting e' k') \<subseteq> set (waiting e k)" by (simp add: e'_def f(4))
    fix t assume "t \<in> set (waiting e' k')"
    then have t: "t \<in> set (waiting e k)" by (simp add: e'_def f(4) split: if_splits)
    show "untouched k k' t" by (rule f(5)) (use t nc in auto)
    have "event_bits e' AND event_bits e = event_bits e'"
      by (simp add: e'_def) (metis and.assoc and.commute and.idem)
    then show "\<not> satisfied (event_bits e') (event_set (tcbs k t)) (event_info (tcbs k t))"
      using satisfied_mono e t unfolding event_inv_def by blast
  qed (simp add: e'_def)
  then show thesis using that [OF run] by (simp add: e'_def f(4))
qed

lemma event_recv_waits:
  assumes e: "event_inv e k" and c: "rt_current_thread k = Some c" "c \<noteq> idle_thread" and o: "has_mode opt" and b: "bits \<noteq> 0"
    and s: "\<not> satisfied (event_bits e) bits opt" and n: "legal_time timeout" "timeout \<noteq> 0"
  obtains k' where "rt_event_recv e bits opt timeout k = Inr (Switched, None, e, k')" "event_inv e k'"
    "set (waiting e k') = insert c (set (waiting e k))"
proof -
  note ck = event_inv_calls [OF e]
  have r: "stat (tcbs k c) = RT_THREAD_RUNNING" using calls_inv_running [OF ck] c by auto
  define k1 where "k1 = recv_kernel c bits opt k"
  note f = recv_kernel_ok [OF ck c(1) r, where s = bits and opt = opt, folded k1_def]
  have fl: "ipc_flag e = RT_IPC_FLAG_FIFO \<or> ipc_flag e = RT_IPC_FLAG_PRIO" using e by (simp add: event_inv_def)
  obtain k' where k': "ipc_wait (suspend_thread e) c (ipc_flag e) timeout k1 = Inr k'" "calls_inv k'" "settled k'"
    "waits_in (suspend_thread e) (joined (ipc_flag e) (\<lambda>u. current_priority (tcbs k1 u)) c (waiting e k1)) timeout c k1 k'"
    using wait_call_ok [OF f(1,2) c(2) f(3) fl n(1)] by metis
  have "bits AND event_bits e = event_bits e AND bits" by (rule and.commute)
  then have run: "rt_event_recv e bits opt timeout k = Inr (Switched, None, e, k')"
    using calls_inv_sel(6) [OF ck c(1)] c o b s n(2) k'(1)
    by (simp add: rt_event_recv_def rt_thread_self_def has_mode_def satisfied_def k1_def recv_kernel_def Let_def split: if_splits)
  have w: "set (waiting e k') = insert c (set (waiting e k))" using k'(4) f(4) by (simp add: waits_in_def)
  have "event_inv e k'"
    unfolding event_inv_def
  proof (intro conjI ballI)
    fix t assume t: "t \<in> set (waiting e k')"
    have "error (tcbs k' t) = RT_EOK \<and> has_mode (event_info (tcbs k' t)) \<and>
        \<not> satisfied (event_bits e) (event_set (tcbs k' t)) (event_info (tcbs k' t))"
    proof (cases "t = c")
      case True
      then show ?thesis using k'(4) f(7-9) o s by (simp add: waits_in_def)
    next
      case False
      then have "untouched k k' t" using f(5) [OF False] k'(4) untouched_trans by (auto simp: waits_in_def)
      then show ?thesis using False t w e untouched_sel(2,5,6) [of k k' t] by (simp add: event_inv_def)
    qed
    then show "error (tcbs k' t) = RT_EOK" "has_mode (event_info (tcbs k' t))"
      "\<not> satisfied (event_bits e) (event_set (tcbs k' t)) (event_info (tcbs k' t))" by simp_all
  qed (use k'(2,3) fl in simp_all)
  with run w show thesis using that by blast
qed

lemma event_recv_polls:
  assumes e: "event_inv e k" and c: "rt_current_thread k = Some c" and o: "has_mode opt" and b: "bits \<noteq> 0"
    and s: "\<not> satisfied (event_bits e) bits opt"
  shows "rt_event_recv e bits opt 0 k = Inr (Returned (- RT_ETIMEOUT), None, e, set_error c (- RT_ETIMEOUT) k)"
    and "event_inv e (set_error c (- RT_ETIMEOUT) k)"
proof -
  note ck = event_inv_calls [OF e]
  have r: "stat (tcbs k c) = RT_THREAD_RUNNING" using calls_inv_running [OF ck] c by auto
  have "bits AND event_bits e = event_bits e AND bits" by (rule and.commute)
  then show "rt_event_recv e bits opt 0 k = Inr (Returned (- RT_ETIMEOUT), None, e, set_error c (- RT_ETIMEOUT) k)"
    using calls_inv_sel(6) [OF ck c] c o b s
    by (simp add: rt_event_recv_def rt_thread_self_def has_mode_def satisfied_def Let_def set_error_def upd_tcb_def split: if_splits)
  note f = set_error_self [OF ck c r, where e = "- RT_ETIMEOUT"]
  have nc: "c \<notin> set (waiting e k)" by (rule waiting_not_running [OF ck r])
  show "event_inv e (set_error c (- RT_ETIMEOUT) k)"
  proof (rule event_inv_frame [OF e f(1)])
    show "settled (set_error c (- RT_ETIMEOUT) k)" using e f(6) by (simp add: event_inv_def)
    show "untouched k (set_error c (- RT_ETIMEOUT) k) t" if "t \<in> set (waiting e (set_error c (- RT_ETIMEOUT) k))" for t
      by (rule f(4)) (use that nc f(5) in auto)
  qed (use e f(5) in \<open>auto simp: event_inv_def\<close>)
qed

section \<open>Runs of an event set\<close>

datatype event_input = Event_send u32 | Event_recv u32 u8 int | Event_tick

text \<open>Calls of whatever thread runs (the idle thread makes none) and ticks, in any order.\<close>

definition event_step ::
    "(nat \<Rightarrow> kernel \<Rightarrow> fault + kernel) \<Rightarrow> (fault + event \<times> kernel) option \<Rightarrow> event_input \<Rightarrow> (fault + event \<times> kernel) option" where
  "event_step own st i = bind_opt st (\<lambda>(e, k).
     case i of
       Event_send bits \<Rightarrow> Some (bind_err (rt_event_send e bits k) (\<lambda>(_, e, k). Inr (e, k)))
     | Event_recv bits opt timeout \<Rightarrow>
         if rt_current_thread k = Some idle_thread then Some (Inr (e, k))
         else Some (bind_err (rt_event_recv e bits opt timeout k) (\<lambda>(_, _, e, k). Inr (e, k)))
     | Event_tick \<Rightarrow> bind_opt (rt_tick_increase own k) (\<lambda>k. Some (Inr (e, k))))"

definition legal_event_input :: "event_input \<Rightarrow> bool" where
  "legal_event_input i \<longleftrightarrow> (case i of Event_recv _ opt timeout \<Rightarrow> has_mode opt \<and> legal_time timeout | _ \<Rightarrow> True)"

definition event_run_inv :: "(fault + event \<times> kernel) option \<Rightarrow> bool" where
  "event_run_inv st \<longleftrightarrow> (\<exists>e k. st = Some (Inr (e, k)) \<and> event_inv e k)"

lemma event_step_inv:
  assumes "event_run_inv st" and i: "legal_event_input i"
  shows "event_run_inv (event_step own st i)"
proof -
  obtain e k where st: "st = Some (Inr (e, k))" and e: "event_inv e k" using assms(1) by (auto simp: event_run_inv_def)
  obtain c where c: "rt_current_thread k = Some c" using calls_inv_running [OF event_inv_calls [OF e]] by blast
  show ?thesis
  proof (cases i)
    case (Event_send bits)
    obtain b' r where s: "serve (event_bits e OR bits) (map (wait_of k) (waiting e k)) = (b', r)" by fastforce
    show ?thesis
    proof (cases "bits = 0")
      case True
      then show ?thesis using e Event_send by (simp add: st event_step_def rt_event_send_def event_run_inv_def)
    next
      case False
      obtain k' where "rt_event_send e bits k = Inr (RT_EOK, e\<lparr>event_bits := b'\<rparr>, k')" "event_inv (e\<lparr>event_bits := b'\<rparr>) k'"
        using event_send_ok [OF e False s] by metis
      then show ?thesis using Event_send by (simp add: st event_step_def event_run_inv_def)
    qed
  next
    case (Event_recv bits opt timeout)
    have o: "has_mode opt" and n: "legal_time timeout" using i Event_recv by (simp_all add: legal_event_input_def)
    consider (idle) "c = idle_thread" | (none) "c \<noteq> idle_thread" "bits = 0"
      | (now) "c \<noteq> idle_thread" "bits \<noteq> 0" "satisfied (event_bits e) bits opt"
      | (poll) "c \<noteq> idle_thread" "bits \<noteq> 0" "\<not> satisfied (event_bits e) bits opt" "timeout = 0"
      | (wait) "c \<noteq> idle_thread" "bits \<noteq> 0" "\<not> satisfied (event_bits e) bits opt" "timeout \<noteq> 0" by blast
    then show ?thesis
    proof cases
      case idle
      then show ?thesis using e c Event_recv by (simp add: st event_step_def event_run_inv_def)
    next
      case none
      then show ?thesis
        using e c Event_recv calls_inv_sel(6) [OF event_inv_calls [OF e] c]
        by (simp add: st event_step_def rt_event_recv_def event_run_inv_def)
    next
      case now
      obtain e' k' where "rt_event_recv e bits opt timeout k = Inr (Returned RT_EOK, Some (event_bits e AND bits), e', k')"
        "event_inv e' k'" using event_recv_now [OF e c o now(2,3)] by metis
      then show ?thesis using now(1) c Event_recv by (simp add: st event_step_def event_run_inv_def)
    next
      case poll
      then show ?thesis using event_recv_polls [OF e c o poll(2,3)] c Event_recv by (simp add: st event_step_def event_run_inv_def)
    next
      case wait
      obtain k' where "rt_event_recv e bits opt timeout k = Inr (Switched, None, e, k')" "event_inv e k'"
        using event_recv_waits [OF e c wait(1) o wait(2,3) n wait(4)] by metis
      then show ?thesis using wait(1) c Event_recv by (simp add: st event_step_def event_run_inv_def)
    qed
  next
    case Event_tick
    obtain k' where "rt_tick_increase own k = Some (Inr k')" "event_inv e k'" using event_tick [OF e] by metis
    then show ?thesis using Event_tick by (simp add: st event_step_def event_run_inv_def)
  qed
qed

interpretation event_system: guarded_system "Some (Inr (e, k))" "event_step own" legal_event_input
  "\<lambda>st. event_inv e k \<longrightarrow> event_run_inv st" for own e k
  by unfold_locales (auto simp: event_run_inv_def intro: event_step_inv [unfolded event_run_inv_def])

section \<open>Properties\<close>

definition demo_event :: event where
  "demo_event = \<lparr>suspend_thread = 7, ipc_flag = RT_IPC_FLAG_FIFO, ipc_systemobject = True, event_bits = 1\<rparr>"

text \<open>Thread 3 waits for both of the bits 1 and 2 and will clear them.\<close>

definition demo_event_kernel :: kernel where
  "demo_event_kernel = upd_tcb 3 (\<lambda>c. c\<lparr>event_set := 3, event_info := 5\<rparr>) demo_wait"

lemma demo_event_inv: "event_inv demo_event demo_event_kernel"
proof -
  have k: "calls_inv demo_event_kernel"
    unfolding demo_event_kernel_def by (rule upd_fields_calls_inv [OF demo_wait_calls_inv]) simp_all
  have w: "waiting demo_event demo_event_kernel = [3]"
    by (simp add: demo_event_def demo_event_kernel_def demo_wait_def)
  have t: "error (tcbs demo_event_kernel 3) = RT_EOK" "event_info (tcbs demo_event_kernel 3) = 5"
    "event_set (tcbs demo_event_kernel 3) = 3"
    by (simp_all add: demo_event_kernel_def demo_wait_def demo_tcb_def RT_EOK_def)
  have s: "settled demo_event_kernel"
    by (auto simp: settled_def demo_event_kernel_def demo_wait_def demo_def demo_tcb_def idle_thread_def)
  show ?thesis
    using k s t unfolding event_inv_def w
    by (simp add: demo_event_def has_mode_def has_flag_def event_flag_defs satisfied_def)
qed

text \<open>
  C14. A send implements its specification \<open>serve\<close>: the bits are added, the waiting threads are
  visited in their order, each whose condition holds leaves the list, can run with its timer stopped,
  and its call returns \<open>RT_EOK\<close> with the bits it was served, which it has taken away if it asked for that;
  the other threads are as they were.
\<close>

theorem event_send_serves:
  assumes "event_inv e k" and "bits \<noteq> 0"
    and "serve (event_bits e OR bits) (map (wait_of k) (waiting e k)) = (b', r)"
  shows "\<exists>k'. rt_event_send e bits k = Inr (RT_EOK, e\<lparr>event_bits := b'\<rparr>, k') \<and> settled k' \<and>
     waiting e k' = filter (\<lambda>t. t \<notin> fst ` set r) (waiting e k) \<and>
     (\<forall>(t, g) \<in> set r. active (stat (tcbs k' t)) \<and> rt_event_recv_wake t k' = (RT_EOK, Some g) \<and>
        \<not> activated (timers k' (ThreadTimer t))) \<and>
     (\<forall>t. t \<notin> fst ` set r \<longrightarrow> untouched k k' t)"
proof -
  obtain k' where k': "rt_event_send e bits k = Inr (RT_EOK, e\<lparr>event_bits := b'\<rparr>, k')"
    "event_inv (e\<lparr>event_bits := b'\<rparr>) k'" "served_to (suspend_thread e) k r k'"
    using event_send_ok [OF assms] by blast
  have "rt_event_recv_wake t k' = (RT_EOK, Some g)" if tg: "(t, g) \<in> set r" for t g
  proof -
    have "fst ` set r \<subseteq> fst ` set (map (wait_of k) (waiting e k))"
      using serve_subset [of "event_bits e OR bits" "map (wait_of k) (waiting e k)"] assms(3) by simp
    then have "t \<in> set (waiting e k)" using tg by (force simp: wait_of_def)
    then have "error (tcbs k t) = RT_EOK" using assms(1) by (simp add: event_inv_def)
    then show ?thesis using k'(3) tg by (auto simp: served_to_def rt_event_recv_wake_def)
  qed
  then show ?thesis using k' by (intro exI [of _ k']) (auto simp: served_to_def event_inv_def)
qed

theorem event_send_serves_witness:
  "\<exists>k'. rt_event_send demo_event 2 demo_event_kernel = Inr (RT_EOK, demo_event\<lparr>event_bits := 0\<rparr>, k') \<and>
     rt_event_recv_wake 3 k' = (RT_EOK, Some 3)"
proof -
  have w: "map (wait_of demo_event_kernel) (waiting demo_event demo_event_kernel) = [(3, 3, 5)]"
    by (simp add: demo_event_def demo_event_kernel_def demo_wait_def wait_of_def)
  have s: "serve (event_bits demo_event OR 2) (map (wait_of demo_event_kernel) (waiting demo_event demo_event_kernel)) =
      (0, [(3, 3)])"
    unfolding w by (simp add: demo_event_def satisfied_def received_def remaining_def has_flag_def event_flag_defs)
  show ?thesis using event_send_serves [OF demo_event_inv _ s] by auto
qed

text \<open>
  Every run of sends, receives and ticks on an event set, from any consistent state: nothing
  faults and every call ends, the most urgent thread runs, and no thread is left waiting for a
  condition that the set fulfils: no wake-up is lost.
\<close>

theorem event_runs:
  assumes "event_inv e k" and "list_all legal_event_input is"
  shows "\<exists>e' k'. run_steps (event_step own) (Some (Inr (e, k))) is = Some (Inr (e', k')) \<and> calls_inv k' \<and> settled k' \<and>
     (\<forall>t \<in> set (waiting e' k'). \<not> satisfied (event_bits e') (event_set (tcbs k' t)) (event_info (tcbs k' t)))"
  using event_system.inv_run [OF assms(2), of e k own] assms(1) by (auto simp: event_run_inv_def event_inv_def)

theorem event_runs_witness:
  "\<exists>e' k'. run_steps (event_step (\<lambda>_. Inr)) (Some (Inr (demo_event, demo_event_kernel)))
     [Event_recv 4 2 5, Event_tick, Event_send 6] = Some (Inr (e', k')) \<and> settled k'"
proof -
  have "list_all legal_event_input [Event_recv 4 2 5, Event_tick, Event_send 6]"
    by (simp add: legal_event_input_def legal_time_def has_mode_def has_flag_def event_flag_defs)
  from event_runs [OF demo_event_inv this, of "\<lambda>_. Inr"] show ?thesis by blast
qed

end
