(* ===== verification/Waiters.thy ===== *)
theory Waiters
  imports Ipc
begin

text \<open>
  What the mailbox and the message queue share: the tail that wakes the first waiting thread, the time
  left to a woken call, and the account of the threads on one side of a queue. A call that has waited
  is pending until its thread has run again; a woken thread takes its turn only then, so a waiting
  list may stay occupied while there are items, but not more of them than woken threads.
\<close>

text \<open>The tail of every call: wake the first thread of a list, if there is one, and schedule.\<close>

definition wake_first :: "nat \<Rightarrow> kernel \<Rightarrow> fault + kernel" where
  "wake_first w k =
     (if links k (Wait w) \<noteq> [] then bind_err (ipc_list_resume w k) rt_schedule else Inr k)"

text \<open>The time left after a wait; the subtraction is done on 32 bits.\<close>

definition time_left :: "int \<Rightarrow> u32 \<Rightarrow> u32 \<Rightarrow> int" where
  "time_left timeout start now =
     (if timeout > 0 then
        (let left = sint (of_int timeout - (now - start) :: u32) in if left < 0 then 0 else left)
      else timeout)"

lemma time_left_ok:
  assumes "legal_time timeout" and "unat (now - start) < 2 ^ 31"
  shows "legal_time (time_left timeout start now)"
proof (cases "timeout > 0")
  case True
  define x where "x = now - start"
  define d where "d = uint x"
  have "int (unat x) < int (2 ^ 31)" using assms(2) unfolding x_def [symmetric] by (simp only: of_nat_less_iff)
  then have d: "0 \<le> d" "d < 2 ^ 31" unfolding d_def uint_nat by simp_all
  have r: "- (2 ^ 31) \<le> timeout - d" "timeout - d < 2 ^ 31 - 1"
    using True d assms(1) by (simp_all add: legal_time_def)
  have "x = of_int d" by (simp add: d_def)
  then have "of_int timeout - x = (of_int (timeout - d) :: u32)" by (simp only: of_int_diff)
  then have "sint (of_int timeout - x) = signed_take_bit 31 (timeout - d)" by (simp only: signed_of_int) simp
  also have "\<dots> = timeout - d" using r by (intro signed_take_bit_int_eq_self) simp_all
  finally have l: "sint (of_int timeout - (now - start) :: u32) = timeout - d" unfolding x_def .
  show ?thesis using r True unfolding time_left_def l by (simp add: Let_def legal_time_def)
next
  case False
  then show ?thesis using assms(1) by (simp add: time_left_def)
qed

section \<open>One side of a queue\<close>

text \<open>The threads with a pending call that have been woken for it and have not run yet.\<close>

definition woken_set :: "nat \<Rightarrow> (nat \<Rightarrow> bool) \<Rightarrow> kernel \<Rightarrow> nat set" where
  "woken_set w P k = {t. P t \<and> t \<notin> set (links k (Wait w)) \<and> error (tcbs k t) = RT_EOK}"

text \<open>
  \<open>P\<close>: the threads with a pending call of this side; \<open>n\<close>: the items (or free places) they could use.
\<close>

definition side_inv :: "nat \<Rightarrow> (nat \<Rightarrow> bool) \<Rightarrow> nat \<Rightarrow> kernel \<Rightarrow> bool" where
  "side_inv w P n k \<longleftrightarrow> finite {t. P t} \<and>
     (\<forall>t \<in> set (links k (Wait w)). P t \<and> error (tcbs k t) = RT_EOK) \<and>
     (\<forall>t. P t \<longrightarrow> t \<noteq> idle_thread \<and> (t \<in> set (links k (Wait w)) \<or> active (stat (tcbs k t)))) \<and>
     (links k (Wait w) \<noteq> [] \<longrightarrow> n \<le> card (woken_set w P k))"

lemma finite_woken: "side_inv w P n k \<Longrightarrow> finite (woken_set w P k)"
  unfolding side_inv_def woken_set_def by (auto elim: rev_finite_subset)

lemma side_inv_mono: "side_inv w P n k \<Longrightarrow> m \<le> n \<Longrightarrow> side_inv w P m k"
  by (auto simp: side_inv_def)

lemma side_inv_frame:
  assumes s: "side_inv w P n k" and l: "links k' (Wait w) = links k (Wait w)" and u: "\<And>t. P t \<Longrightarrow> untouched k k' t"
  shows "side_inv w P n k'"
proof -
  have e: "error (tcbs k' t) = error (tcbs k t)" "active (stat (tcbs k' t)) = active (stat (tcbs k t))" if "P t" for t
    using untouched_sel(2,3) [OF u [OF that]] by simp_all
  have "woken_set w P k' = woken_set w P k" using l e by (auto simp: woken_set_def)
  then show ?thesis using s l e unfolding side_inv_def by auto
qed

lemma side_inv_other:
  assumes "side_inv w P n k" and "links k' (Wait w) = links k (Wait w)" and "\<not> P c"
    and "\<And>t. t \<noteq> c \<Longrightarrow> untouched k k' t"
  shows "side_inv w P n k'"
  by (rule side_inv_frame [OF assms(1,2)], rule assms(4)) (use assms(3) in auto)

lemma side_inv_join:
  assumes s: "side_inv w P n k" and l: "set (links k' (Wait w)) = insert c (set (links k (Wait w)))"
    and u: "\<And>t. P t \<Longrightarrow> t \<noteq> c \<Longrightarrow> untouched k k' t" and c: "error (tcbs k' c) = RT_EOK" "c \<noteq> idle_thread"
  shows "side_inv w (\<lambda>t. t = c \<or> P t) 0 k'"
  unfolding side_inv_def
proof (intro conjI ballI allI impI)
  show "finite {t. t = c \<or> P t}" using s by (simp add: side_inv_def)
  fix t assume t: "t \<in> set (links k' (Wait w))"
  then show "t = c \<or> P t" using l s by (auto simp: side_inv_def)
  show "error (tcbs k' t) = RT_EOK"
  proof (cases "t = c")
    case False
    then have "P t" "error (tcbs k t) = RT_EOK" using t l s by (auto simp: side_inv_def)
    then show ?thesis using untouched_sel(2) [OF u [OF _ False]] by simp
  qed (simp add: c)
next
  fix t assume t: "t = c \<or> P t"
  then show "t \<noteq> idle_thread" using s c by (auto simp: side_inv_def)
  show "t \<in> set (links k' (Wait w)) \<or> active (stat (tcbs k' t))"
  proof (cases "t = c")
    case False
    then have "t \<in> set (links k (Wait w)) \<or> active (stat (tcbs k t))" using t s by (auto simp: side_inv_def)
    then show ?thesis using untouched_sel(3) [OF u [OF _ False]] t False l by auto
  qed (simp add: l)
qed simp

lemma side_inv_wake:
  assumes s: "side_inv w P n k" and l: "links k (Wait w) = t # ts" "links k' (Wait w) = ts" "t \<notin> set ts"
    and t: "active (stat (tcbs k' t))" "error (tcbs k' t) = error (tcbs k t)"
    and u: "\<And>u. P u \<Longrightarrow> u \<noteq> t \<Longrightarrow> untouched k k' u"
  shows "side_inv w P (Suc n) k'"
proof -
  have pt: "P t" "error (tcbs k t) = RT_EOK" using s l(1) by (auto simp: side_inv_def)
  have e: "error (tcbs k' x) = error (tcbs k x)" "active (stat (tcbs k' x)) = active (stat (tcbs k x))" if "P x" "x \<noteq> t" for x
    using untouched_sel(2,3) [OF u [OF that]] by simp_all
  have w: "woken_set w P k' = insert t (woken_set w P k)"
    using l pt t e by (auto simp: woken_set_def)
  have "t \<notin> woken_set w P k" using l(1) by (simp add: woken_set_def)
  then have "card (woken_set w P k') = Suc (card (woken_set w P k))" unfolding w using finite_woken [OF s] by simp
  moreover have "error (tcbs k' x) = RT_EOK" if "x \<in> set ts" for x
    using that s l e [of x] by (auto simp: side_inv_def)
  moreover have "x \<in> set ts \<or> active (stat (tcbs k' x))" if "P x" for x
    using that s l t(1) e(2) [of x] by (cases "x = t") (auto simp: side_inv_def)
  ultimately show ?thesis using s l unfolding side_inv_def by auto
qed

text \<open>A running thread finishes its call: with \<open>RT_EOK\<close> it has used at most one item.\<close>

lemma side_inv_done:
  assumes s: "side_inv w P n k" and c: "c \<notin> set (links k (Wait w))"
  shows "side_inv w (\<lambda>t. P t \<and> t \<noteq> c) (n - 1) k"
    and "error (tcbs k c) \<noteq> RT_EOK \<or> \<not> P c \<Longrightarrow> side_inv w (\<lambda>t. P t \<and> t \<noteq> c) n k"
proof -
  have w: "woken_set w (\<lambda>t. P t \<and> t \<noteq> c) k = woken_set w P k - {c}" by (auto simp: woken_set_def)
  have f: "finite {t. P t \<and> t \<noteq> c}" using s by (auto simp: side_inv_def)
  have "card (woken_set w P k) - 1 \<le> card (woken_set w P k - {c})"
    using diff_card_le_card_Diff [of "{c}" "woken_set w P k"] by simp
  then show "side_inv w (\<lambda>t. P t \<and> t \<noteq> c) (n - 1) k"
    using s c f unfolding side_inv_def w by auto
  show "side_inv w (\<lambda>t. P t \<and> t \<noteq> c) n k" if "error (tcbs k c) \<noteq> RT_EOK \<or> \<not> P c"
  proof -
    have "c \<notin> woken_set w P k" using that by (auto simp: woken_set_def)
    then have "woken_set w P k - {c} = woken_set w P k" by simp
    then show ?thesis using s c f unfolding side_inv_def w by auto
  qed
qed

lemma side_inv_empty: "side_inv w P n k \<Longrightarrow> links k (Wait w) = [] \<Longrightarrow> side_inv w P m k"
  by (auto simp: side_inv_def)

lemma side_inv_tick:
  assumes s: "side_inv w P n k" and k: "kernel_inv k"
    and l: "links k' (Wait w) = filter (\<lambda>t. \<not> expires k t) (links k (Wait w))"
    and e: "\<And>t. expires k t \<Longrightarrow> timed_out k' t" and u: "\<And>t. \<not> expires k t \<Longrightarrow> untouched k k' t"
  shows "side_inv w P n k'"
proof -
  have out: "error (tcbs k' t) \<noteq> RT_EOK" "active (stat (tcbs k' t))" if "expires k t" for t
    using e [OF that] by (simp_all add: timed_out_def err_defs)
  have same: "error (tcbs k' t) = error (tcbs k t)" "active (stat (tcbs k' t)) = active (stat (tcbs k t))"
    if "\<not> expires k t" for t using untouched_sel(2,3) [OF u [OF that]] by simp_all
  have w: "t \<in> set (links k (Wait w))" if "expires k t" "P t" for t
  proof -
    have "stat (tcbs k t) = RT_THREAD_SUSPEND"
      using that(1) timers_inv_suspended [OF kernel_inv_parts(3) [OF k], of t] by (simp add: expires_def)
    then show ?thesis using s that(2) by (auto simp: side_inv_def active_def)
  qed
  have "woken_set w P k' = woken_set w P k"
  proof (rule set_eqI)
    fix t show "t \<in> woken_set w P k' \<longleftrightarrow> t \<in> woken_set w P k"
      using out(1) [of t] same(1) [of t] w [of t] l by (cases "expires k t") (auto simp: woken_set_def)
  qed
  moreover have "t \<in> set (links k' (Wait w)) \<or> active (stat (tcbs k' t))" if "P t" for t
    using s that out(2) [of t] same(2) [of t] l by (cases "expires k t") (auto simp: side_inv_def)
  moreover have "error (tcbs k' t) = RT_EOK" if "t \<in> set (links k' (Wait w))" for t
    using s that same(1) [of t] l by (auto simp: side_inv_def)
  moreover have "links k' (Wait w) \<noteq> [] \<Longrightarrow> links k (Wait w) \<noteq> []" using l by auto
  ultimately show ?thesis using s l unfolding side_inv_def by auto
qed

text \<open>Waking the first waiting thread.\<close>

lemma wake_first_ok:
  assumes k: "calls_inv k" "settled k"
  obtains k' where "wake_first w k = Inr k'" "calls_inv k'" "settled k'" "rt_tick k' = rt_tick k"
    "\<And>v. v \<noteq> w \<Longrightarrow> links k' (Wait v) = links k (Wait v)"
    "\<And>P n. side_inv w P n k \<Longrightarrow> side_inv w P (Suc n) k'"
    "\<And>u. u \<notin> set (links k (Wait w)) \<Longrightarrow> untouched k k' u"
proof (cases "links k (Wait w)")
  case Nil
  then show thesis using that [of k] k side_inv_empty by (simp add: wake_first_def)
next
  case (Cons t ts)
  obtain k' where k': "bind_err (ipc_list_resume w k) rt_schedule = Inr k'" "calls_inv k'" "links k' (Wait w) = ts"
    "\<And>v. v \<noteq> w \<Longrightarrow> links k' (Wait v) = links k (Wait v)" "\<And>u. u \<noteq> t \<Longrightarrow> untouched k k' u"
    "active (stat (tcbs k' t))" "error (tcbs k' t) = error (tcbs k t)" "rt_tick k' = rt_tick k" "settled k'"
    using resume_schedule_ok [OF k(1) Cons] by metis
  have d: "t \<notin> set ts" using waiting_distinct [OF calls_inv_sel(1) [OF k(1)], of w] Cons by simp
  have "side_inv w P (Suc n) k'" if "side_inv w P n k" for P n
    by (rule side_inv_wake [OF that Cons k'(3) d k'(6,7)]) (rule k'(5))
  moreover have "wake_first w k = Inr k'" using k'(1) Cons by (simp add: wake_first_def)
  ultimately show thesis using that k' Cons by auto
qed

text \<open>What a call that waits does to the two sides.\<close>

lemma waits_in_sel:
  assumes "waits_in w us time c k k'"
  shows "links k' (Wait w) = us" "\<And>v. v \<noteq> w \<Longrightarrow> links k' (Wait v) = links k (Wait v)" "rt_tick k' = rt_tick k"
    "error (tcbs k' c) = error (tcbs k c)" "\<And>t. t \<noteq> c \<Longrightarrow> untouched k k' t"
  using assms by (simp_all add: waits_in_def)

section \<open>Pending calls on both sides\<close>

text \<open>A call that waits, with its local variables.\<close>

datatype 'v pcall = Send_call 'v int u32 | Recv_call int u32

fun call_time :: "'v pcall \<Rightarrow> int" where
  "call_time (Send_call v n s) = n"
| "call_time (Recv_call n s) = n"

fun call_start :: "'v pcall \<Rightarrow> u32" where
  "call_start (Send_call v n s) = s"
| "call_start (Recv_call n s) = s"

definition is_send :: "(nat \<Rightarrow> 'v pcall option) \<Rightarrow> nat \<Rightarrow> bool" where
  "is_send pend t \<longleftrightarrow> (case pend t of Some (Send_call v n s) \<Rightarrow> True | _ \<Rightarrow> False)"

definition is_recv :: "(nat \<Rightarrow> 'v pcall option) \<Rightarrow> nat \<Rightarrow> bool" where
  "is_recv pend t \<longleftrightarrow> (case pend t of Some (Recv_call n s) \<Rightarrow> True | _ \<Rightarrow> False)"

lemma pend_upd:
  "is_send (pend(c := None)) = (\<lambda>t. is_send pend t \<and> t \<noteq> c)" "is_recv (pend(c := None)) = (\<lambda>t. is_recv pend t \<and> t \<noteq> c)"
  "pend c = None \<Longrightarrow> is_send (pend(c := Some (Send_call v n s))) = (\<lambda>t. t = c \<or> is_send pend t)"
  "pend c = None \<Longrightarrow> is_recv (pend(c := Some (Send_call v n s))) = is_recv pend"
  "pend c = None \<Longrightarrow> is_recv (pend(c := Some (Recv_call n s))) = (\<lambda>t. t = c \<or> is_recv pend t)"
  "pend c = None \<Longrightarrow> is_send (pend(c := Some (Recv_call n s))) = is_send pend"
  by (auto simp: is_send_def is_recv_def fun_eq_iff)

lemma no_pend [simp]: "is_send (\<lambda>_. None) = (\<lambda>_. False)" "is_recv (\<lambda>_. None) = (\<lambda>_. False)"
  by (auto simp: is_send_def is_recv_def)

lemma pend_one: "is_send pend t \<Longrightarrow> \<not> is_recv pend t"
  by (auto simp: is_send_def is_recv_def split: option.splits pcall.splits)

text \<open>
  Receivers wait in the list \<open>w\<close>, senders in \<open>v\<close>; \<open>a\<close> items and \<open>b\<close> free places are accounted for; \<open>n\<close>
  bounds the ticks since a pending call began to wait.
\<close>

definition queue_state :: "nat \<Rightarrow> nat \<Rightarrow> u8 \<Rightarrow> nat \<Rightarrow> nat \<Rightarrow> nat \<Rightarrow> kernel \<Rightarrow> (nat \<Rightarrow> 'v pcall option) \<Rightarrow> bool" where
  "queue_state w v f a b n k pend \<longleftrightarrow> calls_inv k \<and> settled k \<and>
     (f = RT_IPC_FLAG_FIFO \<or> f = RT_IPC_FLAG_PRIO) \<and> w \<noteq> v \<and>
     side_inv w (is_recv pend) a k \<and> side_inv v (is_send pend) b k \<and>
     (\<forall>t p. pend t = Some p \<longrightarrow> legal_time (call_time p) \<and> unat (rt_tick k - call_start p) \<le> n)"

lemma queue_state_sel:
  assumes "queue_state w v f a b n k pend"
  shows "calls_inv k" "settled k" "f = RT_IPC_FLAG_FIFO \<or> f = RT_IPC_FLAG_PRIO" "w \<noteq> v"
    "side_inv w (is_recv pend) a k" "side_inv v (is_send pend) b k"
    "pend t = Some p \<Longrightarrow> legal_time (call_time p) \<and> unat (rt_tick k - call_start p) \<le> n"
  using assms by (auto simp: queue_state_def)

text \<open>The running thread changes its own error.\<close>

lemma queue_state_set_error:
  assumes s: "queue_state w v f a b n k pend" and c: "rt_current_thread k = Some c" "stat (tcbs k c) = RT_THREAD_RUNNING" "pend c = None"
  shows "queue_state w v f a b n (set_error c e k) pend"
proof -
  note d = queue_state_sel [OF s]
  note g = set_error_self [OF d(1) c(1,2), where e = e]
  have nc: "\<not> is_recv pend c" "\<not> is_send pend c" using c(3) by (simp_all add: is_recv_def is_send_def)
  have "side_inv w (is_recv pend) a (set_error c e k)"
    by (rule side_inv_frame [OF d(5)], simp add: g(5), rule g(4)) (use nc in blast)
  moreover have "side_inv v (is_send pend) b (set_error c e k)"
    by (rule side_inv_frame [OF d(6)], simp add: g(5), rule g(4)) (use nc in blast)
  ultimately show ?thesis using s g(1,6) unfolding queue_state_def by (simp add: set_error_def)
qed

lemma queue_state_less: "queue_state w v f a b n k pend \<Longrightarrow> a' \<le> a \<Longrightarrow> b' \<le> b \<Longrightarrow> queue_state w v f a' b' n k pend"
  using side_inv_mono by (auto simp: queue_state_def)

text \<open>Waiting on one of the two lists.\<close>

lemma recv_waits:
  assumes s: "queue_state w v f a b n k pend" and c: "rt_current_thread k = Some c" "c \<noteq> idle_thread" "pend c = None"
    and time: "legal_time time"
  obtains k' where "ipc_wait w c f time (set_error c RT_EOK k) = Inr k'"
    "queue_state w v f 0 b n k' (pend(c := Some (Recv_call time (rt_tick k))))"
proof -
  have r: "stat (tcbs k c) = RT_THREAD_RUNNING" using calls_inv_running [OF queue_state_sel(1) [OF s]] c(1) by auto
  define k1 where "k1 = set_error c RT_EOK k"
  note d = queue_state_sel [OF queue_state_set_error [OF s c(1) r c(3), of RT_EOK, folded k1_def]]
  have c1: "rt_current_thread k1 = Some c" "stat (tcbs k1 c) = RT_THREAD_RUNNING" "error (tcbs k1 c) = RT_EOK" "rt_tick k1 = rt_tick k"
    using c r by (simp_all add: k1_def set_error_def)
  obtain k' where k': "ipc_wait w c f time k1 = Inr k'" "calls_inv k'" "settled k'"
    "waits_in w (joined f (\<lambda>u. current_priority (tcbs k1 u)) c (links k1 (Wait w))) time c k1 k'"
    using wait_call_ok [OF d(1) c1(1) c(2) c1(2) d(3) time] by metis
  note w = waits_in_sel [OF k'(4)]
  have nc: "\<not> is_recv pend c" "\<not> is_send pend c" using c(3) by (simp_all add: is_recv_def is_send_def)
  have e: "error (tcbs k' c) = RT_EOK" using w(4) c1(3) by simp
  have j: "set (links k' (Wait w)) = insert c (set (links k1 (Wait w)))" using w(1) by simp
  have "side_inv w (is_recv (pend(c := Some (Recv_call time (rt_tick k))))) 0 k'"
    unfolding pend_upd(5) [where pend = pend, OF c(3)] by (rule side_inv_join [OF d(5) j _ e c(2)]) (rule w(5))
  moreover have "side_inv v (is_send (pend(c := Some (Recv_call time (rt_tick k))))) b k'"
    unfolding pend_upd(6) [where pend = pend, OF c(3)]
    by (rule side_inv_other [OF d(6) _ nc(2) w(5)]) (use w(2) d(4) in auto)
  moreover have "legal_time (call_time p) \<and> unat (rt_tick k' - call_start p) \<le> n"
    if "(pend(c := Some (Recv_call time (rt_tick k)))) t = Some p" for t p
    using that d(7) [of t p] time w(3) c1(4) by (auto split: if_splits)
  ultimately have "queue_state w v f 0 b n k' (pend(c := Some (Recv_call time (rt_tick k))))"
    using k'(2,3) d(3,4) by (simp add: queue_state_def)
  then show thesis using that k'(1) by (simp add: k1_def)
qed

lemma send_waits:
  assumes s: "queue_state w v f a b n k pend" and c: "rt_current_thread k = Some c" "c \<noteq> idle_thread" "pend c = None"
    and time: "legal_time time"
  obtains k' where "ipc_wait v c f time (set_error c RT_EOK k) = Inr k'"
    "queue_state w v f a 0 n k' (pend(c := Some (Send_call x time (rt_tick k))))"
proof -
  have r: "stat (tcbs k c) = RT_THREAD_RUNNING" using calls_inv_running [OF queue_state_sel(1) [OF s]] c(1) by auto
  define k1 where "k1 = set_error c RT_EOK k"
  note d = queue_state_sel [OF queue_state_set_error [OF s c(1) r c(3), of RT_EOK, folded k1_def]]
  have c1: "rt_current_thread k1 = Some c" "stat (tcbs k1 c) = RT_THREAD_RUNNING" "error (tcbs k1 c) = RT_EOK" "rt_tick k1 = rt_tick k"
    using c r by (simp_all add: k1_def set_error_def)
  obtain k' where k': "ipc_wait v c f time k1 = Inr k'" "calls_inv k'" "settled k'"
    "waits_in v (joined f (\<lambda>u. current_priority (tcbs k1 u)) c (links k1 (Wait v))) time c k1 k'"
    using wait_call_ok [OF d(1) c1(1) c(2) c1(2) d(3) time] by metis
  note w = waits_in_sel [OF k'(4)]
  have nc: "\<not> is_recv pend c" "\<not> is_send pend c" using c(3) by (simp_all add: is_recv_def is_send_def)
  have e: "error (tcbs k' c) = RT_EOK" using w(4) c1(3) by simp
  have j: "set (links k' (Wait v)) = insert c (set (links k1 (Wait v)))" using w(1) by simp
  have "side_inv v (is_send (pend(c := Some (Send_call x time (rt_tick k))))) 0 k'"
    unfolding pend_upd(3) [where pend = pend, OF c(3)] by (rule side_inv_join [OF d(6) j _ e c(2)]) (rule w(5))
  moreover have "side_inv w (is_recv (pend(c := Some (Send_call x time (rt_tick k))))) a k'"
    unfolding pend_upd(4) [where pend = pend, OF c(3)]
    by (rule side_inv_other [OF d(5) _ nc(1) w(5)]) (use w(2) d(4) in auto)
  moreover have "legal_time (call_time p) \<and> unat (rt_tick k' - call_start p) \<le> n"
    if "(pend(c := Some (Send_call x time (rt_tick k)))) t = Some p" for t p
    using that d(7) [of t p] time w(3) c1(4) by (auto split: if_splits)
  ultimately have "queue_state w v f a 0 n k' (pend(c := Some (Send_call x time (rt_tick k))))"
    using k'(2,3) d(3,4) by (simp add: queue_state_def)
  then show thesis using that k'(1) by (simp add: k1_def)
qed

text \<open>Waking the first thread of the other side after an item was stored or taken.\<close>

lemma wake_receiver:
  assumes s: "queue_state w v f a b n k pend"
  obtains k' where "wake_first w k = Inr k'" "queue_state w v f (Suc a) b n k' pend"
proof -
  note d = queue_state_sel [OF s]
  obtain k' where k': "wake_first w k = Inr k'" "calls_inv k'" "settled k'" "rt_tick k' = rt_tick k"
    "\<And>v. v \<noteq> w \<Longrightarrow> links k' (Wait v) = links k (Wait v)"
    "\<And>P n. side_inv w P n k \<Longrightarrow> side_inv w P (Suc n) k'"
    "\<And>u. u \<notin> set (links k (Wait w)) \<Longrightarrow> untouched k k' u"
    using wake_first_ok [OF d(1,2), of w] by metis
  have n: "t \<notin> set (links k (Wait w))" if "is_send pend t" for t using d(5) pend_one [OF that] by (auto simp: side_inv_def)
  have "side_inv v (is_send pend) b k'"
    by (rule side_inv_frame [OF d(6)]) (use k'(5,7) d(4) n in auto)
  then have "queue_state w v f (Suc a) b n k' pend" using s k'(2-4) k'(6) [OF d(5)] by (simp add: queue_state_def)
  with k'(1) show thesis using that by blast
qed

lemma wake_sender:
  assumes s: "queue_state w v f a b n k pend"
  obtains k' where "wake_first v k = Inr k'" "queue_state w v f a (Suc b) n k' pend"
proof -
  note d = queue_state_sel [OF s]
  obtain k' where k': "wake_first v k = Inr k'" "calls_inv k'" "settled k'" "rt_tick k' = rt_tick k"
    "\<And>x. x \<noteq> v \<Longrightarrow> links k' (Wait x) = links k (Wait x)"
    "\<And>P n. side_inv v P n k \<Longrightarrow> side_inv v P (Suc n) k'"
    "\<And>u. u \<notin> set (links k (Wait v)) \<Longrightarrow> untouched k k' u"
    using wake_first_ok [OF d(1,2), of v] by metis
  have n: "t \<notin> set (links k (Wait v))" if "is_recv pend t" for t using d(6) pend_one that by (auto simp: side_inv_def)
  have "side_inv w (is_recv pend) a k'"
    by (rule side_inv_frame [OF d(5)]) (use k'(5,7) d(4) n in auto)
  then have "queue_state w v f a (Suc b) n k' pend" using s k'(2-4) k'(6) [OF d(6)] by (simp add: queue_state_def)
  with k'(1) show thesis using that by blast
qed

text \<open>A waiting call of the running thread goes on: it is no longer pending.\<close>

lemma call_leaves:
  assumes s: "queue_state w v f a b n k pend" and c: "rt_current_thread k = Some c"
  shows "is_recv pend c \<Longrightarrow> queue_state w v f (a - 1) b n k (pend(c := None))"
    and "is_send pend c \<Longrightarrow> queue_state w v f a (b - 1) n k (pend(c := None))"
    and "error (tcbs k c) \<noteq> RT_EOK \<Longrightarrow> queue_state w v f a b n k (pend(c := None))"
proof -
  note d = queue_state_sel [OF s]
  have r: "stat (tcbs k c) = RT_THREAD_RUNNING" using calls_inv_running [OF d(1)] c(1) by auto
  have out: "c \<notin> set (links k (Wait x))" for x by (rule waiting_not_running [OF d(1) r])
  note rl = side_inv_done [OF d(5) out] and sl = side_inv_done [OF d(6) out]
  have p: "legal_time (call_time p) \<and> unat (rt_tick k - call_start p) \<le> n" if "(pend(c := None)) t = Some p" for t p
    using d(7) [of t p] that by (auto split: if_splits)
  have ok: "queue_state w v f a' b' n k (pend(c := None))"
    if "side_inv w (\<lambda>t. is_recv pend t \<and> t \<noteq> c) a' k" "side_inv v (\<lambda>t. is_send pend t \<and> t \<noteq> c) b' k" for a' b'
    using that d(1-4) p unfolding queue_state_def pend_upd(1,2) by blast
  show "queue_state w v f (a - 1) b n k (pend(c := None))" if "is_recv pend c"
    by (rule ok) (use that pend_one rl(1) sl(2) in auto)
  show "queue_state w v f a (b - 1) n k (pend(c := None))" if "is_send pend c"
    by (rule ok) (use that pend_one rl(2) sl(1) in auto)
  show "queue_state w v f a b n k (pend(c := None))" if "error (tcbs k c) \<noteq> RT_EOK"
    by (rule ok) (use that rl(2) sl(2) in auto)
qed

lemma unat_inc_le: "unat (x + 1) \<le> Suc (unat x)" for x :: "'a::len word"
  by (simp add: unat_word_ariths)

text \<open>A tick.\<close>

lemma queue_state_tick:
  assumes s: "queue_state w v f a b n k pend"
  obtains k' where "rt_tick_increase own k = Some (Inr k')" "queue_state w v f a b (Suc n) k' pend"
proof -
  note d = queue_state_sel [OF s]
  obtain k' where k': "rt_tick_increase own k = Some (Inr k')" "calls_inv k'" "rt_tick k' = rt_tick k + 1"
    "\<And>t. expires k t \<Longrightarrow> timed_out k' t" "\<And>t. \<not> expires k t \<Longrightarrow> untouched k k' t"
    "\<And>w. links k' (Wait w) = filter (\<lambda>t. \<not> expires k t) (links k (Wait w))" "settled k'"
    using calls_inv_tick [OF d(1)] d(2) by metis
  note k0 = calls_inv_sel(1) [OF d(1)]
  have "side_inv w (is_recv pend) a k'" by (rule side_inv_tick [OF d(5) k0 k'(6)]) (fact k'(4,5))+
  moreover have "side_inv v (is_send pend) b k'" by (rule side_inv_tick [OF d(6) k0 k'(6)]) (fact k'(4,5))+
  moreover have "unat (rt_tick k' - call_start p) \<le> Suc n" if "pend t = Some p" for t p
  proof -
    have "rt_tick k' - call_start p = (rt_tick k - call_start p) + 1" by (simp add: k'(3))
    then show ?thesis using d(7) [OF that] unat_inc_le [of "rt_tick k - call_start p"] by (metis Suc_le_mono order_trans)
  qed
  ultimately have "queue_state w v f a b (Suc n) k' pend"
    using k'(2,7) d(3,4,7) unfolding queue_state_def by blast
  with k'(1) show thesis using that by blast
qed

lemma queue_state_time_left:
  assumes "queue_state w v f a b n k pend" "pend c = Some p" "n < 2 ^ 31"
  shows "legal_time (time_left (call_time p) (call_start p) (rt_tick k))"
  using queue_state_sel(7) [OF assms(1,2)] assms(3) time_left_ok by auto

text \<open>A reset wakes every thread on both sides, with the error \<open>-RT_ERROR\<close>.\<close>

lemma reset_ok:
  assumes s: "queue_state w v f a b n k pend"
  obtains k1 k' where "bind_opt (ipc_list_resume_all w k) (ipc_list_resume_all v) = Some (Inr k1)" "rt_schedule k1 = Inr k'"
    "\<And>a b. queue_state w v f a b n k' pend" "links k' (Wait w) = []" "links k' (Wait v) = []"
    "\<And>t. t \<in> set (links k (Wait w)) \<or> t \<in> set (links k (Wait v)) \<Longrightarrow> active (stat (tcbs k' t)) \<and> error (tcbs k' t) = - RT_ERROR"
    "\<And>t. t \<notin> set (links k (Wait w)) \<Longrightarrow> t \<notin> set (links k (Wait v)) \<Longrightarrow> untouched k k' t"
proof -
  note d = queue_state_sel [OF s]
  note a = calls_inv_sel [OF d(1)]
  obtain k0 where k0: "ipc_list_resume_all w k = Some (Inr k0)" "kernel_inv k0" "flushed w k k0"
    using ipc_list_resume_all_ok [OF a(1)] by metis
  obtain k1 where k1: "ipc_list_resume_all v k0 = Some (Inr k1)" "kernel_inv k1" "flushed v k0 k1"
    using ipc_list_resume_all_ok [OF k0(2)] by metis
  have lv: "links k0 (Wait v) = links k (Wait v)" using k0(3) d(4) by (simp add: flushed_def)
  have out: "untouched k k1 t" if "t \<notin> set (links k (Wait w))" "t \<notin> set (links k (Wait v))" for t
    by (rule untouched_trans [of k k0]) (use k0(3) k1(3) lv that in \<open>auto simp: flushed_def\<close>)
  have hit: "active (stat (tcbs k1 t)) \<and> error (tcbs k1 t) = - RT_ERROR"
    if t: "t \<in> set (links k (Wait w)) \<or> t \<in> set (links k (Wait v))" for t
  proof (cases "t \<in> set (links k (Wait v))")
    case True
    then show ?thesis using k1(3) lv by (simp add: flushed_def)
  next
    case False
    then have "active (stat (tcbs k0 t)) \<and> error (tcbs k0 t) = - RT_ERROR" "untouched k0 k1 t"
      using t k0(3) k1(3) lv by (auto simp: flushed_def)
    then show ?thesis using untouched_sel(2,3) by simp
  qed
  have idle: "idle_thread \<notin> set (links k (Wait u))" for u
    using waiting_suspended [OF a(1), of idle_thread u] a(5) by (auto simp: active_def)
  then have i1: "active (stat (tcbs k1 idle_thread))" using untouched_sel(3) [OF out] a(5) by simp
  obtain k' where k': "rt_schedule k1 = Inr k'" "kernel_inv k'" "settled k'" "sched_frame k1 k'" "\<And>t. untouched k1 k' t"
    using schedule_inv [OF k1(2) i1] by metis
  note fr = sched_frame_stat [OF k'(4)]
  have tk: "rt_tick k' = rt_tick k" using k'(4) k0(3) k1(3) by (simp add: sched_frame_def flushed_def)
  have empty: "links k' (Wait w) = []" "links k' (Wait v) = []"
    using fr(5) k0(3) k1(3) d(4) by (simp_all add: flushed_def)
  have hit': "active (stat (tcbs k' t)) \<and> error (tcbs k' t) = - RT_ERROR"
    if "t \<in> set (links k (Wait w)) \<or> t \<in> set (links k (Wait v))" for t
    using hit [OF that] untouched_sel(2,3) [OF k'(5)] by simp
  have out': "untouched k k' t" if "t \<notin> set (links k (Wait w))" "t \<notin> set (links k (Wait v))" for t
    using out [OF that] k'(5) by (rule untouched_trans)
  have c: "calls_inv k'"
    using k' i1 settled_runs [OF k'(3)] untouched_sel(3) [OF k'(5), of idle_thread] fr k0(3) k1(3) a
    by (simp add: calls_inv_def flushed_def sched_frame_def)
  have act: "active (stat (tcbs k' t))" if "is_recv pend t \<or> is_send pend t" for t
  proof (cases "t \<in> set (links k (Wait w)) \<or> t \<in> set (links k (Wait v))")
    case False
    then have "active (stat (tcbs k t))" using that d(5,6) by (auto simp: side_inv_def)
    then show ?thesis using False untouched_sel(3) [OF out'] by simp
  qed (use hit' in simp)
  have sides: "side_inv w (is_recv pend) x k'" "side_inv v (is_send pend) x k'" for x
    using d(5,6) act empty by (simp_all add: side_inv_def)
  have "queue_state w v f x y n k' pend" for x y
    unfolding queue_state_def tk using c k'(3) d(3,4,7) sides by auto
  moreover have "bind_opt (ipc_list_resume_all w k) (ipc_list_resume_all v) = Some (Inr k1)" using k0(1) k1(1) by simp
  ultimately show thesis using that k'(1) empty hit' out' by blast
qed

section \<open>The abstract queue\<close>

text \<open>What happens to a queue, and the queue after it; None when a value is taken that is not the first.\<close>

datatype 'v queue_event = Stored 'v | Urged 'v | Taken 'v

fun replay :: "'v list \<Rightarrow> 'v queue_event list \<Rightarrow> 'v list option" where
  "replay q [] = Some q"
| "replay q (Stored v # es) = replay (q @ [v]) es"
| "replay q (Urged v # es) = replay (v # q) es"
| "replay q (Taken v # es) = (case q of [] \<Rightarrow> None | x # q \<Rightarrow> if x = v then replay q es else None)"

lemma replay_append: "replay q (es @ fs) = (case replay q es of None \<Rightarrow> None | Some q \<Rightarrow> replay q fs)"
  by (induction q es rule: replay.induct) (auto split: list.splits)

section \<open>Runs of a queue with waiting calls\<close>

text \<open>
  Calls of the threads that run (the idle thread makes none) and ticks, in any order. A thread whose
  call is pending goes on with it when it runs. The run records what the calls have stored and taken.
  \<open>new\<close> is the first part of a call, \<open>go\<close> the next part of a pending one; each answers the call if it is
  still pending and the events.
\<close>

datatype 'i queue_input = Call 'i | Tick

record ('q, 'p, 'v) queue_run =
  the_queue :: 'q
  queue_kernel :: kernel
  pending :: "nat \<Rightarrow> 'p option"
  history :: "'v queue_event list"

type_synonym ('q, 'p, 'v) part = "fault + ('p option \<times> 'v queue_event list) \<times> 'q \<times> kernel"

definition queue_step ::
    "('i \<Rightarrow> 'q \<Rightarrow> kernel \<Rightarrow> ('q, 'p, 'v) part) \<Rightarrow> (nat \<Rightarrow> 'p \<Rightarrow> 'q \<Rightarrow> kernel \<Rightarrow> ('q, 'p, 'v) part) \<Rightarrow>
     (nat \<Rightarrow> kernel \<Rightarrow> fault + kernel) \<Rightarrow> (fault + ('q, 'p, 'v) queue_run) option \<Rightarrow> 'i queue_input \<Rightarrow>
     (fault + ('q, 'p, 'v) queue_run) option" where
  "queue_step new go own st i = bind_opt st (\<lambda>r.
     let q = the_queue r; k = queue_kernel r
     in case i of Tick \<Rightarrow> bind_opt (rt_tick_increase own k) (\<lambda>k'. Some (Inr (r\<lparr>queue_kernel := k'\<rparr>)))
        | Call j \<Rightarrow>
            (case rt_current_thread k of None \<Rightarrow> Some (Inl NullPointer)
             | Some c \<Rightarrow>
                 if c = idle_thread then Some (Inr r)
                 else Some (bind_err (case pending r c of None \<Rightarrow> new j q k | Some p \<Rightarrow> go c p q k)
                   (\<lambda>((p, ev), q', k'). Inr \<lparr>the_queue = q', queue_kernel = k', pending = (pending r)(c := p),
                      history = history r @ ev\<rparr>))))"

definition queue_start :: "'q \<Rightarrow> kernel \<Rightarrow> (fault + ('q, 'p, 'v) queue_run) option" where
  "queue_start q k = Some (Inr \<lparr>the_queue = q, queue_kernel = k, pending = \<lambda>_. None, history = []\<rparr>)"

definition ticks_in :: "'i queue_input list \<Rightarrow> nat" where
  "ticks_in is = length (filter (\<lambda>i. i = Tick) is)"

definition legal_calls :: "('i \<Rightarrow> bool) \<Rightarrow> 'i queue_input list \<Rightarrow> bool" where
  "legal_calls legal is \<longleftrightarrow> list_all (\<lambda>i. case i of Call j \<Rightarrow> legal j | Tick \<Rightarrow> True) is"

text \<open>What a part of a call of thread \<open>c\<close> has to keep: the invariant, and the abstract queue.\<close>

definition part_ok :: "('q \<Rightarrow> kernel \<Rightarrow> (nat \<Rightarrow> 'p option) \<Rightarrow> bool) \<Rightarrow> ('q \<Rightarrow> 'v list) \<Rightarrow> 'q \<Rightarrow> (nat \<Rightarrow> 'p option) \<Rightarrow> nat \<Rightarrow>
    ('q, 'p, 'v) part \<Rightarrow> bool" where
  "part_ok I content q pend c x \<longleftrightarrow> (\<exists>p ev q' k'. x = Inr ((p, ev), q', k') \<and> I q' k' (pend(c := p)) \<and>
     replay (content q) ev = Some (content q'))"

lemma part_okI:
  "x = Inr ((p, ev), q', k') \<Longrightarrow> I q' k' (pend(c := p)) \<Longrightarrow> replay (content q) ev = Some (content q') \<Longrightarrow>
     part_ok I content q pend c x"
  unfolding part_ok_def by blast

text \<open>
  The contract of a queue whose calls may wait: \<open>I n\<close> is its invariant when \<open>n\<close> bounds the ticks that have
  passed since a pending call began to wait. The clock of a call that waits is right for \<open>2^31\<close> ticks.
\<close>

locale blocking_queue =
  fixes new :: "'i \<Rightarrow> 'q \<Rightarrow> kernel \<Rightarrow> ('q, 'p, 'v) part"
    and go :: "nat \<Rightarrow> 'p \<Rightarrow> 'q \<Rightarrow> kernel \<Rightarrow> ('q, 'p, 'v) part"
    and legal :: "'i \<Rightarrow> bool"
    and I :: "nat \<Rightarrow> 'q \<Rightarrow> kernel \<Rightarrow> (nat \<Rightarrow> 'p option) \<Rightarrow> bool"
    and content :: "'q \<Rightarrow> 'v list"
  assumes calls: "I n q k pend \<Longrightarrow> calls_inv k"
    and new_ok: "I n q k pend \<Longrightarrow> rt_current_thread k = Some c \<Longrightarrow> c \<noteq> idle_thread \<Longrightarrow> pend c = None \<Longrightarrow> legal i \<Longrightarrow>
      part_ok (I n) content q pend c (new i q k)"
    and go_ok: "I n q k pend \<Longrightarrow> rt_current_thread k = Some c \<Longrightarrow> c \<noteq> idle_thread \<Longrightarrow> pend c = Some p \<Longrightarrow> n < 2 ^ 31 \<Longrightarrow>
      part_ok (I n) content q pend c (go c p q k)"
    and tick_ok: "I n q k pend \<Longrightarrow> \<exists>k'. rt_tick_increase own k = Some (Inr k') \<and> I (Suc n) q k' pend"
begin

definition kept :: "nat \<Rightarrow> 'v list \<Rightarrow> (fault + ('q, 'p, 'v) queue_run) option \<Rightarrow> bool" where
  "kept n q0 st \<longleftrightarrow> (\<exists>r. st = Some (Inr r) \<and> I n (the_queue r) (queue_kernel r) (pending r) \<and>
     replay q0 (history r) = Some (content (the_queue r)))"

lemma step_tick:
  assumes "kept n q0 st"
  shows "kept (Suc n) q0 (queue_step new go own st Tick)"
proof -
  obtain r where r: "st = Some (Inr r)" "I n (the_queue r) (queue_kernel r) (pending r)"
    "replay q0 (history r) = Some (content (the_queue r))" using assms by (auto simp: kept_def)
  obtain k' where "rt_tick_increase own (queue_kernel r) = Some (Inr k')" "I (Suc n) (the_queue r) k' (pending r)"
    using tick_ok [OF r(2)] by blast
  then show ?thesis using r by (simp add: queue_step_def kept_def)
qed

lemma step_call:
  assumes "kept n q0 st" and i: "legal i" and n: "n < 2 ^ 31"
  shows "kept n q0 (queue_step new go own st (Call i))"
proof -
  obtain r where r: "st = Some (Inr r)" "I n (the_queue r) (queue_kernel r) (pending r)"
    "replay q0 (history r) = Some (content (the_queue r))" using assms(1) by (auto simp: kept_def)
  obtain c where c: "rt_current_thread (queue_kernel r) = Some c" using calls_inv_running [OF calls [OF r(2)]] by blast
  show ?thesis
  proof (cases "c = idle_thread")
    case True
    then show ?thesis using assms(1) c by (simp add: r(1) queue_step_def)
  next
    case False
    have "part_ok (I n) content (the_queue r) (pending r) c
        (case pending r c of None \<Rightarrow> new i (the_queue r) (queue_kernel r) | Some p \<Rightarrow> go c p (the_queue r) (queue_kernel r))"
      using new_ok [OF r(2) c False _ i] go_ok [OF r(2) c False _ n] by (cases "pending r c") auto
    then obtain p ev q' k' where x:
      "(case pending r c of None \<Rightarrow> new i (the_queue r) (queue_kernel r) | Some p \<Rightarrow> go c p (the_queue r) (queue_kernel r)) =
         Inr ((p, ev), q', k')" "I n q' k' ((pending r)(c := p))" "replay (content (the_queue r)) ev = Some (content q')"
      unfolding part_ok_def by blast
    show ?thesis using x(2,3) r(3) c False by (simp add: r(1) queue_step_def x(1) kept_def replay_append)
  qed
qed

lemma run_from:
  assumes "kept n q0 st" and "legal_calls legal is" and "n + ticks_in is < 2 ^ 31"
  shows "kept (n + ticks_in is) q0 (run_steps (queue_step new go own) st is)"
  using assms
proof (induction "is" arbitrary: n st)
  case (Cons i xs)
  show ?case
  proof (cases i)
    case (Call j)
    then show ?thesis
      using Cons.IH [OF step_call [OF Cons.prems(1), of j own]] Cons.prems(2,3) by (simp add: legal_calls_def ticks_in_def)
  next
    case Tick
    then show ?thesis
      using Cons.IH [OF step_tick [OF Cons.prems(1), of own]] Cons.prems(2,3) by (simp add: legal_calls_def ticks_in_def)
  qed
qed (simp add: ticks_in_def)

lemma run:
  assumes "I 0 q k (\<lambda>_. None)" and "legal_calls legal is" and "ticks_in is < 2 ^ 31"
  obtains r where "run_steps (queue_step new go own) (queue_start q k) is = Some (Inr r)"
    "I (ticks_in is) (the_queue r) (queue_kernel r) (pending r)" "replay (content q) (history r) = Some (content (the_queue r))"
proof -
  have "kept 0 (content q) (queue_start q k)" using assms(1) by (simp add: kept_def queue_start_def)
  from run_from [OF this assms(2), of own] assms(3) show thesis using that by (auto simp: kept_def)
qed

end

text \<open>No wake-up is lost: while a thread waits there are no more items than woken threads, all able to run.\<close>

lemma side_inv_woken:
  assumes "side_inv w P n k" and "links k (Wait w) \<noteq> []"
  shows "n \<le> card {t. P t \<and> active (stat (tcbs k t)) \<and> error (tcbs k t) = RT_EOK}"
proof -
  have "woken_set w P k \<subseteq> {t. P t \<and> active (stat (tcbs k t)) \<and> error (tcbs k t) = RT_EOK}"
    using assms(1) by (auto simp: side_inv_def woken_set_def)
  moreover have "finite {t. P t \<and> active (stat (tcbs k t)) \<and> error (tcbs k t) = RT_EOK}"
    using assms(1) by (auto simp: side_inv_def elim: rev_finite_subset)
  ultimately have "card (woken_set w P k) \<le> card {t. P t \<and> active (stat (tcbs k t)) \<and> error (tcbs k t) = RT_EOK}"
    by (intro card_mono)
  then show ?thesis using assms by (simp add: side_inv_def)
qed

end
