(* ===== verification/Mailbox.thy ===== *)
theory Mailbox
  imports Waiters
begin

text \<open>
  Mailboxes (\<open>rt-thread/src/ipc.c\<close>): a ring of words with a list of waiting receivers and one of waiting
  senders. A woken call looks at the mailbox again and may have to wait for the rest of its time, so
  each call is split in its first part, up to the first wait, and a \<open>_wake\<close> part for every time it runs
  again; the local variables of a waiting call (value, time left, tick at which it began to wait) are
  arguments of that part. A word is 32 bits.
\<close>

section \<open>Operations\<close>

record mailbox = ipc +
  msg_pool :: "u32 list"
  mb_size :: u16
  mb_entry :: u16
  in_offset :: u16
  out_offset :: u16
  suspend_sender_thread :: nat

abbreviation senders :: "mailbox \<Rightarrow> kernel \<Rightarrow> nat list" where
  "senders mb k \<equiv> links k (Wait (suspend_sender_thread mb))"

definition RT_MB_ENTRY_MAX :: u16 where "RT_MB_ENTRY_MAX = 0xFFFF"

definition rt_mb_init :: "nat \<Rightarrow> nat \<Rightarrow> u32 list \<Rightarrow> u32 \<Rightarrow> u8 \<Rightarrow> kernel \<Rightarrow> fault + int \<times> mailbox \<times> kernel" where
  "rt_mb_init w v pool sz flag k =
     (if flag = RT_IPC_FLAG_FIFO \<or> flag = RT_IPC_FLAG_PRIO then
        Inr (RT_EOK, \<lparr>suspend_thread = w, ipc_flag = flag, ipc_systemobject = True, msg_pool = pool, mb_size = ucast sz,
               mb_entry = 0, in_offset = 0, out_offset = 0, suspend_sender_thread = v\<rparr>,
             ipc_object_init v (ipc_object_init w k))
      else Inl AssertFailed)"

definition mb_resume_all :: "mailbox \<Rightarrow> kernel \<Rightarrow> (fault + kernel) option" where
  "mb_resume_all mb k =
     bind_opt (ipc_list_resume_all (suspend_thread mb) k) (ipc_list_resume_all (suspend_sender_thread mb))"

definition rt_mb_detach :: "mailbox \<Rightarrow> kernel \<Rightarrow> (fault + int \<times> kernel) option" where
  "rt_mb_detach mb k =
     (if ipc_systemobject mb then bind_opt (mb_resume_all mb k) (\<lambda>k. Some (Inr (RT_EOK, k)))
      else Some (Inl AssertFailed))"

text \<open>\<open>pool\<close> is what the allocator answers for the number of words it is asked for.\<close>

definition rt_mb_create :: "(nat \<times> nat) option \<Rightarrow> (nat \<Rightarrow> u32 list option) \<Rightarrow> u32 \<Rightarrow> u8 \<Rightarrow> kernel \<Rightarrow> fault + mailbox option \<times> kernel" where
  "rt_mb_create obj pool sz flag k =
     (if (flag = RT_IPC_FLAG_FIFO \<or> flag = RT_IPC_FLAG_PRIO) \<and> not_in_interrupt k then
        (case obj of None \<Rightarrow> Inr (None, k)
         | Some (w, v) \<Rightarrow>
             let k = ipc_object_init w k; sz = (ucast sz :: u16)
             in case pool (unat sz) of None \<Rightarrow> Inr (None, k)
                | Some words \<Rightarrow>
                    Inr (Some \<lparr>suspend_thread = w, ipc_flag = flag, ipc_systemobject = False, msg_pool = words,
                           mb_size = sz, mb_entry = 0, in_offset = 0, out_offset = 0, suspend_sender_thread = v\<rparr>,
                         ipc_object_init v k))
      else Inl AssertFailed)"

definition rt_mb_delete :: "mailbox \<Rightarrow> kernel \<Rightarrow> (fault + int \<times> kernel) option" where
  "rt_mb_delete mb k =
     (if \<not> ipc_systemobject mb \<and> not_in_interrupt k
      then bind_opt (mb_resume_all mb k) (\<lambda>k. Some (Inr (RT_EOK, k))) else Some (Inl AssertFailed))"

text \<open>Storing a value, when there is room.\<close>

definition mb_put :: "mailbox \<Rightarrow> u32 \<Rightarrow> kernel \<Rightarrow> fault + int \<times> mailbox \<times> kernel" where
  "mb_put mb value k =
     bind_err (arr_set (msg_pool mb) (unat (in_offset mb)) value) (\<lambda>pool.
       let mb = mb\<lparr>msg_pool := pool, in_offset := in_offset mb + 1\<rparr>;
           mb = (if in_offset mb \<ge> mb_size mb then mb\<lparr>in_offset := 0\<rparr> else mb)
       in if mb_entry mb < RT_MB_ENTRY_MAX then
            (let mb = mb\<lparr>mb_entry := mb_entry mb + 1\<rparr>
             in bind_err (wake_first (suspend_thread mb) k) (\<lambda>k. Inr (RT_EOK, mb, k)))
          else Inr (- RT_EFULL, mb, k))"

text \<open>The loop head of \<open>rt_mb_send_wait\<close>: wait while the mailbox is full.\<close>

definition mb_send_try :: "mailbox \<Rightarrow> u32 \<Rightarrow> int \<Rightarrow> kernel \<Rightarrow> fault + int call \<times> mailbox \<times> kernel" where
  "mb_send_try mb value timeout k =
     (if mb_entry mb = mb_size mb then
        (case rt_thread_self k of None \<Rightarrow> Inl NullPointer
         | Some t \<Rightarrow>
             let k = set_error t RT_EOK k
             in if timeout = 0 then Inr (Returned (- RT_EFULL), mb, k)
                else bind_err (ipc_wait (suspend_sender_thread mb) t (ipc_flag mb) timeout k) (\<lambda>k.
                     Inr (Switched, mb, k)))
      else bind_err (mb_put mb value k) (\<lambda>(result, mb, k). Inr (Returned result, mb, k)))"

definition rt_mb_send_wait :: "mailbox \<Rightarrow> u32 \<Rightarrow> int \<Rightarrow> kernel \<Rightarrow> fault + int call \<times> mailbox \<times> kernel" where
  "rt_mb_send_wait mb value timeout k =
     (if timeout \<noteq> 0 \<and> \<not> scheduler_available k then Inl AssertFailed
      else if mb_entry mb = mb_size mb \<and> timeout = 0 then Inr (Returned (- RT_EFULL), mb, k)
      else mb_send_try mb value timeout k)"

definition rt_mb_send_wait_wake ::
    "nat \<Rightarrow> u32 \<Rightarrow> int \<Rightarrow> u32 \<Rightarrow> mailbox \<Rightarrow> kernel \<Rightarrow> fault + int call \<times> mailbox \<times> kernel" where
  "rt_mb_send_wait_wake t value timeout start mb k =
     (if error (tcbs k t) \<noteq> RT_EOK then Inr (Returned (error (tcbs k t)), mb, k)
      else mb_send_try mb value (time_left timeout start (rt_tick_get k)) k)"

definition rt_mb_send :: "mailbox \<Rightarrow> u32 \<Rightarrow> kernel \<Rightarrow> fault + int call \<times> mailbox \<times> kernel" where
  "rt_mb_send mb value k = rt_mb_send_wait mb value 0 k"

definition rt_mb_urgent :: "mailbox \<Rightarrow> u32 \<Rightarrow> kernel \<Rightarrow> fault + int \<times> mailbox \<times> kernel" where
  "rt_mb_urgent mb value k =
     (if mb_entry mb = mb_size mb then Inr (- RT_EFULL, mb, k)
      else
        let mb = (if out_offset mb > 0 then mb\<lparr>out_offset := out_offset mb - 1\<rparr> else mb\<lparr>out_offset := mb_size mb - 1\<rparr>)
        in bind_err (arr_set (msg_pool mb) (unat (out_offset mb)) value) (\<lambda>pool.
             let mb = mb\<lparr>msg_pool := pool, mb_entry := mb_entry mb + 1\<rparr>
             in bind_err (wake_first (suspend_thread mb) k) (\<lambda>k. Inr (RT_EOK, mb, k))))"

text \<open>Taking a value, when there is one. The word is what is written to \<open>*value\<close>.\<close>

definition mb_get :: "mailbox \<Rightarrow> kernel \<Rightarrow> fault + u32 \<times> mailbox \<times> kernel" where
  "mb_get mb k =
     bind_err (arr_get (msg_pool mb) (unat (out_offset mb))) (\<lambda>value.
       let mb = mb\<lparr>out_offset := out_offset mb + 1\<rparr>;
           mb = (if out_offset mb \<ge> mb_size mb then mb\<lparr>out_offset := 0\<rparr> else mb);
           mb = (if mb_entry mb > 0 then mb\<lparr>mb_entry := mb_entry mb - 1\<rparr> else mb)
       in bind_err (wake_first (suspend_sender_thread mb) k) (\<lambda>k. Inr (value, mb, k)))"

definition mb_recv_try :: "mailbox \<Rightarrow> int \<Rightarrow> kernel \<Rightarrow> fault + int call \<times> u32 option \<times> mailbox \<times> kernel" where
  "mb_recv_try mb timeout k =
     (if mb_entry mb = 0 then
        (case rt_thread_self k of None \<Rightarrow> Inl NullPointer
         | Some t \<Rightarrow>
             let k = set_error t RT_EOK k
             in if timeout = 0 then Inr (Returned (- RT_ETIMEOUT), None, mb, set_error t (- RT_ETIMEOUT) k)
                else bind_err (ipc_wait (suspend_thread mb) t (ipc_flag mb) timeout k) (\<lambda>k.
                     Inr (Switched, None, mb, k)))
      else bind_err (mb_get mb k) (\<lambda>(value, mb, k). Inr (Returned RT_EOK, Some value, mb, k)))"

definition rt_mb_recv :: "mailbox \<Rightarrow> int \<Rightarrow> kernel \<Rightarrow> fault + int call \<times> u32 option \<times> mailbox \<times> kernel" where
  "rt_mb_recv mb timeout k =
     (if timeout \<noteq> 0 \<and> \<not> scheduler_available k then Inl AssertFailed
      else if mb_entry mb = 0 \<and> timeout = 0 then Inr (Returned (- RT_ETIMEOUT), None, mb, k)
      else mb_recv_try mb timeout k)"

definition rt_mb_recv_wake ::
    "nat \<Rightarrow> int \<Rightarrow> u32 \<Rightarrow> mailbox \<Rightarrow> kernel \<Rightarrow> fault + int call \<times> u32 option \<times> mailbox \<times> kernel" where
  "rt_mb_recv_wake t timeout start mb k =
     (if error (tcbs k t) \<noteq> RT_EOK then Inr (Returned (error (tcbs k t)), None, mb, k)
      else mb_recv_try mb (time_left timeout start (rt_tick_get k)) k)"

definition rt_mb_control :: "mailbox \<Rightarrow> int \<Rightarrow> kernel \<Rightarrow> (fault + int \<times> mailbox \<times> kernel) option" where
  "rt_mb_control mb cmd k =
     (if cmd = RT_IPC_CMD_RESET then
        bind_opt (mb_resume_all mb k) (\<lambda>k.
          Some (bind_err (rt_schedule k) (\<lambda>k. Inr (RT_EOK, mb\<lparr>mb_entry := 0, in_offset := 0, out_offset := 0\<rparr>, k))))
      else Some (Inr (- RT_ERROR, mb, k)))"

section \<open>The queue in the ring\<close>

definition mb_ok :: "mailbox \<Rightarrow> bool" where
  "mb_ok mb \<longleftrightarrow> length (msg_pool mb) = unat (mb_size mb) \<and> mb_size mb > 0 \<and> mb_entry mb \<le> mb_size mb \<and>
     in_offset mb < mb_size mb \<and> out_offset mb < mb_size mb \<and>
     unat (in_offset mb) = (unat (out_offset mb) + unat (mb_entry mb)) mod unat (mb_size mb)"

definition mb_queue :: "mailbox \<Rightarrow> u32 list" where
  "mb_queue mb = map (\<lambda>i. msg_pool mb ! ((unat (out_offset mb) + i) mod unat (mb_size mb))) [0..<unat (mb_entry mb)]"

lemma length_mb_queue [simp]: "length (mb_queue mb) = unat (mb_entry mb)"
  by (simp add: mb_queue_def)

text \<open>Moving an offset on: \<open>++ offset; if (offset >= size) offset = 0\<close>.\<close>

lemma offset_next:
  fixes i n :: u16
  assumes "i < n"
  shows "unat (if i + 1 \<ge> n then 0 else i + 1) = Suc (unat i) mod unat n" and "(if i + 1 \<ge> n then 0 else i + 1) < n"
proof -
  have u: "unat (i + 1) = Suc (unat i)" by (rule unat_inc_less [OF assms])
  have l: "unat i < unat n" using assms by (simp add: word_less_nat_alt)
  show "unat (if i + 1 \<ge> n then 0 else i + 1) = Suc (unat i) mod unat n"
  proof (cases "Suc (unat i) = unat n")
    case True
    then show ?thesis using u by (simp add: word_le_nat_alt)
  next
    case False
    then show ?thesis using u l by (simp add: word_le_nat_alt)
  qed
  show "(if i + 1 \<ge> n then 0 else i + 1) < n"
    using l u by (auto simp: word_less_nat_alt word_le_nat_alt not_le)
qed

lemma offset_prev:
  fixes i n :: u16
  assumes "i < n"
  shows "(if i > 0 then i - 1 else n - 1) < n" and "Suc (unat (if i > 0 then i - 1 else n - 1)) mod unat n = unat i"
proof -
  have n: "unat n \<noteq> 0" "n \<noteq> 0" using assms by (auto simp: word_less_nat_alt)
  have l: "unat i < unat n" using assms by (simp add: word_less_nat_alt)
  have d: "unat (x - 1) = unat x - 1" if "x \<noteq> 0" for x :: u16 using that by (rule unat_dec_pos)
  show "(if i > 0 then i - 1 else n - 1) < n"
    using n l d [of i] d [of n] by (auto simp: word_less_nat_alt word_neq_0_conv)
  show "Suc (unat (if i > 0 then i - 1 else n - 1)) mod unat n = unat i"
    using n l d [of i] d [of n] by (auto simp: word_neq_0_conv word_less_nat_alt)
qed
lemma ring_slots_differ:
  fixes o' i j n :: nat
  assumes "i < j" and "j - i < n"
  shows "(o' + i) mod n \<noteq> (o' + j) mod n"
proof
  assume "(o' + i) mod n = (o' + j) mod n"
  then have "n dvd j - i" using assms mod_eq_dvd_iff_nat [of "o' + i" "o' + j" n] by simp
  then show False using assms by (auto dest: dvd_imp_le)
qed

definition put_box :: "mailbox \<Rightarrow> u32 \<Rightarrow> mailbox" where
  "put_box mb v = mb\<lparr>msg_pool := (msg_pool mb)[unat (in_offset mb) := v],
     in_offset := if in_offset mb + 1 \<ge> mb_size mb then 0 else in_offset mb + 1, mb_entry := mb_entry mb + 1\<rparr>"

definition get_box :: "mailbox \<Rightarrow> mailbox" where
  "get_box mb = mb\<lparr>out_offset := if out_offset mb + 1 \<ge> mb_size mb then 0 else out_offset mb + 1, mb_entry := mb_entry mb - 1\<rparr>"

definition urge_box :: "mailbox \<Rightarrow> u32 \<Rightarrow> mailbox" where
  "urge_box mb v = (let i = (if out_offset mb > 0 then out_offset mb - 1 else mb_size mb - 1)
     in mb\<lparr>out_offset := i, msg_pool := (msg_pool mb)[unat i := v], mb_entry := mb_entry mb + 1\<rparr>)"

lemma mb_okD:
  assumes "mb_ok mb"
  shows "length (msg_pool mb) = unat (mb_size mb)" "unat (mb_entry mb) \<le> unat (mb_size mb)"
    "unat (in_offset mb) < unat (mb_size mb)" "unat (out_offset mb) < unat (mb_size mb)" "mb_size mb > 0"
    "in_offset mb < mb_size mb" "out_offset mb < mb_size mb"
    "unat (in_offset mb) = (unat (out_offset mb) + unat (mb_entry mb)) mod unat (mb_size mb)"
  using assms by (simp_all add: mb_ok_def word_less_nat_alt word_le_nat_alt)

lemma mb_room:
  assumes "mb_ok mb" "mb_entry mb \<noteq> mb_size mb"
  shows "mb_entry mb < mb_size mb" "unat (mb_entry mb + 1) = Suc (unat (mb_entry mb))" "mb_entry mb < RT_MB_ENTRY_MAX"
    "unat (mb_entry mb) < unat (mb_size mb)"
proof -
  show l: "mb_entry mb < mb_size mb" using assms by (simp add: mb_ok_def order_less_le)
  show "unat (mb_entry mb + 1) = Suc (unat (mb_entry mb))" by (rule unat_inc_less [OF l])
  show u: "unat (mb_entry mb) < unat (mb_size mb)" using l by (simp add: word_less_nat_alt)
  show "mb_entry mb < RT_MB_ENTRY_MAX"
    using u unat_u16_lt [of "mb_size mb"] by (simp add: RT_MB_ENTRY_MAX_def word_less_nat_alt)
qed

lemma put_box_ok:
  assumes mb: "mb_ok mb" and room: "mb_entry mb \<noteq> mb_size mb"
  shows "mb_put mb v k = bind_err (wake_first (suspend_thread mb) k) (\<lambda>k. Inr (RT_EOK, put_box mb v, k))"
    and "mb_ok (put_box mb v)" and "mb_queue (put_box mb v) = mb_queue mb @ [v]"
proof -
  note d = mb_okD [OF mb] and r = mb_room [OF mb room] and nx = offset_next [OF mb_okD(6) [OF mb]]
  show "mb_put mb v k = bind_err (wake_first (suspend_thread mb) k) (\<lambda>k. Inr (RT_EOK, put_box mb v, k))"
    using d(1,3) r(3) by (simp add: mb_put_def put_box_def Let_def)
  show "mb_ok (put_box mb v)"
    using d r nx by (simp add: mb_ok_def put_box_def word_le_nat_alt mod_Suc_eq)
  have i: "unat (in_offset mb) = (unat (out_offset mb) + unat (mb_entry mb)) mod unat (mb_size mb)" by (rule d(8))
  have "(msg_pool mb)[unat (in_offset mb) := v] ! ((unat (out_offset mb) + j) mod unat (mb_size mb)) =
      msg_pool mb ! ((unat (out_offset mb) + j) mod unat (mb_size mb))" if "j < unat (mb_entry mb)" for j
  proof -
    have "(unat (out_offset mb) + j) mod unat (mb_size mb) \<noteq> (unat (out_offset mb) + unat (mb_entry mb)) mod unat (mb_size mb)"
      by (rule ring_slots_differ [OF that]) (use r(4) in simp)
    then show ?thesis unfolding i by (metis nth_list_update_neq)
  qed
  then show "mb_queue (put_box mb v) = mb_queue mb @ [v]"
    using d(1,3) r(2) by (simp add: mb_queue_def put_box_def i [symmetric])
qed

lemma get_box_ok:
  assumes mb: "mb_ok mb" and some: "mb_entry mb \<noteq> 0"
  shows "mb_get mb k = bind_err (wake_first (suspend_sender_thread mb) k) (\<lambda>k. Inr (hd (mb_queue mb), get_box mb, k))"
    and "mb_ok (get_box mb)" and "mb_queue mb = hd (mb_queue mb) # mb_queue (get_box mb)"
proof -
  note d = mb_okD [OF mb] and nx = offset_next [OF mb_okD(7) [OF mb]]
  have e: "unat (mb_entry mb - 1) = unat (mb_entry mb) - 1" by (rule unat_dec_pos [OF some])
  have p: "0 < unat (mb_entry mb)" using some by (simp add: unat_gt_0)
  then obtain n where n: "unat (mb_entry mb) = Suc n" by (cases "unat (mb_entry mb)") auto
  have q: "mb_queue mb = msg_pool mb ! unat (out_offset mb) #
      map (\<lambda>i. msg_pool mb ! ((unat (out_offset mb) + Suc i) mod unat (mb_size mb))) [0..<n]"
    unfolding mb_queue_def n using d(4) by (simp add: upt_conv_Cons map_Suc_upt [symmetric] comp_def del: upt_Suc)
  have "mb_queue (get_box mb) = map (\<lambda>i. msg_pool mb ! ((unat (out_offset mb) + Suc i) mod unat (mb_size mb))) [0..<n]"
    unfolding mb_queue_def using nx(1) e n by (simp add: get_box_def mod_add_left_eq)
  then show t: "mb_queue mb = hd (mb_queue mb) # mb_queue (get_box mb)" using q by simp
  have h: "hd (mb_queue mb) = msg_pool mb ! unat (out_offset mb)" using q by simp
  show "mb_get mb k = bind_err (wake_first (suspend_sender_thread mb) k) (\<lambda>k. Inr (hd (mb_queue mb), get_box mb, k))"
    using d(1,4) some by (simp add: mb_get_def get_box_def h Let_def word_neq_0_conv)
  have "unat (in_offset mb) = (Suc (unat (out_offset mb)) mod unat (mb_size mb) + (unat (mb_entry mb) - 1)) mod unat (mb_size mb)"
    using d(8) n by (simp add: mod_add_left_eq)
  then show "mb_ok (get_box mb)"
    using d nx e n by (simp add: mb_ok_def get_box_def word_le_nat_alt)
qed

lemma urge_box_ok:
  assumes mb: "mb_ok mb" and room: "mb_entry mb \<noteq> mb_size mb"
  shows "rt_mb_urgent mb v k = bind_err (wake_first (suspend_thread mb) k) (\<lambda>k. Inr (RT_EOK, urge_box mb v, k))"
    and "mb_ok (urge_box mb v)" and "mb_queue (urge_box mb v) = v # mb_queue mb"
proof -
  note d = mb_okD [OF mb] and r = mb_room [OF mb room]
  define i where "i = (if out_offset mb > 0 then out_offset mb - 1 else mb_size mb - 1)"
  have i: "i < mb_size mb" "Suc (unat i) mod unat (mb_size mb) = unat (out_offset mb)"
    using offset_prev [OF mb_okD(7) [OF mb]] by (simp_all only: i_def)
  have u: "unat i < unat (mb_size mb)" using i(1) by (simp add: word_less_nat_alt)
  have b: "urge_box mb v = mb\<lparr>out_offset := i, msg_pool := (msg_pool mb)[unat i := v], mb_entry := mb_entry mb + 1\<rparr>"
    by (simp add: urge_box_def i_def Let_def)
  show "rt_mb_urgent mb v k = bind_err (wake_first (suspend_thread mb) k) (\<lambda>k. Inr (RT_EOK, urge_box mb v, k))"
    using room d(1) u unfolding b by (cases "out_offset mb > 0") (simp_all add: rt_mb_urgent_def i_def Let_def)
  have "(unat i + Suc (unat (mb_entry mb))) mod unat (mb_size mb) =
      (Suc (unat i) mod unat (mb_size mb) + unat (mb_entry mb)) mod unat (mb_size mb)" by (simp add: mod_add_left_eq)
  then have "unat (in_offset mb) = (unat i + Suc (unat (mb_entry mb))) mod unat (mb_size mb)" using d(8) i(2) by simp
  then show "mb_ok (urge_box mb v)"
    using d r i(1) unfolding b by (simp add: mb_ok_def word_le_nat_alt)
  have s: "(unat i + Suc j) mod unat (mb_size mb) = (unat (out_offset mb) + j) mod unat (mb_size mb)" for j
    unfolding i(2) [symmetric] by (simp add: mod_add_left_eq)
  have "(msg_pool mb)[unat i := v] ! ((unat i + Suc j) mod unat (mb_size mb)) =
      msg_pool mb ! ((unat (out_offset mb) + j) mod unat (mb_size mb))" if "j < unat (mb_entry mb)" for j
  proof -
    have "(unat i + 0) mod unat (mb_size mb) \<noteq> (unat i + Suc j) mod unat (mb_size mb)"
      using that r(4) by (intro ring_slots_differ) simp_all
    then show ?thesis using u unfolding s by simp
  qed
  then show "mb_queue (urge_box mb v) = v # mb_queue mb"
    unfolding mb_queue_def b using r(2) u d(1)
    by (simp add: upt_conv_Cons map_Suc_upt [symmetric] comp_def del: upt_Suc)
qed

section \<open>Every call keeps the account of both sides\<close>

definition mb_state :: "nat \<Rightarrow> nat \<Rightarrow> nat \<Rightarrow> mailbox \<Rightarrow> kernel \<Rightarrow> (nat \<Rightarrow> u32 pcall option) \<Rightarrow> bool" where
  "mb_state a b n mb k pend \<longleftrightarrow> mb_ok mb \<and>
     queue_state (suspend_thread mb) (suspend_sender_thread mb) (ipc_flag mb) a b n k pend"

text \<open>All values can be received and all free places filled.\<close>

definition mb_inv :: "nat \<Rightarrow> mailbox \<Rightarrow> kernel \<Rightarrow> (nat \<Rightarrow> u32 pcall option) \<Rightarrow> bool" where
  "mb_inv n mb k pend \<longleftrightarrow> mb_state (unat (mb_entry mb)) (unat (mb_size mb) - unat (mb_entry mb)) n mb k pend"

lemma mb_inv_parts:
  "mb_inv n mb k pend \<Longrightarrow> mb_ok mb"
  "mb_inv n mb k pend \<Longrightarrow> queue_state (suspend_thread mb) (suspend_sender_thread mb) (ipc_flag mb)
     (unat (mb_entry mb)) (unat (mb_size mb) - unat (mb_entry mb)) n k pend"
  by (simp_all add: mb_inv_def mb_state_def)

lemma box_sel [simp]:
  "suspend_thread (put_box mb v) = suspend_thread mb" "suspend_thread (get_box mb) = suspend_thread mb"
  "suspend_thread (urge_box mb v) = suspend_thread mb" "ipc_flag (put_box mb v) = ipc_flag mb"
  "ipc_flag (get_box mb) = ipc_flag mb" "ipc_flag (urge_box mb v) = ipc_flag mb"
  "suspend_sender_thread (put_box mb v) = suspend_sender_thread mb" "suspend_sender_thread (get_box mb) = suspend_sender_thread mb"
  "suspend_sender_thread (urge_box mb v) = suspend_sender_thread mb" "mb_size (put_box mb v) = mb_size mb"
  "mb_size (get_box mb) = mb_size mb" "mb_size (urge_box mb v) = mb_size mb" "mb_entry (put_box mb v) = mb_entry mb + 1"
  "mb_entry (get_box mb) = mb_entry mb - 1" "mb_entry (urge_box mb v) = mb_entry mb + 1"
  by (simp_all add: put_box_def get_box_def urge_box_def Let_def)

text \<open>
  A receive that is made, or goes on, with \<open>c\<close> no longer counted among the pending calls: one value may
  have been meant for \<open>c\<close>.
\<close>

lemma mb_recv_try_ok:
  assumes s: "mb_state (unat (mb_entry mb) - 1) (unat (mb_size mb) - unat (mb_entry mb)) n mb k pend"
    and c: "rt_current_thread k = Some c" "c \<noteq> idle_thread" "pend c = None" and time: "legal_time time"
  obtains (poll) k' where "mb_recv_try mb time k = Inr (Returned (- RT_ETIMEOUT), None, mb, k')" "mb_inv n mb k' pend"
      "mb_entry mb = 0" "time = 0"
    | (wait) k' where "mb_recv_try mb time k = Inr (Switched, None, mb, k')"
        "mb_inv n mb k' (pend(c := Some (Recv_call time (rt_tick k))))" "mb_entry mb = 0" "time \<noteq> 0"
    | (got) k' where "mb_recv_try mb time k = Inr (Returned RT_EOK, Some (hd (mb_queue mb)), get_box mb, k')"
        "mb_inv n (get_box mb) k' pend" "mb_entry mb \<noteq> 0"
proof -
  have ok: "mb_ok mb" and q: "queue_state (suspend_thread mb) (suspend_sender_thread mb) (ipc_flag mb) (unat (mb_entry mb) - 1)
      (unat (mb_size mb) - unat (mb_entry mb)) n k pend" using s by (simp_all add: mb_state_def)
  have r: "stat (tcbs k c) = RT_THREAD_RUNNING" using calls_inv_running [OF queue_state_sel(1) [OF q]] c(1) by auto
  have self: "rt_thread_self k = Some c" using c(1) by (simp add: rt_thread_self_def)
  show thesis
  proof (cases "mb_entry mb = 0")
    case True
    then have q0: "queue_state (suspend_thread mb) (suspend_sender_thread mb) (ipc_flag mb) 0
      (unat (mb_size mb) - unat (mb_entry mb)) n k pend" using q by simp
    show thesis
    proof (cases "time = 0")
      case zero: True
      have "queue_state (suspend_thread mb) (suspend_sender_thread mb) (ipc_flag mb) 0
        (unat (mb_size mb) - unat (mb_entry mb)) n (set_error c (- RT_ETIMEOUT) k) pend"
        by (rule queue_state_set_error [OF q0 c(1) r c(3)])
      then have "mb_inv n mb (set_error c (- RT_ETIMEOUT) k) pend" using ok True by (simp add: mb_inv_def mb_state_def)
      moreover have "mb_recv_try mb time k = Inr (Returned (- RT_ETIMEOUT), None, mb, set_error c (- RT_ETIMEOUT) k)"
        using True zero self by (simp add: mb_recv_try_def Let_def set_error_def upd_tcb_def)
      ultimately show thesis using poll True zero by blast
    next
      case nz: False
      obtain k' where k': "ipc_wait (suspend_thread mb) c (ipc_flag mb) time (set_error c RT_EOK k) = Inr k'"
        "queue_state (suspend_thread mb) (suspend_sender_thread mb) (ipc_flag mb) 0 (unat (mb_size mb) - unat (mb_entry mb)) n k'
           (pend(c := Some (Recv_call time (rt_tick k))))" using recv_waits [OF q0 c time] by metis
      have "mb_recv_try mb time k = Inr (Switched, None, mb, k')"
        using True nz self k'(1) by (simp add: mb_recv_try_def Let_def)
      moreover have "mb_inv n mb k' (pend(c := Some (Recv_call time (rt_tick k))))"
        using k'(2) ok True by (simp add: mb_inv_def mb_state_def)
      ultimately show thesis using wait True nz by blast
    qed
  next
    case some: False
    obtain k' where k': "wake_first (suspend_sender_thread mb) k = Inr k'"
      "queue_state (suspend_thread mb) (suspend_sender_thread mb) (ipc_flag mb) (unat (mb_entry mb) - 1)
         (Suc (unat (mb_size mb) - unat (mb_entry mb))) n k' pend" using wake_sender [OF q] by metis
    have e: "unat (mb_entry mb - 1) = unat (mb_entry mb) - 1" "0 < unat (mb_entry mb)"
      using unat_dec_pos [OF some] some by (simp_all add: unat_gt_0)
    have "mb_inv n (get_box mb) k' pend"
      using k'(2) get_box_ok(2) [OF ok some] e mb_okD(2) [OF ok]
      by (simp add: mb_inv_def mb_state_def Suc_diff_le [symmetric])
    moreover have "mb_recv_try mb time k = Inr (Returned RT_EOK, Some (hd (mb_queue mb)), get_box mb, k')"
      using some k'(1) by (simp add: mb_recv_try_def get_box_ok(1) [OF ok some])
    ultimately show thesis using got some by blast
  qed
qed

lemma mb_send_try_ok:
  assumes s: "mb_state (unat (mb_entry mb)) (unat (mb_size mb) - unat (mb_entry mb) - 1) n mb k pend"
    and c: "rt_current_thread k = Some c" "c \<noteq> idle_thread" "pend c = None" and time: "legal_time time"
  obtains (poll) k' where "mb_send_try mb v time k = Inr (Returned (- RT_EFULL), mb, k')" "mb_inv n mb k' pend"
      "mb_entry mb = mb_size mb" "time = 0"
    | (wait) k' where "mb_send_try mb v time k = Inr (Switched, mb, k')"
        "mb_inv n mb k' (pend(c := Some (Send_call v time (rt_tick k))))" "mb_entry mb = mb_size mb" "time \<noteq> 0"
    | (put) k' where "mb_send_try mb v time k = Inr (Returned RT_EOK, put_box mb v, k')"
        "mb_inv n (put_box mb v) k' pend" "mb_entry mb \<noteq> mb_size mb"
proof -
  have ok: "mb_ok mb" and q: "queue_state (suspend_thread mb) (suspend_sender_thread mb) (ipc_flag mb) (unat (mb_entry mb))
      (unat (mb_size mb) - unat (mb_entry mb) - 1) n k pend" using s by (simp_all add: mb_state_def)
  have r: "stat (tcbs k c) = RT_THREAD_RUNNING" using calls_inv_running [OF queue_state_sel(1) [OF q]] c(1) by auto
  have self: "rt_thread_self k = Some c" using c(1) by (simp add: rt_thread_self_def)
  show thesis
  proof (cases "mb_entry mb = mb_size mb")
    case True
    then have q0: "queue_state (suspend_thread mb) (suspend_sender_thread mb) (ipc_flag mb) (unat (mb_entry mb)) 0 n k pend"
      using q by simp
    show thesis
    proof (cases "time = 0")
      case zero: True
      have "queue_state (suspend_thread mb) (suspend_sender_thread mb) (ipc_flag mb) (unat (mb_entry mb)) 0 n (set_error c RT_EOK k) pend"
        by (rule queue_state_set_error [OF q0 c(1) r c(3)])
      then have "mb_inv n mb (set_error c RT_EOK k) pend" using ok True by (simp add: mb_inv_def mb_state_def)
      moreover have "mb_send_try mb v time k = Inr (Returned (- RT_EFULL), mb, set_error c RT_EOK k)"
        using True zero self by (simp add: mb_send_try_def Let_def)
      ultimately show thesis using poll True zero by blast
    next
      case nz: False
      obtain k' where k': "ipc_wait (suspend_sender_thread mb) c (ipc_flag mb) time (set_error c RT_EOK k) = Inr k'"
        "queue_state (suspend_thread mb) (suspend_sender_thread mb) (ipc_flag mb) (unat (mb_entry mb)) 0 n k'
           (pend(c := Some (Send_call v time (rt_tick k))))" using send_waits [OF q0 c time] by metis
      have "mb_send_try mb v time k = Inr (Switched, mb, k')"
        using True nz self k'(1) by (simp add: mb_send_try_def Let_def)
      moreover have "mb_inv n mb k' (pend(c := Some (Send_call v time (rt_tick k))))"
        using k'(2) ok True by (simp add: mb_inv_def mb_state_def)
      ultimately show thesis using wait True nz by blast
    qed
  next
    case room: False
    obtain k' where k': "wake_first (suspend_thread mb) k = Inr k'"
      "queue_state (suspend_thread mb) (suspend_sender_thread mb) (ipc_flag mb) (Suc (unat (mb_entry mb)))
         (unat (mb_size mb) - unat (mb_entry mb) - 1) n k' pend" using wake_receiver [OF q] by metis
    have "mb_inv n (put_box mb v) k' pend"
      using k'(2) put_box_ok(2) [OF ok room] mb_room(2) [OF ok room] by (simp add: mb_inv_def mb_state_def)
    moreover have "mb_send_try mb v time k = Inr (Returned RT_EOK, put_box mb v, k')"
      using room k'(1) by (simp add: mb_send_try_def put_box_ok(1) [OF ok room])
    ultimately show thesis using put room by blast
  qed
qed

section \<open>Runs of a mailbox\<close>

datatype mb_input = Mb_send u32 int | Mb_recv int | Mb_urgent u32

type_synonym mb_part = "(mailbox, u32 pcall, u32) part"

definition send_ends :: "u32 \<Rightarrow> int \<Rightarrow> u32 \<Rightarrow> int call \<Rightarrow> u32 pcall option \<times> u32 queue_event list" where
  "send_ends v time now r = (if r = Switched then Some (Send_call v time now) else None, if r = Returned RT_EOK then [Stored v] else [])"

definition recv_ends :: "int \<Rightarrow> u32 \<Rightarrow> int call \<Rightarrow> u32 option \<Rightarrow> u32 pcall option \<times> u32 queue_event list" where
  "recv_ends time now r got = (if r = Switched then Some (Recv_call time now) else None, case got of None \<Rightarrow> [] | Some x \<Rightarrow> [Taken x])"

definition mb_new_call :: "mb_input \<Rightarrow> mailbox \<Rightarrow> kernel \<Rightarrow> mb_part" where
  "mb_new_call i mb k =
     (case i of
        Mb_send v time \<Rightarrow> bind_err (rt_mb_send_wait mb v time k) (\<lambda>(r, mb, k'). Inr (send_ends v time (rt_tick k) r, mb, k'))
      | Mb_recv time \<Rightarrow> bind_err (rt_mb_recv mb time k) (\<lambda>(r, got, mb, k'). Inr (recv_ends time (rt_tick k) r got, mb, k'))
      | Mb_urgent v \<Rightarrow> bind_err (rt_mb_urgent mb v k) (\<lambda>(r, mb, k'). Inr ((None, if r = RT_EOK then [Urged v] else []), mb, k')))"

definition mb_go_on :: "nat \<Rightarrow> u32 pcall \<Rightarrow> mailbox \<Rightarrow> kernel \<Rightarrow> mb_part" where
  "mb_go_on c p mb k =
     (case p of
        Send_call v time start \<Rightarrow> bind_err (rt_mb_send_wait_wake c v time start mb k) (\<lambda>(r, mb, k').
          Inr (send_ends v (time_left time start (rt_tick k)) (rt_tick k) r, mb, k'))
      | Recv_call time start \<Rightarrow> bind_err (rt_mb_recv_wake c time start mb k) (\<lambda>(r, got, mb, k').
          Inr (recv_ends (time_left time start (rt_tick k)) (rt_tick k) r got, mb, k')))"

definition legal_mb_input :: "mb_input \<Rightarrow> bool" where
  "legal_mb_input i \<longleftrightarrow> (case i of Mb_send v time \<Rightarrow> legal_time time | Mb_recv time \<Rightarrow> legal_time time | _ \<Rightarrow> True)"

abbreviation mb_call_ok :: "nat \<Rightarrow> mailbox \<Rightarrow> (nat \<Rightarrow> u32 pcall option) \<Rightarrow> nat \<Rightarrow> mb_part \<Rightarrow> bool" where
  "mb_call_ok n mb pend c x \<equiv> part_ok (mb_inv n) mb_queue mb pend c x"

lemma error_codes_differ: "RT_EOK \<noteq> - RT_EFULL" "RT_EOK \<noteq> - RT_ETIMEOUT" "- RT_EFULL \<noteq> RT_EOK" "- RT_ETIMEOUT \<noteq> RT_EOK"
  by (simp_all add: err_defs)

lemma mb_send_try_call:
  assumes s: "mb_state (unat (mb_entry mb)) (unat (mb_size mb) - unat (mb_entry mb) - 1) n mb k (pend(c := None))"
    and c: "rt_current_thread k = Some c" "c \<noteq> idle_thread" and time: "legal_time time"
  shows "mb_call_ok n mb pend c
     (bind_err (mb_send_try mb v time k) (\<lambda>(r, mb, k'). Inr (send_ends v time (rt_tick k) r, mb, k')))"
proof -
  have ok: "mb_ok mb" using s by (simp add: mb_state_def)
  have none: "(pend(c := None)) c = None" by simp
  show ?thesis
  proof (rule mb_send_try_ok [OF s c none time, of v])
    fix k' assume "mb_send_try mb v time k = Inr (Returned (- RT_EFULL), mb, k')" "mb_inv n mb k' (pend(c := None))"
    then show ?thesis by (simp add: part_ok_def send_ends_def error_codes_differ)
  next
    fix k' assume "mb_send_try mb v time k = Inr (Switched, mb, k')"
      "mb_inv n mb k' (pend(c := None, c := Some (Send_call v time (rt_tick k))))"
    then show ?thesis by (simp add: part_ok_def send_ends_def)
  next
    fix k' assume "mb_send_try mb v time k = Inr (Returned RT_EOK, put_box mb v, k')"
      "mb_inv n (put_box mb v) k' (pend(c := None))" "mb_entry mb \<noteq> mb_size mb"
    then show ?thesis using put_box_ok(3) [OF ok] by (simp add: part_ok_def send_ends_def)
  qed
qed

lemma mb_recv_try_call:
  assumes s: "mb_state (unat (mb_entry mb) - 1) (unat (mb_size mb) - unat (mb_entry mb)) n mb k (pend(c := None))"
    and c: "rt_current_thread k = Some c" "c \<noteq> idle_thread" and time: "legal_time time"
  shows "mb_call_ok n mb pend c
     (bind_err (mb_recv_try mb time k) (\<lambda>(r, got, mb, k'). Inr (recv_ends time (rt_tick k) r got, mb, k')))"
proof -
  have ok: "mb_ok mb" using s by (simp add: mb_state_def)
  have none: "(pend(c := None)) c = None" by simp
  show ?thesis
  proof (rule mb_recv_try_ok [OF s c none time])
    fix k' assume "mb_recv_try mb time k = Inr (Returned (- RT_ETIMEOUT), None, mb, k')" "mb_inv n mb k' (pend(c := None))"
    then show ?thesis by (simp add: part_ok_def recv_ends_def)
  next
    fix k' assume "mb_recv_try mb time k = Inr (Switched, None, mb, k')"
      "mb_inv n mb k' (pend(c := None, c := Some (Recv_call time (rt_tick k))))"
    then show ?thesis by (simp add: part_ok_def recv_ends_def)
  next
    fix k' assume r: "mb_recv_try mb time k = Inr (Returned RT_EOK, Some (hd (mb_queue mb)), get_box mb, k')"
      "mb_inv n (get_box mb) k' (pend(c := None))" "mb_entry mb \<noteq> 0"
    from get_box_ok(3) [OF ok r(3)] obtain x xs where "mb_queue mb = x # xs" "mb_queue (get_box mb) = xs"
      by (cases "mb_queue mb") auto
    then show ?thesis using r by (simp add: part_ok_def recv_ends_def)
  qed
qed

lemma mb_inv_state: "mb_inv n mb k pend \<Longrightarrow> a \<le> unat (mb_entry mb) \<Longrightarrow> b \<le> unat (mb_size mb) - unat (mb_entry mb) \<Longrightarrow> mb_state a b n mb k pend"
  using queue_state_less unfolding mb_inv_def mb_state_def by blast

lemma mb_new_call_ok:
  assumes s: "mb_inv n mb k pend" and c: "rt_current_thread k = Some c" "c \<noteq> idle_thread" "pend c = None"
    and i: "legal_mb_input i"
  shows "mb_call_ok n mb pend c (mb_new_call i mb k)"
proof -
  have same: "pend(c := None) = pend" using c(3) by auto
  note q = mb_inv_parts(2) [OF s] and ok = mb_inv_parts(1) [OF s]
  have av: "scheduler_available k" by (rule calls_inv_sel(6) [OF queue_state_sel(1) [OF q] c(1)])
  show ?thesis
  proof (cases i)
    case (Mb_send v time)
    have st: "mb_state (unat (mb_entry mb)) (unat (mb_size mb) - unat (mb_entry mb) - 1) n mb k (pend(c := None))"
      unfolding same by (rule mb_inv_state [OF s]) simp_all
    from mb_send_try_call [OF st c(1,2), of time v] i Mb_send s av show ?thesis
      by (auto simp: mb_new_call_def rt_mb_send_wait_def legal_mb_input_def part_ok_def send_ends_def error_codes_differ same)
  next
    case (Mb_recv time)
    have st: "mb_state (unat (mb_entry mb) - 1) (unat (mb_size mb) - unat (mb_entry mb)) n mb k (pend(c := None))"
      unfolding same by (rule mb_inv_state [OF s]) simp_all
    from mb_recv_try_call [OF st c(1,2), of time] i Mb_recv s av show ?thesis
      by (auto simp: mb_new_call_def rt_mb_recv_def legal_mb_input_def part_ok_def recv_ends_def same)
  next
    case (Mb_urgent v)
    show ?thesis
    proof (cases "mb_entry mb = mb_size mb")
      case True
      then show ?thesis using s Mb_urgent
        by (simp add: mb_new_call_def rt_mb_urgent_def part_ok_def error_codes_differ same)
    next
      case room: False
      obtain k' where k': "wake_first (suspend_thread mb) k = Inr k'"
        "queue_state (suspend_thread mb) (suspend_sender_thread mb) (ipc_flag mb) (Suc (unat (mb_entry mb)))
           (unat (mb_size mb) - unat (mb_entry mb)) n k' pend" using wake_receiver [OF q] by metis
      have "mb_inv n (urge_box mb v) k' pend"
        using queue_state_less [OF k'(2), of "Suc (unat (mb_entry mb))" "unat (mb_size mb) - Suc (unat (mb_entry mb))"]
          urge_box_ok(2) [OF ok room] mb_room(2) [OF ok room] by (simp add: mb_inv_def mb_state_def)
      then show ?thesis using k'(1) Mb_urgent urge_box_ok(3) [OF ok room]
        by (simp add: mb_new_call_def urge_box_ok(1) [OF ok room] part_ok_def same)
    qed
  qed
qed

lemma mb_go_on_ok:
  assumes s: "mb_inv n mb k pend" and c: "rt_current_thread k = Some c" "c \<noteq> idle_thread" "pend c = Some p" and n: "n < 2 ^ 31"
  shows "mb_call_ok n mb pend c (mb_go_on c p mb k)"
proof -
  note q = mb_inv_parts(2) [OF s] and ok = mb_inv_parts(1) [OF s]
  note l = call_leaves [OF q c(1)] and time = queue_state_time_left [OF q c(3) n]
  have st: "mb_inv n mb k (pend(c := None))" if "error (tcbs k c) \<noteq> RT_EOK"
    using l(3) [OF that] ok by (simp add: mb_inv_def mb_state_def)
  show ?thesis
  proof (cases p)
    case (Send_call v t s')
    have "is_send pend c" using c(3) Send_call by (simp add: is_send_def)
    from l(2) [OF this] ok
    have "mb_state (unat (mb_entry mb)) (unat (mb_size mb) - unat (mb_entry mb) - 1) n mb k (pend(c := None))"
      by (simp add: mb_state_def)
    from mb_send_try_call [OF this c(1,2) time, of v] st Send_call show ?thesis
      by (auto simp: mb_go_on_def rt_mb_send_wait_wake_def rt_tick_get_def part_ok_def send_ends_def)
  next
    case (Recv_call t s')
    have "is_recv pend c" using c(3) Recv_call by (simp add: is_recv_def)
    from l(1) [OF this] ok
    have "mb_state (unat (mb_entry mb) - 1) (unat (mb_size mb) - unat (mb_entry mb)) n mb k (pend(c := None))"
      by (simp add: mb_state_def)
    from mb_recv_try_call [OF this c(1,2) time] st Recv_call show ?thesis
      by (auto simp: mb_go_on_def rt_mb_recv_wake_def rt_tick_get_def part_ok_def recv_ends_def)
  qed
qed

lemma mb_inv_tick:
  assumes "mb_inv n mb k pend"
  shows "\<exists>k'. rt_tick_increase own k = Some (Inr k') \<and> mb_inv (Suc n) mb k' pend"
  using queue_state_tick [OF mb_inv_parts(2) [OF assms], of own] mb_inv_parts(1) [OF assms]
  unfolding mb_inv_def mb_state_def by metis

interpretation mb_system: blocking_queue mb_new_call mb_go_on legal_mb_input mb_inv mb_queue
proof
  show "calls_inv k" if "mb_inv n mb k pend" for n mb k pend
    by (rule queue_state_sel(1) [OF mb_inv_parts(2) [OF that]])
qed (fact mb_new_call_ok mb_go_on_ok mb_inv_tick)+

section \<open>Properties\<close>

text \<open>Two words, one of them in use; receivers wait in list 7, senders in list 8.\<close>

definition demo_mailbox :: mailbox where
  "demo_mailbox = \<lparr>suspend_thread = 7, ipc_flag = RT_IPC_FLAG_FIFO, ipc_systemobject = True, msg_pool = [0, 5], mb_size = 2,
     mb_entry = 1, in_offset = 0, out_offset = 1, suspend_sender_thread = 8\<rparr>"

lemma demo_mailbox_inv: "mb_inv 0 demo_mailbox demo (\<lambda>_. None)"
proof -
  have "links demo (Wait w) = []" for w by (simp add: demo_def)
  then have "side_inv w (\<lambda>_. False) n demo" for w n by (simp add: side_inv_def)
  moreover have "mb_ok demo_mailbox" by (simp add: mb_ok_def demo_mailbox_def)
  ultimately show ?thesis
    using demo_calls_inv demo_kernel_inv(2)
    by (simp add: mb_inv_def mb_state_def queue_state_def demo_mailbox_def)
qed

text \<open>
  C7. Every run of sends, urgent sends, receives and ticks on a mailbox, by any threads in any order, from
  any consistent state: nothing faults, every call and interrupt ends, and the ring always holds what
  an abstract queue holds after the same history: values are received in the order in which they
  were sent, an urgent one first, none is lost, doubled or overwritten.
\<close>

theorem mailbox_runs:
  assumes "mb_inv 0 mb k (\<lambda>_. None)" and "legal_calls legal_mb_input is" and "ticks_in is < 2 ^ 31"
  shows "\<exists>r. run_steps (queue_step mb_new_call mb_go_on own) (queue_start mb k) is = Some (Inr r) \<and>
     calls_inv (queue_kernel r) \<and> settled (queue_kernel r) \<and>
     replay (mb_queue mb) (history r) = Some (mb_queue (the_queue r)) \<and> length (mb_queue (the_queue r)) \<le> unat (mb_size (the_queue r))"
proof -
  obtain r where r: "run_steps (queue_step mb_new_call mb_go_on own) (queue_start mb k) is = Some (Inr r)"
    "mb_inv (ticks_in is) (the_queue r) (queue_kernel r) (pending r)"
    "replay (mb_queue mb) (history r) = Some (mb_queue (the_queue r))" using mb_system.run [OF assms] by metis
  then show ?thesis using queue_state_sel(1,2) [OF mb_inv_parts(2) [OF r(2)]] mb_okD(2) [OF mb_inv_parts(1) [OF r(2)]] by simp
qed

lemma demo_mb_calls: "legal_calls legal_mb_input [Call (Mb_recv (- 1)), Call (Mb_recv 9), Tick, Call (Mb_send 4 0)]"
  "ticks_in [Call (Mb_recv (- 1)), Call (Mb_recv 9), Tick, Call (Mb_send 4 0)] < 2 ^ 31"
  by (simp_all add: legal_calls_def ticks_in_def legal_mb_input_def legal_time_def)

theorem mailbox_runs_witness:
  "\<exists>r. run_steps (queue_step mb_new_call mb_go_on (\<lambda>_. Inr)) (queue_start demo_mailbox demo)
       [Call (Mb_recv (- 1)), Call (Mb_recv 9), Tick, Call (Mb_send 4 0)] = Some (Inr r) \<and>
     replay (mb_queue demo_mailbox) (history r) = Some (mb_queue (the_queue r))"
  using mailbox_runs [OF demo_mailbox_inv demo_mb_calls, of "\<lambda>_. Inr"] by blast

text \<open>
  C8. In every state of such a run: while a thread waits to receive, there are no more values in the mailbox
  than woken receivers that are able to run and have not run yet, and while a thread waits to send, no more free places
  than woken senders. A waiting call is never forgotten beside a value or a place it could have.
\<close>

theorem mailbox_no_lost_wakeup:
  assumes "mb_inv 0 mb k (\<lambda>_. None)" and "legal_calls legal_mb_input is" and "ticks_in is < 2 ^ 31"
    and "run_steps (queue_step mb_new_call mb_go_on own) (queue_start mb k) is = Some (Inr r)"
  shows "(waiting (the_queue r) (queue_kernel r) = [] \<or> unat (mb_entry (the_queue r)) \<le>
       card {t. is_recv (pending r) t \<and> active (stat (tcbs (queue_kernel r) t)) \<and> error (tcbs (queue_kernel r) t) = RT_EOK}) \<and>
     (senders (the_queue r) (queue_kernel r) = [] \<or> unat (mb_size (the_queue r)) - unat (mb_entry (the_queue r)) \<le>
       card {t. is_send (pending r) t \<and> active (stat (tcbs (queue_kernel r) t)) \<and> error (tcbs (queue_kernel r) t) = RT_EOK})"
proof -
  have "mb_inv (ticks_in is) (the_queue r) (queue_kernel r) (pending r)"
    using mb_system.run [OF assms(1-3), of own] assms(4) by auto
  note d = queue_state_sel(5,6) [OF mb_inv_parts(2) [OF this]]
  from side_inv_woken [OF d(1)] side_inv_woken [OF d(2)] show ?thesis by blast
qed

theorem mailbox_no_lost_wakeup_witness:
  "\<exists>r. run_steps (queue_step mb_new_call mb_go_on (\<lambda>_. Inr)) (queue_start demo_mailbox demo)
       [Call (Mb_recv (- 1)), Call (Mb_recv 9), Tick, Call (Mb_send 4 0)] = Some (Inr r) \<and>
     (waiting (the_queue r) (queue_kernel r) = [] \<or> unat (mb_entry (the_queue r)) \<le>
       card {t. is_recv (pending r) t \<and> active (stat (tcbs (queue_kernel r) t)) \<and> error (tcbs (queue_kernel r) t) = RT_EOK})"
proof -
  obtain r where "run_steps (queue_step mb_new_call mb_go_on (\<lambda>_. Inr)) (queue_start demo_mailbox demo)
       [Call (Mb_recv (- 1)), Call (Mb_recv 9), Tick, Call (Mb_send 4 0)] = Some (Inr r)"
    using mb_system.run [OF demo_mailbox_inv demo_mb_calls, of "\<lambda>_. Inr"] by metis
  with mailbox_no_lost_wakeup [OF demo_mailbox_inv demo_mb_calls this] show ?thesis by blast
qed

end
