(* ===== verification/Mqueue.thy ===== *)
theory Mqueue
  imports Waiters
begin

text \<open>
  Message queues (\<open>rt-thread/src/ipc.c\<close>): a pool of slots linked by pointers, which are indices here, in
  a list of messages and a list of free slots. The calls enable interrupts while they copy a message,
  so that other threads can run between taking a slot and linking it: each call is split there as
  well as where it waits.
\<close>

section \<open>Operations\<close>

text \<open>A slot: the header \<open>struct rt_mq_message\<close> and the bytes behind it.\<close>

record mq_message =
  next_msg :: "nat option"
  body :: "u8 list"

record messagequeue = ipc +
  mq_pool :: "mq_message list"
  msg_size :: u16
  max_msgs :: u16
  mq_entry :: u16
  msg_queue_head :: "nat option"
  msg_queue_tail :: "nat option"
  msg_queue_free :: "nat option"
  mq_senders :: nat

definition RT_MQ_ENTRY_MAX :: u16 where "RT_MQ_ENTRY_MAX = 0xFFFF"

text \<open>\<open>msg->next = p\<close> and \<open>rt_memcpy(msg + 1, buffer, size)\<close>.\<close>

definition set_next :: "nat \<Rightarrow> nat option \<Rightarrow> messagequeue \<Rightarrow> fault + messagequeue" where
  "set_next n p mq =
     bind_err (arr_get (mq_pool mq) n) (\<lambda>m. Inr (mq\<lparr>mq_pool := (mq_pool mq)[n := m\<lparr>next_msg := p\<rparr>]\<rparr>))"

definition mq_copy_in :: "nat \<Rightarrow> u8 list \<Rightarrow> messagequeue \<Rightarrow> fault + messagequeue" where
  "mq_copy_in n buf mq =
     bind_err (arr_get (mq_pool mq) n) (\<lambda>m.
       if length buf \<le> length (body m)
       then Inr (mq\<lparr>mq_pool := (mq_pool mq)[n := m\<lparr>body := buf @ drop (length buf) (body m)\<rparr>]\<rparr>)
       else Inl OutOfBounds)"

text \<open>The loop that puts every slot on the free list.\<close>

fun mq_free_all :: "nat list \<Rightarrow> messagequeue \<Rightarrow> fault + messagequeue" where
  "mq_free_all [] mq = Inr mq"
| "mq_free_all (temp # ts) mq =
     bind_err (set_next temp (msg_queue_free mq) mq) (\<lambda>mq. mq_free_all ts (mq\<lparr>msg_queue_free := Some temp\<rparr>))"

text \<open>
  \<open>raw\<close> is what the memory of the pool holds, slot by slot, for a given slot size; \<open>w\<close> and \<open>v\<close> are the addresses
  of the two lists of threads.
\<close>

definition mq_set_up :: "nat \<Rightarrow> nat \<Rightarrow> bool \<Rightarrow> (nat \<Rightarrow> nat \<Rightarrow> mq_message) \<Rightarrow> u16 \<Rightarrow> u16 \<Rightarrow> u8 \<Rightarrow> kernel \<Rightarrow> fault + messagequeue \<times> kernel" where
  "mq_set_up w v static raw sz n flag k =
     bind_err (mq_free_all [0..<unat n]
        \<lparr>suspend_thread = w, ipc_flag = flag, ipc_systemobject = static, mq_pool = map (raw (unat sz)) [0..<unat n],
          msg_size = sz, max_msgs = n, mq_entry = 0, msg_queue_head = None, msg_queue_tail = None, msg_queue_free = None,
          mq_senders = v\<rparr>) (\<lambda>mq. Inr (mq, ipc_object_init v (ipc_object_init w k)))"

definition rt_mq_init ::
    "nat \<Rightarrow> nat \<Rightarrow> (nat \<Rightarrow> nat \<Rightarrow> mq_message) \<Rightarrow> u32 \<Rightarrow> u32 \<Rightarrow> u8 \<Rightarrow> kernel \<Rightarrow> fault + int \<times> messagequeue \<times> kernel" where
  "rt_mq_init w v raw sz pool_size flag k =
     (if flag = RT_IPC_FLAG_FIFO \<or> flag = RT_IPC_FLAG_PRIO then
        (let sz = (ucast (RT_ALIGN sz 4) :: u16); n = ucast (pool_size div (ucast sz + 4))
         in bind_err (mq_set_up w v True raw sz n flag k) (\<lambda>(mq, k). Inr (RT_EOK, mq, k)))
      else Inl AssertFailed)"

definition mq_resume_all :: "messagequeue \<Rightarrow> kernel \<Rightarrow> (fault + kernel) option" where
  "mq_resume_all mq k =
     bind_opt (ipc_list_resume_all (suspend_thread mq) k) (ipc_list_resume_all (mq_senders mq))"

definition rt_mq_detach :: "messagequeue \<Rightarrow> kernel \<Rightarrow> (fault + int \<times> kernel) option" where
  "rt_mq_detach mq k =
     (if ipc_systemobject mq then bind_opt (mq_resume_all mq k) (\<lambda>k. Some (Inr (RT_EOK, k)))
      else Some (Inl AssertFailed))"

text \<open>\<open>raw\<close> is None when the allocator has no memory for that many bytes.\<close>

definition rt_mq_create ::
    "(nat \<times> nat) option \<Rightarrow> (u32 \<Rightarrow> (nat \<Rightarrow> nat \<Rightarrow> mq_message) option) \<Rightarrow> u32 \<Rightarrow> u32 \<Rightarrow> u8 \<Rightarrow> kernel \<Rightarrow>
     fault + messagequeue option \<times> kernel" where
  "rt_mq_create obj raw sz n flag k =
     (if (flag = RT_IPC_FLAG_FIFO \<or> flag = RT_IPC_FLAG_PRIO) \<and> not_in_interrupt k then
        (case obj of None \<Rightarrow> Inr (None, k)
         | Some (w, v) \<Rightarrow>
             let sz = (ucast (RT_ALIGN sz 4) :: u16); n = (ucast n :: u16)
             in (case raw ((ucast sz + 4) * ucast n) of None \<Rightarrow> Inr (None, ipc_object_init w k)
                 | Some raw \<Rightarrow> bind_err (mq_set_up w v False raw sz n flag k) (\<lambda>(mq, k). Inr (Some mq, k))))
      else Inl AssertFailed)"

definition rt_mq_delete :: "messagequeue \<Rightarrow> kernel \<Rightarrow> (fault + int \<times> kernel) option" where
  "rt_mq_delete mq k =
     (if \<not> ipc_systemobject mq \<and> not_in_interrupt k
      then bind_opt (mq_resume_all mq k) (\<lambda>k. Some (Inr (RT_EOK, k))) else Some (Inl AssertFailed))"

text \<open>How a part of a call ends: the call returns, its thread waits, or it has taken a slot.\<close>

datatype mq_turn = Done int | Blocked | Took nat

text \<open>The loop head of \<open>rt_mq_send_wait\<close> and the taking of a free slot.\<close>

definition mq_send_try :: "messagequeue \<Rightarrow> int \<Rightarrow> kernel \<Rightarrow> fault + mq_turn \<times> messagequeue \<times> kernel" where
  "mq_send_try mq timeout k =
     (case msg_queue_free mq of
        None \<Rightarrow>
          (case rt_thread_self k of None \<Rightarrow> Inl NullPointer
           | Some t \<Rightarrow>
               let k = set_error t RT_EOK k
               in if timeout = 0 then Inr (Done (- RT_EFULL), mq, k)
                  else bind_err (ipc_wait (mq_senders mq) t (ipc_flag mq) timeout k) (\<lambda>k. Inr (Blocked, mq, k)))
      | Some n \<Rightarrow> bind_err (arr_get (mq_pool mq) n) (\<lambda>m. Inr (Took n, mq\<lparr>msg_queue_free := next_msg m\<rparr>, k)))"

definition rt_mq_send_wait :: "messagequeue \<Rightarrow> u8 list \<Rightarrow> int \<Rightarrow> kernel \<Rightarrow> fault + mq_turn \<times> messagequeue \<times> kernel" where
  "rt_mq_send_wait mq buf timeout k =
     (if buf = [] \<or> (timeout \<noteq> 0 \<and> \<not> scheduler_available k) then Inl AssertFailed
      else if length buf > unat (msg_size mq) then Inr (Done (- RT_ERROR), mq, k)
      else if msg_queue_free mq = None \<and> timeout = 0 then Inr (Done (- RT_EFULL), mq, k)
      else mq_send_try mq timeout k)"

definition rt_mq_send_wait_wake :: "nat \<Rightarrow> int \<Rightarrow> u32 \<Rightarrow> messagequeue \<Rightarrow> kernel \<Rightarrow> fault + mq_turn \<times> messagequeue \<times> kernel" where
  "rt_mq_send_wait_wake t timeout start mq k =
     (if error (tcbs k t) \<noteq> RT_EOK then Inr (Done (error (tcbs k t)), mq, k)
      else mq_send_try mq (time_left timeout start (rt_tick_get k)) k)"

text \<open>With interrupts enabled: the new tail has no successor; copy.\<close>

definition mq_fill :: "nat \<Rightarrow> u8 list \<Rightarrow> messagequeue \<Rightarrow> fault + messagequeue" where
  "mq_fill n buf mq = bind_err (set_next n None mq) (mq_copy_in n buf)"

text \<open>One message more: count it and wake a receiver.\<close>

definition mq_count :: "messagequeue \<Rightarrow> kernel \<Rightarrow> fault + int \<times> messagequeue \<times> kernel" where
  "mq_count mq k =
     (if mq_entry mq < RT_MQ_ENTRY_MAX then
        (let mq = mq\<lparr>mq_entry := mq_entry mq + 1\<rparr>
         in bind_err (wake_first (suspend_thread mq) k) (\<lambda>k. Inr (RT_EOK, mq, k)))
      else Inr (- RT_EFULL, mq, k))"

definition mq_link :: "nat \<Rightarrow> messagequeue \<Rightarrow> kernel \<Rightarrow> fault + int \<times> messagequeue \<times> kernel" where
  "mq_link n mq k =
     bind_err (case msg_queue_tail mq of None \<Rightarrow> Inr mq | Some m \<Rightarrow> set_next m (Some n) mq) (\<lambda>mq.
       let mq = mq\<lparr>msg_queue_tail := Some n\<rparr>;
           mq = (if msg_queue_head mq = None then mq\<lparr>msg_queue_head := Some n\<rparr> else mq)
       in mq_count mq k)"

definition rt_mq_send :: "messagequeue \<Rightarrow> u8 list \<Rightarrow> kernel \<Rightarrow> fault + mq_turn \<times> messagequeue \<times> kernel" where
  "rt_mq_send mq buf k = rt_mq_send_wait mq buf 0 k"

text \<open>An urgent message, up to the taking of a slot, and its linking at the front.\<close>

definition rt_mq_urgent :: "messagequeue \<Rightarrow> u8 list \<Rightarrow> fault + mq_turn \<times> messagequeue" where
  "rt_mq_urgent mq buf =
     (if buf = [] then Inl AssertFailed
      else if length buf > unat (msg_size mq) then Inr (Done (- RT_ERROR), mq)
      else case msg_queue_free mq of None \<Rightarrow> Inr (Done (- RT_EFULL), mq)
      | Some n \<Rightarrow> bind_err (arr_get (mq_pool mq) n) (\<lambda>m. Inr (Took n, mq\<lparr>msg_queue_free := next_msg m\<rparr>)))"

definition mq_link_front :: "nat \<Rightarrow> messagequeue \<Rightarrow> kernel \<Rightarrow> fault + int \<times> messagequeue \<times> kernel" where
  "mq_link_front n mq k =
     bind_err (set_next n (msg_queue_head mq) mq) (\<lambda>mq.
       let mq = mq\<lparr>msg_queue_head := Some n\<rparr>;
           mq = (if msg_queue_tail mq = None then mq\<lparr>msg_queue_tail := Some n\<rparr> else mq)
       in mq_count mq k)"

text \<open>The loop head of \<open>rt_mq_recv\<close> and the taking of the first message.\<close>

definition mq_recv_try :: "messagequeue \<Rightarrow> int \<Rightarrow> kernel \<Rightarrow> fault + mq_turn \<times> messagequeue \<times> kernel" where
  "mq_recv_try mq timeout k =
     (if mq_entry mq = 0 then
        (case rt_thread_self k of None \<Rightarrow> Inl NullPointer
         | Some t \<Rightarrow>
             let k = set_error t RT_EOK k
             in if timeout = 0 then Inr (Done (- RT_ETIMEOUT), mq, set_error t (- RT_ETIMEOUT) k)
                else bind_err (ipc_wait (suspend_thread mq) t (ipc_flag mq) timeout k) (\<lambda>k. Inr (Blocked, mq, k)))
      else case msg_queue_head mq of None \<Rightarrow> Inl NullPointer
      | Some n \<Rightarrow> bind_err (arr_get (mq_pool mq) n) (\<lambda>m.
          let mq = mq\<lparr>msg_queue_head := next_msg m\<rparr>;
              mq = (if msg_queue_tail mq = Some n then mq\<lparr>msg_queue_tail := None\<rparr> else mq);
              mq = (if mq_entry mq > 0 then mq\<lparr>mq_entry := mq_entry mq - 1\<rparr> else mq)
          in Inr (Took n, mq, k)))"

definition rt_mq_recv :: "messagequeue \<Rightarrow> u32 \<Rightarrow> int \<Rightarrow> kernel \<Rightarrow> fault + mq_turn \<times> messagequeue \<times> kernel" where
  "rt_mq_recv mq sz timeout k =
     (if sz = 0 \<or> (timeout \<noteq> 0 \<and> \<not> scheduler_available k) then Inl AssertFailed
      else if mq_entry mq = 0 \<and> timeout = 0 then Inr (Done (- RT_ETIMEOUT), mq, k)
      else mq_recv_try mq timeout k)"

definition rt_mq_recv_wake :: "nat \<Rightarrow> int \<Rightarrow> u32 \<Rightarrow> messagequeue \<Rightarrow> kernel \<Rightarrow> fault + mq_turn \<times> messagequeue \<times> kernel" where
  "rt_mq_recv_wake t timeout start mq k =
     (if error (tcbs k t) \<noteq> RT_EOK then Inr (Done (error (tcbs k t)), mq, k)
      else mq_recv_try mq (time_left timeout start (rt_tick_get k)) k)"

text \<open>With interrupts enabled: the bytes copied to the buffer of the receiver. Then the slot is freed.\<close>

definition mq_copy_out :: "nat \<Rightarrow> u32 \<Rightarrow> messagequeue \<Rightarrow> fault + u8 list" where
  "mq_copy_out n sz mq =
     bind_err (arr_get (mq_pool mq) n) (\<lambda>m.
       let count = (if sz > ucast (msg_size mq) then unat (msg_size mq) else unat sz)
       in if count \<le> length (body m) then Inr (take count (body m)) else Inl OutOfBounds)"

definition mq_release :: "nat \<Rightarrow> messagequeue \<Rightarrow> kernel \<Rightarrow> fault + int \<times> messagequeue \<times> kernel" where
  "mq_release n mq k =
     bind_err (set_next n (msg_queue_free mq) mq) (\<lambda>mq.
     let mq = mq\<lparr>msg_queue_free := Some n\<rparr>
     in bind_err (wake_first (mq_senders mq) k) (\<lambda>k. Inr (RT_EOK, mq, k)))"

text \<open>The loop of a reset that frees all messages; None stands for a loop that does not end.\<close>

partial_function (option) mq_flush :: "messagequeue \<Rightarrow> (fault + messagequeue) option" where
  "mq_flush mq =
     (case msg_queue_head mq of None \<Rightarrow> Some (Inr mq)
      | Some n \<Rightarrow>
          (case arr_get (mq_pool mq) n of Inl e \<Rightarrow> Some (Inl e)
           | Inr m \<Rightarrow>
               mq_flush (mq\<lparr>mq_pool := (mq_pool mq)[n := m\<lparr>next_msg := msg_queue_free mq\<rparr>], msg_queue_head := next_msg m,
                 msg_queue_tail := if msg_queue_tail mq = Some n then None else msg_queue_tail mq, msg_queue_free := Some n\<rparr>)))"

definition rt_mq_control :: "messagequeue \<Rightarrow> int \<Rightarrow> kernel \<Rightarrow> (fault + int \<times> messagequeue \<times> kernel) option" where
  "rt_mq_control mq cmd k =
     (if cmd = RT_IPC_CMD_RESET then
        bind_opt (mq_resume_all mq k) (\<lambda>k.
        bind_opt (mq_flush mq) (\<lambda>mq.
          Some (bind_err (rt_schedule k) (\<lambda>k. Inr (RT_EOK, mq\<lparr>mq_entry := 0\<rparr>, k)))))
      else Some (Inr (- RT_ERROR, mq, k)))"

section \<open>The lists in the pool\<close>

text \<open>The slots of the list that begins at \<open>p\<close>; the fuel is the number of slots.\<close>

fun chain :: "mq_message list \<Rightarrow> nat option \<Rightarrow> nat list \<Rightarrow> bool" where
  "chain ns p [] \<longleftrightarrow> p = None"
| "chain ns p (n # xs) \<longleftrightarrow> p = Some n \<and> n < length ns \<and> chain ns (next_msg (ns ! n)) xs"

primrec walk :: "nat \<Rightarrow> mq_message list \<Rightarrow> nat option \<Rightarrow> nat list" where
  "walk 0 ns p = []"
| "walk (Suc f) ns p = (case p of None \<Rightarrow> [] | Some n \<Rightarrow> n # walk f ns (next_msg (ns ! n)))"

lemma walk_chain: "chain ns p xs \<Longrightarrow> length xs \<le> f \<Longrightarrow> walk f ns p = xs"
proof (induction f arbitrary: p xs)
  case (Suc f)
  then show ?case by (cases xs) auto
qed simp

lemma chain_frame: "m \<notin> set xs \<Longrightarrow> chain (ns[m := x]) p xs \<longleftrightarrow> chain ns p xs"
  by (induction xs arbitrary: p) auto

text \<open>A change of a slot that keeps its pointer.\<close>

lemma chain_body:
  assumes "next_msg x = next_msg (ns ! m)"
  shows "chain (ns[m := x]) p xs \<longleftrightarrow> chain ns p xs"
proof -
  have "m < length ns \<Longrightarrow> next_msg (ns[m := x] ! n) = next_msg (ns ! n)" for n using assms by (cases "n = m") simp_all
  then have "m < length ns \<Longrightarrow> ?thesis" by (induction xs arbitrary: p) auto
  then show ?thesis by (cases "m < length ns") (simp_all add: list_update_beyond)
qed

lemma chain_in: "chain ns p xs \<Longrightarrow> set xs \<subseteq> {..<length ns}"
  by (induction xs arbitrary: p) auto

lemma chain_snoc:
  assumes "chain ns p xs" "xs \<noteq> []" "distinct xs" "m \<notin> set xs" "m < length ns" "next_msg (ns ! m) = None"
  shows "chain (ns[last xs := (ns ! last xs)\<lparr>next_msg := Some m\<rparr>]) p (xs @ [m])"
  using assms
proof (induction xs arbitrary: p)
  case (Cons n xs)
  show ?case
  proof (cases xs)
    case Nil
    then show ?thesis using Cons.prems by simp
  next
    case (Cons n' ys)
    then have "last xs \<noteq> n" using Cons.prems(3) last_in_set [of xs] by auto
    then show ?thesis using Cons Cons.IH Cons.prems by (auto simp: nth_list_update_neq)
  qed
qed simp

text \<open>Free list \<open>fs\<close>, messages \<open>qs\<close>, and the slots \<open>H\<close> that are in the hands of a call.\<close>

definition layout :: "messagequeue \<Rightarrow> nat list \<Rightarrow> nat list \<Rightarrow> nat set \<Rightarrow> bool" where
  "layout mq fs qs H \<longleftrightarrow>
     chain (mq_pool mq) (msg_queue_free mq) fs \<and> chain (mq_pool mq) (msg_queue_head mq) qs \<and>
     msg_queue_tail mq = (if qs = [] then None else Some (last qs)) \<and> distinct (fs @ qs) \<and>
     H \<inter> set (fs @ qs) = {} \<and> H \<union> set (fs @ qs) = {..<length (mq_pool mq)} \<and>
     length (mq_pool mq) = unat (max_msgs mq) \<and> (\<forall>m \<in> set (mq_pool mq). length (body m) = unat (msg_size mq))"

definition queued :: "messagequeue \<Rightarrow> nat list" where
  "queued mq = walk (length (mq_pool mq)) (mq_pool mq) (msg_queue_head mq)"

definition unused :: "messagequeue \<Rightarrow> nat list" where
  "unused mq = walk (length (mq_pool mq)) (mq_pool mq) (msg_queue_free mq)"

definition mq_content :: "messagequeue \<Rightarrow> u8 list list" where
  "mq_content mq = map (\<lambda>n. body (mq_pool mq ! n)) (queued mq)"

lemma distinct_fits: "distinct xs \<Longrightarrow> set xs \<subseteq> {..<n} \<Longrightarrow> length xs \<le> n"
  by (metis card_lessThan card_mono distinct_card finite_lessThan)

lemma layoutD:
  assumes "layout mq fs qs H"
  shows "queued mq = qs" "unused mq = fs" "distinct (fs @ qs)" "n \<in> H \<Longrightarrow> n < length (mq_pool mq)"
    "n \<in> H \<Longrightarrow> n \<notin> set fs \<and> n \<notin> set qs" "n \<in> set fs \<or> n \<in> set qs \<Longrightarrow> n < length (mq_pool mq)"
    "length (mq_pool mq) = unat (max_msgs mq)" "n < length (mq_pool mq) \<Longrightarrow> length (body (mq_pool mq ! n)) = unat (msg_size mq)"
    "mq_content mq = map (\<lambda>n. body (mq_pool mq ! n)) qs"
proof -
  have c: "chain (mq_pool mq) (msg_queue_free mq) fs" "chain (mq_pool mq) (msg_queue_head mq) qs" "distinct (fs @ qs)"
    using assms by (auto simp: layout_def)
  have "length fs \<le> length (mq_pool mq)" "length qs \<le> length (mq_pool mq)"
    using c chain_in distinct_fits by (metis distinct_append)+
  then show q: "queued mq = qs" and "unused mq = fs" using c walk_chain by (auto simp: queued_def unused_def)
  show "mq_content mq = map (\<lambda>n. body (mq_pool mq ! n)) qs" by (simp add: mq_content_def q)
  show "n \<in> H \<Longrightarrow> n < length (mq_pool mq)" "n \<in> set fs \<or> n \<in> set qs \<Longrightarrow> n < length (mq_pool mq)"
    using assms unfolding layout_def by auto
qed (use assms in \<open>auto simp: layout_def\<close>)

lemma free_taken:
  assumes l: "layout mq fs qs H" and n: "msg_queue_free mq = Some n"
  obtains m fs' where "arr_get (mq_pool mq) n = Inr m" "fs = n # fs'"
    "layout (mq\<lparr>msg_queue_free := next_msg m\<rparr>) fs' qs (insert n H)" "n \<notin> H" "length (body m) = unat (msg_size mq)"
proof -
  have c: "chain (mq_pool mq) (Some n) fs" using l n by (simp add: layout_def)
  then obtain fs' where fs: "fs = n # fs'" by (cases fs) auto
  then have "layout (mq\<lparr>msg_queue_free := next_msg (mq_pool mq ! n)\<rparr>) fs' qs (insert n H)"
    using l c by (auto simp: layout_def)
  moreover have "n \<notin> H" using l fs by (auto simp: layout_def)
  moreover have "n < length (mq_pool mq)" using c fs by simp
  moreover from this have "length (body (mq_pool mq ! n)) = unat (msg_size mq)" by (rule layoutD(8) [OF l])
  ultimately show thesis using that fs by simp
qed

text \<open>A change of a slot in the hands of a call.\<close>

lemma held_change:
  assumes l: "layout mq fs qs H" and n: "n \<in> H" and x: "length (body x) = unat (msg_size mq)"
  shows "layout (mq\<lparr>mq_pool := (mq_pool mq)[n := x]\<rparr>) fs qs H"
    and "mq_content (mq\<lparr>mq_pool := (mq_pool mq)[n := x]\<rparr>) = mq_content mq"
proof -
  note d = layoutD(5) [OF l n]
  show L: "layout (mq\<lparr>mq_pool := (mq_pool mq)[n := x]\<rparr>) fs qs H"
    using l d x unfolding layout_def by (auto simp: chain_frame dest!: set_update_subset_insert [THEN subsetD])
  have "map (\<lambda>k. body ((mq_pool mq)[n := x] ! k)) qs = map (\<lambda>k. body (mq_pool mq ! k)) qs"
    using d by (intro map_cong refl) (metis nth_list_update_neq)
  then show "mq_content (mq\<lparr>mq_pool := (mq_pool mq)[n := x]\<rparr>) = mq_content mq"
    using layoutD(9) [OF L] layoutD(9) [OF l] by simp
qed

lemma set_next_held:
  assumes l: "layout mq fs qs H" and n: "n \<in> H"
  obtains mq' where "set_next n p mq = Inr mq'" "layout mq' fs qs H" "mq_content mq' = mq_content mq"
    "mq' = mq\<lparr>mq_pool := (mq_pool mq)[n := (mq_pool mq ! n)\<lparr>next_msg := p\<rparr>]\<rparr>" "n < length (mq_pool mq)"
proof -
  have i: "n < length (mq_pool mq)" by (rule layoutD(4) [OF l n])
  then have "length (body (mq_pool mq ! n)) = unat (msg_size mq)" by (rule layoutD(8) [OF l])
  then show thesis using that held_change [OF l n, of "(mq_pool mq ! n)\<lparr>next_msg := p\<rparr>"] i by (simp add: set_next_def)
qed

lemma mq_copy_in_held:
  assumes l: "layout mq fs qs H" and n: "n \<in> H" and b: "length buf \<le> unat (msg_size mq)"
  obtains mq' where "mq_copy_in n buf mq = Inr mq'" "layout mq' fs qs H" "mq_content mq' = mq_content mq"
    "mq' = mq\<lparr>mq_pool := (mq_pool mq)[n := (mq_pool mq ! n)\<lparr>body := buf @ drop (length buf) (body (mq_pool mq ! n))\<rparr>]\<rparr>"
    "n < length (mq_pool mq)"
proof -
  have i: "n < length (mq_pool mq)" by (rule layoutD(4) [OF l n])
  then have "length (body (mq_pool mq ! n)) = unat (msg_size mq)" by (rule layoutD(8) [OF l])
  then show thesis
    using that b held_change [OF l n, of "(mq_pool mq ! n)\<lparr>body := buf @ drop (length buf) (body (mq_pool mq ! n))\<rparr>"] i
    by (simp add: mq_copy_in_def)
qed

text \<open>Linking a filled slot at the end or at the front, taking the first, and freeing.\<close>

definition linked :: "nat \<Rightarrow> messagequeue \<Rightarrow> messagequeue" where
  "linked n mq =
     (let ns = (case msg_queue_tail mq of None \<Rightarrow> mq_pool mq
                | Some m \<Rightarrow> (mq_pool mq)[m := (mq_pool mq ! m)\<lparr>next_msg := Some n\<rparr>])
      in mq\<lparr>mq_pool := ns, msg_queue_tail := Some n,
           msg_queue_head := if msg_queue_head mq = None then Some n else msg_queue_head mq\<rparr>)"

lemma linked_layout:
  assumes l: "layout mq fs qs H" and n: "n \<in> H" and e: "next_msg (mq_pool mq ! n) = None"
  shows "layout (linked n mq) fs (qs @ [n]) (H - {n})" and "mq_content (linked n mq) = mq_content mq @ [body (mq_pool mq ! n)]"
    and "\<And>m. m \<notin> set qs \<Longrightarrow> mq_pool (linked n mq) ! m = mq_pool mq ! m"
    and "mq_link n mq k = mq_count (linked n mq) k"
proof -
  note d = layoutD [OF l]
  have i: "n < length (mq_pool mq)" by (rule d(4) [OF n])
  have bd: "body (mq_pool (linked n mq) ! m) = body (mq_pool mq ! m)" if "m < length (mq_pool mq)" for m
    using that by (cases "msg_queue_tail mq"; cases "msg_queue_tail mq = Some m") (auto simp: linked_def Let_def)
  have L: "layout (linked n mq) fs (qs @ [n]) (H - {n})"
  proof (cases "qs = []")
    case True
    then show ?thesis using l n i e by (auto simp: layout_def linked_def)
  next
    case False
    have t: "msg_queue_tail mq = Some (last qs)" and c: "chain (mq_pool mq) (msg_queue_head mq) qs" and f: "chain (mq_pool mq) (msg_queue_free mq) fs"
      using l False by (simp_all add: layout_def)
    have h: "msg_queue_head mq \<noteq> None" using c False by (cases qs) auto
    have q: "last qs \<notin> set fs" using d(3) last_in_set [OF False] by auto
    have b: "\<forall>m \<in> set ((mq_pool mq)[last qs := (mq_pool mq ! last qs)\<lparr>next_msg := Some n\<rparr>]). length (body m) = unat (msg_size mq)"
    proof
      fix m assume "m \<in> set ((mq_pool mq)[last qs := (mq_pool mq ! last qs)\<lparr>next_msg := Some n\<rparr>])"
      then have "m = (mq_pool mq ! last qs)\<lparr>next_msg := Some n\<rparr> \<or> m \<in> set (mq_pool mq)"
        using set_update_subset_insert by fast
      then show "length (body m) = unat (msg_size mq)"
        using d(6,8) last_in_set [OF False] l by (auto simp: layout_def)
    qed
    show ?thesis
      using chain_snoc [OF c False _ _ i e] d(3) d(5) [OF n] f l n h b q unfolding layout_def
      by (auto simp: linked_def t chain_frame)
  qed
  then show "layout (linked n mq) fs (qs @ [n]) (H - {n})" .
  show "mq_content (linked n mq) = mq_content mq @ [body (mq_pool mq ! n)]"
    using layoutD(9) [OF L] d(9) bd d(6) i by simp
  show "mq_pool (linked n mq) ! m = mq_pool mq ! m" if "m \<notin> set qs" for m
  proof (cases "qs = []")
    case True
    then show ?thesis using l by (simp add: linked_def layout_def)
  next
    case False
    then have "last qs \<noteq> m" using that last_in_set by blast
    then show ?thesis using False l by (simp add: linked_def layout_def)
  qed
  show "mq_link n mq k = mq_count (linked n mq) k"
  proof (cases "msg_queue_tail mq")
    case None
    then show ?thesis by (simp add: mq_link_def linked_def Let_def)
  next
    case (Some m)
    then have "m < length (mq_pool mq)" using l d(6) by (auto simp: layout_def split: if_splits)
    then show ?thesis using Some by (simp add: mq_link_def linked_def Let_def set_next_def)
  qed
qed

lemma tail_same: "msg_queue_tail mq = a \<Longrightarrow> mq\<lparr>msg_queue_tail := a\<rparr> = mq"
  by auto

definition linked_front :: "nat \<Rightarrow> messagequeue \<Rightarrow> messagequeue" where
  "linked_front n mq =
     mq\<lparr>mq_pool := (mq_pool mq)[n := (mq_pool mq ! n)\<lparr>next_msg := msg_queue_head mq\<rparr>], msg_queue_head := Some n,
       msg_queue_tail := if msg_queue_tail mq = None then Some n else msg_queue_tail mq\<rparr>"

lemma linked_front_layout:
  assumes l: "layout mq fs qs H" and n: "n \<in> H"
  shows "layout (linked_front n mq) fs (n # qs) (H - {n})"
    and "mq_content (linked_front n mq) = body (mq_pool mq ! n) # mq_content mq"
    and "mq_link_front n mq k = mq_count (linked_front n mq) k"
proof -
  note d = layoutD [OF l]
  obtain mq' where mq': "set_next n (msg_queue_head mq) mq = Inr mq'" "layout mq' fs qs H" "mq_content mq' = mq_content mq"
    "mq' = mq\<lparr>mq_pool := (mq_pool mq)[n := (mq_pool mq ! n)\<lparr>next_msg := msg_queue_head mq\<rparr>]\<rparr>" "n < length (mq_pool mq)"
    using set_next_held [OF l n] by metis
  have f: "linked_front n mq = mq'\<lparr>msg_queue_head := Some n, msg_queue_tail := if msg_queue_tail mq = None then Some n else msg_queue_tail mq\<rparr>"
    by (simp add: linked_front_def mq'(4))
  have nx: "next_msg (mq_pool mq' ! n) = msg_queue_head mq'" "body (mq_pool mq' ! n) = body (mq_pool mq ! n)" "n < length (mq_pool mq')"
    using mq'(4,5) by simp_all
  have L: "layout (linked_front n mq) fs (n # qs) (H - {n})"
    using mq'(2) nx n layoutD(5) [OF mq'(2) n] unfolding layout_def f by (auto simp: mq'(4))
  then show "layout (linked_front n mq) fs (n # qs) (H - {n})" .
  show "mq_content (linked_front n mq) = body (mq_pool mq ! n) # mq_content mq"
    using layoutD(9) [OF L] layoutD(9) [OF mq'(2)] mq'(3) nx(2) by (simp add: f)
  show "mq_link_front n mq k = mq_count (linked_front n mq) k"
  proof (cases "msg_queue_tail mq")
    case None
    then show ?thesis using mq'(1) by (simp add: mq_link_front_def f Let_def) (simp add: mq'(4))
  next
    case (Some a)
    then have t: "msg_queue_tail mq' = Some a" by (simp add: mq'(4))
    have e: "mq'\<lparr>msg_queue_head := Some n, msg_queue_tail := Some a\<rparr> = mq'\<lparr>msg_queue_head := Some n\<rparr>"
      by (rule tail_same) (simp add: t)
    show ?thesis using Some t mq'(1) by (simp add: mq_link_front_def f Let_def e)
  qed
qed

definition first_taken :: "messagequeue \<Rightarrow> messagequeue" where
  "first_taken mq =
     (let n = the (msg_queue_head mq)
      in mq\<lparr>msg_queue_head := next_msg (mq_pool mq ! n), msg_queue_tail := if msg_queue_tail mq = Some n then None else msg_queue_tail mq,
           mq_entry := mq_entry mq - 1\<rparr>)"

lemma first_taken_layout:
  assumes l: "layout mq fs (n # qs) H"
  shows "layout (first_taken mq) fs qs (insert n H)" and "mq_content mq = body (mq_pool mq ! n) # mq_content (first_taken mq)"
    and "mq_entry mq \<noteq> 0 \<Longrightarrow> mq_recv_try mq timeout k = Inr (Took n, first_taken mq, k)"
proof -
  note d = layoutD [OF l]
  have h: "msg_queue_head mq = Some n" "n < length (mq_pool mq)" using l by (simp_all add: layout_def)
  have t: "msg_queue_tail mq = Some (if qs = [] then n else last qs)" using l by (simp add: layout_def)
  have last: "qs \<noteq> [] \<Longrightarrow> last qs \<noteq> n" using d(3) last_in_set [of qs] by auto
  have L: "layout (first_taken mq) fs qs (insert n H)"
    using l last unfolding layout_def first_taken_def Let_def h(1) t by (auto split: if_splits)
  then show "layout (first_taken mq) fs qs (insert n H)" .
  show "mq_content mq = body (mq_pool mq ! n) # mq_content (first_taken mq)"
    using layoutD(9) [OF L] d(9) by (simp add: first_taken_def Let_def)
  show "mq_entry mq \<noteq> 0 \<Longrightarrow> mq_recv_try mq timeout k = Inr (Took n, first_taken mq, k)"
    using h by (simp add: mq_recv_try_def first_taken_def Let_def word_gt_0)
qed

definition freed :: "nat \<Rightarrow> messagequeue \<Rightarrow> messagequeue" where
  "freed n mq = mq\<lparr>mq_pool := (mq_pool mq)[n := (mq_pool mq ! n)\<lparr>next_msg := msg_queue_free mq\<rparr>], msg_queue_free := Some n\<rparr>"

lemma freed_layout:
  assumes l: "layout mq fs qs H" and n: "n \<in> H"
  shows "layout (freed n mq) (n # fs) qs (H - {n})" and "mq_content (freed n mq) = mq_content mq"
    and "mq_release n mq k = bind_err (wake_first (mq_senders mq) k) (\<lambda>k. Inr (RT_EOK, freed n mq, k))"
proof -
  obtain mq' where mq': "set_next n (msg_queue_free mq) mq = Inr mq'" "layout mq' fs qs H" "mq_content mq' = mq_content mq"
    "mq' = mq\<lparr>mq_pool := (mq_pool mq)[n := (mq_pool mq ! n)\<lparr>next_msg := msg_queue_free mq\<rparr>]\<rparr>" "n < length (mq_pool mq)"
    using set_next_held [OF l n] by metis
  have f: "freed n mq = mq'\<lparr>msg_queue_free := Some n\<rparr>" by (simp add: freed_def mq'(4))
  have nx: "next_msg (mq_pool mq' ! n) = msg_queue_free mq'" "n < length (mq_pool mq')" using mq'(4,5) by simp_all
  have L: "layout (freed n mq) (n # fs) qs (H - {n})"
    using mq'(2) nx n layoutD(5) [OF mq'(2) n] unfolding layout_def f by (auto simp: mq'(4))
  then show "layout (freed n mq) (n # fs) qs (H - {n})" .
  show "mq_content (freed n mq) = mq_content mq"
    using layoutD(9) [OF L] layoutD(9) [OF mq'(2)] mq'(3) by (simp add: f)
  show "mq_release n mq k = bind_err (wake_first (mq_senders mq) k) (\<lambda>k. Inr (RT_EOK, freed n mq, k))"
    using mq'(1) by (simp add: mq_release_def f) (simp add: mq'(4))
qed

section \<open>Calls in progress\<close>

text \<open>
  Where a call that is in progress is, with its local variables: waiting for a slot or a message, or
  holding slot \<open>n\<close>. \<open>Copies\<close> also remembers what was in the slot when it was taken.
\<close>

datatype mq_pending =
    Waits_send "u8 list" int u32 | Waits_recv u32 int u32
  | Fills nat "u8 list" | Links nat "u8 list" | Urges nat "u8 list" | Fronts nat "u8 list"
  | Copies nat u32 "u8 list" | Frees nat

fun waits_of :: "mq_pending \<Rightarrow> u8 list pcall option" where
  "waits_of (Waits_send buf time start) = Some (Send_call buf time start)"
| "waits_of (Waits_recv sz time start) = Some (Recv_call time start)"
| "waits_of _ = None"

fun slot_of :: "mq_pending \<Rightarrow> nat option" where
  "slot_of (Waits_send buf time start) = None"
| "slot_of (Waits_recv sz time start) = None"
| "slot_of (Fills n buf) = Some n"
| "slot_of (Links n buf) = Some n"
| "slot_of (Urges n buf) = Some n"
| "slot_of (Fronts n buf) = Some n"
| "slot_of (Copies n sz b) = Some n"
| "slot_of (Frees n) = Some n"

fun slot_ok :: "messagequeue \<Rightarrow> mq_pending \<Rightarrow> bool" where
  "slot_ok mq (Waits_send buf time start) \<longleftrightarrow> length buf \<le> unat (msg_size mq)"
| "slot_ok mq (Waits_recv sz time start) \<longleftrightarrow> True"
| "slot_ok mq (Fills n buf) \<longleftrightarrow> length buf \<le> unat (msg_size mq)"
| "slot_ok mq (Links n buf) \<longleftrightarrow> next_msg (mq_pool mq ! n) = None \<and> take (length buf) (body (mq_pool mq ! n)) = buf"
| "slot_ok mq (Urges n buf) \<longleftrightarrow> length buf \<le> unat (msg_size mq)"
| "slot_ok mq (Fronts n buf) \<longleftrightarrow> take (length buf) (body (mq_pool mq ! n)) = buf"
| "slot_ok mq (Copies n sz b) \<longleftrightarrow> body (mq_pool mq ! n) = b"
| "slot_ok mq (Frees n) \<longleftrightarrow> True"

lemma slot_ok_frame:
  "slot_ok mq p \<Longrightarrow> (\<And>n. slot_of p = Some n \<Longrightarrow> mq_pool mq' ! n = mq_pool mq ! n) \<Longrightarrow> msg_size mq' = msg_size mq \<Longrightarrow>
     slot_ok mq' p"
  by (cases p) simp_all

type_synonym mq_calls = "nat \<Rightarrow> mq_pending option"

definition waiting_calls :: "mq_calls \<Rightarrow> nat \<Rightarrow> u8 list pcall option" where
  "waiting_calls pend t = Option.bind (pend t) waits_of"

definition slots :: "mq_calls \<Rightarrow> nat set" where
  "slots pend = {n. \<exists>t. Option.bind (pend t) slot_of = Some n}"

definition sole_owners :: "mq_calls \<Rightarrow> bool" where
  "sole_owners pend \<longleftrightarrow>
     (\<forall>t u n. Option.bind (pend t) slot_of = Some n \<longrightarrow> Option.bind (pend u) slot_of = Some n \<longrightarrow> t = u)"

definition parts_ok :: "messagequeue \<Rightarrow> mq_calls \<Rightarrow> bool" where
  "parts_ok mq pend \<longleftrightarrow> layout mq (unused mq) (queued mq) (slots pend) \<and> length (queued mq) = unat (mq_entry mq) \<and>
     sole_owners pend \<and> (\<forall>t p. pend t = Some p \<longrightarrow> slot_ok mq p)"

lemma waiting_calls_upd: "waiting_calls (pend(c := p)) = (waiting_calls pend)(c := Option.bind p waits_of)"
  by (auto simp: waiting_calls_def)

lemma slots_drop:
  assumes "sole_owners pend" "Option.bind (pend c) slot_of = Some n" "Option.bind p slot_of = None"
  shows "slots (pend(c := p)) = slots pend - {n}"
proof (rule set_eqI)
  fix m show "m \<in> slots (pend(c := p)) \<longleftrightarrow> m \<in> slots pend - {n}"
  proof
    assume "m \<in> slots (pend(c := p))"
    then obtain t where t: "t \<noteq> c" "Option.bind (pend t) slot_of = Some m"
      using assms(3) by (auto simp: slots_def split: if_splits)
    then have "m \<noteq> n" using assms(1,2) unfolding sole_owners_def by metis
    then show "m \<in> slots pend - {n}" using t by (auto simp: slots_def)
  next
    assume "m \<in> slots pend - {n}"
    then obtain t where t: "Option.bind (pend t) slot_of = Some m" "m \<noteq> n" by (auto simp: slots_def)
    then have "t \<noteq> c" using assms(2) by auto
    then show "m \<in> slots (pend(c := p))" using t by (auto simp: slots_def)
  qed
qed

lemma slots_swap:
  assumes "Option.bind (pend c) slot_of = Option.bind p slot_of"
  shows "slots (pend(c := p)) = slots pend"
proof -
  have "Option.bind ((pend(c := p)) t) slot_of = Option.bind (pend t) slot_of" for t using assms by simp
  then show ?thesis by (simp add: slots_def)
qed

lemma slots_take:
  assumes "Option.bind (pend c) slot_of = None" "Option.bind p slot_of = Some n"
  shows "slots (pend(c := p)) = insert n (slots pend)"
proof -
  let ?f = "\<lambda>t. Option.bind (pend t) slot_of"
  have "(\<lambda>t. Option.bind ((pend(c := p)) t) slot_of) = ?f(c \<mapsto> n)" using assms(2) by auto
  then show ?thesis using ran_map_upd [of ?f c n] assms(1) unfolding slots_def ran_def by metis
qed

lemma sole_owners_upd:
  assumes "sole_owners pend" and "\<And>n. Option.bind p slot_of = Some n \<Longrightarrow> n \<notin> slots pend \<or> Option.bind (pend c) slot_of = Some n"
  shows "sole_owners (pend(c := p))"
  using assms unfolding sole_owners_def slots_def by (auto split: if_splits)

text \<open>A step of thread \<open>c\<close> that leaves the slots of the other calls alone.\<close>

lemma parts_step:
  assumes ok: "parts_ok mq pend" and l: "layout mq' fs qs (slots (pend(c := p)))" and e: "length qs = unat (mq_entry mq')"
    and z: "msg_size mq' = msg_size mq" and own: "\<And>q. p = Some q \<Longrightarrow> slot_ok mq' q"
    and new: "\<And>n. Option.bind p slot_of = Some n \<Longrightarrow> n \<notin> slots pend \<or> Option.bind (pend c) slot_of = Some n"
    and same: "\<And>n t. t \<noteq> c \<Longrightarrow> Option.bind (pend t) slot_of = Some n \<Longrightarrow> mq_pool mq' ! n = mq_pool mq ! n"
  shows "parts_ok mq' (pend(c := p))"
proof -
  have "slot_ok mq' q" if q: "(pend(c := p)) t = Some q" for t q
  proof (cases "t = c")
    case False
    then have "pend t = Some q" using q by simp
    then show ?thesis using ok slot_ok_frame [OF _ same [OF False] z] by (auto simp: parts_ok_def)
  qed (use own q in simp)
  moreover have "sole_owners (pend(c := p))" using ok new by (intro sole_owners_upd) (auto simp: parts_ok_def)
  ultimately show ?thesis
    unfolding parts_ok_def layoutD(1,2) [OF l] using l e by blast
qed

lemma parts_okD:
  assumes "parts_ok mq pend"
  shows "layout mq (unused mq) (queued mq) (slots pend)" "length (queued mq) = unat (mq_entry mq)" "sole_owners pend"
    "pend t = Some p \<Longrightarrow> slot_ok mq p" "Option.bind (pend t) slot_of = Some n \<Longrightarrow> n \<in> slots pend"
  using assms by (auto simp: parts_ok_def slots_def)

definition mq_state :: "nat \<Rightarrow> nat \<Rightarrow> nat \<Rightarrow> messagequeue \<Rightarrow> kernel \<Rightarrow> mq_calls \<Rightarrow> bool" where
  "mq_state a b n mq k pend \<longleftrightarrow> parts_ok mq pend \<and>
     queue_state (suspend_thread mq) (mq_senders mq) (ipc_flag mq) a b n k (waiting_calls pend)"

text \<open>All messages can be received and all free slots used.\<close>

definition mq_inv :: "nat \<Rightarrow> messagequeue \<Rightarrow> kernel \<Rightarrow> mq_calls \<Rightarrow> bool" where
  "mq_inv n mq k pend \<longleftrightarrow> mq_state (unat (mq_entry mq)) (length (unused mq)) n mq k pend"

lemma mq_inv_parts:
  assumes "mq_inv n mq k pend"
  shows "parts_ok mq pend" "queue_state (suspend_thread mq) (mq_senders mq) (ipc_flag mq) (unat (mq_entry mq)) (length (unused mq)) n k (waiting_calls pend)"
  using assms by (simp_all add: mq_inv_def mq_state_def)

lemma mq_invI:
  "parts_ok mq pend \<Longrightarrow> queue_state (suspend_thread mq) (mq_senders mq) (ipc_flag mq) (unat (mq_entry mq)) (length (unused mq)) n k (waiting_calls pend) \<Longrightarrow>
     mq_inv n mq k pend"
  by (simp add: mq_inv_def mq_state_def)

lemma mq_inv_state:
  "mq_inv n mq k pend \<Longrightarrow> a \<le> unat (mq_entry mq) \<Longrightarrow> b \<le> length (unused mq) \<Longrightarrow> mq_state a b n mq k pend"
  using queue_state_less unfolding mq_inv_def mq_state_def by blast

section \<open>Taking a slot\<close>

lemma parts_ok_wait:
  assumes "parts_ok mq pend" "Option.bind (pend c) slot_of = None" "Option.bind p slot_of = None" "\<And>q. p = Some q \<Longrightarrow> slot_ok mq q"
  shows "parts_ok mq (pend(c := p))"
  using assms(3,4) slots_swap [of pend c p] assms(2) parts_okD(1,2) [OF assms(1)]
  by (intro parts_step [OF assms(1)]) auto

text \<open>
  Taking a free slot, for the call \<open>f\<close>; the caller is not counted among the waiting calls, and one free
  slot may have been meant for it.
\<close>

lemma mq_send_try_ok:
  assumes s: "mq_state (unat (mq_entry mq)) (length (unused mq) - 1) n mq k pend"
    and c: "rt_current_thread k = Some c" "c \<noteq> idle_thread" "pend c = None" and time: "legal_time time"
    and buf: "length buf \<le> unat (msg_size mq)"
  obtains (poll) k' where "mq_send_try mq time k = Inr (Done (- RT_EFULL), mq, k')" "mq_inv n mq k' pend" "unused mq = []"
    | (wait) k' where "mq_send_try mq time k = Inr (Blocked, mq, k')" "mq_inv n mq k' (pend(c := Some (Waits_send buf time (rt_tick k))))"
    | (took) m mq' where "mq_send_try mq time k = Inr (Took m, mq', k)" "mq_inv n mq' k (pend(c := Some (Fills m buf)))"
        "mq_inv n mq' k (pend(c := Some (Urges m buf)))" "mq_content mq' = mq_content mq"
        "rt_mq_urgent mq buf = (if buf = [] then Inl AssertFailed else Inr (Took m, mq'))"
proof -
  have ok: "parts_ok mq pend" and q: "queue_state (suspend_thread mq) (mq_senders mq) (ipc_flag mq) (unat (mq_entry mq))
      (length (unused mq) - 1) n k (waiting_calls pend)" using s by (simp_all add: mq_state_def)
  have r: "stat (tcbs k c) = RT_THREAD_RUNNING" using calls_inv_running [OF queue_state_sel(1) [OF q]] c(1) by auto
  have self: "rt_thread_self k = Some c" using c(1) by (simp add: rt_thread_self_def)
  have nc: "waiting_calls pend c = None" "Option.bind (pend c) slot_of = None" using c(3) by (simp_all add: waiting_calls_def)
  note l = parts_okD(1) [OF ok]
  show thesis
  proof (cases "msg_queue_free mq")
    case None
    then have u: "unused mq = []" using l by (cases "unused mq") (auto simp: layout_def)
    have q0: "queue_state (suspend_thread mq) (mq_senders mq) (ipc_flag mq) (unat (mq_entry mq)) 0 n k (waiting_calls pend)"
      using q by (simp add: u)
    show thesis
    proof (cases "time = 0")
      case zero: True
      have "mq_inv n mq (set_error c RT_EOK k) pend"
        using queue_state_set_error [OF q0 c(1) r nc(1)] ok u by (intro mq_invI) simp_all
      moreover have "mq_send_try mq time k = Inr (Done (- RT_EFULL), mq, set_error c RT_EOK k)"
        using None zero self by (simp add: mq_send_try_def Let_def)
      ultimately show thesis using poll u by blast
    next
      case nz: False
      obtain k' where k': "ipc_wait (mq_senders mq) c (ipc_flag mq) time (set_error c RT_EOK k) = Inr k'"
        "queue_state (suspend_thread mq) (mq_senders mq) (ipc_flag mq) (unat (mq_entry mq)) 0 n k'
           ((waiting_calls pend)(c := Some (Send_call buf time (rt_tick k))))" using send_waits [OF q0 c(1,2) nc(1) time] by metis
      have "mq_send_try mq time k = Inr (Blocked, mq, k')"
        using None nz self k'(1) by (simp add: mq_send_try_def Let_def)
      moreover have "mq_inv n mq k' (pend(c := Some (Waits_send buf time (rt_tick k))))"
        using k'(2) parts_ok_wait [OF ok nc(2), of "Some (Waits_send buf time (rt_tick k))"] buf u
        by (intro mq_invI) (simp_all add: waiting_calls_upd)
      ultimately show thesis using wait by blast
    qed
  next
    case (Some m)
    obtain x fs where x: "arr_get (mq_pool mq) m = Inr x" "unused mq = m # fs"
      "layout (mq\<lparr>msg_queue_free := next_msg x\<rparr>) fs (queued mq) (insert m (slots pend))" "m \<notin> slots pend"
      using free_taken [OF l Some] by metis
    define mq' where "mq' = mq\<lparr>msg_queue_free := next_msg x\<rparr>"
    have inv: "mq_inv n mq' k (pend(c := Some p))" if p: "slot_of p = Some m" "waits_of p = None" "slot_ok mq' p" for p
    proof (rule mq_invI)
      have L: "layout mq' fs (queued mq) (slots (pend(c := Some p)))"
        using x(3) p(1) slots_take [of pend c "Some p" m] nc(2) by (simp add: mq'_def)
      show "parts_ok mq' (pend(c := Some p))"
        using parts_okD(2) [OF ok] p x(4) by (intro parts_step [OF ok L]) (auto simp: mq'_def)
      have "(waiting_calls pend)(c := None) = waiting_calls pend" using nc(1) by auto
      then show "queue_state (suspend_thread mq') (mq_senders mq') (ipc_flag mq') (unat (mq_entry mq')) (length (unused mq')) n k
          (waiting_calls (pend(c := Some p)))"
        using q x(2) layoutD(2) [OF L] p(2) by (simp add: waiting_calls_upd) (simp add: mq'_def)
    qed
    have "mq_content mq' = mq_content mq" by (simp add: mq_content_def queued_def mq'_def)
    moreover have "mq_send_try mq time k = Inr (Took m, mq', k)" using Some x(1) by (simp add: mq_send_try_def mq'_def)
    moreover have "rt_mq_urgent mq buf = (if buf = [] then Inl AssertFailed else Inr (Took m, mq'))"
      using Some x(1) buf by (simp add: rt_mq_urgent_def mq'_def)
    moreover have "mq_inv n mq' k (pend(c := Some (Fills m buf)))" "mq_inv n mq' k (pend(c := Some (Urges m buf)))"
      by (rule inv; simp add: mq'_def buf)+
    ultimately show thesis using took by blast
  qed
qed

lemma waiting_same:
  "Option.bind p waits_of = Option.bind (pend c) waits_of \<Longrightarrow> waiting_calls (pend(c := p)) = waiting_calls pend"
  by (auto simp: waiting_calls_def)

lemma mq_recv_try_ok:
  assumes s: "mq_state (unat (mq_entry mq) - 1) (length (unused mq)) n mq k pend"
    and c: "rt_current_thread k = Some c" "c \<noteq> idle_thread" "pend c = None" and time: "legal_time time"
  obtains (poll) k' where "mq_recv_try mq time k = Inr (Done (- RT_ETIMEOUT), mq, k')" "mq_inv n mq k' pend" "mq_entry mq = 0"
    | (wait) k' where "mq_recv_try mq time k = Inr (Blocked, mq, k')" "mq_inv n mq k' (pend(c := Some (Waits_recv sz time (rt_tick k))))"
    | (took) m where "mq_recv_try mq time k = Inr (Took m, first_taken mq, k)"
        "mq_inv n (first_taken mq) k (pend(c := Some (Copies m sz (body (mq_pool mq ! m)))))"
        "mq_content mq = body (mq_pool mq ! m) # mq_content (first_taken mq)" "mq_entry mq \<noteq> 0"
proof -
  have ok: "parts_ok mq pend" and q: "queue_state (suspend_thread mq) (mq_senders mq) (ipc_flag mq) (unat (mq_entry mq) - 1)
      (length (unused mq)) n k (waiting_calls pend)" using s by (simp_all add: mq_state_def)
  have r: "stat (tcbs k c) = RT_THREAD_RUNNING" using calls_inv_running [OF queue_state_sel(1) [OF q]] c(1) by auto
  have self: "rt_thread_self k = Some c" using c(1) by (simp add: rt_thread_self_def)
  have nc: "waiting_calls pend c = None" "Option.bind (pend c) slot_of = None" using c(3) by (simp_all add: waiting_calls_def)
  show thesis
  proof (cases "mq_entry mq = 0")
    case True
    have q0: "queue_state (suspend_thread mq) (mq_senders mq) (ipc_flag mq) 0 (length (unused mq)) n k (waiting_calls pend)"
      using q by (simp add: True)
    show thesis
    proof (cases "time = 0")
      case zero: True
      have "mq_inv n mq (set_error c (- RT_ETIMEOUT) k) pend"
        using queue_state_set_error [OF q0 c(1) r nc(1)] ok by (intro mq_invI) (simp_all add: True)
      moreover have "mq_recv_try mq time k = Inr (Done (- RT_ETIMEOUT), mq, set_error c (- RT_ETIMEOUT) k)"
        using True zero self by (simp add: mq_recv_try_def Let_def set_error_def upd_tcb_def)
      ultimately show thesis using poll True by blast
    next
      case nz: False
      obtain k' where k': "ipc_wait (suspend_thread mq) c (ipc_flag mq) time (set_error c RT_EOK k) = Inr k'"
        "queue_state (suspend_thread mq) (mq_senders mq) (ipc_flag mq) 0 (length (unused mq)) n k'
           ((waiting_calls pend)(c := Some (Recv_call time (rt_tick k))))" using recv_waits [OF q0 c(1,2) nc(1) time] by metis
      have "mq_recv_try mq time k = Inr (Blocked, mq, k')"
        using True nz self k'(1) by (simp add: mq_recv_try_def Let_def)
      moreover have "mq_inv n mq k' (pend(c := Some (Waits_recv sz time (rt_tick k))))"
        using k'(2) parts_ok_wait [OF ok nc(2), of "Some (Waits_recv sz time (rt_tick k))"]
        by (intro mq_invI) (simp_all add: waiting_calls_upd True)
      ultimately show thesis using wait by blast
    qed
  next
    case some: False
    then obtain m qs where m: "queued mq = m # qs" using parts_okD(2) [OF ok] by (cases "queued mq") (auto simp: unat_eq_0)
    note l = parts_okD(1) [OF ok, unfolded m]
    note t = first_taken_layout [OF l]
    have nm: "m \<notin> slots pend" using l by (auto simp: layout_def)
    define p where "p = Some (Copies m sz (body (mq_pool mq ! m)))"
    have u: "slots (pend(c := p)) = insert m (slots pend)" by (rule slots_take) (simp_all add: nc p_def)
    have L: "layout (first_taken mq) (unused mq) qs (slots (pend(c := p)))" using t(1) by (simp add: u)
    have e: "unat (mq_entry (first_taken mq)) = unat (mq_entry mq) - 1"
      using unat_dec_pos [OF some] by (simp add: first_taken_def Let_def)
    have "parts_ok (first_taken mq) (pend(c := p))"
    proof (rule parts_step [OF ok L])
      show "length qs = unat (mq_entry (first_taken mq))" using parts_okD(2) [OF ok] by (simp add: m e)
    qed (use nm in \<open>auto simp: first_taken_def Let_def p_def\<close>)
    moreover have "waiting_calls (pend(c := p)) = waiting_calls pend" by (rule waiting_same) (simp add: p_def c(3))
    ultimately have "mq_inv n (first_taken mq) k (pend(c := p))"
      using q layoutD(2) [OF L] e by (intro mq_invI) (simp_all, simp add: first_taken_def Let_def)
    then show thesis using took t(2,3) some by (simp add: p_def)
  qed
qed

section \<open>With a slot in hand\<close>

lemma held_step:
  assumes s: "mq_inv n mq k pend" and m: "Option.bind (pend c) slot_of = Some m" "Option.bind (pend c) waits_of = None"
    and mq': "mq' = mq\<lparr>mq_pool := (mq_pool mq)[m := x]\<rparr>" and x: "length (body x) = unat (msg_size mq)"
    and p: "slot_of p = Some m" "waits_of p = None" "slot_ok mq' p"
  shows "mq_inv n mq' k (pend(c := Some p)) \<and> mq_content mq' = mq_content mq"
proof -
  note ok = mq_inv_parts(1) [OF s] and q = mq_inv_parts(2) [OF s]
  note l = parts_okD(1) [OF ok] and h = parts_okD(5) [OF ok m(1)]
  have u: "slots (pend(c := Some p)) = slots pend" by (rule slots_swap) (simp add: m p)
  have L: "layout mq' (unused mq) (queued mq) (slots (pend(c := Some p)))"
    using held_change(1) [OF l h x] by (simp add: u mq')
  have "parts_ok mq' (pend(c := Some p))"
  proof (rule parts_step [OF ok L])
    fix i t assume t: "t \<noteq> c" "Option.bind (pend t) slot_of = Some i"
    then have "i \<noteq> m" using parts_okD(3) [OF ok] m(1) unfolding sole_owners_def by metis
    then show "mq_pool mq' ! i = mq_pool mq ! i" by (simp add: mq')
  qed (use p m parts_okD(2) [OF ok] in \<open>auto simp: mq'\<close>)
  moreover have "waiting_calls (pend(c := Some p)) = waiting_calls pend" by (rule waiting_same) (simp add: p m)
  ultimately have "mq_inv n mq' k (pend(c := Some p))"
    using q layoutD(2) [OF L] by (intro mq_invI) (simp_all, simp add: mq')
  then show ?thesis using held_change(2) [OF l h x] by (simp add: mq')
qed

lemma held_slot:
  assumes "mq_inv n mq k pend" "Option.bind (pend c) slot_of = Some m"
  shows "m < length (mq_pool mq)" "length (body (mq_pool mq ! m)) = unat (msg_size mq)"
proof -
  note ok = mq_inv_parts(1) [OF assms(1)]
  show m: "m < length (mq_pool mq)" by (rule layoutD(4) [OF parts_okD(1) [OF ok] parts_okD(5) [OF ok assms(2)]])
  show "length (body (mq_pool mq ! m)) = unat (msg_size mq)" by (rule layoutD(8) [OF parts_okD(1) [OF ok] m])
qed

lemma mq_fill_ok:
  assumes s: "mq_inv n mq k pend" and p: "pend c = Some (Fills m buf)"
  obtains mq' where "mq_fill m buf mq = Inr mq'" "mq_inv n mq' k (pend(c := Some (Links m buf)))" "mq_content mq' = mq_content mq"
proof -
  have h: "Option.bind (pend c) slot_of = Some m" "Option.bind (pend c) waits_of = None" by (simp_all add: p)
  have b: "length buf \<le> unat (msg_size mq)" using parts_okD(4) [OF mq_inv_parts(1) [OF s] p] by simp
  note i = held_slot [OF s h(1)]
  define mq' where "mq' = mq\<lparr>mq_pool := (mq_pool mq)[m := (mq_pool mq ! m)\<lparr>next_msg := None, body := buf @ drop (length buf) (body (mq_pool mq ! m))\<rparr>]\<rparr>"
  have "mq_fill m buf mq = Inr mq'"
    using i b by (simp add: mq_fill_def set_next_def mq_copy_in_def mq'_def)
  moreover have "mq_inv n mq' k (pend(c := Some (Links m buf))) \<and> mq_content mq' = mq_content mq"
    by (rule held_step [OF s h mq'_def]) (use i b in \<open>simp_all add: mq'_def\<close>)
  ultimately show thesis using that by blast
qed

lemma mq_copy_in_ok:
  assumes s: "mq_inv n mq k pend" and p: "pend c = Some (Urges m buf)"
  obtains mq' where "mq_copy_in m buf mq = Inr mq'" "mq_inv n mq' k (pend(c := Some (Fronts m buf)))" "mq_content mq' = mq_content mq"
proof -
  have h: "Option.bind (pend c) slot_of = Some m" "Option.bind (pend c) waits_of = None" by (simp_all add: p)
  have b: "length buf \<le> unat (msg_size mq)" using parts_okD(4) [OF mq_inv_parts(1) [OF s] p] by simp
  note i = held_slot [OF s h(1)]
  define mq' where "mq' = mq\<lparr>mq_pool := (mq_pool mq)[m := (mq_pool mq ! m)\<lparr>body := buf @ drop (length buf) (body (mq_pool mq ! m))\<rparr>]\<rparr>"
  have "mq_copy_in m buf mq = Inr mq'" using i b by (simp add: mq_copy_in_def mq'_def)
  moreover have "mq_inv n mq' k (pend(c := Some (Fronts m buf))) \<and> mq_content mq' = mq_content mq"
    by (rule held_step [OF s h mq'_def]) (use i b in \<open>simp_all add: mq'_def\<close>)
  ultimately show thesis using that by blast
qed

lemma mq_copy_out_ok:
  assumes s: "mq_inv n mq k pend" and p: "pend c = Some (Copies m sz b)"
  shows "mq_copy_out m sz mq = Inr (take (if sz > ucast (msg_size mq) then unat (msg_size mq) else unat sz) b)"
    and "mq_inv n mq k (pend(c := Some (Frees m)))"
proof -
  have h: "Option.bind (pend c) slot_of = Some m" "Option.bind (pend c) waits_of = None" by (simp_all add: p)
  have b: "body (mq_pool mq ! m) = b" using parts_okD(4) [OF mq_inv_parts(1) [OF s] p] by simp
  note i = held_slot [OF s h(1)]
  have z: "\<not> sz > ucast (msg_size mq) \<Longrightarrow> unat sz \<le> unat (msg_size mq)"
    by (simp add: word_less_nat_alt not_less unsigned_ucast_eq) (rule order.trans, assumption, rule take_bit_nat_less_eq_self)
  show "mq_copy_out m sz mq = Inr (take (if sz > ucast (msg_size mq) then unat (msg_size mq) else unat sz) b)"
    using i b z by (simp add: mq_copy_out_def Let_def)
  have "mq = mq\<lparr>mq_pool := (mq_pool mq)[m := mq_pool mq ! m]\<rparr>" by simp
  from held_step [OF s h this i(2), of "Frees m"] show "mq_inv n mq k (pend(c := Some (Frees m)))" by simp
qed

text \<open>The slot becomes a message, and one message more is counted.\<close>

lemma mq_count_ok:
  assumes l: "layout mq fs qs H" and e: "length qs = Suc (unat (mq_entry mq))"
  shows "mq_count mq k = bind_err (wake_first (suspend_thread mq) k) (\<lambda>k. Inr (RT_EOK, mq\<lparr>mq_entry := mq_entry mq + 1\<rparr>, k))"
    and "unat (mq_entry mq + 1) = Suc (unat (mq_entry mq))"
proof -
  have "length qs \<le> length (mq_pool mq)"
    using layoutD(3,6) [OF l] by (intro distinct_fits) auto
  then have "unat (mq_entry mq) < unat RT_MQ_ENTRY_MAX"
    using e layoutD(7) [OF l] unat_u16_lt [of "max_msgs mq"] by (simp add: RT_MQ_ENTRY_MAX_def)
  then have "mq_entry mq < RT_MQ_ENTRY_MAX" by (simp add: word_less_nat_alt)
  then show "mq_count mq k = bind_err (wake_first (suspend_thread mq) k) (\<lambda>k. Inr (RT_EOK, mq\<lparr>mq_entry := mq_entry mq + 1\<rparr>, k))"
    and "unat (mq_entry mq + 1) = Suc (unat (mq_entry mq))"
    using unat_inc_less by (auto simp: mq_count_def)
qed

lemma count_step:
  assumes s: "mq_inv n mq k pend" and m: "Option.bind (pend c) slot_of = Some m" "Option.bind (pend c) waits_of = None"
    and l: "layout mq1 (unused mq) qs (slots pend - {m})" and e: "length qs = Suc (unat (mq_entry mq))"
    and same: "suspend_thread mq1 = suspend_thread mq" "mq_senders mq1 = mq_senders mq" "ipc_flag mq1 = ipc_flag mq"
      "mq_entry mq1 = mq_entry mq" "msg_size mq1 = msg_size mq" "\<And>i. i \<in> slots pend - {m} \<Longrightarrow> mq_pool mq1 ! i = mq_pool mq ! i"
  obtains k' where "mq_count mq1 k = Inr (RT_EOK, mq1\<lparr>mq_entry := mq_entry mq1 + 1\<rparr>, k')"
    "mq_inv n (mq1\<lparr>mq_entry := mq_entry mq1 + 1\<rparr>) k' (pend(c := None))"
proof -
  note ok = mq_inv_parts(1) [OF s] and q = mq_inv_parts(2) [OF s]
  define mq' where "mq' = mq1\<lparr>mq_entry := mq_entry mq1 + 1\<rparr>"
  have u: "slots (pend(c := None)) = slots pend - {m}" by (rule slots_drop [OF parts_okD(3) [OF ok] m(1)]) simp
  have L: "layout mq' (unused mq) qs (slots (pend(c := None)))" using l by (simp add: u layout_def mq'_def)
  have e': "length qs = Suc (unat (mq_entry mq1))" using e same(4) by simp
  note cnt = mq_count_ok [OF l e']
  have "parts_ok mq' (pend(c := None))"
  proof (rule parts_step [OF ok L])
    show "length qs = unat (mq_entry mq')" using e' cnt(2) by (simp add: mq'_def)
    fix i t assume t: "t \<noteq> c" "Option.bind (pend t) slot_of = Some i"
    then have "i \<noteq> m" using parts_okD(3) [OF ok] m(1) unfolding sole_owners_def by metis
    then show "mq_pool mq' ! i = mq_pool mq ! i" using same(6) parts_okD(5) [OF ok t(2)] by (simp add: mq'_def)
  qed (use same(5) in \<open>simp_all add: mq'_def\<close>)
  moreover have w: "waiting_calls (pend(c := None)) = waiting_calls pend" by (rule waiting_same) (simp add: m)
  moreover obtain k' where k': "wake_first (suspend_thread mq) k = Inr k'"
    "queue_state (suspend_thread mq) (mq_senders mq) (ipc_flag mq) (Suc (unat (mq_entry mq))) (length (unused mq)) n k' (waiting_calls pend)"
    using wake_receiver [OF q] by metis
  ultimately have "mq_inv n mq' k' (pend(c := None))"
    using layoutD(2) [OF L] same cnt(2) by (intro mq_invI) (simp_all, simp add: mq'_def)
  moreover have "mq_count mq1 k = Inr (RT_EOK, mq', k')" using cnt(1) k'(1) same(1) by (simp add: mq'_def)
  ultimately show thesis using that by (simp add: mq'_def)
qed

lemma mq_content_entry [simp]: "mq_content (mq\<lparr>mq_entry := e\<rparr>) = mq_content mq"
  by (simp add: mq_content_def queued_def)

lemma mq_link_ok:
  assumes s: "mq_inv n mq k pend" and p: "pend c = Some (Links m buf)"
  obtains mq' k' where "mq_link m mq k = Inr (RT_EOK, mq', k')" "mq_inv n mq' k' (pend(c := None))"
    "mq_content mq' = mq_content mq @ [body (mq_pool mq ! m)]"
proof -
  note ok = mq_inv_parts(1) [OF s]
  have h: "Option.bind (pend c) slot_of = Some m" "Option.bind (pend c) waits_of = None" by (simp_all add: p)
  have e: "next_msg (mq_pool mq ! m) = None" using parts_okD(4) [OF ok p] by simp
  note l = parts_okD(1) [OF ok] and i = parts_okD(5) [OF ok h(1)]
  note k1 = linked_layout [OF l i e]
  obtain k' where k': "mq_count (linked m mq) k = Inr (RT_EOK, (linked m mq)\<lparr>mq_entry := mq_entry (linked m mq) + 1\<rparr>, k')"
    "mq_inv n ((linked m mq)\<lparr>mq_entry := mq_entry (linked m mq) + 1\<rparr>) k' (pend(c := None))"
  proof (rule count_step [OF s h k1(1)])
    show "length (queued mq @ [m]) = Suc (unat (mq_entry mq))" using parts_okD(2) [OF ok] by simp
    show "mq_pool (linked m mq) ! j = mq_pool mq ! j" if "j \<in> slots pend - {m}" for j
      using k1(3) layoutD(5) [OF l, of j] that by simp
  qed (simp_all add: linked_def Let_def)
  then show thesis using that k1(2,4) by simp
qed

lemma mq_link_front_ok:
  assumes s: "mq_inv n mq k pend" and p: "pend c = Some (Fronts m buf)"
  obtains mq' k' where "mq_link_front m mq k = Inr (RT_EOK, mq', k')" "mq_inv n mq' k' (pend(c := None))"
    "mq_content mq' = body (mq_pool mq ! m) # mq_content mq"
proof -
  note ok = mq_inv_parts(1) [OF s]
  have h: "Option.bind (pend c) slot_of = Some m" "Option.bind (pend c) waits_of = None" by (simp_all add: p)
  note l = parts_okD(1) [OF ok] and i = parts_okD(5) [OF ok h(1)]
  note k1 = linked_front_layout [OF l i]
  obtain k' where k': "mq_count (linked_front m mq) k = Inr (RT_EOK, (linked_front m mq)\<lparr>mq_entry := mq_entry (linked_front m mq) + 1\<rparr>, k')"
    "mq_inv n ((linked_front m mq)\<lparr>mq_entry := mq_entry (linked_front m mq) + 1\<rparr>) k' (pend(c := None))"
  proof (rule count_step [OF s h k1(1)])
    show "length (m # queued mq) = Suc (unat (mq_entry mq))" using parts_okD(2) [OF ok] by simp
  qed (simp_all add: linked_front_def)
  then show thesis using that k1(2,3) by simp
qed

lemma mq_release_ok:
  assumes s: "mq_inv n mq k pend" and p: "pend c = Some (Frees m)"
  obtains k' where "mq_release m mq k = Inr (RT_EOK, freed m mq, k')" "mq_inv n (freed m mq) k' (pend(c := None))"
    "mq_content (freed m mq) = mq_content mq"
proof -
  note ok = mq_inv_parts(1) [OF s] and q = mq_inv_parts(2) [OF s]
  have h: "Option.bind (pend c) slot_of = Some m" by (simp add: p)
  note l = parts_okD(1) [OF ok] and i = parts_okD(5) [OF ok h]
  note f = freed_layout [OF l i]
  have u: "slots (pend(c := None)) = slots pend - {m}" by (rule slots_drop [OF parts_okD(3) [OF ok] h]) simp
  have L: "layout (freed m mq) (m # unused mq) (queued mq) (slots (pend(c := None)))" using f(1) by (simp add: u)
  have "parts_ok (freed m mq) (pend(c := None))"
  proof (rule parts_step [OF ok L])
    fix j t assume t: "t \<noteq> c" "Option.bind (pend t) slot_of = Some j"
    then have "j \<noteq> m" using parts_okD(3) [OF ok] h unfolding sole_owners_def by metis
    then show "mq_pool (freed m mq) ! j = mq_pool mq ! j" by (simp add: freed_def)
  qed (use parts_okD(2) [OF ok] in \<open>simp_all add: freed_def\<close>)
  moreover have "waiting_calls (pend(c := None)) = waiting_calls pend" by (rule waiting_same) (simp add: p)
  moreover obtain k' where k': "wake_first (mq_senders mq) k = Inr k'"
    "queue_state (suspend_thread mq) (mq_senders mq) (ipc_flag mq) (unat (mq_entry mq)) (Suc (length (unused mq))) n k' (waiting_calls pend)"
    using wake_sender [OF q] by metis
  ultimately have "mq_inv n (freed m mq) k' (pend(c := None))"
    using layoutD(2) [OF L] by (intro mq_invI) (simp_all, simp add: freed_def)
  then show thesis using that k'(1) f(2,3) by simp
qed

section \<open>Runs of a message queue\<close>

datatype mq_input = Mq_send "u8 list" int | Mq_recv u32 int | Mq_urgent "u8 list"

type_synonym mq_part = "(messagequeue, mq_pending, u8 list) part"

definition send_turn :: "u8 list \<Rightarrow> int \<Rightarrow> u32 \<Rightarrow> mq_turn \<Rightarrow> mq_pending option" where
  "send_turn buf time now r = (case r of Done e \<Rightarrow> None | Blocked \<Rightarrow> Some (Waits_send buf time now) | Took n \<Rightarrow> Some (Fills n buf))"

text \<open>A message is taken when its slot is unlinked.\<close>

definition recv_turn :: "messagequeue \<Rightarrow> u32 \<Rightarrow> int \<Rightarrow> u32 \<Rightarrow> mq_turn \<Rightarrow> mq_pending option \<times> u8 list queue_event list" where
  "recv_turn mq sz time now r =
     (case r of Done e \<Rightarrow> (None, []) | Blocked \<Rightarrow> (Some (Waits_recv sz time now), [])
      | Took n \<Rightarrow> (Some (Copies n sz (body (mq_pool mq ! n))), [Taken (body (mq_pool mq ! n))]))"

definition mq_new_call :: "mq_input \<Rightarrow> messagequeue \<Rightarrow> kernel \<Rightarrow> mq_part" where
  "mq_new_call i mq k =
     (case i of
        Mq_send buf time \<Rightarrow> bind_err (rt_mq_send_wait mq buf time k) (\<lambda>(r, mq', k').
          Inr ((send_turn buf time (rt_tick k) r, []), mq', k'))
      | Mq_recv sz time \<Rightarrow> bind_err (rt_mq_recv mq sz time k) (\<lambda>(r, mq', k'). Inr (recv_turn mq sz time (rt_tick k) r, mq', k'))
      | Mq_urgent buf \<Rightarrow> bind_err (rt_mq_urgent mq buf) (\<lambda>(r, mq').
          Inr ((case r of Took n \<Rightarrow> Some (Urges n buf) | _ \<Rightarrow> None, []), mq', k)))"

definition mq_go_on :: "nat \<Rightarrow> mq_pending \<Rightarrow> messagequeue \<Rightarrow> kernel \<Rightarrow> mq_part" where
  "mq_go_on c p mq k =
     (case p of
        Waits_send buf time start \<Rightarrow> bind_err (rt_mq_send_wait_wake c time start mq k) (\<lambda>(r, mq', k').
          Inr ((send_turn buf (time_left time start (rt_tick k)) (rt_tick k) r, []), mq', k'))
      | Waits_recv sz time start \<Rightarrow> bind_err (rt_mq_recv_wake c time start mq k) (\<lambda>(r, mq', k').
          Inr (recv_turn mq sz (time_left time start (rt_tick k)) (rt_tick k) r, mq', k'))
      | Fills n buf \<Rightarrow> bind_err (mq_fill n buf mq) (\<lambda>mq'. Inr ((Some (Links n buf), []), mq', k))
      | Links n buf \<Rightarrow> bind_err (mq_link n mq k) (\<lambda>(r, mq', k').
          Inr ((None, if r = RT_EOK then [Stored (body (mq_pool mq ! n))] else []), mq', k'))
      | Urges n buf \<Rightarrow> bind_err (mq_copy_in n buf mq) (\<lambda>mq'. Inr ((Some (Fronts n buf), []), mq', k))
      | Fronts n buf \<Rightarrow> bind_err (mq_link_front n mq k) (\<lambda>(r, mq', k').
          Inr ((None, if r = RT_EOK then [Urged (body (mq_pool mq ! n))] else []), mq', k'))
      | Copies n sz b \<Rightarrow> bind_err (mq_copy_out n sz mq) (\<lambda>_. Inr ((Some (Frees n), []), mq, k))
      | Frees n \<Rightarrow> bind_err (mq_release n mq k) (\<lambda>(_, mq', k'). Inr ((None, []), mq', k')))"

definition legal_mq_input :: "mq_input \<Rightarrow> bool" where
  "legal_mq_input i \<longleftrightarrow> (case i of Mq_send buf time \<Rightarrow> buf \<noteq> [] \<and> legal_time time | Mq_recv sz time \<Rightarrow> sz \<noteq> 0 \<and> legal_time time
     | Mq_urgent buf \<Rightarrow> buf \<noteq> [])"

abbreviation mq_call_ok :: "nat \<Rightarrow> messagequeue \<Rightarrow> mq_calls \<Rightarrow> nat \<Rightarrow> mq_part \<Rightarrow> bool" where
  "mq_call_ok n mq pend c x \<equiv> part_ok (mq_inv n) mq_content mq pend c x"

lemma mq_send_try_call:
  assumes s: "mq_state (unat (mq_entry mq)) (length (unused mq) - 1) n mq k (pend(c := None))"
    and c: "rt_current_thread k = Some c" "c \<noteq> idle_thread" and time: "legal_time time" and buf: "length buf \<le> unat (msg_size mq)"
  shows "mq_call_ok n mq pend c
     (bind_err (mq_send_try mq time k) (\<lambda>(r, mq', k'). Inr ((send_turn buf time (rt_tick k) r, []), mq', k')))"
proof -
  have none: "(pend(c := None)) c = None" by simp
  show ?thesis
  proof (rule mq_send_try_ok [OF s c none time buf])
    fix k' assume "mq_send_try mq time k = Inr (Done (- RT_EFULL), mq, k')" "mq_inv n mq k' (pend(c := None))"
    then show ?thesis by (simp add: part_ok_def send_turn_def)
  next
    fix k' assume "mq_send_try mq time k = Inr (Blocked, mq, k')" "mq_inv n mq k' (pend(c := None, c := Some (Waits_send buf time (rt_tick k))))"
    then show ?thesis by (simp add: part_ok_def send_turn_def)
  next
    fix m mq' assume "mq_send_try mq time k = Inr (Took m, mq', k)" "mq_inv n mq' k (pend(c := None, c := Some (Fills m buf)))"
      "mq_content mq' = mq_content mq"
    then show ?thesis by (simp add: part_ok_def send_turn_def)
  qed
qed

lemma mq_recv_try_call:
  assumes s: "mq_state (unat (mq_entry mq) - 1) (length (unused mq)) n mq k (pend(c := None))"
    and c: "rt_current_thread k = Some c" "c \<noteq> idle_thread" and time: "legal_time time"
  shows "mq_call_ok n mq pend c
     (bind_err (mq_recv_try mq time k) (\<lambda>(r, mq', k'). Inr (recv_turn mq sz time (rt_tick k) r, mq', k')))"
proof -
  have none: "(pend(c := None)) c = None" by simp
  show ?thesis
  proof (rule mq_recv_try_ok [OF s c none time, where sz = sz])
    fix k' assume "mq_recv_try mq time k = Inr (Done (- RT_ETIMEOUT), mq, k')" "mq_inv n mq k' (pend(c := None))"
    then show ?thesis by (simp add: part_ok_def recv_turn_def)
  next
    fix k' assume "mq_recv_try mq time k = Inr (Blocked, mq, k')" "mq_inv n mq k' (pend(c := None, c := Some (Waits_recv sz time (rt_tick k))))"
    then show ?thesis by (simp add: part_ok_def recv_turn_def)
  next
    fix m assume "mq_recv_try mq time k = Inr (Took m, first_taken mq, k)"
      "mq_inv n (first_taken mq) k (pend(c := None, c := Some (Copies m sz (body (mq_pool mq ! m)))))"
      "mq_content mq = body (mq_pool mq ! m) # mq_content (first_taken mq)"
    then show ?thesis by (simp add: part_ok_def recv_turn_def)
  qed
qed

lemma mq_new_call_ok:
  assumes s: "mq_inv n mq k pend" and c: "rt_current_thread k = Some c" "c \<noteq> idle_thread" "pend c = None"
    and i: "legal_mq_input i"
  shows "mq_call_ok n mq pend c (mq_new_call i mq k)"
proof -
  have same: "pend(c := None) = pend" using c(3) by auto
  have av: "scheduler_available k" by (rule calls_inv_sel(6) [OF queue_state_sel(1) [OF mq_inv_parts(2) [OF s]] c(1)])
  have stay: "mq_call_ok n mq pend c (Inr ((None, []), mq, k))" using s by (simp add: part_ok_def same)
  have st: "mq_state (unat (mq_entry mq)) (length (unused mq) - 1) n mq k (pend(c := None))"
    "mq_state (unat (mq_entry mq) - 1) (length (unused mq)) n mq k (pend(c := None))"
    unfolding same by (rule mq_inv_state [OF s]; simp)+
  show ?thesis
  proof (cases i)
    case (Mq_send buf time)
    show ?thesis
    proof (cases "length buf > unat (msg_size mq)")
      case True
      then show ?thesis using stay i Mq_send av by (simp add: mq_new_call_def rt_mq_send_wait_def legal_mq_input_def send_turn_def)
    next
      case False
      then show ?thesis
        using mq_send_try_call [OF st(1) c(1,2), of time buf] stay i Mq_send av
        by (simp add: mq_new_call_def rt_mq_send_wait_def legal_mq_input_def) (simp add: send_turn_def)
    qed
  next
    case (Mq_recv sz time)
    then show ?thesis
      using mq_recv_try_call [OF st(2) c(1,2), where time = time and sz = sz] stay i av
      by (simp add: mq_new_call_def rt_mq_recv_def legal_mq_input_def) (simp add: recv_turn_def)
  next
    case (Mq_urgent buf)
    show ?thesis
    proof (cases "length buf > unat (msg_size mq) \<or> msg_queue_free mq = None")
      case True
      then show ?thesis using stay i Mq_urgent by (auto simp: mq_new_call_def rt_mq_urgent_def legal_mq_input_def)
    next
      case False
      then have buf: "length buf \<le> unat (msg_size mq)" by simp
      have z: "legal_time 0" by (simp add: legal_time_def)
      have un: "unused mq \<noteq> []" using False parts_okD(1) [OF mq_inv_parts(1) [OF s]] by (cases "unused mq") (auto simp: layout_def)
      from False obtain m x where "msg_queue_free mq = Some m" by blast
      show ?thesis
      proof (rule mq_send_try_ok [OF st(1) [unfolded same] c z buf])
        fix k' assume "mq_send_try mq 0 k = Inr (Blocked, mq, k')"
        then show ?thesis using False by (auto simp: mq_send_try_def bind_err_def split: sum.splits)
      next
        fix m mq' assume "mq_send_try mq 0 k = Inr (Took m, mq', k)" "mq_inv n mq' k (pend(c := Some (Urges m buf)))"
          "mq_content mq' = mq_content mq" "rt_mq_urgent mq buf = (if buf = [] then Inl AssertFailed else Inr (Took m, mq'))"
        then show ?thesis using i Mq_urgent by (simp add: part_ok_def mq_new_call_def legal_mq_input_def)
      qed (use un in simp)
    qed
  qed
qed

lemma mq_go_on_ok:
  assumes s: "mq_inv n mq k pend" and c: "rt_current_thread k = Some c" "c \<noteq> idle_thread" "pend c = Some p" and n: "n < 2 ^ 31"
  shows "mq_call_ok n mq pend c (mq_go_on c p mq k)"
proof -
  note ok = mq_inv_parts(1) [OF s] and q = mq_inv_parts(2) [OF s]
  note l = call_leaves [OF q c(1)]
  have out: "mq_state a b n mq k (pend(c := None))"
    if "queue_state (suspend_thread mq) (mq_senders mq) (ipc_flag mq) a b n k ((waiting_calls pend)(c := None))" "slot_of p = None" for a b
    using that parts_ok_wait [OF ok, of c None] c(3) by (simp add: mq_state_def waiting_calls_upd)
  have stay: "mq_call_ok n mq pend c (Inr ((None, []), mq, k))" if "error (tcbs k c) \<noteq> RT_EOK" "slot_of p = None"
    using out [OF l(3) [OF that(1)] that(2)] by (simp add: mq_inv_def part_ok_def)
  show ?thesis
  proof (cases p)
    case (Waits_send buf t s')
    have w: "waiting_calls pend c = Some (Send_call buf t s')" using c(3) Waits_send by (simp add: waiting_calls_def)
    then have "is_send (waiting_calls pend) c" by (simp add: is_send_def)
    from out [OF l(2) [OF this]] Waits_send
    have st: "mq_state (unat (mq_entry mq)) (length (unused mq) - 1) n mq k (pend(c := None))" by simp
    have time: "legal_time (time_left t s' (rt_tick k))" using queue_state_time_left [OF q w n] by simp
    have buf: "length buf \<le> unat (msg_size mq)" using parts_okD(4) [OF ok c(3)] Waits_send by simp
    show ?thesis
    proof (cases "error (tcbs k c) = RT_EOK")
      case True
      then show ?thesis using mq_send_try_call [OF st c(1,2) time buf] Waits_send
        by (simp add: mq_go_on_def rt_mq_send_wait_wake_def rt_tick_get_def)
    next
      case False
      then show ?thesis using stay Waits_send by (simp add: mq_go_on_def rt_mq_send_wait_wake_def send_turn_def)
    qed
  next
    case (Waits_recv sz t s')
    have w: "waiting_calls pend c = Some (Recv_call t s')" using c(3) Waits_recv by (simp add: waiting_calls_def)
    then have "is_recv (waiting_calls pend) c" by (simp add: is_recv_def)
    from out [OF l(1) [OF this]] Waits_recv
    have st: "mq_state (unat (mq_entry mq) - 1) (length (unused mq)) n mq k (pend(c := None))" by simp
    have time: "legal_time (time_left t s' (rt_tick k))" using queue_state_time_left [OF q w n] by simp
    show ?thesis
    proof (cases "error (tcbs k c) = RT_EOK")
      case True
      then show ?thesis using mq_recv_try_call [OF st c(1,2) time, where sz = sz] Waits_recv
        by (simp add: mq_go_on_def rt_mq_recv_wake_def rt_tick_get_def)
    next
      case False
      then show ?thesis using stay Waits_recv by (simp add: mq_go_on_def rt_mq_recv_wake_def recv_turn_def)
    qed
  next
    case (Fills m buf)
    then obtain mq' where "mq_fill m buf mq = Inr mq'" "mq_inv n mq' k (pend(c := Some (Links m buf)))" "mq_content mq' = mq_content mq"
      using mq_fill_ok [OF s] c(3) by metis
    then show ?thesis using Fills by (simp add: part_ok_def mq_go_on_def)
  next
    case (Links m buf)
    then obtain mq' k' where "mq_link m mq k = Inr (RT_EOK, mq', k')" "mq_inv n mq' k' (pend(c := None))"
      "mq_content mq' = mq_content mq @ [body (mq_pool mq ! m)]" using mq_link_ok [OF s] c(3) by metis
    then show ?thesis using Links by (simp add: part_ok_def mq_go_on_def)
  next
    case (Urges m buf)
    then obtain mq' where "mq_copy_in m buf mq = Inr mq'" "mq_inv n mq' k (pend(c := Some (Fronts m buf)))" "mq_content mq' = mq_content mq"
      using mq_copy_in_ok [OF s] c(3) by metis
    then show ?thesis using Urges by (simp add: part_ok_def mq_go_on_def)
  next
    case (Fronts m buf)
    then obtain mq' k' where "mq_link_front m mq k = Inr (RT_EOK, mq', k')" "mq_inv n mq' k' (pend(c := None))"
      "mq_content mq' = body (mq_pool mq ! m) # mq_content mq" using mq_link_front_ok [OF s] c(3) by metis
    then show ?thesis using Fronts by (simp add: part_ok_def mq_go_on_def)
  next
    case (Copies m sz b)
    then show ?thesis using mq_copy_out_ok [OF s, of c m sz b] c(3) by (simp add: part_ok_def mq_go_on_def)
  next
    case (Frees m)
    then obtain k' where "mq_release m mq k = Inr (RT_EOK, freed m mq, k')" "mq_inv n (freed m mq) k' (pend(c := None))"
      "mq_content (freed m mq) = mq_content mq" using mq_release_ok [OF s] c(3) by metis
    then show ?thesis using Frees by (simp add: part_ok_def mq_go_on_def)
  qed
qed

lemma mq_inv_tick:
  assumes "mq_inv n mq k pend"
  shows "\<exists>k'. rt_tick_increase own k = Some (Inr k') \<and> mq_inv (Suc n) mq k' pend"
  using queue_state_tick [OF mq_inv_parts(2) [OF assms], of own] mq_inv_parts(1) [OF assms] mq_invI by metis

interpretation mq_system: blocking_queue mq_new_call mq_go_on legal_mq_input mq_inv mq_content
proof
  show "calls_inv k" if "mq_inv n mq k pend" for n mq k pend
    by (rule queue_state_sel(1) [OF mq_inv_parts(2) [OF that]])
qed (fact mq_new_call_ok mq_go_on_ok mq_inv_tick)+

section \<open>Set-up and reset\<close>

lemma mq_free_all_ok:
  assumes "chain (mq_pool mq) (msg_queue_free mq) (rev [0..<i])" "length (mq_pool mq) = n" "i \<le> n"
  shows "\<exists>ns. mq_free_all [i..<n] mq = Inr (mq\<lparr>mq_pool := ns, msg_queue_free := if n = i then msg_queue_free mq else Some (n - 1)\<rparr>) \<and>
     chain ns (if n = i then msg_queue_free mq else Some (n - 1)) (rev [0..<n]) \<and> map body ns = map body (mq_pool mq)"
  using assms
proof (induction "n - i" arbitrary: i mq)
  case 0
  then have "i = n" by simp
  then show ?case using 0 by (intro exI [of _ "mq_pool mq"]) simp
next
  case (Suc d)
  then have i: "i < n" by simp
  define ns where "ns = (mq_pool mq)[i := (mq_pool mq ! i)\<lparr>next_msg := msg_queue_free mq\<rparr>]"
  define mq1 where "mq1 = mq\<lparr>mq_pool := ns, msg_queue_free := Some i\<rparr>"
  have "chain ns (msg_queue_free mq) (rev [0..<i])" using Suc.prems(1) unfolding ns_def by (subst chain_frame) auto
  then have "chain (mq_pool mq1) (msg_queue_free mq1) (rev [0..<Suc i])"
    using i Suc.prems(2) by (simp add: mq1_def) (simp add: ns_def)
  moreover have "length (mq_pool mq1) = n" "Suc i \<le> n" "d = n - Suc i" using Suc i by (simp_all add: mq1_def ns_def)
  ultimately obtain ns' where ns': "mq_free_all [Suc i..<n] mq1 =
      Inr (mq1\<lparr>mq_pool := ns', msg_queue_free := if n = Suc i then msg_queue_free mq1 else Some (n - 1)\<rparr>)"
    "chain ns' (if n = Suc i then msg_queue_free mq1 else Some (n - 1)) (rev [0..<n])" "map body ns' = map body (mq_pool mq1)"
    using Suc.hyps(1) [of "Suc i" mq1] by blast
  have e: "(if n = Suc i then msg_queue_free mq1 else Some (n - 1)) = Some (n - 1)" by (simp add: mq1_def)
  have "set_next i (msg_queue_free mq) mq = Inr (mq\<lparr>mq_pool := ns\<rparr>)" using i Suc.prems(2) by (simp add: set_next_def ns_def)
  then have "mq_free_all [i..<n] mq = Inr (mq\<lparr>mq_pool := ns', msg_queue_free := Some (n - 1)\<rparr>)"
    using ns'(1) unfolding e by (simp add: upt_conv_Cons [OF i] mq1_def)
  moreover have "map body ns = map body (mq_pool mq)"
    using i Suc.prems(2) by (intro nth_equalityI) (simp_all add: ns_def nth_list_update)
  ultimately show ?case using ns'(2,3) i unfolding e by (intro exI [of _ ns']) (simp add: mq1_def)
qed

text \<open>A new queue is empty and all its slots are free.\<close>

lemma mq_set_up_ok:
  assumes raw: "\<And>i. length (body (raw (unat sz) i)) = unat sz"
    and k: "calls_inv k" "settled k" and wv: "links k (Wait w) = []" "links k (Wait v) = []" "w \<noteq> v"
    and f: "flag = RT_IPC_FLAG_FIFO \<or> flag = RT_IPC_FLAG_PRIO"
  obtains mq where "mq_set_up w v static raw sz n flag k = Inr (mq, k)" "mq_inv 0 mq k (\<lambda>_. None)" "mq_content mq = []"
    "msg_size mq = sz" "max_msgs mq = n"
proof -
  define mq0 where "mq0 = \<lparr>suspend_thread = w, ipc_flag = flag, ipc_systemobject = static,
      mq_pool = map (raw (unat sz)) [0..<unat n], msg_size = sz, max_msgs = n, mq_entry = 0, msg_queue_head = None,
      msg_queue_tail = None, msg_queue_free = None, mq_senders = v\<rparr>"
  define fr where "fr = (if unat n = 0 then msg_queue_free mq0 else Some (unat n - 1))"
  have "chain (mq_pool mq0) (msg_queue_free mq0) (rev [0..<0])" "length (mq_pool mq0) = unat n" by (simp_all add: mq0_def)
  from mq_free_all_ok [OF this le0] obtain ns where ns: "mq_free_all [0..<unat n] mq0 = Inr (mq0\<lparr>mq_pool := ns, msg_queue_free := fr\<rparr>)"
    "chain ns fr (rev [0..<unat n])" "map body ns = map body (mq_pool mq0)"
    unfolding fr_def by blast
  define mq where "mq = mq0\<lparr>mq_pool := ns, msg_queue_free := fr\<rparr>"
  have len: "length ns = unat n" using arg_cong [OF ns(3), of length] by (simp add: mq0_def)
  have "length (body m) = unat sz" if "m \<in> set ns" for m
  proof -
    have "body m \<in> set (map body (mq_pool mq0))" using that unfolding ns(3) [symmetric] by simp
    then show ?thesis using raw by (auto simp: mq0_def)
  qed
  moreover have sl: "slots (\<lambda>_. None) = {}" by (simp add: slots_def)
  ultimately have L: "layout mq (rev [0..<unat n]) [] (slots (\<lambda>_. None))"
    using ns(2) len by (auto simp: layout_def mq_def mq0_def)
  note d = layoutD(1,2) [OF L]
  have "parts_ok mq (\<lambda>_. None)" using L d by (simp add: parts_ok_def sole_owners_def) (simp add: mq_def mq0_def)
  moreover have "waiting_calls (\<lambda>_. None) = (\<lambda>_. None)" by (simp add: waiting_calls_def fun_eq_iff)
  moreover have "queue_state w v flag a b 0 k (\<lambda>_. None)" for a b
    using k wv f by (simp add: queue_state_def side_inv_def)
  ultimately have "mq_inv 0 mq k (\<lambda>_. None)" by (intro mq_invI) (simp_all, simp add: mq_def mq0_def)
  moreover have "ipc_object_init v (ipc_object_init w k) = k"
    using wv fun_upd_triv [of "links k" "Wait w"] fun_upd_triv [of "links k" "Wait v"] by (simp add: ipc_object_init_def)
  then have "mq_set_up w v static raw sz n flag k = Inr (mq, k)"
    using ns(1) by (simp add: mq_set_up_def mq0_def [symmetric] mq_def)
  moreover have "mq_content mq = []" using layoutD(9) [OF L] by simp
  ultimately show thesis using that by (simp add: mq_def mq0_def)
qed

lemma mq_flush_ok:
  assumes "layout mq fs qs H"
  shows "\<exists>mq'. mq_flush mq = Some (Inr mq') \<and> layout mq' (rev qs @ fs) [] H \<and>
     mq_entry mq' = mq_entry mq \<and> msg_size mq' = msg_size mq \<and> suspend_thread mq' = suspend_thread mq \<and>
     mq_senders mq' = mq_senders mq \<and> ipc_flag mq' = ipc_flag mq \<and> (\<forall>i \<in> H. mq_pool mq' ! i = mq_pool mq ! i)"
  using assms
proof (induction qs arbitrary: mq fs)
  case Nil
  have "msg_queue_head mq = None" using Nil by (simp add: layout_def)
  then have "mq_flush mq = Some (Inr mq)" by (subst mq_flush.simps) simp
  then show ?case using Nil by simp
next
  case (Cons n qs)
  have h: "msg_queue_head mq = Some n" "n < length (mq_pool mq)" using Cons.prems by (simp_all add: layout_def)
  define t where "t = (if msg_queue_tail mq = Some n then None else msg_queue_tail mq)"
  define mq1 where "mq1 = mq\<lparr>mq_pool := (mq_pool mq)[n := (mq_pool mq ! n)\<lparr>next_msg := msg_queue_free mq\<rparr>],
      msg_queue_head := next_msg (mq_pool mq ! n), msg_queue_tail := t, msg_queue_free := Some n\<rparr>"
  note f = first_taken_layout(1) [OF Cons.prems]
  note g = freed_layout(1) [OF f insertI1]
  have n: "n \<notin> H" using Cons.prems by (auto simp: layout_def)
  have "layout (freed n (first_taken mq)) (n # fs) qs H" using g n by simp
  moreover have "freed n (first_taken mq) = mq1\<lparr>mq_entry := mq_entry mq - 1\<rparr>"
    by (simp add: freed_def first_taken_def Let_def h(1) mq1_def t_def)
  ultimately have "layout mq1 (n # fs) qs H" by (simp add: layout_def)
  from Cons.IH [OF this] obtain mq' where mq': "mq_flush mq1 = Some (Inr mq')" "layout mq' (rev qs @ n # fs) [] H"
    "mq_entry mq' = mq_entry mq1" "msg_size mq' = msg_size mq1" "suspend_thread mq' = suspend_thread mq1"
    "mq_senders mq' = mq_senders mq1" "ipc_flag mq' = ipc_flag mq1" "\<forall>i \<in> H. mq_pool mq' ! i = mq_pool mq1 ! i" by blast
  have "mq_flush mq = mq_flush mq1"
    using h by (subst mq_flush.simps) (simp add: mq1_def t_def)
  moreover have "mq_pool mq1 ! i = mq_pool mq ! i" if "i \<in> H" for i
    using that n by (cases "i = n") (simp_all add: mq1_def)
  ultimately show ?case using mq' by (intro exI [of _ mq']) (simp add: mq1_def)
qed

section \<open>Properties\<close>

text \<open>A queue of two slots of four bytes in which nothing has been sent yet.\<close>

definition demo_raw :: "nat \<Rightarrow> nat \<Rightarrow> mq_message" where
  "demo_raw sz i = \<lparr>next_msg = None, body = replicate sz 0\<rparr>"

lemma demo_mq:
  obtains mq where "rt_mq_init 7 8 demo_raw 3 16 RT_IPC_FLAG_FIFO demo = Inr (RT_EOK, mq, demo)" "mq_inv 0 mq demo (\<lambda>_. None)"
    "mq_content mq = []" "msg_size mq = 4" "max_msgs mq = 2"
proof -
  have l: "links demo (Wait w) = []" for w by (simp add: demo_def)
  have b: "length (body (demo_raw (unat (4 :: u16)) i)) = unat (4 :: u16)" for i by (simp add: demo_raw_def)
  have f: "RT_IPC_FLAG_FIFO = RT_IPC_FLAG_FIFO \<or> RT_IPC_FLAG_FIFO = RT_IPC_FLAG_PRIO" by simp
  obtain mq where mq: "mq_set_up 7 8 True demo_raw 4 2 RT_IPC_FLAG_FIFO demo = Inr (mq, demo)" "mq_inv 0 mq demo (\<lambda>_. None)"
    "mq_content mq = []" "msg_size mq = 4" "max_msgs mq = 2"
    using mq_set_up_ok [where raw = demo_raw and w = 7 and v = 8 and static = True and n = 2 and sz = 4,
      OF b demo_calls_inv demo_kernel_inv(2) l l _ f] by auto
  have "RT_ALIGN 3 4 = 4" by (simp add: RT_ALIGN_def)
  then have "rt_mq_init 7 8 demo_raw 3 16 RT_IPC_FLAG_FIFO demo = Inr (RT_EOK, mq, demo)"
    using mq(1) by (simp add: rt_mq_init_def Let_def)
  then show thesis using that mq by blast
qed

text \<open>
  C11. Every run of sends, urgent sends, receives and ticks on a message queue, by any threads in any
  order, with the calls interrupted wherever they enable interrupts: nothing faults, every call and
  interrupt ends, and the linked messages are always those of an abstract queue after the same
  history: received in the order in which they were linked, urgent ones first, none lost or doubled.
\<close>

theorem mqueue_runs:
  assumes "mq_inv 0 mq k (\<lambda>_. None)" and "legal_calls legal_mq_input is" and "ticks_in is < 2 ^ 31"
  shows "\<exists>r. run_steps (queue_step mq_new_call mq_go_on own) (queue_start mq k) is = Some (Inr r) \<and>
     mq_inv (ticks_in is) (the_queue r) (queue_kernel r) (pending r) \<and> calls_inv (queue_kernel r) \<and> settled (queue_kernel r) \<and>
     replay (mq_content mq) (history r) = Some (mq_content (the_queue r))"
proof -
  obtain r where r: "run_steps (queue_step mq_new_call mq_go_on own) (queue_start mq k) is = Some (Inr r)"
    "mq_inv (ticks_in is) (the_queue r) (queue_kernel r) (pending r)"
    "replay (mq_content mq) (history r) = Some (mq_content (the_queue r))" using mq_system.run [OF assms] by metis
  then show ?thesis using queue_state_sel(1,2) [OF mq_inv_parts(2) [OF r(2)]] by simp
qed

lemma demo_mq_calls:
  "legal_calls legal_mq_input [Call (Mq_send [1, 2] 0), Tick, Call (Mq_recv 9 5), Call (Mq_recv 9 5), Call (Mq_recv 9 5)]"
  "ticks_in [Call (Mq_send [1, 2] 0), Tick, Call (Mq_recv 9 5), Call (Mq_recv 9 5), Call (Mq_recv 9 5)] < 2 ^ 31"
  by (simp_all add: legal_calls_def ticks_in_def legal_mq_input_def legal_time_def)

theorem mqueue_runs_witness:
  "\<exists>mq r. rt_mq_init 7 8 demo_raw 3 16 RT_IPC_FLAG_FIFO demo = Inr (RT_EOK, mq, demo) \<and>
     run_steps (queue_step mq_new_call mq_go_on (\<lambda>_. Inr)) (queue_start mq demo)
       [Call (Mq_send [1, 2] 0), Tick, Call (Mq_recv 9 5), Call (Mq_recv 9 5), Call (Mq_recv 9 5)] = Some (Inr r) \<and>
     replay [] (history r) = Some (mq_content (the_queue r))"
proof -
  obtain mq where mq: "rt_mq_init 7 8 demo_raw 3 16 RT_IPC_FLAG_FIFO demo = Inr (RT_EOK, mq, demo)" "mq_inv 0 mq demo (\<lambda>_. None)"
    "mq_content mq = []" using demo_mq by metis
  from mqueue_runs [OF mq(2) demo_mq_calls, of "\<lambda>_. Inr"] mq(1,3) show ?thesis by auto
qed

text \<open>
  C13. In every state of such a run every slot of the pool is in exactly one place: among the messages, on the
  free list, or in the hands of exactly one call; the entry count is the number of messages.
\<close>

theorem mqueue_slots:
  assumes "mq_inv 0 mq k (\<lambda>_. None)" and "legal_calls legal_mq_input is" and "ticks_in is < 2 ^ 31"
    and "run_steps (queue_step mq_new_call mq_go_on own) (queue_start mq k) is = Some (Inr r)"
  shows "distinct (unused (the_queue r) @ queued (the_queue r)) \<and>
     set (unused (the_queue r) @ queued (the_queue r)) \<inter> slots (pending r) = {} \<and>
     set (unused (the_queue r) @ queued (the_queue r)) \<union> slots (pending r) = {..<unat (max_msgs (the_queue r))} \<and>
     sole_owners (pending r) \<and> length (queued (the_queue r)) = unat (mq_entry (the_queue r))"
proof -
  have "mq_inv (ticks_in is) (the_queue r) (queue_kernel r) (pending r)"
    using mq_system.run [OF assms(1-3), of own] assms(4) by auto
  note ok = mq_inv_parts(1) [OF this]
  show ?thesis using parts_okD(1-3) [OF ok] by (auto simp: layout_def)
qed

theorem mqueue_slots_witness:
  "\<exists>mq r. rt_mq_init 7 8 demo_raw 3 16 RT_IPC_FLAG_FIFO demo = Inr (RT_EOK, mq, demo) \<and>
     run_steps (queue_step mq_new_call mq_go_on (\<lambda>_. Inr)) (queue_start mq demo)
       [Call (Mq_send [1, 2] 0), Tick, Call (Mq_recv 9 5), Call (Mq_recv 9 5), Call (Mq_recv 9 5)] = Some (Inr r) \<and>
     length (queued (the_queue r)) = unat (mq_entry (the_queue r))"
proof -
  obtain mq where mq: "rt_mq_init 7 8 demo_raw 3 16 RT_IPC_FLAG_FIFO demo = Inr (RT_EOK, mq, demo)" "mq_inv 0 mq demo (\<lambda>_. None)"
    using demo_mq by metis
  obtain r where r: "run_steps (queue_step mq_new_call mq_go_on (\<lambda>_. Inr)) (queue_start mq demo)
       [Call (Mq_send [1, 2] 0), Tick, Call (Mq_recv 9 5), Call (Mq_recv 9 5), Call (Mq_recv 9 5)] = Some (Inr r)"
    using mq_system.run [OF mq(2) demo_mq_calls, of "\<lambda>_. Inr"] by metis
  from mqueue_slots [OF mq(2) demo_mq_calls r] mq(1) r show ?thesis by blast
qed

text \<open>
  C12. In every state of such a run, whatever other calls have done in between: a sender that is
  about to link its slot finds its own message there, at the start of the bytes it appends, and a
  receiver that is about to copy gets the first bytes of what was in the slot when it took it.
\<close>

theorem mqueue_messages_intact:
  assumes "mq_inv 0 mq k (\<lambda>_. None)" and "legal_calls legal_mq_input is" and "ticks_in is < 2 ^ 31"
    and "run_steps (queue_step mq_new_call mq_go_on own) (queue_start mq k) is = Some (Inr r)"
  shows "case pending r c of
       Some (Links m buf) \<Rightarrow> \<exists>mq' k'. mq_link m (the_queue r) (queue_kernel r) = Inr (RT_EOK, mq', k') \<and>
         mq_content mq' = mq_content (the_queue r) @ [body (mq_pool (the_queue r) ! m)] \<and>
         take (length buf) (body (mq_pool (the_queue r) ! m)) = buf
     | Some (Copies m sz b) \<Rightarrow>
         mq_copy_out m sz (the_queue r) = Inr (take (min (unat sz) (unat (msg_size (the_queue r)))) b)
     | _ \<Rightarrow> True"
proof -
  have s: "mq_inv (ticks_in is) (the_queue r) (queue_kernel r) (pending r)"
    using mq_system.run [OF assms(1-3), of own] assms(4) by auto
  have u: "unat (ucast x :: u32) = unat x" for x :: u16
    using unat_u16_lt [of x] by (simp add: unsigned_ucast_eq take_bit_nat_eq_self_iff)
  have cnt: "(if sz > ucast x then unat x else unat sz) = min (unat sz) (unat x)" for sz :: u32 and x :: u16
    by (simp add: word_less_nat_alt u min_def)
  show ?thesis
  proof (cases "pending r c")
    case (Some p)
    show ?thesis
    proof (cases p)
      case (Links m buf)
      then have l: "pending r c = Some (Links m buf)" using Some by simp
      have "take (length buf) (body (mq_pool (the_queue r) ! m)) = buf"
        using parts_okD(4) [OF mq_inv_parts(1) [OF s] l] by simp
      then show ?thesis using mq_link_ok [OF s l] by (simp add: l) metis
    next
      case (Copies m sz b)
      then show ?thesis using mq_copy_out_ok(1) [OF s, of c m sz b] Some by (simp add: cnt)
    qed (simp_all add: Some)
  qed simp
qed

theorem mqueue_messages_intact_witness:
  "\<exists>mq r. rt_mq_init 7 8 demo_raw 3 16 RT_IPC_FLAG_FIFO demo = Inr (RT_EOK, mq, demo) \<and>
     run_steps (queue_step mq_new_call mq_go_on (\<lambda>_. Inr)) (queue_start mq demo)
       [Call (Mq_send [1, 2] 0), Tick, Call (Mq_recv 9 5), Call (Mq_recv 9 5), Call (Mq_recv 9 5)] = Some (Inr r) \<and>
     (case pending r 2 of Some (Copies m sz b) \<Rightarrow>
         mq_copy_out m sz (the_queue r) = Inr (take (min (unat sz) (unat (msg_size (the_queue r)))) b) | _ \<Rightarrow> True)"
proof -
  obtain mq where mq: "rt_mq_init 7 8 demo_raw 3 16 RT_IPC_FLAG_FIFO demo = Inr (RT_EOK, mq, demo)" "mq_inv 0 mq demo (\<lambda>_. None)"
    using demo_mq by metis
  obtain r where r: "run_steps (queue_step mq_new_call mq_go_on (\<lambda>_. Inr)) (queue_start mq demo)
       [Call (Mq_send [1, 2] 0), Tick, Call (Mq_recv 9 5), Call (Mq_recv 9 5), Call (Mq_recv 9 5)] = Some (Inr r)"
    using mq_system.run [OF mq(2) demo_mq_calls, of "\<lambda>_. Inr"] by metis
  have "case pending r 2 of Some (Copies m sz b) \<Rightarrow>
         mq_copy_out m sz (the_queue r) = Inr (take (min (unat sz) (unat (msg_size (the_queue r)))) b) | _ \<Rightarrow> True"
    using mqueue_messages_intact [OF mq(2) demo_mq_calls r, of 2] by (auto split: option.splits mq_pending.splits)
  then show ?thesis using mq(1) r by blast
qed

text \<open>
  A reset ends, whatever calls are in progress: the queue is empty, all its slots but those in the
  hands of calls are free, every waiting thread can run again and its call returns \<open>-RT_ERROR\<close>, and the
  queue and the calls in progress are consistent.
\<close>

theorem mqueue_reset:
  assumes "mq_inv n mq k pend"
  shows "\<exists>mq' k'. rt_mq_control mq RT_IPC_CMD_RESET k = Some (Inr (RT_EOK, mq', k')) \<and> mq_inv n mq' k' pend \<and>
     mq_content mq' = [] \<and> set (unused mq') \<union> slots pend = {..<unat (max_msgs mq')} \<and>
     (\<forall>t \<in> set (waiting mq k) \<union> set (links k (Wait (mq_senders mq))).
        active (stat (tcbs k' t)) \<and> error (tcbs k' t) = - RT_ERROR)"
proof -
  note ok = mq_inv_parts(1) [OF assms] and q = mq_inv_parts(2) [OF assms]
  obtain k1 k' where k': "mq_resume_all mq k = Some (Inr k1)" "rt_schedule k1 = Inr k'"
    "\<And>a b. queue_state (suspend_thread mq) (mq_senders mq) (ipc_flag mq) a b n k' (waiting_calls pend)"
    "\<And>t. t \<in> set (waiting mq k) \<or> t \<in> set (links k (Wait (mq_senders mq))) \<Longrightarrow>
       active (stat (tcbs k' t)) \<and> error (tcbs k' t) = - RT_ERROR"
    using reset_ok [OF q] unfolding mq_resume_all_def by metis
  obtain mq1 where mq1: "mq_flush mq = Some (Inr mq1)" "layout mq1 (rev (queued mq) @ unused mq) [] (slots pend)"
    "msg_size mq1 = msg_size mq" "suspend_thread mq1 = suspend_thread mq" "mq_senders mq1 = mq_senders mq"
    "ipc_flag mq1 = ipc_flag mq" "\<forall>i \<in> slots pend. mq_pool mq1 ! i = mq_pool mq ! i"
    using mq_flush_ok [OF parts_okD(1) [OF ok]] by blast
  define mq' where "mq' = mq1\<lparr>mq_entry := 0\<rparr>"
  have L: "layout mq' (rev (queued mq) @ unused mq) [] (slots pend)" using mq1(2) by (simp add: layout_def mq'_def)
  note d = layoutD(1,2,9) [OF L]
  have "slot_ok mq' p" if p: "pend t = Some p" for t p
    by (rule slot_ok_frame [OF parts_okD(4) [OF ok p]])
      (use mq1(3,7) parts_okD(5) [OF ok, of t] p in \<open>simp_all add: mq'_def\<close>)
  then have "parts_ok mq' pend" using L d parts_okD(3) [OF ok] unfolding parts_ok_def by (simp add: mq'_def)
  then have "mq_inv n mq' k' pend" using k'(3) mq1(4-6) by (intro mq_invI) (simp_all add: mq'_def)
  moreover have "rt_mq_control mq RT_IPC_CMD_RESET k = Some (Inr (RT_EOK, mq', k'))"
    using k'(1,2) mq1(1) by (simp add: rt_mq_control_def mq'_def)
  moreover have "set (unused mq') \<union> slots pend = {..<unat (max_msgs mq')}" using L d(2) by (auto simp: layout_def)
  ultimately show ?thesis using k'(4) d(3) by (intro exI [of _ mq'] exI [of _ k']) auto
qed

theorem mqueue_reset_witness:
  "\<exists>mq mq' k'. rt_mq_init 7 8 demo_raw 3 16 RT_IPC_FLAG_FIFO demo = Inr (RT_EOK, mq, demo) \<and>
     rt_mq_control mq RT_IPC_CMD_RESET demo = Some (Inr (RT_EOK, mq', k')) \<and> mq_content mq' = []"
proof -
  obtain mq where mq: "rt_mq_init 7 8 demo_raw 3 16 RT_IPC_FLAG_FIFO demo = Inr (RT_EOK, mq, demo)" "mq_inv 0 mq demo (\<lambda>_. None)"
    using demo_mq by metis
  from mqueue_reset [OF mq(2)] mq(1) show ?thesis by blast
qed

end
