(* ===== verification/Mempool.thy ===== *)
theory Mempool
  imports Waiters
begin

text \<open>
  Memory pools (\<open>rt-thread/src/mempool.c\<close>): an area divided into blocks of one size. A word in front of each
  block links the free blocks in a list; while a block is in use the word holds the address of the pool.
  An allocation may wait for a block, and then waits at the front of the waiting list. The memory is a
  function from the addresses of words to the words; pointers are addresses, NULL is 0.
\<close>

type_synonym memory = "u32 \<Rightarrow> u32"

section \<open>Operations\<close>

record mempool =
  mp_addr :: u32
  mp_systemobject :: bool
  mp_suspend_thread :: nat
  start_address :: u32
  mp_size :: u32
  block_size :: u32
  block_list :: u32
  block_total_count :: u32
  block_free_count :: u32

text \<open>The distance of two blocks; \<open>sizeof(rt_uint8_t *)\<close> is 4.\<close>

abbreviation stride :: "u32 \<Rightarrow> u32" where
  "stride bs \<equiv> bs + 4"

text \<open>The loop that links all blocks, and the end of the list.\<close>

definition link_blocks :: "u32 \<Rightarrow> u32 \<Rightarrow> u32 \<Rightarrow> memory \<Rightarrow> memory" where
  "link_blocks block_ptr bs blocks m =
     (let m = fold (\<lambda>i m. m(block_ptr + of_nat i * stride bs := block_ptr + (of_nat i + 1) * stride bs)) [0..<unat blocks] m
      in m(block_ptr + (blocks - 1) * stride bs := 0))"

definition rt_mp_init :: "u32 \<Rightarrow> nat \<Rightarrow> u32 \<Rightarrow> u32 \<Rightarrow> u32 \<Rightarrow> memory \<Rightarrow> kernel \<Rightarrow> fault + int \<times> mempool \<times> memory \<times> kernel" where
  "rt_mp_init addr w start sz bsize m k =
     (if addr = 0 \<or> start = 0 \<or> \<not> (sz > 0 \<and> bsize > 0) then Inl AssertFailed
      else
        let sz = RT_ALIGN_DOWN sz 4; bs = RT_ALIGN bsize 4
        in if stride bs = 0 then Inl Undefined
           else
             let blocks = sz div stride bs
             in Inr (RT_EOK,
                  \<lparr>mp_addr = addr, mp_systemobject = True, mp_suspend_thread = w, start_address = start, mp_size = sz,
                   block_size = bs, block_list = start, block_total_count = blocks, block_free_count = blocks\<rparr>,
                  link_blocks start bs blocks m, ipc_object_init w k))"

text \<open>
  \<open>obj\<close> and \<open>area\<close> are the answers of the object allocator and of \<open>rt_malloc\<close>, which is asked for
  \<open>mp_size\<close> bytes.
\<close>

definition rt_mp_create :: "(u32 \<times> nat) option \<Rightarrow> (u32 \<Rightarrow> u32) \<Rightarrow> u32 \<Rightarrow> u32 \<Rightarrow> memory \<Rightarrow> kernel \<Rightarrow>
    fault + mempool option \<times> memory \<times> kernel" where
  "rt_mp_create obj area count bsize m k =
     (if \<not> not_in_interrupt k \<or> \<not> (count > 0 \<and> bsize > 0) then Inl AssertFailed
      else case obj of None \<Rightarrow> Inr (None, m, k)
      | Some (addr, w) \<Rightarrow>
          let bs = RT_ALIGN bsize 4; sz = stride bs * count; start = area sz
          in if start = 0 then Inr (None, m, k)
             else Inr (Some \<lparr>mp_addr = addr, mp_systemobject = False, mp_suspend_thread = w, start_address = start, mp_size = sz,
                   block_size = bs, block_list = start, block_total_count = count, block_free_count = count\<rparr>,
                  link_blocks start bs count m, ipc_object_init w k))"

text \<open>Taking a pool away wakes its waiting threads; \<open>rt_mp_delete\<close> answers the area it gives back to the heap.\<close>

definition rt_mp_detach :: "mempool \<Rightarrow> kernel \<Rightarrow> (fault + int \<times> kernel) option" where
  "rt_mp_detach mp k =
     (if mp_systemobject mp
      then bind_opt (ipc_list_resume_all (mp_suspend_thread mp) k) (\<lambda>k. Some (Inr (RT_EOK, k)))
      else Some (Inl AssertFailed))"

definition rt_mp_delete :: "mempool \<Rightarrow> kernel \<Rightarrow> (fault + int \<times> u32 \<times> kernel) option" where
  "rt_mp_delete mp k =
     (if \<not> mp_systemobject mp \<and> not_in_interrupt k
      then bind_opt (ipc_list_resume_all (mp_suspend_thread mp) k) (\<lambda>k. Some (Inr (RT_EOK, start_address mp, k)))
      else Some (Inl AssertFailed))"

text \<open>A wait, up to and with the switch to another thread: the thread goes to the front of the list.\<close>

definition mp_wait :: "nat \<Rightarrow> nat \<Rightarrow> int \<Rightarrow> kernel \<Rightarrow> fault + kernel" where
  "mp_wait w t time k =
     bind_err (rt_thread_suspend t k) (\<lambda>(_, k).
       let k = rt_list_insert_after (Wait w) t k
       in bind_err (if 0 < time then start_thread_timer t (of_int time) k else Inr k) rt_schedule)"

text \<open>
  An allocation from the test of the loop on; it answers the address of the block, NULL when there is none.
\<close>

definition rt_mp_alloc :: "mempool \<Rightarrow> int \<Rightarrow> memory \<Rightarrow> kernel \<Rightarrow> fault + u32 call \<times> mempool \<times> memory \<times> kernel" where
  "rt_mp_alloc mp time m k =
     (if block_free_count mp = 0 then
        if time = 0 then Inr (Returned 0, mp, m, rt_set_errno (- RT_ETIMEOUT) k)
        else if \<not> not_in_interrupt k then Inl AssertFailed
        else (case rt_thread_self k of None \<Rightarrow> Inl NullPointer
              | Some t \<Rightarrow> bind_err (mp_wait (mp_suspend_thread mp) t time (set_error t RT_EOK k)) (\<lambda>k. Inr (Switched, mp, m, k)))
      else
        let mp = mp\<lparr>block_free_count := block_free_count mp - 1\<rparr>; block_ptr = block_list mp
        in if block_ptr = 0 then Inl AssertFailed
           else Inr (Returned (block_ptr + 4), mp\<lparr>block_list := m block_ptr\<rparr>, m(block_ptr := mp_addr mp), k))"

text \<open>The thread of a waiting allocation runs again.\<close>

definition rt_mp_alloc_wake ::
    "nat \<Rightarrow> int \<Rightarrow> u32 \<Rightarrow> mempool \<Rightarrow> memory \<Rightarrow> kernel \<Rightarrow> fault + u32 call \<times> mempool \<times> memory \<times> kernel" where
  "rt_mp_alloc_wake t time before_sleep mp m k =
     (if error (tcbs k t) \<noteq> RT_EOK then Inr (Returned 0, mp, m, k)
      else rt_mp_alloc mp (time_left time before_sleep (rt_tick_get k)) m k)"

text \<open>
  A release of a block of the pool; a word in front of the block that is not the address of the pool
  stands for a pointer to something else.
\<close>

definition mp_wake :: "nat \<Rightarrow> kernel \<Rightarrow> fault + kernel" where
  "mp_wake w k =
     (case links k (Wait w) of [] \<Rightarrow> Inr k
      | t # _ \<Rightarrow> bind_err (rt_thread_resume t (set_error t RT_EOK k)) (\<lambda>(_, k). rt_schedule k))"

definition rt_mp_free :: "mempool \<Rightarrow> u32 \<Rightarrow> memory \<Rightarrow> kernel \<Rightarrow> fault + mempool \<times> memory \<times> kernel" where
  "rt_mp_free mp block m k =
     (if block = 0 then Inr (mp, m, k)
      else
        let block_ptr = block - 4
        in if m block_ptr \<noteq> mp_addr mp then Inl Undefined
           else
             let mp = mp\<lparr>block_free_count := block_free_count mp + 1\<rparr>;
                 m = m(block_ptr := block_list mp);
                 mp = mp\<lparr>block_list := block_ptr\<rparr>
             in bind_err (mp_wake (mp_suspend_thread mp) k) (\<lambda>k. Inr (mp, m, k)))"

section \<open>The blocks of a pool\<close>

text \<open>The addresses of the blocks, each that of the word in front of it.\<close>

definition mp_blocks :: "mempool \<Rightarrow> u32 list" where
  "mp_blocks mp = map (\<lambda>i. start_address mp + of_nat i * stride (block_size mp)) [0..<unat (block_total_count mp)]"

text \<open>The free list.\<close>

primrec mp_walk :: "memory \<Rightarrow> nat \<Rightarrow> u32 \<Rightarrow> u32 list" where
  "mp_walk m 0 p = []"
| "mp_walk m (Suc n) p = p # mp_walk m n (m p)"

abbreviation free_blocks :: "mempool \<Rightarrow> memory \<Rightarrow> u32 list" where
  "free_blocks mp m \<equiv> mp_walk m (unat (block_free_count mp)) (block_list mp)"

text \<open>A list of blocks linked through their words and ended by NULL.\<close>

primrec mp_chain :: "memory \<Rightarrow> u32 \<Rightarrow> u32 list \<Rightarrow> bool" where
  "mp_chain m p [] \<longleftrightarrow> p = 0"
| "mp_chain m p (b # bs) \<longleftrightarrow> p = b \<and> b \<noteq> 0 \<and> mp_chain m (m b) bs"

text \<open>The area starts behind address 0 and does not wrap around the address space.\<close>

definition mp_area :: "mempool \<Rightarrow> bool" where
  "mp_area mp \<longleftrightarrow> start_address mp \<noteq> 0 \<and> block_size mp \<noteq> 0 \<and> unat (block_size mp) + 4 < 2 ^ 32 \<and>
     unat (start_address mp) + unat (block_total_count mp) * (unat (block_size mp) + 4) \<le> 2 ^ 32"

definition pool_ok :: "mempool \<Rightarrow> memory \<Rightarrow> u32 list \<Rightarrow> bool" where
  "pool_ok mp m hs \<longleftrightarrow> mp_area mp \<and> mp_chain m (block_list mp) (free_blocks mp m) \<and>
     distinct (free_blocks mp m @ hs) \<and> set (free_blocks mp m @ hs) = set (mp_blocks mp) \<and>
     (\<forall>b \<in> set hs. m b = mp_addr mp)"

subsection \<open>Where the blocks are\<close>

lemma mp_block_unat:
  assumes a: "mp_area mp" and i: "i < unat (block_total_count mp)"
  shows "unat (start_address mp + of_nat i * stride (block_size mp)) =
      unat (start_address mp) + i * (unat (block_size mp) + 4)"
    and "unat (start_address mp) + i * (unat (block_size mp) + 4) + (unat (block_size mp) + 4) \<le> 2 ^ 32"
proof -
  let ?s = "unat (start_address mp)" and ?b = "unat (block_size mp) + 4" and ?n = "unat (block_total_count mp)"
  have "i * ?b + ?b \<le> ?n * ?b" using i by (metis Suc_leI add.commute mult_Suc mult_le_mono1)
  then show le: "?s + i * ?b + ?b \<le> 2 ^ 32" using a by (simp add: mp_area_def)
  have st: "unat (stride (block_size mp)) = ?b" using a by (simp add: mp_area_def unat_word_ariths)
  have i32: "unat (of_nat i :: u32) = i" using i unat_u32_lt [of "block_total_count mp"] by (simp add: unat_of_nat)
  have "i * ?b < 2 ^ 32" using le by simp
  then have m: "unat (of_nat i * stride (block_size mp)) = i * ?b" using i32 st by (simp add: unat_word_ariths)
  show "unat (start_address mp + of_nat i * stride (block_size mp)) = ?s + i * ?b"
    using le m by (simp add: unat_word_ariths)
qed

text \<open>A word address inside a block, the first word or a later one, determines the block.\<close>

definition in_block :: "mempool \<Rightarrow> u32 \<Rightarrow> u32 \<Rightarrow> bool" where
  "in_block mp b a \<longleftrightarrow> unat b \<le> unat a \<and> unat a < unat b + (unat (block_size mp) + 4)"

lemma mp_block_cases:
  assumes "b \<in> set (mp_blocks mp)"
  obtains i where "i < unat (block_total_count mp)" "b = start_address mp + of_nat i * stride (block_size mp)"
  using assms by (auto simp: mp_blocks_def)

lemma in_block_unique:
  assumes a: "mp_area mp" and b: "b \<in> set (mp_blocks mp)" "c \<in> set (mp_blocks mp)" and x: "in_block mp b x" "in_block mp c x"
  shows "b = c"
proof -
  let ?s = "unat (start_address mp)" and ?b = "unat (block_size mp) + 4"
  obtain i where i: "i < unat (block_total_count mp)" "b = start_address mp + of_nat i * stride (block_size mp)"
    using b(1) by (rule mp_block_cases)
  obtain j where j: "j < unat (block_total_count mp)" "c = start_address mp + of_nat j * stride (block_size mp)"
    using b(2) by (rule mp_block_cases)
  have ub: "unat b = ?s + i * ?b" "unat c = ?s + j * ?b" using mp_block_unat(1) [OF a i(1)] mp_block_unat(1) [OF a j(1)] i j by simp_all
  have "i * ?b < Suc j * ?b" "j * ?b < Suc i * ?b" using x ub by (simp_all add: in_block_def)
  then have "i < Suc j" "j < Suc i" by (metis mult_less_cancel2)+
  then have "i = j" by linarith
  then show ?thesis using i j by simp
qed

lemma mp_block_in:
  assumes "mp_area mp" "b \<in> set (mp_blocks mp)"
  shows "b \<noteq> 0" "unat b + (unat (block_size mp) + 4) \<le> 2 ^ 32" "in_block mp b b" "unat (start_address mp) \<le> unat b"
proof -
  obtain i where i: "i < unat (block_total_count mp)" "b = start_address mp + of_nat i * stride (block_size mp)"
    using assms(2) by (rule mp_block_cases)
  note u = mp_block_unat [OF assms(1) i(1), folded i(2)]
  show "unat b + (unat (block_size mp) + 4) \<le> 2 ^ 32" "unat (start_address mp) \<le> unat b" using u by simp_all
  have "0 < unat (start_address mp)" using assms(1) by (simp add: mp_area_def unat_gt_0)
  then show "b \<noteq> 0" using u(1) by auto
qed (simp add: in_block_def)

lemma mp_user_pointer:
  assumes "mp_area mp" "b \<in> set (mp_blocks mp)"
  shows "b + 4 \<noteq> 0"
proof -
  have "0 < unat (block_size mp)" using assms(1) by (simp add: mp_area_def unat_gt_0)
  then have "unat b + 4 < 2 ^ 32" using mp_block_in(2) [OF assms] by linarith
  then have "unat (b + 4) = unat b + 4" by (simp add: unat_word_ariths)
  then show ?thesis by auto
qed

text \<open>The words of a block that its holder may use.\<close>

definition user_words :: "mempool \<Rightarrow> u32 \<Rightarrow> u32 set" where
  "user_words mp b = {b + 4 + of_nat x | x. x < unat (block_size mp)}"

lemma user_words_in:
  assumes "mp_area mp" "b \<in> set (mp_blocks mp)" "a \<in> user_words mp b"
  shows "in_block mp b a" "a \<noteq> b"
proof -
  obtain x where x: "x < unat (block_size mp)" "a = b + 4 + of_nat x" using assms(3) by (auto simp: user_words_def)
  note i = mp_block_in [OF assms(1,2)]
  have x32: "unat (of_nat x :: u32) = x" using x unat_u32_lt [of "block_size mp"] by (simp add: unat_of_nat)
  have u4: "unat (b + 4) = unat b + 4" using i(2) x by (simp add: unat_word_ariths)
  have u: "unat a = unat b + 4 + x" using i(2) x x32 u4 by (simp add: unat_word_ariths)
  then show "in_block mp b a" using x by (simp add: in_block_def)
  show "a \<noteq> b" using u by auto
qed

lemma user_words_apart:
  assumes a: "mp_area mp" and b: "b \<in> set (mp_blocks mp)" "c \<in> set (mp_blocks mp)" and x: "a \<in> user_words mp b"
  shows "a \<noteq> c" and "c \<noteq> b \<Longrightarrow> a \<notin> user_words mp c"
proof -
  note i = user_words_in [OF a b(1) x]
  show "a \<noteq> c" using in_block_unique [OF a b i(1)] mp_block_in(3) [OF a b(2)] i(2) by auto
  show "a \<notin> user_words mp c" if "c \<noteq> b"
    using in_block_unique [OF a b i(1)] user_words_in(1) [OF a b(2)] that by auto
qed

lemma mp_blocks_distinct:
  assumes "mp_area mp"
  shows "distinct (mp_blocks mp)"
proof -
  have "inj_on (\<lambda>i. start_address mp + of_nat i * stride (block_size mp)) {0..<unat (block_total_count mp)}"
  proof (rule inj_onI)
    fix i j assume i: "i \<in> {0..<unat (block_total_count mp)}" "j \<in> {0..<unat (block_total_count mp)}"
      and e: "start_address mp + of_nat i * stride (block_size mp) = start_address mp + of_nat j * stride (block_size mp)"
    from i have b: "i < unat (block_total_count mp)" "j < unat (block_total_count mp)" by simp_all
    have "unat (start_address mp) + i * (unat (block_size mp) + 4) = unat (start_address mp) + j * (unat (block_size mp) + 4)"
      using arg_cong [OF e, of unat] unfolding mp_block_unat(1) [OF assms b(1)] mp_block_unat(1) [OF assms b(2)] .
    then have "i * (unat (block_size mp) + 4) = j * (unat (block_size mp) + 4)" by (simp only: add_left_cancel)
    then show "i = j" by (simp only: mult_cancel2) simp
  qed
  then show ?thesis by (simp add: mp_blocks_def distinct_map)
qed

subsection \<open>Linking, taking and giving back\<close>

lemma mp_walk_length [simp]: "length (mp_walk m n p) = n"
  by (induction n arbitrary: p) auto

lemma mp_walk_cong: "\<forall>x \<in> set (mp_walk m n p). m' x = m x \<Longrightarrow> mp_walk m' n p = mp_walk m n p"
  by (induction n arbitrary: p) auto

lemma mp_chain_cong: "\<forall>x \<in> set bs. m' x = m x \<Longrightarrow> mp_chain m' p bs = mp_chain m p bs"
  by (induction bs arbitrary: p) auto

lemma mp_chain_walk: "mp_chain m p bs \<Longrightarrow> mp_walk m (length bs) p = bs"
  by (induction bs arbitrary: p) auto

lemma fold_upd_index:
  assumes "inj_on f {0..<n}"
  shows "j < n \<Longrightarrow> fold (\<lambda>i m. m(f i := g i)) [0..<n] m (f j) = g j"
    and "x \<notin> f ` {0..<n} \<Longrightarrow> fold (\<lambda>i m. m(f i := g i)) [0..<n] m x = m x"
proof -
  show "j < n \<Longrightarrow> fold (\<lambda>i m. m(f i := g i)) [0..<n] m (f j) = g j"
    using assms
  proof (induction n)
    case (Suc n)
    have i: "inj_on f {0..<n}" by (rule inj_on_subset [OF Suc.prems(2)]) auto
    have "f j \<noteq> f n" if "j \<noteq> n" using inj_onD [OF Suc.prems(2), of j n] Suc.prems(1) that by auto
    then show ?case using Suc.IH [OF _ i] Suc.prems(1) by (cases "j = n") auto
  qed simp
  show "x \<notin> f ` {0..<n} \<Longrightarrow> fold (\<lambda>i m. m(f i := g i)) [0..<n] m x = m x"
    by (induction n) (auto simp: atLeastLessThanSuc)
qed

lemma link_blocks_ok:
  fixes mp :: mempool
  defines "m' \<equiv> \<lambda>m. link_blocks (start_address mp) (block_size mp) (block_total_count mp) m"
  assumes a: "mp_area mp" and n: "block_total_count mp \<noteq> 0"
  shows "mp_chain (m' m) (start_address mp) (mp_blocks mp)" and "x \<notin> set (mp_blocks mp) \<Longrightarrow> m' m x = m x"
proof -
  define f where "f i = start_address mp + of_nat i * stride (block_size mp)" for i
  define k where "k = unat (block_total_count mp)"
  have k0: "0 < k" using n by (simp add: k_def unat_gt_0)
  have bl: "mp_blocks mp = map f [0..<k]" by (simp add: mp_blocks_def f_def k_def)
  have inj: "inj_on f {0..<k}" using mp_blocks_distinct [OF a] by (simp add: bl distinct_map)
  have next_f: "start_address mp + (of_nat i + 1) * stride (block_size mp) = f (Suc i)" for i by (simp add: f_def add.commute)
  have last: "start_address mp + (block_total_count mp - 1) * stride (block_size mp) = f (k - 1)"
    using k0 by (simp add: f_def k_def of_nat_diff Suc_le_eq)
  define m1 where "m1 = fold (\<lambda>i m. m(f i := f (Suc i))) [0..<k] m"
  have m': "m' m = m1(f (k - 1) := 0)"
    unfolding m'_def link_blocks_def Let_def next_f last m1_def by (simp add: f_def k_def)
  note u = fold_upd_index [OF inj, where g = "\<lambda>i. f (Suc i)" and m = m, folded m1_def]
  have val: "m' m (f i) = (if Suc i < k then f (Suc i) else 0)" if "i < k" for i
  proof (cases "Suc i < k")
    case True
    then have "f i \<noteq> f (k - 1)" using inj_onD [OF inj, of i "k - 1"] that by auto
    then show ?thesis using u(1) [OF that] True by (simp add: m')
  next
    case False
    then have "i = k - 1" using that by simp
    then show ?thesis using False by (simp add: m')
  qed
  have nz: "f i \<noteq> 0" if "i < k" for i using mp_block_in(1) [OF a, of "f i"] that by (simp add: bl)
  have "mp_chain (m' m) (if i < k then f i else 0) (map f [i..<k])" if "i \<le> k" for i
    using that by (induction rule: inc_induct) (use val nz in \<open>auto simp: upt_conv_Cons\<close>)
  from this [of 0] show "mp_chain (m' m) (start_address mp) (mp_blocks mp)" using k0 by (simp add: bl f_def)
  show "m' m x = m x" if "x \<notin> set (mp_blocks mp)"
    using u(2) [of x] that k0 by (auto simp: m' bl)
qed

definition take_block :: "mempool \<Rightarrow> memory \<Rightarrow> mempool" where
  "take_block mp m = mp\<lparr>block_free_count := block_free_count mp - 1, block_list := m (block_list mp)\<rparr>"

definition give_block :: "mempool \<Rightarrow> u32 \<Rightarrow> mempool" where
  "give_block mp b = mp\<lparr>block_free_count := block_free_count mp + 1, block_list := b\<rparr>"

text \<open>Where the pool is and how it is divided.\<close>

definition mp_shape :: "mempool \<Rightarrow> u32 \<times> u32 \<times> u32" where
  "mp_shape mp = (start_address mp, block_size mp, block_total_count mp)"

lemma mp_shape_blocks: "mp_shape mp = mp_shape mp' \<Longrightarrow> mp_blocks mp = mp_blocks mp' \<and> user_words mp = user_words mp'"
  by (simp add: mp_shape_def mp_blocks_def user_words_def fun_eq_iff)

lemma mp_geometry [simp]:
  "mp_shape (take_block mp m) = mp_shape mp" "mp_shape (give_block mp b) = mp_shape mp"
  "mp_blocks (take_block mp m) = mp_blocks mp" "mp_area (take_block mp m) = mp_area mp"
  "mp_blocks (give_block mp b) = mp_blocks mp" "mp_area (give_block mp b) = mp_area mp"
  "in_block (take_block mp m) = in_block mp" "in_block (give_block mp b) = in_block mp"
  "mp_suspend_thread (take_block mp m) = mp_suspend_thread mp" "mp_suspend_thread (give_block mp b) = mp_suspend_thread mp"
  by (simp_all add: take_block_def give_block_def mp_shape_def mp_blocks_def mp_area_def in_block_def fun_eq_iff)

lemma take_block_ok:
  assumes p: "pool_ok mp m hs" and n: "block_free_count mp \<noteq> 0"
  defines "b \<equiv> block_list mp" and "m' \<equiv> m(block_list mp := mp_addr mp)"
  shows "free_blocks mp m = b # free_blocks (take_block mp m) m'" and "pool_ok (take_block mp m) m' (hs @ [b])"
    and "b \<noteq> 0" "b \<in> set (mp_blocks mp)" "unat (block_free_count (take_block mp m)) = unat (block_free_count mp) - 1"
proof -
  obtain k where k: "unat (block_free_count mp) = Suc k" using n by (cases "unat (block_free_count mp)") (auto simp: unat_eq_0)
  have u: "unat (block_free_count mp - 1) = k" using unat_dec_pos [OF n] k by simp
  have f: "free_blocks mp m = b # mp_walk m k (m b)" by (simp add: k b_def)
  have d: "b \<notin> set (mp_walk m k (m b))" "b \<notin> set hs" and b: "b \<noteq> 0" "b \<in> set (mp_blocks mp)"
    and c: "mp_chain m (m b) (mp_walk m k (m b))" and di: "distinct (mp_walk m k (m b) @ hs)"
    and se: "insert b (set (mp_walk m k (m b) @ hs)) = set (mp_blocks mp)" and hd: "\<forall>x \<in> set hs. m x = mp_addr mp"
    and a: "mp_area mp"
    using p unfolding pool_ok_def f by auto
  have w: "free_blocks (take_block mp m) m' = mp_walk m k (m b)"
    using mp_walk_cong [of m k "m b" m'] d(1) by (auto simp: take_block_def u m'_def b_def)
  show "free_blocks mp m = b # free_blocks (take_block mp m) m'" by (simp only: f w)
  have "mp_chain m' (m b) (mp_walk m k (m b))" using c d(1) mp_chain_cong [of "mp_walk m k (m b)" m' m] by (simp add: m'_def b_def)
  moreover have "block_list (take_block mp m) = m b" by (simp add: take_block_def b_def)
  moreover have "m' x = mp_addr (take_block mp m)" if "x \<in> set (hs @ [b])" for x
    using that hd by (auto simp: m'_def b_def take_block_def)
  moreover have "distinct (mp_walk m k (m b) @ hs @ [b])" "set (mp_walk m k (m b) @ hs @ [b]) = set (mp_blocks mp)"
    using d di se by auto
  ultimately show "pool_ok (take_block mp m) m' (hs @ [b])"
    using a unfolding pool_ok_def w by simp
  show "b \<noteq> 0" "b \<in> set (mp_blocks mp)" by fact+
  show "unat (block_free_count (take_block mp m)) = unat (block_free_count mp) - 1" by (simp add: take_block_def u k)
qed

lemma pool_count:
  assumes "pool_ok mp m hs"
  shows "unat (block_free_count mp) + length hs = unat (block_total_count mp)"
proof -
  have "length (free_blocks mp m @ hs) = card (set (free_blocks mp m @ hs))"
    using assms unfolding pool_ok_def by (metis distinct_card)
  also have "\<dots> = card (set (mp_blocks mp))" using assms by (simp only: pool_ok_def)
  also have "\<dots> = length (mp_blocks mp)"
    using assms mp_blocks_distinct by (simp add: pool_ok_def distinct_card)
  finally show ?thesis by (simp add: mp_blocks_def)
qed

lemma give_block_ok:
  assumes p: "pool_ok mp m hs" and b: "b \<in> set hs"
  defines "m' \<equiv> m(b := block_list mp)"
  shows "free_blocks (give_block mp b) m' = b # free_blocks mp m" and "pool_ok (give_block mp b) m' (remove1 b hs)"
    and "unat (block_free_count (give_block mp b)) = Suc (unat (block_free_count mp))" and "m b = mp_addr mp"
    and "b \<in> set (mp_blocks mp)"
proof -
  have "0 < length hs" using b by auto
  then have "unat (block_free_count mp) < unat (block_total_count mp)" using pool_count [OF p] by linarith
  then have "block_free_count mp < block_total_count mp" by (simp only: word_less_nat_alt)
  then have u: "unat (block_free_count mp + 1) = Suc (unat (block_free_count mp))" by (rule unat_inc_less)
  have d: "b \<notin> set (free_blocks mp m)" and bl: "b \<in> set (mp_blocks mp)" and h: "m b = mp_addr mp"
    and c: "mp_chain m (block_list mp) (free_blocks mp m)" and a: "mp_area mp"
    using p b by (auto simp: pool_ok_def)
  have w: "free_blocks (give_block mp b) m' = b # free_blocks mp m"
    using mp_walk_cong [of m _ "block_list mp" m'] d by (auto simp: give_block_def u m'_def)
  then show "free_blocks (give_block mp b) m' = b # free_blocks mp m" .
  have "mp_chain m' (block_list mp) (free_blocks mp m)" using c d mp_chain_cong [of "free_blocks mp m" m' m] by (simp add: m'_def)
  moreover have "m' b = block_list mp" "block_list (give_block mp b) = b" "b \<noteq> 0"
    using mp_block_in(1) [OF a bl] by (simp_all add: m'_def give_block_def)
  moreover have "distinct hs" "set (free_blocks mp m) \<union> set hs = set (mp_blocks mp)"
    "set (free_blocks mp m) \<inter> set hs = {}" "distinct (free_blocks mp m)"
    using p by (auto simp: pool_ok_def)
  moreover from this(1) have "set (remove1 b hs) = set hs - {b}" "distinct (remove1 b hs)" by (simp_all add: set_remove1_eq)
  moreover have "m' x = mp_addr (give_block mp b)" if "x \<in> set hs - {b}" for x
    using that p by (auto simp: pool_ok_def m'_def give_block_def)
  ultimately show "pool_ok (give_block mp b) m' (remove1 b hs)"
    using b d a unfolding pool_ok_def w by auto
  show "unat (block_free_count (give_block mp b)) = Suc (unat (block_free_count mp))" by (simp add: give_block_def u)
  show "m b = mp_addr mp" "b \<in> set (mp_blocks mp)" by fact+
qed

section \<open>Threads that wait for a block\<close>

text \<open>
  A pending allocation is the time that is left and the tick at which its thread began to wait; \<open>a\<close> blocks are
  accounted for and \<open>n\<close> bounds the ticks since a pending allocation began to wait.
\<close>

definition waiters_state :: "nat \<Rightarrow> nat \<Rightarrow> nat \<Rightarrow> kernel \<Rightarrow> (nat \<Rightarrow> (int \<times> u32) option) \<Rightarrow> bool" where
  "waiters_state w a n k pend \<longleftrightarrow> calls_inv k \<and> settled k \<and> side_inv w (\<lambda>t. pend t \<noteq> None) a k \<and>
     (\<forall>t p. pend t = Some p \<longrightarrow> legal_time (fst p) \<and> unat (rt_tick k - snd p) \<le> n)"

lemma waiters_state_sel:
  assumes "waiters_state w a n k pend"
  shows "calls_inv k" "settled k" "side_inv w (\<lambda>t. pend t \<noteq> None) a k"
    "pend t = Some p \<Longrightarrow> legal_time (fst p) \<and> unat (rt_tick k - snd p) \<le> n"
  using assms unfolding waiters_state_def by blast+

lemma waiters_state_less: "waiters_state w a n k pend \<Longrightarrow> a' \<le> a \<Longrightarrow> waiters_state w a' n k pend"
  using side_inv_mono by (auto simp: waiters_state_def)

lemma mp_wait_eq:
  assumes k: "kernel_inv k" and c: "rt_current_thread k = Some c" "stat (tcbs k c) = RT_THREAD_RUNNING"
  shows "mp_wait w c time k =
     bind_err (if 0 < time then start_thread_timer c (of_int time) (waits w (c # links k (Wait w)) c k)
       else Inr (waits w (c # links k (Wait w)) c k)) rt_schedule"
proof -
  note p = kernel_inv_parts [OF k]
  have "links (suspended c k) (Wait w) = links k (Wait w)"
    using running_unlinked [OF p(1) c(2)] by (simp add: unlinked_def)
  then show ?thesis
    by (simp add: mp_wait_def suspend_eq [OF p(1,3) c] rt_list_insert_after_def waits_def Let_def)
qed

lemma mp_wait_ok:
  assumes s: "waiters_state w a n k pend" and c: "rt_current_thread k = Some c" "c \<noteq> idle_thread" "pend c = None"
    and time: "legal_time time"
  obtains k' where "mp_wait w c time (set_error c RT_EOK k) = Inr k'"
    "waiters_state w 0 n k' (pend(c := Some (time, rt_tick k)))"
proof -
  note d = waiters_state_sel [OF s]
  have r: "stat (tcbs k c) = RT_THREAD_RUNNING" using calls_inv_running [OF d(1)] c(1) by auto
  define k1 where "k1 = set_error c RT_EOK k"
  note g = set_error_self [OF d(1) c(1) r, where e = RT_EOK, folded k1_def]
  have c1: "error (tcbs k1 c) = RT_EOK" "rt_tick k1 = rt_tick k" by (simp_all add: k1_def set_error_def)
  have s1: "side_inv w (\<lambda>t. pend t \<noteq> None) a k1"
    by (rule side_inv_frame [OF d(3)], simp add: g(5), rule g(4)) (use c(3) in blast)
  note k0 = calls_inv_sel(1) [OF g(1)]
  have us: "set (c # links k1 (Wait w)) = insert c (set (links k1 (Wait w)))" "distinct (c # links k1 (Wait w))"
    using waiting_not_running [OF g(1,3)] waiting_distinct [OF k0] by simp_all
  have idle: "stat (tcbs k1 idle_thread) = RT_THREAD_READY"
    using calls_inv_running [OF g(1)] g(2) c(2) by (metis option.inject)
  obtain k' where k': "mp_wait w c time k1 = Inr k'" "kernel_inv k'" "settled k'"
    "waits_in w (c # links k1 (Wait w)) time c k1 k'"
    using list_wait_ok [OF k0 g(2,3) us time idle] mp_wait_eq [OF k0 g(2,3)] by metis
  note wi = waits_in_sel [OF k'(4)]
  have e: "error (tcbs k' c) = RT_EOK" using wi(4) c1(1) by simp
  have j: "set (links k' (Wait w)) = insert c (set (links k1 (Wait w)))" using wi(1) by simp
  have p: "(\<lambda>t. (pend(c := Some (time, rt_tick k))) t \<noteq> None) = (\<lambda>t. t = c \<or> pend t \<noteq> None)" by auto
  have "side_inv w (\<lambda>t. (pend(c := Some (time, rt_tick k))) t \<noteq> None) 0 k'"
    unfolding p by (rule side_inv_join [OF s1 j _ e c(2)]) (rule wi(5))
  moreover have "calls_inv k'" by (rule waits_in_calls_inv [OF g(1) c(2) k'(2-4)])
  moreover have "legal_time (fst q) \<and> unat (rt_tick k' - snd q) \<le> n"
    if "(pend(c := Some (time, rt_tick k))) t = Some q" for t q
    using that d(4) [of t q] time wi(3) c1(2) by (auto split: if_splits)
  ultimately have "waiters_state w 0 n k' (pend(c := Some (time, rt_tick k)))"
    using k'(3) by (simp add: waiters_state_def)
  then show thesis using that k'(1) by (simp add: k1_def)
qed

lemma mp_wake_ok:
  assumes s: "waiters_state w a n k pend"
  obtains k' where "mp_wake w k = Inr k'" "waiters_state w (Suc a) n k' pend"
proof -
  note d = waiters_state_sel [OF s]
  have e: "set_error t RT_EOK k = k" if "links k (Wait w) = t # ts" for t ts
  proof -
    have "error (tcbs k t) = RT_EOK" using d(3) that by (simp add: side_inv_def)
    then have "(tcbs k t)\<lparr>error := RT_EOK\<rparr> = tcbs k t" by (cases "tcbs k t") simp
    then show ?thesis by (simp add: set_error_def upd_tcb_def fun_upd_idem)
  qed
  have "mp_wake w k = wake_first w k"
    using e by (auto simp: mp_wake_def wake_first_def ipc_list_resume_def bind_err_assoc split: list.split prod.split)
      (auto simp: bind_err_def split: sum.splits)
  moreover obtain k' where k': "wake_first w k = Inr k'" "calls_inv k'" "settled k'" "rt_tick k' = rt_tick k"
    "\<And>P n. side_inv w P n k \<Longrightarrow> side_inv w P (Suc n) k'"
    using wake_first_ok [OF d(1,2), of w] by metis
  moreover have "waiters_state w (Suc a) n k' pend" using s k'(2-4) k'(5) [OF d(3)] by (simp add: waiters_state_def)
  ultimately show thesis using that by simp
qed

text \<open>A waiting allocation of the running thread goes on: it is no longer pending.\<close>

lemma alloc_leaves:
  assumes s: "waiters_state w a n k pend" and c: "rt_current_thread k = Some c"
  shows "waiters_state w (a - 1) n k (pend(c := None))"
    and "error (tcbs k c) \<noteq> RT_EOK \<Longrightarrow> waiters_state w a n k (pend(c := None))"
proof -
  note d = waiters_state_sel [OF s]
  have r: "stat (tcbs k c) = RT_THREAD_RUNNING" using calls_inv_running [OF d(1)] c(1) by auto
  have out: "c \<notin> set (links k (Wait w))" by (rule waiting_not_running [OF d(1) r])
  note l = side_inv_done [OF d(3) out]
  have p: "(\<lambda>t. (pend(c := None)) t \<noteq> None) = (\<lambda>t. pend t \<noteq> None \<and> t \<noteq> c)" by auto
  have q: "legal_time (fst q) \<and> unat (rt_tick k - snd q) \<le> n" if "(pend(c := None)) t = Some q" for t q
    using d(4) [of t q] that by (auto split: if_splits)
  show "waiters_state w (a - 1) n k (pend(c := None))"
    using d(1,2) l(1) q unfolding waiters_state_def p by blast
  show "waiters_state w a n k (pend(c := None))" if "error (tcbs k c) \<noteq> RT_EOK"
    using d(1,2) l(2) that q unfolding waiters_state_def p by blast
qed

lemma waiters_state_tick:
  assumes s: "waiters_state w a n k pend"
  obtains k' where "rt_tick_increase own k = Some (Inr k')" "waiters_state w a (Suc n) k' pend"
proof -
  note d = waiters_state_sel [OF s]
  obtain k' where k': "rt_tick_increase own k = Some (Inr k')" "calls_inv k'" "rt_tick k' = rt_tick k + 1"
    "\<And>t. expires k t \<Longrightarrow> timed_out k' t" "\<And>t. \<not> expires k t \<Longrightarrow> untouched k k' t"
    "\<And>w. links k' (Wait w) = filter (\<lambda>t. \<not> expires k t) (links k (Wait w))" "settled k'"
    using calls_inv_tick [OF d(1)] d(2) by metis
  have "side_inv w (\<lambda>t. pend t \<noteq> None) a k'"
    by (rule side_inv_tick [OF d(3) calls_inv_sel(1) [OF d(1)] k'(6)]) (fact k'(4,5))+
  moreover have "unat (rt_tick k' - snd p) \<le> Suc n" if "pend t = Some p" for t p
  proof -
    have "rt_tick k' - snd p = (rt_tick k - snd p) + 1" by (simp add: k'(3))
    then show ?thesis using d(4) [OF that] unat_inc_le [of "rt_tick k - snd p"] by (metis Suc_le_mono order_trans)
  qed
  ultimately have "waiters_state w a (Suc n) k' pend" using k'(2,7) d(4) unfolding waiters_state_def by blast
  with k'(1) show thesis using that by blast
qed

section \<open>Runs of a pool\<close>

text \<open>
  The pool, the memory, and the blocks the callers hold, in the order in which they got them. A caller gives back a
  block that it holds, and writes words inside it; with a number that is not that of a held block
  or of a word inside it, nothing happens.
\<close>

record mp_system =
  the_pool :: mempool
  the_memory :: memory
  held :: "u32 list"

datatype mp_input = Mp_alloc int | Mp_free nat | Mp_free_null | Mp_store nat nat u32

type_synonym mp_part = "(mp_system, int \<times> u32, u32) part"

definition mp_free_list :: "mp_system \<Rightarrow> u32 list" where
  "mp_free_list s = free_blocks (the_pool s) (the_memory s)"

fun got_block :: "u32 call \<Rightarrow> u32 list" where
  "got_block (Returned p) = (if p = 0 then [] else [p - 4])"
| "got_block Switched = []"

definition alloc_ends :: "int \<Rightarrow> u32 \<Rightarrow> mp_system \<Rightarrow> u32 call \<times> mempool \<times> memory \<times> kernel \<Rightarrow> mp_part" where
  "alloc_ends time now s = (\<lambda>(r, mp, m, k).
     Inr ((if r = Switched then Some (time, now) else None, map Taken (got_block r)),
       \<lparr>the_pool = mp, the_memory = m, held = held s @ got_block r\<rparr>, k))"

definition free_ends :: "u32 list \<Rightarrow> mp_system \<Rightarrow> mempool \<times> memory \<times> kernel \<Rightarrow> mp_part" where
  "free_ends bs s = (\<lambda>(mp, m, k).
     Inr ((None, map Urged bs), \<lparr>the_pool = mp, the_memory = m, held = fold remove1 bs (held s)\<rparr>, k))"

definition mp_new_call :: "mp_input \<Rightarrow> mp_system \<Rightarrow> kernel \<Rightarrow> mp_part" where
  "mp_new_call i s k =
     (case i of
        Mp_alloc time \<Rightarrow> bind_err (rt_mp_alloc (the_pool s) time (the_memory s) k) (alloc_ends time (rt_tick k) s)
      | Mp_free j \<Rightarrow>
          if j < length (held s) then
            bind_err (rt_mp_free (the_pool s) (held s ! j + 4) (the_memory s) k) (free_ends [held s ! j] s)
          else Inr ((None, []), s, k)
      | Mp_free_null \<Rightarrow> bind_err (rt_mp_free (the_pool s) 0 (the_memory s) k) (free_ends [] s)
      | Mp_store j x v \<Rightarrow>
          if j < length (held s) \<and> x < unat (block_size (the_pool s))
          then Inr ((None, []), s\<lparr>the_memory := (the_memory s)(held s ! j + 4 + of_nat x := v)\<rparr>, k)
          else Inr ((None, []), s, k))"

definition mp_go_on :: "nat \<Rightarrow> int \<times> u32 \<Rightarrow> mp_system \<Rightarrow> kernel \<Rightarrow> mp_part" where
  "mp_go_on c p s k =
     bind_err (rt_mp_alloc_wake c (fst p) (snd p) (the_pool s) (the_memory s) k)
       (alloc_ends (time_left (fst p) (snd p) (rt_tick k)) (rt_tick k) s)"

definition legal_mp_input :: "mp_input \<Rightarrow> bool" where
  "legal_mp_input i \<longleftrightarrow> (case i of Mp_alloc time \<Rightarrow> legal_time time | _ \<Rightarrow> True)"

definition mp_inv :: "u32 \<times> u32 \<times> u32 \<Rightarrow> nat \<Rightarrow> mp_system \<Rightarrow> kernel \<Rightarrow> (nat \<Rightarrow> (int \<times> u32) option) \<Rightarrow> bool" where
  "mp_inv g n s k pend \<longleftrightarrow> mp_shape (the_pool s) = g \<and> pool_ok (the_pool s) (the_memory s) (held s) \<and>
     waiters_state (mp_suspend_thread (the_pool s)) (unat (block_free_count (the_pool s))) n k pend"

lemma mp_inv_parts:
  assumes "mp_inv g n s k pend"
  shows "pool_ok (the_pool s) (the_memory s) (held s)"
    "waiters_state (mp_suspend_thread (the_pool s)) (unat (block_free_count (the_pool s))) n k pend" "mp_shape (the_pool s) = g"
  using assms by (simp_all add: mp_inv_def)

text \<open>The loop of an allocation: all blocks but the one it may take are accounted for.\<close>

lemma mp_alloc_call:
  assumes p: "pool_ok (the_pool s) (the_memory s) (held s)" and g: "mp_shape (the_pool s) = g"
    and s: "waiters_state (mp_suspend_thread (the_pool s)) (unat (block_free_count (the_pool s)) - 1) n k (pend(c := None))"
    and c: "rt_current_thread k = Some c" "c \<noteq> idle_thread" and time: "legal_time time"
  shows "part_ok (mp_inv g n) mp_free_list s pend c
     (bind_err (rt_mp_alloc (the_pool s) time (the_memory s) k) (alloc_ends time (rt_tick k) s))"
proof -
  note d = waiters_state_sel [OF s]
  note a = calls_inv_sel [OF d(1)]
  have run: "stat (tcbs k c) = RT_THREAD_RUNNING" using calls_inv_running [OF d(1)] c(1) by auto
  have none: "(pend(c := None)) c = None" by simp
  consider (empty) "block_free_count (the_pool s) = 0" "time = 0" | (waits) "block_free_count (the_pool s) = 0" "time \<noteq> 0"
    | (takes) "block_free_count (the_pool s) \<noteq> 0" by blast
  then show ?thesis
  proof cases
    case empty
    note se = set_error_self [OF d(1) c(1) run, where e = "- RT_ETIMEOUT"]
    have "side_inv (mp_suspend_thread (the_pool s)) (\<lambda>t. (pend(c := None)) t \<noteq> None) 0 (set_error c (- RT_ETIMEOUT) k)"
      by (rule side_inv_frame [of _ _ _ k], use d(3) empty in simp, simp add: se(5), rule se(4)) (use none in metis)
    then have "waiters_state (mp_suspend_thread (the_pool s)) 0 n (set_error c (- RT_ETIMEOUT) k) (pend(c := None))"
      using se(1,6) d(2,4) by (simp add: waiters_state_def set_error_def)
    then show ?thesis
      using p empty a(4) c(1) by (simp add: rt_mp_alloc_def alloc_ends_def rt_set_errno_def rt_thread_self_def part_ok_def mp_inv_def g mp_free_list_def)
  next
    case waits
    obtain k' where "mp_wait (mp_suspend_thread (the_pool s)) c time (set_error c RT_EOK k) = Inr k'"
      "waiters_state (mp_suspend_thread (the_pool s)) 0 n k' (pend(c := None, c := Some (time, rt_tick k)))"
      using mp_wait_ok [OF s c none time] by metis
    then show ?thesis
      using p waits a(4) c(1)
      by (simp add: rt_mp_alloc_def alloc_ends_def rt_thread_self_def part_ok_def mp_inv_def g not_in_interrupt_def mp_free_list_def)
  next
    case takes
    note t = take_block_ok [OF p takes]
    let ?mp = "the_pool s" and ?m = "the_memory s"
    have r: "rt_mp_alloc ?mp time ?m k =
        Inr (Returned (block_list ?mp + 4), take_block ?mp ?m, ?m(block_list ?mp := mp_addr ?mp), k)"
      using takes t(3) by (simp add: rt_mp_alloc_def take_block_def Let_def)
    have "block_list ?mp + 4 \<noteq> 0" using mp_user_pointer [OF _ t(4)] p by (simp add: pool_ok_def)
    then show ?thesis
      using t(1,2,5) s g by (simp add: r alloc_ends_def part_ok_def mp_inv_def g mp_free_list_def)
  qed
qed

lemma mp_free_call:
  assumes s: "mp_inv g n s k pend" and j: "b \<in> set (held s)"
  obtains k' where "rt_mp_free (the_pool s) (b + 4) (the_memory s) k =
       Inr (give_block (the_pool s) b, (the_memory s)(b := block_list (the_pool s)), k')"
    "mp_inv g n \<lparr>the_pool = give_block (the_pool s) b, the_memory = (the_memory s)(b := block_list (the_pool s)),
       held = remove1 b (held s)\<rparr> k' pend"
proof -
  note p = mp_inv_parts [OF s]
  note gb = give_block_ok [OF p(1) j]
  obtain k' where k': "mp_wake (mp_suspend_thread (the_pool s)) k = Inr k'"
    "waiters_state (mp_suspend_thread (the_pool s)) (Suc (unat (block_free_count (the_pool s)))) n k' pend"
    using mp_wake_ok [OF p(2)] by metis
  have nz: "b + 4 \<noteq> 0" using mp_user_pointer [OF _ gb(5)] p(1) by (simp add: pool_ok_def)
  show thesis
  proof (rule that [of k'])
    show "rt_mp_free (the_pool s) (b + 4) (the_memory s) k =
       Inr (give_block (the_pool s) b, (the_memory s)(b := block_list (the_pool s)), k')"
      using nz gb(4) k'(1) by (simp add: rt_mp_free_def give_block_def Let_def)
  qed (use gb(2,3) k'(2) p(3) in \<open>simp add: mp_inv_def\<close>)
qed

text \<open>Writing inside a held block leaves the words in front of the blocks alone.\<close>

lemma pool_ok_store:
  assumes p: "pool_ok mp m hs" and b: "b \<in> set hs" and a: "a \<in> user_words mp b"
  shows "pool_ok mp (m(a := v)) hs" and "free_blocks mp (m(a := v)) = free_blocks mp m"
proof -
  have ar: "mp_area mp" and bl: "b \<in> set (mp_blocks mp)" and f: "set (free_blocks mp m) \<subseteq> set (mp_blocks mp)"
    and hs: "set hs \<subseteq> set (mp_blocks mp)"
    using p b by (auto simp: pool_ok_def)
  have ne: "a \<noteq> c" if "c \<in> set (mp_blocks mp)" for c by (rule user_words_apart(1) [OF ar bl that a])
  have w: "free_blocks mp (m(a := v)) = free_blocks mp m" by (rule mp_walk_cong) (use ne f in auto)
  then show "free_blocks mp (m(a := v)) = free_blocks mp m" .
  have "mp_chain (m(a := v)) (block_list mp) (free_blocks mp m) = mp_chain m (block_list mp) (free_blocks mp m)"
    by (rule mp_chain_cong) (use ne f in auto)
  moreover have "(m(a := v)) c = m c" if "c \<in> set hs" for c using ne that hs by auto
  ultimately show "pool_ok mp (m(a := v)) hs" using p unfolding pool_ok_def w by simp
qed

lemma mp_new_call_ok:
  assumes s: "mp_inv g n s k pend" and c: "rt_current_thread k = Some c" "c \<noteq> idle_thread" "pend c = None"
    and i: "legal_mp_input i"
  shows "part_ok (mp_inv g n) mp_free_list s pend c (mp_new_call i s k)"
proof -
  have same: "pend(c := None) = pend" using c(3) by auto
  note p = mp_inv_parts [OF s]
  show ?thesis
  proof (cases i)
    case (Mp_alloc time)
    have "waiters_state (mp_suspend_thread (the_pool s)) (unat (block_free_count (the_pool s)) - 1) n k (pend(c := None))"
      unfolding same by (rule waiters_state_less [OF p(2)]) simp
    from mp_alloc_call [OF p(1,3) this c(1,2), of time] i Mp_alloc show ?thesis
      by (simp add: mp_new_call_def legal_mp_input_def)
  next
    case (Mp_free j)
    show ?thesis
    proof (cases "j < length (held s)")
      case True
      then have b: "held s ! j \<in> set (held s)" by simp
      obtain k' where k': "rt_mp_free (the_pool s) (held s ! j + 4) (the_memory s) k =
          Inr (give_block (the_pool s) (held s ! j), (the_memory s)(held s ! j := block_list (the_pool s)), k')"
        "mp_inv g n \<lparr>the_pool = give_block (the_pool s) (held s ! j),
           the_memory = (the_memory s)(held s ! j := block_list (the_pool s)), held = remove1 (held s ! j) (held s)\<rparr> k' pend"
        using mp_free_call [OF s b] by metis
      show ?thesis
        using k' True Mp_free p(3) give_block_ok(1) [OF p(1) b]
        by (simp add: mp_new_call_def free_ends_def part_ok_def same mp_free_list_def)
    qed (use s Mp_free in \<open>simp add: mp_new_call_def part_ok_def same\<close>)
  next
    case Mp_free_null
    then show ?thesis using s
      by (simp add: mp_new_call_def rt_mp_free_def free_ends_def part_ok_def same mp_inv_def mp_free_list_def)
  next
    case (Mp_store j x v)
    show ?thesis
    proof (cases "j < length (held s) \<and> x < unat (block_size (the_pool s))")
      case True
      then have b: "held s ! j \<in> set (held s)" by simp
      have "held s ! j + 4 + of_nat x \<in> user_words (the_pool s) (held s ! j)" using True by (auto simp: user_words_def)
      note st = pool_ok_store [OF p(1) b this, of v]
      show ?thesis using True Mp_store st p(2,3)
        by (simp add: mp_new_call_def part_ok_def same mp_inv_def mp_free_list_def)
    qed (use s Mp_store in \<open>auto simp: mp_new_call_def part_ok_def same\<close>)
  qed
qed

lemma mp_go_on_ok:
  assumes s: "mp_inv g n s k pend" and c: "rt_current_thread k = Some c" "c \<noteq> idle_thread" "pend c = Some p" and n: "n < 2 ^ 31"
  shows "part_ok (mp_inv g n) mp_free_list s pend c (mp_go_on c p s k)"
proof -
  note q = mp_inv_parts [OF s]
  note l = alloc_leaves [OF q(2) c(1)]
  have time: "legal_time (time_left (fst p) (snd p) (rt_tick k))"
    using waiters_state_sel(4) [OF q(2) c(3)] n time_left_ok by auto
  show ?thesis
  proof (cases "error (tcbs k c) = RT_EOK")
    case True
    from mp_alloc_call [OF q(1,3) l(1) c(1,2) time] True show ?thesis
      by (simp add: mp_go_on_def rt_mp_alloc_wake_def rt_tick_get_def)
  next
    case False
    then show ?thesis using q(1,3) l(2)
      by (simp add: mp_go_on_def rt_mp_alloc_wake_def alloc_ends_def part_ok_def mp_inv_def mp_free_list_def)
  qed
qed

lemma mp_inv_tick:
  assumes "mp_inv g n s k pend"
  shows "\<exists>k'. rt_tick_increase own k = Some (Inr k') \<and> mp_inv g (Suc n) s k' pend"
  using waiters_state_tick [OF mp_inv_parts(2) [OF assms], of own] mp_inv_parts(1,3) [OF assms]
  unfolding mp_inv_def by metis

interpretation mp_runs: blocking_queue mp_new_call mp_go_on legal_mp_input "mp_inv g" mp_free_list for g
proof
  show "calls_inv k" if "mp_inv g n s k pend" for n s k pend
    by (rule waiters_state_sel(1) [OF mp_inv_parts(2) [OF that]])
qed (fact mp_new_call_ok mp_go_on_ok mp_inv_tick)+

section \<open>Initialisation and isolation\<close>

lemma init_pool_ok:
  assumes b: "0 < bsize" "unat bsize < 2 ^ 32 - 8" and s: "start \<noteq> 0" "unat start + unat sz \<le> 2 ^ 32"
    and fits: "unat (RT_ALIGN bsize 4) + 4 \<le> unat (RT_ALIGN_DOWN sz 4)" and a: "addr \<noteq> 0"
  obtains mp where "rt_mp_init addr w start sz bsize m k = Inr (RT_EOK, mp, link_blocks start (block_size mp) (block_total_count mp) m,
      ipc_object_init w k)"
    "pool_ok mp (link_blocks start (block_size mp) (block_total_count mp) m) []" "start_address mp = start" "block_list mp = start"
    "block_size mp = RT_ALIGN bsize 4" "mp_suspend_thread mp = w" "block_free_count mp = block_total_count mp"
    "unat (block_total_count mp) = unat (RT_ALIGN_DOWN sz 4) div (unat (RT_ALIGN bsize 4) + 4)" "mp_area mp" "block_total_count mp \<noteq> 0"
proof -
  define bs where "bs = RT_ALIGN bsize 4"
  define sd where "sd = RT_ALIGN_DOWN sz 4"
  define mp where "mp = \<lparr>mp_addr = addr, mp_systemobject = True, mp_suspend_thread = w, start_address = start, mp_size = sd,
    block_size = bs, block_list = start, block_total_count = sd div stride bs, block_free_count = sd div stride bs\<rparr>"
  have ub: "unat bs = 4 * ((unat bsize + 3) div 4)" using b(2) by (simp add: bs_def RT_ALIGN_value)
  have b0: "0 < unat bsize" using b(1) by (simp add: word_less_nat_alt)
  have lim: "0 < unat bs" "unat bs + 4 < 2 ^ 32" using ub b0 b(2) by simp_all
  have st: "unat (stride bs) = unat bs + 4" using lim(2) by (simp add: unat_word_ariths)
  then have st0: "stride bs \<noteq> 0" by (metis unat_0 add_is_0 zero_neq_numeral)
  have us: "unat sd \<le> unat sz" unfolding sd_def RT_ALIGN_DOWN_4 unat_align_down by simp
  have n: "unat (sd div stride bs) = unat sd div (unat bs + 4)" by (simp add: unat_div st)
  have n0: "unat sd div (unat bs + 4) \<noteq> 0" using fits by (simp add: bs_def sd_def div_eq_0_iff)
  have nw: "sd div stride bs \<noteq> 0" using n n0 by (metis unat_0)
  have "unat sd div (unat bs + 4) * (unat bs + 4) \<le> unat sd" by (rule div_times_less_eq_dividend)
  then have "unat start + unat sd div (unat bs + 4) * (unat bs + 4) \<le> 2 ^ 32" using s(2) us by linarith
  then have area: "mp_area mp" using s us lim n unfolding mp_area_def mp_def by (auto simp: unat_gt_0)
  note l = link_blocks_ok [OF area, simplified mp_def mempool.simps, OF nw, where m = m]
  have sz0: "sz > 0" using us fits by (auto simp: sd_def word_less_nat_alt)
  have run: "rt_mp_init addr w start sz bsize m k = Inr (RT_EOK, mp, link_blocks start bs (sd div stride bs) m, ipc_object_init w k)"
    using a s(1) b(1) sz0 st0 by (simp add: rt_mp_init_def mp_def bs_def sd_def Let_def)
  have bl: "length (mp_blocks mp) = unat (sd div stride bs)" by (simp add: mp_blocks_def mp_def)
  have chain: "mp_chain (link_blocks start bs (sd div stride bs) m) start (mp_blocks mp)" using l(1) by (simp add: mp_def)
  have fb: "free_blocks mp (link_blocks start bs (sd div stride bs) m) = mp_blocks mp"
    using mp_chain_walk [OF chain] unfolding bl by (simp add: mp_def)
  have "pool_ok mp (link_blocks start bs (sd div stride bs) m) []"
    using area chain mp_blocks_distinct [OF area] unfolding pool_ok_def fb by (simp add: mp_def)
  then show thesis
    using that [of mp] run area nw n by (simp add: mp_def bs_def sd_def)
qed

definition mp_touches :: "mp_input \<Rightarrow> mp_system \<Rightarrow> u32 \<Rightarrow> bool" where
  "mp_touches i s b \<longleftrightarrow> (case i of Mp_free j \<Rightarrow> j < length (held s) \<and> held s ! j = b
     | Mp_store j x v \<Rightarrow> j < length (held s) \<and> held s ! j = b | _ \<Rightarrow> False)"

lemma mp_alloc_memory:
  assumes p: "pool_ok mp m hs" and r: "rt_mp_alloc mp time m k = Inr (r, mp', m', k')"
    and b: "b \<in> set hs" "a \<in> user_words mp b"
  shows "m' a = m a"
proof (cases "block_free_count mp = 0")
  case True
  then show ?thesis using r by (auto simp: rt_mp_alloc_def bind_err_Inr_iff split: if_splits option.splits)
next
  case False
  have "a \<noteq> block_list mp"
    by (rule user_words_apart(1) [OF _ _ take_block_ok(4) [OF p False] b(2)]) (use p b(1) in \<open>auto simp: pool_ok_def\<close>)
  then show ?thesis using r False by (auto simp: rt_mp_alloc_def Let_def split: if_splits)
qed

lemma mp_go_on_keeps:
  assumes s: "mp_inv g n s k pend" and r: "mp_go_on c p s k = Inr (x, s', k')" and b: "b \<in> set (held s)" "a \<in> user_words (the_pool s) b"
  shows "b \<in> set (held s') \<and> the_memory s' a = the_memory s a"
  using r b mp_alloc_memory [OF mp_inv_parts(1) [OF s] _ b]
  by (auto simp: mp_go_on_def rt_mp_alloc_wake_def alloc_ends_def bind_err_Inr_iff split: if_splits)

lemma mp_new_call_keeps:
  assumes s: "mp_inv g n s k pend" and r: "mp_new_call i s k = Inr (x, s', k')" and t: "\<not> mp_touches i s b"
    and b: "b \<in> set (held s)" "a \<in> user_words (the_pool s) b"
  shows "b \<in> set (held s') \<and> the_memory s' a = the_memory s a"
proof -
  note p = mp_inv_parts(1) [OF s]
  have ar: "mp_area (the_pool s)" and in_pool: "c \<in> set (mp_blocks (the_pool s))" if "c \<in> set (held s)" for c
    using p that by (auto simp: pool_ok_def)
  show ?thesis
  proof (cases i)
    case (Mp_alloc time)
    then show ?thesis using r b mp_alloc_memory [OF p _ b]
      by (auto simp: mp_new_call_def alloc_ends_def bind_err_Inr_iff)
  next
    case (Mp_free j)
    show ?thesis
    proof (cases "j < length (held s)")
      case True
      then have c: "held s ! j \<in> set (held s)" by simp
      obtain k'' where "rt_mp_free (the_pool s) (held s ! j + 4) (the_memory s) k =
          Inr (give_block (the_pool s) (held s ! j), (the_memory s)(held s ! j := block_list (the_pool s)), k'')"
        using mp_free_call [OF s c] by metis
      moreover have "a \<noteq> held s ! j" by (rule user_words_apart(1) [OF ar [OF b(1)] in_pool [OF b(1)] in_pool [OF c] b(2)])
      ultimately show ?thesis using r Mp_free True t b(1) by (auto simp: mp_new_call_def free_ends_def mp_touches_def)
    qed (use r Mp_free b in \<open>auto simp: mp_new_call_def\<close>)
  next
    case Mp_free_null
    then show ?thesis using r b by (auto simp: mp_new_call_def rt_mp_free_def free_ends_def)
  next
    case (Mp_store j w v)
    show ?thesis
    proof (cases "j < length (held s) \<and> w < unat (block_size (the_pool s))")
      case True
      then have c: "held s ! j \<in> set (held s)" and u: "held s ! j + 4 + of_nat w \<in> user_words (the_pool s) (held s ! j)"
        by (auto simp: user_words_def)
      have "held s ! j \<noteq> b" using t True Mp_store by (simp add: mp_touches_def)
      then have "a \<noteq> held s ! j + 4 + of_nat w"
        using user_words_apart(2) [OF ar [OF b(1)] in_pool [OF b(1)] in_pool [OF c] b(2)] u by blast
      then show ?thesis using r Mp_store True b(1) by (auto simp: mp_new_call_def)
    qed (use r Mp_store b in \<open>auto simp: mp_new_call_def\<close>)
  qed
qed

section \<open>Properties\<close>

text \<open>Two blocks of 8 bytes at 0x1000; waiting threads are in list 7.\<close>

definition demo_pool :: mempool where
  "demo_pool = \<lparr>mp_addr = 0x500, mp_systemobject = True, mp_suspend_thread = 7, start_address = 0x1000, mp_size = 24,
     block_size = 8, block_list = 0x1000, block_total_count = 2, block_free_count = 2\<rparr>"

definition demo_mp_system :: mp_system where
  "demo_mp_system = \<lparr>the_pool = demo_pool, the_memory = (\<lambda>_. 0)(0x1000 := 0x100C), held = []\<rparr>"

lemma two_blocks: "[0..<2] = [0, 1 :: nat]"
  by (simp add: upt_conv_Cons)

lemma walk_two: "mp_walk m 2 p = [p, m p]"
  by (simp add: numeral_2_eq_2)

lemma demo_mp_inv: "mp_inv (mp_shape demo_pool) 0 demo_mp_system demo (\<lambda>_. None)"
proof -
  have "links demo (Wait w) = []" for w by (simp add: demo_def)
  then have "side_inv w (\<lambda>_. False) n demo" for w n by (simp add: side_inv_def)
  moreover have "pool_ok demo_pool ((\<lambda>_. 0)(0x1000 := 0x100C)) []"
    by (auto simp: pool_ok_def demo_pool_def mp_area_def mp_blocks_def two_blocks walk_two)
  ultimately show ?thesis
    using demo_calls_inv demo_kernel_inv(2)
    by (simp add: mp_inv_def waiters_state_def demo_mp_system_def demo_pool_def)
qed

text \<open>
  C9. Every run of allocations, waiting or not, releases, writes of the callers into their blocks and ticks, by any
  threads in any order, on a pool in a consistent state: nothing faults and every call ends; the free
  list is what an abstract stack holds after the same history; the blocks in use are distinct blocks of
  the pool, none of them is free, and none is lost.
\<close>

theorem mempool_runs:
  assumes "mp_inv (mp_shape (the_pool s)) 0 s k (\<lambda>_. None)" and "legal_calls legal_mp_input is" and "ticks_in is < 2 ^ 31"
  shows "\<exists>r. run_steps (queue_step mp_new_call mp_go_on own) (queue_start s k) is = Some (Inr r) \<and>
     replay (mp_free_list s) (history r) = Some (mp_free_list (the_queue r)) \<and>
     distinct (mp_free_list (the_queue r) @ held (the_queue r)) \<and>
     set (mp_free_list (the_queue r) @ held (the_queue r)) = set (mp_blocks (the_pool s))"
proof -
  obtain r where r: "run_steps (queue_step mp_new_call mp_go_on own) (queue_start s k) is = Some (Inr r)"
    "mp_inv (mp_shape (the_pool s)) (ticks_in is) (the_queue r) (queue_kernel r) (pending r)"
    "replay (mp_free_list s) (history r) = Some (mp_free_list (the_queue r))" using mp_runs.run [OF assms] by metis
  note p = mp_inv_parts [OF r(2)]
  have "mp_blocks (the_pool (the_queue r)) = mp_blocks (the_pool s)" using mp_shape_blocks [OF p(3)] by simp
  then show ?thesis using r(1,3) p(1) by (simp add: pool_ok_def mp_free_list_def)
qed

lemma demo_mp_calls:
  "legal_calls legal_mp_input [Call (Mp_alloc 0), Call (Mp_store 0 4 7), Call (Mp_alloc (- 1)), Call (Mp_alloc 5), Tick, Call (Mp_free 0)]"
  "ticks_in [Call (Mp_alloc 0), Call (Mp_store 0 4 7), Call (Mp_alloc (- 1)), Call (Mp_alloc 5), Tick, Call (Mp_free 0)] < 2 ^ 31"
  by (simp_all add: legal_calls_def ticks_in_def legal_mp_input_def legal_time_def)

lemma demo_shape: "the_pool demo_mp_system = demo_pool"
  by (simp add: demo_mp_system_def)

theorem mempool_runs_witness:
  "\<exists>r. run_steps (queue_step mp_new_call mp_go_on (\<lambda>_. Inr)) (queue_start demo_mp_system demo)
       [Call (Mp_alloc 0), Call (Mp_store 0 4 7), Call (Mp_alloc (- 1)), Call (Mp_alloc 5), Tick, Call (Mp_free 0)] = Some (Inr r) \<and>
     distinct (mp_free_list (the_queue r) @ held (the_queue r))"
  using mempool_runs [of demo_mp_system, unfolded demo_shape, OF demo_mp_inv demo_mp_calls, of "\<lambda>_. Inr"] by blast

text \<open>
  While a thread waits for a block, no more blocks are free than there are woken threads that are able to run
  and have not run yet: no thread is left waiting beside a block it could have.
\<close>

theorem mempool_no_lost_wakeup:
  assumes "mp_inv (mp_shape (the_pool s)) 0 s k (\<lambda>_. None)" and "legal_calls legal_mp_input is" and "ticks_in is < 2 ^ 31"
    and "run_steps (queue_step mp_new_call mp_go_on own) (queue_start s k) is = Some (Inr r)"
  shows "links (queue_kernel r) (Wait (mp_suspend_thread (the_pool (the_queue r)))) = [] \<or>
     unat (block_free_count (the_pool (the_queue r))) \<le>
       card {t. pending r t \<noteq> None \<and> active (stat (tcbs (queue_kernel r) t)) \<and> error (tcbs (queue_kernel r) t) = RT_EOK}"
proof -
  have "mp_inv (mp_shape (the_pool s)) (ticks_in is) (the_queue r) (queue_kernel r) (pending r)"
    using mp_runs.run [OF assms(1-3), of own] assms(4) by auto
  from side_inv_woken [OF waiters_state_sel(3) [OF mp_inv_parts(2) [OF this]]] show ?thesis by blast
qed

theorem mempool_no_lost_wakeup_witness:
  "\<exists>r. run_steps (queue_step mp_new_call mp_go_on (\<lambda>_. Inr)) (queue_start demo_mp_system demo)
       [Call (Mp_alloc 0), Call (Mp_store 0 4 7), Call (Mp_alloc (- 1)), Call (Mp_alloc 5), Tick, Call (Mp_free 0)] = Some (Inr r) \<and>
     (links (queue_kernel r) (Wait (mp_suspend_thread (the_pool (the_queue r)))) = [] \<or>
     unat (block_free_count (the_pool (the_queue r))) \<le>
       card {t. pending r t \<noteq> None \<and> active (stat (tcbs (queue_kernel r) t)) \<and> error (tcbs (queue_kernel r) t) = RT_EOK})"
proof -
  obtain r where "run_steps (queue_step mp_new_call mp_go_on (\<lambda>_. Inr)) (queue_start demo_mp_system demo)
       [Call (Mp_alloc 0), Call (Mp_store 0 4 7), Call (Mp_alloc (- 1)), Call (Mp_alloc 5), Tick, Call (Mp_free 0)] = Some (Inr r)"
    using mp_runs.run [OF demo_mp_inv demo_mp_calls, of "\<lambda>_. Inr"] by metis
  with mempool_no_lost_wakeup [of demo_mp_system, unfolded demo_shape, OF demo_mp_inv demo_mp_calls this] show ?thesis by blast
qed

text \<open>
  C10. What a caller has written into a block that it holds stays there, and the block stays its own, through
  every call of the others: allocations, releases of other blocks, writes into other blocks.
\<close>

theorem mempool_isolation:
  assumes "mp_inv g n s k pend" and "mp_new_call i s k = Inr (x, s', k') \<and> \<not> mp_touches i s b \<or> mp_go_on c p s k = Inr (x, s', k')"
    and "b \<in> set (held s)"
  shows "b \<in> set (held s') \<and> (\<forall>a \<in> user_words (the_pool s) b. the_memory s' a = the_memory s a)"
proof -
  have "0 < unat (block_size (the_pool s))"
    using mp_inv_parts(1) [OF assms(1)] by (simp add: pool_ok_def mp_area_def unat_gt_0)
  then have "b + 4 + of_nat 0 \<in> user_words (the_pool s) b" unfolding user_words_def by blast
  then show ?thesis
    using assms(2) mp_new_call_keeps [OF assms(1) _ _ assms(3)] mp_go_on_keeps [OF assms(1) _ assms(3)] by blast
qed

definition demo_mp_used :: mp_system where
  "demo_mp_used = \<lparr>the_pool = take_block demo_pool (the_memory demo_mp_system), the_memory = (\<lambda>_. 0)(0x1000 := 0x500), held = [0x1000]\<rparr>"

theorem mempool_isolation_witness:
  "\<exists>x s' k'. mp_new_call (Mp_alloc 0) demo_mp_used demo = Inr (x, s', k') \<and> 0x1000 \<in> set (held s') \<and>
     (\<forall>a \<in> user_words (the_pool demo_mp_used) 0x1000. the_memory s' a = the_memory demo_mp_used a)"
proof -
  have "links demo (Wait w) = []" for w by (simp add: demo_def)
  then have "side_inv w (\<lambda>_. False) n demo" for w n by (simp add: side_inv_def)
  moreover have "pool_ok (take_block demo_pool (the_memory demo_mp_system)) ((\<lambda>_. 0)(0x1000 := 0x500)) [0x1000]"
    by (auto simp: pool_ok_def demo_pool_def demo_mp_system_def take_block_def mp_area_def mp_blocks_def two_blocks)
  ultimately have i: "mp_inv (mp_shape demo_pool) 0 demo_mp_used demo (\<lambda>_. None)"
    using demo_calls_inv demo_kernel_inv(2)
    by (simp add: mp_inv_def waiters_state_def demo_mp_used_def)
  have "\<exists>x s' k'. mp_new_call (Mp_alloc 0) demo_mp_used demo = Inr (x, s', k')"
    by (simp add: mp_new_call_def rt_mp_alloc_def demo_mp_used_def demo_mp_system_def take_block_def demo_pool_def alloc_ends_def Let_def)
  then obtain x s' k' where r: "mp_new_call (Mp_alloc 0) demo_mp_used demo = Inr (x, s', k')" by blast
  have "\<not> mp_touches (Mp_alloc 0) demo_mp_used 0x1000" "0x1000 \<in> set (held demo_mp_used)"
    by (simp_all add: mp_touches_def demo_mp_used_def)
  with mempool_isolation [OF i, of "Mp_alloc 0" x s' k' "0x1000"] r show ?thesis by blast
qed

text \<open>
  Initialisation: when the area holds at least one block and lies within the address space, the pool starts with
  as many blocks as fit, all of them free and linked in the order of their addresses; the blocks do not overlap,
  lie inside the area, and no word outside them is written.
\<close>

theorem mempool_init:
  assumes "addr \<noteq> 0" "start \<noteq> 0" "unat start + unat sz \<le> 2 ^ 32" "0 < bsize" "unat bsize < 2 ^ 32 - 8"
    and "unat (RT_ALIGN bsize 4) + 4 \<le> unat (RT_ALIGN_DOWN sz 4)"
  shows "\<exists>mp m'. rt_mp_init addr w start sz bsize m k = Inr (RT_EOK, mp, m', ipc_object_init w k) \<and> pool_ok mp m' [] \<and>
     free_blocks mp m' = mp_blocks mp \<and>
     mp_blocks mp = map (\<lambda>i. start + of_nat i * (RT_ALIGN bsize 4 + 4))
       [0..<unat (RT_ALIGN_DOWN sz 4) div (unat (RT_ALIGN bsize 4) + 4)] \<and>
     (\<forall>b \<in> set (mp_blocks mp). unat start \<le> unat b \<and> unat b + 4 + unat (RT_ALIGN bsize 4) \<le> unat start + unat sz) \<and>
     (\<forall>x. (\<forall>b \<in> set (mp_blocks mp). x \<noteq> b) \<longrightarrow> m' x = m x)"
proof (rule init_pool_ok [OF assms(4,5,2,3,6,1), where w = w and m = m and k = k])
  fix mp :: mempool
  let ?m = "link_blocks start (block_size mp) (block_total_count mp) m"
  let ?b = "unat (RT_ALIGN bsize 4) + 4" and ?n = "unat (RT_ALIGN_DOWN sz 4) div (unat (RT_ALIGN bsize 4) + 4)"
  assume run: "rt_mp_init addr w start sz bsize m k = Inr (RT_EOK, mp, ?m, ipc_object_init w k)"
    and ok: "pool_ok mp ?m []" and f: "start_address mp = start" "block_list mp = start" "block_size mp = RT_ALIGN bsize 4"
    "block_free_count mp = block_total_count mp" "unat (block_total_count mp) = ?n" "mp_area mp" "block_total_count mp \<noteq> 0"
  have "?n * ?b \<le> unat (RT_ALIGN_DOWN sz 4)" by (rule div_times_less_eq_dividend)
  then have total: "?n * ?b \<le> unat sz" unfolding RT_ALIGN_DOWN_4 unat_align_down by (rule order_trans) simp
  have l: "mp_chain ?m start (mp_blocks mp)" "x \<notin> set (mp_blocks mp) \<Longrightarrow> ?m x = m x" for x
    using link_blocks_ok [OF f(6,7), where m = m] by (simp_all add: f(1))
  have bl: "mp_blocks mp = map (\<lambda>i. start + of_nat i * (RT_ALIGN bsize 4 + 4)) [0..<?n]" by (simp add: mp_blocks_def f(1,3,5))
  have "free_blocks mp ?m = mp_blocks mp" using mp_chain_walk [OF l(1)] by (simp add: bl f(2,4,5))
  moreover have "unat start \<le> unat b \<and> unat b + 4 + unat (RT_ALIGN bsize 4) \<le> unat start + unat sz"
    if b: "b \<in> set (mp_blocks mp)" for b
  proof -
    obtain i where i: "i < unat (block_total_count mp)" "b = start_address mp + of_nat i * stride (block_size mp)"
      using b by (rule mp_block_cases)
    have "Suc i * ?b \<le> ?n * ?b" using i(1) f(5) by (intro mult_le_mono1) simp
    then have "i * ?b + ?b \<le> unat sz" using total by simp
    then show ?thesis using mp_block_unat(1) [OF f(6) i(1), folded i(2)] f(1,3) by simp
  qed
  ultimately show ?thesis using run ok l(2) bl by blast
qed

theorem mempool_init_witness:
  "\<exists>mp m'. rt_mp_init 0x500 7 0x1000 24 5 (\<lambda>_. 0) demo = Inr (RT_EOK, mp, m', ipc_object_init 7 demo) \<and>
     free_blocks mp m' = mp_blocks mp"
proof -
  have e: "unat (RT_ALIGN 5 4) + 4 \<le> unat (RT_ALIGN_DOWN 24 4)" by (simp add: RT_ALIGN_def RT_ALIGN_DOWN_def)
  show ?thesis using mempool_init [of "0x500" "0x1000" 24 5, OF _ _ _ _ _ e, of 7 "\<lambda>_. 0" demo] by auto
qed

end
