(* ===== verification/I2c.thy ===== *)
theory I2c
  imports Pins Kernel "HOL-Library.Monad_Syntax"
begin

text \<open>
  The bit-banged I2C master: \<open>i2c-bit-ops.c\<close>, the transfer calls of \<open>i2c_core.c\<close> (without the mutex of the bus and the
  log messages) and the pin routines of \<open>drv_soft_i2c.c\<close>. The master works on the function pointers of
  \<open>rt_i2c_bit_ops\<close>; what they act on is the type variable. The only loop without a bound is the wait for the
  clock line; None stands for a wait that does not end.
\<close>

section \<open>The master\<close>

definition RT_EIO :: int where "RT_EIO = 8"

definition RT_I2C_RD :: u16 where "RT_I2C_RD = 1"
definition RT_I2C_ADDR_10BIT :: u16 where "RT_I2C_ADDR_10BIT = 4"
definition RT_I2C_NO_START :: u16 where "RT_I2C_NO_START = 16"
definition RT_I2C_IGNORE_NACK :: u16 where "RT_I2C_IGNORE_NACK = 32"
definition RT_I2C_NO_READ_ACK :: u16 where "RT_I2C_NO_READ_ACK = 64"
definition RT_I2C_NO_STOP :: u16 where "RT_I2C_NO_STOP = 128"

lemmas i2c_flags = RT_I2C_RD_def RT_I2C_ADDR_10BIT_def RT_I2C_NO_START_def RT_I2C_IGNORE_NACK_def
  RT_I2C_NO_READ_ACK_def RT_I2C_NO_STOP_def

text \<open>
  The routines of the bus, and the two services of the kernel that the master calls: the tick and \<open>rt_thread_delay\<close>.
  A message has as many bytes as its buffer.
\<close>

record 'w bit_ops =
  set_sda :: "bool \<Rightarrow> 'w \<Rightarrow> 'w"
  set_scl :: "bool \<Rightarrow> 'w \<Rightarrow> 'w"
  get_sda :: "'w \<Rightarrow> bool \<times> 'w"
  get_scl :: "('w \<Rightarrow> bool \<times> 'w) option"
  udelay :: "u32 \<Rightarrow> 'w \<Rightarrow> 'w"
  delay_us :: u32
  bus_timeout :: u32
  the_tick :: "'w \<Rightarrow> u32"
  thread_delay :: "u32 \<Rightarrow> 'w \<Rightarrow> 'w"

record i2c_msg =
  msg_addr :: u16
  msg_flags :: u16
  msg_buf :: "u8 list"

abbreviation has_flag :: "i2c_msg \<Rightarrow> u16 \<Rightarrow> bool" where
  "has_flag m f \<equiv> msg_flags m AND f \<noteq> 0"

definition i2c_delay :: "'w bit_ops \<Rightarrow> 'w \<Rightarrow> 'w" where
  "i2c_delay ops w = udelay ops (drop_bit 1 (delay_us ops + 1)) w"

definition i2c_delay2 :: "'w bit_ops \<Rightarrow> 'w \<Rightarrow> 'w" where
  "i2c_delay2 ops w = udelay ops (delay_us ops) w"

definition SDA_L :: "'w bit_ops \<Rightarrow> 'w \<Rightarrow> 'w" where "SDA_L ops w = set_sda ops False w"
definition SDA_H :: "'w bit_ops \<Rightarrow> 'w \<Rightarrow> 'w" where "SDA_H ops w = set_sda ops True w"
definition SCL_L :: "'w bit_ops \<Rightarrow> 'w \<Rightarrow> 'w" where "SCL_L ops w = set_scl ops False w"

text \<open>The wait for the clock line, which a slave may hold low.\<close>

partial_function (option) wait_scl :: "'w bit_ops \<Rightarrow> ('w \<Rightarrow> bool \<times> 'w) \<Rightarrow> u32 \<Rightarrow> 'w \<Rightarrow> (int \<times> 'w) option" where
  "wait_scl ops get start w =
     (case get w of (high, w) \<Rightarrow>
        if high then Some (RT_EOK, w)
        else if the_tick ops w - start > bus_timeout ops then Some (- RT_ETIMEOUT, w)
        else wait_scl ops get start (thread_delay ops (drop_bit 1 (bus_timeout ops + 1)) w))"

definition SCL_H :: "'w bit_ops \<Rightarrow> 'w \<Rightarrow> (int \<times> 'w) option" where
  "SCL_H ops w =
     (let w = set_scl ops True w
      in case get_scl ops of None \<Rightarrow> Some (RT_EOK, i2c_delay ops w)
         | Some get \<Rightarrow> do {
             (r, w) \<leftarrow> wait_scl ops get (the_tick ops w) w;
             if r < 0 then Some (r, w) else Some (RT_EOK, i2c_delay ops w) })"

definition i2c_start :: "'w bit_ops \<Rightarrow> 'w \<Rightarrow> 'w" where
  "i2c_start ops w = SCL_L ops (i2c_delay ops (SDA_L ops w))"

definition i2c_restart :: "'w bit_ops \<Rightarrow> 'w \<Rightarrow> 'w option" where
  "i2c_restart ops w = do {
     (_, w) \<leftarrow> SCL_H ops (SDA_H ops w);
     Some (SCL_L ops (i2c_delay ops (SDA_L ops (i2c_delay ops w)))) }"

definition i2c_stop :: "'w bit_ops \<Rightarrow> 'w \<Rightarrow> 'w option" where
  "i2c_stop ops w = do {
     (_, w) \<leftarrow> SCL_H ops (i2c_delay ops (SDA_L ops w));
     Some (i2c_delay2 ops (SDA_H ops (i2c_delay ops w))) }"

text \<open>1 for an acknowledgement, 0 for none, or a negative error.\<close>

definition i2c_waitack :: "'w bit_ops \<Rightarrow> 'w \<Rightarrow> (int \<times> 'w) option" where
  "i2c_waitack ops w = do {
     (r, w) \<leftarrow> SCL_H ops (i2c_delay ops (SDA_H ops w));
     if r < 0 then Some (- RT_ETIMEOUT, w)
     else let (sda, w) = get_sda ops w in Some (if sda then 0 else 1, SCL_L ops w) }"

text \<open>The bits of a byte, by their numbers.\<close>

fun write_bits :: "'w bit_ops \<Rightarrow> u8 \<Rightarrow> nat list \<Rightarrow> 'w \<Rightarrow> (int \<times> 'w) option" where
  "write_bits ops dat [] w = Some (RT_EOK, w)"
| "write_bits ops dat (i # is) w = do {
     (r, w) \<leftarrow> SCL_H ops (i2c_delay ops (set_sda ops (bit dat i) (SCL_L ops w)));
     if r < 0 then Some (- RT_ETIMEOUT, w) else write_bits ops dat is w }"

definition i2c_writeb :: "'w bit_ops \<Rightarrow> u8 \<Rightarrow> 'w \<Rightarrow> (int \<times> 'w) option" where
  "i2c_writeb ops dat w = do {
     (r, w) \<leftarrow> write_bits ops dat (rev [0..<8]) w;
     if r < 0 then Some (r, w) else i2c_waitack ops (i2c_delay ops (SCL_L ops w)) }"

fun read_bits :: "'w bit_ops \<Rightarrow> nat \<Rightarrow> u8 \<Rightarrow> 'w \<Rightarrow> (int \<times> 'w) option" where
  "read_bits ops 0 dat w = Some (uint dat, w)"
| "read_bits ops (Suc n) dat w = do {
     (r, w) \<leftarrow> SCL_H ops w;
     if r < 0 then Some (- RT_ETIMEOUT, w)
     else let (sda, w) = get_sda ops w; dat = push_bit 1 dat; dat = (if sda then dat OR 1 else dat)
          in read_bits ops n dat (i2c_delay2 ops (SCL_L ops w)) }"

definition i2c_readb :: "'w bit_ops \<Rightarrow> 'w \<Rightarrow> (int \<times> 'w) option" where
  "i2c_readb ops w = read_bits ops 8 0 (i2c_delay ops (SDA_H ops w))"

text \<open>The number of bytes sent, or an error; \<open>n\<close> have been sent before.\<close>

fun i2c_send_bytes :: "'w bit_ops \<Rightarrow> bool \<Rightarrow> nat \<Rightarrow> u8 list \<Rightarrow> 'w \<Rightarrow> (int \<times> 'w) option" where
  "i2c_send_bytes ops ignore_nack n [] w = Some (int n, w)"
| "i2c_send_bytes ops ignore_nack n (d # ds) w = do {
     (ret, w) \<leftarrow> i2c_writeb ops d w;
     if ret > 0 \<or> ignore_nack \<and> ret = 0 then i2c_send_bytes ops ignore_nack (Suc n) ds w
     else if ret = 0 then Some (0, w) else Some (ret, w) }"

definition i2c_send_ack_or_nack :: "'w bit_ops \<Rightarrow> bool \<Rightarrow> 'w \<Rightarrow> (int \<times> 'w) option" where
  "i2c_send_ack_or_nack ops ack w = do {
     (r, w) \<leftarrow> SCL_H ops (i2c_delay ops (if ack then set_sda ops False w else w));
     if r < 0 then Some (- RT_ETIMEOUT, w) else Some (RT_EOK, SCL_L ops w) }"

text \<open>\<open>n\<close> bytes remain; the bytes received so far are the second argument and the second result.\<close>

fun i2c_recv_bytes :: "'w bit_ops \<Rightarrow> u16 \<Rightarrow> u8 list \<Rightarrow> nat \<Rightarrow> 'w \<Rightarrow> (int \<times> u8 list \<times> 'w) option" where
  "i2c_recv_bytes ops flags got 0 w = Some (int (length got), got, w)"
| "i2c_recv_bytes ops flags got (Suc n) w = do {
     (val, w) \<leftarrow> i2c_readb ops w;
     if val < 0 then Some (int (length got), got, w)
     else
       let got = got @ [of_int val]
       in if flags AND RT_I2C_NO_READ_ACK = 0 then do {
            (r, w) \<leftarrow> i2c_send_ack_or_nack ops (n > 0) w;
            if r < 0 then Some (r, got, w) else i2c_recv_bytes ops flags got n w }
          else i2c_recv_bytes ops flags got n w }"

fun send_address :: "'w bit_ops \<Rightarrow> u8 \<Rightarrow> nat \<Rightarrow> 'w \<Rightarrow> (int \<times> 'w) option" where
  "send_address ops addr n w = do {
     (ret, w) \<leftarrow> i2c_writeb ops addr w;
     if ret = 1 then Some (ret, w)
     else case n of 0 \<Rightarrow> Some (ret, w)
       | Suc n \<Rightarrow> do { w \<leftarrow> i2c_stop ops w; send_address ops addr n (i2c_start ops (i2c_delay2 ops w)) } }"

declare send_address.simps [simp del]

definition i2c_send_address :: "'w bit_ops \<Rightarrow> u8 \<Rightarrow> int \<Rightarrow> 'w \<Rightarrow> (int \<times> 'w) option" where
  "i2c_send_address ops addr retries w = (if retries < 0 then Some (0, w) else send_address ops addr (nat retries) w)"

text \<open>\<open>retries\<close> is the field of the bus, \<open>rt_uint32_t\<close>, read as \<open>rt_int32_t\<close>.\<close>

definition i2c_bit_send_address :: "'w bit_ops \<Rightarrow> u32 \<Rightarrow> i2c_msg \<Rightarrow> 'w \<Rightarrow> (int \<times> 'w) option" where
  "i2c_bit_send_address ops bus_retries m w =
     (let ignore_nack = has_flag m RT_I2C_IGNORE_NACK; retries = (if ignore_nack then 0 else sint bus_retries)
      in if has_flag m RT_I2C_ADDR_10BIT then
           let addr1 = ucast (0xf0 OR (drop_bit 7 (msg_addr m) AND 0x06)); addr2 = ucast (msg_addr m AND 0xff)
           in do {
             (ret, w) \<leftarrow> i2c_send_address ops addr1 retries w;
             if ret \<noteq> 1 \<and> \<not> ignore_nack then Some (- RT_EIO, w)
             else do {
               (ret, w) \<leftarrow> i2c_writeb ops addr2 w;
               if ret \<noteq> 1 \<and> \<not> ignore_nack then Some (- RT_EIO, w)
               else if has_flag m RT_I2C_RD then do {
                 w \<leftarrow> i2c_restart ops w;
                 (ret, w) \<leftarrow> i2c_send_address ops (addr1 OR 0x01) retries w;
                 if ret \<noteq> 1 \<and> \<not> ignore_nack then Some (- RT_EIO, w) else Some (RT_EOK, w) }
               else Some (RT_EOK, w) } }
         else
           let addr1 = ucast (push_bit 1 (msg_addr m)); addr1 = (if has_flag m RT_I2C_RD then addr1 OR 1 else addr1)
           in do {
             (ret, w) \<leftarrow> i2c_send_address ops addr1 retries w;
             if ret \<noteq> 1 \<and> \<not> ignore_nack then Some (- RT_EIO, w) else Some (RT_EOK, w) })"

text \<open>
  One message: whether the loop goes on, the result when it does not, and the message with its buffer.
\<close>

definition xfer_data :: "'w bit_ops \<Rightarrow> i2c_msg \<Rightarrow> 'w \<Rightarrow> (bool \<times> int \<times> i2c_msg \<times> 'w) option" where
  "xfer_data ops m w =
     (let len = length (msg_buf m)
      in if has_flag m RT_I2C_RD then do {
           (ret, got, w) \<leftarrow> i2c_recv_bytes ops (msg_flags m) [] len w;
           let m = m\<lparr>msg_buf := got @ drop (length got) (msg_buf m)\<rparr>;
           Some (if ret < int len then (False, if ret \<ge> 0 then - RT_EIO else ret, m, w) else (True, 0, m, w)) }
         else do {
           (ret, w) \<leftarrow> i2c_send_bytes ops (has_flag m RT_I2C_IGNORE_NACK) 0 (msg_buf m) w;
           Some (if ret < int len then (False, if ret \<ge> 0 then - RT_ERROR else ret, m, w) else (True, 0, m, w)) })"

definition xfer_msg :: "'w bit_ops \<Rightarrow> u32 \<Rightarrow> bool \<Rightarrow> i2c_msg \<Rightarrow> 'w \<Rightarrow> (bool \<times> int \<times> i2c_msg \<times> 'w) option" where
  "xfer_msg ops bus_retries first m w =
     (if has_flag m RT_I2C_NO_START then xfer_data ops m w
      else do {
        w \<leftarrow> (if first then Some (i2c_start ops w) else i2c_restart ops w);
        (ret, w) \<leftarrow> i2c_bit_send_address ops bus_retries m w;
        if ret \<noteq> RT_EOK \<and> \<not> has_flag m RT_I2C_IGNORE_NACK then Some (False, ret, m, w) else xfer_data ops m w })"

text \<open>The end of a transfer, with the message that was the last.\<close>

definition xfer_out :: "'w bit_ops \<Rightarrow> i2c_msg \<Rightarrow> int \<Rightarrow> 'w \<Rightarrow> (int \<times> 'w) option" where
  "xfer_out ops m ret w =
     (if has_flag m RT_I2C_NO_STOP then Some (ret, w) else do { w \<leftarrow> i2c_stop ops w; Some (ret, w) })"

fun xfer_msgs :: "'w bit_ops \<Rightarrow> u32 \<Rightarrow> nat \<Rightarrow> i2c_msg list \<Rightarrow> 'w \<Rightarrow> (int \<times> i2c_msg list \<times> 'w) option" where
  "xfer_msgs ops bus_retries i [] w = Some (0, [], w)"
| "xfer_msgs ops bus_retries i (m # ms) w = do {
     (go, ret, m, w) \<leftarrow> xfer_msg ops bus_retries (i = 0) m w;
     if go \<and> ms \<noteq> [] then do {
       (ret, ms, w) \<leftarrow> xfer_msgs ops bus_retries (Suc i) ms w;
       Some (ret, m # ms, w) }
     else do {
       (ret, w) \<leftarrow> xfer_out ops m (if go then int (Suc i) else ret) w;
       Some (ret, m # ms, w) } }"

definition i2c_bit_xfer :: "'w bit_ops \<Rightarrow> u32 \<Rightarrow> i2c_msg list \<Rightarrow> 'w \<Rightarrow> (int \<times> i2c_msg list \<times> 'w) option" where
  "i2c_bit_xfer ops bus_retries msgs w = xfer_msgs ops bus_retries 0 msgs w"

text \<open>
  One message through \<open>rt_i2c_transfer\<close>: the number of bytes asked for, or an error. The length of a message has 16
  bits, the count 32.
\<close>

definition rt_i2c_master_send :: "'w bit_ops \<Rightarrow> u32 \<Rightarrow> u16 \<Rightarrow> u16 \<Rightarrow> u8 list \<Rightarrow> 'w \<Rightarrow> (int \<times> 'w) option" where
  "rt_i2c_master_send ops bus_retries addr flags buf w =
     (let count = length buf
      in do {
        (ret, _, w) \<leftarrow> i2c_bit_xfer ops bus_retries
          [\<lparr>msg_addr = addr, msg_flags = flags, msg_buf = take (count mod 2 ^ 16) buf\<rparr>] w;
        Some (if ret > 0 then int count else ret, w) })"

definition rt_i2c_master_recv :: "'w bit_ops \<Rightarrow> u32 \<Rightarrow> u16 \<Rightarrow> u16 \<Rightarrow> u8 list \<Rightarrow> 'w \<Rightarrow> (int \<times> u8 list \<times> 'w) option" where
  "rt_i2c_master_recv ops bus_retries addr flags buf w =
     (let count = length buf
      in do {
        (ret, msgs, w) \<leftarrow> i2c_bit_xfer ops bus_retries
          [\<lparr>msg_addr = addr, msg_flags = flags OR RT_I2C_RD, msg_buf = take (count mod 2 ^ 16) buf\<rparr>] w;
        Some (if ret > 0 then int count else ret, msg_buf (hd msgs) @ drop (count mod 2 ^ 16) buf, w) })"

section \<open>The pins of the board\<close>

definition I2C1_SCL :: nat where "I2C1_SCL = GET_PIN PC 10"
definition I2C1_SDA :: nat where "I2C1_SDA = GET_PIN PC 11"

definition stm32_i2c_gpio_init :: "history \<Rightarrow> history" where
  "stm32_i2c_gpio_init h =
     (let h = rt_pin_mode I2C1_SCL MODE_OUTPUT_OD h;
          h = rt_pin_mode I2C1_SDA MODE_OUTPUT_OD h;
          h = rt_pin_write I2C1_SCL True h
      in rt_pin_write I2C1_SDA True h)"

definition stm32_set_sda :: "bool \<Rightarrow> history \<Rightarrow> history" where
  "stm32_set_sda state h = rt_pin_write I2C1_SDA state h"

definition stm32_set_scl :: "bool \<Rightarrow> history \<Rightarrow> history" where
  "stm32_set_scl state h = rt_pin_write I2C1_SCL state h"

definition stm32_get_sda :: "board \<Rightarrow> history \<Rightarrow> bool \<times> history" where
  "stm32_get_sda brd h = rt_pin_read brd I2C1_SDA h"

definition stm32_get_scl :: "board \<Rightarrow> history \<Rightarrow> bool \<times> history" where
  "stm32_get_scl brd h = rt_pin_read brd I2C1_SCL h"

text \<open>\<open>clock\<close> is the tick of the kernel; a delay of the thread is one of as many milliseconds.\<close>

definition stm32_bit_ops :: "board \<Rightarrow> (history \<Rightarrow> u32) \<Rightarrow> history bit_ops" where
  "stm32_bit_ops brd clock =
     \<lparr>set_sda = stm32_set_sda, set_scl = stm32_set_scl, get_sda = stm32_get_sda brd, get_scl = Some (stm32_get_scl brd),
      udelay = \<lambda>us. rt_hw_us_delay (unat us), delay_us = 1, bus_timeout = 100,
      the_tick = clock, thread_delay = \<lambda>n. rt_thread_mdelay (unat n)\<rparr>"

text \<open>Nine clock pulses when a slave holds the data line after a reset.\<close>

definition unlock_pulse :: "history \<Rightarrow> history" where
  "unlock_pulse h =
     (let h = rt_pin_write I2C1_SCL True h;
          h = rt_hw_us_delay 100 h;
          h = rt_pin_write I2C1_SCL False h
      in rt_hw_us_delay 100 h)"

definition stm32_i2c_bus_unlock :: "board \<Rightarrow> history \<Rightarrow> int \<times> history" where
  "stm32_i2c_bus_unlock brd h =
     (let (v, h) = rt_pin_read brd I2C1_SDA h;
          h = (if \<not> v then (unlock_pulse ^^ 9) h else h);
          (v, h) = rt_pin_read brd I2C1_SDA h
      in (if \<not> v then - RT_ERROR else RT_EOK, h))"

section \<open>A slave\<close>

text \<open>
  The documented behaviour of a slave with a 7-bit address, as the bus sees it: the lines as the master drives
  them, whether the slave pulls the data line, and its state. A data line that falls or rises while the clock is
  high is a start or a stop condition; a slave samples the line when the clock rises and drives it after the clock
  has fallen.
\<close>

datatype slave_phase =
    Idle
  | Listening bool nat u8
  | Acking bool u8
  | Talking nat u8
  | Await_ack
  | Acked bool

record i2c_line =
  scl :: bool
  sda :: bool
  pulls :: bool
  phase :: slave_phase
  taken :: "u8 list"
  gives :: "u8 list"

text \<open>The next byte of a slave that talks; when it has none left it leaves the line alone.\<close>

definition next_byte :: "i2c_line \<Rightarrow> i2c_line" where
  "next_byte l =
     (case gives l of [] \<Rightarrow> l\<lparr>phase := Talking 7 0xff, pulls := False\<rparr>
      | b # bs \<Rightarrow> l\<lparr>phase := Talking 7 b, pulls := \<not> bit b 7, gives := bs\<rparr>)"

definition clock_rises :: "i2c_line \<Rightarrow> i2c_line" where
  "clock_rises l =
     (let line = sda l \<and> \<not> pulls l
      in case phase l of
           Listening adr n b \<Rightarrow> l\<lparr>phase := Listening adr (Suc n) (push_bit 1 b OR (if line then 1 else 0))\<rparr>
         | Await_ack \<Rightarrow> l\<lparr>phase := Acked (\<not> line)\<rparr>
         | _ \<Rightarrow> l)"

definition clock_falls :: "u8 \<Rightarrow> i2c_line \<Rightarrow> i2c_line" where
  "clock_falls own l =
     (case phase l of
        Listening adr n b \<Rightarrow>
          if n < 8 then l
          else if adr \<and> drop_bit 1 b \<noteq> own then l\<lparr>phase := Idle, pulls := False\<rparr>
          else l\<lparr>phase := Acking adr b, pulls := True, taken := (if adr then taken l else taken l @ [b])\<rparr>
      | Acking adr b \<Rightarrow> if adr \<and> bit b 0 then next_byte l else l\<lparr>phase := Listening False 0 0, pulls := False\<rparr>
      | Talking (Suc n) b \<Rightarrow> l\<lparr>phase := Talking n b, pulls := \<not> bit b n\<rparr>
      | Talking 0 b \<Rightarrow> l\<lparr>phase := Await_ack, pulls := False\<rparr>
      | Acked True \<Rightarrow> next_byte l
      | Acked False \<Rightarrow> l\<lparr>phase := Idle, pulls := False\<rparr>
      | _ \<Rightarrow> l)"

definition drive_scl :: "u8 \<Rightarrow> bool \<Rightarrow> i2c_line \<Rightarrow> i2c_line" where
  "drive_scl own v l =
     (if v = scl l then l
      else if v then (clock_rises l)\<lparr>scl := True\<rparr> else (clock_falls own l)\<lparr>scl := False\<rparr>)"

definition drive_sda :: "bool \<Rightarrow> i2c_line \<Rightarrow> i2c_line" where
  "drive_sda v l =
     (if v = sda l then l
      else if \<not> scl l then l\<lparr>sda := v\<rparr>
      else if pulls l then l\<lparr>sda := v\<rparr>
      else if v then l\<lparr>sda := v, phase := Idle\<rparr> else l\<lparr>sda := v, phase := Listening True 0 0\<rparr>)"

text \<open>The bits of a byte, most significant first, put together again.\<close>

definition put_bits :: "u8 \<Rightarrow> nat list \<Rightarrow> u8 \<Rightarrow> u8" where
  "put_bits b is d = fold (\<lambda>i d. push_bit 1 d OR (if bit b i then 1 else 0)) is d"

lemma put_bits_simps [simp]:
  "put_bits b [] d = d" "put_bits b (i # is) d = put_bits b is (push_bit 1 d OR (if bit b i then 1 else 0))"
  by (simp_all add: put_bits_def)

lemma byte_bits: "rev [0..<8] = [7, 6, 5, 4, 3, 2, 1, 0 :: nat]"
  by (simp add: upt_conv_Cons)

lemma put_bits_all: "put_bits b (rev [0..<8]) 0 = b"
proof (rule bit_word_eqI)
  fix n assume "n < LENGTH(8)"
  then consider "n = 0" | "n = 1" | "n = 2" | "n = 3" | "n = 4" | "n = 5" | "n = 6" | "n = 7" by (simp, linarith)
  then show "bit (put_bits b (rev [0..<8]) 0) n = bit b n"
    unfolding byte_bits by cases (simp_all add: bit_simps)
qed

section \<open>The contract of the bus\<close>

text \<open>
  What the master relies on: its routines drive the two lines, a delay changes nothing, a read of the data line
  answers its level, and a clock line that the master has released goes high before the wait gives up.
\<close>

locale i2c_bus =
  fixes ops :: "'w bit_ops"
    and view :: "'w \<Rightarrow> i2c_line"
    and own :: u8
  assumes view_sda: "view (set_sda ops v w) = drive_sda v (view w)"
    and view_scl: "view (set_scl ops v w) = drive_scl own v (view w)"
    and view_delay: "view (udelay ops n w) = view w"
    and view_sample: "view (snd (get_sda ops w)) = view w"
    and sample: "fst (get_sda ops w) \<longleftrightarrow> sda (view w) \<and> \<not> pulls (view w)"
    and clock_obeyed: "get_scl ops = Some get \<Longrightarrow> scl (view w) \<Longrightarrow> \<exists>w'. wait_scl ops get t w = Some (RT_EOK, w') \<and> view w' = view w"
begin

lemma view_ops [simp]:
  "view (i2c_delay ops w) = view w" "view (i2c_delay2 ops w) = view w" "view (set_sda ops v w) = drive_sda v (view w)"
  "view (SDA_L ops w) = drive_sda False (view w)" "view (SDA_H ops w) = drive_sda True (view w)"
  "view (SCL_L ops w) = drive_scl own False (view w)"
  by (simp_all add: i2c_delay_def i2c_delay2_def SDA_L_def SDA_H_def SCL_L_def view_sda view_scl view_delay)

lemma SCL_H_ok:
  obtains w' where "SCL_H ops w = Some (RT_EOK, w')" "view w' = drive_scl own True (view w)"
proof (cases "get_scl ops")
  case None
  then show thesis using that [of "i2c_delay ops (set_scl ops True w)"] by (simp add: SCL_H_def view_scl)
next
  case (Some get)
  have "scl (view (set_scl ops True w))" by (simp add: view_scl drive_scl_def)
  then obtain w' where "wait_scl ops get (the_tick ops (set_scl ops True w)) (set_scl ops True w) = Some (RT_EOK, w')"
    "view w' = view (set_scl ops True w)" using clock_obeyed [OF Some] by blast
  then show thesis using that [of "i2c_delay ops w'"] by (simp add: SCL_H_def Some view_scl err_defs)
qed

lemma start_ok: "scl (view w) \<Longrightarrow> sda (view w) \<Longrightarrow> \<not> pulls (view w) \<Longrightarrow>
    view (i2c_start ops w) = (view w)\<lparr>scl := False, sda := False, phase := Listening True 0 0\<rparr>"
  by (simp add: i2c_start_def drive_sda_def drive_scl_def clock_falls_def)

text \<open>Between two messages: the clock low, the data line free, the slave not in the middle of a byte.\<close>

definition between :: "i2c_line \<Rightarrow> bool" where
  "between l \<longleftrightarrow> \<not> scl l \<and> sda l \<and> \<not> pulls l \<and> (phase l = Idle \<or> phase l = Listening False 0 0)"

lemma restart_ok:
  assumes "between (view w)"
  obtains w' where "i2c_restart ops w = Some w'" "view w' = (view w)\<lparr>sda := False, phase := Listening True 0 0\<rparr>"
proof -
  obtain w1 where w1: "SCL_H ops (SDA_H ops w) = Some (RT_EOK, w1)" "view w1 = drive_scl own True (drive_sda True (view w))"
    using SCL_H_ok [of "SDA_H ops w"] by auto
  show thesis
    by (rule that [of "SCL_L ops (i2c_delay ops (SDA_L ops (i2c_delay ops w1)))"])
      (use assms w1 in \<open>auto simp: i2c_restart_def between_def drive_sda_def drive_scl_def clock_rises_def clock_falls_def\<close>)
qed

lemma stop_ok:
  assumes "between (view w)"
  obtains w' where "i2c_stop ops w = Some w'" "view w' = (view w)\<lparr>scl := True, sda := True, phase := Idle\<rparr>"
proof -
  obtain w1 where w1: "SCL_H ops (i2c_delay ops (SDA_L ops w)) = Some (RT_EOK, w1)"
    "view w1 = drive_scl own True (drive_sda False (view w))"
    using SCL_H_ok [of "i2c_delay ops (SDA_L ops w)"] by auto
  show thesis
    by (rule that [of "i2c_delay2 ops (SDA_H ops (i2c_delay ops w1))"])
      (use assms w1 in \<open>auto simp: i2c_stop_def between_def drive_sda_def drive_scl_def clock_rises_def\<close>)
qed

subsection \<open>Bytes\<close>

lemma write_bit_ok:
  assumes l: "phase (view w) = Listening adr n b" "\<not> pulls (view w)" "n < 8"
  obtains w' where "SCL_H ops (i2c_delay ops (set_sda ops v (SCL_L ops w))) = Some (RT_EOK, w')"
    "view w' = (view w)\<lparr>scl := True, sda := v, phase := Listening adr (Suc n) (push_bit 1 b OR (if v then 1 else 0))\<rparr>"
proof -
  obtain w1 where w1: "SCL_H ops (i2c_delay ops (set_sda ops v (SCL_L ops w))) = Some (RT_EOK, w1)"
    "view w1 = drive_scl own True (drive_sda v (drive_scl own False (view w)))"
    using SCL_H_ok [of "i2c_delay ops (set_sda ops v (SCL_L ops w))"] by auto
  show thesis
    by (rule that [OF w1(1)]) (use l w1(2) in \<open>auto simp: drive_sda_def drive_scl_def clock_rises_def clock_falls_def\<close>)
qed

lemma write_bits_ok:
  assumes "phase (view w) = Listening adr n b" "\<not> pulls (view w)" "n + length is \<le> 8" "is \<noteq> []"
  shows "\<exists>w'. write_bits ops dat is w = Some (RT_EOK, w') \<and>
    view w' = (view w)\<lparr>scl := True, sda := bit dat (last is), phase := Listening adr (n + length is) (put_bits dat is b)\<rparr>"
  using assms
proof (induction "is" arbitrary: w n b)
  case (Cons i js)
  obtain w1 where w1: "SCL_H ops (i2c_delay ops (set_sda ops (bit dat i) (SCL_L ops w))) = Some (RT_EOK, w1)"
    "view w1 = (view w)\<lparr>scl := True, sda := bit dat i, phase := Listening adr (Suc n) (push_bit 1 b OR (if bit dat i then 1 else 0))\<rparr>"
    using write_bit_ok [OF Cons.prems(1,2), of "bit dat i"] Cons.prems(3) by auto
  show ?case
  proof (cases "js = []")
    case True
    then show ?thesis using w1 by (auto simp: err_defs)
  next
    case False
    have "phase (view w1) = Listening adr (Suc n) (push_bit 1 b OR (if bit dat i then 1 else 0))" "\<not> pulls (view w1)"
      using w1(2) Cons.prems(2) by simp_all
    from Cons.IH [OF this _ False] Cons.prems(3) show ?thesis using w1 False by (auto simp: err_defs)
  qed
qed simp

text \<open>A byte for a slave that listens; the slave has the byte when the clock falls and answers with its line.\<close>

lemma writeb_ok:
  fixes dat :: u8
  assumes l: "phase (view w) = Listening adr 0 0" "\<not> pulls (view w)"
  defines "l8 \<equiv> clock_falls own ((view w)\<lparr>scl := False, sda := True, phase := Listening adr 8 dat\<rparr>)"
  obtains w' where "i2c_writeb ops dat w = Some (if pulls l8 then 1 else 0, w')" "view w' = clock_falls own l8"
proof -
  obtain w1 where w1: "write_bits ops dat (rev [0..<8]) w = Some (RT_EOK, w1)"
    "view w1 = (view w)\<lparr>scl := True, sda := bit dat 0, phase := Listening adr 8 dat\<rparr>"
    using write_bits_ok [OF l, of "rev [0..<8]" dat] put_bits_all [of dat] by (auto simp: byte_bits)
  define w2 where "w2 = i2c_delay ops (SDA_H ops (i2c_delay ops (SCL_L ops w1)))"
  have v2: "view w2 = l8"
    using l(2) by (simp add: w2_def w1(2) l8_def drive_scl_def drive_sda_def clock_falls_def)
  obtain w3 where w3: "SCL_H ops w2 = Some (RT_EOK, w3)" "view w3 = drive_scl own True l8"
    using SCL_H_ok [of w2] v2 by metis
  have l8: "\<not> scl l8" "sda l8" "phase l8 = Idle \<or> phase l8 = Acking adr dat"
    using l by (simp_all add: l8_def clock_falls_def)
  then have v3: "view w3 = l8\<lparr>scl := True\<rparr>" using w3(2) by (auto simp: drive_scl_def clock_rises_def)
  obtain s w4 where g: "get_sda ops w3 = (s, w4)" by (cases "get_sda ops w3")
  then have s: "s \<longleftrightarrow> \<not> pulls l8" "view w4 = l8\<lparr>scl := True\<rparr>" using sample [of w3] view_sample [of w3] v3 l8(2) by simp_all
  have "l8\<lparr>scl := False\<rparr> = l8" using l8(1) by (cases l8) simp
  moreover have "(clock_falls own (l8\<lparr>scl := True\<rparr>))\<lparr>scl := False\<rparr> = clock_falls own (l8\<lparr>scl := False\<rparr>)"
    using l8(3) by (auto simp: clock_falls_def next_byte_def split: list.split)
  ultimately have v5: "view (SCL_L ops w4) = clock_falls own l8" using s(2) by (simp add: drive_scl_def)
  have "i2c_writeb ops dat w = Some (if pulls l8 then 1 else 0, SCL_L ops w4)"
    using w1(1) w3(1) g s(1) by (simp add: i2c_writeb_def i2c_waitack_def w2_def err_defs)
  then show thesis using that v5 by blast
qed

lemma writeb_data:
  assumes "phase (view w) = Listening False 0 0" "\<not> pulls (view w)"
  obtains w' where "i2c_writeb ops dat w = Some (1, w')"
    "view w' = (view w)\<lparr>scl := False, sda := True, taken := taken (view w) @ [dat]\<rparr>"
  by (rule writeb_ok [OF assms, of dat]) (use that assms in \<open>simp add: clock_falls_def\<close>)

lemma writeb_address:
  assumes "phase (view w) = Listening True 0 0" "\<not> pulls (view w)" "drop_bit 1 dat = own"
  obtains w' where "i2c_writeb ops dat w = Some (1, w')"
    "view w' = (let l = (view w)\<lparr>scl := False, sda := True\<rparr> in if bit dat 0 then next_byte l else l\<lparr>phase := Listening False 0 0\<rparr>)"
  by (rule writeb_ok [OF assms(1,2), of dat])
    (use that assms in \<open>auto simp: clock_falls_def next_byte_def split: list.splits\<close>)

lemma writeb_absent:
  assumes "phase (view w) = Listening True 0 0" "\<not> pulls (view w)" "drop_bit 1 dat \<noteq> own"
  obtains w' where "i2c_writeb ops dat w = Some (0, w')" "view w' = (view w)\<lparr>scl := False, sda := True, phase := Idle\<rparr>"
  by (rule writeb_ok [OF assms(1,2), of dat]) (use that assms in \<open>simp add: clock_falls_def\<close>)

end

context i2c_bus begin

text \<open>A slave that talks holds bit \<open>n\<close> of its byte on the line while the clock is low.\<close>

definition talks :: "nat \<Rightarrow> u8 \<Rightarrow> i2c_line \<Rightarrow> bool" where
  "talks n b l \<longleftrightarrow> phase l = Talking n b \<and> pulls l = (\<not> bit b n) \<and> \<not> scl l \<and> sda l"

lemma read_bits_ok:
  assumes "talks n b (view w)"
  shows "\<exists>w'. read_bits ops (Suc n) d w = Some (uint (put_bits b (rev [0..<Suc n]) d), w') \<and>
    view w' = (view w)\<lparr>phase := Await_ack, pulls := False\<rparr>"
  using assms
proof (induction n arbitrary: w d)
  case (0 w d)
  obtain w1 where w1: "SCL_H ops w = Some (RT_EOK, w1)" "view w1 = drive_scl own True (view w)" using SCL_H_ok by blast
  obtain s w2 where g: "get_sda ops w1 = (s, w2)" by (cases "get_sda ops w1")
  have v1: "view w1 = (view w)\<lparr>scl := True\<rparr>" using w1(2) 0 by (simp add: talks_def drive_scl_def clock_rises_def)
  then have s: "s = bit b 0" "view w2 = (view w)\<lparr>scl := True\<rparr>"
    using sample [of w1] view_sample [of w1] g 0 by (simp_all add: talks_def)
  have "view (SCL_L ops w2) = (view w)\<lparr>phase := Await_ack, pulls := False\<rparr>"
    using s(2) 0 by (simp add: talks_def drive_scl_def clock_falls_def)
  then show ?case using w1(1) g s(1) by (auto simp: err_defs)
next
  case (Suc n w d)
  obtain w1 where w1: "SCL_H ops w = Some (RT_EOK, w1)" "view w1 = drive_scl own True (view w)" using SCL_H_ok by blast
  obtain s w2 where g: "get_sda ops w1 = (s, w2)" by (cases "get_sda ops w1")
  have v1: "view w1 = (view w)\<lparr>scl := True\<rparr>" using w1(2) Suc.prems by (simp add: talks_def drive_scl_def clock_rises_def)
  then have s: "s = bit b (Suc n)" "view w2 = (view w)\<lparr>scl := True\<rparr>"
    using sample [of w1] view_sample [of w1] g Suc.prems by (simp_all add: talks_def)
  define w3 where "w3 = i2c_delay2 ops (SCL_L ops w2)"
  have v3: "view w3 = (view w)\<lparr>phase := Talking n b, pulls := \<not> bit b n\<rparr>"
    using s(2) Suc.prems by (simp add: w3_def talks_def drive_scl_def clock_falls_def)
  then have "talks n b (view w3)" using Suc.prems by (simp add: talks_def)
  from Suc.IH [OF this, of "push_bit 1 d OR (if s then 1 else 0)"] obtain w' where
    "read_bits ops (Suc n) (push_bit 1 d OR (if s then 1 else 0)) w3 =
       Some (uint (put_bits b (rev [0..<Suc n]) (push_bit 1 d OR (if s then 1 else 0))), w')"
    "view w' = (view w3)\<lparr>phase := Await_ack, pulls := False\<rparr>" by blast
  moreover have "read_bits ops (Suc (Suc n)) d w = read_bits ops (Suc n) (push_bit 1 d OR (if s then 1 else 0)) w3"
    by (subst read_bits.simps(2) [of ops "Suc n"]) (simp add: w1(1) g w3_def err_defs Let_def del: read_bits.simps)
  ultimately show ?case using v3 s(1) by simp
qed

text \<open>A slave that talks, before the master has released the data line.\<close>

definition has_byte :: "u8 \<Rightarrow> i2c_line \<Rightarrow> bool" where
  "has_byte b l \<longleftrightarrow> phase l = Talking 7 b \<and> pulls l = (\<not> bit b 7) \<and> \<not> scl l"

lemma readb_ok:
  assumes "has_byte b (view w)"
  obtains w' where "i2c_readb ops w = Some (uint b, w')" "view w' = (view w)\<lparr>sda := True, phase := Await_ack, pulls := False\<rparr>"
proof -
  define w1 where "w1 = i2c_delay ops (SDA_H ops w)"
  have v: "view w1 = (view w)\<lparr>sda := True\<rparr>" using assms by (simp add: w1_def has_byte_def drive_sda_def)
  then have "talks 7 b (view w1)" using assms by (simp add: talks_def has_byte_def)
  from read_bits_ok [OF this, of 0] obtain w' where
    "read_bits ops 8 0 w1 = Some (uint (put_bits b (rev [0..<8]) 0), w')" "view w' = (view w1)\<lparr>phase := Await_ack, pulls := False\<rparr>"
    by auto
  then show thesis using that [of w'] put_bits_all [of b] v by (simp add: i2c_readb_def w1_def)
qed

lemma send_ack_ok:
  assumes "phase (view w) = Await_ack" "\<not> pulls (view w)" "\<not> scl (view w)" "sda (view w)"
  obtains w' where "i2c_send_ack_or_nack ops ack w = Some (RT_EOK, w')"
    "view w' = (if ack then next_byte ((view w)\<lparr>sda := False\<rparr>) else (view w)\<lparr>phase := Idle\<rparr>)"
proof -
  define w1 where "w1 = i2c_delay ops (if ack then set_sda ops False w else w)"
  have v1: "view w1 = (view w)\<lparr>sda := \<not> ack\<rparr>" using assms by (simp add: w1_def drive_sda_def)
  obtain w2 where w2: "SCL_H ops w1 = Some (RT_EOK, w2)" "view w2 = drive_scl own True (view w1)" using SCL_H_ok by blast
  have "view w2 = (view w)\<lparr>sda := \<not> ack, phase := Acked ack, scl := True\<rparr>"
    using w2(2) v1 assms by (simp add: drive_scl_def clock_rises_def)
  then have "view (SCL_L ops w2) = (if ack then next_byte ((view w)\<lparr>sda := False\<rparr>) else (view w)\<lparr>phase := Idle\<rparr>)"
    using assms by (cases ack) (auto simp: drive_scl_def clock_falls_def next_byte_def split: list.split)
  moreover have "i2c_send_ack_or_nack ops ack w = Some (RT_EOK, SCL_L ops w2)"
    using w2(1) by (simp add: i2c_send_ack_or_nack_def w1_def err_defs)
  ultimately show thesis using that by blast
qed

lemma send_bytes_ok:
  assumes "phase (view w) = Listening False 0 0" "\<not> pulls (view w)" "\<not> scl (view w)" "sda (view w)"
  shows "\<exists>w'. i2c_send_bytes ops ig n ds w = Some (int (n + length ds), w') \<and>
    view w' = (view w)\<lparr>taken := taken (view w) @ ds\<rparr>"
  using assms
proof (induction ds arbitrary: n w)
  case (Cons d ds)
  obtain w1 where w1: "i2c_writeb ops d w = Some (1, w1)"
    "view w1 = (view w)\<lparr>scl := False, sda := True, taken := taken (view w) @ [d]\<rparr>" using writeb_data [OF Cons.prems(1,2)] by metis
  from Cons.IH [of w1 "Suc n"] Cons.prems w1(2) obtain w' where
    "i2c_send_bytes ops ig (Suc n) ds w1 = Some (int (Suc n + length ds), w')" "view w' = (view w1)\<lparr>taken := taken (view w1) @ ds\<rparr>"
    by auto
  moreover have "(view w)\<lparr>scl := False, sda := True\<rparr> = view w" using Cons.prems by (cases "view w") simp
  ultimately show ?case using w1 by simp
qed simp

lemma recv_bytes_ok:
  assumes "has_byte b (view w)" "n \<le> length (gives (view w))" "flags AND RT_I2C_NO_READ_ACK = 0"
  shows "\<exists>w'. i2c_recv_bytes ops flags got (Suc n) w = Some (int (length got + Suc n), got @ b # take n (gives (view w)), w') \<and>
    view w' = (view w)\<lparr>sda := True, pulls := False, phase := Idle, gives := drop n (gives (view w))\<rparr>"
  using assms
proof (induction n arbitrary: b w got)
  case (0 b w got)
  obtain w1 where w1: "i2c_readb ops w = Some (uint b, w1)" "view w1 = (view w)\<lparr>sda := True, phase := Await_ack, pulls := False\<rparr>"
    using readb_ok [OF 0(1)] by metis
  obtain w2 where w2: "i2c_send_ack_or_nack ops False w1 = Some (RT_EOK, w2)" "view w2 = (view w1)\<lparr>phase := Idle\<rparr>"
    using send_ack_ok [of w1 False] w1(2) 0(1) by (auto simp: has_byte_def)
  have "(view w)\<lparr>gives := gives (view w)\<rparr> = view w" by (cases "view w") simp
  then show ?case using w1 w2 0(3) by (simp add: err_defs)
next
  case (Suc n b w got)
  obtain c cs where cs: "gives (view w) = c # cs" using Suc.prems(2) by (cases "gives (view w)") auto
  obtain w1 where w1: "i2c_readb ops w = Some (uint b, w1)" "view w1 = (view w)\<lparr>sda := True, phase := Await_ack, pulls := False\<rparr>"
    using readb_ok [OF Suc.prems(1)] by metis
  obtain w2 where w2: "i2c_send_ack_or_nack ops True w1 = Some (RT_EOK, w2)" "view w2 = next_byte ((view w1)\<lparr>sda := False\<rparr>)"
    using send_ack_ok [of w1 True] w1(2) Suc.prems(1) by (auto simp: has_byte_def)
  have v2: "view w2 = (view w)\<lparr>sda := False, phase := Talking 7 c, pulls := \<not> bit c 7, gives := cs\<rparr>"
    using w2(2) w1(2) cs by (simp add: next_byte_def)
  have "has_byte c (view w2)" "n \<le> length (gives (view w2))" using v2 Suc.prems(1,2) cs by (simp_all add: has_byte_def)
  from Suc.IH [OF this Suc.prems(3), of "got @ [b]"] obtain w' where
    "i2c_recv_bytes ops flags (got @ [b]) (Suc n) w2 = Some (int (length got + Suc (Suc n)), (got @ [b]) @ c # take n cs, w')"
    "view w' = (view w2)\<lparr>sda := True, pulls := False, phase := Idle, gives := drop n cs\<rparr>"
    using v2 by auto
  then show ?case using w1(1) w2(1) Suc.prems(3) cs v2 by (simp add: err_defs)
qed

end

section \<open>Transfers\<close>

text \<open>
  What a transfer is for: the messages of the caller for a slave at a 7-bit address, the bytes the slave gets,
  how many bytes are read from it, and the messages with the bytes it gives in their buffers.
\<close>

definition is_read :: "i2c_msg \<Rightarrow> bool" where
  "is_read m \<longleftrightarrow> msg_flags m = RT_I2C_RD"

definition plain_msg :: "u8 \<Rightarrow> i2c_msg \<Rightarrow> bool" where
  "plain_msg own m \<longleftrightarrow> msg_addr m = ucast own \<and> (msg_flags m = 0 \<or> is_read m \<and> msg_buf m \<noteq> [])"

definition written :: "i2c_msg list \<Rightarrow> u8 list" where
  "written ms = concat (map (\<lambda>m. if is_read m then [] else msg_buf m) ms)"

definition read_size :: "i2c_msg list \<Rightarrow> nat" where
  "read_size ms = (\<Sum>m\<leftarrow>ms. if is_read m then length (msg_buf m) else 0)"

fun served :: "u8 list \<Rightarrow> i2c_msg list \<Rightarrow> i2c_msg list" where
  "served g [] = []"
| "served g (m # ms) =
     (if is_read m then m\<lparr>msg_buf := take (length (msg_buf m)) g\<rparr> # served (drop (length (msg_buf m)) g) ms
      else m # served g ms)"

definition idle_line :: "i2c_line \<Rightarrow> bool" where
  "idle_line l \<longleftrightarrow> scl l \<and> sda l \<and> \<not> pulls l \<and> phase l = Idle"

lemma address_bits:
  assumes "\<not> bit own 7"
  shows "drop_bit 1 (ucast (push_bit 1 (ucast own :: u16)) :: u8) = own"
    "drop_bit 1 ((ucast (push_bit 1 (ucast own :: u16)) :: u8) OR 1) = own"
    "\<not> bit (ucast (push_bit 1 (ucast own :: u16)) :: u8) 0" "bit ((ucast (push_bit 1 (ucast own :: u16)) :: u8) OR 1) 0"
proof -
  define x where "x = push_bit 1 (ucast own :: u16)"
  have x: "bit x n \<longleftrightarrow> 1 \<le> n \<and> n < 16 \<and> bit own (n - 1)" for n
    unfolding x_def by (auto simp only: bit_push_bit_iff bit_unsigned_iff possible_bit_word min_def)
      (use bit_imp_le_length [of own "n - 1"] in simp_all)
  have b: "n < 8 \<Longrightarrow> n < 7 \<and> bit own n \<longleftrightarrow> bit own n" for n using assms by (cases "n = 7") auto
  show "drop_bit 1 (ucast (push_bit 1 (ucast own :: u16)) :: u8) = own"
    unfolding x_def [symmetric] by (rule bit_word_eqI) (use b in \<open>auto simp: bit_simps x\<close>)
  show "drop_bit 1 ((ucast (push_bit 1 (ucast own :: u16)) :: u8) OR 1) = own"
    unfolding x_def [symmetric] by (rule bit_word_eqI) (use b in \<open>auto simp: bit_simps x bit_1_iff\<close>)
  show "\<not> bit (ucast (push_bit 1 (ucast own :: u16)) :: u8) 0" "bit ((ucast (push_bit 1 (ucast own :: u16)) :: u8) OR 1) 0"
    unfolding x_def [symmetric] by (simp_all add: bit_simps x)
qed

lemma flag_values [simp]: "RT_I2C_RD AND RT_I2C_RD = 1" "RT_I2C_RD AND RT_I2C_ADDR_10BIT = 0" "RT_I2C_RD AND RT_I2C_NO_START = 0"
  "RT_I2C_RD AND RT_I2C_IGNORE_NACK = 0" "RT_I2C_RD AND RT_I2C_NO_READ_ACK = 0" "RT_I2C_RD AND RT_I2C_NO_STOP = 0" "RT_I2C_RD \<noteq> 0"
  by (simp_all add: i2c_flags)

context i2c_bus begin

lemma send_address_ok:
  assumes w: "phase (view w) = Listening True 0 0" "\<not> pulls (view w)" and m: "plain_msg own m" "\<not> bit own 7" and r: "0 \<le> sint retries"
  obtains w' where "i2c_bit_send_address ops retries m w = Some (RT_EOK, w')"
    "view w' = (let l = (view w)\<lparr>scl := False, sda := True\<rparr> in if is_read m then next_byte l else l\<lparr>phase := Listening False 0 0\<rparr>)"
proof -
  define a :: u8 where "a = (let x = ucast (push_bit 1 (msg_addr m)) in if is_read m then x OR 1 else x)"
  have a: "drop_bit 1 a = own" "bit a 0 = is_read m"
    using address_bits [OF m(2)] m(1) by (simp_all add: a_def plain_msg_def Let_def)
  obtain w' where w': "i2c_writeb ops a w = Some (1, w')"
    "view w' = (let l = (view w)\<lparr>scl := False, sda := True\<rparr> in if bit a 0 then next_byte l else l\<lparr>phase := Listening False 0 0\<rparr>)"
    using writeb_address [OF w a(1)] by metis
  have "send_address ops a n w = Some (1, w')" for n
    by (subst send_address.simps) (simp add: w'(1))
  moreover have "is_read m \<and> msg_flags m = RT_I2C_RD \<or> \<not> is_read m \<and> msg_flags m = 0"
    using m(1) by (auto simp: plain_msg_def is_read_def)
  ultimately have "i2c_bit_send_address ops retries m w = Some (RT_EOK, w')"
    using r by (auto simp: i2c_bit_send_address_def i2c_send_address_def a_def Let_def)
  then show thesis using that w'(2) a(2) by simp
qed

lemma xfer_msg_ok:
  assumes w: "first \<Longrightarrow> idle_line (view w)" "\<not> first \<Longrightarrow> between (view w)"
    and m: "plain_msg own m" "\<not> bit own 7" and r: "0 \<le> sint retries" and n: "read_size [m] \<le> length (gives (view w))"
  obtains w' where "xfer_msg ops retries first m w = Some (True, 0, hd (served (gives (view w)) [m]), w')" "between (view w')"
    "taken (view w') = taken (view w) @ written [m]" "gives (view w') = drop (read_size [m]) (gives (view w))"
proof -
  obtain w1 where w1: "(if first then Some (i2c_start ops w) else i2c_restart ops w) = Some w1"
    "view w1 = (view w)\<lparr>scl := False, sda := False, phase := Listening True 0 0\<rparr>"
  proof (cases first)
    case True
    then show thesis using that [of "i2c_start ops w"] start_ok [of w] w(1) by (simp add: idle_line_def)
  next
    case False
    obtain w1 where "i2c_restart ops w = Some w1" "view w1 = (view w)\<lparr>sda := False, phase := Listening True 0 0\<rparr>"
      using restart_ok [OF w(2) [OF False]] by metis
    moreover have "(view w)\<lparr>scl := False\<rparr> = view w" using w(2) [OF False] by (cases "view w") (simp add: between_def)
    ultimately show thesis using that [of w1] False by simp
  qed
  have np: "\<not> pulls (view w1)" using w w1(2) by (cases first) (auto simp: idle_line_def between_def)
  obtain w2 where w2: "i2c_bit_send_address ops retries m w1 = Some (RT_EOK, w2)"
    "view w2 = (let l = (view w1)\<lparr>scl := False, sda := True\<rparr> in if is_read m then next_byte l else l\<lparr>phase := Listening False 0 0\<rparr>)"
    using send_address_ok [OF _ np m r] w1(2) by auto
  have go: "xfer_msg ops retries first m w = xfer_data ops m w2"
    using w1(1) w2(1) m(1) by (auto simp: xfer_msg_def plain_msg_def is_read_def)
  show thesis
  proof (cases "is_read m")
    case True
    then obtain k where k: "length (msg_buf m) = Suc k" using m(1) by (cases "msg_buf m") (auto simp: plain_msg_def is_read_def)
    with True n obtain b bs where g: "gives (view w) = b # bs" "k \<le> length bs"
      by (cases "gives (view w)") (auto simp: read_size_def)
    have v2: "view w2 = (view w)\<lparr>scl := False, sda := True, phase := Talking 7 b, pulls := \<not> bit b 7, gives := bs\<rparr>"
      using w2(2) w1(2) True g(1) by (simp add: next_byte_def)
    have hb: "has_byte b (view w2)" "k \<le> length (gives (view w2))" "msg_flags m AND RT_I2C_NO_READ_ACK = 0"
      using v2 g(2) True by (simp_all add: has_byte_def is_read_def)
    obtain w3 where w3: "i2c_recv_bytes ops (msg_flags m) [] (Suc k) w2 = Some (int (Suc k), b # take k bs, w3)"
      "view w3 = (view w2)\<lparr>sda := True, pulls := False, phase := Idle, gives := drop k bs\<rparr>"
      using recv_bytes_ok [OF hb, of "[]"] v2 by auto
    have "xfer_data ops m w2 = Some (True, 0, hd (served (gives (view w)) [m]), w3)"
      using w3(1) True k g by (simp add: xfer_data_def is_read_def del: i2c_recv_bytes.simps)
    then show thesis using that [of w3] go w3(2) v2 True k g(1)
      by (simp add: between_def written_def read_size_def)
  next
    case False
    have v2: "view w2 = (view w)\<lparr>scl := False, sda := True, phase := Listening False 0 0\<rparr>"
      using w2(2) w1(2) False by simp
    obtain w3 where w3: "i2c_send_bytes ops (has_flag m RT_I2C_IGNORE_NACK) 0 (msg_buf m) w2 = Some (int (length (msg_buf m)), w3)"
      "view w3 = (view w2)\<lparr>taken := taken (view w2) @ msg_buf m\<rparr>"
      using send_bytes_ok [of w2 "has_flag m RT_I2C_IGNORE_NACK" 0 "msg_buf m"] v2 np w1(2) by auto
    have "\<not> has_flag m RT_I2C_RD" using m(1) False by (auto simp: plain_msg_def)
    then have "xfer_data ops m w2 = Some (True, 0, hd (served (gives (view w)) [m]), w3)"
      using w3(1) False by (simp add: xfer_data_def)
    then show thesis using that [of w3] go w3(2) v2 False np w1(2)
      by (simp add: between_def written_def read_size_def)
  qed
qed

lemma xfer_msgs_ok:
  assumes "ms \<noteq> []" "i = 0 \<Longrightarrow> idle_line (view w)" "i \<noteq> 0 \<Longrightarrow> between (view w)" "list_all (plain_msg own) ms"
    and "read_size ms \<le> length (gives (view w))" and o: "\<not> bit own 7" "0 \<le> sint retries"
  shows "\<exists>w'. xfer_msgs ops retries i ms w = Some (int (i + length ms), served (gives (view w)) ms, w') \<and> idle_line (view w') \<and>
    taken (view w') = taken (view w) @ written ms \<and> gives (view w') = drop (read_size ms) (gives (view w))"
  using assms(1-5)
proof (induction ms arbitrary: i w)
  case (Cons m ms)
  have n: "read_size [m] \<le> length (gives (view w))" using Cons.prems(5) by (simp add: read_size_def)
  obtain w1 where w1: "xfer_msg ops retries (i = 0) m w = Some (True, 0, hd (served (gives (view w)) [m]), w1)" "between (view w1)"
    "taken (view w1) = taken (view w) @ written [m]" "gives (view w1) = drop (read_size [m]) (gives (view w))"
    using xfer_msg_ok [of "i = 0" w m retries] Cons.prems(2-4) n o by auto
  have split: "served (gives (view w)) (m # ms) = hd (served (gives (view w)) [m]) # served (gives (view w1)) ms"
    "written (m # ms) = written [m] @ written ms" "read_size (m # ms) = read_size [m] + read_size ms"
    using w1(4) by (auto simp: written_def read_size_def)
  show ?case
  proof (cases "ms = []")
    case True
    obtain w2 where w2: "i2c_stop ops w1 = Some w2" "view w2 = (view w1)\<lparr>scl := True, sda := True, phase := Idle\<rparr>"
      using stop_ok [OF w1(2)] by metis
    have "\<not> has_flag (hd (served (gives (view w)) [m])) RT_I2C_NO_STOP"
      using Cons.prems(4) by (auto simp: plain_msg_def is_read_def)
    then show ?thesis using w1 w2 True by (auto simp: xfer_out_def idle_line_def between_def)
  next
    case False
    have "read_size ms \<le> length (gives (view w1))" using Cons.prems(5) w1(4) split(3) by simp
    from Cons.IH [of "Suc i" w1, OF False _ _ _ this] Cons.prems(4) w1(2) obtain w2 where
      "xfer_msgs ops retries (Suc i) ms w1 = Some (int (Suc i + length ms), served (gives (view w1)) ms, w2)" "idle_line (view w2)"
      "taken (view w2) = taken (view w1) @ written ms" "gives (view w2) = drop (read_size ms) (gives (view w1))" by auto
    then show ?thesis using w1 False split by (simp add: add.commute)
  qed
qed simp

text \<open>No slave has the address: every attempt ends without an acknowledgement.\<close>

lemma send_address_absent:
  assumes "phase (view w) = Listening True 0 0" "\<not> pulls (view w)" "drop_bit 1 a \<noteq> own"
  shows "\<exists>w'. send_address ops a n w = Some (0, w') \<and> view w' = (view w)\<lparr>scl := False, sda := True, phase := Idle\<rparr>"
  using assms
proof (induction n arbitrary: w)
  case 0
  obtain w1 where "i2c_writeb ops a w = Some (0, w1)" "view w1 = (view w)\<lparr>scl := False, sda := True, phase := Idle\<rparr>"
    using writeb_absent [OF 0] by metis
  then show ?case by (subst send_address.simps) simp
next
  case (Suc n)
  obtain w1 where w1: "i2c_writeb ops a w = Some (0, w1)" "view w1 = (view w)\<lparr>scl := False, sda := True, phase := Idle\<rparr>"
    using writeb_absent [OF Suc.prems] by metis
  have "between (view w1)" using w1(2) Suc.prems(2) by (simp add: between_def)
  then obtain w2 where w2: "i2c_stop ops w1 = Some w2" "view w2 = (view w1)\<lparr>scl := True, sda := True, phase := Idle\<rparr>"
    using stop_ok by metis
  define w3 where "w3 = i2c_start ops (i2c_delay2 ops w2)"
  have v3: "view w3 = (view w)\<lparr>scl := False, sda := False, phase := Listening True 0 0\<rparr>"
    using start_ok [of "i2c_delay2 ops w2"] w2(2) w1(2) Suc.prems(2) by (simp add: w3_def)
  from Suc.IH [of w3] v3 Suc.prems obtain w' where
    "send_address ops a n w3 = Some (0, w')" "view w' = (view w3)\<lparr>scl := False, sda := True, phase := Idle\<rparr>" by auto
  then show ?case using w1(1) w2(1) v3 by (subst send_address.simps) (simp add: w3_def)
qed

lemma xfer_absent:
  assumes i: "idle_line (view w)" and m: "plain_msg adr m" "\<not> bit adr 7" "adr \<noteq> own" and r: "0 \<le> sint retries"
  obtains w' where "i2c_bit_xfer ops retries (m # ms) w = Some (- RT_EIO, m # ms, w')" "view w' = view w"
proof -
  define a :: u8 where "a = (let x = ucast (push_bit 1 (msg_addr m)) in if is_read m then x OR 1 else x)"
  have a: "drop_bit 1 a \<noteq> own"
    using address_bits [OF m(2)] m(1,3) by (simp add: a_def plain_msg_def Let_def)
  define w1 where "w1 = i2c_start ops w"
  have v1: "view w1 = (view w)\<lparr>scl := False, sda := False, phase := Listening True 0 0\<rparr>"
    using start_ok [of w] i by (simp add: w1_def idle_line_def)
  obtain w2 where w2: "send_address ops a (nat (sint retries)) w1 = Some (0, w2)"
    "view w2 = (view w1)\<lparr>scl := False, sda := True, phase := Idle\<rparr>"
    using send_address_absent [of w1 a "nat (sint retries)"] v1 i a by (auto simp: idle_line_def)
  have "between (view w2)" using w2(2) v1 i by (simp add: between_def idle_line_def)
  then obtain w3 where w3: "i2c_stop ops w2 = Some w3" "view w3 = (view w2)\<lparr>scl := True, sda := True, phase := Idle\<rparr>"
    using stop_ok by metis
  have f: "is_read m \<and> msg_flags m = RT_I2C_RD \<or> \<not> is_read m \<and> msg_flags m = 0"
    using m(1) by (auto simp: plain_msg_def is_read_def)
  then have "i2c_bit_send_address ops retries m w1 = Some (- RT_EIO, w2)"
    using r w2(1) by (auto simp: i2c_bit_send_address_def i2c_send_address_def a_def Let_def)
  then have "i2c_bit_xfer ops retries (m # ms) w = Some (- RT_EIO, m # ms, w3)"
    using f w3(1) by (auto simp: i2c_bit_xfer_def xfer_msg_def xfer_out_def w1_def RT_EIO_def err_defs)
  moreover have "view w3 = view w" using w3(2) w2(2) v1 i by (cases "view w") (simp add: idle_line_def)
  ultimately show thesis using that by blast
qed

end

section \<open>The bus of the board\<close>

text \<open>
  The lines after a history of the pins, from \<open>l0\<close> on, with one slave at address \<open>own\<close>. Both pins are open drain:
  a read answers the level of the line.
\<close>

fun line_of :: "u8 \<Rightarrow> i2c_line \<Rightarrow> history \<Rightarrow> i2c_line" where
  "line_of own l0 [] = l0"
| "line_of own l0 (PinWrite p v # h) =
     (if p = I2C1_SDA then drive_sda v (line_of own l0 h) else if p = I2C1_SCL then drive_scl own v (line_of own l0 h)
      else line_of own l0 h)"
| "line_of own l0 (_ # h) = line_of own l0 h"

definition slave_board :: "u8 \<Rightarrow> i2c_line \<Rightarrow> board" where
  "slave_board own l0 h p =
     (if p = I2C1_SDA then sda (line_of own l0 h) \<and> \<not> pulls (line_of own l0 h) else p = I2C1_SCL \<and> scl (line_of own l0 h))"

lemma i2c_pins: "I2C1_SCL = 42" "I2C1_SDA = 43"
  by (simp_all add: I2C1_SCL_def I2C1_SDA_def GET_PIN_def)

lemmas stm32_i2c_defs = stm32_bit_ops_def stm32_set_sda_def stm32_set_scl_def stm32_get_sda_def stm32_get_scl_def

interpretation stm32: i2c_bus "stm32_bit_ops (slave_board own l0) clock" "line_of own l0" own for own l0 clock
proof
  fix get :: "history \<Rightarrow> bool \<times> history" and w t
  assume g: "get_scl (stm32_bit_ops (slave_board own l0) clock) = Some get" and s: "scl (line_of own l0 w)"
  have "get w = (True, PinRead I2C1_SCL True # w)"
    using g s by (auto simp: stm32_i2c_defs pin_ops_def slave_board_def i2c_pins Let_def)
  then have "wait_scl (stm32_bit_ops (slave_board own l0) clock) get t w = Some (RT_EOK, PinRead I2C1_SCL True # w)"
    by (subst wait_scl.simps) simp
  then show "\<exists>w'. wait_scl (stm32_bit_ops (slave_board own l0) clock) get t w = Some (RT_EOK, w') \<and> line_of own l0 w' = line_of own l0 w"
    by simp
qed (simp_all add: stm32_i2c_defs pin_ops_def slave_board_def i2c_pins Let_def)

section \<open>Every transfer ends\<close>

lemma wait_scl_ends:
  assumes delay: "0 < d" "unat (bus_timeout ops) + unat d < 2 ^ 32" "d = drop_bit 1 (bus_timeout ops + 1)"
    and tick: "\<And>w. the_tick ops (thread_delay ops d w) = the_tick ops w + d" "\<And>w. the_tick ops (snd (get w)) = the_tick ops w"
  shows "\<exists>r w'. wait_scl ops get start w = Some (r, w')"
proof (induction "2 ^ 32 - unat (the_tick ops w - start)" arbitrary: w rule: less_induct)
  case (less w)
  obtain v w1 where g: "get w = (v, w1)" by (cases "get w")
  then have t1: "the_tick ops w1 = the_tick ops w" using tick(2) [of w] by simp
  show ?case
  proof (cases "v \<or> the_tick ops w1 - start > bus_timeout ops")
    case True
    then show ?thesis by (subst wait_scl.simps) (auto simp: g)
  next
    case False
    define w2 where "w2 = thread_delay ops d w1"
    have e: "the_tick ops w2 - start = (the_tick ops w - start) + d" by (simp add: w2_def tick(1) t1)
    have "unat (the_tick ops w - start) \<le> unat (bus_timeout ops)" using False t1 by (simp add: not_less word_le_nat_alt)
    then have u: "unat (the_tick ops w2 - start) = unat (the_tick ops w - start) + unat d"
      using delay(2) unfolding e by (simp add: unat_word_ariths)
    have "0 < unat d" using delay(1) by (simp add: word_less_nat_alt)
    moreover have "unat (the_tick ops w2 - start) < 2 ^ 32" using unat_u32_lt by simp
    ultimately have "2 ^ 32 - unat (the_tick ops w2 - start) < 2 ^ 32 - unat (the_tick ops w - start)" using u by linarith
    from less [OF this] show ?thesis using False by (subst wait_scl.simps) (simp add: g w2_def delay(3))
  qed
qed

text \<open>The rest of the master ends when the wait for the clock line does.\<close>

locale clock_ends =
  fixes ops :: "'w bit_ops"
  assumes SCL_H_ends: "SCL_H ops w \<noteq> None"
begin

lemmas ends = bind_eq_None_conv SCL_H_ends Let_def

lemma lines_end: "i2c_restart ops w \<noteq> None" "i2c_stop ops w \<noteq> None" "i2c_waitack ops w \<noteq> None"
    "i2c_send_ack_or_nack ops a w \<noteq> None"
  by (auto simp: i2c_restart_def i2c_stop_def i2c_waitack_def i2c_send_ack_or_nack_def ends split: prod.splits if_splits simp del: not_None_eq)

lemma write_bits_ends: "write_bits ops dat is w \<noteq> None"
  by (induction "is" arbitrary: w) (auto simp: ends split: prod.splits if_splits simp del: not_None_eq)

lemma writeb_ends: "i2c_writeb ops dat w \<noteq> None"
  using write_bits_ends lines_end by (auto simp: i2c_writeb_def ends split: prod.splits if_splits simp del: not_None_eq)

lemma read_bits_ends: "read_bits ops n dat w \<noteq> None"
  by (induction n arbitrary: dat w) (auto simp: ends split: prod.splits if_splits simp del: not_None_eq)

lemma readb_ends: "i2c_readb ops w \<noteq> None"
  using read_bits_ends by (auto simp: i2c_readb_def)

lemma send_bytes_ends: "i2c_send_bytes ops ig n ds w \<noteq> None"
  by (induction ds arbitrary: n w) (auto simp: ends writeb_ends split: prod.splits if_splits simp del: not_None_eq)

lemma recv_bytes_ends: "i2c_recv_bytes ops flags got n w \<noteq> None"
  by (induction n arbitrary: got w) (auto simp: ends readb_ends lines_end split: prod.splits if_splits simp del: not_None_eq)

lemma send_address_ends: "send_address ops a n w \<noteq> None"
  by (induction n arbitrary: w; subst send_address.simps) (auto simp: ends writeb_ends lines_end split: prod.splits if_splits simp del: not_None_eq)

lemma bit_send_address_ends: "i2c_bit_send_address ops retries m w \<noteq> None"
  using send_address_ends
  by (auto simp: i2c_bit_send_address_def i2c_send_address_def ends writeb_ends lines_end split: prod.splits if_splits simp del: not_None_eq)

lemma xfer_data_ends: "xfer_data ops m w \<noteq> None"
  using recv_bytes_ends send_bytes_ends by (auto simp: xfer_data_def ends split: prod.splits simp del: not_None_eq)

lemma xfer_msg_ends: "xfer_msg ops retries first m w \<noteq> None"
  using bit_send_address_ends xfer_data_ends lines_end by (auto simp: xfer_msg_def ends split: prod.splits if_splits simp del: not_None_eq)

lemma xfer_msgs_ends: "xfer_msgs ops retries i ms w \<noteq> None"
  using xfer_msg_ends lines_end
  by (induction ms arbitrary: i w) (auto simp: ends xfer_out_def split: prod.splits if_splits simp del: not_None_eq)

end

text \<open>The tick moves on by a delay of the thread and is not moved by an access to the pins.\<close>

definition delay_clock :: "(history \<Rightarrow> u32) \<Rightarrow> bool" where
  "delay_clock clock \<longleftrightarrow> (\<forall>n h. clock (DelayMs n # h) = clock h + of_nat n) \<and> (\<forall>p v h. clock (PinRead p v # h) = clock h)"

lemma stm32_clock_ends:
  assumes "delay_clock clock"
  shows "clock_ends (stm32_bit_ops brd clock)"
proof
  fix w
  let ?ops = "stm32_bit_ops brd clock"
  have "\<exists>r w'. wait_scl ?ops (stm32_get_scl brd) s h = Some (r, w')" for s h
    by (rule wait_scl_ends [where d = 50])
      (use assms in \<open>simp_all add: stm32_i2c_defs pin_ops_def delay_clock_def Let_def\<close>)
  moreover have "get_scl ?ops = Some (stm32_get_scl brd)" by (simp add: stm32_bit_ops_def)
  ultimately show "SCL_H ?ops w \<noteq> None"
    by (auto simp: SCL_H_def bind_eq_None_conv Let_def split: prod.splits if_splits)
qed

section \<open>Properties\<close>

text \<open>
  C18. A transfer of one or more plain messages, writes without flags and reads of at least one byte with \<open>RT_I2C_RD\<close> as
  their only flag, to the slave at their 7-bit address, which has at least as many bytes to give as are read, on an idle
  bus and with a number of retries that is not negative: the result is the number of
  messages; the slave has received exactly the bytes of the write messages, in order; the read messages hold the
  bytes the slave gave, one after the other; and the bus is idle again.
\<close>

theorem i2c_transfer_delivers:
  assumes "idle_line (line_of own l0 h)" and "ms \<noteq> []" and "list_all (plain_msg own) ms"
    and "read_size ms \<le> length (gives (line_of own l0 h))" and "\<not> bit own 7" and "0 \<le> sint retries"
  shows "\<exists>h'. i2c_bit_xfer (stm32_bit_ops (slave_board own l0) clock) retries ms h =
       Some (int (length ms), served (gives (line_of own l0 h)) ms, h') \<and>
     idle_line (line_of own l0 h') \<and> taken (line_of own l0 h') = taken (line_of own l0 h) @ written ms \<and>
     gives (line_of own l0 h') = drop (read_size ms) (gives (line_of own l0 h))"
  using stm32.xfer_msgs_ok [where i = 0 and w = h and own = own and ?l0.0 = l0 and clock = clock, OF assms(2) _ _ assms(3,4,5,6)] assms(1)
  by (simp add: i2c_bit_xfer_def)

text \<open>The bus after a reset of the pins, with a slave at 0x38 that has two bytes to give.\<close>

definition demo_line :: i2c_line where
  "demo_line = \<lparr>scl = True, sda = True, pulls = False, phase = Idle, taken = [], gives = [0x1c, 0x80]\<rparr>"

definition demo_msgs :: "i2c_msg list" where
  "demo_msgs = [\<lparr>msg_addr = 0x38, msg_flags = 0, msg_buf = [0xac, 0x33]\<rparr>, \<lparr>msg_addr = 0x38, msg_flags = RT_I2C_RD, msg_buf = [0, 0]\<rparr>]"

lemma demo_plain: "list_all (plain_msg 0x38) demo_msgs"
  by (simp add: demo_msgs_def plain_msg_def is_read_def)

theorem i2c_transfer_delivers_witness:
  "\<exists>h'. i2c_bit_xfer (stm32_bit_ops (slave_board 0x38 demo_line) (\<lambda>_. 0)) 3 demo_msgs [] =
       Some (2, [\<lparr>msg_addr = 0x38, msg_flags = 0, msg_buf = [0xac, 0x33]\<rparr>,
         \<lparr>msg_addr = 0x38, msg_flags = RT_I2C_RD, msg_buf = [0x1c, 0x80]\<rparr>], h') \<and>
     taken (line_of 0x38 demo_line h') = [0xac, 0x33]"
proof -
  have i: "idle_line (line_of 0x38 demo_line [])" by (simp add: idle_line_def demo_line_def)
  have n: "read_size demo_msgs \<le> length (gives (line_of 0x38 demo_line []))"
    by (simp add: read_size_def demo_msgs_def is_read_def demo_line_def i2c_flags)
  have o: "\<not> bit (0x38 :: u8) 7" "0 \<le> sint (3 :: u32)" by simp_all
  have m: "demo_msgs \<noteq> []" by (simp add: demo_msgs_def)
  from i2c_transfer_delivers [OF i m demo_plain n o, of "\<lambda>_. 0"] show ?thesis
    by (auto simp: demo_msgs_def demo_line_def is_read_def written_def i2c_flags)
qed



text \<open>
  C19. Every transfer ends, with any hardware on the two pins, also one that holds the clock line low forever: the wait
  for the clock gives up after the time-out of the bus.
\<close>

theorem i2c_transfer_ends:
  assumes "delay_clock clock"
  shows "\<exists>r ms' h'. i2c_bit_xfer (stm32_bit_ops brd clock) retries ms h = Some (r, ms', h')"
  using clock_ends.xfer_msgs_ends [OF stm32_clock_ends [OF assms]] unfolding i2c_bit_xfer_def by (metis not_None_eq prod.exhaust)

text \<open>A clock that counts the delays of the thread.\<close>

fun delay_ticks :: "history \<Rightarrow> u32" where
  "delay_ticks [] = 0"
| "delay_ticks (DelayMs n # h) = delay_ticks h + of_nat n"
| "delay_ticks (_ # h) = delay_ticks h"

lemma delay_ticks_clock: "delay_clock delay_ticks"
  by (simp add: delay_clock_def)

interpretation stm32_ends: clock_ends "stm32_bit_ops brd delay_ticks" for brd
  by (rule stm32_clock_ends [OF delay_ticks_clock])

theorem i2c_transfer_ends_witness:
  "\<exists>r ms' h'. i2c_bit_xfer (stm32_bit_ops (\<lambda>_ _. False) delay_ticks) 3 demo_msgs [] = Some (r, ms', h')"
  by (rule i2c_transfer_ends [OF delay_ticks_clock])

text \<open>
  A start condition needs a high clock. \<open>stm32_i2c_bus_unlock\<close> leaves the clock low, and so does a transfer with
  \<open>RT_I2C_NO_STOP\<close>: the start of the next transfer is then none.
\<close>

theorem unlock_leaves_clock_low:
  assumes "\<not> brd h I2C1_SDA"
  shows "\<not> level I2C1_SCL (snd (stm32_i2c_bus_unlock brd h))"
proof -
  have "\<not> level I2C1_SCL ((unlock_pulse ^^ Suc n) g)" for n g
    by (simp add: unlock_pulse_def Let_def)
  from this [of 8] show ?thesis using assms
    by (simp add: stm32_i2c_bus_unlock_def Let_def rt_pin_read_def split_def del: funpow.simps)
qed

theorem start_with_clock_low:
  assumes "\<not> scl (line_of own l0 h)"
  shows "line_of own l0 (i2c_start (stm32_bit_ops (slave_board own l0) clock) h) = (line_of own l0 h)\<lparr>sda := False\<rparr>"
  using assms by (auto simp: i2c_start_def drive_sda_def drive_scl_def)

end
