(* ===== verification/Smem.thy ===== *)
theory Smem
  imports Prelude "HOL-Library.Multiset"
begin

text \<open>
  The heap (\<open>rt-thread/src/mem.c\<close>, the small memory algorithm) and the calls of \<open>kservice.c\<close> that use
  it. The memory is an array of 32-bit words at byte offsets from the start of the heap; headers and
  user data share it, as in the program. A block is a header of three words and its data; the
  headers are linked by offsets in both directions.
\<close>

section \<open>Operations\<close>

definition SIZEOF_STRUCT_MEM :: u32 where "SIZEOF_STRUCT_MEM = 12"
definition MIN_SIZE_ALIGNED :: u32 where "MIN_SIZE_ALIGNED = 12"
definition MEM_MASK :: u32 where "MEM_MASK = 0xfffffffe"

lemmas mem_sizes = SIZEOF_STRUCT_MEM_def MIN_SIZE_ALIGNED_def

text \<open>
  Pointers to headers (\<open>heap_end\<close>, \<open>lfree\<close>) are kept as offsets from \<open>heap_ptr\<close>; \<open>mem_addr\<close> is the address of the
  object itself.
\<close>

record small_mem =
  mem_addr :: u32
  heap_ptr :: u32
  heap :: "nat \<Rightarrow> u32"
  heap_end :: u32
  lfree :: u32
  mem_size_aligned :: u32
  mem_total :: u32
  mem_used :: u32
  mem_max :: u32

definition MEM_USED :: "small_mem \<Rightarrow> u32" where
  "MEM_USED m = (mem_addr m AND MEM_MASK) OR 1"

definition MEM_FREED :: "small_mem \<Rightarrow> u32" where
  "MEM_FREED m = (mem_addr m AND MEM_MASK) OR 0"

text \<open>The three words of the header at an offset.\<close>

definition item_pool :: "small_mem \<Rightarrow> u32 \<Rightarrow> u32" where "item_pool m p = heap m (unat p)"
definition item_next :: "small_mem \<Rightarrow> u32 \<Rightarrow> u32" where "item_next m p = heap m (unat p + 4)"
definition item_prev :: "small_mem \<Rightarrow> u32 \<Rightarrow> u32" where "item_prev m p = heap m (unat p + 8)"

definition set_item_pool :: "u32 \<Rightarrow> u32 \<Rightarrow> small_mem \<Rightarrow> small_mem" where
  "set_item_pool p v m = m\<lparr>heap := (heap m)(unat p := v)\<rparr>"

definition set_item_next :: "u32 \<Rightarrow> u32 \<Rightarrow> small_mem \<Rightarrow> small_mem" where
  "set_item_next p v m = m\<lparr>heap := (heap m)(unat p + 4 := v)\<rparr>"

definition set_item_prev :: "u32 \<Rightarrow> u32 \<Rightarrow> small_mem \<Rightarrow> small_mem" where
  "set_item_prev p v m = m\<lparr>heap := (heap m)(unat p + 8 := v)\<rparr>"

lemmas item_defs = item_pool_def item_next_def item_prev_def set_item_pool_def set_item_next_def set_item_prev_def

definition MEM_ISUSED :: "small_mem \<Rightarrow> u32 \<Rightarrow> bool" where
  "MEM_ISUSED m p \<longleftrightarrow> item_pool m p AND NOT MEM_MASK \<noteq> 0"

definition MEM_POOL :: "small_mem \<Rightarrow> u32 \<Rightarrow> u32" where
  "MEM_POOL m p = item_pool m p AND MEM_MASK"

text \<open>Joining a free block with free neighbours.\<close>

definition plug_forward :: "u32 \<Rightarrow> small_mem \<Rightarrow> small_mem" where
  "plug_forward mem m =
     (let nmem = item_next m mem
      in if mem \<noteq> nmem \<and> \<not> MEM_ISUSED m nmem \<and> nmem \<noteq> heap_end m then
           (let m = (if lfree m = nmem then m\<lparr>lfree := mem\<rparr> else m);
                m = set_item_pool nmem 0 m;
                m = set_item_next mem (item_next m nmem) m
            in set_item_prev (item_next m nmem) mem m)
         else m)"

definition plug_backward :: "u32 \<Rightarrow> small_mem \<Rightarrow> small_mem" where
  "plug_backward mem m =
     (let pmem = item_prev m mem
      in if pmem \<noteq> mem \<and> \<not> MEM_ISUSED m pmem then
           (let m = (if lfree m = mem then m\<lparr>lfree := pmem\<rparr> else m);
                m = set_item_pool mem 0 m;
                m = set_item_next pmem (item_next m mem) m
            in set_item_prev (item_next m mem) pmem m)
         else m)"

definition plug_holes :: "small_mem \<Rightarrow> u32 \<Rightarrow> fault + small_mem" where
  "plug_holes m mem = (if mem < heap_end m then Inr (plug_backward mem (plug_forward mem m)) else Inl AssertFailed)"

text \<open>\<open>raw\<close> is what the memory holds; the object itself takes 56 bytes at the beginning.\<close>

definition SIZEOF_SMALL_MEM :: u32 where "SIZEOF_SMALL_MEM = 56"

definition rt_smem_init :: "u32 \<Rightarrow> u32 \<Rightarrow> (nat \<Rightarrow> u32) \<Rightarrow> small_mem option" where
  "rt_smem_init begin_addr sz raw =
     (let addr = RT_ALIGN begin_addr 4;
          start_addr = addr + SIZEOF_SMALL_MEM;
          begin_align = RT_ALIGN start_addr 4;
          end_align = RT_ALIGN_DOWN (begin_addr + sz) 4
      in if end_align > 2 * SIZEOF_STRUCT_MEM \<and> end_align - 2 * SIZEOF_STRUCT_MEM \<ge> start_addr then
           (let mem_size = end_align - begin_align - 2 * SIZEOF_STRUCT_MEM;
                e = mem_size + SIZEOF_STRUCT_MEM;
                m = \<lparr>mem_addr = addr, heap_ptr = begin_align, heap = raw, heap_end = e, lfree = 0, mem_size_aligned = mem_size,
                     mem_total = mem_size, mem_used = 0, mem_max = 0\<rparr>;
                m = set_item_pool 0 (MEM_FREED m) m;
                m = set_item_next 0 e m;
                m = set_item_prev 0 0 m;
                m = set_item_pool e (MEM_USED m) m;
                m = set_item_next e e m
            in Some (set_item_prev e e m))
         else None)"

text \<open>The search of \<open>rt_smem_alloc\<close>; the outer None stands for a loop that does not end.\<close>

partial_function (option) smem_find :: "u32 \<Rightarrow> small_mem \<Rightarrow> u32 \<Rightarrow> u32 option option" where
  "smem_find sz m ptr =
     (if ptr \<le> mem_size_aligned m - sz then
        (if \<not> MEM_ISUSED m ptr \<and> item_next m ptr - (ptr + SIZEOF_STRUCT_MEM) \<ge> sz then Some (Some ptr)
         else smem_find sz m (item_next m ptr))
      else Some None)"

text \<open>The lowest free block, from where \<open>lfree\<close> is.\<close>

partial_function (option) smem_skip_used :: "small_mem \<Rightarrow> small_mem option" where
  "smem_skip_used m =
     (if MEM_ISUSED m (lfree m) \<and> lfree m \<noteq> heap_end m then smem_skip_used (m\<lparr>lfree := item_next m (lfree m)\<rparr>)
      else Some m)"

definition count_used :: "u32 \<Rightarrow> small_mem \<Rightarrow> small_mem" where
  "count_used n m =
     (let m = m\<lparr>mem_used := mem_used m + n\<rparr> in if mem_max m < mem_used m then m\<lparr>mem_max := mem_used m\<rparr> else m)"

text \<open>A free remainder after the first \<open>sz\<close> bytes of a block.\<close>

definition split_block :: "u32 \<Rightarrow> u32 \<Rightarrow> small_mem \<Rightarrow> small_mem" where
  "split_block sz ptr m =
     (let ptr2 = ptr + SIZEOF_STRUCT_MEM + sz;
          m = set_item_pool ptr2 (MEM_FREED m) m;
          m = set_item_next ptr2 (item_next m ptr) m;
          m = set_item_prev ptr2 ptr m;
          m = set_item_next ptr ptr2 m
      in if item_next m ptr2 \<noteq> mem_size_aligned m + SIZEOF_STRUCT_MEM then set_item_prev (item_next m ptr2) ptr2 m else m)"

definition smem_take :: "u32 \<Rightarrow> u32 \<Rightarrow> small_mem \<Rightarrow> (fault + u32 option \<times> small_mem) option" where
  "smem_take sz ptr m =
     (let m = (if item_next m ptr - (ptr + SIZEOF_STRUCT_MEM) \<ge> sz + SIZEOF_STRUCT_MEM + MIN_SIZE_ALIGNED
               then count_used (sz + SIZEOF_STRUCT_MEM) (split_block sz ptr m)
               else count_used (item_next m ptr - ptr) m);
          m = set_item_pool ptr (MEM_USED m) m
      in bind_opt (if ptr = lfree m then
                     (case smem_skip_used m of None \<Rightarrow> None
                      | Some m \<Rightarrow> Some (if lfree m = heap_end m \<or> \<not> MEM_ISUSED m (lfree m) then Inr m else Inl AssertFailed))
                   else Some (Inr m)) (\<lambda>m.
           Some (if heap_ptr m + ptr + SIZEOF_STRUCT_MEM + sz \<le> heap_ptr m + heap_end m \<and>
                    (heap_ptr m + ptr + SIZEOF_STRUCT_MEM) mod 4 = 0 \<and> (heap_ptr m + ptr) AND 3 = 0
                 then Inr (Some (heap_ptr m + ptr + SIZEOF_STRUCT_MEM), m) else Inl AssertFailed)))"

definition rt_smem_alloc :: "small_mem \<Rightarrow> u32 \<Rightarrow> (fault + u32 option \<times> small_mem) option" where
  "rt_smem_alloc m sz =
     (if sz = 0 then Some (Inr (None, m))
      else let sz = RT_ALIGN sz 4
      in if sz > mem_size_aligned m then Some (Inr (None, m))
      else let sz = (if sz < MIN_SIZE_ALIGNED then MIN_SIZE_ALIGNED else sz)
      in case smem_find sz m (lfree m) of None \<Rightarrow> None
         | Some None \<Rightarrow> Some (Inr (None, m))
         | Some (Some ptr) \<Rightarrow> smem_take sz ptr m)"

text \<open>A pointer outside the heap, or to anything but a used block, fails an assertion.\<close>

definition rt_smem_free :: "small_mem \<Rightarrow> u32 option \<Rightarrow> fault + small_mem" where
  "rt_smem_free m rmem =
     (case rmem of None \<Rightarrow> Inr m
      | Some a \<Rightarrow>
          let mem = a - SIZEOF_STRUCT_MEM - heap_ptr m
          in if a AND 3 = 0 \<and> MEM_POOL m mem = mem_addr m \<and> MEM_ISUSED m mem \<and> a \<ge> heap_ptr m \<and>
                a < heap_ptr m + heap_end m \<and> MEM_POOL m (item_next m mem) = mem_addr m
             then
               (let m = set_item_pool mem (MEM_FREED m) m;
                    m = (if mem < lfree m then m\<lparr>lfree := mem\<rparr> else m);
                    m = m\<lparr>mem_used := mem_used m - (item_next m mem - mem)\<rparr>
                in plug_holes m mem)
             else Inl AssertFailed)"

text \<open>\<open>rt_memcpy\<close> of \<open>n\<close> bytes, whole words, between two places of the heap.\<close>

definition copy_words :: "nat \<Rightarrow> nat \<Rightarrow> nat \<Rightarrow> small_mem \<Rightarrow> small_mem" where
  "copy_words dst src n m =
     m\<lparr>heap := (\<lambda>x. if dst \<le> x \<and> x < dst + n then heap m (src + (x - dst)) else heap m x)\<rparr>"

text \<open>A new block, a copy of the data, and the old block is free.\<close>

definition move_block :: "u32 \<Rightarrow> u32 \<Rightarrow> u32 \<Rightarrow> small_mem \<Rightarrow> (fault + u32 option \<times> small_mem) option" where
  "move_block a sz newsize m =
     bind_opt (rt_smem_alloc m newsize) (\<lambda>(nmem, m).
       case nmem of None \<Rightarrow> Some (Inr (None, m))
       | Some b \<Rightarrow>
           let m = copy_words (unat (b - heap_ptr m)) (unat (a - heap_ptr m)) (unat (if sz < newsize then sz else newsize)) m
           in Some (bind_err (rt_smem_free m (Some a)) (\<lambda>m. Inr (Some b, m))))"

definition rt_smem_realloc :: "small_mem \<Rightarrow> u32 option \<Rightarrow> u32 \<Rightarrow> (fault + u32 option \<times> small_mem) option" where
  "rt_smem_realloc m rmem newsize =
     (let newsize = RT_ALIGN newsize 4
      in if newsize > mem_size_aligned m then Some (Inr (None, m))
      else if newsize = 0 then Some (bind_err (rt_smem_free m rmem) (\<lambda>m. Inr (None, m)))
      else case rmem of None \<Rightarrow> rt_smem_alloc m newsize
      | Some a \<Rightarrow>
          if a AND 3 = 0 \<and> a \<ge> heap_ptr m \<and> a < heap_ptr m + heap_end m then
            (let ptr = a - SIZEOF_STRUCT_MEM - heap_ptr m;
                 sz = item_next m ptr - ptr - SIZEOF_STRUCT_MEM
             in if sz = newsize then Some (Inr (Some a, m))
                else if newsize + SIZEOF_STRUCT_MEM + MIN_SIZE_ALIGNED < sz then
                  (let m = m\<lparr>mem_used := mem_used m - (sz - newsize)\<rparr>;
                       m = split_block newsize ptr m;
                       mem2 = ptr + SIZEOF_STRUCT_MEM + newsize;
                       m = (if mem2 < lfree m then m\<lparr>lfree := mem2\<rparr> else m)
                   in Some (bind_err (plug_holes m mem2) (\<lambda>m. Inr (Some a, m))))
                else move_block a sz newsize m)
          else Some (Inl AssertFailed))"

section \<open>The heap as a list of blocks\<close>

text \<open>A block is its size with the header and whether it is in use; blocks tile the heap from offset 0.\<close>

type_synonym blocks = "(nat \<times> bool) list"

definition extent :: "blocks \<Rightarrow> nat" where "extent bs = sum_list (map fst bs)"

lemma total_simps [simp]: "extent [] = 0" "extent (b # bs) = fst b + extent bs" "extent (xs @ ys) = extent xs + extent ys"
  by (simp_all add: extent_def)

fun prev_of :: "nat \<Rightarrow> nat \<Rightarrow> blocks \<Rightarrow> nat" where
  "prev_of q p [] = q"
| "prev_of q p (b # bs) = prev_of p (p + fst b) bs"

text \<open>\<open>lay h a q p bs\<close>: the headers of \<open>bs\<close> are in the memory from offset \<open>p\<close> on, after a block at \<open>q\<close>.\<close>

fun lay :: "(nat \<Rightarrow> u32) \<Rightarrow> u32 \<Rightarrow> nat \<Rightarrow> nat \<Rightarrow> blocks \<Rightarrow> bool" where
  "lay h a q p [] \<longleftrightarrow> True"
| "lay h a q p ((n, u) # bs) \<longleftrightarrow>
     h p = (if u then a OR 1 else a) \<and> h (p + 4) = of_nat (p + n) \<and> h (p + 8) = of_nat q \<and> 12 < n \<and> 4 dvd n \<and>
     lay h a p (p + n) bs"

lemma lay_append: "lay h a q p (xs @ ys) \<longleftrightarrow> lay h a q p xs \<and> lay h a (prev_of q p xs) (p + extent xs) ys"
  by (induction xs arbitrary: q p) (auto simp: add.assoc)

lemma prev_of_append [simp]: "prev_of q p (xs @ [b]) = p + extent xs"
  by (induction xs arbitrary: q p) (auto simp: add.assoc)

text \<open>The headers of \<open>bs\<close>, with another predecessor.\<close>

lemma lay_reprev:
  assumes "lay h a q p bs" and "bs \<noteq> [] \<Longrightarrow> h' (p + 8) = of_nat q'"
    and "\<And>x. p \<le> x \<Longrightarrow> x < p + extent bs \<Longrightarrow> x \<noteq> p + 8 \<Longrightarrow> h' x = h x"
  shows "lay h' a q' p bs"
  using assms
proof (induction bs arbitrary: q q' p)
  case (Cons b bs)
  obtain n u where b: "b = (n, u)" by fastforce
  have l: "h p = (if u then a OR 1 else a)" "h (p + 4) = of_nat (p + n)" "12 < n" "4 dvd n" "lay h a p (p + n) bs"
    using Cons.prems(1) by (simp_all add: b)
  have same: "h' x = h x" if "p \<le> x" "x < p + n + extent bs" "x \<noteq> p + 8" for x
    using Cons.prems(3) that by (simp add: b add.assoc)
  have "lay h' a p (p + n) bs"
  proof (rule Cons.IH [OF l(5)])
    assume "bs \<noteq> []"
    then have "12 < extent bs" and "h (p + n + 8) = of_nat p" using l(5) by (cases bs; auto)+
    then show "h' (p + n + 8) = of_nat p" using same [of "p + n + 8"] l(3) by simp
  qed (use same l(3) in simp)
  then show ?case using l same [of p] same [of "p + 4"] Cons.prems(2) by (simp add: b)
qed simp

lemma lay_frame:
  assumes "lay h a q p bs" and "\<And>x. p \<le> x \<Longrightarrow> x < p + extent bs \<Longrightarrow> h' x = h x"
  shows "lay h' a q p bs"
proof (rule lay_reprev [OF assms(1)])
  assume "bs \<noteq> []"
  then have "12 < extent bs" "h (p + 8) = of_nat q" using assms(1) by (cases bs; auto)+
  then show "h' (p + 8) = of_nat q" using assms(2) [of "p + 8"] by simp
qed (use assms(2) in blast)

text \<open>No two free blocks side by side.\<close>

fun joined_blocks :: "blocks \<Rightarrow> bool" where
  "joined_blocks (b # c # bs) \<longleftrightarrow> (snd b \<or> snd c) \<and> joined_blocks (c # bs)"
| "joined_blocks _ \<longleftrightarrow> True"

fun first_free :: "blocks \<Rightarrow> nat" where
  "first_free [] = 0"
| "first_free ((n, u) # bs) = (if u then n + first_free bs else 0)"

fun used_bytes :: "blocks \<Rightarrow> nat" where
  "used_bytes [] = 0"
| "used_bytes ((n, u) # bs) = (if u then n else 0) + used_bytes bs"

lemma used_bytes_append [simp]: "used_bytes (xs @ ys) = used_bytes xs + used_bytes ys"
  by (induction xs rule: used_bytes.induct) auto

lemma used_bytes_le: "used_bytes bs \<le> extent bs"
  by (induction bs rule: used_bytes.induct) auto

lemma first_free_le: "first_free bs \<le> extent bs"
  by (induction bs rule: first_free.induct) auto

lemma first_free_append: "first_free (xs @ ys) = (if list_all snd xs then extent xs + first_free ys else first_free xs)"
  by (induction xs rule: first_free.induct) auto

lemma joined_append:
  "joined_blocks (xs @ ys) \<longleftrightarrow> joined_blocks xs \<and> joined_blocks ys \<and> (xs = [] \<or> ys = [] \<or> snd (last xs) \<or> snd (hd ys))"
proof (induction xs rule: joined_blocks.induct)
  case "2_2"
  then show ?case by (cases ys) auto
qed auto

text \<open>The headers of the blocks and of the end marker are in place.\<close>

definition smem_lay :: "small_mem \<Rightarrow> blocks \<Rightarrow> bool" where
  "smem_lay m bs \<longleftrightarrow> lay (heap m) (mem_addr m) 0 0 bs \<and> extent bs = unat (heap_end m) \<and>
     heap m (unat (heap_end m)) = mem_addr m OR 1 \<and> mem_size_aligned m = heap_end m - SIZEOF_STRUCT_MEM \<and> 24 \<le> extent bs \<and>
     mem_addr m AND MEM_MASK = mem_addr m \<and> unat (heap_ptr m) + extent bs + 12 < 2 ^ 32 \<and> 4 dvd unat (heap_ptr m)"

definition smem_ok :: "small_mem \<Rightarrow> blocks \<Rightarrow> bool" where
  "smem_ok m bs \<longleftrightarrow> smem_lay m bs \<and> lfree m = of_nat (first_free bs) \<and> joined_blocks bs \<and>
     mem_used m = of_nat (used_bytes bs)"

lemma smem_okD: "smem_ok m bs \<Longrightarrow> smem_lay m bs"
  by (simp add: smem_ok_def)

section \<open>Reading the headers\<close>

lemma off_word [simp]: "p < 4294967296 \<Longrightarrow> unat (of_nat p :: u32) = p"
  by (simp add: unsigned_of_nat take_bit_nat_eq_self)

lemma off_inj: "p < 4294967296 \<Longrightarrow> q < 4294967296 \<Longrightarrow> of_nat p = (of_nat q :: u32) \<longleftrightarrow> p = q"
  using off_word by metis

lemma off_less: "p < 4294967296 \<Longrightarrow> q < 4294967296 \<Longrightarrow> of_nat p < (of_nat q :: u32) \<longleftrightarrow> p < q"
  by (simp add: word_less_nat_alt)

lemma used_word: "(a OR 1) AND NOT MEM_MASK \<noteq> 0" "a AND MEM_MASK = a \<Longrightarrow> a AND NOT MEM_MASK = 0"
  "a AND MEM_MASK = a \<Longrightarrow> (a OR 1) AND MEM_MASK = a" for a :: u32
proof -
  have m: "NOT MEM_MASK = 1" "MEM_MASK = NOT 1" by (simp_all add: MEM_MASK_def)
  have "bit ((a OR 1) AND 1) 0" by (simp add: bit_simps)
  then show "(a OR 1) AND NOT MEM_MASK \<noteq> 0" unfolding m by auto
  show "a AND NOT MEM_MASK = 0" if "a AND MEM_MASK = a"
  proof -
    have "a AND NOT MEM_MASK = (a AND MEM_MASK) AND NOT MEM_MASK" using that by simp
    also have "\<dots> = 0" by (simp add: m and.assoc)
    finally show ?thesis .
  qed
  show "(a OR 1) AND MEM_MASK = a" if "a AND MEM_MASK = a"
  proof -
    have "(a OR 1) AND MEM_MASK = (a AND MEM_MASK) OR (1 AND NOT 1)" by (simp add: m bit.conj_disj_distrib2)
    then show ?thesis using that by simp
  qed
qed

text \<open>A block at the split of the list, and what the code reads there.\<close>

lemma smem_bounds:
  assumes "smem_lay m bs"
  shows "extent bs < 4294967284" "unat (mem_size_aligned m) = extent bs - 12" "heap_end m = of_nat (extent bs)"
    "mem_size_aligned m + SIZEOF_STRUCT_MEM = of_nat (extent bs)" "24 \<le> extent bs"
proof -
  show t: "extent bs < 4294967284" "24 \<le> extent bs" using assms by (simp_all add: smem_lay_def)
  show e: "heap_end m = of_nat (extent bs)" using assms by (simp add: smem_lay_def)
  have "mem_size_aligned m = of_nat (extent bs) - of_nat 12" using assms e by (simp add: smem_lay_def SIZEOF_STRUCT_MEM_def)
  then have s: "mem_size_aligned m = of_nat (extent bs - 12)" using t by (simp add: of_nat_diff)
  then show "unat (mem_size_aligned m) = extent bs - 12" using t by (simp del: of_nat_diff)
  show "mem_size_aligned m + SIZEOF_STRUCT_MEM = of_nat (extent bs)"
    using assms e by (simp add: smem_lay_def)
qed

lemma smem_block:
  assumes ok: "smem_lay m (xs @ (n, u) # ys)"
  shows "item_pool m (of_nat (extent xs)) = (if u then mem_addr m OR 1 else mem_addr m)"
    "item_next m (of_nat (extent xs)) = of_nat (extent xs + n)" "item_prev m (of_nat (extent xs)) = of_nat (prev_of 0 0 xs)"
    "MEM_ISUSED m (of_nat (extent xs)) = u" "MEM_POOL m (of_nat (extent xs)) = mem_addr m" "12 < n" "4 dvd n"
    "extent xs + n < 4294967296 - 12" "unat (of_nat (extent xs) :: u32) = extent xs" "unat (of_nat (extent xs + n) :: u32) = extent xs + n"
proof -
  have b: "extent xs + n < 4294967296 - 12" using smem_bounds(1) [OF ok] by simp
  then show "extent xs + n < 4294967296 - 12" and o: "unat (of_nat (extent xs) :: u32) = extent xs"
    "unat (of_nat (extent xs + n) :: u32) = extent xs + n" by (simp_all del: of_nat_add)
  have l: "lay (heap m) (mem_addr m) (prev_of 0 0 xs) (extent xs) ((n, u) # ys)"
    using ok by (simp add: smem_lay_def lay_append)
  show p: "item_pool m (of_nat (extent xs)) = (if u then mem_addr m OR 1 else mem_addr m)"
    and "item_next m (of_nat (extent xs)) = of_nat (extent xs + n)" "item_prev m (of_nat (extent xs)) = of_nat (prev_of 0 0 xs)"
    "12 < n" "4 dvd n"
    using l o(1) by (simp_all add: item_defs)
  have a: "mem_addr m AND MEM_MASK = mem_addr m" using ok by (simp add: smem_lay_def)
  show "MEM_ISUSED m (of_nat (extent xs)) = u" "MEM_POOL m (of_nat (extent xs)) = mem_addr m"
    using used_word(1) used_word(2,3) [OF a] a by (simp_all add: MEM_ISUSED_def MEM_POOL_def p)
qed

lemma smem_sentinel:
  assumes ok: "smem_lay m bs"
  shows "MEM_ISUSED m (heap_end m)" "MEM_POOL m (heap_end m) = mem_addr m"
  using ok used_word(1) used_word(3) [of "mem_addr m"] by (simp_all add: smem_lay_def MEM_ISUSED_def MEM_POOL_def item_pool_def)

section \<open>The search\<close>

text \<open>The offset, from the start of \<open>bs\<close>, of the first free block with \<open>n\<close> bytes for data, and what is done to it.\<close>

fun first_fit :: "nat \<Rightarrow> blocks \<Rightarrow> nat option" where
  "first_fit n [] = None"
| "first_fit n ((k, u) # bs) = (if \<not> u \<and> n + 12 \<le> k then Some 0 else map_option ((+) k) (first_fit n bs))"

fun place :: "nat \<Rightarrow> blocks \<Rightarrow> blocks" where
  "place n [] = []"
| "place n ((k, u) # bs) =
     (if \<not> u \<and> n + 12 \<le> k then (if n + 36 \<le> k then (n + 12, True) # (k - n - 12, False) # bs else (k, True) # bs)
      else (k, u) # place n bs)"

lemma first_fit_Some:
  "first_fit n bs = Some o' \<Longrightarrow> \<exists>xs k ys. bs = xs @ (k, False) # ys \<and> extent xs = o' \<and> n + 12 \<le> k \<and>
     place n bs = xs @ (if n + 36 \<le> k then (n + 12, True) # (k - n - 12, False) # ys else (k, True) # ys) \<and>
     first_fit n xs = None"
proof (induction n bs arbitrary: o' rule: first_fit.induct)
  case (2 n k u bs)
  show ?case
  proof (cases "\<not> u \<and> n + 12 \<le> k")
    case True
    then show ?thesis using 2 by (intro exI [of _ "[]"]) simp
  next
    case False
    then obtain o1 where o1: "first_fit n bs = Some o1" "o' = k + o1" using 2 by auto
    from "2.IH" [OF False this(1)] obtain xs k' ys where "bs = xs @ (k', False) # ys" "extent xs = o1" "n + 12 \<le> k'"
      "place n bs = xs @ (if n + 36 \<le> k' then (n + 12, True) # (k' - n - 12, False) # ys else (k', True) # ys)"
      "first_fit n xs = None" by blast
    then show ?thesis using False o1(2)
      by (rule_tac exI [of _ "(k, u) # xs"], rule_tac exI [of _ k'], rule_tac exI [of _ ys]) auto
  qed
qed simp

lemma first_fit_extent: "first_fit n bs = Some o' \<Longrightarrow> o' + n + 12 \<le> extent bs"
  using first_fit_Some by force

lemma first_fit_used: "list_all snd xs \<Longrightarrow> first_fit n (xs @ ys) = map_option ((+) (extent xs)) (first_fit n ys)"
  by (cases "first_fit n ys") (induction xs rule: first_free.induct, auto)+

lemma smem_find_ok:
  assumes "smem_lay m (xs @ ys)" and "unat sz + 12 \<le> extent (xs @ ys)"
  shows "smem_find sz m (of_nat (extent xs)) =
     Some (map_option (\<lambda>o'. of_nat (extent xs + o')) (first_fit (unat sz) ys))"
  using assms
proof (induction ys arbitrary: xs)
  case Nil
  note b = smem_bounds [OF Nil.prems(1)]
  have z: "unat (mem_size_aligned m - sz) = extent xs - 12 - unat sz"
    using b Nil.prems(2) by (simp add: unat_sub word_le_nat_alt)
  show ?case
  proof (cases "unat sz = 0")
    case False
    then have "\<not> of_nat (extent xs) \<le> mem_size_aligned m - sz" using b z Nil.prems(2) by (simp add: word_le_nat_alt)
    then show ?thesis by (subst smem_find.simps) simp
  next
    case True
    have "\<not> of_nat (extent xs) \<le> mem_size_aligned m - sz" using b z Nil.prems(2) by (simp add: word_le_nat_alt)
    then show ?thesis by (subst smem_find.simps) simp
  qed
next
  case (Cons y ys)
  obtain n u where y: "y = (n, u)" by fastforce
  note b = smem_bounds [OF Cons.prems(1)]
  note r = smem_block [OF Cons.prems(1) [unfolded y]]
  have z: "unat (mem_size_aligned m - sz) = extent xs + n + extent ys - 12 - unat sz"
    using b Cons.prems(2) by (simp add: y unat_sub word_le_nat_alt add.assoc)
  have d: "item_next m (of_nat (extent xs)) - (of_nat (extent xs) + SIZEOF_STRUCT_MEM) = of_nat (n - 12)"
    using r(2,6) by (simp add: SIZEOF_STRUCT_MEM_def of_nat_diff)
  have f: "sz \<le> of_nat (n - 12) \<longleftrightarrow> unat sz + 12 \<le> n"
    using r(6,8) by (auto simp: word_le_nat_alt simp del: of_nat_diff)
  have step: "smem_find sz m (of_nat (extent xs + n)) = Some (map_option (\<lambda>o'. of_nat (extent xs + n + o')) (first_fit (unat sz) ys))"
    using Cons.IH [of "xs @ [y]"] Cons.prems by (simp add: y)
  have fit: "sz \<le> item_next m (of_nat (extent xs)) - (of_nat (extent xs) + SIZEOF_STRUCT_MEM) \<longleftrightarrow> unat sz + 12 \<le> n"
    unfolding d by (rule f)
  have eq: "smem_find sz m (of_nat (extent xs)) =
      (if \<not> u \<and> unat sz + 12 \<le> n then Some (Some (of_nat (extent xs))) else smem_find sz m (of_nat (extent xs + n)))"
    if "of_nat (extent xs) \<le> mem_size_aligned m - sz"
    by (subst smem_find.simps) (simp only: that fit [unfolded r(2)] r(2,4) if_True)
  show ?case
  proof (cases "of_nat (extent xs) \<le> mem_size_aligned m - sz")
    case True
    then show ?thesis
      using step unfolding eq [OF True] by (simp add: y option.map_comp comp_def add.assoc)
  next
    case False
    then have "extent xs + n + extent ys - 12 - unat sz < extent xs" using r(8,9) z by (simp add: word_le_nat_alt)
    then have "first_fit (unat sz) (y # ys) = None"
      using first_fit_extent [of "unat sz" "y # ys"] by (cases "first_fit (unat sz) (y # ys)") (auto simp: y)
    then show ?thesis using False by (subst smem_find.simps) simp
  qed
qed

text \<open>From \<open>lfree\<close>, before which every block is in use, the search finds the first fitting block of all.\<close>

lemma smem_find_first:
  assumes ok: "smem_ok m bs" and sz: "unat sz + 12 \<le> extent bs"
  shows "smem_find sz m (lfree m) = Some (map_option of_nat (first_fit (unat sz) bs))"
proof -
  have "\<exists>xs ys. bs = xs @ ys \<and> list_all snd xs \<and> extent xs = first_free bs"
  proof (induction bs rule: first_free.induct)
    case (2 n u bs)
    show ?case
    proof (cases u)
      case True
      then obtain xs ys where "bs = xs @ ys" "list_all snd xs" "extent xs = first_free bs" using 2 by blast
      then show ?thesis using True by (rule_tac exI [of _ "(n, u) # xs"], rule_tac exI [of _ ys]) simp
    next
      case False
      then show ?thesis by (rule_tac exI [of _ "[]"], rule_tac exI [of _ "(n, u) # bs"]) simp
    qed
  qed simp
  then obtain xs ys where x: "bs = xs @ ys" "list_all snd xs" "extent xs = first_free bs" by blast
  have "lfree m = of_nat (extent xs)" using ok x(3) by (simp add: smem_ok_def)
  then show ?thesis
    using smem_find_ok [of m xs ys sz] smem_okD [OF ok] sz by (simp add: x(1) first_fit_used [OF x(2)] option.map_comp comp_def)
qed

section \<open>Splitting a block and taking it\<close>

lemma smem_lay_parts:
  assumes "smem_lay m (xs @ (k, u) # ys)"
  shows "lay (heap m) (mem_addr m) 0 0 xs" "lay (heap m) (mem_addr m) (extent xs) (extent xs + k) ys"
    "heap m (extent xs) = (if u then mem_addr m OR 1 else mem_addr m)" "heap m (extent xs + 4) = of_nat (extent xs + k)"
    "heap m (extent xs + 8) = of_nat (prev_of 0 0 xs)" "12 < k" "4 dvd k" "unat (heap_end m) = extent xs + k + extent ys"
  using assms by (simp_all add: smem_lay_def lay_append)

text \<open>A changed heap is laid out again if the headers are and the end marker is the same.\<close>

lemma smem_lay_change:
  assumes "smem_lay m bs" and "lay h (mem_addr m) 0 0 cs" and "extent cs = extent bs" and "h (extent bs) = heap m (extent bs)"
  shows "smem_lay (m\<lparr>heap := h\<rparr>) cs"
  using assms by (simp add: smem_lay_def)

lemma smem_lay_other [simp]:
  "smem_lay (m\<lparr>lfree := x\<rparr>) bs \<longleftrightarrow> smem_lay m bs" "smem_lay (m\<lparr>mem_used := y\<rparr>) bs \<longleftrightarrow> smem_lay m bs"
  "smem_lay (m\<lparr>mem_max := y\<rparr>) bs \<longleftrightarrow> smem_lay m bs"
  by (simp_all add: smem_lay_def)

lemma lay_prev: "lay h a q p ys \<Longrightarrow> ys \<noteq> [] \<Longrightarrow> 12 < extent ys"
  by (cases ys) auto

definition split_heap :: "nat \<Rightarrow> nat \<Rightarrow> nat \<Rightarrow> blocks \<Rightarrow> small_mem \<Rightarrow> nat \<Rightarrow> u32" where
  "split_heap o' k n ys m =
     (let h = (heap m)(o' + 12 + n := mem_addr m, o' + 12 + n + 4 := of_nat (o' + k), o' + 12 + n + 8 := of_nat o',
            o' + 4 := of_nat (o' + 12 + n))
      in if ys = [] then h else h(o' + k + 8 := of_nat (o' + 12 + n)))"

lemma split_block_ok:
  assumes l: "smem_lay m (xs @ (k, u) # ys)" and n: "unat sz + 36 \<le> k" "4 dvd unat sz" and z: "unat sz \<noteq> 0"
  shows "split_block sz (of_nat (extent xs)) m = m\<lparr>heap := split_heap (extent xs) k (unat sz) ys m\<rparr>"
    and "smem_lay (m\<lparr>heap := split_heap (extent xs) k (unat sz) ys m\<rparr>) (xs @ (unat sz + 12, u) # (k - unat sz - 12, False) # ys)"
proof -
  note p = smem_lay_parts [OF l] and b = smem_block [OF l] and e = smem_bounds [OF l]
  define o' where "o' = extent xs"
  have s: "sz = of_nat (unat sz)" by simp
  have p2: "of_nat o' + SIZEOF_STRUCT_MEM + sz = of_nat (o' + 12 + unat sz)" by (simp add: SIZEOF_STRUCT_MEM_def)
  have lim: "o' + 12 + unat sz < 4294967296" "o' + k < 4294967296" "o' < 4294967296" using b(8) n by (simp_all add: o'_def)
  have fr: "MEM_FREED m = mem_addr m" using l by (simp add: MEM_FREED_def smem_lay_def)
  have last: "(of_nat (o' + k) :: u32) \<noteq> of_nat (extent (xs @ (k, u) # ys)) \<longleftrightarrow> ys \<noteq> []"
  proof -
    have "extent ys = 0 \<longleftrightarrow> ys = []" using lay_prev [OF p(2)] by (cases "ys = []") auto
    then show ?thesis using off_inj [of "o' + k" "extent (xs @ (k, u) # ys)"] lim e(1) by (auto simp: o'_def simp del: of_nat_add)
  qed
  show "split_block sz (of_nat (extent xs)) m = m\<lparr>heap := split_heap (extent xs) k (unat sz) ys m\<rparr>"
    using lim last e(4) n p(4) unfolding split_block_def o'_def [symmetric] p2 split_heap_def
    by (simp add: item_defs fr Let_def o'_def [symmetric] del: of_nat_add)
  show "smem_lay (m\<lparr>heap := split_heap (extent xs) k (unat sz) ys m\<rparr>) (xs @ (unat sz + 12, u) # (k - unat sz - 12, False) # ys)"
  proof -
    let ?h = "split_heap o' k (unat sz) ys m"
    have e8: "extent ys \<noteq> 8" using lay_prev [OF p(2)] by (cases "ys = []") auto
    have out: "?h x = heap m x" if "x < o' \<or> o' + k \<le> x \<and> x \<noteq> o' + k + 8" for x
      using that n by (auto simp: split_heap_def Let_def)
    have "lay ?h (mem_addr m) 0 0 xs" by (rule lay_frame [OF p(1)]) (use out in \<open>simp add: o'_def\<close>)
    moreover have "lay ?h (mem_addr m) (o' + 12 + unat sz) (o' + k) ys"
      by (rule lay_reprev [OF p(2) [folded o'_def]]) (use out in \<open>auto simp: split_heap_def Let_def\<close>)
    moreover have "?h o' = heap m o'" "?h (o' + 4) = of_nat (o' + 12 + unat sz)" "?h (o' + 8) = heap m (o' + 8)"
      "?h (o' + 12 + unat sz) = mem_addr m" "?h (o' + 12 + unat sz + 4) = of_nat (o' + k)" "?h (o' + 12 + unat sz + 8) = of_nat o'"
      using n z by (auto simp: split_heap_def Let_def)
    moreover have "4 dvd k - unat sz - 12" using p(7) n(2) by (simp add: dvd_diff_nat)
    ultimately have "lay ?h (mem_addr m) 0 0 (xs @ (unat sz + 12, u) # (k - unat sz - 12, False) # ys)"
      using p(3,5) n z by (simp add: lay_append o'_def [symmetric] add.assoc add.commute [of 12])
    then show "smem_lay (m\<lparr>heap := split_heap (extent xs) k (unat sz) ys m\<rparr>) (xs @ (unat sz + 12, u) # (k - unat sz - 12, False) # ys)"
      unfolding o'_def by (rule smem_lay_change [OF l]) (use n e8 out [of "extent (xs @ (k, u) # ys)"] in \<open>auto simp: o'_def\<close>)
  qed
qed

lemma smem_skip_used_ok:
  assumes "smem_lay m (xs @ ys)" and "lfree m = of_nat (extent xs)"
  shows "smem_skip_used m = Some (m\<lparr>lfree := of_nat (extent xs + first_free ys)\<rparr>)"
  using assms
proof (induction ys arbitrary: xs m)
  case Nil
  then have "lfree m = heap_end m" using smem_bounds(3) [OF Nil.prems(1)] by simp
  moreover have "m\<lparr>lfree := lfree m\<rparr> = m" by simp
  ultimately show ?case using Nil.prems(2) by (subst smem_skip_used.simps) simp
next
  case (Cons y ys)
  obtain k u where y: "y = (k, u)" by fastforce
  note r = smem_block [OF Cons.prems(1) [unfolded y]] and e = smem_bounds [OF Cons.prems(1)]
  show ?case
  proof (cases u)
    case False
    have "m\<lparr>lfree := lfree m\<rparr> = m" by simp
    then show ?thesis using False r(4) Cons.prems(2) by (subst smem_skip_used.simps) (simp add: y)
  next
    case True
    have ne: "lfree m \<noteq> heap_end m"
      unfolding e(3) Cons.prems(2) using off_inj [of "extent xs" "extent (xs @ y # ys)"] e(1) r(6) y by simp
    define m1 where "m1 = m\<lparr>lfree := of_nat (extent xs + k)\<rparr>"
    have "smem_skip_used m = smem_skip_used m1"
      using True ne r(2,4) Cons.prems(2) by (subst smem_skip_used.simps) (simp add: m1_def)
    also have "\<dots> = Some (m1\<lparr>lfree := of_nat (extent (xs @ [y]) + first_free ys)\<rparr>)"
      by (rule Cons.IH) (use Cons.prems(1) in \<open>simp_all add: m1_def y\<close>)
    also have "\<dots> = Some (m\<lparr>lfree := of_nat (extent xs + first_free (y # ys))\<rparr>)"
      using True by (simp add: m1_def y add.assoc)
    finally show ?thesis .
  qed
qed

lemma smem_lay_used:
  assumes "smem_lay m (xs @ (k, u) # ys)"
  shows "smem_lay (set_item_pool (of_nat (extent xs)) (if v then MEM_USED m else MEM_FREED m) m) (xs @ (k, v) # ys)"
proof -
  note p = smem_lay_parts [OF assms] and b = smem_block [OF assms]
  let ?h = "(heap m)(extent xs := if v then mem_addr m OR 1 else mem_addr m)"
  have w: "(if v then MEM_USED m else MEM_FREED m) = (if v then mem_addr m OR 1 else mem_addr m)"
    using assms by (simp add: MEM_USED_def MEM_FREED_def smem_lay_def)
  have "lay ?h (mem_addr m) 0 0 xs" by (rule lay_frame [OF p(1)]) simp
  moreover have "lay ?h (mem_addr m) (extent xs) (extent xs + k) ys" by (rule lay_frame [OF p(2)]) (use p(6) in simp)
  ultimately have "lay ?h (mem_addr m) 0 0 (xs @ (k, v) # ys)" using p(4-7) by (simp add: lay_append)
  then have "smem_lay (m\<lparr>heap := ?h\<rparr>) (xs @ (k, v) # ys)" by (rule smem_lay_change [OF assms]) (use p(6) in simp_all)
  then show ?thesis using b(9) w by (simp add: set_item_pool_def)
qed

text \<open>The assertions at the end of an allocation.\<close>

lemma and_3_of_nat:
  assumes "4 dvd a"
  shows "(of_nat a :: u32) AND 3 = 0"
proof -
  have "(of_nat a :: u32) AND 3 = take_bit 2 (of_nat a)" by (simp add: take_bit_eq_mask mask_eq_exp_minus_1)
  also have "\<dots> = of_nat (take_bit 2 a)" by (simp add: take_bit_of_nat)
  finally show ?thesis using assms by (simp add: take_bit_eq_mod)
qed

lemma aligned_address:
  assumes "smem_lay m (xs @ (k, u) # ys)" and "unat sz + 12 \<le> k"
  shows "heap_ptr m + of_nat (extent xs) + SIZEOF_STRUCT_MEM + sz \<le> heap_ptr m + heap_end m"
    "(heap_ptr m + of_nat (extent xs) + SIZEOF_STRUCT_MEM) mod 4 = 0" "(heap_ptr m + of_nat (extent xs)) AND 3 = 0"
    "unat (heap_ptr m + of_nat (extent xs) + SIZEOF_STRUCT_MEM) = unat (heap_ptr m) + extent xs + 12"
    "(heap_ptr m + of_nat (extent xs) + SIZEOF_STRUCT_MEM) AND 3 = 0"
proof -
  have b: "unat (heap_ptr m) + extent xs + k + extent ys + 12 < 2 ^ 32" "4 dvd unat (heap_ptr m)"
    using assms(1) by (simp_all add: smem_lay_def add.assoc)
  have d: "4 dvd extent xs"
  proof -
    have "lay h a q p zs \<Longrightarrow> 4 dvd extent zs" for h a q p zs
      by (induction zs arbitrary: q p) auto
    then show ?thesis using smem_lay_parts(1) [OF assms(1)] by blast
  qed
  have h: "heap_ptr m = of_nat (unat (heap_ptr m))" by simp
  define a where "a = unat (heap_ptr m) + extent xs"
  have a: "heap_ptr m + of_nat (extent xs) = of_nat a" "a + 12 < 4294967296" "4 dvd a"
    using b d assms(2) by (simp_all add: a_def)
  have a12: "of_nat a + SIZEOF_STRUCT_MEM = of_nat (a + 12)" by (simp add: SIZEOF_STRUCT_MEM_def)
  show "unat (heap_ptr m + of_nat (extent xs) + SIZEOF_STRUCT_MEM) = unat (heap_ptr m) + extent xs + 12"
    unfolding a(1) a12 using a(2) by (simp add: a_def del: of_nat_add)
  have e: "heap_ptr m + heap_end m = of_nat (unat (heap_ptr m) + extent (xs @ (k, u) # ys))"
    using smem_bounds(3) [OF assms(1)] by simp
  have l: "heap_ptr m + of_nat (extent xs) + SIZEOF_STRUCT_MEM + sz = of_nat (a + 12 + unat sz)"
    unfolding a(1) a12 by simp
  show "heap_ptr m + of_nat (extent xs) + SIZEOF_STRUCT_MEM + sz \<le> heap_ptr m + heap_end m"
    unfolding e l using b assms(2) by (simp add: word_le_nat_alt a_def del: of_nat_add)
  have "(of_nat (a + 12) :: u32) mod 4 = of_nat ((a + 12) mod 4)"
    by (rule word_unat_eq_iff [THEN iffD2]) (use a(2) in \<open>simp add: unat_mod del: of_nat_add\<close>)
  then show "(heap_ptr m + of_nat (extent xs) + SIZEOF_STRUCT_MEM) mod 4 = 0" unfolding a(1) a12 using a(3) by simp
  show "(heap_ptr m + of_nat (extent xs)) AND 3 = 0" unfolding a(1) by (rule and_3_of_nat [OF a(3)])
  show "(heap_ptr m + of_nat (extent xs) + SIZEOF_STRUCT_MEM) AND 3 = 0"
    unfolding a(1) a12 by (rule and_3_of_nat) (use a(3) in simp)
qed

lemma count_used_sel [simp]:
  "smem_lay (count_used n m) bs \<longleftrightarrow> smem_lay m bs" "heap (count_used n m) = heap m" "mem_addr (count_used n m) = mem_addr m"
  "heap_ptr (count_used n m) = heap_ptr m" "heap_end (count_used n m) = heap_end m" "lfree (count_used n m) = lfree m"
  "mem_size_aligned (count_used n m) = mem_size_aligned m" "mem_used (count_used n m) = mem_used m + n"
  by (simp_all add: count_used_def Let_def smem_lay_def)

lemma set_item_sel [simp]:
  "mem_addr (set_item_pool p v m) = mem_addr m" "heap_ptr (set_item_pool p v m) = heap_ptr m"
  "heap_end (set_item_pool p v m) = heap_end m" "lfree (set_item_pool p v m) = lfree m"
  "mem_size_aligned (set_item_pool p v m) = mem_size_aligned m" "mem_used (set_item_pool p v m) = mem_used m"
  by (simp_all add: set_item_pool_def)

text \<open>What an operation on the block at \<open>p\<close> of size \<open>k\<close> may change in memory, and what never changes.\<close>

definition changes_in :: "nat \<Rightarrow> nat \<Rightarrow> small_mem \<Rightarrow> small_mem \<Rightarrow> bool" where
  "changes_in p k m m' \<longleftrightarrow> heap_ptr m' = heap_ptr m \<and> mem_addr m' = mem_addr m \<and> heap_end m' = heap_end m \<and>
     mem_size_aligned m' = mem_size_aligned m \<and> (\<forall>x. x < p \<or> p + k \<le> x \<and> x \<noteq> p + k + 8 \<longrightarrow> heap m' x = heap m x)"

lemma lay_positive: "lay h a q p bs \<Longrightarrow> \<not> list_all snd bs \<Longrightarrow> first_free bs < extent bs"
  by (induction bs arbitrary: q p rule: first_free.induct) (auto split: if_splits)

lemma first_free_at:
  assumes "smem_lay m (xs @ (k, False) # ys)"
  shows "of_nat (extent xs) = (of_nat (first_free (xs @ (k, False) # ys)) :: u32) \<longleftrightarrow> list_all snd xs"
proof -
  note p = smem_lay_parts(1) [OF assms] and b = smem_block(8) [OF assms]
  have "first_free xs \<le> extent xs" by (rule first_free_le)
  then have "of_nat (extent xs) = (of_nat (first_free (xs @ (k, False) # ys)) :: u32) \<longleftrightarrow>
      extent xs = first_free (xs @ (k, False) # ys)"
    using b by (intro off_inj) (auto simp: first_free_append)
  then show ?thesis using lay_positive [OF p] by (auto simp: first_free_append)
qed

lemma first_free_block: "\<not> list_all snd cs \<Longrightarrow> \<exists>as j bs. cs = as @ (j, False) # bs \<and> extent as = first_free cs"
proof (induction cs rule: first_free.induct)
  case (2 c u cs)
  show ?case
  proof (cases u)
    case True
    then obtain as j bs where "cs = as @ (j, False) # bs" "extent as = first_free cs" using 2 by auto
    then show ?thesis using True by (rule_tac exI [of _ "(c, u) # as"], rule_tac exI [of _ j], rule_tac exI [of _ bs]) simp
  next
    case False
    then show ?thesis by (rule_tac exI [of _ "[]"], rule_tac exI [of _ c], rule_tac exI [of _ cs]) simp
  qed
qed simp

lemma lfree_is_free:
  assumes "smem_lay m bs" and "lfree m = of_nat (first_free bs)"
  shows "lfree m = heap_end m \<or> \<not> MEM_ISUSED m (lfree m)"
proof (cases "list_all snd bs")
  case True
  then have "first_free bs = extent bs" using first_free_append [of bs "[]"] by simp
  then show ?thesis using smem_bounds(3) [OF assms(1)] assms(2) by simp
next
  case False
  from first_free_block [OF this] obtain as j cs where c: "bs = as @ (j, False) # cs" "extent as = first_free bs" by blast
  have "\<not> MEM_ISUSED m (of_nat (extent as))" using smem_block(4) [OF assms(1) [unfolded c(1)]] by simp
  then show ?thesis by (simp add: assms(2) c(2))
qed

lemma smem_take_ok:
  assumes ok: "smem_ok m (xs @ (k, False) # ys)" and fit: "unat sz + 12 \<le> k" and n: "4 dvd unat sz" "12 \<le> unat sz"
  obtains m' where "smem_take sz (of_nat (extent xs)) m = Some (Inr (Some (heap_ptr m + of_nat (extent xs) + SIZEOF_STRUCT_MEM), m'))"
    "smem_ok m' (xs @ (if unat sz + 36 \<le> k then (unat sz + 12, True) # (k - unat sz - 12, False) # ys else (k, True) # ys))"
    "changes_in (extent xs) k m m'"
proof -
  define o' where "o' = extent xs"
  define big where "big = (unat sz + 36 \<le> k)"
  define zs where "zs = (if big then (unat sz + 12, True) # (k - unat sz - 12, False) # ys else (k, True) # ys)"
  have l: "smem_lay m (xs @ (k, False) # ys)" by (rule smem_okD [OF ok])
  note b = smem_block [OF l] and sp = split_block_ok [OF l]
  have room: "item_next m (of_nat o') - (of_nat o' + SIZEOF_STRUCT_MEM) \<ge> sz + SIZEOF_STRUCT_MEM + MIN_SIZE_ALIGNED \<longleftrightarrow> big"
  proof -
    have "item_next m (of_nat o') - (of_nat o' + SIZEOF_STRUCT_MEM) = of_nat (k - 12)"
      using b(2,6) by (simp add: o'_def SIZEOF_STRUCT_MEM_def of_nat_diff)
    moreover have "sz + SIZEOF_STRUCT_MEM + MIN_SIZE_ALIGNED = of_nat (unat sz + 24)" by (simp add: mem_sizes)
    ultimately show ?thesis using b(6,8) fit by (simp add: word_le_nat_alt big_def del: of_nat_add of_nat_diff) linarith
  qed
  define m1 where "m1 = (if big then count_used (sz + SIZEOF_STRUCT_MEM) (split_block sz (of_nat o') m)
      else count_used (item_next m (of_nat o') - of_nat o') m)"
  define m2 where "m2 = set_item_pool (of_nat o') (MEM_USED m1) m1"
  have l1: "smem_lay m1 (xs @ (if big then (unat sz + 12, False) # (k - unat sz - 12, False) # ys else (k, False) # ys))"
    using sp n l by (auto simp: m1_def o'_def big_def)
  have l2: "smem_lay m2 (xs @ zs)"
    using l1 smem_lay_used [of m1 xs _ False _ True] by (auto simp: m2_def zs_def o'_def)
  have ch: "changes_in o' k m m2"
    using fit n b(6) sp(1) b(9)
    by (auto simp: changes_in_def m2_def m1_def o'_def big_def set_item_pool_def split_heap_def Let_def)
  have f1: "lfree m2 = lfree m" using sp(1) n by (simp add: m2_def m1_def o'_def big_def)
  have u1: "mem_used m2 = of_nat (used_bytes (xs @ zs))"
  proof -
    have "mem_used m2 = mem_used m + of_nat (if big then unat sz + 12 else k)"
      using sp(1) n b(2) by (auto simp: m2_def m1_def o'_def big_def SIZEOF_STRUCT_MEM_def)
    then show ?thesis using ok by (simp add: smem_ok_def zs_def)
  qed
  have j: "joined_blocks (xs @ zs)"
    using ok by (cases ys) (auto simp: smem_ok_def zs_def joined_append)
  have lf: "lfree m = of_nat o' \<longleftrightarrow> list_all snd xs"
    using first_free_at [OF l] ok unfolding smem_ok_def o'_def by metis
  define m3 where "m3 = m2\<lparr>lfree := of_nat (first_free (xs @ zs))\<rparr>"
  have skip: "(if of_nat o' = lfree m2 then
       (case smem_skip_used m2 of None \<Rightarrow> None
        | Some m \<Rightarrow> Some (if lfree m = heap_end m \<or> \<not> MEM_ISUSED m (lfree m) then Inr m else Inl AssertFailed))
      else Some (Inr m2)) = Some (Inr m3)"
  proof (cases "list_all snd xs")
    case True
    then have "lfree m2 = of_nat (extent xs)" using lf f1 by (simp add: o'_def)
    from smem_skip_used_ok [OF l2 this] True have s: "smem_skip_used m2 = Some m3"
      by (simp add: m3_def first_free_append)
    have "lfree m3 = heap_end m3 \<or> \<not> MEM_ISUSED m3 (lfree m3)"
      by (rule lfree_is_free [where bs = "xs @ zs"]) (use l2 in \<open>simp_all add: m3_def\<close>)
    then show ?thesis using True lf f1 s by simp
  next
    case False
    then have "of_nat o' \<noteq> lfree m2" using lf f1 by auto
    moreover have "m3 = m2" using ok f1 False by (simp add: m3_def smem_ok_def first_free_append)
    ultimately show ?thesis by simp
  qed
  have "smem_ok m3 (xs @ zs)" using l2 u1 j by (simp add: smem_ok_def m3_def)
  moreover have "changes_in o' k m m3" using ch by (simp add: changes_in_def m3_def)
  moreover have "smem_take sz (of_nat o') m = Some (Inr (Some (heap_ptr m + of_nat o' + SIZEOF_STRUCT_MEM), m3))"
  proof -
    have h: "heap_ptr m3 = heap_ptr m" "heap_end m3 = heap_end m" using ch by (simp_all add: changes_in_def m3_def)
    show ?thesis
      unfolding smem_take_def room m1_def [symmetric] Let_def m2_def [symmetric] skip
      using aligned_address(1-3) [OF l fit] by (simp add: h o'_def)
  qed
  ultimately show thesis using that unfolding zs_def big_def o'_def by blast
qed

section \<open>Allocation\<close>

text \<open>The number of bytes an allocation of \<open>sz\<close> bytes looks for.\<close>

definition request :: "u32 \<Rightarrow> nat" where
  "request sz = max 12 (unat (RT_ALIGN sz 4))"

lemma request_dvd: "4 dvd request sz"
  using RT_ALIGN_dvd [of sz] by (simp add: request_def max_def)

lemma smem_alloc_ok:
  assumes ok: "smem_ok m bs" and sz: "sz \<noteq> 0"
  shows "case first_fit (request sz) bs of
       None \<Rightarrow> rt_smem_alloc m sz = Some (Inr (None, m))
     | Some o' \<Rightarrow> \<exists>m' k. rt_smem_alloc m sz = Some (Inr (Some (heap_ptr m + of_nat o' + SIZEOF_STRUCT_MEM), m')) \<and>
         smem_ok m' (place (request sz) bs) \<and> changes_in o' k m m' \<and> (\<exists>xs ys. bs = xs @ (k, False) # ys \<and> extent xs = o')"
proof -
  let ?n = "RT_ALIGN sz 4"
  note e = smem_bounds [OF smem_okD [OF ok]]
  define n where "n = (if ?n < MIN_SIZE_ALIGNED then MIN_SIZE_ALIGNED else ?n)"
  have n: "unat n = request sz" by (simp add: n_def request_def MIN_SIZE_ALIGNED_def word_less_nat_alt max_def)
  show ?thesis
  proof (cases "?n > mem_size_aligned m")
    case True
    then have "extent bs - 12 < request sz" using e(2) by (auto simp: word_less_nat_alt request_def)
    then have "first_fit (request sz) bs = None"
      using first_fit_extent [of "request sz" bs] by (cases "first_fit (request sz) bs") auto
    then show ?thesis using True sz by (simp add: rt_smem_alloc_def Let_def)
  next
    case False
    then have lim: "unat n + 12 \<le> extent bs" using e(2,5) by (auto simp: n word_less_nat_alt request_def not_less max_def)
    have alloc: "rt_smem_alloc m sz = (case smem_find n m (lfree m) of None \<Rightarrow> None
         | Some None \<Rightarrow> Some (Inr (None, m)) | Some (Some ptr) \<Rightarrow> smem_take n ptr m)"
      using False sz unfolding rt_smem_alloc_def Let_def n_def by simp
    note f = smem_find_first [OF ok lim]
    show ?thesis
    proof (cases "first_fit (request sz) bs")
      case None
      then show ?thesis using alloc f n by simp
    next
      case (Some o')
      from first_fit_Some [OF this] obtain xs k ys where x: "bs = xs @ (k, False) # ys" "extent xs = o'" "request sz + 12 \<le> k"
        "place (request sz) bs = xs @ (if request sz + 36 \<le> k then (request sz + 12, True) # (k - request sz - 12, False) # ys else (k, True) # ys)"
        by blast
      obtain m' where m': "smem_take n (of_nat (extent xs)) m = Some (Inr (Some (heap_ptr m + of_nat (extent xs) + SIZEOF_STRUCT_MEM), m'))"
        "smem_ok m' (xs @ (if unat n + 36 \<le> k then (unat n + 12, True) # (k - unat n - 12, False) # ys else (k, True) # ys))"
        "changes_in (extent xs) k m m'"
      proof (rule smem_take_ok [OF ok [unfolded x(1)], of n])
        show "4 dvd unat n" using request_dvd n by simp
        show "12 \<le> unat n" unfolding n by (simp add: request_def)
      qed (use x(3) n in auto)
      have "rt_smem_alloc m sz = Some (Inr (Some (heap_ptr m + of_nat o' + SIZEOF_STRUCT_MEM), m'))"
        using alloc f Some m'(1) n x(2) by simp
      moreover have "smem_ok m' (place (request sz) bs)" "changes_in o' k m m'" using m'(2,3) unfolding n x(4) x(2) by simp_all
      ultimately show ?thesis using Some x(1,2) by auto
    qed
  qed
qed

section \<open>Freeing\<close>

text \<open>The block at offset \<open>o'\<close> becomes free; free neighbours melt into one block.\<close>

fun give :: "nat \<Rightarrow> blocks \<Rightarrow> blocks" where
  "give o' [] = []"
| "give o' ((k, u) # bs) = (if o' = 0 then (k, False) # bs else (k, u) # give (o' - k) bs)"

fun melt :: "blocks \<Rightarrow> blocks" where
  "melt ((n, False) # (k, False) # bs) = melt ((n + k, False) # bs)"
| "melt (b # bs) = b # melt bs"
| "melt [] = []"

lemma joined_tail: "joined_blocks (b # bs) \<Longrightarrow> joined_blocks bs"
  by (cases bs) auto

lemma melt_joined: "joined_blocks bs \<Longrightarrow> melt bs = bs"
  by (induction bs rule: melt.induct) (auto dest: joined_tail)

lemma melt_single: "snd b \<or> (\<exists>k ys. zs = (k, True) # ys) \<Longrightarrow> melt (b # zs) = b # melt zs"
  by (cases b; cases "snd b"; cases zs) auto

lemma melt_append:
  assumes "joined_blocks xs" and "xs = [] \<or> snd (last xs) \<or> (\<exists>k ys. zs = (k, True) # ys)"
  shows "melt (xs @ zs) = xs @ melt zs"
  using assms
proof (induction xs rule: joined_blocks.induct)
  case (1 b c bs)
  then show ?case by (cases b; cases c; cases "snd b") auto
next
  case "2_2"
  then show ?case using melt_single by auto
qed simp

fun ahead :: "nat \<Rightarrow> blocks \<Rightarrow> nat \<times> blocks" where
  "ahead n ((k, False) # ys) = (n + k, ys)"
| "ahead n ys = (n, ys)"

lemma melt_ahead: "joined_blocks ys \<Longrightarrow> ahead n ys = (n', zs) \<Longrightarrow> melt ((n, False) # ys) = (n', False) # zs"
proof (induction n ys rule: ahead.induct)
  case (1 n k ys)
  then have "joined_blocks ys" "ys = [] \<or> snd (hd ys)" using joined_tail by (cases ys; auto)+
  then show ?case using 1 melt_joined [of ys] by (cases ys rule: melt.cases) auto
qed (auto simp: melt_joined dest: joined_tail)

lemma ahead_extent: "ahead n ys = (n', zs) \<Longrightarrow> n' + extent zs = n + extent ys \<and> n \<le> n' \<and> used_bytes zs = used_bytes ys"
  by (induction n ys rule: ahead.induct) auto

lemma plug_forward_ok:
  assumes l: "smem_lay m (xs @ (n, False) # ys)" and lf: "lfree m = of_nat (first_free (xs @ (n, False) # ys))"
    and a: "ahead n ys = (n', zs)"
  shows "smem_lay (plug_forward (of_nat (extent xs)) m) (xs @ (n', False) # zs)"
    and "lfree (plug_forward (of_nat (extent xs)) m) = lfree m" and "mem_used (plug_forward (of_nat (extent xs)) m) = mem_used m"
    and "changes_in (extent xs) n' m (plug_forward (of_nat (extent xs)) m)"
    and "heap_end (plug_forward (of_nat (extent xs)) m) = heap_end m"
proof -
  define o' where "o' = extent xs"
  note b = smem_block [OF l, folded o'_def] and p = smem_lay_parts [OF l, folded o'_def] and e = smem_bounds [OF l]
  have stay: "plug_forward (of_nat o') m = m \<and> n' = n \<and> zs = ys" if last: "ys = [] \<or> snd (hd ys)"
  proof (cases ys)
    case Nil
    then have "item_next m (of_nat o') = heap_end m" using b(2) e(3) by (simp add: o'_def)
    then show ?thesis using Nil a by (simp add: plug_forward_def)
  next
    case (Cons y ys')
    then obtain k where y: "ys = (k, True) # ys'" using last Cons by (cases y) auto
    have "MEM_ISUSED m (of_nat (extent (xs @ [(n, False)])))"
      using smem_block(4) [of m "xs @ [(n, False)]" k True ys'] l by (simp add: y)
    then show ?thesis using y a b(2) by (simp add: plug_forward_def o'_def)
  qed
  have all: "smem_lay (plug_forward (of_nat o') m) (xs @ (n', False) # zs) \<and> lfree (plug_forward (of_nat o') m) = lfree m \<and>
     mem_used (plug_forward (of_nat o') m) = mem_used m \<and> changes_in o' n' m (plug_forward (of_nat o') m) \<and>
     heap_end (plug_forward (of_nat o') m) = heap_end m"
  proof (cases "ys = [] \<or> snd (hd ys)")
    case True
    then show ?thesis using stay l by (simp add: changes_in_def)
  next
    case False
    then obtain k ys' where y: "ys = (k, False) # ys'" by (cases ys) auto
    then have r: "n' = n + k" "zs = ys'" using a by simp_all
    have l1: "smem_lay m ((xs @ [(n, False)]) @ (k, False) # ys')" using l by (simp add: y)
    note b1 = smem_block [OF l1] and p1 = smem_lay_parts [OF l1]
    have x1: "extent (xs @ [(n, False)]) = o' + n" by (simp add: o'_def)
    have ne: "of_nat o' \<noteq> (of_nat (o' + n) :: u32)" "of_nat (o' + n) \<noteq> heap_end m"
      unfolding e(3) using off_inj [of o' "o' + n"] off_inj [of "o' + n" "extent (xs @ (n, False) # ys)"] b(6,8) b1(6,8) e(1)
      by (simp_all add: y o'_def del: of_nat_add)
    have lo: "first_free (xs @ (n, False) # ys) \<le> o'" using first_free_le [of xs] by (simp add: first_free_append o'_def)
    have nl: "lfree m \<noteq> of_nat (o' + n)"
      unfolding lf using off_inj [of "first_free (xs @ (n, False) # ys)" "o' + n"] lo b(6,8) by (simp del: of_nat_add)
    define h where "h = (heap m)(o' + n := 0, o' + 4 := of_nat (o' + n + k), o' + n + k + 8 := of_nat o')"
    have pf: "plug_forward (of_nat o') m = m\<lparr>heap := h\<rparr>"
      using ne nl b(2,6,8,9,10) b1(2,4,9,10) b1(6,8) unfolding x1 plug_forward_def h_def
      by (simp add: item_defs Let_def del: of_nat_add)
    have out: "h x = heap m x" if "x < o' \<or> o' + n + k \<le> x \<and> x \<noteq> o' + n + k + 8" for x
      using that b(6) b1(6) by (auto simp: h_def)
    have "lay h (mem_addr m) 0 0 xs" by (rule lay_frame [OF p(1)]) (use out in \<open>simp add: o'_def\<close>)
    moreover have "lay h (mem_addr m) o' (o' + n + k) ys'"
      by (rule lay_reprev [OF p1(2) [unfolded x1]]) (use out b(6) b1(6) in \<open>auto simp: h_def\<close>)
    moreover have "h o' = heap m o'" "h (o' + 4) = of_nat (o' + n + k)" "h (o' + 8) = heap m (o' + 8)"
      using b(6) b1(6) by (auto simp: h_def)
    ultimately have "lay h (mem_addr m) 0 0 (xs @ (n + k, False) # ys')"
      using p(3,5-7) b1(7) by (simp add: lay_append o'_def [symmetric] add.assoc)
    moreover have "extent ys' \<noteq> 8" using lay_prev [OF p1(2)] by (cases "ys' = []") auto
    ultimately have "smem_lay (m\<lparr>heap := h\<rparr>) (xs @ (n + k, False) # ys')"
      by (intro smem_lay_change [OF l]) (use out [of "extent (xs @ (n, False) # ys)"] in \<open>auto simp: y o'_def\<close>)
    then show ?thesis using out unfolding pf by (auto simp: r changes_in_def add.assoc)
  qed
  then show "smem_lay (plug_forward (of_nat (extent xs)) m) (xs @ (n', False) # zs)"
    and "lfree (plug_forward (of_nat (extent xs)) m) = lfree m" and "mem_used (plug_forward (of_nat (extent xs)) m) = mem_used m"
    and "changes_in (extent xs) n' m (plug_forward (of_nat (extent xs)) m)"
    and "heap_end (plug_forward (of_nat (extent xs)) m) = heap_end m"
    unfolding o'_def by simp_all
qed

lemma plug_backward_ok:
  assumes l: "smem_lay m (xs @ (j, False) # (n, False) # zs)"
    and lf: "lfree m = of_nat (first_free (xs @ (j, False) # (n, False) # zs))"
  shows "smem_lay (plug_backward (of_nat (extent xs + j)) m) (xs @ (j + n, False) # zs)"
    and "lfree (plug_backward (of_nat (extent xs + j)) m) = lfree m" and "mem_used (plug_backward (of_nat (extent xs + j)) m) = mem_used m"
    and "changes_in (extent xs) (j + n) m (plug_backward (of_nat (extent xs + j)) m)"
    and "\<not> MEM_ISUSED (plug_backward (of_nat (extent xs + j)) m) (of_nat (extent xs + j))"
proof -
  define o' where "o' = extent xs"
  note b = smem_block [OF l, folded o'_def] and p = smem_lay_parts [OF l, folded o'_def] and e = smem_bounds [OF l]
  have l1: "smem_lay m ((xs @ [(j, False)]) @ (n, False) # zs)" using l by simp
  have x1: "extent (xs @ [(j, False)]) = o' + j" by (simp add: o'_def)
  note b1 = smem_block [OF l1, unfolded x1] and p1 = smem_lay_parts [OF l1, unfolded x1]
  have pv: "prev_of 0 0 (xs @ [(j, False)]) = o'" by (simp add: o'_def)
  have ne: "of_nat o' \<noteq> (of_nat (o' + j) :: u32)" using off_inj [of o' "o' + j"] b(6,8) by (simp del: of_nat_add)
  have lo: "first_free (xs @ (j, False) # (n, False) # zs) \<le> o'" using first_free_le [of xs] by (simp add: first_free_append o'_def)
  have nl: "lfree m \<noteq> of_nat (o' + j)"
    unfolding lf using off_inj [of "first_free (xs @ (j, False) # (n, False) # zs)" "o' + j"] lo b(6,8) by (simp del: of_nat_add)
  define h where "h = (heap m)(o' + j := 0, o' + 4 := of_nat (o' + j + n), o' + j + n + 8 := of_nat o')"
  have pf: "plug_backward (of_nat (o' + j)) m = m\<lparr>heap := h\<rparr>"
    using ne nl b(4,6,8-10) b1(2,3,6,8-10) unfolding pv plug_backward_def h_def
    by (simp add: item_defs Let_def del: of_nat_add)
  have out: "h x = heap m x" if "x < o' \<or> o' + j + n \<le> x \<and> x \<noteq> o' + j + n + 8" for x
    using that b(6) b1(6) by (auto simp: h_def)
  have "h (o' + j) = 0" using b(6) b1(6) by (simp add: h_def)
  then have gone: "\<not> MEM_ISUSED (m\<lparr>heap := h\<rparr>) (of_nat (o' + j))" using b(10) by (simp add: MEM_ISUSED_def item_pool_def)
  have "lay h (mem_addr m) 0 0 xs" by (rule lay_frame [OF p(1)]) (use out in \<open>simp add: o'_def\<close>)
  moreover have "lay h (mem_addr m) o' (o' + j + n) zs"
    by (rule lay_reprev [OF p1(2)]) (use out b(6) b1(6) in \<open>auto simp: h_def\<close>)
  moreover have "h o' = heap m o'" "h (o' + 4) = of_nat (o' + j + n)" "h (o' + 8) = heap m (o' + 8)"
    using b(6) b1(6) by (auto simp: h_def)
  ultimately have "lay h (mem_addr m) 0 0 (xs @ (j + n, False) # zs)"
    using p(3,5-7) b1(7) by (simp add: lay_append o'_def [symmetric] add.assoc)
  moreover have "extent zs \<noteq> 8" using lay_prev [OF p1(2)] by (cases "zs = []") auto
  ultimately have "smem_lay (m\<lparr>heap := h\<rparr>) (xs @ (j + n, False) # zs)"
    by (intro smem_lay_change [OF l]) (use out [of "extent (xs @ (j, False) # (n, False) # zs)"] in \<open>auto simp: o'_def\<close>)
  then show "smem_lay (plug_backward (of_nat (extent xs + j)) m) (xs @ (j + n, False) # zs)"
    and "lfree (plug_backward (of_nat (extent xs + j)) m) = lfree m" and "mem_used (plug_backward (of_nat (extent xs + j)) m) = mem_used m"
    and "changes_in (extent xs) (j + n) m (plug_backward (of_nat (extent xs + j)) m)"
    and "\<not> MEM_ISUSED (plug_backward (of_nat (extent xs + j)) m) (of_nat (extent xs + j))"
    using out gone unfolding o'_def [symmetric] pf by (auto simp: changes_in_def add.assoc)
qed


lemma ahead_plus: "ahead n ys = (n', zs) \<Longrightarrow> ahead (j + n) ys = (j + n', zs)"
  by (induction n ys rule: ahead.induct) auto

lemma joined_used [simp]: "joined_blocks ((n, True) # bs) = joined_blocks bs"
  by (cases bs) auto

lemma joined_melt: "joined_blocks (melt bs)"
  by (induction bs rule: melt.induct) auto

text \<open>The used blocks, with their offsets.\<close>

fun used_list :: "nat \<Rightarrow> blocks \<Rightarrow> (nat \<times> nat) list" where
  "used_list p [] = []"
| "used_list p ((n, u) # bs) = (if u then [(p, n)] else []) @ used_list (p + n) bs"

lemma used_list_append: "used_list p (xs @ ys) = used_list p xs @ used_list (p + extent xs) ys"
  by (induction xs arbitrary: p rule: used_bytes.induct) (auto simp: add.assoc)

lemma melt_keeps: "extent (melt bs) = extent bs" "used_bytes (melt bs) = used_bytes bs" "first_free (melt bs) = first_free bs"
  by (induction bs rule: melt.induct) auto

lemma melt_used_list: "used_list p (melt bs) = used_list p bs"
  by (induction bs arbitrary: p rule: melt.induct) (auto simp: add.assoc [symmetric])

lemma plug_holes_ok:
  assumes l: "smem_lay m (xs @ (n, False) # ys)" and lf: "lfree m = of_nat (first_free (xs @ (n, False) # ys))"
    and j: "joined_blocks xs" "joined_blocks ys"
  obtains m' us k vs where "plug_holes m (of_nat (extent xs)) = Inr m'" "smem_lay m' (melt (xs @ (n, False) # ys))"
    "lfree m' = lfree m" "mem_used m' = mem_used m" "changes_in (extent us) k m m'"
    "melt (xs @ (n, False) # ys) = us @ (k, False) # vs"
    "extent us \<le> extent xs" "extent xs + n \<le> extent us + k" "\<not> MEM_ISUSED m' (of_nat (extent xs))"
proof -
  obtain n' zs where a: "ahead n ys = (n', zs)" by fastforce
  define m1 where "m1 = plug_forward (of_nat (extent xs)) m"
  note fw = plug_forward_ok [OF l lf a, folded m1_def]
  note b = smem_block [OF l] and b1 = smem_block [OF fw(1)]
  have g: "of_nat (extent xs) < heap_end m"
    unfolding smem_bounds(3) [OF l] using off_less [of "extent xs" "extent (xs @ (n, False) # ys)"] smem_bounds(1) [OF l] b(6) by simp
  then have ph: "plug_holes m (of_nat (extent xs)) = Inr (plug_backward (of_nat (extent xs)) m1)"
    by (simp add: plug_holes_def m1_def)
  show thesis
  proof (cases "xs = [] \<or> snd (last xs)")
    case True
    have "plug_backward (of_nat (extent xs)) m1 = m1"
    proof (cases xs rule: rev_cases)
      case Nil
      then show ?thesis using b1(3) by (simp add: plug_backward_def)
    next
      case (snoc ws w)
      then obtain j where w: "xs = ws @ [(j, True)]" using True by (cases w) auto
      have "smem_lay m1 (ws @ (j, True) # (n', False) # zs)" using fw(1) by (simp add: w)
      from smem_block(4) [OF this] show ?thesis using b1(3) by (simp add: plug_backward_def w)
    qed
    moreover have "melt (xs @ (n, False) # ys) = xs @ (n', False) # zs"
      using melt_append [OF j(1), of "(n, False) # ys"] True melt_ahead [OF j(2) a] by auto
    ultimately show thesis using that [of m1 xs n' zs] ph fw ahead_extent [OF a] b1(4) by simp
  next
    case False
    then obtain ws j' where w: "xs = ws @ [(j', False)]" by (cases xs rule: rev_cases) auto
    have l2: "smem_lay m1 (ws @ (j', False) # (n', False) # zs)" using fw(1) by (simp add: w)
    have f2: "lfree m1 = of_nat (first_free (ws @ (j', False) # (n', False) # zs))"
      using fw(2) lf by (simp add: w first_free_append)
    note bw = plug_backward_ok [OF l2 f2]
    have ww: "joined_blocks ws" "ws = [] \<or> snd (last ws)" using j(1) by (auto simp: w joined_append)
    have "melt (xs @ (n, False) # ys) = ws @ melt ((j' + n, False) # ys)"
      using melt_append [OF ww(1), of "(j', False) # (n, False) # ys"] ww(2) by (auto simp: w)
    also have "\<dots> = ws @ (j' + n', False) # zs" using melt_ahead [OF j(2) ahead_plus [OF a]] by simp
    finally have m: "melt (xs @ (n, False) # ys) = ws @ (j' + n', False) # zs" .
    have "changes_in (extent ws) (j' + n') m (plug_backward (of_nat (extent xs)) m1)"
      using fw(4) bw(4) by (auto simp: changes_in_def w)
    then show thesis using that [of "plug_backward (of_nat (extent xs)) m1" ws "j' + n'" zs] ph fw bw m ahead_extent [OF a] by (simp add: w)
  qed
qed

section \<open>rt_smem_free\<close>

lemma give_at: "lay h a q p xs \<Longrightarrow> give (extent xs) (xs @ (n, u) # ys) = xs @ (n, False) # ys"
  by (induction xs arbitrary: q p) auto

lemma smem_free_ok:
  assumes ok: "smem_ok m (xs @ (n, True) # ys)"
  obtains m' us k vs where "rt_smem_free m (Some (heap_ptr m + of_nat (extent xs) + SIZEOF_STRUCT_MEM)) = Inr m'"
    "smem_ok m' (melt (xs @ (n, False) # ys))" "changes_in (extent us) k m m'"
    "melt (xs @ (n, False) # ys) = us @ (k, False) # vs" "extent us \<le> extent xs" "extent xs + n \<le> extent us + k"
    "\<not> MEM_ISUSED m' (of_nat (extent xs))"
proof -
  define p :: u32 where "p = of_nat (extent xs)"
  define a where "a = heap_ptr m + p + SIZEOF_STRUCT_MEM"
  note l = smem_okD [OF ok]
  note b = smem_block [OF l] and ad = aligned_address [OF l, of 0]
  have j: "joined_blocks xs" "joined_blocks ys" using ok joined_tail by (auto simp: smem_ok_def joined_append)
  have mem: "a - SIZEOF_STRUCT_MEM - heap_ptr m = p" by (simp add: a_def)
  have pool: "MEM_POOL m (item_next m p) = mem_addr m"
  proof (cases ys)
    case Nil
    then have "item_next m p = heap_end m" using b(2) smem_bounds(3) [OF l] by (simp add: p_def)
    then show ?thesis using smem_sentinel(2) [OF l] by simp
  next
    case (Cons y ys')
    obtain k v where y: "y = (k, v)" by fastforce
    have "smem_lay m ((xs @ [(n, True)]) @ (k, v) # ys')" using l by (simp add: Cons y)
    from smem_block(5) [OF this] show ?thesis using b(2) by (simp add: p_def)
  qed
  have rng: "heap_ptr m \<le> a" "a < heap_ptr m + heap_end m"
  proof -
    have u: "unat a = unat (heap_ptr m) + extent xs + 12" using ad(4) b(6) by (simp add: a_def p_def)
    have e: "heap_ptr m + heap_end m = of_nat (unat (heap_ptr m) + extent (xs @ (n, True) # ys))"
      using smem_bounds(3) [OF l] by simp
    have lim: "unat (heap_ptr m) + extent (xs @ (n, True) # ys) < 4294967296" using l by (simp add: smem_lay_def)
    have "unat (heap_ptr m + heap_end m) = unat (heap_ptr m) + extent (xs @ (n, True) # ys)"
      unfolding e by (rule off_word [OF lim])
    then show "a < heap_ptr m + heap_end m" using u b(6) by (simp add: word_less_nat_alt)
    show "heap_ptr m \<le> a" using u by (simp add: word_le_nat_alt)
  qed
  define m1 where "m1 = set_item_pool p (MEM_FREED m) m"
  define m2 where "m2 = (if p < lfree m1 then m1\<lparr>lfree := p\<rparr> else m1)"
  define m3 where "m3 = m2\<lparr>mem_used := mem_used m2 - (item_next m2 p - p)\<rparr>"
  have l1: "smem_lay m1 (xs @ (n, False) # ys)" using smem_lay_used [OF l, of False] by (simp add: m1_def p_def)
  then have l3: "smem_lay m3 (xs @ (n, False) # ys)" by (simp add: m3_def m2_def)
  have ff: "first_free (xs @ (n, True) # ys) < 4294967296"
    using first_free_le [of "xs @ (n, True) # ys"] smem_bounds(1) [OF l] by linarith
  have lf: "lfree m3 = of_nat (first_free (xs @ (n, False) # ys))"
  proof -
    have "lfree m1 = of_nat (first_free (xs @ (n, True) # ys))" using ok by (simp add: m1_def smem_ok_def)
    moreover have "p < of_nat (first_free (xs @ (n, True) # ys)) \<longleftrightarrow> extent xs < first_free (xs @ (n, True) # ys)"
      unfolding p_def by (rule off_less) (use b(8) ff in simp_all)
    ultimately show ?thesis
      using b(6) first_free_le [of xs] by (auto simp: m3_def m2_def first_free_append p_def)
  qed
  obtain m' us k vs where ph: "plug_holes m3 p = Inr m'" "smem_lay m' (melt (xs @ (n, False) # ys))" "lfree m' = lfree m3"
    "mem_used m' = mem_used m3" "changes_in (extent us) k m3 m'" "melt (xs @ (n, False) # ys) = us @ (k, False) # vs"
    "extent us \<le> extent xs" "extent xs + n \<le> extent us + k" "\<not> MEM_ISUSED m' (of_nat (extent xs))"
    unfolding p_def by (rule plug_holes_ok [OF l3 lf j])
  have "mem_used m3 = of_nat (used_bytes (xs @ (n, False) # ys))"
  proof -
    have "item_next m2 p - p = of_nat n" using smem_block(2) [OF l3] by (simp add: m3_def p_def item_defs)
    then show ?thesis using ok by (simp add: m3_def m2_def m1_def smem_ok_def)
  qed
  then have "smem_ok m' (melt (xs @ (n, False) # ys))"
    using ph(2-4) lf by (simp add: smem_ok_def joined_melt melt_keeps del: of_nat_add)
  moreover have "changes_in (extent us) k m m'"
    using ph(5,7,8) b(6,9) by (auto simp: changes_in_def m3_def m2_def m1_def item_defs p_def)
  moreover have "rt_smem_free m (Some a) = Inr m'"
  proof -
    have "a AND 3 = 0" using ad(5) b(6) by (simp add: a_def p_def)
    moreover have "MEM_POOL m p = mem_addr m" "MEM_ISUSED m p" using b(4,5) by (simp_all add: p_def)
    ultimately show ?thesis
      using pool rng ph(1) unfolding rt_smem_free_def option.case mem Let_def m1_def [symmetric] m2_def [symmetric] m3_def [symmetric]
      by simp
  qed
  ultimately show thesis using that [of m' us k vs] ph(6-9) by (simp add: a_def p_def)
qed


section \<open>What the operations do to the used blocks\<close>

text \<open>The data of these blocks is untouched.\<close>

definition same_data :: "small_mem \<Rightarrow> small_mem \<Rightarrow> (nat \<times> nat) list \<Rightarrow> bool" where
  "same_data m m' us \<longleftrightarrow> heap_ptr m' = heap_ptr m \<and> mem_addr m' = mem_addr m \<and> heap_end m' = heap_end m \<and>
     (\<forall>(p, k) \<in> set us. \<forall>x. p + 12 \<le> x \<and> x < p + k \<longrightarrow> heap m' x = heap m x)"

lemma same_dataD: "same_data m m' us \<Longrightarrow> (p, k) \<in> set us \<Longrightarrow> p + 12 \<le> x \<Longrightarrow> x < p + k \<Longrightarrow> heap m' x = heap m x"
  by (auto simp: same_data_def)

lemma same_data_sel: "same_data m m' us \<Longrightarrow> heap_ptr m' = heap_ptr m \<and> mem_addr m' = mem_addr m \<and> heap_end m' = heap_end m"
  by (simp add: same_data_def)

lemma same_data_trans: "same_data m m' us \<Longrightarrow> same_data m' m'' us \<Longrightarrow> same_data m m'' us"
  by (fastforce simp: same_data_def)

lemma same_data_subset: "same_data m m' us \<Longrightarrow> set vs \<subseteq> set us \<Longrightarrow> same_data m m' vs"
  unfolding same_data_def by blast

lemma used_list_bound:
  assumes "lay h a q p bs" and "(o', k) \<in> set (used_list p bs)"
  shows "p \<le> o' \<and> o' + k \<le> p + extent bs \<and> 12 < k \<and> 4 dvd k \<and> 4 dvd o' - p"
  using assms
proof (induction bs arbitrary: q p)
  case (Cons b bs)
  obtain n u where b: "b = (n, u)" by fastforce
  show ?case
  proof (cases "(o', k) \<in> set (used_list (p + n) bs)")
    case True
    then have i: "p + n \<le> o' \<and> o' + k \<le> p + n + extent bs \<and> 12 < k \<and> 4 dvd k \<and> 4 dvd o' - (p + n)"
      by (rule Cons.IH [rotated, where q = p]) (use Cons.prems(1) b in simp)
    moreover have "4 dvd n" using Cons.prems(1) b by simp
    ultimately have "4 dvd (o' - (p + n)) + n" by (blast intro: dvd_add)
    moreover have "o' - p = (o' - (p + n)) + n" using i by linarith
    ultimately have "4 dvd o' - p" by (simp only:)
    then show ?thesis using i by (simp add: b)
  qed (use Cons.prems b in \<open>auto split: if_splits\<close>)
qed simp

lemma changes_same_data:
  assumes l: "smem_lay w (xs @ (k, u) # ys)" and c: "changes_in (extent xs) k m m'"
  shows "same_data m m' (used_list 0 xs @ used_list (extent xs + k) ys)"
proof -
  note p = smem_lay_parts [OF l]
  have "heap m' x = heap m x"
    if "(o', j) \<in> set (used_list 0 xs) \<or> (o', j) \<in> set (used_list (extent xs + k) ys)" "o' + 12 \<le> x" "x < o' + j" for o' j x
    using that c used_list_bound [OF p(1), of o' j] used_list_bound [OF p(2), of o' j] by (fastforce simp: changes_in_def)
  then show ?thesis using c by (auto simp: same_data_def changes_in_def)
qed

lemma smem_alloc_used:
  assumes ok: "smem_ok m bs" and sz: "sz \<noteq> 0"
  obtains "first_fit (request sz) bs = None" "rt_smem_alloc m sz = Some (Inr (None, m))"
  | m' us vs o' k where "first_fit (request sz) bs = Some o'"
      "rt_smem_alloc m sz = Some (Inr (Some (heap_ptr m + of_nat o' + SIZEOF_STRUCT_MEM), m'))"
      "smem_ok m' (place (request sz) bs)" "used_list 0 bs = us @ vs" "used_list 0 (place (request sz) bs) = us @ (o', k) # vs"
      "request sz + 12 \<le> k" "same_data m m' (us @ vs)"
proof (cases "first_fit (request sz) bs")
  case None
  then show thesis using that(1) smem_alloc_ok [OF ok sz] by simp
next
  case (Some o')
  from first_fit_Some [OF this] obtain xs k ys where x: "bs = xs @ (k, False) # ys" "extent xs = o'" "request sz + 12 \<le> k"
    "place (request sz) bs = xs @ (if request sz + 36 \<le> k then (request sz + 12, True) # (k - request sz - 12, False) # ys else (k, True) # ys)"
    by blast
  obtain m' k' where m': "rt_smem_alloc m sz = Some (Inr (Some (heap_ptr m + of_nat o' + SIZEOF_STRUCT_MEM), m'))"
    "smem_ok m' (place (request sz) bs)" "changes_in o' k' m m'" "\<exists>xs ys. bs = xs @ (k', False) # ys \<and> extent xs = o'"
    using smem_alloc_ok [OF ok sz] Some by auto
  obtain ws zs where w: "bs = ws @ (k', False) # zs" "extent ws = o'" using m'(4) by blast
  have "smem_lay m (ws @ (k', False) # zs)" using smem_okD [OF ok] w(1) by simp
  from changes_same_data [OF this, of m m'] have "same_data m m' (used_list 0 ws @ used_list (o' + k') zs)"
    using m'(3) w(2) by simp
  then have s: "same_data m m' (used_list 0 bs)" by (simp add: w used_list_append)
  let ?n = "if request sz + 36 \<le> k then request sz + 12 else k"
  have "used_list 0 (place (request sz) bs) = used_list 0 xs @ (o', ?n) # used_list (o' + k) ys"
    using x(2,3) by (simp add: x(4) used_list_append)
  moreover have "used_list 0 bs = used_list 0 xs @ used_list (o' + k) ys" using x(2) by (simp add: x(1) used_list_append)
  ultimately show thesis using that(2) [OF Some m'(1,2)] s x(3) by simp
qed

lemma used_list_split:
  "used_list q bs = us @ (p, k) # vs \<Longrightarrow> \<exists>xs ys. bs = xs @ (k, True) # ys \<and> q + extent xs = p \<and>
     us = used_list q xs \<and> vs = used_list (p + k) ys"
proof (induction bs arbitrary: q us)
  case (Cons b bs)
  obtain n u where b: "b = (n, u)" by fastforce
  have rec: "?case" if "used_list (q + n) bs = ws @ (p, k) # vs" "us = (if u then [(q, n)] else []) @ ws" for ws
  proof -
    from Cons.IH [OF that(1)] obtain xs ys where "bs = xs @ (k, True) # ys" "q + n + extent xs = p"
      "ws = used_list (q + n) xs" "vs = used_list (p + k) ys" by blast
    then show ?thesis using that(2) by (rule_tac exI [of _ "(n, u) # xs"], rule_tac exI [of _ ys]) (auto simp: b add.assoc)
  qed
  show ?case
  proof (cases u)
    case False
    then show ?thesis using Cons.prems by (intro rec [of us]) (simp_all add: b)
  next
    case True
    show ?thesis
    proof (cases us)
      case Nil
      then show ?thesis using True Cons.prems by (rule_tac exI [of _ "[]"], rule_tac exI [of _ bs]) (simp add: b)
    next
      case (Cons w ws)
      then show ?thesis using True Cons.prems by (intro rec [of ws]) (simp_all add: b)
    qed
  qed
qed simp

lemma smem_free_used:
  assumes ok: "smem_ok m bs" and u: "used_list 0 bs = us @ (p, k) # vs"
  obtains m' where "rt_smem_free m (Some (heap_ptr m + of_nat p + SIZEOF_STRUCT_MEM)) = Inr m'"
    "smem_ok m' (melt (give p bs))" "used_list 0 (melt (give p bs)) = us @ vs" "same_data m m' (us @ vs)"
proof -
  obtain xs ys where x: "bs = xs @ (k, True) # ys" "extent xs = p" "us = used_list 0 xs" "vs = used_list (p + k) ys"
    using used_list_split [OF u] by auto
  obtain m' ws j zs where f: "rt_smem_free m (Some (heap_ptr m + of_nat (extent xs) + SIZEOF_STRUCT_MEM)) = Inr m'"
    "smem_ok m' (melt (xs @ (k, False) # ys))" "changes_in (extent ws) j m m'" "melt (xs @ (k, False) # ys) = ws @ (j, False) # zs"
    by (rule smem_free_ok [OF ok [unfolded x(1)]])
  have g: "give p bs = xs @ (k, False) # ys"
    using give_at [OF smem_lay_parts(1) [OF smem_okD [OF ok [unfolded x(1)]]], of k True ys] x(1,2) by simp
  have ul: "used_list 0 (melt (give p bs)) = us @ vs" using x(2-4) by (simp add: g melt_used_list used_list_append)
  moreover have "same_data m m' (used_list 0 ws @ used_list (extent ws + j) zs)"
    by (rule changes_same_data [OF _ f(3)]) (use smem_okD [OF f(2)] f(4) in simp)
  moreover have "used_list 0 (melt (give p bs)) = used_list 0 ws @ used_list (extent ws + j) zs"
    unfolding g f(4) by (simp add: used_list_append)
  ultimately show thesis using that [of m'] f(1,2) x(2) g by simp
qed


section \<open>rt_smem_realloc\<close>

lemma realloc_split:
  assumes ok: "smem_ok m (xs @ (n, True) # ys)" and s: "unat s + 36 < n" "4 dvd unat s" "s \<noteq> 0"
  defines "p \<equiv> of_nat (extent xs)" and "cs \<equiv> xs @ (unat s + 12, True) # (n - unat s - 12, False) # ys"
  defines "m1 \<equiv> split_block s p (m\<lparr>mem_used := mem_used m - (of_nat (n - 12) - s)\<rparr>)"
  defines "m2 \<equiv> (if p + SIZEOF_STRUCT_MEM + s < lfree m1 then m1\<lparr>lfree := p + SIZEOF_STRUCT_MEM + s\<rparr> else m1)"
  shows "smem_lay m2 cs" and "lfree m2 = of_nat (first_free cs)" and "mem_used m2 = of_nat (used_bytes cs)"
    and "same_data m m2 (used_list 0 xs @ (extent xs, unat s + 12) # used_list (extent xs + n) ys)"
proof -
  define mu where "mu = m\<lparr>mem_used := mem_used m - (of_nat (n - 12) - s)\<rparr>"
  note l = smem_okD [OF ok]
  have lu: "smem_lay mu (xs @ (n, True) # ys)" using l by (simp add: mu_def)
  have z: "unat s + 36 \<le> n" "unat s \<noteq> 0" using s by (simp_all add: unat_eq_0)
  note sp = split_block_ok [OF lu z(1) s(2) z(2)]
  have m1: "m1 = mu\<lparr>heap := split_heap (extent xs) n (unat s) ys mu\<rparr>" unfolding m1_def p_def mu_def [symmetric] by (rule sp(1))
  have l1: "smem_lay m1 cs" unfolding m1 cs_def by (rule sp(2))
  then show "smem_lay m2 cs" by (simp add: m2_def)
  note b = smem_block [OF l]
  have p2: "p + SIZEOF_STRUCT_MEM + s = of_nat (extent xs + 12 + unat s)" by (simp add: p_def SIZEOF_STRUCT_MEM_def)
  have lf: "lfree m1 = of_nat (first_free (xs @ (n, True) # ys))" using ok by (simp add: m1 mu_def smem_ok_def)
  have ff: "first_free (xs @ (n, True) # ys) < 4294967296"
    using first_free_le [of "xs @ (n, True) # ys"] smem_bounds(1) [OF l] by linarith
  have lt: "p + SIZEOF_STRUCT_MEM + s < lfree m1 \<longleftrightarrow> extent xs + 12 + unat s < first_free (xs @ (n, True) # ys)"
    unfolding lf p2 by (rule off_less) (use b(8) s(1) ff in simp_all)
  have "lfree m2 = of_nat (if list_all snd xs then extent xs + 12 + unat s else first_free xs)"
    unfolding m2_def lt using first_free_le [of xs] s(1) by (auto simp: first_free_append lf p2)
  then show "lfree m2 = of_nat (first_free cs)" by (simp add: cs_def first_free_append add.commute add.left_commute)
  have "of_nat (used_bytes (xs @ (n, True) # ys)) - (of_nat (n - 12) - s) = (of_nat (used_bytes cs) :: u32)"
    using s(1) by (simp add: cs_def of_nat_diff)
  then show "mem_used m2 = of_nat (used_bytes cs)" using ok by (simp add: m2_def m1 mu_def smem_ok_def)
  have c: "changes_in (extent xs) n m m2"
    using s(1) by (auto simp: changes_in_def m2_def m1 mu_def split_heap_def Let_def)
  have "heap m2 x = heap m x" if "extent xs + 12 \<le> x" "x < extent xs + (unat s + 12)" for x
    using that s(1) by (auto simp: m2_def m1 mu_def split_heap_def Let_def)
  then show "same_data m m2 (used_list 0 xs @ (extent xs, unat s + 12) # used_list (extent xs + n) ys)"
    using changes_same_data [OF l c] by (fastforce simp: same_data_def)
qed

lemma smem_shrink_ok:
  assumes ok: "smem_ok m bs" and u: "used_list 0 bs = us @ (p, n) # vs" and s: "unat s + 36 < n" "4 dvd unat s" "s \<noteq> 0"
  defines "pp \<equiv> of_nat p"
  defines "m1 \<equiv> split_block s pp (m\<lparr>mem_used := mem_used m - (of_nat (n - 12) - s)\<rparr>)"
  defines "m2 \<equiv> (if pp + SIZEOF_STRUCT_MEM + s < lfree m1 then m1\<lparr>lfree := pp + SIZEOF_STRUCT_MEM + s\<rparr> else m1)"
  obtains m' cs where "plug_holes m2 (pp + SIZEOF_STRUCT_MEM + s) = Inr m'" "smem_ok m' cs"
    "used_list 0 cs = us @ (p, unat s + 12) # vs" "same_data m m' (us @ (p, unat s + 12) # vs)"
proof -
  obtain xs ys where x: "bs = xs @ (n, True) # ys" "extent xs = p" "us = used_list 0 xs" "vs = used_list (p + n) ys"
    using used_list_split [OF u] by auto
  let ?xs = "xs @ [(unat s + 12, True)]"
  let ?cs = "?xs @ (n - unat s - 12, False) # ys"
  note sp = realloc_split [OF ok [unfolded x(1)] s, unfolded x(2), folded pp_def, folded m1_def, folded m2_def]
  have j: "joined_blocks ?xs" "joined_blocks ys" using ok joined_tail by (auto simp: x(1) smem_ok_def joined_append)
  have p2: "pp + SIZEOF_STRUCT_MEM + s = of_nat (extent ?xs)" using x(2) by (simp add: pp_def SIZEOF_STRUCT_MEM_def)
  obtain m' ws k zs where f: "plug_holes m2 (of_nat (extent ?xs)) = Inr m'" "smem_lay m' (melt ?cs)" "lfree m' = lfree m2"
    "mem_used m' = mem_used m2" "changes_in (extent ws) k m2 m'" "melt ?cs = ws @ (k, False) # zs"
    by (rule plug_holes_ok [of m2 ?xs "n - unat s - 12" ys]) (use sp(1,2) j in simp_all)
  have ok': "smem_ok m' (melt ?cs)"
    using f(2-4) sp(2,3) by (simp add: smem_ok_def joined_melt melt_keeps del: of_nat_add)
  have ul: "used_list 0 (melt ?cs) = us @ (p, unat s + 12) # vs"
    using s(1) x(2-4) by (simp add: melt_used_list used_list_append add.assoc)
  have "same_data m2 m' (used_list 0 ws @ used_list (extent ws + k) zs)"
    by (rule changes_same_data [OF _ f(5)]) (use f(2,6) in simp)
  then have "same_data m2 m' (us @ (p, unat s + 12) # vs)"
    unfolding ul [symmetric] f(6) by (simp add: used_list_append)
  with sp(4) have "same_data m m' (us @ (p, unat s + 12) # vs)"
    unfolding x(3,4) by (rule same_data_trans)
  then show thesis using that [of m' "melt ?cs"] f(1) ok' ul p2 by simp
qed


lemma used_list_disjoint:
  assumes "lay h a 0 0 bs" and "used_list 0 bs = us @ (p, k) # vs" and "(q, j) \<in> set (us @ vs)"
  shows "q + j \<le> p \<or> p + k \<le> q"
proof -
  obtain xs ys where x: "bs = xs @ (k, True) # ys" "extent xs = p" "us = used_list 0 xs" "vs = used_list (p + k) ys"
    using used_list_split [OF assms(2)] by auto
  have l: "lay h a 0 0 xs" "lay h a p (p + k) ys" using assms(1) x(2) by (auto simp: x(1) lay_append)
  show ?thesis using assms(3) used_list_bound [OF l(1), of q j] used_list_bound [OF l(2), of q j] by (auto simp: x(2-4))
qed

text \<open>Writing into the data of a used block.\<close>

lemma smem_ok_data:
  assumes ok: "smem_ok m bs" and u: "used_list 0 bs = us @ (p, k) # vs"
    and h: "\<And>x. x < p + 12 \<or> p + k \<le> x \<Longrightarrow> h x = heap m x"
  shows "smem_ok (m\<lparr>heap := h\<rparr>) bs" and "same_data m (m\<lparr>heap := h\<rparr>) (us @ vs)"
proof -
  obtain xs ys where x: "bs = xs @ (k, True) # ys" "extent xs = p" "us = used_list 0 xs" "vs = used_list (p + k) ys"
    using used_list_split [OF u] by auto
  have l: "smem_lay m (xs @ (k, True) # ys)" using smem_okD [OF ok] x(1) by simp
  note pt = smem_lay_parts [OF l, unfolded x(2)]
  have "lay h (mem_addr m) 0 0 xs" by (rule lay_frame [OF pt(1)]) (use h x(2) in simp)
  moreover have "lay h (mem_addr m) p (p + k) ys" by (rule lay_frame [OF pt(2)]) (use h in simp)
  ultimately have "lay h (mem_addr m) 0 0 (xs @ (k, True) # ys)" using pt(3-7) h by (simp add: lay_append x(2))
  then have "smem_lay (m\<lparr>heap := h\<rparr>) bs" unfolding x(1) by (rule smem_lay_change [OF l]) (use h x(2) in simp_all)
  then show "smem_ok (m\<lparr>heap := h\<rparr>) bs" using ok by (simp add: smem_ok_def)
  show "same_data m (m\<lparr>heap := h\<rparr>) (us @ vs)"
  proof -
    have l0: "lay (heap m) (mem_addr m) 0 0 bs" using l by (simp add: x(1) smem_lay_def)
    have "h y = heap m y" if d: "(o', j) \<in> set (us @ vs)" "o' + 12 \<le> y" "y < o' + j" for o' j y
      by (rule h) (use used_list_disjoint [OF l0 u d(1)] d(2,3) in linarith)
    then show ?thesis by (auto simp: same_data_def)
  qed
qed

lemma request_aligned: "4 dvd unat s \<Longrightarrow> request s = max 12 (unat s)"
proof -
  assume d: "4 dvd unat s"
  have "unat s + 3 < 4294967296"
  proof -
    obtain c where c: "unat s = 4 * c" using d by (auto elim: dvdE)
    then show ?thesis using unat_u32_lt [of s] by presburger
  qed
  moreover have "4 * ((unat s + 3) div 4) = unat s" using d by (auto elim!: dvdE)
  ultimately show ?thesis using RT_ALIGN_value [of s] by (simp add: request_def)
qed

lemma move_block_ok:
  assumes ok: "smem_ok m bs" and u: "used_list 0 bs = us @ (p, n) # vs" and s: "4 dvd unat s" "s \<noteq> 0"
  obtains "first_fit (request s) bs = None"
      "move_block (heap_ptr m + of_nat p + SIZEOF_STRUCT_MEM) (of_nat (n - 12)) s m = Some (Inr (None, m))"
  | m' cs q k where
      "move_block (heap_ptr m + of_nat p + SIZEOF_STRUCT_MEM) (of_nat (n - 12)) s m =
         Some (Inr (Some (heap_ptr m + of_nat q + SIZEOF_STRUCT_MEM), m'))"
      "smem_ok m' cs" "mset (used_list 0 cs) = mset (us @ (q, k) # vs)" "unat s + 12 \<le> k" "same_data m m' (us @ vs)"
      "\<And>x. x + 12 < n \<Longrightarrow> x < unat s \<Longrightarrow> heap m' (q + 12 + x) = heap m (p + 12 + x)"
proof (rule smem_alloc_used [OF ok s(2)])
  assume "first_fit (request s) bs = None" "rt_smem_alloc m s = Some (Inr (None, m))"
  then show thesis using that(1) by (simp add: move_block_def)
next
  fix m1 A B q k
  let ?a = "heap_ptr m + of_nat p + SIZEOF_STRUCT_MEM" and ?b = "heap_ptr m + of_nat q + SIZEOF_STRUCT_MEM"
  assume al: "rt_smem_alloc m s = Some (Inr (Some ?b, m1))" "smem_ok m1 (place (request s) bs)" "used_list 0 bs = A @ B"
    "used_list 0 (place (request s) bs) = A @ (q, k) # B" "request s + 12 \<le> k" "same_data m m1 (A @ B)"
  have k: "unat s + 12 \<le> k" using al(5) request_aligned [OF s(1)] by simp
  have hp: "heap_ptr m1 = heap_ptr m" using same_data_sel [OF al(6)] by simp
  have l1: "lay (heap m1) (mem_addr m1) 0 0 (place (request s) bs)" and e1: "extent (place (request s) bs) < 4294967284"
    using smem_okD [OF al(2)] smem_bounds(1) by (auto simp: smem_lay_def)
  have pn: "(p, n) \<in> set (A @ B)" unfolding al(3) [symmetric] u by simp
  have lim: "q + k < 4294967284" "p + n < 4294967284" "12 < n" "n - 12 < 4294967296"
    using used_list_bound [OF l1, of q k] used_list_bound [OF l1, of p n] pn e1 by (auto simp: al(4))
  define c where "c = unat (if of_nat (n - 12) < s then of_nat (n - 12) else s)"
  have c: "c = min (n - 12) (unat s)" using off_word [OF lim(4)] by (auto simp: c_def word_less_nat_alt simp del: of_nat_diff)
  have d: "unat (?b - heap_ptr m1) = q + 12" "unat (?a - heap_ptr m1) = p + 12"
    using off_word [of "q + 12"] off_word [of "p + 12"] lim k by (simp_all add: hp SIZEOF_STRUCT_MEM_def)
  define h2 where "h2 = heap (copy_words (q + 12) (p + 12) c m1)"
  define m2 where "m2 = m1\<lparr>heap := h2\<rparr>"
  have cw: "copy_words (q + 12) (p + 12) c m1 = m2" by (simp add: m2_def h2_def copy_words_def)
  have h2: "h2 x = heap m1 x" if "x < q + 12 \<or> q + k \<le> x" for x
    using that k c by (auto simp: h2_def copy_words_def)
  have ok2: "smem_ok m2 (place (request s) bs)" and s2: "same_data m1 m2 (A @ B)"
    unfolding m2_def by (rule smem_ok_data [OF al(2,4) h2]; assumption)+
  obtain us' vs' where u2: "used_list 0 (place (request s) bs) = us' @ (p, n) # vs'"
    using pn al(4) by (metis Un_iff in_set_conv_decomp set_append set_ConsD list.set_intros(2))
  obtain m3 where f: "rt_smem_free m2 (Some (heap_ptr m2 + of_nat p + SIZEOF_STRUCT_MEM)) = Inr m3"
    "smem_ok m3 (melt (give p (place (request s) bs)))" "used_list 0 (melt (give p (place (request s) bs))) = us' @ vs'"
    "same_data m2 m3 (us' @ vs')"
    by (rule smem_free_used [OF ok2 u2])
  have h: "heap_ptr m2 = heap_ptr m" by (simp add: m2_def hp)
  have "mset (us' @ (p, n) # vs') = mset (A @ (q, k) # B)" by (rule arg_cong [OF trans [OF u2 [symmetric] al(4)]])
  then have "mset (us' @ vs') + {#(p, n)#} = mset (A @ (q, k) # B)" by simp
  also have "\<dots> = mset (us @ (q, k) # vs) + {#(p, n)#}"
  proof -
    have "mset (A @ B) = mset (us @ (p, n) # vs)" using al(3) u by simp
    then show ?thesis by simp
  qed
  finally have ms: "mset (us' @ vs') = mset (us @ (q, k) # vs)" by simp
  have "set (us' @ vs') = set (us @ (q, k) # vs)" using ms by (metis set_mset_mset)
  then have s3: "same_data m2 m3 (us @ (q, k) # vs)" using same_data_subset [OF f(4)] by blast
  have sub: "set (us @ vs) \<subseteq> set (A @ B)" unfolding al(3) [symmetric] u by auto
  have "same_data m m3 (us @ vs)"
  proof (rule same_data_trans)
    show "same_data m m2 (us @ vs)" by (rule same_data_subset [OF same_data_trans [OF al(6) s2] sub])
    show "same_data m2 m3 (us @ vs)" by (rule same_data_subset [OF s3]) auto
  qed
  moreover have "heap m3 (q + 12 + x) = heap m (p + 12 + x)" if "x + 12 < n" "x < unat s" for x
  proof -
    have "heap m3 (q + 12 + x) = heap m2 (q + 12 + x)" by (rule same_dataD [OF s3, of q k]) (use that k in auto)
    also have "\<dots> = heap m1 (p + 12 + x)" using that by (simp add: m2_def h2_def copy_words_def c less_diff_conv)
    also have "\<dots> = heap m (p + 12 + x)" by (rule same_dataD [OF al(6) pn]) (use that in auto)
    finally show ?thesis .
  qed
  moreover have "move_block ?a (of_nat (n - 12)) s m = Some (Inr (Some ?b, m3))"
    using f(1) unfolding move_block_def al(1) bind_opt_simps prod.case option.case d c_def [symmetric] cw Let_def h by simp
  ultimately show thesis using that(2) [of q m3 _ k] f(2,3) ms k by (simp del: mset_append)
qed


text \<open>The three ways a request to change the size of a block ends.\<close>

lemma smem_realloc_ok:
  fixes newsize :: u32
  assumes ok: "smem_ok m bs" and u: "used_list 0 bs = us @ (p, n) # vs"
  defines "a \<equiv> heap_ptr m + of_nat p + SIZEOF_STRUCT_MEM" and "s \<equiv> RT_ALIGN newsize 4"
  obtains (fails) "s \<noteq> 0" "rt_smem_realloc m (Some a) newsize = Some (Inr (None, m))"
  | (frees) m' cs where "s = 0" "rt_smem_realloc m (Some a) newsize = Some (Inr (None, m'))" "smem_ok m' cs"
      "used_list 0 cs = us @ vs" "same_data m m' (us @ vs)"
  | (moves) m' cs q k where "s \<noteq> 0" "rt_smem_realloc m (Some a) newsize = Some (Inr (Some (heap_ptr m + of_nat q + SIZEOF_STRUCT_MEM), m'))"
      "smem_ok m' cs" "mset (used_list 0 cs) = mset (us @ (q, k) # vs)" "unat s + 12 \<le> k" "same_data m m' (us @ vs)"
      "\<And>x. x + 12 < n \<Longrightarrow> x < unat s \<Longrightarrow> heap m' (q + 12 + x) = heap m (p + 12 + x)"
proof -
  have d: "4 dvd unat s" by (simp add: s_def RT_ALIGN_dvd)
  obtain xs ys where x: "bs = xs @ (n, True) # ys" "extent xs = p" using used_list_split [OF u] by auto
  have l: "smem_lay m (xs @ (n, True) # ys)" using smem_okD [OF ok] x(1) by simp
  note b = smem_block [OF l, unfolded x(2)] and ad = aligned_address [OF l, of 0, unfolded x(2), folded a_def] and e = smem_bounds [OF l]
  have ptr: "a - SIZEOF_STRUCT_MEM - heap_ptr m = of_nat p" by (simp add: a_def)
  have sz: "item_next m (of_nat p) - of_nat p - SIZEOF_STRUCT_MEM = of_nat (n - 12)"
    using b(2,6) by (simp add: SIZEOF_STRUCT_MEM_def of_nat_diff)
  have hb: "unat (heap_ptr m) + (p + n + extent ys) + 12 < 4294967296" using l x(2) by (simp add: smem_lay_def add.assoc)
  have asserts: "a AND 3 = 0 \<and> heap_ptr m \<le> a \<and> a < heap_ptr m + heap_end m"
  proof -
    have ua: "unat a = unat (heap_ptr m) + p + 12" using ad(4) b(6) by simp
    have "heap_ptr m + heap_end m = of_nat (unat (heap_ptr m) + (p + n + extent ys))"
      using e(3) x(2) by (simp add: add.assoc)
    then have "unat (heap_ptr m + heap_end m) = unat (heap_ptr m) + (p + n + extent ys)"
      using off_word [of "unat (heap_ptr m) + (p + n + extent ys)"] hb by (simp del: of_nat_add)
    then show ?thesis using ua ad(5) b(6) by (simp add: word_less_nat_alt word_le_nat_alt)
  qed
  show thesis
  proof (cases "s > mem_size_aligned m")
    case True
    then have "s \<noteq> 0" by (auto simp: word_less_nat_alt)
    then show thesis using fails True by (simp add: rt_smem_realloc_def Let_def s_def [symmetric])
  next
    case small: False
    have lim: "unat s + 24 < 4294967296" using small e(2,5) hb x(2) by (simp add: word_less_nat_alt not_less)
    have n12: "unat (of_nat (n - 12) :: u32) = n - 12" by (rule off_word) (use b(8) in simp)
    have r: "rt_smem_realloc m (Some a) newsize =
       (if s = 0 then Some (bind_err (rt_smem_free m (Some a)) (\<lambda>m. Inr (None, m)))
        else if of_nat (n - 12) = s then Some (Inr (Some a, m))
        else if unat s + 36 < n then
          (let m = m\<lparr>mem_used := mem_used m - (of_nat (n - 12) - s)\<rparr>;
               m = split_block s (of_nat p) m;
               mem2 = of_nat p + SIZEOF_STRUCT_MEM + s;
               m = (if mem2 < lfree m then m\<lparr>lfree := mem2\<rparr> else m)
           in Some (bind_err (plug_holes m mem2) (\<lambda>m. Inr (Some a, m))))
        else move_block a (of_nat (n - 12)) s m)"
    proof -
      have "s + SIZEOF_STRUCT_MEM + MIN_SIZE_ALIGNED = of_nat (unat s + 24)" by (simp add: mem_sizes)
      then have "s + SIZEOF_STRUCT_MEM + MIN_SIZE_ALIGNED < of_nat (n - 12) \<longleftrightarrow> unat s + 24 < n - 12"
        using off_less [OF lim, of "n - 12"] b(8) by (simp del: of_nat_add of_nat_diff)
      then have "s + SIZEOF_STRUCT_MEM + MIN_SIZE_ALIGNED < of_nat (n - 12) \<longleftrightarrow> unat s + 36 < n" by linarith
      then show ?thesis using small asserts unfolding rt_smem_realloc_def s_def [symmetric] Let_def option.case ptr sz
        by (simp only: if_True if_False refl simp_thms)
    qed
    consider "s = 0" | "s \<noteq> 0" "of_nat (n - 12) = s" | "s \<noteq> 0" "of_nat (n - 12) \<noteq> s" "unat s + 36 < n"
      | "s \<noteq> 0" "of_nat (n - 12) \<noteq> s" "\<not> unat s + 36 < n" by blast
    then show thesis
    proof cases
      case 1
      obtain m' where f: "rt_smem_free m (Some a) = Inr m'" "smem_ok m' (melt (give p bs))"
        "used_list 0 (melt (give p bs)) = us @ vs" "same_data m m' (us @ vs)"
        unfolding a_def by (rule smem_free_used [OF ok u])
      show thesis by (rule frees [OF 1 _ f(2-4)]) (simp add: r 1 f(1))
    next
      case 2
      have us: "unat s + 12 \<le> n" using n12 [unfolded 2(2)] b(6) by simp
      have "rt_smem_realloc m (Some a) newsize = Some (Inr (Some a, m))" unfolding r using 2 by (simp only: if_False if_True refl)
      then have rr: "rt_smem_realloc m (Some a) newsize = Some (Inr (Some (heap_ptr m + of_nat p + SIZEOF_STRUCT_MEM), m))"
        by (simp only: a_def)
      show thesis by (rule moves [OF 2(1) rr ok _ us]) (simp_all add: u same_data_def)
    next
      case 3
      obtain m' cs where f: "plug_holes (let m1 = split_block s (of_nat p) (m\<lparr>mem_used := mem_used m - (of_nat (n - 12) - s)\<rparr>) in
            if of_nat p + SIZEOF_STRUCT_MEM + s < lfree m1 then m1\<lparr>lfree := of_nat p + SIZEOF_STRUCT_MEM + s\<rparr> else m1)
            (of_nat p + SIZEOF_STRUCT_MEM + s) = Inr m'" "smem_ok m' cs"
        "used_list 0 cs = us @ (p, unat s + 12) # vs" "same_data m m' (us @ (p, unat s + 12) # vs)"
        unfolding Let_def by (rule smem_shrink_ok [OF ok u 3(3) d 3(1)])
      show thesis
      proof (rule moves [of p m' cs "unat s + 12"])
        show "rt_smem_realloc m (Some a) newsize = Some (Inr (Some (heap_ptr m + of_nat p + SIZEOF_STRUCT_MEM), m'))"
          using f(1) 3 unfolding r Let_def by (simp add: a_def)
        show "same_data m m' (us @ vs)" by (rule same_data_subset [OF f(4)]) auto
        show "heap m' (p + 12 + z) = heap m (p + 12 + z)" if "z < unat s" for z
          by (rule same_dataD [OF f(4), of p "unat s + 12"]) (use that in auto)
      qed (use 3 f in simp_all)
    next
      case 4
      have mv: "rt_smem_realloc m (Some a) newsize = move_block a (of_nat (n - 12)) s m" using 4 by (simp add: r)
      show thesis
      proof (rule move_block_ok [OF ok u d 4(1)], fold a_def)
        assume "move_block a (of_nat (n - 12)) s m = Some (Inr (None, m))"
        then show thesis using fails 4(1) mv by simp
      qed (erule (4) moves [OF 4(1), unfolded mv], simp)
    qed
  qed
qed


section \<open>A fresh heap\<close>

text \<open>The bytes given to the heap: room for the object, two headers and the smallest block, within the address space.\<close>

definition heap_region :: "u32 \<Rightarrow> u32 \<Rightarrow> bool" where
  "heap_region begin_addr sz \<longleftrightarrow> 98 \<le> unat sz \<and> unat begin_addr + unat sz < 4294967296"

lemma single_block:
  assumes "joined_blocks bs" and "used_list p bs = []" and "bs \<noteq> []"
  shows "bs = [(extent bs, False)]"
proof (cases bs rule: joined_blocks.cases)
  case (1 b c cs)
  then show ?thesis using assms by (cases b; cases c) (auto split: if_splits)
qed (use assms in \<open>auto split: if_splits\<close>)

lemma align_4: "4 dvd unat a \<Longrightarrow> unat a + 3 < 4294967296 \<Longrightarrow> RT_ALIGN a 4 = a"
  by (rule word_unat_eq_iff [THEN iffD2]) (auto simp: RT_ALIGN_value elim!: dvdE)

lemma mask_aligned: "4 dvd unat (a :: u32) \<Longrightarrow> a AND MEM_MASK = a"
proof -
  assume "4 dvd unat a"
  then have "a AND 3 = 0" using and_3_of_nat [of "unat a"] by simp
  then have "a AND 1 = 0" using and.assoc [of a 3 1] by simp
  moreover have "MEM_MASK OR 1 = -1" by (simp add: MEM_MASK_def)
  then have "a = (a AND MEM_MASK) OR (a AND 1)" by (simp flip: bit.conj_disj_distrib)
  ultimately show ?thesis by simp
qed

lemma smem_init_ok:
  assumes r: "heap_region begin_addr sz"
  shows "\<exists>m k. rt_smem_init begin_addr sz raw = Some m \<and> smem_ok m [(k, False)] \<and> unat begin_addr \<le> unat (heap_ptr m) \<and>
     unat (heap_ptr m) + unat (heap_end m) \<le> unat begin_addr + unat sz"
proof -
  have sz: "98 \<le> unat sz" "unat begin_addr + unat sz < 4294967296" using r by (simp_all add: heap_region_def)
  define b e where "b = 4 * ((unat begin_addr + 3) div 4)" and "e = 4 * ((unat begin_addr + unat sz) div 4)"
  have b: "unat (RT_ALIGN begin_addr 4) = b" using sz by (simp add: RT_ALIGN_value b_def)
  have e: "unat (RT_ALIGN_DOWN (begin_addr + sz) 4) = e"
    unfolding RT_ALIGN_DOWN_4 unat_align_down using sz(2) by (simp add: e_def unat_word_ariths)
  have be: "b + 92 \<le> e" "e < 4294967296" "unat begin_addr \<le> b" "e \<le> unat begin_addr + unat sz"
    using sz unfolding b_def e_def by linarith+
  have d: "4 dvd b" "4 dvd e" by (simp_all add: b_def e_def)
  have w: "RT_ALIGN begin_addr 4 = of_nat b" "RT_ALIGN_DOWN (begin_addr + sz) 4 = of_nat e"
    by (simp_all flip: b e)
  have s: "of_nat b + SIZEOF_SMALL_MEM = of_nat (b + 56)" by (simp add: SIZEOF_SMALL_MEM_def)
  have al: "RT_ALIGN (of_nat (b + 56)) 4 = of_nat (b + 56)"
    by (rule align_4) (use be d in \<open>simp_all add: off_word [of "b + 56"] del: of_nat_add\<close>)
  define k where "k = e - b - 68"
  have ms: "of_nat e - of_nat (b + 56) - 2 * SIZEOF_STRUCT_MEM = (of_nat (k - 12) :: u32)"
    using be by (simp add: k_def SIZEOF_STRUCT_MEM_def of_nat_diff)
  have me: "of_nat (k - 12) + SIZEOF_STRUCT_MEM = (of_nat k :: u32)"
    using be by (simp add: k_def SIZEOF_STRUCT_MEM_def of_nat_diff)
  have sa: "(of_nat (k - 12) :: u32) = of_nat k - SIZEOF_STRUCT_MEM" by (simp flip: me)
  have k: "24 \<le> k" "k < 4294967296" "4 dvd k" "b + 56 + k + 12 < 4294967296"
    using be d by (auto simp: k_def dvd_diff_nat)
  have mb: "(of_nat b :: u32) AND MEM_MASK = of_nat b" by (rule mask_aligned) (use be d in simp)
  define m where "m = \<lparr>mem_addr = of_nat b, heap_ptr = of_nat (b + 56), heap = raw(0 := of_nat b, 4 := of_nat k, 8 := 0,
       k := of_nat b OR 1, k + 4 := of_nat k, k + 8 := of_nat k), heap_end = of_nat k, lfree = 0,
       mem_size_aligned = of_nat (k - 12), mem_total = of_nat (k - 12), mem_used = 0, mem_max = 0\<rparr>"
  have room: "of_nat e > 2 * SIZEOF_STRUCT_MEM \<and> of_nat e - 2 * SIZEOF_STRUCT_MEM \<ge> (of_nat (b + 56) :: u32)"
  proof -
    have "of_nat e - 2 * SIZEOF_STRUCT_MEM = (of_nat (e - 24) :: u32)" using be by (simp add: SIZEOF_STRUCT_MEM_def of_nat_diff)
    moreover have "unat (of_nat (e - 24) :: u32) = e - 24" "unat (of_nat (b + 56) :: u32) = b + 56" "unat (of_nat e :: u32) = e"
      using be by (auto intro: off_word simp del: of_nat_diff of_nat_add)
    ultimately show ?thesis using be by (simp add: word_less_nat_alt word_le_nat_alt SIZEOF_STRUCT_MEM_def del: of_nat_diff of_nat_add)
  qed
  have "rt_smem_init begin_addr sz raw = Some m"
    using room k(2) unfolding rt_smem_init_def Let_def w s al ms me m_def
    by (simp add: item_defs MEM_FREED_def MEM_USED_def mb del: of_nat_diff of_nat_add)
  moreover have "smem_ok m [(k, False)]"
    using k mb d be by (simp add: m_def smem_ok_def smem_lay_def sa del: of_nat_diff of_nat_add)
  moreover have "unat begin_addr \<le> unat (heap_ptr m) \<and> unat (heap_ptr m) + unat (heap_end m) \<le> unat begin_addr + unat sz"
  proof -
    have "unat (heap_ptr m) = b + 56" "unat (heap_end m) = k" using off_word [of "b + 56"] off_word [of k] k by (simp_all add: m_def del: of_nat_add)
    then show ?thesis using be by (simp add: k_def)
  qed
  ultimately show ?thesis by blast
qed

section \<open>Properties\<close>

text \<open>A heap of a free and a used block.\<close>

definition small_heap :: small_mem where
  "small_heap = \<lparr>mem_addr = 0x100, heap_ptr = 0x200,
     heap = (\<lambda>_. 0)(0 := 0x100, 4 := 40, 40 := 0x101, 44 := 80, 80 := 0x101, 84 := 80, 88 := 80),
     heap_end = 80, lfree = 0, mem_size_aligned = 68, mem_total = 68, mem_used = 40, mem_max = 40\<rparr>"

lemma small_heap_ok: "smem_ok small_heap [(40, False), (40, True)]"
  by (simp add: smem_ok_def smem_lay_def small_heap_def SIZEOF_STRUCT_MEM_def MEM_MASK_def)

text \<open>The bytes of data a block needs to hold \<open>n\<close> bytes: whole words, and at least the 12 the heap keeps for a block.\<close>

definition data_bytes :: "nat \<Rightarrow> nat" where
  "data_bytes n = max 12 (4 * ((n + 3) div 4))"

lemma request_data_bytes: "unat sz \<le> 0xfffffffc \<Longrightarrow> request sz = data_bytes (unat sz)"
  by (simp add: request_def data_bytes_def RT_ALIGN_value)

text \<open>
  C17. An allocation of at most 0xFFFFFFFC bytes (for more see \<open>smem_alloc_huge\<close>) takes the lowest free block that has
  room for the bytes, counted in whole words and as 12 at least, gives back what is left of the block when that can hold a
  block of its own, and keeps the heap well-formed; it fails exactly when no free block has the room or no byte is
  asked for, and then changes nothing.
\<close>

theorem smem_alloc_first_fit:
  assumes "smem_ok m bs" and "unat sz \<le> 0xfffffffc"
  shows "case if sz = 0 then None else first_fit (data_bytes (unat sz)) bs of
       None \<Rightarrow> rt_smem_alloc m sz = Some (Inr (None, m))
     | Some p \<Rightarrow> \<exists>m'. rt_smem_alloc m sz = Some (Inr (Some (heap_ptr m + of_nat p + SIZEOF_STRUCT_MEM), m')) \<and>
         smem_ok m' (place (data_bytes (unat sz)) bs)"
proof (cases "sz = 0")
  case True
  then show ?thesis by (simp add: rt_smem_alloc_def)
next
  case False
  from smem_alloc_ok [OF assms(1) this] show ?thesis
    using False by (auto simp: request_data_bytes [OF assms(2), symmetric] split: option.splits)
qed

theorem smem_alloc_first_fit_witness:
  "\<exists>m'. rt_smem_alloc small_heap 9 = Some (Inr (Some 0x20c, m')) \<and> smem_ok m' [(40, True), (40, True)]"
  using smem_alloc_first_fit [OF small_heap_ok, of 9]
  by (simp add: data_bytes_def small_heap_def SIZEOF_STRUCT_MEM_def)

text \<open>
  C31. Freeing a block joins it with the free blocks on either side, keeps the heap well-formed, with no two free blocks
  side by side; and freeing it again fails an assertion.
\<close>

theorem smem_free_coalesces:
  assumes "smem_ok m (xs @ (n, True) # ys)"
  shows "\<exists>m'. rt_smem_free m (Some (heap_ptr m + of_nat (extent xs) + SIZEOF_STRUCT_MEM)) = Inr m' \<and>
     smem_ok m' (melt (xs @ (n, False) # ys)) \<and>
     rt_smem_free m' (Some (heap_ptr m + of_nat (extent xs) + SIZEOF_STRUCT_MEM)) = Inl AssertFailed"
proof -
  obtain m' us k where f: "rt_smem_free m (Some (heap_ptr m + of_nat (extent xs) + SIZEOF_STRUCT_MEM)) = Inr m'"
    "smem_ok m' (melt (xs @ (n, False) # ys))" "changes_in (extent us) k m m'" "\<not> MEM_ISUSED m' (of_nat (extent xs))"
    by (rule smem_free_ok [OF assms])
  moreover have "heap_ptr m' = heap_ptr m" using f(3) by (simp add: changes_in_def)
  ultimately show ?thesis by (simp add: rt_smem_free_def Let_def)
qed

theorem smem_free_coalesces_witness:
  "\<exists>m'. rt_smem_free small_heap (Some 0x234) = Inr m' \<and> smem_ok m' [(80, False)] \<and>
     rt_smem_free m' (Some 0x234) = Inl AssertFailed"
  using smem_free_coalesces [of small_heap "[(40, False)]" 40 "[]"] small_heap_ok
  by (simp add: small_heap_def SIZEOF_STRUCT_MEM_def)

text \<open>
  A request for more than 0xFFFFFFFC bytes is taken for a request for one byte: rounding the size up wraps to 0.
\<close>

theorem smem_alloc_huge:
  assumes "smem_lay m bs" and "0xfffffffc < unat sz"
  shows "rt_smem_alloc m sz = rt_smem_alloc m 1"
proof -
  have "unat (sz + 3) = unat sz + 3 - 4294967296"
    using assms(2) unat_u32_lt [of sz] by (simp add: unat_word_ariths mod_if)
  then have "unat (RT_ALIGN sz 4) = 0" unfolding RT_ALIGN_4 unat_align_down using unat_u32_lt [of sz] by simp
  then have "RT_ALIGN sz 4 = 0" by (simp add: unat_eq_0)
  moreover have "RT_ALIGN 1 4 = 4" by (simp add: RT_ALIGN_4)
  moreover have "\<not> mem_size_aligned m < 4" using smem_bounds(2,5) [OF assms(1)] by (simp add: word_less_nat_alt)
  moreover have "sz \<noteq> 0" using assms(2) by auto
  ultimately show ?thesis by (simp add: rt_smem_alloc_def MIN_SIZE_ALIGNED_def)
qed

theorem smem_alloc_huge_witness: "rt_smem_alloc small_heap 0xfffffffd = rt_smem_alloc small_heap 1"
  by (rule smem_alloc_huge [OF smem_okD [OF small_heap_ok]]) simp

end
