(* ===== verification/Heap.thy ===== *)
theory Heap
  imports Smem
begin

text \<open>
  Programs that use the heap (\<open>rt-thread/src/mem.c\<close>): a program is a sequence of allocations, writes, changes of size
  and releases, in any order and of any size. The heap keeps what the program stores, whatever it does.
\<close>

section \<open>Programs that use the heap\<close>

text \<open>
  A program holds objects, each with its address and the words it keeps there. Sizes are in bytes;
  an index that names no object, or no word of it, does nothing. The state is lost when a call
  faults or does not return.
\<close>

record heap_client =
  sm :: small_mem
  objs :: "(u32 \<times> u32 list) list"

datatype heap_input = Alloc u32 | Put nat nat u32 | Resize nat u32 | Release nat

definition words_of :: "u32 \<Rightarrow> nat" where "words_of n = (unat n + 3) div 4"

definition fetch :: "small_mem \<Rightarrow> u32 \<Rightarrow> nat \<Rightarrow> u32 list" where
  "fetch m a n = map (\<lambda>j. heap m (unat (a - heap_ptr m) + 4 * j)) [0..<n]"

definition drop_nth :: "nat \<Rightarrow> 'a list \<Rightarrow> 'a list" where "drop_nth i xs = take i xs @ drop (Suc i) xs"

fun client_input :: "heap_client \<Rightarrow> heap_input \<Rightarrow> heap_client option" where
  "client_input s (Alloc n) =
     (case rt_smem_alloc (sm s) n of
        Some (Inr (Some a, m)) \<Rightarrow> Some \<lparr>sm = m, objs = objs s @ [(a, fetch m a (words_of n))]\<rparr>
      | Some (Inr (None, m)) \<Rightarrow> Some (s\<lparr>sm := m\<rparr>)
      | _ \<Rightarrow> None)"
| "client_input s (Put i j v) =
     (if i < length (objs s) \<and> j < length (snd (objs s ! i)) then
        (let (a, ws) = objs s ! i; m = sm s
         in Some \<lparr>sm = m\<lparr>heap := (heap m)(unat (a - heap_ptr m) + 4 * j := v)\<rparr>, objs = (objs s)[i := (a, ws[j := v])]\<rparr>)
      else Some s)"
| "client_input s (Resize i n) =
     (if i < length (objs s) then
        (let (a, ws) = objs s ! i
         in case rt_smem_realloc (sm s) (Some a) n of
              Some (Inr (Some b, m)) \<Rightarrow>
                Some \<lparr>sm = m, objs = (objs s)[i := (b, take (words_of n) ws @ drop (length ws) (fetch m b (words_of n)))]\<rparr>
            | Some (Inr (None, m)) \<Rightarrow> Some \<lparr>sm = m, objs = (if n = 0 then drop_nth i (objs s) else objs s)\<rparr>
            | _ \<Rightarrow> None)
      else Some s)"
| "client_input s (Release i) =
     (if i < length (objs s) then
        (case rt_smem_free (sm s) (Some (fst (objs s ! i))) of
           Inr m \<Rightarrow> Some \<lparr>sm = m, objs = drop_nth i (objs s)\<rparr>
         | Inl _ \<Rightarrow> None)
      else Some s)"

fun client_step :: "heap_client option \<Rightarrow> heap_input \<Rightarrow> heap_client option" where
  "client_step None _ = None"
| "client_step (Some s) i = client_input s i"

definition heap_sizes :: "heap_input \<Rightarrow> bool" where
  "heap_sizes i = (case i of Alloc n \<Rightarrow> unat n \<le> 0xfffffffc | Resize _ n \<Rightarrow> unat n \<le> 0xfffffffc | _ \<Rightarrow> True)"

text \<open>An object in the block at \<open>p\<close> of size \<open>k\<close>.\<close>

definition holds :: "small_mem \<Rightarrow> u32 \<times> u32 list \<Rightarrow> nat \<times> nat \<Rightarrow> bool" where
  "holds m = (\<lambda>(a, ws) (p, k). a = heap_ptr m + of_nat p + SIZEOF_STRUCT_MEM \<and> 4 * length ws + 12 \<le> k \<and>
     (\<forall>j < length ws. heap m (p + 12 + 4 * j) = ws ! j))"

definition client_ok :: "u32 \<Rightarrow> u32 \<Rightarrow> heap_client \<Rightarrow> bool" where
  "client_ok h e s \<longleftrightarrow> heap_ptr (sm s) = h \<and> heap_end (sm s) = e \<and> (\<exists>bs us. smem_ok (sm s) bs \<and> mset us = mset (used_list 0 bs) \<and> list_all2 (holds (sm s)) (objs s) us)"

lemma client_okI:
  assumes "list_all2 (holds m) os us" and "mset us = mset (used_list 0 bs)" and "client_ok h e s" and "same_data (sm s) m ul"
    and "smem_ok m bs"
  shows "client_ok h e \<lparr>sm = m, objs = os\<rparr>"
  using assms same_data_sel [OF assms(4)] by (auto simp: client_ok_def)

lemma holds_frame:
  assumes "same_data m m' ul" and "(p, k) \<in> set ul" and "holds m ob (p, k)"
  shows "holds m' ob (p, k)"
proof -
  have "heap m' (p + 12 + 4 * j) = heap m (p + 12 + 4 * j)" if "4 * length ws + 12 \<le> k" "j < length ws" for j and ws :: "u32 list"
    by (rule same_dataD [OF assms(1,2)]) (use that in simp_all)
  then show ?thesis using assms(3) same_data_sel [OF assms(1)] by (auto simp: holds_def split: prod.splits)
qed

lemma holds_frame_all:
  assumes "same_data m m' ul" and "set us \<subseteq> set ul" and "list_all2 (holds m) os us"
  shows "list_all2 (holds m') os us"
proof (rule list.rel_mono_strong [OF assms(3)])
  fix ob u
  assume "ob \<in> set os" "u \<in> set us" "holds m ob u"
  moreover have "u \<in> set ul" using assms(2) calculation(2) by auto
  ultimately show "holds m' ob u" using holds_frame [OF assms(1)] by (cases u) auto
qed


lemma words_aligned: "unat n \<le> 0xfffffffc \<Longrightarrow> unat (RT_ALIGN n 4) = 4 * words_of n"
  by (simp add: RT_ALIGN_value words_of_def)

lemma fetch_sel [simp]: "length (fetch m a n) = n" "j < n \<Longrightarrow> fetch m a n ! j = heap m (unat (a - heap_ptr m) + 4 * j)"
  by (simp_all add: fetch_def)

text \<open>The block of an object among the used blocks.\<close>

lemma object_block:
  assumes "smem_ok m bs" and "mset us = mset (used_list 0 bs)" and "list_all2 (holds m) os us" and "i < length os"
  obtains p k A B where "us ! i = (p, k)" "used_list 0 bs = A @ (p, k) # B" "mset (drop_nth i us) = mset (A @ B)"
    "set (drop_nth i us) = set (A @ B)" "list_all2 (holds m) (drop_nth i os) (drop_nth i us)" "holds m (os ! i) (p, k)"
    "fst (os ! i) = heap_ptr m + of_nat p + SIZEOF_STRUCT_MEM" "unat (fst (os ! i) - heap_ptr m) = p + 12" "12 < k"
proof -
  obtain p k where pk: "us ! i = (p, k)" by fastforce
  have i: "i < length us" using assms(3,4) by (simp add: list_all2_lengthD)
  have "(p, k) \<in> set (used_list 0 bs)" using i pk assms(2) by (metis nth_mem set_mset_mset)
  then obtain A B where ab: "used_list 0 bs = A @ (p, k) # B" by (auto simp: in_set_conv_decomp)
  have "us = take i us @ (p, k) # drop (Suc i) us" using id_take_nth_drop [OF i] pk by simp
  then have "mset us = add_mset (p, k) (mset (drop_nth i us))" unfolding drop_nth_def by (metis mset_append mset.simps(2) union_mset_add_mset_right)
  then have d: "mset (drop_nth i us) = mset (A @ B)" using assms(2) by (simp add: ab)
  have h: "holds m (os ! i) (p, k)" using list_all2_nthD [OF assms(3,4)] pk by simp
  have l: "lay (heap m) (mem_addr m) 0 0 bs" "extent bs < 4294967284"
    using smem_okD [OF assms(1)] smem_bounds(1) by (auto simp: smem_lay_def)
  have b: "p + k \<le> extent bs" "12 < k" using used_list_bound [OF l(1), of p k] ab by auto
  have a: "fst (os ! i) = heap_ptr m + of_nat p + SIZEOF_STRUCT_MEM" using h by (auto simp: holds_def split: prod.splits)
  have "unat (of_nat (p + 12) :: u32) = p + 12" by (rule off_word) (use b l(2) in simp)
  then have u: "unat (fst (os ! i) - heap_ptr m) = p + 12" by (simp add: a SIZEOF_STRUCT_MEM_def)
  have "list_all2 (holds m) (drop_nth i os) (drop_nth i us)"
    using assms(3) by (simp add: drop_nth_def list_all2_appendI list_all2_takeI list_all2_dropI)
  then show thesis using that [OF pk ab d _ _ h a u b(2)] d by (metis set_mset_mset)
qed

lemma object_replaced:
  assumes "i < length os" and "list_all2 R (drop_nth i os) (drop_nth i us)" and "length us = length os" and "R ob u"
  shows "list_all2 R (os[i := ob]) (us[i := u])" and "mset (us[i := u]) = mset (u # drop_nth i us)"
proof -
  have i: "i < length us" using assms(1,3) by simp
  have "list_all2 R (take i os) (take i us)" "list_all2 R (drop (Suc i) os) (drop (Suc i) us)"
    using assms(1-3) by (simp_all add: drop_nth_def list_all2_append)
  then show "list_all2 R (os[i := ob]) (us[i := u])"
    using assms(1,4) i by (simp add: upd_conv_take_nth_drop list_all2_appendI)
  show "mset (us[i := u]) = mset (u # drop_nth i us)" using i by (simp add: upd_conv_take_nth_drop drop_nth_def)
qed

lemma off_address: "k + 12 < 4294967296 \<Longrightarrow> unat (h + of_nat k + SIZEOF_STRUCT_MEM - h) = k + 12"
  using off_word [of "k + 12"] by (simp add: SIZEOF_STRUCT_MEM_def)

lemma used_offset: "smem_ok m bs \<Longrightarrow> (p, k) \<in> set (used_list 0 bs) \<Longrightarrow> p + k < 4294967284 \<and> 12 < k"
  using used_list_bound [of "heap m" "mem_addr m" 0 0 bs p k] smem_okD smem_bounds(1) by (fastforce simp: smem_lay_def)

lemma client_alloc_ok:
  assumes c: "client_ok h e s" and n: "unat n \<le> 0xfffffffc"
  shows "\<exists>s'. client_input s (Alloc n) = Some s' \<and> client_ok h e s'"
proof -
  obtain bs us where u: "smem_ok (sm s) bs" "mset us = mset (used_list 0 bs)" "list_all2 (holds (sm s)) (objs s) us"
    using c by (auto simp: client_ok_def)
  show ?thesis
  proof (cases "n = 0")
    case True
    then show ?thesis using c by (simp add: rt_smem_alloc_def)
  next
    case False
    show ?thesis
    proof (rule smem_alloc_used [OF u(1) False])
      assume "rt_smem_alloc (sm s) n = Some (Inr (None, sm s))"
      then show ?thesis using c by simp
    next
      fix m' A B q k
      assume a: "rt_smem_alloc (sm s) n = Some (Inr (Some (heap_ptr (sm s) + of_nat q + SIZEOF_STRUCT_MEM), m'))"
        "smem_ok m' (place (request n) bs)" "used_list 0 bs = A @ B" "used_list 0 (place (request n) bs) = A @ (q, k) # B"
        "request n + 12 \<le> k" "same_data (sm s) m' (A @ B)"
      let ?a = "heap_ptr (sm s) + of_nat q + SIZEOF_STRUCT_MEM"
      have hp: "heap_ptr m' = heap_ptr (sm s)" using same_data_sel [OF a(6)] by simp
      have off: "unat (?a - heap_ptr m') = q + 12"
        unfolding hp by (rule off_address) (use used_offset [OF a(2), of q k] in \<open>simp add: a(4)\<close>)
      have "4 * words_of n + 12 \<le> k" using a(5) words_aligned [OF n] by (simp add: request_def)
      then have "holds m' (?a, fetch m' ?a (words_of n)) (q, k)" using off hp by (simp add: holds_def)
      moreover have "set us = set (A @ B)" using u(2) a(3) by (metis set_mset_mset)
      then have "list_all2 (holds m') (objs s) us" using holds_frame_all [OF a(6) _ u(3)] by simp
      ultimately have "list_all2 (holds m') (objs s @ [(?a, fetch m' ?a (words_of n))]) (us @ [(q, k)])"
        by (simp add: list_all2_appendI)
      moreover have "mset (us @ [(q, k)]) = mset (used_list 0 (place (request n) bs))" using u(2) a(3,4) by simp
      ultimately have "client_ok h e \<lparr>sm = m', objs = objs s @ [(?a, fetch m' ?a (words_of n))]\<rparr>"
        by (rule client_okI [OF _ _ c a(6,2)])
      then show ?thesis using a(1) by simp
    qed
  qed
qed


lemma client_release_ok:
  assumes c: "client_ok h e s"
  shows "\<exists>s'. client_input s (Release i) = Some s' \<and> client_ok h e s'"
proof (cases "i < length (objs s)")
  case True
  obtain bs us where u: "smem_ok (sm s) bs" "mset us = mset (used_list 0 bs)" "list_all2 (holds (sm s)) (objs s) us"
    using c by (auto simp: client_ok_def)
  obtain p k A B where o: "used_list 0 bs = A @ (p, k) # B" "mset (drop_nth i us) = mset (A @ B)"
    "set (drop_nth i us) = set (A @ B)" "list_all2 (holds (sm s)) (drop_nth i (objs s)) (drop_nth i us)"
    "fst (objs s ! i) = heap_ptr (sm s) + of_nat p + SIZEOF_STRUCT_MEM"
    by (rule object_block [OF u True])
  obtain m' where f: "rt_smem_free (sm s) (Some (fst (objs s ! i))) = Inr m'" "smem_ok m' (melt (give p bs))"
    "used_list 0 (melt (give p bs)) = A @ B" "same_data (sm s) m' (A @ B)"
    unfolding o(5) by (rule smem_free_used [OF u(1) o(1)])
  have "list_all2 (holds m') (drop_nth i (objs s)) (drop_nth i us)"
    by (rule holds_frame_all [OF f(4) _ o(4)]) (simp add: o(3))
  then have "client_ok h e \<lparr>sm = m', objs = drop_nth i (objs s)\<rparr>" by (rule client_okI [OF _ _ c f(4,2)]) (simp only: f(3) o(2))
  then show ?thesis using f(1) True by simp
qed (use c in simp)

lemma client_put_ok:
  assumes c: "client_ok h e s"
  shows "\<exists>s'. client_input s (Put i j v) = Some s' \<and> client_ok h e s'"
proof (cases "i < length (objs s) \<and> j < length (snd (objs s ! i))")
  case True
  obtain bs us where u: "smem_ok (sm s) bs" "mset us = mset (used_list 0 bs)" "list_all2 (holds (sm s)) (objs s) us"
    using c by (auto simp: client_ok_def)
  obtain p k A B where o: "us ! i = (p, k)" "used_list 0 bs = A @ (p, k) # B" "mset (drop_nth i us) = mset (A @ B)"
    "set (drop_nth i us) = set (A @ B)" "list_all2 (holds (sm s)) (drop_nth i (objs s)) (drop_nth i us)"
    "holds (sm s) (objs s ! i) (p, k)" "unat (fst (objs s ! i) - heap_ptr (sm s)) = p + 12"
    by (rule object_block [OF u conjunct1 [OF True]])
  obtain a ws where aw: "objs s ! i = (a, ws)" by fastforce
  define hh where "hh = (heap (sm s))(p + 12 + 4 * j := v)"
  define m' where "m' = (sm s)\<lparr>heap := hh\<rparr>"
  have room: "4 * length ws + 12 \<le> k" "j < length ws" using o(6) True by (auto simp: holds_def aw)
  have hx: "hh x = heap (sm s) x" if "x < p + 12 \<or> p + k \<le> x" for x using that room by (auto simp: hh_def)
  have ok': "smem_ok m' bs" and fr: "same_data (sm s) m' (A @ B)"
    unfolding m'_def by (rule smem_ok_data [OF u(1) o(2) hx]; assumption)+
  have "holds m' (a, ws[j := v]) (p, k)" using o(6) room by (auto simp: holds_def aw m'_def hh_def nth_list_update)
  moreover have "list_all2 (holds m') (drop_nth i (objs s)) (drop_nth i us)"
    by (rule holds_frame_all [OF fr _ o(5)]) (simp add: o(4))
  ultimately have "list_all2 (holds m') ((objs s)[i := (a, ws[j := v])]) (us[i := (p, k)])"
    by (intro object_replaced(1)) (use True list_all2_lengthD [OF u(3)] in simp_all)
  moreover have "us[i := (p, k)] = us" using o(1) list_update_id [of us i] by simp
  ultimately have "client_ok h e \<lparr>sm = m', objs = (objs s)[i := (a, ws[j := v])]\<rparr>" using client_okI [OF _ u(2) c fr ok'] by simp
  moreover have "client_input s (Put i j v) = Some \<lparr>sm = m', objs = (objs s)[i := (a, ws[j := v])]\<rparr>"
    using True o(7) by (simp add: aw m'_def hh_def Let_def)
  ultimately show ?thesis by simp
qed (use c in auto)

lemma client_resize_ok:
  assumes c: "client_ok h e s" and n: "unat n \<le> 0xfffffffc"
  shows "\<exists>s'. client_input s (Resize i n) = Some s' \<and> client_ok h e s'"
proof (cases "i < length (objs s)")
  case True
  obtain bs us where u: "smem_ok (sm s) bs" "mset us = mset (used_list 0 bs)" "list_all2 (holds (sm s)) (objs s) us"
    using c by (auto simp: client_ok_def)
  obtain p k A B where o: "us ! i = (p, k)" "used_list 0 bs = A @ (p, k) # B" "mset (drop_nth i us) = mset (A @ B)"
    "set (drop_nth i us) = set (A @ B)" "list_all2 (holds (sm s)) (drop_nth i (objs s)) (drop_nth i us)"
    "holds (sm s) (objs s ! i) (p, k)" "fst (objs s ! i) = heap_ptr (sm s) + of_nat p + SIZEOF_STRUCT_MEM"
    by (rule object_block [OF u True])
  obtain a ws where aw: "objs s ! i = (a, ws)" by fastforce
  have a: "a = heap_ptr (sm s) + of_nat p + SIZEOF_STRUCT_MEM" using o(7) by (simp add: aw)
  note w = words_aligned [OF n]
  have n0: "RT_ALIGN n 4 = 0 \<longleftrightarrow> n = 0"
    using w by (auto simp: words_of_def word_unat_eq_iff)
  show ?thesis
  proof (rule smem_realloc_ok [OF u(1) o(2), of n, folded a])
    assume "RT_ALIGN n 4 \<noteq> 0" "rt_smem_realloc (sm s) (Some a) n = Some (Inr (None, sm s))"
    moreover have "client_ok h e \<lparr>sm = sm s, objs = objs s\<rparr>" using c by (cases s) simp
    ultimately show ?thesis using True n0 by (simp add: aw)
  next
    fix m' cs
    assume f: "RT_ALIGN n 4 = 0" "rt_smem_realloc (sm s) (Some a) n = Some (Inr (None, m'))" "smem_ok m' cs"
      "used_list 0 cs = A @ B" "same_data (sm s) m' (A @ B)"
    have "list_all2 (holds m') (drop_nth i (objs s)) (drop_nth i us)"
      by (rule holds_frame_all [OF f(5) _ o(5)]) (simp add: o(4))
    then have "client_ok h e \<lparr>sm = m', objs = drop_nth i (objs s)\<rparr>" by (rule client_okI [OF _ _ c f(5,3)]) (simp only: f(4) o(3))
    then show ?thesis using True f(1,2) n0 by (simp add: aw)
  next
    fix m' cs q k'
    assume f: "rt_smem_realloc (sm s) (Some a) n = Some (Inr (Some (heap_ptr (sm s) + of_nat q + SIZEOF_STRUCT_MEM), m'))" "smem_ok m' cs"
      "mset (used_list 0 cs) = mset (A @ (q, k') # B)" "unat (RT_ALIGN n 4) + 12 \<le> k'" "same_data (sm s) m' (A @ B)"
      "\<And>x. x + 12 < k \<Longrightarrow> x < unat (RT_ALIGN n 4) \<Longrightarrow> heap m' (q + 12 + x) = heap (sm s) (p + 12 + x)"
    let ?b = "heap_ptr (sm s) + of_nat q + SIZEOF_STRUCT_MEM"
    let ?ws = "take (words_of n) ws @ drop (length ws) (fetch m' ?b (words_of n))"
    have hp: "heap_ptr m' = heap_ptr (sm s)" using same_data_sel [OF f(5)] by simp
    have "(q, k') \<in> set (used_list 0 cs)" using f(3) by (metis in_set_conv_decomp set_mset_mset)
    then have off: "unat (?b - heap_ptr m') = q + 12"
      unfolding hp by (intro off_address) (use used_offset [OF f(2), of q k'] in simp)
    have len: "length ?ws = words_of n" by simp
    have at: "heap m' (q + 12 + 4 * j) = ?ws ! j" if "j < words_of n" for j
    proof (cases "j < length ws")
      case True
      then have "4 * j + 12 < k" and old: "heap (sm s) (p + 12 + 4 * j) = ws ! j" using o(6) by (auto simp: holds_def aw)
      then show ?thesis using f(6) [of "4 * j"] that True w by (simp add: nth_append)
    next
      case False
      then show ?thesis using that off by (simp add: nth_append)
    qed
    have H: "holds m' (?b, ?ws) (q, k')" using at f(4) w len hp unfolding holds_def by (simp del: length_append)
    have D: "list_all2 (holds m') (drop_nth i (objs s)) (drop_nth i us)"
      by (rule holds_frame_all [OF f(5) _ o(5)]) (simp add: o(4))
    note R = object_replaced [OF True D list_all2_lengthD [OF u(3), symmetric] H]
    have "mset (us[i := (q, k')]) = mset (used_list 0 cs)" unfolding R(2) f(3) using o(3) by simp
    then have "client_ok h e \<lparr>sm = m', objs = (objs s)[i := (?b, ?ws)]\<rparr>" by (rule client_okI [OF R(1) _ c f(5,2)])
    then show ?thesis using True f(1) by (simp add: aw)
  qed
qed (use c in auto)


section \<open>Every program\<close>

definition heap_boot :: "u32 \<Rightarrow> u32 \<Rightarrow> (nat \<Rightarrow> u32) \<Rightarrow> heap_client option" where
  "heap_boot begin_addr sz raw = map_option (\<lambda>m. \<lparr>sm = m, objs = []\<rparr>) (rt_smem_init begin_addr sz raw)"

definition heap_inv :: "u32 \<Rightarrow> u32 \<Rightarrow> heap_client option \<Rightarrow> bool" where
  "heap_inv b z s \<longleftrightarrow> (heap_region b z \<longrightarrow> (\<exists>c h e. s = Some c \<and> client_ok h e c \<and> unat b \<le> unat h \<and> unat h + unat e \<le> unat b + unat z))"

lemma heap_inv_boot: "heap_inv b z (heap_boot b z raw)"
  unfolding heap_inv_def
proof
  assume "heap_region b z"
  then obtain m k where m: "rt_smem_init b z raw = Some m" "smem_ok m [(k, False)]" "unat b \<le> unat (heap_ptr m)"
    "unat (heap_ptr m) + unat (heap_end m) \<le> unat b + unat z" using smem_init_ok by blast
  then have "client_ok (heap_ptr m) (heap_end m) \<lparr>sm = m, objs = []\<rparr>"
    unfolding client_ok_def by (auto intro!: exI [of _ "[(k, False)]"])
  then show "\<exists>c h e. heap_boot b z raw = Some c \<and> client_ok h e c \<and> unat b \<le> unat h \<and> unat h + unat e \<le> unat b + unat z"
    using m by (auto simp: heap_boot_def)
qed

lemma client_input_ok: "client_ok h e c \<Longrightarrow> heap_sizes i \<Longrightarrow> \<exists>c'. client_input c i = Some c' \<and> client_ok h e c'"
  using client_alloc_ok client_put_ok client_resize_ok client_release_ok by (cases i) (auto simp: heap_sizes_def)

lemma heap_inv_step: "heap_inv b z s \<Longrightarrow> heap_sizes i \<Longrightarrow> heap_inv b z (client_step s i)"
  unfolding heap_inv_def by (cases s) (auto, metis client_input_ok)

interpretation heap_program: guarded_system "heap_boot b z raw" client_step heap_sizes "heap_inv b z" for b z raw
  by unfold_locales (simp_all add: heap_inv_boot heap_inv_step)

lemma nth_in_drop_nth: "j < length us \<Longrightarrow> j \<noteq> i \<Longrightarrow> us ! j \<in> set (drop_nth i us)"
proof (cases "j < i")
  case True
  assume "j < length us"
  then show ?thesis using True by (auto simp: drop_nth_def in_set_conv_nth intro!: disjI1 exI [of _ j])
next
  case False
  assume "j < length us" "j \<noteq> i"
  then have "us ! j = drop (Suc i) us ! (j - Suc i)" "j - Suc i < length (drop (Suc i) us)" using False by auto
  then show ?thesis unfolding drop_nth_def by (metis UnI2 nth_mem set_append)
qed

text \<open>What the invariant says of an object, and of two.\<close>

lemma client_object:
  assumes c: "client_ok h e s" and i: "i < length (objs s)"
  shows "fetch (sm s) (fst (objs s ! i)) (length (snd (objs s ! i))) = snd (objs s ! i) \<and> fst (objs s ! i) AND 3 = 0 \<and>
     unat h \<le> unat (fst (objs s ! i)) \<and> unat (fst (objs s ! i)) + 4 * length (snd (objs s ! i)) \<le> unat h + unat e"
    and "j < length (objs s) \<Longrightarrow> j \<noteq> i \<Longrightarrow>
     unat (fst (objs s ! i)) + 4 * length (snd (objs s ! i)) \<le> unat (fst (objs s ! j)) \<or>
     unat (fst (objs s ! j)) + 4 * length (snd (objs s ! j)) \<le> unat (fst (objs s ! i))"
proof -
  obtain bs us where u: "smem_ok (sm s) bs" "mset us = mset (used_list 0 bs)" "list_all2 (holds (sm s)) (objs s) us"
    using c by (auto simp: client_ok_def)
  have he: "heap_ptr (sm s) = h" "heap_end (sm s) = e" using c by (simp_all add: client_ok_def)
  have addr: "unat (fst (objs s ! t)) = unat h + p + 12 \<and> fst (objs s ! t) AND 3 = 0 \<and>
     4 * length (snd (objs s ! t)) + 12 \<le> k \<and> p + k \<le> unat e" if t: "t < length (objs s)" "us ! t = (p, k)" for t p k
  proof -
    obtain A B where o: "used_list 0 bs = A @ (p, k) # B" "holds (sm s) (objs s ! t) (p, k)" "12 < k"
      "fst (objs s ! t) = heap_ptr (sm s) + of_nat p + SIZEOF_STRUCT_MEM"
      by (rule object_block [OF u t(1)]) (use t(2) in simp)
    obtain xs ys where x: "bs = xs @ (k, True) # ys" "extent xs = p" using used_list_split [OF o(1)] by auto
    have l: "smem_lay (sm s) (xs @ (k, True) # ys)" using smem_okD [OF u(1)] x(1) by simp
    show ?thesis using aligned_address(4,5) [OF l, of 0] smem_lay_parts(8) [OF l] o(2-4) x(2) he
      by (auto simp: holds_def split: prod.splits)
  qed
  obtain p k A B where o: "us ! i = (p, k)" "used_list 0 bs = A @ (p, k) # B" "set (drop_nth i us) = set (A @ B)"
    "holds (sm s) (objs s ! i) (p, k)" "unat (fst (objs s ! i) - heap_ptr (sm s)) = p + 12"
    by (rule object_block [OF u i])
  have "fetch (sm s) (fst (objs s ! i)) (length (snd (objs s ! i))) = snd (objs s ! i)"
    using o(4,5) by (auto simp: holds_def list_eq_iff_nth_eq split: prod.splits)
  then show "fetch (sm s) (fst (objs s ! i)) (length (snd (objs s ! i))) = snd (objs s ! i) \<and> fst (objs s ! i) AND 3 = 0 \<and>
     unat h \<le> unat (fst (objs s ! i)) \<and> unat (fst (objs s ! i)) + 4 * length (snd (objs s ! i)) \<le> unat h + unat e"
    using addr [OF i o(1)] by simp
  assume j: "j < length (objs s)" "j \<noteq> i"
  obtain p' k' where o': "us ! j = (p', k')" by fastforce
  have "(p', k') \<in> set (A @ B)" using nth_in_drop_nth [of j us i] j o' o(3) list_all2_lengthD [OF u(3)] by simp
  then have "p' + k' \<le> p \<or> p + k \<le> p'"
    using used_list_disjoint [OF _ o(2)] smem_okD [OF u(1)] by (auto simp: smem_lay_def)
  then show "unat (fst (objs s ! i)) + 4 * length (snd (objs s ! i)) \<le> unat (fst (objs s ! j)) \<or>
     unat (fst (objs s ! j)) + 4 * length (snd (objs s ! j)) \<le> unat (fst (objs s ! i))"
    using addr [OF i o(1)] addr [OF j(1) o'] by linarith
qed


section \<open>Properties\<close>

text \<open>
  C15. Every program that allocates, writes, resizes and frees, from a heap made by \<open>rt_smem_init\<close>: no call
  faults and every call returns, whatever the order of the calls and the sizes up to 0xFFFFFFFC bytes (beyond that the
  code takes the size for 1, see \<open>smem_alloc_huge\<close>); each object keeps exactly the words the program
  stored in it, a resized one the words that still fit; its address is a multiple of 4, it lies within the memory
  given to the heap, and no two objects overlap.
\<close>

theorem smem_runs:
  assumes "heap_region b z" and "list_all heap_sizes is"
  shows "\<exists>s. run_steps client_step (heap_boot b z raw) is = Some s \<and>
     (\<forall>i < length (objs s). let (a, ws) = objs s ! i in
        fetch (sm s) a (length ws) = ws \<and> a AND 3 = 0 \<and> unat b \<le> unat a \<and> unat a + 4 * length ws \<le> unat b + unat z) \<and>
     (\<forall>i < length (objs s). \<forall>j < length (objs s). i \<noteq> j \<longrightarrow>
        unat (fst (objs s ! i)) + 4 * length (snd (objs s ! i)) \<le> unat (fst (objs s ! j)) \<or>
        unat (fst (objs s ! j)) + 4 * length (snd (objs s ! j)) \<le> unat (fst (objs s ! i)))"
proof -
  obtain s h e where s: "run_steps client_step (heap_boot b z raw) is = Some s" "client_ok h e s" "unat b \<le> unat h"
    "unat h + unat e \<le> unat b + unat z"
    using heap_program.inv_run [OF assms(2), of b z raw] assms(1) by (auto simp: heap_inv_def)
  show ?thesis
    using s client_object [OF s(2)] by (intro exI [of _ s]) (fastforce simp: Let_def split: prod.splits)
qed

definition sample_program :: "heap_input list" where
  "sample_program = [Alloc 8, Alloc 20, Put 0 1 7, Put 1 4 9, Resize 0 40, Release 1]"

theorem smem_runs_witness:
  "\<exists>s. run_steps client_step (heap_boot 0x20000000 400 (\<lambda>_. 0)) sample_program = Some s \<and>
     (\<forall>i < length (objs s). let (a, ws) = objs s ! i in
        fetch (sm s) a (length ws) = ws \<and> a AND 3 = 0 \<and> unat (0x20000000 :: u32) \<le> unat a \<and>
        unat a + 4 * length ws \<le> unat (0x20000000 :: u32) + unat (400 :: u32)) \<and>
     (\<forall>i < length (objs s). \<forall>j < length (objs s). i \<noteq> j \<longrightarrow>
        unat (fst (objs s ! i)) + 4 * length (snd (objs s ! i)) \<le> unat (fst (objs s ! j)) \<or>
        unat (fst (objs s ! j)) + 4 * length (snd (objs s ! j)) \<le> unat (fst (objs s ! i)))"
  by (rule smem_runs) (simp_all add: heap_region_def sample_program_def heap_sizes_def)

text \<open>
  C16. When a program whose sizes are at most 0xFFFFFFFC bytes has freed everything it allocated, whatever it did before
  with the objects it had, and only inside them, nothing is accounted as used and the
  heap is one block again: an allocation of its whole size succeeds.
\<close>

theorem smem_all_freed:
  assumes "heap_region b z" and "list_all heap_sizes is"
    and "run_steps client_step (heap_boot b z raw) is = Some s" and "objs s = []"
  shows "mem_used (sm s) = 0 \<and>
     (\<exists>m. rt_smem_alloc (sm s) (mem_size_aligned (sm s)) = Some (Inr (Some (heap_ptr (sm s) + SIZEOF_STRUCT_MEM), m)))"
proof -
  obtain h e where c: "client_ok h e s"
    using heap_program.inv_run [OF assms(2), of b z raw] assms(1,3) by (auto simp: heap_inv_def)
  then obtain bs where ok: "smem_ok (sm s) bs" "used_list 0 bs = []"
    using assms(4) by (auto simp: client_ok_def)
  note e = smem_bounds [OF smem_okD [OF ok(1)]]
  have bs: "bs = [(extent bs, False)]" by (rule single_block [OF _ ok(2)]) (use ok e(5) in \<open>auto simp: smem_ok_def\<close>)
  have "used_bytes bs = 0" by (subst bs) simp
  then have u: "mem_used (sm s) = 0" using ok(1) by (simp add: smem_ok_def)
  let ?n = "mem_size_aligned (sm s)"
  have "4 dvd extent bs" using smem_block(7) [of "sm s" "[]" "extent bs" False "[]"] smem_okD [OF ok(1)] bs by simp
  then have "4 dvd unat ?n" using e(2) by (simp add: dvd_diff_nat)
  then have r: "request ?n = extent bs - 12" using request_aligned [of ?n] e(2,5) by simp
  have "first_fit (request ?n) bs = Some 0" by (subst bs) (use r e(5) in simp)
  moreover have "?n \<noteq> 0" using e(2,5) by auto
  ultimately show ?thesis using smem_alloc_ok [OF ok(1)] u by fastforce
qed

text \<open>A program run from a heap of 400 bytes, computed step by step.\<close>

lemma heap_round_trip:
  "\<exists>s. run_steps client_step (heap_boot 0x20000000 400 (\<lambda>_. 0)) [Alloc 8, Alloc 4, Release 0, Release 0] = Some s \<and> objs s = []"
  by (simp add: heap_boot_def rt_smem_init_def RT_ALIGN_def RT_ALIGN_DOWN_def SIZEOF_SMALL_MEM_def mem_sizes Let_def
      item_defs MEM_FREED_def MEM_USED_def MEM_MASK_def rt_smem_alloc_def smem_find.simps MEM_ISUSED_def smem_take_def
      split_block_def count_used_def smem_skip_used.simps rt_smem_free_def MEM_POOL_def plug_holes_def plug_forward_def
      plug_backward_def drop_nth_def)

theorem smem_all_freed_witness:
  "\<exists>s. run_steps client_step (heap_boot 0x20000000 400 (\<lambda>_. 0)) [Alloc 8, Alloc 4, Release 0, Release 0] = Some s \<and> objs s = [] \<and>
     mem_used (sm s) = 0 \<and>
     (\<exists>m. rt_smem_alloc (sm s) (mem_size_aligned (sm s)) = Some (Inr (Some (heap_ptr (sm s) + SIZEOF_STRUCT_MEM), m)))"
proof -
  obtain s where s: "run_steps client_step (heap_boot 0x20000000 400 (\<lambda>_. 0)) [Alloc 8, Alloc 4, Release 0, Release 0] = Some s" "objs s = []"
    using heap_round_trip by blast
  have "heap_region 0x20000000 400" "list_all heap_sizes [Alloc 8, Alloc 4, Release 0, Release 0]"
    by (simp_all add: heap_region_def heap_sizes_def)
  from smem_all_freed [OF this s] s show ?thesis by blast
qed

end
