(* ===== verification/Kstring.thy ===== *)
theory Kstring
  imports Prelude
begin

text \<open>
  Memory and strings (\<open>rt-thread/src/kservice.c\<close>): filling, copying, moving and comparing memory, and the C string
  functions. Memory is a byte at every 32-bit address; addresses wrap as on the processor. \<open>char\<close> is unsigned, as the
  ARM ABI has it. A loop that looks for the end of a string may not find one; such a loop is partial.
\<close>

type_synonym memory = "u32 \<Rightarrow> u8"

section \<open>Operations\<close>

text \<open>Words in memory, lowest byte first.\<close>

definition load_long :: "memory \<Rightarrow> u32 \<Rightarrow> u32" where
  "load_long m a = ucast (m a) OR push_bit 8 (ucast (m (a + 1))) OR push_bit 16 (ucast (m (a + 2))) OR push_bit 24 (ucast (m (a + 3)))"

definition store_long :: "u32 \<Rightarrow> u32 \<Rightarrow> memory \<Rightarrow> memory" where
  "store_long a v m = m(a := ucast v, a + 1 := ucast (drop_bit 8 v), a + 2 := ucast (drop_bit 16 v), a + 3 := ucast (drop_bit 24 v))"

lemma smaller_count: "k \<le> n \<Longrightarrow> 0 < k \<Longrightarrow> unat (n - k) < unat n" for n k :: u32
  by (metis unat_sub word_le_nat_alt word_neq_0_conv diff_less le_zero_eq less_le_trans unat_gt_0 word_less_nat_alt unat_0)

function set_blocks :: "u32 \<Rightarrow> u32 \<Rightarrow> u32 \<Rightarrow> memory \<Rightarrow> u32 \<times> u32 \<times> memory" where
  "set_blocks buffer a count m =
     (if count \<ge> 16 then
        set_blocks buffer (a + 16) (count - 16)
          (store_long (a + 12) buffer (store_long (a + 8) buffer (store_long (a + 4) buffer (store_long a buffer m))))
      else (a, count, m))"
  by pat_completeness auto
termination by (relation "measure (\<lambda>(_, _, count, _). unat count)") (auto intro: smaller_count)

function set_longs :: "u32 \<Rightarrow> u32 \<Rightarrow> u32 \<Rightarrow> memory \<Rightarrow> u32 \<times> u32 \<times> memory" where
  "set_longs buffer a count m =
     (if count \<ge> 4 then set_longs buffer (a + 4) (count - 4) (store_long a buffer m) else (a, count, m))"
  by pat_completeness auto
termination by (relation "measure (\<lambda>(_, _, count, _). unat count)") (auto intro: smaller_count)

function set_bytes :: "u8 \<Rightarrow> u32 \<Rightarrow> u32 \<Rightarrow> memory \<Rightarrow> memory" where
  "set_bytes d a count m = (if count \<noteq> 0 then set_bytes d (a + 1) (count - 1) (m(a := d)) else m)"
  by pat_completeness auto
termination by (relation "measure (\<lambda>(_, _, count, _). unat count)") (auto intro: measure_unat)

definition rt_memset :: "u32 \<Rightarrow> u32 \<Rightarrow> u32 \<Rightarrow> memory \<Rightarrow> memory" where
  "rt_memset s c count m =
     (let d = c AND 0xff;
          (a, count, m) =
            (if \<not> count < 4 \<and> s AND 3 = 0 then
               (let buffer = push_bit 8 d OR d;
                    buffer = buffer OR push_bit 16 buffer;
                    (a, count, m) = set_blocks buffer s count m
                in set_longs buffer a count m)
             else (s, count, m))
      in set_bytes (ucast d) a count m)"

definition copy_long :: "u32 \<Rightarrow> u32 \<Rightarrow> memory \<Rightarrow> memory" where
  "copy_long d s m = store_long d (load_long m s) m"

function copy_blocks :: "u32 \<Rightarrow> u32 \<Rightarrow> u32 \<Rightarrow> memory \<Rightarrow> u32 \<times> u32 \<times> u32 \<times> memory" where
  "copy_blocks d s count m =
     (if count \<ge> 16 then
        copy_blocks (d + 16) (s + 16) (count - 16)
          (copy_long (d + 12) (s + 12) (copy_long (d + 8) (s + 8) (copy_long (d + 4) (s + 4) (copy_long d s m))))
      else (d, s, count, m))"
  by pat_completeness auto
termination by (relation "measure (\<lambda>(_, _, count, _). unat count)") (auto intro: smaller_count)

function copy_longs :: "u32 \<Rightarrow> u32 \<Rightarrow> u32 \<Rightarrow> memory \<Rightarrow> u32 \<times> u32 \<times> u32 \<times> memory" where
  "copy_longs d s count m =
     (if count \<ge> 4 then copy_longs (d + 4) (s + 4) (count - 4) (copy_long d s m) else (d, s, count, m))"
  by pat_completeness auto
termination by (relation "measure (\<lambda>(_, _, count, _). unat count)") (auto intro: smaller_count)

function copy_up :: "u32 \<Rightarrow> u32 \<Rightarrow> u32 \<Rightarrow> memory \<Rightarrow> memory" where
  "copy_up d s count m = (if count \<noteq> 0 then copy_up (d + 1) (s + 1) (count - 1) (m(d := m s)) else m)"
  by pat_completeness auto
termination by (relation "measure (\<lambda>(_, _, count, _). unat count)") (auto intro: measure_unat)

definition rt_memcpy :: "u32 \<Rightarrow> u32 \<Rightarrow> u32 \<Rightarrow> memory \<Rightarrow> memory" where
  "rt_memcpy dst src count m =
     (let (d, s, count, m) =
            (if \<not> count < 16 \<and> (src AND 3) OR (dst AND 3) = 0 then
               (let (d, s, count, m) = copy_blocks dst src count m in copy_longs d s count m)
             else (dst, src, count, m))
      in copy_up d s count m)"

text \<open>From the end; \<open>d\<close> and \<open>s\<close> are one past the bytes that are left.\<close>

function copy_down :: "u32 \<Rightarrow> u32 \<Rightarrow> u32 \<Rightarrow> memory \<Rightarrow> memory" where
  "copy_down d s count m =
     (if count \<noteq> 0 then copy_down (d - 1) (s - 1) (count - 1) (m(d - 1 := m (s - 1))) else m)"
  by pat_completeness auto
termination by (relation "measure (\<lambda>(_, _, count, _). unat count)") (auto intro: measure_unat)

definition rt_memmove :: "u32 \<Rightarrow> u32 \<Rightarrow> u32 \<Rightarrow> memory \<Rightarrow> memory" where
  "rt_memmove dst src n m =
     (if src < dst \<and> dst < src + n then copy_down (dst + n) (src + n) n m else copy_up dst src n m)"

function rt_memcmp :: "memory \<Rightarrow> u32 \<Rightarrow> u32 \<Rightarrow> u32 \<Rightarrow> int" where
  "rt_memcmp m cs ct count =
     (if 0 < count then
        (let res = uint (m cs) - uint (m ct) in if res \<noteq> 0 then res else rt_memcmp m (cs + 1) (ct + 1) (count - 1))
      else 0)"
  by pat_completeness auto
termination by (relation "measure (\<lambda>(_, _, _, count). unat count)") (auto intro: measure_unat simp: word_gt_0)

text \<open>The address of the end of a string.\<close>

partial_function (option) string_end :: "memory \<Rightarrow> u32 \<Rightarrow> u32 option" where
  "string_end m sc = (if m sc \<noteq> 0 then string_end m (sc + 1) else Some sc)"

definition rt_strlen :: "memory \<Rightarrow> u32 \<Rightarrow> u32 option" where
  "rt_strlen m s = map_option (\<lambda>sc. sc - s) (string_end m s)"

lemma next_offset: "sc - s < n \<Longrightarrow> unat (sc + 1 - s) = Suc (unat (sc - s))" for sc s n :: u32
  using unat_inc_less [of "sc - s" n] by (simp add: algebra_simps)

function string_limit :: "memory \<Rightarrow> u32 \<Rightarrow> u32 \<Rightarrow> u32 \<Rightarrow> u32" where
  "string_limit m s maxlen sc = (if m sc \<noteq> 0 \<and> sc - s < maxlen then string_limit m s maxlen (sc + 1) else sc)"
  by pat_completeness auto
termination
proof (relation "measure (\<lambda>(_, s, maxlen, sc). unat maxlen - unat (sc - s))")
  fix m :: memory and s maxlen sc :: u32
  assume a: "m sc \<noteq> 0 \<and> sc - s < maxlen"
  then have "unat (sc - s) < unat maxlen" by (simp add: word_less_nat_alt)
  with a show "((m, s, maxlen, sc + 1), m, s, maxlen, sc) \<in> measure (\<lambda>(_, s, maxlen, sc). unat maxlen - unat (sc - s))"
    using next_offset [of sc s maxlen] by simp
qed simp

definition rt_strnlen :: "memory \<Rightarrow> u32 \<Rightarrow> u32 \<Rightarrow> u32" where
  "rt_strnlen m s maxlen = string_limit m s maxlen s - s"

text \<open>The lengths are \<open>int\<close>s of the program.\<close>

function search :: "memory \<Rightarrow> u32 \<Rightarrow> int \<Rightarrow> u32 \<Rightarrow> int \<Rightarrow> u32 option" where
  "search m s1 l1 s2 l2 =
     (if l1 \<ge> l2 then if rt_memcmp m s1 s2 (word_of_int l2) = 0 then Some s1 else search m (s1 + 1) (l1 - 1) s2 l2 else None)"
  by pat_completeness auto
termination by (relation "measure (\<lambda>(_, _, l1, _, l2). nat (l1 - l2 + 1))") auto

definition rt_strstr :: "memory \<Rightarrow> u32 \<Rightarrow> u32 \<Rightarrow> u32 option option" where
  "rt_strstr m s1 s2 =
     (case rt_strlen m s2 of None \<Rightarrow> None
      | Some n2 \<Rightarrow>
          let l2 = sint n2
          in if l2 = 0 then Some (Some s1)
             else map_option (\<lambda>n1. search m s1 (sint n1) s2 l2) (rt_strlen m s1))"

definition lower :: "u8 \<Rightarrow> int" where
  "lower c = (let ca = uint c in if 65 \<le> ca \<and> ca \<le> 90 then ca + (97 - 65) else ca)"

partial_function (option) rt_strcasecmp :: "memory \<Rightarrow> u32 \<Rightarrow> u32 \<Rightarrow> int option" where
  "rt_strcasecmp m a b =
     (let ca = lower (m a); cb = lower (m b) in if ca = cb \<and> ca \<noteq> 0 then rt_strcasecmp m (a + 1) (b + 1) else Some (ca - cb))"

function copy_string :: "u32 \<Rightarrow> u32 \<Rightarrow> u32 \<Rightarrow> memory \<Rightarrow> memory" where
  "copy_string d s n m =
     (let m' = m(d := m s)
      in if m s = 0 then set_bytes 0 (d + 1) (n - 1) m'
         else if n - 1 \<noteq> 0 then copy_string (d + 1) (s + 1) (n - 1) m' else m')"
  by pat_completeness auto
termination
proof (relation "measure (\<lambda>(_, _, n, _). unat (n - 1))")
  fix d s n :: u32 and m m' :: memory
  assume "n - 1 \<noteq> 0"
  then show "((d + 1, s + 1, n - 1, m'), d, s, n, m) \<in> measure (\<lambda>(_, _, n, _). unat (n - 1))"
    using measure_unat [of "n - 1"] by simp
qed simp

definition rt_strncpy :: "u32 \<Rightarrow> u32 \<Rightarrow> u32 \<Rightarrow> memory \<Rightarrow> memory" where
  "rt_strncpy dst src n m = (if n \<noteq> 0 then copy_string dst src n m else m)"

partial_function (option) rt_strcpy :: "u32 \<Rightarrow> u32 \<Rightarrow> memory \<Rightarrow> memory option" where
  "rt_strcpy dst src m = (if m src \<noteq> 0 then rt_strcpy (dst + 1) (src + 1) (m(dst := m src)) else Some (m(dst := 0)))"

text \<open>The result of a comparison is kept in a signed byte here.\<close>

function rt_strncmp :: "memory \<Rightarrow> u32 \<Rightarrow> u32 \<Rightarrow> u32 \<Rightarrow> int" where
  "rt_strncmp m cs ct count =
     (if count \<noteq> 0 then
        (let res = m cs - m ct in if res \<noteq> 0 \<or> m cs = 0 then sint res else rt_strncmp m (cs + 1) (ct + 1) (count - 1))
      else 0)"
  by pat_completeness auto
termination by (relation "measure (\<lambda>(_, _, _, count). unat count)") (auto intro: measure_unat)

partial_function (option) rt_strcmp :: "memory \<Rightarrow> u32 \<Rightarrow> u32 \<Rightarrow> int option" where
  "rt_strcmp m cs ct = (if m cs \<noteq> 0 \<and> m cs = m ct then rt_strcmp m (cs + 1) (ct + 1) else Some (uint (m cs) - uint (m ct)))"

declare set_blocks.simps [simp del] set_longs.simps [simp del] set_bytes.simps [simp del] copy_blocks.simps [simp del]
  copy_longs.simps [simp del] copy_up.simps [simp del] copy_down.simps [simp del] rt_memcmp.simps [simp del]
  string_limit.simps [simp del] search.simps [simp del] copy_string.simps [simp del] rt_strncmp.simps [simp del]

section \<open>Memory operations write what they say\<close>

text \<open>The first \<open>k\<close> bytes from \<open>d\<close> on are those of \<open>f\<close>.\<close>

definition written :: "u32 \<Rightarrow> nat \<Rightarrow> (u32 \<Rightarrow> u8) \<Rightarrow> memory \<Rightarrow> memory" where
  "written d k f m = (\<lambda>a. if unat (a - d) < k then f (a - d) else m a)"

lemma written_0 [simp]: "written d 0 f m = m"
  by (simp add: written_def)

lemma offset_at:
  fixes a s :: u32
  assumes "k < 4294967296"
  shows "unat (a - s) = k \<longleftrightarrow> a = s + of_nat k"
proof
  assume "unat (a - s) = k"
  then have "of_nat k = a - s" by auto
  then show "a = s + of_nat k" by simp
qed (use assms in \<open>simp add: unsigned_of_nat take_bit_nat_eq_self\<close>)

lemma written_step:
  "k < 4294967296 \<Longrightarrow> v = f (of_nat k) \<Longrightarrow> (written d k f m)(d + of_nat k := v) = written d (k + 1) f m"
  using offset_at [of k _ d] by (auto simp: written_def fun_eq_iff less_Suc_eq)

lemma written_out: "k \<le> unat (a - d) \<Longrightarrow> written d k f m a = m a"
  by (simp add: written_def)

text \<open>Four bytes at once.\<close>

lemma written_long:
  assumes "k + 4 \<le> 4294967296" and "ucast v = f (of_nat k)" and "ucast (drop_bit 8 v) = f (of_nat k + 1)"
    and "ucast (drop_bit 16 v) = f (of_nat k + 2)" and "ucast (drop_bit 24 v) = f (of_nat k + 3)"
  shows "store_long (d + of_nat k) v (written d k f m) = written d (k + 4) f m"
proof -
  have s: "(written d k f m)(d + of_nat k := ucast v) = written d (k + 1) f m"
    using written_step [of k "ucast v" f d m] assms(1,2) by simp
  have s1: "(written d (k + 1) f m)(d + of_nat k + 1 := ucast (drop_bit 8 v)) = written d (k + 2) f m"
    using written_step [of "k + 1" "ucast (drop_bit 8 v)" f d m] assms(1,3) by (simp add: ac_simps)
  have s2: "(written d (k + 2) f m)(d + of_nat k + 2 := ucast (drop_bit 16 v)) = written d (k + 3) f m"
    using written_step [of "k + 2" "ucast (drop_bit 16 v)" f d m] assms(1,4) by (simp add: ac_simps numeral_3_eq_3)
  have s3: "(written d (k + 3) f m)(d + of_nat k + 3 := ucast (drop_bit 24 v)) = written d (k + 4) f m"
    using written_step [of "k + 3" "ucast (drop_bit 24 v)" f d m] assms(1,5) by (simp add: ac_simps)
  show ?thesis unfolding store_long_def s s1 s2 s3 ..
qed

lemma count_left: "c \<le> n \<Longrightarrow> unat (n - c) = unat n - unat c" for c n :: u32
  by (rule unat_sub)

text \<open>A word of four equal bytes.\<close>

definition all_bytes :: "u8 \<Rightarrow> u32 \<Rightarrow> bool" where
  "all_bytes v w \<longleftrightarrow> ucast w = v \<and> ucast (drop_bit 8 w) = v \<and> ucast (drop_bit 16 w) = v \<and> ucast (drop_bit 24 w) = v"

lemma set_bytes_written:
  "k + unat count \<le> 4294967296 \<Longrightarrow>
   set_bytes v (s + of_nat k) count (written s k (\<lambda>_. v) m) = written s (k + unat count) (\<lambda>_. v) m"
proof (induction "unat count" arbitrary: k count)
  case 0
  then show ?case by (simp add: set_bytes.simps unat_eq_0)
next
  case (Suc n)
  then have c0: "count \<noteq> 0" by auto
  then have c: "count \<noteq> 0" "unat (count - 1) = n" using unat_dec_pos [OF c0] Suc.hyps(2) by simp_all
  have "set_bytes v (s + of_nat k) count (written s k (\<lambda>_. v) m) = set_bytes v (s + of_nat (k + 1)) (count - 1) (written s (k + 1) (\<lambda>_. v) m)"
    using c(1) Suc.prems Suc.hyps(2) written_step [of k v "\<lambda>_. v" s m] by (subst set_bytes.simps) (simp add: ac_simps)
  also have "\<dots> = written s (k + 1 + unat (count - 1)) (\<lambda>_. v) m"
    by (rule Suc.hyps(1)) (use c Suc.hyps(2) Suc.prems in simp_all)
  finally show ?case using c by (simp flip: Suc.hyps(2))
qed

lemma set_longs_written:
  assumes "all_bytes v w"
  shows "k + unat count \<le> 4294967296 \<Longrightarrow> \<exists>k' count'. k' + unat count' = k + unat count \<and>
     set_longs w (s + of_nat k) count (written s k (\<lambda>_. v) m) = (s + of_nat k', count', written s k' (\<lambda>_. v) m)"
proof (induction "unat count" arbitrary: k count rule: less_induct)
  case less
  show ?case
  proof (cases "4 \<le> count")
    case True
    have c: "unat (count - 4) = unat count - 4" "4 \<le> unat count" using count_left [OF True] True by (simp_all add: word_le_nat_alt)
    have "set_longs w (s + of_nat k) count (written s k (\<lambda>_. v) m) = set_longs w (s + of_nat (k + 4)) (count - 4) (written s (k + 4) (\<lambda>_. v) m)"
      using True written_long [of k w "\<lambda>_. v" s m] less.prems assms c(2) by (subst set_longs.simps) (simp add: all_bytes_def add.assoc)
    moreover obtain k' count' where "k' + unat count' = k + 4 + unat (count - 4)"
      "set_longs w (s + of_nat (k + 4)) (count - 4) (written s (k + 4) (\<lambda>_. v) m) = (s + of_nat k', count', written s k' (\<lambda>_. v) m)"
      using less.hyps [of "count - 4" "k + 4"] c less.prems by auto
    ultimately show ?thesis using c by auto
  next
    case False
    then have "set_longs w (s + of_nat k) count (written s k (\<lambda>_. v) m) = (s + of_nat k, count, written s k (\<lambda>_. v) m)"
      by (subst set_longs.simps) simp
    then show ?thesis by blast
  qed
qed

lemma set_blocks_longs: "\<exists>k' count'. k' + unat count' = k + unat count \<and>
     set_blocks w (s + of_nat k) count (written s k (\<lambda>_. v) m) = (s + of_nat k', count', written s k' (\<lambda>_. v) m)"
  if "all_bytes v w" "k + unat count \<le> 4294967296"
  using that(2)
proof (induction "unat count" arbitrary: k count rule: less_induct)
  case less
  show ?case
  proof (cases "16 \<le> count")
    case True
    have c: "unat (count - 16) = unat count - 16" "16 \<le> unat count" using count_left [OF True] True by (simp_all add: word_le_nat_alt)
    let ?W = "\<lambda>k. written s k (\<lambda>_. v) m"
    have st: "store_long (s + of_nat j) w (?W j) = ?W (j + 4)" if "j \<le> k + 12" for j
      by (rule written_long) (use that \<open>all_bytes v w\<close> less.prems c(2) in \<open>simp_all add: all_bytes_def\<close>)
    have "store_long (s + of_nat k + 12) w (store_long (s + of_nat k + 8) w (store_long (s + of_nat k + 4) w (store_long (s + of_nat k) w (?W k)))) = ?W (k + 16)"
      using st [of k] st [of "k + 4"] st [of "k + 8"] st [of "k + 12"] by (simp add: add.assoc)
    then have "set_blocks w (s + of_nat k) count (?W k) = set_blocks w (s + of_nat (k + 16)) (count - 16) (?W (k + 16))"
      using True by (subst set_blocks.simps) (simp add: add.assoc)
    moreover obtain k' count' where "k' + unat count' = k + 16 + unat (count - 16)"
      "set_blocks w (s + of_nat (k + 16)) (count - 16) (?W (k + 16)) = (s + of_nat k', count', ?W k')"
      using less.hyps [of "count - 16" "k + 16"] c less.prems by auto
    ultimately show ?thesis using c by auto
  next
    case False
    then have "set_blocks w (s + of_nat k) count (written s k (\<lambda>_. v) m) = (s + of_nat k, count, written s k (\<lambda>_. v) m)"
      by (subst set_blocks.simps) simp
    then show ?thesis by blast
  qed
qed


lemma load_long_bytes:
  "ucast (load_long m a) = m a" "ucast (drop_bit 8 (load_long m a)) = m (a + 1)"
  "ucast (drop_bit 16 (load_long m a)) = m (a + 2)" "ucast (drop_bit 24 (load_long m a)) = m (a + 3)"
  by (rule bit_word_eqI, auto simp: load_long_def bit_simps dest: bit_imp_le_length)+

text \<open>Where a copy upwards does not write over bytes it has still to read.\<close>

definition apart :: "u32 \<Rightarrow> u32 \<Rightarrow> nat \<Rightarrow> bool" where
  "apart d s n \<longleftrightarrow> d = s \<or> n \<le> unat (d - s)"

lemma source_kept:
  assumes "apart d s n" and "k \<le> j" and "j < n" and "n \<le> 4294967296"
  shows "k \<le> unat (s + of_nat j - d)"
proof (cases "d = s")
  case True
  then show ?thesis using assms by (simp add: unsigned_of_nat take_bit_nat_eq_self)
next
  case False
  define e where "e = unat (d - s)"
  have e: "n \<le> e" "e < 4294967296" using assms(1) False unat_u32_lt [of "d - s"] by (simp_all add: apart_def e_def)
  have "of_nat (4294967296 + j - e) = (of_nat j - of_nat e :: u32)" using e by (simp add: of_nat_diff)
  moreover have "of_nat e = d - s" by (simp add: e_def)
  ultimately have "s + of_nat j - d = of_nat (4294967296 + j - e)" by simp
  moreover have "4294967296 + j - e < 4294967296" using e assms(3) by linarith
  ultimately have "unat (s + of_nat j - d) = 4294967296 + j - e" using offset_at [of "4294967296 + j - e" _ 0] by simp
  then show ?thesis using e assms(2) by linarith
qed

definition copied :: "u32 \<Rightarrow> u32 \<Rightarrow> nat \<Rightarrow> memory \<Rightarrow> memory" where
  "copied d s k m = written d k (\<lambda>x. m (s + x)) m"

lemma copied_source:
  "apart d s n \<Longrightarrow> k \<le> j \<Longrightarrow> j < n \<Longrightarrow> n \<le> 4294967296 \<Longrightarrow> copied d s k m (s + of_nat j) = m (s + of_nat j)"
  unfolding copied_def by (rule written_out) (rule source_kept)

lemma copied_long:
  assumes "apart d s n" and "k + 4 \<le> n" and "n \<le> 4294967296"
  shows "copy_long (d + of_nat k) (s + of_nat k) (copied d s k m) = copied d s (k + 4) m"
proof -
  have b: "copied d s k m (s + of_nat k) = m (s + of_nat k)" "copied d s k m (s + of_nat k + 1) = m (s + of_nat k + 1)"
    "copied d s k m (s + of_nat k + 2) = m (s + of_nat k + 2)" "copied d s k m (s + of_nat k + 3) = m (s + of_nat k + 3)"
    using copied_source [OF assms(1), of k k m] copied_source [OF assms(1), of k "k + 1" m]
      copied_source [OF assms(1), of k "k + 2" m] copied_source [OF assms(1), of k "k + 3" m] assms(2,3) by (simp_all add: ac_simps)
  show ?thesis unfolding copy_long_def copied_def
    by (rule written_long) (use assms b in \<open>simp_all add: load_long_bytes copied_def [symmetric] add.assoc\<close>)
qed


lemma copy_up_copied:
  assumes "apart d s n" and "n \<le> 4294967296"
  shows "k + unat count = n \<Longrightarrow> copy_up (d + of_nat k) (s + of_nat k) count (copied d s k m) = copied d s n m"
proof (induction "unat count" arbitrary: k count)
  case 0
  then show ?case by (simp add: copy_up.simps unat_eq_0)
next
  case (Suc c)
  then have c0: "count \<noteq> 0" by auto
  have c: "unat (count - 1) = c" using unat_dec_pos [OF c0] Suc.hyps(2) by simp
  have k: "k < n" "k + 1 + unat (count - 1) = n" using c Suc.hyps(2) Suc.prems by simp_all
  have "(copied d s k m)(d + of_nat k := copied d s k m (s + of_nat k)) = copied d s (k + 1) m"
    using copied_source [OF assms(1) order_refl k(1) assms(2)] k(1) assms(2) unfolding copied_def by (intro written_step) simp_all
  then have "copy_up (d + of_nat k) (s + of_nat k) count (copied d s k m) =
      copy_up (d + of_nat (k + 1)) (s + of_nat (k + 1)) (count - 1) (copied d s (k + 1) m)"
    using c0 by (subst copy_up.simps) (simp add: ac_simps)
  also have "\<dots> = copied d s n m" by (rule Suc.hyps(1)) (use c k in simp_all)
  finally show ?case .
qed

lemma copy_longs_copied:
  assumes "apart d s n" and "n \<le> 4294967296"
  shows "k + unat count = n \<Longrightarrow> \<exists>k' count'. k' + unat count' = n \<and>
     copy_longs (d + of_nat k) (s + of_nat k) count (copied d s k m) = (d + of_nat k', s + of_nat k', count', copied d s k' m)"
proof (induction "unat count" arbitrary: k count rule: less_induct)
  case less
  show ?case
  proof (cases "4 \<le> count")
    case True
    have c: "unat (count - 4) = unat count - 4" "4 \<le> unat count" using count_left [OF True] True by (simp_all add: word_le_nat_alt)
    have "copy_longs (d + of_nat k) (s + of_nat k) count (copied d s k m) =
       copy_longs (d + of_nat (k + 4)) (s + of_nat (k + 4)) (count - 4) (copied d s (k + 4) m)"
      using True copied_long [OF assms(1), of k m] less.prems assms(2) c(2) by (subst copy_longs.simps) (simp add: add.assoc)
    then show ?thesis using less.hyps [of "count - 4" "k + 4"] c less.prems by simp
  next
    case False
    then show ?thesis using less.prems by (subst copy_longs.simps) auto
  qed
qed

lemma copy_blocks_copied:
  assumes "apart d s n" and "n \<le> 4294967296"
  shows "k + unat count = n \<Longrightarrow> \<exists>k' count'. k' + unat count' = n \<and>
     copy_blocks (d + of_nat k) (s + of_nat k) count (copied d s k m) = (d + of_nat k', s + of_nat k', count', copied d s k' m)"
proof (induction "unat count" arbitrary: k count rule: less_induct)
  case less
  show ?case
  proof (cases "16 \<le> count")
    case True
    have c: "unat (count - 16) = unat count - 16" "16 \<le> unat count" using count_left [OF True] True by (simp_all add: word_le_nat_alt)
    have st: "copy_long (d + of_nat j) (s + of_nat j) (copied d s j m) = copied d s (j + 4) m" if "j \<le> k + 12" for j
      by (rule copied_long [OF assms(1)]) (use that less.prems c(2) assms(2) in simp_all)
    have "copy_long (d + of_nat k + 12) (s + of_nat k + 12) (copy_long (d + of_nat k + 8) (s + of_nat k + 8)
        (copy_long (d + of_nat k + 4) (s + of_nat k + 4) (copy_long (d + of_nat k) (s + of_nat k) (copied d s k m)))) = copied d s (k + 16) m"
      using st [of k] st [of "k + 4"] st [of "k + 8"] st [of "k + 12"] by (simp add: add.assoc)
    then have "copy_blocks (d + of_nat k) (s + of_nat k) count (copied d s k m) =
       copy_blocks (d + of_nat (k + 16)) (s + of_nat (k + 16)) (count - 16) (copied d s (k + 16) m)"
      using True by (subst copy_blocks.simps) (simp add: add.assoc)
    then show ?thesis using less.hyps [of "count - 16" "k + 16"] c less.prems by simp
  next
    case False
    then show ?thesis using less.prems by (subst copy_blocks.simps) auto
  qed
qed

text \<open>Downwards, the last \<open>k\<close> of \<open>n\<close> bytes are copied.\<close>

definition copied_end :: "u32 \<Rightarrow> u32 \<Rightarrow> nat \<Rightarrow> nat \<Rightarrow> memory \<Rightarrow> memory" where
  "copied_end d s n k m = (\<lambda>a. if n - k \<le> unat (a - d) \<and> unat (a - d) < n then m (s + (a - d)) else m a)"

lemma copy_down_copied:
  assumes a: "n \<le> unat (s - d) \<or> d = s" and n: "n \<le> 4294967296"
  shows "unat count \<le> n \<Longrightarrow> copy_down (d + of_nat (unat count)) (s + of_nat (unat count)) count (copied_end d s n (n - unat count) m) =
     copied_end d s n n m"
proof (induction "unat count" arbitrary: count)
  case 0
  then show ?case by (simp add: copy_down.simps unat_eq_0)
next
  case (Suc c)
  then have c0: "count \<noteq> 0" by auto
  have c: "unat (count - 1) = c" "unat count = c + 1" using unat_dec_pos [OF c0] Suc.hyps(2) by simp_all
  have cn: "c < n" using Suc by simp
  have src: "copied_end d s n (n - unat count) m (s + of_nat c) = m (s + of_nat c)"
  proof -
    have "\<not> (c + 1 \<le> unat (s + of_nat c - d) \<and> unat (s + of_nat c - d) < n)"
    proof (cases "d = s")
      case True
      then show ?thesis using cn n by (simp add: unsigned_of_nat take_bit_nat_eq_self)
    next
      case False
      define e where "e = unat (s - d)"
      have e: "n \<le> e" "e < 4294967296" "s - d = of_nat e" using a False unat_u32_lt [of "s - d"] by (auto simp: e_def)
      have se: "s + of_nat c - d = of_nat (e + c)" using e(3) by (simp add: algebra_simps)
      have "unat (of_nat (e + c) :: u32) = (if e + c < 4294967296 then e + c else e + c - 4294967296)"
        using e(2) cn n by (simp add: unsigned_of_nat take_bit_eq_mod mod_if del: of_nat_add)
      then show ?thesis unfolding se using e cn n by (auto simp del: of_nat_add)
    qed
    then show ?thesis using Suc.prems c(2) by (auto simp: copied_end_def)
  qed
  have "(copied_end d s n (n - (c + 1)) m)(d + of_nat c := m (s + of_nat c)) = copied_end d s n (n - c) m"
  proof
    fix a
    have n1: "n - (n - (c + 1)) = c + 1" "n - (n - c) = c" using cn by simp_all
    have "unat (a - d) = c \<longleftrightarrow> a = d + of_nat c" using offset_at [of c a d] cn n by simp
    then show "((copied_end d s n (n - (c + 1)) m)(d + of_nat c := m (s + of_nat c))) a = copied_end d s n (n - c) m a"
      using cn unfolding copied_end_def n1 by (cases "a = d + of_nat c") (auto simp: Suc_le_eq)
  qed
  then have st: "(copied_end d s n (n - unat count) m)(d + of_nat c := copied_end d s n (n - unat count) m (s + of_nat c)) = copied_end d s n (n - c) m"
    using src c(2) by simp
  have e: "d + of_nat (unat count) - 1 = d + of_nat c" "s + of_nat (unat count) - 1 = s + of_nat c" unfolding c(2) by simp_all
  have "copy_down (d + of_nat (unat count)) (s + of_nat (unat count)) count (copied_end d s n (n - unat count) m) =
      copy_down (d + of_nat (unat (count - 1))) (s + of_nat (unat (count - 1))) (count - 1) (copied_end d s n (n - unat (count - 1)) m)"
    by (subst copy_down.simps) (simp only: e c0 st c(1) if_True not_False_eq_True refl)
  also have "\<dots> = copied_end d s n n m" by (rule Suc.hyps(1)) (use c Suc.prems in simp_all)
  finally show ?case .
qed


lemma fill_word: "all_bytes (ucast (c AND 0xff)) (let b = push_bit 8 (c AND 0xff) OR (c AND 0xff) in b OR push_bit 16 b)" for c :: u32
proof -
  have m: "(0xff :: u32) = mask 8" by (simp add: mask_eq_exp_minus_1)
  show ?thesis unfolding m all_bytes_def Let_def
    by (intro conjI; rule bit_word_eqI; auto simp: bit_simps)
qed

text \<open>
  Filling memory, for every address and length, through the blocks of four words, the words and the rest: the
  \<open>count\<close> bytes from \<open>s\<close> on are the low byte of \<open>c\<close>, and no other byte changes.
\<close>

theorem rt_memset_fills: "rt_memset s c count m = (\<lambda>a. if unat (a - s) < unat count then ucast c else m a)"
proof -
  define v :: u8 where "v = ucast (c AND 0xff)"
  have v: "v = ucast c"
  proof -
    have m: "(0xff :: u32) = mask 8" by (simp add: mask_eq_exp_minus_1)
    show ?thesis unfolding v_def m by (rule bit_word_eqI) (auto simp: bit_simps)
  qed
  define w where "w = (let b = push_bit 8 (c AND 0xff) OR (c AND 0xff) in b OR push_bit 16 b)"
  have w: "all_bytes v w" unfolding v_def w_def by (rule fill_word)
  have lim: "unat count \<le> 4294967296" using unat_u32_lt [of count] by simp
  obtain k1 n1 where b: "k1 + unat n1 = unat count" "set_blocks w s count m = (s + of_nat k1, n1, written s k1 (\<lambda>_. v) m)"
    using set_blocks_longs [OF w, of 0 count s m] lim by auto
  obtain k2 n2 where l: "k2 + unat n2 = unat count" "set_longs w (s + of_nat k1) n1 (written s k1 (\<lambda>_. v) m) = (s + of_nat k2, n2, written s k2 (\<lambda>_. v) m)"
    using set_longs_written [OF w, of k1 n1 s m] lim b(1) by auto
  have "rt_memset s c count m = written s (unat count) (\<lambda>_. v) m"
  proof (cases "\<not> count < 4 \<and> s AND 3 = 0")
    case True
    then show ?thesis using b l set_bytes_written [of k2 n2 v s m] lim unfolding rt_memset_def w_def v_def by (simp add: Let_def)
  next
    case False
    then show ?thesis using set_bytes_written [of 0 count v s m] lim unfolding rt_memset_def v_def by (auto simp: Let_def)
  qed
  then show ?thesis by (simp add: written_def v)
qed

lemma rt_memcpy_copied:
  assumes "apart dst src (unat count)"
  shows "rt_memcpy dst src count m = copied dst src (unat count) m"
proof -
  let ?n = "unat count"
  have lim: "?n \<le> 4294967296" using unat_u32_lt [of count] by simp
  have c0: "copied dst src 0 m = m" by (simp add: copied_def)
  obtain k1 n1 where b: "k1 + unat n1 = ?n" "copy_blocks dst src count m = (dst + of_nat k1, src + of_nat k1, n1, copied dst src k1 m)"
    using copy_blocks_copied [OF assms lim, of 0 count m] by (auto simp: c0)
  obtain k2 n2 where l: "k2 + unat n2 = ?n"
    "copy_longs (dst + of_nat k1) (src + of_nat k1) n1 (copied dst src k1 m) = (dst + of_nat k2, src + of_nat k2, n2, copied dst src k2 m)"
    using copy_longs_copied [OF assms lim b(1)] by blast
  show ?thesis
    using b l copy_up_copied [OF assms lim, of k2 n2 m] copy_up_copied [OF assms lim, of 0 count m]
    by (auto simp: rt_memcpy_def c0)
qed

lemma unat_diff_cases: "unat (a - b) = (if unat b \<le> unat a then unat a - unat b else 4294967296 + unat a - unat b)" for a b :: u32
proof -
  have a0: "0 \<le> uint a" by simp
  have d: "int (unat (a - b)) = (int (unat a) - int (unat b)) mod 4294967296"
    using uint_word_ariths(2) [of a b] by simp
  show ?thesis
  proof (cases "unat b \<le> unat a")
    case True
    then show ?thesis by (simp add: unat_sub word_le_nat_alt)
  next
    case False
    have "(uint a - uint b) mod 4294967296 = (4294967296 + uint a - uint b) mod 4294967296"
      using mod_add_self1 [of 4294967296 "uint a - uint b"] by (simp add: algebra_simps)
    also have "\<dots> = 4294967296 + uint a - uint b"
    proof (rule mod_pos_pos_trivial)
      have "uint a < uint b" using False by (simp add: not_le word_less_def flip: word_less_nat_alt)
      moreover have "uint b < 4294967296" using uint_lt2p [of b] by simp
      ultimately show "0 \<le> 4294967296 + uint a - uint b" "4294967296 + uint a - uint b < 4294967296" using a0 by linarith+
    qed
    also have "\<dots> = int (4294967296 + unat a - unat b)" using unat_u32_lt [of b] by (simp add: of_nat_diff)
    finally have "int (unat (a - b)) = int (4294967296 + unat a - unat b)" using d by simp
    then show ?thesis unfolding of_nat_eq_iff using False by simp
  qed
qed

text \<open>
  C28. Moving memory between areas that do not wrap around the address space, however they overlap: every byte of the
  destination is the byte that was at its place in the source before, and no other byte changes. rt_memcpy, by words
  and blocks of words where both addresses are aligned, does the same unless the destination begins inside the source.
\<close>

theorem rt_memmove_moves:
  assumes "unat src + unat n < 4294967296" and "unat dst + unat n < 4294967296"
  shows "rt_memmove dst src n m = (\<lambda>a. if unat (a - dst) < unat n then m (src + (a - dst)) else m a) \<and>
     (dst = src \<or> unat n \<le> unat (dst - src) \<longrightarrow> rt_memcpy dst src n m = rt_memmove dst src n m)"
proof -
  have lim: "unat n \<le> 4294967296" using unat_u32_lt [of n] by simp
  have sn: "unat (src + n) = unat src + unat n" using assms(1) by (simp add: unat_word_ariths)
  have moved: "rt_memmove dst src n m = copied dst src (unat n) m"
  proof (cases "src < dst \<and> dst < src + n")
    case True
    then have "unat src < unat dst" "unat dst < unat src + unat n" by (simp_all add: word_less_nat_alt sn)
    then have "unat n \<le> unat (src - dst)" using assms unfolding unat_diff_cases by (simp; linarith)
    moreover have "copied_end dst src (unat n) 0 m = m" "copied_end dst src (unat n) (unat n) m = copied dst src (unat n) m"
      by (auto simp: copied_end_def copied_def written_def fun_eq_iff)
    ultimately show ?thesis
      using True copy_down_copied [OF disjI1 lim order_refl, of src dst m] by (simp add: rt_memmove_def)
  next
    case False
    then have "\<not> (unat src < unat dst \<and> unat dst < unat src + unat n)" by (simp add: word_less_nat_alt sn)
    then have "dst = src \<or> unat n \<le> unat (dst - src)" using assms by (auto simp: unat_diff_cases word_unat_eq_iff)
    then show ?thesis using False copy_up_copied [of dst src "unat n" 0 n m] lim
      unfolding rt_memmove_def apart_def by (auto simp: copied_def)
  qed
  moreover have "rt_memcpy dst src n m = copied dst src (unat n) m" if "dst = src \<or> unat n \<le> unat (dst - src)"
    using rt_memcpy_copied [of dst src n m] that by (simp add: apart_def)
  ultimately show ?thesis by (simp add: copied_def written_def fun_eq_iff)
qed


theorem rt_memmove_moves_witness:
  "rt_memmove 0x104 0x100 20 (\<lambda>a. ucast a) = (\<lambda>a. if unat (a - 0x104) < 20 then ucast (0x100 + (a - 0x104)) else ucast a) \<and>
   rt_memcpy 0x100 0x104 20 (\<lambda>a. ucast a) = rt_memmove 0x100 0x104 20 (\<lambda>a. ucast a)"
  using rt_memmove_moves [of "0x100" 20 "0x104" "\<lambda>a. ucast a"] rt_memmove_moves [of "0x104" 20 "0x100" "\<lambda>a. ucast a"] by simp

section \<open>Strings\<close>

text \<open>The characters of \<open>xs\<close> and a terminator are at \<open>s\<close>.\<close>

definition c_string :: "memory \<Rightarrow> u32 \<Rightarrow> u8 list \<Rightarrow> bool" where
  "c_string m s xs \<longleftrightarrow> length xs < 2147483648 \<and> (\<forall>i < length xs. m (s + of_nat i) = xs ! i) \<and> m (s + of_nat (length xs)) = 0 \<and> 0 \<notin> set xs"

lemma string_end_from:
  "k \<le> length xs \<Longrightarrow> c_string m s xs \<Longrightarrow> string_end m (s + of_nat k) = Some (s + of_nat (length xs))"
proof (induction "length xs - k" arbitrary: k)
  case 0
  then show ?case by (subst string_end.simps) (simp add: c_string_def)
next
  case (Suc n)
  then have k: "k < length xs" by simp
  then have "m (s + of_nat k) \<noteq> 0" using Suc.prems(2) nth_mem [of k xs] unfolding c_string_def by metis
  then have "string_end m (s + of_nat k) = string_end m (s + of_nat (k + 1))" by (subst string_end.simps) (simp add: ac_simps)
  also have "\<dots> = Some (s + of_nat (length xs))" by (rule Suc.hyps(1)) (use Suc k in auto)
  finally show ?case .
qed

lemma rt_strlen_string: "c_string m s xs \<Longrightarrow> rt_strlen m s = Some (of_nat (length xs))"
  using string_end_from [of 0 xs m s] by (simp add: rt_strlen_def)

lemma sint_length: "n < 2147483648 \<Longrightarrow> sint (of_nat n :: u32) = int n"
  by (simp add: signed_of_nat signed_take_bit_int_eq_self)

lemma rt_memcmp_equal:
  "rt_memcmp m a b count = 0 \<longleftrightarrow> (\<forall>i < unat count. m (a + of_nat i) = m (b + of_nat i))"
proof (induction "unat count" arbitrary: a b count)
  case 0
  then show ?case by (simp add: rt_memcmp.simps word_gt_0 unat_eq_0)
next
  case (Suc n)
  then have c0: "count \<noteq> 0" by auto
  have c: "n = unat (count - 1)" using unat_dec_pos [OF c0] Suc.hyps(2) by simp
  have e: "uint (m a) - uint (m b) = 0 \<longleftrightarrow> m a = m b" by (simp add: word_uint_eq_iff)
  have "rt_memcmp m a b count = 0 \<longleftrightarrow> m a = m b \<and> rt_memcmp m (a + 1) (b + 1) (count - 1) = 0"
    using c0 e by (subst rt_memcmp.simps) (auto simp: Let_def word_gt_0)
  also have "\<dots> \<longleftrightarrow> m a = m b \<and> (\<forall>i < n. m (a + of_nat (Suc i)) = m (b + of_nat (Suc i)))"
    using Suc.hyps(1) [OF c, of "a + 1" "b + 1"] by (simp add: c [symmetric] add.assoc)
  also have "\<dots> \<longleftrightarrow> (\<forall>i < Suc n. m (a + of_nat i) = m (b + of_nat i))" by (simp add: All_less_Suc2)
  finally show ?case by (simp only: Suc.hyps(2))
qed

text \<open>Where \<open>ys\<close> begins for the first time in \<open>xs\<close>.\<close>

fun first_at :: "'a list \<Rightarrow> 'a list \<Rightarrow> nat option" where
  "first_at ys [] = (if ys = [] then Some 0 else None)"
| "first_at ys (x # xs) = (if take (length ys) (x # xs) = ys then Some 0 else map_option Suc (first_at ys xs))"

lemma first_at_short: "length xs < length ys \<Longrightarrow> first_at ys xs = None"
  by (induction ys xs rule: first_at.induct) (auto dest: arg_cong [of _ _ length])

lemma search_first:
  assumes x: "c_string m s xs" and y: "c_string m t ys" and "ys \<noteq> []"
  shows "k \<le> length xs \<Longrightarrow>
    search m (s + of_nat k) (int (length xs - k)) t (int (length ys)) = map_option (\<lambda>i. s + of_nat (k + i)) (first_at ys (drop k xs))"
proof (induction "length xs - k" arbitrary: k rule: less_induct)
  case less
  have len: "unat (word_of_int (int (length ys)) :: u32) = length ys"
    using y by (simp add: c_string_def unsigned_of_nat take_bit_nat_eq_self)
  show ?case
  proof (cases "length ys \<le> length xs - k")
    case False
    then show ?thesis using first_at_short [of "drop k xs" ys] by (subst search.simps) simp
  next
    case True
    have k: "k < length xs" using True assms(3) by (cases ys) auto
    have at: "xs ! (k + i) = m (s + of_nat k + of_nat i) \<and> ys ! i = m (t + of_nat i)" if "i < length ys" for i
      using that True k x y by (simp add: c_string_def add.assoc flip: of_nat_add)
    have "rt_memcmp m (s + of_nat k) t (word_of_int (int (length ys))) = 0 \<longleftrightarrow> (\<forall>i < length ys. xs ! (k + i) = ys ! i)"
      unfolding rt_memcmp_equal len using at by metis
    also have "\<dots> \<longleftrightarrow> take (length ys) (drop k xs) = ys" using True by (auto simp: list_eq_iff_nth_eq)
    finally have cmp: "rt_memcmp m (s + of_nat k) t (word_of_int (int (length ys))) = 0 \<longleftrightarrow> take (length ys) (drop k xs) = ys" .
    have d: "drop k xs = xs ! k # drop (Suc k) xs" using k by (simp add: Cons_nth_drop_Suc)
    have fa: "first_at ys (drop k xs) = (if take (length ys) (drop k xs) = ys then Some 0 else map_option Suc (first_at ys (drop (Suc k) xs)))"
      unfolding d by (rule first_at.simps(2))
    have ih: "search m (s + of_nat (Suc k)) (int (length xs - Suc k)) t (int (length ys)) =
        map_option (\<lambda>i. s + of_nat (Suc k + i)) (first_at ys (drop (Suc k) xs))"
      by (rule less.hyps) (use k in auto)
    have n: "s + of_nat k + 1 = s + of_nat (Suc k)" "int (length xs - k) - 1 = int (length xs - Suc k)" using k by (simp_all add: algebra_simps of_nat_diff)
    show ?thesis
      using True unfolding search.simps [of m "s + of_nat k"] cmp n ih fa
      by (auto simp: option.map_comp comp_def add.assoc add.left_commute)
  qed
qed

text \<open>
  C29. Searching a string in another: the search ends, and returns the place of the first occurrence, the begin of the
  text for an empty string, and RT_NULL exactly when there is none.
\<close>

theorem rt_strstr_first:
  assumes "c_string m s xs" and "c_string m t ys"
  shows "rt_strstr m s t = Some (map_option (\<lambda>i. s + of_nat i) (first_at ys xs))"
proof (cases "ys = []")
  case True
  have "first_at [] xs = Some 0" by (cases xs) simp_all
  then show ?thesis using True rt_strlen_string [OF assms(2)] by (simp add: rt_strstr_def)
next
  case False
  have l: "length xs < 2147483648" "length ys < 2147483648" using assms by (simp_all add: c_string_def)
  show ?thesis
    using False search_first [OF assms False, of 0] rt_strlen_string [OF assms(1)] rt_strlen_string [OF assms(2)]
    by (simp add: rt_strstr_def sint_length l)
qed


theorem rt_strstr_first_witness:
  "rt_strstr (\<lambda>a. if a < 6 then [1, 2, 1, 2, 3, 0] ! unat a else [1, 2, 3, 0] ! (unat a - 6)) 0 6 = Some (Some 2)"
proof -
  let ?m = "\<lambda>a :: u32. (if a < 6 then [1, 2, 1, 2, 3, 0] ! unat a else [1, 2, 3, 0] ! (unat a - 6)) :: u8"
  have "c_string ?m 0 [1, 2, 1, 2, 3]" "c_string ?m 6 [1, 2, 3]"
    by (auto simp: c_string_def less_Suc_eq)
  from rt_strstr_first [OF this] show ?thesis by simp
qed

text \<open>The signed byte of \<open>rt_strncmp\<close> is too small for the difference of two characters.\<close>

lemma rt_strncmp_sign: "m a = 200 \<Longrightarrow> m b = 10 \<Longrightarrow> n \<noteq> 0 \<Longrightarrow> rt_strncmp m a b n < 0 \<and> rt_strcmp m a b = Some 190"
  by (subst rt_strncmp.simps, subst rt_strcmp.simps) simp

end
