(* ===== verification/Msh.thy ===== *)
theory Msh
  imports Prelude
begin

text \<open>
  The command line of the shell (\<open>rt-thread/components/finsh/msh.c\<close>): splitting a line into arguments in place,
  finding and running a command, and completing a name. A buffer is a list of characters and a pointer into it an
  offset; reading or writing outside it is a fault. The table of commands is an argument of the definitions: a command
  gets its arguments as strings and yields its result and what it prints. Console output is the text it appends.
\<close>

section \<open>Operations\<close>

definition FINSH_ARG_MAX :: nat where "FINSH_ARG_MAX = 10"

abbreviation NUL :: char where "NUL \<equiv> CHR 0x00"

abbreviation (input) newline :: string where "newline \<equiv> [CHR 0x0A]"

definition blank :: "char \<Rightarrow> bool" where "blank c \<longleftrightarrow> c = CHR '' '' \<or> c = CHR 0x09"

record finsh_syscall =
  syscall_name :: string
  syscall_desc :: string
  syscall_func :: "string list \<Rightarrow> int \<times> string"

text \<open>The string that begins at an offset.\<close>

definition text_at :: "string \<Rightarrow> nat \<Rightarrow> fault + string" where
  "text_at cmd p = (if NUL \<in> set (drop p cmd) then Inr (takeWhile (\<lambda>c. c \<noteq> NUL) (drop p cmd)) else Inl OutOfBounds)"

function strip_blanks :: "string \<Rightarrow> nat \<Rightarrow> nat \<Rightarrow> fault + string \<times> nat" where
  "strip_blanks cmd len pos =
     (case arr_get cmd pos of Inl e \<Rightarrow> Inl e
      | Inr c \<Rightarrow> if blank c \<and> pos < len then strip_blanks (cmd[pos := NUL]) len (pos + 1)
                 else Inr (cmd, pos))"
  by pat_completeness auto
termination by (relation "measure (\<lambda>(_, len, pos). len - pos)") auto

function skip_quoted :: "string \<Rightarrow> nat \<Rightarrow> nat \<Rightarrow> fault + nat" where
  "skip_quoted cmd len pos =
     (case arr_get cmd pos of Inl e \<Rightarrow> Inl e
      | Inr c \<Rightarrow>
          if c \<noteq> CHR 0x22 \<and> pos < len then
            if c = CHR 0x5C then
              (case arr_get cmd (pos + 1) of Inl e \<Rightarrow> Inl e
               | Inr d \<Rightarrow> skip_quoted cmd len (if d = CHR 0x22 then pos + 2 else pos + 1))
            else skip_quoted cmd len (pos + 1)
          else Inr pos)"
  by pat_completeness auto
termination by (relation "measure (\<lambda>(_, len, pos). len - pos)") auto

function skip_word :: "string \<Rightarrow> nat \<Rightarrow> nat \<Rightarrow> fault + nat" where
  "skip_word cmd len pos =
     (case arr_get cmd pos of Inl e \<Rightarrow> Inl e
      | Inr c \<Rightarrow> if \<not> blank c \<and> pos < len then skip_word cmd len (pos + 1) else Inr pos)"
  by pat_completeness auto
termination by (relation "measure (\<lambda>(_, len, pos). len - pos)") auto

declare strip_blanks.simps [simp del] skip_quoted.simps [simp del] skip_word.simps [simp del]

primrec print_args :: "string \<Rightarrow> nat list \<Rightarrow> fault + string" where
  "print_args cmd [] = Inr []"
| "print_args cmd (p # ps) = bind_err (text_at cmd p) (\<lambda>t. bind_err (print_args cmd ps) (\<lambda>u. Inr (t @ '' '' @ u)))"

lemma strip_blanks_forward: "strip_blanks cmd n p = Inr (cmd', q) \<Longrightarrow> p \<le> q \<and> (q < n \<longrightarrow> q < length cmd' \<and> \<not> blank (cmd' ! q))"
proof (induction cmd n p rule: strip_blanks.induct)
  case (1 cmd n p)
  then show ?case
    by (subst (asm) (2) strip_blanks.simps) (auto simp: arr_get_def split: if_splits)
qed

lemma skip_word_forward: "skip_word cmd n p = Inr q \<Longrightarrow> p \<le> q \<and> (p < n \<longrightarrow> \<not> blank (cmd ! p) \<longrightarrow> p < q)"
proof (induction cmd n p rule: skip_word.induct)
  case (1 cmd n p)
  then show ?case
    by (subst (asm) (2) skip_word.simps) (force simp: arr_get_def split: if_splits)
qed

lemma skip_quoted_forward: "skip_quoted cmd n p = Inr q \<Longrightarrow> p \<le> q"
proof (induction cmd n p rule: skip_quoted.induct)
  case (1 cmd n p)
  then show ?case
    by (subst (asm) (3) skip_quoted.simps) (force simp: arr_get_def split: if_splits)
qed

function split_loop :: "string \<Rightarrow> nat \<Rightarrow> nat \<Rightarrow> nat list \<Rightarrow> fault + string \<times> nat list \<times> string" where
  "split_loop cmd len pos argv =
     (if pos < len then
        case strip_blanks cmd len pos of Inl e \<Rightarrow> Inl e
        | Inr (cmd, pos) \<Rightarrow>
            if length argv \<ge> FINSH_ARG_MAX then
              bind_err (print_args cmd argv) (\<lambda>t. Inr (cmd, argv, ''Too many args ! We only Use:'' @ newline @ t @ newline))
            else if pos \<ge> len then Inr (cmd, argv, [])
            else if cmd ! pos = CHR 0x22 then
              (case skip_quoted cmd len (pos + 1) of Inl e \<Rightarrow> Inl e
               | Inr q \<Rightarrow> if q \<ge> len then Inr (cmd, argv @ [pos + 1], [])
                          else split_loop (cmd[q := NUL]) len (q + 1) (argv @ [pos + 1]))
            else
              (case skip_word cmd len pos of Inl e \<Rightarrow> Inl e
               | Inr q \<Rightarrow> if q \<ge> len then Inr (cmd, argv @ [pos], []) else split_loop cmd len q (argv @ [pos]))
      else Inr (cmd, argv, []))"
  by pat_completeness auto
termination
proof (relation "measure (\<lambda>(_, len, pos, _). len - pos)")
  fix cmd len pos argv r cmd' pos' q
  assume a: "pos < len" "strip_blanks cmd len pos = Inr r" "(cmd', pos') = r" "\<not> pos' \<ge> len"
  note f = strip_blanks_forward [of cmd len pos cmd' pos']
  {
    assume "skip_quoted cmd' len (pos' + 1) = Inr q" "\<not> len \<le> q"
    then show "((cmd'[q := NUL], len, q + 1, argv @ [pos' + 1]), cmd, len, pos, argv) \<in> measure (\<lambda>(_, len, pos, _). len - pos)"
      using a f skip_quoted_forward [of cmd' len "pos' + 1" q] by auto
  next
    assume "skip_word cmd' len pos' = Inr q" "\<not> len \<le> q"
    then show "((cmd', len, q, argv @ [pos']), cmd, len, pos, argv) \<in> measure (\<lambda>(_, len, pos, _). len - pos)"
      using a f skip_word_forward [of cmd' len pos' q] by auto
  }
qed simp

declare split_loop.simps [simp del]

definition msh_split :: "string \<Rightarrow> nat \<Rightarrow> fault + string \<times> nat list \<times> string" where
  "msh_split cmd len = split_loop cmd len 0 []"

text \<open>\<open>strncmp\<close> over the name, then the character of the name behind.\<close>

primrec msh_get_cmd :: "finsh_syscall list \<Rightarrow> string \<Rightarrow> nat \<Rightarrow> fault + (string list \<Rightarrow> int \<times> string) option" where
  "msh_get_cmd [] cmd sz = Inr None"
| "msh_get_cmd (e # es) cmd sz =
     (if take sz (syscall_name e) = take sz (takeWhile (\<lambda>c. c \<noteq> NUL) cmd) then
        if sz = length (syscall_name e) then Inr (Some (syscall_func e))
        else if sz < length (syscall_name e) then msh_get_cmd es cmd sz
        else Inl OutOfBounds
      else msh_get_cmd es cmd sz)"

primrec arg_texts :: "string \<Rightarrow> nat list \<Rightarrow> fault + string list" where
  "arg_texts cmd [] = Inr []"
| "arg_texts cmd (p # ps) = bind_err (text_at cmd p) (\<lambda>t. bind_err (arg_texts cmd ps) (\<lambda>ts. Inr (t # ts)))"

text \<open>The result is the buffer, what is printed, and the value of the command, when there is one.\<close>

definition msh_exec_cmd :: "finsh_syscall list \<Rightarrow> string \<Rightarrow> nat \<Rightarrow> fault + string \<times> string \<times> int option" where
  "msh_exec_cmd table cmd len =
     bind_err (skip_word cmd len 0) (\<lambda>cmd0_size.
       if cmd0_size = 0 then Inr (cmd, [], None)
       else bind_err (msh_get_cmd table cmd cmd0_size) (\<lambda>f. case f of
           None \<Rightarrow> Inr (cmd, [], None)
         | Some cmd_func \<Rightarrow>
             bind_err (msh_split cmd len) (\<lambda>(cmd, argv, out).
               if argv = [] then Inr (cmd, out, None)
               else bind_err (arg_texts cmd argv) (\<lambda>args. case cmd_func args of (r, t) \<Rightarrow> Inr (cmd, out @ t, Some r)))))"

function trim_start :: "string \<Rightarrow> nat \<Rightarrow> nat \<Rightarrow> fault + nat \<times> nat" where
  "trim_start line p len =
     (if len > 0 then
        (case arr_get line p of Inl e \<Rightarrow> Inl e
         | Inr c \<Rightarrow> if blank c then trim_start line (p + 1) (len - 1) else Inr (p, len))
      else Inr (p, len))"
  by pat_completeness auto
termination by (relation "measure (\<lambda>(_, _, len). len)") auto

declare trim_start.simps [simp del]

definition cut_at_space :: "string \<Rightarrow> fault + string" where
  "cut_at_space cmd =
     (let k = length (takeWhile (\<lambda>c. c \<noteq> CHR '' '' \<and> c \<noteq> NUL) cmd) in arr_set cmd k NUL)"

definition msh_exec :: "finsh_syscall list \<Rightarrow> string \<Rightarrow> nat \<Rightarrow> fault + string \<times> string \<times> int" where
  "msh_exec table line len =
     bind_err (trim_start line 0 len) (\<lambda>(p, len).
       if len = 0 then Inr (line, [], 0)
       else bind_err (msh_exec_cmd table (drop p line) len) (\<lambda>(cmd, out, r). case r of
           Some v \<Rightarrow> Inr (take p line @ cmd, out, v)
         | None \<Rightarrow>
             bind_err (cut_at_space cmd) (\<lambda>cmd.
             bind_err (text_at cmd 0) (\<lambda>t.
               Inr (take p line @ cmd, out @ t @ '': command not found.'' @ newline, -1)))))"

text \<open>The prefix two strings share.\<close>

fun str_common :: "string \<Rightarrow> string \<Rightarrow> nat" where
  "str_common (c # s) (d # t) = (if c = d then Suc (str_common s t) else 0)"
| "str_common _ _ = 0"

text \<open>
  The loop over the table: the first name that begins with the prefix, the least length that all such names share with
  it, and the names printed.
\<close>

primrec complete_loop :: "finsh_syscall list \<Rightarrow> string \<Rightarrow> string option \<Rightarrow> nat \<Rightarrow> string option \<times> nat \<times> string" where
  "complete_loop [] prefix name min_length = (name, min_length, [])"
| "complete_loop (e # es) prefix name min_length =
     (let cmd_name = syscall_name e
      in if take (length prefix) cmd_name = prefix then
           (let (name, min_length) = (if min_length = 0 then (cmd_name, length cmd_name) else (the name, min_length));
                len = str_common name cmd_name;
                min_length = (if len < min_length then len else min_length)
            in case complete_loop es prefix (Some name) min_length of (nm, m, out) \<Rightarrow> (nm, m, cmd_name @ newline @ out))
         else complete_loop es prefix name min_length)"

text \<open>\<open>%-16s - %s\<close>: the name stops at 16 characters.\<close>

definition msh_help :: "finsh_syscall list \<Rightarrow> string" where
  "msh_help table =
     ''RT-Thread shell commands:'' @ newline
     @ concat (map (\<lambda>e. take 16 (syscall_name e) @ replicate (16 - length (syscall_name e)) (CHR '' '') @ '' - '' @ syscall_desc e @ newline) table)
     @ newline"

text \<open>The name may run over the end of the buffer.\<close>

definition msh_auto_complete :: "finsh_syscall list \<Rightarrow> string \<Rightarrow> fault + string \<times> string" where
  "msh_auto_complete table line =
     bind_err (text_at line 0) (\<lambda>prefix.
       if prefix = [] then Inr (line, msh_help table)
       else (case complete_loop table prefix None 0 of (name, min_length, out) \<Rightarrow>
               (case name of None \<Rightarrow> Inr (line, out)
                | Some nm \<Rightarrow>
                    if min_length \<le> length line then Inr (take min_length nm @ drop min_length line, out) else Inl OutOfBounds)))"


section \<open>Words of a line\<close>

text \<open>
  What the arguments of a line are: words between blanks and tabs, and quoted strings, which end at a quote
  without a backslash before it, or with the line.
\<close>

function quoted :: "string \<Rightarrow> string \<times> string" where
  "quoted s =
     (case s of [] \<Rightarrow> ([], [])
      | c # s \<Rightarrow>
          if c = CHR 0x22 then ([], s)
          else if c = CHR 0x5C \<and> s \<noteq> [] \<and> hd s = CHR 0x22 then (case quoted (tl s) of (a, r) \<Rightarrow> (c # CHR 0x22 # a, r))
          else (case quoted s of (a, r) \<Rightarrow> (c # a, r)))"
  by pat_completeness auto
termination by (relation "measure length") auto

declare quoted.simps [simp del]

lemma quoted_split: "quoted u = (a, r) \<Longrightarrow> u = a @ CHR 0x22 # r \<or> u = a \<and> r = []"
proof (induction u arbitrary: a r rule: quoted.induct)
  case (1 s)
  show ?case
  proof (cases s)
    case Nil
    then show ?thesis using 1(3) by (subst (asm) quoted.simps) simp
  next
    case (Cons c t)
    consider "c = CHR 0x22" | "c \<noteq> CHR 0x22" "c = CHR 0x5C \<and> t \<noteq> [] \<and> hd t = CHR 0x22"
      | "c \<noteq> CHR 0x22" "\<not> (c = CHR 0x5C \<and> t \<noteq> [] \<and> hd t = CHR 0x22)" by blast
    then show ?thesis
    proof cases
      case 1
      then show ?thesis using Cons \<open>quoted s = (a, r)\<close> by (subst (asm) quoted.simps) simp
    next
      case 2
      obtain b where b: "quoted (tl t) = (b, r)" "a = c # CHR 0x22 # b"
        using Cons 2 \<open>quoted s = (a, r)\<close> by (subst (asm) quoted.simps) (auto split: prod.splits)
      moreover have "t = CHR 0x22 # tl t" using 2 by (cases t) auto
      ultimately show ?thesis using 1(1) [OF Cons 2 b(1)] Cons by (metis append_Cons)
    next
      case 3
      obtain b where b: "quoted t = (b, r)" "a = c # b"
        using Cons 3 \<open>quoted s = (a, r)\<close> by (subst (asm) quoted.simps) (auto split: prod.splits if_splits)
      then show ?thesis using 1(2) [OF Cons 3 b(1)] Cons by auto
    qed
  qed
qed

function tokens :: "string \<Rightarrow> string list" where
  "tokens s =
     (case s of [] \<Rightarrow> []
      | c # t \<Rightarrow>
          if blank c then tokens t
          else if c = CHR 0x22 then (case quoted t of (a, r) \<Rightarrow> a # tokens r)
          else takeWhile (\<lambda>c. \<not> blank c) s # tokens (dropWhile (\<lambda>c. \<not> blank c) t))"
  by pat_completeness auto
termination
proof (relation "measure length")
  fix s :: string and c t a r
  assume "s = c # t" "(a, r) = quoted t"
  then show "(r, s) \<in> measure length" using quoted_split [of t a r] by auto
next
  fix s :: string and c t
  assume "s = c # t"
  then show "(dropWhile (\<lambda>c. \<not> blank c) t, s) \<in> measure length"
    using length_dropWhile_le [of "\<lambda>c. \<not> blank c" t] by simp
qed auto

declare tokens.simps [simp del]

lemma tokens_Nil [simp]: "tokens [] = []"
  by (subst tokens.simps) simp

lemma tokens_blank [simp]: "blank c \<Longrightarrow> tokens (c # s) = tokens s"
  by (subst tokens.simps) simp

lemma tokens_blanks: "\<forall>c \<in> set bs. blank c \<Longrightarrow> tokens (bs @ s) = tokens s"
  by (induction bs) auto

section \<open>Splitting a line\<close>

lemma arr_get_at [simp]: "arr_get (pre @ c # s) (length pre) = Inr c"
  by simp

lemma strip_blanks_spec:
  "\<forall>c \<in> set bs. blank c \<Longrightarrow> s \<noteq> [] \<Longrightarrow> len = length pre + length bs \<or> len > length pre + length bs \<and> \<not> blank (hd s) \<Longrightarrow>
   strip_blanks (pre @ bs @ s) len (length pre) = Inr (pre @ replicate (length bs) NUL @ s, length pre + length bs)"
proof (induction bs arbitrary: pre)
  case Nil
  then show ?case by (cases s) (subst strip_blanks.simps; auto)+
next
  case (Cons b bs)
  have "strip_blanks (pre @ (b # bs) @ s) len (length pre) = strip_blanks ((pre @ [NUL]) @ bs @ s) len (length (pre @ [NUL]))"
    using Cons.prems by (subst strip_blanks.simps) (auto simp: list_update_append)
  then show ?case using Cons.IH [of "pre @ [NUL]"] Cons.prems by auto
qed

lemma skip_word_spec:
  "\<forall>c \<in> set w. \<not> blank c \<Longrightarrow> s \<noteq> [] \<Longrightarrow> len = length pre + length w \<or> len > length pre + length w \<and> blank (hd s) \<Longrightarrow>
   skip_word (pre @ w @ s) len (length pre) = Inr (length pre + length w)"
proof (induction w arbitrary: pre)
  case Nil
  then show ?case by (cases s) (subst skip_word.simps; auto)+
next
  case (Cons b bs)
  have "skip_word (pre @ (b # bs) @ s) len (length pre) = skip_word ((pre @ [b]) @ bs @ s) len (length (pre @ [b]))"
    using Cons.prems by (subst skip_word.simps) auto
  then show ?case using Cons.IH [of "pre @ [b]"] Cons.prems by auto
qed

lemma skip_quoted_spec:
  "len = length pre + length u \<Longrightarrow>
   skip_quoted (pre @ u @ NUL # rest) len (length pre) = Inr (length pre + length (fst (quoted u)))"
proof (induction u arbitrary: pre rule: quoted.induct)
  case (1 s)
  show ?case
  proof (cases s)
    case Nil
    then show ?thesis using 1(3) by (subst skip_quoted.simps, subst quoted.simps) auto
  next
    case (Cons c t)
    consider "c = CHR 0x22" | "c \<noteq> CHR 0x22" "c = CHR 0x5C \<and> t \<noteq> [] \<and> hd t = CHR 0x22"
      | "c \<noteq> CHR 0x22" "\<not> (c = CHR 0x5C \<and> t \<noteq> [] \<and> hd t = CHR 0x22)" by blast
    then show ?thesis
    proof cases
      case 1
      then show ?thesis using Cons by (subst skip_quoted.simps, subst quoted.simps) auto
    next
      case 2
      have t: "t = CHR 0x22 # tl t" using 2 by (cases t) auto
      have "arr_get (pre @ (c # t) @ NUL # rest) (Suc (length pre)) = Inr (CHR 0x22)"
        by (subst t) (simp add: arr_get_def nth_append)
      then have "skip_quoted (pre @ s @ NUL # rest) len (length pre) =
          skip_quoted (pre @ s @ NUL # rest) len (length pre + 2)"
        using Cons 2 1(3) by (subst skip_quoted.simps) auto
      also have "pre @ s @ NUL # rest = (pre @ [c, CHR 0x22]) @ tl t @ NUL # rest" using Cons t by simp
      also have "length pre + 2 = length (pre @ [c, CHR 0x22])" by simp
      finally show ?thesis
        using 1(1) [OF Cons 2, of "pre @ [c, CHR 0x22]"] 1(3) Cons 2
        by (subst quoted.simps) (cases "quoted (tl t)"; cases t; auto)
    next
      case 3
      have "arr_get (pre @ (c # t) @ NUL # rest) (Suc (length pre)) = Inr (if t = [] then NUL else hd t)"
        by (cases t) (simp_all add: arr_get_def nth_append)
      then have "skip_quoted (pre @ s @ NUL # rest) len (length pre) =
          skip_quoted ((pre @ [c]) @ t @ NUL # rest) len (length (pre @ [c]))"
        using Cons 3 1(3) by (subst skip_quoted.simps) (auto split: if_splits)
      then show ?thesis
        using 1(2) [OF Cons 3, of "pre @ [c]"] 1(3) Cons 3
        by (subst quoted.simps) (cases "quoted t"; auto)
    qed
  qed
qed


text \<open>The arguments found so far do not depend on what follows \<open>pre\<close>.\<close>

definition closed_args :: "string \<Rightarrow> nat list \<Rightarrow> string list \<Rightarrow> bool" where
  "closed_args pre argv xs \<longleftrightarrow> (\<forall>s. arg_texts (pre @ s) argv = Inr xs)"

lemma text_at_word: "NUL \<notin> set w \<Longrightarrow> text_at (pre @ w @ NUL # s) (length pre) = Inr w"
  by (simp add: text_at_def takeWhile_append)

lemma arg_texts_snoc:
  "arg_texts cmd argv = Inr xs \<Longrightarrow> text_at cmd p = Inr t \<Longrightarrow> arg_texts cmd (argv @ [p]) = Inr (xs @ [t])"
  by (induction argv arbitrary: xs) (auto simp: bind_err_Inr_iff)

lemma closed_args_snoc:
  assumes "closed_args pre argv xs" and "NUL \<notin> set w"
  shows "closed_args (pre @ w @ [NUL]) (argv @ [length pre]) (xs @ [w])"
  unfolding closed_args_def
proof
  fix s
  have "arg_texts (pre @ w @ NUL # s) argv = Inr xs" using assms(1) by (simp add: closed_args_def)
  moreover have "text_at (pre @ w @ NUL # s) (length pre) = Inr w" using text_at_word [OF assms(2)] .
  ultimately show "arg_texts ((pre @ w @ [NUL]) @ s) (argv @ [length pre]) = Inr (xs @ [w])"
    using arg_texts_snoc by simp
qed

lemma closed_args_mono: "closed_args pre argv xs \<Longrightarrow> closed_args (pre @ s) argv xs"
  by (simp add: closed_args_def)

lemma print_args_texts: "arg_texts cmd argv = Inr xs \<Longrightarrow> \<exists>t. print_args cmd argv = Inr t"
  by (induction argv arbitrary: xs) (auto simp: bind_err_Inr_iff)

lemma arg_texts_length: "arg_texts cmd argv = Inr xs \<Longrightarrow> length xs = length argv"
  by (induction argv arbitrary: xs) (auto simp: bind_err_Inr_iff)

definition split_result :: "string \<Rightarrow> nat \<Rightarrow> string list \<Rightarrow> fault + string \<times> nat list \<times> string \<Rightarrow> bool" where
  "split_result cmd len xs r \<longleftrightarrow>
     (\<exists>cmd' argv out. r = Inr (cmd', argv, out) \<and> arg_texts cmd' argv = Inr (take 10 xs) \<and> length cmd' = length cmd \<and>
        drop len cmd' = drop len cmd)"

lemma split_resultI:
  "arg_texts cmd' argv = Inr xs \<Longrightarrow> length xs \<le> 10 \<Longrightarrow> length cmd' = length cmd \<Longrightarrow> drop len cmd' = drop len cmd \<Longrightarrow>
   split_result cmd len xs (Inr (cmd', argv, out))"
  by (simp add: split_result_def)

lemma split_loop_blanks:
  assumes "\<forall>c \<in> set bs. blank c" and "u = [] \<or> \<not> blank (hd u)" and "bs @ u \<noteq> []"
    and "len = length pre + length bs + length u" and "pre' = pre @ replicate (length bs) NUL"
  shows "split_loop (pre @ bs @ u @ NUL # rest) len (length pre) argv =
    (if length argv \<ge> FINSH_ARG_MAX then
       bind_err (print_args (pre' @ u @ NUL # rest) argv)
         (\<lambda>s. Inr (pre' @ u @ NUL # rest, argv, ''Too many args ! We only Use:'' @ newline @ s @ newline))
     else split_loop (pre' @ u @ NUL # rest) len (length pre') argv)"
proof -
  have "len = length pre + length bs \<or> len > length pre + length bs \<and> \<not> blank (hd (u @ NUL # rest))"
    using assms(2,4) by (cases u) auto
  from strip_blanks_spec [OF assms(1) _ this]
  have "strip_blanks (pre @ bs @ u @ NUL # rest) len (length pre) = Inr (pre' @ u @ NUL # rest, length pre')"
    by (simp add: assms(5))
  moreover have "strip_blanks (pre' @ u @ NUL # rest) len (length pre') = Inr (pre' @ u @ NUL # rest, length pre')"
    using strip_blanks_spec [of "[]" "u @ NUL # rest" len pre'] assms(2,4,5) by (cases u) auto
  moreover have "length pre < len" using assms(3,4) by (cases bs; cases u) auto
  ultimately show ?thesis using assms(4,5) by (subst split_loop.simps, subst (2) split_loop.simps) auto
qed

lemma split_loop_quote:
  assumes "quoted v = (a, r)" and "len = length pre + length v + 1" and "length argv < 10"
  shows "split_loop (pre @ (CHR 0x22 # v) @ NUL # rest) len (length pre) argv =
    (if v = a then Inr (pre @ (CHR 0x22 # v) @ NUL # rest, argv @ [length pre + 1], [])
     else split_loop ((pre @ CHR 0x22 # a @ [NUL]) @ r @ NUL # rest) len (length (pre @ CHR 0x22 # a @ [NUL])) (argv @ [length pre + 1]))"
proof -
  have strip: "strip_blanks (pre @ (CHR 0x22 # v) @ NUL # rest) len (length pre) = Inr (pre @ (CHR 0x22 # v) @ NUL # rest, length pre)"
    using strip_blanks_spec [of "[]" "(CHR 0x22 # v) @ NUL # rest" len pre] assms(2) by (simp add: blank_def)
  have skip: "skip_quoted (pre @ (CHR 0x22 # v) @ NUL # rest) len (length pre + 1) = Inr (length pre + 1 + length a)"
    using skip_quoted_spec [of len "pre @ [CHR 0x22]" v rest] assms(1,2) by simp
  show ?thesis
  proof (cases "v = a")
    case True
    then show ?thesis using strip skip assms(2,3) by (subst split_loop.simps) (simp add: FINSH_ARG_MAX_def nth_append)
  next
    case False
    then have v: "v = a @ CHR 0x22 # r" using quoted_split [OF assms(1)] by blast
    have "(pre @ (CHR 0x22 # v) @ NUL # rest)[length pre + 1 + length a := NUL] = (pre @ CHR 0x22 # a @ [NUL]) @ r @ NUL # rest"
      by (simp add: v list_update_append)
    then show ?thesis using False strip skip assms(2,3) v
      by (subst split_loop.simps) (simp add: FINSH_ARG_MAX_def nth_append)
  qed
qed

lemma split_loop_word:
  assumes "\<forall>c \<in> set w. \<not> blank c" and "w \<noteq> []" "hd w \<noteq> CHR 0x22" and "r = [] \<or> blank (hd r)"
    and "len = length pre + length w + length r" and "length argv < 10"
  shows "split_loop (pre @ w @ r @ NUL # rest) len (length pre) argv =
    (if r = [] then Inr (pre @ w @ NUL # rest, argv @ [length pre], [])
     else split_loop ((pre @ w) @ r @ NUL # rest) len (length (pre @ w)) (argv @ [length pre]))"
proof -
  obtain c v where w: "w = c # v" using assms(2) by (cases w) auto
  then have c: "\<not> blank c" "c \<noteq> CHR 0x22" using assms(1,3) by auto
  have strip: "strip_blanks (pre @ w @ r @ NUL # rest) len (length pre) = Inr (pre @ w @ r @ NUL # rest, length pre)"
    using strip_blanks_spec [of "[]" "w @ r @ NUL # rest" len pre] assms(5) c(1) by (simp add: w)
  have skip: "skip_word (pre @ w @ r @ NUL # rest) len (length pre) = Inr (length pre + length w)"
    by (rule skip_word_spec) (use assms in \<open>auto simp: hd_append\<close>)
  show ?thesis using strip skip assms(5,6) c(2)
    by (subst split_loop.simps) (auto simp: FINSH_ARG_MAX_def nth_append w)
qed

lemma split_result_frame:
  "length cmd = length cmd1 \<Longrightarrow> drop len cmd = drop len cmd1 \<Longrightarrow> split_result cmd len xs r = split_result cmd1 len xs r"
  by (simp add: split_result_def)

lemma split_token:
  assumes IH: "\<And>t' pre argv xs. length t' < length u \<Longrightarrow> NUL \<notin> set t' \<Longrightarrow> len = length pre + length t' \<Longrightarrow> length argv \<le> 10 \<Longrightarrow>
      closed_args (pre @ [NUL]) argv xs \<Longrightarrow> closed_args pre argv xs \<or> t' = [] \<or> blank (hd t') \<Longrightarrow>
      split_result (pre @ t' @ NUL # rest) len (xs @ tokens t') (split_loop (pre @ t' @ NUL # rest) len (length pre) argv)"
    and nul: "NUL \<notin> set u" and u: "u = [] \<or> \<not> blank (hd u)" and len: "len = length pre + length u"
    and few: "length argv < 10" and closed: "closed_args pre argv xs" and xs: "length xs = length argv"
  shows "split_result (pre @ u @ NUL # rest) len (xs @ tokens u) (split_loop (pre @ u @ NUL # rest) len (length pre) argv)"
proof (cases u)
  case Nil
  then show ?thesis using few closed len xs
    by (subst split_loop.simps) (auto simp: closed_args_def intro!: split_resultI)
next
  case u_Cons: (Cons c v)
  then have c: "\<not> blank c" using u by simp
  show ?thesis
  proof (cases "c = CHR 0x22")
    case True
    obtain a r where q: "quoted v = (a, r)" by fastforce
    have nul_a: "NUL \<notin> set a" using quoted_split [OF q] nul u_Cons by auto
    have tok: "tokens u = a # tokens r" using True c q by (subst tokens.simps) (simp add: u_Cons)
    have closed_a: "closed_args (pre @ CHR 0x22 # a @ [NUL]) (argv @ [length pre + 1]) (xs @ [a])"
      using closed_args_snoc [OF closed_args_mono [OF closed, of "[CHR 0x22]"] nul_a] by simp
    have loop: "split_loop (pre @ u @ NUL # rest) len (length pre) argv =
      (if v = a then Inr (pre @ (CHR 0x22 # v) @ NUL # rest, argv @ [length pre + 1], [])
       else split_loop ((pre @ CHR 0x22 # a @ [NUL]) @ r @ NUL # rest) len (length (pre @ CHR 0x22 # a @ [NUL])) (argv @ [length pre + 1]))"
      using split_loop_quote [OF q _ few, of len pre rest] len unfolding u_Cons True by simp
    show ?thesis
    proof (cases "v = a")
      case v: True
      then have "r = []" using quoted_split [OF q] by auto
      moreover have "arg_texts (pre @ (CHR 0x22 # v) @ NUL # rest) (argv @ [length pre + 1]) = Inr (xs @ [a])"
        using closed_a unfolding closed_args_def v by (metis append_Cons append_Nil append_assoc)
      ultimately show ?thesis using few xs v unfolding loop tok
        by (simp add: u_Cons True split_resultI)
    next
      case False
      then have v: "v = a @ CHR 0x22 # r" using quoted_split [OF q] by blast
      have "split_result ((pre @ CHR 0x22 # a @ [NUL]) @ r @ NUL # rest) len ((xs @ [a]) @ tokens r)
          (split_loop ((pre @ CHR 0x22 # a @ [NUL]) @ r @ NUL # rest) len (length (pre @ CHR 0x22 # a @ [NUL])) (argv @ [length pre + 1]))"
        using nul few len closed_a closed_args_mono [OF closed_a] by (intro IH) (auto simp: u_Cons v)
      then show ?thesis using False len unfolding loop tok
        by (subst split_result_frame [where ?cmd1.0 = "(pre @ CHR 0x22 # a @ [NUL]) @ r @ NUL # rest"]) (auto simp: u_Cons v)
    qed
  next
    case False
    define w where "w = takeWhile (\<lambda>c. \<not> blank c) u"
    define r where "r = dropWhile (\<lambda>c. \<not> blank c) u"
    have w: "\<forall>c \<in> set w. \<not> blank c" "w \<noteq> []" "hd w \<noteq> CHR 0x22" and ur: "u = w @ r"
      using c False by (auto simp: w_def r_def u_Cons dest: set_takeWhileD)
    have r: "r = [] \<or> blank (hd r)" using hd_dropWhile [of "\<lambda>c. \<not> blank c" u] by (auto simp: r_def)
    have tok: "tokens u = w # tokens r" using False c by (subst tokens.simps) (simp add: u_Cons w_def r_def)
    have closed_w: "closed_args ((pre @ w) @ [NUL]) (argv @ [length pre]) (xs @ [w])"
      using closed_args_snoc [OF closed, of w] nul ur by simp
    note loop = split_loop_word [OF w r _ few, of len pre rest]
    show ?thesis
    proof (cases "r = []")
      case True
      have "arg_texts (pre @ w @ NUL # rest) (argv @ [length pre]) = Inr (xs @ [w])"
        using closed_w unfolding closed_args_def by (metis append_Cons append_Nil append_assoc)
      moreover have "split_loop (pre @ u @ NUL # rest) len (length pre) argv = Inr (pre @ w @ NUL # rest, argv @ [length pre], [])"
        using loop True len by (simp add: ur)
      ultimately show ?thesis using True few xs unfolding tok by (simp add: ur split_resultI)
    next
      case False
      have "split_result ((pre @ w) @ r @ NUL # rest) len ((xs @ [w]) @ tokens r)
          (split_loop ((pre @ w) @ r @ NUL # rest) len (length (pre @ w)) (argv @ [length pre]))"
        using nul few len closed_w w(2) r by (intro IH) (auto simp: ur)
      then show ?thesis using loop False len unfolding tok by (simp add: ur)
    qed
  qed
qed

lemma split_loop_tokens:
  assumes "NUL \<notin> set t" and "len = length pre + length t" and "length argv \<le> 10"
    and "closed_args (pre @ [NUL]) argv xs" and "closed_args pre argv xs \<or> t = [] \<or> blank (hd t)"
  shows "split_result (pre @ t @ NUL # rest) len (xs @ tokens t) (split_loop (pre @ t @ NUL # rest) len (length pre) argv)"
  using assms
proof (induction t arbitrary: pre argv xs rule: measure_induct_rule [of length])
  case (less t)
  have xs: "length xs = length argv" using less.prems(4) arg_texts_length unfolding closed_args_def by blast
  show ?case
  proof (cases "t = []")
    case True
    then show ?thesis using less.prems xs
      by (subst split_loop.simps) (auto simp: closed_args_def intro!: split_resultI)
  next
    case False
    define bs where "bs = takeWhile blank t"
    define u where "u = dropWhile blank t"
    define pre' where "pre' = pre @ replicate (length bs) NUL"
    have t: "t = bs @ u" and bs: "\<forall>c \<in> set bs. blank c" by (auto simp: bs_def u_def dest: set_takeWhileD)
    have u: "u = [] \<or> \<not> blank (hd u)" using hd_dropWhile [of blank t] by (auto simp: u_def)
    have len: "len = length pre + length bs + length u" using less.prems(2) t by simp
    have frame: "split_result (pre @ t @ NUL # rest) len ys r = split_result (pre' @ u @ NUL # rest) len ys r" for ys r
      using less.prems(2) by (simp add: split_result_def t pre'_def)
    have closed: "closed_args pre' argv xs"
    proof (cases "bs = []")
      case True
      then show ?thesis using less.prems(5) u t False by (auto simp: pre'_def)
    next
      case False
      then obtain k where "length bs = Suc k" by (cases bs) auto
      then show ?thesis using closed_args_mono [OF less.prems(4), of "replicate k NUL"] by (simp add: pre'_def)
    qed
    note loop = split_loop_blanks [OF bs u _ len pre'_def, of rest argv]
    show ?thesis
    proof (cases "length argv = 10")
      case True
      have "arg_texts (pre' @ u @ NUL # rest) argv = Inr xs" using closed by (simp add: closed_args_def)
      moreover from print_args_texts [OF this] obtain s where "print_args (pre' @ u @ NUL # rest) argv = Inr s" by blast
      ultimately show ?thesis using True False xs loop unfolding frame by (simp add: split_result_def FINSH_ARG_MAX_def t)
    next
      case few: False
      have "split_result (pre' @ u @ NUL # rest) len (xs @ tokens u) (split_loop (pre' @ u @ NUL # rest) len (length pre') argv)"
      proof (rule split_token [OF _ _ u _ _ closed xs])
        fix t' pre' :: string and argv' :: "nat list" and xs'
        assume "length t' < length u"
        then have "length t' < length t" by (simp add: t)
        from less.IH [OF this] show "NUL \<notin> set t' \<Longrightarrow> len = length pre' + length t' \<Longrightarrow> length argv' \<le> 10 \<Longrightarrow>
          closed_args (pre' @ [NUL]) argv' xs' \<Longrightarrow> closed_args pre' argv' xs' \<or> t' = [] \<or> blank (hd t') \<Longrightarrow>
          split_result (pre' @ t' @ NUL # rest) len (xs' @ tokens t') (split_loop (pre' @ t' @ NUL # rest) len (length pre') argv')" .
      qed (use less.prems(1,3) few len in \<open>auto simp: t pre'_def\<close>)
      moreover have "split_loop (pre @ t @ NUL # rest) len (length pre) argv = split_loop (pre' @ u @ NUL # rest) len (length pre') argv"
      proof -
        have "bs @ u \<noteq> []" "\<not> length argv \<ge> FINSH_ARG_MAX" using few False less.prems(3) by (simp_all add: FINSH_ARG_MAX_def t)
        from loop [OF this(1)] this(2) show ?thesis by (simp only: t append_assoc if_False)
      qed
      moreover have "tokens t = tokens u" using tokens_blanks [OF bs, of u] by (simp only: t)
      ultimately show ?thesis unfolding frame by (simp only:)
    qed
  qed
qed

text \<open>
  C25. Splitting a line of a buffer in place: the arguments, read from the buffer afterwards, are the first ten
  words of the line, quoted strings taken whole; nothing behind the line is changed, and nothing outside the buffer is
  read, for every line.
\<close>

theorem msh_split_tokens:
  assumes "NUL \<notin> set t"
  shows "\<exists>cmd argv out. msh_split (t @ NUL # rest) (length t) = Inr (cmd, argv, out) \<and>
    arg_texts cmd argv = Inr (take 10 (tokens t)) \<and> length cmd = length t + 1 + length rest \<and> drop (length t) cmd = NUL # rest"
  using split_loop_tokens [of t "length t" "[]" "[]" "[]" rest] assms
  by (auto simp: msh_split_def split_result_def closed_args_def)

text \<open>Blanks, an escaped quote, an empty argument, and a string that the line ends.\<close>
theorem msh_split_tokens_witness:
  "\<exists>cmd argv out. msh_split ((''echo  '' @ [CHR 0x22] @ ''a b'' @ [CHR 0x22, CHR 0x22, CHR 0x22] @ ''  x'') @ [NUL]) 16 = Inr (cmd, argv, out) \<and>
    arg_texts cmd argv = Inr [''echo'', ''a b'', [], ''x'']"
proof -
  let ?t = "''echo  '' @ [CHR 0x22] @ ''a b'' @ [CHR 0x22, CHR 0x22, CHR 0x22] @ ''  x''"
  have tok: "tokens ?t = [''echo'', ''a b'', [], ''x'']"
    by (simp add: tokens.simps quoted.simps blank_def)
  have nul: "NUL \<notin> set ?t" and len: "length ?t = 16" by simp_all
  from msh_split_tokens [OF nul, of "[]"] show ?thesis unfolding tok len by auto
qed


section \<open>Running a line\<close>

text \<open>The names of commands are what their C identifiers can be.\<close>

definition table_ok :: "finsh_syscall list \<Rightarrow> bool" where
  "table_ok table \<longleftrightarrow> (\<forall>e \<in> set table. syscall_name e \<noteq> [] \<and> NUL \<notin> set (syscall_name e) \<and> length (syscall_name e) < 80)"

lemma trim_start_spec:
  "\<forall>c \<in> set bs. blank c \<Longrightarrow> u = [] \<or> \<not> blank (hd u) \<Longrightarrow>
   trim_start (pre @ bs @ u @ s) (length pre) (length bs + length u) = Inr (length pre + length bs, length u)"
proof (induction bs arbitrary: pre)
  case Nil
  then show ?case by (cases u) (subst trim_start.simps; auto)+
next
  case (Cons b bs)
  have "trim_start (pre @ (b # bs) @ u @ s) (length pre) (length (b # bs) + length u) =
      trim_start ((pre @ [b]) @ bs @ u @ s) (length (pre @ [b])) (length bs + length u)"
    using Cons.prems by (subst trim_start.simps) auto
  then show ?case using Cons.IH [of "pre @ [b]"] Cons.prems by simp
qed

lemma msh_get_cmd_spec:
  assumes "table_ok table" and "NUL \<notin> set t" and "t = w @ r"
  shows "msh_get_cmd table (t @ NUL # rest) (length w) =
    Inr (map_option syscall_func (find (\<lambda>e. syscall_name e = w) table))"
  using assms(1)
proof (induction table)
  case (Cons e es)
  have "takeWhile (\<lambda>c. c \<noteq> NUL) (t @ NUL # rest) = t" using assms(2) by (simp add: takeWhile_append)
  then have "take (length w) (takeWhile (\<lambda>c. c \<noteq> NUL) (t @ NUL # rest)) = w" by (simp add: assms(3))
  moreover have "length w = length (syscall_name e)" if "take (length w) (syscall_name e) = w" "\<not> length w < length (syscall_name e)"
    using that by simp
  ultimately show ?case using Cons by (auto simp: table_ok_def)
qed simp

lemma msh_exec_cmd_spec:
  assumes ok: "table_ok table" and nul: "NUL \<notin> set u" and u: "u \<noteq> []" "\<not> blank (hd u)"
  defines "w \<equiv> takeWhile (\<lambda>c. \<not> blank c) u"
  shows "\<exists>cmd out. msh_exec_cmd table (u @ NUL # rest) (length u) =
    (case find (\<lambda>e. syscall_name e = w) table of
       None \<Rightarrow> Inr (u @ NUL # rest, [], None)
     | Some e \<Rightarrow> (case syscall_func e (take 10 (tokens u)) of (r, t) \<Rightarrow> Inr (cmd, out @ t, Some r)))"
proof -
  have uw: "u = w @ dropWhile (\<lambda>c. \<not> blank c) u" by (simp add: w_def)
  have w: "w \<noteq> []" "\<forall>c \<in> set w. \<not> blank c" using u by (cases u; auto simp: w_def dest: set_takeWhileD)+
  define d where "d = dropWhile (\<lambda>c. \<not> blank c) u"
  have d: "d = [] \<or> blank (hd d)" using hd_dropWhile [of "\<lambda>c. \<not> blank c" u] by (auto simp: d_def)
  have "length u = length w + length d" by (subst uw) (simp add: d_def)
  then have "skip_word ([] @ w @ d @ NUL # rest) (length u) (length ([] :: string)) = Inr (length ([] :: string) + length w)"
    using w(2) d by (intro skip_word_spec) (cases d; auto)+
  moreover have "u @ NUL # rest = [] @ w @ d @ NUL # rest" by (subst uw) (simp add: d_def)
  ultimately have word: "skip_word (u @ NUL # rest) (length u) 0 = Inr (length w)" by simp
  obtain cmd argv out where split: "msh_split (u @ NUL # rest) (length u) = Inr (cmd, argv, out)"
      "arg_texts cmd argv = Inr (take 10 (tokens u))"
    using split_loop_tokens [of u "length u" "[]" "[]" "[]" rest] nul
    by (auto simp: msh_split_def split_result_def closed_args_def)
  have "tokens u \<noteq> []" using u by (cases u; subst tokens.simps) (auto split: prod.splits)
  then have argv: "argv \<noteq> []" using split(2) by auto
  show ?thesis
    using msh_get_cmd_spec [OF ok nul uw, of rest] word w(1) split argv
    by (auto simp: msh_exec_cmd_def split: option.splits prod.splits)
qed

lemma cut_at_space_spec:
  assumes "NUL \<notin> set u"
  shows "\<exists>cmd. cut_at_space (u @ NUL # rest) = Inr cmd \<and> text_at cmd 0 = Inr (takeWhile (\<lambda>c. c \<noteq> CHR '' '') u)"
proof -
  define p where "p = takeWhile (\<lambda>c. c \<noteq> CHR '' '') u"
  define q where "q = dropWhile (\<lambda>c. c \<noteq> CHR '' '') u"
  have u: "u = p @ q" by (simp add: p_def q_def)
  have "takeWhile (\<lambda>c. c \<noteq> CHR '' '' \<and> c \<noteq> NUL) (p @ q @ NUL # rest) = p"
  proof -
    have "\<forall>c \<in> set p. c \<noteq> CHR '' '' \<and> c \<noteq> NUL" using assms by (auto simp: p_def dest: set_takeWhileD)
    moreover have "q = [] \<or> hd q = CHR '' ''" using hd_dropWhile [of "\<lambda>c. c \<noteq> CHR '' ''" u] by (auto simp: q_def)
    ultimately show ?thesis by (cases q) (simp_all add: takeWhile_append)
  qed
  then have "cut_at_space (u @ NUL # rest) = Inr (p @ NUL # tl (q @ NUL # rest))"
    unfolding u cut_at_space_def Let_def append_assoc by (cases q) (simp_all add: list_update_append)
  moreover have "text_at ([] @ p @ NUL # tl (q @ NUL # rest)) (length ([] :: string)) = Inr p"
    using assms by (intro text_at_word) (auto simp: p_def dest: set_takeWhileD)
  ultimately show ?thesis unfolding p_def by auto
qed

lemma tokens_trim: "tokens (dropWhile blank t) = tokens t"
proof -
  have "\<forall>c \<in> set (takeWhile blank t). blank c" by (auto dest: set_takeWhileD)
  from tokens_blanks [OF this, of "dropWhile blank t"] show ?thesis by simp
qed

lemma msh_exec_spec:
  assumes ok: "table_ok table" and nul: "NUL \<notin> set t"
  defines "u \<equiv> dropWhile blank t"
  defines "w \<equiv> takeWhile (\<lambda>c. \<not> blank c) u"
  shows "\<exists>cmd out. msh_exec table (t @ NUL # rest) (length t) =
    (if u = [] then Inr (t @ NUL # rest, [], 0)
     else case find (\<lambda>e. syscall_name e = w) table of
       None \<Rightarrow> Inr (cmd, takeWhile (\<lambda>c. c \<noteq> CHR '' '') u @ '': command not found.'' @ newline, -1)
     | Some e \<Rightarrow> (case syscall_func e (take 10 (tokens t)) of (r, s) \<Rightarrow> Inr (cmd, out @ s, r)))"
proof -
  have u: "u = [] \<or> \<not> blank (hd u)" using hd_dropWhile [of blank t] by (auto simp: u_def)
  have t: "t = takeWhile blank t @ u" by (simp add: u_def)
  have nul_u: "NUL \<notin> set u" using nul by (subst (asm) t) auto
  have len: "length t = length (takeWhile blank t) + length u" by (subst t) simp
  have trim: "trim_start (t @ NUL # rest) 0 (length t) = Inr (length (takeWhile blank t), length u)"
  proof -
    have "\<forall>c \<in> set (takeWhile blank t). blank c" by (auto dest: set_takeWhileD)
    from trim_start_spec [OF this u, of "[]" "NUL # rest"] show ?thesis
      unfolding len [symmetric] append_assoc [symmetric] t [symmetric] by simp
  qed
  have rest: "drop (length (takeWhile blank t)) (t @ NUL # rest) = u @ NUL # rest" by (subst (2) t) simp
  show ?thesis
  proof (cases "u = []")
    case True
    then show ?thesis using trim by (simp add: msh_exec_def)
  next
    case False
    obtain cmd out where exec: "msh_exec_cmd table (u @ NUL # rest) (length u) =
        (case find (\<lambda>e. syscall_name e = w) table of None \<Rightarrow> Inr (u @ NUL # rest, [], None)
         | Some e \<Rightarrow> (case syscall_func e (take 10 (tokens u)) of (r, t) \<Rightarrow> Inr (cmd, out @ t, Some r)))"
      using msh_exec_cmd_spec [OF ok nul_u False, of rest] u False unfolding w_def by auto
    obtain cut where cut: "cut_at_space (u @ NUL # rest) = Inr cut" "text_at cut 0 = Inr (takeWhile (\<lambda>c. c \<noteq> CHR '' '') u)"
      using cut_at_space_spec [OF nul_u] by blast
    show ?thesis
      using False trim rest exec cut tokens_trim [of t]
      by (auto simp: msh_exec_def u_def [symmetric] split: option.splits prod.splits)
  qed
qed


section \<open>Completing a name\<close>

text \<open>The longest text that all names with a prefix begin with.\<close>

definition matches :: "finsh_syscall list \<Rightarrow> string \<Rightarrow> string list" where
  "matches table t = filter (\<lambda>n. take (length t) n = t) (map syscall_name table)"

definition common_length :: "string \<Rightarrow> nat \<Rightarrow> string list \<Rightarrow> nat" where
  "common_length n k ns = foldl (\<lambda>k m. min k (str_common n m)) k ns"

definition completion :: "finsh_syscall list \<Rightarrow> string \<Rightarrow> string" where
  "completion table t =
     (case matches table t of [] \<Rightarrow> t | n # ns \<Rightarrow> if t = [] then t else take (common_length n (length n) ns) n)"

definition listing :: "finsh_syscall list \<Rightarrow> string \<Rightarrow> string" where
  "listing table t = (if t = [] then msh_help table else concat (map (\<lambda>n. n @ newline) (matches table t)))"

lemma str_common_same [simp]: "str_common n n = length n"
  by (induction n) auto

lemma str_common_prefix: "take (length t) n = t \<Longrightarrow> take (length t) m = t \<Longrightarrow> length t \<le> str_common n m"
proof (induction t arbitrary: n m)
  case (Cons c t)
  then show ?case by (cases n; cases m) auto
qed simp

lemma str_common_le: "str_common n m \<le> length n" "str_common n m \<le> length m"
  by (induction n m rule: str_common.induct) auto

lemma str_common_take: "take (str_common n m) n = take (str_common n m) m"
  by (induction n m rule: str_common.induct) auto

lemma common_length_bounds:
  "take (length t) n = t \<Longrightarrow> \<forall>m \<in> set ns. take (length t) m = t \<Longrightarrow> length t \<le> k \<Longrightarrow> length t \<le> common_length n k ns"
  "common_length n k ns \<le> k"
proof -
  show "common_length n k ns \<le> k"
  proof (induction ns arbitrary: k)
    case (Cons a ns)
    from Cons [of "min k (str_common n a)"] show ?case by (simp add: common_length_def)
  qed (simp add: common_length_def)
  show "take (length t) n = t \<Longrightarrow> \<forall>m \<in> set ns. take (length t) m = t \<Longrightarrow> length t \<le> k \<Longrightarrow> length t \<le> common_length n k ns"
    by (induction ns arbitrary: k) (auto simp: common_length_def str_common_prefix)
qed

lemma common_length_take: "m \<in> set ns \<Longrightarrow> take (common_length n k ns) n = take (common_length n k ns) m"
proof (induction ns arbitrary: k)
  case (Cons x xs)
  show ?case
  proof (cases "m \<in> set xs")
    case False
    then have "m = x" using Cons.prems by simp
    moreover have "common_length n k (x # xs) \<le> str_common n x"
      using common_length_bounds(2) [of n "min k (str_common n x)" xs] by (simp add: common_length_def)
    moreover have "take j n = take j x" if "j \<le> str_common n x" for j
      using str_common_take [of n x] that by (metis min.absorb1 take_take)
    ultimately show ?thesis by simp
  qed (use Cons.IH in \<open>simp add: common_length_def\<close>)
qed simp

lemma complete_loop_some:
  "t \<noteq> [] \<Longrightarrow> take (length t) n = t \<Longrightarrow> 0 < k \<Longrightarrow>
   complete_loop table t (Some n) k = (Some n, common_length n k (matches table t), concat (map (\<lambda>n. n @ newline) (matches table t)))"
proof (induction table arbitrary: k)
  case (Cons e es)
  have "0 < min k (str_common n (syscall_name e))" if "take (length t) (syscall_name e) = t"
    using str_common_prefix [OF Cons.prems(2) that] Cons.prems(1,3) by (cases t) auto
  moreover have "(if str_common n m < k then str_common n m else k) = min k (str_common n m)" for m by auto
  ultimately show ?case using Cons by (auto simp: matches_def common_length_def Let_def)
qed (simp add: matches_def common_length_def)

lemma complete_loop_none:
  "t \<noteq> [] \<Longrightarrow> complete_loop table t None 0 =
   (case matches table t of [] \<Rightarrow> (None, 0, [])
    | n # ns \<Rightarrow> (Some n, common_length n (length n) ns, concat (map (\<lambda>n. n @ newline) (n # ns))))"
proof (induction table)
  case (Cons e es)
  show ?case
  proof (cases "take (length t) (syscall_name e) = t")
    case True
    then have "0 < length (syscall_name e)" using Cons.prems by (cases "syscall_name e") auto
    then show ?thesis using True Cons.prems complete_loop_some [OF Cons.prems True] by (simp add: matches_def Let_def)
  qed (use Cons in \<open>simp add: matches_def\<close>)
qed (simp add: matches_def)

lemma completion_spec:
  assumes "table_ok table" and "NUL \<notin> set t" and "length t \<le> n"
  shows "length (completion table t) < 80 \<or> completion table t = t" and "NUL \<notin> set (completion table t)"
    and "take (length t) (completion table t) = t"
    and "length (completion table t) \<le> n \<Longrightarrow> msh_auto_complete table (t @ replicate (Suc n - length t) NUL) =
      Inr (completion table t @ replicate (Suc n - length (completion table t)) NUL, listing table t)"
proof -
  have ms: "take (length t) m = t" "NUL \<notin> set m" "length m < 80" if "m \<in> set (matches table t)" for m
    using that assms(1) by (auto simp: matches_def table_ok_def)
  have whole: "text_at (t @ replicate (Suc n - length t) NUL) 0 = Inr t"
    using text_at_word [of t "[]"] assms(2,3) by (simp add: Suc_diff_le)
  show "length (completion table t) < 80 \<or> completion table t = t"
  proof (cases "matches table t")
    case (Cons m ns)
    then have "length m < 80" using ms by simp
    then show ?thesis using Cons by (auto simp: completion_def min_def)
  qed (simp add: completion_def)
  show "NUL \<notin> set (completion table t)"
    using ms assms(2) by (auto simp: completion_def dest: in_set_takeD split: list.splits)
  have len: "length t \<le> common_length m (length m) ns" if "matches table t = m # ns" for m ns
  proof (rule common_length_bounds(1))
    show "take (length t) m = t" "\<forall>m \<in> set ns. take (length t) m = t" using ms that by auto
    then show "length t \<le> length m" by (metis length_take min.cobounded1)
  qed
  show "take (length t) (completion table t) = t"
    using ms len by (auto simp: completion_def min_def split: list.splits)
  show "msh_auto_complete table (t @ replicate (Suc n - length t) NUL) =
      Inr (completion table t @ replicate (Suc n - length (completion table t)) NUL, listing table t)"
    if fit: "length (completion table t) \<le> n"
  proof (cases "t = []")
    case True
    then show ?thesis using whole by (simp add: msh_auto_complete_def completion_def listing_def split: list.splits)
  next
    case t: False
    show ?thesis
    proof (cases "matches table t")
      case Nil
      then show ?thesis using t whole complete_loop_none [OF t, of table]
        by (simp add: msh_auto_complete_def completion_def listing_def)
    next
      case (Cons m ns)
      let ?k = "common_length m (length m) ns"
      have k: "length t \<le> ?k" "?k \<le> length m" using len [OF Cons] common_length_bounds(2) by auto
      have c: "completion table t = take ?k m" using Cons t by (simp add: completion_def)
      have "?k \<le> n" using fit k unfolding c by simp
      then show ?thesis using t whole k Cons complete_loop_none [OF t, of table] unfolding c
        by (simp add: msh_auto_complete_def listing_def assms(3))
    qed
  qed
qed


text \<open>
  C26. Running a line: nothing happens on an empty one; otherwise the command whose name is the first word
  is called, once, with the first ten words of the line, and its value returned; when there is none the text up to the
  first space is reported and -1 returned. No line makes it read outside the buffer.
\<close>

theorem msh_exec_runs:
  assumes "table_ok table" and "NUL \<notin> set t"
  shows "let u = dropWhile blank t; name = takeWhile (\<lambda>c. \<not> blank c) u
    in \<exists>cmd out. msh_exec table (t @ NUL # rest) (length t) =
      (if u = [] then Inr (t @ NUL # rest, [], 0)
       else case find (\<lambda>e. syscall_name e = name) table of
         None \<Rightarrow> Inr (cmd, takeWhile (\<lambda>c. c \<noteq> CHR '' '') u @ '': command not found.'' @ newline, -1)
       | Some e \<Rightarrow> Inr (cmd, out @ snd (syscall_func e (take 10 (tokens t))), fst (syscall_func e (take 10 (tokens t)))))"
  using msh_exec_spec [OF assms, of rest] unfolding Let_def case_prod_unfold .

theorem msh_exec_runs_witness:
  "\<exists>cmd out. msh_exec [\<lparr>syscall_name = ''sum'', syscall_desc = [], syscall_func = (\<lambda>args. (int (length args), concat args))\<rparr>]
    ('' sum  a b'' @ [NUL]) 9 = Inr (cmd, out @ ''sumab'', 3)"
proof -
  let ?t = "'' sum  a b''"
  let ?table = "[\<lparr>syscall_name = ''sum'', syscall_desc = [], syscall_func = (\<lambda>args. (int (length args), concat args))\<rparr>]"
  have "table_ok ?table" "NUL \<notin> set ?t" and len: "length ?t = 9" by (simp_all add: table_ok_def)
  moreover have "tokens ?t = [''sum'', ''a'', ''b'']" by (simp add: tokens.simps blank_def)
  moreover have "dropWhile blank ?t = ''sum  a b''" "takeWhile (\<lambda>c. \<not> blank c) ''sum  a b'' = ''sum''"
    by (simp_all add: blank_def)
  ultimately show ?thesis using msh_exec_runs [of ?table ?t "[]"] unfolding len Let_def by simp
qed

section \<open>What a line prints\<close>

text \<open>A piece of output that leaves a terminal at the start of a row, without control sequences.\<close>

definition whole_rows :: "string \<Rightarrow> bool" where
  "whole_rows s \<longleftrightarrow> CHR 0x1B \<notin> set s \<and> (s = [] \<or> last s = CHR 0x0A)"

lemma whole_rows_append: "whole_rows s \<Longrightarrow> whole_rows t \<Longrightarrow> whole_rows (s @ t)"
  by (cases "t = []") (auto simp: whole_rows_def)

lemma strip_blanks_set: "strip_blanks cmd n p = Inr (cmd', q) \<Longrightarrow> set cmd' \<subseteq> insert NUL (set cmd)"
proof (induction cmd n p rule: strip_blanks.induct)
  case (1 cmd n p)
  show ?case
  proof (cases "p < length cmd \<and> blank (cmd ! p) \<and> p < n")
    case True
    then have "strip_blanks (cmd[p := NUL]) n (p + 1) = Inr (cmd', q)" using 1(2) by (subst (asm) strip_blanks.simps) simp
    with 1(1) [of "cmd ! p"] True have "set cmd' \<subseteq> insert NUL (set (cmd[p := NUL]))" by simp
    then show ?thesis using set_update_subset_insert [of cmd p NUL] by blast
  qed (use 1(2) in \<open>subst (asm) strip_blanks.simps, auto simp: arr_get_def split: if_splits\<close>)
qed

lemma print_args_set: "print_args cmd ps = Inr t \<Longrightarrow> set t \<subseteq> insert (CHR '' '') (set cmd)"
  by (induction ps arbitrary: t)
    (auto simp: bind_err_Inr_iff text_at_def split: if_splits dest!: set_takeWhileD in_set_dropD)

lemma split_loop_rows: "split_loop cmd n p argv = Inr (cmd', argv', out) \<Longrightarrow> CHR 0x1B \<notin> set cmd \<Longrightarrow> whole_rows out \<and> CHR 0x1B \<notin> set cmd'"
proof (induction cmd n p argv rule: split_loop.induct)
  case (1 cmd n p argv)
  show ?case
  proof (cases "p < n")
    case False
    then show ?thesis using 1(3,4) by (subst (asm) split_loop.simps) (auto simp: whole_rows_def)
  next
    case p: True
    obtain c q where strip: "strip_blanks cmd n p = Inr (c, q)"
      using 1(3) p by (subst (asm) split_loop.simps) (auto split: sum.splits)
    have esc: "CHR 0x1B \<notin> set c" using strip_blanks_set [OF strip] 1(4) by auto
    show ?thesis
    proof (cases "length argv \<ge> FINSH_ARG_MAX")
      case True
      then obtain t where "print_args c argv = Inr t" "out = ''Too many args ! We only Use:'' @ newline @ t @ newline" "cmd' = c"
        using 1(3) p strip by (subst (asm) split_loop.simps) (auto simp: bind_err_Inr_iff)
      then show ?thesis using print_args_set [of c argv t] esc by (auto simp: whole_rows_def)
    next
      case few: False
      show ?thesis
      proof (cases "\<not> q \<ge> n \<and> c ! q = CHR 0x22")
        case True
        then obtain k where k: "skip_quoted c n (q + 1) = Inr k"
          using 1(3) p strip few by (subst (asm) split_loop.simps) (auto split: sum.splits)
        have "CHR 0x1B \<notin> set (c[k := NUL])" using esc set_update_subset_insert [of c k NUL] by auto
        moreover have "(if k \<ge> n then Inr (c, argv @ [q + 1], []) else split_loop (c[k := NUL]) n (k + 1) (argv @ [q + 1])) =
            Inr (cmd', argv', out)"
          using 1(3) p strip few True k by (subst (asm) split_loop.simps) simp
        ultimately show ?thesis using 1(1) [OF p strip refl few _ _ k] True esc by (auto simp: whole_rows_def split: if_splits)
      next
        case False
        have "(if q \<ge> n then Inr (c, argv, [])
            else case skip_word c n q of Inl e \<Rightarrow> Inl e
              | Inr k \<Rightarrow> if k \<ge> n then Inr (c, argv @ [q], []) else split_loop c n k (argv @ [q])) = Inr (cmd', argv', out)"
          using 1(3) p strip few False by (subst (asm) split_loop.simps) auto
        then show ?thesis using 1(2) [OF p strip refl few] False esc
          by (auto simp: whole_rows_def split: if_splits sum.splits)
      qed
    qed
  qed
qed

end
