(* ===== verification/Shell.thy ===== *)
theory Shell
  imports Msh
begin

text \<open>
  The line editor of the shell (\<open>rt-thread/components/finsh/shell.c\<close>, configured with history and without
  passwords): what \<open>finsh_thread_entry\<close> does with each character it reads. The line buffer holds 81 characters; the
  positions are 16-bit words. Console output is appended to \<open>console\<close>. \<open>calls\<close> is not in the program: it
  collects the lines that were handed to \<open>msh_exec\<close>.
\<close>

section \<open>Operations\<close>

definition FINSH_CMD_SIZE :: nat where "FINSH_CMD_SIZE = 80"
definition FINSH_HISTORY_LINES :: nat where "FINSH_HISTORY_LINES = 5"

datatype input_stat = WAIT_NORMAL | WAIT_SPEC_KEY | WAIT_FUNC_KEY

record finsh_shell =
  stat :: input_stat
  echo_mode :: bool
  prompt_mode :: bool
  current_history :: u16
  history_count :: u16
  cmd_history :: "string list"
  line :: string
  line_position :: u16
  line_curpos :: u16
  console :: string
  calls :: "string list"

definition MSH_PROMPT :: string where "MSH_PROMPT = ''msh ''"

definition finsh_get_prompt :: "finsh_shell \<Rightarrow> string" where
  "finsh_get_prompt sh = (if prompt_mode sh then MSH_PROMPT @ ''>'' else [])"

definition kprintf :: "string \<Rightarrow> finsh_shell \<Rightarrow> finsh_shell" where
  "kprintf s sh = sh\<lparr>console := console sh @ s\<rparr>"

definition BS :: char where "BS = CHR 0x08"

text \<open>\<open>rt_memmove\<close> of \<open>n\<close> characters inside the line.\<close>

definition move_chars :: "nat \<Rightarrow> nat \<Rightarrow> nat \<Rightarrow> string \<Rightarrow> fault + string" where
  "move_chars dst src n xs =
     (if dst + n \<le> length xs \<and> src + n \<le> length xs then Inr (take dst xs @ take n (drop src xs) @ drop (dst + n) xs)
      else Inl OutOfBounds)"

definition shell_handle_history :: "finsh_shell \<Rightarrow> fault + finsh_shell" where
  "shell_handle_history sh =
     bind_err (text_at (line sh) 0) (\<lambda>t.
       Inr (kprintf (finsh_get_prompt sh @ t) (kprintf (CHR 0x1B # ''[2K'' @ [CHR 0x0D]) sh)))"

text \<open>The line and a command of the history, as \<open>memcmp\<close> and \<open>memcpy\<close> see them.\<close>

definition history_entry :: "finsh_shell \<Rightarrow> fault + string" where
  "history_entry sh =
     (let n = unat (line_position sh)
      in if n \<le> FINSH_CMD_SIZE \<and> n \<le> length (line sh) then Inr (take n (line sh) @ replicate (FINSH_CMD_SIZE - n) NUL)
         else Inl OutOfBounds)"

definition shell_push_history :: "finsh_shell \<Rightarrow> fault + finsh_shell" where
  "shell_push_history sh =
     bind_err
       (if line_position sh \<noteq> 0 then
          if unat (history_count sh) \<ge> FINSH_HISTORY_LINES then
            bind_err (arr_get (cmd_history sh) (FINSH_HISTORY_LINES - 1)) (\<lambda>h.
              if h \<noteq> take FINSH_CMD_SIZE (line sh) then
                bind_err (history_entry sh) (\<lambda>c.
                  Inr (sh\<lparr>cmd_history := (foldl (\<lambda>hs i. hs[i := hs ! (i + 1)]) (cmd_history sh) [0..<FINSH_HISTORY_LINES - 1])
                                          [FINSH_HISTORY_LINES - 1 := c],
                          history_count := of_nat FINSH_HISTORY_LINES\<rparr>))
              else Inr sh)
          else
            bind_err (if history_count sh = 0 then Inr True
                      else bind_err (arr_get (cmd_history sh) (unat (history_count sh - 1)))
                             (\<lambda>h. Inr (h \<noteq> take FINSH_CMD_SIZE (line sh)))) (\<lambda>different.
              if different then
                bind_err (history_entry sh) (\<lambda>c.
                bind_err (arr_set (cmd_history sh) (unat (history_count sh)) c) (\<lambda>hs.
                  Inr (sh\<lparr>current_history := history_count sh, cmd_history := hs, history_count := history_count sh + 1\<rparr>)))
              else Inr sh)
        else Inr sh)
       (\<lambda>sh. Inr (sh\<lparr>current_history := history_count sh\<rparr>))"

text \<open>Taking the selected command into the line.\<close>

definition load_history :: "finsh_shell \<Rightarrow> fault + finsh_shell" where
  "load_history sh =
     bind_err (arr_get (cmd_history sh) (unat (current_history sh))) (\<lambda>h.
       let l = take FINSH_CMD_SIZE h @ drop FINSH_CMD_SIZE (line sh)
       in bind_err (text_at l 0) (\<lambda>t.
            shell_handle_history (sh\<lparr>line := l, line_curpos := of_nat (length t), line_position := of_nat (length t)\<rparr>)))"

definition up_key :: "finsh_shell \<Rightarrow> fault + finsh_shell" where
  "up_key sh =
     (if current_history sh > 0 then load_history (sh\<lparr>current_history := current_history sh - 1\<rparr>)
      else Inr (sh\<lparr>current_history := 0\<rparr>))"

definition down_key :: "finsh_shell \<Rightarrow> fault + finsh_shell" where
  "down_key sh =
     (if uint (current_history sh) < uint (history_count sh) - 1
      then load_history (sh\<lparr>current_history := current_history sh + 1\<rparr>)
      else if history_count sh \<noteq> 0 then load_history (sh\<lparr>current_history := history_count sh - 1\<rparr>)
      else Inr sh)"

definition left_key :: "finsh_shell \<Rightarrow> fault + finsh_shell" where
  "left_key sh = Inr (if line_curpos sh \<noteq> 0 then (kprintf [BS] sh)\<lparr>line_curpos := line_curpos sh - 1\<rparr> else sh)"

definition right_key :: "finsh_shell \<Rightarrow> fault + finsh_shell" where
  "right_key sh =
     (if line_curpos sh < line_position sh then
        bind_err (arr_get (line sh) (unat (line_curpos sh))) (\<lambda>c.
          Inr ((kprintf [c] sh)\<lparr>line_curpos := line_curpos sh + 1\<rparr>))
      else Inr sh)"

definition shell_auto_complete :: "finsh_syscall list \<Rightarrow> finsh_shell \<Rightarrow> fault + finsh_shell" where
  "shell_auto_complete table sh =
     (let sh = kprintf newline sh
      in bind_err (msh_auto_complete table (line sh)) (\<lambda>(l, out).
           let sh = kprintf out (sh\<lparr>line := l\<rparr>)
           in bind_err (text_at l 0) (\<lambda>t. Inr (kprintf (finsh_get_prompt sh @ t) sh))))"

definition tab_key :: "finsh_syscall list \<Rightarrow> finsh_shell \<Rightarrow> fault + finsh_shell" where
  "tab_key table sh =
     bind_err (shell_auto_complete table (kprintf (replicate (unat (line_curpos sh)) BS) sh)) (\<lambda>sh.
     bind_err (text_at (line sh) 0) (\<lambda>t.
       Inr (sh\<lparr>line_curpos := of_nat (length t), line_position := of_nat (length t)\<rparr>)))"

definition backspace_key :: "finsh_shell \<Rightarrow> fault + finsh_shell" where
  "backspace_key sh =
     (if line_curpos sh = 0 then Inr sh
      else
        let sh = sh\<lparr>line_position := line_position sh - 1, line_curpos := line_curpos sh - 1\<rparr>;
            pos = unat (line_position sh);
            cur = unat (line_curpos sh)
        in if pos > cur then
             bind_err (move_chars cur (cur + 1) (pos - cur) (line sh)) (\<lambda>l.
             bind_err (arr_set l pos NUL) (\<lambda>l.
             bind_err (text_at l cur) (\<lambda>t.
               Inr (kprintf (replicate (pos - cur + 1) BS) (kprintf ([BS] @ t @ ''  '' @ [BS]) (sh\<lparr>line := l\<rparr>))))))
           else
             bind_err (arr_set (line sh) pos NUL) (\<lambda>l. Inr ((kprintf ([BS] @ '' '' @ [BS]) sh)\<lparr>line := l\<rparr>)))"

definition enter_key :: "finsh_syscall list \<Rightarrow> finsh_shell \<Rightarrow> fault + finsh_shell" where
  "enter_key table sh =
     bind_err (shell_push_history sh) (\<lambda>sh.
       let sh = (if echo_mode sh then kprintf newline sh else sh);
           n = unat (line_position sh)
       in bind_err (msh_exec table (line sh) n) (\<lambda>(l, out, r).
            let sh = kprintf (out @ finsh_get_prompt sh) (sh\<lparr>calls := calls sh @ [take n (line sh)]\<rparr>)
            in Inr (sh\<lparr>line := replicate (FINSH_CMD_SIZE + 1) NUL, line_curpos := 0, line_position := 0\<rparr>)))"

definition insert_key :: "char \<Rightarrow> finsh_shell \<Rightarrow> fault + finsh_shell" where
  "insert_key ch sh =
     (let sh = (if unat (line_position sh) \<ge> FINSH_CMD_SIZE then sh\<lparr>line_position := 0\<rparr> else sh);
          pos = unat (line_position sh);
          cur = unat (line_curpos sh)
      in bind_err
           (if cur < pos then
              bind_err (move_chars (cur + 1) cur (pos - cur) (line sh)) (\<lambda>l.
              bind_err (arr_set l cur ch) (\<lambda>l.
              bind_err (if echo_mode sh then text_at l cur else Inr []) (\<lambda>t.
                Inr (kprintf (t @ replicate (pos - cur) BS) (sh\<lparr>line := l\<rparr>)))))
            else
              bind_err (arr_set (line sh) pos ch) (\<lambda>l.
                Inr (kprintf (if echo_mode sh then [ch] else []) (sh\<lparr>line := l\<rparr>))))
           (\<lambda>sh.
              let sh = sh\<lparr>line_position := line_position sh + 1, line_curpos := line_curpos sh + 1\<rparr>
              in Inr (if unat (line_position sh) \<ge> FINSH_CMD_SIZE then sh\<lparr>line_position := 0, line_curpos := 0\<rparr> else sh)))"

definition plain_key :: "finsh_syscall list \<Rightarrow> char \<Rightarrow> finsh_shell \<Rightarrow> fault + finsh_shell" where
  "plain_key table ch sh =
     (if ch = NUL \<or> ch = CHR 0xFF then Inr sh
      else if ch = CHR 0x09 then tab_key table sh
      else if ch = CHR 0x7F \<or> ch = CHR 0x08 then backspace_key sh
      else if ch = CHR 0x0D \<or> ch = CHR 0x0A then enter_key table sh
      else insert_key ch sh)"

text \<open>One turn of the loop of the shell thread.\<close>

definition finsh_key :: "finsh_syscall list \<Rightarrow> char \<Rightarrow> finsh_shell \<Rightarrow> fault + finsh_shell" where
  "finsh_key table ch sh =
     (if ch = CHR 0x1B then Inr (sh\<lparr>stat := WAIT_SPEC_KEY\<rparr>)
      else if stat sh = WAIT_SPEC_KEY then
        if ch = CHR ''['' then Inr (sh\<lparr>stat := WAIT_FUNC_KEY\<rparr>) else plain_key table ch (sh\<lparr>stat := WAIT_NORMAL\<rparr>)
      else if stat sh = WAIT_FUNC_KEY then
        let sh = sh\<lparr>stat := WAIT_NORMAL\<rparr>
        in if ch = CHR ''A'' then up_key sh
           else if ch = CHR ''B'' then down_key sh
           else if ch = CHR ''D'' then left_key sh
           else if ch = CHR ''C'' then right_key sh
           else plain_key table ch sh
      else plain_key table ch sh)"

definition finsh_run :: "finsh_syscall list \<Rightarrow> finsh_shell \<Rightarrow> string \<Rightarrow> fault + finsh_shell" where
  "finsh_run table = run_err (finsh_key table)"

text \<open>The structure is allocated cleared; the thread begins with a prompt.\<close>

definition finsh_start :: finsh_shell where
  "finsh_start =
     kprintf (MSH_PROMPT @ ''>'')
       \<lparr>stat = WAIT_NORMAL, echo_mode = True, prompt_mode = True, current_history = 0, history_count = 0,
        cmd_history = replicate FINSH_HISTORY_LINES (replicate FINSH_CMD_SIZE NUL), line = replicate (FINSH_CMD_SIZE + 1) NUL,
        line_position = 0, line_curpos = 0, console = [], calls = []\<rparr>"


section \<open>An editor\<close>

text \<open>
  What the shell is meant to be: a line of text with a cursor in it (the texts before and behind it), and the last five
  commands. The specification leaves open what happens when the line gets 80 characters long.
\<close>

record editor =
  mode :: input_stat
  before_cursor :: string
  after_cursor :: string
  hist :: "string list"
  sel :: nat
  ran :: "string list"

definition typed :: "editor \<Rightarrow> string" where
  "typed e = before_cursor e @ after_cursor e"

definition set_typed :: "string \<Rightarrow> editor \<Rightarrow> editor" where
  "set_typed t e = e\<lparr>before_cursor := t, after_cursor := []\<rparr>"

definition add_history :: "string \<Rightarrow> string list \<Rightarrow> string list" where
  "add_history t h =
     (if t = [] \<or> h \<noteq> [] \<and> last h = t then h
      else (if length h \<ge> FINSH_HISTORY_LINES then tl h else h) @ [t])"

definition edit_plain :: "finsh_syscall list \<Rightarrow> char \<Rightarrow> editor \<Rightarrow> editor option" where
  "edit_plain table ch e =
     (if ch = NUL \<or> ch = CHR 0xFF then Some e
      else if ch = CHR 0x09 then
        Some (set_typed (completion table (typed e)) e)
      else if ch = CHR 0x7F \<or> ch = CHR 0x08 then Some (e\<lparr>before_cursor := butlast (before_cursor e)\<rparr>)
      else if ch = CHR 0x0D \<or> ch = CHR 0x0A then
        (let h = add_history (typed e) (hist e)
         in Some ((set_typed [] e)\<lparr>hist := h, sel := length h, ran := ran e @ [typed e]\<rparr>))
      else if length (typed e) + 1 < FINSH_CMD_SIZE then Some (e\<lparr>before_cursor := before_cursor e @ [ch]\<rparr>)
      else None)"

definition edit_arrow :: "char \<Rightarrow> editor \<Rightarrow> editor option" where
  "edit_arrow ch e =
     (if ch = CHR ''A'' then Some (if sel e > 0 then set_typed (hist e ! (sel e - 1)) (e\<lparr>sel := sel e - 1\<rparr>) else e)
      else if ch = CHR ''B'' then
        Some (if hist e = [] then e
              else let k = (if sel e < length (hist e) - 1 then sel e + 1 else length (hist e) - 1)
                   in set_typed (hist e ! k) (e\<lparr>sel := k\<rparr>))
      else if ch = CHR ''D'' then
        Some (if before_cursor e = [] then e
              else e\<lparr>before_cursor := butlast (before_cursor e), after_cursor := last (before_cursor e) # after_cursor e\<rparr>)
      else if ch = CHR ''C'' then
        Some (if after_cursor e = [] then e
              else e\<lparr>before_cursor := before_cursor e @ [hd (after_cursor e)], after_cursor := tl (after_cursor e)\<rparr>)
      else None)"

definition edit :: "finsh_syscall list \<Rightarrow> char \<Rightarrow> editor \<Rightarrow> editor option" where
  "edit table ch e =
     (let normal = e\<lparr>mode := WAIT_NORMAL\<rparr>
      in if ch = CHR 0x1B then Some (e\<lparr>mode := WAIT_SPEC_KEY\<rparr>)
         else if mode e = WAIT_SPEC_KEY then
           if ch = CHR ''['' then Some (e\<lparr>mode := WAIT_FUNC_KEY\<rparr>) else edit_plain table ch normal
         else if mode e = WAIT_FUNC_KEY \<and> ch \<in> set ''ABCD'' then edit_arrow ch normal
         else edit_plain table ch normal)"

definition new_editor :: editor where
  "new_editor = \<lparr>mode = WAIT_NORMAL, before_cursor = [], after_cursor = [], hist = [], sel = 0, ran = []\<rparr>"

section \<open>The shell is this editor\<close>

text \<open>A line of the buffer: its text and NULs behind it.\<close>

definition buffer_of :: "nat \<Rightarrow> string \<Rightarrow> string" where
  "buffer_of n t = t @ replicate (n - length t) NUL"

definition is_line :: "string \<Rightarrow> bool" where
  "is_line t \<longleftrightarrow> NUL \<notin> set t \<and> length t < FINSH_CMD_SIZE"

definition shell_rel :: "finsh_shell \<Rightarrow> editor \<Rightarrow> bool" where
  "shell_rel sh e \<longleftrightarrow>
     stat sh = mode e \<and> is_line (typed e) \<and> line sh = buffer_of 81 (typed e) \<and>
     line_position sh = of_nat (length (typed e)) \<and> line_curpos sh = of_nat (length (before_cursor e)) \<and>
     length (hist e) \<le> FINSH_HISTORY_LINES \<and> sel e \<le> length (hist e) \<and> (\<forall>t \<in> set (hist e). is_line t) \<and>
     history_count sh = of_nat (length (hist e)) \<and> current_history sh = of_nat (sel e) \<and>
     length (cmd_history sh) = FINSH_HISTORY_LINES \<and>
     take (length (hist e)) (cmd_history sh) = map (buffer_of 80) (hist e) \<and> calls sh = ran e"

lemmas sizes = FINSH_CMD_SIZE_def FINSH_HISTORY_LINES_def

lemma shell_rel_start: "shell_rel finsh_start new_editor"
  by (simp add: shell_rel_def finsh_start_def new_editor_def kprintf_def typed_def is_line_def buffer_of_def sizes)

lemma text_at_buffer: "is_line t \<Longrightarrow> text_at (buffer_of 81 t) 0 = Inr t"
  by (auto simp: text_at_def buffer_of_def is_line_def sizes takeWhile_append takeWhile_replicate)

lemma length_buffer [simp]: "length t \<le> n \<Longrightarrow> length (buffer_of n t) = n"
  by (simp add: buffer_of_def)

lemma unat_small: "n < 65536 \<Longrightarrow> unat (of_nat n :: u16) = n"
  by (simp add: unat_of_nat)

lemma of_nat_dec: "0 < n \<Longrightarrow> (of_nat n :: u16) - 1 = of_nat (n - 1)"
  by (simp add: of_nat_diff)

lemma buffer_snoc: "is_line t \<Longrightarrow> buffer_of 81 t = buffer_of 80 t @ [NUL]"
proof -
  assume "is_line t"
  then have "length t < 80" by (simp add: is_line_def sizes)
  then have "81 - length t = Suc (80 - length t)" by linarith
  then show ?thesis by (simp add: buffer_of_def replicate_append_same)
qed

lemma buffer_load: "is_line t \<Longrightarrow> is_line u \<Longrightarrow> take 80 (buffer_of 80 t) @ drop 80 (buffer_of 81 u) = buffer_of 81 t"
  using buffer_snoc [of t] by (simp add: buffer_of_def is_line_def sizes)

text \<open>The shell with another text, cursor and more output.\<close>

definition shown :: "string \<Rightarrow> nat \<Rightarrow> string \<Rightarrow> finsh_shell \<Rightarrow> finsh_shell" where
  "shown t c s sh = sh\<lparr>line := buffer_of 81 t, line_position := of_nat (length t), line_curpos := of_nat c, console := console sh @ s\<rparr>"

lemma shell_rel_shown:
  "shell_rel sh e \<Longrightarrow> is_line (b @ a) \<Longrightarrow> shell_rel (shown (b @ a) (length b) s sh) (e\<lparr>before_cursor := b, after_cursor := a\<rparr>)"
  by (simp add: shell_rel_def shown_def typed_def)

lemma shell_rel_line:
  assumes "shell_rel sh e"
  shows "line sh = buffer_of 81 (typed e)" "is_line (typed e)"
    "line_position sh = of_nat (length (typed e))" "line_curpos sh = of_nat (length (before_cursor e))"
    "unat (line_position sh) = length (typed e)" "unat (line_curpos sh) = length (before_cursor e)"
    "length (typed e) = length (before_cursor e) + length (after_cursor e)" "length (typed e) < 80"
proof -
  show t: "line sh = buffer_of 81 (typed e)" "is_line (typed e)" "line_position sh = of_nat (length (typed e))"
    "line_curpos sh = of_nat (length (before_cursor e))"
    using assms by (simp_all add: shell_rel_def)
  show l: "length (typed e) = length (before_cursor e) + length (after_cursor e)" by (simp add: typed_def)
  show n: "length (typed e) < 80" using t(2) by (simp add: is_line_def sizes)
  show "unat (line_position sh) = length (typed e)" unfolding t(3) using n by (intro unat_small) simp
  show "unat (line_curpos sh) = length (before_cursor e)" unfolding t(4) using n l by (intro unat_small) simp
qed

lemma left_key_shown:
  assumes "shell_rel sh e"
  shows "left_key sh = Inr (if before_cursor e = [] then sh else shown (typed e) (length (before_cursor e) - 1) [BS] sh)"
proof (cases "before_cursor e = []")
  case False
  then have "line_curpos sh \<noteq> 0" using shell_rel_line(6) [OF assms] by auto
  then show ?thesis using False shell_rel_line [OF assms]
    by (simp add: left_key_def shown_def kprintf_def of_nat_dec)
qed (use shell_rel_line [OF assms] in \<open>simp add: left_key_def\<close>)

lemma right_key_shown:
  assumes "shell_rel sh e"
  shows "right_key sh = Inr (if after_cursor e = [] then sh
    else shown (typed e) (length (before_cursor e) + 1) [hd (after_cursor e)] sh)"
proof (cases "after_cursor e")
  case Nil
  then show ?thesis using shell_rel_line [OF assms] by (simp add: right_key_def typed_def)
next
  case (Cons c a)
  have "line_curpos sh < line_position sh" using shell_rel_line [OF assms] Cons by (simp add: word_less_nat_alt)
  moreover have "line sh ! unat (line_curpos sh) = c"
    using shell_rel_line [OF assms] Cons by (simp add: buffer_of_def typed_def nth_append)
  ultimately show ?thesis using shell_rel_line [OF assms] Cons
    by (simp add: right_key_def shown_def kprintf_def)
qed

text \<open>Inserting into the buffer and deleting from it.\<close>

lemma move_up:
  assumes "length (b @ a) < 80"
  shows "bind_err (move_chars (length b + 1) (length b) (length a) (buffer_of 81 (b @ a))) (\<lambda>l. arr_set l (length b) ch) =
   Inr (buffer_of 81 (b @ [ch] @ a))"
proof -
  define k where "k = 80 - length (b @ a)"
  have "k + length b + length a = 80" using assms by (simp add: k_def)
  moreover from this have "81 - length (b @ a) = Suc k" by simp
  moreover from calculation have "81 - length (b @ [ch] @ a) = k" by simp
  ultimately show ?thesis
    by (cases a) (simp_all add: move_chars_def buffer_of_def list_update_append)
qed

lemma move_down:
  assumes "length (b @ c # a) < 80"
  shows "bind_err (move_chars (length b) (length b + 1) (length a) (buffer_of 81 (b @ c # a))) (\<lambda>l. arr_set l (length b + length a) NUL) =
   Inr (buffer_of 81 (b @ a))"
proof -
  obtain k where "81 - length (b @ c # a) = k" "k + length b + length a = 80" using assms by auto
  moreover from this have "81 - length (b @ a) = Suc k" by simp
  moreover have "drop (length a) (c # a @ s) = last (c # a) # s" for s
    by (induction a arbitrary: c) auto
  ultimately show ?thesis
    by (simp add: move_chars_def buffer_of_def list_update_append)
qed

lemma text_at_mid:
  "is_line (b @ a) \<Longrightarrow> text_at (buffer_of 81 (b @ a)) (length b) = Inr a"
  using buffer_snoc [of "b @ a"]
  by (auto simp: text_at_def buffer_of_def is_line_def sizes takeWhile_append takeWhile_replicate)

lemma insert_key_shown:
  assumes rel: "shell_rel sh e" and len: "length (typed e) + 1 < 80" and ch: "ch \<noteq> NUL"
  shows "insert_key ch sh = Inr (shown (before_cursor e @ [ch] @ after_cursor e) (length (before_cursor e) + 1)
    ((if echo_mode sh then ch # after_cursor e else []) @ replicate (length (after_cursor e)) BS) sh)"
proof -
  note l = shell_rel_line [OF rel]
  let ?b = "before_cursor e" and ?a = "after_cursor e"
  have line: "line sh = buffer_of 81 (?b @ ?a)" using l(1) by (simp add: typed_def)
  have "line_position sh + 1 = of_nat (length (typed e) + 1)" by (simp add: l(3))
  then have n: "unat (line_position sh + 1) = length (typed e) + 1"
    using len by (simp only: unat_small)
  have small: "\<not> FINSH_CMD_SIZE \<le> length (typed e)" "\<not> FINSH_CMD_SIZE \<le> length (typed e) + 1" using len by (simp_all add: sizes)
  have ok: "is_line (?b @ [ch] @ ?a)" using l(2) len ch by (auto simp: is_line_def typed_def sizes)
  show ?thesis
  proof (cases "?a = []")
    case True
    have "arr_set (line sh) (length ?b) ch = Inr (buffer_of 81 (?b @ [ch] @ ?a))"
      using move_up [of ?b "[]" ch] len unfolding line by (simp add: True typed_def move_chars_def)
    then show ?thesis using True n small l
      by (simp add: insert_key_def Let_def shown_def kprintf_def typed_def)
  next
    case False
    obtain m where m: "move_chars (length ?b + 1) (length ?b) (length ?a) (line sh) = Inr m"
      "arr_set m (length ?b) ch = Inr (buffer_of 81 (?b @ [ch] @ ?a))"
      using move_up [of ?b ?a ch] len l(7) unfolding line by (auto simp: bind_err_Inr_iff)
    have "text_at (buffer_of 81 (?b @ [ch] @ ?a)) (length ?b) = Inr (ch # ?a)"
      using text_at_mid [OF ok] by simp
    then show ?thesis using False m n small l
      by (simp add: insert_key_def Let_def shown_def kprintf_def typed_def)
  qed
qed

lemma backspace_key_shown:
  assumes rel: "shell_rel sh e"
  shows "backspace_key sh = Inr (if before_cursor e = [] then sh
    else shown (butlast (before_cursor e) @ after_cursor e) (length (before_cursor e) - 1)
      (if after_cursor e = [] then [BS] @ '' '' @ [BS]
       else [BS] @ after_cursor e @ ''  '' @ [BS] @ replicate (length (after_cursor e) + 1) BS) sh)"
proof (cases "before_cursor e = []")
  case True
  then show ?thesis using shell_rel_line [OF rel] by (simp add: backspace_key_def)
next
  case False
  note l = shell_rel_line [OF rel]
  define b where "b = butlast (before_cursor e)"
  define c where "c = last (before_cursor e)"
  let ?a = "after_cursor e"
  have bc: "before_cursor e = b @ [c]" using False by (simp add: b_def c_def)
  have line: "line sh = buffer_of 81 (b @ c # ?a)" using l(1) by (simp add: typed_def bc)
  have len: "length (b @ c # ?a) < 80" using l(7,8) by (simp add: bc)
  have pos: "line_position sh - 1 = of_nat (length (b @ ?a))" "line_curpos sh - 1 = of_nat (length b)"
    unfolding l(3,4) l(7) by (simp_all add: bc)
  have un: "unat (of_nat (length (b @ ?a)) :: u16) = length (b @ ?a)" "unat (of_nat (length b) :: u16) = length b"
    using len by (intro unat_small; simp)+
  have cur: "line_curpos sh \<noteq> 0" using l(6) bc by auto
  have ok: "is_line (b @ ?a)" using l(2) by (auto simp: is_line_def typed_def bc)
  have eq: "butlast (before_cursor e) = b" "length (before_cursor e) - 1 = length b" by (simp_all add: bc)
  obtain m where m: "move_chars (length b) (length b + 1) (length ?a) (line sh) = Inr m"
    "arr_set m (length b + length ?a) NUL = Inr (buffer_of 81 (b @ ?a))"
    using move_down [OF len] unfolding line by (auto simp: bind_err_Inr_iff)
  show ?thesis
  proof (cases "?a = []")
    case True
    then have "m = line sh" using m(1) by (auto simp: move_chars_def split: if_splits)
    then show ?thesis using True cur pos un m(2) eq False
      by (simp add: backspace_key_def Let_def shown_def kprintf_def)
  next
    case a: False
    then show ?thesis using cur pos un m eq False text_at_mid [OF ok]
      by (simp add: backspace_key_def Let_def shown_def kprintf_def)
  qed
qed

text \<open>History.\<close>

lemma buffer_80: "is_line t \<Longrightarrow> take 80 (buffer_of 81 t) = buffer_of 80 t"
  using buffer_snoc [of t] by (simp add: is_line_def sizes)

lemma buffer_inject: "is_line t \<Longrightarrow> is_line u \<Longrightarrow> buffer_of 80 t = buffer_of 80 u \<longleftrightarrow> t = u"
  by (metis buffer_snoc text_at_buffer sum.inject(2))

lemma cmd_history_nth:
  assumes "shell_rel sh e" and "k < length (hist e)"
  shows "cmd_history sh ! k = buffer_of 80 (hist e ! k)" "k < length (cmd_history sh)" "is_line (hist e ! k)"
proof -
  have h: "take (length (hist e)) (cmd_history sh) = map (buffer_of 80) (hist e)" "length (hist e) \<le> length (cmd_history sh)"
    using assms(1) by (simp_all add: shell_rel_def)
  have "take (length (hist e)) (cmd_history sh) ! k = map (buffer_of 80) (hist e) ! k" by (simp only: h)
  then show "cmd_history sh ! k = buffer_of 80 (hist e ! k)" using assms(2) by simp
  show "k < length (cmd_history sh)" using assms(2) h by simp
  show "is_line (hist e ! k)" using assms by (simp add: shell_rel_def)
qed

lemma load_history_shown:
  assumes rel: "shell_rel sh e" and k: "k < length (hist e)"
  shows "load_history (sh\<lparr>current_history := of_nat k\<rparr>) =
    Inr (shown (hist e ! k) (length (hist e ! k)) (CHR 0x1B # ''[2K'' @ [CHR 0x0D] @ finsh_get_prompt sh @ hist e ! k)
      (sh\<lparr>current_history := of_nat k\<rparr>))"
proof -
  note l = shell_rel_line [OF rel]
  note h = cmd_history_nth [OF assms]
  have "length (hist e) \<le> 5" using rel by (simp add: shell_rel_def sizes)
  then have "unat (of_nat k :: u16) = k" using k by (intro unat_small) simp
  then show ?thesis using h l(1) text_at_buffer [OF h(3)] buffer_load [OF h(3) l(2)]
    by (simp add: load_history_def shell_handle_history_def Let_def shown_def kprintf_def finsh_get_prompt_def sizes)
qed

lemma history_entry_line: "shell_rel sh e \<Longrightarrow> history_entry sh = Inr (buffer_of 80 (typed e))"
  using shell_rel_line [of sh e] by (auto simp: history_entry_def Let_def sizes buffer_of_def)

lemma history_full: "length hs = 5 \<Longrightarrow> (foldl (\<lambda>hs i. hs[i := hs ! (i + 1)]) hs [0..<4])[4 := c] = tl hs @ [c]"
  by (simp add: numeral_eq_Suc length_Suc_conv) (auto simp: numeral_eq_Suc)

lemma last_history:
  assumes "shell_rel sh e" and "hist e \<noteq> []"
  shows "cmd_history sh ! (length (hist e) - 1) = buffer_of 80 (last (hist e))" "is_line (last (hist e))"
  using cmd_history_nth [OF assms(1), of "length (hist e) - 1"] assms(2) by (auto simp: last_conv_nth)

lemma push_history_adds:
  assumes rel: "shell_rel sh e"
  defines "h \<equiv> add_history (typed e) (hist e)"
  shows "\<exists>hs. shell_push_history sh = Inr (sh\<lparr>cmd_history := hs, history_count := of_nat (length h), current_history := of_nat (length h)\<rparr>) \<and>
    length hs = 5 \<and> take (length h) hs = map (buffer_of 80) h"
proof -
  note l = shell_rel_line [OF rel]
  let ?n = "length (hist e)" and ?t = "typed e"
  have st: "history_count sh = of_nat ?n" "length (cmd_history sh) = 5" "take ?n (cmd_history sh) = map (buffer_of 80) (hist e)" "?n \<le> 5"
    using rel by (simp_all add: shell_rel_def sizes)
  have un: "unat (history_count sh) = ?n" unfolding st(1) using st(4) by (intro unat_small) simp
  have line: "take FINSH_CMD_SIZE (line sh) = buffer_of 80 ?t" using buffer_80 [OF l(2)] by (simp add: l(1) sizes)
  note ent = history_entry_line [OF rel]
  consider (same) "?t = [] \<or> hist e \<noteq> [] \<and> last (hist e) = ?t" | (full) "?t \<noteq> []" "hist e \<noteq> []" "last (hist e) \<noteq> ?t" "?n = 5"
    | (room) "?t \<noteq> []" "hist e = [] \<or> last (hist e) \<noteq> ?t" "?n < 5"
    using st(4) by (cases "hist e = []") (auto simp: order_le_less)
  then show ?thesis
  proof cases
    case same
    then have h: "h = hist e" by (simp add: h_def add_history_def)
    have "shell_push_history sh = Inr (sh\<lparr>current_history := history_count sh\<rparr>)"
    proof (cases "?t = []")
      case False
      then have ne: "hist e \<noteq> []" and la: "last (hist e) = ?t" using same by auto
      have pos: "line_position sh \<noteq> 0" using False l(5) by auto
      have c0: "history_count sh \<noteq> 0" using un ne by auto
      have dec: "unat (history_count sh - 1) = ?n - 1" using unat_dec_pos [OF c0] un by simp
      show ?thesis using pos c0 un dec ne la line last_history(1) [OF rel ne] st(2,4)
        by (auto simp: shell_push_history_def sizes)
    qed (simp add: shell_push_history_def l(3))
    then show ?thesis using st h by (intro exI [of _ "cmd_history sh"]) simp
  next
    case full
    then have h: "h = tl (hist e) @ [?t]" by (simp add: h_def add_history_def sizes)
    have pos: "line_position sh \<noteq> 0" using full(1) l(5) by auto
    have "cmd_history sh ! 4 \<noteq> buffer_of 80 ?t"
      using last_history [OF rel full(2)] full(3,4) buffer_inject l(2) by simp
    then have "shell_push_history sh = Inr (sh\<lparr>cmd_history := tl (cmd_history sh) @ [buffer_of 80 ?t], history_count := 5, current_history := 5\<rparr>)"
      using pos un full(4) line ent st(2) history_full [OF st(2)] by (simp add: shell_push_history_def sizes)
    moreover have "tl (cmd_history sh) = map (buffer_of 80) (tl (hist e))"
      using st(2,3) full(4) by (simp add: map_tl)
    ultimately show ?thesis using st(2) full(4) h by (intro exI [of _ "tl (cmd_history sh) @ [buffer_of 80 ?t]"]) simp
  next
    case room
    then have h: "h = hist e @ [?t]" by (auto simp: h_def add_history_def sizes)
    have pos: "line_position sh \<noteq> 0" using room(1) l(5) by auto
    have "shell_push_history sh = Inr (sh\<lparr>cmd_history := (cmd_history sh)[?n := buffer_of 80 ?t], history_count := history_count sh + 1,
        current_history := history_count sh + 1\<rparr>)"
    proof (cases "hist e = []")
      case True
      then show ?thesis using pos un ent st(1,2) by (simp add: shell_push_history_def sizes)
    next
      case ne: False
      have c0: "history_count sh \<noteq> 0" using un ne by auto
      have dec: "unat (history_count sh - 1) = ?n - 1" using unat_dec_pos [OF c0] un by simp
      have "cmd_history sh ! (?n - 1) \<noteq> buffer_of 80 ?t"
        using last_history [OF rel ne] room(2) ne buffer_inject l(2) by simp
      then show ?thesis using pos un c0 dec room(3) line ent st(2) by (simp add: shell_push_history_def sizes)
    qed
    then show ?thesis using st room(3) h
      by (intro exI [of _ "(cmd_history sh)[?n := buffer_of 80 ?t]"]) (simp add: take_Suc_conv_app_nth)
  qed
qed


lemma buffer_81: "is_line t \<Longrightarrow> buffer_of 81 t = t @ replicate (Suc 80 - length t) NUL"
  by (simp add: buffer_of_def)

lemma completion_line: "table_ok table \<Longrightarrow> is_line t \<Longrightarrow> is_line (completion table t)"
  using completion_spec(1,2) [of table t 80] by (auto simp: is_line_def sizes)

lemma tab_key_shown:
  assumes rel: "shell_rel sh e" and ok: "table_ok table"
  defines "t \<equiv> completion table (typed e)"
  shows "tab_key table sh = Inr (shown t (length t)
    (replicate (length (before_cursor e)) BS @ newline @ listing table (typed e) @ finsh_get_prompt sh @ t) sh)"
proof -
  note l = shell_rel_line [OF rel]
  have t: "is_line t" using completion_line [OF ok l(2)] by (simp add: t_def)
  have "msh_auto_complete table (line sh) = Inr (buffer_of 81 t, listing table (typed e))"
    using completion_spec(4) [OF ok, of "typed e" 80] l(1,2) t
    by (simp add: buffer_81 is_line_def sizes t_def)
  then show ?thesis using l(6) text_at_buffer [OF t]
    by (simp add: tab_key_def shell_auto_complete_def kprintf_def shown_def finsh_get_prompt_def Let_def)
qed

lemma enter_key_shown:
  assumes rel: "shell_rel sh e" and ok: "table_ok table"
  defines "h \<equiv> add_history (typed e) (hist e)"
  shows "\<exists>hs cmd out r. length hs = 5 \<and> take (length h) hs = map (buffer_of 80) h \<and>
    msh_exec table (line sh) (length (typed e)) = Inr (cmd, out, r) \<and>
    enter_key table sh = Inr (shown [] 0 ((if echo_mode sh then newline else []) @ out @ finsh_get_prompt sh)
      (sh\<lparr>cmd_history := hs, history_count := of_nat (length h), current_history := of_nat (length h), calls := calls sh @ [typed e]\<rparr>))"
proof -
  note l = shell_rel_line [OF rel]
  obtain hs where hs: "shell_push_history sh = Inr (sh\<lparr>cmd_history := hs, history_count := of_nat (length h), current_history := of_nat (length h)\<rparr>)"
      "length hs = 5" "take (length h) hs = map (buffer_of 80) h"
    using push_history_adds [OF rel] unfolding h_def by blast
  have buf: "line sh = typed e @ NUL # replicate (80 - length (typed e)) NUL"
  proof -
    have "81 - length (typed e) = Suc (80 - length (typed e))" using l(8) by linarith
    then show ?thesis using l(1) by (simp add: buffer_of_def)
  qed
  obtain cmd out r where ex: "msh_exec table (line sh) (length (typed e)) = Inr (cmd, out, r)"
  proof -
    have "NUL \<notin> set (typed e)" using l(2) by (simp add: is_line_def)
    from msh_exec_spec [OF ok this, of "replicate (80 - length (typed e)) NUL"] show thesis
      using that unfolding buf by (auto split: if_splits option.splits prod.splits)
  qed
  have "take (length (typed e)) (line sh) = typed e" by (simp add: buf)
  then show ?thesis using hs ex l(5)
    by (auto simp: enter_key_def kprintf_def shown_def finsh_get_prompt_def Let_def buffer_of_def sizes)
qed

text \<open>The keys, one by one.\<close>

lemma recall_rel:
  assumes "shell_rel sh e" and "k < length (hist e)"
  shows "shell_rel (shown (hist e ! k) (length (hist e ! k)) s (sh\<lparr>current_history := of_nat k\<rparr>)) (set_typed (hist e ! k) (e\<lparr>sel := k\<rparr>))"
  using assms cmd_history_nth(3) [OF assms] by (simp add: shell_rel_def shown_def set_typed_def typed_def)

text \<open>What recalling a command does.\<close>

definition recalled :: "editor \<Rightarrow> nat \<Rightarrow> finsh_shell \<Rightarrow> finsh_shell" where
  "recalled e k sh = shown (hist e ! k) (length (hist e ! k)) (CHR 0x1B # ''[2K'' @ [CHR 0x0D] @ finsh_get_prompt sh @ hist e ! k)
     (sh\<lparr>current_history := of_nat k\<rparr>)"

lemma up_key_shown:
  assumes "shell_rel sh e"
  shows "up_key sh = Inr (if sel e = 0 then sh else recalled e (sel e - 1) sh)" and "sel e \<noteq> 0 \<Longrightarrow> sel e - 1 < length (hist e)"
proof -
  have s: "sel e \<le> 5" "sel e \<le> length (hist e)" "current_history sh = of_nat (sel e)" using assms by (simp_all add: shell_rel_def sizes)
  show k: "sel e - 1 < length (hist e)" if "sel e \<noteq> 0" using that s(2) by simp
  show "up_key sh = Inr (if sel e = 0 then sh else recalled e (sel e - 1) sh)"
  proof (cases "sel e = 0")
    case True
    then show ?thesis using s(3) by (cases sh) (simp add: up_key_def)
  next
    case False
    have "unat (current_history sh) = sel e" using s(1,3) by (simp add: unat_small)
    then have "current_history sh > 0" using False by (simp add: word_gt_0) auto
    moreover have "current_history sh - 1 = of_nat (sel e - 1)" using s(3) False of_nat_dec by simp
    ultimately show ?thesis using load_history_shown [OF assms k [OF False]] False by (simp add: up_key_def recalled_def)
  qed
qed

lemma down_key_shown:
  assumes "shell_rel sh e"
  defines "k \<equiv> (if sel e < length (hist e) - 1 then sel e + 1 else length (hist e) - 1)"
  shows "down_key sh = Inr (if hist e = [] then sh else recalled e k sh)" and "hist e \<noteq> [] \<Longrightarrow> k < length (hist e)"
proof -
  have s: "length (hist e) \<le> 5" "sel e \<le> length (hist e)" "current_history sh = of_nat (sel e)" "history_count sh = of_nat (length (hist e))"
    using assms(1) by (simp_all add: shell_rel_def sizes)
  have u: "uint (current_history sh) = int (sel e)" "uint (history_count sh) = int (length (hist e))"
    unfolding uint_nat s(3,4) using s(1,2) by (simp_all add: unat_small)
  show k: "k < length (hist e)" if "hist e \<noteq> []" using that by (auto simp: k_def)
  show "down_key sh = Inr (if hist e = [] then sh else recalled e k sh)"
  proof (cases "hist e = []")
    case True
    then show ?thesis using s u by (simp add: down_key_def)
  next
    case False
    have c: "(int (sel e) < int (length (hist e)) - 1) = (sel e < length (hist e) - 1)" by auto
    have "history_count sh \<noteq> 0" using u(2) False by auto
    moreover have "current_history sh + 1 = of_nat (sel e + 1)" "history_count sh - 1 = of_nat (length (hist e) - 1)"
      using s(3,4) False of_nat_dec [of "length (hist e)"] by simp_all
    ultimately have "down_key sh = load_history (sh\<lparr>current_history := of_nat k\<rparr>)"
      unfolding down_key_def u c k_def by (simp add: add.commute)
    then show ?thesis using load_history_shown [OF assms(1) k [OF False]] False by (simp add: recalled_def)
  qed
qed

lemma edit_recall:
  "edit_arrow (CHR ''A'') e = Some (if sel e = 0 then e else set_typed (hist e ! (sel e - 1)) (e\<lparr>sel := sel e - 1\<rparr>))"
  "edit_arrow (CHR ''B'') e = Some (if hist e = [] then e
     else let k = (if sel e < length (hist e) - 1 then sel e + 1 else length (hist e) - 1) in set_typed (hist e ! k) (e\<lparr>sel := k\<rparr>))"
  by (simp_all add: edit_arrow_def)

lemma up_key_rel:
  assumes "shell_rel sh e"
  shows "\<exists>sh' e'. up_key sh = Inr sh' \<and> edit_arrow (CHR ''A'') e = Some e' \<and> shell_rel sh' e'"
proof (cases "sel e = 0")
  case True
  then show ?thesis using up_key_shown(1) [OF assms] assms by (simp add: edit_recall)
next
  case False
  then show ?thesis using up_key_shown(1) [OF assms] recall_rel [OF assms up_key_shown(2) [OF assms False]]
    by (simp add: edit_recall recalled_def)
qed

lemma down_key_rel:
  assumes "shell_rel sh e"
  shows "\<exists>sh' e'. down_key sh = Inr sh' \<and> edit_arrow (CHR ''B'') e = Some e' \<and> shell_rel sh' e'"
  using down_key_shown [OF assms] recall_rel [OF assms] assms by (simp add: edit_recall recalled_def Let_def)

lemma left_key_rel:
  assumes "shell_rel sh e"
  shows "\<exists>sh' e'. left_key sh = Inr sh' \<and> edit_arrow (CHR ''D'') e = Some e' \<and> shell_rel sh' e'"
proof (cases "before_cursor e = []")
  case True
  then show ?thesis using assms left_key_shown [OF assms] by (simp add: edit_arrow_def)
next
  case False
  have "typed e = butlast (before_cursor e) @ last (before_cursor e) # after_cursor e" using False by (simp add: typed_def)
  with shell_rel_shown [OF assms, of "butlast (before_cursor e)" "last (before_cursor e) # after_cursor e" "[BS]"] False
  show ?thesis using left_key_shown [OF assms] shell_rel_line(2) [OF assms] by (simp add: edit_arrow_def)
qed

lemma right_key_rel:
  assumes "shell_rel sh e"
  shows "\<exists>sh' e'. right_key sh = Inr sh' \<and> edit_arrow (CHR ''C'') e = Some e' \<and> shell_rel sh' e'"
proof (cases "after_cursor e")
  case Nil
  then show ?thesis using assms right_key_shown [OF assms] by (simp add: edit_arrow_def)
next
  case (Cons c a)
  have "typed e = (before_cursor e @ [c]) @ a" using Cons by (simp add: typed_def)
  with shell_rel_shown [OF assms, of "before_cursor e @ [c]" a "[c]"]
  show ?thesis using right_key_shown [OF assms] shell_rel_line(2) [OF assms] Cons by (simp add: edit_arrow_def)
qed

lemma add_history_ok:
  "length h \<le> 5 \<Longrightarrow> \<forall>t \<in> set h. is_line t \<Longrightarrow> is_line t \<Longrightarrow>
   length (add_history t h) \<le> 5 \<and> (\<forall>u \<in> set (add_history t h). is_line u)"
  by (cases h) (auto simp: add_history_def sizes)

lemma plain_key_rel:
  assumes rel: "shell_rel sh e" and ok: "table_ok table" and e': "edit_plain table ch e = Some e'"
  shows "\<exists>sh'. plain_key table ch sh = Inr sh' \<and> shell_rel sh' e'"
proof -
  note l = shell_rel_line [OF rel]
  consider "ch = NUL \<or> ch = CHR 0xFF" | "ch = CHR 0x09" | "ch = CHR 0x7F \<or> ch = CHR 0x08" | "ch = CHR 0x0D \<or> ch = CHR 0x0A"
    | "ch \<noteq> NUL" "ch \<noteq> CHR 0xFF" "ch \<noteq> CHR 0x09" "ch \<noteq> CHR 0x7F" "ch \<noteq> CHR 0x08" "ch \<noteq> CHR 0x0D" "ch \<noteq> CHR 0x0A" by blast
  then show ?thesis
  proof cases
    case 1
    then show ?thesis using e' rel by (auto simp: plain_key_def edit_plain_def)
  next
    case 2
    then have "e' = set_typed (completion table (typed e)) e" using e' by (simp add: edit_plain_def)
    then show ?thesis
      using 2 tab_key_shown [OF rel ok] shell_rel_shown [OF rel, of "completion table (typed e)" "[]"] completion_line [OF ok l(2)]
      by (simp add: plain_key_def set_typed_def)
  next
    case 3
    then have e: "e' = e\<lparr>before_cursor := butlast (before_cursor e)\<rparr>" using e' by (auto simp: edit_plain_def)
    have nil: "e\<lparr>before_cursor := []\<rparr> = e" if "before_cursor e = []" using that by (cases e) simp
    have "is_line (butlast (before_cursor e) @ after_cursor e)"
      using l(2) by (auto simp: is_line_def typed_def sizes dest: in_set_butlastD)
    show ?thesis
    proof (cases "before_cursor e = []")
      case True
      then have "e' = e" using nil by (simp add: e)
      then show ?thesis using 3 backspace_key_shown [OF rel] True rel by (auto simp: plain_key_def)
    next
      case False
      with 3 backspace_key_shown [OF rel] shell_rel_shown [OF rel, of "butlast (before_cursor e)" "after_cursor e"]
        \<open>is_line (butlast (before_cursor e) @ after_cursor e)\<close>
      show ?thesis by (auto simp: plain_key_def e)
    qed
  next
    case 4
    define h where "h = add_history (typed e) (hist e)"
    have e: "e' = (set_typed [] e)\<lparr>hist := h, sel := length h, ran := ran e @ [typed e]\<rparr>"
      using 4 e' by (auto simp: edit_plain_def h_def Let_def)
    have h: "length h \<le> 5" "\<forall>u \<in> set h. is_line u"
      using add_history_ok [of "hist e" "typed e"] l(2) rel by (simp_all add: h_def shell_rel_def sizes)
    have "plain_key table ch sh = enter_key table sh" using 4 by (auto simp: plain_key_def)
    moreover obtain hs s where "length hs = 5" "take (length h) hs = map (buffer_of 80) h"
      "enter_key table sh = Inr (shown [] 0 s (sh\<lparr>cmd_history := hs, history_count := of_nat (length h),
         current_history := of_nat (length h), calls := calls sh @ [typed e]\<rparr>))"
      using enter_key_shown [OF rel ok] unfolding h_def [symmetric] by blast
    ultimately show ?thesis
      using rel h unfolding e by (simp add: shell_rel_def shown_def typed_def set_typed_def is_line_def sizes)
  next
    case 5
    then have len: "length (typed e) + 1 < 80" and e: "e' = e\<lparr>before_cursor := before_cursor e @ [ch]\<rparr>"
      using e' by (auto simp: edit_plain_def sizes split: if_splits)
    have "is_line ((before_cursor e @ [ch]) @ after_cursor e)"
      using l(2) len 5(1) by (auto simp: is_line_def typed_def sizes)
    then show ?thesis
      using 5 insert_key_shown [OF rel len 5(1)] shell_rel_shown [OF rel, of "before_cursor e @ [ch]" "after_cursor e"]
      by (simp add: plain_key_def e)
  qed
qed

lemma finsh_key_rel:
  assumes rel: "shell_rel sh e" and ok: "table_ok table" and e': "edit table ch e = Some e'"
  shows "\<exists>sh'. finsh_key table ch sh = Inr sh' \<and> shell_rel sh' e'"
proof -
  have m: "stat sh = mode e" using rel by (simp add: shell_rel_def)
  have set: "shell_rel (sh\<lparr>stat := x\<rparr>) (e\<lparr>mode := x\<rparr>)" for x using rel by (simp add: shell_rel_def typed_def)
  have same: "sh\<lparr>stat := WAIT_NORMAL\<rparr> = sh \<and> e\<lparr>mode := WAIT_NORMAL\<rparr> = e" if "mode e = WAIT_NORMAL"
    using that m by (cases sh; cases e) simp
  note keys = up_key_rel [OF set] down_key_rel [OF set] left_key_rel [OF set] right_key_rel [OF set]
  show ?thesis
  proof (cases "mode e = WAIT_FUNC_KEY \<and> ch \<in> set ''ABCD''")
    case True
    then show ?thesis using e' m keys [of WAIT_NORMAL] by (fastforce simp: finsh_key_def edit_def Let_def)
  next
    case False
    then show ?thesis using e' m set same plain_key_rel [OF set ok, of ch WAIT_NORMAL] plain_key_rel [OF rel ok, of ch]
      by (cases "mode e") (auto simp: finsh_key_def edit_def Let_def split: if_splits)
  qed
qed

interpretation shell_simulation: simulation "finsh_key table" "edit table" "\<lambda>sh e. table_ok table \<and> shell_rel sh e" for table
  by unfold_locales (use finsh_key_rel in blast)

text \<open>
  C23. The shell is a line editor with history: for every sequence of characters, with any command
  table, for which no line gets 80 characters long, the shell thread stays inside its buffers, and its line, cursor,
  history and the lines it has run are those of the editor: characters go in at the cursor, backspace takes the one
  before it, the arrows move it or recall one of the last five different commands, Tab completes the line as far as the
  matching names agree, and Enter runs the text and nothing else.
\<close>

theorem shell_edits:
  assumes "table_ok table" and "run_opt (edit table) new_editor keys = Some e"
  shows "\<exists>sh. finsh_run table finsh_start keys = Inr sh \<and>
    take (unat (line_position sh)) (line sh) = typed e \<and> unat (line_curpos sh) = length (before_cursor e) \<and> calls sh = ran e \<and>
    unat (history_count sh) = length (hist e) \<and> take (length (hist e)) (cmd_history sh) = map (buffer_of 80) (hist e)"
proof -
  obtain sh where sh: "finsh_run table finsh_start keys = Inr sh" "shell_rel sh e"
    using shell_simulation.run_rel [of table finsh_start new_editor keys e] shell_rel_start assms
    by (auto simp: finsh_run_def)
  moreover have "take (unat (line_position sh)) (line sh) = typed e"
    unfolding shell_rel_line(1,5) [OF sh(2)] by (simp add: buffer_of_def)
  moreover have "unat (history_count sh) = length (hist e)"
    using sh(2) by (auto simp: shell_rel_def sizes intro!: unat_small)
  ultimately show ?thesis using shell_rel_line(6) [OF sh(2)] by (auto simp: shell_rel_def)
qed


text \<open>A word is mistyped, corrected, run, and recalled.\<close>
theorem shell_edits_witness:
  "\<exists>sh. finsh_run [] finsh_start (''pz'' @ [CHR 0x08] @ ''s'' @ [CHR 0x0D, CHR 0x1B] @ ''[A'') = Inr sh \<and>
    take (unat (line_position sh)) (line sh) = ''ps'' \<and> calls sh = [''ps'']"
proof -
  let ?e = "\<lparr>mode = WAIT_NORMAL, before_cursor = ''ps'', after_cursor = [], hist = [''ps''], sel = 0, ran = [''ps'']\<rparr>"
  have "run_opt (edit []) new_editor (''pz'' @ [CHR 0x08] @ ''s'' @ [CHR 0x0D, CHR 0x1B] @ ''[A'') = Some ?e"
    by (simp add: edit_def edit_plain_def edit_arrow_def new_editor_def typed_def set_typed_def add_history_def sizes Let_def)
  from shell_edits [OF _ this] show ?thesis by (auto simp: table_ok_def typed_def)
qed

text \<open>A line that is too long.\<close>

definition in_state :: "finsh_shell \<Rightarrow> string \<Rightarrow> nat \<Rightarrow> nat \<Rightarrow> bool" where
  "in_state sh l pos cur \<longleftrightarrow>
     stat sh = WAIT_NORMAL \<and> line sh = l \<and> line_position sh = of_nat pos \<and> line_curpos sh = of_nat cur"

lemma edit_many:
  "mode e = WAIT_NORMAL \<Longrightarrow> length (typed e) + n < 80 \<Longrightarrow>
   run_opt (edit table) e (replicate n (CHR ''a'')) = Some (e\<lparr>before_cursor := before_cursor e @ replicate n (CHR ''a'')\<rparr>)"
proof (induction n arbitrary: e)
  case (Suc n)
  have "e\<lparr>mode := WAIT_NORMAL\<rparr> = e" using Suc.prems(1) by (cases e) simp
  then have "edit table (CHR ''a'') e = Some (e\<lparr>before_cursor := before_cursor e @ ''a''\<rparr>)"
    using Suc.prems by (simp add: edit_def edit_plain_def typed_def Let_def sizes)
  then show ?case using Suc.IH [of "e\<lparr>before_cursor := before_cursor e @ ''a''\<rparr>"] Suc.prems by (simp add: typed_def)
qed simp

lemma run_err_append: "run_err f s (xs @ ys) = bind_err (run_err f s xs) (\<lambda>s. run_err f s ys)"
  by (induction xs arbitrary: s) (simp_all add: bind_err_assoc)

lemma shell_full:
  assumes "table_ok table"
  shows "\<exists>sh. finsh_run table finsh_start (replicate 79 (CHR ''a'')) = Inr sh \<and>
    in_state sh (replicate 79 (CHR ''a'') @ [NUL, NUL]) 79 79"
proof -
  have "run_opt (edit table) new_editor (replicate 79 (CHR ''a'')) = Some (new_editor\<lparr>before_cursor := replicate 79 (CHR ''a'')\<rparr>)"
    using edit_many [of new_editor 79 table] by (simp add: new_editor_def typed_def)
  then obtain sh where sh: "finsh_run table finsh_start (replicate 79 (CHR ''a'')) = Inr sh"
      "shell_rel sh (new_editor\<lparr>before_cursor := replicate 79 (CHR ''a'')\<rparr>)"
    using shell_simulation.run_rel [of table finsh_start new_editor "replicate 79 (CHR ''a'')"] shell_rel_start assms
    by (auto simp: finsh_run_def)
  have "typed (new_editor\<lparr>before_cursor := replicate 79 (CHR ''a'')\<rparr>) = replicate 79 (CHR ''a'')"
    by (simp add: typed_def new_editor_def)
  moreover have "buffer_of 81 (replicate 79 (CHR ''a'')) = replicate 79 (CHR ''a'') @ [NUL, NUL]"
    by (simp add: buffer_of_def numeral_2_eq_2)
  ultimately show ?thesis using sh shell_rel_line(1,3,4) [OF sh(2)]
    by (simp add: in_state_def shell_rel_def new_editor_def)
qed

lemma overlong_insert:
  assumes "in_state sh (replicate 79 (CHR ''a'') @ [NUL, NUL]) 79 79"
  shows "\<exists>sh'. finsh_key table (CHR ''a'') sh = Inr sh' \<and> in_state sh' (replicate 80 (CHR ''a'') @ [NUL]) 0 0"
proof -
  have "(replicate 79 (CHR ''a'') @ [NUL, NUL])[79 := CHR ''a''] = replicate 79 (CHR ''a'') @ [CHR ''a'', NUL]"
    by (simp add: list_update_append)
  also have "\<dots> = replicate 80 (CHR ''a'') @ [NUL]"
    using replicate_add [of 79 1 "CHR ''a''"] by simp
  finally show ?thesis using assms
    by (simp add: in_state_def finsh_key_def plain_key_def insert_key_def kprintf_def Let_def sizes)
qed

lemma overlong_tab:
  assumes "in_state sh (replicate 80 (CHR ''a'') @ [NUL]) 0 0" and "table_ok table"
  shows "\<exists>sh'. finsh_key table (CHR 0x09) sh = Inr sh' \<and> in_state sh' (replicate 80 (CHR ''a'') @ [NUL]) 80 80"
proof -
  let ?t = "replicate 80 (CHR ''a'')"
  have t: "text_at (?t @ [NUL]) 0 = Inr ?t" using text_at_word [of ?t "[]" "[]"] by simp
  have "matches table ?t = []"
  proof -
    have "take 80 n \<noteq> ?t" if "length n < 80" for n :: string
      using that by (metis length_replicate length_take min_less_iff_conj order_less_irrefl)
    then show ?thesis using assms(2) by (auto simp: matches_def table_ok_def filter_empty_conv)
  qed
  then have "completion table ?t = ?t" by (simp add: completion_def)
  then have "msh_auto_complete table (?t @ [NUL]) = Inr (?t @ [NUL], listing table ?t)"
    using completion_spec(4) [OF assms(2), of ?t 80] by simp
  then show ?thesis using assms(1) t
    by (simp add: in_state_def finsh_key_def plain_key_def tab_key_def shell_auto_complete_def kprintf_def Let_def)
qed

text \<open>
  A line that is too long, by example: when 80 times 'a' is typed and then Tab, 'b' and two backspaces, the
  shell moves memory far outside its line buffer, with every command table. Tab takes the old, full buffer for the line
  and sets the cursor behind its end; the next character starts the line again but leaves the cursor there.
\<close>

theorem shell_long_line_faults:
  assumes "table_ok table"
  shows "finsh_run table finsh_start (replicate 80 (CHR ''a'') @ [CHR 0x09, CHR ''b'', CHR 0x08, CHR 0x08]) = Inl OutOfBounds"
proof -
  obtain s1 where s1: "finsh_run table finsh_start (replicate 79 (CHR ''a'')) = Inr s1"
      "in_state s1 (replicate 79 (CHR ''a'') @ [NUL, NUL]) 79 79"
    using shell_full [OF assms] by blast
  obtain s2 where s2: "finsh_key table (CHR ''a'') s1 = Inr s2" "in_state s2 (replicate 80 (CHR ''a'') @ [NUL]) 0 0"
    using overlong_insert [OF s1(2)] by blast
  obtain s3 where s3: "finsh_key table (CHR 0x09) s2 = Inr s3" "in_state s3 (replicate 80 (CHR ''a'') @ [NUL]) 80 80"
    using overlong_tab [OF s2(2) assms] by blast
  define l where "l = (replicate 80 (CHR ''a'') @ [NUL])[0 := CHR ''b'']"
  obtain s4 where s4: "finsh_key table (CHR ''b'') s3 = Inr s4" "in_state s4 l 1 81"
    using s3(2) by (simp add: in_state_def finsh_key_def plain_key_def insert_key_def kprintf_def Let_def sizes l_def)
  obtain s5 where s5: "finsh_key table (CHR 0x08) s4 = Inr s5" "in_state s5 (l[0 := NUL]) 0 80"
    using s4(2) by (simp add: in_state_def finsh_key_def plain_key_def backspace_key_def kprintf_def Let_def l_def)
  have "unat (- 1 :: u16) = 65535" by (simp add: unsigned_minus_1_eq_mask mask_eq_exp_minus_1)
  then have "finsh_key table (CHR 0x08) s5 = Inl OutOfBounds"
    using s5(2) by (simp add: in_state_def finsh_key_def plain_key_def backspace_key_def move_chars_def Let_def l_def)
  moreover have "replicate 80 (CHR ''a'') = replicate 79 (CHR ''a'') @ ''a''"
    using replicate_add [of 79 1 "CHR ''a''"] by simp
  ultimately show ?thesis using s1(1) s2(1) s3(1) s4(1) s5(1)
    by (simp add: finsh_run_def run_err_append)
qed

theorem shell_long_line_faults_witness:
  "finsh_run [] finsh_start (replicate 80 (CHR ''a'') @ [CHR 0x09, CHR ''b'', CHR 0x08, CHR 0x08]) = Inl OutOfBounds"
  by (rule shell_long_line_faults) (simp add: table_ok_def)

end
