(* ===== verification/Terminal.thy ===== *)
theory Terminal
  imports Shell
begin

text \<open>
  What the user of the shell sees: a terminal that interprets the console output of \<open>shell.c\<close>, and the proof that
  its last row shows the prompt and the line that Enter would run, with the cursor at the place where the next
  character goes.
\<close>

section \<open>A terminal\<close>

text \<open>
  The last row, the column of the cursor, and the control sequence that is being read. Rows are as long as needed. Of
  the control sequences only the one that the shell uses has an effect, erasing the row.
\<close>

type_synonym terminal = "string \<times> nat \<times> string"

definition erase_row :: string where "erase_row = CHR 0x1B # ''[2K''"

definition feed :: "char \<Rightarrow> terminal \<Rightarrow> terminal" where
  "feed c = (\<lambda>(row, col, esc).
     if esc \<noteq> [] then
       (let esc = esc @ [c]
        in if esc = erase_row then ([], col, []) else if esc = take (length esc) erase_row then (row, col, esc) else (row, col, []))
     else if c = CHR 0x1B then (row, col, [c])
     else if c = BS then (row, col - 1, [])
     else if c = CHR 0x0D then (row, 0, [])
     else if c = CHR 0x0A then ([], 0, [])
     else (take col (row @ replicate (col - length row) (CHR '' '')) @ c # drop (col + 1) row, col + 1, []))"

definition screen :: "string \<Rightarrow> terminal" where
  "screen s = fold feed s ([], 0, [])"

definition printable :: "char \<Rightarrow> bool" where
  "printable c \<longleftrightarrow> 32 \<le> (of_char c :: nat) \<and> c \<noteq> CHR 0x7F"

lemma printable_plain: "printable c \<Longrightarrow> c \<noteq> CHR 0x1B \<and> c \<noteq> BS \<and> c \<noteq> CHR 0x0D \<and> c \<noteq> CHR 0x0A"
  by (auto simp: printable_def BS_def)

lemma feed_text:
  "\<forall>c \<in> set t. printable c \<Longrightarrow>
   fold feed t (pre @ old, length pre, []) = (pre @ t @ drop (length t) old, length pre + length t, [])"
proof (induction t arbitrary: pre old)
  case (Cons c t)
  then have "feed c (pre @ old, length pre, []) = ((pre @ [c]) @ drop 1 old, length (pre @ [c]), [])"
    using printable_plain [of c] by (auto simp: feed_def)
  then show ?case using Cons.IH [of "pre @ [c]" "drop 1 old"] Cons.prems by simp
qed simp

lemma feed_backs: "fold feed (replicate n BS) (row, col, []) = (row, col - n, [])"
  by (induction n arbitrary: col) (simp_all add: feed_def BS_def)

lemma feed_rows_aux: "CHR 0x1B \<notin> set s \<Longrightarrow> \<exists>row col. fold feed s (r, k, []) = (row, col, [])"
  by (induction s arbitrary: r k) (auto simp: feed_def BS_def)

lemma feed_rows: "whole_rows s \<Longrightarrow> fold feed s ([], 0, []) = ([], 0, [])"
proof (cases "s = []")
  case False
  assume w: "whole_rows s"
  then have s: "s = butlast s @ [CHR 0x0A]" using False by (metis append_butlast_last_id whole_rows_def)
  then have "CHR 0x1B \<notin> set (butlast s)" using w by (auto simp: whole_rows_def dest: in_set_butlastD)
  from feed_rows_aux [OF this] obtain row col where "fold feed (butlast s) ([], 0, []) = (row, col, [])" by blast
  then show ?thesis by (subst s) (simp add: feed_def BS_def)
qed simp

section \<open>The row that the user sees\<close>

definition prompt :: string where "prompt = ''msh >''"

definition displays :: "finsh_shell \<Rightarrow> editor \<Rightarrow> bool" where
  "displays sh e \<longleftrightarrow> echo_mode sh \<and> prompt_mode sh \<and> (\<forall>c \<in> set (typed e). printable c) \<and> (\<forall>t \<in> set (hist e). \<forall>c \<in> set t. printable c) \<and>
     (\<exists>m. screen (console sh) = (prompt @ typed e @ replicate m (CHR '' ''), length prompt + length (before_cursor e), []))"

lemma screen_append: "screen (s @ t) = fold feed t (screen s)"
  by (simp add: screen_def)

lemma prompt_printable: "\<forall>c \<in> set prompt. printable c"
  by (simp add: prompt_def printable_def)

lemma feed_prompt:
  assumes "\<forall>c \<in> set t. printable c"
  shows "fold feed (prompt @ t) ([], 0, []) = (prompt @ t, length prompt + length t, [])"
proof -
  have "\<forall>c \<in> set (prompt @ t). printable c" using assms prompt_printable by auto
  from feed_text [OF this, of "[]" "[]"] show ?thesis by simp
qed

text \<open>The commands print whole rows, and their names are printable.\<close>

definition table_prints :: "finsh_syscall list \<Rightarrow> bool" where
  "table_prints table \<longleftrightarrow> (\<forall>e \<in> set table. (\<forall>c \<in> set (syscall_name e). printable c) \<and> CHR 0x1B \<notin> set (syscall_desc e) \<and>
     (\<forall>args. whole_rows (snd (syscall_func e args))))"

lemma listing_rows:
  assumes "table_prints table"
  shows "whole_rows (listing table t)"
proof -
  have esc: "CHR 0x1B \<notin> set (syscall_name e)" "CHR 0x1B \<notin> set (syscall_desc e)" if "e \<in> set table" for e
    using assms that printable_plain by (auto simp: table_prints_def)
  have "whole_rows (concat (map (\<lambda>n. n @ newline) ns))" if "\<forall>n \<in> set ns. CHR 0x1B \<notin> set n" for ns
    using that
  proof (induction ns)
    case (Cons n ns)
    then have "whole_rows (n @ newline)" by (simp add: whole_rows_def)
    from whole_rows_append [OF this Cons.IH] Cons.prems show ?case by simp
  qed (simp add: whole_rows_def)
  moreover have "\<forall>n \<in> set (matches table t). CHR 0x1B \<notin> set n" using esc by (auto simp: matches_def)
  moreover have "whole_rows (msh_help table)"
    using esc by (auto simp: whole_rows_def msh_help_def dest: in_set_takeD)
  ultimately show ?thesis by (simp add: listing_def)
qed

lemma msh_get_cmd_in: "msh_get_cmd table cmd n = Inr (Some f) \<Longrightarrow> \<exists>e \<in> set table. f = syscall_func e"
  by (induction table) (auto split: if_splits)

lemma msh_exec_cmd_rows:
  assumes tab: "table_prints table" and esc: "CHR 0x1B \<notin> set l" and ex: "msh_exec_cmd table l n = Inr (cmd, out, r)"
  shows "whole_rows out" and "r = None \<Longrightarrow> CHR 0x1B \<notin> set cmd"
proof -
  obtain k where k: "skip_word l n 0 = Inr k" using ex by (auto simp: msh_exec_cmd_def bind_err_Inr_iff)
  consider (none) "cmd = l" "out = []" | (found) f where "k \<noteq> 0" "msh_get_cmd table l k = Inr (Some f)"
    using ex k by (auto simp: msh_exec_cmd_def bind_err_Inr_iff split: if_splits option.splits)
  then have "whole_rows out \<and> (r = None \<longrightarrow> CHR 0x1B \<notin> set cmd)"
  proof cases
    case none
    then show ?thesis using esc by (simp add: whole_rows_def)
  next
    case found
    obtain c argv o' where sp: "msh_split l n = Inr (c, argv, o')"
      using ex k found by (auto simp: msh_exec_cmd_def bind_err_Inr_iff split: if_splits)
    have rows: "whole_rows o'" "CHR 0x1B \<notin> set c" using split_loop_rows [OF sp [unfolded msh_split_def] esc] by simp_all
    obtain e where e: "e \<in> set table" "f = syscall_func e" using msh_get_cmd_in [OF found(2)] by blast
    show ?thesis
    proof (cases "argv = []")
      case True
      then have "cmd = c" "out = o'" "r = None" using ex k found sp by (simp_all add: msh_exec_cmd_def)
      then show ?thesis using rows by simp
    next
      case False
      obtain args where "arg_texts c argv = Inr args"
        using ex k found sp False by (auto simp: msh_exec_cmd_def bind_err_Inr_iff)
      then have "out = o' @ snd (f args)" "r = Some (fst (f args))"
        using ex k found sp False by (simp_all add: msh_exec_cmd_def case_prod_unfold)
      moreover have "whole_rows (snd (f args))" using tab e by (simp add: table_prints_def)
      ultimately show ?thesis using whole_rows_append [OF rows(1)] by simp
    qed
  qed
  then show "whole_rows out" "r = None \<Longrightarrow> CHR 0x1B \<notin> set cmd" by simp_all
qed

lemma msh_exec_rows:
  assumes tab: "table_prints table" and esc: "CHR 0x1B \<notin> set l" and ex: "msh_exec table l n = Inr (cmd, out, r)"
  shows "whole_rows out"
proof -
  obtain p m where pm: "trim_start l 0 n = Inr (p, m)" using ex by (auto simp: msh_exec_def bind_err_Inr_iff)
  show ?thesis
  proof (cases "m = 0")
    case True
    then show ?thesis using ex pm by (simp add: msh_exec_def whole_rows_def)
  next
    case False
    then obtain c o' v where c: "msh_exec_cmd table (drop p l) m = Inr (c, o', v)"
      using ex pm by (auto simp: msh_exec_def bind_err_Inr_iff)
    have "CHR 0x1B \<notin> set (drop p l)" using esc by (auto dest: in_set_dropD)
    note rows = msh_exec_cmd_rows [OF tab this c]
    show ?thesis
    proof (cases v)
      case (Some x)
      then show ?thesis using ex pm False c rows(1) by (simp add: msh_exec_def)
    next
      case None
      then obtain d t where d: "cut_at_space c = Inr d" "text_at d 0 = Inr t" "out = o' @ t @ '': command not found.'' @ newline"
        using ex pm False c by (auto simp: msh_exec_def bind_err_Inr_iff)
      have "set d \<subseteq> insert NUL (set c)"
        using d(1) by (auto simp: cut_at_space_def Let_def arr_set_def split: if_splits dest: set_update_subset_insert [THEN subsetD])
      then have "CHR 0x1B \<notin> set d" using rows(2) [OF None] by auto
      then have "CHR 0x1B \<notin> set t" using d(2) by (auto simp: text_at_def split: if_splits dest: set_takeWhileD)
      then have "whole_rows (t @ '': command not found.'' @ newline)" by (auto simp: whole_rows_def)
      then show ?thesis using whole_rows_append [OF rows(1)] d(3) by simp
    qed
  qed
qed


section \<open>Every key keeps the row right\<close>

lemma displaysI:
  "echo_mode sh \<Longrightarrow> prompt_mode sh \<Longrightarrow> \<forall>c \<in> set (typed e). printable c \<Longrightarrow> \<forall>t \<in> set (hist e). \<forall>c \<in> set t. printable c \<Longrightarrow>
   screen (console sh) = (prompt @ typed e @ replicate m (CHR '' ''), length prompt + length (before_cursor e), []) \<Longrightarrow> displays sh e"
  by (auto simp: displays_def)

lemma displaysE:
  assumes "displays sh e"
  obtains m where "screen (console sh) = (prompt @ before_cursor e @ after_cursor e @ replicate m (CHR '' ''), length prompt + length (before_cursor e), [])"
    "echo_mode sh" "prompt_mode sh" "\<forall>c \<in> set (before_cursor e). printable c" "\<forall>c \<in> set (after_cursor e). printable c"
    "\<forall>t \<in> set (hist e). \<forall>c \<in> set t. printable c"
  using assms by (auto simp: displays_def typed_def)

lemma blank_printable [simp]: "printable (CHR '' '')"
  by (simp add: printable_def)

lemma shown_fields [simp]:
  "echo_mode (shown t c s sh) = echo_mode sh" "prompt_mode (shown t c s sh) = prompt_mode sh" "console (shown t c s sh) = console sh @ s"
  by (simp_all add: shown_def)

lemma left_displays:
  assumes d: "displays sh e" and b: "before_cursor e \<noteq> []"
  shows "displays (shown t c [BS] sh) (e\<lparr>before_cursor := butlast (before_cursor e), after_cursor := last (before_cursor e) # after_cursor e\<rparr>)"
proof -
  from d obtain m where m: "screen (console sh) = (prompt @ before_cursor e @ after_cursor e @ replicate m (CHR '' ''), length prompt + length (before_cursor e), [])"
    "echo_mode sh" "prompt_mode sh" "\<forall>c \<in> set (before_cursor e). printable c" "\<forall>c \<in> set (after_cursor e). printable c"
    "\<forall>t \<in> set (hist e). \<forall>c \<in> set t. printable c" by (rule displaysE)
  have col: "length prompt + length (before_cursor e) - 1 = length prompt + length (butlast (before_cursor e))"
    using b by (cases "before_cursor e" rule: rev_cases) auto
  have "butlast (before_cursor e) @ last (before_cursor e) # after_cursor e = before_cursor e @ after_cursor e" using b by simp
  then have "typed (e\<lparr>before_cursor := butlast (before_cursor e), after_cursor := last (before_cursor e) # after_cursor e\<rparr>) =
      before_cursor e @ after_cursor e" by (simp add: typed_def)
  then show ?thesis using m col feed_backs [of 1]
    by (intro displaysI [where m = m]) (auto simp: screen_append)
qed

lemma feed_append: "fold feed (s @ t) x = fold feed t (fold feed s x)"
  by simp

lemma feed_append3: "fold feed (s @ t @ u) x = fold feed u (fold feed t (fold feed s x))"
  by simp

lemma right_displays:
  assumes d: "displays sh e" and a: "after_cursor e = x # a"
  shows "displays (shown t c [x] sh) (e\<lparr>before_cursor := before_cursor e @ [x], after_cursor := a\<rparr>)"
proof -
  from d obtain m where m: "screen (console sh) = (prompt @ before_cursor e @ after_cursor e @ replicate m (CHR '' ''), length prompt + length (before_cursor e), [])"
    "echo_mode sh" "prompt_mode sh" "\<forall>c \<in> set (before_cursor e). printable c" "\<forall>c \<in> set (after_cursor e). printable c"
    "\<forall>t \<in> set (hist e). \<forall>c \<in> set t. printable c" by (rule displaysE)
  show ?thesis using m a feed_text [of "[x]" "prompt @ before_cursor e" "x # a @ replicate m (CHR '' '')"]
    by (intro displaysI [where m = m]) (auto simp: typed_def screen_append)
qed

lemma insert_displays:
  assumes d: "displays sh e" and ch: "printable ch"
  shows "displays (shown t c ((ch # after_cursor e) @ replicate (length (after_cursor e)) BS) sh) (e\<lparr>before_cursor := before_cursor e @ [ch]\<rparr>)"
proof -
  from d obtain m where m: "screen (console sh) = (prompt @ before_cursor e @ after_cursor e @ replicate m (CHR '' ''), length prompt + length (before_cursor e), [])"
    "echo_mode sh" "prompt_mode sh" "\<forall>c \<in> set (before_cursor e). printable c" "\<forall>c \<in> set (after_cursor e). printable c"
    "\<forall>t \<in> set (hist e). \<forall>c \<in> set t. printable c" by (rule displaysE)
  have plain: "\<forall>c \<in> set (ch # after_cursor e). printable c" using m(5) ch by simp
  have "screen (console sh @ (ch # after_cursor e) @ replicate (length (after_cursor e)) BS) =
      (prompt @ (before_cursor e @ [ch] @ after_cursor e) @ replicate (m - 1) (CHR '' ''), length prompt + length (before_cursor e @ [ch]), [])"
    unfolding screen_append feed_append m(1)
    using feed_text [OF plain, of "prompt @ before_cursor e" "after_cursor e @ replicate m (CHR '' '')"]
    by (simp add: feed_backs del: fold_simps fold_replicate)
  then show ?thesis using m ch
    by (intro displaysI [where m = "m - 1"]) (auto simp: typed_def)
qed

lemma backspace_displays:
  assumes d: "displays sh e" and b: "before_cursor e \<noteq> []"
  shows "displays (shown t c (if after_cursor e = [] then [BS] @ '' '' @ [BS]
       else [BS] @ after_cursor e @ ''  '' @ [BS] @ replicate (length (after_cursor e) + 1) BS) sh) (e\<lparr>before_cursor := butlast (before_cursor e)\<rparr>)"
proof -
  from d obtain m where m: "screen (console sh) = (prompt @ before_cursor e @ after_cursor e @ replicate m (CHR '' ''), length prompt + length (before_cursor e), [])"
    "echo_mode sh" "prompt_mode sh" "\<forall>c \<in> set (before_cursor e). printable c" "\<forall>c \<in> set (after_cursor e). printable c"
    "\<forall>t \<in> set (hist e). \<forall>c \<in> set t. printable c" by (rule displaysE)
  let ?a = "after_cursor e"
  define k where "k = (if ?a = [] then 1 else 2 :: nat)"
  define pre where "pre = prompt @ butlast (before_cursor e)"
  have row: "prompt @ before_cursor e @ s = pre @ last (before_cursor e) # s" for s using b by (simp add: pre_def)
  have col: "length prompt + length (before_cursor e) = Suc (length pre)" using b by (simp add: pre_def)
  have more: "\<forall>c \<in> set (?a @ replicate k (CHR '' '')). printable c" using m(5) by auto
  have out: "(if ?a = [] then [BS] @ '' '' @ [BS] else [BS] @ ?a @ ''  '' @ [BS] @ replicate (length ?a + 1) BS) =
      replicate 1 BS @ (?a @ replicate k (CHR '' '')) @ replicate (length ?a + k) BS"
    by (simp add: k_def numeral_2_eq_2)
  have "drop (length (?a @ replicate k (CHR '' ''))) (last (before_cursor e) # ?a @ replicate m (CHR '' '')) =
      replicate (m - (k - 1)) (CHR '' '')"
    by (cases k) (simp_all add: k_def split: if_splits)
  then have "screen (console sh @ replicate 1 BS @ (?a @ replicate k (CHR '' '')) @ replicate (length ?a + k) BS) =
      (pre @ ?a @ replicate k (CHR '' '') @ replicate (m - (k - 1)) (CHR '' ''), length pre, [])"
    unfolding screen_append feed_append3 m(1) row col feed_backs diff_Suc_1
      feed_text [OF more, of pre "last (before_cursor e) # ?a @ replicate m (CHR '' '')"]
    by simp
  then show ?thesis using m unfolding out
    by (intro displaysI [where m = "k + (m - (k - 1))"]) (auto simp: typed_def pre_def replicate_add dest: in_set_butlastD)
qed

lemma recall_displays:
  assumes d: "displays sh e" and k: "k < length (hist e)"
  shows "displays (shown t c (CHR 0x1B # ''[2K'' @ [CHR 0x0D] @ finsh_get_prompt sh @ hist e ! k) (sh\<lparr>current_history := h\<rparr>))
    (set_typed (hist e ! k) (e\<lparr>sel := k\<rparr>))"
proof -
  have p: "finsh_get_prompt sh = prompt" using d by (simp add: displays_def finsh_get_prompt_def MSH_PROMPT_def prompt_def)
  obtain row col where sc: "screen (console sh) = (row, col, [])" using d by (auto simp: displays_def)
  have h: "\<forall>c \<in> set (hist e ! k). printable c" using d k by (auto simp: displays_def)
  have "fold feed (CHR 0x1B # ''[2K'' @ [CHR 0x0D]) (row, col, []) = ([], 0, [])"
    by (simp add: feed_def erase_row_def BS_def)
  then have "screen (console sh @ (CHR 0x1B # ''[2K'' @ [CHR 0x0D]) @ prompt @ hist e ! k) = (prompt @ hist e ! k, length prompt + length (hist e ! k), [])"
    unfolding screen_append feed_append sc using feed_prompt [OF h] by (simp only: feed_append)
  then show ?thesis using d h p
    by (intro displaysI [where m = 0]) (auto simp: displays_def set_typed_def typed_def)
qed

lemma completion_set: "set (completion table t) \<subseteq> set t \<union> (\<Union>e \<in> set table. set (syscall_name e))"
proof -
  have "set n \<subseteq> (\<Union>e \<in> set table. set (syscall_name e))" if "n \<in> set (matches table t)" for n
    using that by (auto simp: matches_def)
  then show ?thesis by (auto simp: completion_def split: list.splits dest!: in_set_takeD) blast
qed

lemma fresh_row:
  assumes "whole_rows s" and "\<forall>c \<in> set t. printable c"
  shows "fold feed (newline @ s @ prompt @ t) (row, col, []) = (prompt @ t, length prompt + length t, [])"
proof -
  have "fold feed newline (row, col, []) = ([], 0, [])" by (simp add: feed_def BS_def)
  then show ?thesis unfolding feed_append feed_rows [OF assms(1)] using feed_prompt [OF assms(2)] by (simp only: feed_append feed_rows [OF assms(1)])
qed

lemma prompt_shown: "displays sh e \<Longrightarrow> finsh_get_prompt sh = prompt"
  by (simp add: displays_def finsh_get_prompt_def MSH_PROMPT_def prompt_def)

lemma tab_displays:
  assumes d: "displays sh e" and tab: "table_prints table"
  defines "t \<equiv> completion table (typed e)"
  shows "displays (shown u c (replicate n BS @ newline @ listing table (typed e) @ finsh_get_prompt sh @ t) sh) (set_typed t e)"
proof -
  obtain row col where sc: "screen (console sh) = (row, col, [])" using d by (auto simp: displays_def)
  have t: "\<forall>c \<in> set t. printable c" using completion_set [of table "typed e"] d tab by (fastforce simp: t_def displays_def table_prints_def)
  have "screen (console sh @ replicate n BS @ newline @ listing table (typed e) @ finsh_get_prompt sh @ t) =
      (prompt @ t, length prompt + length t, [])"
    unfolding screen_append feed_append [of "replicate n BS"] sc feed_backs prompt_shown [OF d]
    by (rule fresh_row [OF listing_rows [OF tab] t])
  then show ?thesis using d t by (intro displaysI [where m = 0]) (auto simp: displays_def set_typed_def typed_def)
qed

lemma enter_displays:
  assumes d: "displays sh e" and out: "whole_rows out"
  shows "displays (shown [] 0 ((if echo_mode sh then newline else []) @ out @ finsh_get_prompt sh)
      (sh\<lparr>cmd_history := hs, history_count := n, current_history := k, calls := cs\<rparr>))
    ((set_typed [] e)\<lparr>hist := add_history (typed e) (hist e), sel := s, ran := r\<rparr>)"
proof -
  obtain row col where sc: "screen (console sh) = (row, col, [])" using d by (auto simp: displays_def)
  have "screen (console sh @ newline @ out @ prompt @ []) = (prompt @ [], length prompt + length ([] :: string), [])"
    unfolding screen_append sc by (rule fresh_row [OF out]) simp
  moreover have "\<forall>t \<in> set (add_history (typed e) (hist e)). \<forall>c \<in> set t. printable c"
    using d by (cases "hist e") (auto simp: displays_def add_history_def)
  ultimately show ?thesis using d prompt_shown [OF d]
    by (intro displaysI [where m = 0]) (auto simp: displays_def set_typed_def typed_def)
qed

text \<open>The characters that a keyboard without further control keys sends.\<close>

definition key_ok :: "char \<Rightarrow> bool" where
  "key_ok c \<longleftrightarrow> printable c \<or> c \<in> {NUL, CHR 0x08, CHR 0x09, CHR 0x0A, CHR 0x0D, CHR 0x1B, CHR 0x7F}"

lemma plain_key_displays:
  assumes rel: "shell_rel sh e" and d: "displays sh e" and ok: "table_ok table" and tab: "table_prints table" and key: "key_ok ch" "ch \<noteq> CHR 0x1B"
    and e': "edit_plain table ch e = Some e'" and sh': "plain_key table ch sh = Inr sh'"
  shows "displays sh' e'"
proof -
  have echo: "echo_mode sh" using d by (simp add: displays_def)
  consider "ch = NUL \<or> ch = CHR 0xFF" | "ch = CHR 0x09" | "ch = CHR 0x7F \<or> ch = CHR 0x08" | "ch = CHR 0x0D \<or> ch = CHR 0x0A"
    | "ch \<noteq> NUL" "ch \<noteq> CHR 0xFF" "ch \<noteq> CHR 0x09" "ch \<noteq> CHR 0x7F" "ch \<noteq> CHR 0x08" "ch \<noteq> CHR 0x0D" "ch \<noteq> CHR 0x0A" by blast
  then show ?thesis
  proof cases
    case 1
    then show ?thesis using e' sh' d by (auto simp: plain_key_def edit_plain_def)
  next
    case 2
    then have "e' = set_typed (completion table (typed e)) e" "tab_key table sh = Inr sh'"
      using e' sh' by (simp_all add: edit_plain_def plain_key_def)
    moreover from this have "sh' = shown (completion table (typed e)) (length (completion table (typed e)))
        (replicate (length (before_cursor e)) BS @ newline @ listing table (typed e) @ finsh_get_prompt sh @ completion table (typed e)) sh"
      using tab_key_shown [OF rel ok] by (metis sum.inject(2))
    ultimately show ?thesis by (simp only: tab_displays [OF d tab])
  next
    case 3
    then have e: "e' = e\<lparr>before_cursor := butlast (before_cursor e)\<rparr>" and b: "backspace_key sh = Inr sh'"
      using e' sh' by (auto simp: edit_plain_def plain_key_def)
    show ?thesis
    proof (cases "before_cursor e = []")
      case True
      then have "e' = e" by (cases e) (simp add: e)
      then show ?thesis using b backspace_key_shown [OF rel] True d by simp
    next
      case False
      have "sh' = shown (butlast (before_cursor e) @ after_cursor e) (length (before_cursor e) - 1)
          (if after_cursor e = [] then [BS] @ '' '' @ [BS]
           else [BS] @ after_cursor e @ ''  '' @ [BS] @ replicate (length (after_cursor e) + 1) BS) sh"
        using b False unfolding backspace_key_shown [OF rel] by (simp only: if_False sum.inject)
      then show ?thesis by (simp only: e backspace_displays [OF d False])
    qed
  next
    case 4
    then have e: "e' = (set_typed [] e)\<lparr>hist := add_history (typed e) (hist e), sel := length (add_history (typed e) (hist e)), ran := ran e @ [typed e]\<rparr>"
      and b: "enter_key table sh = Inr sh'"
      using e' sh' by (auto simp: edit_plain_def plain_key_def Let_def)
    obtain hs cmd out r where en: "msh_exec table (line sh) (length (typed e)) = Inr (cmd, out, r)"
      "enter_key table sh = Inr (shown [] 0 ((if echo_mode sh then newline else []) @ out @ finsh_get_prompt sh)
        (sh\<lparr>cmd_history := hs, history_count := of_nat (length (add_history (typed e) (hist e))),
           current_history := of_nat (length (add_history (typed e) (hist e))), calls := calls sh @ [typed e]\<rparr>))"
      using enter_key_shown [OF rel ok] by blast
    have "CHR 0x1B \<notin> set (line sh)"
      using d shell_rel_line(1) [OF rel] printable_plain by (auto simp: displays_def buffer_of_def)
    note rows = msh_exec_rows [OF tab this en(1)]
    have "sh' = shown [] 0 ((if echo_mode sh then newline else []) @ out @ finsh_get_prompt sh)
        (sh\<lparr>cmd_history := hs, history_count := of_nat (length (add_history (typed e) (hist e))),
           current_history := of_nat (length (add_history (typed e) (hist e))), calls := calls sh @ [typed e]\<rparr>)"
      using b en(2) by (metis sum.inject(2))
    then show ?thesis unfolding e by (simp only: enter_displays [OF d rows])
  next
    case 5
    then have len: "length (typed e) + 1 < 80" and e: "e' = e\<lparr>before_cursor := before_cursor e @ [ch]\<rparr>" and i: "insert_key ch sh = Inr sh'"
      using e' sh' by (auto simp: edit_plain_def plain_key_def sizes split: if_splits)
    have "printable ch" using key 5 by (auto simp: key_ok_def)
    then show ?thesis using insert_key_shown [OF rel len 5(1)] insert_displays [OF d] i echo by (simp add: e)
  qed
qed

lemma recalled_displays:
  "displays sh e \<Longrightarrow> k < length (hist e) \<Longrightarrow> displays (recalled e k sh) (set_typed (hist e ! k) (e\<lparr>sel := k\<rparr>))"
  unfolding recalled_def by (rule recall_displays)

lemma up_displays:
  assumes "shell_rel sh e" and "displays sh e" and "edit_arrow (CHR ''A'') e = Some e'" and "up_key sh = Inr sh'"
  shows "displays sh' e'"
  using assms up_key_shown [OF assms(1)] recalled_displays [OF assms(2), of "sel e - 1"]
  by (auto simp: edit_recall split: if_splits)

lemma down_displays:
  assumes "shell_rel sh e" and "displays sh e" and "edit_arrow (CHR ''B'') e = Some e'" and "down_key sh = Inr sh'"
  shows "displays sh' e'"
  using assms down_key_shown [OF assms(1)] recalled_displays [OF assms(2)]
  by (auto simp: edit_recall Let_def split: if_splits)

lemma left_key_displays:
  assumes "shell_rel sh e" and "displays sh e" and "edit_arrow (CHR ''D'') e = Some e'" and "left_key sh = Inr sh'"
  shows "displays sh' e'"
  using assms left_key_shown [OF assms(1)] left_displays [OF assms(2)]
  by (auto simp: edit_arrow_def split: if_splits)

lemma right_key_displays:
  assumes "shell_rel sh e" and "displays sh e" and "edit_arrow (CHR ''C'') e = Some e'" and "right_key sh = Inr sh'"
  shows "displays sh' e'"
  using assms right_key_shown [OF assms(1)] right_displays [OF assms(2)]
  by (cases "after_cursor e") (auto simp: edit_arrow_def split: if_splits)

lemma displays_mode: "displays sh (e\<lparr>mode := y\<rparr>) = displays sh e" "displays (sh\<lparr>stat := x\<rparr>) e = displays sh e"
  by (simp_all add: displays_def typed_def)

lemma finsh_key_displays:
  assumes rel: "shell_rel sh e" and d: "displays sh e" and ok: "table_ok table" and tab: "table_prints table" and key: "key_ok ch"
    and e': "edit table ch e = Some e'" and sh': "finsh_key table ch sh = Inr sh'"
  shows "displays sh' e'"
proof -
  have m: "stat sh = mode e" using rel by (simp add: shell_rel_def)
  define s where "s = sh\<lparr>stat := WAIT_NORMAL\<rparr>"
  define f where "f = e\<lparr>mode := WAIT_NORMAL\<rparr>"
  have sf: "shell_rel s f" "displays s f" using rel d by (simp_all add: s_def f_def shell_rel_def typed_def displays_def)
  have same: "s = sh" "f = e" if "mode e = WAIT_NORMAL" using that m by (cases sh; cases e; simp add: s_def f_def)+
  consider (esc) "ch = CHR 0x1B \<or> mode e = WAIT_SPEC_KEY \<and> ch = CHR ''[''"
    | (arrow) "mode e = WAIT_FUNC_KEY" "ch \<in> set ''ABCD''" "edit_arrow ch f = Some e'"
    | (plain) "ch \<noteq> CHR 0x1B" "edit_plain table ch f = Some e'" "plain_key table ch s = Inr sh'"
    using e' sh' m same
    by (cases "mode e") (auto simp: edit_def finsh_key_def Let_def s_def [symmetric] f_def [symmetric] split: if_splits)
  then show ?thesis
  proof cases
    case esc
    then show ?thesis using e' sh' m d by (auto simp: edit_def finsh_key_def displays_mode)
  next
    case arrow
    then show ?thesis
      using sh' m up_displays [OF sf] down_displays [OF sf] left_key_displays [OF sf] right_key_displays [OF sf]
      by (auto simp: finsh_key_def Let_def s_def [symmetric])
  next
    case plain
    then show ?thesis using plain_key_displays [OF sf ok tab key] by blast
  qed
qed

lemma displays_start: "displays finsh_start new_editor"
  using feed_prompt [of "[]"]
  by (intro displaysI [where m = 0]) (auto simp: finsh_start_def new_editor_def kprintf_def typed_def screen_def MSH_PROMPT_def prompt_def)

text \<open>
  With keys of such a keyboard only, the specification and the display together are an invariant.
\<close>

definition keyboard_edit :: "finsh_syscall list \<Rightarrow> char \<Rightarrow> editor \<Rightarrow> editor option" where
  "keyboard_edit table ch e = (if key_ok ch then edit table ch e else None)"

interpretation terminal_simulation: simulation "finsh_key table" "keyboard_edit table"
  "\<lambda>sh e. table_ok table \<and> table_prints table \<and> shell_rel sh e \<and> displays sh e" for table
proof
  fix sh e ch e'
  assume a: "table_ok table \<and> table_prints table \<and> shell_rel sh e \<and> displays sh e" "keyboard_edit table ch e = Some e'"
  then have e': "key_ok ch" "edit table ch e = Some e'" by (auto simp: keyboard_edit_def split: if_splits)
  with a finsh_key_rel [of sh e table ch e'] obtain sh' where "finsh_key table ch sh = Inr sh'" "shell_rel sh' e'" by blast
  with a e' finsh_key_displays [of sh e table ch e' sh'] show
    "\<exists>sh'. finsh_key table ch sh = Inr sh' \<and> (table_ok table \<and> table_prints table \<and> shell_rel sh' e' \<and> displays sh' e')" by blast
qed

lemma keyboard_run: "\<forall>c \<in> set keys. key_ok c \<Longrightarrow> run_opt (keyboard_edit table) e keys = run_opt (edit table) e keys"
proof (induction keys arbitrary: e)
  case (Cons k ks)
  then show ?case by (cases "edit table k e") (simp_all add: keyboard_edit_def)
qed simp

text \<open>
  C24. What the user sees is what Enter would run: after every sequence of keys of a plain keyboard with no
  line of 80 characters, the last row of the terminal is the prompt, the line in the buffer and blanks, and its cursor
  stands where the next character goes; whatever the user edited, completed, recalled or ran before. The commands have
  to end their output with a line feed.
\<close>

theorem shell_displays:
  assumes "table_ok table" and "table_prints table" and "\<forall>c \<in> set keys. key_ok c" and "run_opt (edit table) new_editor keys = Some e"
  shows "\<exists>sh m. finsh_run table finsh_start keys = Inr sh \<and>
    screen (console sh) = (''msh >'' @ take (unat (line_position sh)) (line sh) @ replicate m (CHR '' ''), 5 + unat (line_curpos sh), [])"
proof -
  obtain sh where sh: "finsh_run table finsh_start keys = Inr sh" "shell_rel sh e" "displays sh e"
    using terminal_simulation.run_rel [of table finsh_start new_editor keys e] shell_rel_start displays_start assms keyboard_run [OF assms(3)]
    by (auto simp: finsh_run_def)
  have "take (unat (line_position sh)) (line sh) = typed e"
    unfolding shell_rel_line(1,5) [OF sh(2)] by (simp add: buffer_of_def)
  then show ?thesis using sh shell_rel_line(6) [OF sh(2)] by (auto simp: displays_def prompt_def)
qed

text \<open>\<open>ps\<close> is typed as \<open>ss\<close> and the first character corrected.\<close>
theorem shell_displays_witness:
  "\<exists>sh m. finsh_run [] finsh_start (''ss'' @ CHR 0x1B # ''[D'' @ [CHR 0x08] @ ''p'') = Inr sh \<and>
    screen (console sh) = (''msh >'' @ take (unat (line_position sh)) (line sh) @ replicate m (CHR '' ''), 5 + unat (line_curpos sh), [])"
proof -
  have "\<exists>e. run_opt (edit []) new_editor (''ss'' @ CHR 0x1B # ''[D'' @ [CHR 0x08] @ ''p'') = Some e"
    by (simp add: edit_def edit_plain_def edit_arrow_def new_editor_def typed_def set_typed_def sizes Let_def)
  moreover have "table_ok []" "table_prints []" by (simp_all add: table_ok_def table_prints_def)
  moreover have "\<forall>c \<in> set (''ss'' @ CHR 0x1B # ''[D'' @ [CHR 0x08] @ ''p''). key_ok c" by (simp add: key_ok_def printable_def)
  ultimately show ?thesis using shell_displays by blast
qed

end
