(* ===== verification/Device.thy ===== *)
theory Device
  imports Ipc Kstring
begin

text \<open>
  The object registry (\<open>rt-thread/src/object.c\<close>) and the device layer (\<open>rt-thread/src/device.c\<close>). An object has a name of
  at most 8 bytes, which need not end in a zero, and is linked into the container of its class. A device has the
  flags and the reference count of the layer; the routines of its driver, each of which may be missing, are
  arguments. Hooks are left out, and the lock of the scheduler around the searches.
\<close>

section \<open>Names\<close>

text \<open>Strings are lists of the bytes before the zero. A name as \<open>rt_strncpy\<close> leaves it, and \<open>rt_strncmp\<close> being 0.\<close>

definition RT_NAME_MAX :: nat where "RT_NAME_MAX = 8"

definition name_field :: "u8 list \<Rightarrow> u8 list" where
  "name_field s = take RT_NAME_MAX (s @ replicate RT_NAME_MAX 0)"

fun same_name :: "u8 list \<Rightarrow> u8 list \<Rightarrow> bool" where
  "same_name (x # xs) (y # ys) = (x = y \<and> (x = 0 \<or> same_name xs ys))"
| "same_name xs ys = True"

text \<open>\<open>same_name\<close> is what \<open>rt_strncmp\<close> compares in memory.\<close>

definition bytes_at :: "Kstring.memory \<Rightarrow> u32 \<Rightarrow> nat \<Rightarrow> u8 list" where
  "bytes_at m a n = map (\<lambda>i. m (a + of_nat i)) [0..<n]"

lemma bytes_at_Suc: "bytes_at m a (Suc n) = m a # bytes_at m (a + 1) n"
  by (simp add: bytes_at_def upt_conv_Cons map_Suc_upt [symmetric] comp_def add.assoc del: upt_Suc)

lemma rt_strncmp_same_name:
  "rt_strncmp m a b n = 0 \<longleftrightarrow> same_name (bytes_at m a (unat n)) (bytes_at m b (unat n))"
proof (induction "unat n" arbitrary: a b n)
  case 0
  then have "n = 0" by (simp add: unat_eq_0)
  then show ?case by (subst rt_strncmp.simps) (simp add: bytes_at_def)
next
  case (Suc k)
  then have n: "n \<noteq> 0" by auto
  then have k: "k = unat (n - 1)" using Suc.hyps(2) by (simp add: unat_minus_one)
  show ?case
    by (subst rt_strncmp.simps)
      (use n Suc.hyps(1) [OF k] in \<open>auto simp: Suc.hyps(2) [symmetric] bytes_at_Suc k Let_def signed_eq_0_iff\<close>)
qed

lemma same_name_field:
  assumes "0 \<notin> set s" "0 \<notin> set t"
  shows "same_name (name_field s) (t @ [0]) \<longleftrightarrow> take RT_NAME_MAX s = take RT_NAME_MAX t"
proof -
  have "same_name (take n (s @ replicate k 0)) (t @ [0]) \<longleftrightarrow> take n s = take n t" if "n \<le> k" for n k
    using assms that
  proof (induction n arbitrary: s t k)
    case (Suc n)
    then obtain j where j: "k = Suc j" by (cases k) auto
    show ?case
    proof (cases s)
      case Nil
      then show ?thesis using Suc.prems j by (cases t) auto
    next
      case (Cons x xs)
      then show ?thesis using Suc.IH [of xs "tl t" k] Suc.prems by (cases t) auto
    qed
  qed simp
  from this [of RT_NAME_MAX RT_NAME_MAX] show ?thesis by (simp add: name_field_def)
qed

section \<open>Objects\<close>

definition RT_Object_Class_Device :: u8 where "RT_Object_Class_Device = 9"
definition RT_Object_Class_Static :: u8 where "RT_Object_Class_Static = 0x80"

text \<open>The classes that have a container: thread, semaphore, mutex, event, mailbox, queue, pool, device, timer, memory.\<close>

definition object_container :: "u8 list" where
  "object_container = [1, 2, 3, 4, 5, 6, 8, RT_Object_Class_Device, 0xa, 0xc]"

record kobject =
  obj_name :: "u8 list"
  obj_type :: u8
  obj_flag :: u8

record registry =
  objects :: "nat \<Rightarrow> kobject"
  object_list :: "u8 \<Rightarrow> nat list"

definition rt_object_get_information :: "u8 \<Rightarrow> u8 option" where
  "rt_object_get_information ty = List.find (\<lambda>c. c = ty) object_container"

definition rt_object_get_length :: "u8 \<Rightarrow> registry \<Rightarrow> int" where
  "rt_object_get_length ty r =
     (case rt_object_get_information ty of None \<Rightarrow> 0 | Some c \<Rightarrow> int (length (object_list r c)))"

definition rt_object_get_pointers :: "u8 \<Rightarrow> int \<Rightarrow> registry \<Rightarrow> nat list" where
  "rt_object_get_pointers ty maxlen r =
     (if maxlen \<le> 0 then []
      else case rt_object_get_information ty of None \<Rightarrow> [] | Some c \<Rightarrow> take (nat maxlen) (object_list r c))"

definition link_object :: "u8 \<Rightarrow> nat \<Rightarrow> kobject \<Rightarrow> registry \<Rightarrow> registry" where
  "link_object c i ob r = r\<lparr>objects := (objects r)(i := ob), object_list := (object_list r)(c := i # object_list r c)\<rparr>"

definition rt_object_init :: "nat \<Rightarrow> u8 \<Rightarrow> u8 list \<Rightarrow> registry \<Rightarrow> fault + registry" where
  "rt_object_init i ty name r =
     (case rt_object_get_information ty of None \<Rightarrow> Inl AssertFailed
      | Some c \<Rightarrow>
          if i \<in> set (object_list r c) then Inl AssertFailed
          else Inr (link_object c i ((objects r i)\<lparr>obj_type := ty OR RT_Object_Class_Static, obj_name := name_field name\<rparr>) r))"

definition unlink_object :: "nat \<Rightarrow> registry \<Rightarrow> registry" where
  "unlink_object i r =
     r\<lparr>objects := (objects r)(i := (objects r i)\<lparr>obj_type := 0\<rparr>), object_list := \<lambda>c. filter (\<lambda>j. j \<noteq> i) (object_list r c)\<rparr>"

definition rt_object_detach :: "nat \<Rightarrow> registry \<Rightarrow> registry" where
  "rt_object_detach i r = unlink_object i r"

text \<open>\<open>obj\<close> is the answer of the allocator, which is asked for the size of an object of the class.\<close>

definition rt_object_allocate :: "nat option \<Rightarrow> u8 \<Rightarrow> u8 list \<Rightarrow> kernel \<Rightarrow> registry \<Rightarrow> fault + nat option \<times> registry" where
  "rt_object_allocate obj ty name k r =
     (if \<not> not_in_interrupt k then Inl AssertFailed
      else case rt_object_get_information ty of None \<Rightarrow> Inl AssertFailed
      | Some c \<Rightarrow>
          (case obj of None \<Rightarrow> Inr (None, r)
           | Some i \<Rightarrow> Inr (Some i, link_object c i \<lparr>obj_name = name_field name, obj_type = ty, obj_flag = 0\<rparr> r)))"

definition rt_object_is_systemobject :: "nat \<Rightarrow> registry \<Rightarrow> bool" where
  "rt_object_is_systemobject i r \<longleftrightarrow> obj_type (objects r i) AND RT_Object_Class_Static \<noteq> 0"

definition rt_object_get_type :: "nat \<Rightarrow> registry \<Rightarrow> u8" where
  "rt_object_get_type i r = obj_type (objects r i) AND NOT RT_Object_Class_Static"

text \<open>The object whose memory is released is the second result.\<close>

definition rt_object_delete :: "nat \<Rightarrow> registry \<Rightarrow> fault + registry \<times> nat" where
  "rt_object_delete i r =
     (if rt_object_is_systemobject i r then Inl AssertFailed else Inr (unlink_object i r, i))"

definition rt_object_find :: "u8 list option \<Rightarrow> u8 \<Rightarrow> kernel \<Rightarrow> registry \<Rightarrow> fault + nat option" where
  "rt_object_find name ty k r =
     (case (name, rt_object_get_information ty) of
        (Some s, Some c) \<Rightarrow>
          if \<not> not_in_interrupt k then Inl AssertFailed
          else Inr (List.find (\<lambda>i. same_name (obj_name (objects r i)) (s @ [0])) (object_list r c))
      | _ \<Rightarrow> Inr None)"

section \<open>Devices\<close>

definition RT_ENOSYS :: int where "RT_ENOSYS = 6"
definition RT_EBUSY :: int where "RT_EBUSY = 7"
definition RT_DEVICE_FLAG_STANDALONE :: u16 where "RT_DEVICE_FLAG_STANDALONE = 0x008"
definition RT_DEVICE_FLAG_ACTIVATED :: u16 where "RT_DEVICE_FLAG_ACTIVATED = 0x010"
definition RT_DEVICE_OFLAG_CLOSE :: u16 where "RT_DEVICE_OFLAG_CLOSE = 0x000"
definition RT_DEVICE_OFLAG_OPEN :: u16 where "RT_DEVICE_OFLAG_OPEN = 0x008"
definition RT_DEVICE_OFLAG_MASK :: u16 where "RT_DEVICE_OFLAG_MASK = 0xf0f"

lemmas device_flags = RT_DEVICE_FLAG_STANDALONE_def RT_DEVICE_FLAG_ACTIVATED_def RT_DEVICE_OFLAG_CLOSE_def
  RT_DEVICE_OFLAG_OPEN_def RT_DEVICE_OFLAG_MASK_def

text \<open>
  The fields of a device that the layer uses, the routines of its driver, which see and may change the flags, on a
  state \<open>'d\<close> of their own, and what the registry and the devices are together.
\<close>

record device =
  dev_class :: int
  dev_flag :: u16
  open_flag :: u16
  ref_count :: u8
  rx_indicate :: "nat option"
  tx_complete :: "nat option"

record 'd driver =
  drv_init :: "(device \<times> 'd \<Rightarrow> fault + int \<times> device \<times> 'd) option"
  drv_open :: "(u16 \<Rightarrow> device \<times> 'd \<Rightarrow> fault + int \<times> device \<times> 'd) option"
  drv_close :: "(device \<times> 'd \<Rightarrow> fault + int \<times> device \<times> 'd) option"
  drv_read :: "(int \<Rightarrow> u32 \<Rightarrow> device \<times> 'd \<Rightarrow> fault + u8 list \<times> device \<times> 'd) option"
  drv_write :: "(int \<Rightarrow> u8 list \<Rightarrow> device \<times> 'd \<Rightarrow> fault + u32 \<times> device \<times> 'd) option"
  drv_control :: "(int \<Rightarrow> u32 \<Rightarrow> device \<times> 'd \<Rightarrow> fault + int \<times> device \<times> 'd) option"

record device_table =
  registered :: registry
  devices :: "nat \<Rightarrow> device"

definition rt_device_find :: "u8 list \<Rightarrow> kernel \<Rightarrow> device_table \<Rightarrow> fault + nat option" where
  "rt_device_find name k t = rt_object_find (Some name) RT_Object_Class_Device k (registered t)"

definition rt_device_register :: "nat option \<Rightarrow> u8 list \<Rightarrow> u16 \<Rightarrow> kernel \<Rightarrow> device_table \<Rightarrow> fault + int \<times> device_table" where
  "rt_device_register dev name flags k t =
     (case dev of None \<Rightarrow> Inr (- RT_ERROR, t)
      | Some i \<Rightarrow>
          bind_err (rt_device_find name k t) (\<lambda>found.
            if found \<noteq> None then Inr (- RT_ERROR, t)
            else bind_err (rt_object_init i RT_Object_Class_Device name (registered t)) (\<lambda>r.
              Inr (RT_EOK, t\<lparr>registered := r, devices := (devices t)(i := (devices t i)\<lparr>dev_flag := flags, ref_count := 0, open_flag := 0\<rparr>)\<rparr>))))"

definition is_device :: "nat \<Rightarrow> device_table \<Rightarrow> bool" where
  "is_device i t \<longleftrightarrow> rt_object_get_type i (registered t) = RT_Object_Class_Device"

definition rt_device_unregister :: "nat \<Rightarrow> device_table \<Rightarrow> fault + int \<times> device_table" where
  "rt_device_unregister i t =
     (if \<not> is_device i t \<or> \<not> rt_object_is_systemobject i (registered t) then Inl AssertFailed
      else Inr (RT_EOK, t\<lparr>registered := rt_object_detach i (registered t)\<rparr>))"

text \<open>\<open>dev\<close> is the answer of the allocator, asked for a device and its user data; \<open>rt_memset\<close> clears the device.\<close>

definition rt_device_create :: "nat option \<Rightarrow> int \<Rightarrow> device_table \<Rightarrow> nat option \<times> device_table" where
  "rt_device_create dev ty t =
     (case dev of None \<Rightarrow> (None, t)
      | Some i \<Rightarrow> (Some i,
          t\<lparr>registered := (registered t)\<lparr>objects := (objects (registered t))(i := \<lparr>obj_name = replicate RT_NAME_MAX 0, obj_type = 0, obj_flag = 0\<rparr>)\<rparr>,
            devices := (devices t)(i := \<lparr>dev_class = ty, dev_flag = 0, open_flag = 0, ref_count = 0, rx_indicate = None, tx_complete = None\<rparr>)\<rparr>))"

text \<open>\<open>rt_device_destroy\<close> answers the device whose memory is released.\<close>

definition rt_device_destroy :: "nat \<Rightarrow> device_table \<Rightarrow> fault + device_table \<times> nat" where
  "rt_device_destroy i t =
     (if \<not> is_device i t \<or> rt_object_is_systemobject i (registered t) then Inl AssertFailed
      else Inr (t\<lparr>registered := rt_object_detach i (registered t)\<rparr>, i))"

definition activate :: "device \<Rightarrow> device" where
  "activate d = d\<lparr>dev_flag := dev_flag d OR RT_DEVICE_FLAG_ACTIVATED\<rparr>"

definition rt_device_init :: "'d driver \<Rightarrow> device \<times> 'd \<Rightarrow> fault + int \<times> device \<times> 'd" where
  "rt_device_init drv ds =
     (case drv_init drv of None \<Rightarrow> Inr (RT_EOK, ds)
      | Some f \<Rightarrow>
          if dev_flag (fst ds) AND RT_DEVICE_FLAG_ACTIVATED = 0 then
            bind_err (f ds) (\<lambda>(result, d, s). Inr (if result \<noteq> RT_EOK then (result, d, s) else (result, activate d, s)))
          else Inr (RT_EOK, ds))"

text \<open>The part of \<open>rt_device_open\<close> after the initialisation.\<close>

definition open_activated :: "'d driver \<Rightarrow> u16 \<Rightarrow> device \<times> 'd \<Rightarrow> fault + int \<times> device \<times> 'd" where
  "open_activated drv oflag ds =
     (if dev_flag (fst ds) AND RT_DEVICE_FLAG_STANDALONE \<noteq> 0 \<and> open_flag (fst ds) AND RT_DEVICE_OFLAG_OPEN \<noteq> 0
      then Inr (- RT_EBUSY, ds)
      else
        bind_err (case drv_open drv of Some f \<Rightarrow> f oflag ds
              | None \<Rightarrow> Inr (RT_EOK, (fst ds)\<lparr>open_flag := oflag AND RT_DEVICE_OFLAG_MASK\<rparr>, snd ds)) (\<lambda>(result, d, s).
          if result = RT_EOK \<or> result = - RT_ENOSYS then
            let d = d\<lparr>open_flag := open_flag d OR RT_DEVICE_OFLAG_OPEN, ref_count := ref_count d + 1\<rparr>
            in if ref_count d = 0 then Inl AssertFailed else Inr (result, d, s)
          else Inr (result, d, s)))"

definition open_device :: "'d driver \<Rightarrow> u16 \<Rightarrow> device \<times> 'd \<Rightarrow> fault + int \<times> device \<times> 'd" where
  "open_device drv oflag ds =
     (if dev_flag (fst ds) AND RT_DEVICE_FLAG_ACTIVATED = 0 then
        bind_err (case drv_init drv of None \<Rightarrow> Inr (RT_EOK, ds) | Some f \<Rightarrow> f ds) (\<lambda>(result, d, s).
          if result \<noteq> RT_EOK then Inr (result, d, s) else open_activated drv oflag (activate d, s))
      else open_activated drv oflag ds)"

definition close_device :: "'d driver \<Rightarrow> device \<times> 'd \<Rightarrow> fault + int \<times> device \<times> 'd" where
  "close_device drv ds =
     (case ds of (d, s) \<Rightarrow>
      if ref_count d = 0 then Inr (- RT_ERROR, d, s)
      else
        let d = d\<lparr>ref_count := ref_count d - 1\<rparr>
        in if ref_count d \<noteq> 0 then Inr (RT_EOK, d, s)
           else
             bind_err (case drv_close drv of None \<Rightarrow> Inr (RT_EOK, d, s) | Some f \<Rightarrow> f (d, s)) (\<lambda>(result, d, s).
               Inr (result, if result = RT_EOK \<or> result = - RT_ENOSYS then d\<lparr>open_flag := RT_DEVICE_OFLAG_CLOSE\<rparr> else d, s)))"

text \<open>The calls of the layer check the type of the object first. \<open>with_device\<close> is that check and the way to the device.\<close>

definition with_device :: "nat \<Rightarrow> (device \<times> 'd \<Rightarrow> fault + 'a \<times> device \<times> 'd) \<Rightarrow> device_table \<times> 'd \<Rightarrow> fault + 'a \<times> device_table \<times> 'd" where
  "with_device i f ts =
     (case ts of (t, s) \<Rightarrow>
      if \<not> is_device i t then Inl AssertFailed
      else bind_err (f (devices t i, s)) (\<lambda>(a, d, s). Inr (a, t\<lparr>devices := (devices t)(i := d)\<rparr>, s)))"

definition rt_device_open :: "'d driver \<Rightarrow> nat \<Rightarrow> u16 \<Rightarrow> device_table \<times> 'd \<Rightarrow> fault + int \<times> device_table \<times> 'd" where
  "rt_device_open drv i oflag = with_device i (open_device drv oflag)"

definition rt_device_close :: "'d driver \<Rightarrow> nat \<Rightarrow> device_table \<times> 'd \<Rightarrow> fault + int \<times> device_table \<times> 'd" where
  "rt_device_close drv i = with_device i (close_device drv)"

text \<open>
  Reads and writes; the bytes that are read are the result. The third component is the error number that is set, if any.
\<close>

definition rt_device_read :: "'d driver \<Rightarrow> nat \<Rightarrow> int \<Rightarrow> u32 \<Rightarrow> device_table \<times> 'd \<Rightarrow> fault + (u8 list \<times> int option) \<times> device_table \<times> 'd" where
  "rt_device_read drv i pos sz = with_device i (\<lambda>ds.
     if ref_count (fst ds) = 0 then Inr (([], Some (- RT_ERROR)), ds)
     else case drv_read drv of None \<Rightarrow> Inr (([], Some (- RT_ENOSYS)), ds)
          | Some f \<Rightarrow> bind_err (f pos sz ds) (\<lambda>(bs, d, s). Inr ((bs, None), d, s)))"

definition rt_device_write :: "'d driver \<Rightarrow> nat \<Rightarrow> int \<Rightarrow> u8 list \<Rightarrow> device_table \<times> 'd \<Rightarrow> fault + (u32 \<times> int option) \<times> device_table \<times> 'd" where
  "rt_device_write drv i pos buffer = with_device i (\<lambda>ds.
     if ref_count (fst ds) = 0 then Inr ((0, Some (- RT_ERROR)), ds)
     else case drv_write drv of None \<Rightarrow> Inr ((0, Some (- RT_ENOSYS)), ds)
          | Some f \<Rightarrow> bind_err (f pos buffer ds) (\<lambda>(n, d, s). Inr ((n, None), d, s)))"

definition rt_device_control :: "'d driver \<Rightarrow> nat \<Rightarrow> int \<Rightarrow> u32 \<Rightarrow> device_table \<times> 'd \<Rightarrow> fault + int \<times> device_table \<times> 'd" where
  "rt_device_control drv i cmd arg = with_device i (\<lambda>ds.
     case drv_control drv of None \<Rightarrow> Inr (- RT_ENOSYS, ds) | Some f \<Rightarrow> f cmd arg ds)"

definition rt_device_set_rx_indicate :: "nat \<Rightarrow> nat option \<Rightarrow> device_table \<times> 'd \<Rightarrow> fault + int \<times> device_table \<times> 'd" where
  "rt_device_set_rx_indicate i f = with_device i (\<lambda>(d, s). Inr (RT_EOK, d\<lparr>rx_indicate := f\<rparr>, s))"

definition rt_device_set_tx_complete :: "nat \<Rightarrow> nat option \<Rightarrow> device_table \<times> 'd \<Rightarrow> fault + int \<times> device_table \<times> 'd" where
  "rt_device_set_tx_complete i f = with_device i (\<lambda>(d, s). Inr (RT_EOK, d\<lparr>tx_complete := f\<rparr>, s))"

section \<open>The registry as a map from names to devices\<close>

datatype registry_call = Register nat "u8 list" u16 | Unregister nat

definition registry_step :: "registry_call \<Rightarrow> kernel \<times> device_table \<Rightarrow> fault + kernel \<times> device_table" where
  "registry_step c kt =
     (case kt of (k, t) \<Rightarrow>
      case c of
        Register i name flags \<Rightarrow> bind_err (rt_device_register (Some i) name flags k t) (\<lambda>(_, t). Inr (k, t))
      | Unregister i \<Rightarrow> bind_err (rt_device_unregister i t) (\<lambda>(_, t). Inr (k, t)))"

text \<open>
  The specification: names count up to 8 bytes; a name that is taken is refused. Open are the registration of a device
  that is registered and the removal of one that is not, which the assertions stop.
\<close>

fun registry_spec :: "registry_call \<Rightarrow> (u8 list \<Rightarrow> nat option) \<Rightarrow> (u8 list \<Rightarrow> nat option) option" where
  "registry_spec (Register i name flags) m =
     (if 0 \<in> set name then None
      else if m (take RT_NAME_MAX name) \<noteq> None then Some m
      else if i \<in> ran m then None else Some (m(take RT_NAME_MAX name \<mapsto> i)))"
| "registry_spec (Unregister i) m =
     (if i \<in> ran m then Some (\<lambda>n. if m n = Some i then None else m n) else None)"

abbreviation device_list :: "device_table \<Rightarrow> nat list" where
  "device_list t \<equiv> object_list (registered t) RT_Object_Class_Device"

definition named :: "device_table \<Rightarrow> nat \<Rightarrow> u8 list \<Rightarrow> bool" where
  "named t i n \<longleftrightarrow> 0 \<notin> set n \<and> length n \<le> RT_NAME_MAX \<and> obj_name (objects (registered t) i) = name_field n"

lemma device_type:
  assumes "obj_type (objects r i) = RT_Object_Class_Device OR RT_Object_Class_Static"
  shows "rt_object_get_type i r = RT_Object_Class_Device" "rt_object_is_systemobject i r"
  using assms by (simp_all add: rt_object_get_type_def rt_object_is_systemobject_def RT_Object_Class_Device_def RT_Object_Class_Static_def)

definition registry_rel :: "device_table \<Rightarrow> (u8 list \<Rightarrow> nat option) \<Rightarrow> bool" where
  "registry_rel t m \<longleftrightarrow> (\<forall>n i. m n = Some i \<longrightarrow> i \<in> set (device_list t) \<and> named t i n) \<and>
     (\<forall>i \<in> set (device_list t). (\<exists>n. m n = Some i) \<and>
        obj_type (objects (registered t) i) = RT_Object_Class_Device OR RT_Object_Class_Static)"

lemma name_field_take: "name_field (take RT_NAME_MAX s) = name_field s"
  by (cases "length s \<le> RT_NAME_MAX") (simp_all add: name_field_def)

lemma device_container: "rt_object_get_information RT_Object_Class_Device = Some RT_Object_Class_Device"
  by (simp add: rt_object_get_information_def object_container_def RT_Object_Class_Device_def)

lemma name_field_inj:
  assumes "name_field n = name_field n'" "0 \<notin> set n" "0 \<notin> set n'" "length n \<le> RT_NAME_MAX" "length n' \<le> RT_NAME_MAX"
  shows "n = n'"
proof -
  have "same_name (name_field n) (n @ [0])" using same_name_field [OF assms(2,2)] by simp
  then have "same_name (name_field n') (n @ [0])" by (simp add: assms(1))
  then show ?thesis using same_name_field [OF assms(3,2)] assms(4,5) by simp
qed

lemma registry_rel_find:
  assumes r: "registry_rel t m" and s: "0 \<notin> set s" and k: "not_in_interrupt k"
  shows "rt_device_find s k t = Inr (m (take RT_NAME_MAX s))"
proof -
  let ?P = "\<lambda>i. same_name (obj_name (objects (registered t) i)) (s @ [0])"
  have p: "?P i \<longleftrightarrow> m (take RT_NAME_MAX s) = Some i" if i: "i \<in> set (device_list t)" for i
  proof -
    obtain n where n: "m n = Some i" "named t i n" using r i unfolding registry_rel_def by metis
    have "?P i \<longleftrightarrow> take RT_NAME_MAX n = take RT_NAME_MAX s"
      using n(2) same_name_field [OF _ s, of n] by (simp add: named_def)
    also have "\<dots> \<longleftrightarrow> n = take RT_NAME_MAX s" using n(2) by (simp add: named_def)
    also have "\<dots> \<longleftrightarrow> m (take RT_NAME_MAX s) = Some i"
    proof
      assume "m (take RT_NAME_MAX s) = Some i"
      then have "named t i (take RT_NAME_MAX s)" using r by (simp add: registry_rel_def)
      with n(2) show "n = take RT_NAME_MAX s" using name_field_inj by (simp add: named_def)
    qed (use n(1) in simp)
    finally show ?thesis .
  qed
  have "List.find ?P (device_list t) = m (take RT_NAME_MAX s)"
  proof (cases "m (take RT_NAME_MAX s)")
    case None
    then show ?thesis using p by (auto simp: find_None_iff)
  next
    case (Some i)
    then have i: "i \<in> set (device_list t)" using r by (simp add: registry_rel_def)
    obtain j where j: "List.find ?P (device_list t) = Some j"
      using p [OF i] Some i by (cases "List.find ?P (device_list t)") (auto simp: find_None_iff)
    then have "j \<in> set (device_list t)" "?P j" by (auto simp: find_Some_iff)
    then show ?thesis using p Some j by auto
  qed
  then show ?thesis using k by (simp add: rt_device_find_def rt_object_find_def device_container)
qed

lemma register_rel:
  assumes r: "registry_rel t m" and k: "not_in_interrupt k" and s: "registry_spec (Register i name flags) m = Some m'"
  shows "\<exists>t'. registry_step (Register i name flags) (k, t) = Inr (k, t') \<and> registry_rel t' m'"
proof -
  have z: "0 \<notin> set name" using s by (simp split: if_splits)
  note f = registry_rel_find [OF r z k]
  show ?thesis
  proof (cases "m (take RT_NAME_MAX name)")
    case (Some j)
    then show ?thesis using s z f r by (simp add: registry_step_def rt_device_register_def)
  next
    case None
    then have i: "i \<notin> ran m" "m' = m(take RT_NAME_MAX name \<mapsto> i)" using s z by (simp_all split: if_splits)
    have out: "i \<notin> set (device_list t)" using r i(1) by (auto simp: registry_rel_def ran_def)
    define t' where "t' = t\<lparr>registered := link_object RT_Object_Class_Device i
        ((objects (registered t) i)\<lparr>obj_type := RT_Object_Class_Device OR RT_Object_Class_Static, obj_name := name_field name\<rparr>) (registered t),
      devices := (devices t)(i := (devices t i)\<lparr>dev_flag := flags, ref_count := 0, open_flag := 0\<rparr>)\<rparr>"
    have run: "registry_step (Register i name flags) (k, t) = Inr (k, t')"
      using f None out by (simp add: registry_step_def rt_device_register_def rt_object_init_def device_container t'_def)
    have l: "device_list t' = i # device_list t" by (simp add: t'_def link_object_def)
    have nm: "named t' j n \<longleftrightarrow> named t j n" if "j \<noteq> i" for j n using that by (simp add: named_def t'_def link_object_def)
    have own: "named t' i (take RT_NAME_MAX name)"
      using z by (auto simp: named_def t'_def link_object_def name_field_take dest: in_set_takeD)
    have ty: "obj_type (objects (registered t') j) = (if j = i then RT_Object_Class_Device OR RT_Object_Class_Static
        else obj_type (objects (registered t) j))" for j by (simp add: t'_def link_object_def)
    have "\<exists>n. m' n = Some j" if "j \<in> set (device_list t)" for j
    proof -
      obtain n where "m n = Some j" using r \<open>j \<in> set (device_list t)\<close> unfolding registry_rel_def by blast
      then show ?thesis using None i(2) by (metis fun_upd_other option.distinct(1))
    qed
    then have conv: "\<forall>j \<in> set (i # device_list t). (\<exists>n. m' n = Some j) \<and>
        obj_type (objects (registered t') j) = RT_Object_Class_Device OR RT_Object_Class_Static"
      using r unfolding registry_rel_def by (auto simp: i(2) ty)
    have "j \<in> set (i # device_list t) \<and> named t' j n" if m': "m' n = Some j" for n j
    proof (cases "n = take RT_NAME_MAX name")
      case True
      then show ?thesis using m' own i(2) by simp
    next
      case False
      then have "m n = Some j" using m' i(2) by simp
      then have "j \<in> set (device_list t)" "named t j n" using r by (simp_all add: registry_rel_def)
      moreover have "j \<noteq> i" using out \<open>j \<in> set (device_list t)\<close> by auto
      ultimately show ?thesis using nm by simp
    qed
    with conv have "registry_rel t' m'" unfolding registry_rel_def l by blast
    with run show ?thesis by blast
  qed
qed

lemma unregister_rel:
  assumes r: "registry_rel t m" and s: "registry_spec (Unregister i) m = Some m'"
  shows "\<exists>t'. registry_step (Unregister i) (k, t) = Inr (k, t') \<and> registry_rel t' m'"
proof -
  have i: "i \<in> ran m" "m' = (\<lambda>n. if m n = Some i then None else m n)"
    using s by (auto split: if_splits)
  obtain n where "m n = Some i" using i(1) by (auto simp: ran_def)
  then have "i \<in> set (device_list t)" using r unfolding registry_rel_def by blast
  then have ty: "obj_type (objects (registered t) i) = RT_Object_Class_Device OR RT_Object_Class_Static"
    using r unfolding registry_rel_def by blast
  define t' where "t' = t\<lparr>registered := unlink_object i (registered t)\<rparr>"
  have run: "registry_step (Unregister i) (k, t) = Inr (k, t')"
    by (simp add: registry_step_def rt_device_unregister_def is_device_def device_type [OF ty] rt_object_detach_def t'_def)
  have l: "set (device_list t') = set (device_list t) - {i}" by (auto simp: t'_def unlink_object_def)
  have nm: "named t' j n \<longleftrightarrow> named t j n" for j n by (simp add: named_def t'_def unlink_object_def)
  have oty: "obj_type (objects (registered t') j) = obj_type (objects (registered t) j)" if "j \<noteq> i" for j
    using that by (simp add: t'_def unlink_object_def)
  have conv: "(\<exists>n. m' n = Some j) \<and> obj_type (objects (registered t') j) = RT_Object_Class_Device OR RT_Object_Class_Static"
    if "j \<in> set (device_list t) - {i}" for j
  proof -
    have ji: "j \<noteq> i" and j: "j \<in> set (device_list t)" using that by simp_all
    have tj: "obj_type (objects (registered t) j) = RT_Object_Class_Device OR RT_Object_Class_Static"
      using r j unfolding registry_rel_def by blast
    obtain n where n: "m n = Some j" using r j unfolding registry_rel_def by blast
    have "m' n = Some j" using ji n by (simp add: i(2))
    then show ?thesis unfolding oty [OF ji] tj by (intro conjI refl exI)
  qed
  have forw: "j \<in> set (device_list t) - {i} \<and> named t j n" if "m' n = Some j" for n j
  proof -
    have "m n \<noteq> Some i" using that unfolding i(2) by (metis option.distinct(1))
    moreover from this have "m n = Some j" using that by (simp add: i(2))
    ultimately show ?thesis using r unfolding registry_rel_def by blast
  qed
  have "registry_rel t' m'" unfolding registry_rel_def l nm
    by (intro conjI allI impI ballI; (erule conv [THEN conjunct1] conv [THEN conjunct2] forw [THEN conjunct1] forw [THEN conjunct2]))
  then show ?thesis using run by (intro exI conjI)
qed

text \<open>Outside interrupts the registry simulates the map.\<close>

definition registry_view :: "kernel \<Rightarrow> kernel \<times> device_table \<Rightarrow> (u8 list \<Rightarrow> nat option) \<Rightarrow> bool" where
  "registry_view k kt m \<longleftrightarrow> fst kt = k \<and> not_in_interrupt k \<and> registry_rel (snd kt) m"

interpretation registry_sim: simulation registry_step registry_spec "registry_view k" for k
proof
  fix kt m c m'
  assume v: "registry_view k kt m" and s: "registry_spec c m = Some m'"
  obtain t where kt: "kt = (k, t)" using v by (cases kt) (simp add: registry_view_def)
  have r: "registry_rel t m" "not_in_interrupt k" using v by (simp_all add: registry_view_def kt)
  have "\<exists>t'. registry_step c (k, t) = Inr (k, t') \<and> registry_rel t' m'"
  proof (cases c)
    case (Register i name flags)
    then show ?thesis using register_rel [OF r] s by blast
  next
    case (Unregister i)
    then show ?thesis using unregister_rel [OF r(1)] s by blast
  qed
  then show "\<exists>kt'. registry_step c kt = Inr kt' \<and> registry_view k kt' m'"
    using r(2) by (auto simp: registry_view_def kt)
qed

text \<open>
  From an empty list of devices, every sequence of registrations and removals that the map of names allows runs
  without an assertion, and afterwards \<open>rt_device_find\<close> answers what the map holds under the first 8 bytes of the name:
  the last device registered under it and not removed, or none.
\<close>

theorem device_registry:
  assumes "device_list t = []" "not_in_interrupt k" "run_opt registry_spec Map.empty cs = Some m"
  shows "\<exists>t'. run_err registry_step (k, t) cs = Inr (k, t') \<and>
    (\<forall>name. 0 \<notin> set name \<longrightarrow> rt_device_find name k t' = Inr (m (take RT_NAME_MAX name)))"
proof -
  have "registry_view k (k, t) Map.empty" using assms(1,2) by (simp add: registry_view_def registry_rel_def)
  from registry_sim.run_rel [OF this assms(3)] obtain kt where kt: "run_err registry_step (k, t) cs = Inr kt" "registry_view k kt m"
    by blast
  then show ?thesis using registry_rel_find assms(2) by (cases kt) (auto simp: registry_view_def)
qed

text \<open>Two names that agree in their first 8 bytes are one name: the second device is refused. After the removal of the first the name is free.\<close>

definition no_devices :: device_table where
  "no_devices = \<lparr>registered = \<lparr>objects = \<lambda>_. \<lparr>obj_name = [], obj_type = 0, obj_flag = 0\<rparr>, object_list = \<lambda>_. []\<rparr>,
     devices = \<lambda>_. \<lparr>dev_class = 0, dev_flag = 0, open_flag = 0, ref_count = 0, rx_indicate = None, tx_complete = None\<rparr>\<rparr>"

theorem device_registry_witness:
  "\<exists>t'. run_err registry_step (demo, no_devices) [Register 1 [1, 2, 3, 4, 5, 6, 7, 8, 9] 3, Register 2 [1, 2, 3, 4, 5, 6, 7, 8] 3] = Inr (demo, t') \<and>
    rt_device_find [1, 2, 3, 4, 5, 6, 7, 8, 10] demo t' = Inr (Some 1)"
proof -
  let ?cs = "[Register 1 [1, 2, 3, 4, 5, 6, 7, 8, 9] 3, Register 2 [1, 2, 3, 4, 5, 6, 7, 8] 3]"
  have m: "run_opt registry_spec Map.empty ?cs = Some [[1, 2, 3, 4, 5, 6, 7, 8] \<mapsto> 1]" by (simp add: RT_NAME_MAX_def)
  have "not_in_interrupt demo" "device_list no_devices = []" by (simp_all add: no_devices_def demo_def not_in_interrupt_def)
  from device_registry [OF this(2,1) m] obtain t' where t': "run_err registry_step (demo, no_devices) ?cs = Inr (demo, t')"
    "\<And>name. 0 \<notin> set name \<Longrightarrow> rt_device_find name demo t' = Inr ([[1, 2, 3, 4, 5, 6, 7, 8] \<mapsto> 1] (take RT_NAME_MAX name))"
    by blast
  show ?thesis using t'(1) t'(2) [of "[1, 2, 3, 4, 5, 6, 7, 8, 10]"] by (auto simp: RT_NAME_MAX_def)
qed

section \<open>Devices that are created\<close>

text \<open>
  The calls that give an object its type: a device is created without one, registration makes it a static device object,
  and removal takes the type away. Nothing makes a device that is not static, the only kind \<open>rt_device_destroy\<close> accepts.
\<close>

datatype lifecycle = CreateDevice "nat option" int | RegisterDevice nat "u8 list" u16 | UnregisterDevice nat

definition lifecycle_step :: "kernel \<Rightarrow> lifecycle \<Rightarrow> device_table \<Rightarrow> fault + device_table" where
  "lifecycle_step k c t =
     (case c of
        CreateDevice dev ty \<Rightarrow> Inr (snd (rt_device_create dev ty t))
      | RegisterDevice i name flags \<Rightarrow> bind_err (rt_device_register (Some i) name flags k t) (\<lambda>(_, t). Inr t)
      | UnregisterDevice i \<Rightarrow> bind_err (rt_device_unregister i t) (\<lambda>(_, t). Inr t))"

definition static_or_none :: "device_table \<Rightarrow> bool" where
  "static_or_none t \<longleftrightarrow> (\<forall>i. obj_type (objects (registered t) i) \<in> {0, RT_Object_Class_Device OR RT_Object_Class_Static})"

lemma static_or_none_step:
  assumes "static_or_none t" "lifecycle_step k c t = Inr t'"
  shows "static_or_none t'"
proof (cases c)
  case (CreateDevice dev ty)
  then show ?thesis using assms
    by (cases dev) (auto simp: lifecycle_step_def static_or_none_def rt_device_create_def split: if_splits)
next
  case (RegisterDevice i name flags)
  then show ?thesis using assms
    by (auto simp: lifecycle_step_def static_or_none_def rt_device_register_def rt_object_init_def device_container link_object_def
        bind_err_Inr_iff split: if_splits)
next
  case (UnregisterDevice i)
  then show ?thesis using assms
    by (auto simp: lifecycle_step_def static_or_none_def rt_device_unregister_def rt_object_detach_def unlink_object_def bind_err_Inr_iff split: if_splits)
qed

lemma static_or_none_run: "static_or_none t \<Longrightarrow> run_err (lifecycle_step k) t cs = Inr t' \<Longrightarrow> static_or_none t'"
  by (induction cs arbitrary: t) (auto simp: bind_err_Inr_iff dest: static_or_none_step)

text \<open>
  Whatever devices are created, registered and removed, starting from objects without a type: \<open>rt_device_destroy\<close> stops
  at an assertion for every device, so the memory of a device that was created is never released.
\<close>

theorem device_destroy_faults:
  assumes "\<forall>i. obj_type (objects (registered t) i) = 0" "run_err (lifecycle_step k) t cs = Inr t'"
  shows "rt_device_destroy i t' = Inl AssertFailed"
proof -
  have "static_or_none t" using assms(1) by (simp add: static_or_none_def)
  then have "static_or_none t'" using static_or_none_run assms(2) by blast
  then have "obj_type (objects (registered t') i) \<in> {0, RT_Object_Class_Device OR RT_Object_Class_Static}"
    by (simp add: static_or_none_def)
  then show ?thesis
    by (auto simp: rt_device_destroy_def is_device_def rt_object_get_type_def rt_object_is_systemobject_def
        RT_Object_Class_Device_def RT_Object_Class_Static_def)
qed

theorem device_destroy_faults_witness:
  "\<exists>t'. run_err (lifecycle_step demo) no_devices [CreateDevice (Some 1) 0, RegisterDevice 1 [65] 3, UnregisterDevice 1] = Inr t' \<and>
     rt_device_destroy 1 t' = Inl AssertFailed"
proof -
  have "not_in_interrupt demo" by (simp add: not_in_interrupt_def demo_def)
  then obtain t' where t': "run_err (lifecycle_step demo) no_devices [CreateDevice (Some 1) 0, RegisterDevice 1 [65] 3, UnregisterDevice 1] = Inr t'"
    by (simp add: lifecycle_step_def rt_device_create_def rt_device_register_def rt_device_find_def rt_object_find_def device_container
        rt_object_init_def link_object_def rt_device_unregister_def is_device_def device_type no_devices_def)
  from device_destroy_faults [OF _ this, of 1] t' show ?thesis by (simp add: no_devices_def)
qed

section \<open>Opening and closing\<close>

datatype device_call = Open u16 | Close

text \<open>
  The calls on one device, with the number of times it is open: an open that succeeds counts, and a close that finds
  the device open.
\<close>

definition opened :: "int \<Rightarrow> bool" where
  "opened r \<longleftrightarrow> r = RT_EOK \<or> r = - RT_ENOSYS"

definition device_step :: "'d driver \<Rightarrow> nat \<Rightarrow> device_call \<Rightarrow> nat \<times> device_table \<times> 'd \<Rightarrow> fault + nat \<times> device_table \<times> 'd" where
  "device_step drv i c st =
     (case st of (n, ts) \<Rightarrow>
      case c of
        Open oflag \<Rightarrow> bind_err (rt_device_open drv i oflag ts) (\<lambda>(r, ts). Inr (if opened r then Suc n else n, ts))
      | Close \<Rightarrow> bind_err (rt_device_close drv i ts) (\<lambda>(r, ts). Inr (n - 1, ts)))"

text \<open>Whether the driver leaves the count alone, and the open flag as it was.\<close>

definition same_open :: "device \<Rightarrow> device \<Rightarrow> bool" where
  "same_open d d' \<longleftrightarrow> ref_count d' = ref_count d \<and> (open_flag d' AND RT_DEVICE_OFLAG_OPEN = 0 \<longleftrightarrow> open_flag d AND RT_DEVICE_OFLAG_OPEN = 0)"

definition open_count :: "nat \<Rightarrow> device \<Rightarrow> bool" where
  "open_count n d \<longleftrightarrow> unat (ref_count d) = n \<and> (open_flag d AND RT_DEVICE_OFLAG_OPEN = 0 \<longleftrightarrow> n = 0)"

lemma same_open_refl [simp]: "same_open d d"
  by (simp add: same_open_def)

lemma same_open_count: "same_open d d' \<Longrightarrow> open_count n d \<Longrightarrow> open_count n d'"
  by (simp add: same_open_def open_count_def)

lemma activate_count [simp]: "open_count n (activate d) = open_count n d"
  by (simp add: open_count_def activate_def)

lemma activate_flag: "dev_flag (activate d) AND RT_DEVICE_FLAG_ACTIVATED \<noteq> 0"
proof -
  have "bit ((dev_flag d OR RT_DEVICE_FLAG_ACTIVATED) AND RT_DEVICE_FLAG_ACTIVATED) 4"
    by (simp add: RT_DEVICE_FLAG_ACTIVATED_def bit_simps)
  then show ?thesis by (auto simp: activate_def)
qed

lemma opened_codes [simp]: "opened 0" "opened RT_EOK" "\<not> opened (- RT_ERROR)" "\<not> opened (- RT_EBUSY)"
  by (simp_all add: opened_def err_defs RT_EBUSY_def RT_ENOSYS_def)

lemma open_flag_set: "(x OR RT_DEVICE_OFLAG_OPEN) AND RT_DEVICE_OFLAG_OPEN \<noteq> 0"
proof -
  have "bit ((x OR RT_DEVICE_OFLAG_OPEN) AND RT_DEVICE_OFLAG_OPEN) 3" by (simp add: RT_DEVICE_OFLAG_OPEN_def bit_simps)
  then show ?thesis by auto
qed

text \<open>
  What the layer relies on in a driver, with an invariant of the driver that may speak about the flags: its routines
  do not fault, leave the count alone, and the open flag unless they open the device; the initialisation does not fail
  with the error that means open, and the close does not fail.
\<close>

locale device_driver =
  fixes drv :: "'d driver"
    and P :: "device \<Rightarrow> 'd \<Rightarrow> bool"
  assumes init_ok: "drv_init drv = Some f \<Longrightarrow> P d s \<Longrightarrow> dev_flag d AND RT_DEVICE_FLAG_ACTIVATED = 0 \<Longrightarrow>
      \<exists>r d' s'. f (d, s) = Inr (r, d', s') \<and> same_open d d' \<and> r \<noteq> - RT_ENOSYS \<and> P d' s'"
    and open_ok: "drv_open drv = Some g \<Longrightarrow> P d s \<Longrightarrow> dev_flag d AND RT_DEVICE_FLAG_ACTIVATED \<noteq> 0 \<Longrightarrow>
      \<exists>r d' s'. g oflag (d, s) = Inr (r, d', s') \<and> (if opened r then ref_count d' = ref_count d else same_open d d') \<and> P d' s'"
    and close_ok: "drv_close drv = Some f \<Longrightarrow> P d s \<Longrightarrow>
      \<exists>r d' s'. f (d, s) = Inr (r, d', s') \<and> ref_count d' = ref_count d \<and> opened r \<and> P d' s'"
    and layer_ok: "P d s \<Longrightarrow> P (d\<lparr>ref_count := n\<rparr>) s" "P d s \<Longrightarrow> P (activate d) s"
      "P d s \<Longrightarrow> P (d\<lparr>open_flag := open_flag d OR RT_DEVICE_OFLAG_OPEN\<rparr>) s" "P d s \<Longrightarrow> P (d\<lparr>open_flag := RT_DEVICE_OFLAG_CLOSE\<rparr>) s"
      "drv_open drv = None \<Longrightarrow> P d s \<Longrightarrow> P (d\<lparr>open_flag := oflag AND RT_DEVICE_OFLAG_MASK\<rparr>) s"
begin

lemma open_activated_count:
  assumes p: "P d s" "dev_flag d AND RT_DEVICE_FLAG_ACTIVATED \<noteq> 0" and n: "open_count n d" "n < 255"
  shows "\<exists>r d' s'. open_activated drv oflag (d, s) = Inr (r, d', s') \<and> open_count (if opened r then Suc n else n) d' \<and> P d' s'"
proof (cases "dev_flag d AND RT_DEVICE_FLAG_STANDALONE \<noteq> 0 \<and> open_flag d AND RT_DEVICE_OFLAG_OPEN \<noteq> 0")
  case True
  then show ?thesis using n p by (simp add: open_activated_def)
next
  case False
  let ?open = "case drv_open drv of Some f \<Rightarrow> f oflag (d, s)
      | None \<Rightarrow> Inr (RT_EOK, d\<lparr>open_flag := oflag AND RT_DEVICE_OFLAG_MASK\<rparr>, s)"
  have "\<exists>r d' s'. ?open = Inr (r, d', s') \<and> (if opened r then ref_count d' = ref_count d else same_open d d') \<and> P d' s'"
  proof (cases "drv_open drv")
    case None
    then show ?thesis using layer_ok(5) [OF None p(1)] by simp
  next
    case (Some g)
    then show ?thesis using open_ok [OF Some p, of oflag] by simp
  qed
  then obtain r d1 s1 where f: "?open = Inr (r, d1, s1)" and c: "if opened r then ref_count d1 = ref_count d else same_open d d1"
    and p1: "P d1 s1" by blast
  have u: "unat (ref_count d + 1) = Suc n" using n by (simp add: open_count_def unat_word_ariths)
  then have nz: "ref_count d + 1 \<noteq> 0" by (metis nat.distinct(1) unat_0)
  show ?thesis
  proof (cases "opened r")
    case True
    have "P (d1\<lparr>open_flag := open_flag d1 OR RT_DEVICE_OFLAG_OPEN, ref_count := ref_count d + 1\<rparr>) s1"
      using layer_ok(1) [OF layer_ok(3) [OF p1]] by simp
    then show ?thesis using True c u nz open_flag_set [of "open_flag d1"]
      unfolding open_activated_def fst_conv snd_conv f if_not_P [OF False] by (simp add: open_count_def opened_def)
  next
    case nr: False
    then show ?thesis using c same_open_count [OF _ n(1)] p1
      unfolding open_activated_def fst_conv snd_conv f if_not_P [OF False] by (simp add: opened_def)
  qed
qed

lemma open_device_count:
  assumes p: "P d s" and n: "open_count n d" "n < 255"
  shows "\<exists>r d' s'. open_device drv oflag (d, s) = Inr (r, d', s') \<and> open_count (if opened r then Suc n else n) d' \<and> P d' s'"
proof (cases "dev_flag d AND RT_DEVICE_FLAG_ACTIVATED = 0")
  case True
  let ?init = "case drv_init drv of None \<Rightarrow> Inr (RT_EOK, d, s) | Some f \<Rightarrow> f (d, s)"
  have "\<exists>r d' s'. ?init = Inr (r, d', s') \<and> same_open d d' \<and> r \<noteq> - RT_ENOSYS \<and> P d' s'"
  proof (cases "drv_init drv")
    case None
    then show ?thesis using p by (simp add: err_defs RT_ENOSYS_def)
  next
    case (Some g)
    then show ?thesis using init_ok [OF Some p True] by simp
  qed
  then obtain r d1 s1 where f: "?init = Inr (r, d1, s1)" "same_open d d1" "r \<noteq> - RT_ENOSYS" "P d1 s1" by blast
  then have c: "open_count n d1" "opened r \<longleftrightarrow> r = RT_EOK" using same_open_count n(1) by (auto simp: opened_def)
  show ?thesis
  proof (cases "r = RT_EOK")
    case ok: True
    then have "open_device drv oflag (d, s) = open_activated drv oflag (activate d1, s1)"
      using True f(1) by (simp add: open_device_def)
    then show ?thesis
      using open_activated_count [OF layer_ok(2) [OF f(4)] _ _ n(2), of oflag] c by (simp add: activate_flag)
  next
    case False
    then show ?thesis using True f c by (simp add: open_device_def)
  qed
next
  case False
  then show ?thesis using open_activated_count [OF p _ n] by (simp add: open_device_def)
qed

lemma close_device_count:
  assumes p: "P d s" and n: "open_count n d"
  shows "\<exists>r d' s'. close_device drv (d, s) = Inr (r, d', s') \<and> open_count (n - 1) d' \<and> P d' s'"
proof (cases "ref_count d = 0")
  case True
  then show ?thesis using n p by (auto simp: close_device_def open_count_def)
next
  case False
  let ?d = "d\<lparr>ref_count := ref_count d - 1\<rparr>"
  have u: "unat (ref_count d - 1) = n - 1" "n \<noteq> 0"
    using n False by (auto simp: open_count_def unat_minus_one unat_eq_0)
  have p1: "P ?d s" using layer_ok(1) [OF p] .
  show ?thesis
  proof (cases "ref_count d - 1 = 0")
    case True
    have n1: "n - 1 = 0" using u(1) True by simp
    let ?close = "case drv_close drv of None \<Rightarrow> Inr (RT_EOK, ?d, s) | Some f \<Rightarrow> f (?d, s)"
    have "\<exists>r d' s'. ?close = Inr (r, d', s') \<and> ref_count d' = 0 \<and> opened r \<and> P d' s'"
    proof (cases "drv_close drv")
      case None
      then show ?thesis using True p1 by simp
    next
      case (Some g)
      then show ?thesis using True close_ok [OF Some p1] by auto
    qed
    then obtain r d1 s1 where f: "?close = Inr (r, d1, s1)" "ref_count d1 = 0" "opened r" "P d1 s1" by blast
    show ?thesis using False True n1 f(2,3) layer_ok(4) [OF f(4)] unfolding close_device_def prod.case Let_def f(1)
      by (simp add: opened_def open_count_def RT_DEVICE_OFLAG_CLOSE_def)
  next
    case nz: False
    then have "n - 1 \<noteq> 0" using u(1) by (metis unat_eq_0)
    then show ?thesis using False nz n u p1 by (simp add: close_device_def open_count_def)
  qed
qed

lemma device_step_count:
  assumes p: "P (devices t i) s" and n: "open_count n (devices t i)" "is_device i t" "n < 255"
  shows "\<exists>n' t' s'. device_step drv i c (n, t, s) = Inr (n', t', s') \<and> open_count n' (devices t' i) \<and> is_device i t' \<and> n' \<le> Suc n \<and>
    P (devices t' i) s'"
proof (cases c)
  case (Open oflag)
  obtain r d' s' where "open_device drv oflag (devices t i, s) = Inr (r, d', s')"
    "open_count (if opened r then Suc n else n) d'" "P d' s'" using open_device_count [OF p n(1,3)] by blast
  then show ?thesis using n(2) by (simp add: device_step_def Open rt_device_open_def with_device_def is_device_def)
next
  case Close
  obtain r d' s' where "close_device drv (devices t i, s) = Inr (r, d', s')" "open_count (n - 1) d'" "P d' s'"
    using close_device_count [OF p n(1)] by blast
  then show ?thesis using n(2) by (simp add: device_step_def Close rt_device_close_def with_device_def is_device_def)
qed

lemma device_run_count:
  "P (devices t i) s \<Longrightarrow> open_count n (devices t i) \<Longrightarrow> is_device i t \<Longrightarrow> n + length cs < 256 \<Longrightarrow>
    \<exists>n' t' s'. run_err (device_step drv i) (n, t, s) cs = Inr (n', t', s') \<and> open_count n' (devices t' i) \<and> is_device i t' \<and>
      P (devices t' i) s'"
proof (induction cs arbitrary: n t s)
  case (Cons c cs)
  then obtain n1 t1 s1 where 1: "device_step drv i c (n, t, s) = Inr (n1, t1, s1)" "open_count n1 (devices t1 i)"
    "is_device i t1" "n1 \<le> Suc n" "P (devices t1 i) s1" using device_step_count [OF Cons.prems(1), of n c] by auto
  then show ?case using Cons.IH [OF 1(5,2,3)] Cons.prems(4) by simp
qed auto

end

text \<open>A device whose count is 0 answers reads with an error.\<close>

lemma read_closed: "is_device i t \<Longrightarrow> ref_count (devices t i) = 0 \<Longrightarrow> rt_device_read drv i pos len (t, s) = Inr (([], Some (- RT_ERROR)), t, s)"
  by (simp add: rt_device_read_def with_device_def)

definition one_device :: device_table where
  "one_device = no_devices\<lparr>registered := link_object RT_Object_Class_Device 1
     \<lparr>obj_name = [], obj_type = RT_Object_Class_Device OR RT_Object_Class_Static, obj_flag = 0\<rparr> (registered no_devices)\<rparr>"

lemma one_device_is: "is_device 1 one_device"
  by (simp add: one_device_def is_device_def device_type link_object_def)

text \<open>The 256th open of a device wraps the count to 0, which the assertion stops.\<close>

theorem device_open_overflow:
  assumes "open_count 255 d" "drv_open drv = None" "dev_flag d AND RT_DEVICE_FLAG_ACTIVATED \<noteq> 0" "dev_flag d AND RT_DEVICE_FLAG_STANDALONE = 0"
  shows "open_device drv oflag (d, s) = Inl AssertFailed"
proof -
  have "ref_count d = 255" using assms(1) by (simp add: open_count_def word_unat_eq_iff)
  then show ?thesis using assms(2-4) by (simp add: open_device_def open_activated_def)
qed

text \<open>
  When the close of the driver of a stand-alone device fails with an error, the device is lost: the count is 0 while
  the open flag stays, so every later open answers that it is busy, and every later close that it is not open.
\<close>

theorem close_failure:
  assumes "is_device i t" "dev_flag (devices t i) AND RT_DEVICE_FLAG_STANDALONE \<noteq> 0" "dev_flag (devices t i) AND RT_DEVICE_FLAG_ACTIVATED \<noteq> 0"
    and "open_flag (devices t i) AND RT_DEVICE_OFLAG_OPEN \<noteq> 0" "ref_count (devices t i) = 1"
    and "drv_close drv = Some f" "\<And>d. f (d, s) = Inr (e, d, s')" "\<not> opened e"
  shows "\<exists>t'. rt_device_close drv i (t, s) = Inr (e, t', s') \<and>
    rt_device_open drv i oflag (t', s') = Inr (- RT_EBUSY, t', s') \<and> rt_device_close drv i (t', s') = Inr (- RT_ERROR, t', s')"
proof -
  let ?t = "t\<lparr>devices := (devices t)(i := (devices t i)\<lparr>ref_count := 0\<rparr>)\<rparr>"
  have d: "is_device i ?t" using assms(1) by (simp add: is_device_def)
  have "rt_device_close drv i (t, s) = Inr (e, ?t, s')"
    using assms by (simp add: rt_device_close_def with_device_def close_device_def opened_def)
  moreover have "rt_device_open drv i oflag (?t, s') = Inr (- RT_EBUSY, ?t, s')"
    using d assms(2-4) by (simp add: rt_device_open_def with_device_def open_device_def open_activated_def)
  moreover have "rt_device_close drv i (?t, s') = Inr (- RT_ERROR, ?t, s')"
    using d by (simp add: rt_device_close_def with_device_def close_device_def)
  ultimately show ?thesis by blast
qed

definition failing_driver :: "unit driver" where
  "failing_driver = \<lparr>drv_init = None, drv_open = None, drv_close = Some (\<lambda>(d, s). Inr (- RT_ERROR, d, s)), drv_read = None,
     drv_write = None, drv_control = None\<rparr>"

theorem close_failure_witness:
  "\<exists>t'. rt_device_close failing_driver 1 (one_device\<lparr>devices := (devices one_device)(1 :=
      \<lparr>dev_class = 0, dev_flag = 0x18, open_flag = 8, ref_count = 1, rx_indicate = None, tx_complete = None\<rparr>)\<rparr>, ()) = Inr (- RT_ERROR, t', ())"
  (is "\<exists>t'. rt_device_close _ 1 (?t, ()) = _")
proof -
  have "is_device 1 ?t" using one_device_is by (simp add: is_device_def)
  from close_failure [OF this, of failing_driver "\<lambda>(d, s). Inr (- RT_ERROR, d, s)" "()" "- RT_ERROR" "()"] show ?thesis
    by (auto simp: device_flags failing_driver_def)
qed

end
