(* ===== verification/Serial.thy ===== *)
theory Serial
  imports Device "HOL-Library.Sublist"
begin

text \<open>
  The serial framework (\<open>components/drivers/serial/serial.c\<close>, as configured: no DMA, no POSIX terminal) as a driver of the
  device layer, and the UART driver under it (\<open>drv_usart.c\<close>) on the registers of the peripheral. The framework calls the
  function pointers of \<open>rt_uart_ops\<close>, which act on a state \<open>'w\<close>. Lengths are below \<open>2 ^ 31\<close>, where the \<open>int\<close> of
  the code does not overflow.
\<close>

section \<open>The framework\<close>

definition RT_EIO :: int where "RT_EIO = 8"
definition RT_DEVICE_FLAG_SUSPENDED :: u16 where "RT_DEVICE_FLAG_SUSPENDED = 0x020"
definition RT_DEVICE_FLAG_STREAM :: u16 where "RT_DEVICE_FLAG_STREAM = 0x040"
definition RT_DEVICE_FLAG_INT_RX :: u16 where "RT_DEVICE_FLAG_INT_RX = 0x100"
definition RT_DEVICE_FLAG_DMA_RX :: u16 where "RT_DEVICE_FLAG_DMA_RX = 0x200"
definition RT_DEVICE_FLAG_INT_TX :: u16 where "RT_DEVICE_FLAG_INT_TX = 0x400"
definition RT_DEVICE_FLAG_DMA_TX :: u16 where "RT_DEVICE_FLAG_DMA_TX = 0x800"
definition RT_DEVICE_CTRL_RESUME :: int where "RT_DEVICE_CTRL_RESUME = 1"
definition RT_DEVICE_CTRL_SUSPEND :: int where "RT_DEVICE_CTRL_SUSPEND = 2"
definition RT_DEVICE_CTRL_CONFIG :: int where "RT_DEVICE_CTRL_CONFIG = 3"
definition RT_DEVICE_CTRL_CLOSE :: int where "RT_DEVICE_CTRL_CLOSE = 4"
definition RT_DEVICE_CTRL_SET_INT :: int where "RT_DEVICE_CTRL_SET_INT = 0x10"
definition RT_DEVICE_CTRL_CLR_INT :: int where "RT_DEVICE_CTRL_CLR_INT = 0x11"

lemmas serial_flags = device_flags RT_DEVICE_FLAG_SUSPENDED_def RT_DEVICE_FLAG_STREAM_def RT_DEVICE_FLAG_INT_RX_def
  RT_DEVICE_FLAG_DMA_RX_def RT_DEVICE_FLAG_INT_TX_def RT_DEVICE_FLAG_DMA_TX_def

record serial_configure =
  baud_rate :: u32
  data_bits :: u8
  stop_bits :: u8
  parity :: u8
  bufsz :: u16

record rx_fifo =
  fifo_buffer :: "u8 list"
  put_index :: u16
  get_index :: u16
  is_full :: bool

text \<open>
  The routines of the UART, with the two services the framework calls: whether \<open>rt_malloc\<close> has a block of the size,
  and \<open>rt_completion_wait\<close> on the end of a transmission. The FIFO of the transmitter only holds that completion.
\<close>

record 'w uart_ops =
  uart_configure :: "(serial_configure \<Rightarrow> 'w \<Rightarrow> int \<times> 'w) option"
  uart_control :: "int \<Rightarrow> u32 \<Rightarrow> 'w \<Rightarrow> int \<times> 'w"
  uart_putc :: "u8 \<Rightarrow> 'w \<Rightarrow> fault + int \<times> 'w"
  uart_getc :: "'w \<Rightarrow> int \<times> 'w"
  malloc_ok :: "u32 \<Rightarrow> bool"
  completion_wait :: "'w \<Rightarrow> fault + 'w"

record 'w serial =
  config :: serial_configure
  serial_rx :: "rx_fifo option"
  serial_tx :: bool
  hw :: 'w

abbreviation on :: "u16 \<Rightarrow> u16 \<Rightarrow> bool" where
  "on flags f \<equiv> flags AND f \<noteq> 0"

definition control_hw :: "'w uart_ops \<Rightarrow> int \<Rightarrow> u32 \<Rightarrow> 'w serial \<Rightarrow> 'w serial" where
  "control_hw ops cmd arg s = s\<lparr>hw := snd (uart_control ops cmd arg (hw s))\<rparr>"

definition rt_serial_init :: "'w uart_ops \<Rightarrow> device \<times> 'w serial \<Rightarrow> fault + int \<times> device \<times> 'w serial" where
  "rt_serial_init ops = (\<lambda>(d, s).
     let s = s\<lparr>serial_rx := None, serial_tx := False\<rparr>
     in case uart_configure ops of None \<Rightarrow> Inr (RT_EOK, d, s)
        | Some f \<Rightarrow> (let (result, w) = f (config s) (hw s) in Inr (result, d, s\<lparr>hw := w\<rparr>)))"

definition new_fifo :: "u16 \<Rightarrow> rx_fifo" where
  "new_fifo n = \<lparr>fifo_buffer = replicate (unat n) 0, put_index = 0, get_index = 0, is_full = False\<rparr>"

definition open_rx :: "'w uart_ops \<Rightarrow> u16 \<Rightarrow> device \<times> 'w serial \<Rightarrow> fault + device \<times> 'w serial" where
  "open_rx ops oflag = (\<lambda>(d, s).
     let d' = d\<lparr>open_flag := open_flag d OR RT_DEVICE_FLAG_INT_RX\<rparr>
     in if serial_rx s = None then
          if on oflag RT_DEVICE_FLAG_INT_RX then
            if \<not> malloc_ok ops (12 + ucast (bufsz (config s))) then Inl AssertFailed
            else Inr (d', control_hw ops RT_DEVICE_CTRL_SET_INT (ucast RT_DEVICE_FLAG_INT_RX)
                            (s\<lparr>serial_rx := Some (new_fifo (bufsz (config s)))\<rparr>))
          else Inr (d, s\<lparr>serial_rx := None\<rparr>)
        else Inr (if on oflag RT_DEVICE_FLAG_INT_RX then d' else d, s))"

definition open_tx :: "'w uart_ops \<Rightarrow> u16 \<Rightarrow> device \<times> 'w serial \<Rightarrow> fault + device \<times> 'w serial" where
  "open_tx ops oflag = (\<lambda>(d, s).
     let d' = d\<lparr>open_flag := open_flag d OR RT_DEVICE_FLAG_INT_TX\<rparr>
     in if \<not> serial_tx s then
          if on oflag RT_DEVICE_FLAG_INT_TX then
            if \<not> malloc_ok ops 12 then Inl AssertFailed
            else Inr (d', control_hw ops RT_DEVICE_CTRL_SET_INT (ucast RT_DEVICE_FLAG_INT_TX) (s\<lparr>serial_tx := True\<rparr>))
          else Inr (d, s\<lparr>serial_tx := False\<rparr>)
        else Inr (if on oflag RT_DEVICE_FLAG_INT_TX then d' else d, s))"

definition rt_serial_open :: "'w uart_ops \<Rightarrow> u16 \<Rightarrow> device \<times> 'w serial \<Rightarrow> fault + int \<times> device \<times> 'w serial" where
  "rt_serial_open ops oflag = (\<lambda>(d, s).
     if on oflag RT_DEVICE_FLAG_DMA_RX \<and> \<not> on (dev_flag d) RT_DEVICE_FLAG_DMA_RX then Inr (- RT_EIO, d, s)
     else if on oflag RT_DEVICE_FLAG_DMA_TX \<and> \<not> on (dev_flag d) RT_DEVICE_FLAG_DMA_TX then Inr (- RT_EIO, d, s)
     else if on oflag RT_DEVICE_FLAG_INT_RX \<and> \<not> on (dev_flag d) RT_DEVICE_FLAG_INT_RX then Inr (- RT_EIO, d, s)
     else if on oflag RT_DEVICE_FLAG_INT_TX \<and> \<not> on (dev_flag d) RT_DEVICE_FLAG_INT_TX then Inr (- RT_EIO, d, s)
     else
       let stream_flag = (if on oflag RT_DEVICE_FLAG_STREAM \<or> on (open_flag d) RT_DEVICE_FLAG_STREAM then RT_DEVICE_FLAG_STREAM else 0);
           d = d\<lparr>open_flag := oflag AND 0xff\<rparr>
       in bind_err (open_rx ops oflag (d, s)) (\<lambda>ds.
          bind_err (open_tx ops oflag ds) (\<lambda>(d, s).
            Inr (RT_EOK, d\<lparr>open_flag := open_flag d OR stream_flag\<rparr>, s))))"

definition rt_serial_close :: "'w uart_ops \<Rightarrow> device \<times> 'w serial \<Rightarrow> fault + int \<times> device \<times> 'w serial" where
  "rt_serial_close ops = (\<lambda>(d, s).
     if ref_count d > 1 then Inr (RT_EOK, d, s)
     else
       bind_err
         (if on (open_flag d) RT_DEVICE_FLAG_INT_RX then
            let s = control_hw ops RT_DEVICE_CTRL_CLR_INT (ucast RT_DEVICE_FLAG_INT_RX) s;
                d = d\<lparr>open_flag := open_flag d AND NOT RT_DEVICE_FLAG_INT_RX\<rparr>
            in if serial_rx s = None then Inl AssertFailed else Inr (d, s\<lparr>serial_rx := None\<rparr>)
          else Inr (d, s)) (\<lambda>(d, s).
       bind_err
         (if on (open_flag d) RT_DEVICE_FLAG_INT_TX then
            let s = control_hw ops RT_DEVICE_CTRL_CLR_INT (ucast RT_DEVICE_FLAG_INT_TX) s;
                d = d\<lparr>open_flag := open_flag d AND NOT RT_DEVICE_FLAG_INT_TX\<rparr>
            in if \<not> serial_tx s then Inl AssertFailed else Inr (d, s\<lparr>serial_tx := False\<rparr>)
          else Inr (d, s)) (\<lambda>(d, s).
         Inr (RT_EOK, d\<lparr>dev_flag := dev_flag d AND NOT RT_DEVICE_FLAG_ACTIVATED\<rparr>, control_hw ops RT_DEVICE_CTRL_CLOSE 0 s))))"

text \<open>Reading: by polling, and from the FIFO. \<open>fifo_pop\<close> is the part of an iteration that runs with interrupts off.\<close>

fun serial_poll_rx :: "'w uart_ops \<Rightarrow> bool \<Rightarrow> nat \<Rightarrow> 'w \<Rightarrow> u8 list \<times> 'w" where
  "serial_poll_rx ops stream 0 w = ([], w)"
| "serial_poll_rx ops stream (Suc n) w =
     (let (ch, w) = uart_getc ops w
      in if ch = - 1 then ([], w)
         else if stream \<and> ch = 10 then ([word_of_int ch], w)
         else let (bs, w) = serial_poll_rx ops stream n w in (word_of_int ch # bs, w))"

definition fifo_pop :: "u16 \<Rightarrow> rx_fifo \<Rightarrow> fault + (u8 \<times> rx_fifo) option" where
  "fifo_pop n f =
     (if get_index f = put_index f \<and> \<not> is_full f then Inr None
      else if unat (get_index f) \<ge> length (fifo_buffer f) then Inl OutOfBounds
      else
        let ch = fifo_buffer f ! unat (get_index f);
            f = f\<lparr>get_index := get_index f + 1\<rparr>;
            f = (if get_index f \<ge> n then f\<lparr>get_index := 0\<rparr> else f);
            f = (if is_full f then f\<lparr>is_full := False\<rparr> else f)
        in Inr (Some (ch, f)))"

fun serial_int_rx :: "u16 \<Rightarrow> nat \<Rightarrow> rx_fifo \<Rightarrow> fault + u8 list \<times> rx_fifo" where
  "serial_int_rx n 0 f = Inr ([], f)"
| "serial_int_rx n (Suc len) f =
     bind_err (fifo_pop n f) (\<lambda>r.
       case r of None \<Rightarrow> Inr ([], f)
       | Some (ch, f) \<Rightarrow> bind_err (serial_int_rx n len f) (\<lambda>(bs, f). Inr (ch # bs, f)))"

definition rt_serial_read :: "'w uart_ops \<Rightarrow> int \<Rightarrow> u32 \<Rightarrow> device \<times> 'w serial \<Rightarrow> fault + u8 list \<times> device \<times> 'w serial" where
  "rt_serial_read ops pos len = (\<lambda>(d, s).
     if len = 0 then Inr ([], d, s)
     else if on (open_flag d) RT_DEVICE_FLAG_INT_RX then
       (case serial_rx s of None \<Rightarrow> Inl AssertFailed
        | Some f \<Rightarrow> bind_err (serial_int_rx (bufsz (config s)) (unat len) f) (\<lambda>(bs, f). Inr (bs, d, s\<lparr>serial_rx := Some f\<rparr>)))
     else let (bs, w) = serial_poll_rx ops (on (open_flag d) RT_DEVICE_FLAG_STREAM) (unat len) (hw s)
          in Inr (bs, d, s\<lparr>hw := w\<rparr>))"

text \<open>Writing: by polling, and waiting for the end of a transmission when the UART does not take the byte.\<close>

definition put_byte :: "'w uart_ops \<Rightarrow> u8 \<Rightarrow> 'w \<Rightarrow> fault + 'w" where
  "put_byte ops b w = bind_err (uart_putc ops b w) (\<lambda>(_, w). Inr w)"

fun serial_poll_tx :: "'w uart_ops \<Rightarrow> bool \<Rightarrow> u8 list \<Rightarrow> 'w \<Rightarrow> fault + 'w" where
  "serial_poll_tx ops stream [] w = Inr w"
| "serial_poll_tx ops stream (b # bs) w =
     bind_err (if b = 10 \<and> stream then put_byte ops 13 w else Inr w) (\<lambda>w.
     bind_err (put_byte ops b w) (\<lambda>w. serial_poll_tx ops stream bs w))"

partial_function (option) serial_int_tx :: "'w uart_ops \<Rightarrow> bool \<Rightarrow> u8 list \<Rightarrow> 'w \<Rightarrow> (fault + 'w) option" where
  "serial_int_tx ops stream bs w =
     (case bs of [] \<Rightarrow> Some (Inr w)
      | b # rest \<Rightarrow>
          (case (if b = 10 \<and> stream then uart_putc ops 13 w else Inr (0, w)) of
             Inl e \<Rightarrow> Some (Inl e)
           | Inr (r, w) \<Rightarrow>
               if b = 10 \<and> stream \<and> r = - 1 then
                 (case completion_wait ops w of Inl e \<Rightarrow> Some (Inl e) | Inr w \<Rightarrow> serial_int_tx ops stream bs w)
               else
                 (case uart_putc ops b w of
                    Inl e \<Rightarrow> Some (Inl e)
                  | Inr (r, w) \<Rightarrow>
                      if r = - 1 then
                        (case completion_wait ops w of Inl e \<Rightarrow> Some (Inl e) | Inr w \<Rightarrow> serial_int_tx ops stream bs w)
                      else serial_int_tx ops stream rest w)))"

definition returned :: "(fault + 'a) option \<Rightarrow> fault + 'a" where
  "returned r = (case r of None \<Rightarrow> Inl NoReturn | Some r \<Rightarrow> r)"

definition rt_serial_write :: "'w uart_ops \<Rightarrow> int \<Rightarrow> u8 list \<Rightarrow> device \<times> 'w serial \<Rightarrow> fault + u32 \<times> device \<times> 'w serial" where
  "rt_serial_write ops pos buffer = (\<lambda>(d, s).
     if buffer = [] then Inr (0, d, s)
     else
       let stream = on (open_flag d) RT_DEVICE_FLAG_STREAM
       in bind_err
            (if on (open_flag d) RT_DEVICE_FLAG_INT_TX then
               if \<not> serial_tx s then Inl AssertFailed else returned (serial_int_tx ops stream buffer (hw s))
             else serial_poll_tx ops stream buffer (hw s))
            (\<lambda>w. Inr (of_nat (length buffer), d, s\<lparr>hw := w\<rparr>)))"

text \<open>The argument of \<open>RT_DEVICE_CTRL_CONFIG\<close> is a pointer to a configuration or null; the others pass a word on.\<close>

definition rt_serial_config :: "'w uart_ops \<Rightarrow> serial_configure option \<Rightarrow> device \<times> 'w serial \<Rightarrow> fault + int \<times> device \<times> 'w serial" where
  "rt_serial_config ops arg = (\<lambda>(d, s).
     case arg of None \<Rightarrow> Inr (RT_EOK, d, s)
     | Some c \<Rightarrow>
         if bufsz c \<noteq> bufsz (config s) \<and> ref_count d \<noteq> 0 then Inr (RT_EBUSY, d, s)
         else if ref_count d = 0 then Inr (RT_EOK, d, s\<lparr>config := c\<rparr>)
         else (case uart_configure ops of None \<Rightarrow> Inl NullPointer
               | Some f \<Rightarrow> Inr (RT_EOK, d, s\<lparr>config := c, hw := snd (f c (hw s))\<rparr>)))"

definition rt_serial_control :: "'w uart_ops \<Rightarrow> (u32 \<Rightarrow> serial_configure option) \<Rightarrow> int \<Rightarrow> u32 \<Rightarrow> device \<times> 'w serial \<Rightarrow> fault + int \<times> device \<times> 'w serial" where
  "rt_serial_control ops at_addr cmd arg = (\<lambda>(d, s).
     if cmd = RT_DEVICE_CTRL_SUSPEND then Inr (RT_EOK, d\<lparr>dev_flag := dev_flag d OR RT_DEVICE_FLAG_SUSPENDED\<rparr>, s)
     else if cmd = RT_DEVICE_CTRL_RESUME then Inr (RT_EOK, d\<lparr>dev_flag := dev_flag d AND NOT RT_DEVICE_FLAG_SUSPENDED\<rparr>, s)
     else if cmd = RT_DEVICE_CTRL_CONFIG then rt_serial_config ops (at_addr arg) (d, s)
     else (let (ret, w) = uart_control ops cmd arg (hw s) in Inr (ret, d, s\<lparr>hw := w\<rparr>)))"

definition serial_driver :: "'w uart_ops \<Rightarrow> (u32 \<Rightarrow> serial_configure option) \<Rightarrow> 'w serial driver" where
  "serial_driver ops at_addr = \<lparr>drv_init = Some (rt_serial_init ops), drv_open = Some (rt_serial_open ops),
     drv_close = Some (rt_serial_close ops), drv_read = Some (rt_serial_read ops), drv_write = Some (rt_serial_write ops),
     drv_control = Some (rt_serial_control ops at_addr)\<rparr>"

definition rt_hw_serial_register :: "nat \<Rightarrow> u8 list \<Rightarrow> u32 \<Rightarrow> kernel \<Rightarrow> device_table \<Rightarrow> fault + int \<times> device_table" where
  "rt_hw_serial_register i name flag k t =
     rt_device_register (Some i) name (ucast flag) k
       (t\<lparr>devices := (devices t)(i := (devices t i)\<lparr>dev_class := 0, rx_indicate := None, tx_complete := None\<rparr>)\<rparr>)"

text \<open>
  The interrupt: \<open>fifo_push\<close> is the part that stores a character. The callback and the length it is called with are
  the first component of the result.
\<close>

definition fifo_push :: "u16 \<Rightarrow> u8 \<Rightarrow> rx_fifo \<Rightarrow> fault + rx_fifo" where
  "fifo_push n ch f =
     (if unat (put_index f) \<ge> length (fifo_buffer f) then Inl OutOfBounds
      else
        let f = f\<lparr>fifo_buffer := (fifo_buffer f)[unat (put_index f) := ch]\<rparr>;
            f = f\<lparr>put_index := put_index f + 1\<rparr>;
            f = (if put_index f \<ge> n then f\<lparr>put_index := 0\<rparr> else f)
        in Inr (if put_index f = get_index f then
             let f = f\<lparr>get_index := get_index f + 1, is_full := True\<rparr>
             in if get_index f \<ge> n then f\<lparr>get_index := 0\<rparr> else f
           else f))"

partial_function (option) rx_ind_loop :: "'w uart_ops \<Rightarrow> u16 \<Rightarrow> rx_fifo \<Rightarrow> 'w \<Rightarrow> (fault + rx_fifo \<times> 'w) option" where
  "rx_ind_loop ops n f w =
     (let (ch, w) = uart_getc ops w
      in if ch = - 1 then Some (Inr (f, w))
         else case fifo_push n (word_of_int ch) f of Inl e \<Rightarrow> Some (Inl e) | Inr f \<Rightarrow> rx_ind_loop ops n f w)"

definition rx_length :: "u16 \<Rightarrow> rx_fifo \<Rightarrow> int" where
  "rx_length n f = (if put_index f \<ge> get_index f then uint (put_index f) - uint (get_index f)
                    else uint n - (uint (get_index f) - uint (put_index f)))"

datatype serial_event = RT_SERIAL_EVENT_RX_IND | RT_SERIAL_EVENT_TX_DONE

definition rt_hw_serial_isr :: "'w uart_ops \<Rightarrow> serial_event \<Rightarrow> device \<times> 'w serial \<Rightarrow> fault + (nat \<times> int) option \<times> device \<times> 'w serial" where
  "rt_hw_serial_isr ops event = (\<lambda>(d, s).
     case event of
       RT_SERIAL_EVENT_RX_IND \<Rightarrow>
         (case serial_rx s of None \<Rightarrow> Inl AssertFailed
          | Some f \<Rightarrow>
              bind_err (returned (rx_ind_loop ops (bufsz (config s)) f (hw s))) (\<lambda>(f, w).
                let len = rx_length (bufsz (config s)) f
                in Inr (case rx_indicate d of None \<Rightarrow> None | Some cb \<Rightarrow> if len \<noteq> 0 then Some (cb, len) else None,
                        d, s\<lparr>serial_rx := Some f, hw := w\<rparr>)))
     | RT_SERIAL_EVENT_TX_DONE \<Rightarrow> if \<not> serial_tx s then Inl AssertFailed else Inr (None, d, s))"

section \<open>The UART\<close>

text \<open>
  The registers of a USART as the reference manual has them: a received byte waits in \<open>RDR\<close> with \<open>RXNE\<close> set until it is
  read, and one that comes before is lost and sets \<open>ORE\<close>; a write to \<open>TDR\<close> sends a frame, at whose end \<open>TC\<close> is set.
  \<open>tc_in\<close> counts the looks at the flag until then, and is None when no frame is on the way; \<open>frame_time\<close> is that number
  for a frame, None for a transmitter that is off.
\<close>

record usart =
  RDR :: u32
  RXNE :: bool
  ORE :: bool
  RXNEIE :: bool
  irq_enabled :: bool
  tc_in :: "nat option"
  frame_time :: "nat option"
  sent :: "u8 list"

definition TC :: "usart \<Rightarrow> bool" where "TC w \<longleftrightarrow> tc_in w = Some 0"

definition clear_TC :: "usart \<Rightarrow> usart" where
  "clear_TC w = (if TC w then w\<lparr>tc_in := None\<rparr> else w)"

definition write_TDR :: "u8 \<Rightarrow> usart \<Rightarrow> usart" where
  "write_TDR c w = w\<lparr>sent := sent w @ [c], tc_in := frame_time w\<rparr>"

definition frame_passes :: "usart \<Rightarrow> usart" where
  "frame_passes w = w\<lparr>tc_in := map_option (\<lambda>n. n - 1) (tc_in w)\<rparr>"

definition byte_arrives :: "u8 \<Rightarrow> usart \<Rightarrow> usart" where
  "byte_arrives b w = (if RXNE w then w\<lparr>ORE := True\<rparr> else w\<lparr>RDR := ucast b, RXNE := True\<rparr>)"

text \<open>The routines of the driver. The set-up of the pins and of the clock is \<open>HAL\<close> code, whose answer is an argument.\<close>

record uart_init =
  BaudRate :: u32
  WordLength_9B :: bool
  StopBits_2 :: bool
  Parity :: u8

definition uart_settings :: "serial_configure \<Rightarrow> uart_init" where
  "uart_settings cfg = \<lparr>BaudRate = baud_rate cfg, WordLength_9B = (data_bits cfg = 9), StopBits_2 = (stop_bits cfg = 1),
     Parity = (if parity cfg = 1 then 1 else if parity cfg = 2 then 2 else 0)\<rparr>"

definition stm32_configure :: "(uart_init \<Rightarrow> usart \<Rightarrow> bool \<times> usart) \<Rightarrow> serial_configure \<Rightarrow> usart \<Rightarrow> int \<times> usart" where
  "stm32_configure hal_init cfg w =
     (let (ok, w) = hal_init (uart_settings cfg) w in (if \<not> ok then - RT_ERROR else RT_EOK, w))"

definition stm32_control :: "int \<Rightarrow> u32 \<Rightarrow> usart \<Rightarrow> int \<times> usart" where
  "stm32_control cmd arg w =
     (RT_EOK, if cmd = RT_DEVICE_CTRL_CLR_INT then w\<lparr>irq_enabled := False, RXNEIE := False\<rparr>
              else if cmd = RT_DEVICE_CTRL_SET_INT then w\<lparr>irq_enabled := True, RXNEIE := True\<rparr> else w)"

partial_function (option) wait_TC :: "usart \<Rightarrow> usart option" where
  "wait_TC w = (if TC w then Some w else wait_TC (frame_passes w))"

definition stm32_putc :: "u8 \<Rightarrow> usart \<Rightarrow> fault + int \<times> usart" where
  "stm32_putc c w =
     (case wait_TC (write_TDR c (clear_TC w)) of None \<Rightarrow> Inl NoReturn | Some w \<Rightarrow> Inr (1, w))"

definition stm32_getc :: "usart \<Rightarrow> int \<times> usart" where
  "stm32_getc w = (if RXNE w then (uint (RDR w AND 0xff), w\<lparr>RXNE := False\<rparr>) else (- 1, w))"

definition stm32_uart_ops :: "(uart_init \<Rightarrow> usart \<Rightarrow> bool \<times> usart) \<Rightarrow> (u32 \<Rightarrow> bool) \<Rightarrow> usart uart_ops" where
  "stm32_uart_ops hal_init mem = \<lparr>uart_configure = Some (stm32_configure hal_init), uart_control = stm32_control,
     uart_putc = stm32_putc, uart_getc = stm32_getc, malloc_ok = mem, completion_wait = \<lambda>_. Inl NoReturn\<rparr>"

text \<open>
  The interrupt. No transmission interrupt is enabled, so \<open>RT_SERIAL_EVENT_TX_DONE\<close> never comes and a wait for it would
  not end. The flags for noise, framing and parity are left out.
\<close>

definition uart_isr :: "usart uart_ops \<Rightarrow> device \<times> usart serial \<Rightarrow> fault + (nat \<times> int) option \<times> device \<times> usart serial" where
  "uart_isr ops = (\<lambda>(d, s).
     if RXNE (hw s) \<and> RXNEIE (hw s) then rt_hw_serial_isr ops RT_SERIAL_EVENT_RX_IND (d, s)
     else Inr (None, d, s\<lparr>hw := clear_TC ((hw s)\<lparr>ORE := False\<rparr>)\<rparr>))"

section \<open>The FIFO as a bounded queue\<close>

text \<open>
  The FIFO of \<open>n\<close> cells holds at most \<open>n - 1\<close> bytes: with the last one the indices meet, and the oldest byte is dropped.
  \<open>cells\<close> are the bytes from an index on.
\<close>

definition cells :: "u8 list \<Rightarrow> nat \<Rightarrow> nat \<Rightarrow> u8 list" where
  "cells b g k = map (\<lambda>i. b ! ((g + i) mod length b)) [0..<k]"

lemma length_cells [simp]: "length (cells b g k) = k" by (simp add: cells_def)

lemma cells_0 [simp]: "cells b g 0 = []" by (simp add: cells_def)

lemma cells_Cons: "cells b g (Suc k) = b ! (g mod length b) # cells b (Suc g) k"
  by (simp add: cells_def upt_conv_Cons map_Suc_upt [symmetric] comp_def del: upt_Suc)

lemma cells_snoc: "cells b g (Suc k) = cells b g k @ [b ! ((g + k) mod length b)]"
  by (simp add: cells_def)

lemma cells_mod: "cells b (g mod length b) k = cells b g k"
  by (simp add: cells_def mod_add_left_eq)

lemma mod_differs:
  fixes g i k N :: nat
  assumes "i < k" "k < N"
  shows "(g + i) mod N \<noteq> (g + k) mod N"
proof
  assume "(g + i) mod N = (g + k) mod N"
  then have "(k - i) mod N = 0" using assms(1) by (metis add_diff_cancel_left less_imp_le_nat mod_eq_dvd_iff_nat nat_add_left_cancel_le mod_0_imp_dvd dvd_imp_mod_0)
  then show False using assms by simp
qed

lemma cells_update:
  assumes "k < length b"
  shows "cells (b[(g + k) mod length b := c]) g k = cells b g k"
proof -
  have "b[(g + k) mod length b := c] ! ((g + i) mod length b) = b ! ((g + i) mod length b)" if "i < k" for i
    using mod_differs [OF that assms, of g] by simp
  then show ?thesis by (simp add: cells_def)
qed

definition fifo_holds :: "u16 \<Rightarrow> rx_fifo \<Rightarrow> u8 list \<Rightarrow> bool" where
  "fifo_holds n f q \<longleftrightarrow> length (fifo_buffer f) = unat n \<and> 2 \<le> unat n \<and> unat (get_index f) < unat n \<and> length q < unat n \<and>
     unat (put_index f) = (unat (get_index f) + length q) mod unat n \<and> q = cells (fifo_buffer f) (unat (get_index f)) (length q) \<and>
     (is_full f \<longrightarrow> q \<noteq> [])"

lemma wrap_next:
  fixes p n :: u16
  assumes "unat p < unat n"
  shows "unat (if p + 1 \<ge> n then 0 else p + 1) = (unat p + 1) mod unat n"
proof -
  have "unat n < 65536" using unsigned_less [of n, where ?'a = nat] by simp
  then have s: "unat (p + 1) = unat p + 1" using assms by (simp add: unat_word_ariths)
  show ?thesis
  proof (cases "p + 1 \<ge> n")
    case True
    then have "unat p + 1 = unat n" using assms s by (simp add: word_le_nat_alt)
    then show ?thesis using True by simp
  next
    case False
    then show ?thesis using s by (simp add: word_le_nat_alt)
  qed
qed

lemma new_fifo_holds: "2 \<le> unat n \<Longrightarrow> fifo_holds n (new_fifo n) []"
  by (simp add: fifo_holds_def new_fifo_def)

lemma fifo_pop_empty: "fifo_holds n f [] \<Longrightarrow> fifo_pop n f = Inr None"
  by (auto simp: fifo_holds_def fifo_pop_def word_unat_eq_iff)

lemma fifo_pop_some:
  assumes "fifo_holds n f (b # q)"
  shows "\<exists>f'. fifo_pop n f = Inr (Some (b, f')) \<and> fifo_holds n f' q"
proof -
  let ?g = "unat (get_index f)" and ?N = "unat n"
  have h: "length (fifo_buffer f) = ?N" "2 \<le> ?N" "?g < ?N" "Suc (length q) < ?N" "unat (put_index f) = (?g + Suc (length q)) mod ?N"
    "b # q = cells (fifo_buffer f) ?g (Suc (length q))" using assms by (simp_all add: fifo_holds_def)
  have q: "b = fifo_buffer f ! ?g" "q = cells (fifo_buffer f) (Suc ?g) (length q)" using h(1,3,6) by (simp_all add: cells_Cons)
  have "unat (put_index f) \<noteq> ?g" using mod_differs [OF _ h(4), of 0 ?g] h(3,5) by auto
  then have ne: "get_index f \<noteq> put_index f" by auto
  define f' where "f' = f\<lparr>get_index := (if get_index f + 1 \<ge> n then 0 else get_index f + 1), is_full := False\<rparr>"
  have gf': "get_index f' = (if get_index f + 1 \<ge> n then 0 else get_index f + 1)" by (simp add: f'_def)
  have g': "unat (get_index f') = (?g + 1) mod ?N" unfolding gf' by (rule wrap_next [OF h(3)])
  have buf': "fifo_buffer f' = fifo_buffer f" "put_index f' = put_index f" "\<not> is_full f'" by (simp_all add: f'_def)
  have "cells (fifo_buffer f') (unat (get_index f')) (length q) = q"
    using cells_mod [of "fifo_buffer f" "?g + 1" "length q"] q(2) h(1) by (simp add: g' buf')
  then have "fifo_holds n f' q"
    using h(1-5) by (simp add: fifo_holds_def g' buf' mod_Suc_eq mod_add_left_eq)
  moreover have "fifo_pop n f = Inr (Some (b, f'))"
    using ne h(1,3) q(1) by (simp add: fifo_pop_def Let_def f'_def)
  ultimately show ?thesis by blast
qed

definition push_drop :: "nat \<Rightarrow> 'a list \<Rightarrow> 'a \<Rightarrow> 'a list" where
  "push_drop m q b = (if length q < m then q @ [b] else tl (q @ [b]))"

lemma fifo_push_holds:
  assumes "fifo_holds n f q"
  shows "\<exists>f'. fifo_push n b f = Inr f' \<and> fifo_holds n f' (push_drop (unat n - 1) q b)"
proof -
  let ?g = "unat (get_index f)" and ?N = "unat n" and ?k = "length q" and ?p = "unat (put_index f)"
  let ?b = "(fifo_buffer f)[?p := b]"
  have h: "length (fifo_buffer f) = ?N" "2 \<le> ?N" "?g < ?N" "?k < ?N" "?p = (?g + ?k) mod ?N" "cells (fifo_buffer f) ?g ?k = q"
    using assms by (simp_all add: fifo_holds_def)
  have p: "?p < ?N" using h(2,5) by simp
  have c: "cells ?b ?g (Suc ?k) = q @ [b]"
    using cells_update [of ?k "fifo_buffer f" ?g b] h p by (simp add: cells_snoc)
  define p' where "p' = (if put_index f + 1 \<ge> n then 0 else put_index f + 1)"
  have p': "unat p' = (?g + Suc ?k) mod ?N" unfolding p'_def wrap_next [OF p] h(5) by (simp add: mod_Suc_eq)
  show ?thesis
  proof (cases "Suc ?k < ?N")
    case True
    have "unat p' \<noteq> ?g" using mod_differs [OF _ True, of 0 ?g] h(3) p' by auto
    then have ne: "p' \<noteq> get_index f" by auto
    let ?f = "f\<lparr>fifo_buffer := ?b, put_index := p'\<rparr>"
    have "fifo_push n b f = Inr ?f" using p h(1) ne by (simp add: fifo_push_def Let_def p'_def split: if_splits)
    moreover have "fifo_holds n ?f (q @ [b])" using h c p' True by (simp add: fifo_holds_def)
    moreover have "?k < ?N - 1" using True by simp
    ultimately show ?thesis by (simp add: push_drop_def)
  next
    case False
    then have k: "Suc ?k = ?N" using h(4) by simp
    have "unat p' = ?g" using p' k h(3) by simp
    then have eq: "p' = get_index f" by (simp only: word_unat_eq_iff)
    define g' where "g' = (if get_index f + 1 \<ge> n then 0 else get_index f + 1)"
    have g': "unat g' = (?g + 1) mod ?N" unfolding g'_def by (rule wrap_next [OF h(3)])
    let ?f = "f\<lparr>fifo_buffer := ?b, put_index := p', get_index := g', is_full := True\<rparr>"
    have "fifo_push n b f = Inr ?f"
      using p h(1) eq by (simp add: fifo_push_def Let_def p'_def g'_def split: if_splits)
    moreover have "fifo_holds n ?f (tl (q @ [b]))"
    proof -
      have "cells ?b (Suc ?g) ?k = tl (q @ [b])" using c by (metis cells_Cons list.sel(3))
      then have "cells ?b (unat g') ?k = tl (q @ [b])" using cells_mod [of ?b "?g + 1" ?k] h(1) by (simp add: g')
      moreover have "unat p' = (unat g' + ?k) mod ?N" using p' by (simp add: g' mod_add_left_eq)
      moreover have "tl (q @ [b]) \<noteq> []" using k h(2) by (cases q) auto
      moreover have "length (tl (q @ [b])) = ?k" by simp
      ultimately show ?thesis using h g' unfolding fifo_holds_def by (simp del: tl_append2 length_tl)
    qed
    moreover have "\<not> ?k < ?N - 1" using k by simp
    ultimately show ?thesis by (simp add: push_drop_def del: tl_append2)
  qed
qed

lemma serial_int_rx_takes:
  "fifo_holds n f q \<Longrightarrow> \<exists>f'. serial_int_rx n len f = Inr (take len q, f') \<and> fifo_holds n f' (drop len q)"
proof (induction len arbitrary: f q)
  case (Suc len)
  show ?case
  proof (cases q)
    case Nil
    then show ?thesis using Suc.prems fifo_pop_empty by auto
  next
    case (Cons b bs)
    then obtain f1 where 1: "fifo_pop n f = Inr (Some (b, f1))" "fifo_holds n f1 bs" using fifo_pop_some Suc.prems by blast
    obtain f2 where "serial_int_rx n len f1 = Inr (take len bs, f2)" "fifo_holds n f2 (drop len bs)" using Suc.IH [OF 1(2)] by blast
    then show ?thesis using 1(1) Cons by simp
  qed
qed auto

section \<open>Receiving\<close>

text \<open>The loop of the interrupt, on the UART: one byte, and the next look finds none.\<close>

lemma isr_takes_byte:
  assumes "RXNE w" "fifo_holds n f q"
  shows "\<exists>f'. rx_ind_loop (stm32_uart_ops hal mem) n f w = Some (Inr (f', w\<lparr>RXNE := False\<rparr>)) \<and>
    fifo_holds n f' (push_drop (unat n - 1) q (ucast (RDR w)))"
proof -
  have b: "word_of_int (uint (RDR w AND 0xff)) = (ucast (RDR w) :: u8)"
  proof -
    have ff: "(0xff :: u32) = mask 8" by (simp add: mask_eq_exp_minus_1)
    show ?thesis unfolding ff by (rule bit_word_eqI) (simp add: bit_simps)
  qed
  have ch: "uint (RDR w AND 0xff) \<noteq> - 1" by (metis uint_ge_0 neg_0_le_iff_le not_one_le_zero)
  obtain f' where f': "fifo_push n (ucast (RDR w)) f = Inr f'" "fifo_holds n f' (push_drop (unat n - 1) q (ucast (RDR w)))"
    using fifo_push_holds [OF assms(2)] by blast
  then show ?thesis
    using assms(1) ch b
    by (subst rx_ind_loop.simps, subst rx_ind_loop.simps) (simp add: stm32_uart_ops_def stm32_getc_def)
qed

text \<open>
  What happens on a serial line that is open for interrupt reception: a byte arrives, the interrupt runs, a thread
  reads. Reading is one iteration at a time for an interrupt to come between, or any number at once.
\<close>

datatype line_event = Arrive u8 | Interrupt | ReadBytes u32

definition line_step :: "usart uart_ops \<Rightarrow> line_event \<Rightarrow> u8 list \<times> device \<times> usart serial \<Rightarrow> fault + u8 list \<times> device \<times> usart serial" where
  "line_step ops e = (\<lambda>(got, d, s).
     case e of
       Arrive b \<Rightarrow> Inr (got, d, s\<lparr>hw := byte_arrives b (hw s)\<rparr>)
     | Interrupt \<Rightarrow> bind_err (uart_isr ops (d, s)) (\<lambda>(_, ds). Inr (got, ds))
     | ReadBytes len \<Rightarrow> bind_err (rt_serial_read ops 0 len (d, s)) (\<lambda>(bs, ds). Inr (got @ bs, ds)))"

text \<open>The specification: the bytes read, a queue of bounded length that drops its oldest byte, and the register.\<close>

record line_spec =
  delivered :: "u8 list"
  queued :: "u8 list"
  register :: "u8 option"

fun spec_step :: "nat \<Rightarrow> line_event \<Rightarrow> line_spec \<Rightarrow> line_spec option" where
  "spec_step m (Arrive b) a = Some (if register a = None then a\<lparr>register := Some b\<rparr> else a)"
| "spec_step m Interrupt a =
     Some (case register a of None \<Rightarrow> a | Some b \<Rightarrow> a\<lparr>queued := push_drop m (queued a) b, register := None\<rparr>)"
| "spec_step m (ReadBytes len) a =
     Some (a\<lparr>delivered := delivered a @ take (unat len) (queued a), queued := drop (unat len) (queued a)\<rparr>)"

definition line_view :: "u16 \<Rightarrow> u8 list \<times> device \<times> usart serial \<Rightarrow> line_spec \<Rightarrow> bool" where
  "line_view n st a \<longleftrightarrow> (case st of (got, d, s) \<Rightarrow>
     got = delivered a \<and> bufsz (config s) = n \<and> on (open_flag d) RT_DEVICE_FLAG_INT_RX \<and> RXNEIE (hw s) \<and>
     (\<exists>f. serial_rx s = Some f \<and> fifo_holds n f (queued a)) \<and>
     register a = (if RXNE (hw s) then Some (ucast (RDR (hw s))) else None))"

lemma rx_length_0:
  assumes h: "fifo_holds n f q"
  shows "rx_length n f = 0 \<longleftrightarrow> q = []"
proof -
  have lt: "unat (get_index f) < unat n" "length q < unat n" "unat (put_index f) = (unat (get_index f) + length q) mod unat n"
    using h by (simp_all add: fifo_holds_def)
  have "uint (get_index f) < uint n" using lt(1) by (simp add: word_less_nat_alt [symmetric] word_less_def)
  then have len: "rx_length n f = 0 \<longleftrightarrow> put_index f = get_index f"
    by (auto simp: rx_length_def word_le_def intro: word_uint_eqI)
  show ?thesis
  proof (cases "q = []")
    case True
    then have "unat (put_index f) = unat (get_index f)" using lt(1,3) by simp
    then have "put_index f = get_index f" by (rule word_unat_eq_iff [THEN iffD2])
    then show ?thesis using True len by blast
  next
    case False
    then have "(unat (get_index f) + 0) mod unat n \<noteq> (unat (get_index f) + length q) mod unat n"
      by (intro mod_differs lt(2)) simp
    then have "unat (put_index f) \<noteq> unat (get_index f)" unfolding lt(3) using lt(1) by simp
    then show ?thesis using False len by auto
  qed
qed

lemma push_drop_nonempty: "2 \<le> m \<Longrightarrow> push_drop (m - 1) q b \<noteq> []"
  by (cases q) (auto simp: push_drop_def)

text \<open>The interrupt and a read, with what they do to the specification, and the call of the callback.\<close>

lemma isr_view:
  assumes v: "line_view n (got, d, s) a"
  shows "\<exists>s'. uart_isr (stm32_uart_ops hal mem) (d, s) =
      Inr (if register a = None then None else map_option (\<lambda>cb. (cb, rx_length n (the (serial_rx s')))) (rx_indicate d), d, s') \<and>
    line_view n (got, d, s') (case register a of None \<Rightarrow> a
      | Some b \<Rightarrow> a\<lparr>queued := push_drop (unat n - 1) (queued a) b, register := None\<rparr>)"
proof -
  obtain f where f: "serial_rx s = Some f" "fifo_holds n f (queued a)" using v by (auto simp: line_view_def)
  have n: "bufsz (config s) = n" using v by (simp add: line_view_def)
  show ?thesis
  proof (cases "RXNE (hw s)")
    case True
    obtain f' where f': "rx_ind_loop (stm32_uart_ops hal mem) n f (hw s) = Some (Inr (f', (hw s)\<lparr>RXNE := False\<rparr>))"
      "fifo_holds n f' (push_drop (unat n - 1) (queued a) (ucast (RDR (hw s))))" using isr_takes_byte [OF True f(2)] by blast
    have "push_drop (unat n - 1) (queued a) (ucast (RDR (hw s))) \<noteq> []"
      using f(2) by (intro push_drop_nonempty) (simp add: fifo_holds_def)
    then have "rx_length n f' \<noteq> 0" using rx_length_0 [OF f'(2)] by simp
    then have "uart_isr (stm32_uart_ops hal mem) (d, s) =
        Inr (map_option (\<lambda>cb. (cb, rx_length n f')) (rx_indicate d), d, s\<lparr>serial_rx := Some f', hw := (hw s)\<lparr>RXNE := False\<rparr>\<rparr>)"
      using v True f(1) f'(1) n
      by (simp add: line_view_def uart_isr_def rt_hw_serial_isr_def returned_def Let_def split: option.splits)
    then show ?thesis using v True f'(2) by (auto simp: line_view_def)
  next
    case False
    then show ?thesis using v f(1) n by (auto simp: line_view_def uart_isr_def clear_TC_def)
  qed
qed

lemma read_view:
  assumes v: "line_view n (got, d, s) a"
  shows "\<exists>s'. rt_serial_read ops pos len (d, s) = Inr (take (unat len) (queued a), d, s') \<and>
    line_view n (got @ take (unat len) (queued a), d, s')
      (a\<lparr>delivered := delivered a @ take (unat len) (queued a), queued := drop (unat len) (queued a)\<rparr>)"
proof -
  obtain f where f: "serial_rx s = Some f" "fifo_holds n f (queued a)" using v by (auto simp: line_view_def)
  obtain f' where "serial_int_rx n (unat len) f = Inr (take (unat len) (queued a), f')" "fifo_holds n f' (drop (unat len) (queued a))"
    using serial_int_rx_takes [OF f(2)] by blast
  then show ?thesis using v f by (cases "len = 0") (auto simp: line_view_def rt_serial_read_def)
qed

interpretation line: simulation "line_step (stm32_uart_ops hal mem)" "spec_step (unat n - 1)" "line_view n" for hal mem n
proof
  fix st a e a'
  assume v: "line_view n st a" and sp: "spec_step (unat n - 1) e a = Some a'"
  obtain got d s where st: "st = (got, d, s)" by (cases st)
  show "\<exists>st'. line_step (stm32_uart_ops hal mem) e st = Inr st' \<and> line_view n st' a'"
  proof (cases e)
    case (Arrive b)
    have "(ucast (ucast b :: u32) :: u8) = b" by (rule bit_word_eqI) (simp add: bit_simps)
    then show ?thesis using v sp by (auto simp: line_view_def line_step_def st byte_arrives_def Arrive)
  next
    case Interrupt
    then show ?thesis using isr_view [OF v [unfolded st], of hal mem] sp
      by (cases "register a") (auto simp: line_step_def st)
  next
    case (ReadBytes len)
    then show ?thesis using read_view [OF v [unfolded st], of "stm32_uart_ops hal mem" 0 len] sp by (auto simp: line_step_def st)
  qed
qed

definition arrivals :: "line_event list \<Rightarrow> u8 list" where
  "arrivals es = concat (map (\<lambda>e. case e of Arrive b \<Rightarrow> [b] | _ \<Rightarrow> []) es)"

definition in_line :: "line_spec \<Rightarrow> u8 list" where
  "in_line a = delivered a @ queued a @ (case register a of None \<Rightarrow> [] | Some b \<Rightarrow> [b])"

text \<open>Nothing is lost by an event when the register is free for a byte that arrives, and the queue not full for the interrupt.\<close>

fun no_loss :: "nat \<Rightarrow> line_spec \<Rightarrow> line_event list \<Rightarrow> bool" where
  "no_loss m a [] = True"
| "no_loss m a (e # es) =
     ((case e of Arrive b \<Rightarrow> register a = None | Interrupt \<Rightarrow> register a = None \<or> length (queued a) < m | ReadBytes _ \<Rightarrow> True) \<and>
      no_loss m (the (spec_step m e a)) es)"

lemma subseq_tl_middle: "subseq (xs @ tl ys @ zs) (xs @ ys @ zs)"
  by (cases ys) (simp_all add: list_emb_Cons subseq_append')

lemma spec_run_subseq:
  "\<exists>a'. run_opt (spec_step m) a es = Some a' \<and> subseq (in_line a') (in_line a @ arrivals es) \<and>
     (no_loss m a es \<longrightarrow> in_line a' = in_line a @ arrivals es)"
proof (induction es arbitrary: a)
  case Nil
  then show ?case by (simp add: arrivals_def)
next
  case (Cons e es)
  obtain a1 where a1: "spec_step m e a = Some a1" by (cases e) auto
  have 1: "subseq (in_line a1) (in_line a @ arrivals [e])" and eq: "no_loss m a [e] \<longrightarrow> in_line a1 = in_line a @ arrivals [e]"
    using a1 subseq_tl_middle [of "delivered a" "queued a @ [b]" "[]" for b]
    by (cases e; cases "register a"; auto simp: in_line_def arrivals_def push_drop_def)+
  obtain a' where a': "run_opt (spec_step m) a1 es = Some a'" "subseq (in_line a') (in_line a1 @ arrivals es)"
    "no_loss m a1 es \<longrightarrow> in_line a' = in_line a1 @ arrivals es" using Cons.IH by blast
  have cat: "arrivals (e # es) = arrivals [e] @ arrivals es" by (simp add: arrivals_def)
  have "subseq (in_line a') (in_line a @ arrivals (e # es))"
    unfolding cat using subseq_order.order_trans [OF a'(2)] list_emb_append_mono [OF 1, of "arrivals es" "arrivals es"] by simp
  then show ?case using a'(1,3) eq a1 by (auto simp: cat)
qed

text \<open>
  C22. On a serial device open for interrupt reception, with an empty FIFO of at least 2 cells, the receive interrupt enabled
  and no byte in the register, any interleaving of arriving bytes, interrupts and reads runs without a fault; what was
  read and then what is in the FIFO is a part, in order, of what arrived; and the next read gives the first bytes
  of the FIFO, as many as asked for and there. With the byte in the register it is exactly what arrived, when no byte
  arrived before the interrupt had taken the one before it and no interrupt found the FIFO full (all cells but one).
\<close>

theorem serial_receives:
  assumes "bufsz (config s) = n" "2 \<le> unat n" "serial_rx s = Some (new_fifo n)" "on (open_flag d) RT_DEVICE_FLAG_INT_RX"
    "RXNEIE (hw s)" "\<not> RXNE (hw s)"
  shows "\<exists>got d' s' f q. run_err (line_step (stm32_uart_ops hal mem)) ([], d, s) es = Inr (got, d', s') \<and>
    serial_rx s' = Some f \<and> fifo_holds n f q \<and> subseq (got @ q) (arrivals es) \<and>
    (\<forall>len. \<exists>ds. rt_serial_read (stm32_uart_ops hal mem) 0 len (d', s') = Inr (take (unat len) q, ds)) \<and>
    (no_loss (unat n - 1) \<lparr>delivered = [], queued = [], register = None\<rparr> es \<longrightarrow>
      got @ q @ (if RXNE (hw s') then [ucast (RDR (hw s'))] else []) = arrivals es)"
proof -
  let ?a = "\<lparr>delivered = [], queued = [], register = None\<rparr>"
  have v: "line_view n ([], d, s) ?a" using assms new_fifo_holds by (auto simp: line_view_def)
  obtain a' where a': "run_opt (spec_step (unat n - 1)) ?a es = Some a'" "subseq (in_line a') (arrivals es)"
    "no_loss (unat n - 1) ?a es \<longrightarrow> in_line a' = arrivals es" using spec_run_subseq [of "unat n - 1" ?a es] by (auto simp: in_line_def)
  obtain got d' s' where run: "run_err (line_step (stm32_uart_ops hal mem)) ([], d, s) es = Inr (got, d', s')"
    and v': "line_view n (got, d', s') a'" using line.run_rel [OF v a'(1)] by (metis prod_cases3)
  then obtain f where f: "serial_rx s' = Some f" "fifo_holds n f (queued a')" by (auto simp: line_view_def)
  have got: "got = delivered a'" using v' by (simp add: line_view_def)
  have "subseq (got @ queued a') (in_line a')" using subseq_append' [of "delivered a' @ queued a'" "[]"] by (simp add: got in_line_def)
  then have "subseq (got @ queued a') (arrivals es)" using subseq_order.order_trans a'(2) by blast
  moreover have "\<forall>len. \<exists>ds. rt_serial_read (stm32_uart_ops hal mem) 0 len (d', s') = Inr (take (unat len) (queued a'), ds)"
    using read_view [OF v'] by blast
  moreover have "in_line a' = got @ queued a' @ (if RXNE (hw s') then [ucast (RDR (hw s'))] else [])"
    using v' by (simp add: line_view_def in_line_def)
  ultimately show ?thesis using run f a'(3) by metis
qed

text \<open>Two bytes, then a read.\<close>

definition quiet :: usart where
  "quiet = \<lparr>RDR = 0, RXNE = False, ORE = False, RXNEIE = True, irq_enabled = True, tc_in = None, frame_time = Some 3, sent = []\<rparr>"

definition demo_serial :: "usart serial" where
  "demo_serial = \<lparr>config = \<lparr>baud_rate = 115200, data_bits = 8, stop_bits = 0, parity = 0, bufsz = 64\<rparr>,
     serial_rx = Some (new_fifo 64), serial_tx = False, hw = quiet\<rparr>"

theorem serial_receives_witness:
  "\<exists>got d' s' f q. run_err (line_step (stm32_uart_ops (\<lambda>_ w. (True, w)) (\<lambda>_. True))) ([], \<lparr>dev_class = 0, dev_flag = 0x113,
      open_flag = 0x10b, ref_count = 1, rx_indicate = None, tx_complete = None\<rparr>, demo_serial)
      [Arrive 65, Interrupt, Arrive 66, Interrupt, ReadBytes 1] = Inr (got, d', s') \<and> serial_rx s' = Some f \<and> fifo_holds 64 f q \<and>
      got @ q @ (if RXNE (hw s') then [ucast (RDR (hw s'))] else []) = [65, 66]"
proof -
  let ?d = "\<lparr>dev_class = 0, dev_flag = 0x113, open_flag = 0x10b, ref_count = 1, rx_indicate = None, tx_complete = None\<rparr>"
  have "bufsz (config demo_serial) = 64" "2 \<le> unat (64 :: u16)" "serial_rx demo_serial = Some (new_fifo 64)"
    "on (open_flag ?d) RT_DEVICE_FLAG_INT_RX" "RXNEIE (hw demo_serial)" "\<not> RXNE (hw demo_serial)"
    by (simp_all add: demo_serial_def quiet_def RT_DEVICE_FLAG_INT_RX_def)
  moreover have "no_loss (unat (64 :: u16) - 1) \<lparr>delivered = [], queued = [], register = None\<rparr>
      [Arrive 65, Interrupt, Arrive 66, Interrupt, ReadBytes 1]" by (simp add: push_drop_def)
  ultimately show ?thesis
    using serial_receives [of demo_serial 64 ?d "\<lambda>_ w. (True, w)" "\<lambda>_. True" "[Arrive 65, Interrupt, Arrive 66, Interrupt, ReadBytes 1]"]
    by (fastforce simp: arrivals_def push_drop_def)
qed

section \<open>Opening and closing\<close>

text \<open>
  The invariant of the driver: with a flag for interrupts the device has what the interrupt needs, and without
  initialisation it has no such flag.
\<close>

definition serial_ok :: "device \<Rightarrow> 'w serial \<Rightarrow> bool" where
  "serial_ok d s \<longleftrightarrow>
     (on (open_flag d) RT_DEVICE_FLAG_INT_RX \<longrightarrow> serial_rx s \<noteq> None \<and> on (dev_flag d) RT_DEVICE_FLAG_ACTIVATED) \<and>
     (on (open_flag d) RT_DEVICE_FLAG_INT_TX \<longrightarrow> serial_tx s \<and> on (dev_flag d) RT_DEVICE_FLAG_ACTIVATED)"

text \<open>The masks of the flags, bit by bit.\<close>

lemma on_bits:
  "on x RT_DEVICE_FLAG_ACTIVATED \<longleftrightarrow> bit x 4" "on x RT_DEVICE_FLAG_STREAM \<longleftrightarrow> bit x 6" "on x RT_DEVICE_FLAG_INT_RX \<longleftrightarrow> bit x 8"
  "on x RT_DEVICE_FLAG_INT_TX \<longleftrightarrow> bit x 10" "on x RT_DEVICE_OFLAG_OPEN \<longleftrightarrow> bit x 3"
proof -
  have "on x (2 ^ k) \<longleftrightarrow> bit x k" for k
    by (metis and_exp_eq_0_iff_not_bit)
  from this [of 4] this [of 6] this [of 8] this [of 10] this [of 3] show
    "on x RT_DEVICE_FLAG_ACTIVATED \<longleftrightarrow> bit x 4" "on x RT_DEVICE_FLAG_STREAM \<longleftrightarrow> bit x 6" "on x RT_DEVICE_FLAG_INT_RX \<longleftrightarrow> bit x 8"
    "on x RT_DEVICE_FLAG_INT_TX \<longleftrightarrow> bit x 10" "on x RT_DEVICE_OFLAG_OPEN \<longleftrightarrow> bit x 3"
    by (simp_all add: serial_flags)
qed

lemma bit_low_byte: "bit (oflag AND 0xff :: u16) n \<longleftrightarrow> bit oflag n \<and> n < 8"
proof -
  have ff: "(0xff :: u16) = mask 8" by (simp add: mask_eq_exp_minus_1)
  show ?thesis unfolding ff by (auto simp: bit_simps)
qed

lemma flag_bits:
  "bit RT_DEVICE_FLAG_ACTIVATED n \<longleftrightarrow> n = 4" "bit RT_DEVICE_FLAG_STREAM n \<longleftrightarrow> n = 6" "bit RT_DEVICE_FLAG_INT_RX n \<longleftrightarrow> n = 8"
  "bit RT_DEVICE_FLAG_INT_TX n \<longleftrightarrow> n = 10" "bit RT_DEVICE_OFLAG_OPEN n \<longleftrightarrow> n = 3" "\<not> bit RT_DEVICE_OFLAG_CLOSE n"
proof -
  have "bit (2 ^ k :: u16) n \<longleftrightarrow> n = k" if "k < 16" for k using that by (auto simp: bit_exp_iff)
  from this [of 4] this [of 6] this [of 8] this [of 10] this [of 3] show
    "bit RT_DEVICE_FLAG_ACTIVATED n \<longleftrightarrow> n = 4" "bit RT_DEVICE_FLAG_STREAM n \<longleftrightarrow> n = 6" "bit RT_DEVICE_FLAG_INT_RX n \<longleftrightarrow> n = 8"
    "bit RT_DEVICE_FLAG_INT_TX n \<longleftrightarrow> n = 10" "bit RT_DEVICE_OFLAG_OPEN n \<longleftrightarrow> n = 3" "\<not> bit RT_DEVICE_OFLAG_CLOSE n"
    by (simp_all add: serial_flags)
qed

lemma open_rx_ok:
  assumes "malloc_ok ops = (\<lambda>_. True)"
  shows "\<exists>s'. open_rx ops oflag (d, s) =
      Inr (d\<lparr>open_flag := open_flag d OR (if bit oflag 8 then RT_DEVICE_FLAG_INT_RX else 0)\<rparr>, s') \<and>
    (bit oflag 8 \<longrightarrow> serial_rx s' \<noteq> None) \<and> serial_tx s' = serial_tx s"
proof (cases "bit oflag 8")
  case True
  then show ?thesis using assms by (cases "serial_rx s") (simp_all add: open_rx_def on_bits control_hw_def Let_def)
next
  case False
  then show ?thesis by (cases "serial_rx s") (simp_all add: open_rx_def on_bits Let_def)
qed

lemma open_tx_ok:
  assumes "malloc_ok ops = (\<lambda>_. True)"
  shows "\<exists>s'. open_tx ops oflag (d, s) =
      Inr (d\<lparr>open_flag := open_flag d OR (if bit oflag 10 then RT_DEVICE_FLAG_INT_TX else 0)\<rparr>, s') \<and>
    (bit oflag 10 \<longrightarrow> serial_tx s') \<and> serial_rx s' = serial_rx s"
proof (cases "bit oflag 10")
  case True
  then show ?thesis using assms by (cases "serial_tx s") (simp_all add: open_tx_def on_bits control_hw_def Let_def)
next
  case False
  then show ?thesis by (cases "serial_tx s") (simp_all add: open_tx_def on_bits Let_def)
qed

text \<open>An open that succeeds. The flags afterwards are those asked for, not those the device had.\<close>

definition opened_flags :: "u16 \<Rightarrow> u16 \<Rightarrow> u16" where
  "opened_flags oflag old =
     (((oflag AND 0xff) OR (if bit oflag 8 then RT_DEVICE_FLAG_INT_RX else 0)) OR (if bit oflag 10 then RT_DEVICE_FLAG_INT_TX else 0))
     OR (if bit oflag 6 \<or> bit old 6 then RT_DEVICE_FLAG_STREAM else 0)"

lemma opened_flags_bits:
  "bit (opened_flags oflag old) 8 \<longleftrightarrow> bit oflag 8" "bit (opened_flags oflag old) 10 \<longleftrightarrow> bit oflag 10"
  "bit (opened_flags oflag old) 3 \<longleftrightarrow> bit oflag 3"
  by (simp_all add: opened_flags_def bit_or_iff bit_low_byte flag_bits)

lemma serial_open_cases:
  assumes "malloc_ok ops = (\<lambda>_. True)"
  shows "rt_serial_open ops oflag (d, s) = Inr (- RT_EIO, d, s) \<or>
    (\<exists>s'. rt_serial_open ops oflag (d, s) = Inr (RT_EOK, d\<lparr>open_flag := opened_flags oflag (open_flag d)\<rparr>, s') \<and>
      (bit oflag 8 \<longrightarrow> serial_rx s' \<noteq> None) \<and> (bit oflag 10 \<longrightarrow> serial_tx s'))"
proof -
  let ?d = "d\<lparr>open_flag := oflag AND 0xff\<rparr>"
  obtain s1 where s1: "open_rx ops oflag (?d, s) =
      Inr (?d\<lparr>open_flag := open_flag ?d OR (if bit oflag 8 then RT_DEVICE_FLAG_INT_RX else 0)\<rparr>, s1)"
    "bit oflag 8 \<longrightarrow> serial_rx s1 \<noteq> None" using open_rx_ok [OF assms] by blast
  let ?d1 = "?d\<lparr>open_flag := open_flag ?d OR (if bit oflag 8 then RT_DEVICE_FLAG_INT_RX else 0)\<rparr>"
  obtain s2 where s2: "open_tx ops oflag (?d1, s1) =
      Inr (?d1\<lparr>open_flag := open_flag ?d1 OR (if bit oflag 10 then RT_DEVICE_FLAG_INT_TX else 0)\<rparr>, s2)"
    "bit oflag 10 \<longrightarrow> serial_tx s2" "serial_rx s2 = serial_rx s1" using open_tx_ok [OF assms] by blast
  show ?thesis
    using s1(2) s2(2,3) unfolding rt_serial_open_def prod.case Let_def s1(1) bind_err_simps s2(1)
    by (auto simp: opened_flags_def on_bits)
qed

lemma serial_close_ok:
  assumes "serial_ok d s"
  shows "\<exists>r d' s'. rt_serial_close ops (d, s) = Inr (r, d', s') \<and> ref_count d' = ref_count d \<and> r = RT_EOK \<and> serial_ok d' s'"
proof (cases "ref_count d > 1")
  case True
  then show ?thesis using assms by (simp add: rt_serial_close_def)
next
  case False
  have nz: "RT_DEVICE_FLAG_ACTIVATED \<noteq> 0" by (simp add: serial_flags)
  show ?thesis using assms False
    by (cases "bit (open_flag d) 8"; cases "bit (open_flag d) 10")
      (simp_all add: nz rt_serial_close_def serial_ok_def on_bits control_hw_def Let_def bit_and_iff bit_not_iff flag_bits)
qed

interpretation uart: device_driver "serial_driver (stm32_uart_ops hal (\<lambda>_. True)) at_addr" serial_ok for hal at_addr
proof
  fix d :: device and s :: "usart serial" and f g n oflag
  let ?ops = "stm32_uart_ops hal (\<lambda>_. True)" and ?drv = "serial_driver (stm32_uart_ops hal (\<lambda>_. True)) at_addr"
  assume p: "serial_ok d s"
  have "RT_DEVICE_FLAG_ACTIVATED \<noteq> 0" by (simp add: serial_flags)
  then show "serial_ok (d\<lparr>ref_count := n\<rparr>) s" "serial_ok (activate d) s" "serial_ok (d\<lparr>open_flag := open_flag d OR RT_DEVICE_OFLAG_OPEN\<rparr>) s"
    "serial_ok (d\<lparr>open_flag := RT_DEVICE_OFLAG_CLOSE\<rparr>) s"
    using p by (auto simp: serial_ok_def on_bits activate_def bit_or_iff flag_bits)
  show "drv_open ?drv = None \<Longrightarrow> serial_ok (d\<lparr>open_flag := oflag AND RT_DEVICE_OFLAG_MASK\<rparr>) s" by (simp add: serial_driver_def)
  show "\<exists>r d' s'. f (d, s) = Inr (r, d', s') \<and> same_open d d' \<and> r \<noteq> - RT_ENOSYS \<and> serial_ok d' s'"
    if "drv_init ?drv = Some f" "dev_flag d AND RT_DEVICE_FLAG_ACTIVATED = 0"
    using that p
    by (auto simp: serial_driver_def rt_serial_init_def stm32_uart_ops_def stm32_configure_def Let_def serial_ok_def err_defs RT_ENOSYS_def
        split: prod.splits)
  show "\<exists>r d' s'. f (d, s) = Inr (r, d', s') \<and> ref_count d' = ref_count d \<and> opened r \<and> serial_ok d' s'"
    if "drv_close ?drv = Some f" using that serial_close_ok [OF p, of ?ops] by (auto simp: serial_driver_def)
  show "\<exists>r d' s'. g oflag (d, s) = Inr (r, d', s') \<and> (if opened r then ref_count d' = ref_count d else same_open d d') \<and> serial_ok d' s'"
    if "drv_open ?drv = Some g" "dev_flag d AND RT_DEVICE_FLAG_ACTIVATED \<noteq> 0"
  proof -
    have g: "g = rt_serial_open ?ops" using that(1) by (simp add: serial_driver_def)
    have m: "malloc_ok ?ops = (\<lambda>_. True)" by (simp add: stm32_uart_ops_def)
    have e: "\<not> opened (- RT_EIO)" by (simp add: opened_def RT_EIO_def err_defs RT_ENOSYS_def)
    consider "rt_serial_open ?ops oflag (d, s) = Inr (- RT_EIO, d, s)"
      | s' where "rt_serial_open ?ops oflag (d, s) = Inr (RT_EOK, d\<lparr>open_flag := opened_flags oflag (open_flag d)\<rparr>, s')"
        "bit oflag 8 \<longrightarrow> serial_rx s' \<noteq> None" "bit oflag 10 \<longrightarrow> serial_tx s'"
      using serial_open_cases [OF m, of oflag d s] by blast
    then show ?thesis
    proof cases
      case 1
      then show ?thesis unfolding g using e p by (intro exI [of _ "- RT_EIO"] exI [of _ d] exI [of _ s]) simp
    next
      case 2
      then show ?thesis unfolding g using that(2) by (auto simp: serial_ok_def on_bits opened_flags_bits)
    qed
  qed
qed

text \<open>
  On a serial device that is registered and not open, no sequence of at most 255 opens, with any flags, and closes
  faults; the reference count is the number of opens that succeeded less the closes that found the device open, the
  open flag says whether it is positive, and with the flag of interrupt reception the device has a FIFO. While the
  count is 0 a read answers an error.
\<close>

theorem serial_open_balance:
  assumes "is_device i t" "ref_count (devices t i) = 0" "open_flag (devices t i) = 0" "length cs < 256"
  shows "\<exists>n t' s'. run_err (device_step (serial_driver (stm32_uart_ops hal (\<lambda>_. True)) at_addr) i) (0, t, s) cs = Inr (n, t', s') \<and>
    unat (ref_count (devices t' i)) = n \<and> (on (open_flag (devices t' i)) RT_DEVICE_OFLAG_OPEN \<longleftrightarrow> n > 0) \<and>
    (on (open_flag (devices t' i)) RT_DEVICE_FLAG_INT_RX \<longrightarrow> serial_rx s' \<noteq> None) \<and>
    (n = 0 \<longrightarrow> rt_device_read (serial_driver (stm32_uart_ops hal (\<lambda>_. True)) at_addr) i pos len (t', s') = Inr (([], Some (- RT_ERROR)), t', s'))"
proof -
  have "open_count 0 (devices t i)" "serial_ok (devices t i) s" using assms(2,3) by (simp_all add: open_count_def serial_ok_def)
  from uart.device_run_count [OF this(2,1) assms(1), of cs hal at_addr] assms(4) obtain n t' s' where
    1: "run_err (device_step (serial_driver (stm32_uart_ops hal (\<lambda>_. True)) at_addr) i) (0, t, s) cs = Inr (n, t', s')"
      "open_count n (devices t' i)" "is_device i t'" "serial_ok (devices t' i) s'" by auto
  then have "ref_count (devices t' i) = 0" if "n = 0" using that by (simp add: open_count_def unat_eq_0)
  then show ?thesis using 1 read_closed [OF 1(3), where s = s'] by (auto simp: open_count_def serial_ok_def)
qed

theorem serial_open_balance_witness:
  "\<exists>n t' s'. run_err (device_step (serial_driver (stm32_uart_ops (\<lambda>_ w. (True, w)) (\<lambda>_. True)) (\<lambda>_. None)) 1) (0, one_device, demo_serial)
     [Open 0x43, Open 0x143, Close] = Inr (n, t', s') \<and> unat (ref_count (devices t' 1)) = n"
  using serial_open_balance [OF one_device_is, of "[Open 0x43, Open 0x143, Close]" "\<lambda>_ w. (True, w)" "\<lambda>_. None" demo_serial 0 0]
  by (auto simp: one_device_def no_devices_def)

text \<open>
  A reopened device: the flags are those of the last open. With a second open that does not ask for interrupt
  reception, the interrupt still fills the FIFO, but reads ask the UART.
\<close>

theorem reopen_drops_reception:
  assumes "\<not> bit oflag 8" "oflag AND 0xe00 = 0"
  shows "\<exists>s'. rt_serial_open (stm32_uart_ops hal (\<lambda>_. True)) oflag (d, s) =
      Inr (RT_EOK, d\<lparr>open_flag := opened_flags oflag (open_flag d)\<rparr>, s') \<and>
    \<not> on (opened_flags oflag (open_flag d)) RT_DEVICE_FLAG_INT_RX"
proof -
  have b: "\<not> bit oflag n" if "n = 9 \<or> n = 10 \<or> n = 11" for n
  proof -
    have "bit (0xe00 :: u16) n" using that by auto
    then show ?thesis using assms(2) by (metis bit_0_eq bit_and_iff bot_apply bot_bool_def)
  qed
  have o: "\<not> on oflag (2 ^ n)" if "\<not> bit oflag n" for n using that by (simp add: and_exp_eq_0_iff_not_bit)
  have "\<not> on oflag RT_DEVICE_FLAG_DMA_RX" "\<not> on oflag RT_DEVICE_FLAG_DMA_TX"
    using o [of 9] o [of 11] b by (simp_all add: serial_flags)
  moreover have "\<not> on oflag RT_DEVICE_FLAG_INT_RX" "\<not> on oflag RT_DEVICE_FLAG_INT_TX" using assms(1) b by (simp_all add: on_bits)
  ultimately have "fst (projr (rt_serial_open (stm32_uart_ops hal (\<lambda>_. True)) oflag (d, s))) \<noteq> - RT_EIO"
    by (simp add: rt_serial_open_def open_rx_def open_tx_def Let_def RT_EIO_def err_defs)
  then show ?thesis
    using serial_open_cases [of "stm32_uart_ops hal (\<lambda>_. True)" oflag d s] assms(1)
    by (auto simp: stm32_uart_ops_def on_bits opened_flags_bits)
qed

section \<open>Sending\<close>

lemma wait_TC_frame: "tc_in w = Some n \<Longrightarrow> wait_TC w = Some (w\<lparr>tc_in := Some 0\<rparr>)"
proof (induction n arbitrary: w)
  case 0
  then show ?case by (subst wait_TC.simps) (simp add: TC_def)
next
  case (Suc n)
  then show ?case by (subst wait_TC.simps) (simp add: TC_def frame_passes_def)
qed

lemma wait_TC_none: "tc_in w = None \<Longrightarrow> wait_TC w = None"
proof -
  have "tc_in w \<noteq> None" if "wait_TC w = Some w'" for w'
  proof (rule wait_TC.raw_induct [OF _ that, of "\<lambda>u _. tc_in u \<noteq> None"])
    fix f u v
    assume ih: "\<And>x y. f x = Some y \<Longrightarrow> tc_in x \<noteq> None" and e: "(if TC u then Some u else f (frame_passes u)) = Some v"
    show "tc_in u \<noteq> None"
    proof (cases "TC u")
      case False
      then have "tc_in (frame_passes u) \<noteq> None" using ih [of "frame_passes u" v] e by simp
      then show ?thesis by (simp add: frame_passes_def)
    qed (simp add: TC_def)
  qed
  then show "tc_in w = None \<Longrightarrow> wait_TC w = None" by (cases "wait_TC w") auto
qed

lemma stm32_putc_sends:
  "frame_time w = Some n \<Longrightarrow> stm32_putc c w = Inr (1, w\<lparr>sent := sent w @ [c], tc_in := Some 0\<rparr>)"
  by (simp add: stm32_putc_def write_TDR_def clear_TC_def wait_TC_frame)

text \<open>With the transmitter off the routine does not return.\<close>

lemma stm32_putc_off: "frame_time w = None \<Longrightarrow> stm32_putc c w = Inl NoReturn"
  by (simp add: stm32_putc_def write_TDR_def clear_TC_def wait_TC_none)

text \<open>
  The interrupt clears \<open>TC\<close> when it finds no byte, as after an overrun. When it comes between the end of a frame and the
  look at the flag in \<open>stm32_putc\<close>, the loop there does not end.
\<close>

theorem interrupt_hangs_putc:
  assumes "TC (hw s)" "\<not> RXNE (hw s)"
  shows "wait_TC (hw s) \<noteq> None \<and> (\<exists>s'. uart_isr ops (d, s) = Inr (None, d, s') \<and> wait_TC (hw s') = None)"
  using assms wait_TC_frame [of "hw s" 0] by (auto simp: uart_isr_def TC_def clear_TC_def wait_TC_none)

theorem interrupt_hangs_putc_witness:
  "\<exists>s'. uart_isr (stm32_uart_ops (\<lambda>_ w. (True, w)) (\<lambda>_. True)) (devices no_devices 0, demo_serial\<lparr>hw := quiet\<lparr>tc_in := Some 0, ORE := True\<rparr>\<rparr>)
     = Inr (None, devices no_devices 0, s') \<and> wait_TC (hw s') = None"
  using interrupt_hangs_putc [of "demo_serial\<lparr>hw := quiet\<lparr>tc_in := Some 0, ORE := True\<rparr>\<rparr>"
      "stm32_uart_ops (\<lambda>_ w. (True, w)) (\<lambda>_. True)" "devices no_devices 0"] by (auto simp: TC_def quiet_def)

text \<open>In stream mode a carriage return goes before every line feed.\<close>

definition crlf :: "bool \<Rightarrow> u8 list \<Rightarrow> u8 list" where
  "crlf stream bs = concat (map (\<lambda>b. if b = 10 \<and> stream then [13, b] else [b]) bs)"

lemma crlf_simps [simp]:
  "crlf stream [] = []" "crlf stream (b # bs) = (if b = 10 \<and> stream then [13, b] else [b]) @ crlf stream bs"
  by (simp_all add: crlf_def)

lemma put_byte_sends:
  "frame_time w = Some n \<Longrightarrow> put_byte (stm32_uart_ops hal mem) b w = Inr (w\<lparr>sent := sent w @ [b], tc_in := Some 0\<rparr>)"
  by (simp add: put_byte_def stm32_uart_ops_def stm32_putc_sends)

lemma poll_tx_sends:
  assumes "frame_time w = Some n"
  shows "serial_poll_tx (stm32_uart_ops hal mem) stream bs w =
    Inr (if bs = [] then w else w\<lparr>sent := sent w @ crlf stream bs, tc_in := Some 0\<rparr>)"
  using assms by (induction bs arbitrary: w) (auto simp: put_byte_sends)

lemma int_tx_sends:
  assumes "frame_time w = Some n"
  shows "serial_int_tx (stm32_uart_ops hal mem) stream bs w =
    Some (Inr (if bs = [] then w else w\<lparr>sent := sent w @ crlf stream bs, tc_in := Some 0\<rparr>))"
  using assms
proof (induction bs arbitrary: w)
  case (Cons b bs)
  then show ?case by (subst serial_int_tx.simps) (auto simp: stm32_uart_ops_def stm32_putc_sends)
qed (simp add: serial_int_tx.simps)

text \<open>
  A write to an open serial device whose transmitter is on returns the number of bytes and has sent them, in order, with a
  carriage return before every line feed when the device is in stream mode; nothing else of the device changes.
  This holds for both ways of sending, by polling and by interrupts.
\<close>

theorem serial_write_sends:
  assumes "is_device i t" "ref_count (devices t i) \<noteq> 0" "frame_time (hw s) = Some n" "serial_ok (devices t i) s"
  shows "\<exists>w. rt_device_write (serial_driver (stm32_uart_ops hal mem) at_addr) i pos bs (t, s) =
      Inr ((of_nat (length bs), None), t, s\<lparr>hw := w\<rparr>) \<and>
    sent w = sent (hw s) @ crlf (on (open_flag (devices t i)) RT_DEVICE_FLAG_STREAM) bs \<and>
    RDR w = RDR (hw s) \<and> RXNE w = RXNE (hw s) \<and> frame_time w = Some n"
proof -
  let ?stream = "on (open_flag (devices t i)) RT_DEVICE_FLAG_STREAM"
  let ?w = "if bs = [] then hw s else (hw s)\<lparr>sent := sent (hw s) @ crlf ?stream bs, tc_in := Some 0\<rparr>"
  have "rt_serial_write (stm32_uart_ops hal mem) pos bs (devices t i, s) = Inr (of_nat (length bs), devices t i, s\<lparr>hw := ?w\<rparr>)"
    using assms(4) poll_tx_sends [OF assms(3)] int_tx_sends [OF assms(3)]
    by (auto simp: rt_serial_write_def serial_ok_def returned_def Let_def)
  then have "rt_device_write (serial_driver (stm32_uart_ops hal mem) at_addr) i pos bs (t, s) =
      Inr ((of_nat (length bs), None), t, s\<lparr>hw := ?w\<rparr>)"
    using assms(1,2) by (simp add: rt_device_write_def with_device_def serial_driver_def)
  then show ?thesis using assms(3) by (intro exI [of _ ?w]) auto
qed

theorem serial_write_sends_witness:
  "\<exists>w. rt_device_write (serial_driver (stm32_uart_ops (\<lambda>_ w. (True, w)) (\<lambda>_. True)) (\<lambda>_. None)) 1 0 [79, 75, 10]
      (one_device\<lparr>devices := (devices one_device)(1 := (devices no_devices 1)\<lparr>open_flag := 0x4b, ref_count := 1\<rparr>)\<rparr>, demo_serial) =
      Inr ((3, None), one_device\<lparr>devices := (devices one_device)(1 := (devices no_devices 1)\<lparr>open_flag := 0x4b, ref_count := 1\<rparr>)\<rparr>,
        demo_serial\<lparr>hw := w\<rparr>) \<and> sent w = [79, 75, 13, 10]"
  (is "\<exists>w. rt_device_write ?drv 1 0 ?bs (?t, _) = _ \<and> _")
proof -
  have d: "devices ?t 1 = (devices no_devices 1)\<lparr>open_flag := 0x4b, ref_count := 1\<rparr>" by simp
  have "is_device 1 ?t" using one_device_is by (simp add: is_device_def)
  moreover have "frame_time (hw demo_serial) = Some 3" "sent (hw demo_serial) = []" by (simp_all add: demo_serial_def quiet_def)
  moreover have "serial_ok (devices ?t 1) demo_serial" unfolding d by (simp add: serial_ok_def on_bits)
  moreover have "on (open_flag (devices ?t 1)) RT_DEVICE_FLAG_STREAM" unfolding d by (simp add: on_bits)
  ultimately show ?thesis
    using serial_write_sends [of 1 ?t demo_serial 3 "\<lambda>_ w. (True, w)" "\<lambda>_. True" "\<lambda>_. None" 0 ?bs] by auto
qed

end
