(* ===== verification/Format.thy ===== *)
theory Format
  imports Prelude
begin

text \<open>
  Formatted output (\<open>rt_vsnprintf\<close> of \<open>rt-thread/src/kservice.c\<close>, as configured: 32-bit numbers, precisions, no
  prefixes). The buffer is a character at every offset from its start, so that a write outside would show.
  A variable argument is a word or a pointer to a string.
\<close>

section \<open>Operations\<close>

datatype va = VWord u32 | VText "string option"

text \<open>The position that is written next, and the memory from the buffer on.\<close>

type_synonym sink = "nat \<times> (nat \<Rightarrow> char)"

definition emit :: "nat \<Rightarrow> char \<Rightarrow> sink \<Rightarrow> sink" where
  "emit lim c st = (case st of (p, b) \<Rightarrow> (p + 1, if p < lim then b(p := c) else b))"

text \<open>\<open>while (size-- > 0)\<close> and \<open>while (--width > 0)\<close>, each writing a character.\<close>

function pads :: "nat \<Rightarrow> char \<Rightarrow> int \<Rightarrow> sink \<Rightarrow> int \<times> sink" where
  "pads lim c room st = (if room > 0 then pads lim c (room - 1) (emit lim c st) else (room - 1, st))"
  by pat_completeness auto
termination by (relation "measure (\<lambda>(_, _, room, _). nat room)") auto

function pre_pads :: "nat \<Rightarrow> char \<Rightarrow> int \<Rightarrow> sink \<Rightarrow> int \<times> sink" where
  "pre_pads lim c width st = (if width - 1 > 0 then pre_pads lim c (width - 1) (emit lim c st) else (width - 1, st))"
  by pat_completeness auto
termination by (relation "measure (\<lambda>(_, _, width, _). nat width)") auto

definition ISDIGIT :: "char \<Rightarrow> bool" where
  "ISDIGIT c \<longleftrightarrow> (of_char c :: u32) - 48 < 10"

definition divide_num :: "u32 \<Rightarrow> int \<Rightarrow> u32 \<times> u32" where
  "divide_num n base = (if base = 10 then (n mod 10, n div 10) else (n mod 16, n div 16))"

text \<open>The second argument is the number read so far.\<close>

fun skip_atoi :: "string \<Rightarrow> int \<Rightarrow> fault + int \<times> string" where
  "skip_atoi [] i = Inr (i, [])"
| "skip_atoi (c # s) i =
     (if ISDIGIT c then if i * 10 + of_char c < 2147483648 then skip_atoi s (i * 10 + of_char c - 48) else Inl Undefined
      else Inr (i, c # s))"

definition ZEROPAD :: u8 where "ZEROPAD = 1"
definition SIGN :: u8 where "SIGN = 2"
definition PLUS :: u8 where "PLUS = 4"
definition SPACE :: u8 where "SPACE = 8"
definition LEFT :: u8 where "LEFT = 16"
definition SPECIAL :: u8 where "SPECIAL = 32"
definition LARGE :: u8 where "LARGE = 64"

lemmas flag_defs = ZEROPAD_def SIGN_def PLUS_def SPACE_def LEFT_def SPECIAL_def LARGE_def

definition flag :: "u8 \<Rightarrow> u8 \<Rightarrow> bool" where "flag f type = (type AND f \<noteq> 0)"

definition digit_char :: "u8 \<Rightarrow> nat \<Rightarrow> char" where
  "digit_char type d = (if flag LARGE type then ''0123456789ABCDEF'' ! d else ''0123456789abcdef'' ! d)"

text \<open>The digits, the last one first, in \<open>tmp[16]\<close>.\<close>

function digit_loop :: "u8 \<Rightarrow> int \<Rightarrow> u32 \<Rightarrow> string \<Rightarrow> fault + string" where
  "digit_loop type base num tmp =
     (if num \<noteq> 0 then
        if length tmp < 16 then
          (case divide_num num base of (d, n) \<Rightarrow> digit_loop type base n (tmp @ [digit_char type (unat d)]))
        else Inl OutOfBounds
      else Inr tmp)"
  by pat_completeness auto
termination
proof (relation "measure (\<lambda>(_, _, num, _). unat num)")
  fix num d n :: u32 and base and tmp :: string and type
  assume n: "num \<noteq> 0" "(d, n) = divide_num num base"
  have "unat num div 10 < unat num" "unat num div 16 < unat num" using n(1) by (simp_all add: unat_gt_0)
  then show "((type, base, n, tmp @ [digit_char type (unat d)]), type, base, num, tmp) \<in> measure (\<lambda>(_, _, num, _). unat num)"
    using n by (auto simp: divide_num_def unat_div split: if_splits)
qed simp

primrec emit_digits :: "nat \<Rightarrow> string \<Rightarrow> nat \<Rightarrow> sink \<Rightarrow> sink" where
  "emit_digits lim tmp 0 st = st"
| "emit_digits lim tmp (Suc i) st = emit_digits lim tmp i (emit lim (tmp ! i) st)"

definition print_number :: "nat \<Rightarrow> u32 \<Rightarrow> int \<Rightarrow> int \<Rightarrow> int \<Rightarrow> u8 \<Rightarrow> sink \<Rightarrow> fault + sink" where
  "print_number lim num base s precision type st =
     (let type = (if flag LEFT type then type AND NOT ZEROPAD else type);
          c = (if flag ZEROPAD type then CHR ''0'' else CHR '' '');
          least = (flag SIGN type \<and> num = 0x80000000);
          (sign, num) = (if flag SIGN type then
                           if sint num < 0 then (Some (CHR ''-''), - num)
                           else if flag PLUS type then (Some (CHR ''+''), num)
                           else if flag SPACE type then (Some (CHR '' ''), num) else (None, num)
                         else (None, num))
      in bind_err (if least then Inl Undefined else if num = 0 then Inr [CHR ''0''] else digit_loop type base num []) (\<lambda>tmp.
        let i = int (length tmp);
            prec = (if i > precision then i else precision);
            room = s - prec;
            (room, st) = (if \<not> flag (ZEROPAD OR LEFT) type then
                            pads lim (CHR '' '') (if sign \<noteq> None \<and> room > 0 then room - 1 else room) st
                          else (room, st));
            (room, st) = (case sign of Some sg \<Rightarrow> (room - 1, emit lim sg st) | None \<Rightarrow> (room, st));
            (room, st) = (if \<not> flag LEFT type then pads lim c room st else (room, st));
            st = snd (pads lim (CHR ''0'') (prec - i) st);
            st = (if precision \<noteq> 0 then emit_digits lim tmp (length tmp) st else st)
        in Inr (snd (pads lim (CHR '' '') room st))))"

text \<open>A conversion as it is read from the format.\<close>

record conv =
  flags :: u8
  field_width :: int
  precision :: int
  qualifier :: char

fun skip_flags :: "string \<Rightarrow> u8 \<Rightarrow> u8 \<times> string" where
  "skip_flags [] f = (f, [])"
| "skip_flags (c # s) f =
     (if c = CHR ''-'' then skip_flags s (f OR LEFT)
      else if c = CHR ''+'' then skip_flags s (f OR PLUS)
      else if c = CHR '' '' then skip_flags s (f OR SPACE)
      else if c = CHR ''#'' then skip_flags s (f OR SPECIAL)
      else if c = CHR ''0'' then skip_flags s (f OR ZEROPAD)
      else (f, c # s))"

fun va_word :: "va list \<Rightarrow> fault + u32 \<times> va list" where
  "va_word (VWord w # args) = Inr (w, args)"
| "va_word _ = Inl Undefined"

fun va_text :: "va list \<Rightarrow> fault + string option \<times> va list" where
  "va_text (VText t # args) = Inr (t, args)"
| "va_text _ = Inl Undefined"

definition get_width :: "u8 \<Rightarrow> string \<Rightarrow> va list \<Rightarrow> fault + u8 \<times> int \<times> string \<times> va list" where
  "get_width f s args =
     (case s of [] \<Rightarrow> Inr (f, -1, s, args)
      | c # s' \<Rightarrow>
          if ISDIGIT c then bind_err (skip_atoi s 0) (\<lambda>(w, s). Inr (f, w, s, args))
          else if c = CHR ''*'' then
            bind_err (va_word args) (\<lambda>(w, args).
              if sint w < 0 then if sint w = -2147483648 then Inl Undefined else Inr (f OR LEFT, - sint w, s', args)
              else Inr (f, sint w, s', args))
          else Inr (f, -1, s, args))"

definition get_precision :: "string \<Rightarrow> va list \<Rightarrow> fault + int \<times> string \<times> va list" where
  "get_precision s args =
     (case s of [] \<Rightarrow> Inr (-1, s, args)
      | d # s' \<Rightarrow>
          if d \<noteq> CHR ''.'' then Inr (-1, s, args)
          else (case s' of [] \<Rightarrow> Inr (0, s', args)
            | c # s'' \<Rightarrow>
                if ISDIGIT c then bind_err (skip_atoi s' 0) (\<lambda>(p, s). Inr (if p < 0 then 0 else p, s, args))
                else if c = CHR ''*'' then bind_err (va_word args) (\<lambda>(p, args). Inr (if sint p < 0 then 0 else sint p, s'', args))
                else Inr (0, s', args)))"

definition get_qualifier :: "string \<Rightarrow> char \<times> string" where
  "get_qualifier s =
     (case s of [] \<Rightarrow> (CHR 0x00, s)
      | c # s' \<Rightarrow> if c = CHR ''h'' \<or> c = CHR ''l'' then (c, s') else (CHR 0x00, s))"

definition read_conv :: "string \<Rightarrow> va list \<Rightarrow> fault + conv \<times> string \<times> va list" where
  "read_conv s args =
     (case skip_flags s 0 of (f, s) \<Rightarrow>
        bind_err (get_width f s args) (\<lambda>(f, w, s, args).
          bind_err (get_precision s args) (\<lambda>(p, s, args).
            case get_qualifier s of (q, s) \<Rightarrow>
              Inr (\<lparr>flags = f, field_width = w, precision = p, qualifier = q\<rparr>, s, args))))"

text \<open>The length of a string, as far as the field width.\<close>

fun text_len :: "int \<Rightarrow> nat \<Rightarrow> string \<Rightarrow> nat" where
  "text_len width len [] = len"
| "text_len width len (c # s) = (if int len \<noteq> width then text_len width (len + 1) s else len)"

definition put_char :: "nat \<Rightarrow> conv \<Rightarrow> char \<Rightarrow> sink \<Rightarrow> sink" where
  "put_char lim cv c st =
     (let (width, st) = (if \<not> flag LEFT (flags cv) then pre_pads lim (CHR '' '') (field_width cv) st else (field_width cv, st));
          st = emit lim c st
      in snd (pre_pads lim (CHR '' '') width st))"

definition put_text :: "nat \<Rightarrow> conv \<Rightarrow> string option \<Rightarrow> sink \<Rightarrow> sink" where
  "put_text lim cv t st =
     (let s = (case t of Some s \<Rightarrow> s | None \<Rightarrow> ''(NULL)'');
          len = int (text_len (field_width cv) 0 s);
          len = (if precision cv > 0 \<and> len > precision cv then precision cv else len);
          (room, st) = (if \<not> flag LEFT (flags cv) then pads lim (CHR '' '') (field_width cv - len) st else (field_width cv - len, st));
          st = fold (emit lim) (take (nat len) s) st
      in snd (pads lim (CHR '' '') room st))"

text \<open>The number of an integer conversion, and the flags and the base of its kind.\<close>

definition get_num :: "conv \<Rightarrow> u32 \<Rightarrow> u32" where
  "get_num cv w =
     (if qualifier cv = CHR ''h'' then if flag SIGN (flags cv) then scast (ucast w :: u16) else ucast (ucast w :: u16) else w)"

definition number_kind :: "char \<Rightarrow> (int \<times> u8) option" where
  "number_kind c =
     (if c = CHR ''o'' then Some (8, 0)
      else if c = CHR ''X'' then Some (16, LARGE)
      else if c = CHR ''x'' then Some (16, 0)
      else if c = CHR ''d'' \<or> c = CHR ''i'' then Some (10, SIGN)
      else if c = CHR ''u'' then Some (10, 0) else None)"

definition convert :: "nat \<Rightarrow> conv \<Rightarrow> string \<Rightarrow> va list \<Rightarrow> sink \<Rightarrow> fault + va list \<times> sink" where
  "convert lim cv s args st =
     (case s of [] \<Rightarrow> Inr (args, emit lim (CHR ''%'') st)
      | c # _ \<Rightarrow>
          if c = CHR ''c'' then bind_err (va_word args) (\<lambda>(w, args). Inr (args, put_char lim cv (char_of (unat w mod 256)) st))
          else if c = CHR ''s'' then bind_err (va_text args) (\<lambda>(t, args). Inr (args, put_text lim cv t st))
          else if c = CHR ''p'' then
            bind_err (va_word args) (\<lambda>(w, args).
              let cv = (if field_width cv = -1 then cv\<lparr>field_width := 8, flags := flags cv OR ZEROPAD\<rparr> else cv)
              in bind_err (print_number lim w 16 (field_width cv) (precision cv) (flags cv) st) (\<lambda>st. Inr (args, st)))
          else if c = CHR ''%'' then Inr (args, emit lim (CHR ''%'') st)
          else (case number_kind c of
              Some (base, f) \<Rightarrow>
                bind_err (va_word args) (\<lambda>(w, args).
                  let cv = cv\<lparr>flags := flags cv OR f\<rparr>
                  in bind_err (print_number lim (get_num cv w) base (field_width cv) (precision cv) (flags cv) st) (\<lambda>st. Inr (args, st)))
            | None \<Rightarrow> Inr (args, emit lim c (emit lim (CHR ''%'') st))))"


lemma read_conv_shorter: "read_conv s args = Inr (cv, s', args') \<Longrightarrow> length s' \<le> length s"
proof -
  have f: "length (snd (skip_flags s f)) \<le> length s" for s f
    by (induction s f rule: skip_flags.induct) (auto simp: le_Suc_eq)
  have a: "skip_atoi s i = Inr (j, s') \<Longrightarrow> length s' \<le> length s" for s s' i j
    by (induction s i rule: skip_atoi.induct) (auto split: if_splits)
  have w: "get_width f s args = Inr (f', w, s', args') \<Longrightarrow> length s' \<le> length s" for f f' w s s' args args'
    using a by (fastforce simp: get_width_def bind_err_Inr_iff split: list.splits if_splits)
  have p: "get_precision s args = Inr (p, s', args') \<Longrightarrow> length s' \<le> length s" for p s s' args args'
    using a by (fastforce simp: get_precision_def bind_err_Inr_iff split: list.splits if_splits)
  have q: "length (snd (get_qualifier s)) \<le> length s" for s
    by (auto simp: get_qualifier_def split: list.splits)
  assume r: "read_conv s args = Inr (cv, s', args')"
  obtain f1 s1 where s1: "skip_flags s 0 = (f1, s1)" by fastforce
  moreover obtain f2 w s2 a2 where s2: "get_width f1 s1 args = Inr (f2, w, s2, a2)"
    using r s1 by (cases "get_width f1 s1 args") (auto simp: read_conv_def)
  moreover obtain pr s3 a3 where s3: "get_precision s2 a2 = Inr (pr, s3, a3)"
    using r s1 s2 by (cases "get_precision s2 a2") (auto simp: read_conv_def)
  moreover have "s' = snd (get_qualifier s3)"
    using r s1 s2 s3 by (cases "get_qualifier s3") (auto simp: read_conv_def)
  ultimately have "skip_flags s 0 = (f1, s1)" "get_width f1 s1 args = Inr (f2, w, s2, a2)"
    "get_precision s2 a2 = Inr (pr, s3, a3)" "s' = snd (get_qualifier s3)" by blast+
  then show ?thesis using f [of s 0] w p q by (metis order_trans snd_conv)
qed

function format_loop :: "nat \<Rightarrow> string \<Rightarrow> va list \<Rightarrow> sink \<Rightarrow> fault + sink" where
  "format_loop lim s args st =
     (case s of [] \<Rightarrow> Inr st
      | c # s' \<Rightarrow>
          if c \<noteq> CHR ''%'' then format_loop lim s' args (emit lim c st)
          else (case read_conv s' args of Inl e \<Rightarrow> Inl e
            | Inr (cv, s', args) \<Rightarrow>
                (case convert lim cv s' args st of Inl e \<Rightarrow> Inl e
                 | Inr (args, st) \<Rightarrow> format_loop lim (tl s') args st)))"
  by pat_completeness auto
termination
proof (relation "measure (\<lambda>(_, s, _, _). length s)")
  fix lim :: nat and s :: string and args st c s' r cv y s'' args' z args'' st'
  assume "s = c # s'" "read_conv s' args = Inr r" "(cv, y) = r" "(s'', args') = y"
  then show "((lim, tl s'', args'', st'), lim, s, args, st) \<in> measure (\<lambda>(_, s, _, _). length s)"
    using read_conv_shorter [of s' args cv s'' args'] by auto
qed auto

text \<open>
  A text that reaches the end of the address space makes the write pointer wrap, and one of \<open>2 ^ 31\<close> characters does not fit
  the \<open>int\<close> that is returned: both are \<open>Undefined\<close>.
\<close>

definition rt_vsnprintf :: "u32 \<Rightarrow> (nat \<Rightarrow> char) \<Rightarrow> u32 \<Rightarrow> string \<Rightarrow> va list \<Rightarrow> fault + nat \<times> (nat \<Rightarrow> char)" where
  "rt_vsnprintf buf cells room fmt args =
     (let room = (if buf + room < buf then 0xffffffff - buf else room)
      in bind_err (format_loop (unat room) fmt args (0, cells)) (\<lambda>(p, b).
           if unat buf + p \<ge> 0x100000000 \<or> p \<ge> 0x80000000 then Inl Undefined
           else Inr (p, if room > 0 then if p < unat room then b(p := CHR 0x00) else b(unat room - 1 := CHR 0x00) else b)))"


declare pads.simps [simp del] pre_pads.simps [simp del] digit_loop.simps [simp del] format_loop.simps [simp del]

section \<open>The text of a format\<close>

text \<open>What a format stands for, without a buffer.\<close>

function numeral_text :: "u8 \<Rightarrow> nat \<Rightarrow> nat \<Rightarrow> string" where
  "numeral_text type base n =
     (if base < 2 \<or> n < base then [digit_char type n] else numeral_text type base (n div base) @ [digit_char type (n mod base)])"
  by pat_completeness auto
termination by (relation "measure (\<lambda>(_, _, n). n)") auto

declare numeral_text.simps [simp del]

definition sign_of :: "u8 \<Rightarrow> u32 \<Rightarrow> string" where
  "sign_of type num =
     (if \<not> flag SIGN type then []
      else if sint num < 0 then ''-'' else if flag PLUS type then ''+'' else if flag SPACE type then '' '' else [])"

definition number_text :: "u32 \<Rightarrow> nat \<Rightarrow> int \<Rightarrow> int \<Rightarrow> u8 \<Rightarrow> string" where
  "number_text num base width prec type =
     (let sg = sign_of type num;
          ds = numeral_text type base (unat (if flag SIGN type \<and> sint num < 0 then - num else num));
          zs = replicate (nat (prec - int (length ds))) (CHR ''0'');
          room = nat (width - int (length zs + length ds) - int (length sg));
          body = zs @ (if prec = 0 then [] else ds)
      in if flag LEFT type then sg @ body @ replicate room (CHR '' '')
         else if flag ZEROPAD type then sg @ replicate room (CHR ''0'') @ body
         else replicate room (CHR '' '') @ sg @ body)"

definition checked_number :: "u32 \<Rightarrow> nat \<Rightarrow> int \<Rightarrow> int \<Rightarrow> u8 \<Rightarrow> fault + string" where
  "checked_number num base width prec type =
     (if flag SIGN type \<and> num = 0x80000000 then Inl Undefined else Inr (number_text num base width prec type))"

definition char_text :: "conv \<Rightarrow> char \<Rightarrow> string" where
  "char_text cv c =
     (let room = replicate (nat (field_width cv - 1)) (CHR '' '') in if flag LEFT (flags cv) then c # room else room @ [c])"

definition string_text :: "conv \<Rightarrow> string option \<Rightarrow> string" where
  "string_text cv t =
     (let s = (case t of Some s \<Rightarrow> s | None \<Rightarrow> ''(NULL)'');
          s = (if field_width cv < 0 then s else take (nat (field_width cv)) s);
          s = (if precision cv > 0 then take (nat (precision cv)) s else s);
          room = replicate (nat (field_width cv - int (length s))) (CHR '' '')
      in if flag LEFT (flags cv) then s @ room else room @ s)"

definition conv_text :: "conv \<Rightarrow> string \<Rightarrow> va list \<Rightarrow> fault + va list \<times> string" where
  "conv_text cv s args =
     (case s of [] \<Rightarrow> Inr (args, ''%'')
      | c # _ \<Rightarrow>
          if c = CHR ''c'' then bind_err (va_word args) (\<lambda>(w, args). Inr (args, char_text cv (char_of (unat w mod 256))))
          else if c = CHR ''s'' then bind_err (va_text args) (\<lambda>(t, args). Inr (args, string_text cv t))
          else if c = CHR ''p'' then
            bind_err (va_word args) (\<lambda>(w, args).
              bind_err (if field_width cv = -1 then checked_number w 16 8 (precision cv) (flags cv OR ZEROPAD)
                        else checked_number w 16 (field_width cv) (precision cv) (flags cv)) (\<lambda>t. Inr (args, t)))
          else if c = CHR ''%'' then Inr (args, ''%'')
          else (case number_kind c of
              Some (base, f) \<Rightarrow>
                bind_err (va_word args) (\<lambda>(w, args).
                  bind_err (checked_number (get_num (cv\<lparr>flags := flags cv OR f\<rparr>) w) (if base = 10 then 10 else 16)
                    (field_width cv) (precision cv) (flags cv OR f)) (\<lambda>t. Inr (args, t)))
            | None \<Rightarrow> Inr (args, [CHR ''%'', c])))"

function format_text :: "string \<Rightarrow> va list \<Rightarrow> fault + string" where
  "format_text s args =
     (case s of [] \<Rightarrow> Inr []
      | c # s' \<Rightarrow>
          if c \<noteq> CHR ''%'' then bind_err (format_text s' args) (\<lambda>t. Inr (c # t))
          else (case read_conv s' args of Inl e \<Rightarrow> Inl e
            | Inr (cv, s', args) \<Rightarrow>
                (case conv_text cv s' args of Inl e \<Rightarrow> Inl e
                 | Inr (args, t) \<Rightarrow> bind_err (format_text (tl s') args) (\<lambda>u. Inr (t @ u)))))"
  by pat_completeness auto
termination
proof (relation "measure (\<lambda>(s, _). length s)")
  fix s :: string and args c s' r cv y s'' args' z args'' t
  assume "s = c # s'" "read_conv s' args = Inr r" "(cv, y) = r" "(s'', args') = y"
  then show "((tl s'', args''), s, args) \<in> measure (\<lambda>(s, _). length s)"
    using read_conv_shorter [of s' args cv s'' args'] by auto
qed auto

declare format_text.simps [simp del]

section \<open>Writing a text\<close>

abbreviation emits :: "nat \<Rightarrow> string \<Rightarrow> sink \<Rightarrow> sink" where "emits lim t st \<equiv> fold (emit lim) t st"

lemma pads_emits: "pads lim c n st = (min n 0 - 1, emits lim (replicate (nat n) c) st)"
proof (induction lim c n st rule: pads.induct)
  case (1 lim c n st)
  show ?case
  proof (cases "n > 0")
    case True
    then have "nat n = Suc (nat (n - 1))" by simp
    then show ?thesis using 1 True by (subst pads.simps) simp
  qed (subst pads.simps, simp)
qed

lemma pre_pads_emits: "pre_pads lim c n st = (min n 1 - 1, emits lim (replicate (nat (n - 1)) c) st)"
proof (induction lim c n st rule: pre_pads.induct)
  case (1 lim c n st)
  show ?case
  proof (cases "n - 1 > 0")
    case True
    then have "nat (n - 1) = Suc (nat (n - 1 - 1))" by simp
    then show ?thesis using 1 True by (subst pre_pads.simps) simp
  qed (subst pre_pads.simps, simp)
qed

lemma emit_digits_emits: "i \<le> length tmp \<Longrightarrow> emit_digits lim tmp i st = emits lim (rev (take i tmp)) st"
  by (induction i arbitrary: st) (simp_all add: take_Suc_conv_app_nth)


text \<open>Digits.\<close>

lemma unat_divide:
  assumes "divide_num num base = (d, n)" and "b = (if base = 10 then 10 else 16)"
  shows "unat d = unat num mod b" "unat n = unat num div b"
  using assms by (auto simp: divide_num_def unat_mod unat_div split: if_splits)

lemma digit_loop_text:
  fixes type :: u8 and base :: int
  defines "b \<equiv> (if base = 10 then 10 else 16)"
  assumes "num \<noteq> 0" and "unat num < b ^ k" and "length tmp + k \<le> 16"
  shows "digit_loop type base num tmp = Inr (tmp @ rev (numeral_text type b (unat num)))"
  using assms(2-4)
proof (induction k arbitrary: num tmp)
  case 0
  then show ?case by (simp add: unat_eq_0)
next
  case (Suc k)
  obtain d n where dn: "divide_num num base = (d, n)" by fastforce
  note u = unat_divide [OF dn b_def [THEN meta_eq_to_obj_eq]]
  have b: "2 \<le> b" by (simp add: b_def)
  have step: "digit_loop type base num tmp = digit_loop type base n (tmp @ [digit_char type (unat num mod b)])"
    using Suc.prems dn u(1) by (subst digit_loop.simps) simp
  show ?case
  proof (cases "unat num < b")
    case True
    then have "n = 0" using u(2) by (simp add: unat_eq_0)
    then show ?thesis using True b by (subst step, subst digit_loop.simps, subst numeral_text.simps) simp
  next
    case False
    then have "1 \<le> unat num div b" using b by (simp add: Suc_leI div_greater_zero_iff)
    then have n0: "n \<noteq> 0" using u(2) by auto
    have "unat n < b ^ k" using Suc.prems(2) u(2) b by (simp add: less_mult_imp_div_less mult.commute)
    from Suc.IH [OF n0 this, of "tmp @ [digit_char type (unat num mod b)]"] Suc.prems(3)
    have "digit_loop type base n (tmp @ [digit_char type (unat num mod b)]) =
        Inr (tmp @ [digit_char type (unat num mod b)] @ rev (numeral_text type b (unat n)))" by simp
    moreover have "rev (numeral_text type b (unat num)) = digit_char type (unat num mod b) # rev (numeral_text type b (unat n))"
      using False b by (subst numeral_text.simps) (simp add: u(2))
    ultimately show ?thesis by (simp add: step)
  qed
qed

lemma number_digits:
  "(if num = 0 then Inr [CHR ''0''] else digit_loop type base num []) =
   Inr (rev (numeral_text type (if base = 10 then 10 else 16) (unat num)))"
proof (cases "num = 0")
  case True
  then show ?thesis by (subst numeral_text.simps) (simp add: digit_char_def)
next
  case False
  have "unat num < (if base = 10 then 10 else 16) ^ 10" using unat_u32_lt [of num] by simp
  then show ?thesis using False digit_loop_text [OF False, of base 10 "[]" type] by simp
qed

text \<open>Flags.\<close>

lemma or_zero: "x OR y = 0 \<longleftrightarrow> x = 0 \<and> y = 0" for x y :: "'a :: len word"
  by (auto simp: bit_eq_iff bit_simps)

lemma flag_or: "flag (f OR g) t \<longleftrightarrow> flag f t \<or> flag g t"
  by (simp add: flag_def bit.conj_disj_distrib or_zero)

lemma flag_clear: "flag f (t AND NOT ZEROPAD) = flag (f AND NOT ZEROPAD) t"
proof -
  have "(t AND NOT ZEROPAD) AND f = t AND (f AND NOT ZEROPAD)" by (rule bit_word_eqI) (auto simp: bit_simps)
  then show ?thesis by (simp add: flag_def)
qed

lemma clear_zeropad [simp]:
  "\<not> flag ZEROPAD (t AND NOT ZEROPAD)" "flag LEFT (t AND NOT ZEROPAD) = flag LEFT t" "flag SIGN (t AND NOT ZEROPAD) = flag SIGN t"
  "flag PLUS (t AND NOT ZEROPAD) = flag PLUS t" "flag SPACE (t AND NOT ZEROPAD) = flag SPACE t"
  "flag LARGE (t AND NOT ZEROPAD) = flag LARGE t"
  by (simp_all add: flag_clear) (simp_all add: flag_defs flag_def)


lemma numeral_clear [simp]: "numeral_text (type AND NOT ZEROPAD) base n = numeral_text type base n"
proof (induction type base n rule: numeral_text.induct)
  case (1 type base n)
  have c: "digit_char (type AND NOT ZEROPAD) d = digit_char type d" for d by (simp add: digit_char_def)
  show ?case using 1 by (subst (1 2) numeral_text.simps) (auto simp: c)
qed

text \<open>The sign and the digits of a number.\<close>

lemma sign_split:
  "(if flag SIGN type then
      if sint num < 0 then (Some (CHR ''-''), - num)
      else if flag PLUS type then (Some (CHR ''+''), num)
      else if flag SPACE type then (Some (CHR '' ''), num) else (None, num)
    else (None, num)) =
   (if sign_of type num = [] then None else Some (hd (sign_of type num)), if flag SIGN type \<and> sint num < 0 then - num else num)"
  by (simp add: sign_of_def)

lemma sign_of_cases: "sign_of type num = [] \<or> (\<exists>c. sign_of type num = [c])"
  by (auto simp: sign_of_def)

lemma print_number_emits:
  "print_number lim num base s prec type st =
   bind_err (checked_number num (if base = 10 then 10 else 16) s prec type) (\<lambda>t. Inr (emits lim t st))"
proof -
  define t where "t = (if flag LEFT type then type AND NOT ZEROPAD else type)"
  have t: "flag ZEROPAD t \<longleftrightarrow> flag ZEROPAD type \<and> \<not> flag LEFT type" "flag LEFT t = flag LEFT type" "flag SIGN t = flag SIGN type"
    "sign_of t num = sign_of type num" "\<And>b n. numeral_text t b n = numeral_text type b n"
    by (auto simp: t_def sign_of_def)
  define sg where "sg = sign_of type num"
  define ds where "ds = numeral_text type (if base = 10 then 10 else 16) (unat (if flag SIGN type \<and> sint num < 0 then - num else num))"
  have z: "x - y - (z - y) = x - z" for x y z :: int by simp
  have sgs: "sg = [] \<or> (\<exists>c. sg = [c])" using sign_of_cases by (simp add: sg_def)
  show ?thesis
    unfolding print_number_def checked_number_def number_text_def t_def [symmetric] sign_split Let_def number_digits prod.case
    unfolding t sg_def [symmetric] ds_def [symmetric]
    using sgs by (auto simp: pads_emits emit_digits_emits flag_or t max_def)
qed


text \<open>Characters, strings and the whole of a conversion.\<close>

lemma put_char_emits: "put_char lim cv c st = emits lim (char_text cv c) st"
  by (auto simp: put_char_def char_text_def pre_pads_emits Let_def)

lemma text_len_min: "text_len width len s = (if width < int len then len + length s else min (nat width) (len + length s))"
  by (induction width len s rule: text_len.induct) auto

lemma put_text_emits: "put_text lim cv t st = emits lim (string_text cv t) st"
proof -
  define s where "s = (case t of Some s \<Rightarrow> s | None \<Rightarrow> ''(NULL)'')"
  define u where "u = (if field_width cv < 0 then s else take (nat (field_width cv)) s)"
  define v where "v = (if precision cv > 0 then take (nat (precision cv)) u else u)"
  define len where "len = (if precision cv > 0 \<and> int (text_len (field_width cv) 0 s) > precision cv then precision cv
    else int (text_len (field_width cv) 0 s))"
  have u: "text_len (field_width cv) 0 s = length u" "take (length u) s = u" by (auto simp: u_def text_len_min min_def)
  have len: "len = int (length v)" by (auto simp: len_def v_def u(1) min_def)
  have v: "take (length v) s = v"
  proof -
    have "v = take (if precision cv > 0 then min (length u) (nat (precision cv)) else length u) s"
      using u(2) take_take [of "nat (precision cv)" "length u" s] by (auto simp: v_def min.commute)
    then show ?thesis by (metis length_take min.cobounded1 take_all_iff take_take nat_le_linear min_def)
  qed
  show ?thesis
    unfolding put_text_def string_text_def Let_def s_def [symmetric] u_def [symmetric] v_def [symmetric] len_def [symmetric]
    by (simp add: pads_emits len v)
qed

lemma convert_emits:
  "convert lim cv s args st = bind_err (conv_text cv s args) (\<lambda>(args, t). Inr (args, emits lim t st))"
proof (cases s)
  case Nil
  then show ?thesis by (simp add: convert_def conv_text_def)
next
  case (Cons c s')
  show ?thesis
    by (cases "va_word args"; cases "va_text args")
      (auto simp: Cons convert_def conv_text_def print_number_emits put_char_emits put_text_emits Let_def bind_err_assoc
        split: option.splits)
qed

lemma format_loop_emits:
  "format_loop lim s args st = bind_err (format_text s args) (\<lambda>t. Inr (emits lim t st))"
proof (induction s args arbitrary: st rule: format_text.induct)
  case (1 s args)
  show ?case
  proof (cases s)
    case Nil
    then show ?thesis by (subst format_loop.simps, subst format_text.simps) simp
  next
    case s: (Cons c s')
    show ?thesis
    proof (cases "c = CHR ''%''")
      case False
      then have f: "format_text s args = bind_err (format_text s' args) (\<lambda>t. Inr (c # t))"
        by (subst format_text.simps) (simp add: s)
      have "format_loop lim s' args st' = bind_err (format_text s' args) (\<lambda>t. Inr (emits lim t st'))" for st'
        using 1(1) [OF s] False by simp
      then show ?thesis unfolding f using False
        by (subst format_loop.simps) (cases "format_text s' args"; simp add: s)
    next
      case True
      show ?thesis
      proof (cases "read_conv s' args")
        case (Inl e)
        then show ?thesis using True by (subst format_loop.simps, subst format_text.simps) (simp add: s)
      next
        case r: (Inr r)
        obtain cv s2 args2 where cv: "r = (cv, s2, args2)" by (cases r) auto
        show ?thesis
        proof (cases "conv_text cv s2 args2")
          case (Inl e)
          then show ?thesis using True r cv
            by (subst format_loop.simps, subst format_text.simps) (simp add: s convert_emits)
        next
          case c: (Inr q)
          obtain args3 t where q: "q = (args3, t)" by (cases q) auto
          have "format_loop lim (tl s2) args3 st' = bind_err (format_text (tl s2) args3) (\<lambda>t. Inr (emits lim t st'))" for st'
            using 1(2) [OF s] True r cv c q by simp
          then show ?thesis using True r cv c q
            by (subst format_loop.simps, subst format_text.simps)
              (cases "format_text (tl s2) args3"; simp add: s convert_emits)
        qed
      qed
    qed
  qed
qed

text \<open>What writing does to the buffer.\<close>

lemma emits_cells:
  "emits lim t (p, b) = (p + length t, \<lambda>i. if p \<le> i \<and> i < min lim (p + length t) then t ! (i - p) else b i)"
proof (induction t arbitrary: p b)
  case (Cons c t)
  show ?case using Cons by (auto simp: emit_def fun_eq_iff nth_Cons' Suc_diff_le)
qed (auto simp: fun_eq_iff)

lemma vsnprintf_text:
  assumes "format_text fmt args = Inr t"
  shows "rt_vsnprintf buf cells room0 fmt args =
    (let room = unat (if buf + room0 < buf then 0xffffffff - buf else room0); n = min (length t) (room - 1)
     in if unat buf + length t \<ge> 0x100000000 \<or> length t \<ge> 0x80000000 then Inl Undefined else Inr (length t, if room = 0 then cells
          else (\<lambda>i. if i < n then t ! i else if i = n then CHR 0x00 else cells i)))"
proof -
  define r where "r = (if buf + room0 < buf then 0xffffffff - buf else room0)"
  have "0 < r \<longleftrightarrow> unat r \<noteq> 0" by (simp add: unat_gt_0 word_gt_0 unat_eq_0)
  then show ?thesis
    unfolding rt_vsnprintf_def r_def [symmetric] format_loop_emits emits_cells assms Let_def
    by (auto simp: fun_eq_iff min_def)
qed



section \<open>Decimal numbers read back\<close>

lemma digit_char_decimal:
  assumes "d < 10"
  shows "ISDIGIT (digit_char t d)" "of_char (digit_char t d) = 48 + int d"
proof -
  have "d \<in> {0, 1, 2, 3, 4, 5, 6, 7, 8, 9}" using assms by auto
  then show "ISDIGIT (digit_char t d)" "of_char (digit_char t d) = 48 + int d"
    by (auto simp: digit_char_def ISDIGIT_def)
qed

lemma skip_digit:
  "d < 10 \<Longrightarrow> i * 10 + int d + 48 < 2147483648 \<Longrightarrow> skip_atoi (digit_char t d # s) i = skip_atoi s (i * 10 + int d)"
  by (simp add: digit_char_decimal)

lemma skip_numeral: "n < 2147483600 \<Longrightarrow> skip_atoi (numeral_text t 10 n @ s) 0 = skip_atoi s (int n)"
proof (induction n arbitrary: s rule: less_induct)
  case (less n)
  show ?case
  proof (cases "n < 10")
    case True
    then show ?thesis using skip_digit [of n 0 t s] by (subst numeral_text.simps) simp
  next
    case False
    have n: "int (n div 10) * 10 + int (n mod 10) = int n" by (metis div_mult_mod_eq of_nat_add of_nat_mult of_nat_numeral)
    have "skip_atoi (numeral_text t 10 n @ s) 0 = skip_atoi (digit_char t (n mod 10) # s) (int (n div 10))"
      using False less.IH [of "n div 10" "digit_char t (n mod 10) # s"] less.prems by (subst numeral_text.simps) simp
    also have "\<dots> = skip_atoi s (int (n div 10) * 10 + int (n mod 10))"
      using less.prems n by (intro skip_digit) linarith+
    finally show ?thesis by (simp only: n)
  qed
qed

lemma numeral_length: "n < 10 ^ k \<Longrightarrow> 0 < k \<Longrightarrow> length (numeral_text t 10 n) \<le> k"
proof (induction k arbitrary: n)
  case (Suc k)
  show ?case
  proof (cases "n < 10")
    case False
    then have "k \<noteq> 0" using Suc.prems by (cases k) auto
    moreover have "n div 10 < 10 ^ k" using Suc.prems by (simp add: less_mult_imp_div_less mult.commute)
    ultimately have "length (numeral_text t 10 (n div 10)) \<le> k" using Suc.IH by simp
    then show ?thesis using False by (subst numeral_text.simps) simp
  qed (subst numeral_text.simps, simp)
qed simp

lemma format_text_Nil: "format_text [] args = Inr []"
  by (subst format_text.simps) simp

lemma decimal_text:
  assumes "w \<noteq> 0x80000000"
  shows "format_text ''%d'' [VWord w] =
   Inr ((if sint w < 0 then ''-'' else []) @ numeral_text SIGN 10 (unat (if sint w < 0 then - w else w)))"
proof -
  have f: "flag SIGN SIGN" "\<not> flag PLUS SIGN" "\<not> flag SPACE SIGN" "\<not> flag LEFT SIGN" "\<not> flag ZEROPAD SIGN"
    by (simp_all add: flag_def flag_defs)
  have "read_conv ''d'' [VWord w] =
      Inr (\<lparr>flags = 0, field_width = -1, precision = -1, qualifier = CHR 0x00\<rparr>, ''d'', [VWord w])"
    by (simp add: read_conv_def get_width_def get_precision_def get_qualifier_def ISDIGIT_def)
  then show ?thesis using assms
    by (subst format_text.simps) (simp add: format_text_Nil conv_text_def number_kind_def checked_number_def number_text_def get_num_def sign_of_def f Let_def)
qed

lemma vsnprintf_fits:
  assumes "format_text fmt args = Inr t" and "length t < unat room" and "buf \<le> buf + room" and "length t < 0x80000000"
  shows "rt_vsnprintf buf cells room fmt args =
    Inr (length t, \<lambda>i. if i < length t then t ! i else if i = length t then CHR 0x00 else cells i)"
proof -
  have "0 < room" using assms(2) by (auto simp: word_gt_0)
  moreover have "unat buf + unat room < 4294967296" using assms(3) by (simp add: no_olen_add_nat)
  then have "unat buf + length t < 4294967296" using assms(2) by simp
  ultimately show ?thesis using assms by (auto simp: rt_vsnprintf_def format_loop_emits emits_cells Let_def)
qed

lemma map_text:
  "map (\<lambda>i. if i < length t then t ! i else c i) [0..<length t] = t"
  "map (\<lambda>i. if i < Suc (length t) then (a # t) ! i else c i) [Suc 0..<Suc (length t)] = t"
  by (rule nth_equalityI; auto simp del: upt_Suc)+

lemma sint_split: "sint w = uint w - 4294967296 * of_bool (bit (uint w) 31)" for w :: u32
proof -
  have "uint w mod 4294967296 = uint w" using uint_lt2p [of w] by simp
  then show ?thesis by (simp add: sint_uint signed_take_bit_eq_take_bit_minus take_bit_eq_mod)
qed

lemma unat_magnitude: "int (unat (if sint w < 0 then - w else w)) = \<bar>sint w\<bar>" for w :: u32
proof (cases "sint w < 0")
  case True
  then have "w \<noteq> 0" by auto
  then have "0 < uint w" using uint_ge_0 [of w] word_uint_eq_iff [of w 0] by (simp add: order_less_le)
  moreover have "sint w = uint w - 4294967296"
    using True uint_ge_0 [of w] sint_split [of w] by (cases "bit (uint w) 31") simp_all
  moreover have "uint (- w) = 4294967296 - uint w"
  proof -
    have "uint w mod 4294967296 = uint w" using uint_lt2p [of w] by simp
    then show ?thesis using \<open>0 < uint w\<close> by (simp add: uint_word_ariths zmod_zminus1_eq_if)
  qed
  ultimately show ?thesis using True uint_lt2p [of w] unfolding uint_nat [symmetric] by simp
next
  case False
  then have "sint w = uint w" using uint_lt2p [of w] sint_split [of w] by (cases "bit (uint w) 31") simp_all
  then show ?thesis using False by (simp flip: uint_nat)
qed

text \<open>
  C30. Printing a number with \<open>%d\<close> into a buffer of at least 12 bytes and reading the digits with the
  converter that reads widths and precisions gives its magnitude, and the sign is printed exactly for a negative
  number. The reader adds the character before it takes \<open>'0'\<close> off, so that this is true below 2147483600 only.
\<close>
theorem decimal_roundtrip:
  assumes "12 \<le> unat room" and "buf \<le> buf + room" and "\<bar>sint w\<bar> < 2147483600"
  shows "\<exists>n b. rt_vsnprintf buf cells room ''%d'' [VWord w] = Inr (n, b) \<and> n \<le> 11 \<and> b n = CHR 0x00 \<and>
    (if sint w < 0 then b 0 = CHR ''-'' \<and> skip_atoi (map b [1..<n]) 0 = Inr (- sint w, [])
     else skip_atoi (map b [0..<n]) 0 = Inr (sint w, []))"
proof -
  define m where "m = unat (if sint w < 0 then - w else w)"
  define ds where "ds = numeral_text SIGN 10 m"
  have m: "int m = \<bar>sint w\<bar>" using unat_magnitude [of w] by (simp add: m_def)
  have "length ds \<le> 10" using m assms(3) numeral_length [of m 10 SIGN] by (simp add: ds_def)
  moreover have "skip_atoi ds 0 = Inr (\<bar>sint w\<bar>, [])"
    using skip_numeral [of m SIGN "[]"] m assms(3) by (simp add: ds_def)
  moreover have "format_text ''%d'' [VWord w] = Inr ((if sint w < 0 then ''-'' else []) @ ds)"
  proof -
    have "w \<noteq> 0x80000000"
    proof
      assume "w = 0x80000000"
      then have "sint w = -2147483648" by (simp add: sint_uint)
      then show False using assms(3) by simp
    qed
    then show ?thesis by (simp add: decimal_text ds_def m_def)
  qed
  ultimately show ?thesis
    using assms(1,2) map_text(1) [of ds] map_text(2) [of ds "CHR ''-''"]
    by (cases "sint w < 0") (simp_all add: vsnprintf_fits del: upt_Suc)
qed

text \<open>-2147483599 is printed into twelve bytes and read back.\<close>
theorem decimal_roundtrip_witness:
  "\<exists>n b. rt_vsnprintf 0x20000000 (\<lambda>_. CHR ''x'') 12 ''%d'' [VWord 2147483697] = Inr (n, b) \<and> n \<le> 11 \<and> b n = CHR 0x00 \<and>
    b 0 = CHR ''-'' \<and> skip_atoi (map b [1..<n]) 0 = Inr (2147483599, [])"
proof -
  have "sint (2147483697 :: u32) = -2147483599" by (simp add: sint_uint)
  then show ?thesis
    using decimal_roundtrip [of 12 "0x20000000" 2147483697 "\<lambda>_. CHR ''x''"] by (simp del: upt_Suc)
qed

end
