(* ===== verification/Console.thy ===== *)
theory Console
  imports Serial Format
begin

text \<open>
  The console of the kernel (\<open>rt_kputs\<close>, \<open>rt_kprintf\<close>, \<open>rt_console_set_device\<close> of \<open>kservice.c\<close>) and the input of the shell
  (\<open>finsh_set_device\<close>, \<open>finsh_rx_ind\<close>, \<open>finsh_getchar\<close> of \<open>shell.c\<close>): formatted output, the device layer, the serial driver,
  the semaphore and the scheduler together. The weak \<open>rt_hw_console_output\<close>, which does nothing, is not replaced anywhere.
\<close>

section \<open>Output\<close>

definition RT_DEVICE_OFLAG_RDWR :: u16 where "RT_DEVICE_OFLAG_RDWR = 0x003"
definition RT_CONSOLEBUF_SIZE :: nat where "RT_CONSOLEBUF_SIZE = 256"

text \<open>The drivers of the devices by their objects; \<open>con\<close> is \<open>_console_device\<close>. The first result is that of the call.\<close>

definition rt_console_set_device ::
    "(nat \<Rightarrow> 'd driver) \<Rightarrow> u8 list \<Rightarrow> kernel \<Rightarrow> nat option \<times> device_table \<times> 'd \<Rightarrow> fault + nat option \<times> nat option \<times> device_table \<times> 'd" where
  "rt_console_set_device drv name k st =
     (case st of (con, t, s) \<Rightarrow>
      bind_err (rt_device_find name k t) (\<lambda>new.
        if new = con then Inr (None, con, t, s)
        else case new of None \<Rightarrow> Inr (con, con, t, s)
        | Some i \<Rightarrow>
            bind_err (case con of None \<Rightarrow> Inr (RT_EOK, t, s) | Some j \<Rightarrow> rt_device_close (drv j) j (t, s)) (\<lambda>(_, ts).
            bind_err (rt_device_open (drv i) i (RT_DEVICE_OFLAG_RDWR OR RT_DEVICE_FLAG_STREAM) ts) (\<lambda>(_, ts).
              Inr (con, Some i, ts)))))"

definition rt_console_get_device :: "nat option \<times> device_table \<times> 'd \<Rightarrow> nat option" where
  "rt_console_get_device st = fst st"

definition console_write :: "(nat \<Rightarrow> 'd driver) \<Rightarrow> nat option \<Rightarrow> u8 list \<Rightarrow> device_table \<times> 'd \<Rightarrow> fault + device_table \<times> 'd" where
  "console_write drv con bs ts =
     (case con of None \<Rightarrow> Inr ts
      | Some i \<Rightarrow> bind_err (rt_device_write (drv i) i 0 bs ts) (\<lambda>(_, ts). Inr ts))"

definition rt_kputs :: "(nat \<Rightarrow> 'd driver) \<Rightarrow> nat option \<Rightarrow> u8 list option \<Rightarrow> device_table \<times> 'd \<Rightarrow> fault + device_table \<times> 'd" where
  "rt_kputs drv con str ts = (case str of None \<Rightarrow> Inr ts | Some bs \<Rightarrow> console_write drv con bs ts)"

text \<open>\<open>log_buf\<close> is the static \<open>rt_log_buf\<close>, which lies at \<open>buf\<close>; a call leaves its text there.\<close>

definition rt_kprintf ::
    "(nat \<Rightarrow> 'd driver) \<Rightarrow> nat option \<Rightarrow> u32 \<Rightarrow> string \<Rightarrow> va list \<Rightarrow> (nat \<Rightarrow> char) \<times> device_table \<times> 'd \<Rightarrow> fault + nat \<times> (nat \<Rightarrow> char) \<times> device_table \<times> 'd" where
  "rt_kprintf drv con buf fmt args st =
     (case st of (log_buf, ts) \<Rightarrow>
      bind_err (rt_vsnprintf buf log_buf (of_nat (RT_CONSOLEBUF_SIZE - 1)) fmt args) (\<lambda>(n, log_buf).
        let len = (if n > RT_CONSOLEBUF_SIZE - 1 then RT_CONSOLEBUF_SIZE - 1 else n)
        in bind_err (console_write drv con (map (\<lambda>i. of_char (log_buf i)) [0..<len]) ts) (\<lambda>ts. Inr (len, log_buf, ts))))"

section \<open>Input\<close>

text \<open>
  The device of the shell; \<open>finsh_cb\<close> stands for the function pointer \<open>finsh_rx_ind\<close>. The first component of the result says whether the
  line of the shell is cleared. The message about an unknown name is left out.
\<close>

definition finsh_cb :: nat where "finsh_cb = 1"

definition finsh_set_device ::
    "(nat \<Rightarrow> 'd driver) \<Rightarrow> u8 list \<Rightarrow> kernel \<Rightarrow> nat option \<times> device_table \<times> 'd \<Rightarrow> fault + bool \<times> nat option \<times> device_table \<times> 'd" where
  "finsh_set_device drv name k st =
     (case st of (cur, ts) \<Rightarrow>
      bind_err (rt_device_find name k (fst ts)) (\<lambda>dev.
        case dev of None \<Rightarrow> Inr (False, cur, ts)
        | Some i \<Rightarrow>
            if Some i = cur then Inr (False, cur, ts)
            else
              bind_err (rt_device_open (drv i) i ((RT_DEVICE_OFLAG_RDWR OR RT_DEVICE_FLAG_INT_RX) OR RT_DEVICE_FLAG_STREAM) ts) (\<lambda>(r, ts).
                if r \<noteq> RT_EOK then Inr (False, cur, ts)
                else
                  bind_err (case cur of None \<Rightarrow> Inr ts
                    | Some j \<Rightarrow>
                        bind_err (rt_device_close (drv j) j ts) (\<lambda>(_, ts).
                        bind_err (rt_device_set_rx_indicate j None ts) (\<lambda>(_, ts). Inr ts))) (\<lambda>ts.
                  bind_err (rt_device_set_rx_indicate i (Some finsh_cb) ts) (\<lambda>(_, ts).
                    Inr (True, Some i, ts))))))"

definition finsh_rx_ind :: "sem \<times> kernel \<Rightarrow> fault + sem \<times> kernel" where
  "finsh_rx_ind sk = (case sk of (s, k) \<Rightarrow> bind_err (rt_sem_release s k) (\<lambda>(_, s, k). Inr (s, k)))"

text \<open>
  \<open>finsh_getchar\<close>, call after call, on a device that stays the same: a read of one byte, and while there is none a wait for
  the semaphore, whose result is ignored. The shell is between two steps where its \<open>pc\<close> says: about to read, about to
  take the semaphore, or in the call that has given up the processor.
\<close>

datatype getchar_pc = Reading | Taking | Waiting

record input =
  table :: device_table
  serial :: "usart serial"
  rx_sem :: sem
  kern :: kernel
  pc :: getchar_pc
  got :: "u8 list"

definition getchar_step :: "usart serial driver \<Rightarrow> nat \<Rightarrow> input \<Rightarrow> fault + input" where
  "getchar_step drv i st =
     (case pc st of
        Reading \<Rightarrow>
          bind_err (rt_device_read drv i (- 1) 1 (table st, serial st)) (\<lambda>((bs, _), t, s).
            Inr (st\<lparr>table := t, serial := s, pc := if length bs = 1 then Reading else Taking, got := got st @ bs\<rparr>))
      | Taking \<Rightarrow>
          bind_err (rt_sem_take (rx_sem st) (- 1) (kern st)) (\<lambda>(r, sem, k).
            Inr (st\<lparr>rx_sem := sem, kern := k, pc := case r of Returned _ \<Rightarrow> Reading | Switched \<Rightarrow> Waiting\<rparr>))
      | Waiting \<Rightarrow> Inr (st\<lparr>pc := Reading\<rparr>))"

text \<open>The interrupt of the UART with the callback of the shell.\<close>

definition uart_interrupt :: "usart uart_ops \<Rightarrow> nat \<Rightarrow> input \<Rightarrow> fault + input" where
  "uart_interrupt ops i st =
     bind_err (uart_isr ops (devices (table st) i, serial st)) (\<lambda>(cb, d, s).
       let st = st\<lparr>table := (table st)\<lparr>devices := (devices (table st))(i := d)\<rparr>, serial := s\<rparr>
       in case cb of None \<Rightarrow> Inr st
          | Some (f, len) \<Rightarrow>
              if f = finsh_cb then bind_err (finsh_rx_ind (rx_sem st, kern st)) (\<lambda>(sem, k). Inr (st\<lparr>rx_sem := sem, kern := k\<rparr>))
              else Inr st)"

text \<open>
  What happens: a byte arrives on the line, the interrupt of the UART, a step of the shell, which it makes only when it is the
  running thread \<open>sh\<close>, a tick, and another thread that sleeps. An interrupt that resumes the shell schedules at its end.
\<close>

datatype input_event = LineByte u8 | UartInterrupt | ShellRuns | TickPasses | OtherSleeps u32

definition input_step :: "usart uart_ops \<Rightarrow> usart serial driver \<Rightarrow> (nat \<Rightarrow> kernel \<Rightarrow> fault + kernel) \<Rightarrow> nat \<Rightarrow> nat \<Rightarrow> input_event \<Rightarrow> input \<Rightarrow> fault + input" where
  "input_step ops drv own i sh e st =
     (case e of
        LineByte b \<Rightarrow> Inr (st\<lparr>serial := (serial st)\<lparr>hw := byte_arrives b (hw (serial st))\<rparr>\<rparr>)
      | UartInterrupt \<Rightarrow> uart_interrupt ops i st
      | ShellRuns \<Rightarrow> if rt_current_thread (kern st) = Some sh then getchar_step drv i st else Inr st
      | TickPasses \<Rightarrow> bind_err (returned (rt_tick_increase own (kern st))) (\<lambda>k. Inr (st\<lparr>kern := k\<rparr>))
      | OtherSleeps n \<Rightarrow>
          if rt_current_thread (kern st) \<in> {None, Some sh, Some idle_thread} \<or> n \<ge> RT_TICK_HALF then Inr st
          else bind_err (rt_thread_sleep n (kern st)) (\<lambda>k. Inr (st\<lparr>kern := k\<rparr>)))"

section \<open>Properties of the output\<close>

lemma console_write_sends:
  assumes "is_device i t" "ref_count (devices t i) \<noteq> 0" "frame_time (hw s) = Some n" "serial_ok (devices t i) s"
  shows "\<exists>w. console_write (\<lambda>_. serial_driver (stm32_uart_ops hal mem) at_addr) (Some i) bs (t, s) = Inr (t, s\<lparr>hw := w\<rparr>) \<and>
    sent w = sent (hw s) @ crlf (on (open_flag (devices t i)) RT_DEVICE_FLAG_STREAM) bs"
proof -
  obtain w where "rt_device_write (serial_driver (stm32_uart_ops hal mem) at_addr) i 0 bs (t, s) =
      Inr ((of_nat (length bs), None), t, s\<lparr>hw := w\<rparr>)"
    "sent w = sent (hw s) @ crlf (on (open_flag (devices t i)) RT_DEVICE_FLAG_STREAM) bs"
    using serial_write_sends [OF assms] by metis
  then show ?thesis by (auto simp: console_write_def)
qed

text \<open>
  \<open>rt_kprintf\<close> on an open serial console whose transmitter is on sends the formatted text, with carriage returns
  before line feeds in stream mode, and returns its length, when the text is shorter than 255 characters. A longer
  text is cut to its first 254 characters, and the terminator of the buffer is sent after them: the result is 255.
\<close>

theorem kprintf_prints:
  assumes "is_device i t" "ref_count (devices t i) \<noteq> 0" "frame_time (hw s) = Some n" "serial_ok (devices t i) s"
    and "buf \<le> buf + 255" "format_text fmt args = Inr txt" "unat buf + length txt < 0x100000000" "length txt < 0x80000000"
  shows "\<exists>w log_buf'. rt_kprintf (\<lambda>_. serial_driver (stm32_uart_ops hal mem) at_addr) (Some i) buf fmt args (log_buf, t, s) =
      Inr (min (length txt) 255, log_buf', t, s\<lparr>hw := w\<rparr>) \<and>
    sent w = sent (hw s) @ crlf (on (open_flag (devices t i)) RT_DEVICE_FLAG_STREAM)
      (if length txt < 255 then map of_char txt else map of_char (take 254 txt) @ [0])"
proof -
  let ?m = "min (length txt) 254"
  let ?buf = "\<lambda>j. if j < ?m then txt ! j else if j = ?m then CHR 0x00 else log_buf j"
  have v: "rt_vsnprintf buf log_buf (of_nat (RT_CONSOLEBUF_SIZE - 1)) fmt args = Inr (length txt, ?buf)"
  proof -
    have "\<not> buf + 255 < buf" using assms(5) by simp
    then show ?thesis using assms(7,8) by (simp add: vsnprintf_text [OF assms(6)] RT_CONSOLEBUF_SIZE_def Let_def cong: if_cong)
  qed
  let ?bs = "map (\<lambda>j. of_char (?buf j)) [0..<min (length txt) 255] :: u8 list"
  have bs: "?bs = (if length txt < 255 then map of_char txt else map of_char (take 254 txt) @ [0])"
  proof (cases "length txt < 255")
    case True
    then show ?thesis by (auto intro: nth_equalityI)
  next
    case False
    have "[0..<255 :: nat] = [0..<254] @ [254]" by (simp add: upt_Suc_append [of 0 254, simplified])
    with False show ?thesis by (auto intro!: nth_equalityI)
  qed
  obtain w where "console_write (\<lambda>_. serial_driver (stm32_uart_ops hal mem) at_addr) (Some i) ?bs (t, s) = Inr (t, s\<lparr>hw := w\<rparr>)"
    "sent w = sent (hw s) @ crlf (on (open_flag (devices t i)) RT_DEVICE_FLAG_STREAM) ?bs"
    using console_write_sends [OF assms(1-4), of hal mem at_addr ?bs] by blast
  moreover have "(if length txt > RT_CONSOLEBUF_SIZE - 1 then RT_CONSOLEBUF_SIZE - 1 else length txt) = min (length txt) 255"
    by (simp add: RT_CONSOLEBUF_SIZE_def min_def)
  ultimately show ?thesis unfolding rt_kprintf_def prod.case v bind_err_simps Let_def bs [symmetric]
    by (intro exI [of _ w] exI [of _ ?buf]) simp
qed

theorem kprintf_prints_witness:
  "\<exists>w log_buf'. rt_kprintf (\<lambda>_. serial_driver (stm32_uart_ops (\<lambda>_ w. (True, w)) (\<lambda>_. True)) (\<lambda>_. None)) (Some 1) 0x20000000 ''OK'' []
      (\<lambda>_. CHR ''x'', one_device\<lparr>devices := (devices one_device)(1 := (devices no_devices 1)\<lparr>open_flag := 0x4b, ref_count := 1\<rparr>)\<rparr>, demo_serial) =
      Inr (2, log_buf', one_device\<lparr>devices := (devices one_device)(1 := (devices no_devices 1)\<lparr>open_flag := 0x4b, ref_count := 1\<rparr>)\<rparr>,
        demo_serial\<lparr>hw := w\<rparr>) \<and> sent w = [79, 75]"
  (is "\<exists>w b. rt_kprintf ?drv _ _ _ _ (_, ?t, _) = _ \<and> _")
proof -
  have d: "devices ?t 1 = (devices no_devices 1)\<lparr>open_flag := 0x4b, ref_count := 1\<rparr>" by simp
  have "is_device 1 ?t" using one_device_is by (simp add: is_device_def)
  moreover have "frame_time (hw demo_serial) = Some 3" "sent (hw demo_serial) = []" by (simp_all add: demo_serial_def quiet_def)
  moreover have "serial_ok (devices ?t 1) demo_serial" unfolding d by (simp add: serial_ok_def on_bits)
  moreover have "format_text ''OK'' [] = Inr ''OK''" by code_simp
  ultimately show ?thesis
    using kprintf_prints [of 1 ?t demo_serial 3 "0x20000000" "''OK''" "[]" "''OK''" "\<lambda>_ w. (True, w)" "\<lambda>_. True" "\<lambda>_. None" "\<lambda>_. CHR ''x''"]
    by auto
qed

section \<open>Properties of the input\<close>

text \<open>A sleep of another thread.\<close>

lemma sem_inv_sleep:
  assumes k: "sem_inv s k" and c: "rt_current_thread k = Some c" "c \<noteq> idle_thread" and n: "tick < RT_TICK_HALF"
  obtains k' where "rt_thread_sleep tick k = Inr k'" "sem_inv s k'" "waiting s k' = waiting s k"
proof -
  note ck = sem_inv_calls [OF k]
  note a = calls_inv_sel [OF ck]
  have r: "stat (tcbs k c) = RT_THREAD_RUNNING" using calls_inv_running [OF ck] c(1) by auto
  have i: "stat (tcbs k idle_thread) = RT_THREAD_READY" using calls_inv_running [OF ck] c by (metis option.inject)
  obtain k' where k': "rt_thread_sleep tick k = Inr k'" "kernel_inv k'" "settled k'"
    "\<And>t. t \<noteq> c \<Longrightarrow> untouched k k' t" "rt_scheduler_lock_nest k' = rt_scheduler_lock_nest k"
    "\<And>w. links k' (Wait w) = links k (Wait w)" "rt_interrupt_nest k' = rt_interrupt_nest k"
    using rt_thread_sleep_ok [OF a(1) c(1) r n i] by metis
  have "untouched k k' idle_thread" using k'(4) [of idle_thread] c(2) by auto
  then have "calls_inv k'"
    using k' a settled_runs [OF k'(3)] by (simp add: calls_inv_def untouched_def same_threads_def)
  moreover have "error (tcbs k' t) = error (tcbs k t)" if "t \<in> set (waiting s k)" for t
  proof -
    have "t \<noteq> c" using waiting_not_running [OF ck r] that by auto
    then show ?thesis using k'(4) [of t] by (simp add: untouched_def same_threads_def)
  qed
  ultimately have "sem_inv s k'" using k k'(3,6) by (simp add: sem_inv_def)
  then show thesis using that k'(1,6) by blast
qed

text \<open>
  The invariant, with the specification of the line: a byte in the FIFO is always announced, by a shell that is not waiting, and,
  when it is about to take the semaphore, by a semaphore that lets it through.
\<close>

definition input_inv :: "u16 \<Rightarrow> nat \<Rightarrow> nat \<Rightarrow> input \<Rightarrow> line_spec \<Rightarrow> bool" where
  "input_inv n i sh st a \<longleftrightarrow>
     is_device i (table st) \<and> ref_count (devices (table st) i) \<noteq> 0 \<and> rx_indicate (devices (table st) i) = Some finsh_cb \<and>
     line_view n (got st, devices (table st) i, serial st) a \<and>
     sem_inv (rx_sem st) (kern st) \<and> sh \<noteq> idle_thread \<and> set (waiting (rx_sem st) (kern st)) \<subseteq> {sh} \<and>
     (pc st \<noteq> Waiting \<longrightarrow> waiting (rx_sem st) (kern st) = []) \<and>
     (queued a \<noteq> [] \<longrightarrow> waiting (rx_sem st) (kern st) = [] \<and> (pc st = Taking \<longrightarrow> sem_value (rx_sem st) > 0))"

lemma device_read_view:
  assumes "input_inv n i sh st a"
  shows "\<exists>s'. rt_device_read (serial_driver ops at_addr) i (- 1) 1 (table st, serial st) = Inr ((take 1 (queued a), None), table st, s') \<and>
    line_view n (got st @ take 1 (queued a), devices (table st) i, s')
      (a\<lparr>delivered := delivered a @ take 1 (queued a), queued := drop 1 (queued a)\<rparr>)"
proof -
  have "line_view n (got st, devices (table st) i, serial st) a" using assms by (simp add: input_inv_def)
  from read_view [OF this, of ops "- 1" 1] assms show ?thesis
    by (auto simp: input_inv_def rt_device_read_def with_device_def serial_driver_def)
qed

lemma getchar_step_inv:
  assumes v: "input_inv n i sh st a" and c: "rt_current_thread (kern st) = Some sh"
  shows "\<exists>st' a'. getchar_step (serial_driver ops at_addr) i st = Inr st' \<and> input_inv n i sh st' a' \<and>
    (if pc st = Reading then spec_step (unat n - 1) (ReadBytes 1) a = Some a' \<and> kern st' = kern st \<and> got st' = got st @ take 1 (queued a)
     else a' = a \<and> (queued a \<noteq> [] \<longrightarrow> pc st' = Reading \<and> kern st' = kern st) \<and> got st' = got st)"
proof (cases "pc st")
  case Reading
  obtain s' where s': "rt_device_read (serial_driver ops at_addr) i (- 1) 1 (table st, serial st) =
      Inr ((take 1 (queued a), None), table st, s')"
    "line_view n (got st @ take 1 (queued a), devices (table st) i, s')
      (a\<lparr>delivered := delivered a @ take 1 (queued a), queued := drop 1 (queued a)\<rparr>)" using device_read_view [OF v] by blast
  have l: "length (take 1 (queued a)) = 1 \<longleftrightarrow> queued a \<noteq> []" by (cases "queued a") auto
  show ?thesis using v s' l Reading by (auto simp: getchar_step_def input_inv_def)
next
  case Taking
  have k: "sem_inv (rx_sem st) (kern st)" "sh \<noteq> idle_thread" "waiting (rx_sem st) (kern st) = []"
    using v Taking by (auto simp: input_inv_def)
  show ?thesis
  proof (cases "sem_value (rx_sem st) > 0")
    case True
    then have "rt_sem_take (rx_sem st) (- 1) (kern st) =
        Inr (Returned RT_EOK, (rx_sem st)\<lparr>sem_value := sem_value (rx_sem st) - 1\<rparr>, kern st)" by (simp add: rt_sem_take_def)
    moreover have "sem_inv ((rx_sem st)\<lparr>sem_value := sem_value (rx_sem st) - 1\<rparr>) (kern st)" using k(1,3) by (simp add: sem_inv_def)
    ultimately show ?thesis using v Taking by (auto simp: getchar_step_def input_inv_def)
  next
    case False
    then have z: "sem_value (rx_sem st) = 0" by (simp add: word_gt_0)
    have lt: "legal_time (- 1)" by (simp add: legal_time_def)
    obtain k' where k': "rt_sem_take (rx_sem st) (- 1) (kern st) = Inr (Switched, rx_sem st, k')" "sem_inv (rx_sem st) k'"
      "waits_in (suspend_thread (rx_sem st)) (joined (ipc_flag (rx_sem st)) (\<lambda>u. current_priority (tcbs (kern st) u)) sh
         (waiting (rx_sem st) (kern st))) (- 1) sh (set_error sh RT_EOK (kern st)) k'"
      using sem_take_waits [OF k(1) c k(2) lt z] by auto
    have "set (waiting (rx_sem st) k') \<subseteq> {sh}" using k'(3) k(3) by (simp add: waits_in_def)
    then show ?thesis using v Taking k' z by (auto simp: getchar_step_def input_inv_def)
  qed
next
  case Waiting
  have "sh \<notin> set (waiting (rx_sem st) (kern st))"
    using v c calls_inv_running [OF sem_inv_calls] waiting_not_running sem_inv_calls by (metis input_inv_def option.inject)
  then have "waiting (rx_sem st) (kern st) = []" using v by (cases "waiting (rx_sem st) (kern st)") (auto simp: input_inv_def)
  then show ?thesis using v Waiting by (auto simp: getchar_step_def input_inv_def)
qed

lemma finsh_rx_ind_ok:
  assumes k: "sem_inv s k" and w: "set (waiting s k) \<subseteq> {sh}"
  shows "\<exists>s' k'. finsh_rx_ind (s, k) = Inr (s', k') \<and> sem_inv s' k' \<and> waiting s' k' = [] \<and> (waiting s k = [] \<longrightarrow> sem_value s' > 0)"
proof (cases "waiting s k")
  case Nil
  show ?thesis
  proof (cases "sem_value s < RT_SEM_VALUE_MAX")
    case True
    then have "unat (sem_value s + 1) = unat (sem_value s) + 1"
      by (simp add: RT_SEM_VALUE_MAX_def word_less_nat_alt unat_word_ariths)
    then have "sem_value s + 1 > 0" by (simp add: word_less_nat_alt)
    then show ?thesis using k Nil True by (simp add: finsh_rx_ind_def rt_sem_release_def sem_inv_def)
  next
    case False
    then have "sem_value s > 0" by (auto simp: RT_SEM_VALUE_MAX_def word_gt_0)
    then show ?thesis using k Nil False by (simp add: finsh_rx_ind_def rt_sem_release_def)
  qed
next
  case (Cons t ts)
  have "distinct (t # ts)" using waiting_distinct [OF calls_inv_sel(1) [OF sem_inv_calls [OF k]], of "suspend_thread s"] Cons by simp
  then have "ts = []" using w Cons by (cases ts) auto
  moreover obtain k' where "rt_sem_release s k = Inr (RT_EOK, s, k')" "sem_inv s k'" "waiting s k' = ts"
    using sem_release_wakes [OF k Cons] by metis
  ultimately show ?thesis using Cons by (auto simp: finsh_rx_ind_def)
qed

lemma uart_interrupt_inv:
  assumes v: "input_inv n i sh st a"
  shows "\<exists>st' a'. uart_interrupt (stm32_uart_ops hal mem) i st = Inr st' \<and> input_inv n i sh st' a' \<and> spec_step (unat n - 1) Interrupt a = Some a'"
proof -
  let ?a = "case register a of None \<Rightarrow> a | Some b \<Rightarrow> a\<lparr>queued := push_drop (unat n - 1) (queued a) b, register := None\<rparr>"
  have l: "line_view n (got st, devices (table st) i, serial st) a" and cb: "rx_indicate (devices (table st) i) = Some finsh_cb"
    using v by (simp_all add: input_inv_def)
  obtain s' where s': "uart_isr (stm32_uart_ops hal mem) (devices (table st) i, serial st) =
      Inr (if register a = None then None else Some (finsh_cb, rx_length n (the (serial_rx s'))), devices (table st) i, s')"
    "line_view n (got st, devices (table st) i, s') ?a" using isr_view [OF l, of hal mem] cb by auto
  show ?thesis
  proof (cases "register a")
    case None
    then show ?thesis using v s' by (auto simp: uart_interrupt_def input_inv_def Let_def)
  next
    case (Some b)
    obtain sem k where sk: "finsh_rx_ind (rx_sem st, kern st) = Inr (sem, k)" "sem_inv sem k" "waiting sem k = []"
      "waiting (rx_sem st) (kern st) = [] \<longrightarrow> sem_value sem > 0"
      using finsh_rx_ind_ok [of "rx_sem st" "kern st" sh] v by (auto simp: input_inv_def)
    then show ?thesis using v s' Some by (auto simp: uart_interrupt_def input_inv_def Let_def)
  qed
qed

definition line_bytes :: "input_event list \<Rightarrow> u8 list" where
  "line_bytes es = concat (map (\<lambda>e. case e of LineByte b \<Rightarrow> [b] | _ \<Rightarrow> []) es)"

lemma spec_step_subseq:
  assumes "spec_step m e a = Some a'"
  shows "subseq (in_line a') (in_line a @ arrivals [e])"
  using spec_run_subseq [of m a "[e]"] assms by simp

lemma input_step_inv:
  assumes v: "input_inv n i sh st a"
  shows "\<exists>st' a'. input_step (stm32_uart_ops hal mem) (serial_driver (stm32_uart_ops hal mem) at_addr) own i sh e st = Inr st' \<and>
    input_inv n i sh st' a' \<and> subseq (in_line a') (in_line a @ line_bytes [e])"
proof (cases e)
  case (LineByte b)
  have l: "line_view n (got st, devices (table st) i, serial st) a" using v by (simp add: input_inv_def)
  obtain a' where a': "spec_step (unat n - 1) (Arrive b) a = Some a'" by simp
  have "line_view n (got st, devices (table st) i, (serial st)\<lparr>hw := byte_arrives b (hw (serial st))\<rparr>) a'"
    using line.step_rel [OF l a', of hal mem] by (simp add: line_step_def)
  moreover have "queued a' = queued a" using a' by (auto split: if_splits)
  ultimately have "input_inv n i sh (st\<lparr>serial := (serial st)\<lparr>hw := byte_arrives b (hw (serial st))\<rparr>\<rparr>) a'"
    using v by (simp add: input_inv_def)
  then show ?thesis using spec_step_subseq [OF a'] by (auto simp: input_step_def LineByte line_bytes_def arrivals_def)
next
  case UartInterrupt
  then show ?thesis
    using uart_interrupt_inv [OF v, of hal mem] spec_step_subseq [of "unat n - 1" Interrupt a]
    by (auto simp: input_step_def line_bytes_def arrivals_def simp del: spec_step.simps)
next
  case ShellRuns
  show ?thesis
  proof (cases "rt_current_thread (kern st) = Some sh")
    case True
    from getchar_step_inv [OF v True, of "stm32_uart_ops hal mem" at_addr] obtain st' a' where
      "getchar_step (serial_driver (stm32_uart_ops hal mem) at_addr) i st = Inr st'" "input_inv n i sh st' a'"
      "spec_step (unat n - 1) (ReadBytes 1) a = Some a' \<or> a' = a" by (metis (full_types))
    then show ?thesis using True spec_step_subseq [of "unat n - 1" "ReadBytes 1" a a']
      by (auto simp: input_step_def ShellRuns line_bytes_def arrivals_def simp del: spec_step.simps)
  next
    case False
    then show ?thesis using v by (auto simp: input_step_def ShellRuns line_bytes_def)
  qed
next
  case TickPasses
  have "sem_inv (rx_sem st) (kern st)" using v by (simp add: input_inv_def)
  from sem_inv_tick [OF this, of own] obtain k' where k': "rt_tick_increase own (kern st) = Some (Inr k')" "sem_inv (rx_sem st) k'"
    "waiting (rx_sem st) k' = filter (\<lambda>t. \<not> expires (kern st) t) (waiting (rx_sem st) (kern st))" by metis
  then have "input_inv n i sh (st\<lparr>kern := k'\<rparr>) a" using v by (auto simp: input_inv_def)
  then show ?thesis using k'(1) by (auto simp: input_step_def TickPasses returned_def line_bytes_def)
next
  case (OtherSleeps tick)
  show ?thesis
  proof (cases "rt_current_thread (kern st) \<in> {None, Some sh, Some idle_thread} \<or> tick \<ge> RT_TICK_HALF")
    case True
    then show ?thesis using v by (auto simp: input_step_def OtherSleeps line_bytes_def)
  next
    case False
    then obtain c where c: "rt_current_thread (kern st) = Some c" "c \<noteq> idle_thread" "tick < RT_TICK_HALF" by (cases "rt_current_thread (kern st)") auto
    have "sem_inv (rx_sem st) (kern st)" using v by (simp add: input_inv_def)
    from sem_inv_sleep [OF this c] obtain k' where "rt_thread_sleep tick (kern st) = Inr k'" "sem_inv (rx_sem st) k'"
      "waiting (rx_sem st) k' = waiting (rx_sem st) (kern st)" by metis
    then show ?thesis using v False by (auto simp: input_step_def OtherSleeps line_bytes_def input_inv_def)
  qed
qed

lemma input_run_inv:
  assumes "input_inv n i sh st a"
  shows "\<exists>st' a'. run_err (input_step (stm32_uart_ops hal mem) (serial_driver (stm32_uart_ops hal mem) at_addr) own i sh) st es = Inr st' \<and>
    input_inv n i sh st' a' \<and> subseq (in_line a') (in_line a @ line_bytes es)"
  using assms
proof (induction es arbitrary: st a)
  case Nil
  then show ?case by (auto simp: line_bytes_def)
next
  case (Cons e es)
  obtain st1 a1 where 1: "input_step (stm32_uart_ops hal mem) (serial_driver (stm32_uart_ops hal mem) at_addr) own i sh e st = Inr st1"
    "input_inv n i sh st1 a1" "subseq (in_line a1) (in_line a @ line_bytes [e])" using input_step_inv [OF Cons.prems] by blast
  obtain st' a' where 2: "run_err (input_step (stm32_uart_ops hal mem) (serial_driver (stm32_uart_ops hal mem) at_addr) own i sh) st1 es = Inr st'"
    "input_inv n i sh st' a'" "subseq (in_line a') (in_line a1 @ line_bytes es)" using Cons.IH [OF 1(2)] by blast
  have "line_bytes (e # es) = line_bytes [e] @ line_bytes es" by (simp add: line_bytes_def)
  then have "subseq (in_line a') (in_line a @ line_bytes (e # es))"
    using subseq_order.order_trans [OF 2(3)] list_emb_append_mono [OF 1(3), of "line_bytes es" "line_bytes es"] by simp
  then show ?case using 1(1) 2(1,2) by auto
qed

lemma shell_delivers:
  assumes v: "input_inv n i sh st a" and c: "rt_current_thread (kern st) = Some sh" and q: "queued a = b # bs"
  shows "\<exists>j \<le> 2. \<exists>st'. run_err (input_step ops (serial_driver ops at_addr) own i sh) st (replicate j ShellRuns) = Inr st' \<and> got st' = got st @ [b]"
proof -
  have read: "\<exists>st'. input_step ops (serial_driver ops at_addr) own i sh ShellRuns x = Inr st' \<and> got st' = got x @ [b]"
    if "input_inv n i sh x a" "rt_current_thread (kern x) = Some sh" "pc x = Reading" for x
    using getchar_step_inv [OF that(1,2), of ops at_addr] that(2,3) q by (auto simp: input_step_def)
  show ?thesis
  proof (cases "pc st = Reading")
    case True
    then show ?thesis using read [OF v c] by (intro exI [of _ 1]) auto
  next
    case False
    then obtain st1 where 1: "getchar_step (serial_driver ops at_addr) i st = Inr st1" "input_inv n i sh st1 a" "pc st1 = Reading"
      "kern st1 = kern st" "got st1 = got st" using getchar_step_inv [OF v c, of ops at_addr] q by auto
    then obtain st' where "input_step ops (serial_driver ops at_addr) own i sh ShellRuns st1 = Inr st'" "got st' = got st1 @ [b]"
      using read [OF 1(2)] c by auto
    then show ?thesis using 1(1,5) c by (intro exI [of _ 2]) (auto simp: input_step_def numeral_2_eq_2)
  qed
qed

text \<open>The start: the device open for interrupt reception with an empty FIFO, the callback set, and the shell about to read.\<close>

definition input_start :: "u16 \<Rightarrow> nat \<Rightarrow> nat \<Rightarrow> input \<Rightarrow> bool" where
  "input_start n i sh st \<longleftrightarrow>
     is_device i (table st) \<and> ref_count (devices (table st) i) \<noteq> 0 \<and> rx_indicate (devices (table st) i) = Some finsh_cb \<and>
     on (open_flag (devices (table st) i)) RT_DEVICE_FLAG_INT_RX \<and>
     bufsz (config (serial st)) = n \<and> 2 \<le> unat n \<and> serial_rx (serial st) = Some (new_fifo n) \<and>
     RXNEIE (hw (serial st)) \<and> \<not> RXNE (hw (serial st)) \<and>
     sem_inv (rx_sem st) (kern st) \<and> waiting (rx_sem st) (kern st) = [] \<and> sh \<noteq> idle_thread \<and> pc st = Reading \<and> got st = []"

lemma input_start_inv: "input_start n i sh st \<Longrightarrow> input_inv n i sh st \<lparr>delivered = [], queued = [], register = None\<rparr>"
  using new_fifo_holds [of n] by (simp add: input_start_def input_inv_def line_view_def)

abbreviation shell_step ::
    "(uart_init \<Rightarrow> usart \<Rightarrow> bool \<times> usart) \<Rightarrow> (u32 \<Rightarrow> bool) \<Rightarrow> (u32 \<Rightarrow> serial_configure option) \<Rightarrow>
     (nat \<Rightarrow> kernel \<Rightarrow> fault + kernel) \<Rightarrow> nat \<Rightarrow> nat \<Rightarrow> input_event \<Rightarrow> input \<Rightarrow> fault + input" where
  "shell_step hal mem at_addr own i sh \<equiv> input_step (stm32_uart_ops hal mem) (serial_driver (stm32_uart_ops hal mem) at_addr) own i sh"

text \<open>
  C21. No wake-up of the shell is lost. From a device open for interrupt reception with an empty FIFO of at least 2 cells and
  the callback \<open>finsh_rx_ind\<close>, no waiter on the semaphore and the shell, not the idle thread, about to read, and in any
  order of bytes on the line, UART interrupts, steps of the shell, ticks and sleeps of others: nothing faults; the
  bytes the shell got are a part, in order, of those on the line; while it waits for the semaphore the FIFO is empty; when
  it is not and the shell is running, its first byte is delivered within two steps.
\<close>

theorem getchar_no_lost_wakeup:
  assumes "input_start n i sh st"
  shows "\<exists>st' f q. run_err (shell_step hal mem at_addr own i sh) st es = Inr st' \<and> serial_rx (serial st') = Some f \<and> fifo_holds n f q \<and>
    subseq (got st') (line_bytes es) \<and>
    (sh \<in> set (waiting (rx_sem st') (kern st')) \<longrightarrow> q = []) \<and>
    (q \<noteq> [] \<and> rt_current_thread (kern st') = Some sh \<longrightarrow>
      (\<exists>j \<le> 2. \<exists>st''. run_err (shell_step hal mem at_addr own i sh) st' (replicate j ShellRuns) = Inr st'' \<and> got st'' = got st' @ [hd q]))"
proof -
  obtain st' a' where run: "run_err (shell_step hal mem at_addr own i sh) st es = Inr st'" and v: "input_inv n i sh st' a'" and sub: "subseq (in_line a') (line_bytes es)"
    using input_run_inv [OF input_start_inv [OF assms], of hal mem at_addr own es] by (auto simp: in_line_def)
  have l: "line_view n (got st', devices (table st') i, serial st') a'" using v by (simp add: input_inv_def)
  then obtain f where f: "serial_rx (serial st') = Some f" "fifo_holds n f (queued a')" by (auto simp: line_view_def)
  have "got st' = delivered a'" using l by (simp add: line_view_def)
  then have "subseq (got st') (in_line a')" using subseq_append' [of "delivered a'" "[]"] by (simp add: in_line_def)
  then have "subseq (got st') (line_bytes es)" using sub subseq_order.order_trans by blast
  moreover have "sh \<in> set (waiting (rx_sem st') (kern st')) \<longrightarrow> queued a' = []" using v by (auto simp: input_inv_def)
  moreover have "queued a' \<noteq> [] \<and> rt_current_thread (kern st') = Some sh \<longrightarrow>
      (\<exists>j \<le> 2. \<exists>st''. run_err (shell_step hal mem at_addr own i sh) st' (replicate j ShellRuns) = Inr st'' \<and> got st'' = got st' @ [hd (queued a')])"
    using shell_delivers [OF v, of "hd (queued a')" "tl (queued a')" "stm32_uart_ops hal mem" at_addr own] by auto
  ultimately show ?thesis using run f by blast
qed

text \<open>Thread 2 of the demonstration kernel as the shell: it reads, waits, and a byte comes.\<close>

definition demo_input :: input where
  "demo_input = \<lparr>table = one_device\<lparr>devices := (devices one_device)(1 := \<lparr>dev_class = 0, dev_flag = 0x513, open_flag = 0x14b,
      ref_count = 2, rx_indicate = Some finsh_cb, tx_complete = None\<rparr>)\<rparr>, serial = demo_serial, rx_sem = demo_sem 0, kern = demo,
     pc = Reading, got = []\<rparr>"

lemma demo_input_start: "input_start 64 1 2 demo_input"
proof -
  have "is_device 1 (table demo_input)" using one_device_is by (simp add: demo_input_def is_device_def)
  moreover have "waiting (rx_sem demo_input) (kern demo_input) = []" by (simp add: demo_input_def demo_sem_def demo_def)
  moreover have "sem_inv (rx_sem demo_input) (kern demo_input)" using demo_sem_inv by (simp add: demo_input_def)
  ultimately show ?thesis
    unfolding input_start_def by (simp add: demo_input_def demo_serial_def quiet_def on_bits demo_runs(2))
qed

theorem getchar_no_lost_wakeup_witness:
  "\<exists>st' f q. run_err (shell_step (\<lambda>_ w. (True, w)) (\<lambda>_. True) (\<lambda>_. None) (\<lambda>_. Inr) 1 2) demo_input
      [ShellRuns, ShellRuns, LineByte 104, UartInterrupt, ShellRuns, ShellRuns] = Inr st' \<and>
    serial_rx (serial st') = Some f \<and> fifo_holds 64 f q \<and> subseq (got st') [104]"
  using getchar_no_lost_wakeup [OF demo_input_start, of "\<lambda>_ w. (True, w)" "\<lambda>_. True" "\<lambda>_. None" "\<lambda>_. Inr"
      "[ShellRuns, ShellRuns, LineByte 104, UartInterrupt, ShellRuns, ShellRuns]"] by (auto simp: line_bytes_def)

section \<open>The start of the system\<close>

text \<open>The two opens, each by itself; the device has the flags \<open>rt_hw_usart_init\<close> gives it.\<close>

definition registered_uart :: device where
  "registered_uart = \<lparr>dev_class = 0, dev_flag = 0x503, open_flag = 0, ref_count = 0, rx_indicate = None, tx_complete = None\<rparr>"

lemma console_opens:
  assumes "hal (uart_settings (config s)) (hw s) = (True, w)"
  shows "open_device (serial_driver (stm32_uart_ops hal mem) at_addr) 0x43 (registered_uart, s) =
    Inr (RT_EOK, registered_uart\<lparr>dev_flag := 0x513, open_flag := 0x4b, ref_count := 1\<rparr>, s\<lparr>serial_rx := None, serial_tx := False, hw := w\<rparr>)"
  using assms
  by (simp add: open_device_def serial_driver_def rt_serial_init_def stm32_uart_ops_def stm32_configure_def activate_def open_activated_def
      rt_serial_open_def open_rx_def open_tx_def Let_def registered_uart_def serial_flags err_defs RT_EIO_def)

lemma shell_opens:
  assumes "serial_rx s = None" "\<not> serial_tx s" "mem (12 + ucast (bufsz (config s)))"
  shows "open_device (serial_driver (stm32_uart_ops hal mem) at_addr) 0x143
      (registered_uart\<lparr>dev_flag := 0x513, open_flag := 0x4b, ref_count := 1\<rparr>, s) =
    Inr (RT_EOK, registered_uart\<lparr>dev_flag := 0x513, open_flag := 0x14b, ref_count := 2\<rparr>,
      s\<lparr>serial_rx := Some (new_fifo (bufsz (config s))), serial_tx := False, hw := (hw s)\<lparr>irq_enabled := True, RXNEIE := True\<rparr>\<rparr>)"
  using assms
  by (simp add: open_device_def serial_driver_def stm32_uart_ops_def open_activated_def rt_serial_open_def open_rx_def open_tx_def
      control_hw_def stm32_control_def RT_DEVICE_CTRL_SET_INT_def RT_DEVICE_CTRL_CLR_INT_def Let_def registered_uart_def serial_flags err_defs
      RT_EIO_def)

text \<open>
  From a registered UART to a shell that listens: the board makes the UART the console, the shell makes the console its
  device, and then the device is open twice, with interrupt reception and an empty FIFO, and announces its bytes
  to the shell; both calls succeed when the UART can be set up and the FIFO allocated.
\<close>

theorem console_to_shell:
  assumes "rt_device_find name k t = Inr (Some i)" "is_device i t" "devices t i = registered_uart"
    and "hal (uart_settings (config s)) (hw s) = (True, w)" "\<not> RXNE w" "mem (12 + ucast (bufsz (config s)))" "2 \<le> unat (bufsz (config s))"
    and "sem_inv sem k" "waiting sem k = []" "sh \<noteq> idle_thread"
  shows "\<exists>ts t' s'. rt_console_set_device (\<lambda>_. serial_driver (stm32_uart_ops hal mem) at_addr) name k (None, t, s) = Inr (None, Some i, ts) \<and>
    finsh_set_device (\<lambda>_. serial_driver (stm32_uart_ops hal mem) at_addr) name k (None, ts) = Inr (True, Some i, t', s') \<and>
    ref_count (devices t' i) = 2 \<and>
    input_start (bufsz (config s)) i sh \<lparr>table = t', serial = s', rx_sem = sem, kern = k, pc = Reading, got = []\<rparr>"
proof -
  let ?d1 = "registered_uart\<lparr>dev_flag := 0x513, open_flag := 0x4b, ref_count := 1\<rparr>"
  let ?d2 = "registered_uart\<lparr>dev_flag := 0x513, open_flag := 0x14b, ref_count := 2, rx_indicate := Some finsh_cb\<rparr>"
  let ?s1 = "s\<lparr>serial_rx := None, serial_tx := False, hw := w\<rparr>"
  let ?s2 = "?s1\<lparr>serial_rx := Some (new_fifo (bufsz (config s))), serial_tx := False, hw := w\<lparr>irq_enabled := True, RXNEIE := True\<rparr>\<rparr>"
  let ?t1 = "t\<lparr>devices := (devices t)(i := ?d1)\<rparr>" and ?t2 = "t\<lparr>devices := (devices t)(i := ?d2)\<rparr>"
  have fl: "RT_DEVICE_OFLAG_RDWR OR RT_DEVICE_FLAG_STREAM = 0x43"
    "(RT_DEVICE_OFLAG_RDWR OR RT_DEVICE_FLAG_INT_RX) OR RT_DEVICE_FLAG_STREAM = 0x143"
    by (simp_all add: RT_DEVICE_OFLAG_RDWR_def serial_flags)
  have find: "rt_device_find name k (t\<lparr>devices := ds\<rparr>) = Inr (Some i)" and dev: "is_device i (t\<lparr>devices := ds\<rparr>)" for ds
    using assms(1,2) by (simp_all add: rt_device_find_def is_device_def)
  have 1: "rt_console_set_device (\<lambda>_. serial_driver (stm32_uart_ops hal mem) at_addr) name k (None, t, s) = Inr (None, Some i, ?t1, ?s1)"
    using assms(1-3) console_opens [of hal s w mem at_addr, OF assms(4)]
    by (simp add: rt_console_set_device_def rt_device_open_def with_device_def fl)
  have 2: "finsh_set_device (\<lambda>_. serial_driver (stm32_uart_ops hal mem) at_addr) name k (None, ?t1, ?s1) = Inr (True, Some i, ?t2, ?s2)"
    using find dev shell_opens [of ?s1 mem hal at_addr] assms(6)
    by (simp add: finsh_set_device_def rt_device_open_def with_device_def fl rt_device_set_rx_indicate_def)
  have "input_start (bufsz (config s)) i sh \<lparr>table = ?t2, serial = ?s2, rx_sem = sem, kern = k, pc = Reading, got = []\<rparr>"
    using dev assms(5,7-10) by (simp add: input_start_def on_bits)
  with 1 2 show ?thesis by (intro exI [of _ "(?t1, ?s1)"] exI [of _ ?t2] exI [of _ ?s2]) simp
qed

theorem console_to_shell_witness:
  "\<exists>ts t' s'. rt_console_set_device (\<lambda>_. serial_driver (stm32_uart_ops (\<lambda>_ w. (True, w)) (\<lambda>_. True)) (\<lambda>_. None)) [117] demo
      (None, one_device\<lparr>registered := (registered one_device)\<lparr>objects := \<lambda>_. \<lparr>obj_name = name_field [117], obj_type = 0x89, obj_flag = 0\<rparr>\<rparr>,
         devices := \<lambda>_. registered_uart\<rparr>, demo_serial) = Inr (None, Some 1, ts) \<and>
    input_start 64 1 2 \<lparr>table = t', serial = s', rx_sem = demo_sem 0, kern = demo, pc = Reading, got = []\<rparr>"
  (is "\<exists>ts t' s'. rt_console_set_device _ _ _ (None, ?t, _) = _ \<and> _")
proof -
  have "rt_device_find [117] demo ?t = Inr (Some 1)"
    by (simp add: rt_device_find_def rt_object_find_def device_container one_device_def link_object_def not_in_interrupt_def demo_def no_devices_def
        name_field_def RT_NAME_MAX_def eval_nat_numeral)
  moreover have "is_device 1 ?t" by (simp add: is_device_def rt_object_get_type_def RT_Object_Class_Static_def RT_Object_Class_Device_def)
  moreover have "waiting (demo_sem 0) demo = []" by (simp add: demo_sem_def demo_def)
  ultimately show ?thesis
    using console_to_shell [of "[117]" demo ?t 1 "\<lambda>_ w. (True, w)" demo_serial "hw demo_serial" "\<lambda>_. True" "demo_sem 0" 2 "\<lambda>_. None"]
      demo_sem_inv demo_runs(2) by (auto simp: demo_serial_def quiet_def)
qed

end
