(* ===== verification/Spec2Isabelle.thy ===== *)
theory Spec2Isabelle
  imports Motor Duoji Ps2 Sensors RingBuffer Mutex Event Mailbox Mqueue Mempool I2c Heap Kstring Terminal Console
begin

text \<open>
  Firmware of a remote-controlled inspection car: an STM32G431 that runs RT-Thread 4.1. The application
  (\<open>applications/\<close>) is a set of threads, each an endless loop with delays: \<open>ps2.c\<close> reads a wireless joypad
  and publishes stick positions and keys in global variables, \<open>motor.c\<close> turns them into speeds of two drive motors,
  \<open>duoji.c\<close> into the pulses of two camera servos, \<open>aht10.c\<close>, \<open>key.c\<close>, \<open>hardware.c\<close> and \<open>led.c\<close> measure, log, warn and
  draw with \<open>lcd.c\<close> on a display. They reach the hardware through pins and PWM devices (\<open>drivers/drv_pwm.c\<close>,
  \<open>rt-thread/components/drivers/misc/rt_drv_pwm.c\<close>). Below is the kernel (\<open>rt-thread/src\<close>): scheduler, timers,
  threads, semaphores, mutexes, events, mailboxes, message queues, memory pools, the heap, objects and devices, and the
  service functions; beside it the drivers of the UART and of the I2C bus, a byte ring, the console and the shell.

  \<^bold>\<open>How the code is modelled.\<close> Every function is a definition of the same name, or nearly; a loop is a recursive function
  or a definition of its own. A structure is a record, machine integers are words of their width, pointers to kernel objects
  are names and lists are lists. An access outside an array, a failing assertion, a null pointer and other undefined
  behaviour are values of \<open>fault\<close> in a sum. A loop that may not end is partial (\<open>None\<close>). Hardware is an
  argument: what a pin reads is any function of the history of accesses. A call that can wait is split where it
  gives up the processor or enables interrupts, and runs are sequences of calls, resumptions and ticks in any order.

  \<^bold>\<open>Theories.\<close>

  \<^item> \<open>Prelude\<close>: words, faults and the error monad; the locales \<open>guarded_system\<close> (an invariant kept by every run) and
    \<open>simulation\<close> (a step that follows a specification step by step), interpreted by most components.
  \<^item> \<open>Pins\<close>, \<open>Pwm\<close>: pin numbers, the history of accesses, the PWM device and its timer registers.
  \<^item> \<open>Float32\<close>, \<open>Motor\<close>: single-precision arithmetic as the motor filter uses it, and the motor thread: pulses stay
    within the period, speeds change by at most two ramp steps, the car comes to rest.
  \<^item> \<open>Duoji\<close>: the servo thread and the range of its pulses. \<open>Ps2\<close>: the bit-banged joypad protocol, round trip of a frame.
    \<open>Lcd\<close>: the display protocol, line and circle drawing against their points. \<open>Sensors\<close>: the
    DHT11 transaction, the log, the warning and the counting threads.
  \<^item> \<open>RingBuffer\<close>: \<open>components/drivers/ipc/ringbuffer.c\<close> refines a bounded queue (locale \<open>byte_fifo\<close>).
  \<^item> \<open>Kernel\<close> (\<open>scheduler.c\<close>), \<open>Timer\<close> (\<open>timer.c\<close>), \<open>Thread\<close> (\<open>thread.c\<close>, \<open>clock.c\<close>, \<open>idle.c\<close>): the state of the
    kernel, \<open>kernel_inv\<close> and its preservation, the most urgent thread runs, a tick wakes exactly the threads that are due.
  \<^item> \<open>Ipc\<close>, \<open>Mutex\<close>, \<open>Event\<close>, \<open>Waiters\<close>, \<open>Mailbox\<close>, \<open>Mqueue\<close> (all \<open>ipc.c\<close>): waiting lists and semaphores, priority
    inheritance, event sets against the specification \<open>serve\<close>, and two queues against one abstract queue (locale
    \<open>blocking_queue\<close>), with no lost wake-up.
  \<^item> \<open>Device\<close> (\<open>object.c\<close>, \<open>device.c\<close>): the list of devices refines a map from names; opens and closes of a device balance
    (locale \<open>device_driver\<close>). \<open>Serial\<close> (\<open>serial.c\<close>, \<open>drv_usart.c\<close>): the serial device and the UART below it: what is
    read is what arrived, what is written is sent, in order. \<open>Console\<close> (\<open>kservice.c\<close>, \<open>shell.c\<close>): \<open>rt_kprintf\<close> and
    \<open>finsh_getchar\<close> on that device, with the interrupt and the semaphore between it and the shell thread.
  \<^item> \<open>I2c\<close> (\<open>i2c-bit-ops.c\<close>, \<open>i2c_core.c\<close>, \<open>drv_soft_i2c.c\<close>): the bit-banged master against a slave that is a state
    machine on the two lines: messages are delivered, transfers end whatever the hardware does.
  \<^item> \<open>Smem\<close>, \<open>Heap\<close>: \<open>mem.c\<close> on the words of the memory; allocation is first fit on a list of blocks,
    release joins blocks, and client programs find in their objects what they stored. \<open>Mempool\<close>: \<open>mempool.c\<close>, pools of
    blocks of one size, a partition of the area over every run, with the calls that wait for a block.
  \<^item> \<open>Kstring\<close>, \<open>Format\<close> (\<open>kservice.c\<close>): memory and string functions against their one-line specifications, and
    formatted output against the text of the format (\<open>format_text\<close>).
  \<^item> \<open>Msh\<close>, \<open>Shell\<close>, \<open>Terminal\<close> (\<open>components/finsh\<close>): splitting a line against its words (\<open>tokens\<close>), completion, running
    a command; the key handler simulates a line editor with history (\<open>edit\<close>); and a terminal that shows the line.

  \<^bold>\<open>Bounds.\<close> The kernel theorems ask for deadlines within half the tick range, as \<open>rt_timer_start\<close> asserts, and for
  waits below $2^31$ ticks in all; the motor filter needs 150 iterations to come to rest; strings are shorter than
  $2^31$ characters; a formatted text is shorter than that and does not reach over the end of the address space, and
  \<open>rt_vsnprintf\<close> is undefined otherwise, where the pointer or the \<open>int\<close> result of the code would wrap; \<open>heap_region\<close>
  says that a heap lies in the address space with room for its headers, and \<open>heap_sizes\<close> that no size above \<open>0xFFFFFFFC\<close> is
  asked for, where the alignment wraps to 0 and a block of 12 bytes is returned (\<open>smem_alloc_huge\<close>); I2C messages have
  7-bit addresses and plain flags, read or write, and the number of retries is not negative; the reception FIFO has at
  least 2 cells, of which one stays free; a line of the shell has less than 80 characters, and
  \<open>shell_long_line_faults\<close> shows by example what happens otherwise. No definition needs fuel: recursion is structural, by
  a measure, or partial with a proof that it ends.

  \<^bold>\<open>Not modelled.\<close> \<open>main.c\<close> and board set-up, which hold no logic; drivers and frameworks that \<open>rtconfig.h\<close> does not
  enable; the DMA and POSIX branches of the serial device; hooks and debug output of the kernel, and the entry of its IPC
  objects and threads in the object lists (\<open>Device\<close> has that of devices); multi-core, signals and other allocators; file systems and network, which are not configured; vendor libraries and generated code; the register
  switch of the processor port, whose contract (a saved context runs again) the scheduler relies on.
\<close>

end
